(* ===== verification/Machine.thy ===== *)
theory Machine
  imports Main "HOL-Library.Word" "HOL-Library.Monad_Syntax"
begin

text \<open>
  Prelude of the MachaOS development: the machine integers of the kernel (Rust's \<open>u8\<close>
  to \<open>u64\<close> as words, \<open>usize\<close> as naturals below \<open>2 ^ 64\<close> with the wrap-around of the
  release profile written out), little-endian byte codecs, and the lemmas on words, lists and
  bounded scans that the component theories share.

  The value of a computation that may panic is an option: \<open>None\<close> is a kernel panic (an index
  out of bounds, an \<open>unwrap\<close> of nothing), \<open>Some x\<close> a normal return of \<open>x\<close>.
\<close>

unbundle bit_operations_syntax

type_synonym u8 = "8 word"
type_synonym u16 = "16 word"
type_synonym u32 = "32 word"
type_synonym u64 = "64 word"
type_synonym usize = nat

type_synonym 'a exec = "'a option"

named_theorems bitmap_simps and layout_simps and table_simps

section \<open>Rust integer arithmetic\<close>

text \<open>
  \<open>wadd\<close> and \<open>wsub\<close> are \<open>+\<close> and \<open>-\<close> on \<open>usize\<close> as the release profile compiles
  them (\<open>Cargo.toml\<close> leaves overflow checks off), \<open>sat_add\<close> and \<open>sat_sub\<close> the saturating
  forms, \<open>checked_add\<close> and \<open>checked_mul\<close> the checked forms on words.
\<close>

definition wadd :: "usize \<Rightarrow> usize \<Rightarrow> usize" where
  "wadd a b = (a + b) mod 2 ^ 64"

definition wsub :: "usize \<Rightarrow> usize \<Rightarrow> usize" where
  "wsub a b = (a + 2 ^ 64 - b) mod 2 ^ 64"

definition sat_add :: "usize \<Rightarrow> usize \<Rightarrow> usize" where
  "sat_add a b = min (a + b) (2 ^ 64 - 1)"

definition sat_sub :: "usize \<Rightarrow> usize \<Rightarrow> usize" where
  "sat_sub a b = a - b"

definition checked_add :: "'a::len word \<Rightarrow> 'a word \<Rightarrow> 'a word option" where
  "checked_add a b = (if unat a + unat b < 2 ^ LENGTH('a) then Some (a + b) else None)"

definition checked_mul :: "'a::len word \<Rightarrow> 'a word \<Rightarrow> 'a word option" where
  "checked_mul a b = (if unat a * unat b < 2 ^ LENGTH('a) then Some (a * b) else None)"

definition div_ceil :: "nat \<Rightarrow> nat \<Rightarrow> nat" where
  "div_ceil a b = (if a mod b = 0 then a div b else a div b + 1)"

text \<open>\<open>align_up\<close> and \<open>align_down\<close> with the mask arithmetic of the source.\<close>

definition align_up :: "usize \<Rightarrow> usize \<Rightarrow> usize" where
  "align_up v a = unat ((of_nat v + of_nat a - 1 :: u64) AND NOT (of_nat a - 1))"

definition align_down :: "usize \<Rightarrow> usize \<Rightarrow> usize" where
  "align_down v a = unat ((of_nat v :: u64) AND NOT (of_nat a - 1))"

section \<open>Little-endian bytes\<close>

fun le_nat :: "u8 list \<Rightarrow> nat" where
  "le_nat [] = 0"
| "le_nat (b # bs) = unat b + 256 * le_nat bs"

fun to_le :: "nat \<Rightarrow> nat \<Rightarrow> u8 list" where
  "to_le 0 v = []"
| "to_le (Suc n) v = of_nat v # to_le n (v div 256)"

section \<open>Slices\<close>

text \<open>\<open>data.get(off..off + n)\<close>: \<open>None\<close> unless the whole range lies in the slice.\<close>

definition slice :: "'a list \<Rightarrow> nat \<Rightarrow> nat \<Rightarrow> 'a list option" where
  "slice xs off n = (if off + n \<le> length xs then Some (take n (drop off xs)) else None)"

text \<open>Checked indexing and assignment: out of bounds is a panic.\<close>

definition index :: "'a list \<Rightarrow> nat \<Rightarrow> 'a exec" where
  "index xs i = (if i < length xs then Some (xs ! i) else None)"

definition store :: "'a list \<Rightarrow> nat \<Rightarrow> 'a \<Rightarrow> 'a list exec" where
  "store xs i v = (if i < length xs then Some (xs[i := v]) else None)"

text \<open>A \<open>for\<close> loop whose body updates a state and may panic.\<close>

fun for_each :: "('a \<Rightarrow> 's \<Rightarrow> 's exec) \<Rightarrow> 'a list \<Rightarrow> 's \<Rightarrow> 's exec" where
  "for_each f [] s = Some s"
| "for_each f (x # xs) s = do { s' \<leftarrow> f x s; for_each f xs s' }"

section \<open>Operations on a state that may fail\<close>

text \<open>
  An operation with an error value on a state \<open>'s\<close>, as the methods that return a \<open>Result\<close>: the \<open>?\<close>
  operator is \<open>bnd\<close>; an error ends the operation and keeps the changes made so far.
\<close>

type_synonym ('s, 'e, 'a) op = "'s \<Rightarrow> (('e + 'a) \<times> 's) exec"

definition ret :: "'a \<Rightarrow> ('s, 'e, 'a) op" where "ret x v = Some (Inr x, v)"
definition fail :: "'e \<Rightarrow> ('s, 'e, 'a) op" where "fail e v = Some (Inl e, v)"

definition bnd :: "('s, 'e, 'a) op \<Rightarrow> ('a \<Rightarrow> ('s, 'e, 'b) op) \<Rightarrow> ('s, 'e, 'b) op" where
  "bnd m k v = (case m v of None \<Rightarrow> None | Some (Inl e, v') \<Rightarrow> Some (Inl e, v') | Some (Inr x, v') \<Rightarrow> k x v')"

definition gets :: "('s \<Rightarrow> 'a) \<Rightarrow> ('s, 'e, 'a) op" where "gets f v = Some (Inr (f v), v)"

definition panics :: "('s \<Rightarrow> 'a option) \<Rightarrow> ('s, 'e, 'a) op" where
  "panics f v = (case f v of None \<Rightarrow> None | Some x \<Rightarrow> Some (Inr x, v))"

text \<open>A \<open>for\<close> loop whose body may fail.\<close>

fun loop_op :: "('a \<Rightarrow> ('s, 'e, unit) op) \<Rightarrow> 'a list \<Rightarrow> ('s, 'e, unit) op" where
  "loop_op f [] = ret ()"
| "loop_op f (x # xs) = bnd (f x) (\<lambda>_. loop_op f xs)"

section \<open>Lemmas\<close>

lemma for_each_append: "for_each f (xs @ ys) s = do { s' \<leftarrow> for_each f xs s; for_each f ys s' }"
proof (induction xs arbitrary: s)
  case (Cons x xs)
  then show ?case by (cases "f x s") auto
qed simp

lemma wadd_small: "a + b < 2 ^ 64 \<Longrightarrow> wadd a b = a + b"
  by (simp add: wadd_def)

lemma wsub_small: "b \<le> a \<Longrightarrow> a < 2 ^ 64 \<Longrightarrow> wsub a b = a - b"
proof -
  assume ab: "b \<le> a" "a < 2 ^ 64"
  then have "a + 2 ^ 64 - b = (a - b) + 2 ^ 64" by simp
  with ab show "wsub a b = a - b"
    unfolding wsub_def by (simp only: mod_add_self2) simp
qed

lemma checked_add_Some:
  "checked_add a b = Some c \<longleftrightarrow> unat a + unat b < 2 ^ LENGTH('a) \<and> c = a + b"
  for a b c :: "'a::len word"
  by (auto simp: checked_add_def)

lemma unat_checked_add:
  "checked_add a b = Some c \<Longrightarrow> unat c = unat a + unat b"
  for a b c :: "'a::len word"
  by (auto simp: checked_add_def unat_word_ariths split: if_splits)

lemma unat_checked_mul:
  "checked_mul a b = Some c \<Longrightarrow> unat c = unat a * unat b"
  for a b c :: "'a::len word"
  by (auto simp: checked_mul_def unat_word_ariths split: if_splits)

lemma div_ceil_le_iff: "0 < b \<Longrightarrow> div_ceil a b \<le> n \<longleftrightarrow> a \<le> n * b"
proof -
  assume b: "0 < b"
  have lt: "a div b < n \<longleftrightarrow> a < n * b" using b by (simp add: div_less_iff_less_mult)
  have le: "a mod b = 0 \<Longrightarrow> a div b \<le> n \<longleftrightarrow> a \<le> n * b"
    using b by (metis dvd_imp_mod_0 mod_0_imp_dvd dvd_div_mult_self mult_le_cancel2)
  have ne: "a mod b \<noteq> 0 \<Longrightarrow> a \<noteq> n * b" by auto
  show ?thesis
    using lt le ne by (auto simp: div_ceil_def Suc_le_eq)
qed

lemma word_and_not_mask: "x AND NOT (2 ^ k - 1) = push_bit k (drop_bit k x)"
  for x :: "'a::len word"
proof -
  have "(2 ^ k - 1 :: 'a word) = mask k" by (simp add: mask_eq_exp_minus_1)
  then show ?thesis
    by (auto intro!: bit_word_eqI simp: bit_and_iff bit_not_iff bit_mask_iff bit_push_bit_iff bit_drop_bit_eq)
qed

lemma unat_push_drop: "unat (push_bit k (drop_bit k x)) = unat x div 2 ^ k * 2 ^ k"
  for x :: "'a::len word"
proof -
  have "unat x div 2 ^ k * 2 ^ k \<le> unat x" by simp
  also have "\<dots> < 2 ^ LENGTH('a)" by simp
  finally have lt: "unat x div 2 ^ k * 2 ^ k < 2 ^ LENGTH('a)" .
  have "unat (push_bit k (drop_bit k x)) = take_bit LENGTH('a) (push_bit k (drop_bit k (unat x)))"
    by (simp only: unsigned_push_bit_eq unsigned_drop_bit_eq) (simp add: take_bit_nat_eq_self)
  also have "\<dots> = unat x div 2 ^ k * 2 ^ k"
    using lt by (simp add: push_bit_eq_mult drop_bit_eq_div take_bit_nat_eq_self)
  finally show ?thesis .
qed

lemma unat_align: "unat (x AND NOT (2 ^ k - 1)) = unat x div 2 ^ k * 2 ^ k"
  for x :: "'a::len word"
  by (simp add: word_and_not_mask unat_push_drop)

lemma length_to_le [simp]: "length (to_le n v) = n"
  by (induction n arbitrary: v) auto

lemma le_nat_bound: "le_nat bs < 256 ^ length bs"
proof (induction bs)
  case (Cons b bs)
  have "unat b < 256" using unsigned_less [of b, where ?'a = nat] by simp
  with Cons show ?case by simp
qed simp

lemma le_nat_to_le: "le_nat (to_le n v) = v mod 256 ^ n"
proof (induction n arbitrary: v)
  case (Suc n)
  have "v mod 256 ^ Suc n = v mod 256 + 256 * (v div 256 mod 256 ^ n)"
    by (simp add: mod_mult2_eq)
  with Suc show ?case by (simp add: unat_of_nat)
qed simp

lemma slice_Some_iff:
  "slice xs off n = Some ys \<longleftrightarrow> off + n \<le> length xs \<and> ys = take n (drop off xs)"
  by (auto simp: slice_def)

lemma slice_length: "slice xs off n = Some ys \<Longrightarrow> length ys = n"
  by (auto simp: slice_def split: if_splits)

end
