(* ===== verification/Multiboot.thy ===== *)
theory Multiboot
  imports Machine
begin

text \<open>
  \<open>src/src/multiboot.rs\<close>: the accessors of the Multiboot information structure. The physical
  memory the boot loader filled is a function from addresses to bytes, an argument of every
  accessor; the raw pointer reads of the source are reads of that function. The iterator over
  the memory map is the step function \<open>mmap_next\<close>, and \<open>mmap_collect\<close> the \<open>for\<close> loop that
  drains it. All addresses come from \<open>u32\<close> fields, so the additions of the source stay far
  below \<open>2 ^ 64\<close> and are additions of naturals here.
\<close>

type_synonym phys_mem = "usize \<Rightarrow> u8"

section \<open>Raw reads\<close>

definition read_bytes :: "phys_mem \<Rightarrow> usize \<Rightarrow> nat \<Rightarrow> u8 list" where
  "read_bytes mem a n = map mem [a..<a + n]"

definition read_u8 :: "phys_mem \<Rightarrow> usize \<Rightarrow> usize \<Rightarrow> u8" where
  "read_u8 mem addr offset = mem (addr + offset)"

definition read_u32 :: "phys_mem \<Rightarrow> usize \<Rightarrow> usize \<Rightarrow> u32" where
  "read_u32 mem addr offset = of_nat (le_nat (read_bytes mem (addr + offset) 4))"

definition read_u64 :: "phys_mem \<Rightarrow> usize \<Rightarrow> usize \<Rightarrow> u64" where
  "read_u64 mem addr offset = of_nat (le_nat (read_bytes mem (addr + offset) 8))"

section \<open>MultibootInfo\<close>

definition mb_flags :: "phys_mem \<Rightarrow> usize \<Rightarrow> u32" where
  "mb_flags mem addr = read_u32 mem addr 0"

definition memory_lower_kb :: "phys_mem \<Rightarrow> usize \<Rightarrow> u32 option" where
  "memory_lower_kb mem addr =
     (if mb_flags mem addr AND 1 \<noteq> 0 then Some (read_u32 mem addr 4) else None)"

definition memory_upper_kb :: "phys_mem \<Rightarrow> usize \<Rightarrow> u32 option" where
  "memory_upper_kb mem addr =
     (if mb_flags mem addr AND 1 \<noteq> 0 then Some (read_u32 mem addr 8) else None)"

text \<open>
  \<open>cstr\<close> scans for a NUL byte; over memory that has none above \<open>addr\<close> the scan does not
  end, which is the value \<open>None\<close>.
\<close>

partial_function (option) cstr_end :: "phys_mem \<Rightarrow> usize \<Rightarrow> usize option" where
  "cstr_end mem e = (if mem e \<noteq> 0 then cstr_end mem (e + 1) else Some e)"

definition cstr :: "phys_mem \<Rightarrow> usize \<Rightarrow> u8 list option" where
  "cstr mem addr = do { e \<leftarrow> cstr_end mem addr; Some (read_bytes mem addr (e - addr)) }"

text \<open>The outer option is termination of the scan, the inner one the source's \<open>Option\<close>.\<close>

definition cmdline :: "phys_mem \<Rightarrow> usize \<Rightarrow> u8 list option option" where
  "cmdline mem addr =
     (if mb_flags mem addr AND push_bit 2 1 = 0 then Some None
      else do { s \<leftarrow> cstr mem (unat (read_u32 mem addr 16)); Some (Some s) })"

definition boot_loader_name :: "phys_mem \<Rightarrow> usize \<Rightarrow> u8 list option option" where
  "boot_loader_name mem addr =
     (if mb_flags mem addr AND push_bit 9 1 = 0 then Some None
      else do { s \<leftarrow> cstr mem (unat (read_u32 mem addr 64)); Some (Some s) })"

record framebuffer_info =
  fb_addr :: u64
  fb_pitch :: u32
  fb_width :: u32
  fb_height :: u32
  fb_bpp :: u8

definition framebuffer :: "phys_mem \<Rightarrow> usize \<Rightarrow> framebuffer_info option" where
  "framebuffer mem addr =
     (if mb_flags mem addr AND push_bit 12 1 = 0 then None
      else
        let a = read_u64 mem addr 88;
            pitch = read_u32 mem addr 96;
            width = read_u32 mem addr 100;
            height = read_u32 mem addr 104;
            bpp = read_u8 mem addr 108
        in if a = 0 \<or> width = 0 \<or> height = 0 \<or> bpp = 0 then None
           else Some \<lparr>fb_addr = a, fb_pitch = pitch, fb_width = width, fb_height = height,
                      fb_bpp = bpp\<rparr>)"

section \<open>The memory map\<close>

record memory_region =
  mr_base :: u64
  mr_length :: u64
  region_type :: u32

definition type_name :: "memory_region \<Rightarrow> string" where
  "type_name r =
     (if region_type r = 1 then ''usable''
      else if region_type r = 2 then ''reserved''
      else if region_type r = 3 then ''ACPI reclaimable''
      else if region_type r = 4 then ''ACPI NVS''
      else if region_type r = 5 then ''bad RAM''
      else ''unknown'')"

record memory_map_iter =
  it_current :: usize
  it_end :: usize

definition memory_map :: "phys_mem \<Rightarrow> usize \<Rightarrow> memory_map_iter" where
  "memory_map mem addr =
     (if mb_flags mem addr AND push_bit 6 1 = 0 then \<lparr>it_current = 0, it_end = 0\<rparr>
      else
        let len = unat (read_u32 mem addr 44);
            start = unat (read_u32 mem addr 48)
        in \<lparr>it_current = start, it_end = start + len\<rparr>)"

definition mmap_next ::
  "phys_mem \<Rightarrow> memory_map_iter \<Rightarrow> (memory_region \<times> memory_map_iter) option" where
  "mmap_next mem it =
     (if it_current it \<ge> it_end it then None
      else
        let size = unat (read_u32 mem (it_current it) 0);
            base = read_u64 mem (it_current it) 4;
            len = read_u64 mem (it_current it) 12;
            rtype = read_u32 mem (it_current it) 20
        in Some (\<lparr>mr_base = base, mr_length = len, region_type = rtype\<rparr>,
                 it\<lparr>it_current := it_current it + size + 4\<rparr>))"

function mmap_collect :: "phys_mem \<Rightarrow> memory_map_iter \<Rightarrow> memory_region list" where
  "mmap_collect mem it =
     (case mmap_next mem it of
        None \<Rightarrow> []
      | Some (r, it') \<Rightarrow> r # mmap_collect mem it')"
  by pat_completeness auto
termination
  by (relation "measure (\<lambda>(mem, it). it_end it - it_current it)")
     (auto simp: mmap_next_def Let_def split: if_splits)

declare mmap_collect.simps [simp del]

section \<open>The layout the boot loader writes\<close>

text \<open>
  One entry of the map as the Multiboot 1 layout has it: a \<open>u32\<close> size that does not count
  itself, base, length, type, and padding up to that size.
\<close>

definition entry_bytes :: "memory_region \<Rightarrow> u8 list \<Rightarrow> u8 list" where
  "entry_bytes r pad =
     to_le 4 (20 + length pad) @ to_le 8 (unat (mr_base r)) @ to_le 8 (unat (mr_length r))
       @ to_le 4 (unat (region_type r)) @ pad"

fun map_bytes :: "(memory_region \<times> u8 list) list \<Rightarrow> u8 list" where
  "map_bytes [] = []"
| "map_bytes ((r, pad) # es) = entry_bytes r pad @ map_bytes es"

definition holds_at :: "phys_mem \<Rightarrow> usize \<Rightarrow> u8 list \<Rightarrow> bool" where
  "holds_at mem a bs \<longleftrightarrow> read_bytes mem a (length bs) = bs"

section \<open>Lemmas\<close>

lemma length_read_bytes [simp]: "length (read_bytes mem a n) = n"
  by (simp add: read_bytes_def)

lemma read_bytes_append: "read_bytes mem a (m + n) = read_bytes mem a m @ read_bytes mem (a + m) n"
  using upt_add_eq_append [of a "a + m" n] by (simp add: read_bytes_def add.assoc)

lemma holds_at_append:
  "holds_at mem a (xs @ ys) \<longleftrightarrow> holds_at mem a xs \<and> holds_at mem (a + length xs) ys"
  by (auto simp: holds_at_def read_bytes_append)

lemma holds_at_Nil [simp]: "holds_at mem a []"
  by (simp add: holds_at_def read_bytes_def)

lemma read_u32_holds:
  assumes "holds_at mem (a + off) (to_le 4 v)" "v < 2 ^ 32"
  shows "unat (read_u32 mem a off) = v"
  using assms by (simp add: read_u32_def holds_at_def le_nat_to_le unat_of_nat)

lemma read_u64_holds:
  assumes "holds_at mem (a + off) (to_le 8 v)" "v < 2 ^ 64"
  shows "unat (read_u64 mem a off) = v"
  using assms by (simp add: read_u64_def holds_at_def le_nat_to_le unat_of_nat)

lemma unat_u32_bound: "unat (w :: u32) < 2 ^ 32"
  using unsigned_less [of w, where ?'a = nat] by simp

lemma unat_u64_bound: "unat (w :: u64) < 2 ^ 64"
  using unsigned_less [of w, where ?'a = nat] by simp

lemma mmap_next_entry:
  assumes h: "holds_at mem a (entry_bytes r pad)" and lt: "a < e" and pad: "length pad < 2 ^ 31"
  shows "mmap_next mem \<lparr>it_current = a, it_end = e\<rparr>
           = Some (r, \<lparr>it_current = a + length (entry_bytes r pad), it_end = e\<rparr>)"
proof -
  from h have parts: "holds_at mem a (to_le 4 (20 + length pad))"
      "holds_at mem (a + 4) (to_le 8 (unat (mr_base r)))"
      "holds_at mem (a + 12) (to_le 8 (unat (mr_length r)))"
      "holds_at mem (a + 20) (to_le 4 (unat (region_type r)))"
    by (simp_all add: entry_bytes_def holds_at_append add.assoc)
  have size: "unat (read_u32 mem a 0) = 20 + length pad"
    using parts(1) pad by (intro read_u32_holds) simp_all
  have base: "read_u64 mem a 4 = mr_base r"
    using read_u64_holds [OF parts(2) unat_u64_bound] by (simp add: word_unat_eq_iff)
  have len: "read_u64 mem a 12 = mr_length r"
    using read_u64_holds [OF parts(3) unat_u64_bound] by (simp add: word_unat_eq_iff)
  have ty: "read_u32 mem a 20 = region_type r"
    using read_u32_holds [OF parts(4) unat_u32_bound] by (simp add: word_unat_eq_iff)
  show ?thesis
    using lt by (simp add: mmap_next_def Let_def size base len ty entry_bytes_def)
qed

lemma mmap_collect_done: "e \<le> a \<Longrightarrow> mmap_collect mem \<lparr>it_current = a, it_end = e\<rparr> = []"
  by (subst mmap_collect.simps) (simp add: mmap_next_def)

lemma mmap_collect_map_bytes:
  assumes "holds_at mem a (map_bytes es)" "\<forall>(r, pad) \<in> set es. length pad < 2 ^ 31"
  shows "mmap_collect mem \<lparr>it_current = a, it_end = a + length (map_bytes es)\<rparr> = map fst es"
  using assms
proof (induction es arbitrary: a)
  case Nil
  then show ?case by (simp add: mmap_collect_done)
next
  case (Cons e es)
  obtain r pad where e: "e = (r, pad)" by (cases e)
  from Cons.prems(1) have h: "holds_at mem a (entry_bytes r pad)"
      and rest: "holds_at mem (a + length (entry_bytes r pad)) (map_bytes es)"
    by (simp_all add: e holds_at_append)
  have pos: "0 < length (entry_bytes r pad)" by (simp add: entry_bytes_def)
  have IH: "mmap_collect mem \<lparr>it_current = a + length (entry_bytes r pad),
      it_end = a + length (entry_bytes r pad) + length (map_bytes es)\<rparr> = map fst es"
    using Cons.IH [OF rest] Cons.prems(2) by simp
  have "mmap_next mem \<lparr>it_current = a, it_end = a + length (map_bytes (e # es))\<rparr>
      = Some (r, \<lparr>it_current = a + length (entry_bytes r pad),
                  it_end = a + length (map_bytes (e # es))\<rparr>)"
    using Cons.prems(2) pos by (intro mmap_next_entry [OF h]) (auto simp: e)
  then show ?case
    by (subst mmap_collect.simps) (use IH e in \<open>simp add: add.assoc\<close>)
qed

lemma cstr_end_zero: "mem (a + n) = 0 \<Longrightarrow> \<forall>i < n. mem (a + i) \<noteq> 0 \<Longrightarrow> cstr_end mem a = Some (a + n)"
proof (induction n arbitrary: a)
  case 0
  then show ?case by (subst cstr_end.simps) simp
next
  case (Suc n)
  have "mem a \<noteq> 0" using Suc.prems(2) by (metis add.right_neutral zero_less_Suc)
  moreover have "cstr_end mem (Suc a) = Some (Suc a + n)"
  proof (rule Suc.IH)
    show "mem (Suc a + n) = 0" using Suc.prems(1) by simp
    show "\<forall>i < n. mem (Suc a + i) \<noteq> 0"
      using Suc.prems(2) by (metis Suc_less_eq add_Suc add_Suc_right)
  qed
  ultimately show ?case by (subst cstr_end.simps) simp
qed

end
