(* ===== verification/Pmm.thy ===== *)
theory Pmm
  imports Machine Multiboot
begin

text \<open>
  \<open>src/src/pmm.rs\<close>: the physical memory manager, a bitmap of 4 KiB frames. The static
  \<open>BITMAP\<close> and \<open>LAST_USABLE_FRAME\<close> are the record \<open>pmm\<close>; every bitmap access is bounds
  checked as in the source, so an operation that would index outside the 8192 bytes panics
  (\<open>None\<close>). The abstract state is \<open>avail\<close>, the set of frame numbers that can be handed out.
  The locale \<open>frame_source\<close> is the contract the clients (shared memory, processes) rely on;
  it is interpreted on the operations of this file.
\<close>

section \<open>State and constants\<close>

definition FRAME_SIZE :: usize where
  "FRAME_SIZE = 4096"

definition MAX_PHYS_MEM :: usize where
  "MAX_PHYS_MEM = 256 * 1024 * 1024"

definition FRAME_COUNT :: usize where
  "FRAME_COUNT = MAX_PHYS_MEM div FRAME_SIZE"

definition BITMAP_BYTES :: usize where
  "BITMAP_BYTES = FRAME_COUNT div 8"

definition LOW_RESERVED_END :: usize where
  "LOW_RESERVED_END = 64 * 1024 * 1024"

lemmas pmm_consts = FRAME_SIZE_def MAX_PHYS_MEM_def FRAME_COUNT_def BITMAP_BYTES_def
  LOW_RESERVED_END_def

record pmm =
  bitmap :: "u8 list"
  last_usable_frame :: usize

definition pmm_boot :: pmm where
  "pmm_boot = \<lparr>bitmap = replicate BITMAP_BYTES 0xFF, last_usable_frame = 0\<rparr>"

section \<open>Bitmap operations\<close>

definition set_frame :: "usize \<Rightarrow> u8 list \<Rightarrow> u8 list exec" where
  "set_frame frame bm = do {
     b \<leftarrow> index bm (frame div 8);
     store bm (frame div 8) (b OR push_bit (frame mod 8) 1) }"

definition clear_frame :: "usize \<Rightarrow> u8 list \<Rightarrow> u8 list exec" where
  "clear_frame frame bm = do {
     b \<leftarrow> index bm (frame div 8);
     store bm (frame div 8) (b AND NOT (push_bit (frame mod 8) 1)) }"

definition frame_is_free :: "usize \<Rightarrow> u8 list \<Rightarrow> bool exec" where
  "frame_is_free frame bm = do {
     b \<leftarrow> index bm (frame div 8);
     Some (b AND push_bit (frame mod 8) 1 = 0) }"

text \<open>The \<open>while\<close> and \<open>for\<close> loops over frames.\<close>

function reserve_loop :: "usize \<Rightarrow> usize \<Rightarrow> u8 list \<Rightarrow> u8 list exec" where
  "reserve_loop frame e bm =
     (if frame * FRAME_SIZE < e
      then do { bm' \<leftarrow> set_frame frame bm; reserve_loop (frame + 1) e bm' }
      else Some bm)"
  by pat_completeness auto
termination
  by (relation "measure (\<lambda>(frame, e, bm). e - frame)") (auto simp: FRAME_SIZE_def)

function clear_loop :: "usize \<Rightarrow> usize \<Rightarrow> u8 list \<Rightarrow> u8 list exec" where
  "clear_loop frame end_frame bm =
     (if frame < end_frame
      then do { bm' \<leftarrow> clear_frame frame bm; clear_loop (frame + 1) end_frame bm' }
      else Some bm)"
  by pat_completeness auto
termination
  by (relation "measure (\<lambda>(frame, e, bm). e - frame)") auto

function set_range :: "usize \<Rightarrow> usize \<Rightarrow> u8 list \<Rightarrow> u8 list exec" where
  "set_range f e bm =
     (if f < e then do { bm' \<leftarrow> set_frame f bm; set_range (f + 1) e bm' } else Some bm)"
  by pat_completeness auto
termination
  by (relation "measure (\<lambda>(f, e, bm). e - f)") auto

declare reserve_loop.simps [simp del] clear_loop.simps [simp del] set_range.simps [simp del]

section \<open>Boot-time operations\<close>

definition mark_reserved :: "usize \<Rightarrow> usize \<Rightarrow> pmm \<Rightarrow> pmm exec" where
  "mark_reserved base len p =
     (if len = 0 then Some p
      else
        let start = align_down base FRAME_SIZE;
            e = min (align_up (sat_add base len) FRAME_SIZE) MAX_PHYS_MEM
        in do {
             bm \<leftarrow> reserve_loop (start div FRAME_SIZE) e (bitmap p);
             Some (p\<lparr>bitmap := bm\<rparr>) })"

text \<open>The body of the loop over the memory map; the accumulator is \<open>last_frame\<close>.\<close>

definition init_region :: "memory_region \<Rightarrow> usize \<times> u8 list \<Rightarrow> (usize \<times> u8 list) exec" where
  "init_region r acc =
     (case acc of (last_frame, bm) \<Rightarrow>
        if region_type r \<noteq> 1 then Some (last_frame, bm)
        else if mr_base r < 1024 * 1024 then Some (last_frame, bm)
        else
          let start = unat (mr_base r);
              e = unat (mr_base r + mr_length r);
              start_frame = align_up start FRAME_SIZE div FRAME_SIZE;
              end_frame = min (align_down e FRAME_SIZE) MAX_PHYS_MEM div FRAME_SIZE;
              last_frame' = (if end_frame > last_frame then end_frame - 1 else last_frame)
          in do {
               bm' \<leftarrow> clear_loop start_frame end_frame bm;
               Some (last_frame', bm') })"

fun init_regions :: "memory_region list \<Rightarrow> usize \<times> u8 list \<Rightarrow> (usize \<times> u8 list) exec" where
  "init_regions [] acc = Some acc"
| "init_regions (r # rs) acc = do { acc' \<leftarrow> init_region r acc; init_regions rs acc' }"

text \<open>\<open>kernel_start\<close> and \<open>kernel_end\<close> are the linker's symbols.\<close>

definition pmm_init ::
  "memory_region list \<Rightarrow> usize \<Rightarrow> usize \<Rightarrow> pmm \<Rightarrow> pmm exec" where
  "pmm_init regions kernel_start kernel_end p = do {
     (last_frame, bm) \<leftarrow> init_regions regions (0, bitmap p);
     p1 \<leftarrow> mark_reserved kernel_start (wsub kernel_end kernel_start)
             \<lparr>bitmap = bm, last_usable_frame = last_frame\<rparr>;
     mark_reserved 0 LOW_RESERVED_END p1 }"

section \<open>Allocation and release\<close>

function frame_scan :: "usize \<Rightarrow> pmm \<Rightarrow> (usize option \<times> pmm) exec" where
  "frame_scan frame p =
     (if frame \<le> last_usable_frame p then do {
        free \<leftarrow> frame_is_free frame (bitmap p);
        if free then do {
          bm \<leftarrow> set_frame frame (bitmap p);
          Some (Some (frame * FRAME_SIZE), p\<lparr>bitmap := bm\<rparr>) }
        else frame_scan (frame + 1) p }
      else Some (None, p))"
  by pat_completeness auto
termination
  by (relation "measure (\<lambda>(frame, p). last_usable_frame p + 1 - frame)") auto

definition frame_alloc :: "pmm \<Rightarrow> (usize option \<times> pmm) exec" where
  "frame_alloc p = frame_scan 0 p"

function run_scan ::
  "usize \<Rightarrow> usize \<Rightarrow> usize \<Rightarrow> usize \<Rightarrow> pmm \<Rightarrow> (usize option \<times> pmm) exec" where
  "run_scan frame run_start run_len count p =
     (if frame \<le> last_usable_frame p then do {
        free \<leftarrow> frame_is_free frame (bitmap p);
        if free then
          let run_start' = (if run_len = 0 then frame else run_start);
              run_len' = run_len + 1
          in if run_len' = count then do {
               bm \<leftarrow> set_range run_start' (run_start' + count) (bitmap p);
               Some (Some (run_start' * FRAME_SIZE), p\<lparr>bitmap := bm\<rparr>) }
             else run_scan (frame + 1) run_start' run_len' count p
        else run_scan (frame + 1) run_start 0 count p }
      else Some (None, p))"
  by pat_completeness auto
termination
  by (relation "measure (\<lambda>(frame, rs, rl, c, p). last_usable_frame p + 1 - frame)") auto

definition alloc_contiguous :: "usize \<Rightarrow> pmm \<Rightarrow> (usize option \<times> pmm) exec" where
  "alloc_contiguous count p =
     (if count = 0 \<or> count - 1 > last_usable_frame p then Some (None, p)
      else run_scan 0 0 0 count p)"

definition frame_free :: "usize \<Rightarrow> pmm \<Rightarrow> pmm exec" where
  "frame_free phys p =
     (if phys mod FRAME_SIZE \<noteq> 0 \<or> phys \<ge> MAX_PHYS_MEM then Some p
      else do {
        bm \<leftarrow> clear_frame (phys div FRAME_SIZE) (bitmap p);
        Some (p\<lparr>bitmap := bm\<rparr>) })"

function count_from :: "usize \<Rightarrow> usize \<Rightarrow> pmm \<Rightarrow> usize exec" where
  "count_from frame free p =
     (if frame \<le> last_usable_frame p then do {
        b \<leftarrow> frame_is_free frame (bitmap p);
        count_from (frame + 1) (if b then free + 1 else free) p }
      else Some free)"
  by pat_completeness auto
termination
  by (relation "measure (\<lambda>(frame, c, p). last_usable_frame p + 1 - frame)") auto

declare frame_scan.simps [simp del] run_scan.simps [simp del] count_from.simps [simp del]

definition count_free :: "pmm \<Rightarrow> usize exec" where
  "count_free p = count_from 0 0 p"

definition free_frames :: "pmm \<Rightarrow> usize exec" where
  "free_frames p = count_free p"

definition total_frames :: "pmm \<Rightarrow> usize" where
  "total_frames p = last_usable_frame p + 1"

definition used_frames :: "pmm \<Rightarrow> usize exec" where
  "used_frames p = do { c \<leftarrow> count_free p; Some (wsub (last_usable_frame p + 1) c) }"

section \<open>Abstraction\<close>

text \<open>
  Frame \<open>g\<close> lies inside a usable region at or above 1 MiB; frame \<open>g\<close> meets the byte range
  \<open>[a, b)\<close>.
\<close>

definition region_gives :: "memory_region \<Rightarrow> nat \<Rightarrow> bool" where
  "region_gives r g \<longleftrightarrow> region_type r = 1 \<and> mr_base r \<ge> 1024 * 1024
     \<and> unat (mr_base r) \<le> g * FRAME_SIZE \<and> (g + 1) * FRAME_SIZE \<le> unat (mr_base r + mr_length r)
     \<and> g < FRAME_COUNT"

definition meets_frame :: "usize \<Rightarrow> usize \<Rightarrow> nat \<Rightarrow> bool" where
  "meets_frame a b g \<longleftrightarrow> a < b \<and> g * FRAME_SIZE < b \<and> a < (g + 1) * FRAME_SIZE"

definition frame_used :: "u8 list \<Rightarrow> nat \<Rightarrow> bool" where
  "frame_used bm f \<longleftrightarrow> bit (bm ! (f div 8)) (f mod 8)"

definition pmm_inv :: "pmm \<Rightarrow> bool" where
  "pmm_inv p \<longleftrightarrow> length (bitmap p) = BITMAP_BYTES \<and> last_usable_frame p < FRAME_COUNT"

definition avail :: "pmm \<Rightarrow> nat set" where
  "avail p = {f. f \<le> last_usable_frame p \<and> \<not> frame_used (bitmap p) f}"

section \<open>Bitmap lemmas\<close>

lemma frame_slot_eq: "f div 8 = g div 8 \<Longrightarrow> g mod 8 = f mod 8 \<Longrightarrow> g = (f :: nat)"
  by (metis mult_div_mod_eq)

lemma bitmap_index: "f < 8 * length bm \<Longrightarrow> f div 8 < length bm"
  for f :: nat by (simp add: less_mult_imp_div_less mult.commute)

lemma bit_set_u8: "n < 8 \<Longrightarrow> bit ((b :: u8) OR 2 ^ n) m \<longleftrightarrow> bit b m \<or> m = n"
  by (auto simp: bit_or_iff bit_exp_iff)

lemma bit_clear_u8: "bit ((b :: u8) AND NOT (2 ^ n)) m \<longleftrightarrow> bit b m \<and> m \<noteq> n"
  by (auto simp: bit_and_iff bit_not_iff bit_exp_iff dest: bit_imp_le_length)

lemma set_frame_Some [bitmap_simps]:
  "f < 8 * length bm \<Longrightarrow>
     \<exists>bm'. set_frame f bm = Some bm' \<and> length bm' = length bm
       \<and> (\<forall>g < 8 * length bm. frame_used bm' g \<longleftrightarrow> frame_used bm g \<or> g = f)"
  using bitmap_index [of f bm]
  by (auto simp: set_frame_def index_def store_def frame_used_def nth_list_update bit_set_u8
      dest: frame_slot_eq)

lemma clear_frame_Some [bitmap_simps]:
  "f < 8 * length bm \<Longrightarrow>
     \<exists>bm'. clear_frame f bm = Some bm' \<and> length bm' = length bm
       \<and> (\<forall>g < 8 * length bm. frame_used bm' g \<longleftrightarrow> frame_used bm g \<and> g \<noteq> f)"
  using bitmap_index [of f bm]
  by (auto simp: clear_frame_def index_def store_def frame_used_def nth_list_update bit_clear_u8
      dest: frame_slot_eq)

lemma frame_is_free_Some [bitmap_simps]:
  "f < 8 * length bm \<Longrightarrow> frame_is_free f bm = Some (\<not> frame_used bm f)"
  using bitmap_index [of f bm]
  by (simp add: frame_is_free_def index_def frame_used_def bit_iff_and_push_bit_not_eq_0)

text \<open>The three loops set or clear exactly the frames of their range.\<close>

lemma set_range_Some:
  "e \<le> 8 * length bm \<Longrightarrow>
     \<exists>bm'. set_range f e bm = Some bm' \<and> length bm' = length bm
       \<and> (\<forall>g < 8 * length bm. frame_used bm' g \<longleftrightarrow> frame_used bm g \<or> (f \<le> g \<and> g < e))"
proof (induction f e bm rule: set_range.induct)
  case (1 f e bm)
  show ?case
  proof (cases "f < e")
    case False
    then show ?thesis by (subst set_range.simps) auto
  next
    case True
    with "1.prems" have "f < 8 * length bm" by simp
    from set_frame_Some [OF this] obtain bm1 where bm1: "set_frame f bm = Some bm1"
        "length bm1 = length bm" "\<forall>g < 8 * length bm. frame_used bm1 g \<longleftrightarrow> frame_used bm g \<or> g = f"
      by auto
    from "1.IH" [OF True bm1(1)] "1.prems" bm1(2) obtain bm2 where
        bm2: "set_range (f + 1) e bm1 = Some bm2" "length bm2 = length bm"
        "\<forall>g < 8 * length bm. frame_used bm2 g \<longleftrightarrow> frame_used bm1 g \<or> (f + 1 \<le> g \<and> g < e)"
      by auto
    show ?thesis
      by (subst set_range.simps, rule exI [of _ bm2])
         (use True bm1 bm2 in \<open>auto simp: Suc_le_eq le_less\<close>)
  qed
qed

lemma clear_loop_Some:
  "e \<le> 8 * length bm \<Longrightarrow>
     \<exists>bm'. clear_loop f e bm = Some bm' \<and> length bm' = length bm
       \<and> (\<forall>g < 8 * length bm. frame_used bm' g \<longleftrightarrow> frame_used bm g \<and> \<not> (f \<le> g \<and> g < e))"
proof (induction f e bm rule: clear_loop.induct)
  case (1 f e bm)
  show ?case
  proof (cases "f < e")
    case False
    then show ?thesis by (subst clear_loop.simps) auto
  next
    case True
    with "1.prems" have "f < 8 * length bm" by simp
    from clear_frame_Some [OF this] obtain bm1 where bm1: "clear_frame f bm = Some bm1"
        "length bm1 = length bm" "\<forall>g < 8 * length bm. frame_used bm1 g \<longleftrightarrow> frame_used bm g \<and> g \<noteq> f"
      by auto
    from "1.IH" [OF True bm1(1)] "1.prems" bm1(2) obtain bm2 where
        bm2: "clear_loop (f + 1) e bm1 = Some bm2" "length bm2 = length bm"
        "\<forall>g < 8 * length bm. frame_used bm2 g \<longleftrightarrow> frame_used bm1 g \<and> \<not> (f + 1 \<le> g \<and> g < e)"
      by auto
    show ?thesis
      by (subst clear_loop.simps, rule exI [of _ bm2])
         (use True bm1 bm2 in \<open>auto simp: Suc_le_eq le_less\<close>)
  qed
qed

lemma reserve_loop_Some:
  "e \<le> 8 * length bm * FRAME_SIZE \<Longrightarrow>
     \<exists>bm'. reserve_loop f e bm = Some bm' \<and> length bm' = length bm
       \<and> (\<forall>g < 8 * length bm. frame_used bm' g \<longleftrightarrow> frame_used bm g \<or> (f \<le> g \<and> g * FRAME_SIZE < e))"
proof (induction f e bm rule: reserve_loop.induct)
  case (1 f e bm)
  show ?case
  proof (cases "f * FRAME_SIZE < e")
    case False
    then have "g * FRAME_SIZE < e \<Longrightarrow> \<not> f \<le> g" for g
      using mult_le_mono1 [of f g FRAME_SIZE] by linarith
    with False show ?thesis by (subst reserve_loop.simps) auto
  next
    case True
    with "1.prems" have "f * FRAME_SIZE < 8 * length bm * FRAME_SIZE" by linarith
    then have "f < 8 * length bm" by (simp add: FRAME_SIZE_def)
    from set_frame_Some [OF this] obtain bm1 where bm1: "set_frame f bm = Some bm1"
        "length bm1 = length bm" "\<forall>g < 8 * length bm. frame_used bm1 g \<longleftrightarrow> frame_used bm g \<or> g = f"
      by auto
    from "1.IH" [OF True bm1(1)] "1.prems" bm1(2) obtain bm2 where
        bm2: "reserve_loop (f + 1) e bm1 = Some bm2" "length bm2 = length bm"
        "\<forall>g < 8 * length bm. frame_used bm2 g \<longleftrightarrow> frame_used bm1 g \<or> (f + 1 \<le> g \<and> g * FRAME_SIZE < e)"
      by auto
    show ?thesis
      by (subst reserve_loop.simps, rule exI [of _ bm2])
         (use True bm1 bm2 in \<open>auto simp: Suc_le_eq le_less\<close>)
  qed
qed

section \<open>Allocation finds the lowest fit\<close>

definition free_run :: "pmm \<Rightarrow> nat \<Rightarrow> nat \<Rightarrow> bool" where
  "free_run p s n \<longleftrightarrow> {s..<s + n} \<subseteq> avail p"

lemma pmm_inv_index: "pmm_inv p \<Longrightarrow> f \<le> last_usable_frame p \<Longrightarrow> f < 8 * length (bitmap p)"
  by (simp add: pmm_inv_def pmm_consts)

lemma pmm_inv_bitmap:
  "pmm_inv p \<Longrightarrow> length bm = length (bitmap p) \<Longrightarrow> pmm_inv (p\<lparr>bitmap := bm\<rparr>)"
  by (simp add: pmm_inv_def)

lemma avail_update:
  assumes "pmm_inv p" "\<forall>g < 8 * length (bitmap p). frame_used bm g \<longleftrightarrow> frame_used (bitmap p) g \<or> g \<in> R"
  shows "avail (p\<lparr>bitmap := bm\<rparr>) = avail p - R"
  using assms pmm_inv_index [OF assms(1)] by (auto simp: avail_def)

lemma frame_scan_spec:
  assumes "pmm_inv p" "\<forall>g < frame. g \<notin> avail p"
  shows "(avail p = {} \<and> frame_scan frame p = Some (None, p))
       \<or> (\<exists>f bm. f \<in> avail p \<and> (\<forall>g < f. g \<notin> avail p) \<and> length bm = length (bitmap p)
            \<and> avail (p\<lparr>bitmap := bm\<rparr>) = avail p - {f}
            \<and> frame_scan frame p = Some (Some (f * FRAME_SIZE), p\<lparr>bitmap := bm\<rparr>))"
  using assms
proof (induction frame p rule: frame_scan.induct)
  case (1 frame p)
  show ?case
  proof (cases "frame \<le> last_usable_frame p")
    case False
    with "1.prems"(2) have "avail p = {}" by (fastforce simp: avail_def)
    with False show ?thesis by (subst (1) frame_scan.simps) simp
  next
    case le: True
    from pmm_inv_index [OF "1.prems"(1) le] have ix: "frame < 8 * length (bitmap p)" .
    note free = frame_is_free_Some [OF ix]
    show ?thesis
    proof (cases "frame \<in> avail p")
      case True
      obtain bm where bm: "set_frame frame (bitmap p) = Some bm" "length bm = length (bitmap p)"
          "\<forall>g < 8 * length (bitmap p). frame_used bm g \<longleftrightarrow> frame_used (bitmap p) g \<or> g = frame"
        using set_frame_Some [OF ix] by auto
      have "avail (p\<lparr>bitmap := bm\<rparr>) = avail p - {frame}"
        using bm(3) by (intro avail_update [OF "1.prems"(1)]) simp
      moreover have "frame_scan frame p = Some (Some (frame * FRAME_SIZE), p\<lparr>bitmap := bm\<rparr>)"
        using True by (subst frame_scan.simps) (simp add: le free bm(1), simp add: avail_def)
      ultimately show ?thesis using True "1.prems"(2) bm(2) by blast
    next
      case False
      then have used: "frame_used (bitmap p) frame" using le by (simp add: avail_def)
      have eq: "frame_scan frame p = frame_scan (frame + 1) p"
        using used by (subst frame_scan.simps) (simp add: le free)
      have "\<forall>g < frame + 1. g \<notin> avail p"
        using False "1.prems"(2) by (auto simp: less_Suc_eq)
      with "1.IH" [OF le free] "1.prems"(1) used eq show ?thesis by simp
    qed
  qed
qed

lemma run_scan_spec:
  assumes "pmm_inv p" "run_len < count" "run_len \<le> frame" "frame \<le> last_usable_frame p + 1"
    "run_len > 0 \<longrightarrow> run_start = frame - run_len"
    "{frame - run_len..<frame} \<subseteq> avail p" "\<forall>s < frame - run_len. \<not> free_run p s count"
  shows "((\<forall>s. \<not> free_run p s count) \<and> run_scan frame run_start run_len count p = Some (None, p))
       \<or> (\<exists>s bm. free_run p s count \<and> (\<forall>s' < s. \<not> free_run p s' count)
            \<and> length bm = length (bitmap p)
            \<and> avail (p\<lparr>bitmap := bm\<rparr>) = avail p - {s..<s + count}
            \<and> run_scan frame run_start run_len count p
                = Some (Some (s * FRAME_SIZE), p\<lparr>bitmap := bm\<rparr>))"
  using assms
proof (induction frame run_start run_len count p rule: run_scan.induct)
  case (1 frame run_start run_len count p)
  let ?r = "frame - run_len"
  show ?case
  proof (cases "frame \<le> last_usable_frame p")
    case False
    have "\<not> free_run p s count" for s
    proof (cases "s < ?r")
      case True
      then show ?thesis using "1.prems"(7) by simp
    next
      case ge: False
      then have "s + count - 1 \<in> {s..<s + count}" "s + count - 1 > last_usable_frame p"
        using "1.prems"(2,3) False by auto
      then show ?thesis unfolding free_run_def avail_def by fastforce
    qed
    with False show ?thesis by (subst (1) run_scan.simps) simp
  next
    case le: True
    from pmm_inv_index [OF "1.prems"(1) le] have ix: "frame < 8 * length (bitmap p)" .
    note free = frame_is_free_Some [OF ix]
    show ?thesis
    proof (cases "frame \<in> avail p")
      case True
      then have unused: "\<not> frame_used (bitmap p) frame" by (simp add: avail_def)
      have rs: "(if run_len = 0 then frame else run_start) = ?r" using "1.prems"(5) by simp
      have run: "{?r..<frame + 1} \<subseteq> avail p"
        using True "1.prems"(3,6) by (auto simp: less_Suc_eq)
      show ?thesis
      proof (cases "run_len + 1 = count")
        case done_: True
        have upto: "?r + count = frame + 1" using done_ "1.prems"(3) by simp
        obtain bm where bm: "set_range ?r (?r + count) (bitmap p) = Some bm"
            "length bm = length (bitmap p)"
            "\<forall>g < 8 * length (bitmap p). frame_used bm g \<longleftrightarrow>
               frame_used (bitmap p) g \<or> (?r \<le> g \<and> g < ?r + count)"
          using set_range_Some [of "?r + count" "bitmap p" ?r] ix upto by auto
        have "avail (p\<lparr>bitmap := bm\<rparr>) = avail p - {?r..<?r + count}"
          using bm(3) by (intro avail_update [OF "1.prems"(1)]) auto
        moreover have "run_scan frame run_start run_len count p
            = Some (Some (?r * FRAME_SIZE), p\<lparr>bitmap := bm\<rparr>)"
          using bm(1) unused done_
          by (subst run_scan.simps) (simp only: Let_def rs le free bind.bind_lunit if_True simp_thms)
        moreover have "free_run p ?r count" using run upto by (simp add: free_run_def)
        ultimately show ?thesis using bm(2) "1.prems"(7) by blast
      next
        case False
        have eq: "run_scan frame run_start run_len count p
            = run_scan (frame + 1) ?r (run_len + 1) count p"
          using unused False
          by (subst run_scan.simps) (simp only: Let_def rs le free bind.bind_lunit if_True if_False simp_thms)
        have sub: "frame + 1 - (run_len + 1) = ?r" by simp
        show ?thesis
          unfolding eq
          by (rule "1.IH"(1) [OF le free unused rs [symmetric] refl False, unfolded sub])
             (use "1.prems" le False run in auto)
      qed
    next
      case False
      then have used: "frame_used (bitmap p) frame" using le by (simp add: avail_def)
      have eq: "run_scan frame run_start run_len count p = run_scan (frame + 1) run_start 0 count p"
        using used by (subst run_scan.simps) (simp add: le free)
      have none: "\<not> free_run p s count" if "s < frame + 1" for s
      proof (cases "s < ?r")
        case True
        then show ?thesis using "1.prems"(7) by simp
      next
        case ge: False
        with that "1.prems"(2,3) have "frame \<in> {s..<s + count}" by auto
        with False show ?thesis unfolding free_run_def by blast
      qed
      show ?thesis
        unfolding eq
        by (rule "1.IH"(2) [OF le free]) (use used "1.prems" le none in auto)
    qed
  qed
qed

lemma finite_avail [simp]: "finite (avail p)"
  unfolding avail_def by (rule finite_subset [of _ "{..last_usable_frame p}"]) auto

lemma frame_alloc_spec:
  assumes "pmm_inv p"
  shows "(avail p = {} \<and> frame_alloc p = Some (None, p))
       \<or> (\<exists>f p'. f \<in> avail p \<and> (\<forall>g < f. g \<notin> avail p) \<and> pmm_inv p'
            \<and> last_usable_frame p' = last_usable_frame p \<and> avail p' = avail p - {f}
            \<and> frame_alloc p = Some (Some (f * FRAME_SIZE), p'))"
  using frame_scan_spec [OF assms, of 0] pmm_inv_bitmap [OF assms]
  unfolding frame_alloc_def by fastforce

lemma alloc_contiguous_spec:
  assumes "pmm_inv p" "0 < n"
  shows "((\<forall>s. \<not> free_run p s n) \<and> alloc_contiguous n p = Some (None, p))
       \<or> (\<exists>s p'. free_run p s n \<and> (\<forall>s' < s. \<not> free_run p s' n) \<and> pmm_inv p'
            \<and> last_usable_frame p' = last_usable_frame p \<and> avail p' = avail p - {s..<s + n}
            \<and> alloc_contiguous n p = Some (Some (s * FRAME_SIZE), p'))"
proof (cases "n - 1 > last_usable_frame p")
  case True
  have "\<not> free_run p s n" for s
  proof -
    have "s + n - 1 \<in> {s..<s + n}" "s + n - 1 \<notin> avail p" using True assms(2) by (auto simp: avail_def)
    then show ?thesis unfolding free_run_def by blast
  qed
  with True show ?thesis by (simp add: alloc_contiguous_def)
next
  case False
  then have "alloc_contiguous n p = run_scan 0 0 0 n p"
    using assms(2) by (simp add: alloc_contiguous_def)
  then show ?thesis
    using run_scan_spec [OF assms(1), of 0 n 0 0] assms(2) pmm_inv_bitmap [OF assms(1)] by fastforce
qed

lemma frame_free_spec:
  assumes "pmm_inv p" "f \<le> last_usable_frame p"
  shows "\<exists>p'. frame_free (f * FRAME_SIZE) p = Some p' \<and> pmm_inv p'
           \<and> last_usable_frame p' = last_usable_frame p \<and> avail p' = insert f (avail p)"
proof -
  have ix: "f < 8 * length (bitmap p)" using pmm_inv_index [OF assms] .
  from clear_frame_Some [OF ix] obtain bm where bm: "clear_frame f (bitmap p) = Some bm"
      "length bm = length (bitmap p)"
      "\<forall>g < 8 * length (bitmap p). frame_used bm g \<longleftrightarrow> frame_used (bitmap p) g \<and> g \<noteq> f"
    by auto
  have lim: "f * FRAME_SIZE < MAX_PHYS_MEM" using assms by (simp add: pmm_inv_def pmm_consts)
  have "frame_free (f * FRAME_SIZE) p = Some (p\<lparr>bitmap := bm\<rparr>)"
    using bm(1) lim by (simp add: frame_free_def FRAME_SIZE_def)
  moreover have "avail (p\<lparr>bitmap := bm\<rparr>) = insert f (avail p)"
    using bm(3) pmm_inv_index [OF assms(1)] assms(2) by (auto simp: avail_def)
  ultimately show ?thesis using pmm_inv_bitmap [OF assms(1) bm(2)] by simp
qed

lemma count_from_spec:
  assumes "pmm_inv p"
  shows "count_from frame c p = Some (c + card (avail p \<inter> {frame..}))"
  using assms
proof (induction frame c p rule: count_from.induct)
  case (1 frame c p)
  show ?case
  proof (cases "frame \<le> last_usable_frame p")
    case False
    then have "avail p \<inter> {frame..} = {}" by (auto simp: avail_def)
    with False show ?thesis by (subst count_from.simps) simp
  next
    case le: True
    note free = frame_is_free_Some [OF pmm_inv_index [OF "1.prems" le]]
    have split: "avail p \<inter> {frame..} =
        (if frame \<in> avail p then insert frame (avail p \<inter> {frame + 1..}) else avail p \<inter> {frame + 1..})"
      by (auto simp: Suc_le_eq le_less)
    have mem: "frame \<in> avail p \<longleftrightarrow> \<not> frame_used (bitmap p) frame" using le by (simp add: avail_def)
    show ?thesis
      using "1.IH" [OF le free "1.prems"] split mem
      by (subst count_from.simps) (simp add: le free)
  qed
qed

lemma count_free_card: "pmm_inv p \<Longrightarrow> count_free p = Some (card (avail p))"
  by (simp add: count_free_def count_from_spec)

section \<open>The contract of a frame provider\<close>

locale frame_source =
  fixes ok :: "'s \<Rightarrow> bool"
    and pool :: "'s \<Rightarrow> nat set"
    and managed :: "'s \<Rightarrow> nat set"
    and take_run :: "nat \<Rightarrow> 's \<Rightarrow> (usize option \<times> 's) exec"
    and give_back :: "usize \<Rightarrow> 's \<Rightarrow> 's exec"
  assumes pool_managed: "ok s \<Longrightarrow> pool s \<subseteq> managed s"
    and take_cases: "ok s \<Longrightarrow> 0 < n \<Longrightarrow>
       (take_run n s = Some (None, s) \<and> (\<forall>f. \<not> {f..<f + n} \<subseteq> pool s))
       \<or> (\<exists>f s'. take_run n s = Some (Some (f * FRAME_SIZE), s') \<and> {f..<f + n} \<subseteq> pool s
            \<and> ok s' \<and> managed s' = managed s \<and> pool s' = pool s - {f..<f + n})"
    and give_back_one: "ok s \<Longrightarrow> f \<in> managed s \<Longrightarrow>
       \<exists>s'. give_back (f * FRAME_SIZE) s = Some s' \<and> ok s' \<and> managed s' = managed s
          \<and> pool s' = insert f (pool s)"
begin

lemma give_back_run:
  assumes "ok s" "{f..<f + n} \<subseteq> managed s"
  shows "\<exists>s'. for_each give_back (map (\<lambda>i. f * FRAME_SIZE + i * FRAME_SIZE) [0..<n]) s = Some s'
           \<and> ok s' \<and> managed s' = managed s \<and> pool s' = pool s \<union> {f..<f + n}"
  using assms(2)
proof (induction n)
  case 0
  with assms(1) show ?case by simp
next
  case (Suc n)
  have "{f..<f + n} \<subseteq> managed s" using Suc.prems by auto
  from Suc.IH [OF this] obtain s1 where s1: "for_each give_back (map (\<lambda>i. f * FRAME_SIZE + i * FRAME_SIZE) [0..<n]) s = Some s1"
      "ok s1" "managed s1 = managed s" "pool s1 = pool s \<union> {f..<f + n}"
    by auto
  from Suc.prems have "f + n \<in> managed s1" using s1(3) by auto
  from give_back_one [OF s1(2) this] obtain s2 where s2: "give_back ((f + n) * FRAME_SIZE) s1 = Some s2"
      "ok s2" "managed s2 = managed s1" "pool s2 = insert (f + n) (pool s1)"
    by blast
  have "for_each give_back (map (\<lambda>i. f * FRAME_SIZE + i * FRAME_SIZE) [0..<Suc n]) s = Some s2"
    using s1(1) s2(1) by (simp add: for_each_append algebra_simps)
  then show ?case using s1 s2 by auto
qed

lemma take_then_give_back:
  assumes "ok s" "0 < n" "take_run n s = Some (Some a, s1)"
  shows "\<exists>s2. for_each give_back (map (\<lambda>i. a + i * FRAME_SIZE) [0..<n]) s1 = Some s2
           \<and> ok s2 \<and> pool s2 = pool s"
proof -
  from take_cases [OF assms(1,2)] assms(3) obtain f where f: "a = f * FRAME_SIZE"
      "{f..<f + n} \<subseteq> pool s" "ok s1" "managed s1 = managed s" "pool s1 = pool s - {f..<f + n}"
    by auto
  have "{f..<f + n} \<subseteq> managed s1" using f(2,4) pool_managed [OF assms(1)] by blast
  from give_back_run [OF f(3) this] f show ?thesis by auto
qed

lemma successive_takes_disjoint:
  assumes "ok s" "0 < m" "0 < n"
    and "take_run m s = Some (Some a, s1)" and "take_run n s1 = Some (Some b, s2)"
  shows "a + m * FRAME_SIZE \<le> b \<or> b + n * FRAME_SIZE \<le> a"
proof -
  from take_cases [OF assms(1,2)] assms(4) obtain f where f: "a = f * FRAME_SIZE" "ok s1"
      "pool s1 = pool s - {f..<f + m}"
    by auto
  from take_cases [OF f(2) assms(3)] assms(5) obtain g where g: "b = g * FRAME_SIZE"
      "{g..<g + n} \<subseteq> pool s1"
    by auto
  have "f + m \<le> g \<or> g + n \<le> f"
  proof (rule ccontr)
    assume "\<not> ?thesis"
    then have "max f g \<in> {f..<f + m}" "max f g \<in> {g..<g + n}" using assms(2,3) by auto
    with g(2) f(3) show False by blast
  qed
  then show ?thesis
    unfolding f(1) g(1) by (metis add_mult_distrib mult_le_mono1)
qed

end

definition pmm_managed :: "pmm \<Rightarrow> nat set" where
  "pmm_managed p = {..last_usable_frame p}"

interpretation frames: frame_source pmm_inv avail pmm_managed alloc_contiguous frame_free
proof
  show "avail p \<subseteq> pmm_managed p" for p by (auto simp: avail_def pmm_managed_def)
next
  fix p :: pmm and n :: nat
  assume "pmm_inv p" "0 < n"
  from alloc_contiguous_spec [OF this] show
    "(alloc_contiguous n p = Some (None, p) \<and> (\<forall>f. \<not> {f..<f + n} \<subseteq> avail p))
       \<or> (\<exists>f s'. alloc_contiguous n p = Some (Some (f * FRAME_SIZE), s') \<and> {f..<f + n} \<subseteq> avail p
            \<and> pmm_inv s' \<and> pmm_managed s' = pmm_managed p \<and> avail s' = avail p - {f..<f + n})"
    unfolding free_run_def pmm_managed_def by fastforce
next
  fix p :: pmm and f :: nat
  assume "pmm_inv p" "f \<in> pmm_managed p"
  then show "\<exists>s'. frame_free (f * FRAME_SIZE) p = Some s' \<and> pmm_inv s'
      \<and> pmm_managed s' = pmm_managed p \<and> avail s' = insert f (avail p)"
    using frame_free_spec [of p f] by (auto simp: pmm_managed_def)
qed

section \<open>Boot\<close>

lemma page_up_le: "(b + 4095) div 4096 \<le> g \<longleftrightarrow> b \<le> g * 4096" for b g :: nat
  using div_less_iff_less_mult [of 4096 "b + 4095" "Suc g"] by (auto simp: less_Suc_eq_le)

lemma page_less: "g < e div 4096 \<longleftrightarrow> (g + 1) * 4096 \<le> e" for e g :: nat
  using less_eq_div_iff_mult_less_eq [of 4096 "Suc g" e] by (simp add: Suc_le_eq)

lemma lt_page_up: "g * 4096 < (b + 4095) div 4096 * 4096 \<longleftrightarrow> g * 4096 < b" for b g :: nat
proof -
  have "g * 4096 < (b + 4095) div 4096 * 4096 \<longleftrightarrow> g < (b + 4095) div 4096" by simp
  also have "\<dots> \<longleftrightarrow> g * 4096 < b" unfolding page_less by auto
  finally show ?thesis .
qed

lemma align_up_frame: "v + 4095 < 2 ^ 64 \<Longrightarrow> align_up v FRAME_SIZE = (v + 4095) div 4096 * 4096"
proof -
  assume v: "v + 4095 < 2 ^ 64"
  have "(of_nat v + of_nat FRAME_SIZE - 1 :: u64) = of_nat (v + 4095)"
    by (simp add: FRAME_SIZE_def)
  moreover have "(of_nat FRAME_SIZE - 1 :: u64) = 2 ^ 12 - 1" by (simp add: FRAME_SIZE_def)
  ultimately have "align_up v FRAME_SIZE = unat ((of_nat (v + 4095) :: u64) AND NOT (2 ^ 12 - 1))"
    by (simp only: align_up_def)
  also have "\<dots> = unat (of_nat (v + 4095) :: u64) div 2 ^ 12 * 2 ^ 12" by (rule unat_align)
  also have "unat (of_nat (v + 4095) :: u64) = v + 4095" using v by (simp only: unat_of_nat) simp
  finally show ?thesis by simp
qed

lemma align_down_frame: "v < 2 ^ 64 \<Longrightarrow> align_down v FRAME_SIZE = v div 4096 * 4096"
proof -
  assume v: "v < 2 ^ 64"
  have "(of_nat FRAME_SIZE - 1 :: u64) = 2 ^ 12 - 1" by (simp add: FRAME_SIZE_def)
  then have "align_down v FRAME_SIZE = unat ((of_nat v :: u64) AND NOT (2 ^ 12 - 1))"
    by (simp only: align_down_def)
  also have "\<dots> = unat (of_nat v :: u64) div 2 ^ 12 * 2 ^ 12" by (rule unat_align)
  also have "unat (of_nat v :: u64) = v" using v by (simp only: unat_of_nat) simp
  finally show ?thesis by simp
qed

lemma mark_reserved_spec:
  assumes "pmm_inv p" "base + len + 4095 < 2 ^ 64"
  shows "\<exists>bm. mark_reserved base len p = Some (p\<lparr>bitmap := bm\<rparr>) \<and> length bm = length (bitmap p)
     \<and> (\<forall>g < FRAME_COUNT. frame_used bm g \<longleftrightarrow>
          frame_used (bitmap p) g \<or> meets_frame base (base + len) g)"
proof (cases "len = 0")
  case True
  then show ?thesis by (simp add: mark_reserved_def meets_frame_def exI [of _ "bitmap p"])
next
  case False
  let ?e = "min ((base + len + 4095) div 4096 * 4096) MAX_PHYS_MEM"
  have len: "length (bitmap p) = 8192" using assms(1) by (simp add: pmm_inv_def pmm_consts)
  have eq: "mark_reserved base len p =
      do { bm \<leftarrow> reserve_loop (base div 4096) ?e (bitmap p); Some (p\<lparr>bitmap := bm\<rparr>) }"
    using assms(2) False
    by (simp add: mark_reserved_def Let_def align_up_frame align_down_frame sat_add_def)
       (simp add: FRAME_SIZE_def)
  obtain bm where bm: "reserve_loop (base div 4096) ?e (bitmap p) = Some bm"
      "length bm = length (bitmap p)"
      "\<forall>g < 8 * length (bitmap p). frame_used bm g \<longleftrightarrow>
         frame_used (bitmap p) g \<or> (base div 4096 \<le> g \<and> g * FRAME_SIZE < ?e)"
    using reserve_loop_Some [of ?e "bitmap p" "base div 4096"] len by (auto simp: pmm_consts)
  have "base div 4096 \<le> g \<and> g * FRAME_SIZE < ?e \<longleftrightarrow> meets_frame base (base + len) g"
    if "g < FRAME_COUNT" for g
  proof -
    have "base div 4096 \<le> g \<longleftrightarrow> base < (g + 1) * FRAME_SIZE"
      by (simp add: FRAME_SIZE_def less_Suc_eq_le [symmetric] div_less_iff_less_mult)
    moreover have "g * FRAME_SIZE < ?e \<longleftrightarrow> g * FRAME_SIZE < base + len"
      using that lt_page_up [of g "base + len"] by (simp add: pmm_consts)
    ultimately show ?thesis using False by (auto simp: meets_frame_def)
  qed
  then show ?thesis using eq bm len by (auto simp: pmm_consts)
qed

lemma init_region_spec:
  assumes "length bm = BITMAP_BYTES" "last_frame < FRAME_COUNT" "unat (mr_base r) + 4095 < 2 ^ 64"
  shows "\<exists>last' bm'. init_region r (last_frame, bm) = Some (last', bm') \<and> length bm' = BITMAP_BYTES
     \<and> last_frame \<le> last' \<and> last' < FRAME_COUNT
     \<and> (\<forall>g. region_gives r g \<longrightarrow> g \<le> last')
     \<and> (\<forall>g < FRAME_COUNT. frame_used bm' g \<longleftrightarrow> frame_used bm g \<and> \<not> region_gives r g)"
proof (cases "region_type r = 1 \<and> mr_base r \<ge> 1024 * 1024")
  case False
  then have "init_region r (last_frame, bm) = Some (last_frame, bm)"
    by (auto simp: init_region_def)
  moreover have "\<not> region_gives r g" for g using False by (auto simp: region_gives_def)
  ultimately show ?thesis using assms by simp
next
  case True
  let ?s = "(unat (mr_base r) + 4095) div 4096"
  let ?e = "min (unat (mr_base r + mr_length r) div 4096 * 4096) MAX_PHYS_MEM div 4096"
  have e: "?e \<le> FRAME_COUNT" by (simp add: pmm_consts)
  have eq: "init_region r (last_frame, bm) =
      do { bm' \<leftarrow> clear_loop ?s ?e bm;
           Some (if ?e > last_frame then ?e - 1 else last_frame, bm') }"
    using True assms(3) unat_u64_bound
    by (simp add: init_region_def Let_def align_up_frame align_down_frame not_less [symmetric])
       (simp add: FRAME_SIZE_def)
  obtain bm' where bm': "clear_loop ?s ?e bm = Some bm'" "length bm' = length bm"
      "\<forall>g < 8 * length bm. frame_used bm' g \<longleftrightarrow> frame_used bm g \<and> \<not> (?s \<le> g \<and> g < ?e)"
    using clear_loop_Some [of ?e bm ?s] assms(1) e by (auto simp: pmm_consts)
  have gives: "region_gives r g \<longleftrightarrow> ?s \<le> g \<and> g < ?e" for g
  proof -
    have "g < ?e \<longleftrightarrow> (g + 1) * 4096 \<le> unat (mr_base r + mr_length r) \<and> g < FRAME_COUNT"
      unfolding page_less using page_less [of g "unat (mr_base r + mr_length r)"]
      by (auto simp: pmm_consts)
    then show ?thesis using True page_up_le [of "unat (mr_base r)" g]
      by (auto simp: region_gives_def FRAME_SIZE_def)
  qed
  define e s' where "e = ?e" and "s' = ?s"
  note defs = e_def [symmetric] s'_def [symmetric]
  have bits: "8 * length bm = FRAME_COUNT" using assms(1) by (simp add: pmm_consts)
  show ?thesis
    unfolding eq defs
    by (rule exI [of _ "if e > last_frame then e - 1 else last_frame"], rule exI [of _ bm'])
       (use bm' [unfolded defs bits] assms(1,2) gives [unfolded defs] \<open>?e \<le> FRAME_COUNT\<close> [unfolded defs]
        in auto)
qed

lemma init_regions_spec:
  assumes "length bm = BITMAP_BYTES" "last_frame < FRAME_COUNT"
    "\<forall>r \<in> set rs. unat (mr_base r) + 4095 < 2 ^ 64"
  shows "\<exists>last' bm'. init_regions rs (last_frame, bm) = Some (last', bm') \<and> length bm' = BITMAP_BYTES
     \<and> last_frame \<le> last' \<and> last' < FRAME_COUNT
     \<and> (\<forall>r \<in> set rs. \<forall>g. region_gives r g \<longrightarrow> g \<le> last')
     \<and> (\<forall>g < FRAME_COUNT. frame_used bm' g \<longleftrightarrow> frame_used bm g \<and> \<not> (\<exists>r \<in> set rs. region_gives r g))"
  using assms
proof (induction rs arbitrary: last_frame bm)
  case Nil
  then show ?case by simp
next
  case (Cons r rs)
  from init_region_spec [OF Cons.prems(1,2), of r] Cons.prems(3) obtain l1 bm1 where
      1: "init_region r (last_frame, bm) = Some (l1, bm1)" "length bm1 = BITMAP_BYTES"
        "last_frame \<le> l1" "l1 < FRAME_COUNT" "\<forall>g. region_gives r g \<longrightarrow> g \<le> l1"
        "\<forall>g < FRAME_COUNT. frame_used bm1 g \<longleftrightarrow> frame_used bm g \<and> \<not> region_gives r g"
    by auto
  from Cons.IH [OF 1(2,4)] Cons.prems(3) obtain l2 bm2 where
      2: "init_regions rs (l1, bm1) = Some (l2, bm2)" "length bm2 = BITMAP_BYTES"
        "l1 \<le> l2" "l2 < FRAME_COUNT" "\<forall>r \<in> set rs. \<forall>g. region_gives r g \<longrightarrow> g \<le> l2"
        "\<forall>g < FRAME_COUNT. frame_used bm2 g \<longleftrightarrow>
           frame_used bm1 g \<and> \<not> (\<exists>r \<in> set rs. region_gives r g)"
    by auto
  show ?case
    by (rule exI [of _ l2], rule exI [of _ bm2])
       (use 1 2 in \<open>auto intro: order_trans [OF _ 2(3)]\<close>)
qed

lemma boot_all_used: "g < FRAME_COUNT \<Longrightarrow> frame_used (bitmap pmm_boot) g"
proof -
  assume g: "g < FRAME_COUNT"
  have "(0xFF :: u8) = mask 8" by (simp add: mask_eq_exp_minus_1)
  then have "bit (0xFF :: u8) (g mod 8)" by (simp only: bit_mask_iff) simp
  then show ?thesis
    using g by (simp add: frame_used_def pmm_boot_def pmm_consts less_mult_imp_div_less)
qed

lemma pmm_inv_boot: "pmm_inv pmm_boot"
  by (simp add: pmm_inv_def pmm_boot_def pmm_consts)

lemma pmm_init_spec:
  assumes regions: "\<forall>r \<in> set regions. unat (mr_base r) + 4095 < 2 ^ 64"
    and kernel: "kernel_start \<le> kernel_end" "kernel_end + 4095 < 2 ^ 64"
  shows "\<exists>p. pmm_init regions kernel_start kernel_end pmm_boot = Some p \<and> pmm_inv p
     \<and> avail p = {g. (\<exists>r \<in> set regions. region_gives r g) \<and> \<not> meets_frame kernel_start kernel_end g
                     \<and> LOW_RESERVED_END \<le> g * FRAME_SIZE}"
proof -
  have boot: "length (bitmap pmm_boot) = BITMAP_BYTES" "0 < FRAME_COUNT"
    by (simp_all add: pmm_boot_def pmm_consts)
  from init_regions_spec [OF boot regions] obtain l bm where 1:
      "init_regions regions (0, bitmap pmm_boot) = Some (l, bm)" "length bm = BITMAP_BYTES"
      "l < FRAME_COUNT" "\<forall>r \<in> set regions. \<forall>g. region_gives r g \<longrightarrow> g \<le> l"
      "\<forall>g < FRAME_COUNT. frame_used bm g \<longleftrightarrow> \<not> (\<exists>r \<in> set regions. region_gives r g)"
    using boot_all_used by auto
  define p1 where "p1 = \<lparr>bitmap = bm, last_usable_frame = l\<rparr>"
  have p1: "pmm_inv p1" using 1 by (simp add: p1_def pmm_inv_def)
  have sub: "wsub kernel_end kernel_start = kernel_end - kernel_start"
    using kernel by (simp add: wsub_small)
  from mark_reserved_spec [OF p1, of kernel_start "kernel_end - kernel_start"] kernel obtain bm2 where 2:
      "mark_reserved kernel_start (kernel_end - kernel_start) p1 = Some (p1\<lparr>bitmap := bm2\<rparr>)"
      "length bm2 = BITMAP_BYTES"
      "\<forall>g < FRAME_COUNT. frame_used bm2 g \<longleftrightarrow> frame_used bm g \<or> meets_frame kernel_start kernel_end g"
    using 1(2) by (auto simp: p1_def)
  have p2: "pmm_inv (p1\<lparr>bitmap := bm2\<rparr>)" using p1 2(2) by (simp add: pmm_inv_def)
  from mark_reserved_spec [OF p2, of 0 LOW_RESERVED_END] obtain bm3 where 3:
      "mark_reserved 0 LOW_RESERVED_END (p1\<lparr>bitmap := bm2\<rparr>) = Some (p1\<lparr>bitmap := bm3\<rparr>)"
      "length bm3 = BITMAP_BYTES"
      "\<forall>g < FRAME_COUNT. frame_used bm3 g \<longleftrightarrow> frame_used bm2 g \<or> meets_frame 0 LOW_RESERVED_END g"
    using 2(2) by (auto simp: LOW_RESERVED_END_def)
  have low: "meets_frame 0 LOW_RESERVED_END g \<longleftrightarrow> \<not> LOW_RESERVED_END \<le> g * FRAME_SIZE" for g
    by (auto simp: meets_frame_def pmm_consts)
  have in_range: "region_gives r g \<Longrightarrow> g < FRAME_COUNT" for r g by (simp add: region_gives_def)
  have "pmm_init regions kernel_start kernel_end pmm_boot = Some (p1\<lparr>bitmap := bm3\<rparr>)"
    using 1(1) 2(1) 3(1) by (simp add: pmm_init_def sub p1_def)
  moreover have "pmm_inv (p1\<lparr>bitmap := bm3\<rparr>)" using p1 3(2) by (simp add: pmm_inv_def)
  moreover have "avail (p1\<lparr>bitmap := bm3\<rparr>) = {g. (\<exists>r \<in> set regions. region_gives r g)
      \<and> \<not> meets_frame kernel_start kernel_end g \<and> LOW_RESERVED_END \<le> g * FRAME_SIZE}"
    unfolding avail_def using 1(3,4,5) 2(3) 3(3) low in_range
    by (fastforce simp: p1_def)
  ultimately show ?thesis by blast
qed

section \<open>Properties\<close>

text \<open>C5: boot leaves exactly the right frames available. For every memory map and kernel image
  range, \<open>pmm_init\<close> does not panic, establishes the invariant, and the frames that can be handed
  out afterwards are the frames fully inside a usable region at or above 1 MiB, below 256 MiB,
  that neither meet the kernel image nor lie below the reserved 64 MiB.\<close>
theorem pmm_init_avail:
  assumes regions: "\<forall>r \<in> set regions. unat (mr_base r) + 4095 < 2 ^ 64"
    and kernel: "kernel_start \<le> kernel_end" "kernel_end + 4095 < 2 ^ 64"
  shows "\<exists>p. pmm_init regions kernel_start kernel_end pmm_boot = Some p \<and> pmm_inv p
     \<and> avail p = {g. (\<exists>r \<in> set regions. region_gives r g) \<and> \<not> meets_frame kernel_start kernel_end g
                     \<and> LOW_RESERVED_END \<le> g * FRAME_SIZE}"
  by (rule pmm_init_spec [OF assms])

theorem pmm_init_avail_witness:
  "\<exists>p. pmm_init [\<lparr>mr_base = 0x100000, mr_length = 0x7F00000, region_type = 1\<rparr>] 0x100000 0x200000 pmm_boot
         = Some p \<and> 16384 \<in> avail p"
proof -
  let ?r = "\<lparr>mr_base = 0x100000, mr_length = 0x7F00000, region_type = 1\<rparr> :: memory_region"
  have "\<forall>r \<in> set [?r]. unat (mr_base r) + 4095 < 2 ^ 64" by simp
  from pmm_init_avail [OF this, of "0x100000" "0x200000"] obtain p where
      p: "pmm_init [?r] 0x100000 0x200000 pmm_boot = Some p"
      "avail p = {g. (\<exists>r \<in> set [?r]. region_gives r g) \<and> \<not> meets_frame 0x100000 0x200000 g
                     \<and> LOW_RESERVED_END \<le> g * FRAME_SIZE}"
    by auto
  have "16384 \<in> avail p"
    unfolding p(2) by (simp add: region_gives_def meets_frame_def pmm_consts)
  with p(1) show ?thesis by blast
qed

text \<open>C7: \<open>alloc_contiguous\<close> is a correct and complete first-fit search. From a state that
  satisfies the invariant it never panics; it returns the lowest run of \<open>n\<close> available frames and
  removes exactly those frames from the pool, or, when no such run exists, returns \<open>None\<close> and
  changes nothing.\<close>
theorem alloc_contiguous_first_fit:
  assumes "pmm_inv p" "0 < n"
  shows "((\<forall>s. \<not> free_run p s n) \<and> alloc_contiguous n p = Some (None, p))
       \<or> (\<exists>s p'. free_run p s n \<and> (\<forall>s' < s. \<not> free_run p s' n) \<and> pmm_inv p'
            \<and> avail p' = avail p - {s..<s + n}
            \<and> alloc_contiguous n p = Some (Some (s * FRAME_SIZE), p'))"
  using alloc_contiguous_spec [OF assms] by blast

theorem alloc_contiguous_first_fit_witness:
  "\<exists>p'. alloc_contiguous 3 \<lparr>bitmap = replicate 8192 0, last_usable_frame = 65535\<rparr> = Some (Some 0, p')"
proof -
  let ?p = "\<lparr>bitmap = replicate 8192 0, last_usable_frame = 65535\<rparr> :: pmm"
  have inv: "pmm_inv ?p" by (simp add: pmm_inv_def pmm_consts)
  have "free_run ?p 0 3"
    by (auto simp: free_run_def avail_def frame_used_def)
  with alloc_contiguous_first_fit [OF inv, of 3] show ?thesis by fastforce
qed

text \<open>releasing what was allocated restores the pool. After a successful
  \<open>alloc_contiguous\<close>, freeing each of the returned frames (the loop \<open>shm.rs\<close> and \<open>process.rs\<close>
  run) does not panic and gives back exactly the set of available frames from before.\<close>
theorem alloc_then_free_restores:
  assumes "pmm_inv p" "0 < n" "alloc_contiguous n p = Some (Some a, p1)"
  shows "\<exists>p2. for_each frame_free (map (\<lambda>i. a + i * FRAME_SIZE) [0..<n]) p1 = Some p2
           \<and> pmm_inv p2 \<and> avail p2 = avail p"
  using frames.take_then_give_back [OF assms] .

theorem alloc_then_free_restores_witness:
  "\<exists>a p1 p2. alloc_contiguous 2 \<lparr>bitmap = replicate 8192 0, last_usable_frame = 65535\<rparr> = Some (Some a, p1)
     \<and> for_each frame_free (map (\<lambda>i. a + i * FRAME_SIZE) [0..<2]) p1 = Some p2
     \<and> avail p2 = avail \<lparr>bitmap = replicate 8192 0, last_usable_frame = 65535\<rparr>"
proof -
  let ?p = "\<lparr>bitmap = replicate 8192 0, last_usable_frame = 65535\<rparr> :: pmm"
  have inv: "pmm_inv ?p" by (simp add: pmm_inv_def pmm_consts)
  have "free_run ?p 0 2" by (auto simp: free_run_def avail_def frame_used_def)
  with alloc_contiguous_spec [OF inv, of 2] obtain a p1 where
      a: "alloc_contiguous 2 ?p = Some (Some a, p1)" by fastforce
  from alloc_then_free_restores [OF inv _ a] a show ?thesis by fastforce
qed

text \<open>The frame statistics are exact: \<open>free_frames\<close> is the number of available frames, and
  \<open>used_frames\<close> and \<open>free_frames\<close> add up to \<open>total_frames\<close>.\<close>
theorem frame_statistics:
  assumes "pmm_inv p"
  shows "\<exists>fr us. free_frames p = Some fr \<and> used_frames p = Some us \<and> fr = card (avail p)
           \<and> us + fr = total_frames p"
proof -
  have "card (avail p) \<le> card {..last_usable_frame p}"
    by (rule card_mono) (auto simp: avail_def)
  then have "card (avail p) \<le> last_usable_frame p + 1" by simp
  moreover have "last_usable_frame p + 1 < 2 ^ 64" using assms by (simp add: pmm_inv_def pmm_consts)
  ultimately show ?thesis
    using assms
    by (simp add: free_frames_def used_frames_def total_frames_def count_free_card wsub_small)
qed

end
