(* ===== verification/Allocator.thy ===== *)
theory Allocator
  imports Machine Pmm
begin

text \<open>
  \<open>src/src/allocator.rs\<close>: the kernel heap, a first-fit free list whose blocks carry their header
  in the memory they describe. The model keeps the pointers: \<open>heap\<close> maps the address of a
  header to its \<open>size\<close> and \<open>next\<close> fields, address 0 is the null pointer, and every access of
  the source through a raw pointer is a read or an update of that map. (Headers are 16 bytes at
  16-byte aligned addresses, so two headers at different addresses never overlap.)

  Above the pointer level the heap is a tiling: the list of all blocks, free or live, that covers
  \<open>[base, base + total)\<close> without gap or overlap. \<open>heap_inv\<close> ties the two together, and every
  operation is proved to move from one tiling to the next.
\<close>

section \<open>State\<close>

definition MIN_ALIGN :: usize where
  "MIN_ALIGN = 16"

definition HEAP_SIZE :: usize where
  "HEAP_SIZE = 40 * 1024 * 1024"

text \<open>\<open>size_of::<Block>()\<close>: a \<open>usize\<close> and a pointer.\<close>

definition BLOCK_SIZE :: usize where
  "BLOCK_SIZE = 16"

lemmas alloc_consts = MIN_ALIGN_def BLOCK_SIZE_def

record block =
  blk_size :: usize
  blk_next :: usize

record flist =
  head :: usize
  allocated :: usize
  total :: usize
  base :: usize
  heap :: "usize \<Rightarrow> block"

definition flist_new :: "(usize \<Rightarrow> block) \<Rightarrow> flist" where
  "flist_new h = \<lparr>head = 0, allocated = 0, total = 0, base = 0, heap = h\<rparr>"

section \<open>Operations\<close>

definition flist_init :: "usize \<Rightarrow> usize \<Rightarrow> flist \<Rightarrow> flist" where
  "flist_init start e s =
     (let total' = wsub e start
      in s\<lparr>heap := (heap s)(start := \<lparr>blk_size = wsub total' BLOCK_SIZE, blk_next = 0\<rparr>),
           head := start, allocated := 0, total := total', base := start\<rparr>)"

text \<open>The body of the search loop once a block that fits is found.\<close>

definition take_block :: "usize \<Rightarrow> usize \<Rightarrow> usize \<Rightarrow> flist \<Rightarrow> usize \<times> flist" where
  "take_block sz previous current s =
     (let csize = blk_size (heap s current);
          h1 = (if csize \<ge> wadd (wadd sz BLOCK_SIZE) MIN_ALIGN then
                  let remaining = wadd (wadd current BLOCK_SIZE) sz;
                      h = (heap s)(remaining := \<lparr>blk_size = wsub (wsub csize sz) BLOCK_SIZE,
                                                 blk_next = blk_next (heap s current)\<rparr>)
                  in h(current := \<lparr>blk_size = sz, blk_next = remaining\<rparr>)
                else heap s);
          s1 = (if previous = 0 then s\<lparr>heap := h1, head := blk_next (h1 current)\<rparr>
                else s\<lparr>heap := h1(previous := (h1 previous)\<lparr>blk_next := blk_next (h1 current)\<rparr>)\<rparr>)
      in (wadd current BLOCK_SIZE, s1\<lparr>allocated := wadd (allocated s1) sz\<rparr>))"

partial_function (option) alloc_loop ::
  "usize \<Rightarrow> usize \<Rightarrow> usize \<Rightarrow> flist \<Rightarrow> (usize \<times> flist) option" where
  "alloc_loop sz previous current s =
     (if current \<noteq> 0 then
        if blk_size (heap s current) \<ge> sz then Some (take_block sz previous current s)
        else alloc_loop sz current (blk_next (heap s current)) s
      else Some (0, s))"

definition flist_alloc :: "usize \<Rightarrow> flist \<Rightarrow> (usize \<times> flist) option" where
  "flist_alloc sz s = alloc_loop (align_up sz MIN_ALIGN) 0 (head s) s"

partial_function (option) find_slot ::
  "usize \<Rightarrow> usize \<Rightarrow> usize \<Rightarrow> (usize \<Rightarrow> block) \<Rightarrow> (usize \<times> usize) option" where
  "find_slot block previous current h =
     (if current \<noteq> 0 \<and> current < block then find_slot block current (blk_next (h current)) h
      else Some (previous, current))"

definition coalesce_next :: "usize \<Rightarrow> usize \<Rightarrow> (usize \<Rightarrow> block) \<Rightarrow> usize \<Rightarrow> block" where
  "coalesce_next block current h =
     (if current \<noteq> 0 \<and> wadd (wadd block BLOCK_SIZE) (blk_size (h block)) = current
      then h(block := \<lparr>blk_size = wadd (blk_size (h block)) (wadd BLOCK_SIZE (blk_size (h current))),
                       blk_next = blk_next (h current)\<rparr>)
      else h)"

definition coalesce_prev :: "usize \<Rightarrow> usize \<Rightarrow> (usize \<Rightarrow> block) \<Rightarrow> usize \<Rightarrow> block" where
  "coalesce_prev block previous h =
     (if previous \<noteq> 0 \<and> wadd (wadd previous BLOCK_SIZE) (blk_size (h previous)) = block
      then h(previous := \<lparr>blk_size = wadd (blk_size (h previous)) (wadd BLOCK_SIZE (blk_size (h block))),
                          blk_next = blk_next (h block)\<rparr>)
      else h)"

definition flist_dealloc :: "usize \<Rightarrow> flist \<Rightarrow> flist option" where
  "flist_dealloc ptr s =
     (let block = wsub ptr BLOCK_SIZE;
          s0 = s\<lparr>allocated := wsub (allocated s) (blk_size (heap s block))\<rparr>
      in do {
           (previous, current) \<leftarrow> find_slot block 0 (head s0) (heap s0);
           let h1 = (heap s0)(block := (heap s0 block)\<lparr>blk_next := current\<rparr>);
           let s1 = (if previous = 0 then s0\<lparr>heap := h1, head := block\<rparr>
                     else s0\<lparr>heap := h1(previous := (h1 previous)\<lparr>blk_next := block\<rparr>)\<rparr>);
           let h2 = coalesce_next block current (heap s1);
           Some (s1\<lparr>heap := coalesce_prev block previous h2\<rparr>) })"

definition allocated_bytes :: "flist \<Rightarrow> usize" where
  "allocated_bytes s = allocated s"

definition free_bytes :: "flist \<Rightarrow> usize" where
  "free_bytes s = wsub (total s) (allocated s)"

definition total_bytes :: "flist \<Rightarrow> usize" where
  "total_bytes s = total s"

definition heap_range :: "flist \<Rightarrow> usize \<times> usize" where
  "heap_range s = (base s, wadd (base s) (total s))"

text \<open>The \<open>GlobalAlloc\<close> implementation: a layout is its size and its alignment.\<close>

definition global_alloc :: "usize \<Rightarrow> usize \<Rightarrow> flist \<Rightarrow> (usize \<times> flist) option" where
  "global_alloc sz align s = (if align > MIN_ALIGN then Some (0, s) else flist_alloc sz s)"

definition global_dealloc :: "usize \<Rightarrow> flist \<Rightarrow> flist option" where
  "global_dealloc ptr s = (if ptr \<noteq> 0 then flist_dealloc ptr s else Some s)"

text \<open>\<open>allocator::init\<close>: the heap's frames come from the physical memory manager; the
  \<open>expect\<close> panics (\<open>None\<close>) when it has no run of that length.\<close>

definition allocator_init :: "pmm \<Rightarrow> flist \<Rightarrow> (pmm \<times> flist) exec" where
  "allocator_init p s = do {
     (r, p') \<leftarrow> alloc_contiguous (HEAP_SIZE div FRAME_SIZE) p;
     start \<leftarrow> r;
     Some (p', flist_init start (start + HEAP_SIZE) s) }"

section \<open>Abstraction: tilings\<close>

text \<open>A tile is a block: the address of its header, its payload size, and whether it is free.\<close>

type_synonym tile = "usize \<times> usize \<times> bool"

fun tiles :: "usize \<Rightarrow> tile list \<Rightarrow> usize \<Rightarrow> bool" where
  "tiles a [] e \<longleftrightarrow> a = e"
| "tiles a ((b, n, fr) # ts) e \<longleftrightarrow> b = a \<and> 16 dvd n \<and> tiles (a + 16 + n) ts e"

fun free_tiles :: "tile list \<Rightarrow> (usize \<times> usize) list" where
  "free_tiles [] = []"
| "free_tiles ((a, n, fr) # ts) = (if fr then (a, n) # free_tiles ts else free_tiles ts)"

fun live_tiles :: "tile list \<Rightarrow> (usize \<times> usize) list" where
  "live_tiles [] = []"
| "live_tiles ((a, n, fr) # ts) = (if fr then live_tiles ts else (a, n) # live_tiles ts)"

text \<open>No two neighbouring blocks are both free: the list is fully coalesced.\<close>

definition coalesced :: "tile list \<Rightarrow> bool" where
  "coalesced ts \<longleftrightarrow> successively (\<lambda>x y. \<not> (snd (snd x) \<and> snd (snd y))) ts"

text \<open>\<open>seg h p bs q\<close>: following \<open>next\<close> from \<open>p\<close> visits exactly the blocks \<open>bs\<close> and reaches
  \<open>q\<close>.\<close>

fun seg :: "(usize \<Rightarrow> block) \<Rightarrow> usize \<Rightarrow> (usize \<times> usize) list \<Rightarrow> usize \<Rightarrow> bool" where
  "seg h p [] q \<longleftrightarrow> p = q"
| "seg h p ((a, n) # bs) q \<longleftrightarrow> p = a \<and> a \<noteq> 0 \<and> blk_size (h a) = n \<and> seg h (blk_next (h a)) bs q"

definition heap_inv :: "flist \<Rightarrow> tile list \<Rightarrow> bool" where
  "heap_inv s ts \<longleftrightarrow>
     tiles (base s) ts (base s + total s) \<and> coalesced ts \<and> seg (heap s) (head s) (free_tiles ts) 0
     \<and> (\<forall>a n. (a, n, False) \<in> set ts \<longrightarrow> blk_size (heap s a) = n)
     \<and> 0 < base s \<and> 16 dvd base s \<and> base s + total s < 2 ^ 63"

text \<open>First fit on the tiling, splitting when at least 16 bytes of payload are left over.\<close>

fun tile_alloc :: "usize \<Rightarrow> tile list \<Rightarrow> (usize \<times> tile list) option" where
  "tile_alloc sz [] = None"
| "tile_alloc sz ((a, n, fr) # ts) =
     (if fr \<and> sz \<le> n then
        if sz + 32 \<le> n
        then Some (a, (a, sz, False) # (a + 16 + sz, n - sz - 16, True) # ts)
        else Some (a, (a, n, False) # ts)
      else map_option (\<lambda>(x, ts'). (x, (a, n, fr) # ts')) (tile_alloc sz ts))"

text \<open>Release on the tiling: mark the block free, then merge every pair of free neighbours.\<close>

fun tile_mark :: "usize \<Rightarrow> tile list \<Rightarrow> tile list" where
  "tile_mark x [] = []"
| "tile_mark x ((a, n, fr) # ts) = (if a = x then (a, n, True) # ts else (a, n, fr) # tile_mark x ts)"

fun tile_merge :: "tile list \<Rightarrow> tile list" where
  "tile_merge [] = []"
| "tile_merge [t] = [t]"
| "tile_merge ((a, n, f) # (b, m, g) # ts) =
     (if f \<and> g then tile_merge ((a, n + 16 + m, f) # ts) else (a, n, f) # tile_merge ((b, m, g) # ts))"

definition tile_free :: "usize \<Rightarrow> tile list \<Rightarrow> tile list" where
  "tile_free x ts = tile_merge (tile_mark x ts)"

section \<open>Tilings\<close>

lemma tiles_append: "tiles a (xs @ ys) e \<longleftrightarrow> (\<exists>m. tiles a xs m \<and> tiles m ys e)"
  by (induction xs arbitrary: a) auto

lemma tiles_le: "tiles a ts e \<Longrightarrow> a \<le> e"
  by (induction ts arbitrary: a) fastforce+

lemma tiles_bounds: "tiles a ts e \<Longrightarrow> (b, n, f) \<in> set ts \<Longrightarrow> a \<le> b \<and> b + 16 + n \<le> e"
proof (induction ts arbitrary: a)
  case (Cons t ts)
  obtain c m g where t: "t = (c, m, g)" by (cases t)
  with Cons.prems(1) have rest: "tiles (a + 16 + m) ts e" "c = a" by auto
  show ?case
  proof (cases "(b, n, f) = t")
    case True
    then show ?thesis using rest tiles_le [OF rest(1)] t by simp
  next
    case False
    then have "(b, n, f) \<in> set ts" using Cons.prems(2) by simp
    from Cons.IH [OF rest(1) this] show ?thesis by simp
  qed
qed simp

lemma tiles_dvd: "tiles a ts e \<Longrightarrow> 16 dvd a \<Longrightarrow> (b, n, f) \<in> set ts \<Longrightarrow> 16 dvd b \<and> 16 dvd n"
  by (induction ts arbitrary: a) fastforce+

lemma free_tiles_append [simp]: "free_tiles (xs @ ys) = free_tiles xs @ free_tiles ys"
  by (induction xs rule: free_tiles.induct) auto

lemma live_tiles_append [simp]: "live_tiles (xs @ ys) = live_tiles xs @ live_tiles ys"
  by (induction xs rule: live_tiles.induct) auto

lemma in_free_tiles: "(a, n) \<in> set (free_tiles ts) \<longleftrightarrow> (a, n, True) \<in> set ts"
  by (induction ts rule: free_tiles.induct) auto

lemma in_live_tiles: "(a, n) \<in> set (live_tiles ts) \<longleftrightarrow> (a, n, False) \<in> set ts"
  by (induction ts rule: live_tiles.induct) auto

lemma fst_free_tiles: "a \<in> fst ` set (free_tiles ts) \<Longrightarrow> \<exists>n. (a, n, True) \<in> set ts"
  by (auto simp: in_free_tiles)

lemma tiles_sorted: "tiles a ts e \<Longrightarrow> sorted (map fst ts) \<and> distinct (map fst ts)"
proof (induction ts arbitrary: a)
  case (Cons t ts)
  obtain c m g where t: "t = (c, m, g)" by (cases t)
  with Cons.prems have rest: "tiles (a + 16 + m) ts e" "c = a" by auto
  have "\<forall>b \<in> fst ` set ts. a + 16 + m \<le> b" using tiles_bounds [OF rest(1)] by force
  then show ?case using Cons.IH [OF rest(1)] rest(2) t by fastforce
qed simp

lemma free_tiles_split:
  "free_tiles ts = xs @ (a, n) # ys \<Longrightarrow>
     \<exists>us vs. ts = us @ (a, n, True) # vs \<and> free_tiles us = xs \<and> free_tiles vs = ys"
proof (induction ts arbitrary: xs)
  case (Cons t ts)
  obtain b m f where t: "t = (b, m, f)" by (cases t)
  show ?case
  proof (cases "f \<and> xs = []")
    case True
    with Cons.prems t have "t = (a, n, True)" "free_tiles ts = ys" by auto
    with True have "t # ts = [] @ (a, n, True) # ts \<and> free_tiles [] = xs \<and> free_tiles ts = ys" by simp
    then show ?thesis by blast
  next
    case False
    then obtain xs' where "free_tiles ts = xs' @ (a, n) # ys" "xs = (if f then (b, m) # xs' else xs')"
      using Cons.prems t by (cases xs) (auto split: if_splits)
    with Cons.IH obtain us vs where "ts = us @ (a, n, True) # vs" "free_tiles us = xs'" "free_tiles vs = ys"
      by blast
    with t \<open>xs = _\<close> have "t # ts = (t # us) @ (a, n, True) # vs \<and> free_tiles (t # us) = xs \<and> free_tiles vs = ys"
      by simp
    then show ?thesis by blast
  qed
qed simp

lemma distinct_free_tiles: "distinct (map fst ts) \<Longrightarrow> distinct (map fst (free_tiles ts))"
  by (induction ts rule: free_tiles.induct) (auto simp: in_free_tiles, force)

section \<open>Linked segments\<close>

definition last_addr :: "(usize \<times> usize) list \<Rightarrow> usize" where
  "last_addr xs = (if xs = [] then 0 else fst (last xs))"

lemma last_addr_snoc [simp]: "last_addr (xs @ [(a, n)]) = a" "last_addr [] = 0"
  by (simp_all add: last_addr_def)

lemma seg_append: "seg h p (xs @ ys) q \<longleftrightarrow> (\<exists>m. seg h p xs m \<and> seg h m ys q)"
  by (induction xs arbitrary: p) auto

lemma seg_cong: "(\<And>a. a \<in> fst ` set bs \<Longrightarrow> h a = h' a) \<Longrightarrow> seg h p bs q = seg h' p bs q"
  by (induction bs arbitrary: p) auto

lemma seg_upd: "x \<notin> fst ` set bs \<Longrightarrow> seg (h(x := v)) p bs q = seg h p bs q"
  by (rule seg_cong) (auto simp: image_iff)

lemma seg_nonzero: "seg h p bs q \<Longrightarrow> 0 \<notin> fst ` set bs"
  by (induction bs arbitrary: p) fastforce+

lemma seg_sizes: "seg h p bs q \<Longrightarrow> (a, n) \<in> set bs \<Longrightarrow> blk_size (h a) = n"
  by (induction bs arbitrary: p) auto

text \<open>Redirecting the \<open>next\<close> field of the last block of a segment.\<close>

lemma seg_relink:
  assumes "seg h p xs q" "xs \<noteq> []" "distinct (map fst xs)"
  shows "seg (h(last_addr xs := (h (last_addr xs))\<lparr>blk_next := q'\<rparr>)) p xs q'"
proof -
  obtain us b m where xs: "xs = us @ [(b, m)]" using assms(2) by (metis rev_exhaust surj_pair)
  have "seg (h(b := (h b)\<lparr>blk_next := q'\<rparr>)) p us b"
    using assms(1,3) xs by (subst seg_cong [of _ _ h]) (auto simp: seg_append)
  with assms(1) show ?thesis by (auto simp: xs seg_append)
qed

lemma alloc_loop_spec:
  "seg (heap s) cur bs 0 \<Longrightarrow>
     alloc_loop sz (last_addr pre) cur s =
       (case List.extract (\<lambda>(a, n). sz \<le> n) bs of
          None \<Rightarrow> Some (0, s)
        | Some (xs, (a, n), ys) \<Rightarrow> Some (take_block sz (last_addr (pre @ xs)) a s))"
proof (induction bs arbitrary: cur pre)
  case Nil
  then show ?case by (subst alloc_loop.simps) (simp add: extract_Nil_code)
next
  case (Cons b bs)
  obtain a n where b: "b = (a, n)" by (cases b)
  with Cons.prems have a: "cur = a" "a \<noteq> 0" "blk_size (heap s a) = n"
      "seg (heap s) (blk_next (heap s a)) bs 0"
    by auto
  show ?case
  proof (cases "sz \<le> n")
    case True
    then show ?thesis using a b by (subst alloc_loop.simps) (simp add: extract_Cons_code)
  next
    case False
    have "alloc_loop sz (last_addr pre) cur s = alloc_loop sz (last_addr (pre @ [b])) (blk_next (heap s a)) s"
      using a b False by (subst alloc_loop.simps) simp
    with Cons.IH [OF a(4), of "pre @ [b]"] show ?thesis
      using False b by (auto simp: extract_Cons_code split: option.splits)
  qed
qed

section \<open>Allocation refines first fit on the tiling\<close>

text \<open>The two heap updates of \<open>take_block\<close>: splitting the block, then unlinking it.\<close>

definition split_heap :: "usize \<Rightarrow> usize \<Rightarrow> usize \<Rightarrow> (usize \<Rightarrow> block) \<Rightarrow> usize \<Rightarrow> block" where
  "split_heap a n sz h =
     (if sz + 32 \<le> n then
        h(a + 16 + sz := \<lparr>blk_size = n - sz - 16, blk_next = blk_next (h a)\<rparr>,
          a := \<lparr>blk_size = sz, blk_next = a + 16 + sz\<rparr>)
      else h)"

definition relink :: "usize \<Rightarrow> usize \<Rightarrow> (usize \<Rightarrow> block) \<Rightarrow> flist \<Rightarrow> flist" where
  "relink p q h s = (if p = 0 then s\<lparr>heap := h, head := q\<rparr>
                     else s\<lparr>heap := h(p := (h p)\<lparr>blk_next := q\<rparr>)\<rparr>)"

definition split_tiles :: "usize \<Rightarrow> usize \<Rightarrow> usize \<Rightarrow> tile list" where
  "split_tiles a n sz = (if sz + 32 \<le> n then [(a, sz, False), (a + 16 + sz, n - sz - 16, True)]
                         else [(a, n, False)])"

lemma relink_simps [simp]:
  "allocated (relink p q h s) = allocated s" "total (relink p q h s) = total s"
  "base (relink p q h s) = base s" "blk_size (heap (relink p q h s) x) = blk_size (h x)"
  by (simp_all add: relink_def)

lemma take_block_eq:
  assumes "blk_size (heap s a) = n" "sz \<le> n" "a + 16 + n < 2 ^ 63"
  shows "take_block sz p a s =
    (let h = split_heap a n sz (heap s)
     in (a + 16, (relink p (blk_next (h a)) h s)\<lparr>allocated := wadd (allocated s) sz\<rparr>))"
proof -
  have "wadd (wadd sz 16) 16 = sz + 32" "wadd (wadd a 16) sz = a + 16 + sz" "wadd a 16 = a + 16"
    using assms by (simp_all add: wadd_small)
  moreover have "sz + 32 \<le> n \<Longrightarrow> wsub (wsub n sz) 16 = n - sz - 16"
    using assms by (simp add: wsub_small)
  ultimately show ?thesis
    by (simp add: take_block_def split_heap_def relink_def Let_def alloc_consts assms(1))
qed

lemma last_addr_zero: "seg h p xs q \<Longrightarrow> last_addr xs = 0 \<longleftrightarrow> xs = []"
  using seg_nonzero [of h p xs q] last_in_set [of xs] unfolding last_addr_def
  by (cases "last xs") (force simp: image_iff)

lemma last_addr_in: "xs \<noteq> [] \<Longrightarrow> last_addr xs \<in> fst ` set xs"
  by (simp add: last_addr_def)

lemma seg_relinked:
  assumes "seg h (head s) xs a" "seg h q ys 0" "distinct (map fst (xs @ ys))"
  shows "seg (heap (relink (last_addr xs) q h s)) (head (relink (last_addr xs) q h s)) (xs @ ys) 0"
proof (cases "xs = []")
  case True
  with assms show ?thesis by (simp add: relink_def)
next
  case False
  let ?h = "h(last_addr xs := (h (last_addr xs))\<lparr>blk_next := q\<rparr>)"
  have "seg ?h (head s) xs q" using assms False by (intro seg_relink) auto
  moreover have "seg ?h q ys 0"
  proof -
    have "last_addr xs \<notin> fst ` set ys" using assms(3) last_addr_in [OF False] by auto
    with assms(2) show ?thesis by (simp add: seg_upd)
  qed
  moreover have "last_addr xs \<noteq> 0" using last_addr_zero [OF assms(1)] False by simp
  ultimately show ?thesis by (auto simp: relink_def seg_append)
qed

lemma tiles_split:
  "tiles b (us @ (a, n, True) # vs) e \<Longrightarrow> sz \<le> n \<Longrightarrow> 16 dvd sz \<Longrightarrow>
     tiles b (us @ split_tiles a n sz @ vs) e"
  by (auto simp: tiles_append split_tiles_def dvd_diff_nat add_ac)

lemma coalesced_split:
  "coalesced (us @ (a, n, True) # vs) \<Longrightarrow> coalesced (us @ split_tiles a n sz @ vs)"
  by (cases vs) (auto simp: coalesced_def successively_append_iff split_tiles_def)

lemma tiles_around:
  assumes "tiles b (us @ (a, n, f) # vs) e"
  shows "(x, m, g) \<in> set us \<Longrightarrow> x < a" "(x, m, g) \<in> set vs \<Longrightarrow> a + 16 + n \<le> x"
  using assms by (auto simp: tiles_append dest!: tiles_bounds)

lemma heap_inv_tile:
  assumes "heap_inv s ts" "(a, n, f) \<in> set ts"
  shows "0 < a" "base s \<le> a" "a + 16 + n \<le> base s + total s" "a + 16 + n < 2 ^ 63" "16 dvd a" "16 dvd n"
proof -
  from assms(1) have t: "tiles (base s) ts (base s + total s)" "0 < base s" "16 dvd base s"
      "base s + total s < 2 ^ 63"
    by (simp_all add: heap_inv_def)
  from tiles_bounds [OF t(1) assms(2)] tiles_dvd [OF t(1,3) assms(2)] t(2,4)
  show "0 < a" "base s \<le> a" "a + 16 + n \<le> base s + total s" "a + 16 + n < 2 ^ 63" "16 dvd a" "16 dvd n"
    by linarith+
qed

lemma take_block_inv:
  assumes inv: "heap_inv s (us @ (a, n, True) # vs)" and sz: "sz \<le> n" "16 dvd sz"
  shows "\<exists>s'. take_block sz (last_addr (free_tiles us)) a s = (a + 16, s')
     \<and> heap_inv s' (us @ split_tiles a n sz @ vs) \<and> allocated s' = wadd (allocated s) sz
     \<and> total s' = total s \<and> base s' = base s"
proof -
  let ?ts = "us @ (a, n, True) # vs"
  define h where "h = split_heap a n sz (heap s)"
  from inv have tl: "tiles (base s) ?ts (base s + total s)" and co: "coalesced ?ts"
    and sg: "seg (heap s) (head s) (free_tiles us) a" "blk_size (heap s a) = n"
      "seg (heap s) (blk_next (heap s a)) (free_tiles vs) 0"
    and lv: "\<forall>b m. (b, m, False) \<in> set ?ts \<longrightarrow> blk_size (heap s b) = m"
    by (auto simp: heap_inv_def seg_append)
  note around = tiles_around [OF tl]
  have lim: "a + 16 + n < 2 ^ 63" "a \<noteq> 0" using heap_inv_tile [OF inv, of a n True] by simp_all
  have frame: "h x = heap s x" if "(x, m, f) \<in> set us \<union> set vs" for x m f
    using that around sz by (auto simp: h_def split_heap_def dest!: around)
  have "seg h (head s) (free_tiles us) a"
    using sg(1) by (subst seg_cong [of _ _ "heap s"]) (auto simp: in_free_tiles intro: frame)
  moreover have "seg h (blk_next (heap s a)) (free_tiles vs) 0"
    using sg(3) by (subst seg_cong [of _ _ "heap s"]) (auto simp: in_free_tiles intro: frame)
  then have "seg h (blk_next (h a)) (free_tiles (split_tiles a n sz @ vs)) 0"
    using lim(2) by (auto simp: h_def split_heap_def split_tiles_def)
  ultimately have "seg (heap (relink (last_addr (free_tiles us)) (blk_next (h a)) h s))
      (head (relink (last_addr (free_tiles us)) (blk_next (h a)) h s))
      (free_tiles us @ free_tiles (split_tiles a n sz @ vs)) 0"
    using distinct_free_tiles [of "us @ split_tiles a n sz @ vs"]
      tiles_sorted [OF tiles_split [OF tl sz]]
    by (intro seg_relinked) auto
  moreover have "blk_size (h b) = m" if "(b, m, False) \<in> set (us @ split_tiles a n sz @ vs)" for b m
  proof (cases "(b, m, False) \<in> set us \<union> set vs")
    case True
    then show ?thesis using lv frame [OF True] by auto
  next
    case False
    with that show ?thesis
      using sg(2) by (auto simp: split_tiles_def h_def split_heap_def split: if_splits)
  qed
  ultimately show ?thesis
    using inv tiles_split [OF tl sz] coalesced_split [OF co]
    by (auto simp: take_block_eq [OF sg(2) sz(1) lim(1)] Let_def h_def [symmetric] heap_inv_def)
qed

lemma tile_alloc_cases:
  "(tile_alloc sz ts = None \<and> List.extract (\<lambda>(a, n). sz \<le> n) (free_tiles ts) = None)
   \<or> (\<exists>us a n vs. ts = us @ (a, n, True) # vs \<and> sz \<le> n
        \<and> List.extract (\<lambda>(a, n). sz \<le> n) (free_tiles ts) = Some (free_tiles us, (a, n), free_tiles vs)
        \<and> tile_alloc sz ts = Some (a, us @ split_tiles a n sz @ vs))"
proof (induction ts)
  case Nil
  then show ?case by (simp add: extract_Nil_code)
next
  case (Cons t ts)
  obtain b m f where t: "t = (b, m, f)" by (cases t)
  show ?case
  proof (cases "f \<and> sz \<le> m")
    case True
    then have "t # ts = [] @ (b, m, True) # ts \<and> sz \<le> m
        \<and> List.extract (\<lambda>(a, n). sz \<le> n) (free_tiles (t # ts)) = Some (free_tiles [], (b, m), free_tiles ts)
        \<and> tile_alloc sz (t # ts) = Some (b, [] @ split_tiles b m sz @ ts)"
      using t by (simp add: extract_Cons_code split_tiles_def)
    then show ?thesis by blast
  next
    case no: False
    from Cons.IH show ?thesis
    proof (elim disjE conjE exE)
      assume "tile_alloc sz ts = None" "List.extract (\<lambda>(a, n). sz \<le> n) (free_tiles ts) = None"
      then show ?thesis using t no by (auto simp: extract_Cons_code)
    next
      fix us a n vs
      assume "ts = us @ (a, n, True) # vs" "sz \<le> n"
        "List.extract (\<lambda>(a, n). sz \<le> n) (free_tiles ts) = Some (free_tiles us, (a, n), free_tiles vs)"
        "tile_alloc sz ts = Some (a, us @ split_tiles a n sz @ vs)"
      then have "t # ts = (t # us) @ (a, n, True) # vs \<and> sz \<le> n
          \<and> List.extract (\<lambda>(a, n). sz \<le> n) (free_tiles (t # ts)) = Some (free_tiles (t # us), (a, n), free_tiles vs)
          \<and> tile_alloc sz (t # ts) = Some (a, (t # us) @ split_tiles a n sz @ vs)"
        using t no by (auto simp: extract_Cons_code)
      then show ?thesis by blast
    qed
  qed
qed

lemma align_up_min:
  assumes "v + 15 < 2 ^ 64"
  shows "align_up v MIN_ALIGN = (v + 15) div 16 * 16"
proof -
  have "(of_nat v + of_nat MIN_ALIGN - 1 :: u64) = of_nat (v + 15)" by (simp add: MIN_ALIGN_def)
  moreover have "(of_nat MIN_ALIGN - 1 :: u64) = 2 ^ 4 - 1" by (simp add: MIN_ALIGN_def)
  ultimately have "align_up v MIN_ALIGN = unat ((of_nat (v + 15) :: u64) AND NOT (2 ^ 4 - 1))"
    by (simp only: align_up_def)
  also have "\<dots> = unat (of_nat (v + 15) :: u64) div 2 ^ 4 * 2 ^ 4" by (rule unat_align)
  also have "unat (of_nat (v + 15) :: u64) = v + 15" using assms by (simp only: unat_of_nat) simp
  finally show ?thesis by simp
qed

lemma align_up_min_bounds:
  assumes "v + 15 < 2 ^ 64"
  shows "v \<le> align_up v MIN_ALIGN" "align_up v MIN_ALIGN < v + 16" "16 dvd align_up v MIN_ALIGN"
  unfolding align_up_min [OF assms] by (simp_all add: algebra_simps)

lemma flist_alloc_tile:
  assumes inv: "heap_inv s ts" and size: "sz + 15 < 2 ^ 64"
  shows "case tile_alloc (align_up sz MIN_ALIGN) ts of
           None \<Rightarrow> flist_alloc sz s = Some (0, s)
         | Some (a, ts') \<Rightarrow> \<exists>s'. flist_alloc sz s = Some (a + 16, s') \<and> heap_inv s' ts'
             \<and> allocated s' = wadd (allocated s) (align_up sz MIN_ALIGN)
             \<and> total s' = total s \<and> base s' = base s"
proof -
  let ?n = "align_up sz MIN_ALIGN"
  have seg: "seg (heap s) (head s) (free_tiles ts) 0" using inv by (simp add: heap_inv_def)
  note loop = alloc_loop_spec [OF seg, of ?n "[]", folded flist_alloc_def, simplified, folded flist_alloc_def]
  from tile_alloc_cases [of ?n ts] show ?thesis
  proof (elim disjE conjE exE)
    assume "tile_alloc ?n ts = None" "List.extract (\<lambda>(a, n). ?n \<le> n) (free_tiles ts) = None"
    with loop show ?thesis by simp
  next
    fix us a n vs
    assume ts: "ts = us @ (a, n, True) # vs" and n: "?n \<le> n"
      and ex: "List.extract (\<lambda>(a, n). ?n \<le> n) (free_tiles ts) = Some (free_tiles us, (a, n), free_tiles vs)"
      and ta: "tile_alloc ?n ts = Some (a, us @ split_tiles a n ?n @ vs)"
    from loop ex have "flist_alloc sz s = Some (take_block ?n (last_addr (free_tiles us)) a s)" by simp
    with take_block_inv [OF inv [unfolded ts] n align_up_min_bounds(3) [OF size]] ta
    show ?thesis by auto
  qed
qed

section \<open>Release refines mark-and-merge on the tiling\<close>

definition first_addr :: "(usize \<times> usize) list \<Rightarrow> usize" where
  "first_addr xs = (case xs of [] \<Rightarrow> 0 | (a, n) # _ \<Rightarrow> a)"

lemma seg_first: "seg h p xs 0 \<Longrightarrow> p = first_addr xs"
  by (cases xs) (auto simp: first_addr_def)

lemma find_slot_spec:
  assumes "seg h cur (xs @ ys) 0" "\<forall>x \<in> fst ` set xs. x < b" "\<forall>y \<in> fst ` set ys. b \<le> y"
  shows "find_slot b (last_addr pre) cur h = Some (last_addr (pre @ xs), first_addr ys)"
  using assms
proof (induction xs arbitrary: cur pre)
  case Nil
  then have "cur = first_addr ys" by (simp add: seg_first)
  moreover have "\<not> (first_addr ys \<noteq> 0 \<and> first_addr ys < b)"
    using Nil by (cases ys) (auto simp: first_addr_def)
  ultimately show ?case by (subst find_slot.simps) auto
next
  case (Cons x xs)
  obtain a n where x: "x = (a, n)" by (cases x)
  with Cons.prems have a: "cur = a" "a \<noteq> 0" "a < b" "seg h (blk_next (h a)) (xs @ ys) 0" by auto
  have "find_slot b (last_addr pre) cur h = find_slot b (last_addr (pre @ [x])) (blk_next (h a)) h"
    using a x by (subst find_slot.simps) simp
  also have "\<dots> = Some (last_addr ((pre @ [x]) @ xs), first_addr ys)"
    using Cons.prems by (intro Cons.IH a(4)) auto
  finally show ?case by simp
qed

lemma seg_merge:
  assumes "seg h p (xs @ (c, k) # (a, n) # zs) 0" "distinct (map fst (xs @ (c, k) # (a, n) # zs))"
  shows "seg (h(c := \<lparr>blk_size = m, blk_next = blk_next (h a)\<rparr>)) p (xs @ (c, m) # zs) 0"
  using assms by (auto simp: seg_append seg_upd)

text \<open>The invariant without the coalescing clause, which holds between the steps of a release.\<close>

definition heap_inv0 :: "flist \<Rightarrow> tile list \<Rightarrow> bool" where
  "heap_inv0 s ts \<longleftrightarrow>
     tiles (base s) ts (base s + total s) \<and> seg (heap s) (head s) (free_tiles ts) 0
     \<and> (\<forall>a n. (a, n, False) \<in> set ts \<longrightarrow> blk_size (heap s a) = n)
     \<and> 0 < base s \<and> 16 dvd base s \<and> base s + total s < 2 ^ 63"

lemma heap_inv_iff: "heap_inv s ts \<longleftrightarrow> heap_inv0 s ts \<and> coalesced ts"
  by (auto simp: heap_inv_def heap_inv0_def)

lemma heap_inv0_tile:
  assumes "heap_inv0 s ts" "(a, n, f) \<in> set ts"
  shows "0 < a" "a + 16 + n < 2 ^ 63"
proof -
  from assms(1) have t: "tiles (base s) ts (base s + total s)" "0 < base s" "base s + total s < 2 ^ 63"
    by (simp_all add: heap_inv0_def)
  from tiles_bounds [OF t(1) assms(2)] t(2,3) show "0 < a" "a + 16 + n < 2 ^ 63" by linarith+
qed

lemma heap_inv0_merge:
  assumes inv: "heap_inv0 s (us @ (c, k, True) # (a, n, True) # vs)"
  shows "heap_inv0 (s\<lparr>heap := (heap s)(c := \<lparr>blk_size = k + 16 + n, blk_next = blk_next (heap s a)\<rparr>)\<rparr>)
           (us @ (c, k + 16 + n, True) # vs)"
proof -
  let ?ts = "us @ (c, k, True) # (a, n, True) # vs"
  from inv have tl: "tiles (base s) ?ts (base s + total s)"
    and sg: "seg (heap s) (head s) (free_tiles us @ (c, k) # (a, n) # free_tiles vs) 0"
    by (simp_all add: heap_inv0_def)
  have dist: "distinct (map fst ?ts)" using tiles_sorted [OF tl] by simp
  have "tiles (base s) (us @ (c, k + 16 + n, True) # vs) (base s + total s)"
    using tl by (auto simp: tiles_append add_ac)
  moreover have "seg ((heap s)(c := \<lparr>blk_size = k + 16 + n, blk_next = blk_next (heap s a)\<rparr>)) (head s)
      (free_tiles us @ (c, k + 16 + n) # free_tiles vs) 0"
    using distinct_free_tiles [OF dist] by (intro seg_merge [OF sg]) simp
  moreover have "x \<noteq> c" if "(x, m, False) \<in> set us \<union> set vs" for x m
    using that dist by (auto simp: image_iff)
  ultimately show ?thesis using inv by (auto simp: heap_inv0_def)
qed

lemma coalesce_next_inv:
  assumes inv: "heap_inv0 s (us @ (a, n, True) # vs)"
  shows "heap_inv0 (s\<lparr>heap := coalesce_next a (first_addr (free_tiles vs)) (heap s)\<rparr>)
           (case vs of (b, m, True) # vs' \<Rightarrow> us @ (a, n + 16 + m, True) # vs' | _ \<Rightarrow> us @ (a, n, True) # vs)"
proof (cases "\<exists>b m vs'. vs = (b, m, True) # vs'")
  case True
  then obtain b m vs' where vs: "vs = (b, m, True) # vs'" by blast
  from inv have sz: "blk_size (heap s a) = n" "blk_size (heap s b) = m" "b = a + 16 + n"
    by (auto simp: heap_inv0_def vs seg_append tiles_append)
  have lim: "b + 16 + m < 2 ^ 63" using heap_inv0_tile [OF inv, of b m True] vs by simp
  have "coalesce_next a (first_addr (free_tiles vs)) (heap s)
      = (heap s)(a := \<lparr>blk_size = n + 16 + m, blk_next = blk_next (heap s b)\<rparr>)"
    using sz lim by (simp add: coalesce_next_def vs first_addr_def wadd_small alloc_consts add.assoc)
  with heap_inv0_merge [OF inv [unfolded vs]] show ?thesis by (simp add: vs)
next
  case False
  have "coalesce_next a (first_addr (free_tiles vs)) (heap s) = heap s"
  proof (cases "free_tiles vs")
    case Nil
    then show ?thesis by (simp add: coalesce_next_def first_addr_def)
  next
    case (Cons bm ys)
    obtain b m where bm: "bm = (b, m)" by (cases bm)
    from inv have tv: "tiles (a + 16 + n) vs (base s + total s)" and sz: "blk_size (heap s a) = n"
      by (auto simp: heap_inv0_def tiles_append seg_append)
    obtain v vs' where v: "vs = v # vs'" using Cons by (cases vs) auto
    then obtain c k where c: "v = (c, k, False)" using False by (cases v) auto
    from Cons bm c v have "(b, m, True) \<in> set vs'" by (auto simp: in_free_tiles [symmetric])
    then have "a + 16 + n < b" using tv v c tiles_bounds [of "c + 16 + k" vs' _ b m True] by fastforce
    then show ?thesis
      using sz heap_inv0_tile [OF inv, of a n True] Cons bm
      by (simp add: coalesce_next_def first_addr_def wadd_small alloc_consts)
  qed
  with inv False show ?thesis by (auto split: list.splits bool.splits)
qed

lemma coalesce_prev_inv:
  assumes inv: "heap_inv0 s (us @ (a, n, True) # vs)"
  shows "heap_inv0 (s\<lparr>heap := coalesce_prev a (last_addr (free_tiles us)) (heap s)\<rparr>)
           (case rev us of (c, k, True) # rus \<Rightarrow> rev rus @ (c, k + 16 + n, True) # vs
                         | _ \<Rightarrow> us @ (a, n, True) # vs)"
proof (cases "\<exists>c k us'. us = us' @ [(c, k, True)]")
  case True
  then obtain c k us' where us: "us = us' @ [(c, k, True)]" by blast
  from inv have sz: "blk_size (heap s a) = n" "blk_size (heap s c) = k" "a = c + 16 + k" "c \<noteq> 0"
    by (auto simp: heap_inv0_def us seg_append tiles_append)
  have lim: "a + 16 + n < 2 ^ 63" using heap_inv0_tile [OF inv, of a n True] by simp
  have "coalesce_prev a (last_addr (free_tiles us)) (heap s)
      = (heap s)(c := \<lparr>blk_size = k + 16 + n, blk_next = blk_next (heap s a)\<rparr>)"
    using sz lim by (simp add: coalesce_prev_def us wadd_small alloc_consts add.assoc)
  with heap_inv0_merge [of s us' c k a n vs] inv show ?thesis by (simp add: us)
next
  case False
  have "coalesce_prev a (last_addr (free_tiles us)) (heap s) = heap s"
  proof (cases "free_tiles us = []")
    case True
    then show ?thesis by (simp add: coalesce_prev_def)
  next
    case ne: False
    then obtain xs c k where fr: "free_tiles us = xs @ [(c, k)]" by (metis rev_exhaust surj_pair)
    from free_tiles_split [of us xs c k "[]"] fr obtain us1 us2 where
        us: "us = us1 @ (c, k, True) # us2" "free_tiles us2 = []" by auto
    have "us2 \<noteq> []" using False us(1) by auto
    then obtain d j f us3 where us2: "us2 = (d, j, f) # us3" by (metis list.exhaust prod.exhaust)
    from inv have "tiles (base s) us a" and sz: "blk_size (heap s c) = k"
      by (auto simp: heap_inv0_def tiles_append seg_append us(1))
    then have "c + 16 + k < a"
      using tiles_le by (fastforce simp: us us2 tiles_append)
    then show ?thesis
      using sz heap_inv0_tile [OF inv, of a n True] fr
      by (simp add: coalesce_prev_def wadd_small alloc_consts)
  qed
  moreover have "(case rev us of (c, k, True) # rus \<Rightarrow> rev rus @ (c, k + 16 + n, True) # vs
      | _ \<Rightarrow> us @ (a, n, True) # vs) = us @ (a, n, True) # vs"
    using False by (auto split: list.splits bool.splits)
  ultimately show ?thesis using inv by simp
qed

lemma tile_mark_split: "a \<notin> fst ` set us \<Longrightarrow> tile_mark a (us @ (a, n, f) # vs) = us @ (a, n, True) # vs"
  by (induction us rule: live_tiles.induct) auto

lemma tile_merge_Cons: "\<not> (snd (snd u) \<and> snd (snd v)) \<Longrightarrow> tile_merge (u # v # ts) = u # tile_merge (v # ts)"
  by (cases u; cases v) auto

lemma tile_merge_prefix: "coalesced (us @ [t]) \<Longrightarrow> tile_merge (us @ t # ts) = us @ tile_merge (t # ts)"
proof (induction us)
  case (Cons u us)
  then show ?case
    by (cases us) (auto simp: coalesced_def tile_merge_Cons)
qed simp

lemma tile_merge_id: "coalesced ts \<Longrightarrow> tile_merge ts = ts"
  using tile_merge_prefix [of "butlast ts" "last ts" "[]"] by (cases ts rule: rev_cases) auto

lemma tile_merge_head: "ts \<noteq> [] \<Longrightarrow> \<exists>m ts'. tile_merge ts = (fst (hd ts), m, snd (snd (hd ts))) # ts'"
  by (induction ts rule: tile_merge.induct) auto

lemma coalesced_tile_merge: "coalesced (tile_merge ts)"
proof (induction ts rule: tile_merge.induct)
  case (3 a n f b m g ts)
  show ?case
  proof (cases "f \<and> g")
    case True
    with "3.IH"(1) show ?thesis by simp
  next
    case False
    with "3.IH"(2) tile_merge_head [of "(b, m, g) # ts"] show ?thesis
      by (auto simp: coalesced_def)
  qed
qed (simp_all add: coalesced_def)

lemma tile_free_eq:
  assumes "tiles x (us @ (a, n, False) # vs) e" "coalesced (us @ (a, n, False) # vs)"
  shows "tile_free a (us @ (a, n, False) # vs) =
    (let (n', vs') = (case vs of (b, m, True) # vs' \<Rightarrow> (n + 16 + m, vs') | _ \<Rightarrow> (n, vs))
     in case rev us of (c, k, True) # rus \<Rightarrow> rev rus @ (c, k + 16 + n', True) # vs'
                     | _ \<Rightarrow> us @ (a, n', True) # vs')"
proof -
  have mark: "tile_mark a (us @ (a, n, False) # vs) = us @ (a, n, True) # vs"
    using tiles_sorted [OF assms(1)] by (intro tile_mark_split) auto
  have cu: "coalesced us" and cv: "coalesced vs"
    using assms(2) by (auto simp: coalesced_def successively_append_iff successively_Cons)
  define n' vs' where "n' = (case vs of (b, m, True) # vs' \<Rightarrow> n + 16 + m | _ \<Rightarrow> n)"
    and "vs' = (case vs of (b, m, True) # vs' \<Rightarrow> vs' | _ \<Rightarrow> vs)"
  have step: "tile_merge ((c, j, True) # vs) = (c, j + n' - n, True) # vs'" for c j
  proof (cases vs)
    case Nil
    then show ?thesis by (simp add: n'_def vs'_def)
  next
    case (Cons v ws)
    obtain b m g where v: "v = (b, m, g)" by (cases v)
    show ?thesis
    proof (cases g)
      case True
      with cv Cons v have "coalesced ((c, j + 16 + m, True) # ws)"
        by (cases ws) (auto simp: coalesced_def)
      with True Cons v show ?thesis
        by (simp add: n'_def vs'_def tile_merge_id)
    next
      case False
      with Cons v cv show ?thesis by (simp add: n'_def vs'_def tile_merge_id)
    qed
  qed
  have split: "(case vs of (b, m, True) # vs' \<Rightarrow> (n + 16 + m, vs') | _ \<Rightarrow> (n, vs)) = (n', vs')"
    by (auto simp: n'_def vs'_def split: list.splits bool.splits)
  have n': "n \<le> n'" by (auto simp: n'_def split: list.splits bool.splits)
  show ?thesis
  proof (cases us rule: rev_cases)
    case Nil
    with mark step [of a n] split show ?thesis by (simp add: tile_free_def)
  next
    case (snoc us1 u)
    obtain c k f where u: "u = (c, k, f)" by (cases u)
    show ?thesis
    proof (cases f)
      case True
      have "tile_merge (us @ (a, n, True) # vs) = us1 @ tile_merge ((c, k + 16 + n, True) # vs)"
        using tile_merge_prefix [of us1 u "(a, n, True) # vs"] cu snoc u True by simp
      with mark step [of c "k + 16 + n"] split n' snoc u True show ?thesis
        by (simp add: tile_free_def)
    next
      case False
      have "coalesced (us @ [(a, n, True)])"
        using cu snoc u False by (auto simp: coalesced_def successively_append_iff)
      with mark step [of a n] split snoc u False tile_merge_prefix [of us "(a, n, True)" vs] show ?thesis
        by (simp add: tile_free_def)
    qed
  qed
qed

lemma release_link:
  assumes inv: "heap_inv0 s (us @ (a, n, False) # vs)"
  shows "heap_inv0 (relink (last_addr (free_tiles us)) a
             ((heap s)(a := (heap s a)\<lparr>blk_next := first_addr (free_tiles vs)\<rparr>)) s)
           (us @ (a, n, True) # vs)" (is "heap_inv0 (relink ?p a ?h s) _")
proof -
  let ?ts = "us @ (a, n, False) # vs"
  from inv have tl: "tiles (base s) ?ts (base s + total s)"
    and sg: "seg (heap s) (head s) (free_tiles us @ free_tiles vs) 0"
    and lv: "\<forall>b m. (b, m, False) \<in> set ?ts \<longrightarrow> blk_size (heap s b) = m"
    by (simp_all add: heap_inv0_def)
  have dist: "distinct (map fst ?ts)" using tiles_sorted [OF tl] by simp
  from sg obtain q where q: "seg (heap s) (head s) (free_tiles us) q" "seg (heap s) q (free_tiles vs) 0"
    by (auto simp: seg_append)
  have notin: "a \<notin> fst ` set (free_tiles us)" "a \<notin> fst ` set (free_tiles vs)"
    using dist by (force dest!: fst_free_tiles)+
  have sz: "blk_size (heap s a) = n" "a \<noteq> 0" using lv heap_inv0_tile [OF inv, of a n False] by auto
  have "seg ?h (head s) (free_tiles us) q" using q(1) notin(1) by (simp add: seg_upd)
  moreover have "seg ?h a ((a, n) # free_tiles vs) 0"
    using q(2) notin(2) sz seg_first [OF q(2)] by (simp add: seg_upd)
  moreover have "distinct (map fst (free_tiles us @ (a, n) # free_tiles vs))"
    using distinct_free_tiles [of "us @ (a, n, True) # vs"] dist by simp
  ultimately have "seg (heap (relink ?p a ?h s)) (head (relink ?p a ?h s))
      (free_tiles us @ (a, n) # free_tiles vs) 0"
    by (rule seg_relinked)
  then show ?thesis
    using inv tl by (auto simp: heap_inv0_def tiles_append)
qed

lemma flist_dealloc_tile:
  assumes inv: "heap_inv s ts" and live: "(a, n, False) \<in> set ts"
  shows "\<exists>s'. flist_dealloc (a + 16) s = Some s' \<and> heap_inv s' (tile_free a ts)
     \<and> allocated s' = wsub (allocated s) n \<and> total s' = total s \<and> base s' = base s"
proof -
  from live obtain us vs where ts: "ts = us @ (a, n, False) # vs" by (meson split_list)
  define s0 where "s0 = s\<lparr>allocated := wsub (allocated s) n\<rparr>"
  from inv have inv0: "heap_inv0 s0 ts" and co: "coalesced ts"
    by (auto simp: heap_inv_iff heap_inv0_def s0_def)
  from inv0 have tl: "tiles (base s0) ts (base s0 + total s0)"
    and sg: "seg (heap s) (head s) (free_tiles us @ free_tiles vs) 0"
    and sz: "blk_size (heap s a) = n"
    by (auto simp: heap_inv0_def ts s0_def)
  have block: "wsub (a + 16) BLOCK_SIZE = a"
    using heap_inv0_tile [OF inv0 live] by (simp add: wsub_small alloc_consts)
  have slot: "find_slot a 0 (head s) (heap s) = Some (last_addr (free_tiles us), first_addr (free_tiles vs))"
    using find_slot_spec [OF sg, of a "[]"] tiles_around [OF tl [unfolded ts]]
    by (fastforce simp: in_free_tiles)
  define h where "h = (heap s0)(a := (heap s0 a)\<lparr>blk_next := first_addr (free_tiles vs)\<rparr>)"
  define s1 where "s1 = relink (last_addr (free_tiles us)) a h s0"
  define s2 where "s2 = s1\<lparr>heap := coalesce_next a (first_addr (free_tiles vs)) (heap s1)\<rparr>"
  define s3 where "s3 = s2\<lparr>heap := coalesce_prev a (last_addr (free_tiles us)) (heap s2)\<rparr>"
  have "flist_dealloc (a + 16) s = Some s3"
    by (simp add: flist_dealloc_def Let_def block sz slot s3_def s2_def s1_def h_def relink_def s0_def)
  moreover have "heap_inv0 s1 (us @ (a, n, True) # vs)"
    unfolding s1_def h_def by (rule release_link [OF inv0 [unfolded ts]])
  note inv2 = coalesce_next_inv [OF this, folded s2_def]
  have "heap_inv0 s3 (tile_free a ts)"
    unfolding ts tile_free_eq [OF tl [unfolded ts] co [unfolded ts]] s3_def
    using inv2 coalesce_prev_inv [of s2 us a]
    by (cases vs) (auto split: bool.splits)
  moreover have "coalesced (tile_free a ts)" by (simp add: tile_free_def coalesced_tile_merge)
  moreover have "allocated s3 = wsub (allocated s) n \<and> total s3 = total s \<and> base s3 = base s"
    by (simp add: s3_def s2_def s1_def s0_def)
  ultimately show ?thesis by (auto simp: heap_inv_iff)
qed

section \<open>Reachable heaps\<close>

text \<open>The states the allocator goes through, with the map from each live pointer to the size the
  caller asked for. A layout's size is at most \<open>isize::MAX\<close>, and a caller releases only pointers it
  holds; nothing else is assumed of the order of the calls.\<close>

inductive heap_reach :: "flist \<Rightarrow> (usize \<rightharpoonup> usize) \<Rightarrow> bool" where
  reach_init: "0 < start \<Longrightarrow> 16 dvd start \<Longrightarrow> 16 dvd e \<Longrightarrow> start + 16 \<le> e \<Longrightarrow> e < 2 ^ 63 \<Longrightarrow>
     heap_reach (flist_init start e (flist_new h)) Map.empty"
| reach_alloc: "heap_reach s L \<Longrightarrow> sz < 2 ^ 63 \<Longrightarrow> global_alloc sz align s = Some (p, s') \<Longrightarrow>
     heap_reach s' (if p = 0 then L else L(p \<mapsto> sz))"
| reach_dealloc: "heap_reach s L \<Longrightarrow> L p = Some sz \<Longrightarrow> global_dealloc p s = Some s' \<Longrightarrow>
     heap_reach s' (L(p := None))"

definition live_ok :: "(usize \<rightharpoonup> usize) \<Rightarrow> tile list \<Rightarrow> bool" where
  "live_ok L ts \<longleftrightarrow>
     (\<forall>p sz. L p = Some sz \<longrightarrow> (\<exists>a n. p = a + 16 \<and> (a, n, False) \<in> set ts \<and> sz \<le> n))
     \<and> (\<forall>a n. (a, n, False) \<in> set ts \<longrightarrow> L (a + 16) \<noteq> None)"

lemma flist_init_inv:
  assumes "0 < start" "16 dvd start" "16 dvd e" "start + 16 \<le> e" "e < 2 ^ 63"
  shows "heap_inv (flist_init start e s) [(start, e - start - 16, True)]"
  using assms by (simp add: heap_inv_def flist_init_def Let_def coalesced_def wsub_small alloc_consts)

lemma tile_merge_live: "live_tiles (tile_merge ts) = live_tiles ts"
  by (induction ts rule: tile_merge.induct) auto

lemma tile_free_live:
  assumes "tiles x ts e" "(a, n, False) \<in> set ts"
  shows "set (live_tiles (tile_free a ts)) = set (live_tiles ts) - {(a, n)}"
proof -
  from assms(2) obtain us vs where ts: "ts = us @ (a, n, False) # vs" by (meson split_list)
  have dist: "distinct (map fst ts)" using tiles_sorted [OF assms(1)] by simp
  then have "tile_mark a ts = us @ (a, n, True) # vs" unfolding ts by (intro tile_mark_split) auto
  then have "live_tiles (tile_free a ts) = live_tiles us @ live_tiles vs"
    by (simp add: tile_free_def tile_merge_live)
  moreover have "(a, n) \<notin> set (live_tiles us) \<union> set (live_tiles vs)"
    using dist ts by (force simp: in_live_tiles)
  ultimately show ?thesis by (auto simp: ts)
qed

lemma tile_alloc_live:
  assumes "tile_alloc sz ts = Some (a, ts')"
  obtains n where "sz \<le> n" "set (live_tiles ts') = insert (a, n) (set (live_tiles ts))"
proof -
  from tile_alloc_cases [of sz ts] assms obtain us n vs where
      "ts = us @ (a, n, True) # vs" "sz \<le> n" "ts' = us @ split_tiles a n sz @ vs"
    by auto
  then show ?thesis by (intro that [of "if sz + 32 \<le> n then sz else n"]) (auto simp: split_tiles_def)
qed

lemma live_ok_alloc:
  assumes "live_ok L ts" "tile_alloc n ts = Some (a, ts')" "sz \<le> n"
  shows "live_ok (L(a + 16 \<mapsto> sz)) ts'"
proof -
  obtain m where m: "n \<le> m" "set (live_tiles ts') = insert (a, m) (set (live_tiles ts))"
    using assms(2) by (rule tile_alloc_live)
  then have mem: "(b, k, False) \<in> set ts' \<longleftrightarrow> (b, k) = (a, m) \<or> (b, k, False) \<in> set ts" for b k
    by (metis in_live_tiles insert_iff)
  have "sz \<le> m" using m(1) assms(3) by simp
  with assms(1) show ?thesis unfolding live_ok_def mem by (auto; metis)
qed

lemma live_ok_free:
  assumes "live_ok L ts" "(a, n, False) \<in> set ts" "tiles x ts e"
  shows "live_ok (L(a + 16 := None)) (tile_free a ts)"
proof -
  have mem: "(b, k, False) \<in> set (tile_free a ts) \<longleftrightarrow> (b, k, False) \<in> set ts \<and> (b, k) \<noteq> (a, n)" for b k
    using tile_free_live [OF assms(3,2)] by (metis Diff_iff in_live_tiles insert_iff empty_iff)
  have uniq: "(a, k, False) \<in> set ts \<Longrightarrow> k = n" for k
    using tiles_sorted [OF assms(3)] assms(2) by (metis eq_key_imp_eq_value prod.inject)
  have "\<exists>c k. p = c + 16 \<and> (c, k, False) \<in> set (tile_free a ts) \<and> sz \<le> k"
    if "(L(a + 16 := None)) p = Some sz" for p sz
  proof -
    from that have "L p = Some sz" "p \<noteq> a + 16" by (auto split: if_splits)
    with assms(1) obtain c k where "p = c + 16" "(c, k, False) \<in> set ts" "sz \<le> k"
      unfolding live_ok_def by blast
    with \<open>p \<noteq> a + 16\<close> show ?thesis by (auto simp: mem)
  qed
  moreover have "(L(a + 16 := None)) (c + 16) \<noteq> None" if "(c, k, False) \<in> set (tile_free a ts)" for c k
    using that assms(1) uniq by (auto simp: mem live_ok_def)
  ultimately show ?thesis unfolding live_ok_def by blast
qed

lemma live_ok_null: "live_ok L ts \<Longrightarrow> L 0 = None"
  unfolding live_ok_def by (metis add_is_0 not_Some_eq zero_neq_numeral)

lemma live_ok_fresh:
  assumes "live_ok L ts" "tile_alloc n ts = Some (a, ts')" "tiles x ts e"
  shows "a + 16 \<notin> dom L"
proof
  assume "a + 16 \<in> dom L"
  with assms(1) obtain k where "(a, k, False) \<in> set ts"
    unfolding live_ok_def by (metis domD add_right_imp_eq)
  moreover from tile_alloc_cases [of n ts] assms(2) obtain us m vs where
      "ts = us @ (a, m, True) # vs"
    by auto
  then have "(a, m, True) \<in> set ts" by simp
  ultimately show False
    using tiles_sorted [OF assms(3)] by (metis eq_key_imp_eq_value prod.inject)
qed

lemma global_alloc_tile:
  assumes "heap_inv s ts" "sz < 2 ^ 63" "live_ok L ts"
  shows "\<exists>p s' ts'. global_alloc sz align s = Some (p, s') \<and> heap_inv s' ts'
           \<and> live_ok (if p = 0 then L else L(p \<mapsto> sz)) ts' \<and> p \<notin> dom L
           \<and> total s' = total s \<and> base s' = base s"
proof (cases "align > MIN_ALIGN")
  case True
  with assms live_ok_null [OF assms(3)] show ?thesis by (auto simp: global_alloc_def)
next
  case False
  have sz: "sz + 15 < 2 ^ 64" using assms(2) by simp
  show ?thesis
  proof (cases "tile_alloc (align_up sz MIN_ALIGN) ts")
    case None
    with flist_alloc_tile [OF assms(1) sz] False assms live_ok_null [OF assms(3)] show ?thesis by (auto simp: global_alloc_def)
  next
    case (Some r)
    obtain a ts' where r: "r = (a, ts')" by (cases r)
    with Some flist_alloc_tile [OF assms(1) sz] obtain s' where
      "flist_alloc sz s = Some (a + 16, s')" "heap_inv s' ts'" "total s' = total s" "base s' = base s"
      by auto
    moreover have "live_ok (L(a + 16 \<mapsto> sz)) ts'"
      using live_ok_alloc [OF assms(3)] Some r align_up_min_bounds(1) [OF sz] by blast
    moreover have "a + 16 \<notin> dom L"
      using live_ok_fresh [OF assms(3)] Some r assms(1) unfolding heap_inv_def by blast
    ultimately show ?thesis using False by (auto simp: global_alloc_def)
  qed
qed

lemma global_dealloc_tile:
  assumes "heap_inv s ts" "L p = Some sz" "live_ok L ts"
  shows "\<exists>s' ts'. global_dealloc p s = Some s' \<and> heap_inv s' ts' \<and> live_ok (L(p := None)) ts'
           \<and> total s' = total s \<and> base s' = base s"
proof -
  from assms(2,3) obtain a n where a: "p = a + 16" "(a, n, False) \<in> set ts" unfolding live_ok_def by blast
  moreover from assms(1) have "tiles (base s) ts (base s + total s)" by (simp add: heap_inv_def)
  ultimately show ?thesis
    using flist_dealloc_tile [OF assms(1) a(2)] live_ok_free [OF assms(3) a(2)]
    by (fastforce simp: global_dealloc_def)
qed

lemma heap_reach_inv: "heap_reach s L \<Longrightarrow> \<exists>ts. heap_inv s ts \<and> live_ok L ts \<and> 0 < total s"
proof (induction rule: heap_reach.induct)
  case (reach_init start e h)
  then have "heap_inv (flist_init start e (flist_new h)) [(start, e - start - 16, True)]"
    by (rule flist_init_inv)
  moreover have "live_ok Map.empty [(start, e - start - 16, True)]" by (simp add: live_ok_def)
  moreover have "0 < total (flist_init start e (flist_new h))"
    using reach_init by (simp add: flist_init_def Let_def wsub_small)
  ultimately show ?case by blast
next
  case (reach_alloc s L sz align p s')
  from reach_alloc.IH obtain ts where "heap_inv s ts" "live_ok L ts" "0 < total s" by blast
  with global_alloc_tile [OF this(1) reach_alloc.hyps(2) this(2), of align] reach_alloc.hyps(3)
  show ?case by auto
next
  case (reach_dealloc s L p sz s')
  from reach_dealloc.IH obtain ts where "heap_inv s ts" "live_ok L ts" "0 < total s" by blast
  with global_dealloc_tile [OF this(1) reach_dealloc.hyps(2) this(2)] reach_dealloc.hyps(3)
  show ?case by (auto simp del: fun_upd_apply)
qed

lemma tiles_disjoint:
  assumes "tiles x ts e" "(a, n, f) \<in> set ts" "(b, m, g) \<in> set ts" "a < b"
  shows "a + 16 + n \<le> b"
proof -
  from assms(2) obtain us vs where ts: "ts = us @ (a, n, f) # vs" by (meson split_list)
  from tiles_around [OF assms(1) [unfolded ts]] assms(3,4) ts show ?thesis by fastforce
qed

lemma tiles_all_free:
  assumes "tiles x ts e" "coalesced ts" "live_tiles ts = []" "x < e"
  shows "ts = [(x, e - x - 16, True)]"
proof (cases ts)
  case Nil
  with assms show ?thesis by simp
next
  case (Cons t ts1)
  with assms(3) obtain n where t: "t = (x, n, True)" using assms(1) by (cases t) (auto split: if_splits)
  have "ts1 = []"
  proof (cases ts1)
    case (Cons u us)
    with assms(3) \<open>ts = _\<close> t have "snd (snd u)" by (cases u) (auto split: if_splits)
    with assms(2) \<open>ts = _\<close> t Cons show ?thesis by (simp add: coalesced_def)
  qed
  with assms(1) Cons t show ?thesis by auto
qed

section \<open>Properties\<close>

text \<open>A small heap used by the witnesses: 4 KiB at address 4096, all headers zero before \<open>init\<close>.\<close>

definition demo_heap :: flist where
  "demo_heap = flist_init 4096 8192 (flist_new (\<lambda>_. \<lparr>blk_size = 0, blk_next = 0\<rparr>))"

lemma demo_heap_reach: "heap_reach demo_heap Map.empty"
  unfolding demo_heap_def by (rule reach_init) simp_all

lemma align_up_24 [simp]: "align_up 24 16 = 32"
  using align_up_min [of 24] by (simp add: MIN_ALIGN_def)

definition demo_heap1 :: flist where
  "demo_heap1 = snd (take_block 32 0 4096 demo_heap)"

lemma demo_alloc: "global_alloc 24 8 demo_heap = Some (4112, demo_heap1)"
  by (simp add: global_alloc_def flist_alloc_def alloc_loop.simps demo_heap1_def take_block_def
      demo_heap_def flist_init_def Let_def wsub_def wadd_def alloc_consts)

lemma demo_heap1_reach: "heap_reach demo_heap1 [4112 \<mapsto> 24]"
  using reach_alloc [OF demo_heap_reach _ demo_alloc] by simp

text \<open>C2: Memory safety of the kernel heap. Whatever sequence of allocations and releases led to
  the state, every live pointer is 16-byte aligned and its payload, with the header in front of it,
  lies inside the heap; two different live pointers have disjoint payloads and headers.\<close>

theorem heap_live_disjoint:
  assumes "heap_reach s L" "L p = Some n" "L q = Some m" "p \<noteq> q"
  shows "16 dvd p \<and> base s + 16 \<le> p \<and> p + n \<le> base s + total s
     \<and> {p - 16 ..< p + n} \<inter> {q - 16 ..< q + m} = {}"
proof -
  from heap_reach_inv [OF assms(1)] obtain ts where inv: "heap_inv s ts" and ok: "live_ok L ts" by blast
  from ok assms(2,3) obtain a k b l where
      a: "p = a + 16" "(a, k, False) \<in> set ts" "n \<le> k" and b: "q = b + 16" "(b, l, False) \<in> set ts" "m \<le> l"
    unfolding live_ok_def by blast
  note h = heap_inv_tile [OF inv a(2)]
  from inv have "tiles (base s) ts (base s + total s)" by (simp add: heap_inv_def)
  from tiles_disjoint [OF this a(2) b(2)] tiles_disjoint [OF this b(2) a(2)] assms(4) a b
  have "{p - 16 ..< p + n} \<inter> {q - 16 ..< q + m} = {}" by (cases "a < b") auto
  with h a show ?thesis by simp
qed

lemma align_up_100 [simp]: "align_up 100 16 = 112"
  using align_up_min [of 100] by (simp add: MIN_ALIGN_def)

lemma demo_heap2_reach: "\<exists>s. heap_reach s [4112 \<mapsto> 24, 4160 \<mapsto> 100]"
proof -
  have "global_alloc 100 16 demo_heap1 = Some (4160, snd (take_block 112 0 4144 demo_heap1))"
    by (simp add: global_alloc_def flist_alloc_def alloc_loop.simps demo_heap1_def take_block_def
        demo_heap_def flist_init_def Let_def wsub_def wadd_def alloc_consts)
  from reach_alloc [OF demo_heap1_reach _ this] show ?thesis by auto
qed

theorem heap_live_disjoint_witness:
  "\<exists>s. heap_reach s [4112 \<mapsto> 24, 4160 \<mapsto> 100] \<and> 16 dvd (4112 :: nat)
     \<and> {4112 - 16 ..< 4112 + 24} \<inter> {4160 - 16 ..< 4160 + 100 :: nat} = {}"
proof -
  obtain s where s: "heap_reach s [4112 \<mapsto> 24, 4160 \<mapsto> 100]" using demo_heap2_reach by blast
  from heap_live_disjoint [OF this, of 4112 24 4160 100] s show ?thesis by auto
qed

text \<open>C6: The allocator always returns and is never stuck: in every reachable state \<open>alloc\<close> of any
  size and alignment returns null or a pointer that was not live, and \<open>dealloc\<close> of any live pointer
  returns, although both walk a linked list through raw pointers; both leave a reachable state.\<close>

theorem heap_never_stuck:
  assumes "heap_reach s L"
  shows "(sz < 2 ^ 63 \<longrightarrow> (\<exists>p s'. global_alloc sz align s = Some (p, s') \<and> p \<notin> dom L
             \<and> heap_reach s' (if p = 0 then L else L(p \<mapsto> sz))))
       \<and> (q \<in> dom L \<longrightarrow> (\<exists>s'. global_dealloc q s = Some s' \<and> heap_reach s' (L(q := None))))"
proof -
  from heap_reach_inv [OF assms] obtain ts where inv: "heap_inv s ts" and ok: "live_ok L ts" by blast
  have "\<exists>p s'. global_alloc sz align s = Some (p, s') \<and> p \<notin> dom L
             \<and> heap_reach s' (if p = 0 then L else L(p \<mapsto> sz))" if "sz < 2 ^ 63"
    using global_alloc_tile [OF inv that ok, of align] reach_alloc [OF assms that, of align] by blast
  moreover have "\<exists>s'. global_dealloc q s = Some s' \<and> heap_reach s' (L(q := None))" if "q \<in> dom L"
    using global_dealloc_tile [OF inv _ ok] reach_dealloc [OF assms] that by blast
  ultimately show ?thesis by blast
qed

theorem heap_never_stuck_witness:
  "heap_reach demo_heap1 [4112 \<mapsto> 24] \<and> (\<exists>s'. global_dealloc 4112 demo_heap1 = Some s' \<and> heap_reach s' Map.empty)"
  using heap_never_stuck [OF demo_heap1_reach, of 0 0 4112] demo_heap1_reach by simp

text \<open>C3: No leak and full coalescing: once every live pointer has been released, in whatever order,
  the free list is again the single block that \<open>init\<close> created, header and size included.\<close>

theorem heap_all_released:
  assumes "heap_reach s Map.empty"
  shows "head s = base s \<and> heap s (base s) = \<lparr>blk_size = total s - 16, blk_next = 0\<rparr>"
proof -
  from heap_reach_inv [OF assms] obtain ts where
    inv: "heap_inv s ts" and ok: "live_ok Map.empty ts" and "0 < total s" by blast
  have "live_tiles ts = []"
    using ok by (cases "live_tiles ts") (auto simp: live_ok_def in_live_tiles [symmetric])
  then have "ts = [(base s, base s + total s - base s - 16, True)]"
    using inv \<open>0 < total s\<close> by (intro tiles_all_free) (simp_all add: heap_inv_def)
  with inv show ?thesis by (auto simp: heap_inv_def)
qed

theorem heap_all_released_witness:
  "\<exists>s'. global_dealloc 4112 demo_heap1 = Some s' \<and> head s' = base s'
     \<and> heap s' (base s') = \<lparr>blk_size = total s' - 16, blk_next = 0\<rparr>"
proof -
  from heap_reach_inv [OF demo_heap1_reach] obtain ts where "heap_inv demo_heap1 ts" "live_ok [4112 \<mapsto> 24] ts"
    by blast
  from global_dealloc_tile [OF this(1) _ this(2), of 4112 24] obtain s' where
    s': "global_dealloc 4112 demo_heap1 = Some s'" by auto
  with reach_dealloc [OF demo_heap1_reach, of 4112 24] have "heap_reach s' Map.empty" by simp
  with s' heap_all_released [of s'] show ?thesis by blast
qed

text \<open>The byte accounting is off. \<open>alloc\<close> adds the rounded request to \<open>allocated\<close>, \<open>dealloc\<close>
  subtracts the block's size, and a block that was too small to split is 16 bytes larger than the
  request. On a heap of 48 bytes one allocation of 16 bytes followed by its release leaves the
  counter at \<open>2 ^ 64 - 16\<close>, and \<open>free_bytes\<close> reports more than the whole heap.\<close>

theorem heap_accounting_underflow:
  "(let s = flist_init 4096 4144 (flist_new (\<lambda>_. \<lparr>blk_size = 0, blk_next = 0\<rparr>))
    in do { (p, s1) \<leftarrow> global_alloc 16 8 s; s2 \<leftarrow> global_dealloc p s1;
            Some (p, allocated_bytes s1, allocated_bytes s2, free_bytes s2, total_bytes s2) })
   = Some (4112, 16, 2 ^ 64 - 16, 64, 48)"
proof -
  let ?z = "\<lambda>_. \<lparr>blk_size = 0, blk_next = 0\<rparr> :: block"
  let ?h = "?z(4096 := \<lparr>blk_size = 32, blk_next = 0\<rparr>)"
  let ?s = "\<lambda>hd al. \<lparr>head = hd, allocated = al, total = 48, base = 4096, heap = ?h\<rparr> :: flist"
  have a: "align_up 16 16 = 16" using align_up_min [of 16] by (simp add: MIN_ALIGN_def)
  have init: "flist_init 4096 4144 (flist_new ?z) = ?s 4096 0"
    by (simp add: flist_init_def flist_new_def wsub_def alloc_consts Let_def)
  have "alloc_loop 16 0 4096 (?s 4096 0) = Some (take_block 16 0 4096 (?s 4096 0))"
    by (subst alloc_loop.simps) simp
  then have alloc: "global_alloc 16 8 (?s 4096 0) = Some (4112, ?s 0 16)"
    by (simp add: global_alloc_def flist_alloc_def a take_block_def wadd_def alloc_consts Let_def)
  have slot: "find_slot 4096 0 0 ?h = Some (0, 0)" by (subst find_slot.simps) simp
  have dealloc: "global_dealloc 4112 (?s 0 16) = Some (?s 4096 (2 ^ 64 - 16))"
    using slot by (simp add: global_dealloc_def flist_dealloc_def coalesce_next_def coalesce_prev_def wsub_def alloc_consts Let_def)
  show ?thesis
    unfolding Let_def init by (simp add: alloc dealloc allocated_bytes_def free_bytes_def total_bytes_def wsub_def)
qed

end
