(* ===== verification/Paging.thy ===== *)
theory Paging
  imports Pmm
begin

text \<open>
  \<open>src/src/paging.rs\<close>: four-level page tables. The state holds the table memory, entry by entry (the
  64-bit value at the physical address of the entry; tables live in frames that only this module
  writes), and the frame allocator. \<open>hw_walk\<close> is the processor's page walk, written independently of
  the code; \<open>map_range_in\<close> and \<open>unmap_range_in\<close> are shown to change exactly the walks of the range.
\<close>

section \<open>Constants and state\<close>

definition IDENTITY_MAP_END :: u64 where "IDENTITY_MAP_END = 4 * 1024 * 1024 * 1024"
definition PAGE_SIZE :: u64 where "PAGE_SIZE = 4096"
definition PAGE_PRESENT :: u64 where "PAGE_PRESENT = 1"
definition PAGE_WRITABLE :: u64 where "PAGE_WRITABLE = 2"
definition PAGE_USER :: u64 where "PAGE_USER = 4"
definition PAGE_NX :: u64 where "PAGE_NX = push_bit 63 1"
definition PRESENT_MASK :: u64 where "PRESENT_MASK = 0xFFF OR PAGE_NX"
definition PS_BIT :: u64 where "PS_BIT = push_bit 7 1"
definition ADDR_MASK :: u64 where "ADDR_MASK = 0x000FFFFFFFFFF000"

lemmas paging_consts = IDENTITY_MAP_END_def PAGE_SIZE_def PAGE_PRESENT_def PAGE_WRITABLE_def PAGE_USER_def
  PAGE_NX_def PRESENT_MASK_def PS_BIT_def ADDR_MASK_def

record mmu =
  pt_mem :: "usize \<Rightarrow> u64"
  mm_pmm :: pmm

text \<open>\<open>base.add(i)\<close> on a pointer to entries.\<close>

definition ent :: "usize \<Rightarrow> nat \<Rightarrow> usize" where
  "ent b i = b + 8 * i"

definition wr :: "usize \<Rightarrow> u64 \<Rightarrow> mmu \<Rightarrow> mmu" where
  "wr a v s = s\<lparr>pt_mem := (pt_mem s)(a := v)\<rparr>"

definition table_base :: "u64 \<Rightarrow> usize" where
  "table_base e = unat (e AND ADDR_MASK)"

definition pidx :: "nat \<Rightarrow> u64 \<Rightarrow> nat" where
  "pidx n virt = unat (drop_bit n virt AND 0x1FF)"

definition is_identity_mapped :: "u64 \<Rightarrow> u64 \<Rightarrow> bool" where
  "is_identity_mapped addr len = (case checked_add addr len of Some e \<Rightarrow> e \<le> IDENTITY_MAP_END | None \<Rightarrow> False)"

text \<open>\<open>write_bytes(frame, 0, FRAME_SIZE)\<close> on a fresh table.\<close>

definition zero_table :: "usize \<Rightarrow> mmu \<Rightarrow> mmu" where
  "zero_table f s = s\<lparr>pt_mem := (\<lambda>a. if f \<le> a \<and> a < f + FRAME_SIZE then 0 else pt_mem s a)\<rparr>"

text \<open>The loop that fills a page table when a 2 MiB entry is split.\<close>

definition fill_split :: "usize \<Rightarrow> u64 \<Rightarrow> u64 \<Rightarrow> mmu \<Rightarrow> mmu" where
  "fill_split t phys_base page_flags s =
     fold (\<lambda>i. wr (ent t i) ((phys_base + of_nat i * PAGE_SIZE) OR page_flags)) [0..<512] s"

section \<open>Operations\<close>

definition promote :: "u64 \<Rightarrow> usize \<Rightarrow> mmu \<Rightarrow> mmu" where
  "promote entry_flags a s =
     (if entry_flags AND PAGE_USER \<noteq> 0 \<and> pt_mem s a AND PAGE_USER = 0
      then wr a (pt_mem s a OR PAGE_USER) s else s)"

text \<open>\<open>track\<close> is whether the caller passed a frame list; the frames allocated are then appended to it.\<close>

definition pt_entry_ptr_in ::
  "u64 \<Rightarrow> u64 \<Rightarrow> u64 \<Rightarrow> bool \<Rightarrow> usize list \<times> mmu \<Rightarrow> (usize option \<times> usize list \<times> mmu) exec" where
  "pt_entry_ptr_in pml4_base virt entry_flags track = (\<lambda>(frames, s).
     let a4 = ent (unat pml4_base) (pidx 39 virt);
         pml4e = pt_mem s a4
     in if pml4e AND PAGE_PRESENT = 0 then Some (None, frames, s)
        else let s1 = promote entry_flags a4 s;
                 a3 = ent (table_base pml4e) (pidx 30 virt);
                 pdpte = pt_mem s1 a3
             in if pdpte AND PAGE_PRESENT = 0 \<or> pdpte AND PS_BIT \<noteq> 0 then Some (None, frames, s1)
                else let s2 = promote entry_flags a3 s1;
                         a2 = ent (table_base pdpte) (pidx 21 virt);
                         pde = pt_mem s2 a2
                     in if pde AND PAGE_PRESENT = 0 then do {
                          (r, p) \<leftarrow> frame_alloc (mm_pmm s2);
                          let s3 = s2\<lparr>mm_pmm := p\<rparr>;
                          case r of
                            None \<Rightarrow> Some (None, frames, s3)
                          | Some frame \<Rightarrow>
                              Some (Some (ent frame (pidx 12 virt)), (if track then frames @ [frame] else frames),
                                    wr a2 (of_nat frame OR entry_flags OR PAGE_PRESENT) (zero_table frame s3)) }
                        else if pde AND PS_BIT \<noteq> 0 then do {
                          (r, p) \<leftarrow> frame_alloc (mm_pmm s2);
                          let s3 = s2\<lparr>mm_pmm := p\<rparr>;
                          case r of
                            None \<Rightarrow> Some (None, frames, s3)
                          | Some frame \<Rightarrow>
                              let phys_base = pde AND NOT (push_bit 21 1 - 1);
                                  page_flags = pde AND PRESENT_MASK AND NOT PS_BIT
                              in Some (Some (ent frame (pidx 12 virt)), (if track then frames @ [frame] else frames),
                                       wr a2 (of_nat frame OR (pde AND PRESENT_MASK AND NOT PS_BIT) OR (entry_flags AND PAGE_USER))
                                         (fill_split frame phys_base page_flags s3)) }
                        else Some (Some (ent (table_base pde) (pidx 12 virt)), frames, promote entry_flags a2 s2))"

text \<open>The loop of \<open>map_range_in\<close> and the function.\<close>

partial_function (option) map_loop ::
  "u64 \<Rightarrow> u64 \<Rightarrow> u64 \<Rightarrow> u64 \<Rightarrow> u64 \<Rightarrow> usize list \<times> mmu \<Rightarrow> (bool \<times> usize list \<times> mmu) option" where
  "map_loop pml4_base v p e flags st =
     (if v < e then do {
        (r, fr, s) \<leftarrow> pt_entry_ptr_in pml4_base v (flags AND PRESENT_MASK) True st;
        case r of
          None \<Rightarrow> Some (False, fr, s)
        | Some a \<Rightarrow> map_loop pml4_base (v + PAGE_SIZE) (p + PAGE_SIZE) e flags
                      (fr, wr a (p OR (flags AND PRESENT_MASK) OR PAGE_PRESENT) s) }
      else Some (True, fst st, snd st))"

definition map_range_in ::
  "u64 \<Rightarrow> u64 \<Rightarrow> u64 \<Rightarrow> u64 \<Rightarrow> u64 \<Rightarrow> usize list \<times> mmu \<Rightarrow> (bool \<times> usize list \<times> mmu) exec" where
  "map_range_in pml4_base virt phys len flags st =
     (if virt mod PAGE_SIZE \<noteq> 0 \<or> phys mod PAGE_SIZE \<noteq> 0 \<or> len mod PAGE_SIZE \<noteq> 0 \<or> len = 0
         \<or> checked_add virt len = None \<or> virt + len > IDENTITY_MAP_END
      then Some (False, fst st, snd st)
      else map_loop pml4_base virt phys (virt + len) flags st)"

partial_function (option) unmap_loop :: "u64 \<Rightarrow> u64 \<Rightarrow> u64 \<Rightarrow> mmu \<Rightarrow> mmu option" where
  "unmap_loop pml4_base v e s =
     (if v < e then do {
        (r, _, s1) \<leftarrow> pt_entry_ptr_in pml4_base v 0 False ([], s);
        unmap_loop pml4_base (v + PAGE_SIZE) e (case r of None \<Rightarrow> s1 | Some a \<Rightarrow> wr a 0 s1) }
      else Some s)"

definition unmap_range_in :: "u64 \<Rightarrow> u64 \<Rightarrow> u64 \<Rightarrow> mmu \<Rightarrow> (bool \<times> mmu) exec" where
  "unmap_range_in pml4_base virt len s =
     (if virt mod PAGE_SIZE \<noteq> 0 \<or> len mod PAGE_SIZE \<noteq> 0 \<or> len = 0
         \<or> checked_add virt len = None \<or> virt + len > IDENTITY_MAP_END
      then Some (False, s)
      else do { s' \<leftarrow> unmap_loop pml4_base virt (virt + len) s; Some (True, s') })"

text \<open>The kernel's own map; \<open>kernel_pml4\<close> is the linker's symbol.\<close>

definition map_page :: "u64 \<Rightarrow> u64 \<Rightarrow> u64 \<Rightarrow> u64 \<Rightarrow> mmu \<Rightarrow> (bool \<times> mmu) exec" where
  "map_page kernel_pml4 virt phys flags s =
     (if virt \<ge> IDENTITY_MAP_END \<or> phys \<ge> IDENTITY_MAP_END \<or> virt mod PAGE_SIZE \<noteq> 0 \<or> phys mod PAGE_SIZE \<noteq> 0
      then Some (False, s)
      else do {
        (r, _, s1) \<leftarrow> pt_entry_ptr_in kernel_pml4 virt (flags AND PRESENT_MASK) False ([], s);
        case r of
          None \<Rightarrow> Some (False, s1)
        | Some a \<Rightarrow> Some (True, wr a (phys OR (flags AND PRESENT_MASK) OR PAGE_PRESENT) s1) })"

definition unmap_page :: "u64 \<Rightarrow> u64 \<Rightarrow> mmu \<Rightarrow> (bool \<times> mmu) exec" where
  "unmap_page kernel_pml4 virt s =
     (if virt \<ge> IDENTITY_MAP_END \<or> virt mod PAGE_SIZE \<noteq> 0 then Some (False, s)
      else do {
        (r, _, s1) \<leftarrow> pt_entry_ptr_in kernel_pml4 virt (PAGE_PRESENT OR PAGE_WRITABLE) False ([], s);
        case r of
          None \<Rightarrow> Some (False, s1)
        | Some a \<Rightarrow> Some (True, wr a 0 s1) })"

section \<open>The processor's page walk\<close>

definition pte_present :: "u64 \<Rightarrow> bool" where "pte_present e \<longleftrightarrow> bit e 0"
definition pte_big :: "u64 \<Rightarrow> bool" where "pte_big e \<longleftrightarrow> bit e 7"
definition pte_user :: "u64 \<Rightarrow> bool" where "pte_user e \<longleftrightarrow> bit e 2"

text \<open>The frame a virtual address translates to and the attribute bits of the entry that maps it.\<close>

definition hw_walk :: "(usize \<Rightarrow> u64) \<Rightarrow> usize \<Rightarrow> u64 \<Rightarrow> (u64 \<times> u64) option" where
  "hw_walk m root v =
     (let e4 = m (ent root (pidx 39 v))
      in if \<not> pte_present e4 then None
         else let e3 = m (ent (table_base e4) (pidx 30 v))
              in if \<not> pte_present e3 \<or> pte_big e3 then None
                 else let e2 = m (ent (table_base e3) (pidx 21 v))
                      in if \<not> pte_present e2 then None
                         else if pte_big e2 then
                           Some ((take_bit 52 (push_bit 21 (drop_bit 21 e2)) OR push_bit 12 (of_nat (pidx 12 v))),
                                 e2 AND PRESENT_MASK AND NOT PS_BIT)
                         else let e1 = m (ent (table_base e2) (pidx 12 v))
                              in if \<not> pte_present e1 then None else Some (e1 AND ADDR_MASK, e1 AND PRESENT_MASK))"

text \<open>Whether ring 3 may use the translation: the user bit at every level.\<close>

definition hw_user :: "(usize \<Rightarrow> u64) \<Rightarrow> usize \<Rightarrow> u64 \<Rightarrow> bool" where
  "hw_user m root v \<longleftrightarrow>
     hw_walk m root v \<noteq> None \<and>
     (let e4 = m (ent root (pidx 39 v)); e3 = m (ent (table_base e4) (pidx 30 v));
          e2 = m (ent (table_base e3) (pidx 21 v))
      in pte_user e4 \<and> pte_user e3 \<and> pte_user e2 \<and> (pte_big e2 \<or> pte_user (m (ent (table_base e2) (pidx 12 v)))))"

section \<open>Bits of entries\<close>

lemma and_present: "e AND PAGE_PRESENT = 0 \<longleftrightarrow> \<not> pte_present e"
  by (simp add: pte_present_def PAGE_PRESENT_def and_one_eq even_iff_mod_2_eq_zero [symmetric] bit_0)

lemma and_pow: "e AND 2 ^ n = 0 \<longleftrightarrow> \<not> bit e n" for e :: u64
  by (simp add: and_exp_eq_0_iff_not_bit)

lemma and_user: "e AND PAGE_USER = 0 \<longleftrightarrow> \<not> pte_user e"
  using and_pow [of e 2] by (simp add: pte_user_def PAGE_USER_def)

lemma and_ps: "e AND PS_BIT = 0 \<longleftrightarrow> \<not> pte_big e"
  using and_pow [of e 7] by (simp add: pte_big_def PS_BIT_def)

lemma bit_PAGE_USER [simp]: "bit PAGE_USER n \<longleftrightarrow> n = 2"
  using bit_exp_iff [where 'a = "64 word", of 2 n] by (auto simp: PAGE_USER_def)

lemma bit_PAGE_PRESENT [simp]: "bit PAGE_PRESENT n \<longleftrightarrow> n = 0"
  by (auto simp: PAGE_PRESENT_def bit_1_iff)

lemma bit_PS_BIT [simp]: "bit PS_BIT n \<longleftrightarrow> n = 7"
  using bit_exp_iff [where 'a = "64 word", of 7 n] by (auto simp: PS_BIT_def)

lemma ADDR_MASK_bits: "ADDR_MASK = push_bit 12 (mask 40)"
  by (simp add: ADDR_MASK_def mask_eq_exp_minus_1)

lemma bit_ADDR_MASK [simp]: "bit ADDR_MASK n \<longleftrightarrow> 12 \<le> n \<and> n < 52"
  by (auto simp: ADDR_MASK_bits bit_push_bit_iff bit_mask_iff)

lemma bit_PAGE_NX [simp]: "bit PAGE_NX n \<longleftrightarrow> n = 63"
  unfolding PAGE_NX_def push_bit_eq_mult mult_1 by (subst bit_exp_iff) auto

lemma PRESENT_MASK_bits: "PRESENT_MASK = mask 12 OR PAGE_NX"
  by (simp add: PRESENT_MASK_def mask_eq_exp_minus_1)

lemma bit_PRESENT_MASK [simp]: "bit PRESENT_MASK n \<longleftrightarrow> n < 12 \<or> n = 63"
  by (auto simp: PRESENT_MASK_bits bit_or_iff bit_mask_iff)

lemmas entry_bits = bit_or_iff bit_and_iff bit_not_iff pte_present_def pte_big_def pte_user_def

lemma table_base_lt: "table_base e < 2 ^ 52"
proof -
  have "e AND ADDR_MASK = take_bit 52 (e AND ADDR_MASK)"
    by (rule bit_word_eqI) (auto simp: bit_and_iff bit_take_bit_iff)
  then show ?thesis
    unfolding table_base_def by (metis (no_types) unsigned_take_bit_eq take_bit_nat_less_exp)
qed

lemma table_base_aligned: "table_base e mod 4096 = 0"
proof -
  have "take_bit 12 (e AND ADDR_MASK) = 0"
    by (rule bit_word_eqI) (auto simp: bit_and_iff bit_take_bit_iff)
  then have "take_bit 12 (unat (e AND ADDR_MASK)) = 0"
    by (metis unsigned_take_bit_eq unat_0)
  then show ?thesis by (simp add: table_base_def take_bit_eq_mod)
qed

lemma table_base_cong: "(\<And>n. 12 \<le> n \<Longrightarrow> n < 52 \<Longrightarrow> bit e n = bit e' n) \<Longrightarrow> table_base e = table_base e'"
  unfolding table_base_def
  by (rule arg_cong [where f = unat], rule bit_word_eqI) (auto simp: bit_and_iff)

lemma table_base_page:
  assumes "f < 2 ^ 40" "\<And>n. 12 \<le> n \<Longrightarrow> n < 52 \<Longrightarrow> \<not> bit fl n"
  shows "table_base (of_nat (f * 4096) OR fl) = f * 4096"
proof -
  have f: "f * 4096 = push_bit 12 f" by (simp add: push_bit_eq_mult)
  have low: "\<not> bit (of_nat (f * 4096) :: u64) n" if "n < 12" for n
    using that by (simp add: f bit_push_bit_iff flip: push_bit_of_nat)
  have lt: "f * 4096 < 2 ^ 52" using assms(1) by simp
  then have high: "\<not> bit (of_nat (f * 4096) :: u64) n" if "52 \<le> n" for n
    using that bit_imp_le_length [of "of_nat (f * 4096) :: u64" n]
    by (metis bit_take_bit_iff linorder_not_le of_nat_take_bit take_bit_nat_eq_self_iff)
  have "(of_nat (f * 4096) OR fl) AND ADDR_MASK = of_nat (f * 4096)"
  proof (rule bit_word_eqI)
    fix n show "bit ((of_nat (f * 4096) OR fl) AND ADDR_MASK) n = bit (of_nat (f * 4096) :: u64) n"
      using low [of n] high [of n] assms(2) [of n]
      by (cases "n < 12"; cases "52 \<le> n") (auto simp: bit_and_iff bit_or_iff)
  qed
  moreover have "unat (of_nat (f * 4096) :: u64) = f * 4096"
    unfolding unsigned_of_nat of_nat_id take_bit_nat_eq_self_iff using lt by simp
  ultimately show ?thesis by (simp only: table_base_def)
qed

lemma pidx_nat: "pidx n v = unat v div 2 ^ n mod 512"
proof -
  have "drop_bit n v AND 0x1FF = take_bit 9 (drop_bit n v)"
    by (simp add: take_bit_eq_mask mask_eq_exp_minus_1)
  moreover have "unat (take_bit 9 (drop_bit n v)) = unat v div 2 ^ n mod 2 ^ 9"
    unfolding unsigned_take_bit_eq unat_drop_bit_eq by (simp add: take_bit_eq_mod drop_bit_eq_div)
  ultimately show ?thesis by (simp only: pidx_def) simp
qed

lemma pidx_lt: "pidx n v < 512"
  by (simp add: pidx_nat)

section \<open>The tree of tables\<close>

text \<open>The entries on the way down the tree of \<open>r\<close>, for an address below 4 GiB, by their indices.\<close>

definition E4 :: "(usize \<Rightarrow> u64) \<Rightarrow> usize \<Rightarrow> u64" where
  "E4 m r = m (ent r 0)"

definition E3 :: "(usize \<Rightarrow> u64) \<Rightarrow> usize \<Rightarrow> nat \<Rightarrow> u64" where
  "E3 m r i = m (ent (table_base (E4 m r)) i)"

definition E2 :: "(usize \<Rightarrow> u64) \<Rightarrow> usize \<Rightarrow> nat \<Rightarrow> nat \<Rightarrow> u64" where
  "E2 m r i j = m (ent (table_base (E3 m r i)) j)"

definition E1 :: "(usize \<Rightarrow> u64) \<Rightarrow> usize \<Rightarrow> nat \<Rightarrow> nat \<Rightarrow> nat \<Rightarrow> u64" where
  "E1 m r i j k = m (ent (table_base (E2 m r i j)) k)"

definition pte_leaf :: "u64 \<Rightarrow> (u64 \<times> u64) option" where
  "pte_leaf e = (if pte_present e then Some (e AND ADDR_MASK, e AND PRESENT_MASK) else None)"

definition big_leaf :: "u64 \<Rightarrow> nat \<Rightarrow> u64 \<times> u64" where
  "big_leaf e k = (take_bit 52 (push_bit 21 (drop_bit 21 e)) OR push_bit 12 (of_nat k), e AND PRESENT_MASK AND NOT PS_BIT)"

definition walk_at :: "(usize \<Rightarrow> u64) \<Rightarrow> usize \<Rightarrow> nat \<Rightarrow> nat \<Rightarrow> nat \<Rightarrow> (u64 \<times> u64) option" where
  "walk_at m r i j k = (if \<not> pte_present (E2 m r i j) then None
     else if pte_big (E2 m r i j) then Some (big_leaf (E2 m r i j) k)
     else pte_leaf (E1 m r i j k))"

text \<open>The tables of the tree: the root, its first pointer table, four directories and the page tables
  of the directory entries that are present and not large.\<close>

datatype tbl = TRoot | TPdpt | TPd nat | TPt nat nat

fun tbl_loc :: "(usize \<Rightarrow> u64) \<Rightarrow> usize \<Rightarrow> tbl \<Rightarrow> usize" where
  "tbl_loc m r TRoot = r"
| "tbl_loc m r TPdpt = table_base (E4 m r)"
| "tbl_loc m r (TPd i) = table_base (E3 m r i)"
| "tbl_loc m r (TPt i j) = table_base (E2 m r i j)"

fun tbl_live :: "(usize \<Rightarrow> u64) \<Rightarrow> usize \<Rightarrow> tbl \<Rightarrow> bool" where
  "tbl_live m r TRoot = True"
| "tbl_live m r TPdpt = True"
| "tbl_live m r (TPd i) = (i < 4)"
| "tbl_live m r (TPt i j) = (i < 4 \<and> j < 512 \<and> pte_present (E2 m r i j) \<and> \<not> pte_big (E2 m r i j))"

text \<open>Below the root no level is missing down to the directories, no two tables share a frame, no
  table is in a free frame (\<open>A\<close>), and a translation with the user bit has it at every level.\<close>

definition pt_ok :: "(usize \<Rightarrow> u64) \<Rightarrow> nat set \<Rightarrow> usize \<Rightarrow> bool" where
  "pt_ok m A r \<longleftrightarrow> r mod 4096 = 0 \<and> pte_present (E4 m r) \<and> (\<forall>i < 4. pte_present (E3 m r i) \<and> \<not> pte_big (E3 m r i))
     \<and> inj_on (tbl_loc m r) {t. tbl_live m r t} \<and> (\<forall>t. tbl_live m r t \<longrightarrow> tbl_loc m r t div 4096 \<notin> A)
     \<and> (\<forall>i < 4. \<forall>j < 512. \<forall>k < 512. \<forall>p fl. walk_at m r i j k = Some (p, fl) \<longrightarrow> pte_user fl
          \<longrightarrow> pte_user (E4 m r) \<and> pte_user (E3 m r i) \<and> pte_user (E2 m r i j))"

text \<open>The frames of the tables.\<close>

definition tbl_frames :: "(usize \<Rightarrow> u64) \<Rightarrow> usize \<Rightarrow> nat set" where
  "tbl_frames m r = {tbl_loc m r t div 4096 | t. tbl_live m r t}"

lemma tbl_frames_cong:
  "tbl_live m' r = tbl_live m r \<Longrightarrow> (\<And>t. tbl_live m r t \<Longrightarrow> tbl_loc m' r t = tbl_loc m r t) \<Longrightarrow> tbl_frames m' r = tbl_frames m r"
  unfolding tbl_frames_def by (metis (mono_tags, lifting))

lemma ent_div:
  assumes "b mod 4096 = 0" "k < 512"
  shows "ent b k div 4096 = b div 4096"
proof -
  obtain x where "b = 4096 * x" using assms(1) by (meson mod_0_imp_dvd dvdE)
  then show ?thesis using assms(2) by (simp add: ent_def)
qed

lemma ent_inject:
  assumes "b mod 4096 = 0" "b' mod 4096 = 0" "k < 512" "k' < 512"
  shows "ent b k = ent b' k' \<longleftrightarrow> b = b' \<and> k = k'"
proof
  assume eq: "ent b k = ent b' k'"
  then have "b div 4096 = b' div 4096" using ent_div assms by metis
  then have "b = b'" using assms(1,2) by (metis mod_0_imp_dvd dvd_div_mult_self)
  with eq show "b = b' \<and> k = k'" by (simp add: ent_def)
qed simp

lemma loc_aligned: "r mod 4096 = 0 \<Longrightarrow> tbl_loc m r t mod 4096 = 0"
  by (cases t) (auto simp: table_base_aligned)

lemma loc_inj:
  assumes "pt_ok m A r" "tbl_live m r t" "tbl_live m r t'"
  shows "tbl_loc m r t = tbl_loc m r t' \<longleftrightarrow> t = t'"
  using assms unfolding pt_ok_def by (metis (mono_tags) inj_onD mem_Collect_eq)

lemma ent_live_eq:
  assumes "pt_ok m A r" "tbl_live m r t" "tbl_live m r t'" "k < 512" "k' < 512"
  shows "ent (tbl_loc m r t) k = ent (tbl_loc m r t') k' \<longleftrightarrow> t = t' \<and> k = k'"
proof -
  have "r mod 4096 = 0" using assms(1) by (simp add: pt_ok_def)
  with assms show ?thesis by (simp add: ent_inject loc_aligned loc_inj)
qed

lemma live_not_free:
  assumes "pt_ok m A r" "tbl_live m r t" "k < 512"
  shows "ent (tbl_loc m r t) k div 4096 \<notin> A"
proof -
  have "r mod 4096 = 0" "tbl_loc m r t div 4096 \<notin> A" using assms by (auto simp: pt_ok_def)
  with assms(3) show ?thesis by (simp add: ent_div loc_aligned)
qed

lemma live_simps:
  assumes "pt_ok m A r"
  shows "r mod 4096 = 0" "pte_present (E4 m r)" "i < 4 \<Longrightarrow> pte_present (E3 m r i)" "i < 4 \<Longrightarrow> \<not> pte_big (E3 m r i)"
  using assms by (auto simp: pt_ok_def)

lemma hw_walk_W:
  assumes "pt_ok m A r" "unat v < 2 ^ 32"
  shows "hw_walk m r v = walk_at m r (pidx 30 v) (pidx 21 v) (pidx 12 v)" "pidx 39 v = 0" "pidx 30 v < 4"
proof -
  show "pidx 39 v = 0" "pidx 30 v < 4" using assms(2) by (auto simp: pidx_nat)
  with live_simps [OF assms(1)] show "hw_walk m r v = walk_at m r (pidx 30 v) (pidx 21 v) (pidx 12 v)"
    by (simp add: hw_walk_def walk_at_def Let_def pte_leaf_def big_leaf_def E1_def E2_def E3_def E4_def)
qed

section \<open>Changes of the tree\<close>

text \<open>Setting the user bit of an entry that links to a table.\<close>

definition lk :: "u64 \<Rightarrow> u64 \<Rightarrow> bool" where
  "lk e e' \<longleftrightarrow> table_base e' = table_base e \<and> pte_present e' = pte_present e \<and> pte_big e' = pte_big e \<and> (pte_user e \<longrightarrow> pte_user e')"

lemma lk_refl [simp]: "lk e e"
  by (simp add: lk_def)

lemma lk_user [simp]: "lk e (e OR PAGE_USER)"
  unfolding lk_def by (auto simp: entry_bits intro!: table_base_cong)

lemma relink:
  assumes ok: "pt_ok m A r"
      and l4: "lk (E4 m r) (m' (ent r 0))"
      and l3: "\<And>i. i < 4 \<Longrightarrow> lk (E3 m r i) (m' (ent (tbl_loc m r TPdpt) i))"
      and l2: "\<And>i j. i < 4 \<Longrightarrow> j < 512 \<Longrightarrow> lk (E2 m r i j) (m' (ent (tbl_loc m r (TPd i)) j))"
      and b2: "\<And>i j. i < 4 \<Longrightarrow> j < 512 \<Longrightarrow> pte_big (E2 m r i j) \<Longrightarrow> m' (ent (tbl_loc m r (TPd i)) j) = E2 m r i j"
      and l1: "\<And>i j k. tbl_live m r (TPt i j) \<Longrightarrow> k < 512 \<Longrightarrow> m' (ent (tbl_loc m r (TPt i j)) k) = E1 m r i j k"
  shows "pt_ok m' A r" "\<And>i j k. i < 4 \<Longrightarrow> j < 512 \<Longrightarrow> k < 512 \<Longrightarrow> walk_at m' r i j k = walk_at m r i j k"
    and "\<And>t. tbl_live m r t \<Longrightarrow> tbl_loc m' r t = tbl_loc m r t" "tbl_live m' r = tbl_live m r"
    and "E4 m' r = m' (ent r 0)" "\<And>i. E3 m' r i = m' (ent (tbl_loc m r TPdpt) i)"
    and "\<And>i j. i < 4 \<Longrightarrow> E2 m' r i j = m' (ent (tbl_loc m r (TPd i)) j)"
proof -
  show e4: "E4 m' r = m' (ent r 0)" by (simp add: E4_def)
  have t4: "table_base (E4 m' r) = table_base (E4 m r)" using l4 by (simp add: e4 lk_def)
  show e3: "E3 m' r i = m' (ent (tbl_loc m r TPdpt) i)" for i by (simp add: E3_def t4)
  have t3: "table_base (E3 m' r i) = table_base (E3 m r i)" if "i < 4" for i
    using l3 [OF that] by (simp add: e3 lk_def)
  show e2: "E2 m' r i j = m' (ent (tbl_loc m r (TPd i)) j)" if "i < 4" for i j
    using that by (simp add: E2_def t3)
  have l2': "lk (E2 m r i j) (E2 m' r i j)" if "i < 4" "j < 512" for i j
    using l2 [OF that] that by (simp add: e2)
  have t2: "table_base (E2 m' r i j) = table_base (E2 m r i j)" if "i < 4" "j < 512" for i j
    using l2' [OF that] by (simp add: lk_def)
  show lc: "tbl_loc m' r t = tbl_loc m r t" if "tbl_live m r t" for t
    using that by (cases t) (auto simp: t4 t3 t2)
  show lv: "tbl_live m' r = tbl_live m r"
  proof
    fix t show "tbl_live m' r t = tbl_live m r t"
    proof (cases t)
      case (TPt i j)
      then show ?thesis using l2' [of i j] by (auto simp: lk_def)
    qed auto
  qed
  have e1: "E1 m' r i j k = E1 m r i j k" if "tbl_live m r (TPt i j)" "k < 512" for i j k
    using l1 [OF that] that by (simp add: E1_def t2)
  show w: "walk_at m' r i j k = walk_at m r i j k" if "i < 4" "j < 512" "k < 512" for i j k
    using l2' [of i j] b2 [of i j] e1 [of i j k] that by (auto simp: walk_at_def lk_def e2)
  have "inj_on (tbl_loc m' r) {t. tbl_live m' r t}"
    using ok lc by (simp add: pt_ok_def lv inj_on_def)
  moreover have "pte_user (E4 m' r) \<and> pte_user (E3 m' r i) \<and> pte_user (E2 m' r i j)"
    if "i < 4" "j < 512" "k < 512" "walk_at m' r i j k = Some (p, fl)" "pte_user fl" for i j k p fl
  proof -
    have "pte_user (E4 m r) \<and> pte_user (E3 m r i) \<and> pte_user (E2 m r i j)"
      using that ok unfolding pt_ok_def by (metis w)
    then show ?thesis using that l4 l3 [of i] l2' [of i j] by (simp add: lk_def e4 e3)
  qed
  moreover have "pte_present (E4 m' r)" "\<forall>i < 4. pte_present (E3 m' r i) \<and> \<not> pte_big (E3 m' r i)"
    using ok l4 l3 by (auto simp: pt_ok_def e4 e3 lk_def)
  ultimately show "pt_ok m' A r"
    using ok by (auto simp: pt_ok_def lv lc)
qed

text \<open>Writing an entry of a page table.\<close>

lemma leaf_write:
  assumes ok: "pt_ok m A r" and lv: "tbl_live m r (TPt i j)" and k: "k < 512"
      and us: "pte_present x \<and> pte_user x \<longrightarrow> pte_user (E4 m r) \<and> pte_user (E3 m r i) \<and> pte_user (E2 m r i j)"
  defines "m' \<equiv> m(ent (tbl_loc m r (TPt i j)) k := x)"
  shows "pt_ok m' A r"
    and "i' < 4 \<Longrightarrow> j' < 512 \<Longrightarrow> k' < 512 \<Longrightarrow>
         walk_at m' r i' j' k' = (if i' = i \<and> j' = j \<and> k' = k then pte_leaf x else walk_at m r i' j' k')"
    and "tbl_live m' r = tbl_live m r" "tbl_frames m' r = tbl_frames m r"
proof -
  have diff: "m' (ent (tbl_loc m r t) k') = m (ent (tbl_loc m r t) k')" if "tbl_live m r t" "t \<noteq> TPt i j" "k' < 512" for t k'
    using ent_live_eq [OF ok that(1) lv that(3) k] that(2) by (simp add: m'_def)
  have e4: "E4 m' r = E4 m r" using diff [of TRoot 0] by (simp add: E4_def)
  have e3: "E3 m' r i = E3 m r i" if "i < 4" for i using diff [of TPdpt i] that by (simp add: E3_def e4)
  have e2: "E2 m' r i j = E2 m r i j" if "i < 4" "j < 512" for i j
    using diff [of "TPd i" j] that by (simp add: E2_def e3)
  have e1: "E1 m' r i' j' k' = (if i' = i \<and> j' = j \<and> k' = k then x else E1 m r i' j' k')"
    if "tbl_live m r (TPt i' j')" "k' < 512" for i' j' k'
  proof -
    have "E1 m' r i' j' k' = m' (ent (tbl_loc m r (TPt i' j')) k')" using that by (simp add: E1_def e2)
    then show ?thesis using ent_live_eq [OF ok that(1) lv that(2) k] by (auto simp: m'_def E1_def)
  qed
  show w: "walk_at m' r i' j' k' = (if i' = i \<and> j' = j \<and> k' = k then pte_leaf x else walk_at m r i' j' k')"
    if "i' < 4" "j' < 512" "k' < 512" for i' j' k'
    using e1 [of i' j' k'] that lv by (auto simp: walk_at_def e2)
  have lvq: "tbl_live m' r t = tbl_live m r t" for t by (cases t) (auto simp: e2)
  then show lvf: "tbl_live m' r = tbl_live m r" by blast
  have lc: "tbl_loc m' r t = tbl_loc m r t" if "tbl_live m r t" for t using that by (cases t) (auto simp: e4 e3 e2)
  then show "tbl_frames m' r = tbl_frames m r" using lvf by (intro tbl_frames_cong) auto
  have "pte_user (E4 m r) \<and> pte_user (E3 m r i') \<and> pte_user (E2 m r i' j')"
    if "i' < 4" "j' < 512" "k' < 512" "walk_at m' r i' j' k' = Some (p, fl)" "pte_user fl" for i' j' k' p fl
  proof (cases "i' = i \<and> j' = j \<and> k' = k")
    case True
    then have "pte_leaf x = Some (p, fl)" using that w by simp
    then have "pte_present x" "pte_user x" using that(5) by (auto simp: pte_leaf_def entry_bits split: if_splits)
    then show ?thesis using us True by simp
  next
    case False
    then have "walk_at m r i' j' k' = Some (p, fl)" using that w by (metis (no_types))
    then show ?thesis using ok that unfolding pt_ok_def by blast
  qed
  moreover have "inj_on (tbl_loc m' r) {t. tbl_live m' r t}"
    using ok lc by (simp add: pt_ok_def lvq inj_on_def)
  ultimately show "pt_ok m' A r"
    using ok by (auto simp: pt_ok_def lvq lc e4 e3 e2)
qed

text \<open>Hanging a fresh page table under a directory entry that had none.\<close>

lemma install:
  assumes ok: "pt_ok m A r" and i: "i < 4" and j: "j < 512" and f: "f \<in> A" "f < 2 ^ 40"
      and none: "\<not> tbl_live m r (TPt i j)"
      and e: "m' (ent (tbl_loc m r (TPd i)) j) = e" "pte_present e" "\<not> pte_big e" "table_base e = f * 4096"
      and rest: "\<And>b. b \<noteq> ent (tbl_loc m r (TPd i)) j \<Longrightarrow> b div 4096 \<noteq> f \<Longrightarrow> m' b = m b"
      and page: "\<And>k. k < 512 \<Longrightarrow> pte_leaf (m' (ent (f * 4096) k)) = walk_at m r i j k"
      and us: "pte_user (E2 m r i j) \<Longrightarrow> pte_present (E2 m r i j) \<Longrightarrow> pte_user e"
  shows "pt_ok m' (A - {f}) r" "tbl_live m' r (TPt i j)" "E4 m' r = E4 m r" "E2 m' r i j = e"
    and "\<And>i'. i' < 4 \<Longrightarrow> E3 m' r i' = E3 m r i'"
    and "\<And>i' j' k. i' < 4 \<Longrightarrow> j' < 512 \<Longrightarrow> k < 512 \<Longrightarrow> walk_at m' r i' j' k = walk_at m r i' j' k"
    and "\<And>t. tbl_live m r t \<Longrightarrow> tbl_live m' r t" "tbl_frames m' r = insert f (tbl_frames m r)"
proof -
  have pd: "tbl_live m r (TPd i)" using i by simp
  have diff: "m' (ent (tbl_loc m r t) k) = m (ent (tbl_loc m r t) k)"
    if "tbl_live m r t" "k < 512" "t \<noteq> TPd i \<or> k \<noteq> j" for t k
  proof (rule rest)
    show "ent (tbl_loc m r t) k \<noteq> ent (tbl_loc m r (TPd i)) j"
      using ent_live_eq [OF ok that(1) pd that(2) j] that(3) by simp
    show "ent (tbl_loc m r t) k div 4096 \<noteq> f" using live_not_free [OF ok that(1,2)] f by blast
  qed
  show e4: "E4 m' r = E4 m r" using diff [of TRoot 0] by (simp add: E4_def)
  show e3: "E3 m' r i' = E3 m r i'" if "i' < 4" for i' using diff [of TPdpt i'] that by (simp add: E3_def e4)
  have e2: "E2 m' r i' j' = (if i' = i \<and> j' = j then e else E2 m r i' j')" if "i' < 4" "j' < 512" for i' j'
    using diff [of "TPd i'" j'] that e(1) by (auto simp: E2_def e3)
  then show e2': "E2 m' r i j = e" using i j by simp
  show "tbl_live m' r (TPt i j)" using i j e by (simp add: e2')
  have e1: "E1 m' r i' j' k = E1 m r i' j' k" if "tbl_live m r (TPt i' j')" "k < 512" for i' j' k
    using diff [of "TPt i' j'" k] that none by (auto simp: E1_def e2)
  show w: "walk_at m' r i' j' k = walk_at m r i' j' k" if "i' < 4" "j' < 512" "k < 512" for i' j' k
  proof (cases "i' = i \<and> j' = j")
    case True
    then show ?thesis using page [OF that(3)] e by (simp add: walk_at_def [of m'] e2' E1_def)
  next
    case False
    then show ?thesis using e1 [of i' j' k] that by (auto simp: walk_at_def e2)
  qed
  have lv: "tbl_live m' r t \<longleftrightarrow> tbl_live m r t \<or> t = TPt i j" for t using i j e(2,3) by (cases t) (auto simp: e2 split: if_splits)
  then show "tbl_live m' r t" if "tbl_live m r t" for t using that by blast
  have lc: "tbl_loc m' r t = tbl_loc m r t" if "tbl_live m r t" for t using that none by (cases t) (auto simp: e4 e3 e2)
  have lcf: "tbl_loc m' r (TPt i j) = f * 4096" by (simp add: e2' e)
  show "tbl_frames m' r = insert f (tbl_frames m r)"
  proof -
    have "tbl_frames m' r = insert (tbl_loc m' r (TPt i j) div 4096) {tbl_loc m' r t div 4096 | t. tbl_live m r t}"
      unfolding tbl_frames_def lv by blast
    also have "{tbl_loc m' r t div 4096 | t. tbl_live m r t} = tbl_frames m r"
      unfolding tbl_frames_def using lc by (metis (mono_tags, lifting))
    finally show ?thesis using lcf by simp
  qed
  have nf: "tbl_loc m r t \<noteq> f * 4096" if "tbl_live m r t" for t
    using ok f that unfolding pt_ok_def by (metis nonzero_mult_div_cancel_right zero_neq_numeral)
  have "inj_on (tbl_loc m' r) {t. tbl_live m' r t}"
  proof (rule inj_onI)
    fix t t' assume "t \<in> {t. tbl_live m' r t}" "t' \<in> {t. tbl_live m' r t}" "tbl_loc m' r t = tbl_loc m' r t'"
    then show "t = t'" using loc_inj [OF ok, of t t'] nf [of t] nf [of t'] lc [of t] lc [of t'] lcf
      unfolding mem_Collect_eq lv by metis
  qed
  moreover have "tbl_loc m' r t div 4096 \<notin> A - {f}" if "tbl_live m' r t" for t
    using that ok lcf lc [of t] unfolding lv pt_ok_def by auto
  moreover have "pte_user (E4 m r) \<and> pte_user (E3 m r i') \<and> pte_user (E2 m' r i' j')"
    if "i' < 4" "j' < 512" "k < 512" "walk_at m' r i' j' k = Some (p, fl)" "pte_user fl" for i' j' k p fl
  proof -
    have wm: "walk_at m r i' j' k = Some (p, fl)" using that w by simp
    then have u: "pte_user (E4 m r) \<and> pte_user (E3 m r i') \<and> pte_user (E2 m r i' j')"
      using that ok unfolding pt_ok_def by blast
    have "pte_present (E2 m r i' j')" using wm by (simp add: walk_at_def split: if_splits)
    then show ?thesis using u us that(1,2) by (auto simp: e2)
  qed
  ultimately show "pt_ok m' (A - {f}) r"
    using ok by (auto simp: pt_ok_def e4 e3)
qed

section \<open>The entry of a page\<close>

lemma promote_mem:
  "pt_mem (promote ef a s) b = (if b = a \<and> pte_user ef then pt_mem s a OR PAGE_USER else pt_mem s b)"
proof -
  have "e OR PAGE_USER = e" if "pte_user e" for e
    using that by (intro bit_word_eqI) (auto simp: entry_bits)
  then show ?thesis by (auto simp: promote_def wr_def and_user)
qed

lemma promote_pmm [simp]: "mm_pmm (promote ef a s) = mm_pmm s"
  by (simp add: promote_def wr_def)

lemma promote_user_mono: "pte_user (pt_mem s b) \<Longrightarrow> pte_user (pt_mem (promote ef a s) b)"
  by (auto simp: promote_mem entry_bits)

lemma promote_sets: "pte_user ef \<Longrightarrow> pte_user (pt_mem (promote ef a s) a)"
  by (auto simp: promote_mem entry_bits)

definition link_addr :: "(usize \<Rightarrow> u64) \<Rightarrow> usize \<Rightarrow> usize \<Rightarrow> bool" where
  "link_addr m r a \<longleftrightarrow> (\<exists>t n. a = ent (tbl_loc m r t) n \<and> tbl_live m r t \<and> n < 512
     \<and> (case t of TPt _ _ \<Rightarrow> False | TPd i \<Rightarrow> \<not> pte_big (E2 m r i n) | _ \<Rightarrow> True))"

lemma promote_tree:
  fixes ef :: u64
  assumes ok: "pt_ok (pt_mem s) A r" and a: "link_addr (pt_mem s) r a"
  defines "m \<equiv> pt_mem s" and "m' \<equiv> pt_mem (promote ef a s)"
  shows "pt_ok m' A r" "\<And>i j k. i < 4 \<Longrightarrow> j < 512 \<Longrightarrow> k < 512 \<Longrightarrow> walk_at m' r i j k = walk_at m r i j k"
    and "\<And>t. tbl_live m r t \<Longrightarrow> tbl_loc m' r t = tbl_loc m r t" "tbl_live m' r = tbl_live m r"
    and "E4 m' r = m' (ent r 0)" "\<And>i. E3 m' r i = m' (ent (tbl_loc m r TPdpt) i)"
    and "\<And>i j. i < 4 \<Longrightarrow> E2 m' r i j = m' (ent (tbl_loc m r (TPd i)) j)"
proof -
  obtain t n where t: "a = ent (tbl_loc m r t) n" "tbl_live m r t" "n < 512"
      "case t of TPt _ _ \<Rightarrow> False | TPd i \<Rightarrow> \<not> pte_big (E2 m r i n) | _ \<Rightarrow> True"
    using a unfolding link_addr_def m_def by blast
  have ok': "pt_ok m A r" using ok by (simp add: m_def)
  have lkm: "lk (m b) (m' b)" for b by (auto simp: m_def m'_def promote_mem)
  have b2: "m' (ent (tbl_loc m r (TPd i)) j) = E2 m r i j" if "i < 4" "j < 512" "pte_big (E2 m r i j)" for i j
  proof -
    have "ent (tbl_loc m r (TPd i)) j \<noteq> a"
      using ent_live_eq [OF ok' _ t(2) that(2) t(3), of "TPd i"] t that by (auto split: tbl.splits)
    then show ?thesis by (simp add: m_def m'_def promote_mem E2_def)
  qed
  have l1: "m' (ent (tbl_loc m r (TPt i j)) k) = E1 m r i j k" if "tbl_live m r (TPt i j)" "k < 512" for i j k
  proof -
    have "ent (tbl_loc m r (TPt i j)) k \<noteq> a"
      using ent_live_eq [OF ok' that(1) t(2) that(2) t(3)] t(1,4) by (auto split: tbl.splits)
    then show ?thesis by (simp add: m_def m'_def promote_mem E1_def)
  qed
  have "lk (E4 m r) (m' (ent r 0))" "lk (E3 m r i) (m' (ent (tbl_loc m r TPdpt) i))"
       "lk (E2 m r i j) (m' (ent (tbl_loc m r (TPd i)) j))" for i j
    using lkm by (simp_all add: E4_def E3_def E2_def)
  note R = relink [OF ok' this(1) this(2) this(3) b2 l1]
  show "pt_ok m' A r" "\<And>i j k. i < 4 \<Longrightarrow> j < 512 \<Longrightarrow> k < 512 \<Longrightarrow> walk_at m' r i j k = walk_at m r i j k"
    and "\<And>t. tbl_live m r t \<Longrightarrow> tbl_loc m' r t = tbl_loc m r t" "tbl_live m' r = tbl_live m r"
    and "E4 m' r = m' (ent r 0)" "\<And>i. E3 m' r i = m' (ent (tbl_loc m r TPdpt) i)"
    and "\<And>i j. i < 4 \<Longrightarrow> E2 m' r i j = m' (ent (tbl_loc m r (TPd i)) j)"
    using R by blast+
qed

lemma fold_wr_pmm [simp]: "mm_pmm (fold (\<lambda>i. wr (ent t i) (g i)) xs s) = mm_pmm s"
  by (induction xs arbitrary: s) (simp_all add: wr_def)

lemma fold_wr_mem:
  "pt_mem (fold (\<lambda>i. wr (ent t i) (g i)) [0..<n] s) b =
     (if \<exists>k < n. b = ent t k then g ((b - t) div 8) else pt_mem s b)"
proof (induction n)
  case (Suc n)
  have "(ent t n - t) div 8 = n" by (simp add: ent_def)
  then show ?case using Suc by (auto simp: wr_def less_Suc_eq)
qed simp

lemma fill_split_mem:
  assumes "t mod 4096 = 0"
  shows "k < 512 \<Longrightarrow> pt_mem (fill_split t pb fl s) (ent t k) = (pb + of_nat k * PAGE_SIZE) OR fl"
    and "b div 4096 \<noteq> t div 4096 \<Longrightarrow> pt_mem (fill_split t pb fl s) b = pt_mem s b"
    and "mm_pmm (fill_split t pb fl s) = mm_pmm s"
proof -
  have "(ent t k - t) div 8 = k" for k by (simp add: ent_def)
  then show "k < 512 \<Longrightarrow> pt_mem (fill_split t pb fl s) (ent t k) = (pb + of_nat k * PAGE_SIZE) OR fl"
    unfolding fill_split_def fold_wr_mem by auto
  show "b div 4096 \<noteq> t div 4096 \<Longrightarrow> pt_mem (fill_split t pb fl s) b = pt_mem s b"
    unfolding fill_split_def fold_wr_mem using ent_div [OF assms] by auto
qed (simp add: fill_split_def)

lemma split_leaf:
  assumes "pte_present e" "k < 512"
  shows "pte_leaf (((e AND NOT (push_bit 21 1 - 1)) + of_nat k * PAGE_SIZE) OR (e AND PRESENT_MASK AND NOT PS_BIT))
         = Some (big_leaf e k)"
proof -
  have mk: "push_bit 21 1 - 1 = (mask 21 :: u64)" by (simp add: mask_eq_exp_minus_1)
  have hi: "e AND NOT (push_bit 21 1 - 1) = push_bit 21 (drop_bit 21 e)"
    unfolding mk by (rule bit_word_eqI) (auto simp: bit_and_iff bit_not_iff bit_mask_iff bit_push_bit_iff bit_drop_bit_eq)
  have kk: "of_nat k * PAGE_SIZE = push_bit 12 (of_nat k)" by (simp add: PAGE_SIZE_def push_bit_eq_mult)
  have kb: "\<not> bit (of_nat k :: u64) n" if "9 \<le> n" for n
  proof -
    have "take_bit 9 k = k" using assms(2) by (simp add: take_bit_nat_eq_self_iff)
    then have "(of_nat k :: u64) = take_bit 9 (of_nat k)" by (metis of_nat_take_bit)
    then show ?thesis using that by (metis bit_take_bit_iff linorder_not_le)
  qed
  have "push_bit 21 (drop_bit 21 e) AND push_bit 12 (of_nat k) = 0"
    using kb by (intro bit_word_eqI) (auto simp: bit_and_iff bit_push_bit_iff)
  then have add: "push_bit 21 (drop_bit 21 e) + push_bit 12 (of_nat k) = push_bit 21 (drop_bit 21 e) OR push_bit 12 (of_nat k)"
    by (metis add.left_neutral word_plus_and_or)
  define x where "x = (push_bit 21 (drop_bit 21 e) OR push_bit 12 (of_nat k)) OR (e AND PRESENT_MASK AND NOT PS_BIT)"
  have p: "pte_present x" using assms(1) by (simp add: x_def entry_bits bit_push_bit_iff)
  have a: "x AND ADDR_MASK = take_bit 52 (push_bit 21 (drop_bit 21 e)) OR push_bit 12 (of_nat k)"
  proof (rule bit_word_eqI)
    fix n assume "n < LENGTH(64)"
    then show "bit (x AND ADDR_MASK) n = bit (take_bit 52 (push_bit 21 (drop_bit 21 e)) OR push_bit 12 (of_nat k)) n"
      using kb [of "n - 12"]
      by (cases "n < 12"; cases "n < 52") (auto simp: x_def entry_bits bit_push_bit_iff bit_take_bit_iff bit_drop_bit_eq)
  qed
  have f: "x AND PRESENT_MASK = e AND PRESENT_MASK AND NOT PS_BIT"
  proof (rule bit_word_eqI)
    fix n assume "n < LENGTH(64)"
    then show "bit (x AND PRESENT_MASK) n = bit (e AND PRESENT_MASK AND NOT PS_BIT) n"
      using kb [of "n - 12"]
      by (cases "n < 12") (auto simp: x_def entry_bits bit_push_bit_iff bit_drop_bit_eq)
  qed
  show ?thesis unfolding hi kk add x_def [symmetric] by (simp add: pte_leaf_def big_leaf_def p a f)
qed

lemma live_frame:
  "r mod 4096 = 0 \<Longrightarrow> tbl_live m r t \<Longrightarrow> n < 512 \<Longrightarrow> ent (tbl_loc m r t) n div 4096 \<in> tbl_frames m r"
  using ent_div [OF loc_aligned, of r n m t] by (auto simp: tbl_frames_def)

lemma link_addr_frame: "r mod 4096 = 0 \<Longrightarrow> link_addr m r a \<Longrightarrow> a div 4096 \<in> tbl_frames m r"
  unfolding link_addr_def by (elim exE conjE) (simp only: live_frame)

text \<open>Which table memory a step may change, and which frames may become tables.\<close>

definition touches :: "usize \<Rightarrow> mmu \<Rightarrow> nat list \<Rightarrow> mmu \<Rightarrow> bool" where
  "touches r s fs s' \<longleftrightarrow> tbl_frames (pt_mem s') r \<subseteq> tbl_frames (pt_mem s) r \<union> set fs
     \<and> (\<forall>b. b div 4096 \<notin> tbl_frames (pt_mem s) r \<union> set fs \<longrightarrow> pt_mem s' b = pt_mem s b)
     \<and> pmm_managed (mm_pmm s') = pmm_managed (mm_pmm s)"

lemma touches_trans: "touches r s fs s1 \<Longrightarrow> touches r s1 gs s2 \<Longrightarrow> touches r s (fs @ gs) s2"
  unfolding touches_def by (auto; blast)

lemma touches_refl [simp]: "touches r s [] s"
  by (simp add: touches_def)

lemma promote_touches:
  assumes "pt_ok (pt_mem s) A r" "link_addr (pt_mem s) r a"
  shows "touches r s [] (promote ef a s)"
proof -
  have "tbl_frames (pt_mem (promote ef a s)) r = tbl_frames (pt_mem s) r"
    using promote_tree(3,4) [OF assms] by (intro tbl_frames_cong) auto
  moreover have "a div 4096 \<in> tbl_frames (pt_mem s) r"
    using link_addr_frame [OF live_simps(1) [OF assms(1)] assms(2)] .
  ultimately show ?thesis by (auto simp: touches_def promote_mem)
qed

text \<open>The upper levels: the user bit is set where it is asked for, and nothing else changes.\<close>

lemma descend:
  fixes ef :: u64 and s :: mmu
  assumes ok: "pt_ok (pt_mem s) A r" and i: "i < 4"
  defines "s1 \<equiv> promote ef (ent r 0) s"
  defines "a3 \<equiv> ent (table_base (pt_mem s (ent r 0))) i"
  defines "s2 \<equiv> promote ef a3 s1"
  shows "pte_present (pt_mem s1 a3)" "\<not> pte_big (pt_mem s1 a3)"
    and "pt_ok (pt_mem s2) A r" "mm_pmm s2 = mm_pmm s"
    and "\<And>i j k. i < 4 \<Longrightarrow> j < 512 \<Longrightarrow> k < 512 \<Longrightarrow> walk_at (pt_mem s2) r i j k = walk_at (pt_mem s) r i j k"
    and "table_base (pt_mem s1 a3) = tbl_loc (pt_mem s2) r (TPd i)" "tbl_live (pt_mem s2) r = tbl_live (pt_mem s) r"
    and "touches r s [] s2"
    and "pte_user ef \<Longrightarrow> pte_user (E4 (pt_mem s2) r) \<and> pte_user (E3 (pt_mem s2) r i)"
proof -
  have la1: "link_addr (pt_mem s) r (ent r 0)"
    unfolding link_addr_def by (rule exI [of _ TRoot], rule exI [of _ 0]) simp
  note P1 = promote_tree [where ef = ef, OF ok la1, folded s1_def]
  have a3: "a3 = ent (tbl_loc (pt_mem s) r TPdpt) i" by (simp add: a3_def E4_def)
  then have a3': "a3 = ent (tbl_loc (pt_mem s1) r TPdpt) i" using P1(3) [of TPdpt] by (simp only: tbl_live.simps)
  have la2: "link_addr (pt_mem s1) r a3"
    unfolding link_addr_def a3' using i by (intro exI [of _ TPdpt] exI [of _ i]) simp
  note P2 = promote_tree [where ef = ef, OF P1(1) la2, folded s2_def]
  show "touches r s [] s2"
    using touches_trans [OF promote_touches [OF ok la1, where ef = ef, folded s1_def] promote_touches [OF P1(1) la2, where ef = ef, folded s2_def]]
    by simp
  have e3: "E3 (pt_mem s1) r i = pt_mem s1 a3" using P1(6) by (simp add: a3)
  show "pte_present (pt_mem s1 a3)" "\<not> pte_big (pt_mem s1 a3)"
    using live_simps(3,4) [OF P1(1) i] by (simp_all add: e3)
  show "pt_ok (pt_mem s2) A r" by (rule P2)
  show "mm_pmm s2 = mm_pmm s" by (simp add: s2_def s1_def)
  show "walk_at (pt_mem s2) r i j k = walk_at (pt_mem s) r i j k" if "i < 4" "j < 512" "k < 512" for i j k
    using P1(2) P2(2) that by simp
  show "table_base (pt_mem s1 a3) = tbl_loc (pt_mem s2) r (TPd i)"
    using P2(3) [of "TPd i"] i by (simp add: e3)
  show "tbl_live (pt_mem s2) r = tbl_live (pt_mem s) r" using P1(4) P2(4) by simp
  assume u: "pte_user ef"
  have "pte_user (pt_mem s2 (ent r 0))"
    unfolding s2_def by (rule promote_user_mono) (simp add: s1_def u promote_sets)
  moreover have "pte_user (pt_mem s2 a3)" unfolding s2_def by (rule promote_sets [OF u])
  ultimately show "pte_user (E4 (pt_mem s2) r) \<and> pte_user (E3 (pt_mem s2) r i)"
    using P2(5,6) by (simp add: a3')
qed

text \<open>What a step of the code may do to the tables of \<open>r\<close>: take the frames \<open>fs\<close> and keep every walk.\<close>

definition grows :: "usize \<Rightarrow> mmu \<Rightarrow> nat list \<Rightarrow> mmu \<Rightarrow> bool" where
  "grows r s fs s' \<longleftrightarrow> pmm_inv (mm_pmm s') \<and> pt_ok (pt_mem s') (avail (mm_pmm s')) r
     \<and> set fs \<subseteq> avail (mm_pmm s) \<and> distinct fs \<and> avail (mm_pmm s') = avail (mm_pmm s) - set fs
     \<and> (\<forall>i < 4. \<forall>j < 512. \<forall>k < 512. walk_at (pt_mem s') r i j k = walk_at (pt_mem s) r i j k)
     \<and> (\<forall>t. tbl_live (pt_mem s) r t \<longrightarrow> tbl_live (pt_mem s') r t) \<and> touches r s fs s'"

definition entry_at :: "usize \<Rightarrow> u64 \<Rightarrow> u64 \<Rightarrow> mmu \<Rightarrow> usize \<Rightarrow> bool" where
  "entry_at r v ef s a \<longleftrightarrow> tbl_live (pt_mem s) r (TPt (pidx 30 v) (pidx 21 v))
     \<and> a = ent (tbl_loc (pt_mem s) r (TPt (pidx 30 v) (pidx 21 v))) (pidx 12 v)
     \<and> (pte_user ef \<longrightarrow> pte_user (E4 (pt_mem s) r) \<and> pte_user (E3 (pt_mem s) r (pidx 30 v))
          \<and> pte_user (E2 (pt_mem s) r (pidx 30 v) (pidx 21 v)))"

lemma avail_lt: "pmm_inv p \<Longrightarrow> f \<in> avail p \<Longrightarrow> f < 2 ^ 40"
  by (simp add: pmm_inv_def avail_def pmm_consts)

definition fl_ok :: "u64 \<Rightarrow> bool" where
  "fl_ok ef \<longleftrightarrow> \<not> pte_big ef \<and> ef AND ADDR_MASK = 0"

lemma fl_ok_bits: "fl_ok ef \<Longrightarrow> 12 \<le> n \<Longrightarrow> n < 52 \<Longrightarrow> \<not> bit ef n"
  using bit_and_iff [of ef ADDR_MASK n] by (simp add: fl_ok_def)

text \<open>A fresh table under a directory entry: the two branches that allocate.\<close>

lemma install_grows:
  assumes ok: "pt_ok (pt_mem s) (avail (mm_pmm s)) r" and i: "i < 4" and j: "j < 512"
      and f: "f \<in> avail (mm_pmm s)" "pmm_inv (mm_pmm s)"
      and p': "pmm_inv (mm_pmm s')" "avail (mm_pmm s') = avail (mm_pmm s) - {f}"
        "last_usable_frame (mm_pmm s') = last_usable_frame (mm_pmm s)"
      and none: "\<not> tbl_live (pt_mem s) r (TPt i j)"
      and e: "e = of_nat (f * 4096) OR x" "pte_present x" "\<not> pte_big x" "\<And>n. 12 \<le> n \<Longrightarrow> n < 52 \<Longrightarrow> \<not> bit x n"
      and s': "pt_mem s' = (pt_mem s'')(ent (tbl_loc (pt_mem s) r (TPd i)) j := e)"
      and rest: "\<And>b. b div 4096 \<noteq> f \<Longrightarrow> pt_mem s'' b = pt_mem s b"
      and page: "\<And>k. k < 512 \<Longrightarrow> pte_leaf (pt_mem s'' (ent (f * 4096) k)) = walk_at (pt_mem s) r i j k"
      and us: "pte_user (E2 (pt_mem s) r i j) \<Longrightarrow> pte_present (E2 (pt_mem s) r i j) \<Longrightarrow> pte_user x"
  shows "grows r s [f] s'" "tbl_live (pt_mem s') r (TPt i j)" "tbl_loc (pt_mem s') r (TPt i j) = f * 4096"
    and "E4 (pt_mem s') r = E4 (pt_mem s) r" "\<And>i'. i' < 4 \<Longrightarrow> E3 (pt_mem s') r i' = E3 (pt_mem s) r i'"
    and "pte_user (E2 (pt_mem s') r i j) = pte_user x"
proof -
  have f40: "f < 2 ^ 40" using avail_lt f by blast
  have low: "\<not> bit (of_nat (f * 4096) :: u64) n" if "n < 12" for n
  proof -
    have "f * 4096 = push_bit 12 f" by (simp add: push_bit_eq_mult)
    then show ?thesis using that by (simp add: bit_push_bit_iff flip: push_bit_of_nat)
  qed
  have pe: "pte_present e" "\<not> pte_big e" "pte_user e = pte_user x" "table_base e = f * 4096"
    using e low table_base_page [OF f40, of x] by (auto simp: entry_bits)
  have pd: "tbl_live (pt_mem s) r (TPd i)" using i by simp
  have ne: "ent (f * 4096) k \<noteq> ent (tbl_loc (pt_mem s) r (TPd i)) j" if "k < 512" for k
    using live_not_free [OF ok pd j] f(1) ent_div [of "f * 4096" k] that by fastforce
  note I = install [where m' = "pt_mem s'" and e = e, OF ok i j f(1) f40 none _ pe(1,2,4)]
  have 1: "pt_mem s' (ent (tbl_loc (pt_mem s) r (TPd i)) j) = e" by (simp add: s')
  have 2: "pt_mem s' b = pt_mem s b" if "b \<noteq> ent (tbl_loc (pt_mem s) r (TPd i)) j" "b div 4096 \<noteq> f" for b
    using that rest by (simp add: s')
  have 3: "pte_leaf (pt_mem s' (ent (f * 4096) k)) = walk_at (pt_mem s) r i j k" if "k < 512" for k
    using page [OF that] ne [OF that] by (simp add: s')
  have 4: "pte_user e" if "pte_user (E2 (pt_mem s) r i j)" "pte_present (E2 (pt_mem s) r i j)" using us that pe by simp
  note J = I [OF 1 2 3 4]
  have "touches r s [f] s'"
    using J(8) live_frame [OF live_simps(1) [OF ok] pd j] p'(3)
    by (auto simp: touches_def pmm_managed_def simp del: tbl_loc.simps intro!: 2)
  then show "grows r s [f] s'" using J(1,6,7) f p' unfolding grows_def by simp
  show "tbl_live (pt_mem s') r (TPt i j)" using J(2) by blast
  show "tbl_loc (pt_mem s') r (TPt i j) = f * 4096" using J(4) pe by fastforce
  show "E4 (pt_mem s') r = E4 (pt_mem s) r" using J(3) by blast
  show "E3 (pt_mem s') r i' = E3 (pt_mem s) r i'" if "i' < 4" for i' using J(5) that by blast
  show "pte_user (E2 (pt_mem s') r i j) = pte_user x" using J(4) pe by fastforce
qed

lemma branch_absent:
  assumes ok: "pt_ok (pt_mem s) (avail (mm_pmm s)) r" and i: "i < 4" and j: "j < 512"
      and f: "f \<in> avail (mm_pmm s)" "pmm_inv (mm_pmm s)" "pmm_inv p'" "avail p' = avail (mm_pmm s) - {f}"
        "last_usable_frame p' = last_usable_frame (mm_pmm s)"
      and np: "\<not> pte_present (E2 (pt_mem s) r i j)" and fl: "fl_ok ef"
  defines "s' \<equiv> wr (ent (tbl_loc (pt_mem s) r (TPd i)) j) (of_nat (f * FRAME_SIZE) OR ef OR PAGE_PRESENT)
                  (zero_table (f * FRAME_SIZE) (s\<lparr>mm_pmm := p'\<rparr>))"
  shows "grows r s [f] s'" "tbl_live (pt_mem s') r (TPt i j)" "tbl_loc (pt_mem s') r (TPt i j) = f * 4096"
    and "E4 (pt_mem s') r = E4 (pt_mem s) r" "\<And>i'. i' < 4 \<Longrightarrow> E3 (pt_mem s') r i' = E3 (pt_mem s) r i'"
    and "pte_user (E2 (pt_mem s') r i j) = pte_user ef"
proof -
  let ?s'' = "zero_table (f * FRAME_SIZE) (s\<lparr>mm_pmm := p'\<rparr>)"
  have x: "pte_present (ef OR PAGE_PRESENT)" "\<not> pte_big (ef OR PAGE_PRESENT)" "pte_user (ef OR PAGE_PRESENT) = pte_user ef"
      "\<And>n. 12 \<le> n \<Longrightarrow> n < 52 \<Longrightarrow> \<not> bit (ef OR PAGE_PRESENT) n"
    using fl fl_ok_bits [OF fl] by (auto simp: entry_bits fl_ok_def)
  have none: "\<not> tbl_live (pt_mem s) r (TPt i j)" using np by simp
  have rest: "pt_mem ?s'' b = pt_mem s b" if "b div 4096 \<noteq> f" for b
    using that by (auto simp: zero_table_def FRAME_SIZE_def)
  have page: "pte_leaf (pt_mem ?s'' (ent (f * 4096) k)) = walk_at (pt_mem s) r i j k" if "k < 512" for k
    using that np by (simp add: zero_table_def FRAME_SIZE_def ent_def pte_leaf_def walk_at_def entry_bits)
  have ss: "pt_mem s' = (pt_mem ?s'')(ent (tbl_loc (pt_mem s) r (TPd i)) j := of_nat (f * 4096) OR (ef OR PAGE_PRESENT))"
    by (simp add: s'_def wr_def FRAME_SIZE_def or.assoc)
  have pm: "mm_pmm s' = p'" by (simp add: s'_def wr_def zero_table_def)
  note I = install_grows [where s' = s' and s'' = ?s'', OF ok i j f(1,2) _ _ _ none refl x(1,2,4) ss rest page]
  show "grows r s [f] s'" "tbl_live (pt_mem s') r (TPt i j)" "tbl_loc (pt_mem s') r (TPt i j) = f * 4096"
    and "E4 (pt_mem s') r = E4 (pt_mem s) r" "\<And>i'. i' < 4 \<Longrightarrow> E3 (pt_mem s') r i' = E3 (pt_mem s) r i'"
    and "pte_user (E2 (pt_mem s') r i j) = pte_user ef"
    using I f np x(3) by (simp_all add: pm)
qed

lemma branch_split:
  fixes ef :: u64
  assumes ok: "pt_ok (pt_mem s) (avail (mm_pmm s)) r" and i: "i < 4" and j: "j < 512"
      and f: "f \<in> avail (mm_pmm s)" "pmm_inv (mm_pmm s)" "pmm_inv p'" "avail p' = avail (mm_pmm s) - {f}"
        "last_usable_frame p' = last_usable_frame (mm_pmm s)"
  defines "pde \<equiv> E2 (pt_mem s) r i j"
  assumes pr: "pte_present pde" and bg: "pte_big pde"
  defines "x \<equiv> (pde AND PRESENT_MASK AND NOT PS_BIT) OR (ef AND PAGE_USER)"
  defines "s' \<equiv> wr (ent (tbl_loc (pt_mem s) r (TPd i)) j) (of_nat (f * FRAME_SIZE) OR x)
                  (fill_split (f * FRAME_SIZE) (pde AND NOT (push_bit 21 1 - 1)) (pde AND PRESENT_MASK AND NOT PS_BIT)
                     (s\<lparr>mm_pmm := p'\<rparr>))"
  shows "grows r s [f] s'" "tbl_live (pt_mem s') r (TPt i j)" "tbl_loc (pt_mem s') r (TPt i j) = f * 4096"
    and "E4 (pt_mem s') r = E4 (pt_mem s) r" "\<And>i'. i' < 4 \<Longrightarrow> E3 (pt_mem s') r i' = E3 (pt_mem s) r i'"
    and "pte_user ef \<Longrightarrow> pte_user (E2 (pt_mem s') r i j)"
proof -
  let ?s'' = "fill_split (f * FRAME_SIZE) (pde AND NOT (push_bit 21 1 - 1)) (pde AND PRESENT_MASK AND NOT PS_BIT)
                     (s\<lparr>mm_pmm := p'\<rparr>)"
  have al: "f * FRAME_SIZE mod 4096 = 0" "f * FRAME_SIZE = f * 4096" by (simp_all add: FRAME_SIZE_def)
  note F = fill_split_mem [OF al(1)]
  have x: "pte_present x" "\<not> pte_big x" "pte_user pde \<or> pte_user ef \<Longrightarrow> pte_user x" "\<And>n. 12 \<le> n \<Longrightarrow> n < 52 \<Longrightarrow> \<not> bit x n"
    using pr by (auto simp: x_def entry_bits)
  have none: "\<not> tbl_live (pt_mem s) r (TPt i j)" using bg by (simp add: pde_def)
  have rest: "pt_mem ?s'' b = pt_mem s b" if "b div 4096 \<noteq> f" for b
    using that F(2) by (simp add: FRAME_SIZE_def)
  have page: "pte_leaf (pt_mem ?s'' (ent (f * 4096) k)) = walk_at (pt_mem s) r i j k" if "k < 512" for k
    using split_leaf [OF pr that] F(1) [OF that] pr bg unfolding al(2) pde_def walk_at_def by simp
  have ss: "pt_mem s' = (pt_mem ?s'')(ent (tbl_loc (pt_mem s) r (TPd i)) j := of_nat (f * 4096) OR x)"
    by (simp add: s'_def wr_def FRAME_SIZE_def)
  have pm: "mm_pmm s' = p'" by (simp add: s'_def wr_def F(3))
  have pmi: "pmm_inv (mm_pmm s')" "avail (mm_pmm s') = avail (mm_pmm s) - {f}"
      "last_usable_frame (mm_pmm s') = last_usable_frame (mm_pmm s)"
    using f by (simp_all add: pm)
  have us: "pte_user x" if "pte_user (E2 (pt_mem s) r i j)" "pte_present (E2 (pt_mem s) r i j)"
    using x(3) that by (simp add: pde_def)
  note I = install_grows [where s' = s' and s'' = ?s'', OF ok i j f(1,2) pmi none refl x(1,2,4) ss rest page us]
  show "grows r s [f] s'" "tbl_live (pt_mem s') r (TPt i j)" "tbl_loc (pt_mem s') r (TPt i j) = f * 4096"
    and "E4 (pt_mem s') r = E4 (pt_mem s) r" "\<And>i'. i' < 4 \<Longrightarrow> E3 (pt_mem s') r i' = E3 (pt_mem s) r i'"
    using I(1-5) by simp_all
  show "pte_user ef \<Longrightarrow> pte_user (E2 (pt_mem s') r i j)" using I(6) x(3) by simp
qed

lemma grows_refl:
  "pmm_inv (mm_pmm s) \<Longrightarrow> pt_ok (pt_mem s) (avail (mm_pmm s)) r \<Longrightarrow> grows r s [] s"
  by (simp add: grows_def)

lemma grows_trans: "grows r s fs s1 \<Longrightarrow> grows r s1 gs s2 \<Longrightarrow> grows r s (fs @ gs) s2"
  using touches_trans [of r s fs s1 gs s2] unfolding grows_def by auto

lemma grows_same_pmm:
  assumes "pmm_inv (mm_pmm s)" "mm_pmm s' = mm_pmm s" "pt_ok (pt_mem s') (avail (mm_pmm s)) r"
      "\<And>i j k. i < 4 \<Longrightarrow> j < 512 \<Longrightarrow> k < 512 \<Longrightarrow> walk_at (pt_mem s') r i j k = walk_at (pt_mem s) r i j k"
      "tbl_live (pt_mem s') r = tbl_live (pt_mem s) r" "touches r s [] s'"
  shows "grows r s [] s'"
  using assms by (simp add: grows_def)

text \<open>The page of \<open>w\<close> has an entry in a page table of its own.\<close>

definition small_at :: "usize \<Rightarrow> mmu \<Rightarrow> u64 \<Rightarrow> bool" where
  "small_at r s w \<longleftrightarrow> tbl_live (pt_mem s) r (TPt (pidx 30 w) (pidx 21 w))"

lemma pt_entry_spec:
  assumes inv: "pmm_inv (mm_pmm s)" and ok: "pt_ok (pt_mem s) (avail (mm_pmm s)) (unat root)"
      and v: "unat v < 2 ^ 32" and fl: "fl_ok ef"
  shows "\<exists>res fs s'. pt_entry_ptr_in root v ef track (frames, s) =
             Some (res, (if track then frames @ map (\<lambda>f. f * FRAME_SIZE) fs else frames), s')
           \<and> grows (unat root) s fs s' \<and> length fs \<le> 1 \<and> (small_at (unat root) s v \<longrightarrow> fs = [])
           \<and> (case res of None \<Rightarrow> avail (mm_pmm s) = {} \<and> fs = [] \<and> \<not> tbl_live (pt_mem s) (unat root) (TPt (pidx 30 v) (pidx 21 v))
                | Some a \<Rightarrow> entry_at (unat root) v ef s' a)"
proof -
  define r i j where "r = unat root" and "i = pidx 30 v" and "j = pidx 21 v"
  have ok': "pt_ok (pt_mem s) (avail (mm_pmm s)) r" using ok by (simp add: r_def)
  have i: "i < 4" and j: "j < 512" and k: "pidx 12 v < 512" and z: "pidx 39 v = 0"
    using hw_walk_W(2,3) [OF ok v] pidx_lt by (auto simp: i_def j_def)
  define s1 where "s1 = promote ef (ent r 0) s"
  define a3 where "a3 = ent (table_base (pt_mem s (ent r 0))) i"
  define s2 where "s2 = promote ef a3 s1"
  note D = descend [where ef = ef, OF ok' i, folded s1_def, folded a3_def, folded s2_def]
  define a2 where "a2 = ent (table_base (pt_mem s1 a3)) j"
  have a2: "a2 = ent (tbl_loc (pt_mem s2) r (TPd i)) j" using D(6) by (simp add: a2_def)
  then have e2: "E2 (pt_mem s2) r i j = pt_mem s2 a2" by (simp add: E2_def)
  have inv2: "pmm_inv (mm_pmm s2)" using inv D(4) by simp
  have ok2: "pt_ok (pt_mem s2) (avail (mm_pmm s2)) r" using D(3,4) by simp
  have g2: "grows r s [] s2" by (rule grows_same_pmm [OF inv D(4,3,5,7,8)])
  have run: "pt_entry_ptr_in root v ef track (frames, s) =
      (if \<not> pte_present (pt_mem s2 a2) then do {
         (q, p) \<leftarrow> frame_alloc (mm_pmm s2);
         case q of None \<Rightarrow> Some (None, frames, s2\<lparr>mm_pmm := p\<rparr>)
         | Some frame \<Rightarrow> Some (Some (ent frame (pidx 12 v)), (if track then frames @ [frame] else frames),
              wr a2 (of_nat frame OR ef OR PAGE_PRESENT) (zero_table frame (s2\<lparr>mm_pmm := p\<rparr>))) }
       else if pte_big (pt_mem s2 a2) then do {
         (q, p) \<leftarrow> frame_alloc (mm_pmm s2);
         case q of None \<Rightarrow> Some (None, frames, s2\<lparr>mm_pmm := p\<rparr>)
         | Some frame \<Rightarrow> Some (Some (ent frame (pidx 12 v)), (if track then frames @ [frame] else frames),
              wr a2 (of_nat frame OR ((pt_mem s2 a2 AND PRESENT_MASK AND NOT PS_BIT) OR (ef AND PAGE_USER)))
                (fill_split frame (pt_mem s2 a2 AND NOT (push_bit 21 1 - 1)) (pt_mem s2 a2 AND PRESENT_MASK AND NOT PS_BIT)
                   (s2\<lparr>mm_pmm := p\<rparr>))) }
       else Some (Some (ent (table_base (pt_mem s2 a2)) (pidx 12 v)), frames, promote ef a2 s2))"
    using D(1,2) live_simps(2) [OF ok']
    unfolding pt_entry_ptr_in_def prod.case Let_def z r_def [symmetric] i_def [symmetric] j_def [symmetric]
      s1_def [symmetric] a3_def [symmetric] s2_def [symmetric] a2_def [symmetric]
    by (simp add: E4_def and_present and_ps or.assoc)
  show ?thesis
  proof (cases "pte_present (pt_mem s2 a2) \<and> \<not> pte_big (pt_mem s2 a2)")
    case True
    have la: "link_addr (pt_mem s2) r a2"
      unfolding link_addr_def a2 using i j True by (intro exI [of _ "TPd i"] exI [of _ j]) (simp add: e2)
    note P = promote_tree [where ef = ef, OF ok2 la]
    let ?s' = "promote ef a2 s2"
    have lv2: "tbl_live (pt_mem s2) r (TPt i j)" using True i j by (simp add: e2)
    have "grows r s2 [] ?s'" by (rule grows_same_pmm [OF inv2 _ P(1,2,4) promote_touches [OF ok2 la]]) simp_all
    then have g: "grows r s [] ?s'" using grows_trans [OF g2] by simp
    have u: "pte_user (E4 (pt_mem ?s') r) \<and> pte_user (E3 (pt_mem ?s') r i) \<and> pte_user (E2 (pt_mem ?s') r i j)" if "pte_user ef"
    proof -
      have "pte_user (pt_mem s2 (ent r 0))" "pte_user (pt_mem s2 (ent (tbl_loc (pt_mem s2) r TPdpt) i))"
        using D(9) that by (simp_all add: E4_def E3_def)
      then show ?thesis using P(5,6) P(7) [OF i] promote_user_mono promote_sets [OF that, of a2 s2] by (simp add: a2)
    qed
    have "entry_at r v ef ?s' (ent (table_base (pt_mem s2 a2)) (pidx 12 v))"
      unfolding entry_at_def using u lv2 P(3) [OF lv2] P(4) by (simp add: e2 flip: i_def j_def)
    then show ?thesis using run True g by (intro exI [of _ "Some (ent (table_base (pt_mem s2 a2)) (pidx 12 v))"]
          exI [of _ "[]"] exI [of _ ?s']) (simp add: r_def)
  next
    case False
    show ?thesis
    proof (cases "avail (mm_pmm s2) = {}")
      case True
      then have al: "frame_alloc (mm_pmm s2) = Some (None, mm_pmm s2)" using frame_alloc_spec [OF inv2] by auto
      have "pt_entry_ptr_in root v ef track (frames, s) = Some (None, frames, s2)"
        using run False by (auto simp: al)
      moreover have "\<not> tbl_live (pt_mem s2) r (TPt i j)" using False by (auto simp: e2)
      then have "\<not> tbl_live (pt_mem s) r (TPt i j)" unfolding D(7) .
      ultimately show ?thesis using g2 True D(4)
        by (intro exI [of _ None] exI [of _ "[]"] exI [of _ s2]) (simp add: r_def i_def j_def)
    next
      case ne: False
      obtain f p' where f: "f \<in> avail (mm_pmm s2)" "pmm_inv p'" "avail p' = avail (mm_pmm s2) - {f}"
          "last_usable_frame p' = last_usable_frame (mm_pmm s2)"
          and al: "frame_alloc (mm_pmm s2) = Some (Some (f * FRAME_SIZE), p')"
        using frame_alloc_spec [OF inv2] ne by auto
      define s3 where "s3 = (if \<not> pte_present (pt_mem s2 a2)
        then wr a2 (of_nat (f * FRAME_SIZE) OR ef OR PAGE_PRESENT) (zero_table (f * FRAME_SIZE) (s2\<lparr>mm_pmm := p'\<rparr>))
        else wr a2 (of_nat (f * FRAME_SIZE) OR ((pt_mem s2 a2 AND PRESENT_MASK AND NOT PS_BIT) OR (ef AND PAGE_USER)))
                (fill_split (f * FRAME_SIZE) (pt_mem s2 a2 AND NOT (push_bit 21 1 - 1)) (pt_mem s2 a2 AND PRESENT_MASK AND NOT PS_BIT)
                   (s2\<lparr>mm_pmm := p'\<rparr>)))"
      have B: "grows r s2 [f] s3" "tbl_live (pt_mem s3) r (TPt i j)" "tbl_loc (pt_mem s3) r (TPt i j) = f * 4096"
          "E4 (pt_mem s3) r = E4 (pt_mem s2) r" "E3 (pt_mem s3) r i = E3 (pt_mem s2) r i"
          "pte_user ef \<Longrightarrow> pte_user (E2 (pt_mem s3) r i j)"
        using branch_absent [OF ok2 i j f(1) inv2 f(2-4) _ fl] branch_split [where ef = ef, OF ok2 i j f(1) inv2 f(2-4)] False i
        unfolding s3_def e2 a2 [symmetric] by (auto split: if_splits)
      have ent: "entry_at r v ef s3 (ent (f * FRAME_SIZE) (pidx 12 v))"
        unfolding entry_at_def using B D(9) by (simp add: FRAME_SIZE_def flip: i_def j_def)
      have "pt_entry_ptr_in root v ef track (frames, s) =
          Some (Some (ent (f * FRAME_SIZE) (pidx 12 v)), (if track then frames @ [f * FRAME_SIZE] else frames), s3)"
        using run False by (auto simp: al s3_def)
      moreover have "grows r s [f] s3" using grows_trans [OF g2 B(1)] by simp
      moreover have "\<not> tbl_live (pt_mem s2) r (TPt i j)" using False by (auto simp: e2)
      then have "\<not> small_at r s v" unfolding D(7) small_at_def i_def [symmetric] j_def [symmetric] .
      ultimately show ?thesis using ent
        by (intro exI [of _ "Some (ent (f * FRAME_SIZE) (pidx 12 v))"] exI [of _ "[f]"] exI [of _ s3]) (simp add: r_def)
    qed
  qed
qed

section \<open>Mapping and unmapping a range\<close>

lemma idx_page:
  fixes v w :: u64
  assumes "unat v < 2 ^ 32" "unat w < 2 ^ 32"
  shows "pidx 30 w = pidx 30 v \<and> pidx 21 w = pidx 21 v \<and> pidx 12 w = pidx 12 v
           \<longleftrightarrow> unat w div 4096 = unat v div 4096"
proof -
  have ix: "pidx 12 x = unat x div 4096 mod 512" "pidx 21 x = unat x div 4096 div 512 mod 512"
      "pidx 30 x = unat x div 4096 div 512 div 512 mod 512" for x :: u64
    by (simp_all add: pidx_nat div_mult2_eq [symmetric])
  have dec: "unat x div 4096 = pidx 12 x + 512 * (pidx 21 x + 512 * pidx 30 x)" if "unat x < 2 ^ 32" for x :: u64
  proof -
    define n where "n = unat x div 4096"
    have "n < 1048576" using that by (simp add: n_def less_mult_imp_div_less)
    then show ?thesis by (simp add: ix n_def [symmetric])
  qed
  show ?thesis
  proof
    assume "unat w div 4096 = unat v div 4096"
    then show "pidx 30 w = pidx 30 v \<and> pidx 21 w = pidx 21 v \<and> pidx 12 w = pidx 12 v" by (simp add: ix)
  qed (use dec [OF assms(1)] dec [OF assms(2)] in simp)
qed

lemma hw_user_walk:
  assumes "pt_ok m A r" "unat v < 2 ^ 32"
  shows "hw_user m r v \<longleftrightarrow> (\<exists>p fl. hw_walk m r v = Some (p, fl) \<and> pte_user fl)"
proof -
  define i j k where "i = pidx 30 v" and "j = pidx 21 v" and "k = pidx 12 v"
  have ix: "i < 4" "j < 512" "k < 512" "pidx 39 v = 0"
    using hw_walk_W(2,3) [OF assms] pidx_lt by (auto simp: i_def j_def k_def)
  have w: "hw_walk m r v = walk_at m r i j k" using hw_walk_W(1) [OF assms] by (simp add: i_def j_def k_def)
  have hu: "hw_user m r v \<longleftrightarrow> walk_at m r i j k \<noteq> None \<and> pte_user (E4 m r) \<and> pte_user (E3 m r i) \<and> pte_user (E2 m r i j)
      \<and> (pte_big (E2 m r i j) \<or> pte_user (E1 m r i j k))"
    unfolding hw_user_def w ix(4) Let_def by (simp add: E4_def E3_def E2_def E1_def i_def j_def k_def)
  have "pte_user (E4 m r) \<and> pte_user (E3 m r i) \<and> pte_user (E2 m r i j)" if "walk_at m r i j k = Some (p, fl)" "pte_user fl" for p fl
    using assms(1) ix that unfolding pt_ok_def by blast
  then show ?thesis unfolding hu w
    by (auto simp: walk_at_def pte_leaf_def big_leaf_def entry_bits split: if_splits)
qed

lemma write_entry:
  assumes g: "pt_ok (pt_mem s) A r" and at: "entry_at r v ef s a" and v: "unat v < 2 ^ 32"
      and x: "pte_present x \<Longrightarrow> pte_user x \<Longrightarrow> pte_user ef"
  shows "pt_ok (pt_mem (wr a x s)) A r"
    and "unat w < 2 ^ 32 \<Longrightarrow> hw_walk (pt_mem (wr a x s)) r w =
           (if unat w div 4096 = unat v div 4096 then pte_leaf x else hw_walk (pt_mem s) r w)"
    and "tbl_live (pt_mem (wr a x s)) r = tbl_live (pt_mem s) r"
proof -
  have L: "tbl_live (pt_mem s) r (TPt (pidx 30 v) (pidx 21 v))"
      "a = ent (tbl_loc (pt_mem s) r (TPt (pidx 30 v) (pidx 21 v))) (pidx 12 v)"
      "pte_present x \<and> pte_user x \<longrightarrow> pte_user (E4 (pt_mem s) r) \<and> pte_user (E3 (pt_mem s) r (pidx 30 v))
         \<and> pte_user (E2 (pt_mem s) r (pidx 30 v) (pidx 21 v))"
    using at x by (auto simp: entry_at_def)
  have m: "pt_mem (wr a x s) = (pt_mem s)(a := x)" by (simp add: wr_def)
  note LW = leaf_write [OF g L(1) pidx_lt [of 12 v] L(3), folded L(2) m]
  show ok: "pt_ok (pt_mem (wr a x s)) A r" using LW(1) by simp
  show "tbl_live (pt_mem (wr a x s)) r = tbl_live (pt_mem s) r" using LW(3) by simp
  assume w: "unat w < 2 ^ 32"
  show "hw_walk (pt_mem (wr a x s)) r w =
           (if unat w div 4096 = unat v div 4096 then pte_leaf x else hw_walk (pt_mem s) r w)"
    unfolding hw_walk_W(1) [OF ok w] hw_walk_W(1) [OF g w] idx_page [OF v w, symmetric]
    using LW(2) [of "pidx 30 w" "pidx 21 w" "pidx 12 w"] pidx_lt hw_walk_W(3) [OF g w] by simp
qed

lemma grows_walk:
  assumes "grows r s fs s'" "pt_ok (pt_mem s) A r" "unat w < 2 ^ 32"
  shows "hw_walk (pt_mem s') r w = hw_walk (pt_mem s) r w"
proof -
  have "pt_ok (pt_mem s') (avail (mm_pmm s')) r" using assms(1) unfolding grows_def by blast
  note hw_walk_W(1) [OF this assms(3)] hw_walk_W(1,3) [OF assms(2,3)]
  then show ?thesis using assms(1) by (simp add: grows_def pidx_lt)
qed

lemma leaf_page:
  assumes "unat p mod 4096 = 0" "unat p < 2 ^ 52" "fl_ok (fl AND PRESENT_MASK)"
  shows "pte_leaf (p OR (fl AND PRESENT_MASK) OR PAGE_PRESENT) = Some (p, (fl AND PRESENT_MASK) OR PAGE_PRESENT)"
proof -
  have "take_bit 12 (unat p) = 0" using assms(1) by (simp add: take_bit_eq_mod)
  then have "take_bit 12 p = 0" by (metis unat_eq_zero unsigned_take_bit_eq)
  then have lo: "\<not> bit p n" if "n < 12" for n using that by (metis bit_0_eq bit_take_bit_iff bot_apply bot_bool_def)
  have "take_bit 52 (unat p) = unat p" using assms(2) by (simp only: take_bit_nat_eq_self_iff)
  then have "take_bit 52 p = p" by (metis unsigned_take_bit_eq word_unat_eq_iff)
  then have hi: "\<not> bit p n" if "52 \<le> n" for n using that by (metis bit_take_bit_iff linorder_not_le)
  let ?x = "p OR (fl AND PRESENT_MASK) OR PAGE_PRESENT"
  have "?x AND ADDR_MASK = p"
  proof (rule bit_word_eqI)
    fix n assume "n < LENGTH(64)"
    then show "bit (?x AND ADDR_MASK) n = bit p n"
      using lo [of n] hi [of n] by (cases "n < 12"; cases "52 \<le> n") (auto simp: entry_bits)
  qed
  moreover have "?x AND PRESENT_MASK = (fl AND PRESENT_MASK) OR PAGE_PRESENT"
  proof (rule bit_word_eqI)
    fix n assume "n < LENGTH(64)"
    then show "bit (?x AND PRESENT_MASK) n = bit ((fl AND PRESENT_MASK) OR PAGE_PRESENT) n"
      using lo [of n] hi [of n] by (cases "n < 12"; cases "52 \<le> n") (auto simp: entry_bits)
  qed
  moreover have "pte_present ?x" by (simp add: entry_bits)
  ultimately show ?thesis by (simp add: pte_leaf_def)
qed

text \<open>The mapping of a range of \<open>n\<close> pages from \<open>v\<close> on, over what was there before.\<close>

definition mapped :: "u64 \<Rightarrow> u64 \<Rightarrow> nat \<Rightarrow> u64 \<Rightarrow> (u64 \<Rightarrow> (u64 \<times> u64) option) \<Rightarrow> u64 \<Rightarrow> (u64 \<times> u64) option" where
  "mapped v p n fl old w =
     (if unat v \<le> unat w \<and> unat w < unat v + 4096 * n
      then Some (p + of_nat ((unat w - unat v) div 4096 * 4096), (fl AND PRESENT_MASK) OR PAGE_PRESENT)
      else old w)"

lemma small_page:
  "unat v < 2 ^ 32 \<Longrightarrow> unat w < 2 ^ 32 \<Longrightarrow> unat w div 4096 = unat v div 4096 \<Longrightarrow> small_at r s w = small_at r s v"
  using idx_page [of v w] unfolding small_at_def by presburger

lemma small_mono: "small_at r s w \<Longrightarrow> (\<And>t. tbl_live (pt_mem s) r t \<Longrightarrow> tbl_live (pt_mem s') r t) \<Longrightarrow> small_at r s' w"
  unfolding small_at_def by blast

definition pt_state :: "usize \<Rightarrow> mmu \<Rightarrow> bool" where
  "pt_state r s \<longleftrightarrow> pmm_inv (mm_pmm s) \<and> pt_ok (pt_mem s) (avail (mm_pmm s)) r"

definition takes :: "usize \<Rightarrow> mmu \<Rightarrow> nat list \<Rightarrow> mmu \<Rightarrow> bool" where
  "takes r s fs s' \<longleftrightarrow> set fs \<subseteq> avail (mm_pmm s) \<and> distinct fs
     \<and> avail (mm_pmm s') = avail (mm_pmm s) - set fs \<and> touches r s fs s'"

lemma takes_trans: "takes r s fs s1 \<Longrightarrow> takes r s1 gs s2 \<Longrightarrow> takes r s (fs @ gs) s2"
  using touches_trans [of r s fs s1 gs s2] unfolding takes_def by auto

lemma grows_state: "grows r s fs s' \<Longrightarrow> pt_state r s' \<and> takes r s fs s'"
  unfolding grows_def pt_state_def takes_def by blast

lemma takes_write:
  assumes "takes r s fs s1" "pt_ok (pt_mem s1) A r" "entry_at r v ef s1 a" "pte_present x \<Longrightarrow> pte_user x \<Longrightarrow> pte_user ef"
  shows "takes r s fs (wr a x s1)"
proof -
  have at: "tbl_live (pt_mem s1) r (TPt (pidx 30 v) (pidx 21 v))"
      "a = ent (tbl_loc (pt_mem s1) r (TPt (pidx 30 v) (pidx 21 v))) (pidx 12 v)"
      "pte_present x \<and> pte_user x \<longrightarrow> pte_user (E4 (pt_mem s1) r) \<and> pte_user (E3 (pt_mem s1) r (pidx 30 v))
         \<and> pte_user (E2 (pt_mem s1) r (pidx 30 v) (pidx 21 v))"
    using assms(3,4) by (auto simp: entry_at_def)
  have m: "pt_mem (wr a x s1) = (pt_mem s1)(a := x)" by (simp add: wr_def)
  have "tbl_frames (pt_mem (wr a x s1)) r = tbl_frames (pt_mem s1) r"
    by (rule leaf_write(4) [OF assms(2) at(1) pidx_lt [of 12 v] at(3), folded at(2) m])
  moreover have "a div 4096 \<in> tbl_frames (pt_mem s1) r"
    unfolding at(2) by (rule live_frame [OF live_simps(1) [OF assms(2)] at(1) pidx_lt])
  ultimately have "touches r s1 [] (wr a x s1)" by (auto simp: touches_def m) (simp_all add: wr_def)
  then show ?thesis using assms(1) touches_trans [of r s fs s1 "[]" "wr a x s1"] by (simp add: takes_def wr_def)
qed

lemma wr_pmm [simp]: "mm_pmm (wr a x s) = mm_pmm s"
  by (simp add: wr_def)

lemma word_step:
  assumes "unat (v :: u64) + 4096 \<le> 2 ^ 63"
  shows "unat (v + PAGE_SIZE) = unat v + 4096"
  using assms unfolding PAGE_SIZE_def by (subst unat_add_lem [THEN iffD1]) auto

lemma page_first:
  assumes "a mod 4096 = 0" "a \<le> b" "b < a + 4096"
  shows "b div 4096 = a div (4096 :: nat)"
proof -
  obtain k where "a = 4096 * k" using assms(1) by (meson mod_0_imp_dvd dvdE)
  then show ?thesis using assms(2,3) by auto
qed

lemma mapped_step:
  assumes v: "unat v mod 4096 = 0" "unat (v + PAGE_SIZE) = unat v + 4096"
      and h: "\<And>w. unat w < 2 ^ 32 \<Longrightarrow> h w = (if unat w div 4096 = unat v div 4096
                then Some (p, (fl AND PRESENT_MASK) OR PAGE_PRESENT) else old w)"
      and w: "unat w < 2 ^ 32"
  shows "mapped (v + PAGE_SIZE) (p + PAGE_SIZE) n fl h w = mapped v p (Suc n) fl old w"
proof -
  obtain a where a: "unat v = 4096 * a" using v(1) by (meson mod_0_imp_dvd dvdE)
  consider (first) "unat w div 4096 = a" | (later) "4096 * a + 4096 \<le> unat w" | (before) "unat w < 4096 * a"
    by linarith
  then show ?thesis
  proof cases
    case first
    then have "4096 * a \<le> unat w" "unat w < 4096 * a + 4096" "(unat w - 4096 * a) div 4096 = 0" by auto
    then show ?thesis using h [OF w] first by (simp add: mapped_def v(2) a)
  next
    case later
    then have "(unat w - 4096 * a) div 4096 = Suc ((unat w - (4096 * a + 4096)) div 4096)" by auto
    moreover have "unat w div 4096 \<noteq> a" using later by auto
    ultimately show ?thesis using h [OF w] later
      unfolding mapped_def v(2) a by (simp add: PAGE_SIZE_def algebra_simps)
  next
    case before
    then have "unat w div 4096 \<noteq> a" by auto
    then show ?thesis using h [OF w] before by (simp add: mapped_def v(2) a)
  qed
qed

lemma map_loop_spec:
  assumes "pt_state (unat root) s" "unat v mod 4096 = 0" "unat p mod 4096 = 0"
      "unat e = unat v + 4096 * c" "unat e \<le> 2 ^ 32" "unat p + 4096 * c \<le> 2 ^ 52" "fl_ok (fl AND PRESENT_MASK)"
  shows "\<exists>n fs s'. map_loop root v p e fl (fr, s) = Some (n = c, fr @ map (\<lambda>f. f * FRAME_SIZE) fs, s')
      \<and> pt_state (unat root) s' \<and> takes (unat root) s fs s' \<and> length fs \<le> n \<and> n \<le> c \<and> (n < c \<longrightarrow> avail (mm_pmm s') = {})
      \<and> (\<forall>w. unat w < 2 ^ 32 \<longrightarrow> hw_walk (pt_mem s') (unat root) w = mapped v p n fl (hw_walk (pt_mem s) (unat root)) w)
      \<and> (\<forall>w. unat w < 2 ^ 32 \<longrightarrow> small_at (unat root) s w \<or> unat v \<le> unat w \<and> unat w < unat v + 4096 * n \<longrightarrow> small_at (unat root) s' w)"
  using assms
proof (induction c arbitrary: v p fr s)
  case 0
  then have "map_loop root v p e fl (fr, s) = Some (True, fr, s)"
    by (subst map_loop.simps) (simp add: word_less_nat_alt)
  then show ?case using 0 by (intro exI [of _ 0] exI [of _ "[]"] exI [of _ s]) (auto simp: takes_def mapped_def)
next
  case (Suc c)
  have v: "unat v < 2 ^ 32" "v < e" using Suc.prems by (auto simp: word_less_nat_alt)
  have st: "pmm_inv (mm_pmm s)" "pt_ok (pt_mem s) (avail (mm_pmm s)) (unat root)"
    using Suc.prems by (auto simp: pt_state_def)
  obtain res fs s1 where run: "pt_entry_ptr_in root v (fl AND PRESENT_MASK) True (fr, s) =
        Some (res, fr @ map (\<lambda>f. f * FRAME_SIZE) fs, s1)"
      and g: "grows (unat root) s fs s1" and len: "length fs \<le> 1"
      and res: "case res of None \<Rightarrow> avail (mm_pmm s) = {} \<and> fs = [] \<and> \<not> tbl_live (pt_mem s) (unat root) (TPt (pidx 30 v) (pidx 21 v))
               | Some a \<Rightarrow> entry_at (unat root) v (fl AND PRESENT_MASK) s1 a"
    using pt_entry_spec [OF st v(1) Suc.prems(7), of True fr] by auto
  note g' = grows_state [OF g]
  have lv: "tbl_live (pt_mem s1) (unat root) t" if "tbl_live (pt_mem s) (unat root) t" for t
    using g that by (simp add: grows_def)
  have old: "hw_walk (pt_mem s1) (unat root) w = hw_walk (pt_mem s) (unat root) w" if "unat w < 2 ^ 32" for w
    by (rule grows_walk [OF g st(2) that])
  show ?case
  proof (cases res)
    case None
    then have "map_loop root v p e fl (fr, s) = Some (False, fr, s1)" "avail (mm_pmm s1) = {}"
      using run res g' v(2) by (subst map_loop.simps, auto simp: takes_def)
    then show ?thesis using g' None res old
      by (intro exI [of _ 0] exI [of _ fs] exI [of _ s1]) (auto simp: mapped_def intro: small_mono [OF _ lv])
  next
    case (Some a)
    define x where "x = p OR (fl AND PRESENT_MASK) OR PAGE_PRESENT"
    define s2 where "s2 = wr a x s1"
    have p: "unat p < 2 ^ 52" using Suc.prems(6) by simp
    have lf: "pte_leaf x = Some (p, (fl AND PRESENT_MASK) OR PAGE_PRESENT)"
      unfolding x_def by (rule leaf_page [OF Suc.prems(3) p Suc.prems(7)])
    then have "x AND PRESENT_MASK = (fl AND PRESENT_MASK) OR PAGE_PRESENT" by (simp add: pte_leaf_def split: if_splits)
    then have ux: "pte_user x \<Longrightarrow> pte_user (fl AND PRESENT_MASK)"
      using bit_and_iff [of x PRESENT_MASK 2] by (simp add: entry_bits)
    have at: "entry_at (unat root) v (fl AND PRESENT_MASK) s1 a" using res Some by simp
    have ok1: "pt_ok (pt_mem s1) (avail (mm_pmm s1)) (unat root)" using g' by (simp add: pt_state_def)
    note wx = write_entry [OF ok1 at v(1), of x, folded s2_def]
    have st2: "pt_state (unat root) s2" using g' wx(1) ux by (auto simp: pt_state_def s2_def)
    have t2: "takes (unat root) s fs s2" unfolding s2_def using g' ux by (intro takes_write [OF _ ok1 at]) auto
    have vs: "unat (v + PAGE_SIZE) = unat v + 4096" and ps: "unat (p + PAGE_SIZE) = unat p + 4096"
      using Suc.prems by (auto intro!: word_step)
    have "unat (v + PAGE_SIZE) mod 4096 = 0" "unat (p + PAGE_SIZE) mod 4096 = 0"
        "unat e = unat (v + PAGE_SIZE) + 4096 * c" "unat (p + PAGE_SIZE) + 4096 * c \<le> 2 ^ 52"
      using Suc.prems by (simp_all add: vs ps)
    from Suc.IH [OF st2 this(1-3) Suc.prems(5) this(4) Suc.prems(7)]
    obtain n gs s' where ih: "map_loop root (v + PAGE_SIZE) (p + PAGE_SIZE) e fl (fr @ map (\<lambda>f. f * FRAME_SIZE) fs, s2) =
          Some (n = c, (fr @ map (\<lambda>f. f * FRAME_SIZE) fs) @ map (\<lambda>f. f * FRAME_SIZE) gs, s')"
        "pt_state (unat root) s'" "takes (unat root) s2 gs s'" "n \<le> c" "length gs \<le> n" "n < c \<longrightarrow> avail (mm_pmm s') = {}"
        "\<forall>w. unat w < 2 ^ 32 \<longrightarrow> hw_walk (pt_mem s') (unat root) w =
            mapped (v + PAGE_SIZE) (p + PAGE_SIZE) n fl (hw_walk (pt_mem s2) (unat root)) w"
        "\<forall>w. unat w < 2 ^ 32 \<longrightarrow> small_at (unat root) s2 w \<or> unat (v + PAGE_SIZE) \<le> unat w
            \<and> unat w < unat (v + PAGE_SIZE) + 4096 * n \<longrightarrow> small_at (unat root) s' w"
      by blast
    have "map_loop root v p e fl (fr, s) = Some (Suc n = Suc c, fr @ map (\<lambda>f. f * FRAME_SIZE) (fs @ gs), s')"
      using run Some v(2) ih(1) by (subst map_loop.simps) (simp add: x_def s2_def)
    moreover have "hw_walk (pt_mem s') (unat root) w = mapped v p (Suc n) fl (hw_walk (pt_mem s) (unat root)) w"
      if "unat w < 2 ^ 32" for w
      using ih(7) that mapped_step [OF Suc.prems(2) vs, of "hw_walk (pt_mem s2) (unat root)" p fl] wx(2) ux lf old by simp
    moreover have "small_at (unat root) s' w" if w: "unat w < 2 ^ 32"
        "small_at (unat root) s w \<or> unat v \<le> unat w \<and> unat w < unat v + 4096 * Suc n" for w
    proof (cases "small_at (unat root) s w \<or> unat w < unat v + 4096")
      case True
      have "small_at (unat root) s1 v" using at by (simp add: entry_at_def small_at_def)
      moreover have "unat w div 4096 = unat v div 4096" if "unat v \<le> unat w" "unat w < unat v + 4096"
        by (rule page_first [OF Suc.prems(2) that])
      ultimately have "small_at (unat root) s1 w"
        using True w small_mono [OF _ lv] small_page [OF v(1) w(1)] by auto
      moreover have "tbl_live (pt_mem s2) (unat root) = tbl_live (pt_mem s1) (unat root)" using wx(3) ux by blast
      ultimately have "small_at (unat root) s2 w" by (simp only: small_at_def)
      then show ?thesis using ih(8) w(1) by blast
    next
      case False
      then show ?thesis using ih(8) w by (simp add: vs)
    qed
    ultimately show ?thesis using ih(2-6) len takes_trans [OF t2 ih(3)]
      by (intro exI [of _ "Suc n"] exI [of _ "fs @ gs"] exI [of _ s']) simp
  qed
qed

lemma unmap_loop_spec:
  assumes "pt_state (unat root) s" "unat v mod 4096 = 0" "unat e = unat v + 4096 * c" "unat e \<le> 2 ^ 32"
  shows "\<exists>fs s'. unmap_loop root v e s = Some s' \<and> pt_state (unat root) s' \<and> takes (unat root) s fs s'
      \<and> ((\<forall>w. unat v \<le> unat w \<and> unat w < unat e \<longrightarrow> small_at (unat root) s w) \<longrightarrow> fs = [])
      \<and> (\<forall>w. small_at (unat root) s w \<longrightarrow> small_at (unat root) s' w)
      \<and> (\<forall>w. unat w < 2 ^ 32 \<longrightarrow> \<not> (unat v \<le> unat w \<and> unat w < unat e)
            \<longrightarrow> hw_walk (pt_mem s') (unat root) w = hw_walk (pt_mem s) (unat root) w)
      \<and> (\<forall>w. unat v \<le> unat w \<and> unat w < unat e \<longrightarrow>
            hw_walk (pt_mem s') (unat root) w = None
            \<or> \<not> small_at (unat root) s w \<and> avail (mm_pmm s') = {}
              \<and> hw_walk (pt_mem s') (unat root) w = hw_walk (pt_mem s) (unat root) w)"
  using assms
proof (induction c arbitrary: v s)
  case 0
  then have "unmap_loop root v e s = Some s" by (subst unmap_loop.simps) (simp add: word_less_nat_alt)
  then show ?case using 0 by (intro exI [of _ "[]"] exI [of _ s]) (auto simp: takes_def)
next
  case (Suc c)
  have v: "unat v < 2 ^ 32" "v < e" using Suc.prems by (auto simp: word_less_nat_alt)
  have st: "pmm_inv (mm_pmm s)" "pt_ok (pt_mem s) (avail (mm_pmm s)) (unat root)"
    using Suc.prems by (auto simp: pt_state_def)
  have fl: "fl_ok 0" by (simp add: fl_ok_def pte_big_def)
  obtain res fs s1 where run: "pt_entry_ptr_in root v 0 False ([], s) = Some (res, [], s1)"
      and g: "grows (unat root) s fs s1" and nofs: "small_at (unat root) s v \<longrightarrow> fs = []"
      and res: "case res of None \<Rightarrow> avail (mm_pmm s) = {} \<and> fs = [] \<and> \<not> tbl_live (pt_mem s) (unat root) (TPt (pidx 30 v) (pidx 21 v))
               | Some a \<Rightarrow> entry_at (unat root) v 0 s1 a"
    using pt_entry_spec [OF st v(1) fl, of False "[]"] by auto
  note g' = grows_state [OF g]
  have lv: "tbl_live (pt_mem s1) (unat root) t" if "tbl_live (pt_mem s) (unat root) t" for t
    using g that by (simp add: grows_def)
  have old: "hw_walk (pt_mem s1) (unat root) w = hw_walk (pt_mem s) (unat root) w" if "unat w < 2 ^ 32" for w
    by (rule grows_walk [OF g st(2) that])
  define s2 where "s2 = (case res of None \<Rightarrow> s1 | Some a \<Rightarrow> wr a 0 s1)"
  have ok1: "pt_ok (pt_mem s1) (avail (mm_pmm s1)) (unat root)" using g' by (simp add: pt_state_def)
  have leaf0: "pte_leaf 0 = None" "\<not> pte_present 0" by (simp_all add: pte_leaf_def pte_present_def)
  have S: "pt_state (unat root) s2" "takes (unat root) s fs s2"
      "\<And>w. small_at (unat root) s w \<Longrightarrow> small_at (unat root) s2 w"
      "\<And>w. unat w < 2 ^ 32 \<Longrightarrow> unat w div 4096 \<noteq> unat v div 4096 \<Longrightarrow>
             hw_walk (pt_mem s2) (unat root) w = hw_walk (pt_mem s) (unat root) w"
      "\<And>w. unat w < 2 ^ 32 \<Longrightarrow> unat w div 4096 = unat v div 4096 \<Longrightarrow>
             hw_walk (pt_mem s2) (unat root) w = None \<or> \<not> small_at (unat root) s w \<and> avail (mm_pmm s2) = {}
               \<and> hw_walk (pt_mem s2) (unat root) w = hw_walk (pt_mem s) (unat root) w"
  proof -
    consider (n) "res = None" | (a) a where "res = Some a" by (cases res) auto
    then have "pt_state (unat root) s2 \<and> takes (unat root) s fs s2
      \<and> (\<forall>w. small_at (unat root) s w \<longrightarrow> small_at (unat root) s2 w)
      \<and> (\<forall>w. unat w < 2 ^ 32 \<longrightarrow> unat w div 4096 \<noteq> unat v div 4096 \<longrightarrow>
             hw_walk (pt_mem s2) (unat root) w = hw_walk (pt_mem s) (unat root) w)
      \<and> (\<forall>w. unat w < 2 ^ 32 \<longrightarrow> unat w div 4096 = unat v div 4096 \<longrightarrow>
             hw_walk (pt_mem s2) (unat root) w = None \<or> \<not> small_at (unat root) s w \<and> avail (mm_pmm s2) = {}
               \<and> hw_walk (pt_mem s2) (unat root) w = hw_walk (pt_mem s) (unat root) w)"
    proof cases
      case n
      then have "s2 = s1" "avail (mm_pmm s1) = {}" "\<not> small_at (unat root) s v"
        using res g' by (simp_all add: s2_def takes_def small_at_def)
      then show ?thesis using g' old small_mono [OF _ lv] small_page [OF v(1)] by blast
    next
      case a
      then have at: "entry_at (unat root) v 0 s1 a" and s2: "s2 = wr a 0 s1" using res by (simp_all add: s2_def)
      note wx = write_entry [OF ok1 at v(1), of 0, folded s2]
      have "tbl_live (pt_mem s2) (unat root) = tbl_live (pt_mem s1) (unat root)" using wx(3) leaf0 by blast
      then have "small_at (unat root) s2 w" if "small_at (unat root) s w" for w
        using small_mono [OF that lv] by (simp only: small_at_def)
      moreover have "pt_state (unat root) s2" "takes (unat root) s fs s2"
        using g' wx(1) leaf0 takes_write [OF _ ok1 at, of s fs 0] by (simp_all add: pt_state_def s2)
      ultimately show ?thesis using wx(2) leaf0 old by simp
    qed
    then show "pt_state (unat root) s2" "takes (unat root) s fs s2"
      "\<And>w. small_at (unat root) s w \<Longrightarrow> small_at (unat root) s2 w"
      "\<And>w. unat w < 2 ^ 32 \<Longrightarrow> unat w div 4096 \<noteq> unat v div 4096 \<Longrightarrow>
             hw_walk (pt_mem s2) (unat root) w = hw_walk (pt_mem s) (unat root) w"
      "\<And>w. unat w < 2 ^ 32 \<Longrightarrow> unat w div 4096 = unat v div 4096 \<Longrightarrow>
             hw_walk (pt_mem s2) (unat root) w = None \<or> \<not> small_at (unat root) s w \<and> avail (mm_pmm s2) = {}
               \<and> hw_walk (pt_mem s2) (unat root) w = hw_walk (pt_mem s) (unat root) w"
      by blast+
  qed
  have vs: "unat (v + PAGE_SIZE) = unat v + 4096" using Suc.prems by (auto intro!: word_step)
  have "unat (v + PAGE_SIZE) mod 4096 = 0" "unat e = unat (v + PAGE_SIZE) + 4096 * c"
    using Suc.prems by (simp_all add: vs)
  from Suc.IH [OF S(1) this Suc.prems(4)]
  obtain gs s' where ih: "unmap_loop root (v + PAGE_SIZE) e s2 = Some s'" "pt_state (unat root) s'" "takes (unat root) s2 gs s'"
      and nogs: "(\<forall>w. unat v + 4096 \<le> unat w \<and> unat w < unat e \<longrightarrow> small_at (unat root) s2 w) \<longrightarrow> gs = []"
      and sm: "\<forall>w. small_at (unat root) s2 w \<longrightarrow> small_at (unat root) s' w"
      and ih': "\<And>w. unat w < 2 ^ 32 \<Longrightarrow> \<not> (unat v + 4096 \<le> unat w \<and> unat w < unat e)
            \<Longrightarrow> hw_walk (pt_mem s') (unat root) w = hw_walk (pt_mem s2) (unat root) w"
      "\<And>w. unat v + 4096 \<le> unat w \<Longrightarrow> unat w < unat e \<Longrightarrow>
            hw_walk (pt_mem s') (unat root) w = None
            \<or> \<not> small_at (unat root) s2 w \<and> avail (mm_pmm s') = {}
              \<and> hw_walk (pt_mem s') (unat root) w = hw_walk (pt_mem s2) (unat root) w"
    unfolding vs by blast
  have run': "unmap_loop root v e s = Some s'"
    using run v(2) ih(1) by (subst unmap_loop.simps) (simp add: s2_def)
  have empty: "avail (mm_pmm s') = {}" if "avail (mm_pmm s2) = {}" using ih(3) that by (simp add: takes_def)
  have far: "unat w div 4096 \<noteq> unat v div 4096" if "\<not> (unat v \<le> unat w \<and> unat w < unat v + 4096)" for w :: u64
  proof
    assume eq: "unat w div 4096 = unat v div 4096"
    obtain k where "unat v = 4096 * k" using Suc.prems(2) by (meson mod_0_imp_dvd dvdE)
    then show False using eq that by auto
  qed
  have out: "hw_walk (pt_mem s') (unat root) w = hw_walk (pt_mem s) (unat root) w"
    if "unat w < 2 ^ 32" "\<not> (unat v \<le> unat w \<and> unat w < unat e)" for w
  proof -
    have "unat v + 4096 \<le> unat e" using Suc.prems(3) by simp
    then have "\<not> (unat v \<le> unat w \<and> unat w < unat v + 4096)" "\<not> (unat v + 4096 \<le> unat w \<and> unat w < unat e)"
      using that(2) by auto
    then show ?thesis using S(4) [OF that(1) far] ih'(1) [OF that(1)] by simp
  qed
  have "hw_walk (pt_mem s') (unat root) w = None \<or> \<not> small_at (unat root) s w \<and> avail (mm_pmm s') = {}
          \<and> hw_walk (pt_mem s') (unat root) w = hw_walk (pt_mem s) (unat root) w"
    if w: "unat v \<le> unat w" "unat w < unat e" for w
  proof (cases "unat w < unat v + 4096")
    case True
    have w32: "unat w < 2 ^ 32" using w Suc.prems(4) by simp
    have "hw_walk (pt_mem s') (unat root) w = hw_walk (pt_mem s2) (unat root) w" using ih'(1) [OF w32] True by simp
    then show ?thesis using S(5) [OF w32 page_first [OF Suc.prems(2) w(1) True]] empty by auto
  next
    case False
    have w32: "unat w < 2 ^ 32" using w Suc.prems(4) by simp
    have "hw_walk (pt_mem s2) (unat root) w = hw_walk (pt_mem s) (unat root) w"
      using S(4) [OF w32 far] False by simp
    then show ?thesis using ih'(2) [of w] False w(2) S(3) by auto
  qed
  moreover have "fs @ gs = []" if "\<forall>w. unat v \<le> unat w \<and> unat w < unat e \<longrightarrow> small_at (unat root) s w"
    using that nofs nogs S(3) v(2) by (auto simp: word_less_nat_alt)
  moreover have "\<forall>w. small_at (unat root) s w \<longrightarrow> small_at (unat root) s' w" using sm S(3) by blast
  ultimately show ?case using run' ih(2) takes_trans [OF S(2) ih(3)] out by blast
qed

lemma page_mod: "x mod PAGE_SIZE = 0 \<longleftrightarrow> unat x mod 4096 = 0"
proof -
  have "unat (x mod PAGE_SIZE) = unat x mod 4096" by (simp add: unat_mod_distrib PAGE_SIZE_def)
  then show ?thesis by (metis unat_eq_zero)
qed

lemma identity_end: "unat IDENTITY_MAP_END = 2 ^ 32"
  by (simp add: IDENTITY_MAP_END_def)

lemma fl_ok_masked: "\<not> bit flags 7 \<Longrightarrow> fl_ok (flags AND PRESENT_MASK)"
  unfolding fl_ok_def by (auto simp: entry_bits intro!: bit_word_eqI)

lemma user_masked: "pte_user ((flags AND PRESENT_MASK) OR PAGE_PRESENT) \<longleftrightarrow> pte_user flags"
  by (auto simp: entry_bits)

lemma range_args:
  assumes "len mod PAGE_SIZE = 0" "len \<noteq> 0" "unat virt + unat len \<le> 2 ^ 32"
  obtains c where "unat len = 4096 * c" "0 < c" "unat (virt + len) = unat virt + 4096 * c"
    "checked_add virt len \<noteq> None" "\<not> virt + len > IDENTITY_MAP_END"
proof -
  obtain c where c: "unat len = 4096 * c" using assms(1) unfolding page_mod by (meson mod_0_imp_dvd dvdE)
  have "unat (virt + len) = unat virt + unat len" using assms(3) by (simp add: unat_word_ariths)
  moreover have "0 < c" using c assms(2) by (cases c) (auto simp: unat_eq_zero)
  ultimately show ?thesis using that [OF c] assms(3) c
    by (simp add: checked_add_def word_less_nat_alt identity_end)
qed

lemma map_range_in_spec:
  assumes "pt_state (unat root) s" "virt mod PAGE_SIZE = 0" "phys mod PAGE_SIZE = 0" "len mod PAGE_SIZE = 0"
      "len \<noteq> 0" "unat virt + unat len \<le> 2 ^ 32" "unat phys + unat len \<le> 2 ^ 52" "\<not> bit flags 7"
  shows "\<exists>n fs s'. map_range_in root virt phys len flags (fr, s) =
             Some (4096 * n = unat len, fr @ map (\<lambda>f. f * FRAME_SIZE) fs, s')
      \<and> pt_state (unat root) s' \<and> takes (unat root) s fs s' \<and> length fs \<le> n \<and> 4096 * n \<le> unat len
      \<and> (4096 * n = unat len \<or> avail (mm_pmm s') = {})
      \<and> (\<forall>w. unat w < 2 ^ 32 \<longrightarrow> hw_walk (pt_mem s') (unat root) w =
                mapped virt phys n flags (hw_walk (pt_mem s) (unat root)) w)
      \<and> (\<forall>w. unat w < 2 ^ 32 \<longrightarrow> hw_user (pt_mem s') (unat root) w =
                (if unat virt \<le> unat w \<and> unat w < unat virt + 4096 * n then pte_user flags
                 else hw_user (pt_mem s) (unat root) w))
      \<and> (\<forall>w. unat w < 2 ^ 32 \<longrightarrow> small_at (unat root) s w \<or> unat virt \<le> unat w \<and> unat w < unat virt + 4096 * n
            \<longrightarrow> small_at (unat root) s' w)"
proof -
  obtain c where c: "unat len = 4096 * c" "unat (virt + len) = unat virt + 4096 * c"
      "checked_add virt len \<noteq> None" "\<not> virt + len > IDENTITY_MAP_END"
    using range_args [OF assms(4,5,6)] by metis
  have al: "unat virt mod 4096 = 0" "unat phys mod 4096 = 0" using assms(2,3) by (simp_all add: page_mod)
  have ub: "unat (virt + len) \<le> 2 ^ 32" "unat phys + 4096 * c \<le> 2 ^ 52" using assms(6,7) c(1,2) by simp_all
  obtain n fs s' where m: "map_loop root virt phys (virt + len) flags (fr, s) =
        Some (n = c, fr @ map (\<lambda>f. f * FRAME_SIZE) fs, s')"
      "pt_state (unat root) s'" "takes (unat root) s fs s'" "length fs \<le> n" "n \<le> c" "n < c \<longrightarrow> avail (mm_pmm s') = {}"
      "\<forall>w. unat w < 2 ^ 32 \<longrightarrow> hw_walk (pt_mem s') (unat root) w = mapped virt phys n flags (hw_walk (pt_mem s) (unat root)) w"
      "\<forall>w. unat w < 2 ^ 32 \<longrightarrow> small_at (unat root) s w \<or> unat virt \<le> unat w \<and> unat w < unat virt + 4096 * n \<longrightarrow> small_at (unat root) s' w"
    using map_loop_spec [OF assms(1) al c(2) ub fl_ok_masked [OF assms(8)], of fr] by (elim exE conjE) (rule that)
  have "map_range_in root virt phys len flags (fr, s) = Some (4096 * n = unat len, fr @ map (\<lambda>f. f * FRAME_SIZE) fs, s')"
    using assms(2-5) c m(1) by (auto simp: map_range_in_def)
  moreover have "hw_user (pt_mem s') (unat root) w = (if unat virt \<le> unat w \<and> unat w < unat virt + 4096 * n
      then pte_user flags else hw_user (pt_mem s) (unat root) w)" if w: "unat w < 2 ^ 32" for w
    using hw_user_walk [OF _ w, of "pt_mem s'"] hw_user_walk [OF _ w, of "pt_mem s"] m(2,7) assms(1) w
    by (auto simp: pt_state_def mapped_def user_masked)
  ultimately show ?thesis using m(2-8) c(1) by (intro exI [of _ n] exI [of _ fs] exI [of _ s']) auto
qed

lemma unmap_range_in_spec:
  assumes "pt_state (unat root) s" "virt mod PAGE_SIZE = 0" "len mod PAGE_SIZE = 0"
      "len \<noteq> 0" "unat virt + unat len \<le> 2 ^ 32"
  shows "\<exists>fs s'. unmap_range_in root virt len s = Some (True, s') \<and> pt_state (unat root) s' \<and> takes (unat root) s fs s'
      \<and> ((\<forall>w. unat virt \<le> unat w \<and> unat w < unat virt + unat len \<longrightarrow> small_at (unat root) s w) \<longrightarrow> fs = [])
      \<and> (\<forall>w. small_at (unat root) s w \<longrightarrow> small_at (unat root) s' w)
      \<and> (\<forall>w. unat w < 2 ^ 32 \<longrightarrow> \<not> (unat virt \<le> unat w \<and> unat w < unat virt + unat len)
            \<longrightarrow> hw_walk (pt_mem s') (unat root) w = hw_walk (pt_mem s) (unat root) w)
      \<and> (\<forall>w. unat virt \<le> unat w \<and> unat w < unat virt + unat len \<longrightarrow>
            hw_walk (pt_mem s') (unat root) w = None
            \<or> \<not> small_at (unat root) s w \<and> avail (mm_pmm s') = {}
              \<and> hw_walk (pt_mem s') (unat root) w = hw_walk (pt_mem s) (unat root) w)"
proof -
  obtain c where c: "unat len = 4096 * c" "unat (virt + len) = unat virt + 4096 * c"
      "checked_add virt len \<noteq> None" "\<not> virt + len > IDENTITY_MAP_END"
    using range_args [OF assms(3-5)] by metis
  have v: "unat virt mod 4096 = 0" using assms(2) by (simp add: page_mod)
  have e: "unat (virt + len) \<le> 2 ^ 32" using assms(5) c by simp
  have ee: "unat (virt + len) = unat virt + unat len" using c by simp
  note U = unmap_loop_spec [OF assms(1) v c(2) e, unfolded ee]
  then obtain fs s' where u: "unmap_loop root virt (virt + len) s = Some s'" "pt_state (unat root) s'" "takes (unat root) s fs s'"
      "(\<forall>w. unat virt \<le> unat w \<and> unat w < unat virt + unat len \<longrightarrow> small_at (unat root) s w) \<longrightarrow> fs = []"
      "\<forall>w. small_at (unat root) s w \<longrightarrow> small_at (unat root) s' w"
      "\<forall>w. unat w < 2 ^ 32 \<longrightarrow> \<not> (unat virt \<le> unat w \<and> unat w < unat virt + unat len)
            \<longrightarrow> hw_walk (pt_mem s') (unat root) w = hw_walk (pt_mem s) (unat root) w"
      "\<forall>w. unat virt \<le> unat w \<and> unat w < unat virt + unat len \<longrightarrow>
            hw_walk (pt_mem s') (unat root) w = None
            \<or> \<not> small_at (unat root) s w \<and> avail (mm_pmm s') = {}
              \<and> hw_walk (pt_mem s') (unat root) w = hw_walk (pt_mem s) (unat root) w"
    by blast
  have "unmap_range_in root virt len s = Some (True, s')"
    using assms(2-4) c u(1) by (auto simp: unmap_range_in_def)
  then show ?thesis using u(2-7) by blast
qed

lemma map_page_spec:
  assumes "pt_state (unat root) s" "virt < IDENTITY_MAP_END" "phys < IDENTITY_MAP_END"
      "virt mod PAGE_SIZE = 0" "phys mod PAGE_SIZE = 0" "\<not> bit flags 7"
  shows "\<exists>b fs s'. map_page root virt phys flags s = Some (b, s') \<and> pt_state (unat root) s' \<and> takes (unat root) s fs s'
      \<and> (b \<or> avail (mm_pmm s') = {})
      \<and> (\<forall>w. unat w < 2 ^ 32 \<longrightarrow> hw_walk (pt_mem s') (unat root) w =
            (if b \<and> unat w div 4096 = unat virt div 4096 then Some (phys, (flags AND PRESENT_MASK) OR PAGE_PRESENT)
             else hw_walk (pt_mem s) (unat root) w))"
proof -
  have v: "unat virt < 2 ^ 32" and p: "unat phys < 2 ^ 52" "unat phys mod 4096 = 0"
    using assms(2,3,5) by (auto simp: word_less_nat_alt identity_end page_mod)
  have st: "pmm_inv (mm_pmm s)" "pt_ok (pt_mem s) (avail (mm_pmm s)) (unat root)"
    using assms(1) by (auto simp: pt_state_def)
  obtain res fs s1 where run: "pt_entry_ptr_in root virt (flags AND PRESENT_MASK) False ([], s) = Some (res, [], s1)"
      and g: "grows (unat root) s fs s1"
      and res: "case res of None \<Rightarrow> avail (mm_pmm s) = {} \<and> fs = [] \<and> \<not> tbl_live (pt_mem s) (unat root) (TPt (pidx 30 virt) (pidx 21 virt))
               | Some a \<Rightarrow> entry_at (unat root) virt (flags AND PRESENT_MASK) s1 a"
    using pt_entry_spec [OF st v fl_ok_masked [OF assms(6)], of False "[]"] by auto
  note g' = grows_state [OF g]
  note old = grows_walk [OF g st(2)]
  have gd: "\<not> virt \<ge> IDENTITY_MAP_END" "\<not> phys \<ge> IDENTITY_MAP_END" using assms by auto
  show ?thesis
  proof (cases res)
    case None
    then have "map_page root virt phys flags s = Some (False, s1)" "avail (mm_pmm s1) = {}"
      using run gd assms(4,5) res g' by (simp_all add: map_page_def takes_def)
    then show ?thesis using g' old by (intro exI [of _ False] exI [of _ fs] exI [of _ s1]) simp
  next
    case (Some a)
    let ?x = "phys OR (flags AND PRESENT_MASK) OR PAGE_PRESENT"
    have lf: "pte_leaf ?x = Some (phys, (flags AND PRESENT_MASK) OR PAGE_PRESENT)"
      by (rule leaf_page [OF p(2,1) fl_ok_masked [OF assms(6)]])
    then have "?x AND PRESENT_MASK = (flags AND PRESENT_MASK) OR PAGE_PRESENT" by (simp add: pte_leaf_def split: if_splits)
    then have ux: "pte_user ?x \<Longrightarrow> pte_user (flags AND PRESENT_MASK)"
      using bit_and_iff [of ?x PRESENT_MASK 2] by (simp add: entry_bits)
    have at: "entry_at (unat root) virt (flags AND PRESENT_MASK) s1 a" using res Some by simp
    have ok1: "pt_ok (pt_mem s1) (avail (mm_pmm s1)) (unat root)" using g' by (simp add: pt_state_def)
    note wx = write_entry [OF ok1 at v, of ?x]
    have "map_page root virt phys flags s = Some (True, wr a ?x s1)"
      using run gd assms(4,5) Some by (simp add: map_page_def)
    moreover have "pt_state (unat root) (wr a ?x s1)" "takes (unat root) s fs (wr a ?x s1)"
      using g' wx(1) ux takes_write [OF _ ok1 at, of s fs ?x] by (auto simp: pt_state_def)
    ultimately show ?thesis using wx(2) ux lf old
      by (intro exI [of _ True] exI [of _ fs] exI [of _ "wr a ?x s1"]) auto
  qed
qed

lemma map_range_in_succeeds:
  assumes "pt_state (unat root) s" "virt mod PAGE_SIZE = 0" "phys mod PAGE_SIZE = 0" "len mod PAGE_SIZE = 0"
      "len \<noteq> 0" "unat virt + unat len \<le> 2 ^ 32" "unat phys + unat len \<le> 2 ^ 52" "\<not> bit flags 7"
      "unat len div 4096 \<le> card (avail (mm_pmm s))"
  shows "\<exists>fr' s'. map_range_in root virt phys len flags (fr, s) = Some (True, fr', s')"
proof -
  obtain n fs s' where m: "map_range_in root virt phys len flags (fr, s) =
             Some (4096 * n = unat len, fr @ map (\<lambda>f. f * FRAME_SIZE) fs, s')"
      "takes (unat root) s fs s'" "length fs \<le> n" "4096 * n \<le> unat len" "4096 * n = unat len \<or> avail (mm_pmm s') = {}"
    using map_range_in_spec [OF assms(1-8), of fr] by (elim exE conjE) (rule that)
  have "4096 * n = unat len"
  proof (rule ccontr)
    assume ne: "4096 * n \<noteq> unat len"
    then have "avail (mm_pmm s) = set fs" using m(2,5) by (auto simp: takes_def)
    then have "card (avail (mm_pmm s)) \<le> n" using m(3) card_length [of fs] by simp
    moreover have "n < unat len div 4096" using ne m(4) assms(4) by (auto simp: page_mod)
    ultimately show False using assms(9) by simp
  qed
  then show ?thesis using m(1) by simp
qed

section \<open>The boot map as an instance\<close>

text \<open>A root, a pointer table and four directories of 2 MiB entries that map the first 4 GiB to
  themselves, as the boot stub builds them, in the frames 1 to 6; the frames from 8 on are free.\<close>

definition id_map :: "usize \<Rightarrow> u64" where
  "id_map a = (if a = 4096 then 0x2003
     else if 8192 \<le> a \<and> a < 8224 then 0x3003 + of_nat ((a - 8192) div 8) * 4096
     else if 12288 \<le> a \<and> a < 28672 then push_bit 21 (of_nat ((a - 12288) div 8)) OR 0x83
     else 0)"

definition id_mmu :: mmu where
  "id_mmu = \<lparr>pt_mem = id_map, mm_pmm = \<lparr>bitmap = 0xFF # replicate 8191 0, last_usable_frame = 65535\<rparr>\<rparr>"

lemma id_E4: "E4 id_map 4096 = 0x2003"
  by (simp add: E4_def ent_def id_map_def)

lemma id_E3: "i < 4 \<Longrightarrow> E3 id_map 4096 i = 0x3003 + of_nat i * 4096"
  unfolding E3_def id_E4 by (simp add: table_base_def ADDR_MASK_def ent_def id_map_def)

lemma id_E3_base: "i < 4 \<Longrightarrow> table_base (0x3003 + of_nat i * 4096) = 12288 + 4096 * i"
  by (cases "i = 0"; cases "i = 1"; cases "i = 2"; cases "i = 3") (auto simp: table_base_def ADDR_MASK_def)

lemma id_E2: "i < 4 \<Longrightarrow> j < 512 \<Longrightarrow> E2 id_map 4096 i j = push_bit 21 (of_nat (512 * i + j)) OR 0x83"
proof -
  assume a: "i < 4" "j < 512"
  then have "(4096 * i + 8 * j) div 8 = 512 * i + j" by presburger
  with a show ?thesis
    unfolding E2_def id_E3 [OF a(1)] id_E3_base [OF a(1)] by (simp add: ent_def id_map_def)
qed

lemma id_E2_bits: "pte_present (push_bit 21 x OR 0x83)" "pte_big (push_bit 21 x OR 0x83)" "\<not> pte_user (push_bit 21 x OR 0x83)"
  by (simp_all add: entry_bits bit_push_bit_iff bit_numeral_rec)

lemma id_live: "tbl_live id_map 4096 t \<longleftrightarrow> t = TRoot \<or> t = TPdpt \<or> (\<exists>i < 4. t = TPd i)"
  by (cases t) (auto simp: id_E2 id_E2_bits)

lemma id_locs:
  "tbl_loc id_map 4096 TRoot = 4096" "tbl_loc id_map 4096 TPdpt = 8192"
  "i < 4 \<Longrightarrow> tbl_loc id_map 4096 (TPd i) = 12288 + 4096 * i"
  by (simp_all add: id_E4 id_E3 id_E3_base) (simp add: table_base_def ADDR_MASK_def)

lemma id_tbl_frames: "tbl_frames id_map 4096 \<subseteq> {1..<7}"
  unfolding tbl_frames_def id_live using id_locs by (auto simp del: tbl_loc.simps)

lemma id_no_user:
  "i < 4 \<Longrightarrow> j < 512 \<Longrightarrow> walk_at id_map 4096 i j k = Some (p, fl) \<Longrightarrow> \<not> pte_user fl"
  using id_E2_bits by (auto simp: walk_at_def id_E2 big_leaf_def entry_bits)

lemma id_state: "pt_state 4096 id_mmu"
proof -
  let ?p = "\<lparr>bitmap = 0xFF # replicate 8191 0, last_usable_frame = 65535\<rparr> :: pmm"
  note locs = id_locs
  have used: "f \<notin> avail ?p" if "f < 8" for f
  proof -
    have "(0xFF :: u8) = mask 8" by (simp add: mask_eq_exp_minus_1)
    then have "bit (0xFF :: u8) f" using that by (simp only: bit_mask_iff) simp
    then show ?thesis using that by (simp add: avail_def frame_used_def)
  qed
  have "inj_on (tbl_loc id_map 4096) {t. tbl_live id_map 4096 t}"
    unfolding inj_on_def mem_Collect_eq id_live using locs by (auto simp del: tbl_loc.simps)
  moreover have "tbl_loc id_map 4096 t div 4096 \<notin> avail ?p" if "tbl_live id_map 4096 t" for t
  proof -
    have "tbl_loc id_map 4096 t div 4096 < 8" using that locs unfolding id_live by (auto simp del: tbl_loc.simps)
    then show ?thesis by (rule used)
  qed
  moreover have "pte_present (0x3003 + of_nat i * 4096) \<and> \<not> pte_big (0x3003 + of_nat i * 4096)" if "i < 4" for i :: nat
  proof -
    have "i = 0 \<or> i = 1 \<or> i = 2 \<or> i = 3" using that by arith
    then show ?thesis by (elim disjE) (simp_all add: entry_bits)
  qed
  moreover note id_no_user
  ultimately have "pt_ok id_map (avail ?p) 4096"
    unfolding pt_ok_def by (auto simp: id_E4 id_E3 entry_bits)
  moreover have "pmm_inv ?p" by (simp add: pmm_inv_def pmm_consts)
  ultimately show ?thesis by (simp add: pt_state_def id_mmu_def)
qed

section \<open>Properties\<close>

text \<open>C8: mapping a range. On tables in good order \<open>map_range_in\<close> always returns; it maps the first
  \<open>n\<close> pages of the range, all of them when it returns \<open>true\<close>, and stops early only because no frame is
  left. After it the processor translates each of these pages to its frame with the given flags, every
  other address below 4 GiB exactly as before, the tables are in good order again, and the frames taken
  for tables are exactly those appended to the caller's list. It does map the whole range when as many
  frames are free as the range has pages.\<close>
theorem map_range_in_correct:
  assumes "pt_state (unat root) s" "virt mod PAGE_SIZE = 0" "phys mod PAGE_SIZE = 0" "len mod PAGE_SIZE = 0"
      "len \<noteq> 0" "unat virt + unat len \<le> 2 ^ 32" "unat phys + unat len \<le> 2 ^ 52" "\<not> bit flags 7"
  shows "\<exists>n fs s'. map_range_in root virt phys len flags (fr, s) =
             Some (4096 * n = unat len, fr @ map (\<lambda>f. f * FRAME_SIZE) fs, s')
      \<and> pt_state (unat root) s' \<and> takes (unat root) s fs s' \<and> length fs \<le> n \<and> 4096 * n \<le> unat len
      \<and> (4096 * n = unat len \<or> avail (mm_pmm s') = {})
      \<and> (\<forall>w. unat w < 2 ^ 32 \<longrightarrow> hw_walk (pt_mem s') (unat root) w =
                mapped virt phys n flags (hw_walk (pt_mem s) (unat root)) w)
      \<and> (unat len div 4096 \<le> card (avail (mm_pmm s)) \<longrightarrow> 4096 * n = unat len)"
proof -
  obtain n fs s' where m: "map_range_in root virt phys len flags (fr, s) =
             Some (4096 * n = unat len, fr @ map (\<lambda>f. f * FRAME_SIZE) fs, s')"
      "pt_state (unat root) s'" "takes (unat root) s fs s'" "length fs \<le> n" "4096 * n \<le> unat len"
      "4096 * n = unat len \<or> avail (mm_pmm s') = {}"
      "\<forall>w. unat w < 2 ^ 32 \<longrightarrow> hw_walk (pt_mem s') (unat root) w =
                mapped virt phys n flags (hw_walk (pt_mem s) (unat root)) w"
    using map_range_in_spec [OF assms, of fr] by (elim exE conjE) (rule that)
  have "unat len div 4096 \<le> card (avail (mm_pmm s)) \<longrightarrow> 4096 * n = unat len"
    using map_range_in_succeeds [OF assms, of fr] m(1) by auto
  then show ?thesis using m by (intro exI [of _ n] exI [of _ fs] exI [of _ s']) simp
qed

theorem map_range_in_correct_witness:
  "\<exists>b fr s'. map_range_in 4096 0x40000000 0x800000 0x2000 7 ([], id_mmu) = Some (b, fr, s')
     \<and> hw_walk (pt_mem s') 4096 0xC0000123 = hw_walk (pt_mem id_mmu) 4096 0xC0000123"
proof -
  have "pt_state (unat (4096 :: u64)) id_mmu" using id_state by simp
  from map_range_in_correct [OF this, of "0x40000000" "0x800000" "0x2000" 7 "[]"] show ?thesis
    by (auto simp: PAGE_SIZE_def mapped_def)
qed

text \<open>C9: ring 3 gains access to nothing else. Although \<open>map_range_in\<close> sets the user bit on the upper
  levels it passes, after it ring 3 can reach an address outside the mapped pages only if it could
  before, and the mapped pages exactly when the flags carry the user bit.\<close>
theorem map_range_in_user_isolation:
  assumes "pt_state (unat root) s" "virt mod PAGE_SIZE = 0" "phys mod PAGE_SIZE = 0" "len mod PAGE_SIZE = 0"
      "len \<noteq> 0" "unat virt + unat len \<le> 2 ^ 32" "unat phys + unat len \<le> 2 ^ 52" "\<not> bit flags 7"
      "map_range_in root virt phys len flags (fr, s) = Some (True, fr', s')" "unat w < 2 ^ 32"
  shows "hw_user (pt_mem s') (unat root) w \<longleftrightarrow>
           (if unat virt \<le> unat w \<and> unat w < unat virt + unat len then pte_user flags
            else hw_user (pt_mem s) (unat root) w)"
  using map_range_in_spec [OF assms(1-8), of fr] assms(9,10) by (elim exE conjE) simp

text \<open>unmapping what was mapped. After a successful \<open>map_range_in\<close>, \<open>unmap_range_in\<close> of the same
  range returns \<open>true\<close> and leaves every page of the range without a translation, whatever frames are
  left, and every other address translated as before the two calls.\<close>
theorem map_then_unmap:
  assumes "pt_state (unat root) s" "virt mod PAGE_SIZE = 0" "phys mod PAGE_SIZE = 0" "len mod PAGE_SIZE = 0"
      "len \<noteq> 0" "unat virt + unat len \<le> 2 ^ 32" "unat phys + unat len \<le> 2 ^ 52" "\<not> bit flags 7"
      "map_range_in root virt phys len flags (fr, s) = Some (True, fr', s1)"
  shows "\<exists>s2. unmap_range_in root virt len s1 = Some (True, s2) \<and> pt_state (unat root) s2
      \<and> (\<forall>w. unat w < 2 ^ 32 \<longrightarrow> hw_walk (pt_mem s2) (unat root) w =
            (if unat virt \<le> unat w \<and> unat w < unat virt + unat len then None else hw_walk (pt_mem s) (unat root) w))"
proof -
  obtain n where m: "4096 * n = unat len" "pt_state (unat root) s1"
      "\<And>w. unat w < 2 ^ 32 \<Longrightarrow> hw_walk (pt_mem s1) (unat root) w = mapped virt phys n flags (hw_walk (pt_mem s) (unat root)) w"
      "\<And>w. unat w < 2 ^ 32 \<Longrightarrow> unat virt \<le> unat w \<and> unat w < unat virt + 4096 * n \<Longrightarrow> small_at (unat root) s1 w"
    using map_range_in_spec [OF assms(1-8), of fr] assms(9) by (elim exE conjE) auto
  obtain s2 where u: "unmap_range_in root virt len s1 = Some (True, s2)" "pt_state (unat root) s2"
      "\<And>w. unat w < 2 ^ 32 \<Longrightarrow> \<not> (unat virt \<le> unat w \<and> unat w < unat virt + unat len)
            \<Longrightarrow> hw_walk (pt_mem s2) (unat root) w = hw_walk (pt_mem s1) (unat root) w"
      "\<And>w. unat virt \<le> unat w \<Longrightarrow> unat w < unat virt + unat len \<Longrightarrow>
            hw_walk (pt_mem s2) (unat root) w = None \<or> \<not> small_at (unat root) s1 w"
    using unmap_range_in_spec [OF m(2) assms(2,4,5,6)] by blast
  have "hw_walk (pt_mem s2) (unat root) w =
      (if unat virt \<le> unat w \<and> unat w < unat virt + unat len then None else hw_walk (pt_mem s) (unat root) w)"
    if "unat w < 2 ^ 32" for w
    using u(3,4) [of w] m(3,4) [of w] that m(1) by (auto simp: mapped_def)
  then show ?thesis using u(1,2) by blast
qed

text \<open>The range of the witnesses: two pages at 1 GiB, read and write for ring 3.\<close>

lemma id_maps: "\<exists>fr s'. map_range_in 4096 0x40000000 0x800000 0x2000 7 ([], id_mmu) = Some (True, fr, s')"
proof -
  have st: "pt_state (unat (4096 :: u64)) id_mmu" using id_state by simp
  have "{8, 9} \<subseteq> avail (mm_pmm id_mmu)"
    by (auto simp: id_mmu_def avail_def frame_used_def)
  moreover have "finite (avail (mm_pmm id_mmu))" by (simp add: avail_def)
  ultimately have "card {8, 9 :: nat} \<le> card (avail (mm_pmm id_mmu))" by (metis card_mono)
  then show ?thesis
    by (intro map_range_in_succeeds [OF st]) (simp_all add: PAGE_SIZE_def)
qed

theorem map_range_in_user_isolation_witness:
  "\<exists>fr s'. map_range_in 4096 0x40000000 0x800000 0x2000 7 ([], id_mmu) = Some (True, fr, s')
     \<and> hw_user (pt_mem s') 4096 0x40001000 \<and> \<not> hw_user (pt_mem s') 4096 0x40002000"
proof -
  have st: "pt_state (unat (4096 :: u64)) id_mmu" using id_state by simp
  obtain fr s' where m: "map_range_in 4096 0x40000000 0x800000 0x2000 7 ([], id_mmu) = Some (True, fr, s')"
    using id_maps by blast
  have u: "pte_user 7" by (simp add: pte_user_def bit_numeral_rec)
  have f: "\<not> bit (7 :: u64) 7" by simp
  have nu: "\<not> hw_user (pt_mem id_mmu) 4096 0x40002000"
    by (simp add: hw_user_def Let_def pidx_nat id_mmu_def ent_def id_map_def pte_user_def)
  have "hw_user (pt_mem s') (unat (4096 :: u64)) w \<longleftrightarrow>
           (if 0x40000000 \<le> unat w \<and> unat w < 0x40000000 + 0x2000 then pte_user 7 else hw_user (pt_mem id_mmu) 4096 w)"
    if "unat w < 2 ^ 32" for w
    using map_range_in_user_isolation [OF st _ _ _ _ _ _ f m that] by (simp add: PAGE_SIZE_def)
  from this [of "0x40001000"] this [of "0x40002000"] show ?thesis using m u nu by auto
qed

theorem map_then_unmap_witness:
  "\<exists>fr s1 s2. map_range_in 4096 0x40000000 0x800000 0x2000 7 ([], id_mmu) = Some (True, fr, s1)
     \<and> unmap_range_in 4096 0x40000000 0x2000 s1 = Some (True, s2) \<and> hw_walk (pt_mem s2) 4096 0x40001000 = None"
proof -
  have st: "pt_state (unat (4096 :: u64)) id_mmu" using id_state by simp
  obtain fr s1 where m: "map_range_in 4096 0x40000000 0x800000 0x2000 7 ([], id_mmu) = Some (True, fr, s1)"
    using id_maps by blast
  have f: "\<not> bit (7 :: u64) 7" by simp
  obtain s2 where "unmap_range_in 4096 0x40000000 0x2000 s1 = Some (True, s2)"
      "\<And>w :: u64. unat w < 2 ^ 32 \<Longrightarrow> 0x40000000 \<le> unat w \<Longrightarrow> unat w < 0x40000000 + 0x2000 \<Longrightarrow> hw_walk (pt_mem s2) 4096 w = None"
    using map_then_unmap [OF st _ _ _ _ _ _ f m] by (auto simp: PAGE_SIZE_def)
  with m show ?thesis by force
qed

end
