(* ===== verification/Slots.thy ===== *)
theory Slots
  imports Machine
begin

text \<open>
  Tables of reusable slots. Several parts of the kernel keep a \<open>Vec<Option<T>>\<close> whose indices are
  handed out as ids (shared memory objects, socket endpoints, file handles, file descriptors): a new
  object goes into the first empty slot, or at the end when there is none. \<open>slot\<close> is
  \<open>table.get(id).and_then(|s| s.as_ref())\<close>, \<open>claim_slot\<close> the allocation loop, and the locale
  \<open>slot_allocator\<close> the contract the clients of a table rely on.
\<close>

definition slot :: "'a option list \<Rightarrow> nat \<Rightarrow> 'a option" where
  "slot t i = (if i < length t then t ! i else None)"

fun claim_slot :: "'a \<Rightarrow> 'a option list \<Rightarrow> nat \<times> 'a option list" where
  "claim_slot x [] = (0, [Some x])"
| "claim_slot x (None # t) = (0, Some x # t)"
| "claim_slot x (Some y # t) = (let (i, t') = claim_slot x t in (Suc i, Some y # t'))"

lemma slot_Nil [simp]: "slot [] i = None"
  by (simp add: slot_def)

lemma slot_Cons [simp]: "slot (x # t) 0 = x" "slot (x # t) (Suc i) = slot t i"
  by (simp_all add: slot_def)

lemma slot_update [simp]: "slot (t[i := v]) j = (if j = i \<and> i < length t then v else slot t j)"
  by (auto simp: slot_def)

lemma slot_bound: "slot t i = Some x \<Longrightarrow> i < length t"
  by (simp add: slot_def split: if_splits)

lemma slot_nth: "slot t i = Some x \<Longrightarrow> t ! i = Some x"
  by (simp add: slot_def split: if_splits)

lemma claim_slot_first:
  assumes "claim_slot x t = (i, t')"
  shows "slot t i = None" "i \<le> length t" "\<forall>j < i. slot t j \<noteq> None"
    "slot t' = (slot t)(i \<mapsto> x)"
proof -
  have "slot t i = None \<and> i \<le> length t \<and> (\<forall>j < i. slot t j \<noteq> None) \<and> (\<forall>k. slot t' k = ((slot t)(i \<mapsto> x)) k)"
    using assms
  proof (induction x t arbitrary: i t' rule: claim_slot.induct)
    case (1 x)
    then show ?case by (auto simp: slot_def)
  next
    case (2 x t)
    then have "i = 0" "t' = Some x # t" by auto
    then show ?case by (auto simp: slot_def)
  next
    case (3 x y t)
    obtain j u where ju: "claim_slot x t = (j, u)" by (cases "claim_slot x t")
    from "3.prems" ju have it: "i = Suc j" "t' = Some y # u" by auto
    from "3.IH" [OF ju] have IH: "slot t j = None" "j \<le> length t" "\<forall>k < j. slot t k \<noteq> None"
        "\<And>k. slot u k = ((slot t)(j \<mapsto> x)) k"
      by auto
    have "slot (Some y # t) k \<noteq> None" if "k < Suc j" for k using that IH(3) by (cases k) auto
    moreover have "slot (Some y # u) k = ((slot (Some y # t))(Suc j \<mapsto> x)) k" for k
      using IH(4) by (cases k) auto
    ultimately show ?case using IH(1,2) it by simp
  qed
  then show "slot t i = None" "i \<le> length t" "\<forall>j < i. slot t j \<noteq> None" "slot t' = (slot t)(i \<mapsto> x)"
    by auto
qed

section \<open>The contract of a slot table\<close>

locale slot_allocator =
  fixes fetch :: "'t \<Rightarrow> nat \<Rightarrow> 'a option"
    and claim :: "'a \<Rightarrow> 't \<Rightarrow> nat \<times> 't"
  assumes claim_free: "claim x t = (i, t') \<Longrightarrow> fetch t i = None"
    and claim_fetch: "claim x t = (i, t') \<Longrightarrow> fetch t' = (fetch t)(i \<mapsto> x)"
begin

lemma claim_new: "claim x t = (i, t') \<Longrightarrow> fetch t' i = Some x"
  by (simp add: claim_fetch)

lemma claim_keeps: "claim x t = (i, t') \<Longrightarrow> fetch t j = Some y \<Longrightarrow> fetch t' j = Some y"
  using claim_free [of x t i t'] claim_fetch [of x t i t'] by auto

lemma claim_twice_distinct:
  "claim x t = (i, t') \<Longrightarrow> claim y t' = (j, t'') \<Longrightarrow> i \<noteq> j \<and> fetch t'' i = Some x"
  using claim_new [of x t i t'] claim_free [of y t' j t''] claim_keeps [of y t' j t'' i x] by auto

lemma claim_range: "claim x t = (i, t') \<Longrightarrow> ran (fetch t') = insert x (ran (fetch t))"
  by (simp add: claim_fetch claim_free ran_map_upd)

end

interpretation slots: slot_allocator slot claim_slot
  by unfold_locales (auto dest: claim_slot_first)

end
