(* ===== verification/Shm.thy ===== *)
theory Shm
  imports Slots Pmm
begin

text \<open>
  \<open>src/src/shm.rs\<close>: anonymous shared memory objects, reference counted across the file descriptors
  of all processes, each backed by one contiguous run of frames of the physical memory manager. The
  state is the object table, the frame allocator the operations call and the physical memory they
  clear and copy. Physical addresses of frames are below \<open>2 ^ 28\<close>, so their sums are exact.

  The proofs use the frame allocator only through the contract \<open>frame_source\<close> (its interpretation
  \<open>frames\<close>) and the table only through \<open>slot_allocator\<close>.
\<close>

section \<open>State\<close>

record shared_mem =
  sm_phys :: usize
  sm_pages :: usize
  sm_size :: usize
  sm_refcount :: usize

record shm =
  sh_table :: "shared_mem option list"
  sh_pmm :: pmm
  sh_mem :: "usize \<Rightarrow> u8"

text \<open>\<open>ptr::write_bytes\<close> and \<open>ptr::copy_nonoverlapping\<close> on physical memory.\<close>

definition write_bytes :: "usize \<Rightarrow> u8 \<Rightarrow> usize \<Rightarrow> (usize \<Rightarrow> u8) \<Rightarrow> usize \<Rightarrow> u8" where
  "write_bytes dst v n m = (\<lambda>x. if dst \<le> x \<and> x < dst + n then v else m x)"

definition copy_nonoverlapping :: "usize \<Rightarrow> usize \<Rightarrow> usize \<Rightarrow> (usize \<Rightarrow> u8) \<Rightarrow> usize \<Rightarrow> u8" where
  "copy_nonoverlapping src dst n m = (\<lambda>x. if dst \<le> x \<and> x < dst + n then m (src + (x - dst)) else m x)"

lemma copy_nothing [simp]: "copy_nonoverlapping src dst 0 m = m"
  by (rule ext) (auto simp: copy_nonoverlapping_def)

section \<open>Operations\<close>

definition shm_create :: "shm \<Rightarrow> usize \<times> shm" where
  "shm_create s =
     (let (i, t) = claim_slot \<lparr>sm_phys = 0, sm_pages = 0, sm_size = 0, sm_refcount = 1\<rparr> (sh_table s)
      in (i, s\<lparr>sh_table := t\<rparr>))"

text \<open>The loop that returns an object's frames.\<close>

definition free_backing :: "shared_mem \<Rightarrow> pmm \<Rightarrow> pmm exec" where
  "free_backing obj p = for_each frame_free (map (\<lambda>i. sm_phys obj + i * FRAME_SIZE) [0..<sm_pages obj]) p"

definition shm_truncate :: "usize \<Rightarrow> usize \<Rightarrow> shm \<Rightarrow> (bool \<times> shm) exec" where
  "shm_truncate oid new_size s =
     (case slot (sh_table s) oid of
        None \<Rightarrow> Some (False, s)
      | Some obj \<Rightarrow>
          if new_size \<le> sm_size obj then
            Some (True, s\<lparr>sh_table := (sh_table s)[oid := Some (obj\<lparr>sm_size := new_size\<rparr>)]\<rparr>)
          else
            let needed_pages = max (div_ceil new_size FRAME_SIZE) 1
            in if needed_pages \<le> sm_pages obj then
                 Some (True, s\<lparr>sh_table := (sh_table s)[oid := Some (obj\<lparr>sm_size := new_size\<rparr>)]\<rparr>)
               else do {
                 (r, p1) \<leftarrow> alloc_contiguous needed_pages (sh_pmm s);
                 case r of
                   None \<Rightarrow> Some (False, s\<lparr>sh_pmm := p1\<rparr>)
                 | Some new_phys \<Rightarrow> do {
                     let m1 = write_bytes new_phys 0 (needed_pages * FRAME_SIZE) (sh_mem s);
                     (m2, p2) \<leftarrow> (if sm_pages obj > 0 then do {
                          p2 \<leftarrow> free_backing obj p1;
                          Some (copy_nonoverlapping (sm_phys obj) new_phys (sm_pages obj * FRAME_SIZE) m1, p2) }
                        else Some (m1, p1));
                     Some (True, s\<lparr>sh_table := (sh_table s)[oid := Some (obj\<lparr>sm_phys := new_phys,
                                      sm_pages := needed_pages, sm_size := new_size\<rparr>)],
                                   sh_pmm := p2, sh_mem := m2\<rparr>) } })"

definition size_of :: "usize \<Rightarrow> shm \<Rightarrow> usize option" where
  "size_of oid s = map_option sm_size (slot (sh_table s) oid)"

definition phys_of :: "usize \<Rightarrow> shm \<Rightarrow> usize option" where
  "phys_of oid s = map_option sm_phys (slot (sh_table s) oid)"

definition pages_of :: "usize \<Rightarrow> shm \<Rightarrow> usize option" where
  "pages_of oid s = map_option sm_pages (slot (sh_table s) oid)"

definition shm_dup :: "usize \<Rightarrow> shm \<Rightarrow> shm" where
  "shm_dup oid s =
     (case slot (sh_table s) oid of
        None \<Rightarrow> s
      | Some obj \<Rightarrow> s\<lparr>sh_table := (sh_table s)[oid := Some (obj\<lparr>sm_refcount := wadd (sm_refcount obj) 1\<rparr>)]\<rparr>)"

definition shm_close :: "usize \<Rightarrow> shm \<Rightarrow> shm exec" where
  "shm_close oid s =
     (case slot (sh_table s) oid of
        None \<Rightarrow> Some s
      | Some obj \<Rightarrow>
          let obj' = obj\<lparr>sm_refcount := wsub (sm_refcount obj) 1\<rparr>
          in if sm_refcount obj' = 0 then do {
               p \<leftarrow> free_backing obj' (sh_pmm s);
               Some (s\<lparr>sh_table := (sh_table s)[oid := None], sh_pmm := p\<rparr>) }
             else Some (s\<lparr>sh_table := (sh_table s)[oid := Some obj']\<rparr>))"

section \<open>Invariant\<close>

definition backing :: "shared_mem \<Rightarrow> nat set" where
  "backing obj = {sm_phys obj div FRAME_SIZE ..< sm_phys obj div FRAME_SIZE + sm_pages obj}"

definition owned :: "shm \<Rightarrow> nat set" where
  "owned s = (\<Union>obj \<in> ran (slot (sh_table s)). backing obj)"

definition obj_ok :: "pmm \<Rightarrow> shared_mem \<Rightarrow> bool" where
  "obj_ok p obj \<longleftrightarrow> 0 < sm_refcount obj \<and> sm_refcount obj < 2 ^ 64
     \<and> sm_size obj \<le> sm_pages obj * FRAME_SIZE \<and> FRAME_SIZE dvd sm_phys obj
     \<and> backing obj \<subseteq> pmm_managed p - avail p"

definition shm_inv :: "shm \<Rightarrow> bool" where
  "shm_inv s \<longleftrightarrow> pmm_inv (sh_pmm s)
     \<and> (\<forall>i obj. slot (sh_table s) i = Some obj \<longrightarrow> obj_ok (sh_pmm s) obj)
     \<and> (\<forall>i j a b. i \<noteq> j \<longrightarrow> slot (sh_table s) i = Some a \<longrightarrow> slot (sh_table s) j = Some b
          \<longrightarrow> backing a \<inter> backing b = {})"

text \<open>What every operation keeps: the invariant, and the frames that are free or in use by objects.\<close>

definition shm_keeps :: "shm \<Rightarrow> shm \<Rightarrow> bool" where
  "shm_keeps s s' \<longleftrightarrow> shm_inv s' \<and> avail (sh_pmm s') \<union> owned s' = avail (sh_pmm s) \<union> owned s
     \<and> pmm_managed (sh_pmm s') = pmm_managed (sh_pmm s)"

lemma shm_keeps_refl: "shm_inv s \<Longrightarrow> shm_keeps s s"
  by (simp add: shm_keeps_def)

lemma shm_keeps_trans: "shm_keeps s s1 \<Longrightarrow> shm_keeps s1 s2 \<Longrightarrow> shm_keeps s s2"
  by (simp add: shm_keeps_def)

lemma free_backing_spec:
  assumes "pmm_inv p" "FRAME_SIZE dvd sm_phys obj" "backing obj \<subseteq> pmm_managed p"
  shows "\<exists>p'. free_backing obj p = Some p' \<and> pmm_inv p' \<and> pmm_managed p' = pmm_managed p
           \<and> avail p' = avail p \<union> backing obj"
proof -
  obtain f where f: "sm_phys obj = f * FRAME_SIZE" using assms(2) by (metis dvd_def mult.commute)
  moreover have "FRAME_SIZE > 0" by (simp add: FRAME_SIZE_def)
  ultimately have "backing obj = {f..<f + sm_pages obj}" by (simp add: backing_def)
  with assms frames.give_back_run [OF assms(1), of f "sm_pages obj"] f show ?thesis
    by (auto simp: free_backing_def)
qed

text \<open>Replacing one object, and the frames it owns, while the others stay.\<close>

lemma shm_inv_replace:
  assumes inv: "shm_inv s" and obj: "slot (sh_table s) i = Some obj"
    and p: "pmm_inv p" "pmm_managed p = pmm_managed (sh_pmm s)"
    and av: "avail p \<union> backing obj' = avail (sh_pmm s) \<union> backing obj"
    and ok: "obj_ok p obj'"
  shows "shm_keeps s (s\<lparr>sh_table := (sh_table s)[i := Some obj'], sh_pmm := p, sh_mem := m\<rparr>)"
proof -
  let ?t = "slot (sh_table s)"
  have i: "i < length (sh_table s)" using obj by (rule slot_bound)
  have others: "obj_ok p a \<and> backing a \<inter> backing obj' = {}" if "?t j = Some a" "j \<noteq> i" for j a
  proof -
    have "obj_ok (sh_pmm s) a" "backing a \<inter> backing obj = {}" using inv that obj unfolding shm_inv_def by blast+
    then show ?thesis using p av unfolding obj_ok_def by blast
  qed
  have t': "slot ((sh_table s)[i := Some obj']) = ?t(i \<mapsto> obj')" using i by auto
  have rest: "\<Union> (backing ` ran (?t(i \<mapsto> o'))) = backing o' \<union> (\<Union>j \<in> - {i}. case ?t j of None \<Rightarrow> {} | Some a \<Rightarrow> backing a)"
    for o'
    by (auto simp: ran_def split: option.splits) (metis option.inject)+
  have "?t(i \<mapsto> obj) = ?t" using obj by auto
  with rest [of obj] rest [of obj'] av
  have "avail p \<union> \<Union> (backing ` ran (?t(i \<mapsto> obj'))) = avail (sh_pmm s) \<union> \<Union> (backing ` ran ?t)"
    by (simp add: Un_assoc [symmetric])
  moreover have "shm_inv (s\<lparr>sh_table := (sh_table s)[i := Some obj'], sh_pmm := p, sh_mem := m\<rparr>)"
    using inv others ok p(1) unfolding shm_inv_def
    by (simp add: t' Int_commute)
  ultimately show ?thesis using p(2) by (simp add: shm_keeps_def owned_def t')
qed


section \<open>Every operation keeps the invariant and loses no frame\<close>

lemma shm_create_keeps:
  assumes "shm_inv s" "shm_create s = (i, s')"
  shows "shm_keeps s s'" "slot (sh_table s) i = None"
    "slot (sh_table s') = (slot (sh_table s))(i \<mapsto> \<lparr>sm_phys = 0, sm_pages = 0, sm_size = 0, sm_refcount = 1\<rparr>)"
proof -
  let ?new = "\<lparr>sm_phys = 0, sm_pages = 0, sm_size = 0, sm_refcount = 1\<rparr>"
  from assms(2) obtain t where c: "claim_slot ?new (sh_table s) = (i, t)" and s': "s' = s\<lparr>sh_table := t\<rparr>"
    by (auto simp: shm_create_def split: prod.splits)
  note t = slots.claim_free [OF c] slots.claim_fetch [OF c] slots.claim_range [OF c]
  have new: "backing ?new = {}" "obj_ok p ?new" for p by (auto simp: backing_def obj_ok_def)
  from assms(1) new have "shm_inv s'"
    unfolding s' shm_inv_def by (auto simp: t(2) split: if_splits)
  moreover have "owned s' = owned s" using new(1) by (simp add: owned_def s' t(3))
  ultimately show "shm_keeps s s'" by (simp add: shm_keeps_def s')
  show "slot (sh_table s) i = None" by (rule t(1))
  show "slot (sh_table s') = (slot (sh_table s))(i \<mapsto> ?new)" by (simp add: s' t(2))
qed

lemma shm_obj_ok: "shm_inv s \<Longrightarrow> slot (sh_table s) i = Some obj \<Longrightarrow> obj_ok (sh_pmm s) obj"
  by (auto simp: shm_inv_def)

lemma shm_resize_keeps:
  assumes "shm_inv s" "slot (sh_table s) i = Some obj"
    and "sm_phys obj' = sm_phys obj" "sm_pages obj' = sm_pages obj"
    and "sm_size obj' \<le> sm_pages obj * FRAME_SIZE" "0 < sm_refcount obj'" "sm_refcount obj' < 2 ^ 64"
  shows "shm_keeps s (s\<lparr>sh_table := (sh_table s)[i := Some obj']\<rparr>)"
proof -
  have "backing obj' = backing obj" using assms(3,4) by (simp add: backing_def)
  moreover have "obj_ok (sh_pmm s) obj'"
    using shm_obj_ok [OF assms(1,2)] assms(3-) \<open>backing obj' = backing obj\<close> by (simp add: obj_ok_def)
  moreover have "pmm_inv (sh_pmm s)" using assms(1) by (simp add: shm_inv_def)
  ultimately have "shm_keeps s (s\<lparr>sh_table := (sh_table s)[i := Some obj'], sh_pmm := sh_pmm s, sh_mem := sh_mem s\<rparr>)"
    by (intro shm_inv_replace [OF assms(1,2)]) simp_all
  then show ?thesis by simp
qed

lemma shm_dup_keeps:
  assumes "shm_inv s" "\<And>obj. slot (sh_table s) i = Some obj \<Longrightarrow> sm_refcount obj + 1 < 2 ^ 64"
  shows "shm_keeps s (shm_dup i s)"
proof (cases "slot (sh_table s) i")
  case None
  with assms(1) show ?thesis by (simp add: shm_dup_def shm_keeps_refl)
next
  case (Some obj)
  with assms(2) shm_obj_ok [OF assms(1) Some] shm_resize_keeps [OF assms(1) Some]
  show ?thesis by (simp add: shm_dup_def wadd_small obj_ok_def)
qed

lemma shm_close_last:
  assumes inv: "shm_inv s" and obj: "slot (sh_table s) i = Some obj" and last: "sm_refcount obj = 1"
  shows "\<exists>p. shm_close i s = Some (s\<lparr>sh_table := (sh_table s)[i := None], sh_pmm := p\<rparr>)
           \<and> avail p = avail (sh_pmm s) \<union> backing obj
           \<and> shm_keeps s (s\<lparr>sh_table := (sh_table s)[i := None], sh_pmm := p\<rparr>)"
proof -
  let ?obj = "obj\<lparr>sm_refcount := wsub (sm_refcount obj) 1\<rparr>" and ?t = "slot (sh_table s)"
  from shm_obj_ok [OF inv obj] have ok: "obj_ok (sh_pmm s) obj" .
  have b: "backing ?obj = backing obj" by (simp add: backing_def)
  have managed: "backing obj \<subseteq> pmm_managed (sh_pmm s)" using ok by (auto simp: obj_ok_def)
  from ok inv b obtain p where p: "free_backing ?obj (sh_pmm s) = Some p" "pmm_inv p"
      "pmm_managed p = pmm_managed (sh_pmm s)" "avail p = avail (sh_pmm s) \<union> backing obj"
    using free_backing_spec [of "sh_pmm s" ?obj] managed by (auto simp: shm_inv_def obj_ok_def)
  let ?s = "s\<lparr>sh_table := (sh_table s)[i := None], sh_pmm := p\<rparr>"
  have t': "slot ((sh_table s)[i := None]) = ?t(i := None)" using slot_bound [OF obj] by auto
  have "obj_ok p a" if "?t j = Some a" "j \<noteq> i" for j a
  proof -
    have "obj_ok (sh_pmm s) a" "backing a \<inter> backing obj = {}" using inv that obj unfolding shm_inv_def by blast+
    then show ?thesis using p unfolding obj_ok_def by blast
  qed
  then have "shm_inv ?s" using inv p(2) unfolding shm_inv_def by (auto simp: t' split: if_splits)
  moreover have "avail p \<union> owned ?s = avail (sh_pmm s) \<union> owned s"
  proof -
    have "?t = (?t(i := None))(i \<mapsto> obj)" using obj by auto
    then have "ran ?t = insert obj (ran (?t(i := None)))" by (metis fun_upd_same ran_map_upd)
    then have "owned s = backing obj \<union> owned ?s" by (simp add: owned_def t')
    then show ?thesis using p(4) by auto
  qed
  ultimately have "shm_keeps s ?s" using p(3) by (simp add: shm_keeps_def)
  moreover have "shm_close i s = Some ?s" using obj last p(1) by (simp add: shm_close_def wsub_def)
  ultimately show ?thesis using p(4) by blast
qed

lemma shm_close_keeps:
  assumes "shm_inv s"
  shows "\<exists>s'. shm_close i s = Some s' \<and> shm_keeps s s'"
proof (cases "slot (sh_table s) i")
  case None
  with assms show ?thesis by (simp add: shm_close_def shm_keeps_refl)
next
  case (Some obj)
  show ?thesis
  proof (cases "sm_refcount obj = 1")
    case True
    with shm_close_last [OF assms Some] show ?thesis by blast
  next
    case False
    with shm_obj_ok [OF assms Some] have "wsub (sm_refcount obj) 1 = sm_refcount obj - 1" "1 < sm_refcount obj"
        "sm_refcount obj - 1 < 2 ^ 64"
      by (auto simp: obj_ok_def wsub_small)
    with shm_resize_keeps [OF assms Some, of "obj\<lparr>sm_refcount := sm_refcount obj - 1\<rparr>"]
      shm_obj_ok [OF assms Some] Some
    show ?thesis by (simp add: shm_close_def obj_ok_def)
  qed
qed


lemma div_ceil_pages: "new_size \<le> max (div_ceil new_size FRAME_SIZE) 1 * FRAME_SIZE"
  using div_ceil_le_iff [of FRAME_SIZE new_size "max (div_ceil new_size FRAME_SIZE) 1"]
  by (simp add: FRAME_SIZE_def)

text \<open>The growing branch of \<open>truncate\<close>, up to the table update.\<close>

lemma shm_grow:
  assumes inv: "shm_inv s" and obj: "slot (sh_table s) i = Some obj"
    and big: "sm_size obj < new_size" "sm_pages obj < n" and n: "n = max (div_ceil new_size FRAME_SIZE) 1"
  shows "(shm_truncate i new_size s = Some (False, s) \<and> (\<forall>f. \<not> {f..<f + n} \<subseteq> avail (sh_pmm s)))
    \<or> (\<exists>f p. shm_truncate i new_size s =
          Some (True, s\<lparr>sh_table := (sh_table s)[i := Some (obj\<lparr>sm_phys := f * FRAME_SIZE, sm_pages := n,
                              sm_size := new_size\<rparr>)],
                        sh_pmm := p,
                        sh_mem := copy_nonoverlapping (sm_phys obj) (f * FRAME_SIZE) (sm_pages obj * FRAME_SIZE)
                                    (write_bytes (f * FRAME_SIZE) 0 (n * FRAME_SIZE) (sh_mem s))\<rparr>)
        \<and> {f..<f + n} \<subseteq> avail (sh_pmm s) \<and> pmm_inv p \<and> pmm_managed p = pmm_managed (sh_pmm s)
        \<and> avail p = avail (sh_pmm s) - {f..<f + n} \<union> backing obj)"
proof -
  from shm_obj_ok [OF inv obj] have ok: "obj_ok (sh_pmm s) obj" .
  have pi: "pmm_inv (sh_pmm s)" using inv by (simp add: shm_inv_def)
  have cond: "\<not> new_size \<le> sm_size obj" "\<not> max (div_ceil new_size FRAME_SIZE) 1 \<le> sm_pages obj"
    using big by (simp_all only: n not_le)
  from frames.take_cases [OF pi, of n] n consider
      (fail) "alloc_contiguous n (sh_pmm s) = Some (None, sh_pmm s)" "\<forall>f. \<not> {f..<f + n} \<subseteq> avail (sh_pmm s)"
    | (got) f p1 where "alloc_contiguous n (sh_pmm s) = Some (Some (f * FRAME_SIZE), p1)"
        "{f..<f + n} \<subseteq> avail (sh_pmm s)" "pmm_inv p1" "pmm_managed p1 = pmm_managed (sh_pmm s)"
        "avail p1 = avail (sh_pmm s) - {f..<f + n}"
    by fastforce
  then show ?thesis
  proof cases
    case fail
    then show ?thesis using obj cond n by (simp add: shm_truncate_def Let_def)
  next
    case got
    have "backing obj \<subseteq> pmm_managed p1" using ok got(4) by (auto simp: obj_ok_def)
    with free_backing_spec [OF got(3), of obj] ok obtain p where p: "free_backing obj p1 = Some p" "pmm_inv p"
        "pmm_managed p = pmm_managed p1" "avail p = avail p1 \<union> backing obj"
      by (auto simp: obj_ok_def)
    show ?thesis
    proof (cases "sm_pages obj > 0")
      case True
      then show ?thesis
        using obj cond n got p by (intro disjI2 exI [of _ f] exI [of _ p]) (simp add: shm_truncate_def Let_def)
    next
      case False
      then have "p = p1" "backing obj = {}" using p(1) by (simp_all add: free_backing_def backing_def)
      with False show ?thesis
        using obj cond n got
        by (intro disjI2 exI [of _ f] exI [of _ p1])
          (simp add: shm_truncate_def Let_def)
    qed
  qed
qed

lemma shm_truncate_keeps:
  assumes inv: "shm_inv s"
  shows "\<exists>b s'. shm_truncate i new_size s = Some (b, s') \<and> shm_keeps s s'"
proof (cases "slot (sh_table s) i")
  case None
  with assms show ?thesis by (auto simp: shm_truncate_def shm_keeps_refl)
next
  case (Some obj)
  let ?n = "max (div_ceil new_size FRAME_SIZE) 1"
  from shm_obj_ok [OF inv Some] have ok: "obj_ok (sh_pmm s) obj" .
  show ?thesis
  proof (cases "new_size \<le> sm_size obj \<or> ?n \<le> sm_pages obj")
    case True
    then have "new_size \<le> sm_pages obj * FRAME_SIZE"
      using ok order_trans [OF div_ceil_pages [of new_size] mult_le_mono1 [of ?n "sm_pages obj" FRAME_SIZE]]
      by (simp only: obj_ok_def) linarith
    with shm_resize_keeps [OF inv Some, of "obj\<lparr>sm_size := new_size\<rparr>"] ok Some True
    show ?thesis by (auto simp: shm_truncate_def Let_def obj_ok_def)
  next
    case False
    then have big: "sm_size obj < new_size" "sm_pages obj < ?n" by auto
    from shm_grow [OF inv Some big refl] show ?thesis
    proof (elim disjE conjE exE)
      assume "shm_truncate i new_size s = Some (False, s)"
      with inv show ?thesis by (auto simp: shm_keeps_refl)
    next
      fix f p
      let ?obj = "obj\<lparr>sm_phys := f * FRAME_SIZE, sm_pages := ?n, sm_size := new_size\<rparr>"
      assume eq: "shm_truncate i new_size s = Some (True, s\<lparr>sh_table := (sh_table s)[i := Some ?obj],
          sh_pmm := p, sh_mem := copy_nonoverlapping (sm_phys obj) (f * FRAME_SIZE) (sm_pages obj * FRAME_SIZE)
                                    (write_bytes (f * FRAME_SIZE) 0 (?n * FRAME_SIZE) (sh_mem s))\<rparr>)"
        and f: "{f..<f + ?n} \<subseteq> avail (sh_pmm s)" and p: "pmm_inv p" "pmm_managed p = pmm_managed (sh_pmm s)"
        "avail p = avail (sh_pmm s) - {f..<f + ?n} \<union> backing obj"
      have b: "backing ?obj = {f..<f + ?n}" by (simp add: backing_def FRAME_SIZE_def)
      have "{f..<f + ?n} \<subseteq> pmm_managed p - avail p"
        using ok f p frames.pool_managed [of "sh_pmm s"] inv unfolding obj_ok_def shm_inv_def by blast
      then have "obj_ok p ?obj"
        using ok div_ceil_pages [of new_size] unfolding obj_ok_def b by simp
      moreover have "avail p \<union> backing ?obj = avail (sh_pmm s) \<union> backing obj" using f p(3) b by auto
      ultimately show ?thesis using shm_inv_replace [OF inv Some p(1,2)] eq by blast
    qed
  qed
qed


text \<open>The frame a byte address lies in.\<close>

lemma backing_byte: "FRAME_SIZE dvd sm_phys b \<Longrightarrow> k < sm_pages b * FRAME_SIZE \<Longrightarrow> (sm_phys b + k) div FRAME_SIZE \<in> backing b"
  by (auto simp: backing_def FRAME_SIZE_def elim!: dvdE)

lemma run_byte: "f * FRAME_SIZE \<le> x \<Longrightarrow> x < f * FRAME_SIZE + n * FRAME_SIZE \<Longrightarrow> x div FRAME_SIZE \<in> {f..<f + n}"
  by (auto simp: FRAME_SIZE_def)

section \<open>Properties\<close>

text \<open>C19: No operation on shared memory objects loses, duplicates or double-frees a frame. In a
  state where the objects own disjoint runs of allocated frames, \<open>create\<close>, \<open>truncate\<close>, \<open>dup\<close> and
  \<open>close\<close>, with any arguments, return without a panic, keep that invariant (with every logical size
  within the backing and every reference count positive), and keep the set of frames that are either
  free or owned by an object.\<close>

theorem shm_operations_keep_frames:
  assumes "shm_inv s"
  shows "shm_keeps s (snd (shm_create s))
    \<and> (\<exists>b s'. shm_truncate i n s = Some (b, s') \<and> shm_keeps s s')
    \<and> (\<exists>s'. shm_close i s = Some s' \<and> shm_keeps s s')
    \<and> ((\<forall>obj. slot (sh_table s) i = Some obj \<longrightarrow> sm_refcount obj + 1 < 2 ^ 64) \<longrightarrow> shm_keeps s (shm_dup i s))"
proof (intro conjI impI)
  show "shm_keeps s (snd (shm_create s))"
    using shm_create_keeps(1) [OF assms] by (cases "shm_create s") simp
qed (use shm_truncate_keeps shm_close_keeps shm_dup_keeps assms in blast)+

text \<open>A state with one object of two references, used by the witnesses.\<close>

definition demo_shm :: shm where
  "demo_shm = \<lparr>sh_table = [Some \<lparr>sm_phys = 0, sm_pages = 0, sm_size = 0, sm_refcount = 2\<rparr>],
     sh_pmm = \<lparr>bitmap = replicate 8192 0, last_usable_frame = 65535\<rparr>, sh_mem = (\<lambda>_. 7)\<rparr>"

lemma demo_shm_inv: "shm_inv demo_shm"
  by (auto simp: shm_inv_def demo_shm_def pmm_inv_def pmm_consts obj_ok_def backing_def slot_def split: if_splits)

theorem shm_operations_keep_frames_witness:
  "shm_inv demo_shm \<and> (\<exists>s'. shm_close 0 demo_shm = Some s' \<and> shm_keeps demo_shm s')
     \<and> shm_keeps demo_shm (shm_dup 0 demo_shm)"
  using shm_operations_keep_frames [OF demo_shm_inv, of 0 5000] demo_shm_inv
  by (simp add: demo_shm_def)

text \<open>\<open>truncate\<close> preserves contents. When it succeeds the object has the new logical size, every
  byte of the old backing is found at the same offset of the new one, bytes beyond it are zero, and
  neither the bookkeeping nor the bytes of any other object change.\<close>

theorem shm_truncate_contents:
  assumes "shm_inv s" "slot (sh_table s) i = Some obj" "shm_truncate i n s = Some (True, s')"
  shows "\<exists>obj'. slot (sh_table s') i = Some obj' \<and> sm_size obj' = n \<and> sm_refcount obj' = sm_refcount obj
    \<and> (\<forall>k < sm_pages obj * FRAME_SIZE. sh_mem s' (sm_phys obj' + k) = sh_mem s (sm_phys obj + k))
    \<and> (\<forall>k < sm_pages obj' * FRAME_SIZE. sm_pages obj * FRAME_SIZE \<le> k \<longrightarrow> sh_mem s' (sm_phys obj' + k) = 0)
    \<and> (\<forall>j b. j \<noteq> i \<longrightarrow> slot (sh_table s) j = Some b \<longrightarrow> slot (sh_table s') j = Some b
         \<and> (\<forall>k < sm_pages b * FRAME_SIZE. sh_mem s' (sm_phys b + k) = sh_mem s (sm_phys b + k)))"
proof -
  note inv = assms(1) and obj = assms(2)
  let ?n = "max (div_ceil n FRAME_SIZE) 1"
  have i: "i < length (sh_table s)" using obj by (rule slot_bound)
  show ?thesis
  proof (cases "n \<le> sm_size obj \<or> ?n \<le> sm_pages obj")
    case True
    then have "s' = s\<lparr>sh_table := (sh_table s)[i := Some (obj\<lparr>sm_size := n\<rparr>)]\<rparr>"
      using assms(2,3) by (auto simp: shm_truncate_def Let_def split: if_splits)
    with i show ?thesis by auto
  next
    case False
    then have big: "sm_size obj < n" "sm_pages obj < ?n" by auto
    from shm_grow [OF inv obj big refl] assms(3) obtain f p where
      s': "s' = s\<lparr>sh_table := (sh_table s)[i := Some (obj\<lparr>sm_phys := f * FRAME_SIZE, sm_pages := ?n,
               sm_size := n\<rparr>)], sh_pmm := p,
               sh_mem := copy_nonoverlapping (sm_phys obj) (f * FRAME_SIZE) (sm_pages obj * FRAME_SIZE)
                           (write_bytes (f * FRAME_SIZE) 0 (?n * FRAME_SIZE) (sh_mem s))\<rparr>"
      and f: "{f..<f + ?n} \<subseteq> avail (sh_pmm s)"
      by auto
    have mem': "sh_mem s' = copy_nonoverlapping (sm_phys obj) (f * FRAME_SIZE) (sm_pages obj * FRAME_SIZE)
        (write_bytes (f * FRAME_SIZE) 0 (?n * FRAME_SIZE) (sh_mem s))"
      by (simp add: s')
    have out: "\<not> (f * FRAME_SIZE \<le> sm_phys b + k \<and> sm_phys b + k < f * FRAME_SIZE + ?n * FRAME_SIZE)"
      if "slot (sh_table s) j = Some b" "k < sm_pages b * FRAME_SIZE" for j b k
      using shm_obj_ok [OF inv that(1)] backing_byte [OF _ that(2)] run_byte [of f "sm_phys b + k" ?n] f
      unfolding obj_ok_def by blast
    have le: "sm_pages obj * FRAME_SIZE \<le> ?n * FRAME_SIZE" using big(2) by (intro mult_le_mono1) simp
    have "sh_mem s' (f * FRAME_SIZE + k) = sh_mem s (sm_phys obj + k)" if "k < sm_pages obj * FRAME_SIZE" for k
      using out [OF obj that] that by (auto simp: s' copy_nonoverlapping_def write_bytes_def)
    moreover have "sh_mem s' (f * FRAME_SIZE + k) = 0"
      if "k < ?n * FRAME_SIZE" "sm_pages obj * FRAME_SIZE \<le> k" for k
      using that by (auto simp: s' copy_nonoverlapping_def write_bytes_def)
    moreover have "sh_mem s' (sm_phys b + k) = sh_mem s (sm_phys b + k)"
      if "slot (sh_table s) j = Some b" "k < sm_pages b * FRAME_SIZE" for j b k
    proof -
      let ?x = "sm_phys b + k"
      have "\<not> (f * FRAME_SIZE \<le> ?x \<and> ?x < f * FRAME_SIZE + sm_pages obj * FRAME_SIZE)"
        using out [OF that] le by linarith
      with out [OF that] show ?thesis
        by (simp only: mem' copy_nonoverlapping_def write_bytes_def if_False)
    qed
    moreover have "slot (sh_table s') = (slot (sh_table s))(i \<mapsto> obj\<lparr>sm_phys := f * FRAME_SIZE,
        sm_pages := ?n, sm_size := n\<rparr>)"
      using i by (auto simp: s')
    ultimately show ?thesis by simp
  qed
qed

theorem shm_truncate_contents_witness:
  "\<exists>s' obj'. shm_truncate 0 5000 demo_shm = Some (True, s') \<and> slot (sh_table s') 0 = Some obj'
     \<and> sm_size obj' = 5000 \<and> sm_refcount obj' = 2"
proof -
  let ?obj = "\<lparr>sm_phys = 0, sm_pages = 0, sm_size = 0, sm_refcount = 2\<rparr>"
  have obj: "slot (sh_table demo_shm) 0 = Some ?obj" by (simp add: demo_shm_def)
  have n: "(2 :: nat) = max (div_ceil 5000 FRAME_SIZE) 1" by (simp add: div_ceil_def FRAME_SIZE_def)
  have "{0..<0 + 2} \<subseteq> avail (sh_pmm demo_shm)" by (auto simp: demo_shm_def avail_def frame_used_def)
  with shm_grow [OF demo_shm_inv obj, of 5000 2] n obtain s' where
    s': "shm_truncate 0 5000 demo_shm = Some (True, s')" by fastforce
  from shm_truncate_contents [OF demo_shm_inv obj s'] s' show ?thesis by auto
qed

text \<open>\<open>close\<close> frees the frames exactly when the last reference goes. With other references left
  it only decrements the count and touches neither frames nor other objects; at the last one the
  slot becomes empty and exactly the object's frames return to the pool.\<close>

theorem shm_close_refcount:
  assumes "shm_inv s" "slot (sh_table s) i = Some obj"
  shows "\<exists>s'. shm_close i s = Some s'
    \<and> (\<forall>j. j \<noteq> i \<longrightarrow> slot (sh_table s') j = slot (sh_table s) j)
    \<and> (if sm_refcount obj = 1
       then slot (sh_table s') i = None \<and> avail (sh_pmm s') = avail (sh_pmm s) \<union> backing obj
       else slot (sh_table s') i = Some (obj\<lparr>sm_refcount := sm_refcount obj - 1\<rparr>) \<and> sh_pmm s' = sh_pmm s)"
proof (cases "sm_refcount obj = 1")
  case True
  with shm_close_last [OF assms] slot_bound [OF assms(2)] show ?thesis by auto
next
  case False
  with shm_obj_ok [OF assms] have "wsub (sm_refcount obj) 1 = sm_refcount obj - 1" "1 < sm_refcount obj"
    by (auto simp: obj_ok_def wsub_small)
  with assms(2) slot_bound [OF assms(2)] show ?thesis by (auto simp: shm_close_def)
qed

theorem shm_close_refcount_witness:
  "\<exists>s'. shm_close 0 demo_shm = Some s' \<and> (\<exists>obj. slot (sh_table s') 0 = Some obj \<and> sm_refcount obj = 1)"
  using shm_close_refcount [OF demo_shm_inv, of 0 "\<lparr>sm_phys = 0, sm_pages = 0, sm_size = 0, sm_refcount = 2\<rparr>"]
  by (auto simp: demo_shm_def)

end
