(* ===== verification/Socket.thy ===== *)
theory Socket
  imports Shm
begin

text \<open>
  \<open>src/src/socket.rs\<close>: stream sockets between endpoints of one table, with shared memory objects
  passed along (\<open>SCM_RIGHTS\<close>). The state is the endpoint table, the map from bound paths to
  listening endpoints (a \<open>BTreeMap\<close> whose order is never observed) and the shared memory state whose
  reference counts \<open>send\<close>, \<open>recv\<close> and \<open>close\<close> move around.
\<close>

section \<open>State\<close>

datatype role = Idle | Bound string | Listening | Connected usize

record endpoint =
  role :: role
  inbox :: "u8 list"
  inbox_fds :: "usize list"
  backlog :: "usize list"

definition endpoint_new :: endpoint where
  "endpoint_new = \<lparr>role = Idle, inbox = [], inbox_fds = [], backlog = []\<rparr>"

record sock =
  endpoints :: "endpoint option list"
  listeners :: "string \<rightharpoonup> usize"
  sk_shm :: shm

section \<open>Operations\<close>

definition alloc_endpoint :: "endpoint \<Rightarrow> sock \<Rightarrow> usize \<times> sock" where
  "alloc_endpoint ep s = (let (i, t) = claim_slot ep (endpoints s) in (i, s\<lparr>endpoints := t\<rparr>))"

definition set_endpoint :: "usize \<Rightarrow> endpoint \<Rightarrow> sock \<Rightarrow> sock" where
  "set_endpoint eid ep s = s\<lparr>endpoints := (endpoints s)[eid := Some ep]\<rparr>"

definition sock_create :: "sock \<Rightarrow> usize \<times> sock" where
  "sock_create s = alloc_endpoint endpoint_new s"

definition sock_bind :: "usize \<Rightarrow> string \<Rightarrow> sock \<Rightarrow> bool \<times> sock" where
  "sock_bind eid path s =
     (if listeners s path \<noteq> None then (False, s)
      else case slot (endpoints s) eid of
             None \<Rightarrow> (False, s)
           | Some ep \<Rightarrow> if role ep \<noteq> Idle then (False, s)
                        else (True, set_endpoint eid (ep\<lparr>role := Bound path\<rparr>) s))"

definition sock_listen :: "usize \<Rightarrow> sock \<Rightarrow> bool \<times> sock" where
  "sock_listen eid s =
     (case slot (endpoints s) eid of
        None \<Rightarrow> (False, s)
      | Some ep \<Rightarrow>
          (case role ep of
             Bound path \<Rightarrow>
               let s1 = set_endpoint eid (ep\<lparr>role := Listening\<rparr>) s
               in (True, s1\<lparr>listeners := (listeners s1)(path \<mapsto> eid)\<rparr>)
           | _ \<Rightarrow> (False, s)))"

definition sock_connect :: "usize \<Rightarrow> string \<Rightarrow> sock \<Rightarrow> bool \<times> sock" where
  "sock_connect eid path s =
     (case listeners s path of
        None \<Rightarrow> (False, s)
      | Some listener_id \<Rightarrow>
          let (server_id, s1) = alloc_endpoint (endpoint_new\<lparr>role := Connected eid\<rparr>) s
          in case slot (endpoints s1) listener_id of
               None \<Rightarrow> (False, s1)
             | Some listener \<Rightarrow>
                 let s2 = set_endpoint listener_id (listener\<lparr>backlog := backlog listener @ [server_id]\<rparr>) s1
                 in case slot (endpoints s2) eid of
                      None \<Rightarrow> (False, s2)
                    | Some client_ep \<Rightarrow> (True, set_endpoint eid (client_ep\<lparr>role := Connected server_id\<rparr>) s2))"

definition sock_accept :: "usize \<Rightarrow> sock \<Rightarrow> usize option \<times> sock" where
  "sock_accept listener_id s =
     (case slot (endpoints s) listener_id of
        None \<Rightarrow> (None, s)
      | Some ep \<Rightarrow>
          (case backlog ep of
             [] \<Rightarrow> (None, s)
           | x # xs \<Rightarrow> (Some x, set_endpoint listener_id (ep\<lparr>backlog := xs\<rparr>) s)))"

definition peer_of :: "sock \<Rightarrow> usize \<Rightarrow> usize option" where
  "peer_of s eid =
     (case slot (endpoints s) eid of
        None \<Rightarrow> None
      | Some ep \<Rightarrow> (case role ep of Connected peer \<Rightarrow> Some peer | _ \<Rightarrow> None))"

definition sock_send :: "usize \<Rightarrow> u8 list \<Rightarrow> usize list \<Rightarrow> sock \<Rightarrow> (usize option \<times> sock) exec" where
  "sock_send eid bytes fds s =
     (case peer_of s eid of
        None \<Rightarrow> Some (None, s)
      | Some peer_id \<Rightarrow>
          let sh = fold shm_dup fds (sk_shm s)
          in case slot (endpoints s) peer_id of
               None \<Rightarrow> do { sh' \<leftarrow> for_each shm_close fds sh; Some (None, s\<lparr>sk_shm := sh'\<rparr>) }
             | Some peer \<Rightarrow>
                 Some (Some (length bytes),
                   set_endpoint peer_id (peer\<lparr>inbox := inbox peer @ bytes, inbox_fds := inbox_fds peer @ fds\<rparr>)
                     (s\<lparr>sk_shm := sh\<rparr>)))"

text \<open>\<open>recv\<close> with a buffer of \<open>n\<close> bytes: the bytes written to its front and the passed objects.\<close>

definition sock_recv :: "usize \<Rightarrow> nat \<Rightarrow> sock \<Rightarrow> (u8 list \<times> usize list) \<times> sock" where
  "sock_recv eid buf_len s =
     (case slot (endpoints s) eid of
        None \<Rightarrow> (([], []), s)
      | Some ep \<Rightarrow>
          let n = min (length (inbox ep)) buf_len
          in ((take n (inbox ep), inbox_fds ep),
              set_endpoint eid (ep\<lparr>inbox := drop n (inbox ep), inbox_fds := []\<rparr>) s))"

definition has_data :: "usize \<Rightarrow> sock \<Rightarrow> bool" where
  "has_data eid s = (case slot (endpoints s) eid of None \<Rightarrow> False | Some ep \<Rightarrow> inbox ep \<noteq> [])"

definition has_backlog :: "usize \<Rightarrow> sock \<Rightarrow> bool" where
  "has_backlog eid s = (case slot (endpoints s) eid of None \<Rightarrow> False | Some ep \<Rightarrow> backlog ep \<noteq> [])"

definition sock_close :: "usize \<Rightarrow> sock \<Rightarrow> sock exec" where
  "sock_close eid s = do {
     sh \<leftarrow> (case slot (endpoints s) eid of
              None \<Rightarrow> Some (sk_shm s)
            | Some ep \<Rightarrow> for_each shm_close (inbox_fds ep) (sk_shm s));
     Some (s\<lparr>sk_shm := sh,
             listeners := (\<lambda>path. if listeners s path = Some eid then None else listeners s path),
             endpoints := (if eid < length (endpoints s) then (endpoints s)[eid := None] else endpoints s)\<rparr>) }"

section \<open>Reference counts of the shared memory objects\<close>

definition refcount_of :: "shm \<Rightarrow> usize \<Rightarrow> nat" where
  "refcount_of sh f = (case slot (sh_table sh) f of None \<Rightarrow> 0 | Some obj \<Rightarrow> sm_refcount obj)"

lemma refcount_pos: "shm_inv sh \<Longrightarrow> 0 < refcount_of sh f \<longleftrightarrow> slot (sh_table sh) f \<noteq> None"
  by (auto simp: refcount_of_def obj_ok_def dest: shm_obj_ok split: option.splits)

lemma refcount_create:
  "shm_inv sh \<Longrightarrow> shm_create sh = (i, sh') \<Longrightarrow> refcount_of sh i = 0 \<and> refcount_of sh' = (refcount_of sh)(i := 1)"
  using shm_create_keeps [of sh i sh'] by (auto simp: refcount_of_def)

lemma refcount_truncate:
  assumes "shm_truncate i n sh = Some (b, sh')"
  shows "refcount_of sh' = refcount_of sh"
proof (cases "slot (sh_table sh) i")
  case None
  with assms show ?thesis by (simp add: shm_truncate_def)
next
  case (Some obj)
  with assms show ?thesis
    by (auto simp: shm_truncate_def Let_def refcount_of_def fun_eq_iff split: if_splits option.splits bind_splits)
qed

lemma refcount_dup:
  assumes "shm_inv sh" "0 < refcount_of sh f" "refcount_of sh f + 1 < 2 ^ 64"
  shows "shm_inv (shm_dup f sh)" "refcount_of (shm_dup f sh) = (refcount_of sh)(f := refcount_of sh f + 1)"
proof -
  from assms(1,2) obtain obj where obj: "slot (sh_table sh) f = Some obj" by (auto simp: refcount_pos)
  with assms(3) shm_dup_keeps [OF assms(1), of f] show "shm_inv (shm_dup f sh)"
    by (auto simp: refcount_of_def shm_keeps_def)
  show "refcount_of (shm_dup f sh) = (refcount_of sh)(f := refcount_of sh f + 1)"
    using obj slot_bound [OF obj] assms(3) by (auto simp: refcount_of_def shm_dup_def wadd_small)
qed

lemma refcount_close:
  assumes "shm_inv sh"
  shows "\<exists>sh'. shm_close f sh = Some sh' \<and> shm_inv sh' \<and> refcount_of sh' = (refcount_of sh)(f := refcount_of sh f - 1)"
proof -
  from shm_close_keeps [OF assms, of f] obtain sh' where sh': "shm_close f sh = Some sh'" "shm_inv sh'"
    by (auto simp: shm_keeps_def)
  have "refcount_of sh' = (refcount_of sh)(f := refcount_of sh f - 1)"
  proof (cases "slot (sh_table sh) f")
    case None
    with sh' show ?thesis by (auto simp: shm_close_def refcount_of_def)
  next
    case (Some obj)
    have "wsub (sm_refcount obj) 1 = sm_refcount obj - 1"
      using shm_obj_ok [OF assms Some] by (simp add: obj_ok_def wsub_small)
    with sh'(1) Some slot_bound [OF Some] show ?thesis
      by (auto simp: shm_close_def refcount_of_def Let_def split: if_splits bind_splits)
  qed
  with sh' show ?thesis by blast
qed

lemma refcount_dups:
  assumes "shm_inv sh" "\<forall>f \<in> set fds. 0 < refcount_of sh f" "\<forall>f. refcount_of sh f + count_list fds f < 2 ^ 64"
  shows "shm_inv (fold shm_dup fds sh) \<and>
    (\<forall>f. refcount_of (fold shm_dup fds sh) f = refcount_of sh f + count_list fds f)"
  using assms
proof (induction fds arbitrary: sh)
  case (Cons g fds)
  have b: "refcount_of sh g + 1 < 2 ^ 64" using Cons.prems(3) [rule_format, of g] by simp
  note d = refcount_dup [OF Cons.prems(1) _ b]
  have "\<forall>f. refcount_of (shm_dup g sh) f + count_list fds f < 2 ^ 64"
  proof
    fix f
    from Cons.prems(3) [rule_format, of f] d(2) Cons.prems(2)
    show "refcount_of (shm_dup g sh) f + count_list fds f < 2 ^ 64" by (auto split: if_splits)
  qed
  with Cons.IH [of "shm_dup g sh"] Cons.prems d show ?case by auto
qed simp

lemma refcount_closes:
  assumes "shm_inv sh"
  shows "\<exists>sh'. for_each shm_close fds sh = Some sh' \<and> shm_inv sh'
    \<and> (\<forall>f. refcount_of sh' f = refcount_of sh f - count_list fds f)"
  using assms
proof (induction fds arbitrary: sh)
  case (Cons g fds)
  from refcount_close [OF Cons.prems, of g] obtain sh1 where s1: "shm_close g sh = Some sh1" "shm_inv sh1"
      "refcount_of sh1 = (refcount_of sh)(g := refcount_of sh g - 1)"
    by blast
  from Cons.IH [OF s1(2)] s1 show ?case by auto
qed simp

section \<open>Objects in flight\<close>

text \<open>The references waiting in inboxes, over the whole table.\<close>

definition fds_of :: "endpoint option \<Rightarrow> usize list" where
  "fds_of e = (case e of None \<Rightarrow> [] | Some ep \<Rightarrow> inbox_fds ep)"

definition in_flight :: "endpoint option list \<Rightarrow> usize \<Rightarrow> nat" where
  "in_flight t f = count_list (concat (map fds_of t)) f"

lemma fds_of_simps [simp]: "fds_of None = []" "fds_of (Some ep) = inbox_fds ep"
  by (simp_all add: fds_of_def)

lemma in_flight_Cons [simp]: "in_flight (e # t) f = count_list (fds_of e) f + in_flight t f" "in_flight [] f = 0"
  by (simp_all add: in_flight_def)

lemma in_flight_update:
  "i < length t \<Longrightarrow> in_flight (t[i := e]) f + count_list (fds_of (t ! i)) f = in_flight t f + count_list (fds_of e) f"
  by (induction t arbitrary: i) (auto split: nat.splits)

lemma in_flight_claim: "claim_slot ep t = (i, t') \<Longrightarrow> in_flight t' f = in_flight t f + count_list (inbox_fds ep) f"
  by (induction ep t arbitrary: i t' rule: claim_slot.induct) (auto split: prod.splits)

lemma in_flight_slot: "slot t i = Some ep \<Longrightarrow> count_list (inbox_fds ep) f \<le> in_flight t f"
  using in_flight_update [OF slot_bound, of t i ep None f] slot_nth [of t i ep] by simp

lemma in_flight_set_endpoint:
  assumes "slot (endpoints s) i = Some ep"
  shows "in_flight (endpoints (set_endpoint i ep' s)) f + count_list (inbox_fds ep) f
           = in_flight (endpoints s) f + count_list (inbox_fds ep') f"
  using in_flight_update [OF slot_bound [OF assms], of "Some ep'" f] slot_nth [OF assms]
  by (simp add: set_endpoint_def)

lemma set_endpoint_simps [simp]:
  "sk_shm (set_endpoint i ep s) = sk_shm s" "listeners (set_endpoint i ep s) = listeners s"
  by (simp_all add: set_endpoint_def)

lemma slot_set_endpoint:
  "slot (endpoints s) i = Some ep \<Longrightarrow> slot (endpoints (set_endpoint i ep' s)) = (slot (endpoints s))(i \<mapsto> ep')"
  by (rule ext) (auto simp: set_endpoint_def dest: slot_bound)

lemma alloc_endpoint_spec:
  assumes "alloc_endpoint ep s = (i, s')"
  shows "slot (endpoints s) i = None" "slot (endpoints s') = (slot (endpoints s))(i \<mapsto> ep)"
    "listeners s' = listeners s" "sk_shm s' = sk_shm s"
    "in_flight (endpoints s') f = in_flight (endpoints s) f + count_list (inbox_fds ep) f"
  using assms
  by (auto simp: alloc_endpoint_def slots.claim_fetch in_flight_claim dest: slots.claim_free split: prod.splits)

interpretation endpoint_table: slot_allocator "\<lambda>s. slot (endpoints s)" alloc_endpoint
  by unfold_locales (auto dest: alloc_endpoint_spec)

text \<open>The operations on roles and backlogs neither touch the objects nor move references.\<close>

definition same_refs :: "sock \<Rightarrow> sock \<Rightarrow> bool" where
  "same_refs s s' \<longleftrightarrow> sk_shm s' = sk_shm s \<and> (\<forall>f. in_flight (endpoints s') f = in_flight (endpoints s) f)"

lemma same_refs_set:
  "slot (endpoints s) i = Some ep \<Longrightarrow> inbox_fds ep' = inbox_fds ep \<Longrightarrow> same_refs s (set_endpoint i ep' s)"
  using in_flight_set_endpoint [of s i ep ep'] by (auto simp: same_refs_def)

lemma same_refs_trans: "same_refs s s1 \<Longrightarrow> same_refs s1 s2 \<Longrightarrow> same_refs s s2"
  by (simp add: same_refs_def)

lemma same_refs_refl [simp]: "same_refs s s"
  by (simp add: same_refs_def)

lemma same_refs_create: "same_refs s (snd (sock_create s))"
  by (cases "sock_create s")
    (auto simp: sock_create_def same_refs_def endpoint_new_def dest: alloc_endpoint_spec)

lemma same_refs_bind: "same_refs s (snd (sock_bind i path s))"
  by (auto simp: sock_bind_def same_refs_set split: option.splits)

lemma same_refs_listen: "same_refs s (snd (sock_listen i s))"
proof (cases "slot (endpoints s) i")
  case (Some ep)
  have "same_refs s (set_endpoint i (ep\<lparr>role := Listening\<rparr>) s)" using same_refs_set [OF Some] by simp
  with Some show ?thesis by (auto simp: sock_listen_def same_refs_def Let_def split: role.splits)
qed (simp add: sock_listen_def)

lemma same_refs_accept: "same_refs s (snd (sock_accept i s))"
  by (auto simp: sock_accept_def same_refs_set split: option.splits list.splits)

lemma same_refs_connect: "same_refs s (snd (sock_connect i path s))"
proof (cases "listeners s path")
  case (Some l)
  obtain j s1 where a: "alloc_endpoint (endpoint_new\<lparr>role := Connected i\<rparr>) s = (j, s1)"
    by (cases "alloc_endpoint (endpoint_new\<lparr>role := Connected i\<rparr>) s")
  have 1: "same_refs s s1" using alloc_endpoint_spec [OF a] by (simp add: same_refs_def endpoint_new_def)
  show ?thesis
  proof (cases "slot (endpoints s1) l")
    case None
    with Some a 1 show ?thesis by (simp add: sock_connect_def)
  next
    case (Some lep)
    let ?s2 = "set_endpoint l (lep\<lparr>backlog := backlog lep @ [j]\<rparr>) s1"
    have 2: "same_refs s ?s2" using same_refs_trans [OF 1 same_refs_set [OF Some]] by simp
    show ?thesis
    proof (cases "slot (endpoints ?s2) i")
      case None
      with \<open>listeners s path = _\<close> a Some 2 show ?thesis by (simp add: sock_connect_def)
    next
      case c: (Some cep)
      with same_refs_trans [OF 2 same_refs_set [OF c]] \<open>listeners s path = _\<close> a Some
      show ?thesis by (simp add: sock_connect_def)
    qed
  qed
qed (simp add: sock_connect_def)

section \<open>Reachable states and reference accounting\<close>

text \<open>\<open>sock_reach s E\<close>: the state \<open>s\<close> can be reached, and the file descriptor tables of the processes
  hold \<open>E f\<close> references to object \<open>f\<close>. A sender passes objects it holds (\<open>sys_sendmsg\<close> resolves them
  from the caller's table), \<open>recv\<close> turns every delivered object into a descriptor of the receiver,
  and descriptors are duplicated and closed one at a time. The bound on \<open>send\<close> and \<open>dup\<close> keeps the
  counts within 64 bits.\<close>

inductive sock_reach :: "sock \<Rightarrow> (usize \<Rightarrow> nat) \<Rightarrow> bool" where
  at_boot: "pmm_inv p \<Longrightarrow> sock_reach \<lparr>endpoints = [], listeners = Map.empty,
     sk_shm = \<lparr>sh_table = [], sh_pmm = p, sh_mem = m\<rparr>\<rparr> (\<lambda>_. 0)"
| by_create: "sock_reach s E \<Longrightarrow> sock_reach (snd (sock_create s)) E"
| by_bind: "sock_reach s E \<Longrightarrow> sock_reach (snd (sock_bind i path s)) E"
| by_listen: "sock_reach s E \<Longrightarrow> sock_reach (snd (sock_listen i s)) E"
| by_connect: "sock_reach s E \<Longrightarrow> sock_reach (snd (sock_connect i path s)) E"
| by_accept: "sock_reach s E \<Longrightarrow> sock_reach (snd (sock_accept i s)) E"
| by_send: "sock_reach s E \<Longrightarrow> (\<forall>f \<in> set fds. 0 < E f) \<Longrightarrow>
     (\<forall>f. refcount_of (sk_shm s) f + count_list fds f < 2 ^ 64) \<Longrightarrow>
     sock_send i bytes fds s = Some (r, s') \<Longrightarrow> sock_reach s' E"
| by_recv: "sock_reach s E \<Longrightarrow> sock_recv i n s = ((bs, fds), s') \<Longrightarrow>
     sock_reach s' (\<lambda>f. E f + count_list fds f)"
| by_close: "sock_reach s E \<Longrightarrow> sock_close i s = Some s' \<Longrightarrow> sock_reach s' E"
| by_memfd: "sock_reach s E \<Longrightarrow> shm_create (sk_shm s) = (f, sh) \<Longrightarrow>
     sock_reach (s\<lparr>sk_shm := sh\<rparr>) (E(f := 1))"
| by_truncate: "sock_reach s E \<Longrightarrow> shm_truncate f n (sk_shm s) = Some (b, sh) \<Longrightarrow>
     sock_reach (s\<lparr>sk_shm := sh\<rparr>) E"
| by_dup: "sock_reach s E \<Longrightarrow> 0 < E f \<Longrightarrow> refcount_of (sk_shm s) f + 1 < 2 ^ 64 \<Longrightarrow>
     sock_reach (s\<lparr>sk_shm := shm_dup f (sk_shm s)\<rparr>) (E(f := E f + 1))"
| by_drop: "sock_reach s E \<Longrightarrow> 0 < E f \<Longrightarrow> shm_close f (sk_shm s) = Some sh \<Longrightarrow>
     sock_reach (s\<lparr>sk_shm := sh\<rparr>) (E(f := E f - 1))"

definition refs_ok :: "sock \<Rightarrow> (usize \<Rightarrow> nat) \<Rightarrow> bool" where
  "refs_ok s E \<longleftrightarrow> shm_inv (sk_shm s)
     \<and> (\<forall>f. refcount_of (sk_shm s) f = E f + in_flight (endpoints s) f)"

lemma refs_ok_same: "same_refs s s' \<Longrightarrow> refs_ok s E \<Longrightarrow> refs_ok s' E"
  by (simp add: refs_ok_def same_refs_def)

lemma refs_ok_send:
  assumes ok: "refs_ok s E" and fds: "\<forall>f \<in> set fds. 0 < E f"
    and small: "\<forall>f. refcount_of (sk_shm s) f + count_list fds f < 2 ^ 64"
  shows "\<exists>r s'. sock_send i bytes fds s = Some (r, s') \<and> refs_ok s' E"
proof (cases "peer_of s i")
  case None
  with ok show ?thesis by (simp add: sock_send_def)
next
  case (Some p)
  let ?sh = "fold shm_dup fds (sk_shm s)"
  have "\<forall>f \<in> set fds. 0 < refcount_of (sk_shm s) f" using ok fds by (auto simp: refs_ok_def)
  then have sh: "shm_inv ?sh" "\<forall>f. refcount_of ?sh f = refcount_of (sk_shm s) f + count_list fds f"
    using refcount_dups [of "sk_shm s" fds] ok small by (auto simp: refs_ok_def)
  show ?thesis
  proof (cases "slot (endpoints s) p")
    case None
    with refcount_closes [OF sh(1), of fds] sh(2) ok Some show ?thesis
      by (auto simp: sock_send_def refs_ok_def)
  next
    case peer: (Some ep)
    let ?ep = "ep\<lparr>inbox := inbox ep @ bytes, inbox_fds := inbox_fds ep @ fds\<rparr>"
    have "in_flight (endpoints (set_endpoint p ?ep (s\<lparr>sk_shm := ?sh\<rparr>))) f
        = in_flight (endpoints s) f + count_list fds f" for f
      using in_flight_set_endpoint [of "s\<lparr>sk_shm := ?sh\<rparr>" p ep ?ep f] peer by simp
    with peer Some ok sh show ?thesis by (simp add: sock_send_def refs_ok_def)
  qed
qed

lemma refs_ok_recv:
  assumes "refs_ok s E" "sock_recv i n s = ((bs, fds), s')"
  shows "refs_ok s' (\<lambda>f. E f + count_list fds f)"
proof (cases "slot (endpoints s) i")
  case None
  with assms show ?thesis by (auto simp: sock_recv_def refs_ok_def)
next
  case (Some ep)
  let ?k = "min (length (inbox ep)) n"
  have s': "s' = set_endpoint i (ep\<lparr>inbox := drop ?k (inbox ep), inbox_fds := []\<rparr>) s" "fds = inbox_fds ep"
    using assms(2) Some by (auto simp: sock_recv_def Let_def)
  have "in_flight (endpoints s) f = count_list fds f + in_flight (endpoints s') f" for f
    using in_flight_set_endpoint [OF Some, of "ep\<lparr>inbox := drop ?k (inbox ep), inbox_fds := []\<rparr>" f] s' by simp
  moreover have "sk_shm s' = sk_shm s" by (simp add: s')
  ultimately show ?thesis using assms(1) by (simp add: refs_ok_def)
qed

lemma refs_ok_close:
  assumes "refs_ok s E"
  shows "\<exists>s'. sock_close i s = Some s' \<and> refs_ok s' E"
proof (cases "slot (endpoints s) i")
  case None
  have "in_flight ((endpoints s)[i := None]) f = in_flight (endpoints s) f" if "i < length (endpoints s)" for f
    using in_flight_update [OF that, of None f] None that by (simp add: slot_def)
  with assms None show ?thesis by (simp add: sock_close_def refs_ok_def)
next
  case (Some ep)
  have i: "i < length (endpoints s)" "endpoints s ! i = Some ep" using slot_bound [OF Some] slot_nth [OF Some] by auto
  from refcount_closes [of "sk_shm s" "inbox_fds ep"] assms obtain sh where
    sh: "for_each shm_close (inbox_fds ep) (sk_shm s) = Some sh" "shm_inv sh"
      "\<forall>f. refcount_of sh f = refcount_of (sk_shm s) f - count_list (inbox_fds ep) f"
    by (auto simp: refs_ok_def)
  have "E f + in_flight (endpoints s) f - count_list (inbox_fds ep) f = E f + in_flight ((endpoints s)[i := None]) f" for f
    using in_flight_update [OF i(1), of None f] i(2) by simp
  with assms sh Some i show ?thesis by (simp add: sock_close_def refs_ok_def)
qed

lemma sock_reach_refs: "sock_reach s E \<Longrightarrow> refs_ok s E"
proof (induction rule: sock_reach.induct)
  case (at_boot p m)
  then show ?case by (simp add: refs_ok_def shm_inv_def refcount_of_def)
next
  case (by_send s E fds i bytes r s')
  with refs_ok_send [of s E fds i bytes] show ?case by auto
next
  case (by_recv s E i n bs fds s')
  with refs_ok_recv [OF by_recv.IH by_recv.hyps(2)] show ?case by simp
next
  case (by_close s E i s')
  with refs_ok_close [of s E i] show ?case by auto
next
  case (by_memfd s E f sh)
  then have inv: "shm_inv (sk_shm s)" by (simp add: refs_ok_def)
  from refcount_create [OF inv by_memfd.hyps(2)] shm_create_keeps(1) [OF inv by_memfd.hyps(2)] by_memfd.IH
  show ?case by (auto simp: refs_ok_def shm_keeps_def)
next
  case (by_truncate s E f n b sh)
  with shm_truncate_keeps [of "sk_shm s" f n] refcount_truncate [OF by_truncate.hyps(2)]
  show ?case by (auto simp: refs_ok_def shm_keeps_def)
next
  case (by_dup s E f)
  then have "shm_inv (sk_shm s)" "0 < refcount_of (sk_shm s) f" by (auto simp: refs_ok_def)
  from refcount_dup [OF this by_dup.hyps(3)] by_dup.IH show ?case by (simp add: refs_ok_def)
next
  case (by_drop s E f sh)
  with refcount_close [of "sk_shm s" f] show ?case by (auto simp: refs_ok_def)
qed (rule refs_ok_same [OF same_refs_create] refs_ok_same [OF same_refs_bind] refs_ok_same [OF same_refs_listen]
    refs_ok_same [OF same_refs_connect] refs_ok_same [OF same_refs_accept], assumption)+

section \<open>The byte stream\<close>

text \<open>A run of \<open>send\<close>s by one endpoint and \<open>recv\<close>s by another, with what was accepted for sending and
  what was received.\<close>

datatype stream_op = Send "u8 list" | Recv nat

fun run_stream :: "usize \<Rightarrow> usize \<Rightarrow> stream_op list \<Rightarrow> sock \<Rightarrow> (u8 list \<times> u8 list \<times> sock) exec" where
  "run_stream a b [] s = Some ([], [], s)"
| "run_stream a b (Send bytes # ops) s = do {
     (r, s1) \<leftarrow> sock_send a bytes [] s;
     (snt, rcv, s2) \<leftarrow> run_stream a b ops s1;
     Some ((if r = None then [] else bytes) @ snt, rcv, s2) }"
| "run_stream a b (Recv n # ops) s =
     (let ((bs, fds), s1) = sock_recv b n s
      in do { (snt, rcv, s2) \<leftarrow> run_stream a b ops s1; Some (snt, bs @ rcv, s2) })"

definition inbox_of :: "sock \<Rightarrow> usize \<Rightarrow> u8 list" where
  "inbox_of s i = (case slot (endpoints s) i of None \<Rightarrow> [] | Some ep \<Rightarrow> inbox ep)"

lemma stream_send:
  assumes "peer_of s a = Some b" "slot (endpoints s) b = Some ep"
  shows "\<exists>s'. sock_send a bytes [] s = Some (Some (length bytes), s') \<and> peer_of s' a = Some b
    \<and> slot (endpoints s') b \<noteq> None \<and> inbox_of s' b = inbox_of s b @ bytes"
  using assms slot_set_endpoint [OF assms(2)]
  by (auto simp: sock_send_def inbox_of_def peer_of_def split: option.splits)

lemma stream_recv:
  assumes "peer_of s a = Some b" "slot (endpoints s) b = Some ep" "sock_recv b n s = ((bs, fds), s')"
  shows "peer_of s' a = Some b \<and> slot (endpoints s') b \<noteq> None \<and> bs @ inbox_of s' b = inbox_of s b
    \<and> length bs = min (length (inbox_of s b)) n"
  using assms slot_set_endpoint [OF assms(2)]
  by (auto simp: sock_recv_def inbox_of_def peer_of_def Let_def split: option.splits if_splits)

section \<open>Properties\<close>

text \<open>A listener (0) at the path \<open>w\<close> with one client (1) connected to it through endpoint 2.\<close>

definition demo_sock :: sock where
  "demo_sock =
     (let s0 = \<lparr>endpoints = [], listeners = Map.empty,
                sk_shm = \<lparr>sh_table = [], sh_pmm = pmm_boot, sh_mem = (\<lambda>_. 0)\<rparr>\<rparr>;
          s1 = snd (sock_create s0); s2 = snd (sock_create s1)
      in snd (sock_listen 0 (snd (sock_bind 0 ''w'' s2))))"

definition demo_pair :: sock where
  "demo_pair = snd (sock_connect 1 ''w'' demo_sock)"

lemma demo_sock_reach: "sock_reach demo_sock (\<lambda>_. 0)"
  unfolding demo_sock_def Let_def
  by (intro by_listen by_bind by_create at_boot pmm_inv_boot)

lemma demo_pair_reach: "sock_reach demo_pair (\<lambda>_. 0)"
  unfolding demo_pair_def by (intro by_connect demo_sock_reach)

lemma demo_sock_table:
  "endpoints demo_sock = [Some (endpoint_new\<lparr>role := Listening\<rparr>), Some endpoint_new]"
  "listeners demo_sock = [''w'' \<mapsto> 0]"
  by (simp_all add: demo_sock_def sock_create_def alloc_endpoint_def sock_bind_def sock_listen_def
      set_endpoint_def endpoint_new_def Let_def)

lemma demo_pair_shm: "sk_shm demo_pair = \<lparr>sh_table = [], sh_pmm = pmm_boot, sh_mem = (\<lambda>_. 0)\<rparr>"
  by (simp add: demo_pair_def sock_connect_def demo_sock_table alloc_endpoint_def set_endpoint_def
      demo_sock_def sock_create_def sock_bind_def sock_listen_def endpoint_new_def Let_def)

lemma demo_pair_table:
  "endpoints demo_pair = [Some (endpoint_new\<lparr>role := Listening, backlog := [2]\<rparr>),
     Some (endpoint_new\<lparr>role := Connected 2\<rparr>), Some (endpoint_new\<lparr>role := Connected 1\<rparr>)]"
  by (simp add: demo_pair_def sock_connect_def demo_sock_table alloc_endpoint_def set_endpoint_def endpoint_new_def
      numeral_2_eq_2)

text \<open>C20: Reference counts are exact. In every state reachable by any interleaving of socket,
  shared memory and descriptor operations, the reference count of an object is the number of
  descriptors that hold it plus the number of times it waits in an inbox; so the object is alive
  exactly as long as someone holds it or it is in flight, and \<open>send\<close> to a closed peer, unclaimed
  inboxes of closed endpoints and repeated passing neither leak nor double-free it.\<close>

theorem scm_rights_refcounts:
  assumes "sock_reach s E"
  shows "refcount_of (sk_shm s) f = E f + in_flight (endpoints s) f
    \<and> (slot (sh_table (sk_shm s)) f \<noteq> None \<longleftrightarrow> 0 < E f + in_flight (endpoints s) f)"
proof -
  from sock_reach_refs [OF assms] have ok: "shm_inv (sk_shm s)"
      "refcount_of (sk_shm s) f = E f + in_flight (endpoints s) f"
    by (simp_all add: refs_ok_def)
  with refcount_pos [OF ok(1), of f] show ?thesis by simp
qed

theorem scm_rights_refcounts_witness:
  "\<exists>s. sock_reach s ((\<lambda>_. 0)(0 := 1)) \<and> in_flight (endpoints s) 0 = 1 \<and> refcount_of (sk_shm s) 0 = 2"
proof -
  let ?obj = "\<lambda>n. \<lparr>sm_phys = 0, sm_pages = 0, sm_size = 0, sm_refcount = n\<rparr>"
  let ?sh = "\<lambda>n. \<lparr>sh_table = [Some (?obj n)], sh_pmm = pmm_boot, sh_mem = (\<lambda>_. 0)\<rparr>"
  let ?s = "demo_pair\<lparr>sk_shm := ?sh 1\<rparr>" and ?E = "(\<lambda>_. 0)(0 := 1) :: usize \<Rightarrow> nat"
  have r: "sock_reach ?s ?E"
    using by_memfd [OF demo_pair_reach, of 0 "?sh 1"] by (simp add: demo_pair_shm shm_create_def)
  have d: "shm_dup 0 (?sh 1) = ?sh 2" by (simp add: shm_dup_def wadd_def)
  obtain s where s: "sock_send 1 [7] [0] ?s = Some (Some 1, s)" "in_flight (endpoints s) 0 = 1"
    using d by (simp add: sock_send_def peer_of_def demo_pair_table numeral_2_eq_2 endpoint_new_def set_endpoint_def)
  have "\<forall>f. refcount_of (sk_shm ?s) f + count_list [0] f < 2 ^ 64"
    by (auto simp: refcount_of_def slot_def)
  then have r': "sock_reach s ?E" using by_send [OF r _ _ s(1)] by simp
  from scm_rights_refcounts [OF r', of 0] r' s(2) show ?thesis by auto
qed

text \<open>C26: Delivery is a reliable byte stream. For a connected endpoint whose peer is open, any sequence
  of \<open>send\<close>s and of \<open>recv\<close>s by the peer, with buffers of any sizes, succeeds, and the bytes received,
  followed by what is still in the inbox, are exactly the bytes that were waiting followed by the
  bytes sent, in order.\<close>

theorem stream_in_order:
  assumes "peer_of s a = Some b" "slot (endpoints s) b \<noteq> None"
  shows "\<exists>snt rcv s'. run_stream a b ops s = Some (snt, rcv, s') \<and> rcv @ inbox_of s' b = inbox_of s b @ snt
    \<and> snt = concat (map (\<lambda>x. case x of Send bytes \<Rightarrow> bytes | Recv _ \<Rightarrow> []) ops)"
  using assms
proof (induction ops arbitrary: s)
  case (Cons x ops)
  from Cons.prems(2) obtain ep where ep: "slot (endpoints s) b = Some ep" by auto
  show ?case
  proof (cases x)
    case (Send bytes)
    from stream_send [OF Cons.prems(1) ep, of bytes] obtain s1 where
      s1: "sock_send a bytes [] s = Some (Some (length bytes), s1)" "peer_of s1 a = Some b"
        "slot (endpoints s1) b \<noteq> None" "inbox_of s1 b = inbox_of s b @ bytes"
      by blast
    from Cons.IH [OF s1(2,3)] s1 Send show ?thesis by auto
  next
    case (Recv n)
    obtain bs fds s1 where r: "sock_recv b n s = ((bs, fds), s1)" by (metis surj_pair)
    from stream_recv [OF Cons.prems(1) ep r] have s1: "peer_of s1 a = Some b" "slot (endpoints s1) b \<noteq> None"
        "inbox_of s b = bs @ inbox_of s1 b"
      by simp_all
    from Cons.IH [OF s1(1,2)] s1 r Recv show ?thesis by auto
  qed
qed simp

theorem stream_in_order_witness:
  "peer_of demo_pair 1 = Some 2 \<and>
   (\<exists>snt rcv s'. run_stream 1 2 [Send [1, 2], Recv 1, Send [3], Recv 9] demo_pair = Some (snt, rcv, s')
     \<and> rcv @ inbox_of s' 2 = [1, 2, 3])"
proof -
  have p: "peer_of demo_pair 1 = Some 2" by (simp add: peer_of_def demo_pair_table)
  have q: "slot (endpoints demo_pair) 2 \<noteq> None" "inbox_of demo_pair 2 = []"
    by (simp_all add: inbox_of_def demo_pair_table numeral_2_eq_2 endpoint_new_def)
  from stream_in_order [OF p q(1), of "[Send [1, 2], Recv 1, Send [3], Recv 9]"] obtain snt rcv s' where
    r: "run_stream 1 2 [Send [1, 2], Recv 1, Send [3], Recv 9] demo_pair = Some (snt, rcv, s')"
      "rcv @ inbox_of s' 2 = inbox_of demo_pair 2 @ snt" "snt = [1, 2, 3]"
    by (auto simp del: run_stream.simps)
  then have "rcv @ inbox_of s' 2 = [1, 2, 3]" using q(2) by simp
  with r(1) p show ?thesis by blast
qed

text \<open>The connection handshake. When a path has a live listener and an endpoint other than the
  listener connects to it, the connection succeeds, \<open>accept\<close> delivers connections in the order they
  were made, and for an empty backlog it returns the new server endpoint; client and server are each
  other's peer, and no other endpoint's peer changes.\<close>

theorem connect_accept_pair:
  assumes "listeners s path = Some l" "slot (endpoints s) l = Some lep" "slot (endpoints s) c = Some cep" "c \<noteq> l"
  shows "\<exists>v s1. sock_connect c path s = (True, s1) \<and> slot (endpoints s) v = None
    \<and> peer_of s1 c = Some v \<and> peer_of s1 v = Some c
    \<and> (\<forall>e. e \<noteq> c \<and> e \<noteq> v \<longrightarrow> peer_of s1 e = peer_of s e)
    \<and> fst (sock_accept l s1) = Some (hd (backlog lep @ [v]))"
proof -
  obtain v s0 where a: "alloc_endpoint (endpoint_new\<lparr>role := Connected c\<rparr>) s = (v, s0)"
    by (cases "alloc_endpoint (endpoint_new\<lparr>role := Connected c\<rparr>) s")
  note al = alloc_endpoint_spec [OF a]
  have ne: "v \<noteq> l" "v \<noteq> c" using al(1) assms(2,3) by auto
  let ?lep = "lep\<lparr>backlog := backlog lep @ [v]\<rparr>"
  let ?s1 = "set_endpoint l ?lep s0"
  have l0: "slot (endpoints s0) l = Some lep" using al(2) assms(2) ne by simp
  have t1: "slot (endpoints ?s1) = (slot (endpoints s))(v \<mapsto> endpoint_new\<lparr>role := Connected c\<rparr>, l \<mapsto> ?lep)"
    using slot_set_endpoint [OF l0] al(2) by simp
  have c1: "slot (endpoints ?s1) c = Some cep" using t1 assms(3,4) ne by simp
  let ?s2 = "set_endpoint c (cep\<lparr>role := Connected v\<rparr>) ?s1"
  have t2: "slot (endpoints ?s2) = (slot (endpoints s))(v \<mapsto> endpoint_new\<lparr>role := Connected c\<rparr>, l \<mapsto> ?lep,
      c \<mapsto> cep\<lparr>role := Connected v\<rparr>)"
    using slot_set_endpoint [OF c1] t1 by simp
  have "sock_connect c path s = (True, ?s2)"
    using assms(1) a l0 c1 by (simp add: sock_connect_def)
  moreover have "\<forall>e. e \<noteq> c \<and> e \<noteq> v \<longrightarrow> peer_of ?s2 e = peer_of s e"
    using assms(2) by (auto simp: peer_of_def t2 split: option.splits)
  moreover have "fst (sock_accept l ?s2) = Some (hd (backlog lep @ [v]))"
    using assms(4) ne by (auto simp: sock_accept_def t2 split: list.splits)
  ultimately show ?thesis using al(1) ne by (auto simp: peer_of_def t2)
qed

theorem connect_accept_pair_witness:
  "\<exists>v s1. sock_connect 1 ''w'' demo_sock = (True, s1) \<and> peer_of s1 1 = Some v \<and> peer_of s1 v = Some 1
     \<and> fst (sock_accept 0 s1) = Some v"
  using connect_accept_pair [of demo_sock "''w''" 0 "endpoint_new\<lparr>role := Listening\<rparr>" 1 endpoint_new]
  by (auto simp: demo_sock_table endpoint_new_def)

text \<open>A closed peer is not always noticed. Ids of closed endpoints are reused while the other end
  of the connection keeps the old id: after the server endpoint is closed and an unrelated endpoint
  is created, the client's \<open>send\<close> succeeds and its bytes arrive in the unrelated endpoint's inbox,
  although nothing was connected to it.\<close>

theorem send_after_close_misdelivers:
  "do { s1 \<leftarrow> sock_close 2 demo_pair;
        let (e, s2) = sock_create s1;
        (r, s3) \<leftarrow> sock_send 1 [65] [] s2;
        Some (e, r, peer_of s3 e, inbox_of s3 e) } = Some (2, Some 1, None, [65])"
  by (simp add: sock_close_def sock_create_def alloc_endpoint_def sock_send_def demo_pair_table peer_of_def
      inbox_of_def endpoint_new_def set_endpoint_def numeral_2_eq_2)

end
