(* ===== verification/Elf.thy ===== *)
theory Elf
  imports Machine
begin

text \<open>
  \<open>src/src/elf.rs\<close>: the parser of 64-bit little-endian executables. A result is an error string
  (\<open>Inl\<close>) or a value (\<open>Inr\<close>), under the option of a panic, so that "no input makes it panic" is a
  theorem and not a convention. Strings are their UTF-8 bytes; \<open>utf8_ok\<close> is the validity check of
  \<open>core::str::from_utf8\<close>.
\<close>

section \<open>Results and UTF-8\<close>

type_synonym 'a result = "(string + 'a) exec"

definition Ok :: "'a \<Rightarrow> 'a result" where
  "Ok x = Some (Inr x)"

definition Err :: "string \<Rightarrow> 'a result" where
  "Err e = Some (Inl e)"

text \<open>The \<open>?\<close> operator.\<close>

definition and_then :: "'a result \<Rightarrow> ('a \<Rightarrow> 'b result) \<Rightarrow> 'b result" where
  "and_then r f = (case r of None \<Rightarrow> None | Some (Inl e) \<Rightarrow> Some (Inl e) | Some (Inr x) \<Rightarrow> f x)"

definition ok_or :: "string \<Rightarrow> 'a option \<Rightarrow> 'a result" where
  "ok_or e x = (case x of None \<Rightarrow> Err e | Some v \<Rightarrow> Ok v)"

fun loop_result :: "('a \<Rightarrow> 's \<Rightarrow> 's result) \<Rightarrow> 'a list \<Rightarrow> 's \<Rightarrow> 's result" where
  "loop_result f [] s = Ok s"
| "loop_result f (x # xs) s = and_then (f x s) (loop_result f xs)"

definition is_cont :: "u8 \<Rightarrow> bool" where
  "is_cont b \<longleftrightarrow> 0x80 \<le> b \<and> b \<le> 0xBF"

fun utf8_ok :: "u8 list \<Rightarrow> bool" where
  "utf8_ok [] = True"
| "utf8_ok (a # bs) =
     (if a < 0x80 then utf8_ok bs
      else case bs of
        [] \<Rightarrow> False
      | b # cs \<Rightarrow>
          if 0xC2 \<le> a \<and> a \<le> 0xDF then is_cont b \<and> utf8_ok cs
          else case cs of
            [] \<Rightarrow> False
          | c # ds \<Rightarrow>
              if 0xE0 \<le> a \<and> a \<le> 0xEF then
                is_cont b \<and> (a = 0xE0 \<longrightarrow> 0xA0 \<le> b) \<and> (a = 0xED \<longrightarrow> b \<le> 0x9F) \<and> is_cont c \<and> utf8_ok ds
              else case ds of
                [] \<Rightarrow> False
              | d # es \<Rightarrow>
                  0xF0 \<le> a \<and> a \<le> 0xF4 \<and> is_cont b \<and> (a = 0xF0 \<longrightarrow> 0x90 \<le> b) \<and> (a = 0xF4 \<longrightarrow> b \<le> 0x8F)
                  \<and> is_cont c \<and> is_cont d \<and> utf8_ok es)"

definition trim_end_nul :: "u8 list \<Rightarrow> u8 list" where
  "trim_end_nul bs = rev (dropWhile (\<lambda>b. b = 0) (rev bs))"

section \<open>Headers\<close>

definition ELF_HEADER_SIZE :: usize where "ELF_HEADER_SIZE = 64"
definition PROGRAM_HEADER_SIZE :: u16 where "PROGRAM_HEADER_SIZE = 56"
definition EI_CLASS :: usize where "EI_CLASS = 4"
definition EI_DATA :: usize where "EI_DATA = 5"
definition ELFCLASS64 :: u8 where "ELFCLASS64 = 2"
definition ELFDATA2LSB :: u8 where "ELFDATA2LSB = 1"
definition ET_EXEC :: u16 where "ET_EXEC = 2"
definition ET_DYN :: u16 where "ET_DYN = 3"
definition EM_X86_64 :: u16 where "EM_X86_64 = 0x3E"
definition PT_LOAD :: u32 where "PT_LOAD = 1"
definition PT_INTERP :: u32 where "PT_INTERP = 3"
definition PF_X :: u32 where "PF_X = 1"
definition PF_W :: u32 where "PF_W = 2"

lemmas elf_consts = ELF_HEADER_SIZE_def PROGRAM_HEADER_SIZE_def EI_CLASS_def EI_DATA_def ELFCLASS64_def
  ELFDATA2LSB_def ET_EXEC_def ET_DYN_def EM_X86_64_def PT_LOAD_def PT_INTERP_def PF_X_def PF_W_def

record segment =
  vaddr :: u64
  file_offset :: u64
  filesz :: u64
  memsz :: u64
  writable :: bool
  executable :: bool

record program =
  entry :: u64
  segments :: "segment list"
  is_pie :: bool
  phoff :: u64
  phentsize :: u16
  phnum :: u16
  interp :: "u8 list option"

text \<open>\<open>data.get(off..off + n)\<close> on a slice shorter than \<open>2 ^ 64\<close>: a range whose end wraps is empty or
  reversed and yields \<open>None\<close>, as \<open>slice\<close> does.\<close>

definition elf_u16 :: "u8 list \<Rightarrow> usize \<Rightarrow> u16 result" where
  "elf_u16 data off = ok_or ''truncated ELF header'' (map_option (\<lambda>b. of_nat (le_nat b)) (slice data off 2))"

definition elf_u32 :: "u8 list \<Rightarrow> usize \<Rightarrow> u32 result" where
  "elf_u32 data off = ok_or ''truncated ELF header'' (map_option (\<lambda>b. of_nat (le_nat b)) (slice data off 4))"

definition elf_u64 :: "u8 list \<Rightarrow> usize \<Rightarrow> u64 result" where
  "elf_u64 data off = ok_or ''truncated ELF header'' (map_option (\<lambda>b. of_nat (le_nat b)) (slice data off 8))"

section \<open>The parser\<close>

text \<open>One iteration of the loop over the program headers.\<close>

definition parse_interp :: "u8 list \<Rightarrow> usize \<Rightarrow> u8 list result" where
  "parse_interp data off =
     and_then (elf_u64 data (off + 8)) (\<lambda>p_offset.
     and_then (elf_u64 data (off + 32)) (\<lambda>p_filesz.
     and_then (ok_or ''interp range overflow'' (checked_add p_offset p_filesz)) (\<lambda>e.
     and_then (ok_or ''interp data outside file''
                 (slice data (unat p_offset) (unat e - unat p_offset))) (\<lambda>bytes.
     if utf8_ok bytes then Ok (trim_end_nul bytes) else Err ''invalid interp string''))))"

definition parse_load :: "u8 list \<Rightarrow> usize \<Rightarrow> segment option result" where
  "parse_load data off =
     and_then (elf_u32 data (off + 4)) (\<lambda>p_flags.
     and_then (elf_u64 data (off + 8)) (\<lambda>p_offset.
     and_then (elf_u64 data (off + 16)) (\<lambda>p_vaddr.
     and_then (elf_u64 data (off + 32)) (\<lambda>p_filesz.
     and_then (elf_u64 data (off + 40)) (\<lambda>p_memsz.
     if p_memsz = 0 then Ok None
     else and_then (ok_or ''segment file range overflow'' (checked_add p_offset p_filesz)) (\<lambda>file_end.
       if file_end > of_nat (length data) then Err ''segment data outside file''
       else if p_filesz > p_memsz then Err ''segment filesz exceeds memsz''
       else Ok (Some \<lparr>vaddr = p_vaddr, file_offset = p_offset, filesz = p_filesz, memsz = p_memsz,
                      writable = p_flags AND PF_W \<noteq> 0, executable = p_flags AND PF_X \<noteq> 0\<rparr>)))))))"

definition parse_header ::
  "u8 list \<Rightarrow> u64 \<Rightarrow> u16 \<Rightarrow> nat \<Rightarrow> segment list \<times> u8 list option \<Rightarrow> (segment list \<times> u8 list option) result" where
  "parse_header data phoff' phentsize' i = (\<lambda>(segs, interp').
     let off = unat (phoff' + of_nat i * ucast phentsize')
     in and_then (elf_u32 data off) (\<lambda>p_type.
        if p_type = PT_INTERP then and_then (parse_interp data off) (\<lambda>s. Ok (segs, Some s))
        else if p_type \<noteq> PT_LOAD then Ok (segs, interp')
        else and_then (parse_load data off) (\<lambda>r.
          case r of None \<Rightarrow> Ok (segs, interp') | Some seg \<Rightarrow> Ok (segs @ [seg], interp'))))"

definition elf_parse :: "u8 list \<Rightarrow> program result" where
  "elf_parse data =
     (if length data < ELF_HEADER_SIZE then Err ''truncated ELF header''
      else and_then (map_option Inr (slice data 0 4)) (\<lambda>magic.
      if magic \<noteq> [0x7F, 0x45, 0x4C, 0x46] then Err ''not an ELF file''
      else and_then (map_option Inr (index data EI_CLASS)) (\<lambda>cls.
      if cls \<noteq> ELFCLASS64 then Err ''not a 64-bit ELF''
      else and_then (map_option Inr (index data EI_DATA)) (\<lambda>endian.
      if endian \<noteq> ELFDATA2LSB then Err ''not a little-endian ELF''
      else and_then (elf_u16 data 16) (\<lambda>e_type.
      if e_type \<noteq> ET_EXEC \<and> e_type \<noteq> ET_DYN then Err ''not an executable (ET_EXEC/ET_DYN)''
      else and_then (elf_u16 data 18) (\<lambda>machine.
      if machine \<noteq> EM_X86_64 then Err ''not an x86_64 ELF''
      else
      and_then (elf_u64 data 24) (\<lambda>entry'.
      and_then (elf_u64 data 32) (\<lambda>phoff'.
      and_then (elf_u16 data 54) (\<lambda>phentsize'.
      and_then (elf_u16 data 56) (\<lambda>phnum'.
      if phentsize' \<noteq> PROGRAM_HEADER_SIZE then Err ''unexpected program header size''
      else
      and_then (ok_or ''overflow'' (checked_mul (ucast phnum' :: u64) (ucast phentsize'))) (\<lambda>table.
      and_then (ok_or ''program header table overflow'' (checked_add phoff' table)) (\<lambda>table_end.
      if table_end > of_nat (length data) then Err ''program header table outside file''
      else
      and_then (loop_result (parse_header data phoff' phentsize') [0..<unat phnum'] ([], None)) (\<lambda>(segs, interp').
      if segs = [] then Err ''no loadable segments''
      else Ok \<lparr>entry = entry', segments = segs, is_pie = (e_type = ET_DYN), phoff = phoff',
               phentsize = phentsize', phnum = phnum', interp = interp'\<rparr>)))))))))))))"

section \<open>Outcomes\<close>

text \<open>\<open>holds P r\<close>: no panic, and a value satisfies \<open>P\<close>.\<close>

definition holds :: "('a \<Rightarrow> bool) \<Rightarrow> 'a result \<Rightarrow> bool" where
  "holds P r \<longleftrightarrow> (\<exists>e. r = Err e) \<or> (\<exists>x. r = Ok x \<and> P x)"

lemma holds_simps [simp]: "holds P (Ok x) \<longleftrightarrow> P x" "holds P (Err e)"
  by (auto simp: holds_def Ok_def Err_def)

lemma holds_mono: "holds P r \<Longrightarrow> (\<And>x. P x \<Longrightarrow> Q x) \<Longrightarrow> holds Q r"
  by (auto simp: holds_def)

lemma holds_and_then: "holds P r \<Longrightarrow> (\<And>x. P x \<Longrightarrow> holds Q (f x)) \<Longrightarrow> holds Q (and_then r f)"
  unfolding holds_def and_then_def Ok_def Err_def by fastforce

lemma holds_ok_or: "(\<And>x. v = Some x \<Longrightarrow> P x) \<Longrightarrow> holds P (ok_or e v)"
  by (cases v) (auto simp: ok_or_def)

lemma holds_then_ok_or: "(\<And>x. v = Some x \<Longrightarrow> holds Q (f x)) \<Longrightarrow> holds Q (and_then (ok_or e v) f)"
  by (cases v) (auto simp: ok_or_def and_then_def Ok_def Err_def holds_def)

lemma holds_read [simp]:
  "holds (\<lambda>_. True) (elf_u16 data off)" "holds (\<lambda>_. True) (elf_u32 data off)" "holds (\<lambda>_. True) (elf_u64 data off)"
  by (simp_all add: elf_u16_def elf_u32_def elf_u64_def holds_ok_or)

lemma holds_loop: "(\<And>x s. I s \<Longrightarrow> holds I (f x s)) \<Longrightarrow> I s \<Longrightarrow> holds I (loop_result f xs s)"
  by (induction xs arbitrary: s) (auto intro: holds_and_then)

lemma and_then_Ok [simp]: "and_then (Ok x) f = f x"
  by (simp add: and_then_def Ok_def)

definition segment_ok :: "u8 list \<Rightarrow> segment \<Rightarrow> bool" where
  "segment_ok data seg \<longleftrightarrow> unat (file_offset seg) + unat (filesz seg) \<le> length data
     \<and> filesz seg \<le> memsz seg \<and> memsz seg \<noteq> 0"

lemma parse_load_holds:
  assumes "length data < 2 ^ 64"
  shows "holds (\<lambda>r. \<forall>seg. r = Some seg \<longrightarrow> segment_ok data seg) (parse_load data off)"
proof -
  have le: "file_end \<le> of_nat (length data) \<longleftrightarrow> unat file_end \<le> length data" for file_end :: u64
    using assms by (simp add: word_le_nat_alt unat_of_nat)
  show ?thesis
    unfolding parse_load_def
    apply (rule holds_and_then [OF holds_read(2)])
    apply (rule holds_and_then [OF holds_read(3)])+
    apply (auto simp: not_less le segment_ok_def
        intro!: holds_then_ok_or dest: unat_checked_add)
    done
qed

lemma parse_interp_holds: "holds (\<lambda>_. True) (parse_interp data off)"
  unfolding parse_interp_def
  by (intro holds_and_then [OF holds_read(3)] holds_then_ok_or) simp_all

lemma parse_header_holds:
  assumes "length data < 2 ^ 64" "\<forall>seg \<in> set (fst st). segment_ok data seg"
  shows "holds (\<lambda>st. \<forall>seg \<in> set (fst st). segment_ok data seg) (parse_header data po pe i st)"
proof -
  obtain segs int where st: "st = (segs, int)" by (cases st)
  show ?thesis
    using assms(2) unfolding parse_header_def st Let_def
    by (auto intro!: holds_and_then [OF holds_read(2)] holds_and_then [OF parse_interp_holds]
        holds_and_then [OF parse_load_holds [OF assms(1)]] split: option.splits)
qed

definition program_ok :: "u8 list \<Rightarrow> program \<Rightarrow> bool" where
  "program_ok data prog \<longleftrightarrow> segments prog \<noteq> [] \<and> (\<forall>seg \<in> set (segments prog). segment_ok data seg)
     \<and> phentsize prog = PROGRAM_HEADER_SIZE \<and> unat (phoff prog) + unat (phnum prog) * 56 \<le> length data"

lemma unat_ucast_u16: "unat (ucast n :: u64) = unat n" for n :: u16
proof -
  have "unat n < 2 ^ 64" using unsigned_less [of n, where ?'a = nat] by simp
  then show ?thesis by (simp only: unsigned_ucast_eq) (simp add: take_bit_nat_eq_self)
qed

lemma table_bound:
  assumes "length data < 2 ^ 64" "checked_mul (ucast (n :: u16) :: u64) (ucast PROGRAM_HEADER_SIZE) = Some t"
    "checked_add po t = Some e" "e \<le> of_nat (length data)"
  shows "unat po + unat n * 56 \<le> length data"
proof -
  have "unat t = unat n * 56"
    using unat_checked_mul [OF assms(2)] by (simp add: PROGRAM_HEADER_SIZE_def unat_ucast_u16)
  moreover have "unat e \<le> length data" using assms(1,4) by (simp add: word_le_nat_alt unat_of_nat)
  ultimately show ?thesis using unat_checked_add [OF assms(3)] by simp
qed

lemma elf_parse_holds:
  assumes small: "length data < 2 ^ 64"
  shows "holds (program_ok data) (elf_parse data)"
proof (cases "length data < ELF_HEADER_SIZE")
  case True
  then show ?thesis by (simp add: elf_parse_def)
next
  case False
  then have first: "map_option Inr (slice data 0 4) = Ok (take 4 data)"
      "map_option Inr (index data EI_CLASS) = Ok (data ! EI_CLASS)"
      "map_option Inr (index data EI_DATA) = Ok (data ! EI_DATA)"
    by (simp_all add: slice_def index_def elf_consts Ok_def)
  show ?thesis
    unfolding elf_parse_def first using False
    by (auto simp: program_ok_def not_less
        intro!: holds_and_then [OF holds_read(1)] holds_and_then [OF holds_read(3)]
          holds_then_ok_or
          holds_and_then [OF holds_loop [OF parse_header_holds [OF small]]])
      (erule (2) table_bound [OF small])+
qed

section \<open>A reference encoder\<close>

definition ph_bytes :: "segment \<Rightarrow> u8 list" where
  "ph_bytes seg = to_le 4 1 @ to_le 4 (4 + (if writable seg then 2 else 0) + (if executable seg then 1 else 0))
     @ to_le 8 (unat (file_offset seg)) @ to_le 8 (unat (vaddr seg)) @ to_le 8 (unat (vaddr seg))
     @ to_le 8 (unat (filesz seg)) @ to_le 8 (unat (memsz seg)) @ to_le 8 4096"

definition elf_header :: "bool \<Rightarrow> u64 \<Rightarrow> nat \<Rightarrow> u8 list" where
  "elf_header pie ent n = [0x7F, 0x45, 0x4C, 0x46] @ [2] @ [1] @ replicate 10 0 @ to_le 2 (if pie then 3 else 2)
     @ to_le 2 0x3E @ to_le 4 1 @ to_le 8 (unat ent) @ to_le 8 64 @ to_le 8 0 @ to_le 4 0 @ to_le 2 64
     @ to_le 2 56 @ to_le 2 n @ replicate 6 0"

definition elf_image :: "bool \<Rightarrow> u64 \<Rightarrow> segment list \<Rightarrow> u8 list \<Rightarrow> u8 list" where
  "elf_image pie ent segs body = elf_header pie ent (length segs) @ concat (map ph_bytes segs) @ body"

lemma slice_skip: "length xs \<le> off \<Longrightarrow> slice (xs @ ys) off n = slice ys (off - length xs) n"
  by (auto simp: slice_def)

lemma slice_skip_one: "0 < off \<Longrightarrow> slice (x # ys) off n = slice ys (off - 1) n"
  by (cases off) (auto simp: slice_def)

lemma slice_here: "length xs = n \<Longrightarrow> slice (xs @ ys) 0 n = Some xs"
  by (auto simp: slice_def)

lemma of_le [simp]:
  "(of_nat (le_nat (to_le 2 v)) :: u16) = of_nat v" "(of_nat (le_nat (to_le 4 v)) :: u32) = of_nat v"
  "(of_nat (le_nat (to_le 8 v)) :: u64) = of_nat v"
  by (simp_all add: le_nat_to_le word_unat_eq_iff unat_of_nat)

lemma length_ph_bytes [simp]: "length (ph_bytes seg) = 56"
  by (simp add: ph_bytes_def)

lemma length_elf_header [simp]: "length (elf_header pie ent n) = 64"
  by (simp add: elf_header_def)

lemma length_headers [simp]: "length (concat (map ph_bytes segs)) = 56 * length segs"
  by (induction segs) auto

lemmas field_simps_elf = elf_u16_def elf_u32_def elf_u64_def slice_skip slice_skip_one slice_here ok_or_def

lemma ph_fields:
  assumes "length pre = off"
  shows "elf_u32 (pre @ ph_bytes seg @ post) off = Ok 1"
    "elf_u32 (pre @ ph_bytes seg @ post) (off + 4)
       = Ok (of_nat (4 + (if writable seg then 2 else 0) + (if executable seg then 1 else 0)))"
    "elf_u64 (pre @ ph_bytes seg @ post) (off + 8) = Ok (file_offset seg)"
    "elf_u64 (pre @ ph_bytes seg @ post) (off + 16) = Ok (vaddr seg)"
    "elf_u64 (pre @ ph_bytes seg @ post) (off + 32) = Ok (filesz seg)"
    "elf_u64 (pre @ ph_bytes seg @ post) (off + 40) = Ok (memsz seg)"
  using assms by (simp_all add: field_simps_elf ph_bytes_def del: to_le.simps)

lemma header_fields:
  "slice (elf_header pie ent n @ r) 0 4 = Some [0x7F, 0x45, 0x4C, 0x46]"
  "index (elf_header pie ent n @ r) EI_CLASS = Some 2" "index (elf_header pie ent n @ r) EI_DATA = Some 1"
  "elf_u16 (elf_header pie ent n @ r) 16 = Ok (if pie then 3 else 2)"
  "elf_u16 (elf_header pie ent n @ r) 18 = Ok 0x3E"
  "elf_u64 (elf_header pie ent n @ r) 24 = Ok ent"
  "elf_u64 (elf_header pie ent n @ r) 32 = Ok 64"
  "elf_u16 (elf_header pie ent n @ r) 54 = Ok 56"
  "elf_u16 (elf_header pie ent n @ r) 56 = Ok (of_nat n)"
proof -
  show "slice (elf_header pie ent n @ r) 0 4 = Some [0x7F, 0x45, 0x4C, 0x46]"
    by (simp add: elf_header_def slice_def)
qed (simp_all add: field_simps_elf elf_header_def index_def EI_CLASS_def EI_DATA_def nth_append del: to_le.simps)

lemma flag_bits:
  "(of_nat (4 + (if w then 2 else 0) + (if x then 1 else 0)) :: u32) AND PF_W \<noteq> 0 \<longleftrightarrow> w"
  "(of_nat (4 + (if w then 2 else 0) + (if x then 1 else 0)) :: u32) AND PF_X \<noteq> 0 \<longleftrightarrow> x"
  by (simp_all add: PF_W_def PF_X_def)

lemma parse_load_image:
  assumes "length pre = off" "data = pre @ ph_bytes seg @ post" "segment_ok data seg" "length data < 2 ^ 64"
  shows "parse_load data off = Ok (Some seg)"
proof -
  have "unat (file_offset seg) + unat (filesz seg) < 2 ^ 64" using assms(3,4) by (simp add: segment_ok_def)
  then obtain e where e: "checked_add (file_offset seg) (filesz seg) = Some e"
    by (simp add: checked_add_def)
  have "\<not> e > of_nat (length data)"
    using assms(3,4) unat_checked_add [OF e] by (simp add: segment_ok_def word_less_nat_alt unat_of_nat)
  moreover have "\<not> filesz seg > memsz seg" "memsz seg \<noteq> 0" using assms(3) by (auto simp: segment_ok_def)
  moreover note ph_fields [OF assms(1), of seg post, folded assms(2)]
  ultimately have "parse_load data off = Ok (Some \<lparr>vaddr = vaddr seg, file_offset = file_offset seg,
      filesz = filesz seg, memsz = memsz seg, writable = writable seg, executable = executable seg\<rparr>)"
    using e by (simp add: parse_load_def flag_bits ok_or_def del: of_nat_add)
  also have "\<dots> = Ok (Some seg)" by (cases seg) simp
  finally show ?thesis .
qed

lemma parse_headers_image:
  assumes "length (elf_image pie ent (us @ vs) body) < 2 ^ 64" "length (us @ vs) < 2 ^ 16"
    "\<forall>seg \<in> set vs. segment_ok (elf_image pie ent (us @ vs) body) seg"
  shows "loop_result (parse_header (elf_image pie ent (us @ vs) body) 64 56) [length us..<length (us @ vs)] (us, None)
           = Ok (us @ vs, None)"
  using assms
proof (induction vs arbitrary: us)
  case (Cons seg vs)
  let ?data = "elf_image pie ent (us @ seg # vs) body"
  let ?pre = "elf_header pie ent (length (us @ seg # vs)) @ concat (map ph_bytes us)"
  have data: "?data = ?pre @ ph_bytes seg @ concat (map ph_bytes vs) @ body" by (simp add: elf_image_def)
  have pre: "length ?pre = 64 + 56 * length us" by simp
  have off: "unat (64 + of_nat (length us) * 56 :: u64) = 64 + 56 * length us"
  proof -
    have "(64 + of_nat (length us) * 56 :: u64) = of_nat (64 + 56 * length us)"
      by (simp add: mult.commute)
    then show ?thesis using Cons.prems(2) by (simp only: unat_of_nat) simp
  qed
  have "parse_header ?data 64 56 (length us) (us, None) = Ok (us @ [seg], None)"
    using parse_load_image [OF pre data] Cons.prems ph_fields(1) [OF pre, of seg "concat (map ph_bytes vs) @ body", folded data]
    by (simp add: parse_header_def off Let_def PT_LOAD_def PT_INTERP_def)
  moreover have "[length us..<length (us @ seg # vs)] = length us # [length (us @ [seg])..<length ((us @ [seg]) @ vs)]"
    by (simp add: upt_conv_Cons del: upt_Suc)
  ultimately show ?case using Cons.IH [of "us @ [seg]"] Cons.prems by simp
qed simp

section \<open>Properties\<close>

text \<open>C27: The parser is safe on arbitrary bytes. For every input it returns an error string or a
  program, never a panic; and a program it returns has at least one segment, each segment's file
  range lies inside the file, its file size does not exceed its (nonzero) memory size, and the whole
  program header table lies inside the file, all without wrap-around.\<close>

theorem elf_parse_safe:
  assumes "length data < 2 ^ 64"
  shows "(\<exists>e. elf_parse data = Err e) \<or> (\<exists>prog. elf_parse data = Ok prog \<and> program_ok data prog)"
  using elf_parse_holds [OF assms] by (simp add: holds_def)

theorem elf_parse_safe_witness: "elf_parse [0x7F, 0x45, 0x4C] = Err ''truncated ELF header''
    \<and> ((\<exists>e. elf_parse [0x7F, 0x45, 0x4C] = Err e) \<or> (\<exists>prog. elf_parse [0x7F, 0x45, 0x4C] = Ok prog))"
  using elf_parse_safe [of "[0x7F, 0x45, 0x4C]"] by (auto simp: elf_parse_def ELF_HEADER_SIZE_def)

text \<open>C28: The parser accepts every well-formed image. Encoding an entry point and a list of loadable
  segments as a header, a program header table and any further bytes, then parsing, returns exactly
  that entry point, those segments in order with their permissions, and the position-independence
  flag, provided the segments lie inside the file.\<close>

theorem elf_parse_image:
  assumes "segs \<noteq> []" "length segs < 2 ^ 16" "length (elf_image pie ent segs body) < 2 ^ 64"
    "\<forall>seg \<in> set segs. segment_ok (elf_image pie ent segs body) seg"
  shows "elf_parse (elf_image pie ent segs body) =
    Ok \<lparr>entry = ent, segments = segs, is_pie = pie, phoff = 64, phentsize = 56,
        phnum = of_nat (length segs), interp = None\<rparr>"
proof -
  let ?data = "elf_image pie ent segs body"
  have n: "unat (of_nat (length segs) :: u16) = length segs" using assms(2) by (simp add: unat_of_nat)
  define t where "t = (ucast (of_nat (length segs) :: u16) :: u64) * ucast (56 :: u16)"
  have len: "length ?data = 64 + 56 * length segs + length body" by (simp add: elf_image_def)
  have "unat (ucast (of_nat (length segs) :: u16) :: u64) * unat (ucast (56 :: u16) :: u64) = length segs * 56"
    by (simp only: unat_ucast_u16 n) simp
  then have t: "checked_mul (ucast (of_nat (length segs) :: u16) :: u64) (ucast (56 :: u16)) = Some t"
      "unat t = length segs * 56"
    using assms(3) len by (auto simp: checked_mul_def t_def unat_word_ariths)
  then have e: "checked_add 64 t = Some (64 + t)"
    using assms(3) len by (simp add: checked_add_def)
  have "unat (of_nat (length ?data) :: u64) = length ?data" using assms(3) by (simp only: unat_of_nat) simp
  then have "\<not> 64 + t > of_nat (length ?data)"
    using unat_checked_add [OF e] t(2) len by (simp only: word_less_nat_alt) simp
  note e = e this
  note loop = parse_headers_image [of pie ent "[]" segs body, simplified]
  have "\<not> length ?data < 64" using len by simp
  then show ?thesis
    using assms header_fields [of pie ent "length segs" "concat (map ph_bytes segs) @ body", folded elf_image_def]
      t e loop n
    by (simp add: elf_parse_def elf_consts ok_or_def Ok_def [symmetric])
qed

theorem elf_parse_image_witness:
  "\<exists>prog. elf_parse (elf_image True 0x40 [\<lparr>vaddr = 0x1000, file_offset = 0, filesz = 120, memsz = 4096,
       writable = False, executable = True\<rparr>] []) = Ok prog \<and> entry prog = 0x40 \<and> is_pie prog"
  using elf_parse_image [where body = "[]" and ent = "0x40" and pie = True and
      segs = "[\<lparr>vaddr = 0x1000, file_offset = 0, filesz = 120, memsz = 4096, writable = False, executable = True\<rparr>]"]
  by (auto simp: segment_ok_def elf_image_def)

end
