(* ===== verification/Rtc.thy ===== *)
theory Rtc
  imports Machine
begin

text \<open>
  \<open>src/src/rtc.rs\<close>: reading the wall clock from the CMOS registers. The chip is a parameter: \<open>dev t r\<close> is
  what the \<open>t\<close>-th register read returns when the index latched is \<open>r\<close> (with the NMI mask bit the code
  sets). The wait for a running update may last arbitrarily long, so the reader is partial and its
  termination is part of what is proved.
\<close>

section \<open>Model\<close>

record date_time =
  year :: u16
  month :: u8
  day :: u8
  hour :: u8
  minute :: u8
  second :: u8

definition REG_SECONDS :: u8 where "REG_SECONDS = 0x00"
definition REG_MINUTES :: u8 where "REG_MINUTES = 0x02"
definition REG_HOURS :: u8 where "REG_HOURS = 0x04"
definition REG_DAY :: u8 where "REG_DAY = 0x07"
definition REG_MONTH :: u8 where "REG_MONTH = 0x08"
definition REG_YEAR :: u8 where "REG_YEAR = 0x09"
definition REG_STATUS_A :: u8 where "REG_STATUS_A = 0x0A"
definition REG_STATUS_B :: u8 where "REG_STATUS_B = 0x0B"
definition REG_CENTURY :: u8 where "REG_CENTURY = 0x32"
definition STATUS_A_UIP :: u8 where "STATUS_A_UIP = 0x80"
definition STATUS_B_BINARY :: u8 where "STATUS_B_BINARY = 0x04"
definition STATUS_B_24H :: u8 where "STATUS_B_24H = 0x02"

lemmas rtc_consts = REG_SECONDS_def REG_MINUTES_def REG_HOURS_def REG_DAY_def REG_MONTH_def REG_YEAR_def
  REG_STATUS_A_def REG_STATUS_B_def REG_CENTURY_def STATUS_A_UIP_def STATUS_B_BINARY_def STATUS_B_24H_def

definition read_cmos :: "(nat \<Rightarrow> u8 \<Rightarrow> u8) \<Rightarrow> nat \<Rightarrow> u8 \<Rightarrow> u8" where
  "read_cmos dev t reg = dev t (reg OR 0x80)"

definition bcd_to_bin :: "u8 \<Rightarrow> u8" where
  "bcd_to_bin v = (v AND 0x0F) + drop_bit 4 v * 10"

text \<open>The loop that waits out an update: the number of the read after the first clear status.\<close>

partial_function (option) wait_uip :: "(nat \<Rightarrow> u8 \<Rightarrow> u8) \<Rightarrow> nat \<Rightarrow> nat option" where
  "wait_uip dev t = (if read_cmos dev t REG_STATUS_A AND STATUS_A_UIP \<noteq> 0 then wait_uip dev (t + 1) else Some (t + 1))"

definition hour_12 :: "u8 \<Rightarrow> u8" where
  "hour_12 h =
     (let pm = h AND 0x80 \<noteq> 0; h' = h AND 0x7F
      in if pm \<and> h' < 12 then h' + 12 else if \<not> pm \<and> h' = 12 then 0 else h')"

definition rtc_now :: "(nat \<Rightarrow> u8 \<Rightarrow> u8) \<Rightarrow> nat \<Rightarrow> date_time option" where
  "rtc_now dev t0 = do {
     t \<leftarrow> wait_uip dev t0;
     let status_b = read_cmos dev t REG_STATUS_B;
     let binary = (status_b AND STATUS_B_BINARY \<noteq> 0);
     let hour24 = (status_b AND STATUS_B_24H \<noteq> 0);
     let s0 = read_cmos dev (t + 1) REG_SECONDS;
     let mi0 = read_cmos dev (t + 2) REG_MINUTES;
     let h0 = read_cmos dev (t + 3) REG_HOURS;
     let d0 = read_cmos dev (t + 4) REG_DAY;
     let mo0 = read_cmos dev (t + 5) REG_MONTH;
     let y0 = read_cmos dev (t + 6) REG_YEAR;
     let c0 = read_cmos dev (t + 7) REG_CENTURY;
     let (s, mi, h, d, mo, y, c) =
       (if \<not> binary then (bcd_to_bin s0, bcd_to_bin mi0, bcd_to_bin (h0 AND 0x7F), bcd_to_bin d0,
                          bcd_to_bin mo0, bcd_to_bin y0, bcd_to_bin c0)
        else (s0, mi0, h0, d0, mo0, y0, c0));
     let h' = (if \<not> hour24 then hour_12 h else h);
     let c' = (if 19 \<le> c \<and> c \<le> 20 then c else 20);
     Some \<lparr>year = ucast c' * 100 + ucast y, month = mo, day = d, hour = h', minute = mi, second = s\<rparr> }"

section \<open>How the chip encodes a time\<close>

definition to_bcd :: "nat \<Rightarrow> u8" where
  "to_bcd n = of_nat (n div 10 * 16 + n mod 10)"

definition reg_value :: "bool \<Rightarrow> nat \<Rightarrow> u8" where
  "reg_value binary n = (if binary then of_nat n else to_bcd n)"

text \<open>The hour register: in 12-hour mode midnight and noon are 12 and bit 7 marks the afternoon.\<close>

definition hour_reg :: "bool \<Rightarrow> bool \<Rightarrow> nat \<Rightarrow> u8" where
  "hour_reg binary hour24 h =
     (if hour24 then reg_value binary h
      else reg_value binary (if h mod 12 = 0 then 12 else h mod 12) OR (if 12 \<le> h then 0x80 else 0))"

definition valid_time :: "nat \<Rightarrow> nat \<Rightarrow> nat \<Rightarrow> nat \<Rightarrow> nat \<Rightarrow> nat \<Rightarrow> bool" where
  "valid_time y mo d h mi s \<longleftrightarrow> 1900 \<le> y \<and> y < 2100 \<and> mo < 100 \<and> d < 100 \<and> h < 24 \<and> mi < 60 \<and> s < 60"

text \<open>\<open>shows_time\<close>: from read \<open>n\<close> on, no update is running and the registers hold this time.\<close>

definition shows_time ::
  "(nat \<Rightarrow> u8 \<Rightarrow> u8) \<Rightarrow> nat \<Rightarrow> bool \<Rightarrow> bool \<Rightarrow> nat \<Rightarrow> nat \<Rightarrow> nat \<Rightarrow> nat \<Rightarrow> nat \<Rightarrow> nat \<Rightarrow> bool" where
  "shows_time dev n binary hour24 y mo d h mi s \<longleftrightarrow>
     read_cmos dev n REG_STATUS_A AND STATUS_A_UIP = 0
     \<and> (\<forall>k > n. read_cmos dev k REG_STATUS_B = (if binary then 4 else 0) OR (if hour24 then 2 else 0)
        \<and> read_cmos dev k REG_SECONDS = reg_value binary s \<and> read_cmos dev k REG_MINUTES = reg_value binary mi
        \<and> read_cmos dev k REG_HOURS = hour_reg binary hour24 h \<and> read_cmos dev k REG_DAY = reg_value binary d
        \<and> read_cmos dev k REG_MONTH = reg_value binary mo \<and> read_cmos dev k REG_YEAR = reg_value binary (y mod 100)
        \<and> read_cmos dev k REG_CENTURY = reg_value binary (y div 100))"

lemma wait_uip_first:
  assumes "read_cmos dev n REG_STATUS_A AND STATUS_A_UIP = 0" "t \<le> n"
    "\<forall>k. t \<le> k \<and> k < n \<longrightarrow> read_cmos dev k REG_STATUS_A AND STATUS_A_UIP \<noteq> 0"
  shows "wait_uip dev t = Some (n + 1)"
  using assms
proof (induction "n - t" arbitrary: t)
  case 0
  then show ?case by (subst wait_uip.simps) simp
next
  case (Suc m)
  then have "read_cmos dev t REG_STATUS_A AND STATUS_A_UIP \<noteq> 0" by simp
  then have "wait_uip dev t = wait_uip dev (t + 1)" by (subst wait_uip.simps) simp
  also have "\<dots> = Some (n + 1)" using Suc by (intro Suc.hyps) auto
  finally show ?case .
qed

lemma bcd_roundtrip_all: "\<forall>n \<in> set [0..<100]. bcd_to_bin (to_bcd n) = of_nat n"
  by code_simp

lemma bcd_roundtrip: "n < 100 \<Longrightarrow> bcd_to_bin (to_bcd n) = of_nat n"
  using bcd_roundtrip_all by simp

lemma hour_all:
  "\<forall>h \<in> set [0..<24]. hour_12 (hour_reg True False h) = of_nat h
      \<and> bcd_to_bin (hour_reg False True h AND 0x7F) = of_nat h
      \<and> hour_12 (bcd_to_bin (hour_reg False False h AND 0x7F)) = of_nat (if h = 12 then 0 else h mod 12)"
  by code_simp

lemma hour_cases:
  assumes "h < 24"
  shows "hour_12 (hour_reg True False h) = of_nat h" "hour_reg True True h = of_nat h"
    "bcd_to_bin (hour_reg False True h AND 0x7F) = of_nat h"
    "hour_12 (bcd_to_bin (hour_reg False False h AND 0x7F)) = of_nat (if h = 12 then 0 else h mod 12)"
  using hour_all assms by (simp_all add: hour_reg_def reg_value_def)

lemma status_bits:
  "((if binary then 4 else 0) OR (if hour24 then 2 else 0) :: u8) AND 4 \<noteq> 0 \<longleftrightarrow> binary"
  "((if binary then 4 else 0) OR (if hour24 then 2 else 0) :: u8) AND 2 \<noteq> 0 \<longleftrightarrow> hour24"
  by (cases binary; cases hour24; simp)+

lemma century_year:
  assumes "1900 \<le> y" "y < 2100"
  shows "19 \<le> (of_nat (y div 100) :: u8) \<and> (of_nat (y div 100) :: u8) \<le> 20"
    "ucast (of_nat (y div 100) :: u8) * 100 + ucast (of_nat (y mod 100) :: u8) = (of_nat y :: u16)"
proof -
  from assms have c: "y div 100 = 19 \<or> y div 100 = 20" by auto
  then show "19 \<le> (of_nat (y div 100) :: u8) \<and> (of_nat (y div 100) :: u8) \<le> 20" by auto
  have "y mod 100 < 100" by simp
  then have m: "unat (of_nat (y mod 100) :: u8) = y mod 100" by (simp only: unat_of_nat) simp
  have "ucast (of_nat (y mod 100) :: u8) = (of_nat (y mod 100) :: u16)"
    using m by (metis of_nat_unat)
  moreover have "ucast (of_nat (y div 100) :: u8) = (of_nat (y div 100) :: u16)" using c by auto
  moreover have "(of_nat (y div 100) :: u16) * 100 + of_nat (y mod 100) = of_nat (y div 100 * 100 + y mod 100)"
    by (simp only: of_nat_add of_nat_mult of_nat_numeral)
  ultimately show "ucast (of_nat (y div 100) :: u8) * 100 + ucast (of_nat (y mod 100) :: u8) = (of_nat y :: u16)"
    by (simp only: div_mult_mod_eq)
qed

lemma rtc_now_shown:
  assumes sh: "shows_time dev n binary hour24 y mo d h mi s" and v: "valid_time y mo d h mi s"
    and w: "t \<le> n" "\<forall>k. t \<le> k \<and> k < n \<longrightarrow> read_cmos dev k REG_STATUS_A AND STATUS_A_UIP \<noteq> 0"
  shows "rtc_now dev t = Some \<lparr>year = of_nat y, month = of_nat mo, day = of_nat d,
     hour = (if binary \<or> hour24 then of_nat h else of_nat (if h = 12 then 0 else h mod 12)),
     minute = of_nat mi, second = of_nat s\<rparr>"
proof -
  have "wait_uip dev t = Some (n + 1)" using sh w by (intro wait_uip_first) (simp_all add: shows_time_def)
  moreover have "y div 100 < 100" using v by (auto simp: valid_time_def)
  moreover have "y mod 100 < 100" by simp
  ultimately show ?thesis
    using sh v century_year [of y] hour_cases [of h] status_bits [of binary hour24]
    by (cases binary; cases hour24)
      (simp_all add: rtc_now_def shows_time_def valid_time_def Let_def reg_value_def bcd_roundtrip
        STATUS_B_BINARY_def STATUS_B_24H_def)
qed

section \<open>Properties\<close>

text \<open>C30: The clock is read correctly. If at some read the chip stops updating and its registers hold
  a date between 1900 and 2099 in binary or 24-hour encoding, the call waits exactly for that read,
  returns, and gives exactly that date and time, whatever mode bits select the encoding.\<close>

theorem rtc_now_correct:
  assumes "shows_time dev n binary hour24 y mo d h mi s" "valid_time y mo d h mi s" "binary \<or> hour24"
    "t \<le> n" "\<forall>k. t \<le> k \<and> k < n \<longrightarrow> read_cmos dev k REG_STATUS_A AND STATUS_A_UIP \<noteq> 0"
  shows "rtc_now dev t = Some \<lparr>year = of_nat y, month = of_nat mo, day = of_nat d, hour = of_nat h,
     minute = of_nat mi, second = of_nat s\<rparr>"
  using rtc_now_shown [OF assms(1,2,4,5)] assms(3) by simp

text \<open>A chip that shows 2026-07-14 13:05:09, after an update that lasts two reads.\<close>

definition demo_cmos :: "bool \<Rightarrow> bool \<Rightarrow> nat \<Rightarrow> u8 \<Rightarrow> u8" where
  "demo_cmos binary hour24 t r =
     (let reg = r AND 0x7F
      in if reg = 0x0A then (if t < 2 then 0x80 else 0)
         else if reg = 0x0B then (if binary then 4 else 0) OR (if hour24 then 2 else 0)
         else if reg = 0x00 then reg_value binary 9 else if reg = 0x02 then reg_value binary 5
         else if reg = 0x04 then hour_reg binary hour24 13 else if reg = 0x07 then reg_value binary 14
         else if reg = 0x08 then reg_value binary 7 else if reg = 0x09 then reg_value binary 26
         else reg_value binary 20)"

lemma demo_cmos_shows: "shows_time (demo_cmos b f) 2 b f 2026 7 14 13 5 9"
  "\<forall>k. 0 \<le> k \<and> k < 2 \<longrightarrow> read_cmos (demo_cmos b f) k REG_STATUS_A AND STATUS_A_UIP \<noteq> 0"
  by (simp_all add: shows_time_def demo_cmos_def read_cmos_def rtc_consts Let_def)

theorem rtc_now_correct_witness:
  "rtc_now (demo_cmos False True) 0 = Some \<lparr>year = 2026, month = 7, day = 14, hour = 13, minute = 5, second = 9\<rparr>"
  using rtc_now_correct [OF demo_cmos_shows(1) _ _ _ demo_cmos_shows(2), of False True]
  by (simp add: valid_time_def)

text \<open>In BCD 12-hour mode the afternoon is lost. The code clears bit 7 of the hour register before it
  tests that bit, so every time is reported as a morning time: 13:05 comes out as 01:05 and noon as 00.\<close>

theorem rtc_bcd_12h_loses_pm:
  assumes "shows_time dev n False False y mo d h mi s" "valid_time y mo d h mi s"
    "t \<le> n" "\<forall>k. t \<le> k \<and> k < n \<longrightarrow> read_cmos dev k REG_STATUS_A AND STATUS_A_UIP \<noteq> 0"
  shows "map_option hour (rtc_now dev t) = Some (of_nat (h mod 12))"
  using rtc_now_shown [OF assms] by (cases "h = 12") simp_all

theorem rtc_bcd_12h_loses_pm_witness: "map_option hour (rtc_now (demo_cmos False False) 0) = Some 1"
  using rtc_bcd_12h_loses_pm [OF demo_cmos_shows(1) _ _ demo_cmos_shows(2)]
  by (simp add: valid_time_def)

end
