(* ===== verification/Fat.thy ===== *)
theory Fat
  imports Rtc Elf
begin

text \<open>
  \<open>src/src/fat.rs\<close>: the FAT32 file system. The state is the mounted volume: its geometry, the FAT
  cached in memory with its dirty map, and the disk, a function from sector numbers to 512 bytes
  together with the transfers that fail (the polled driver \<open>ata.rs\<close> is hardware). An operation
  returns its result or error together with the volume, because an operation that fails half way
  leaves what it has changed; an index out of bounds is a panic (\<open>None\<close>). Strings are UTF-8 bytes.
\<close>

section \<open>Errors, disk and volume\<close>

datatype fat_error = NoDisk | Io string | InvalidVolume | NotFound | NotDir | AlreadyExists | NotEmpty
  | InvalidName | OutOfSpace | Corrupt

record disk =
  sectors :: "nat \<Rightarrow> u8 list"
  io_err :: "nat \<Rightarrow> string option"

definition read_sectors :: "nat \<Rightarrow> disk \<Rightarrow> string + u8 list" where
  "read_sectors lba d =
     (if lba \<ge> 2 ^ 28 then Inl ''LBA28 range exceeded''
      else case io_err d lba of Some e \<Rightarrow> Inl e | None \<Rightarrow> Inr (sectors d lba))"

definition write_sectors :: "nat \<Rightarrow> u8 list \<Rightarrow> disk \<Rightarrow> (string + unit) \<times> disk" where
  "write_sectors lba buf d =
     (if lba \<ge> 2 ^ 28 then (Inl ''LBA28 range exceeded'', d)
      else case io_err d lba of Some e \<Rightarrow> (Inl e, d)
           | None \<Rightarrow> (Inr (), d\<lparr>sectors := (sectors d)(lba := buf)\<rparr>))"

definition EOF_MARK :: u32 where "EOF_MARK = 0x0FFFFFFF"
definition CLUSTER_MASK :: u32 where "CLUSTER_MASK = 0x0FFFFFFF"
definition CHAIN_GUARD :: nat where "CHAIN_GUARD = 1000000"
definition MAX_NAME :: nat where "MAX_NAME = 128"

record dir_entry =
  de_name :: "u8 list"
  de_is_dir :: bool
  de_size :: u32
  de_first_cluster :: u32
  location :: "u32 \<times> usize"

record fat32 =
  device :: disk
  sectors_per_cluster :: u8
  reserved_sectors :: u32
  fat_count :: u8
  fat_size_sectors :: u32
  root_cluster :: u32
  first_data_sector :: u32
  total_sectors :: u32
  fat :: "u32 list"
  fat_dirty :: "bool list"
  free_clusters :: u32

text \<open>Operations on the volume.\<close>

type_synonym 'a fop = "(fat32, fat_error, 'a) op"

definition rd :: "nat \<Rightarrow> u8 list fop" where
  "rd lba v = (case read_sectors lba (device v) of Inl e \<Rightarrow> Some (Inl (Io e), v) | Inr b \<Rightarrow> Some (Inr b, v))"

definition wrs :: "nat \<Rightarrow> u8 list \<Rightarrow> unit fop" where
  "wrs lba buf v = (case write_sectors lba buf (device v) of
     (Inl e, d) \<Rightarrow> Some (Inl (Io e), v\<lparr>device := d\<rparr>) | (Inr _, d) \<Rightarrow> Some (Inr (), v\<lparr>device := d\<rparr>))"

definition le16 :: "u8 list \<Rightarrow> nat \<Rightarrow> nat" where "le16 b i = le_nat [b ! i, b ! (i + 1)]"
definition le32 :: "u8 list \<Rightarrow> nat \<Rightarrow> u32" where
  "le32 b i = of_nat (le_nat [b ! i, b ! (i + 1), b ! (i + 2), b ! (i + 3)])"

section \<open>Mounting\<close>

definition is_power_of_two :: "u8 \<Rightarrow> bool" where
  "is_power_of_two b \<longleftrightarrow> b \<noteq> 0 \<and> b AND (b - 1) = 0"

text \<open>The loop that reads the FAT, sector by sector.\<close>

fun read_fat :: "disk \<Rightarrow> u32 \<Rightarrow> nat list \<Rightarrow> fat_error + u32 list" where
  "read_fat d reserved [] = Inr []"
| "read_fat d reserved (i # is) =
     (case read_sectors (unat (reserved + of_nat i)) d of
        Inl e \<Rightarrow> Inl (Io e)
      | Inr buf \<Rightarrow> (case read_fat d reserved is of
            Inl e \<Rightarrow> Inl e
          | Inr rest \<Rightarrow> Inr (map (\<lambda>j. le32 buf (4 * j)) [0..<128] @ rest)))"

definition fat_open :: "disk \<Rightarrow> fat_error + fat32" where
  "fat_open d = (case read_sectors 0 d of Inl e \<Rightarrow> Inl (Io e) | Inr sector \<Rightarrow>
     let bytes_per_sector = le16 sector 0x0B; spc = sector ! 0x0D; reserved = of_nat (le16 sector 0x0E);
         count = sector ! 0x10; total = le32 sector 0x20; fsize = le32 sector 0x24; root = le32 sector 0x2C
     in if bytes_per_sector \<noteq> 512 \<or> spc = 0 \<or> \<not> is_power_of_two spc \<or> sector ! 0x1FE \<noteq> 0x55
           \<or> sector ! 0x1FF \<noteq> 0xAA \<or> fsize = 0 \<or> root < 2 \<or> total = 0
        then Inl InvalidVolume
        else case read_fat d reserved [0..<unat fsize] of Inl e \<Rightarrow> Inl e | Inr table \<Rightarrow>
          Inr \<lparr>device = d, sectors_per_cluster = spc, reserved_sectors = reserved, fat_count = count,
               fat_size_sectors = fsize, root_cluster = root,
               first_data_sector = reserved + of_nat (unat count) * fsize, total_sectors = total, fat = table,
               fat_dirty = replicate (unat fsize) False, free_clusters = 0\<rparr>)"

definition scan_free_clusters :: "fat32 \<Rightarrow> fat32 exec" where
  "scan_free_clusters v = (if length (fat v) < 2 then None
     else Some (v\<lparr>free_clusters := of_nat (length (filter (\<lambda>e. e AND CLUSTER_MASK = 0) (drop 2 (fat v))))\<rparr>))"

section \<open>Clusters\<close>

definition cluster_to_sector :: "fat32 \<Rightarrow> u32 \<Rightarrow> nat" where
  "cluster_to_sector v c = unat (first_data_sector v + (c - 2) * of_nat (unat (sectors_per_cluster v)))"

definition next_cluster :: "u32 \<Rightarrow> fat32 \<Rightarrow> u32 exec" where
  "next_cluster c v = (if unat c < length (fat v) then Some (fat v ! unat c AND CLUSTER_MASK) else None)"

definition is_eof :: "u32 \<Rightarrow> bool" where "is_eof c \<longleftrightarrow> c \<ge> EOF_MARK"

definition cluster_bytes :: "fat32 \<Rightarrow> usize" where
  "cluster_bytes v = unat (sectors_per_cluster v) * 512"

definition set_cluster :: "u32 \<Rightarrow> u32 \<Rightarrow> unit fop" where
  "set_cluster c x v = (if unat c < length (fat v) \<and> unat c div 128 < length (fat_dirty v)
     then Some (Inr (), v\<lparr>fat := (fat v)[unat c := x], fat_dirty := (fat_dirty v)[unat c div 128 := True]\<rparr>)
     else None)"

fun first_free :: "u32 list \<Rightarrow> nat list \<Rightarrow> nat option" where
  "first_free table [] = None"
| "first_free table (c # cs) = (if table ! c AND CLUSTER_MASK = 0 then Some c else first_free table cs)"

definition alloc_cluster :: "u32 fop" where
  "alloc_cluster v = (case first_free (fat v) [2..<length (fat v)] of
     None \<Rightarrow> Some (Inl OutOfSpace, v)
   | Some c \<Rightarrow> bnd (set_cluster (of_nat c) EOF_MARK) (\<lambda>_ v.
       Some (Inr (of_nat c), v\<lparr>free_clusters := (if free_clusters v = 0 then 0 else free_clusters v - 1)\<rparr>)) v)"

function free_chain_loop :: "nat \<Rightarrow> u32 \<Rightarrow> unit fop" where
  "free_chain_loop guard c v =
     (if is_eof c then Some (Inr (), v)
      else if c < 2 \<or> guard > CHAIN_GUARD then Some (Inl Corrupt, v)
      else case next_cluster c v of None \<Rightarrow> None
           | Some nxt \<Rightarrow> (case set_cluster c 0 v of
               None \<Rightarrow> None
             | Some (_, v') \<Rightarrow> free_chain_loop (guard + 1) nxt (v'\<lparr>free_clusters := free_clusters v' + 1\<rparr>)))"
  by pat_completeness auto
termination
  by (relation "measure (\<lambda>(guard, c, v). CHAIN_GUARD + 1 - guard)") auto

definition free_chain :: "u32 \<Rightarrow> unit fop" where "free_chain c = free_chain_loop 0 c"

text \<open>\<open>flush_fat\<close> writes the dirty sectors of the FAT back.\<close>

fun flush_loop :: "nat list \<Rightarrow> unit fop" where
  "flush_loop [] v = Some (Inr (), v)"
| "flush_loop (i # is) v =
     (if \<not> fat_dirty v ! i then flush_loop is v
      else if length (fat v) < i * 128 + 128 then None
      else bnd (wrs (unat (reserved_sectors v + of_nat i))
                  (concat (map (\<lambda>j. to_le 4 (unat (fat v ! (i * 128 + j)))) [0..<128])))
             (\<lambda>_ v. flush_loop is (v\<lparr>fat_dirty := (fat_dirty v)[i := False]\<rparr>)) v)"

definition flush_fat :: "unit fop" where
  "flush_fat v = flush_loop [0..<length (fat_dirty v)] v"

section \<open>Names\<close>

text \<open>\<open>str::chars\<close> on valid UTF-8, as code points.\<close>

fun utf8_chars :: "u8 list \<Rightarrow> nat list" where
  "utf8_chars [] = []"
| "utf8_chars (a # bs) =
     (if a < 0x80 then unat a # utf8_chars bs
      else case bs of
        b # cs \<Rightarrow>
          if a < 0xE0 then (unat a mod 32 * 64 + unat b mod 64) # utf8_chars cs
          else (case cs of
            c # ds \<Rightarrow>
              if a < 0xF0 then (unat a mod 16 * 4096 + unat b mod 64 * 64 + unat c mod 64) # utf8_chars ds
              else (case ds of
                d # es \<Rightarrow> (unat a mod 8 * 262144 + unat b mod 64 * 4096 + unat c mod 64 * 64 + unat d mod 64) # utf8_chars es
              | [] \<Rightarrow> [])
          | [] \<Rightarrow> [])
      | [] \<Rightarrow> [])"

text \<open>One step of \<open>String::from_utf8_lossy\<close>: whether the bytes start with a character, and how many
  bytes the character or the part to be replaced has.\<close>

definition utf8_step :: "u8 list \<Rightarrow> bool \<times> nat" where
  "utf8_step bs =
     (let a = bs ! 0; at = (\<lambda>i. if i < length bs then bs ! i else 0)
      in if a < 0x80 then (True, 1)
         else if 0xC2 \<le> a \<and> a \<le> 0xDF then (if is_cont (at 1) then (True, 2) else (False, 1))
         else if 0xE0 \<le> a \<and> a \<le> 0xEF then
           (if is_cont (at 1) \<and> (a = 0xE0 \<longrightarrow> 0xA0 \<le> at 1) \<and> (a = 0xED \<longrightarrow> at 1 \<le> 0x9F)
            then (if is_cont (at 2) then (True, 3) else (False, 2)) else (False, 1))
         else if 0xF0 \<le> a \<and> a \<le> 0xF4 then
           (if is_cont (at 1) \<and> (a = 0xF0 \<longrightarrow> 0x90 \<le> at 1) \<and> (a = 0xF4 \<longrightarrow> at 1 \<le> 0x8F)
            then (if is_cont (at 2) then (if is_cont (at 3) then (True, 4) else (False, 3)) else (False, 2)) else (False, 1))
         else (False, 1))"

lemma utf8_step_pos: "0 < snd (utf8_step bs)"
  by (simp add: utf8_step_def Let_def)

function from_utf8_lossy :: "u8 list \<Rightarrow> u8 list" where
  "from_utf8_lossy bs =
     (if bs = [] then []
      else let (good, n) = utf8_step bs
           in (if good then take n bs else [0xEF, 0xBF, 0xBD]) @ from_utf8_lossy (drop n bs))"
  by pat_completeness auto
termination
proof (relation "measure length")
  fix bs x good n
  assume "bs \<noteq> []" "x = utf8_step bs" "(good, n) = x"
  then show "(drop n bs, bs) \<in> measure length"
    using utf8_step_pos [of bs] by (cases bs) (auto simp: prod_eq_iff)
qed simp

definition position :: "('a \<Rightarrow> bool) \<Rightarrow> 'a list \<Rightarrow> nat option" where
  "position p xs = (let n = length (takeWhile (\<lambda>x. \<not> p x) xs) in if n < length xs then Some n else None)"

definition unwrap_or :: "'a \<Rightarrow> 'a option \<Rightarrow> 'a" where
  "unwrap_or d x = (case x of None \<Rightarrow> d | Some y \<Rightarrow> y)"

definition is_ascii_alphanumeric :: "u8 \<Rightarrow> bool" where
  "is_ascii_alphanumeric b \<longleftrightarrow> 48 \<le> b \<and> b \<le> 57 \<or> 65 \<le> b \<and> b \<le> 90 \<or> 97 \<le> b \<and> b \<le> 122"

definition to_ascii_uppercase :: "u8 \<Rightarrow> u8" where
  "to_ascii_uppercase b = (if 97 \<le> b \<and> b \<le> 122 then b - 32 else b)"

definition to_ascii_lowercase :: "u8 \<Rightarrow> u8" where
  "to_ascii_lowercase b = (if 65 \<le> b \<and> b \<le> 90 then b + 32 else b)"

definition validate_name :: "u8 list \<Rightarrow> bool" where
  "validate_name name \<longleftrightarrow> name \<noteq> [] \<and> length name \<le> MAX_NAME \<and> hd name \<noteq> 46
     \<and> \<not> (\<exists>c \<in> set name. c < 32 \<or> c = 127 \<or> c = 47)"

text \<open>The characters \<open>$ % ' - _ @ ~ ` ! ( ) { } ^ # &\<close> beside letters and digits.\<close>

definition is_sfn_char :: "u8 \<Rightarrow> bool" where
  "is_sfn_char b \<longleftrightarrow> is_ascii_alphanumeric b
     \<or> b \<in> set [36, 37, 39, 45, 95, 64, 126, 96, 33, 40, 41, 123, 125, 94, 35, 38]"

fun rfind :: "u8 \<Rightarrow> u8 list \<Rightarrow> nat option" where
  "rfind c [] = None"
| "rfind c (x # xs) = (case rfind c xs of Some i \<Rightarrow> Some (i + 1) | None \<Rightarrow> if x = c then Some 0 else None)"

definition sfn_field :: "nat \<Rightarrow> u8 list \<Rightarrow> u8 list" where
  "sfn_field n bs = (let cs = take n (map to_ascii_uppercase (filter is_sfn_char bs))
     in cs @ replicate (n - length cs) 32)"

definition make_sfn :: "u8 list \<Rightarrow> u8 list" where
  "make_sfn name = (let stem_end = unwrap_or (length name) (rfind 46 name);
       stem = take stem_end name; ext = (if stem_end < length name then drop (stem_end + 1) name else [])
     in sfn_field 8 stem @ sfn_field 3 ext)"

definition sfn_checksum :: "u8 list \<Rightarrow> u8" where
  "sfn_checksum sfn = fold (\<lambda>b sum. (push_bit 7 (sum AND 1) OR drop_bit 1 sum) + b) sfn 0"

definition sfn_name :: "u8 list \<Rightarrow> u8 list" where
  "sfn_name sfn = (let stem_end = unwrap_or 8 (position (\<lambda>b. b = 32) (take 8 sfn));
       ext_end = unwrap_or 3 (position (\<lambda>b. b = 32) (drop 8 sfn))
     in (if stem_end > 0 then from_utf8_lossy (take stem_end sfn) else [])
        @ (if ext_end > 0 then 46 # from_utf8_lossy (take ext_end (drop 8 sfn)) else []))"

definition name_matches :: "u8 list \<Rightarrow> u8 list \<Rightarrow> bool" where
  "name_matches entry_name needle \<longleftrightarrow> map to_ascii_lowercase entry_name = map to_ascii_lowercase needle"

text \<open>Long names: 13 UTF-16 units per entry.\<close>

fun take_name :: "nat list \<Rightarrow> u8 list" where
  "take_name [] = []"
| "take_name (c # cs) = (if c = 0 \<or> c = 0xFFFF then [] else (if c < 0x80 then of_nat c else 63) # take_name cs)"

definition assemble_lfn :: "nat list list \<Rightarrow> u8 list" where
  "assemble_lfn parts = take_name (concat parts)"

definition lfn_part :: "u8 list \<Rightarrow> nat \<Rightarrow> nat list" where
  "lfn_part sector off = map (\<lambda>i. le16 sector (off + 1 + 2 * i)) [0..<5]
     @ map (\<lambda>i. le16 sector (off + 14 + 2 * i)) [0..<6] @ map (\<lambda>i. le16 sector (off + 28 + 2 * i)) [0..<2]"

definition unit_bytes :: "nat list \<Rightarrow> u8 list" where
  "unit_bytes cs = concat (map (\<lambda>c. [of_nat (c mod 256), of_nat (c div 256)]) cs)"

definition lfn_entry_bytes :: "u8 \<Rightarrow> nat list \<Rightarrow> bool \<Rightarrow> u8 \<Rightarrow> u8 list" where
  "lfn_entry_bytes sq part is_last checksum =
     [sq OR (if is_last then 0x40 else 0)] @ unit_bytes (take 5 part) @ [0x0F, 0, checksum]
     @ unit_bytes (take 6 (drop 5 part)) @ [0, 0] @ unit_bytes (take 2 (drop 11 part))"

definition fat_datetime :: "date_time \<Rightarrow> u16 \<times> u16" where
  "fat_datetime dt =
     (let y = min (unat (year dt) - 1980) 127;
          date = push_bit 9 (of_nat y) OR push_bit 5 (of_nat (unat (month dt)) AND 0x0F) OR (of_nat (unat (day dt)) AND 0x1F);
          time = push_bit 11 (of_nat (unat (hour dt)) AND 0x1F) OR push_bit 5 (of_nat (unat (minute dt)) AND 0x3F)
                 OR (of_nat (unat (second dt) div 2) AND 0x1F)
      in (date, time))"

section \<open>Directories\<close>

definition parse_slot :: "u32 \<Rightarrow> nat \<Rightarrow> u8 list \<Rightarrow> nat \<Rightarrow> nat list list \<Rightarrow> dir_entry" where
  "parse_slot current s sector off parts =
     \<lparr>de_name = (if parts = [] then sfn_name (take 11 (drop off sector)) else assemble_lfn parts),
      de_is_dir = (sector ! (off + 0x0B) AND 0x10 \<noteq> 0), de_size = le32 sector (off + 0x1C),
      de_first_cluster = push_bit 16 (of_nat (le16 sector (off + 0x14))) OR of_nat (le16 sector (off + 0x1A)),
      location = (current, s * 512 + off)\<rparr>"

text \<open>The slots of one sector; the first component tells that the end of the directory was met.\<close>

fun scan_slots :: "u32 \<Rightarrow> nat \<Rightarrow> u8 list \<Rightarrow> nat list \<Rightarrow> nat list list \<times> dir_entry list \<Rightarrow> bool \<times> nat list list \<times> dir_entry list" where
  "scan_slots current s sector [] (parts, out) = (False, parts, out)"
| "scan_slots current s sector (off # offs) (parts, out) =
     (if sector ! off = 0 then (True, parts, out)
      else if sector ! off = 0xE5 then scan_slots current s sector offs ([], out)
      else if sector ! (off + 0x0B) = 0x0F then scan_slots current s sector offs (lfn_part sector off # parts, out)
      else let e = parse_slot current s sector off parts
           in scan_slots current s sector offs
                ([], if de_name e \<noteq> [] \<and> de_name e \<noteq> [46] \<and> de_name e \<noteq> [46, 46] then out @ [e] else out))"

definition slot_offsets :: "nat list" where "slot_offsets = map (\<lambda>i. 32 * i) [0..<16]"

fun scan_sectors :: "u32 \<Rightarrow> nat list \<Rightarrow> nat list list \<times> dir_entry list \<Rightarrow> (bool \<times> nat list list \<times> dir_entry list) fop" where
  "scan_sectors current [] (parts, out) v = Some (Inr (False, parts, out), v)"
| "scan_sectors current (s # ss) (parts, out) v =
     bnd (rd (cluster_to_sector v current + s)) (\<lambda>sector.
       case scan_slots current s sector slot_offsets (parts, out) of
         (True, p, o') \<Rightarrow> ret (True, p, o')
       | (False, p, o') \<Rightarrow> scan_sectors current ss (p, o')) v"

function read_dir_loop :: "nat \<Rightarrow> u32 \<Rightarrow> nat list list \<times> dir_entry list \<Rightarrow> dir_entry list fop" where
  "read_dir_loop guard current st v =
     (case scan_sectors current [0..<unat (sectors_per_cluster v)] st v of
        None \<Rightarrow> None
      | Some (Inl e, v') \<Rightarrow> Some (Inl e, v')
      | Some (Inr (fin, parts, out), v') \<Rightarrow>
          if fin then Some (Inr out, v')
          else (case next_cluster current v' of None \<Rightarrow> None
                | Some nxt \<Rightarrow>
                    if is_eof nxt then Some (Inr out, v')
                    else if nxt < 2 \<or> guard + 1 > CHAIN_GUARD then Some (Inl Corrupt, v')
                    else read_dir_loop (guard + 1) nxt (parts, out) v'))"
  by pat_completeness auto
termination
  by (relation "measure (\<lambda>(guard, c, st, v). CHAIN_GUARD + 1 - guard)") auto

definition read_dir :: "u32 \<Rightarrow> dir_entry list fop" where
  "read_dir cluster = read_dir_loop 0 cluster ([], [])"

definition find_dir_entry :: "u32 \<Rightarrow> u8 list \<Rightarrow> dir_entry option fop" where
  "find_dir_entry parent name v = (case read_dir parent v of
     None \<Rightarrow> None
   | Some (Inl _, v') \<Rightarrow> Some (Inr None, v')
   | Some (Inr entries, v') \<Rightarrow> Some (Inr (find (\<lambda>e. name_matches (de_name e) name) entries), v'))"

fun split_on :: "u8 \<Rightarrow> u8 list \<Rightarrow> u8 list list" where
  "split_on c [] = [[]]"
| "split_on c (x # xs) = (if x = c then [] # split_on c xs
     else (case split_on c xs of [] \<Rightarrow> [[x]] | y # ys \<Rightarrow> (x # y) # ys))"

definition components :: "u8 list \<Rightarrow> u8 list list" where
  "components path = filter (\<lambda>c. c \<noteq> []) (split_on 47 path)"

fun walk_dirs :: "u32 \<Rightarrow> u8 list list \<Rightarrow> u32 fop" where
  "walk_dirs cluster [] v = Some (Inr cluster, v)"
| "walk_dirs cluster (nm # nms) v =
     bnd (read_dir cluster) (\<lambda>entries.
       case find (\<lambda>e. de_is_dir e \<and> name_matches (de_name e) nm) entries of
         None \<Rightarrow> fail NotFound
       | Some d \<Rightarrow> walk_dirs (de_first_cluster d) nms) v"

definition resolve_parent :: "u8 list \<Rightarrow> (u32 \<times> u8 list) fop" where
  "resolve_parent path v =
     (let parts = components path
      in if parts = [] then Some (Inl InvalidName, v)
         else if length (last parts) > MAX_NAME then Some (Inl InvalidName, v)
         else bnd (walk_dirs (root_cluster v) (butlast parts)) (\<lambda>c. ret (c, last parts)) v)"

section \<open>File contents\<close>

fun read_cluster :: "u32 \<Rightarrow> nat list \<Rightarrow> nat \<times> u8 list \<Rightarrow> (nat \<times> u8 list) fop" where
  "read_cluster c [] st v = Some (Inr st, v)"
| "read_cluster c (s # ss) (remaining, data) v =
     bnd (rd (cluster_to_sector v c + s)) (\<lambda>sector.
       let tk = min remaining 512; st' = (remaining - tk, data @ take tk sector)
       in if remaining - tk = 0 then ret st' else read_cluster c ss st') v"

function read_data_loop :: "nat \<Rightarrow> u32 \<Rightarrow> nat \<times> u8 list \<Rightarrow> u8 list fop" where
  "read_data_loop guard c st v =
     (if fst st = 0 then Some (Inr (snd st), v)
      else if c < 2 \<or> guard > CHAIN_GUARD then Some (Inl Corrupt, v)
      else case read_cluster c [0..<unat (sectors_per_cluster v)] st v of
        None \<Rightarrow> None
      | Some (Inl e, v') \<Rightarrow> Some (Inl e, v')
      | Some (Inr st', v') \<Rightarrow> (case next_cluster c v' of None \<Rightarrow> None
          | Some nxt \<Rightarrow> if fst st' > 0 \<and> is_eof nxt then Some (Inl Corrupt, v')
                        else read_data_loop (guard + 1) nxt st' v'))"
  by pat_completeness auto
termination
  by (relation "measure (\<lambda>(guard, c, st, v). CHAIN_GUARD + 1 - guard)") auto

definition read_file_data :: "u32 \<Rightarrow> nat \<Rightarrow> u8 list fop" where
  "read_file_data first_cluster n = (if n = 0 then ret [] else read_data_loop 0 first_cluster (n, []))"

section \<open>Changing a directory\<close>

text \<open>The entries of the long name before the slot, cleared backwards while they last.\<close>

function clear_lfn :: "nat \<Rightarrow> u8 list \<Rightarrow> u8 list" where
  "clear_lfn back sector =
     (if back \<ge> 32 \<and> sector ! (back - 32 + 0x0B) = 0x0F then clear_lfn (back - 32) (sector[back - 32 := 0xE5]) else sector)"
  by pat_completeness auto
termination
  by (relation "measure fst") auto

definition delete_entry_at :: "u32 \<Rightarrow> usize \<Rightarrow> unit fop" where
  "delete_entry_at cluster offset v =
     (let lba = cluster_to_sector v cluster + offset div 512; slot = offset mod 512
      in bnd (rd lba) (\<lambda>sector. wrs lba (clear_lfn slot (sector[slot := 0xE5]))) v)"

text \<open>The first run of free slots in a sector, by its start.\<close>

fun run_in_sector :: "u8 list \<Rightarrow> nat \<Rightarrow> nat \<Rightarrow> nat list \<Rightarrow> nat option" where
  "run_in_sector sector slots run [] = None"
| "run_in_sector sector slots run (off # offs) =
     (let run' = (if sector ! off = 0 \<or> sector ! off = 0xE5 then run + 1 else 0)
      in if run' = slots then Some (off + 32 - slots * 32) else run_in_sector sector slots run' offs)"

fun run_in_cluster :: "u32 \<Rightarrow> nat \<Rightarrow> nat list \<Rightarrow> (u32 \<times> usize) option fop" where
  "run_in_cluster current slots [] v = Some (Inr None, v)"
| "run_in_cluster current slots (s # ss) v =
     bnd (rd (cluster_to_sector v current + s)) (\<lambda>sector.
       case run_in_sector sector slots 0 slot_offsets of
         Some off \<Rightarrow> ret (Some (current, off)) | None \<Rightarrow> run_in_cluster current slots ss) v"

function find_free_run_loop :: "nat \<Rightarrow> u32 \<Rightarrow> nat \<Rightarrow> (u32 \<times> usize) option fop" where
  "find_free_run_loop guard current slots v =
     (case run_in_cluster current slots [0..<unat (sectors_per_cluster v)] v of
        None \<Rightarrow> None
      | Some (Inl e, v') \<Rightarrow> Some (Inl e, v')
      | Some (Inr (Some place), v') \<Rightarrow> Some (Inr (Some place), v')
      | Some (Inr None, v') \<Rightarrow> (case next_cluster current v' of None \<Rightarrow> None
          | Some nxt \<Rightarrow> if is_eof nxt then Some (Inr None, v')
                        else if guard + 1 > CHAIN_GUARD then Some (Inl Corrupt, v')
                        else find_free_run_loop (guard + 1) nxt slots v'))"
  by pat_completeness auto
termination
  by (relation "measure (\<lambda>(guard, c, slots, v). CHAIN_GUARD + 1 - guard)") auto

definition find_free_run :: "u32 \<Rightarrow> nat \<Rightarrow> (u32 \<times> usize) option fop" where
  "find_free_run parent slots = find_free_run_loop 0 parent slots"

function chain_end :: "nat \<Rightarrow> u32 \<Rightarrow> u32 fop" where
  "chain_end guard current v =
     (case next_cluster current v of None \<Rightarrow> None
      | Some nxt \<Rightarrow> if is_eof nxt then Some (Inr current, v)
                    else if guard + 1 > CHAIN_GUARD then Some (Inl Corrupt, v)
                    else chain_end (guard + 1) nxt v)"
  by pat_completeness auto
termination
  by (relation "measure (\<lambda>(guard, c, v). CHAIN_GUARD + 1 - guard)") auto

fun zero_sectors :: "u32 \<Rightarrow> nat list \<Rightarrow> unit fop" where
  "zero_sectors c [] v = Some (Inr (), v)"
| "zero_sectors c (s # ss) v = bnd (wrs (cluster_to_sector v c + s) (replicate 512 0)) (\<lambda>_. zero_sectors c ss) v"

definition extend_dir :: "u32 \<Rightarrow> u32 fop" where
  "extend_dir parent = bnd alloc_cluster (\<lambda>new_cluster.
     bnd (chain_end 0 parent) (\<lambda>current.
     bnd (set_cluster current new_cluster) (\<lambda>_.
     bnd (gets sectors_per_cluster) (\<lambda>spc.
     bnd (zero_sectors new_cluster [0..<unat spc]) (\<lambda>_. ret new_cluster)))))"

text \<open>The entries of a name: the parts of the long name from the last to the first, then the short entry.\<close>

definition lfn_fill :: "nat list \<Rightarrow> bool \<Rightarrow> nat list" where
  "lfn_fill cs last_part = (let n = min 13 (length cs)
     in take n cs @ (if last_part \<and> n < 13 then 0 # replicate (12 - n) 0xFFFF else replicate (13 - n) 0xFFFF))"

definition lfn_entries :: "nat list \<Rightarrow> u8 \<Rightarrow> u8 list list" where
  "lfn_entries cs checksum = (let count = div_ceil (length cs) 13
     in map (\<lambda>i. lfn_entry_bytes (of_nat (i + 1)) (lfn_fill (drop (i * 13) cs) (i = count - 1)) (i = count - 1) checksum)
          (rev [0..<count]))"

definition sfn_entry :: "u8 list \<Rightarrow> date_time \<Rightarrow> u32 \<Rightarrow> u32 \<Rightarrow> bool \<Rightarrow> u8 list" where
  "sfn_entry sfn now first_cluster n is_dir =
     (let (date, time) = fat_datetime now; d = to_le 2 (unat date); t = to_le 2 (unat time); c = unat first_cluster
      in sfn @ [if is_dir then 0x10 else 0x20, 0, 0] @ t @ d @ d @ to_le 2 (c div 65536) @ t @ d
         @ to_le 2 (c mod 65536) @ to_le 4 (unat n))"

definition name_entries :: "u8 list \<Rightarrow> date_time \<Rightarrow> u32 \<Rightarrow> u32 \<Rightarrow> bool \<Rightarrow> u8 list list" where
  "name_entries name now first_cluster n is_dir =
     lfn_entries (map (\<lambda>c. c mod 65536) (utf8_chars name)) (sfn_checksum (make_sfn name))
     @ [sfn_entry (make_sfn name) now first_cluster n is_dir]"

text \<open>\<open>sector[off..off + len].copy_from_slice(bytes)\<close>; out of range it panics.\<close>

definition splice :: "u8 list \<Rightarrow> nat \<Rightarrow> u8 list \<Rightarrow> u8 list exec" where
  "splice sector off bytes = (if off + length bytes \<le> length sector
     then Some (take off sector @ bytes @ drop (off + length bytes) sector) else None)"

text \<open>\<open>now\<close> is the reading of the clock, \<open>rtc::now()\<close>.\<close>

definition write_dir_entries :: "date_time \<Rightarrow> u32 \<Rightarrow> u8 list \<Rightarrow> u32 \<Rightarrow> u32 \<Rightarrow> bool \<Rightarrow> unit fop" where
  "write_dir_entries now parent name first_cluster n is_dir =
     (let entries = name_entries name now first_cluster n is_dir
      in bnd (find_free_run parent (length entries)) (\<lambda>found.
         bnd (case found of Some place \<Rightarrow> ret place | None \<Rightarrow> bnd (extend_dir parent) (\<lambda>c. ret (c, 0))) (\<lambda>(cluster, offset).
         bnd (gets (\<lambda>v. cluster_to_sector v cluster + offset div 512)) (\<lambda>lba.
         bnd (rd lba) (\<lambda>sector.
         bnd (panics (\<lambda>_. splice sector (offset mod 512) (concat entries))) (\<lambda>sector'.
         wrs lba sector'))))))"

section \<open>Files and directories\<close>

fun alloc_clusters :: "nat \<Rightarrow> u32 list fop" where
  "alloc_clusters 0 v = Some (Inr [], v)"
| "alloc_clusters (Suc n) v = bnd alloc_cluster (\<lambda>c. bnd (alloc_clusters n) (\<lambda>cs. ret (c # cs))) v"

fun link_clusters :: "u32 list \<Rightarrow> unit fop" where
  "link_clusters [] v = Some (Inr (), v)"
| "link_clusters [c] v = set_cluster c EOF_MARK v"
| "link_clusters (c # d # cs) v = bnd (set_cluster c d) (\<lambda>_. link_clusters (d # cs)) v"

fun write_cluster :: "u32 \<Rightarrow> nat list \<Rightarrow> u8 list \<Rightarrow> u8 list fop" where
  "write_cluster c [] rest v = Some (Inr rest, v)"
| "write_cluster c (s # ss) rest v =
     (let tk = min (length rest) 512
      in bnd (wrs (cluster_to_sector v c + s) (take tk rest @ replicate (512 - tk) 0)) (\<lambda>_.
           if drop tk rest = [] then ret [] else write_cluster c ss (drop tk rest)) v)"

fun write_clusters :: "u32 list \<Rightarrow> u8 list \<Rightarrow> unit fop" where
  "write_clusters [] rest v = Some (Inr (), v)"
| "write_clusters (c # cs) rest v =
     bnd (write_cluster c [0..<unat (sectors_per_cluster v)] rest) (\<lambda>rest'.
       if rest' = [] then ret () else write_clusters cs rest') v"

definition drop_existing :: "dir_entry option \<Rightarrow> unit fop" where
  "drop_existing x = (case x of None \<Rightarrow> ret () | Some e \<Rightarrow>
     if de_is_dir e then fail NotDir
     else bnd (delete_entry_at (fst (location e)) (snd (location e))) (\<lambda>_.
            if de_first_cluster e \<noteq> 0 then free_chain (de_first_cluster e) else ret ()))"

definition store_content :: "u8 list \<Rightarrow> u32 fop" where
  "store_content content v =
     (let needed = div_ceil (length content) (cluster_bytes v)
      in if needed > 0 then
           bnd (alloc_clusters needed) (\<lambda>clusters.
           bnd (link_clusters clusters) (\<lambda>_.
           bnd (write_clusters clusters content) (\<lambda>_. ret (hd clusters)))) v
         else Some (Inr 0, v))"

definition write_file_impl :: "date_time \<Rightarrow> u8 list \<Rightarrow> u8 list \<Rightarrow> unit fop" where
  "write_file_impl now path content =
     bnd (resolve_parent path) (\<lambda>(parent, name).
     if \<not> validate_name name then fail InvalidName
     else bnd (find_dir_entry parent name) (\<lambda>existing.
          bnd (drop_existing existing) (\<lambda>_.
          bnd (store_content content) (\<lambda>first_cluster.
          bnd (write_dir_entries now parent name first_cluster (of_nat (length content)) False) (\<lambda>_. flush_fat)))))"

definition dot_entry :: "u8 list \<Rightarrow> u32 \<Rightarrow> u8 list" where
  "dot_entry name c = name @ replicate (11 - length name) 32 @ [0x10] @ replicate 8 0 @ to_le 2 (unat c div 65536)
     @ replicate 4 0 @ to_le 2 (unat c mod 65536) @ replicate 4 0"

definition make_dir_impl :: "date_time \<Rightarrow> u8 list \<Rightarrow> unit fop" where
  "make_dir_impl now path =
     bnd (resolve_parent path) (\<lambda>(parent, name).
     if \<not> validate_name name then fail InvalidName
     else bnd (find_dir_entry parent name) (\<lambda>existing.
          if existing \<noteq> None then fail AlreadyExists
          else bnd alloc_cluster (\<lambda>cluster.
               bnd (set_cluster cluster EOF_MARK) (\<lambda>_.
               bnd (gets (\<lambda>v. cluster_to_sector v cluster)) (\<lambda>lba.
               bnd (wrs lba (dot_entry [46] cluster @ dot_entry [46, 46] parent @ replicate 448 0)) (\<lambda>_.
               bnd (write_dir_entries now parent name cluster 0 True) (\<lambda>_. flush_fat)))))))"

definition remove_impl :: "u8 list \<Rightarrow> unit fop" where
  "remove_impl path =
     bnd (resolve_parent path) (\<lambda>(parent, name).
     bnd (find_dir_entry parent name) (\<lambda>found. case found of None \<Rightarrow> fail NotFound | Some e \<Rightarrow>
     bnd (if de_is_dir e then bnd (read_dir (de_first_cluster e)) (\<lambda>contents. if contents \<noteq> [] then fail NotEmpty else ret ())
          else ret ()) (\<lambda>_.
     bnd (delete_entry_at (fst (location e)) (snd (location e))) (\<lambda>_.
     bnd (if de_first_cluster e \<noteq> 0 then free_chain (de_first_cluster e) else ret ()) (\<lambda>_. flush_fat)))))"

definition rename_impl :: "date_time \<Rightarrow> u8 list \<Rightarrow> u8 list \<Rightarrow> unit fop" where
  "rename_impl now path new_name =
     bnd (resolve_parent path) (\<lambda>(parent, name).
     if \<not> validate_name new_name then fail InvalidName
     else if name = new_name then ret ()
     else bnd (find_dir_entry parent name) (\<lambda>found. case found of None \<Rightarrow> fail NotFound | Some e \<Rightarrow>
          bnd (find_dir_entry parent new_name) (\<lambda>clash. if clash \<noteq> None then fail AlreadyExists
          else bnd (delete_entry_at (fst (location e)) (snd (location e))) (\<lambda>_.
               bnd (write_dir_entries now parent new_name (de_first_cluster e) (de_size e) (de_is_dir e)) (\<lambda>_. flush_fat)))))"

section \<open>The mounted volume\<close>

type_synonym mounted = "fat32 option"

type_synonym 'a mop = "mounted \<Rightarrow> ((fat_error + 'a) \<times> mounted) exec"

definition with_volume :: "'a fop \<Rightarrow> 'a mop" where
  "with_volume f m = (case m of None \<Rightarrow> Some (Inl NoDisk, None)
     | Some v \<Rightarrow> (case f v of None \<Rightarrow> None | Some (r, v') \<Rightarrow> Some (r, Some v')))"

definition mount :: "disk option \<Rightarrow> unit mop" where
  "mount dev m = (case dev of None \<Rightarrow> Some (Inl NoDisk, m)
     | Some d \<Rightarrow> (case fat_open d of Inl e \<Rightarrow> Some (Inl e, m)
         | Inr v \<Rightarrow> (case scan_free_clusters v of None \<Rightarrow> None | Some v' \<Rightarrow> Some (Inr (), Some v'))))"

definition list_dir :: "u8 list \<Rightarrow> dir_entry list mop" where
  "list_dir path = with_volume (\<lambda>v. bnd (walk_dirs (root_cluster v) (components path)) read_dir v)"

definition read_file :: "u8 list \<Rightarrow> u8 list mop" where
  "read_file path = with_volume (bnd (resolve_parent path) (\<lambda>(parent, name).
     bnd (read_dir parent) (\<lambda>entries.
     case find (\<lambda>e. \<not> de_is_dir e \<and> name_matches (de_name e) name) entries of
       None \<Rightarrow> fail NotFound
     | Some e \<Rightarrow> read_file_data (de_first_cluster e) (unat (de_size e)))))"

definition write_file :: "date_time \<Rightarrow> u8 list \<Rightarrow> u8 list \<Rightarrow> unit mop" where
  "write_file now path content = with_volume (write_file_impl now path content)"

definition make_dir :: "date_time \<Rightarrow> u8 list \<Rightarrow> unit mop" where
  "make_dir now path = with_volume (make_dir_impl now path)"

definition remove :: "u8 list \<Rightarrow> unit mop" where
  "remove path = with_volume (remove_impl path)"

definition rename :: "date_time \<Rightarrow> u8 list \<Rightarrow> u8 list \<Rightarrow> unit mop" where
  "rename now path new_name = with_volume (rename_impl now path new_name)"

definition fat_is_dir :: "u8 list \<Rightarrow> bool mop" where
  "fat_is_dir path = with_volume (\<lambda>v. if path = [47] then Some (Inr True, v)
     else bnd (resolve_parent path) (\<lambda>(parent, name).
          bnd (find_dir_entry parent name) (\<lambda>x. case x of Some e \<Rightarrow> ret (de_is_dir e) | None \<Rightarrow> fail NotFound)) v)"

definition and_then_m :: "'a mop \<Rightarrow> ('a \<Rightarrow> 'b mop) \<Rightarrow> 'b mop" where
  "and_then_m f k m = (case f m of None \<Rightarrow> None | Some (Inl e, m') \<Rightarrow> Some (Inl e, m') | Some (Inr x, m') \<Rightarrow> k x m')"

definition move_file :: "date_time \<Rightarrow> u8 list \<Rightarrow> u8 list \<Rightarrow> unit mop" where
  "move_file now src_path dst m =
     (if src_path = dst then Some (Inr (), m)
      else and_then_m (fat_is_dir src_path) (\<lambda>d.
        if d then and_then_m (list_dir src_path) (\<lambda>es. if es \<noteq> [] then (\<lambda>m. Some (Inl NotEmpty, m))
               else and_then_m (make_dir now dst) (\<lambda>_. remove src_path))
        else and_then_m (read_file src_path) (\<lambda>data. and_then_m (write_file now dst data) (\<lambda>_. remove src_path))) m)"

record volume_info =
  vi_total_sectors :: u32
  vi_sectors_per_cluster :: u8
  vi_fat_sectors :: u32
  vi_free_clusters :: u32
  vi_root_cluster :: u32

definition fat_info :: "mounted \<Rightarrow> volume_info option" where
  "fat_info m = map_option (\<lambda>v. \<lparr>vi_total_sectors = total_sectors v, vi_sectors_per_cluster = sectors_per_cluster v,
     vi_fat_sectors = fat_size_sectors v, vi_free_clusters = free_clusters v, vi_root_cluster = root_cluster v\<rparr>) m"

end
