(* ===== verification/Fat_Volume.thy ===== *)
theory Fat_Volume
  imports Fat
begin

text \<open>
  The contents of files on a FAT32 volume: the sectors of a cluster, chains of clusters, allocation,
  and the round trip of a file's bytes through \<open>store_content\<close> and \<open>read_file_data\<close>.
\<close>

section \<open>Volumes in good order\<close>

abbreviation spc :: "fat32 \<Rightarrow> nat" where "spc v \<equiv> unat (sectors_per_cluster v)"
abbreviation sec :: "fat32 \<Rightarrow> nat \<Rightarrow> u8 list" where "sec v l \<equiv> sectors (device v) l"

text \<open>The geometry fits the 28-bit sector numbers, every transfer succeeds, and sectors have 512 bytes.\<close>

definition fat_wf :: "fat32 \<Rightarrow> bool" where
  "fat_wf v \<longleftrightarrow> 0 < spc v \<and> length (fat v) = 128 * length (fat_dirty v)
     \<and> unat (first_data_sector v) + length (fat v) * spc v < 2 ^ 28
     \<and> (\<forall>l < 2 ^ 28. io_err (device v) l = None) \<and> (\<forall>l. length (sec v l) = 512)"

lemma fat_wfD:
  assumes "fat_wf v"
  shows "0 < spc v" "length (fat v) = 128 * length (fat_dirty v)"
    "unat (first_data_sector v) + length (fat v) * spc v < 2 ^ 28"
    "l < 2 ^ 28 \<Longrightarrow> io_err (device v) l = None" "length (sec v l') = 512"
  using assms unfolding fat_wf_def by blast+

definition in_fat :: "fat32 \<Rightarrow> u32 \<Rightarrow> bool" where
  "in_fat v c \<longleftrightarrow> 2 \<le> unat c \<and> unat c < length (fat v)"

definition same_shape :: "fat32 \<Rightarrow> fat32 \<Rightarrow> bool" where
  "same_shape v v' \<longleftrightarrow> sectors_per_cluster v' = sectors_per_cluster v \<and> reserved_sectors v' = reserved_sectors v
     \<and> fat_count v' = fat_count v \<and> fat_size_sectors v' = fat_size_sectors v \<and> root_cluster v' = root_cluster v
     \<and> first_data_sector v' = first_data_sector v \<and> total_sectors v' = total_sectors v
     \<and> length (fat v') = length (fat v) \<and> length (fat_dirty v') = length (fat_dirty v)"

lemma same_shape_refl [simp]: "same_shape v v"
  by (simp add: same_shape_def)

lemma same_shape_trans: "same_shape v v1 \<Longrightarrow> same_shape v1 v2 \<Longrightarrow> same_shape v v2"
  by (simp add: same_shape_def)

lemma same_shape_cts: "same_shape v v' \<Longrightarrow> cluster_to_sector v' c = cluster_to_sector v c"
  by (simp add: same_shape_def cluster_to_sector_def)

lemma same_shape_in_fat: "same_shape v v' \<Longrightarrow> in_fat v' c = in_fat v c"
  by (simp add: same_shape_def in_fat_def)

lemma fat_wf_same: "fat_wf v \<Longrightarrow> same_shape v v' \<Longrightarrow> device v' = device v \<Longrightarrow> fat_wf v'"
  unfolding fat_wf_def same_shape_def by auto

lemma fat_wf_len: "fat_wf v \<Longrightarrow> length (fat v) < 2 ^ 28"
proof -
  assume a: "fat_wf v"
  then have "length (fat v) * 1 \<le> length (fat v) * spc v" using fat_wfD(1) [OF a] by (intro mult_le_mono2) linarith
  with fat_wfD(3) [OF a] show ?thesis by linarith
qed

lemma cluster_to_sector_nat:
  assumes wf: "fat_wf v" and c: "in_fat v c"
  shows "cluster_to_sector v c = unat (first_data_sector v) + (unat c - 2) * spc v"
proof -
  have le: "(unat c - 2) * spc v \<le> length (fat v) * spc v"
    using c unfolding in_fat_def by (intro mult_le_mono1) linarith
  then have b: "unat (first_data_sector v) + (unat c - 2) * spc v \<le> 2 ^ 28" using fat_wfD(3) [OF wf] by linarith
  have c2: "unat (c - 2) = unat c - 2" using c by (subst unat_sub) (auto simp: in_fat_def word_le_nat_alt)
  have s: "unat (of_nat (spc v) :: u32) = spc v"
  proof -
    have "spc v < 2 ^ 8" using unsigned_less [of "sectors_per_cluster v", where ?'a = nat] by simp
    then show ?thesis unfolding unsigned_of_nat of_nat_id take_bit_nat_eq_self_iff by simp
  qed
  have m: "unat ((c - 2) * of_nat (spc v)) = (unat c - 2) * spc v"
    unfolding unat_word_ariths c2 s using b by simp
  have "cluster_to_sector v c = (unat (first_data_sector v) + unat ((c - 2) * of_nat (spc v))) mod 2 ^ LENGTH(32)"
    unfolding cluster_to_sector_def by (rule unat_word_ariths)
  then show ?thesis unfolding m using b by simp
qed

text \<open>The sectors of two clusters of the table do not meet, and all lie below the limit.\<close>

lemma cluster_sector_lt:
  assumes "fat_wf v" "in_fat v c" "s < spc v"
  shows "cluster_to_sector v c + s < 2 ^ 28"
proof -
  have "(unat c - 2) * spc v + s < (unat c - 2) * spc v + spc v" using assms(3) by simp
  also have "\<dots> = (unat c - 1) * spc v"
  proof -
    have "unat c - 1 = Suc (unat c - 2)" using assms(2) unfolding in_fat_def by linarith
    then show ?thesis by (simp only: mult_Suc add.commute)
  qed
  also have "\<dots> \<le> length (fat v) * spc v" using assms(2) unfolding in_fat_def by (intro mult_le_mono1) linarith
  finally show ?thesis using fat_wfD(3) [OF assms(1)] unfolding cluster_to_sector_nat [OF assms(1,2)] by linarith
qed

lemma cluster_sector_inj:
  assumes "fat_wf v" "in_fat v c" "in_fat v d" "s < spc v" "t < spc v"
    and eq: "cluster_to_sector v c + s = cluster_to_sector v d + t"
  shows "c = d \<and> s = t"
proof -
  have "(unat c - 2) * spc v + s = (unat d - 2) * spc v + t"
    using eq unfolding cluster_to_sector_nat [OF assms(1,2)] cluster_to_sector_nat [OF assms(1,3)] by simp
  then have "((unat c - 2) * spc v + s) div spc v = ((unat d - 2) * spc v + t) div spc v"
            "((unat c - 2) * spc v + s) mod spc v = ((unat d - 2) * spc v + t) mod spc v" by simp_all
  then have uc: "unat c - 2 = unat d - 2" and "s = t" using assms(4,5) by simp_all
  from uc have "unat c = unat d" using assms(2,3) unfolding in_fat_def by linarith
  then show ?thesis using \<open>s = t\<close> by (simp add: word_unat_eq_iff)
qed

lemma rd_ok: "fat_wf v \<Longrightarrow> l < 2 ^ 28 \<Longrightarrow> rd l v = Some (Inr (sec v l), v)"
  by (simp add: rd_def read_sectors_def fat_wfD(4))

definition put :: "fat32 \<Rightarrow> nat \<Rightarrow> u8 list \<Rightarrow> fat32" where
  "put v l b = v\<lparr>device := (device v)\<lparr>sectors := (sectors (device v))(l := b)\<rparr>\<rparr>"

lemma wrs_ok: "fat_wf v \<Longrightarrow> l < 2 ^ 28 \<Longrightarrow> wrs l b v = Some (Inr (), put v l b)"
  by (simp add: wrs_def write_sectors_def fat_wfD(4) put_def)

lemma put_wf: "fat_wf v \<Longrightarrow> length b = 512 \<Longrightarrow> fat_wf (put v l b)"
  unfolding fat_wf_def put_def by auto

lemma put_simps [simp]:
  "same_shape v (put v l b)" "fat (put v l b) = fat v" "fat_dirty (put v l b) = fat_dirty v"
  "sec (put v l b) l' = (if l' = l then b else sec v l')" "sectors_per_cluster (put v l b) = sectors_per_cluster v"
  by (simp_all add: put_def same_shape_def)

lemma bnd_rd: "fat_wf v \<Longrightarrow> l < 2 ^ 28 \<Longrightarrow> bnd (rd l) k v = k (sec v l) v"
  by (simp add: bnd_def rd_ok)

lemma bnd_wrs: "fat_wf v \<Longrightarrow> l < 2 ^ 28 \<Longrightarrow> bnd (wrs l b) k v = k () (put v l b)"
  by (simp add: bnd_def wrs_ok)

lemma bnd_Inr: "m v = Some (Inr x, v') \<Longrightarrow> bnd m k v = k x v'"
  by (simp add: bnd_def)

lemma bnd_Inl: "m v = Some (Inl e, v') \<Longrightarrow> bnd m k v = Some (Inl e, v')"
  by (simp add: bnd_def)

section \<open>Reading and writing the sectors of a cluster\<close>

definition bytes_of :: "fat32 \<Rightarrow> u32 \<Rightarrow> nat list \<Rightarrow> u8 list" where
  "bytes_of v c ss = concat (map (\<lambda>s. sec v (cluster_to_sector v c + s)) ss)"

lemma bytes_of_length: "fat_wf v \<Longrightarrow> length (bytes_of v c ss) = 512 * length ss"
  by (induction ss) (simp_all add: bytes_of_def fat_wfD(5))

lemma read_cluster_spec:
  assumes "fat_wf v" "in_fat v c" "\<forall>s \<in> set ss. s < spc v" "0 < n"
  shows "read_cluster c ss (n, acc) v = Some (Inr (n - 512 * length ss, acc @ take n (bytes_of v c ss)), v)"
  using assms(3,4)
proof (induction ss arbitrary: n acc)
  case (Cons s ss)
  have l: "cluster_to_sector v c + s < 2 ^ 28" using cluster_sector_lt assms(1,2) Cons.prems by simp
  let ?b = "sec v (cluster_to_sector v c + s)"
  have len: "length ?b = 512" using assms(1) by (simp add: fat_wfD(5))
  show ?case
  proof (cases "n \<le> 512")
    case True
    then show ?thesis using len by (simp add: bnd_rd [OF assms(1) l] Let_def ret_def bytes_of_def min_def)
  next
    case False
    then have "read_cluster c (s # ss) (n, acc) v = read_cluster c ss (n - 512, acc @ ?b) v"
      using len by (simp add: bnd_rd [OF assms(1) l] Let_def min_def)
    also have "\<dots> = Some (Inr (n - 512 - 512 * length ss, (acc @ ?b) @ take (n - 512) (bytes_of v c ss)), v)"
      using Cons False by simp
    finally show ?thesis using False len by (simp add: bytes_of_def)
  qed
qed (simp add: bytes_of_def)

lemma write_cluster_spec:
  assumes "fat_wf v" "in_fat v c" "\<forall>s \<in> set ss. s < spc v" "distinct ss" "data \<noteq> []" "ss \<noteq> []"
  shows "\<exists>v'. write_cluster c ss data v = Some (Inr (drop (512 * length ss) data), v') \<and> fat_wf v' \<and> same_shape v v'
     \<and> fat v' = fat v \<and> fat_dirty v' = fat_dirty v
     \<and> (\<forall>l. l \<notin> (\<lambda>s. cluster_to_sector v c + s) ` set ss \<longrightarrow> sec v' l = sec v l)
     \<and> take (length data) (bytes_of v' c ss) = take (512 * length ss) data"
  using assms
proof (induction ss arbitrary: v data)
  case (Cons s ss)
  let ?l = "cluster_to_sector v c + s"
  have l: "?l < 2 ^ 28" using cluster_sector_lt Cons.prems by simp
  let ?b = "take 512 data @ replicate (512 - length data) 0"
  have lb: "length ?b = 512" by simp
  define v1 where "v1 = put v ?l ?b"
  have wf1: "fat_wf v1" using put_wf [OF Cons.prems(1) lb] by (simp add: v1_def)
  have sh1: "same_shape v v1" by (simp add: v1_def)
  have cts: "cluster_to_sector v1 c = cluster_to_sector v c" using same_shape_cts [OF sh1] .
  have step: "write_cluster c (s # ss) data v =
      (if drop 512 data = [] then Some (Inr [], v1) else write_cluster c ss (drop 512 data) v1)"
  proof (cases "length data \<le> 512")
    case True
    then show ?thesis by (simp add: Let_def v1_def ret_def bnd_wrs [OF Cons.prems(1) l])
  next
    case False
    then show ?thesis by (simp add: Let_def v1_def min_def bnd_wrs [OF Cons.prems(1) l])
  qed
  show ?case
  proof (cases "drop 512 data = [] \<or> ss = []")
    case True
    have b1: "sec v1 (cluster_to_sector v1 c + s) = ?b" unfolding cts by (simp add: v1_def)
    have "write_cluster c (s # ss) data v = Some (Inr (drop (512 * length (s # ss)) data), v1)"
      using True step by auto
    moreover have "take (length data) (bytes_of v1 c (s # ss)) = take (512 * length (s # ss)) data"
    proof (cases "drop 512 data = []")
      case True
      then show ?thesis using lb b1 by (simp add: bytes_of_def)
    next
      case False
      then have "ss = []" using \<open>drop 512 data = [] \<or> ss = []\<close> by simp
      then show ?thesis using False b1 by (simp add: bytes_of_def)
    qed
    ultimately show ?thesis using wf1 sh1 by (intro exI [of _ v1]) (auto simp: v1_def)
  next
    case False
    have "in_fat v1 c" "\<forall>s \<in> set ss. s < spc v1" "distinct ss"
      using Cons.prems same_shape_in_fat [OF sh1] sh1 by (auto simp: same_shape_def)
    from Cons.IH [OF wf1 this, of "drop 512 data"] False obtain v' where v': "write_cluster c ss (drop 512 data) v1 =
          Some (Inr (drop (512 * length ss) (drop 512 data)), v')" "fat_wf v'" "same_shape v1 v'" "fat v' = fat v1"
        "fat_dirty v' = fat_dirty v1" "\<forall>l. l \<notin> (\<lambda>s. cluster_to_sector v1 c + s) ` set ss \<longrightarrow> sec v' l = sec v1 l"
        "take (length (drop 512 data)) (bytes_of v' c ss) = take (512 * length ss) (drop 512 data)"
      by auto
    have cts': "cluster_to_sector v' c = cluster_to_sector v c" using same_shape_cts [OF v'(3)] cts by simp
    have "s \<notin> set ss" using Cons.prems by simp
    then have "?l \<notin> (\<lambda>s. cluster_to_sector v1 c + s) ` set ss" by (auto simp: cts)
    then have "sec v' ?l = sec v1 ?l" using v'(6) by blast
    then have sl: "sec v' ?l = ?b" by (simp add: v1_def)
    have "length data > 512" using False by simp
    then have "take (length data) (bytes_of v' c (s # ss)) = take (512 * length (s # ss)) data"
      using sl v'(7) by (simp add: bytes_of_def cts' take_add flip: take_take)
    moreover have "write_cluster c (s # ss) data v = Some (Inr (drop (512 * length (s # ss)) data), v')"
      using step v'(1) False by (simp add: add.commute)
    moreover have "sec v' l = sec v l" if "l \<notin> (\<lambda>s. cluster_to_sector v c + s) ` set (s # ss)" for l
      using that v'(6) cts by (auto simp: v1_def)
    ultimately show ?thesis using v'(2-5) same_shape_trans [OF sh1 v'(3)]
      by (intro exI [of _ v']) (auto simp: v1_def)
  qed
qed simp

section \<open>Chains\<close>

text \<open>The clusters \<open>cs\<close> are linked in this order, the last one closed by the end mark.\<close>

fun linked :: "u32 list \<Rightarrow> u32 list \<Rightarrow> bool" where
  "linked F [] = True"
| "linked F [c] = (F ! unat c AND CLUSTER_MASK = EOF_MARK)"
| "linked F (c # d # cs) = (F ! unat c AND CLUSTER_MASK = d \<and> linked F (d # cs))"

definition chain_bytes :: "fat32 \<Rightarrow> u32 list \<Rightarrow> u8 list" where
  "chain_bytes v cs = concat (map (\<lambda>c. bytes_of v c [0..<spc v]) cs)"

lemma in_fat_not_eof: "fat_wf v \<Longrightarrow> in_fat v c \<Longrightarrow> \<not> is_eof c \<and> \<not> c < 2"
  using fat_wf_len [of v] by (auto simp: in_fat_def is_eof_def EOF_MARK_def word_le_nat_alt word_less_nat_alt)

lemma read_data_loop_spec:
  assumes wf: "fat_wf v" and lk: "linked (fat v) cs" "\<forall>c \<in> set cs. in_fat v c" "cs \<noteq> []"
    and n: "0 < n" "n \<le> length cs * (512 * spc v)" and g: "guard + length cs \<le> CHAIN_GUARD + 1"
  shows "read_data_loop guard (hd cs) (n, acc) v = Some (Inr (acc @ take n (chain_bytes v cs)), v)"
  using lk n g
proof (induction cs arbitrary: n acc guard)
  case (Cons c cs)
  have c: "in_fat v c" "\<not> c < 2" using Cons.prems in_fat_not_eof [OF wf] by auto
  have gd: "\<not> guard > CHAIN_GUARD" using Cons.prems(6) by simp
  have rc: "read_cluster c [0..<spc v] (n, acc) v = Some (Inr (n - 512 * spc v, acc @ take n (bytes_of v c [0..<spc v])), v)"
    using read_cluster_spec [OF wf c(1), of "[0..<spc v]" n acc] Cons.prems(4) by simp
  have nx: "next_cluster c v = Some (fat v ! unat c AND CLUSTER_MASK)"
    using c(1) by (simp add: next_cluster_def in_fat_def)
  have run: "read_data_loop guard c (n, acc) v =
      (if n - 512 * spc v > 0 \<and> is_eof (fat v ! unat c AND CLUSTER_MASK) then Some (Inl Corrupt, v)
       else read_data_loop (guard + 1) (fat v ! unat c AND CLUSTER_MASK)
              (n - 512 * spc v, acc @ take n (bytes_of v c [0..<spc v])) v)"
    using c(2) gd Cons.prems(4) by (subst read_data_loop.simps) (simp add: rc nx)
  have len: "length (bytes_of v c [0..<spc v]) = 512 * spc v" using bytes_of_length [OF wf] by simp
  show ?case
  proof (cases "n \<le> 512 * spc v")
    case True
    then have "read_data_loop guard c (n, acc) v = Some (Inr (acc @ take n (bytes_of v c [0..<spc v])), v)"
      using run by (simp add: read_data_loop.simps [of _ _ "(0, _)"])
    then show ?thesis using True len by (simp add: chain_bytes_def)
  next
    case False
    then obtain d ds where cs: "cs = d # ds" using Cons.prems(5) by (cases cs) auto
    have nd: "fat v ! unat c AND CLUSTER_MASK = d" using Cons.prems(1) cs by simp
    have "\<not> is_eof d" using in_fat_not_eof [OF wf, of d] Cons.prems(2) cs by simp
    then have "read_data_loop guard c (n, acc) v =
        read_data_loop (guard + 1) d (n - 512 * spc v, acc @ bytes_of v c [0..<spc v]) v"
      using run False len nd by simp
    also have "\<dots> = Some (Inr ((acc @ bytes_of v c [0..<spc v]) @ take (n - 512 * spc v) (chain_bytes v cs)), v)"
      using Cons.IH [of "n - 512 * spc v" "guard + 1" "acc @ bytes_of v c [0..<spc v]"] Cons.prems cs False
      by (auto simp: algebra_simps)
    finally show ?thesis using False len by (simp add: chain_bytes_def)
  qed
qed simp

lemma set_cluster_ok:
  assumes "fat_wf v" "in_fat v c"
  shows "\<exists>v'. set_cluster c x v = Some (Inr (), v') \<and> fat_wf v' \<and> same_shape v v' \<and> device v' = device v
     \<and> fat v' = (fat v)[unat c := x] \<and> free_clusters v' = free_clusters v"
proof -
  have "unat c div 128 < length (fat_dirty v)"
    using assms(2) fat_wfD(2) [OF assms(1)] by (simp add: in_fat_def less_mult_imp_div_less mult.commute)
  then have run: "set_cluster c x v = Some (Inr (), v\<lparr>fat := (fat v)[unat c := x],
      fat_dirty := (fat_dirty v)[unat c div 128 := True]\<rparr>)"
    using assms(2) by (simp add: set_cluster_def in_fat_def)
  let ?v' = "v\<lparr>fat := (fat v)[unat c := x], fat_dirty := (fat_dirty v)[unat c div 128 := True]\<rparr>"
  have "same_shape v ?v'" "device ?v' = device v" by (simp_all add: same_shape_def)
  then show ?thesis using run fat_wf_same [OF assms(1)] by (intro exI [of _ ?v']) simp
qed

text \<open>The clusters that are free.\<close>

definition free_set :: "fat32 \<Rightarrow> u32 set" where
  "free_set v = {c. in_fat v c \<and> fat v ! unat c AND CLUSTER_MASK = 0}"

lemma first_free_spec:
  "case first_free table cs of None \<Rightarrow> \<forall>c \<in> set cs. table ! c AND CLUSTER_MASK \<noteq> 0
     | Some c \<Rightarrow> c \<in> set cs \<and> table ! c AND CLUSTER_MASK = 0"
  by (induction cs) (auto split: option.splits)

lemma alloc_cluster_spec:
  assumes wf: "fat_wf v"
  shows "(free_set v = {} \<and> alloc_cluster v = Some (Inl OutOfSpace, v))
     \<or> (\<exists>c v'. c \<in> free_set v \<and> alloc_cluster v = Some (Inr c, v') \<and> fat_wf v' \<and> same_shape v v' \<and> device v' = device v
          \<and> fat v' = (fat v)[unat c := EOF_MARK])"
proof (cases "first_free (fat v) [2..<length (fat v)]")
  case None
  then have "\<forall>c \<in> {2..<length (fat v)}. fat v ! c AND CLUSTER_MASK \<noteq> 0"
    using first_free_spec [where table = "fat v" and cs = "[2..<length (fat v)]"] by simp
  then have "free_set v = {}" by (auto simp: free_set_def in_fat_def)
  then show ?thesis using None by (simp add: alloc_cluster_def)
next
  case (Some k)
  then have k: "2 \<le> k" "k < length (fat v)" "fat v ! k AND CLUSTER_MASK = 0"
    using first_free_spec [where table = "fat v" and cs = "[2..<length (fat v)]"] by simp_all
  have "k < 2 ^ 32" using k(2) fat_wf_len [OF wf] by simp
  then have uk: "unat (of_nat k :: u32) = k" unfolding unsigned_of_nat of_nat_id take_bit_nat_eq_self_iff by simp
  then have c: "in_fat v (of_nat k)" "of_nat k \<in> free_set v" using k by (auto simp: in_fat_def free_set_def)
  obtain v1 where v1: "set_cluster (of_nat k) EOF_MARK v = Some (Inr (), v1)" "fat_wf v1" "same_shape v v1"
      "device v1 = device v" "fat v1 = (fat v)[unat (of_nat k :: u32) := EOF_MARK]"
    using set_cluster_ok [OF wf c(1)] by blast
  let ?v' = "v1\<lparr>free_clusters := (if free_clusters v1 = 0 then 0 else free_clusters v1 - 1)\<rparr>"
  have "alloc_cluster v = Some (Inr (of_nat k), ?v')" using Some v1(1) by (simp add: alloc_cluster_def bnd_Inr)
  moreover have "same_shape v ?v'" "device ?v' = device v" using v1 by (simp_all add: same_shape_def)
  moreover from this have "fat_wf ?v'" by (rule fat_wf_same [OF wf])
  ultimately show ?thesis using c(2) v1(5) by auto
qed


lemma free_set_finite: "finite (free_set v)"
  by (rule finite_subset [of _ UNIV]) auto

lemma eof_masked: "EOF_MARK AND CLUSTER_MASK = EOF_MARK" "EOF_MARK \<noteq> 0"
  by (simp_all add: EOF_MARK_def CLUSTER_MASK_def)

lemma in_fat_masked: "fat_wf v \<Longrightarrow> in_fat v c \<Longrightarrow> c AND CLUSTER_MASK = c"
proof -
  assume a: "fat_wf v" "in_fat v c"
  then have "unat c < 2 ^ 28" using fat_wf_len [of v] by (simp add: in_fat_def)
  then have "take_bit 28 c = c"
    by (metis take_bit_nat_eq_self_iff unsigned_take_bit_eq word_unat_eq_iff)
  moreover have "CLUSTER_MASK = mask 28" by (simp add: CLUSTER_MASK_def mask_eq_exp_minus_1)
  ultimately show ?thesis by (simp only: take_bit_eq_mask)
qed

lemma nth_upd_word: "in_fat v c \<Longrightarrow> (fat v)[unat c := x] ! i = (if i = unat c then x else fat v ! i)"
  by (simp add: in_fat_def nth_list_update)

lemma alloc_clusters_spec:
  assumes "fat_wf v"
  shows "(\<exists>cs v'. alloc_clusters n v = Some (Inr cs, v') \<and> length cs = n \<and> distinct cs \<and> set cs \<subseteq> free_set v
            \<and> fat_wf v' \<and> same_shape v v' \<and> device v' = device v
            \<and> (\<forall>i. i \<notin> unat ` set cs \<longrightarrow> fat v' ! i = fat v ! i))
       \<or> (\<exists>v'. alloc_clusters n v = Some (Inl OutOfSpace, v') \<and> card (free_set v) < n)"
  using assms
proof (induction n arbitrary: v)
  case (Suc n)
  consider (none) "free_set v = {}" "alloc_cluster v = Some (Inl OutOfSpace, v)"
    | (one) c v1 where "c \<in> free_set v" "alloc_cluster v = Some (Inr c, v1)" "fat_wf v1" "same_shape v v1"
        "device v1 = device v" "fat v1 = (fat v)[unat c := EOF_MARK]"
    using alloc_cluster_spec [OF Suc.prems] by blast
  then show ?case
  proof cases
    case none
    then show ?thesis by (simp add: bnd_Inl)
  next
    case one
    have c: "in_fat v c" using one(1) by (simp add: free_set_def)
    have fs: "free_set v1 = free_set v - {c}"
      using c eof_masked by (auto simp: free_set_def one(6) nth_upd_word same_shape_in_fat [OF one(4)] word_unat_eq_iff)
    have cd: "card (free_set v1) = card (free_set v) - 1" "0 < card (free_set v)"
      using one(1) free_set_finite by (auto simp: fs card_gt_0_iff)
    consider (ok) cs v' where "alloc_clusters n v1 = Some (Inr cs, v')" "length cs = n" "distinct cs" "set cs \<subseteq> free_set v1"
          "fat_wf v'" "same_shape v1 v'" "device v' = device v1" "\<forall>i. i \<notin> unat ` set cs \<longrightarrow> fat v' ! i = fat v1 ! i"
      | (out) v' where "alloc_clusters n v1 = Some (Inl OutOfSpace, v')" "card (free_set v1) < n"
      using Suc.IH [OF one(3)] by blast
    then show ?thesis
    proof cases
      case ok
      have "alloc_clusters (Suc n) v = Some (Inr (c # cs), v')" using one(2) ok(1) by (simp add: bnd_Inr ret_def)
      moreover have "distinct (c # cs)" "set (c # cs) \<subseteq> free_set v" using ok(3,4) one(1) by (auto simp: fs)
      moreover have "fat v' ! i = fat v ! i" if "i \<notin> unat ` set (c # cs)" for i
        using that ok(8) c by (simp add: one(6) nth_upd_word)
      ultimately show ?thesis using ok(2,5,6,7) one(4,5) same_shape_trans [OF one(4) ok(6)]
        by (intro disjI1 exI [of _ "c # cs"] exI [of _ v']) simp
    next
      case out
      have "alloc_clusters (Suc n) v = Some (Inl OutOfSpace, v')" using one(2) out(1) by (simp add: bnd_Inr bnd_Inl)
      then show ?thesis using out(2) cd by auto
    qed
  qed
qed simp

lemma linked_cong: "(\<And>c. c \<in> set cs \<Longrightarrow> F' ! unat c = F ! unat c) \<Longrightarrow> linked F' cs = linked F cs"
  by (induction F cs rule: linked.induct) auto

lemma link_clusters_spec:
  assumes "fat_wf v" "distinct cs" "\<forall>c \<in> set cs. in_fat v c"
  shows "\<exists>v'. link_clusters cs v = Some (Inr (), v') \<and> fat_wf v' \<and> same_shape v v' \<and> device v' = device v
     \<and> linked (fat v') cs \<and> (\<forall>i. i \<notin> unat ` set cs \<longrightarrow> fat v' ! i = fat v ! i)"
  using assms
proof (induction cs arbitrary: v rule: induct_list012)
  case (2 c)
  then have c: "in_fat v c" by simp
  obtain v1 where "set_cluster c EOF_MARK v = Some (Inr (), v1)" "fat_wf v1" "same_shape v v1"
      "device v1 = device v" "fat v1 = (fat v)[unat c := EOF_MARK]"
    using set_cluster_ok [OF 2(1) c] by blast
  then show ?case using c eof_masked(1) by (intro exI [of _ v1]) (simp add: nth_upd_word)
next
  case (3 c d cs)
  have c: "in_fat v c" using 3 by simp
  obtain v1 where v1: "set_cluster c d v = Some (Inr (), v1)" "fat_wf v1" "same_shape v v1"
      "device v1 = device v" "fat v1 = (fat v)[unat c := d]"
    using set_cluster_ok [OF 3(3) c] by blast
  have "distinct (d # cs)" "\<forall>c \<in> set (d # cs). in_fat v1 c" using 3 same_shape_in_fat [OF v1(3)] by auto
  from "3.IH"(2) [OF v1(2) this] obtain v' where v': "link_clusters (d # cs) v1 = Some (Inr (), v')" "fat_wf v'"
      "same_shape v1 v'" "device v' = device v1" "linked (fat v') (d # cs)"
      "\<forall>i. i \<notin> unat ` set (d # cs) \<longrightarrow> fat v' ! i = fat v1 ! i"
    by blast
  have "unat c \<notin> unat ` set (d # cs)" using 3(4) by (auto simp: word_unat_eq_iff [symmetric])
  then have "fat v' ! unat c = d" using v'(6) c by (simp add: v1(5) nth_upd_word)
  then have "linked (fat v') (c # d # cs)" using v'(5) in_fat_masked [OF 3(3), of d] 3(5) by simp
  moreover have "link_clusters (c # d # cs) v = Some (Inr (), v')" using v1(1) v'(1) by (simp add: bnd_Inr)
  moreover have "fat v' ! i = fat v ! i" if "i \<notin> unat ` set (c # d # cs)" for i
    using that v'(6) c by (simp add: v1(5) nth_upd_word)
  ultimately show ?case using v'(2,3,4) v1(4) same_shape_trans [OF v1(3) v'(3)]
    by (intro exI [of _ v']) simp
qed simp

definition owns_sector :: "fat32 \<Rightarrow> u32 list \<Rightarrow> nat \<Rightarrow> bool" where
  "owns_sector v cs l \<longleftrightarrow> (\<exists>c \<in> set cs. \<exists>s < spc v. l = cluster_to_sector v c + s)"

lemma bytes_of_cong:
  assumes "same_shape v v'" "\<And>s. s \<in> set ss \<Longrightarrow> sec v' (cluster_to_sector v c + s) = sec v (cluster_to_sector v c + s)"
  shows "bytes_of v' c ss = bytes_of v c ss"
  using assms(2) by (simp add: bytes_of_def same_shape_cts [OF assms(1)] cong: map_cong)

lemma write_clusters_spec:
  assumes "fat_wf v" "distinct cs" "\<forall>c \<in> set cs. in_fat v c" "data \<noteq> []" "length data \<le> length cs * (512 * spc v)"
  shows "\<exists>v'. write_clusters cs data v = Some (Inr (), v') \<and> fat_wf v' \<and> same_shape v v' \<and> fat v' = fat v
     \<and> take (length data) (chain_bytes v' cs) = data \<and> (\<forall>l. \<not> owns_sector v cs l \<longrightarrow> sec v' l = sec v l)"
  using assms
proof (induction cs arbitrary: v data)
  case (Cons c cs)
  have c: "in_fat v c" and sp: "0 < spc v" using Cons.prems fat_wfD(1) by auto
  obtain v1 where v1: "write_cluster c [0..<spc v] data v = Some (Inr (drop (512 * spc v) data), v1)" "fat_wf v1"
      "same_shape v v1" "fat v1 = fat v" "\<forall>l. l \<notin> (\<lambda>s. cluster_to_sector v c + s) ` set [0..<spc v] \<longrightarrow> sec v1 l = sec v l"
      "take (length data) (bytes_of v1 c [0..<spc v]) = take (512 * spc v) data"
    using write_cluster_spec [OF Cons.prems(1) c, of "[0..<spc v]" data] Cons.prems(4) sp by auto
  have sp1: "spc v1 = spc v" using v1(3) by (simp add: same_shape_def)
  have out: "sec v1 l = sec v l" if "\<not> owns_sector v (c # cs) l" for l
  proof -
    have "l \<notin> (\<lambda>s. cluster_to_sector v c + s) ` set [0..<spc v]"
      using that unfolding owns_sector_def by fastforce
    then show ?thesis using v1(5) by blast
  qed
  have len1: "length (bytes_of v1 c [0..<spc v]) = 512 * spc v" using bytes_of_length [OF v1(2)] by simp
  show ?case
  proof (cases "length data \<le> 512 * spc v")
    case True
    then have "write_clusters (c # cs) data v = Some (Inr (), v1)" using v1(1) by (simp add: bnd_Inr ret_def)
    moreover have "take (length data) (chain_bytes v1 (c # cs)) = data"
      using True v1(6) len1 by (simp add: chain_bytes_def sp1)
    ultimately show ?thesis using v1(2-4) out by blast
  next
    case False
    let ?d = "drop (512 * spc v) data"
    have "distinct cs" "\<forall>c \<in> set cs. in_fat v1 c" "?d \<noteq> []" "length ?d \<le> length cs * (512 * spc v1)"
      using Cons.prems False same_shape_in_fat [OF v1(3)] by (auto simp: sp1)
    from Cons.IH [OF v1(2) this] obtain v' where v': "write_clusters cs ?d v1 = Some (Inr (), v')" "fat_wf v'"
        "same_shape v1 v'" "fat v' = fat v1" "take (length ?d) (chain_bytes v' cs) = ?d"
        "\<forall>l. \<not> owns_sector v1 cs l \<longrightarrow> sec v' l = sec v1 l"
      by blast
    have sp': "spc v' = spc v" using v'(3) sp1 by (simp add: same_shape_def)
    have own: "owns_sector v1 cs l = owns_sector v cs l" for l
      by (simp add: owns_sector_def sp1 same_shape_cts [OF v1(3)])
    have keep: "bytes_of v' c [0..<spc v] = bytes_of v1 c [0..<spc v]"
    proof (rule bytes_of_cong [OF v'(3)])
      fix s assume s: "s \<in> set [0..<spc v]"
      have "\<not> owns_sector v cs (cluster_to_sector v c + s)"
      proof
        assume "owns_sector v cs (cluster_to_sector v c + s)"
        then obtain d t where d: "d \<in> set cs" "t < spc v" "cluster_to_sector v c + s = cluster_to_sector v d + t"
          by (auto simp: owns_sector_def)
        then have "c = d" using cluster_sector_inj [OF Cons.prems(1) c _ _ d(2,3)] Cons.prems(3) s by auto
        then show False using d(1) Cons.prems(2) by simp
      qed
      then show "sec v' (cluster_to_sector v1 c + s) = sec v1 (cluster_to_sector v1 c + s)"
        using v'(6) by (simp add: own same_shape_cts [OF v1(3)])
    qed
    have "bytes_of v1 c [0..<spc v] = take (512 * spc v) data" using v1(6) False len1 by simp
    then have "take (length data) (chain_bytes v' (c # cs)) = data"
      using v'(5) False keep by (simp add: chain_bytes_def sp' min_def)
    moreover have "write_clusters (c # cs) data v = Some (Inr (), v')" using v1(1) v'(1) False by (simp add: bnd_Inr)
    moreover have "sec v' l = sec v l" if "\<not> owns_sector v (c # cs) l" for l
    proof -
      have "\<not> owns_sector v1 cs l" using that unfolding own by (auto simp: owns_sector_def)
      then show ?thesis using v'(6) out [OF that] by simp
    qed
    ultimately show ?thesis using v'(2,4) v1(4) same_shape_trans [OF v1(3) v'(3)] by auto
  qed
qed simp

lemma linked_not_free:
  assumes "fat_wf v" "linked (fat v) ds" "\<forall>d \<in> set ds. in_fat v d" "c \<in> set ds"
  shows "c \<notin> free_set v"
  using assms(2-4)
proof (induction ds rule: induct_list012)
  case (2 d)
  then show ?case using eof_masked(2) by (simp add: free_set_def)
next
  case (3 d e ds)
  have "unat e \<noteq> 0" using 3(4) by (auto simp: in_fat_def)
  then have "e \<noteq> 0" by auto
  then show ?case using 3 by (auto simp: free_set_def)
qed simp

definition needed_clusters :: "fat32 \<Rightarrow> u8 list \<Rightarrow> nat" where
  "needed_clusters v content = div_ceil (length content) (cluster_bytes v)"

lemma needed_enough: "0 < spc v \<Longrightarrow> length content \<le> needed_clusters v content * (512 * spc v)"
proof -
  assume sp: "0 < spc v"
  let ?b = "spc v * 512"
  have b: "0 < ?b" using sp by simp
  have "length content = length content div ?b * ?b + length content mod ?b" by (rule div_mult_mod_eq [symmetric])
  moreover have "length content mod ?b < ?b" using b by simp
  ultimately have "length content \<le> (length content div ?b + (if length content mod ?b = 0 then 0 else 1)) * ?b"
    by (cases "length content mod ?b = 0") (auto simp: algebra_simps)
  then show ?thesis unfolding needed_clusters_def div_ceil_def cluster_bytes_def
    by (cases "length content mod ?b = 0") (simp_all add: mult.commute mult.left_commute)
qed

lemma needed_pos: "0 < spc v \<Longrightarrow> 0 < needed_clusters v content \<longleftrightarrow> content \<noteq> []"
  unfolding needed_clusters_def div_ceil_def cluster_bytes_def
  by (auto simp: div_greater_zero_iff mod_eq_0_iff_dvd intro: dvd_imp_le)

lemma read_file_data_chain:
  assumes "fat_wf v" "linked (fat v) cs" "\<forall>c \<in> set cs. in_fat v c" "cs \<noteq> []" "length cs \<le> CHAIN_GUARD"
    "n \<le> length cs * (512 * spc v)"
  shows "read_file_data (hd cs) n v = Some (Inr (take n (chain_bytes v cs)), v)"
  using read_data_loop_spec [OF assms(1-4), of n 0 "[]"] assms(5,6)
  by (cases "n = 0") (simp_all add: read_file_data_def ret_def)

lemma store_content_spec:
  assumes wf: "fat_wf v" and g: "needed_clusters v content \<le> CHAIN_GUARD"
  shows "(\<exists>v'. store_content content v = Some (Inl OutOfSpace, v') \<and> card (free_set v) < needed_clusters v content)
     \<or> (\<exists>c v'. store_content content v = Some (Inr c, v') \<and> fat_wf v' \<and> same_shape v v'
          \<and> read_file_data c (length content) v' = Some (Inr content, v') \<and> (c = 0 \<longleftrightarrow> content = [])
          \<and> (\<forall>ds n. linked (fat v) ds \<and> (\<forall>d \<in> set ds. in_fat v d) \<and> ds \<noteq> [] \<and> length ds \<le> CHAIN_GUARD
                \<and> n \<le> length ds * (512 * spc v) \<longrightarrow> read_file_data (hd ds) n v' = Some (Inr (take n (chain_bytes v ds)), v')))"
proof (cases "content = []")
  case True
  then have "store_content content v = Some (Inr 0, v)" by (simp add: store_content_def div_ceil_def)
  then show ?thesis using True wf read_file_data_chain [OF wf] by (intro disjI2 exI [of _ 0] exI [of _ v]) (simp add: read_file_data_def ret_def)
next
  case False
  let ?n = "needed_clusters v content"
  have sp: "0 < spc v" using fat_wfD(1) [OF wf] .
  have np: "0 < ?n" using needed_pos [OF sp] False by simp
  have run: "store_content content v = bnd (alloc_clusters ?n) (\<lambda>clusters. bnd (link_clusters clusters)
      (\<lambda>_. bnd (write_clusters clusters content) (\<lambda>_. ret (hd clusters)))) v"
    using np unfolding store_content_def needed_clusters_def Let_def by simp
  consider (out) v' where "alloc_clusters ?n v = Some (Inl OutOfSpace, v')" "card (free_set v) < ?n"
    | (ok) cs v1 where "alloc_clusters ?n v = Some (Inr cs, v1)" "length cs = ?n" "distinct cs" "set cs \<subseteq> free_set v"
        "fat_wf v1" "same_shape v v1" "device v1 = device v" "\<forall>i. i \<notin> unat ` set cs \<longrightarrow> fat v1 ! i = fat v ! i"
    using alloc_clusters_spec [OF wf, of ?n] by blast
  then show ?thesis
  proof cases
    case out
    then show ?thesis using run by (auto simp: bnd_Inl)
  next
    case ok
    have inf: "\<forall>c \<in> set cs. in_fat v c" using ok(4) by (auto simp: free_set_def)
    then have "\<forall>c \<in> set cs. in_fat v1 c" using same_shape_in_fat [OF ok(6)] by simp
    from link_clusters_spec [OF ok(5,3) this] obtain v2 where v2: "link_clusters cs v1 = Some (Inr (), v2)" "fat_wf v2"
        "same_shape v1 v2" "device v2 = device v1" "linked (fat v2) cs" "\<forall>i. i \<notin> unat ` set cs \<longrightarrow> fat v2 ! i = fat v1 ! i"
      by blast
    have sh2: "same_shape v v2" using same_shape_trans [OF ok(6) v2(3)] .
    have sp2: "spc v2 = spc v" using sh2 by (simp add: same_shape_def)
    have "\<forall>c \<in> set cs. in_fat v2 c" using inf same_shape_in_fat [OF sh2] by simp
    moreover have "length content \<le> length cs * (512 * spc v2)" using needed_enough [OF sp] ok(2) by (simp add: sp2)
    ultimately obtain v3 where v3: "write_clusters cs content v2 = Some (Inr (), v3)" "fat_wf v3" "same_shape v2 v3"
        "fat v3 = fat v2" "take (length content) (chain_bytes v3 cs) = content"
        "\<forall>l. \<not> owns_sector v2 cs l \<longrightarrow> sec v3 l = sec v2 l"
      using write_clusters_spec [OF v2(2) ok(3) _ False] by blast
    have sh3: "same_shape v v3" using same_shape_trans [OF sh2 v3(3)] .
    have sp3: "spc v3 = spc v" using sh3 by (simp add: same_shape_def)
    have cs: "cs \<noteq> []" using ok(2) np by auto
    have res: "store_content content v = Some (Inr (hd cs), v3)"
      using run ok(1) v2(1) v3(1) by (simp add: bnd_Inr ret_def)
    have inf3: "\<forall>c \<in> set cs. in_fat v3 c" using inf same_shape_in_fat [OF sh3] by simp
    have "read_file_data (hd cs) (length content) v3 = Some (Inr (take (length content) (chain_bytes v3 cs)), v3)"
      using v2(5) v3(4) inf3 cs ok(2) g needed_enough [OF sp]
      by (intro read_file_data_chain [OF v3(2)]) (simp_all add: sp3)
    moreover have "hd cs \<noteq> 0" using cs inf by (cases cs) (auto simp: in_fat_def)
    moreover have "read_file_data (hd ds) n v3 = Some (Inr (take n (chain_bytes v ds)), v3)"
      if ds: "linked (fat v) ds" "\<forall>d \<in> set ds. in_fat v d" "ds \<noteq> []" "length ds \<le> CHAIN_GUARD"
        "n \<le> length ds * (512 * spc v)" for ds n
    proof -
      have dis: "d \<notin> set cs" if "d \<in> set ds" for d using linked_not_free [OF wf ds(1,2) that] ok(4) by blast
      have "fat v3 ! unat d = fat v ! unat d" if "d \<in> set ds" for d
      proof -
        have "unat d \<notin> unat ` set cs" using dis [OF that] by (auto simp: word_unat_eq_iff [symmetric])
        then show ?thesis using ok(8) v2(6) v3(4) by simp
      qed
      then have lk: "linked (fat v3) ds" using ds(1) linked_cong by blast
      have "bytes_of v3 d [0..<spc v] = bytes_of v d [0..<spc v]" if d: "d \<in> set ds" for d
      proof (rule bytes_of_cong [OF sh3])
        fix s assume s: "s \<in> set [0..<spc v]"
        have "\<not> owns_sector v2 cs (cluster_to_sector v d + s)"
        proof
          assume "owns_sector v2 cs (cluster_to_sector v d + s)"
          then obtain c t where c: "c \<in> set cs" "t < spc v" "cluster_to_sector v d + s = cluster_to_sector v c + t"
            by (auto simp: owns_sector_def sp2 same_shape_cts [OF sh2])
          then have "d = c" using cluster_sector_inj [OF wf _ _ _ c(2,3)] inf ds(2) d s by auto
          then show False using dis d c(1) by blast
        qed
        then show "sec v3 (cluster_to_sector v d + s) = sec v (cluster_to_sector v d + s)"
          using v3(6) v2(4) ok(7) by simp
      qed
      then have "chain_bytes v3 ds = chain_bytes v ds" by (simp add: chain_bytes_def sp3 cong: map_cong)
      then show ?thesis
        using read_file_data_chain [OF v3(2) lk _ ds(3,4)] ds(2,5) same_shape_in_fat [OF sh3] by (simp add: sp3)
    qed
    ultimately show ?thesis using res v3(2,5) sh3 False by (intro disjI2 exI [of _ "hd cs"] exI [of _ v3]) simp
  qed
qed

section \<open>Properties\<close>

text \<open>C21: what is stored is read back. On a volume in good order, storing the contents of a file
  (\<open>write_file\<close>'s allocation, linking and writing of clusters) either runs out of space because fewer
  clusters are free than the contents need, or returns a first cluster from which \<open>read_file_data\<close>
  gives back exactly the contents; and every chain of clusters that was in use before still reads as
  it did.\<close>
theorem file_contents_roundtrip:
  assumes "fat_wf v" "needed_clusters v content \<le> CHAIN_GUARD"
  shows "(\<exists>v'. store_content content v = Some (Inl OutOfSpace, v') \<and> card (free_set v) < needed_clusters v content)
     \<or> (\<exists>c v'. store_content content v = Some (Inr c, v') \<and> fat_wf v' \<and> same_shape v v'
          \<and> read_file_data c (length content) v' = Some (Inr content, v') \<and> (c = 0 \<longleftrightarrow> content = [])
          \<and> (\<forall>ds n. linked (fat v) ds \<and> (\<forall>d \<in> set ds. in_fat v d) \<and> ds \<noteq> [] \<and> length ds \<le> CHAIN_GUARD
                \<and> n \<le> length ds * (512 * spc v) \<longrightarrow> read_file_data (hd ds) n v' = Some (Inr (take n (chain_bytes v ds)), v')))"
  by (rule store_content_spec [OF assms])

text \<open>An empty volume with two sectors per cluster, its directory cluster 2 full in the first sector.\<close>

definition sample_volume :: fat32 where
  "sample_volume = \<lparr>device = \<lparr>sectors = (\<lambda>l. if l = 10 then replicate 512 0x41 else replicate 512 0), io_err = (\<lambda>_. None)\<rparr>,
     sectors_per_cluster = 2, reserved_sectors = 1, fat_count = 1, fat_size_sectors = 1, root_cluster = 2,
     first_data_sector = 10, total_sectors = 300, fat = (replicate 128 0)[0 := 0x0FFFFFF8, 1 := EOF_MARK, 2 := EOF_MARK],
     fat_dirty = [False], free_clusters = 125\<rparr>"

lemma sample_wf: "fat_wf sample_volume"
  by (simp add: fat_wf_def sample_volume_def)

theorem file_contents_roundtrip_witness:
  "\<exists>c v'. store_content [1, 2, 3] sample_volume = Some (Inr c, v') \<and> read_file_data c 3 v' = Some (Inr [1, 2, 3], v')"
proof -
  have n: "needed_clusters sample_volume [1, 2, 3] = 1"
    by (simp add: needed_clusters_def div_ceil_def cluster_bytes_def sample_volume_def)
  have "5 \<in> free_set sample_volume"
    by (simp add: free_set_def in_fat_def sample_volume_def nth_list_update)
  then have "0 < card (free_set sample_volume)" using free_set_finite card_gt_0_iff by blast
  then show ?thesis
    using file_contents_roundtrip [OF sample_wf, of "[1, 2, 3]"] n by (auto simp: CHAIN_GUARD_def numeral_3_eq_3)
qed

end
