(* ===== verification/Fat_Names.thy ===== *)
theory Fat_Names
  imports Fat_Volume
begin

text \<open>
  Directory entries of a FAT32 volume: long and short names as bytes, the scan that reads them back,
  and the search for free slots, which loses the sector it found.
\<close>

section \<open>Names on disk\<close>

lemma length_lfn_fill [simp]: "length (lfn_fill cs b) = 13"
  by (simp add: lfn_fill_def Let_def min_def)

lemma length_unit_bytes [simp]: "length (unit_bytes cs) = 2 * length cs"
  by (induction cs) (simp_all add: unit_bytes_def)

lemma length_lfn_entry [simp]: "length part = 13 \<Longrightarrow> length (lfn_entry_bytes sq part l ck) = 32"
  by (simp add: lfn_entry_bytes_def)

lemma length_sfn_field [simp]: "length (sfn_field n bs) = n"
  by (simp add: sfn_field_def Let_def min_def)

lemma length_make_sfn [simp]: "length (make_sfn name) = 11"
  by (simp add: make_sfn_def Let_def)

lemma length_sfn_entry [simp]: "length sfn = 11 \<Longrightarrow> length (sfn_entry sfn now c n d) = 32"
  by (simp add: sfn_entry_def Let_def split: prod.split)

lemma to_le_2: "to_le 2 x = [of_nat x, of_nat (x div 256)]"
  by (simp add: numeral_2_eq_2)

lemma to_le_4: "to_le 4 x = [of_nat x, of_nat (x div 256), of_nat (x div 256 div 256), of_nat (x div 256 div 256 div 256)]"
proof -
  have "(4 :: nat) = Suc (Suc (Suc (Suc 0)))" by simp
  then show ?thesis by (simp only: to_le.simps)
qed

lemma unat_of_nat_u8: "unat (of_nat x :: u8) = x mod 256"
  by (simp add: unsigned_of_nat take_bit_eq_mod)

lemma le16_bytes: "b ! i = of_nat x \<Longrightarrow> b ! (i + 1) = of_nat (x div 256) \<Longrightarrow> x < 65536 \<Longrightarrow> le16 b i = x"
  unfolding le16_def by (simp add: unat_of_nat_u8)

lemma split_u32: "push_bit 16 (of_nat (unat c div 65536)) OR of_nat (unat c mod 65536) = (c :: u32)"
proof -
  have "of_nat (unat c div 65536) = drop_bit 16 c" "of_nat (unat c mod 65536) = take_bit 16 c"
    unfolding word_unat_eq_iff unat_drop_bit_eq unsigned_take_bit_eq unsigned_of_nat
    using unsigned_less [of c, where ?'a = nat] by (simp_all add: take_bit_eq_mod drop_bit_eq_div)
  then show ?thesis
    by (intro bit_word_eqI) (auto simp: bit_or_iff bit_push_bit_iff bit_drop_bit_eq bit_take_bit_iff)
qed

text \<open>What the scanner sees of an entry depends on the bytes of its slot only.\<close>

definition at_slot :: "u8 list \<Rightarrow> nat \<Rightarrow> u8 list \<Rightarrow> bool" where
  "at_slot sector off e \<longleftrightarrow> (\<forall>j < 32. sector ! (off + j) = e ! j) \<and> off + 32 \<le> length sector"

lemma at_slot_le16: "at_slot sector off e \<Longrightarrow> j < 31 \<Longrightarrow> le16 sector (off + j) = le16 e j"
proof -
  assume a: "at_slot sector off e" "j < 31"
  then have "sector ! (off + k) = e ! k" if "k < 32" for k using that unfolding at_slot_def by blast
  from this [of j] this [of "j + 1"] a(2) show ?thesis by (simp add: le16_def)
qed

lemma at_slot_lfn_part:
  assumes "at_slot sector off e"
  shows "lfn_part sector off = lfn_part e 0"
proof -
  have "le16 sector (off + 1 + 2 * i) = le16 e (0 + 1 + 2 * i)" if "i < 5" for i
    using at_slot_le16 [OF assms, of "1 + 2 * i"] that by (simp add: add.assoc)
  moreover have "le16 sector (off + 14 + 2 * i) = le16 e (0 + 14 + 2 * i)" if "i < 6" for i
    using at_slot_le16 [OF assms, of "14 + 2 * i"] that by (simp add: add.assoc)
  moreover have "le16 sector (off + 28 + 2 * i) = le16 e (0 + 28 + 2 * i)" if "i < 2" for i
    using at_slot_le16 [OF assms, of "28 + 2 * i"] that by (simp add: add.assoc)
  ultimately show ?thesis unfolding lfn_part_def by simp
qed

lemma upt_5: "[0..<5] = [0, 1, 2, 3, 4 :: nat]" and upt_6: "[0..<6] = [0, 1, 2, 3, 4, 5 :: nat]" and upt_2: "[0..<2] = [0, 1 :: nat]"
  by (simp_all add: upt_rec)

lemma lfn_part_entry:
  assumes "length part = 13" "\<forall>c \<in> set part. c < 65536"
  shows "lfn_part (lfn_entry_bytes sq part l ck) 0 = part"
proof -
  obtain a b c d e f g h i j k m n where p: "part = [a, b, c, d, e, f, g, h, i, j, k, m, n]"
    using assms(1) by (auto simp: length_Suc_conv numeral_eq_Suc)
  have u: "le_nat [of_nat (x mod 256), of_nat (x div 256)] = x" if "x < 65536" for x
    using le16_bytes [of "[of_nat (x mod 256), of_nat (x div 256)]" 0 "x"] that
    by (simp add: unat_of_nat_u8)
  show ?thesis
    using assms(2) u unfolding p lfn_part_def lfn_entry_bytes_def unit_bytes_def le16_def upt_5 upt_6 upt_2
    by simp
qed

lemma lfn_fill_concat:
  assumes "0 < count" "count = div_ceil (length cs) 13"
  shows "\<exists>pad. concat (map (\<lambda>i. lfn_fill (drop (i * 13) cs) (i = count - 1)) [0..<count]) = cs @ pad
      \<and> (pad = [] \<or> hd pad = 0)"
proof -
  have bnd: "13 * (count - 1) < length cs" "length cs \<le> 13 * count"
    using assms unfolding div_ceil_def by (auto split: if_splits) presburger+
  have chunk: "concat (map (\<lambda>i. take 13 (drop (i * 13) cs)) [0..<k]) = take (k * 13) cs" for k
  proof (induction k)
    case (Suc k)
    have "Suc k * 13 = k * 13 + 13" by simp
    then show ?case using Suc by (simp only: take_add) simp
  qed simp
  have full: "lfn_fill (drop (i * 13) cs) (i = count - 1) = take 13 (drop (i * 13) cs)" if "i < count - 1" for i
  proof -
    have "13 * i + 13 \<le> 13 * (count - 1)" using that by simp
    then have "13 \<le> length cs - i * 13" using bnd(1) by simp
    then show ?thesis by (simp add: lfn_fill_def Let_def min_def)
  qed
  let ?l = "drop ((count - 1) * 13) cs"
  obtain pad where pad: "lfn_fill ?l True = ?l @ pad" "pad = [] \<or> hd pad = 0"
  proof -
    have "length ?l \<le> 13" using bnd assms(1) by simp
    then have "lfn_fill ?l True = ?l @ (if length ?l < 13 then 0 # replicate (12 - length ?l) 0xFFFF else [])"
      unfolding lfn_fill_def Let_def by (simp add: min_absorb2 del: length_drop)
    then show ?thesis by (rule that) simp
  qed
  have "[0..<count] = [0..<count - 1] @ [count - 1]" using assms(1) by (metis Suc_pred' upt_Suc_append zero_le)
  then have "concat (map (\<lambda>i. lfn_fill (drop (i * 13) cs) (i = count - 1)) [0..<count])
      = concat (map (\<lambda>i. take 13 (drop (i * 13) cs)) [0..<count - 1]) @ lfn_fill ?l True"
  proof -
    have "map (\<lambda>i. lfn_fill (drop (i * 13) cs) (i = count - 1)) [0..<count - 1]
        = map (\<lambda>i. take 13 (drop (i * 13) cs)) [0..<count - 1]"
      by (rule map_cong [OF refl], rule full) simp
    then show ?thesis using \<open>[0..<count] = _\<close> by (simp only: map_append concat_append) simp
  qed
  also have "\<dots> = cs @ pad" unfolding chunk pad(1) by (simp add: mult.commute flip: append_assoc)
  finally show ?thesis using pad(2) by blast
qed

lemma take_name_ascii:
  "(\<forall>c \<in> set cs. 0 < c \<and> c < 0x80) \<Longrightarrow> pad = [] \<or> hd pad = 0 \<Longrightarrow> take_name (cs @ pad) = map of_nat cs"
  by (induction cs) (cases pad; auto)+

lemma utf8_chars_ascii: "\<forall>c \<in> set name. c < 0x80 \<Longrightarrow> utf8_chars name = map unat name"
  by (induction name) auto

lemma scan_lfn:
  assumes "at_slot sector off (lfn_entry_bytes sq part l ck)" "length part = 13" "\<forall>c \<in> set part. c < 65536"
    "0 < unat sq" "unat sq \<le> 10"
  shows "scan_slots cur s sector (off # offs) (parts, out) = scan_slots cur s sector offs (part # parts, out)"
proof -
  let ?e = "lfn_entry_bytes sq part l ck"
  have get: "sector ! (off + k) = ?e ! k" if "k < 32" for k using assms(1) that unfolding at_slot_def by blast
  have "length (unit_bytes (take 5 part)) = 10" using assms(2) by simp
  then have e11: "?e ! 11 = 0x0F" unfolding lfn_entry_bytes_def by (simp add: nth_append)
  have e0: "?e ! 0 = sq OR (if l then 0x40 else 0)" by (simp add: lfn_entry_bytes_def)
  have "\<not> bit (unat sq) 7" using assms(5) by (simp add: bit_iff_odd)
  then have "\<not> bit sq 7" by (simp add: bit_unsigned_iff)
  then have "\<not> bit (?e ! 0) 7" by (simp add: e0 bit_or_iff)
  then have "?e ! 0 \<noteq> 0xE5" by (auto simp: bit_numeral_rec)
  moreover have "?e ! 0 \<noteq> 0" using assms(4) by (auto simp: e0 or_eq_0_iff)
  ultimately have "?e ! 0 \<noteq> 0" "?e ! 0 \<noteq> 0xE5" by auto
  then show ?thesis using get [of 0] get [of 11] e11 at_slot_lfn_part [OF assms(1)] lfn_part_entry [OF assms(2,3)] by simp
qed

lemma scan_sfn:
  assumes at: "at_slot sector off (sfn_entry sfn now fc n is_dir)" and sfn: "length sfn = 11" "sfn ! 0 \<noteq> 0" "sfn ! 0 \<noteq> 0xE5"
    and parts: "parts \<noteq> []" "assemble_lfn parts \<noteq> []" "assemble_lfn parts \<noteq> [46]" "assemble_lfn parts \<noteq> [46, 46]"
  shows "scan_slots cur s sector (off # offs) (parts, out) = scan_slots cur s sector offs ([], out @
           [\<lparr>de_name = assemble_lfn parts, de_is_dir = is_dir, de_size = n, de_first_cluster = fc, location = (cur, s * 512 + off)\<rparr>])"
proof -
  obtain date time where dt: "fat_datetime now = (date, time)" by fastforce
  define d t where "d = to_le 2 (unat date)" and "t = to_le 2 (unat time)"
  have ld: "length d = 2" "length t = 2" by (simp_all add: d_def t_def)
  define e where "e = sfn_entry sfn now fc n is_dir"
  have e: "e = sfn @ [if is_dir then 0x10 else 0x20, 0, 0] @ t @ d @ d @ to_le 2 (unat fc div 65536) @ t @ d
         @ to_le 2 (unat fc mod 65536) @ to_le 4 (unat n)"
    by (simp add: e_def sfn_entry_def dt Let_def d_def t_def)
  have get: "sector ! (off + k) = e ! k" if "k < 32" for k using at that unfolding at_slot_def e_def by blast
  have e0: "e ! 0 = sfn ! 0" using sfn(1) by (simp add: e nth_append)
  have e11: "e ! 11 = (if is_dir then 0x10 else 0x20)" using sfn(1) by (simp add: e nth_append)
  have fcl: "unat fc < 4294967296" using unsigned_less [of fc, where ?'a = nat] by simp
  have hi: "le16 e 0x14 = unat fc div 65536"
    by (rule le16_bytes) (use sfn(1) ld fcl in \<open>simp_all add: e nth_append to_le_2 less_mult_imp_div_less\<close>)
  have lo: "le16 e 0x1A = unat fc mod 65536"
    by (rule le16_bytes) (use sfn(1) ld in \<open>simp_all add: e nth_append to_le_2\<close>)
  have sz: "le32 e 0x1C = n"
  proof -
    have "unat n < 4294967296" using unsigned_less [of n, where ?'a = nat] by simp
    then have "le_nat (to_le 4 (unat n)) = unat n" by (simp add: le_nat_to_le)
    moreover have "[e ! 28, e ! (28 + 1), e ! (28 + 2), e ! (28 + 3)] = to_le 4 (unat n)"
      using sfn(1) ld by (simp add: e nth_append to_le_2 to_le_4)
    ultimately show ?thesis unfolding le32_def by (simp only:) simp
  qed
  have s32: "le32 sector (off + 28) = le32 e 28" 
    using get [of 28] get [of 29] get [of 30] get [of 31] by (simp add: le32_def add.commute)
  have s16: "le16 sector (off + 20) = le16 e 20" "le16 sector (off + 26) = le16 e 26"
    using at_slot_le16 [OF at] by (simp_all add: e_def)
  have "parse_slot cur s sector off parts = \<lparr>de_name = assemble_lfn parts, de_is_dir = is_dir, de_size = n,
      de_first_cluster = fc, location = (cur, s * 512 + off)\<rparr>"
    unfolding parse_slot_def s32 sz s16 hi lo split_u32 using parts(1) get [of 11] e11 by simp
  then show ?thesis using get [of 0] get [of 11] e0 e11 sfn parts by (simp add: Let_def)
qed

lemma nth_slot:
  assumes "sector = pre @ concat es @ post" "length pre = 32 * i" "\<forall>e \<in> set es. length e = 32" "m < length es"
  shows "at_slot sector (32 * (i + m)) (es ! m)"
proof -
  have c32: "length (concat (take m es)) = 32 * m"
  proof -
    have "\<forall>e \<in> set (take m es). length e = 32" using assms(3) by (meson in_set_takeD)
    then have "map length (take m es) = replicate (length (take m es)) 32" by (simp add: map_replicate_const flip: map_eq_conv)
    then show ?thesis using assms(4) by (simp add: length_concat sum_list_replicate)
  qed
  have "es = take m es @ es ! m # drop (Suc m) es" using assms(4) by (rule id_take_nth_drop)
  then have "concat es = concat (take m es) @ es ! m @ concat (drop (Suc m) es)"
    by (metis concat.simps(2) concat_append)
  then have s: "sector = (pre @ concat (take m es)) @ es ! m @ (concat (drop (Suc m) es) @ post)"
    using assms(1) by simp
  have l: "length (pre @ concat (take m es)) = 32 * (i + m)" "length (es ! m) = 32"
    using assms(2-4) c32 by simp_all
  have "sector ! (32 * (i + m) + j) = es ! m ! j" if "j < 32" for j
    unfolding s l(1) [symmetric] nth_append_length_plus using l(2) that by (simp add: nth_append)
  moreover have "32 * (i + m) + 32 \<le> length sector" unfolding s using l by simp
  ultimately show ?thesis unfolding at_slot_def by blast
qed

lemma scan_lfns:
  assumes "list_all2 (\<lambda>off i. at_slot sector off (lfn_entry_bytes (of_nat (i + 1)) (P i) (L i) ck)) offs ixs"
    "\<forall>i \<in> set ixs. i < 10 \<and> length (P i) = 13 \<and> (\<forall>c \<in> set (P i). c < 65536)"
  shows "scan_slots cur s sector (offs @ offs') (parts, out) = scan_slots cur s sector offs' (rev (map P ixs) @ parts, out)"
  using assms
proof (induction arbitrary: parts rule: list_all2_induct)
  case (Cons off offs i ixs)
  have u: "unat (of_nat (i + 1) :: u8) = i + 1" using Cons.prems unfolding unat_of_nat_u8 by simp
  then have "scan_slots cur s sector (off # offs @ offs') (parts, out) = scan_slots cur s sector (offs @ offs') (P i # parts, out)"
    using Cons.prems Cons.hyps(1) by (intro scan_lfn) auto
  then show ?case using Cons.IH [of "P i # parts"] Cons.prems by simp
qed simp

lemma sfn_field_ok:
  assumes "0 < n"
  shows "sfn_field n bs ! 0 \<noteq> 0 \<and> sfn_field n bs ! 0 \<noteq> 0xE5"
proof -
  have ok: "to_ascii_uppercase b \<noteq> 0 \<and> to_ascii_uppercase b \<noteq> 0xE5" if "is_sfn_char b" for b
    using that by (auto simp: is_sfn_char_def is_ascii_alphanumeric_def to_ascii_uppercase_def word_le_nat_alt word_unat_eq_iff unat_sub_if')
  show ?thesis
  proof (cases "filter is_sfn_char bs")
    case Nil
    then show ?thesis using assms by (simp add: sfn_field_def Let_def nth_append)
  next
    case (Cons b cs)
    then have "is_sfn_char b" by (metis list.set_intros(1) mem_Collect_eq set_filter Int_iff filter_eq_Cons_iff)
    then show ?thesis using ok Cons assms by (cases n) (simp_all add: sfn_field_def Let_def)
  qed
qed

text \<open>The entries of a name are read back as the entry they were made for.\<close>

lemma name_entries_scan:
  assumes valid: "validate_name name" and ascii: "\<forall>c \<in> set name. c < 0x80"
    and sector: "sector = pre @ concat (name_entries name now fc n is_dir) @ post" "length pre = 32 * i"
  defines "k \<equiv> length (name_entries name now fc n is_dir)"
  shows "scan_slots cur s sector (map (\<lambda>m. 32 * m) [i..<i + k] @ offs) ([], out) =
    scan_slots cur s sector offs ([], out @ [\<lparr>de_name = name, de_is_dir = is_dir, de_size = n, de_first_cluster = fc,
      location = (cur, s * 512 + 32 * (i + k - 1))\<rparr>])"
proof -
  define cs where "cs = map unat name"
  define count where "count = div_ceil (length cs) 13"
  define P where "P = (\<lambda>i. lfn_fill (drop (i * 13) cs) (i = count - 1))"
  define ck where "ck = sfn_checksum (make_sfn name)"
  have u128: "unat c < 128" if "c \<in> set name" for c using ascii that by (auto simp: word_less_nat_alt)
  have c0: "0 < unat c" if "c \<in> set name" for c
  proof -
    have "\<not> c < 32" using valid that unfolding validate_name_def by blast
    then show ?thesis by (auto simp: word_less_nat_alt unat_gt_0)
  qed
  have mods: "map (\<lambda>c. c mod 65536) (utf8_chars name) = cs"
    using u128 unfolding utf8_chars_ascii [OF ascii] cs_def by (auto simp: map_idI dest!: u128)
  have es: "name_entries name now fc n is_dir =
      map (\<lambda>i. lfn_entry_bytes (of_nat (i + 1)) (P i) (i = count - 1) ck) (rev [0..<count])
      @ [sfn_entry (make_sfn name) now fc n is_dir]"
    unfolding name_entries_def mods lfn_entries_def Let_def P_def ck_def count_def by simp
  have kc: "k = count + 1" by (simp add: k_def es)
  have len: "0 < length cs" "length cs \<le> 128" using valid by (auto simp: cs_def validate_name_def MAX_NAME_def)
  have cnt: "0 < count" "count \<le> 10" using len unfolding count_def div_ceil_def by (auto simp: div_greater_zero_iff dest: dvd_imp_le)
  have e32: "\<forall>e \<in> set (name_entries name now fc n is_dir). length e = 32"
    unfolding es P_def by auto
  note slot = nth_slot [OF sector e32]
  have "list_all2 (\<lambda>off i. at_slot sector off (lfn_entry_bytes (of_nat (i + 1)) (P i) (i = count - 1) ck))
      (map (\<lambda>m. 32 * m) [i..<i + count]) (rev [0..<count])"
  proof (rule list_all2_all_nthI)
    fix m assume "m < length (map (\<lambda>m. 32 * m) [i..<i + count])"
    then have m: "m < count" by simp
    have "name_entries name now fc n is_dir ! m =
        lfn_entry_bytes (of_nat (rev [0..<count] ! m + 1)) (P (rev [0..<count] ! m)) (rev [0..<count] ! m = count - 1) ck"
      unfolding es using m by (simp add: nth_append)
    then show "at_slot sector (map (\<lambda>m. 32 * m) [i..<i + count] ! m) (lfn_entry_bytes (of_nat (rev [0..<count] ! m + 1))
        (P (rev [0..<count] ! m)) (rev [0..<count] ! m = count - 1) ck)"
      using slot [of m] m kc by (simp add: k_def)
  qed simp
  moreover have "\<forall>j \<in> set (rev [0..<count]). j < 10 \<and> length (P j) = 13 \<and> (\<forall>c \<in> set (P j). c < 65536)"
  proof -
    have "\<forall>c \<in> set (P j). c < 65536" for j
      using u128 by (fastforce simp: P_def lfn_fill_def Let_def cs_def dest!: in_set_takeD in_set_dropD split: if_splits)
    then show ?thesis using cnt by (auto simp: P_def)
  qed
  ultimately have "scan_slots cur s sector (map (\<lambda>m. 32 * m) [i..<i + count] @ (32 * (i + count) # offs)) ([], out)
      = scan_slots cur s sector (32 * (i + count) # offs) (map P [0..<count], out)"
    using scan_lfns [where P = P and L = "\<lambda>i. i = count - 1" and offs' = "32 * (i + count) # offs" and parts = "[]"]
    by (simp add: rev_map [symmetric])
  moreover have al: "assemble_lfn (map P [0..<count]) = name"
  proof -
    obtain pad where "concat (map P [0..<count]) = cs @ pad" "pad = [] \<or> hd pad = 0"
      using lfn_fill_concat [OF cnt(1) count_def] unfolding P_def by blast
    moreover have "\<forall>c \<in> set cs. 0 < c \<and> c < 0x80" using u128 c0 by (auto simp: cs_def)
    ultimately have "take_name (concat (map P [0..<count])) = map of_nat cs" using take_name_ascii by metis
    then show ?thesis by (simp add: assemble_lfn_def cs_def o_def)
  qed
  have "scan_slots cur s sector (32 * (i + count) # offs) (map P [0..<count], out) =
      scan_slots cur s sector offs ([], out @ [\<lparr>de_name = name, de_is_dir = is_dir, de_size = n, de_first_cluster = fc,
        location = (cur, s * 512 + 32 * (i + count))\<rparr>])"
  proof -
    have "name_entries name now fc n is_dir ! count = sfn_entry (make_sfn name) now fc n is_dir"
      unfolding es by (simp add: nth_append)
    then have "at_slot sector (32 * (i + count)) (sfn_entry (make_sfn name) now fc n is_dir)"
      using slot [of count] kc by (simp add: k_def)
    moreover have "make_sfn name ! 0 \<noteq> 0" "make_sfn name ! 0 \<noteq> 0xE5"
      using sfn_field_ok [of 8] by (simp_all add: make_sfn_def Let_def nth_append)
    moreover have "name \<noteq> []" "name \<noteq> [46]" "name \<noteq> [46, 46]" using valid by (auto simp: validate_name_def)
    ultimately show ?thesis
      using scan_sfn [of sector "32 * (i + count)" "make_sfn name" now fc n is_dir "map P [0..<count]"] al cnt(1) by simp
  qed
  ultimately show ?thesis unfolding kc by (simp add: upt_Suc_append)
qed

section \<open>Looking for free slots\<close>

lemma run_in_sector_none:
  assumes "\<forall>off \<in> set offs. sector ! off \<noteq> 0 \<and> sector ! off \<noteq> 0xE5" "0 < slots"
  shows "run_in_sector sector slots 0 offs = None"
  using assms by (induction offs) (auto simp: Let_def)

lemma run_in_sector_first:
  assumes "run < slots" "\<forall>m. run \<le> m \<and> m < slots \<longrightarrow> sector ! (32 * m) = 0 \<or> sector ! (32 * m) = 0xE5" "slots \<le> e"
  shows "run_in_sector sector slots run (map (\<lambda>i. 32 * i) [run..<e]) = Some 0"
  using assms
proof (induction "slots - run" arbitrary: run)
  case (Suc d)
  have up: "[run..<e] = run # [Suc run..<e]" using Suc.prems by (intro upt_conv_Cons) simp
  have free: "sector ! (32 * run) = 0 \<or> sector ! (32 * run) = 0xE5" using Suc.prems by simp
  show ?case
  proof (cases "Suc run = slots")
    case True
    then show ?thesis using free by (simp add: up Let_def)
  next
    case False
    then have "run_in_sector sector slots (Suc run) (map (\<lambda>i. 32 * i) [Suc run..<e]) = Some 0"
      using Suc by (intro Suc.hyps(1)) auto
    then show ?thesis using False free by (simp add: up Let_def)
  qed
qed simp

lemma find_free_run_second_sector:
  assumes wf: "fat_wf v" and c: "in_fat v parent" and sp: "2 \<le> spc v"
    and full: "\<forall>i < 16. sec v (cluster_to_sector v parent) ! (32 * i) \<noteq> 0 \<and> sec v (cluster_to_sector v parent) ! (32 * i) \<noteq> 0xE5"
    and room: "\<forall>i < k. sec v (cluster_to_sector v parent + 1) ! (32 * i) = 0 \<or> sec v (cluster_to_sector v parent + 1) ! (32 * i) = 0xE5"
    and k: "0 < k" "k \<le> 16"
  shows "find_free_run parent k v = Some (Inr (Some (parent, 0)), v)"
proof -
  have l: "cluster_to_sector v parent + 0 < 2 ^ 28" "cluster_to_sector v parent + 1 < 2 ^ 28"
    using cluster_sector_lt [OF wf c, of 0] cluster_sector_lt [OF wf c, of 1] sp by auto
  have up: "[0..<spc v] = 0 # 1 # [2..<spc v]" using sp by (simp add: upt_rec numeral_2_eq_2)
  have none: "run_in_sector (sec v (cluster_to_sector v parent)) k 0 slot_offsets = None"
    using full k(1) by (intro run_in_sector_none) (auto simp: slot_offsets_def)
  have some: "run_in_sector (sec v (cluster_to_sector v parent + 1)) k 0 slot_offsets = Some 0"
    unfolding slot_offsets_def using room k by (intro run_in_sector_first) auto
  have "run_in_cluster parent k [0..<spc v] v = Some (Inr (Some (parent, 0)), v)"
    unfolding up using none some by (simp add: bnd_rd [OF wf l(1), simplified] bnd_rd [OF wf l(2), simplified] ret_def)
  then show ?thesis unfolding find_free_run_def by (subst find_free_run_loop.simps) simp
qed

lemma write_dir_entries_overwrites:
  fixes now :: date_time and fc n :: u32 and is_dir :: bool
  assumes wf: "fat_wf v" and c: "in_fat v parent" and sp: "2 \<le> spc v"
    and full: "\<forall>i < 16. sec v (cluster_to_sector v parent) ! (32 * i) \<noteq> 0 \<and> sec v (cluster_to_sector v parent) ! (32 * i) \<noteq> 0xE5"
    and room: "\<forall>i < 16. sec v (cluster_to_sector v parent + 1) ! (32 * i) = 0"
    and valid: "validate_name name" and ascii: "\<forall>c \<in> set name. c < 0x80"
  defines "es \<equiv> name_entries name now fc n is_dir"
  shows "write_dir_entries now parent name fc n is_dir v = Some (Inr (),
           put v (cluster_to_sector v parent) (concat es @ drop (32 * length es) (sec v (cluster_to_sector v parent))))"
    and "0 < length es" "length es \<le> 11" "length (concat es) = 32 * length es"
proof -
  let ?cs = "map (\<lambda>c. c mod 65536) (utf8_chars name)"
  have len: "length ?cs \<le> 128" using valid by (simp add: utf8_chars_ascii [OF ascii] validate_name_def MAX_NAME_def)
  have le: "length es = div_ceil (length ?cs) 13 + 1"
    by (simp add: es_def name_entries_def lfn_entries_def Let_def)
  then show k: "0 < length es" "length es \<le> 11" using len unfolding div_ceil_def by (auto split: if_splits)
  have e32: "\<forall>e \<in> set es. length e = 32"
    by (auto simp: es_def name_entries_def lfn_entries_def Let_def)
  then have "map length es = replicate (length es) 32" by (simp add: map_replicate_const flip: map_eq_conv)
  then show lc: "length (concat es) = 32 * length es" by (simp add: length_concat sum_list_replicate)
  have l0: "cluster_to_sector v parent < 2 ^ 28" using cluster_sector_lt [OF wf c, of 0] sp by simp
  have ff: "find_free_run parent (length es) v = Some (Inr (Some (parent, 0)), v)"
    using room k by (intro find_free_run_second_sector [OF wf c sp full]) auto
  have sl: "length (sec v (cluster_to_sector v parent)) = 512" using fat_wfD(5) [OF wf] .
  show "write_dir_entries now parent name fc n is_dir v = Some (Inr (),
           put v (cluster_to_sector v parent) (concat es @ drop (32 * length es) (sec v (cluster_to_sector v parent))))"
    unfolding write_dir_entries_def Let_def es_def [symmetric]
    using ff lc k(2) sl by (simp add: bnd_def ret_def gets_def rd_ok [OF wf l0] panics_def splice_def wrs_ok [OF wf l0])
qed

section \<open>Properties\<close>

text \<open>C22: directory entries are read back as they were made. Wherever the entries of a valid ASCII
  name (its long-name parts in reverse order and its short entry) stand in a sector, the scan of
  \<open>read_dir\<close> over their slots yields exactly one entry, with that name, its size, first cluster and
  directory flag, and the place of its short entry.\<close>
theorem dir_entry_roundtrip:
  assumes "validate_name name" "\<forall>c \<in> set name. c < 0x80"
    "sector = pre @ concat (name_entries name now fc n is_dir) @ post" "length pre = 32 * i"
    "k = length (name_entries name now fc n is_dir)"
  shows "scan_slots cur s sector (map (\<lambda>m. 32 * m) [i..<i + k]) ([], out) =
    (False, [], out @ [\<lparr>de_name = name, de_is_dir = is_dir, de_size = n, de_first_cluster = fc,
      location = (cur, s * 512 + 32 * (i + k - 1))\<rparr>])"
  using name_entries_scan [OF assms(1-4), of cur s "[]" out] by (simp add: assms(5))

theorem dir_entry_roundtrip_witness:
  "\<exists>k. scan_slots 2 0 (concat (name_entries [72, 105, 46, 116] \<lparr>year = 2024, month = 5, day = 6, hour = 7, minute = 8, second = 9\<rparr> 5 3 False))
      (map (\<lambda>m. 32 * m) [0..<k]) ([], []) =
    (False, [], [\<lparr>de_name = [72, 105, 46, 116], de_is_dir = False, de_size = 3, de_first_cluster = 5, location = (2, 32 * (k - 1))\<rparr>])"
proof -
  have "validate_name [72, 105, 46, 116]" by (simp add: validate_name_def MAX_NAME_def)
  from dir_entry_roundtrip [OF this _ _ _ refl, of _ "[]" _ 5 3 False "[]" 0 2 0 "[]"] show ?thesis by force
qed

text \<open>C23: a new entry destroys old ones. On a volume with more than one sector per cluster, when the
  first sector of a directory is full and the second is free, \<open>write_dir_entries\<close> succeeds but writes
  the new entries over the first slots of the full first sector: \<open>find_free_run\<close> returns the offset
  within the sector it found and loses which sector that was.\<close>
theorem new_entry_overwrites_old:
  assumes "fat_wf v" "in_fat v parent" "2 \<le> spc v"
    "\<forall>i < 16. sec v (cluster_to_sector v parent) ! (32 * i) \<noteq> 0 \<and> sec v (cluster_to_sector v parent) ! (32 * i) \<noteq> 0xE5"
    "\<forall>i < 16. sec v (cluster_to_sector v parent + 1) ! (32 * i) = 0"
    "validate_name name" "\<forall>c \<in> set name. c < 0x80"
  shows "\<exists>v'. write_dir_entries now parent name fc n is_dir v = Some (Inr (), v')
    \<and> sec v' (cluster_to_sector v parent) = concat (name_entries name now fc n is_dir)
        @ drop (32 * length (name_entries name now fc n is_dir)) (sec v (cluster_to_sector v parent))
    \<and> 0 < length (name_entries name now fc n is_dir)
    \<and> sec v' (cluster_to_sector v parent + 1) = sec v (cluster_to_sector v parent + 1)"
  using write_dir_entries_overwrites [OF assms, of now fc n is_dir] by auto

theorem new_entry_overwrites_old_witness:
  "\<exists>v'. write_dir_entries \<lparr>year = 2024, month = 5, day = 6, hour = 7, minute = 8, second = 9\<rparr> 2 [97] 5 3 False sample_volume = Some (Inr (), v')
    \<and> sec v' 11 = sec sample_volume 11"
proof -
  have c: "cluster_to_sector sample_volume 2 = 10" by (simp add: cluster_to_sector_def sample_volume_def)
  have i: "in_fat sample_volume 2" "2 \<le> spc sample_volume" by (simp_all add: in_fat_def sample_volume_def)
  have f: "\<forall>i < 16. sec sample_volume 10 ! (32 * i) \<noteq> 0 \<and> sec sample_volume 10 ! (32 * i) \<noteq> 0xE5"
    "\<forall>i < 16. sec sample_volume (10 + 1) ! (32 * i) = 0" by (simp_all add: sample_volume_def)
  have n: "validate_name [97]" by (simp add: validate_name_def MAX_NAME_def)
  from new_entry_overwrites_old [OF sample_wf i, unfolded c, OF f n] show ?thesis by fastforce
qed

end
