(* ===== verification/Vfs.thy ===== *)
theory Vfs
  imports Fat
begin

text \<open>
  \<open>src/src/vfs.rs\<close>: open files as copies of their contents with a cursor, written back on flush. The
  volume below is the mounted \<open>Fat\<close> volume; slices out of range panic (\<open>None\<close>), and memory for the
  copy is taken to be available. A \<open>u64\<close> or \<open>i64\<close> argument is a 64-bit word.
\<close>

section \<open>Handles\<close>

datatype vfs_error = VNoDisk | VNotFound | VNotDir | VIsDir | VAlreadyExists | VNotEmpty | VInvalidName
  | VOutOfSpace | VCorrupt | VIo

fun from_fat_error :: "fat_error \<Rightarrow> vfs_error" where
  "from_fat_error NoDisk = VNoDisk"
| "from_fat_error NotFound = VNotFound"
| "from_fat_error NotDir = VNotDir"
| "from_fat_error AlreadyExists = VAlreadyExists"
| "from_fat_error NotEmpty = VNotEmpty"
| "from_fat_error InvalidName = VInvalidName"
| "from_fat_error OutOfSpace = VOutOfSpace"
| "from_fat_error Corrupt = VCorrupt"
| "from_fat_error InvalidVolume = VIo"
| "from_fat_error (Io _) = VIo"

datatype seek_from = SeekStart u64 | SeekCurrent u64 | SeekEnd u64

record stat =
  st_size :: u64
  st_is_dir :: bool
  st_ino :: u64

definition path_hash :: "u8 list \<Rightarrow> u64" where
  "path_hash path = (let h = fold (\<lambda>b hash. (hash XOR of_nat (unat b)) * 0x100000001B3) path 0xcbf29ce484222325
     in if h = 0 then 1 else h)"

definition O_WRONLY :: u32 where "O_WRONLY = 1"
definition O_RDWR :: u32 where "O_RDWR = 2"
definition O_CREAT :: u32 where "O_CREAT = 4"
definition O_TRUNC :: u32 where "O_TRUNC = 8"
definition O_APPEND :: u32 where "O_APPEND = 16"

lemmas open_flags = O_WRONLY_def O_RDWR_def O_CREAT_def O_TRUNC_def O_APPEND_def

record file_handle =
  fh_path :: "u8 list"
  fh_data :: "u8 list"
  fh_cursor :: usize
  fh_dirty :: bool
  fh_writable :: bool
  fh_is_dir :: bool

section \<open>Operations\<close>

definition vfs_open :: "u8 list \<Rightarrow> u32 \<Rightarrow> mounted \<Rightarrow> ((vfs_error + file_handle) \<times> mounted) exec" where
  "vfs_open path flags m = do {
     (d, m1) \<leftarrow> fat_is_dir path m;
     if d = Inr True then
       Some (Inr \<lparr>fh_path = path, fh_data = [], fh_cursor = 0, fh_dirty = False, fh_writable = False, fh_is_dir = True\<rparr>, m1)
     else do {
       let wr = flags AND (O_WRONLY OR O_RDWR) \<noteq> 0;
       (r, m2) \<leftarrow> read_file path m1;
       let data = (case r of
           Inr bytes \<Rightarrow> Inr (if flags AND O_TRUNC \<noteq> 0 then [] else bytes)
         | Inl e \<Rightarrow> if e = NotFound \<and> flags AND O_CREAT \<noteq> 0 then Inr [] else Inl (from_fat_error e));
       case data of
         Inl e \<Rightarrow> Some (Inl e, m2)
       | Inr bytes \<Rightarrow> Some (Inr \<lparr>fh_path = path, fh_data = bytes,
             fh_cursor = (if flags AND O_APPEND \<noteq> 0 then length bytes else 0), fh_dirty = False,
             fh_writable = wr, fh_is_dir = False\<rparr>, m2) } }"

text \<open>\<open>read\<close> into a buffer of \<open>n\<close> bytes: the bytes read and the handle. The source takes the slice
  \<open>data[cursor..cursor + n]\<close> also when nothing is left to read.\<close>

definition vfs_read :: "nat \<Rightarrow> file_handle \<Rightarrow> (u8 list \<times> file_handle) exec" where
  "vfs_read n h =
     (if fh_is_dir h then Some ([], h)
      else let k = min (sat_sub (length (fh_data h)) (fh_cursor h)) n
           in if fh_cursor h + k \<le> length (fh_data h)
              then Some (take k (drop (fh_cursor h) (fh_data h)), h\<lparr>fh_cursor := fh_cursor h + k\<rparr>)
              else None)"

definition vfs_write :: "u8 list \<Rightarrow> file_handle \<Rightarrow> ((vfs_error + usize) \<times> file_handle) exec" where
  "vfs_write buf h =
     (if fh_is_dir h \<or> \<not> fh_writable h then Some (Inl VIsDir, h)
      else let e = wadd (fh_cursor h) (length buf);
               data = (if e > length (fh_data h) then fh_data h @ replicate (e - length (fh_data h)) 0 else fh_data h)
           in if fh_cursor h \<le> e \<and> e - fh_cursor h = length buf
              then Some (Inr (length buf), h\<lparr>fh_data := take (fh_cursor h) data @ buf @ drop e data, fh_cursor := e, fh_dirty := True\<rparr>)
              else None)"

definition vfs_seek :: "seek_from \<Rightarrow> file_handle \<Rightarrow> u64 \<times> file_handle" where
  "vfs_seek pos h =
     (let base = (case pos of
            SeekStart p \<Rightarrow> sint p
          | SeekCurrent p \<Rightarrow> sint (of_nat (fh_cursor h) + p)
          | SeekEnd p \<Rightarrow> sint (of_nat (length (fh_data h)) + p));
          c = nat (max base 0)
      in (of_nat c, h\<lparr>fh_cursor := c\<rparr>))"

definition vfs_stat :: "file_handle \<Rightarrow> stat" where
  "vfs_stat h = \<lparr>st_size = of_nat (length (fh_data h)), st_is_dir = fh_is_dir h, st_ino = path_hash (fh_path h)\<rparr>"

definition vfs_flush :: "date_time \<Rightarrow> file_handle \<Rightarrow> mounted \<Rightarrow> ((vfs_error + unit) \<times> file_handle \<times> mounted) exec" where
  "vfs_flush now h m =
     (if fh_dirty h then do {
        (r, m') \<leftarrow> write_file now (fh_path h) (fh_data h) m;
        case r of Inl e \<Rightarrow> Some (Inl (from_fat_error e), h, m')
                | Inr _ \<Rightarrow> Some (Inr (), h\<lparr>fh_dirty := False\<rparr>, m') }
      else Some (Inr (), h, m))"

text \<open>Dropping a handle flushes it and ignores the result.\<close>

definition vfs_drop :: "date_time \<Rightarrow> file_handle \<Rightarrow> mounted \<Rightarrow> mounted exec" where
  "vfs_drop now h m = do { (_, _, m') \<leftarrow> vfs_flush now h m; Some m' }"

section \<open>The byte file as reference\<close>

text \<open>The contents as a function of the position (\<open>None\<close> from the end on), and what writing means on it.\<close>

definition byte_at :: "u8 list \<Rightarrow> nat \<Rightarrow> u8 option" where
  "byte_at data i = (if i < length data then Some (data ! i) else None)"

definition write_at :: "nat \<Rightarrow> u8 list \<Rightarrow> (nat \<Rightarrow> u8 option) \<Rightarrow> nat \<Rightarrow> u8 option" where
  "write_at pos buf f i =
     (if pos \<le> i \<and> i < pos + length buf then Some (buf ! (i - pos))
      else if f i = None \<and> i < pos then Some 0 else f i)"

lemma byte_at_write:
  assumes "buf \<noteq> []" "e = c + length buf" "data' = (if e > length data then data @ replicate (e - length data) 0 else data)"
  shows "byte_at (take c data' @ buf @ drop e data') = write_at c buf (byte_at data)"
proof
  fix i
  have le: "e \<le> length data'" "c \<le> length data'" using assms(2,3) by auto
  consider "i < c" | "c \<le> i" "i < e" | "e \<le> i" by linarith
  then show "byte_at (take c data' @ buf @ drop e data') i = write_at c buf (byte_at data) i"
  proof cases
    case 1
    then show ?thesis using le assms(2,3) by (auto simp: byte_at_def write_at_def nth_append)
  next
    case 2
    then show ?thesis using le assms(2) by (auto simp: byte_at_def write_at_def nth_append)
  next
    case 3
    then show ?thesis using le assms by (auto simp: byte_at_def write_at_def nth_append)
  qed
qed

lemma sint_of_nat: "n < 2 ^ 63 \<Longrightarrow> sint (of_nat n :: u64) = int n"
  by (simp add: signed_of_nat signed_take_bit_int_eq_self)

section \<open>Properties\<close>

text \<open>C24: \<open>write\<close> refines the byte file. On a writable file, writing a non-empty buffer at a cursor that
  does not overflow succeeds, puts the buffer at the cursor, fills a gap behind the old end with zeros,
  changes no other byte, moves the cursor behind the buffer and marks the handle; seeking back, \<open>read\<close>
  returns the buffer.\<close>
theorem vfs_write_refines:
  assumes "\<not> fh_is_dir h" "fh_writable h" "buf \<noteq> []" "fh_cursor h + length buf < 2 ^ 63"
  shows "\<exists>h'. vfs_write buf h = Some (Inr (length buf), h')
    \<and> byte_at (fh_data h') = write_at (fh_cursor h) buf (byte_at (fh_data h))
    \<and> fh_cursor h' = fh_cursor h + length buf \<and> fh_dirty h' \<and> fh_path h' = fh_path h
    \<and> (\<exists>h''. vfs_read (length buf) (snd (vfs_seek (SeekStart (of_nat (fh_cursor h))) h')) = Some (buf, h''))"
proof -
  let ?c = "fh_cursor h" and ?e = "fh_cursor h + length buf"
  have we: "wadd ?c (length buf) = ?e" using assms(4) by (intro wadd_small) simp
  define data' where "data' = (if ?e > length (fh_data h) then fh_data h @ replicate (?e - length (fh_data h)) 0 else fh_data h)"
  let ?h = "h\<lparr>fh_data := take ?c data' @ buf @ drop ?e data', fh_cursor := ?e, fh_dirty := True\<rparr>"
  have run: "vfs_write buf h = Some (Inr (length buf), ?h)"
    using assms by (simp add: vfs_write_def we Let_def data'_def)
  have len: "?e \<le> length data'" by (simp add: data'_def)
  have "byte_at (fh_data ?h) = write_at ?c buf (byte_at (fh_data h))"
    using byte_at_write [OF assms(3) refl data'_def] by simp
  moreover have "sint (of_nat ?c :: u64) = int ?c" using assms(4) by (intro sint_of_nat) simp
  then have sk: "snd (vfs_seek (SeekStart (of_nat ?c)) ?h) = ?h\<lparr>fh_cursor := ?c\<rparr>"
    by (simp add: vfs_seek_def Let_def)
  have "vfs_read (length buf) (?h\<lparr>fh_cursor := ?c\<rparr>) = Some (buf, ?h)"
  proof -
    have "min (length (take ?c data' @ buf @ drop ?e data') - ?c) (length buf) = length buf" using len by simp
    then show ?thesis using len assms(1) unfolding vfs_read_def Let_def sat_sub_def by simp
  qed
  ultimately show ?thesis using run sk by (intro exI [of _ ?h]) simp
qed

theorem vfs_write_refines_witness:
  "\<exists>h'. vfs_write [7, 8] \<lparr>fh_path = [47, 97], fh_data = [1], fh_cursor = 3, fh_dirty = False, fh_writable = True, fh_is_dir = False\<rparr>
      = Some (Inr 2, h') \<and> byte_at (fh_data h') 2 = Some 0"
proof -
  let ?h = "\<lparr>fh_path = [47, 97], fh_data = [1], fh_cursor = 3, fh_dirty = False, fh_writable = True, fh_is_dir = False\<rparr>"
  have l: "length [7, 8 :: u8] = 2" by simp
  obtain h' where "vfs_write [7, 8] ?h = Some (Inr 2, h')" "byte_at (fh_data h') = write_at 3 [7, 8] (byte_at [1])"
    using vfs_write_refines [of ?h "[7, 8]", unfolded l] by auto
  then show ?thesis by (intro exI [of _ h'] conjI) (assumption, simp add: write_at_def byte_at_def)
qed

text \<open>C25: reading past the end stops the kernel. \<open>seek\<close> accepts any position, and \<open>read\<close> with the cursor
  behind the end of the file panics instead of returning 0 bytes, whatever the length asked for; with
  the cursor at or before the end it never panics and returns the bytes that are there.\<close>
theorem vfs_read_past_end_panics:
  assumes "\<not> fh_is_dir h" "unat p < 2 ^ 63"
  shows "vfs_read n (snd (vfs_seek (SeekStart p) h)) =
    (if unat p \<le> length (fh_data h)
     then Some (take n (drop (unat p) (fh_data h)), h\<lparr>fh_cursor := unat p + min (length (fh_data h) - unat p) n\<rparr>)
     else None)"
proof -
  have "sint p = int (unat p)" using sint_of_nat [OF assms(2)] by simp
  then have "vfs_seek (SeekStart p) h = (p, h\<lparr>fh_cursor := unat p\<rparr>)" by (simp add: vfs_seek_def Let_def)
  moreover have "unat p + min (length (fh_data h) - unat p) n \<le> length (fh_data h) \<longleftrightarrow> unat p \<le> length (fh_data h)"
    by (auto simp: min_def)
  moreover have "take (min (length (fh_data h) - unat p) n) (drop (unat p) (fh_data h)) = take n (drop (unat p) (fh_data h))"
    by (metis length_drop min.commute take_all take_take order_refl)
  ultimately show ?thesis using assms(1) by (simp add: vfs_read_def sat_sub_def Let_def)
qed

theorem vfs_read_past_end_panics_witness:
  "vfs_read 1 (snd (vfs_seek (SeekStart 4) \<lparr>fh_path = [47, 97], fh_data = [1], fh_cursor = 0, fh_dirty = False, fh_writable = True, fh_is_dir = False\<rparr>)) = None"
  using vfs_read_past_end_panics [of "\<lparr>fh_path = [47, 97], fh_data = [1], fh_cursor = 0, fh_dirty = False, fh_writable = True, fh_is_dir = False\<rparr>" 4 1]
  by simp

end
