(* ===== verification/Process.thy ===== *)
theory Process
  imports Paging Socket Vfs
begin

text \<open>
  \<open>src/src/process.rs\<close>, the process object: its fields, the file descriptor table and the virtual
  memory operations \<open>brk\<close>, \<open>mmap\<close>, \<open>munmap\<close>, \<open>mprotect\<close> and the growth of the stack. An operation
  works on the process and on the kernel state it calls into: the page-table memory and the frame
  allocator (\<open>Paging\<close>, \<open>Pmm\<close>), sockets and shared memory with physical memory (\<open>Socket\<close>, \<open>Shm\<close>),
  and the mounted volume (\<open>Vfs\<close>). Physical memory is seen through two views, table entries and bytes;
  a frame serves one of them at a time, and the code clears it when it takes it.
\<close>

section \<open>Kernel state\<close>

record kern =
  k_pt :: "usize \<Rightarrow> u64"
  k_sock :: sock
  k_vol :: mounted
  k_now :: date_time

abbreviation k_shm :: "kern \<Rightarrow> shm" where "k_shm k \<equiv> sk_shm (k_sock k)"
abbreviation k_pmm :: "kern \<Rightarrow> pmm" where "k_pmm k \<equiv> sh_pmm (k_shm k)"
abbreviation k_mem :: "kern \<Rightarrow> usize \<Rightarrow> u8" where "k_mem k \<equiv> sh_mem (k_shm k)"

definition set_shm :: "shm \<Rightarrow> kern \<Rightarrow> kern" where
  "set_shm sh k = k\<lparr>k_sock := (k_sock k)\<lparr>sk_shm := sh\<rparr>\<rparr>"

definition set_pmm :: "pmm \<Rightarrow> kern \<Rightarrow> kern" where
  "set_pmm p k = set_shm ((k_shm k)\<lparr>sh_pmm := p\<rparr>) k"

definition upd_mem :: "((usize \<Rightarrow> u8) \<Rightarrow> usize \<Rightarrow> u8) \<Rightarrow> kern \<Rightarrow> kern" where
  "upd_mem f k = set_shm ((k_shm k)\<lparr>sh_mem := f (k_mem k)\<rparr>) k"

definition mmu_of :: "kern \<Rightarrow> mmu" where
  "mmu_of k = \<lparr>pt_mem = k_pt k, mm_pmm = k_pmm k\<rparr>"

definition set_mmu :: "mmu \<Rightarrow> kern \<Rightarrow> kern" where
  "set_mmu m k = (set_pmm (mm_pmm m) k)\<lparr>k_pt := pt_mem m\<rparr>"

text \<open>\<open>copy_nonoverlapping\<close> from a slice into physical memory.\<close>

definition put_bytes :: "usize \<Rightarrow> u8 list \<Rightarrow> (usize \<Rightarrow> u8) \<Rightarrow> usize \<Rightarrow> u8" where
  "put_bytes dst bs m = (\<lambda>x. if dst \<le> x \<and> x < dst + length bs then bs ! (x - dst) else m x)"

lemmas kern_simps = set_shm_def set_pmm_def upd_mem_def mmu_of_def set_mmu_def

section \<open>Constants and data\<close>

definition FIRST_FILE_FD :: usize where "FIRST_FILE_FD = 3"
definition PROC_RESULT_VIRT :: u64 where "PROC_RESULT_VIRT = 0x2FF0000"
definition MIN_SEGMENT_VADDR :: u64 where "MIN_SEGMENT_VADDR = 2 * 1024 * 1024"
definition PIE_LOAD_BASE :: u64 where "PIE_LOAD_BASE = 0x20000000"
definition INTERP_LOAD_BASE :: u64 where "INTERP_LOAD_BASE = 0x38000000"
definition USER_STACK_TOP :: u64 where "USER_STACK_TOP = 0x10000000"
definition USER_STACK_PAGES :: u64 where "USER_STACK_PAGES = 8"
definition USER_STACK_BASE :: u64 where "USER_STACK_BASE = USER_STACK_TOP - USER_STACK_PAGES * PAGE_SIZE"
definition USER_STACK_MAX_PAGES :: u64 where "USER_STACK_MAX_PAGES = 256"
definition USER_STACK_LOW_LIMIT :: u64 where "USER_STACK_LOW_LIMIT = USER_STACK_TOP - USER_STACK_MAX_PAGES * PAGE_SIZE"
definition USER_EXIT_STUB_VIRT :: u64 where "USER_EXIT_STUB_VIRT = USER_STACK_TOP"
definition MMAP_BASE :: u64 where "MMAP_BASE = 0x40000000"
definition MMAP_CEILING :: u64 where "MMAP_CEILING = 0xC0000000"

lemmas process_consts = FIRST_FILE_FD_def PROC_RESULT_VIRT_def MIN_SEGMENT_VADDR_def PIE_LOAD_BASE_def
  INTERP_LOAD_BASE_def USER_STACK_TOP_def USER_STACK_PAGES_def USER_STACK_BASE_def USER_STACK_MAX_PAGES_def
  USER_STACK_LOW_LIMIT_def USER_EXIT_STUB_VIRT_def MMAP_BASE_def MMAP_CEILING_def PAGE_SIZE_def

record mapping =
  m_vaddr :: u64
  m_phys :: u64
  m_len :: u64
  m_shm_id :: "usize option"

datatype fd_entry = FdFile file_handle | FdShm usize usize | FdSocket usize

datatype exit_info = ExitNormal | ExitPageFault u64 | ExitException u8

datatype process_state = Running | Exited

datatype abi = AbiNative | AbiLinux

record process =
  p_entry :: usize
  p_user_rsp :: u64
  p_frames :: "usize list"
  p_mappings :: "mapping list"
  p_state :: process_state
  p_exit_info :: "exit_info option"
  p_inbox :: "u8 list option"
  p_fds :: "fd_entry option list"
  p_stack_low :: u64
  p_stack_phys_base :: u64
  p_abi :: abi
  p_heap_start :: u64
  p_heap_end :: u64
  p_mmap_next :: u64
  p_fs_base :: u64

text \<open>An operation on a process inside the kernel.\<close>

type_synonym 'a pop = "process \<times> kern \<Rightarrow> ('a \<times> process \<times> kern) exec"

definition align_up64 :: "u64 \<Rightarrow> u64 \<Rightarrow> u64" where
  "align_up64 v a = (v + a - 1) AND NOT (a - 1)"

section \<open>Exit state and file descriptors\<close>

definition is_exited :: "process \<Rightarrow> bool" where
  "is_exited p \<longleftrightarrow> p_state p = Exited"

definition state_label :: "process \<Rightarrow> string" where
  "state_label p = (case p_state p of Running \<Rightarrow> ''running'' | Exited \<Rightarrow> ''exited'')"

definition mark_exited :: "exit_info \<Rightarrow> process \<Rightarrow> process" where
  "mark_exited info p =
     (if p_state p = Running then p\<lparr>p_state := Exited, p_exit_info := Some info\<rparr> else p)"

text \<open>Dropping an entry: its own \<open>Drop\<close>, then that of the file handle in it.\<close>

fun fd_drop :: "fd_entry \<Rightarrow> kern \<Rightarrow> kern exec" where
  "fd_drop (FdShm oid c) k = do { sh \<leftarrow> shm_close oid (k_shm k); Some (set_shm sh k) }"
| "fd_drop (FdSocket eid) k = do { s \<leftarrow> sock_close eid (k_sock k); Some (k\<lparr>k_sock := s\<rparr>) }"
| "fd_drop (FdFile h) k = do { v \<leftarrow> vfs_drop (k_now k) h (k_vol k); Some (k\<lparr>k_vol := v\<rparr>) }"

definition alloc_fd :: "fd_entry \<Rightarrow> process \<Rightarrow> usize \<times> process" where
  "alloc_fd e p =
     (case find (\<lambda>i. p_fds p ! i = None) [FIRST_FILE_FD..<length (p_fds p)] of
        Some i \<Rightarrow> (i, p\<lparr>p_fds := (p_fds p)[i := Some e]\<rparr>)
      | None \<Rightarrow> (length (p_fds p), p\<lparr>p_fds := p_fds p @ [Some e]\<rparr>))"

definition fd_get :: "usize \<Rightarrow> process \<Rightarrow> fd_entry option" where
  "fd_get fd p = slot (p_fds p) fd"

definition fd_set :: "usize \<Rightarrow> fd_entry \<Rightarrow> process \<Rightarrow> process" where
  "fd_set fd e p = p\<lparr>p_fds := (p_fds p)[fd := Some e]\<rparr>"

definition close_fd :: "usize \<Rightarrow> bool pop" where
  "close_fd fd = (\<lambda>(p, k).
     if fd < FIRST_FILE_FD then Some (False, p, k)
     else case slot (p_fds p) fd of
            None \<Rightarrow> Some (False, p, k)
          | Some e \<Rightarrow> do { k' \<leftarrow> fd_drop e k; Some (True, p\<lparr>p_fds := (p_fds p)[fd := None]\<rparr>, k') })"

section \<open>Virtual memory\<close>

text \<open>\<open>map_range_in\<close> with the process's frame list, and \<open>alloc_contiguous\<close> followed by the loop that
  records the frames.\<close>

definition map_in :: "u64 \<Rightarrow> u64 \<Rightarrow> u64 \<Rightarrow> u64 \<Rightarrow> u64 \<Rightarrow> bool pop" where
  "map_in pml4 v ph len flags = (\<lambda>(p, k). do {
     (b, fr, m) \<leftarrow> map_range_in pml4 v ph len flags (p_frames p, mmu_of k);
     Some (b, p\<lparr>p_frames := fr\<rparr>, set_mmu m k) })"

definition alloc_pages :: "usize \<Rightarrow> usize option pop" where
  "alloc_pages pages = (\<lambda>(p, k). do {
     (r, q) \<leftarrow> alloc_contiguous pages (k_pmm k);
     case r of
       None \<Rightarrow> Some (None, p, set_pmm q k)
     | Some phys \<Rightarrow> Some (Some phys, p\<lparr>p_frames := p_frames p @ map (\<lambda>i. phys + i * FRAME_SIZE) [0..<pages]\<rparr>,
                          set_pmm q k) })"

definition add_mapping :: "mapping \<Rightarrow> process \<Rightarrow> process" where
  "add_mapping m p = p\<lparr>p_mappings := p_mappings p @ [m]\<rparr>"

definition USER_RW :: u64 where
  "USER_RW = PAGE_PRESENT OR PAGE_WRITABLE OR PAGE_USER OR PAGE_NX"

definition user_flags :: "bool \<Rightarrow> bool \<Rightarrow> u64" where
  "user_flags w x = (PAGE_PRESENT OR PAGE_USER) OR (if w then PAGE_WRITABLE else 0) OR (if x then 0 else PAGE_NX)"

definition init_stack_backing :: "(string + unit) pop" where
  "init_stack_backing st = do {
     (r, p, k) \<leftarrow> alloc_pages (unat USER_STACK_MAX_PAGES) st;
     case r of
       None \<Rightarrow> Some (Inl ''out of memory'', p, k)
     | Some phys \<Rightarrow>
         Some (Inr (),
           add_mapping \<lparr>m_vaddr = USER_STACK_LOW_LIMIT, m_phys = of_nat phys,
                        m_len = USER_STACK_MAX_PAGES * PAGE_SIZE, m_shm_id = None\<rparr>
             (p\<lparr>p_stack_phys_base := of_nat phys\<rparr>),
           upd_mem (write_bytes phys 0 (unat USER_STACK_MAX_PAGES * FRAME_SIZE)) k) }"

definition stack_phys_for :: "process \<Rightarrow> u64 \<Rightarrow> u64" where
  "stack_phys_for p v = p_stack_phys_base p + (v - USER_STACK_LOW_LIMIT)"

definition try_grow_stack :: "u64 \<Rightarrow> u64 \<Rightarrow> bool pop" where
  "try_grow_stack pml4 fault_addr = (\<lambda>(p, k).
     if fault_addr \<ge> p_stack_low p \<or> fault_addr < USER_STACK_LOW_LIMIT then Some (False, p, k)
     else do {
       let new_low = fault_addr AND NOT (PAGE_SIZE - 1);
       (b, p1, k1) \<leftarrow> map_in pml4 new_low (stack_phys_for p new_low) (p_stack_low p - new_low) USER_RW (p, k);
       if b then Some (True, p1\<lparr>p_stack_low := new_low\<rparr>, k1) else Some (False, p1, k1) })"

definition find_mapping :: "u64 \<Rightarrow> u64 \<Rightarrow> mapping list \<Rightarrow> mapping option" where
  "find_mapping v e ms = find (\<lambda>m. m_vaddr m \<le> v \<and> e \<le> m_vaddr m + m_len m) ms"

definition translate_in :: "mapping list \<Rightarrow> u64 \<Rightarrow> u64 \<Rightarrow> u64 option" where
  "translate_in ms v len = do {
     e \<leftarrow> checked_add v len;
     m \<leftarrow> find_mapping v e ms;
     Some (m_phys m + (v - m_vaddr m)) }"

definition translate_local :: "process \<Rightarrow> u64 \<Rightarrow> u64 \<Rightarrow> u64 option" where
  "translate_local p v len = translate_in (p_mappings p) v len"

definition brk :: "u64 \<Rightarrow> u64 \<Rightarrow> u64 pop" where
  "brk pml4 requested = (\<lambda>(p, k).
     if requested < p_heap_start p then Some (p_heap_end p, p, k)
     else
       let old_mapped = align_up64 (max (p_heap_end p) (p_heap_start p) - p_heap_start p) PAGE_SIZE;
           new_mapped = align_up64 (requested - p_heap_start p) PAGE_SIZE
       in if new_mapped > old_mapped then do {
            let grow_len = new_mapped - old_mapped;
            (r, p1, k1) \<leftarrow> alloc_pages (unat (grow_len div PAGE_SIZE)) (p, k);
            case r of
              None \<Rightarrow> Some (p_heap_end p1, p1, k1)
            | Some phys \<Rightarrow> do {
                let k2 = upd_mem (write_bytes phys 0 (unat grow_len)) k1;
                let map_at = p_heap_start p + old_mapped;
                (b, p3, k3) \<leftarrow> map_in pml4 map_at (of_nat phys) grow_len USER_RW (p1, k2);
                if \<not> b then Some (p_heap_end p3, p3, k3)
                else Some (requested,
                       add_mapping \<lparr>m_vaddr = map_at, m_phys = of_nat phys, m_len = grow_len, m_shm_id = None\<rparr> p3
                         \<lparr>p_heap_end := requested\<rparr>, k3) } }
          else Some (requested, p\<lparr>p_heap_end := requested\<rparr>, k))"

text \<open>The address of a mapping: \<open>MAP_FIXED\<close>, or the next of the arena.\<close>

definition mmap_addr :: "u64 option \<Rightarrow> u64 \<Rightarrow> process \<Rightarrow> u64 option" where
  "mmap_addr at len p =
     (case at of
        Some a \<Rightarrow> Some (a AND NOT (PAGE_SIZE - 1))
      | None \<Rightarrow> do {
          e \<leftarrow> checked_add (p_mmap_next p) len;
          if e > MMAP_CEILING then None else Some (p_mmap_next p) })"

definition record_mmap :: "u64 option \<Rightarrow> mapping \<Rightarrow> process \<Rightarrow> process" where
  "record_mmap at m p =
     (let p1 = add_mapping m p in if at = None then p1\<lparr>p_mmap_next := m_vaddr m + m_len m\<rparr> else p1)"

definition mmap_with_content :: "u64 \<Rightarrow> u64 option \<Rightarrow> u64 \<Rightarrow> bool \<Rightarrow> bool \<Rightarrow> u8 list option \<Rightarrow> u64 option pop" where
  "mmap_with_content pml4 at len0 w x content = (\<lambda>(p, k).
     let len = align_up64 (max len0 1) PAGE_SIZE
     in case mmap_addr at len p of
          None \<Rightarrow> Some (None, p, k)
        | Some addr \<Rightarrow> do {
            (r, p1, k1) \<leftarrow> alloc_pages (unat (len div PAGE_SIZE)) (p, k);
            case r of
              None \<Rightarrow> Some (None, p1, k1)
            | Some phys \<Rightarrow> do {
                let k2 = upd_mem (write_bytes phys 0 (unat len)) k1;
                let k3 = (case content of None \<Rightarrow> k2 | Some d \<Rightarrow> upd_mem (put_bytes phys (take (min (length d) (unat len)) d)) k2);
                (b, p4, k4) \<leftarrow> map_in pml4 addr (of_nat phys) len (user_flags w x) (p1, k3);
                if \<not> b then Some (None, p4, k4)
                else Some (Some addr, record_mmap at \<lparr>m_vaddr = addr, m_phys = of_nat phys, m_len = len, m_shm_id = None\<rparr> p4, k4) } })"

definition mmap_anon :: "u64 \<Rightarrow> u64 option \<Rightarrow> u64 \<Rightarrow> bool \<Rightarrow> bool \<Rightarrow> u64 option pop" where
  "mmap_anon pml4 at len w x = mmap_with_content pml4 at len w x None"

definition mmap_file :: "u64 \<Rightarrow> u64 option \<Rightarrow> u64 \<Rightarrow> bool \<Rightarrow> bool \<Rightarrow> u8 list \<Rightarrow> u64 option pop" where
  "mmap_file pml4 at len w x content = mmap_with_content pml4 at len w x (Some content)"

definition mmap_shared :: "u64 \<Rightarrow> u64 option \<Rightarrow> usize \<Rightarrow> bool \<Rightarrow> bool \<Rightarrow> u64 option pop" where
  "mmap_shared pml4 at shm_id w x = (\<lambda>(p, k).
     case (phys_of shm_id (k_shm k), pages_of shm_id (k_shm k)) of
       (Some phys, Some pages) \<Rightarrow>
         let len = of_nat (pages * unat PAGE_SIZE)
         in if len = 0 then Some (None, p, k)
            else (case mmap_addr at len p of
                    None \<Rightarrow> Some (None, p, k)
                  | Some addr \<Rightarrow> do {
                      (b, p1, k1) \<leftarrow> map_in pml4 addr (of_nat phys) len (user_flags w x) (p, k);
                      if \<not> b then Some (None, p1, k1)
                      else Some (Some addr, record_mmap at \<lparr>m_vaddr = addr, m_phys = of_nat phys, m_len = len,
                                                            m_shm_id = Some shm_id\<rparr> p1, k1) })
     | _ \<Rightarrow> Some (None, p, k))"

text \<open>One mapping given back, and the loop of \<open>munmap\<close> over the mappings: the ones it keeps.\<close>

definition drop_mapping :: "u64 \<Rightarrow> mapping \<Rightarrow> process \<times> kern \<Rightarrow> (process \<times> kern) exec" where
  "drop_mapping pml4 m = (\<lambda>(p, k). do {
     (_, s) \<leftarrow> unmap_range_in pml4 (m_vaddr m) (m_len m) (mmu_of k);
     let k1 = set_mmu s k;
     if m_shm_id m = None then do {
       q \<leftarrow> for_each frame_free (map (\<lambda>i. unat (m_phys m) + i * FRAME_SIZE) [0..<unat (m_len m div PAGE_SIZE)]) (k_pmm k1);
       Some (p\<lparr>p_frames := filter (\<lambda>f. (of_nat f :: u64) < m_phys m \<or> (of_nat f :: u64) \<ge> m_phys m + m_len m) (p_frames p)\<rparr>,
             set_pmm q k1) }
     else Some (p, k1) })"

fun munmap_loop :: "u64 \<Rightarrow> u64 \<Rightarrow> u64 \<Rightarrow> mapping list \<Rightarrow> process \<times> kern \<Rightarrow> (mapping list \<times> process \<times> kern) exec" where
  "munmap_loop pml4 start e [] st = Some ([], st)"
| "munmap_loop pml4 start e (m # ms) st =
     (if m_vaddr m \<ge> start \<and> m_vaddr m + m_len m \<le> e
      then do { st1 \<leftarrow> drop_mapping pml4 m st; munmap_loop pml4 start e ms st1 }
      else do { (kept, st1) \<leftarrow> munmap_loop pml4 start e ms st; Some (m # kept, st1) })"

definition munmap :: "u64 \<Rightarrow> u64 \<Rightarrow> u64 \<Rightarrow> bool pop" where
  "munmap pml4 addr len0 = (\<lambda>(p, k). do {
     let len = align_up64 (max len0 1) PAGE_SIZE;
     let start = addr AND NOT (PAGE_SIZE - 1);
     (kept, p1, k1) \<leftarrow> munmap_loop pml4 start (start + len) (p_mappings p) (p, k);
     Some (True, p1\<lparr>p_mappings := kept\<rparr>, k1) })"

partial_function (option) mprotect_loop :: "u64 \<Rightarrow> u64 \<Rightarrow> u64 \<Rightarrow> u64 \<Rightarrow> process \<times> kern \<Rightarrow> (bool \<times> process \<times> kern) option" where
  "mprotect_loop pml4 v e flags st =
     (if v < e then
        (case translate_local (fst st) v PAGE_SIZE of
           None \<Rightarrow> Some (False, st)
         | Some phys \<Rightarrow> do {
             (b, st1) \<leftarrow> map_in pml4 v phys PAGE_SIZE flags st;
             if b then mprotect_loop pml4 (v + PAGE_SIZE) e flags st1 else Some (False, st1) })
      else Some (True, st))"

definition mprotect :: "u64 \<Rightarrow> u64 \<Rightarrow> u64 \<Rightarrow> bool \<Rightarrow> bool \<Rightarrow> bool pop" where
  "mprotect pml4 addr len0 w x st =
     (let len = align_up64 (max len0 1) PAGE_SIZE;
          start = addr AND NOT (PAGE_SIZE - 1)
      in mprotect_loop pml4 start (start + len) (user_flags w x) st)"

text \<open>\<open>free_process\<close>: the frames go back, then the process is dropped with its descriptors.\<close>

definition drop_fds :: "fd_entry option list \<Rightarrow> kern \<Rightarrow> kern exec" where
  "drop_fds fds k = for_each fd_drop (List.map_filter id fds) k"

definition free_process :: "process \<Rightarrow> kern \<Rightarrow> kern exec" where
  "free_process p k = do {
     q \<leftarrow> for_each frame_free (p_frames p) (k_pmm k);
     drop_fds (p_fds p) (set_pmm q k) }"

end
