(* ===== verification/Process_Memory.thy ===== *)
theory Process_Memory
  imports Process
begin

text \<open>
  The memory of a process: an invariant of its page tables, frames and mappings, that every operation
  on its private memory keeps, and what such an operation leaves alone: the tables and the memory of
  every other process and of the kernel.
\<close>

section \<open>Tables depend on their own frames only\<close>

lemma tables_agree:
  assumes ok: "pt_ok m A r" and ag: "\<And>b. b div 4096 \<in> tbl_frames m r \<Longrightarrow> m' b = m b"
      and A': "A' \<inter> tbl_frames m r = {}"
  shows "pt_ok m' A' r" "tbl_live m' r = tbl_live m r" "tbl_frames m' r = tbl_frames m r"
    and "\<And>w. unat w < 2 ^ 32 \<Longrightarrow> hw_walk m' r w = hw_walk m r w"
proof -
  have same: "m' (ent (tbl_loc m r t) n) = m (ent (tbl_loc m r t) n)" if "tbl_live m r t" "n < 512" for t n
    by (rule ag, rule live_frame [OF live_simps(1) [OF ok] that])
  have e4: "E4 m' r = E4 m r" using same [of TRoot 0] by (simp add: E4_def)
  have e3: "E3 m' r i = E3 m r i" if "i < 4" for i using same [of TPdpt i] that by (simp add: E3_def e4)
  have e2: "E2 m' r i j = E2 m r i j" if "i < 4" "j < 512" for i j
    using same [of "TPd i" j] that by (simp add: E2_def e3)
  have e1: "E1 m' r i j k = E1 m r i j k" if "tbl_live m r (TPt i j)" "k < 512" for i j k
    using same [of "TPt i j" k] that by (simp add: E1_def e2)
  have wk: "walk_at m' r i j k = walk_at m r i j k" if "i < 4" "j < 512" "k < 512" for i j k
    using e1 [of i j k] e2 that by (simp add: walk_at_def)
  have lv: "tbl_live m' r t = tbl_live m r t" for t by (cases t) (auto simp: e2)
  then show lv': "tbl_live m' r = tbl_live m r" by blast
  have lc: "tbl_loc m' r t = tbl_loc m r t" if "tbl_live m r t" for t
    using that by (cases t) (auto simp: e2 e3 e4)
  show fr: "tbl_frames m' r = tbl_frames m r" by (rule tbl_frames_cong [OF lv' lc])
  have "inj_on (tbl_loc m' r) {t. tbl_live m' r t}"
    using ok lc unfolding pt_ok_def lv' by (metis (mono_tags, lifting) inj_on_cong mem_Collect_eq)
  moreover have "tbl_loc m' r t div 4096 \<notin> A'" if "tbl_live m' r t" for t
    using A' that lc [of t] unfolding lv' tbl_frames_def by auto
  ultimately show ok': "pt_ok m' A' r" using ok wk unfolding pt_ok_def by (auto simp: e4 e3 e2)
  show "hw_walk m' r w = hw_walk m r w" if "unat w < 2 ^ 32" for w
    using hw_walk_W(1) [OF ok' that] hw_walk_W(1,3) [OF ok that] wk pidx_lt by simp
qed

section \<open>The invariant\<close>

definition own :: "process \<Rightarrow> nat set" where
  "own p = (\<lambda>a. a div 4096) ` set (p_frames p)"

definition in_map :: "mapping \<Rightarrow> u64 \<Rightarrow> bool" where
  "in_map m w \<longleftrightarrow> unat (m_vaddr m) \<le> unat w \<and> unat w < unat (m_vaddr m) + unat (m_len m)"

definition covers :: "mapping \<Rightarrow> u64 \<Rightarrow> u64 \<Rightarrow> bool" where
  "covers m w a \<longleftrightarrow> in_map m w \<and> a = m_phys m + of_nat ((unat w - unat (m_vaddr m)) div 4096 * 4096)"

definition mframes :: "mapping \<Rightarrow> nat set" where
  "mframes m = {unat (m_phys m) div 4096 ..< unat (m_phys m) div 4096 + unat (m_len m) div 4096}"

definition map_ok :: "mapping \<Rightarrow> bool" where
  "map_ok m \<longleftrightarrow> m_shm_id m = None \<and> m_vaddr m mod PAGE_SIZE = 0 \<and> m_phys m mod PAGE_SIZE = 0 \<and> m_len m mod PAGE_SIZE = 0
     \<and> m_len m \<noteq> 0 \<and> unat (m_vaddr m) + unat (m_len m) \<le> 2 ^ 32"

definition stack_map :: "process \<Rightarrow> mapping" where
  "stack_map p = \<lparr>m_vaddr = USER_STACK_LOW_LIMIT, m_phys = p_stack_phys_base p,
     m_len = USER_STACK_MAX_PAGES * PAGE_SIZE, m_shm_id = None\<rparr>"

text \<open>Frames of the process that are neither tables nor in a mapping.\<close>

definition loose :: "u64 \<Rightarrow> process \<Rightarrow> kern \<Rightarrow> nat set" where
  "loose pml4 p k = own p - tbl_frames (k_pt k) (unat pml4) - (\<Union>m \<in> set (p_mappings p). mframes m)"

text \<open>A page that ring 3 reaches is in a mapping, at its frame, or in a loose frame.\<close>

definition pages_ok :: "u64 \<Rightarrow> process \<Rightarrow> kern \<Rightarrow> bool" where
  "pages_ok pml4 p k \<longleftrightarrow> (\<forall>w a fl. unat w < 2 ^ 32 \<longrightarrow> hw_walk (k_pt k) (unat pml4) w = Some (a, fl) \<longrightarrow> pte_user fl \<longrightarrow>
     small_at (unat pml4) (mmu_of k) w \<and> ((\<exists>m \<in> set (p_mappings p). covers m w a) \<or> unat a div 4096 \<in> loose pml4 p k))"

lemma pages_okI:
  assumes "\<And>w a fl. unat w < 2 ^ 32 \<Longrightarrow> hw_walk (k_pt k) (unat pml4) w = Some (a, fl) \<Longrightarrow> pte_user fl \<Longrightarrow>
     small_at (unat pml4) (mmu_of k) w \<and> ((\<exists>m \<in> set (p_mappings p). covers m w a) \<or> unat a div 4096 \<in> loose pml4 p k)"
  shows "pages_ok pml4 p k"
  using assms unfolding pages_ok_def by blast

lemma pages_okD:
  assumes "pages_ok pml4 p k" "hw_walk (k_pt k) (unat pml4) w = Some (a, fl)" "pte_user fl" "unat w < 2 ^ 32"
  shows "small_at (unat pml4) (mmu_of k) w" "(\<exists>m \<in> set (p_mappings p). covers m w a) \<or> unat a div 4096 \<in> loose pml4 p k"
  using assms unfolding pages_ok_def by blast+

definition maps_ok :: "u64 \<Rightarrow> process \<Rightarrow> kern \<Rightarrow> bool" where
  "maps_ok pml4 p k \<longleftrightarrow>
     (\<forall>m \<in> set (p_mappings p). map_ok m \<and> mframes m \<subseteq> own p - tbl_frames (k_pt k) (unat pml4)
        \<and> (m \<noteq> stack_map p \<longrightarrow> (\<forall>w. in_map m w \<longrightarrow> small_at (unat pml4) (mmu_of k) w)))
     \<and> sorted_wrt (\<lambda>m m'. mframes m \<inter> mframes m' = {}) (p_mappings p)"

definition frames_ok :: "u64 \<Rightarrow> process \<Rightarrow> kern \<Rightarrow> bool" where
  "frames_ok pml4 p k \<longleftrightarrow> pt_state (unat pml4) (mmu_of k) \<and> (\<forall>a \<in> set (p_frames p). 4096 dvd a)
     \<and> own p \<subseteq> pmm_managed (k_pmm k) - avail (k_pmm k) \<and> tbl_frames (k_pt k) (unat pml4) \<subseteq> own p"

definition vm_ok :: "u64 \<Rightarrow> process \<Rightarrow> kern \<Rightarrow> bool" where
  "vm_ok pml4 p k \<longleftrightarrow> frames_ok pml4 p k \<and> maps_ok pml4 p k \<and> pages_ok pml4 p k"

definition stack_ok :: "process \<Rightarrow> bool" where
  "stack_ok p \<longleftrightarrow> stack_map p \<in> set (p_mappings p) \<and> p_stack_low p mod PAGE_SIZE = 0
     \<and> USER_STACK_LOW_LIMIT \<le> p_stack_low p \<and> p_stack_low p \<le> USER_STACK_TOP"

text \<open>What an operation of the process leaves alone: frames go between the process and the allocator,
  and memory outside them keeps its content; so do the sockets, the objects and the volume.\<close>

definition evolves :: "process \<Rightarrow> kern \<Rightarrow> process \<Rightarrow> kern \<Rightarrow> bool" where
  "evolves p k p' k' \<longleftrightarrow> avail (k_pmm k') \<union> own p' = avail (k_pmm k) \<union> own p
     \<and> pmm_managed (k_pmm k') = pmm_managed (k_pmm k)
     \<and> (\<forall>b. b div 4096 \<notin> own p \<union> avail (k_pmm k) \<longrightarrow> k_pt k' b = k_pt k b \<and> k_mem k' b = k_mem k b)
     \<and> endpoints (k_sock k') = endpoints (k_sock k) \<and> listeners (k_sock k') = listeners (k_sock k)
     \<and> sh_table (k_shm k') = sh_table (k_shm k) \<and> k_vol k' = k_vol k \<and> k_now k' = k_now k"

lemma evolves_refl [simp]: "evolves p k p k"
  by (simp add: evolves_def)

lemma evolves_trans: "evolves p k p1 k1 \<Longrightarrow> evolves p1 k1 p2 k2 \<Longrightarrow> evolves p k p2 k2"
  unfolding evolves_def by (auto simp: set_eq_iff)

lemma own_frames: "own (p\<lparr>p_frames := fs\<rparr>) = (\<lambda>a. a div 4096) ` set fs"
  by (simp add: own_def)

lemma small_at_pt: "pt_mem s = pt_mem s' \<Longrightarrow> small_at r s = small_at r s'"
  unfolding small_at_def by presburger

lemma managed_lt: "pmm_inv p \<Longrightarrow> f \<in> pmm_managed p \<Longrightarrow> f < 65536"
  by (simp add: pmm_inv_def pmm_managed_def pmm_consts)

lemma covers_frame:
  assumes "map_ok m" "unat (m_phys m) + unat (m_len m) \<le> 2 ^ 52" "covers m w a"
  shows "unat a div 4096 \<in> mframes m"
    "unat a = unat (m_phys m) + (unat w - unat (m_vaddr m)) div 4096 * 4096"
proof -
  let ?d = "(unat w - unat (m_vaddr m)) div 4096"
  obtain l where l: "unat (m_len m) = 4096 * l" using assms(1) by (auto simp: map_ok_def page_mod)
  obtain f where f: "unat (m_phys m) = 4096 * f" using assms(1) by (auto simp: map_ok_def page_mod)
  have d: "?d < l" using assms(3) l by (auto simp: covers_def in_map_def)
  have "unat (m_phys m) + ?d * 4096 < 2 ^ 52" using d assms(2) l by simp
  then show e: "unat a = unat (m_phys m) + ?d * 4096"
    using assms(3) by (simp add: covers_def unat_word_ariths unat_of_nat)
  show "unat a div 4096 \<in> mframes m" using d by (simp add: e mframes_def f l)
qed


lemma vm_frames:
  assumes "vm_ok pml4 p k"
  shows "pmm_inv (k_pmm k)" "pt_ok (k_pt k) (avail (k_pmm k)) (unat pml4)" "own p \<subseteq> pmm_managed (k_pmm k)"
    "own p \<inter> avail (k_pmm k) = {}" "tbl_frames (k_pt k) (unat pml4) \<subseteq> own p" "f \<in> own p \<Longrightarrow> f < 65536"
    "pt_state (unat pml4) (mmu_of k)"
  using assms managed_lt by (auto simp: vm_ok_def frames_ok_def pt_state_def mmu_of_def)

lemma mframes_bound:
  assumes "map_ok m" "mframes m \<subseteq> {..<65536}"
  shows "unat (m_phys m) + unat (m_len m) \<le> 2 ^ 28"
proof -
  obtain l where l: "unat (m_len m) = 4096 * l" using assms(1) by (auto simp: map_ok_def page_mod)
  obtain f where f: "unat (m_phys m) = 4096 * f" using assms(1) by (auto simp: map_ok_def page_mod)
  have "l \<noteq> 0" using l assms(1) unfolding map_ok_def by (metis mult_0_right unat_eq_zero)
  then have "f + l - 1 \<in> mframes m" by (auto simp: mframes_def l f)
  then have "f + l - 1 < 65536" using assms(2) by auto
  then show ?thesis by (simp add: l f)
qed

lemma vm_map:
  assumes "vm_ok pml4 p k" "m \<in> set (p_mappings p)"
  shows "map_ok m" "mframes m \<subseteq> own p" "unat (m_phys m) + unat (m_len m) \<le> 2 ^ 28"
    and "covers m w a \<Longrightarrow> unat a div 4096 \<in> mframes m"
proof -
  show m: "map_ok m" "mframes m \<subseteq> own p" using assms by (auto simp: vm_ok_def maps_ok_def)
  then show b: "unat (m_phys m) + unat (m_len m) \<le> 2 ^ 28"
    using mframes_bound vm_frames(6) [OF assms(1)] by blast
  show "covers m w a \<Longrightarrow> unat a div 4096 \<in> mframes m" using covers_frame(1) [OF m(1)] b by simp
qed

text \<open>Every frame ring 3 reaches belongs to the process and is no table.\<close>

lemma vm_reach:
  assumes "vm_ok pml4 p k" "unat w < 2 ^ 32" "hw_walk (k_pt k) (unat pml4) w = Some (a, fl)" "pte_user fl"
  shows "unat a div 4096 \<in> own p - tbl_frames (k_pt k) (unat pml4)"
proof -
  consider m where "m \<in> set (p_mappings p)" "covers m w a" | "unat a div 4096 \<in> loose pml4 p k"
    using assms unfolding vm_ok_def pages_ok_def by blast
  then show ?thesis
  proof cases
    case 1
    then have "unat a div 4096 \<in> mframes m" using vm_map(4) [OF assms(1)] by blast
    then show ?thesis using 1(1) assms(1) unfolding vm_ok_def maps_ok_def by blast
  qed (simp add: loose_def)
qed

section \<open>Taking pages\<close>

lemma stack_map_frames [simp]: "stack_map (p\<lparr>p_frames := fs\<rparr>) = stack_map p"
  by (simp add: stack_map_def)

lemma vm_grow:
  assumes ok: "vm_ok pml4 p k" and pt: "k_pt k1 = k_pt k" and inv: "pmm_inv (k_pmm k1)"
      and mg: "pmm_managed (k_pmm k1) = pmm_managed (k_pmm k)" and av: "avail (k_pmm k1) = avail (k_pmm k) - N"
      and N: "N \<subseteq> avail (k_pmm k)" and ow: "(\<lambda>a. a div 4096) ` set fs = own p \<union> N" and al: "\<forall>a \<in> set fs. 4096 dvd a"
  shows "vm_ok pml4 (p\<lparr>p_frames := fs\<rparr>) k1"
proof -
  let ?p = "p\<lparr>p_frames := fs\<rparr>"
  have own: "own ?p = own p \<union> N" by (simp add: own_frames ow)
  have T: "tbl_frames (k_pt k) (unat pml4) \<subseteq> own p" by (rule vm_frames [OF ok])
  have pk: "pt_ok (k_pt k1) (avail (k_pmm k1)) (unat pml4)"
    using tables_agree(1) [OF vm_frames(2) [OF ok], of "k_pt k1" "avail (k_pmm k1)"] T vm_frames(4) [OF ok]
    by (auto simp: pt av)
  have sm: "small_at (unat pml4) (mmu_of k1) = small_at (unat pml4) (mmu_of k)"
    by (rule small_at_pt) (simp add: mmu_of_def pt)
  have "avail (k_pmm k) \<subseteq> pmm_managed (k_pmm k)" by (auto simp: avail_def pmm_managed_def)
  then have "frames_ok pml4 ?p k1"
    using vm_frames(3-5) [OF ok] N al inv pk by (auto simp: frames_ok_def own mg av pt mmu_of_def pt_state_def)
  moreover have "maps_ok pml4 ?p k1"
    using ok unfolding vm_ok_def maps_ok_def by (auto simp: own sm pt)
  moreover have "loose pml4 p k \<subseteq> loose pml4 ?p k1" by (auto simp: loose_def own pt)
  then have "pages_ok pml4 ?p k1"
    using ok unfolding vm_ok_def by (intro pages_okI) (auto simp: sm pt dest: pages_okD)
  ultimately show ?thesis by (simp add: vm_ok_def)
qed

lemma run_frames: "(\<lambda>a. a div 4096) ` set (map (\<lambda>i. f * FRAME_SIZE + i * FRAME_SIZE) [0..<n]) = {f..<f + n}"
proof -
  have "(f * FRAME_SIZE + i * FRAME_SIZE) div 4096 = f + i" for i by (simp add: FRAME_SIZE_def)
  then have "(\<lambda>a. a div 4096) ` set (map (\<lambda>i. f * FRAME_SIZE + i * FRAME_SIZE) [0..<n]) = (\<lambda>i. f + i) ` {0..<n}"
    by (simp only: set_map set_upt image_image)
  then show ?thesis by (simp add: add.commute)
qed

lemma alloc_pages_keep:
  assumes ok: "vm_ok pml4 p k"
  shows "alloc_pages n (p, k) = Some (None, p, k)
     \<or> (\<exists>f fs k1. alloc_pages n (p, k) = Some (Some (f * 4096), p\<lparr>p_frames := fs\<rparr>, k1) \<and> vm_ok pml4 (p\<lparr>p_frames := fs\<rparr>) k1
          \<and> evolves p k (p\<lparr>p_frames := fs\<rparr>) k1 \<and> 0 < n \<and> {f..<f + n} \<subseteq> avail (k_pmm k)
          \<and> own (p\<lparr>p_frames := fs\<rparr>) = own p \<union> {f..<f + n} \<and> k_pt k1 = k_pt k)"
proof -
  consider "alloc_contiguous n (k_pmm k) = Some (None, k_pmm k)"
    | f q where "0 < n" "alloc_contiguous n (k_pmm k) = Some (Some (f * FRAME_SIZE), q)" "{f..<f + n} \<subseteq> avail (k_pmm k)"
        "pmm_inv q" "pmm_managed q = pmm_managed (k_pmm k)" "avail q = avail (k_pmm k) - {f..<f + n}"
  proof (cases "n = 0")
    case True
    then show ?thesis using that(1) by (simp add: alloc_contiguous_def)
  next
    case False
    then show ?thesis using frames.take_cases [OF vm_frames(1) [OF ok], of n] that by blast
  qed
  then show ?thesis
  proof cases
    case 1
    then show ?thesis by (simp add: alloc_pages_def kern_simps)
  next
    case 2
    define fs where "fs = p_frames p @ map (\<lambda>i. f * FRAME_SIZE + i * FRAME_SIZE) [0..<n]"
    have run: "alloc_pages n (p, k) = Some (Some (f * 4096), p\<lparr>p_frames := fs\<rparr>, set_pmm q k)"
      using 2(2) by (simp add: alloc_pages_def fs_def FRAME_SIZE_def)
    have ow: "(\<lambda>a. a div 4096) ` set fs = own p \<union> {f..<f + n}"
      unfolding fs_def set_append image_Un run_frames by (simp add: own_def)
    have "\<forall>a \<in> set fs. 4096 dvd a" using ok by (auto simp: fs_def FRAME_SIZE_def vm_ok_def frames_ok_def)
    from vm_grow [OF ok _ _ _ _ 2(3) ow this, of "set_pmm q k"] have "vm_ok pml4 (p\<lparr>p_frames := fs\<rparr>) (set_pmm q k)"
      using 2(4-6) by (simp add: kern_simps)
    moreover have "evolves p k (p\<lparr>p_frames := fs\<rparr>) (set_pmm q k)"
      using 2(3,5,6) ow by (auto simp: evolves_def kern_simps own_frames)
    ultimately show ?thesis using run 2(1,3) ow by (intro disjI2 exI [of _ f] exI [of _ fs] exI [of _ "set_pmm q k"])
        (simp add: kern_simps own_frames)
  qed
qed

text \<open>Filling pages of the process.\<close>

lemma fill_keep:
  assumes "vm_ok pml4 p k" "\<And>m b. b div 4096 \<notin> own p \<Longrightarrow> g m b = m b"
  shows "vm_ok pml4 p (upd_mem g k)" "evolves p k p (upd_mem g k)" "k_pt (upd_mem g k) = k_pt k" "k_pmm (upd_mem g k) = k_pmm k"
proof -
  have "small_at r (mmu_of (upd_mem g k)) = small_at r (mmu_of k)" for r
    by (rule small_at_pt) (simp add: kern_simps)
  then show "vm_ok pml4 p (upd_mem g k)"
    using assms(1) by (simp add: vm_ok_def frames_ok_def maps_ok_def pages_ok_def loose_def kern_simps)
  show "evolves p k p (upd_mem g k)" using assms(2) by (simp add: evolves_def kern_simps)
qed (simp_all add: kern_simps)

lemma page_range: "x * 4096 \<le> b \<Longrightarrow> b < x * 4096 + 4096 * n \<Longrightarrow> b div 4096 \<in> {x..<x + n}" for x b n :: nat
  by auto

section \<open>Mapping pages\<close>

lemma set_mmu_id [simp]: "set_mmu (mmu_of k) k = k"
  by (simp add: kern_simps)

lemma mmu_of_set [simp]: "mmu_of (set_mmu s k) = s"
  by (simp add: kern_simps)

lemma set_mmu_sel [simp]:
  "k_pt (set_mmu s k) = pt_mem s" "k_pmm (set_mmu s k) = mm_pmm s" "k_mem (set_mmu s k) = k_mem k"
  "endpoints (k_sock (set_mmu s k)) = endpoints (k_sock k)" "listeners (k_sock (set_mmu s k)) = listeners (k_sock k)"
  "sh_table (k_shm (set_mmu s k)) = sh_table (k_shm k)" "k_vol (set_mmu s k) = k_vol k" "k_now (set_mmu s k) = k_now k"
  by (simp_all add: kern_simps)

lemma mmu_of_sel [simp]: "pt_mem (mmu_of k) = k_pt k" "mm_pmm (mmu_of k) = k_pmm k"
  by (simp_all add: mmu_of_def)

text \<open>The tables of a process after they took the frames \<open>ts\<close>.\<close>

lemma vm_tables:
  assumes ok: "vm_ok pml4 p k" and st: "pt_state (unat pml4) s" and tk: "takes (unat pml4) (mmu_of k) ts s"
      and sm: "\<And>w. unat w < 2 ^ 32 \<Longrightarrow> small_at (unat pml4) (mmu_of k) w \<Longrightarrow> small_at (unat pml4) s w"
  defines "p' \<equiv> p\<lparr>p_frames := p_frames p @ map (\<lambda>f. f * FRAME_SIZE) ts\<rparr>"
  shows "frames_ok pml4 p' (set_mmu s k)" "maps_ok pml4 p' (set_mmu s k)" "evolves p k p' (set_mmu s k)"
    "loose pml4 p k \<subseteq> loose pml4 p' (set_mmu s k)" "own p' = own p \<union> set ts"
proof -
  have T: "set ts \<subseteq> avail (k_pmm k)" "avail (mm_pmm s) = avail (k_pmm k) - set ts"
      "tbl_frames (pt_mem s) (unat pml4) \<subseteq> tbl_frames (k_pt k) (unat pml4) \<union> set ts"
      "\<And>b. b div 4096 \<notin> tbl_frames (k_pt k) (unat pml4) \<union> set ts \<Longrightarrow> pt_mem s b = k_pt k b"
      "pmm_managed (mm_pmm s) = pmm_managed (k_pmm k)"
    using tk by (auto simp: takes_def touches_def)
  note F = vm_frames [OF ok]
  show own: "own p' = own p \<union> set ts"
    by (auto simp: p'_def own_def FRAME_SIZE_def image_Un image_image)
  have av: "avail (k_pmm k) \<subseteq> pmm_managed (k_pmm k)" by (auto simp: avail_def pmm_managed_def)
  have "\<forall>a \<in> set (p_frames p'). 4096 dvd a" using ok by (auto simp: p'_def FRAME_SIZE_def vm_ok_def frames_ok_def)
  then show "frames_ok pml4 p' (set_mmu s k)" using st T av F(3-5) own unfolding frames_ok_def by auto
  have sm': "p_mappings p' = p_mappings p" "stack_map p' = stack_map p" by (simp_all add: p'_def)
  have w: "unat w < 2 ^ 32" if "map_ok m" "in_map m w" for m w using that by (auto simp: map_ok_def in_map_def)
  show "maps_ok pml4 p' (set_mmu s k)"
    using ok T(1,3) F(4) w sm unfolding vm_ok_def maps_ok_def own sm' mmu_of_set set_mmu_sel by blast
  have "pt_mem s b = k_pt k b" if "b div 4096 \<notin> own p \<union> avail (k_pmm k)" for b using T(4) [of b] T(1) F(5) that by blast
  then show "evolves p k p' (set_mmu s k)" using T(1,2,5) own by (auto simp: evolves_def)
  show "loose pml4 p k \<subseteq> loose pml4 p' (set_mmu s k)"
    using T(1,3) F(4) by (auto simp: loose_def own sm')
qed

lemma map_in_keep:
  assumes ok: "vm_ok pml4 p k" and fl: "pte_user flags" "\<not> bit flags 7" and sh: "m_shm_id m = None"
      and tgt: "map_ok m \<Longrightarrow> unat (m_phys m) + unat (m_len m) \<le> 2 ^ 52"
        "map_ok m \<Longrightarrow> mframes m \<subseteq> loose pml4 p k \<or> (\<forall>w a. covers m w a \<longrightarrow> (\<exists>m' \<in> set (p_mappings p). covers m' w a))"
  shows "\<exists>b fs k1. map_in pml4 (m_vaddr m) (m_phys m) (m_len m) flags (p, k) = Some (b, p\<lparr>p_frames := fs\<rparr>, k1)
     \<and> vm_ok pml4 (p\<lparr>p_frames := fs\<rparr>) k1 \<and> evolves p k (p\<lparr>p_frames := fs\<rparr>) k1
     \<and> (b \<longrightarrow> map_ok m \<and> (\<forall>w. in_map m w \<longrightarrow> small_at (unat pml4) (mmu_of k1) w))
     \<and> (\<forall>w a f. unat w < 2 ^ 32 \<longrightarrow> hw_walk (k_pt k1) (unat pml4) w = Some (a, f) \<longrightarrow>
           covers m w a \<or> hw_walk (k_pt k) (unat pml4) w = Some (a, f))
     \<and> loose pml4 p k \<subseteq> loose pml4 (p\<lparr>p_frames := fs\<rparr>) k1"
proof (cases "map_ok m")
  case False
  have "map_range_in pml4 (m_vaddr m) (m_phys m) (m_len m) flags (p_frames p, mmu_of k) = Some (False, p_frames p, mmu_of k)"
    using False sh by (auto simp: map_range_in_def map_ok_def checked_add_def word_less_nat_alt identity_end unat_word_ariths)
  then show ?thesis using ok by (intro exI [of _ False] exI [of _ "p_frames p"] exI [of _ k]) (simp add: map_in_def)
next
  case True
  note M = True [unfolded map_ok_def] and F = vm_frames [OF ok]
  obtain n ts s where run: "map_range_in pml4 (m_vaddr m) (m_phys m) (m_len m) flags (p_frames p, mmu_of k) =
         Some (4096 * n = unat (m_len m), p_frames p @ map (\<lambda>f. f * FRAME_SIZE) ts, s)"
      and st: "pt_state (unat pml4) s" and tk: "takes (unat pml4) (mmu_of k) ts s" and n: "4096 * n \<le> unat (m_len m)"
      and wk: "\<forall>w. unat w < 2 ^ 32 \<longrightarrow> hw_walk (pt_mem s) (unat pml4) w =
            mapped (m_vaddr m) (m_phys m) n flags (hw_walk (k_pt k) (unat pml4)) w"
      and sm: "\<forall>w. unat w < 2 ^ 32 \<longrightarrow> small_at (unat pml4) (mmu_of k) w
            \<or> unat (m_vaddr m) \<le> unat w \<and> unat w < unat (m_vaddr m) + 4096 * n \<longrightarrow> small_at (unat pml4) s w"
    using map_range_in_spec [OF F(7), of "m_vaddr m" "m_phys m" "m_len m" flags "p_frames p"] M tgt(1) [OF True] fl(2)
    by (elim meta_impE) (simp, simp, simp, simp, simp, simp, simp, metis mmu_of_sel(1))
  define p' k' where "p' = p\<lparr>p_frames := p_frames p @ map (\<lambda>f. f * FRAME_SIZE) ts\<rparr>" and "k' = set_mmu s k"
  have V: "frames_ok pml4 p' k'" "maps_ok pml4 p' k'" "evolves p k p' k'" "loose pml4 p k \<subseteq> loose pml4 p' k'"
    using vm_tables [OF ok st tk] sm unfolding p'_def k'_def by blast+
  have wk': "covers m w a \<and> small_at (unat pml4) (mmu_of k') w \<or> hw_walk (k_pt k) (unat pml4) w = Some (a, f)"
    if "unat w < 2 ^ 32" "hw_walk (k_pt k') (unat pml4) w = Some (a, f)" for w a f
    using that wk sm n by (auto simp: k'_def mapped_def covers_def in_map_def split: if_splits)
  have "pages_ok pml4 p' k'"
  proof (rule pages_okI)
    fix w a f assume A: "unat w < 2 ^ 32" "hw_walk (k_pt k') (unat pml4) w = Some (a, f)" "pte_user f"
    from wk' [OF A(1,2)] show "small_at (unat pml4) (mmu_of k') w \<and>
        ((\<exists>m \<in> set (p_mappings p'). covers m w a) \<or> unat a div 4096 \<in> loose pml4 p' k')"
    proof
      assume c: "covers m w a \<and> small_at (unat pml4) (mmu_of k') w"
      then have "unat a div 4096 \<in> mframes m" using covers_frame(1) [OF True tgt(1) [OF True]] by blast
      then show ?thesis using c tgt(2) [OF True] V(4) by (auto simp: p'_def)
    next
      assume "hw_walk (k_pt k) (unat pml4) w = Some (a, f)"
      then show ?thesis using pages_okD [of pml4 p k w a f] ok A(1,3) sm V(4) by (auto simp: vm_ok_def p'_def k'_def)
    qed
  qed
  then have "vm_ok pml4 p' k'" using V by (simp add: vm_ok_def)
  moreover have "map_in pml4 (m_vaddr m) (m_phys m) (m_len m) flags (p, k) = Some (4096 * n = unat (m_len m), p', k')"
    by (simp add: map_in_def run p'_def k'_def)
  moreover have "small_at (unat pml4) (mmu_of k') w" if "4096 * n = unat (m_len m)" "in_map m w" for w
    using sm that M by (auto simp: k'_def in_map_def)
  ultimately show ?thesis using True V wk' unfolding p'_def by blast
qed

lemma add_mapping_keep:
  assumes ok: "vm_ok pml4 p k" and m: "map_ok m" "mframes m \<subseteq> loose pml4 p k"
      and sm: "\<And>w. in_map m w \<Longrightarrow> small_at (unat pml4) (mmu_of k) w"
      and only: "\<And>w a f. unat w < 2 ^ 32 \<Longrightarrow> hw_walk (k_pt k) (unat pml4) w = Some (a, f) \<Longrightarrow> pte_user f \<Longrightarrow>
          unat a div 4096 \<in> mframes m \<Longrightarrow> covers m w a"
  shows "vm_ok pml4 (add_mapping m p) k"
proof -
  let ?p = "add_mapping m p"
  have own: "own ?p = own p" by (simp add: own_def add_mapping_def)
  have ms: "set (p_mappings ?p) = insert m (set (p_mappings p))" "stack_map ?p = stack_map p"
    by (auto simp: add_mapping_def stack_map_def)
  have "frames_ok pml4 ?p k" using ok unfolding vm_ok_def frames_ok_def own by (simp add: add_mapping_def)
  moreover have "maps_ok pml4 ?p k"
    using ok m sm unfolding vm_ok_def maps_ok_def ms own
    by (auto simp: add_mapping_def sorted_wrt_append loose_def)
  moreover have "loose pml4 ?p k = loose pml4 p k - mframes m" by (auto simp: loose_def own ms)
  then have "pages_ok pml4 ?p k"
    using ok only unfolding vm_ok_def by (intro pages_okI) (auto simp: ms dest: pages_okD)
  ultimately show ?thesis by (simp add: vm_ok_def)
qed

lemma vm_fields:
  "vm_ok pml4 (p\<lparr>p_heap_end := h\<rparr>) k = vm_ok pml4 p k" "vm_ok pml4 (p\<lparr>p_mmap_next := h\<rparr>) k = vm_ok pml4 p k"
  "vm_ok pml4 (p\<lparr>p_stack_low := h\<rparr>) k = vm_ok pml4 p k"
  "own (p\<lparr>p_heap_end := h\<rparr>) = own p" "own (p\<lparr>p_mmap_next := h\<rparr>) = own p" "own (p\<lparr>p_stack_low := h\<rparr>) = own p"
  "own (add_mapping m p) = own p"
  by (simp_all add: vm_ok_def frames_ok_def maps_ok_def pages_ok_def loose_def own_def stack_map_def add_mapping_def)

lemma evolves_fields:
  "evolves p k (p'\<lparr>p_heap_end := h\<rparr>) k' = evolves p k p' k'" "evolves p k (p'\<lparr>p_mmap_next := h\<rparr>) k' = evolves p k p' k'"
  "evolves p k (p'\<lparr>p_stack_low := h\<rparr>) k' = evolves p k p' k'" "evolves p k (add_mapping m p') k' = evolves p k p' k'"
  by (simp_all add: evolves_def vm_fields)

text \<open>The common part of \<open>brk\<close> and \<open>mmap\<close>: fresh pages are taken, filled, mapped and recorded.\<close>

lemma fresh_pages_keep:
  fixes v :: u64
  assumes ok: "vm_ok pml4 p k" and fl: "pte_user flags" "\<not> bit flags 7"
      and run: "alloc_pages n (p, k) = Some (Some phys, p1, k1)" and len: "unat len = 4096 * n"
      and g: "\<And>m b. \<not> (phys \<le> b \<and> b < phys + 4096 * n) \<Longrightarrow> g m b = m b"
  defines "m \<equiv> \<lparr>m_vaddr = v, m_phys = of_nat phys, m_len = len, m_shm_id = None\<rparr>"
  shows "\<exists>b fs k2. map_in pml4 v (of_nat phys) len flags (p1, upd_mem g k1) = Some (b, p\<lparr>p_frames := fs\<rparr>, k2)
     \<and> vm_ok pml4 (p\<lparr>p_frames := fs\<rparr>) k2 \<and> evolves p k (p\<lparr>p_frames := fs\<rparr>) k2
     \<and> (b \<longrightarrow> vm_ok pml4 (add_mapping m (p\<lparr>p_frames := fs\<rparr>)) k2)"
proof -
  obtain f fs1 where A: "phys = f * 4096" "p1 = p\<lparr>p_frames := fs1\<rparr>" "vm_ok pml4 p1 k1" "evolves p k p1 k1" "0 < n"
      "{f..<f + n} \<subseteq> avail (k_pmm k)" "own p1 = own p \<union> {f..<f + n}" "k_pt k1 = k_pt k"
    using alloc_pages_keep [OF ok, of n] run by auto
  have N: "{f..<f + n} \<inter> own p = {}" using A(6) vm_frames(4) [OF ok] by blast
  define k1' where "k1' = upd_mem g k1"
  have "g m b = m b" if "b div 4096 \<notin> own p1" for m b
    using that page_range [of f b n] A(1,7) by (intro g) auto
  note K = fill_keep [where g = g, OF A(3) this, folded k1'_def]
  have "f + n - 1 \<in> own p1" using A(5,7) by auto
  then have f: "f + n \<le> 65536" using vm_frames(6) [OF A(3)] A(5) by fastforce
  have ph: "unat (m_phys m) = 4096 * f" "unat (m_len m) = 4096 * n" "m_shm_id m = None" "m_vaddr m = v"
    using f by (simp_all add: m_def A(1) unat_of_nat len del: of_nat_mult)
  have mf: "mframes m = {f..<f + n}" by (simp add: mframes_def ph)
  have "{f..<f + n} \<inter> tbl_frames (k_pt k1') (unat pml4) = {}"
    using N vm_frames(5) [OF ok] by (auto simp: K(3) A(8))
  moreover have "{f..<f + n} \<inter> mframes m' = {}" if "m' \<in> set (p_mappings p)" for m'
    using N vm_map(2) [OF ok that] by blast
  ultimately have L: "mframes m \<subseteq> loose pml4 p1 k1'" unfolding mf loose_def A(7) by (auto simp: A(2))
  have b52: "unat (m_phys m) + unat (m_len m) \<le> 2 ^ 52" using f by (simp add: ph)
  have ms: "m_phys m = of_nat phys" "m_len m = len" by (simp_all add: m_def)
  have pp: "p1\<lparr>p_frames := fs\<rparr> = p\<lparr>p_frames := fs\<rparr>" for fs by (simp add: A(2))
  from map_in_keep [OF K(1) fl ph(3) b52 disjI1 [OF L]]
  obtain b fs k2 where R: "map_in pml4 v (of_nat phys) len flags (p1, k1') = Some (b, p\<lparr>p_frames := fs\<rparr>, k2)"
      "vm_ok pml4 (p\<lparr>p_frames := fs\<rparr>) k2" "evolves p1 k1' (p\<lparr>p_frames := fs\<rparr>) k2"
      "b \<longrightarrow> map_ok m \<and> (\<forall>w. in_map m w \<longrightarrow> small_at (unat pml4) (mmu_of k2) w)"
      "\<forall>w a f. unat w < 2 ^ 32 \<longrightarrow> hw_walk (k_pt k2) (unat pml4) w = Some (a, f) \<longrightarrow>
           covers m w a \<or> hw_walk (k_pt k1') (unat pml4) w = Some (a, f)"
      "loose pml4 p1 k1' \<subseteq> loose pml4 (p\<lparr>p_frames := fs\<rparr>) k2"
    unfolding ph(4) ms pp by blast
  have "covers m w a" if "unat w < 2 ^ 32" "hw_walk (k_pt k2) (unat pml4) w = Some (a, u)" "pte_user u"
      "unat a div 4096 \<in> mframes m" for w a u
    using R(5) that vm_reach [OF ok that(1)] N by (fastforce simp: K(3) A(8) mf)
  then have "b \<longrightarrow> vm_ok pml4 (add_mapping m (p\<lparr>p_frames := fs\<rparr>)) k2"
    using add_mapping_keep [OF R(2), of m] R(4,6) L by blast
  moreover have "evolves p k (p\<lparr>p_frames := fs\<rparr>) k2"
    by (rule evolves_trans [OF A(4) evolves_trans [OF K(2) R(3)]])
  ultimately show ?thesis using R(1,2) unfolding k1'_def by blast
qed

section \<open>The operations\<close>

lemma page_down: "unat (x AND NOT (PAGE_SIZE - 1)) = unat x div 4096 * 4096"
  using unat_align [of x 12] by (simp add: PAGE_SIZE_def)

lemma page_down_mod [simp]: "(x AND NOT (PAGE_SIZE - 1)) mod PAGE_SIZE = 0"
  unfolding page_mod page_down by simp

lemma align_up64_mod [simp]: "align_up64 x PAGE_SIZE mod PAGE_SIZE = 0"
  unfolding align_up64_def by simp

lemma page_count: "x mod PAGE_SIZE = 0 \<Longrightarrow> unat x = 4096 * unat (x div PAGE_SIZE)"
  unfolding page_mod by (auto simp: unat_div PAGE_SIZE_def)

lemma mod_diff: "a mod PAGE_SIZE = 0 \<Longrightarrow> b mod PAGE_SIZE = 0 \<Longrightarrow> b \<le> a \<Longrightarrow> (a - b) mod PAGE_SIZE = 0"
  unfolding page_mod by (simp add: unat_sub word_le_nat_alt mod_eq_0_iff_dvd)

lemma USER_RW_bits: "pte_user USER_RW" "\<not> bit USER_RW 7"
  by (auto simp: USER_RW_def entry_bits PAGE_WRITABLE_def bit_numeral_rec)

lemma user_flags_bits: "pte_user (user_flags w x)" "\<not> bit (user_flags w x) 7"
  by (auto simp: user_flags_def entry_bits PAGE_WRITABLE_def bit_numeral_rec)

text \<open>The result of an operation: it returns, in a state where the invariant holds and the rest of the
  machine is as it was.\<close>

definition keeps :: "u64 \<Rightarrow> process \<times> kern \<Rightarrow> ('a \<times> process \<times> kern) exec \<Rightarrow> bool" where
  "keeps pml4 st r \<longleftrightarrow> (\<exists>x p' k'. r = Some (x, p', k') \<and> vm_ok pml4 p' k' \<and> stack_ok p' \<and> evolves (fst st) (snd st) p' k')"

lemma stack_ok_fields:
  "stack_ok (p\<lparr>p_frames := fs\<rparr>) = stack_ok p" "stack_ok (p\<lparr>p_heap_end := h\<rparr>) = stack_ok p"
  "stack_ok (p\<lparr>p_mmap_next := h\<rparr>) = stack_ok p" "stack_ok p \<Longrightarrow> stack_ok (add_mapping m p)"
  by (auto simp: stack_ok_def stack_map_def add_mapping_def)

lemma keepsI: "vm_ok pml4 p' k' \<Longrightarrow> stack_ok p' \<Longrightarrow> evolves p k p' k' \<Longrightarrow> keeps pml4 (p, k) (Some (x, p', k'))"
  by (simp add: keeps_def)

lemma upd_mem_comp: "upd_mem g (upd_mem f k) = upd_mem (\<lambda>m. g (f m)) k"
  by (simp add: kern_simps)

lemma mmap_with_content_keeps:
  assumes ok: "vm_ok pml4 p k" "stack_ok p"
  shows "keeps pml4 (p, k) (mmap_with_content pml4 at len0 w x content (p, k))"
proof (cases "mmap_addr at (align_up64 (max len0 1) PAGE_SIZE) p")
  case None
  then show ?thesis using ok by (simp add: mmap_with_content_def keepsI)
next
  case (Some addr)
  define len where "len = align_up64 (max len0 1) PAGE_SIZE"
  define n where "n = unat (len div PAGE_SIZE)"
  have n: "unat len = 4096 * n" unfolding n_def by (rule page_count) (simp add: len_def)
  define g where "g phys = (\<lambda>m. (case content of None \<Rightarrow> (\<lambda>m. m) | Some d \<Rightarrow> put_bytes phys (take (min (length d) (unat len)) d))
      (write_bytes phys 0 (unat len) m))" for phys
  have g: "g phys m b = m b" if "\<not> (phys \<le> b \<and> b < phys + 4096 * n)" for phys m b
    using that by (auto simp: g_def n write_bytes_def put_bytes_def split: option.split)
  have run: "mmap_with_content pml4 at len0 w x content (p, k) = do {
      (r, p1, k1) \<leftarrow> alloc_pages n (p, k);
      case r of
        None \<Rightarrow> Some (None, p1, k1)
      | Some phys \<Rightarrow> do {
          (b, p4, k4) \<leftarrow> map_in pml4 addr (of_nat phys) len (user_flags w x) (p1, upd_mem (g phys) k1);
          if \<not> b then Some (None, p4, k4)
          else Some (Some addr, record_mmap at \<lparr>m_vaddr = addr, m_phys = of_nat phys, m_len = len, m_shm_id = None\<rparr> p4, k4) } }"
    using Some unfolding mmap_with_content_def Let_def prod.case len_def [symmetric] n_def [symmetric] g_def
    by (cases content) (simp_all add: upd_mem_comp cong: option.case_cong)
  consider "alloc_pages n (p, k) = Some (None, p, k)" | phys p1 k1 where "alloc_pages n (p, k) = Some (Some phys, p1, k1)"
    using alloc_pages_keep [OF ok(1), of n] by blast
  then show ?thesis
  proof cases
    case 1
    then show ?thesis using ok by (simp add: run keepsI)
  next
    case 2
    from fresh_pages_keep [where g = "g phys" and v = addr, OF ok(1) user_flags_bits 2 n g]
    obtain b fs k2 where "map_in pml4 addr (of_nat phys) len (user_flags w x) (p1, upd_mem (g phys) k1) = Some (b, p\<lparr>p_frames := fs\<rparr>, k2)"
       "vm_ok pml4 (p\<lparr>p_frames := fs\<rparr>) k2" "evolves p k (p\<lparr>p_frames := fs\<rparr>) k2"
       "b \<longrightarrow> vm_ok pml4 (add_mapping \<lparr>m_vaddr = addr, m_phys = of_nat phys, m_len = len, m_shm_id = None\<rparr> (p\<lparr>p_frames := fs\<rparr>)) k2"
      by blast
    then show ?thesis using ok(2) 2
      by (auto simp: run keeps_def record_mmap_def Let_def vm_fields stack_ok_fields evolves_fields)
  qed
qed

lemma brk_keeps:
  assumes ok: "vm_ok pml4 p k" "stack_ok p"
  shows "keeps pml4 (p, k) (brk pml4 req (p, k))"
proof -
  define old_mapped where "old_mapped = align_up64 (max (p_heap_end p) (p_heap_start p) - p_heap_start p) PAGE_SIZE"
  define new_mapped where "new_mapped = align_up64 (req - p_heap_start p) PAGE_SIZE"
  define len where "len = new_mapped - old_mapped"
  define n where "n = unat (len div PAGE_SIZE)"
  define at where "at = p_heap_start p + old_mapped"
  consider (less) "req < p_heap_start p" | (shrink) "\<not> req < p_heap_start p" "\<not> new_mapped > old_mapped"
    | (grow) "\<not> req < p_heap_start p" "new_mapped > old_mapped" by blast
  then show ?thesis
  proof cases
    case less
    then show ?thesis using ok by (simp add: brk_def keepsI)
  next
    case shrink
    then have "brk pml4 req (p, k) = Some (req, p\<lparr>p_heap_end := req\<rparr>, k)"
      unfolding brk_def Let_def prod.case old_mapped_def [symmetric] new_mapped_def [symmetric] by simp
    then show ?thesis using ok by (simp add: keeps_def vm_fields stack_ok_fields evolves_fields)
  next
    case grow
    have n: "unat len = 4096 * n" unfolding n_def
      by (rule page_count) (use grow(2) in \<open>simp add: len_def mod_diff old_mapped_def new_mapped_def\<close>)
    have run: "brk pml4 req (p, k) = do {
            (r, p1, k1) \<leftarrow> alloc_pages n (p, k);
            case r of
              None \<Rightarrow> Some (p_heap_end p1, p1, k1)
            | Some phys \<Rightarrow> do {
                (b, p3, k3) \<leftarrow> map_in pml4 at (of_nat phys) len USER_RW (p1, upd_mem (write_bytes phys 0 (unat len)) k1);
                if \<not> b then Some (p_heap_end p3, p3, k3)
                else Some (req, add_mapping \<lparr>m_vaddr = at, m_phys = of_nat phys, m_len = len, m_shm_id = None\<rparr> p3
                         \<lparr>p_heap_end := req\<rparr>, k3) } }"
      using grow unfolding brk_def Let_def prod.case old_mapped_def [symmetric] new_mapped_def [symmetric]
        len_def [symmetric] n_def [symmetric] at_def [symmetric] by simp
    have g: "write_bytes phys 0 (unat len) m b = m b" if "\<not> (phys \<le> b \<and> b < phys + 4096 * n)" for phys m b
      using that by (auto simp: n write_bytes_def)
    consider "alloc_pages n (p, k) = Some (None, p, k)" | phys p1 k1 where "alloc_pages n (p, k) = Some (Some phys, p1, k1)"
      using alloc_pages_keep [OF ok(1), of n] by blast
    then show ?thesis
    proof cases
      case 1
      then show ?thesis using ok by (simp add: run keepsI)
    next
      case 2
      from fresh_pages_keep [where g = "write_bytes phys 0 (unat len)" and v = at, OF ok(1) USER_RW_bits 2 n g]
      obtain b fs k2 where "map_in pml4 at (of_nat phys) len USER_RW (p1, upd_mem (write_bytes phys 0 (unat len)) k1) = Some (b, p\<lparr>p_frames := fs\<rparr>, k2)"
         "vm_ok pml4 (p\<lparr>p_frames := fs\<rparr>) k2" "evolves p k (p\<lparr>p_frames := fs\<rparr>) k2"
         "b \<longrightarrow> vm_ok pml4 (add_mapping \<lparr>m_vaddr = at, m_phys = of_nat phys, m_len = len, m_shm_id = None\<rparr> (p\<lparr>p_frames := fs\<rparr>)) k2"
        by blast
      then show ?thesis using ok(2) 2
        by (auto simp: run keeps_def vm_fields stack_ok_fields evolves_fields)
    qed
  qed
qed

text \<open>A part of a mapping, mapped where the mapping says, covers nothing new.\<close>

lemma sub_map:
  fixes len :: u64
  assumes ok: "vm_ok pml4 p k" and m: "m \<in> set (p_mappings p)" and v: "v mod PAGE_SIZE = 0" "m_vaddr m \<le> v"
      and e: "unat v + unat len \<le> unat (m_vaddr m) + unat (m_len m)"
  defines "m' \<equiv> \<lparr>m_vaddr = v, m_phys = m_phys m + (v - m_vaddr m), m_len = len, m_shm_id = None\<rparr>"
  shows "unat (m_phys m') + unat (m_len m') \<le> 2 ^ 52" "\<forall>w a. covers m' w a \<longrightarrow> (\<exists>m \<in> set (p_mappings p). covers m w a)"
proof -
  note M = vm_map(1,3) [OF ok m]
  have ge: "unat (m_vaddr m) \<le> unat v" using v(2) by (simp add: word_le_nat_alt)
  have mv: "unat (m_vaddr m) mod 4096 = 0" using M(1) by (simp add: map_ok_def page_mod)
  have "4096 dvd unat v - unat (m_vaddr m)" using v(1) mv by (intro dvd_diff_nat) (auto simp: page_mod mod_eq_0_iff_dvd)
  then obtain c where c: "unat v - unat (m_vaddr m) = 4096 * c" by blast
  have sub: "unat (v - m_vaddr m) = 4096 * c" using v(2) by (simp add: unat_sub c)
  have ph: "unat (m_phys m') = unat (m_phys m) + 4096 * c"
    using M(2) sub c e ge by (simp add: m'_def unat_word_ariths)
  show b: "unat (m_phys m') + unat (m_len m') \<le> 2 ^ 52" unfolding ph using M(2) c e ge by (simp add: m'_def)
  have "covers m w a" if "covers m' w a" for w a
  proof -
    have w: "unat v \<le> unat w" "unat w < unat v + unat len" "a = m_phys m' + of_nat ((unat w - unat v) div 4096 * 4096)"
      using that by (auto simp: m'_def covers_def in_map_def)
    have "unat w - unat (m_vaddr m) = (unat w - unat v) + 4096 * c" using w(1) c ge by linarith
    then have d: "(unat w - unat (m_vaddr m)) div 4096 * 4096 = 4096 * c + (unat w - unat v) div 4096 * 4096" by simp
    have "m_phys m' = m_phys m + of_nat (4096 * c)" by (simp add: m'_def flip: sub)
    then have "a = m_phys m + of_nat ((unat w - unat (m_vaddr m)) div 4096 * 4096)" unfolding w(3) d of_nat_add by simp
    then show ?thesis using w(1,2) ge e by (simp add: covers_def in_map_def)
  qed
  then show "\<forall>w a. covers m' w a \<longrightarrow> (\<exists>m \<in> set (p_mappings p). covers m w a)" using m by blast
qed

lemma stack_consts: "unat USER_STACK_LOW_LIMIT = 0xFF00000" "unat USER_STACK_TOP = 0x10000000"
  "USER_STACK_MAX_PAGES * PAGE_SIZE = 0x100000" "unat (USER_STACK_MAX_PAGES * PAGE_SIZE) = 0x100000"
  by (simp_all add: process_consts)

lemma grow_args:
  assumes ok: "stack_ok p" and v: "v < p_stack_low p" "USER_STACK_LOW_LIMIT \<le> v"
  defines "low \<equiv> v AND NOT (PAGE_SIZE - 1)"
  shows "unat low mod 4096 = 0" "0xFF00000 \<le> unat low" "unat low < unat (p_stack_low p)" "unat low \<le> unat v"
    "unat v < unat low + 4096" "unat (p_stack_low p - low) = unat (p_stack_low p) - unat low"
proof -
  have lw: "unat low = unat v div 4096 * 4096" unfolding low_def by (rule page_down)
  show "unat low mod 4096 = 0" by (simp add: lw)
  have "0xFF00000 div 4096 * 4096 \<le> unat v div 4096 * (4096 :: nat)"
    using v(2) by (intro mult_le_mono1 div_le_mono) (simp add: word_le_nat_alt stack_consts)
  then show "0xFF00000 \<le> unat low" by (simp add: lw)
  show "unat low \<le> unat v" by (simp add: lw)
  then show lt: "unat low < unat (p_stack_low p)" using v(1) by (simp add: word_less_nat_alt)
  show "unat v < unat low + 4096"
    using div_mult_mod_eq [of "unat v" 4096] mod_less_divisor [of 4096 "unat v"] unfolding lw by linarith
  show "unat (p_stack_low p - low) = unat (p_stack_low p) - unat low" using lt by (simp add: unat_sub word_le_nat_alt)
qed

lemma try_grow_stack_keeps:
  assumes ok: "vm_ok pml4 p k" "stack_ok p"
  shows "keeps pml4 (p, k) (try_grow_stack pml4 v (p, k))"
proof (cases "v \<ge> p_stack_low p \<or> v < USER_STACK_LOW_LIMIT")
  case True
  then show ?thesis using ok by (simp add: try_grow_stack_def keepsI)
next
  case False
  define low where "low = v AND NOT (PAGE_SIZE - 1)"
  define len where "len = p_stack_low p - low"
  have st: "stack_map p \<in> set (p_mappings p)" using ok(2) by (simp add: stack_ok_def)
  have lim: "unat (p_stack_low p) \<le> 0x10000000" using ok(2) by (simp add: stack_ok_def word_le_nat_alt stack_consts)
  have "v < p_stack_low p" "USER_STACK_LOW_LIMIT \<le> v" using False by auto
  note low = grow_args [OF ok(2) this, folded low_def, folded len_def]
  define m where "m = \<lparr>m_vaddr = low, m_phys = m_phys (stack_map p) + (low - m_vaddr (stack_map p)), m_len = len, m_shm_id = None\<rparr>"
  have "m_vaddr (stack_map p) \<le> low" "unat low + unat len \<le> unat (m_vaddr (stack_map p)) + unat (m_len (stack_map p))"
    using low lim by (auto simp: stack_map_def word_le_nat_alt stack_consts)
  note S = sub_map [OF ok(1) st _ this, folded m_def]
  have b52: "unat (m_phys m) + unat (m_len m) \<le> 2 ^ 52" and "\<forall>w a. covers m w a \<longrightarrow> (\<exists>m' \<in> set (p_mappings p). covers m' w a)"
    using S low(1) by (auto simp: page_mod)
  from map_in_keep [OF ok(1) USER_RW_bits _ b52 disjI2 [OF this(2)]]
  obtain b fs k1 where R: "map_in pml4 low (stack_phys_for p low) len USER_RW (p, k) = Some (b, p\<lparr>p_frames := fs\<rparr>, k1)"
      "vm_ok pml4 (p\<lparr>p_frames := fs\<rparr>) k1" "evolves p k (p\<lparr>p_frames := fs\<rparr>) k1"
    by (auto simp: m_def stack_phys_for_def stack_map_def)
  have "stack_ok (p\<lparr>p_frames := fs, p_stack_low := low\<rparr>)"
    using ok(2) low st lim by (auto simp: stack_ok_def stack_map_def page_mod word_le_nat_alt stack_consts)
  then show ?thesis using R False ok(2)
    by (auto simp: try_grow_stack_def keeps_def low_def [symmetric] len_def [symmetric] vm_fields stack_ok_fields evolves_fields)
qed

lemma mprotect_loop_keeps:
  assumes "vm_ok pml4 p k" "stack_ok p" "pte_user fl" "\<not> bit fl 7" "v mod PAGE_SIZE = 0" "unat e = unat v + 4096 * c"
  shows "keeps pml4 (p, k) (mprotect_loop pml4 v e fl (p, k))"
  using assms
proof (induction c arbitrary: v p k)
  case 0
  then have "mprotect_loop pml4 v e fl (p, k) = Some (True, p, k)"
    by (subst mprotect_loop.simps) (simp add: word_less_nat_alt)
  then show ?case using 0 by (simp add: keepsI)
next
  case (Suc c)
  have ve: "v < e" "unat v + 4096 < 2 ^ 64" using Suc.prems(6) unsigned_less [of e, where ?'a = nat] by (auto simp: word_less_nat_alt)
  have vs: "unat (v + PAGE_SIZE) = unat v + 4096" using ve(2) by (simp add: PAGE_SIZE_def unat_word_ariths)
  have ca: "checked_add v PAGE_SIZE = Some (v + PAGE_SIZE)" using ve(2) by (simp add: checked_add_def PAGE_SIZE_def)
  show ?case
  proof (cases "find_mapping v (v + PAGE_SIZE) (p_mappings p)")
    case None
    then have "mprotect_loop pml4 v e fl (p, k) = Some (False, p, k)"
      using ve(1) by (subst mprotect_loop.simps) (simp add: translate_local_def translate_in_def ca)
    then show ?thesis using Suc.prems by (simp add: keepsI)
  next
    case (Some m)
    then have m: "m \<in> set (p_mappings p)" "m_vaddr m \<le> v" "v + PAGE_SIZE \<le> m_vaddr m + m_len m"
      unfolding find_mapping_def find_Some_iff by auto
    have mo: "map_ok m" by (rule vm_map(1) [OF Suc.prems(1) m(1)])
    have "unat v + unat PAGE_SIZE \<le> unat (m_vaddr m) + unat (m_len m)"
      using m(3) mo vs by (simp add: word_le_nat_alt map_ok_def unat_word_ariths PAGE_SIZE_def)
    note S = sub_map [OF Suc.prems(1) m(1) Suc.prems(5) m(2) this]
    from map_in_keep [OF Suc.prems(1,3,4) _ S(1) disjI2 [OF S(2)]]
    obtain b fs k1 where R: "map_in pml4 v (m_phys m + (v - m_vaddr m)) PAGE_SIZE fl (p, k) = Some (b, p\<lparr>p_frames := fs\<rparr>, k1)"
        "vm_ok pml4 (p\<lparr>p_frames := fs\<rparr>) k1" "evolves p k (p\<lparr>p_frames := fs\<rparr>) k1"
      by auto
    have step: "mprotect_loop pml4 v e fl (p, k) =
        (if b then mprotect_loop pml4 (v + PAGE_SIZE) e fl (p\<lparr>p_frames := fs\<rparr>, k1) else Some (False, p\<lparr>p_frames := fs\<rparr>, k1))"
      using ve(1) Some R(1) by (subst mprotect_loop.simps) (simp add: translate_local_def translate_in_def ca)
    have st: "stack_ok (p\<lparr>p_frames := fs\<rparr>)" using Suc.prems(2) by (simp add: stack_ok_fields)
    have "keeps pml4 (p\<lparr>p_frames := fs\<rparr>, k1) (mprotect_loop pml4 (v + PAGE_SIZE) e fl (p\<lparr>p_frames := fs\<rparr>, k1))"
      using Suc.prems(5,6) vs by (intro Suc.IH [OF R(2) st Suc.prems(3,4)]) (simp_all add: page_mod)
    then have "keeps pml4 (p, k) (mprotect_loop pml4 (v + PAGE_SIZE) e fl (p\<lparr>p_frames := fs\<rparr>, k1))"
      using evolves_trans [OF R(3)] by (auto simp: keeps_def)
    then show ?thesis using R st by (simp add: step keepsI)
  qed
qed

lemma mprotect_keeps:
  assumes ok: "vm_ok pml4 p k" "stack_ok p"
  shows "keeps pml4 (p, k) (mprotect pml4 addr len0 w x (p, k))"
proof -
  define v where "v = addr AND NOT (PAGE_SIZE - 1)"
  define len where "len = align_up64 (max len0 1) PAGE_SIZE"
  have v: "v mod PAGE_SIZE = 0" by (simp add: v_def)
  have n: "unat len = 4096 * unat (len div PAGE_SIZE)" by (rule page_count) (simp add: len_def)
  have "keeps pml4 (p, k) (mprotect_loop pml4 v (v + len) (user_flags w x) (p, k))"
  proof (cases "unat v + unat len < 2 ^ 64")
    case True
    then have "unat (v + len) = unat v + unat len" by (simp add: unat_word_ariths)
    then have "unat (v + len) = unat v + 4096 * unat (len div PAGE_SIZE)" using n by linarith
    then show ?thesis by (rule mprotect_loop_keeps [OF ok user_flags_bits v])
  next
    case False
    moreover have "unat len < 2 ^ 64" "unat v < 2 ^ 64" using unsigned_less [of len, where ?'a = nat] unsigned_less [of v, where ?'a = nat] by simp_all
    ultimately have "unat (v + len) < unat v" by (simp only: unat_word_ariths) (simp add: mod_if, arith)
    then have "\<not> v < v + len" by (simp add: word_less_nat_alt)
    then have "mprotect_loop pml4 v (v + len) (user_flags w x) (p, k) = Some (True, p, k)"
      by (subst mprotect_loop.simps) simp
    then show ?thesis using ok by (simp add: keepsI)
  qed
  then show ?thesis by (simp add: mprotect_def Let_def v_def len_def)
qed

text \<open>Giving a mapping back. The mappings are those the loop of \<open>munmap\<close> keeps so far, \<open>m\<close> and the rest.\<close>

lemma retain_own:
  assumes "\<forall>a \<in> set fs. 4096 dvd a" "\<forall>a \<in> set fs. a div 4096 < 65536" "map_ok m" "unat (m_phys m) + unat (m_len m) \<le> 2 ^ 28"
  shows "(\<lambda>a. a div 4096) ` set (filter (\<lambda>f. (of_nat f :: u64) < m_phys m \<or> (of_nat f :: u64) \<ge> m_phys m + m_len m) fs)
     = (\<lambda>a. a div 4096) ` set fs - mframes m"
proof -
  obtain l where l: "unat (m_len m) = 4096 * l" using assms(3) by (auto simp: map_ok_def page_mod)
  obtain f where f: "unat (m_phys m) = 4096 * f" using assms(3) by (auto simp: map_ok_def page_mod)
  have e: "unat (m_phys m + m_len m) = 4096 * (f + l)" using assms(4) by (simp add: unat_word_ariths l f)
  have "((of_nat a :: u64) < m_phys m \<or> (of_nat a :: u64) \<ge> m_phys m + m_len m) \<longleftrightarrow> a div 4096 \<notin> mframes m" if a: "a \<in> set fs" for a
  proof -
    obtain x where x: "a = 4096 * x" using assms(1) a by blast
    have "x < 65536" using assms(2) a x by auto
    then have "unat (of_nat a :: u64) = 4096 * x" unfolding x by (simp add: unat_of_nat del: of_nat_mult)
    then show ?thesis unfolding word_less_nat_alt word_le_nat_alt e f by (auto simp: mframes_def l f x)
  qed
  then show ?thesis by auto
qed

lemma drop_mapping_keep:
  assumes ok: "vm_ok pml4 (p\<lparr>p_mappings := pre @ m # ms\<rparr>) k"
      and sm: "\<And>w. in_map m w \<Longrightarrow> small_at (unat pml4) (mmu_of k) w"
  shows "\<exists>fs k1. drop_mapping pml4 m (p, k) = Some (p\<lparr>p_frames := fs\<rparr>, k1)
     \<and> vm_ok pml4 (p\<lparr>p_frames := fs, p_mappings := pre @ ms\<rparr>) k1 \<and> evolves p k (p\<lparr>p_frames := fs\<rparr>) k1
     \<and> own (p\<lparr>p_frames := fs\<rparr>) = own p - mframes m
     \<and> (\<forall>w. small_at (unat pml4) (mmu_of k) w \<longrightarrow> small_at (unat pml4) (mmu_of k1) w)"
proof -
  define q where "q = p\<lparr>p_mappings := pre @ m # ms\<rparr>"
  have okq: "vm_ok pml4 q k" and mq: "m \<in> set (p_mappings q)" and smq: "stack_map q = stack_map p" "own q = own p"
    using ok by (simp_all add: q_def stack_map_def own_def)
  note F = vm_frames [OF okq] and M = vm_map [OF okq mq]
  have mo: "m_vaddr m mod PAGE_SIZE = 0" "m_len m mod PAGE_SIZE = 0" "m_len m \<noteq> 0" "unat (m_vaddr m) + unat (m_len m) \<le> 2 ^ 32"
      "m_shm_id m = None" using M(1) by (auto simp: map_ok_def)
  obtain s where run: "unmap_range_in pml4 (m_vaddr m) (m_len m) (mmu_of k) = Some (True, s)"
      and st: "pt_state (unat pml4) s" and tk: "takes (unat pml4) (mmu_of k) [] s"
      and mono: "\<And>w. small_at (unat pml4) (mmu_of k) w \<Longrightarrow> small_at (unat pml4) s w"
      and out: "\<And>w. unat w < 2 ^ 32 \<Longrightarrow> \<not> in_map m w \<Longrightarrow> hw_walk (pt_mem s) (unat pml4) w = hw_walk (k_pt k) (unat pml4) w"
      and ins: "\<And>w. in_map m w \<Longrightarrow> hw_walk (pt_mem s) (unat pml4) w = None"
    using unmap_range_in_spec [OF F(7) mo(1-4)] sm unfolding in_map_def by (elim exE conjE) (metis mmu_of_sel(1))
  define k1 where "k1 = set_mmu s k"
  have kp: "k_pmm k1 = mm_pmm s" by (simp add: k1_def)
  have V: "frames_ok pml4 q k1" "maps_ok pml4 q k1" "evolves q k q k1" "loose pml4 q k \<subseteq> loose pml4 q k1"
    using vm_tables [OF okq st tk] mono unfolding k1_def by (simp_all add: q_def)
  obtain l where l: "unat (m_len m) = 4096 * l" using M(1) by (auto simp: map_ok_def page_mod)
  obtain f where f: "unat (m_phys m) = 4096 * f" using M(1) by (auto simp: map_ok_def page_mod)
  have mf: "mframes m = {f..<f + l}" by (simp add: mframes_def l f)
  have "pmm_inv (k_pmm k1)" using V(1) by (simp add: frames_ok_def pt_state_def)
  moreover have "{f..<f + l} \<subseteq> pmm_managed (k_pmm k1)" using V(1) M(2) smq(2) mf by (auto simp: frames_ok_def)
  ultimately obtain pm where G: "for_each frame_free (map (\<lambda>i. f * FRAME_SIZE + i * FRAME_SIZE) [0..<l]) (k_pmm k1) = Some pm"
      "pmm_inv pm" "pmm_managed pm = pmm_managed (k_pmm k1)" "avail pm = avail (k_pmm k1) \<union> {f..<f + l}"
    using frames.give_back_run by blast
  define fs where "fs = filter (\<lambda>f. (of_nat f :: u64) < m_phys m \<or> (of_nat f :: u64) \<ge> m_phys m + m_len m) (p_frames p)"
  define k2 where "k2 = set_pmm pm k1"
  define q' where "q' = p\<lparr>p_frames := fs, p_mappings := pre @ ms\<rparr>"
  have lf: "unat (m_len m div PAGE_SIZE) = l" "unat (m_phys m) = f * FRAME_SIZE"
    by (simp_all add: unat_div l f PAGE_SIZE_def FRAME_SIZE_def)
  have "drop_mapping pml4 m (p, k) = Some (p\<lparr>p_frames := fs\<rparr>, k2)"
    using G(1) kp by (simp add: drop_mapping_def run mo(5) lf k1_def [symmetric] k2_def fs_def Let_def)
  moreover have al: "\<forall>a \<in> set (p_frames p). 4096 dvd a" using okq by (auto simp: vm_ok_def frames_ok_def q_def)
  have ow: "own q' = own p - mframes m"
    using retain_own [OF al _ M(1,3)] F(6) unfolding smq(2) by (auto simp: q'_def own_def fs_def)
  have kk: "k_pt k2 = k_pt k1" "k_pmm k2 = pm" "k_mem k2 = k_mem k1" by (simp_all add: k2_def kern_simps)
  have ow': "own (p\<lparr>p_frames := fs\<rparr>) = own p - mframes m" using ow by (simp add: q'_def own_def)
  have ev: "evolves p k (p\<lparr>p_frames := fs\<rparr>) k2"
  proof -
    show ?thesis using ow' V(3) G(3,4) M(2) unfolding evolves_def kk smq(2) mf by (auto simp: k2_def kern_simps)
  qed
  have T: "mframes m \<inter> tbl_frames (k_pt k1) (unat pml4) = {}" using V(2) mq unfolding maps_ok_def by blast
  have smk: "small_at r (mmu_of k2) = small_at r (mmu_of k1)" for r by (rule small_at_pt) (simp add: kk)
  have "pt_ok (k_pt k1) (avail (k_pmm k1)) (unat pml4)" using V(1) by (simp add: frames_ok_def pt_state_def)
  from tables_agree(1) [OF this, of "k_pt k1" "avail pm"] have "pt_ok (k_pt k1) (avail pm) (unat pml4)"
    using V(1) T by (auto simp: G(4) mf frames_ok_def)
  then have "frames_ok pml4 q' k2"
    using V(1) G(2-4) T al unfolding frames_ok_def pt_state_def ow smq(2) kk mmu_of_sel mf
    by (auto simp: q'_def fs_def)
  moreover have dis: "mframes m' \<inter> mframes m = {}" if "m' \<in> set (pre @ ms)" for m'
    using V(2) that by (auto simp: maps_ok_def q_def sorted_wrt_append)
  have pm: "p_mappings q' = pre @ ms" "p_mappings q = pre @ m # ms" "stack_map q' = stack_map q"
    by (simp_all add: q'_def q_def stack_map_def)
  have "maps_ok pml4 q' k2"
    using V(2) dis unfolding maps_ok_def pm kk smk ow smq(2) by (auto simp: sorted_wrt_append)
  moreover have "pages_ok pml4 q' k2"
  proof (rule pages_okI)
    fix w a u assume A: "unat w < 2 ^ 32" "hw_walk (k_pt k2) (unat pml4) w = Some (a, u)" "pte_user u"
    have nin: "\<not> in_map m w" using ins [of w] A(2) by (auto simp: kk k1_def)
    then have "hw_walk (k_pt k) (unat pml4) w = Some (a, u)" using out A(1,2) by (simp add: kk k1_def)
    then have P: "small_at (unat pml4) (mmu_of k) w" "(\<exists>m \<in> set (p_mappings q). covers m w a) \<or> unat a div 4096 \<in> loose pml4 q k"
      using okq A(1,3) unfolding vm_ok_def by (blast dest: pages_okD)+
    have "loose pml4 q k \<subseteq> loose pml4 q' k2"
      using V(4) by (auto simp: loose_def ow smq(2) pm kk)
    then show "small_at (unat pml4) (mmu_of k2) w \<and> ((\<exists>m \<in> set (p_mappings q'). covers m w a) \<or> unat a div 4096 \<in> loose pml4 q' k2)"
      using P mono nin unfolding pm smk by (auto simp: k1_def covers_def)
  qed
  moreover have "small_at (unat pml4) (mmu_of k2) w" if "small_at (unat pml4) (mmu_of k) w" for w
    using mono [OF that] unfolding smk by (simp add: k1_def)
  ultimately show ?thesis using ev ow' unfolding vm_ok_def q'_def by blast
qed

definition hit :: "u64 \<Rightarrow> u64 \<Rightarrow> mapping \<Rightarrow> bool" where
  "hit v e m \<longleftrightarrow> m_vaddr m \<ge> v \<and> m_vaddr m + m_len m \<le> e"

lemma munmap_loop_hit:
  "munmap_loop pml4 v e (m # ms) st =
     (if hit v e m then do { st1 \<leftarrow> drop_mapping pml4 m st; munmap_loop pml4 v e ms st1 }
      else do { (kept, st1) \<leftarrow> munmap_loop pml4 v e ms st; Some (m # kept, st1) })"
  by (simp add: hit_def)

lemma munmap_loop_keep:
  assumes "vm_ok pml4 (p\<lparr>p_mappings := pre @ ms\<rparr>) k"
      "\<And>m w. m \<in> set ms \<Longrightarrow> hit v e m \<Longrightarrow> in_map m w \<Longrightarrow> small_at (unat pml4) (mmu_of k) w"
  shows "\<exists>fs k1. munmap_loop pml4 v e ms (p, k) =
       Some (filter (\<lambda>m. \<not> hit v e m) ms, p\<lparr>p_frames := fs\<rparr>, k1)
     \<and> vm_ok pml4 (p\<lparr>p_frames := fs, p_mappings := pre @ filter (\<lambda>m. \<not> hit v e m) ms\<rparr>) k1
     \<and> evolves p k (p\<lparr>p_frames := fs\<rparr>) k1
     \<and> own (p\<lparr>p_frames := fs\<rparr>) = own p - (\<Union>m \<in> {m \<in> set ms. hit v e m}. mframes m)
     \<and> (\<forall>w. small_at (unat pml4) (mmu_of k) w \<longrightarrow> small_at (unat pml4) (mmu_of k1) w)"
  using assms
proof (induction ms arbitrary: p k pre)
  case Nil
  then show ?case by (intro exI [of _ "p_frames p"] exI [of _ k]) simp
next
  case (Cons m ms)
  show ?case
  proof (cases "hit v e m")
    case True
    have "small_at (unat pml4) (mmu_of k) w" if "in_map m w" for w using Cons.prems(2) [of m] True that by simp
    from drop_mapping_keep [OF Cons.prems(1) this] obtain fs k1 where D: "drop_mapping pml4 m (p, k) = Some (p\<lparr>p_frames := fs\<rparr>, k1)"
        "vm_ok pml4 (p\<lparr>p_frames := fs, p_mappings := pre @ ms\<rparr>) k1" "evolves p k (p\<lparr>p_frames := fs\<rparr>) k1"
        "own (p\<lparr>p_frames := fs\<rparr>) = own p - mframes m"
        "\<forall>w. small_at (unat pml4) (mmu_of k) w \<longrightarrow> small_at (unat pml4) (mmu_of k1) w"
      by blast
    have "\<exists>fs' k2. munmap_loop pml4 v e ms (p\<lparr>p_frames := fs\<rparr>, k1) =
         Some (filter (\<lambda>m. \<not> hit v e m) ms, p\<lparr>p_frames := fs, p_frames := fs'\<rparr>, k2)
       \<and> vm_ok pml4 (p\<lparr>p_frames := fs, p_frames := fs', p_mappings := pre @ filter (\<lambda>m. \<not> hit v e m) ms\<rparr>) k2
       \<and> evolves (p\<lparr>p_frames := fs\<rparr>) k1 (p\<lparr>p_frames := fs, p_frames := fs'\<rparr>) k2
       \<and> own (p\<lparr>p_frames := fs, p_frames := fs'\<rparr>) = own (p\<lparr>p_frames := fs\<rparr>) - (\<Union>m \<in> {m \<in> set ms. hit v e m}. mframes m)
       \<and> (\<forall>w. small_at (unat pml4) (mmu_of k1) w \<longrightarrow> small_at (unat pml4) (mmu_of k2) w)"
      using D(2,5) Cons.prems(2) by (intro Cons.IH) auto
    then obtain fs' k2 where I: "munmap_loop pml4 v e ms (p\<lparr>p_frames := fs\<rparr>, k1) = Some (filter (\<lambda>m. \<not> hit v e m) ms, p\<lparr>p_frames := fs'\<rparr>, k2)"
       "vm_ok pml4 (p\<lparr>p_frames := fs', p_mappings := pre @ filter (\<lambda>m. \<not> hit v e m) ms\<rparr>) k2"
       "evolves (p\<lparr>p_frames := fs\<rparr>) k1 (p\<lparr>p_frames := fs'\<rparr>) k2"
       "own (p\<lparr>p_frames := fs'\<rparr>) = own p - mframes m - (\<Union>m \<in> {m \<in> set ms. hit v e m}. mframes m)"
       "\<forall>w. small_at (unat pml4) (mmu_of k1) w \<longrightarrow> small_at (unat pml4) (mmu_of k2) w"
      using D(4) by auto
    have eq: "{x \<in> set (m # ms). hit v e x} = insert m {x \<in> set ms. hit v e x}" using True by auto
    have "own (p\<lparr>p_frames := fs'\<rparr>) = own p - (\<Union>m \<in> {x \<in> set (m # ms). hit v e x}. mframes m)" unfolding I(4) eq by blast
    then show ?thesis using True D(1,5) I(1,2,5) evolves_trans [OF D(3) I(3)]
      by (intro exI [of _ fs'] exI [of _ k2]) (simp del: munmap_loop.simps add: munmap_loop_hit)
  next
    case False
    have "\<exists>fs' k2. munmap_loop pml4 v e ms (p, k) =
         Some (filter (\<lambda>m. \<not> hit v e m) ms, p\<lparr>p_frames := fs'\<rparr>, k2)
       \<and> vm_ok pml4 (p\<lparr>p_frames := fs', p_mappings := (pre @ [m]) @ filter (\<lambda>m. \<not> hit v e m) ms\<rparr>) k2
       \<and> evolves p k (p\<lparr>p_frames := fs'\<rparr>) k2
       \<and> own (p\<lparr>p_frames := fs'\<rparr>) = own p - (\<Union>m \<in> {m \<in> set ms. hit v e m}. mframes m)
       \<and> (\<forall>w. small_at (unat pml4) (mmu_of k) w \<longrightarrow> small_at (unat pml4) (mmu_of k2) w)"
      using Cons.prems by (intro Cons.IH) auto
    moreover have "{x \<in> set (m # ms). hit v e x} = {x \<in> set ms. hit v e x}" using False by auto
    ultimately show ?thesis using False by (auto simp del: munmap_loop.simps simp: munmap_loop_hit)
  qed
qed

text \<open>The range of a \<open>munmap\<close> call, and whether it takes the stack with it.\<close>

definition munmap_hits :: "u64 \<Rightarrow> u64 \<Rightarrow> mapping \<Rightarrow> bool" where
  "munmap_hits addr len0 m \<longleftrightarrow>
     hit (addr AND NOT (PAGE_SIZE - 1)) ((addr AND NOT (PAGE_SIZE - 1)) + align_up64 (max len0 1) PAGE_SIZE) m"

lemma munmap_keeps:
  assumes ok: "vm_ok pml4 p k" "stack_ok p" and nh: "\<not> munmap_hits addr len0 (stack_map p)"
  shows "keeps pml4 (p, k) (munmap pml4 addr len0 (p, k))"
proof -
  define v where "v = addr AND NOT (PAGE_SIZE - 1)"
  define e where "e = v + align_up64 (max len0 1) PAGE_SIZE"
  define kept where "kept = filter (\<lambda>m. \<not> hit v e m) (p_mappings p)"
  have nh': "\<not> hit v e (stack_map p)"
    using nh by (simp add: munmap_hits_def v_def e_def)
  have "vm_ok pml4 (p\<lparr>p_mappings := [] @ p_mappings p\<rparr>) k" using ok(1) by simp
  moreover have "small_at (unat pml4) (mmu_of k) w" if "m \<in> set (p_mappings p)" "hit v e m" "in_map m w" for m w
    using ok(1) nh' that unfolding vm_ok_def maps_ok_def by (cases "m = stack_map p") auto
  ultimately obtain fs k1 where L: "munmap_loop pml4 v e (p_mappings p) (p, k) = Some (kept, p\<lparr>p_frames := fs\<rparr>, k1)"
      "vm_ok pml4 (p\<lparr>p_frames := fs, p_mappings := kept\<rparr>) k1" "evolves p k (p\<lparr>p_frames := fs\<rparr>) k1"
    using munmap_loop_keep [where p = p and pre = "[]" and ms = "p_mappings p" and v = v and e = e] unfolding kept_def append_Nil by blast
  have "stack_ok (p\<lparr>p_frames := fs, p_mappings := kept\<rparr>)"
    using ok(2) nh' unfolding kept_def by (auto simp: stack_ok_def stack_map_def)
  moreover have "evolves p k (p\<lparr>p_frames := fs, p_mappings := kept\<rparr>) k1" using L(3) by (simp add: evolves_def own_def)
  ultimately show ?thesis using L(1,2)
    by (auto simp: munmap_def Let_def keeps_def v_def [symmetric] e_def [symmetric])
qed

section \<open>Several processes\<close>

lemma other_keep:
  assumes ok: "vm_ok pml4 p2 k" and dis: "own p \<inter> own p2 = {}" and ev: "evolves p k p' k'" and inv: "pmm_inv (k_pmm k')"
  shows "vm_ok pml4 p2 k'" "own p' \<inter> own p2 = {}"
proof -
  note F = vm_frames [OF ok]
  have E: "avail (k_pmm k') \<union> own p' = avail (k_pmm k) \<union> own p" "pmm_managed (k_pmm k') = pmm_managed (k_pmm k)"
      "\<And>b. b div 4096 \<notin> own p \<union> avail (k_pmm k) \<Longrightarrow> k_pt k' b = k_pt k b"
    using ev by (auto simp: evolves_def)
  show "own p' \<inter> own p2 = {}" using E(1) F(4) dis by blast
  have av: "avail (k_pmm k') \<inter> own p2 = {}" using E(1) F(4) dis by blast
  have ag: "k_pt k' b = k_pt k b" if "b div 4096 \<in> tbl_frames (k_pt k) (unat pml4)" for b
    using E(3) [of b] that F(4,5) dis by blast
  have "avail (k_pmm k') \<inter> tbl_frames (k_pt k) (unat pml4) = {}" using av F(5) by blast
  note T = tables_agree [where m' = "k_pt k'", OF F(2) ag this]
  have sm: "small_at (unat pml4) (mmu_of k') = small_at (unat pml4) (mmu_of k)"
    by (rule ext) (simp only: small_at_def mmu_of_sel T(2))
  have "frames_ok pml4 p2 k'"
    using ok T(1,3) av inv E(2) unfolding vm_ok_def frames_ok_def pt_state_def mmu_of_sel by auto
  moreover have T3: "tbl_frames (k_pt k') (unat pml4) = tbl_frames (k_pt k) (unat pml4)" by (rule T)
  have "maps_ok pml4 p2 k'" using ok unfolding vm_ok_def maps_ok_def T3 sm by blast
  moreover have "pages_ok pml4 p2 k'"
    using ok T(4) unfolding vm_ok_def pages_ok_def loose_def T3 sm by simp
  ultimately show "vm_ok pml4 p2 k'" by (simp add: vm_ok_def)
qed

text \<open>The memory operations a process can ask for, by a system call or by touching its stack.\<close>

datatype vm_op = OpBrk u64 | OpMmapAnon "u64 option" u64 bool bool | OpMmapFile "u64 option" u64 bool bool "u8 list"
  | OpMunmap u64 u64 | OpMprotect u64 u64 bool bool | OpFault u64

fun vm_run :: "vm_op \<Rightarrow> u64 \<Rightarrow> process \<times> kern \<Rightarrow> (process \<times> kern) exec" where
  "vm_run (OpBrk req) pml4 st = map_option snd (brk pml4 req st)"
| "vm_run (OpMmapAnon at len w x) pml4 st = map_option snd (mmap_anon pml4 at len w x st)"
| "vm_run (OpMmapFile at len w x d) pml4 st = map_option snd (mmap_file pml4 at len w x d st)"
| "vm_run (OpMunmap addr len) pml4 st = map_option snd (munmap pml4 addr len st)"
| "vm_run (OpMprotect addr len w x) pml4 st = map_option snd (mprotect pml4 addr len w x st)"
| "vm_run (OpFault cr2) pml4 st = map_option snd (try_grow_stack pml4 cr2 st)"

fun spares_stack :: "vm_op \<Rightarrow> process \<Rightarrow> bool" where
  "spares_stack (OpMunmap addr len) p \<longleftrightarrow> \<not> munmap_hits addr len (stack_map p)"
| "spares_stack _ p \<longleftrightarrow> True"

lemma keeps_snd: "keeps pml4 (p, k) r \<Longrightarrow> \<exists>p' k'. map_option snd r = Some (p', k') \<and> vm_ok pml4 p' k' \<and> stack_ok p' \<and> evolves p k p' k'"
  by (auto simp: keeps_def)

lemma vm_run_keeps:
  assumes "vm_ok pml4 p k" "stack_ok p" "spares_stack oper p"
  shows "\<exists>p' k'. vm_run oper pml4 (p, k) = Some (p', k') \<and> vm_ok pml4 p' k' \<and> stack_ok p' \<and> evolves p k p' k'"
  using assms
  by (cases oper) (simp_all only: vm_run.simps spares_stack.simps mmap_anon_def mmap_file_def,
      (rule keeps_snd, rule brk_keeps mmap_with_content_keeps munmap_keeps mprotect_keeps try_grow_stack_keeps; assumption)+)

text \<open>One process of the system does an operation.\<close>

type_synonym system = "(u64 \<times> process) list \<times> kern"

inductive vm_step :: "system \<Rightarrow> system \<Rightarrow> bool" where
  "i < length ps \<Longrightarrow> ps ! i = (pml4, p) \<Longrightarrow> spares_stack oper p \<Longrightarrow> vm_run oper pml4 (p, k) = Some (p', k')
   \<Longrightarrow> vm_step (ps, k) (ps[i := (pml4, p')], k')"

inductive_cases vm_stepE: "vm_step (ps, k) (ps', k')"

definition sys_ok :: "system \<Rightarrow> bool" where
  "sys_ok s \<longleftrightarrow> (\<forall>i < length (fst s). vm_ok (fst (fst s ! i)) (snd (fst s ! i)) (snd s) \<and> stack_ok (snd (fst s ! i)))
     \<and> (\<forall>i < length (fst s). \<forall>j < length (fst s). i \<noteq> j \<longrightarrow> own (snd (fst s ! i)) \<inter> own (snd (fst s ! j)) = {})"

text \<open>The frames of no process and not free: the kernel's own memory.\<close>

definition outside :: "system \<Rightarrow> nat set" where
  "outside s = - (avail (k_pmm (snd s)) \<union> (\<Union>i < length (fst s). own (snd (fst s ! i))))"

definition same_outside :: "system \<Rightarrow> system \<Rightarrow> bool" where
  "same_outside s s' \<longleftrightarrow> outside s' = outside s
     \<and> (\<forall>b. b div 4096 \<in> outside s \<longrightarrow> k_pt (snd s') b = k_pt (snd s) b \<and> k_mem (snd s') b = k_mem (snd s) b)"

lemma vm_step_ok:
  assumes "vm_step s s'" "sys_ok s"
  shows "sys_ok s' \<and> same_outside s s'"
  using assms(1)
proof cases
  case (1 i ps pml4 p oper k p' k')
  note S = assms(2) [unfolded sys_ok_def 1(1) fst_conv snd_conv]
  have "vm_ok pml4 p k" "stack_ok p" using S 1(3,4) by force+
  from vm_run_keeps [OF this 1(5)] 1(6) have V: "vm_ok pml4 p' k'" "stack_ok p'" "evolves p k p' k'" by auto
  have O: "vm_ok (fst (ps ! j)) (snd (ps ! j)) k' \<and> own p' \<inter> own (snd (ps ! j)) = {}" if "j < length ps" "j \<noteq> i" for j
  proof -
    have "own p \<inter> own (snd (ps ! j)) = {}" using S that 1(3,4) by force
    then show ?thesis using other_keep [OF _ _ V(3) vm_frames(1) [OF V(1)]] S that(1) by blast
  qed
  have "sys_ok s'" unfolding sys_ok_def 1(2) fst_conv snd_conv
  proof (intro conjI allI impI)
    fix j assume j: "j < length (ps[i := (pml4, p')])"
    then show "vm_ok (fst (ps[i := (pml4, p')] ! j)) (snd (ps[i := (pml4, p')] ! j)) k'" "stack_ok (snd (ps[i := (pml4, p')] ! j))"
      using V O [of j] S by (cases "j = i"; simp)+
    fix l assume "l < length (ps[i := (pml4, p')])" "j \<noteq> l"
    then show "own (snd (ps[i := (pml4, p')] ! j)) \<inter> own (snd (ps[i := (pml4, p')] ! l)) = {}"
      using j O [of j] O [of l] S by (cases "j = i"; cases "l = i") (simp_all add: Int_commute)
  qed
  moreover have un: "(\<Union>j < length ps. own (snd (ps[i := (pml4, p')] ! j))) = own p' \<union> (\<Union>j \<in> {..<length ps} - {i}. own (snd (ps ! j)))"
      "(\<Union>j < length ps. own (snd (ps ! j))) = own p \<union> (\<Union>j \<in> {..<length ps} - {i}. own (snd (ps ! j)))"
    using 1(3,4) by (auto simp: nth_list_update split: if_splits)
  then have "outside s' = outside s"
    using V(3) unfolding outside_def 1(1,2) fst_conv snd_conv length_list_update un evolves_def by blast
  moreover have "k_pt k' b = k_pt k b \<and> k_mem k' b = k_mem k b" if "b div 4096 \<in> outside s" for b
    using V(3) that un(2) unfolding evolves_def outside_def 1(1) by auto
  ultimately show ?thesis unfolding same_outside_def 1(1,2) by simp
qed

lemma vm_steps_ok:
  assumes "vm_step\<^sup>*\<^sup>* s s'" "sys_ok s"
  shows "sys_ok s' \<and> same_outside s s'"
  using assms(1)
proof (induction rule: rtranclp_induct)
  case base
  then show ?case using assms(2) by (simp add: same_outside_def)
next
  case (step s1 s2)
  then have "sys_ok s2" "same_outside s1 s2" using vm_step_ok by blast+
  then show ?case using step.IH unfolding same_outside_def by auto
qed

section \<open>A process as an instance\<close>

text \<open>The boot tables as the tables of a process in the frames 1 to 6, its stack in the frames 8 to 263,
  nothing mapped for ring 3 yet, and the frames from 264 on free.\<close>

definition demo_pmm :: pmm where
  "demo_pmm = \<lparr>bitmap = replicate 33 0xFF @ replicate 8159 0, last_usable_frame = 65535\<rparr>"

definition demo_kern :: kern where
  "demo_kern = \<lparr>k_pt = id_map,
     k_sock = \<lparr>endpoints = [], listeners = Map.empty, sk_shm = \<lparr>sh_table = [], sh_pmm = demo_pmm, sh_mem = \<lambda>_. 0\<rparr>\<rparr>,
     k_vol = None, k_now = \<lparr>year = 2026, month = 1, day = 1, hour = 0, minute = 0, second = 0\<rparr>\<rparr>"

definition demo_proc :: process where
  "demo_proc = \<lparr>p_entry = 0, p_user_rsp = 0, p_frames = map (\<lambda>i. i * 4096) [1..<264],
     p_mappings = [\<lparr>m_vaddr = USER_STACK_LOW_LIMIT, m_phys = 0x8000, m_len = USER_STACK_MAX_PAGES * PAGE_SIZE, m_shm_id = None\<rparr>],
     p_state = Running, p_exit_info = None, p_inbox = None, p_fds = [None, None, None], p_stack_low = USER_STACK_TOP,
     p_stack_phys_base = 0x8000, p_abi = AbiLinux, p_heap_start = 0x3000000, p_heap_end = 0x3000000,
     p_mmap_next = MMAP_BASE, p_fs_base = 0\<rparr>"

lemma demo_avail: "avail demo_pmm = {264..65535}" "pmm_inv demo_pmm" "pmm_managed demo_pmm = {..65535}"
proof -
  have "(0xFF :: u8) = mask 8" by (simp add: mask_eq_exp_minus_1)
  then have "bit (0xFF :: u8) (f mod 8)" for f by (simp only: bit_mask_iff) simp
  then have "frame_used (bitmap demo_pmm) f \<longleftrightarrow> f < 264" if "f \<le> 65535" for f
    using that by (auto simp: demo_pmm_def frame_used_def nth_append)
  then show "avail demo_pmm = {264..65535}" by (auto simp: avail_def demo_pmm_def)
  show "pmm_inv demo_pmm" "pmm_managed demo_pmm = {..65535}"
    by (auto simp: demo_pmm_def pmm_inv_def pmm_consts pmm_managed_def)
qed

lemma demo_own: "own demo_proc = {1..<264}"
proof -
  have "own demo_proc = (\<lambda>i. i * 4096 div 4096) ` {1..<264}" by (simp add: own_def demo_proc_def image_image)
  then show ?thesis by simp
qed

lemma demo_ok: "vm_ok 4096 demo_proc demo_kern" "stack_ok demo_proc"
proof -
  have k: "k_pt demo_kern = id_map" "k_pmm demo_kern = demo_pmm" by (simp_all add: demo_kern_def)
  have sm: "p_mappings demo_proc = [stack_map demo_proc]" by (simp add: demo_proc_def stack_map_def)
  have mf: "mframes (stack_map demo_proc) = {8..<264}" by (simp add: mframes_def stack_map_def demo_proc_def stack_consts)
  have r: "unat (4096 :: u64) = 4096" by simp
  have "pt_ok id_map (avail (mm_pmm id_mmu)) 4096" using id_state by (simp add: pt_state_def id_mmu_def)
  moreover have "avail demo_pmm \<inter> tbl_frames id_map 4096 = {}" using id_tbl_frames by (auto simp: demo_avail)
  ultimately have "pt_ok id_map (avail demo_pmm) 4096" using tables_agree(1) by blast
  then have pt: "pt_state 4096 (mmu_of demo_kern)" by (simp add: pt_state_def k demo_avail)
  then have "frames_ok 4096 demo_proc demo_kern"
    using id_tbl_frames by (auto simp: frames_ok_def k demo_avail demo_own) (auto simp: demo_proc_def)
  moreover have "map_ok (stack_map demo_proc)"
    by (simp add: map_ok_def stack_map_def demo_proc_def stack_consts) (simp add: process_consts)
  then have "maps_ok 4096 demo_proc demo_kern"
    using id_tbl_frames by (auto simp: maps_ok_def sm mf k demo_own)
  moreover have "\<not> pte_user fl" if "unat w < 2 ^ 32" "hw_walk id_map 4096 w = Some (a, fl)" for w a fl
  proof -
    have "pt_ok id_map (avail demo_pmm) 4096" using pt by (simp add: pt_state_def k)
    from hw_walk_W(1,3) [OF this that(1)] that(2) id_no_user pidx_lt show ?thesis by metis
  qed
  then have "pages_ok 4096 demo_proc demo_kern" by (intro pages_okI) (simp add: k)
  ultimately show "vm_ok 4096 demo_proc demo_kern" by (simp add: vm_ok_def)
  show "stack_ok demo_proc" by (simp add: stack_ok_def sm) (simp add: demo_proc_def process_consts)
qed

section \<open>Properties\<close>


text \<open>The instance runs: pages for a heap, then its state satisfies the theorem.\<close>

lemma demo_sys: "sys_ok ([(4096, demo_proc)], demo_kern)"
  using demo_ok by (simp add: sys_ok_def)


text \<open>The stack region is in one 2 MiB block.\<close>

lemma stack_block:
  assumes "0xFF00000 \<le> unat w" "unat w < 0x10000000"
  shows "small_at r s w = small_at r s USER_STACK_LOW_LIMIT"
proof -
  have "unat w div 2 ^ 21 = 127" "unat w div 2 ^ 30 = 0" using assms by simp_all
  then have "pidx 30 w = pidx 30 USER_STACK_LOW_LIMIT" "pidx 21 w = pidx 21 USER_STACK_LOW_LIMIT"
    by (simp_all only: pidx_nat stack_consts) simp_all
  then show ?thesis by (simp only: small_at_def)
qed

text \<open>C15: a process can free its stack under itself. Once the 2 MiB block of the stack is split, which
  setting up the stack does, \<open>munmap\<close> of the stack region returns \<open>true\<close> and gives the frames of the
  stack back to the allocator, but \<open>stack_low\<close> and \<open>stack_phys_base\<close> stay, so that the next fault below
  the old floor is taken for growth and maps frames that are free, writable for ring 3.\<close>
theorem munmap_stack_use_after_free:
  assumes ok: "vm_ok pml4 p k" "stack_ok p" and blk: "small_at (unat pml4) (mmu_of k) USER_STACK_LOW_LIMIT"
      and v: "USER_STACK_LOW_LIMIT \<le> v" "v < p_stack_low p"
  shows "\<exists>p1 k1 p2 k2 a. munmap pml4 USER_STACK_LOW_LIMIT 0x100000 (p, k) = Some (True, p1, k1)
     \<and> unat a div 4096 \<in> avail (k_pmm k1) \<and> try_grow_stack pml4 v (p1, k1) = Some (True, p2, k2)
     \<and> hw_walk (k_pt k2) (unat pml4) v = Some (a, (USER_RW AND PRESENT_MASK) OR PAGE_PRESENT)"
proof -
  let ?lo = USER_STACK_LOW_LIMIT and ?hi = USER_STACK_TOP
  have args: "?lo AND NOT (PAGE_SIZE - 1) = ?lo" "align_up64 (max 0x100000 1) PAGE_SIZE = 0x100000" "?lo + 0x100000 = ?hi"
    by (simp_all add: align_up64_def process_consts)
  have blk': "small_at (unat pml4) (mmu_of k) w" if "0xFF00000 \<le> unat w" "unat w < 0x10000000" for w
    using blk stack_block [OF that] by simp
  have st: "stack_map p \<in> set (p_mappings p)" using ok(2) by (simp add: stack_ok_def)
  have sm: "small_at (unat pml4) (mmu_of k) w" if "m \<in> set (p_mappings p)" "hit ?lo ?hi m" "in_map m w" for m w
  proof -
    have "unat (m_vaddr m + m_len m) = unat (m_vaddr m) + unat (m_len m)"
      using vm_map(1) [OF ok(1) that(1)] by (simp add: map_ok_def unat_word_ariths)
    then show ?thesis using that(2,3) by (intro blk') (auto simp: hit_def in_map_def word_le_nat_alt stack_consts)
  qed
  have "vm_ok pml4 (p\<lparr>p_mappings := [] @ p_mappings p\<rparr>) k" using ok(1) by simp
  then have "\<exists>fs k1. munmap_loop pml4 ?lo ?hi (p_mappings p) (p, k) =
         Some (filter (\<lambda>m. \<not> hit ?lo ?hi m) (p_mappings p), p\<lparr>p_frames := fs\<rparr>, k1)
       \<and> vm_ok pml4 (p\<lparr>p_frames := fs, p_mappings := [] @ filter (\<lambda>m. \<not> hit ?lo ?hi m) (p_mappings p)\<rparr>) k1
       \<and> evolves p k (p\<lparr>p_frames := fs\<rparr>) k1
       \<and> own (p\<lparr>p_frames := fs\<rparr>) = own p - (\<Union>m \<in> {m \<in> set (p_mappings p). hit ?lo ?hi m}. mframes m)
       \<and> (\<forall>w. small_at (unat pml4) (mmu_of k) w \<longrightarrow> small_at (unat pml4) (mmu_of k1) w)"
    by (rule munmap_loop_keep) (rule sm)
  then obtain fs k1 ms where L: "munmap_loop pml4 ?lo ?hi (p_mappings p) (p, k) = Some (ms, p\<lparr>p_frames := fs\<rparr>, k1)"
      "vm_ok pml4 (p\<lparr>p_frames := fs, p_mappings := ms\<rparr>) k1" "evolves p k (p\<lparr>p_frames := fs\<rparr>) k1"
      "own (p\<lparr>p_frames := fs\<rparr>) = own p - (\<Union>m \<in> {m \<in> set (p_mappings p). hit ?lo ?hi m}. mframes m)"
    by auto
  define p1 where "p1 = p\<lparr>p_frames := fs, p_mappings := ms\<rparr>"
  have run1: "munmap pml4 ?lo 0x100000 (p, k) = Some (True, p1, k1)"
    using L(1) unfolding munmap_def Let_def prod.case args by (simp add: p1_def)
  have "hit ?lo ?hi (stack_map p)" by (simp add: hit_def stack_map_def stack_consts args)
  then have free: "mframes (stack_map p) \<subseteq> avail (k_pmm k1)"
    using L(3,4) st vm_map(2) [OF ok(1) st] unfolding evolves_def by blast
  define low where "low = v AND NOT (PAGE_SIZE - 1)"
  define len where "len = p_stack_low p - low"
  note low = grow_args [OF ok(2) v(2,1), folded low_def, folded len_def]
  have lim: "unat (p_stack_low p) \<le> 0x10000000" "unat (p_stack_low p) mod 4096 = 0"
    using ok(2) by (simp_all add: stack_ok_def word_le_nat_alt stack_consts page_mod)
  note S = vm_map(1,3) [OF ok(1) st]
  obtain f where f: "unat (p_stack_phys_base p) = 4096 * f" using S(1) by (auto simp: map_ok_def page_mod stack_map_def)
  obtain c where c: "unat low = 4096 * c" using low(1) by auto
  have mf: "mframes (stack_map p) = {f..<f + 256}" by (simp add: mframes_def stack_map_def stack_consts f)
  have ph: "unat (stack_phys_for p low) = 4096 * (f + (c - 0xFF00))"
  proof -
    have "unat (low - ?lo) = unat low - 0xFF00000" using low(2) by (simp add: unat_sub word_le_nat_alt stack_consts)
    then show ?thesis using S(2) low(2,3) lim(1) f c by (simp add: stack_phys_for_def unat_word_ariths stack_map_def stack_consts)
  qed
  have fb: "f < 2 ^ 16" using S(2) f by (simp add: stack_map_def stack_consts)
  have "4096 dvd unat (p_stack_low p) - unat low" using lim(2) low(1) by (intro dvd_diff_nat) (auto simp: mod_eq_0_iff_dvd)
  then have al: "low mod PAGE_SIZE = 0" "stack_phys_for p low mod PAGE_SIZE = 0" "len mod PAGE_SIZE = 0" "len \<noteq> 0"
      "unat low + unat len \<le> 2 ^ 32" "unat (stack_phys_for p low) + unat len \<le> 2 ^ 52"
    using low(1,3,6) lim(1) c fb unfolding page_mod ph by (auto simp: mod_eq_0_iff_dvd)
  note K = vm_frames(7) [OF L(2)] and mr = map_range_in_spec [OF vm_frames(7) [OF L(2)] al USER_RW_bits(2), of "p_frames p1"]
  have "256 \<le> card (avail (k_pmm k1))" using card_mono [OF finite_avail free] by (simp add: mf)
  moreover have "unat len div 4096 \<le> 256" using lim(1) low(2,6) by simp
  ultimately obtain fr s where run: "map_range_in pml4 low (stack_phys_for p low) len USER_RW (p_frames p1, mmu_of k1) = Some (True, fr, s)"
    using map_range_in_succeeds [OF K al USER_RW_bits(2), of "p_frames p1"] by auto
  moreover have hv: "unat v < unat low + unat len" using low(3,6) v(2) by (simp add: word_less_nat_alt)
  ultimately have wk: "hw_walk (pt_mem s) (unat pml4) v = Some (stack_phys_for p low, (USER_RW AND PRESENT_MASK) OR PAGE_PRESENT)"
    using mr low(4,5) lim(1) v(2) hv by (auto simp: mapped_def word_less_nat_alt)
  have "try_grow_stack pml4 v (p1, k1) = Some (True, p1\<lparr>p_frames := fr, p_stack_low := low\<rparr>, set_mmu s k1)"
    using v run by (simp add: not_le not_less try_grow_stack_def map_in_def p1_def stack_phys_for_def Let_def flip: low_def len_def)
  moreover have "unat (stack_phys_for p low) div 4096 \<in> mframes (stack_map p)"
    using low(2,3) lim(1) c unfolding ph mf by auto
  then have "unat (stack_phys_for p low) div 4096 \<in> avail (k_pmm k1)" using free by blast
  ultimately show ?thesis using run1 wk by (metis set_mmu_sel(1))
qed

lemma demo_grown:
  "\<exists>p k. vm_ok 4096 p k \<and> stack_ok p \<and> small_at 4096 (mmu_of k) USER_STACK_LOW_LIMIT \<and> p_stack_low p = 0xFFFF000"
proof -
  have st: "pt_state (unat (4096 :: u64)) (mmu_of demo_kern)" using vm_frames(7) [OF demo_ok(1)] .
  have b7: "\<not> bit USER_RW 7" by (rule USER_RW_bits)
  have "k_pmm demo_kern = demo_pmm" by (simp add: demo_kern_def)
  then have "1 \<le> card (avail (mm_pmm (mmu_of demo_kern)))" by (simp add: demo_avail)
  then obtain fr s where run: "map_range_in 4096 0xFFFF000 0x107000 0x1000 USER_RW (p_frames demo_proc, mmu_of demo_kern) = Some (True, fr, s)"
    using map_range_in_succeeds [OF st _ _ _ _ _ _ b7, of "0xFFFF000" "0x107000" "0x1000" "p_frames demo_proc"]
    by (auto simp: PAGE_SIZE_def)
  then have "small_at 4096 s 0xFFFF000"
    using map_range_in_spec [OF st _ _ _ _ _ _ b7, of "0xFFFF000" "0x107000" "0x1000" "p_frames demo_proc"]
    by (auto simp: PAGE_SIZE_def)
  then have "small_at 4096 s USER_STACK_LOW_LIMIT" using stack_block [of "0xFFFF000"] by simp
  moreover have "try_grow_stack 4096 0xFFFFFFF (demo_proc, demo_kern) =
      Some (True, demo_proc\<lparr>p_frames := fr, p_stack_low := 0xFFFF000\<rparr>, set_mmu s demo_kern)"
    using run by (simp add: try_grow_stack_def map_in_def stack_phys_for_def Let_def demo_proc_def process_consts)
  ultimately show ?thesis using try_grow_stack_keeps [OF demo_ok, of "0xFFFFFFF"]
    by (intro exI [of _ "demo_proc\<lparr>p_frames := fr, p_stack_low := 0xFFFF000\<rparr>"] exI [of _ "set_mmu s demo_kern"])
      (auto simp: keeps_def)
qed

theorem munmap_stack_use_after_free_witness:
  "\<exists>p k p1 k1 p2 k2 a. vm_ok 4096 p k \<and> munmap 4096 USER_STACK_LOW_LIMIT 0x100000 (p, k) = Some (True, p1, k1)
     \<and> unat a div 4096 \<in> avail (k_pmm k1) \<and> try_grow_stack 4096 0xFF80000 (p1, k1) = Some (True, p2, k2)
     \<and> hw_walk (k_pt k2) 4096 0xFF80000 = Some (a, (USER_RW AND PRESENT_MASK) OR PAGE_PRESENT)"
proof -
  obtain p k where p: "vm_ok 4096 p k" "stack_ok p" "small_at (unat (4096 :: u64)) (mmu_of k) USER_STACK_LOW_LIMIT"
      "p_stack_low p = 0xFFFF000"
    using demo_grown by auto
  have p2: "unat (4096 :: u64) = 4096" by simp
  have "USER_STACK_LOW_LIMIT \<le> 0xFF80000" "0xFF80000 < p_stack_low p" by (simp_all add: p(4) process_consts)
  from munmap_stack_use_after_free [OF p(1-3) this] p(1) show ?thesis by (simp only: p2) blast
qed

end
