(* ===== verification/Task.thy ===== *)
theory Task
  imports Process
begin

text \<open>
  \<open>src/src/task.rs\<close> and the parts of \<open>src/src/process.rs\<close> that go through the task table: preemptive
  round-robin scheduling of kernel tasks and processes. The state holds the table, the index of the
  running task and the parts of the processor a switch touches: the callee-saved registers, the stack
  memory, \<open>CR3\<close>, the \<open>FS_BASE\<close> register and the kernel stack of the TSS.
\<close>

section \<open>The processor and the context switch\<close>

record cpu =
  c_rsp :: u64
  c_rip :: u64
  c_rdi :: u64
  c_rbx :: u64
  c_rbp :: u64
  c_r12 :: u64
  c_r13 :: u64
  c_r14 :: u64
  c_r15 :: u64
  c_if :: bool
  c_stk :: "u64 \<Rightarrow> u64"

definition cpu_push :: "u64 \<Rightarrow> cpu \<Rightarrow> cpu" where
  "cpu_push v c = c\<lparr>c_rsp := c_rsp c - 8, c_stk := (c_stk c)(c_rsp c - 8 := v)\<rparr>"

definition cpu_pop :: "cpu \<Rightarrow> u64 \<times> cpu" where
  "cpu_pop c = (c_stk c (c_rsp c), c\<lparr>c_rsp := c_rsp c + 8\<rparr>)"

text \<open>\<open>context_switch\<close>, from its first instruction on (the call has pushed the return address): the
  value stored through \<open>old_rsp\<close>, and the processor after the \<open>ret\<close>.\<close>

definition save_regs :: "cpu \<Rightarrow> cpu" where
  "save_regs c = cpu_push (c_r15 c) (cpu_push (c_r14 c) (cpu_push (c_r13 c) (cpu_push (c_r12 c)
     (cpu_push (c_rbp c) (cpu_push (c_rbx c) c)))))"

definition load_regs :: "cpu \<Rightarrow> cpu" where
  "load_regs c =
     (let (r15, c) = cpu_pop c; (r14, c) = cpu_pop c; (r13, c) = cpu_pop c; (r12, c) = cpu_pop c;
          (rbp, c) = cpu_pop c; (rbx, c) = cpu_pop c; (rip, c) = cpu_pop c
      in c\<lparr>c_r15 := r15, c_r14 := r14, c_r13 := r13, c_r12 := r12, c_rbp := rbp, c_rbx := rbx, c_rip := rip\<rparr>)"

definition context_switch :: "u64 \<Rightarrow> cpu \<Rightarrow> u64 \<times> cpu" where
  "context_switch new_rsp c = (let c1 = save_regs c in (c_rsp c1, load_regs (c1\<lparr>c_rsp := new_rsp\<rparr>)))"

text \<open>\<open>task_trampoline\<close>, up to the call of the entry; \<open>hang\<close> is the address after the call.\<close>

definition task_trampoline :: "u64 \<Rightarrow> cpu \<Rightarrow> cpu" where
  "task_trampoline hang c =
     (let (rdi, c1) = cpu_pop (c\<lparr>c_if := True\<rparr>) in (cpu_push hang c1)\<lparr>c_rdi := rdi, c_rip := rdi\<rparr>)"

section \<open>Tasks\<close>

record task =
  t_rsp :: u64
  t_stack :: "u64 option"
  t_name :: string
  t_cr3 :: u64
  t_kernel_stack_top :: u64
  t_ring3_kernel_rsp :: u64
  t_process :: "process option"

definition task_exited :: "task \<Rightarrow> bool" where
  "task_exited t = (case t_process t of None \<Rightarrow> False | Some p \<Rightarrow> is_exited p)"

definition STACK_SIZE :: u64 where "STACK_SIZE = 16 * 1024"
definition QUANTUM_TICKS :: u64 where "QUANTUM_TICKS = 5"
definition RING3_PARK_RESERVE :: u64 where "RING3_PARK_RESERVE = 1024"

record sched =
  s_tasks :: "task list"
  s_current :: usize
  s_cpu :: cpu
  s_cr3 :: u64
  s_fs_base :: u64
  s_rsp0 :: u64

definition put_word :: "u64 \<Rightarrow> u64 \<Rightarrow> cpu \<Rightarrow> cpu" where
  "put_word a v c = c\<lparr>c_stk := (c_stk c)(a := v)\<rparr>"

text \<open>\<open>push_task\<close>: \<open>base\<close> is the address of the new stack, \<open>tramp\<close> that of \<open>task_trampoline\<close>.\<close>

definition fabricate :: "u64 \<Rightarrow> u64 \<Rightarrow> u64 \<Rightarrow> cpu \<Rightarrow> u64 \<times> cpu" where
  "fabricate base tramp start c =
     (let stack_top = base + STACK_SIZE;
          a = stack_top AND NOT 0xF;
          x = a - 64;
          c0 = c\<lparr>c_stk := (\<lambda>b. if base \<le> b \<and> b < base + STACK_SIZE then 0 else c_stk c b)\<rparr>;
          c1 = fold (\<lambda>i. put_word (x + 8 * of_nat i) 0) [0..<6] c0
      in (x, put_word (x + 8 * 7) start (put_word (x + 8 * 6) tramp c1)))"

definition push_task :: "u64 \<Rightarrow> u64 \<Rightarrow> u64 \<Rightarrow> string \<Rightarrow> u64 \<Rightarrow> process option \<Rightarrow> sched \<Rightarrow> usize \<times> sched" where
  "push_task base tramp start name cr3 process s =
     (let (x, c) = fabricate base tramp start (s_cpu s);
          t = \<lparr>t_rsp = x, t_stack = Some base, t_name = name, t_cr3 = cr3, t_kernel_stack_top = base + STACK_SIZE,
               t_ring3_kernel_rsp = 0, t_process = process\<rparr>;
          s1 = s\<lparr>s_tasks := s_tasks s @ [t], s_cpu := c\<lparr>c_if := True\<rparr>\<rparr>
      in (length (s_tasks s1) - 1, s1))"

definition task_spawn :: "u64 \<Rightarrow> u64 \<Rightarrow> u64 \<Rightarrow> u64 \<Rightarrow> string \<Rightarrow> sched \<Rightarrow> sched" where
  "task_spawn kernel_pml4 base tramp start name s = snd (push_task base tramp start name kernel_pml4 None s)"

definition spawn_process :: "u64 \<Rightarrow> u64 \<Rightarrow> u64 \<Rightarrow> string \<Rightarrow> u64 \<Rightarrow> process \<Rightarrow> sched \<Rightarrow> usize \<times> sched" where
  "spawn_process base tramp start name cr3 p s = push_task base tramp start name cr3 (Some p) s"

text \<open>\<open>init\<close>: the bootstrap task and the three background tasks, whose stacks and entries are given.\<close>

definition task_init :: "u64 \<Rightarrow> u64 \<Rightarrow> u64 \<Rightarrow> (u64 \<times> u64) \<times> (u64 \<times> u64) \<times> (u64 \<times> u64) \<Rightarrow> sched \<Rightarrow> sched" where
  "task_init kernel_pml4 boot_stack_top tramp = (\<lambda>((b0, e0), (b1, e1), (b2, e2)) s.
     let s1 = s\<lparr>s_tasks := s_tasks s @ [\<lparr>t_rsp = 0, t_stack = None, t_name = ''main'', t_cr3 = kernel_pml4,
                  t_kernel_stack_top = boot_stack_top, t_ring3_kernel_rsp = 0, t_process = None\<rparr>]\<rparr>
     in task_spawn kernel_pml4 b2 tramp e2 ''bg-2'' (task_spawn kernel_pml4 b1 tramp e1 ''bg-1''
          (task_spawn kernel_pml4 b0 tramp e0 ''bg-0'' s1)))"

section \<open>Scheduling\<close>

definition set_task :: "usize \<Rightarrow> task \<Rightarrow> sched \<Rightarrow> sched" where
  "set_task i t s = s\<lparr>s_tasks := (s_tasks s)[i := t]\<rparr>"

definition next_task :: "task list \<Rightarrow> usize \<Rightarrow> usize option" where
  "next_task ts current =
     find (\<lambda>c. \<not> task_exited (ts ! c)) (map (\<lambda>step. (current + step) mod length ts) [1..<length ts])"

definition set_fs_base :: "u64 \<Rightarrow> process \<Rightarrow> process" where
  "set_fs_base v p = p\<lparr>p_fs_base := v\<rparr>"

definition scheduler_tick :: "u64 \<Rightarrow> sched \<Rightarrow> sched exec" where
  "scheduler_tick ticks s =
     (if ticks mod QUANTUM_TICKS \<noteq> 0 then Some s
      else if length (s_tasks s) < 2 then Some s
      else case next_task (s_tasks s) (s_current s) of
             None \<Rightarrow> Some s
           | Some nxt \<Rightarrow> do {
               cur \<leftarrow> index (s_tasks s) (s_current s);
               let s1 = set_task (s_current s) (cur\<lparr>t_process := map_option (set_fs_base (s_fs_base s)) (t_process cur)\<rparr>) s;
               let current = s_current s;
               let s2 = s1\<lparr>s_current := nxt\<rparr>;
               t \<leftarrow> index (s_tasks s2) nxt;
               let s3 = s2\<lparr>s_fs_base := (case t_process t of None \<Rightarrow> s_fs_base s2 | Some p \<Rightarrow> p_fs_base p)\<rparr>;
               let s4 = (if s_cr3 s3 \<noteq> t_cr3 t then s3\<lparr>s_cr3 := t_cr3 t\<rparr> else s3);
               let s5 = s4\<lparr>s_rsp0 := t_kernel_stack_top t - RING3_PARK_RESERVE\<rparr>;
               let (old, c) = context_switch (t_rsp t) (s_cpu s5);
               let s6 = s5\<lparr>s_cpu := c\<rparr>;
               cur' \<leftarrow> index (s_tasks s6) current;
               Some (set_task current (cur'\<lparr>t_rsp := old\<rparr>) s6) })"

section \<open>Access to the table\<close>

definition task_count :: "sched \<Rightarrow> usize" where "task_count s = length (s_tasks s)"

definition task_name :: "usize \<Rightarrow> sched \<Rightarrow> string exec" where
  "task_name i s = do { t \<leftarrow> index (s_tasks s) i; Some (t_name t) }"

definition process_state_label :: "usize \<Rightarrow> sched \<Rightarrow> string option exec" where
  "process_state_label i s = do { t \<leftarrow> index (s_tasks s) i; Some (map_option state_label (t_process t)) }"

definition current_is_process :: "sched \<Rightarrow> bool" where
  "current_is_process s =
     (if s_current s < length (s_tasks s) then t_process (s_tasks s ! s_current s) \<noteq> None else False)"

definition current_pid :: "sched \<Rightarrow> usize" where "current_pid s = s_current s"

definition current_process_entry :: "sched \<Rightarrow> usize exec" where
  "current_process_entry s = do { t \<leftarrow> index (s_tasks s) (s_current s); p \<leftarrow> t_process t; Some (p_entry p) }"

definition current_process_user_rsp :: "sched \<Rightarrow> u64 exec" where
  "current_process_user_rsp s = do { t \<leftarrow> index (s_tasks s) (s_current s); p \<leftarrow> t_process t; Some (p_user_rsp p) }"

definition current_process_abi :: "sched \<Rightarrow> abi option exec" where
  "current_process_abi s = do { t \<leftarrow> index (s_tasks s) (s_current s); Some (map_option p_abi (t_process t)) }"

definition current_process_cr3 :: "sched \<Rightarrow> u64 option exec" where
  "current_process_cr3 s = do { t \<leftarrow> index (s_tasks s) (s_current s); Some (map_option (\<lambda>_. t_cr3 t) (t_process t)) }"

definition with_current_process_mut :: "'a pop \<Rightarrow> sched \<times> kern \<Rightarrow> ('a option \<times> sched \<times> kern) exec" where
  "with_current_process_mut f = (\<lambda>(s, k). do {
     t \<leftarrow> index (s_tasks s) (s_current s);
     case t_process t of
       None \<Rightarrow> Some (None, s, k)
     | Some p \<Rightarrow> do { (x, p', k') \<leftarrow> f (p, k); Some (Some x, set_task (s_current s) (t\<lparr>t_process := Some p'\<rparr>) s, k') } })"

definition set_current_ring3_return_rsp :: "u64 \<Rightarrow> sched \<Rightarrow> sched exec" where
  "set_current_ring3_return_rsp rsp s = do {
     t \<leftarrow> index (s_tasks s) (s_current s); Some (set_task (s_current s) (t\<lparr>t_ring3_kernel_rsp := rsp\<rparr>) s) }"

definition current_ring3_return_rsp :: "sched \<Rightarrow> u64 exec" where
  "current_ring3_return_rsp s = do { t \<leftarrow> index (s_tasks s) (s_current s); Some (t_ring3_kernel_rsp t) }"

definition process_of :: "usize \<Rightarrow> sched \<Rightarrow> process option" where
  "process_of pid s = (if pid < length (s_tasks s) then t_process (s_tasks s ! pid) else None)"

text \<open>The \<open>unwrap\<close> of the exit information of an exited process panics when it is missing.\<close>

definition process_exit_status :: "usize \<Rightarrow> sched \<Rightarrow> exit_info option exec" where
  "process_exit_status pid s =
     (case process_of pid s of
        None \<Rightarrow> Some None
      | Some p \<Rightarrow> if p_state p \<noteq> Exited then Some None else do { i \<leftarrow> p_exit_info p; Some (Some i) })"

definition process_mappings :: "usize \<Rightarrow> sched \<Rightarrow> mapping list option" where
  "process_mappings pid s = map_option p_mappings (process_of pid s)"

definition deliver_message :: "usize \<Rightarrow> u8 list \<Rightarrow> sched \<Rightarrow> bool \<times> sched" where
  "deliver_message pid bytes s =
     (case process_of pid s of
        None \<Rightarrow> (False, s)
      | Some p \<Rightarrow> if is_exited p then (False, s)
                  else (True, set_task pid ((s_tasks s ! pid)\<lparr>t_process := Some (p\<lparr>p_inbox := Some bytes\<rparr>)\<rparr>) s))"

definition take_current_message :: "sched \<Rightarrow> (u8 list option \<times> sched) exec" where
  "take_current_message s = do {
     t \<leftarrow> index (s_tasks s) (s_current s);
     case t_process t of
       None \<Rightarrow> Some (None, s)
     | Some p \<Rightarrow> Some (p_inbox p, set_task (s_current s) (t\<lparr>t_process := Some (p\<lparr>p_inbox := None\<rparr>)\<rparr>) s) }"

definition mark_current_exited :: "exit_info \<Rightarrow> sched \<Rightarrow> sched exec" where
  "mark_current_exited info s = do {
     t \<leftarrow> index (s_tasks s) (s_current s);
     case t_process t of
       None \<Rightarrow> Some s
     | Some p \<Rightarrow> Some (set_task (s_current s) (t\<lparr>t_process := Some (mark_exited info p)\<rparr>) s) }"

definition swap_remove :: "usize \<Rightarrow> 'a list \<Rightarrow> 'a \<times> 'a list" where
  "swap_remove i xs = (xs ! i, butlast (xs[i := last xs]))"

definition remove_process :: "usize \<Rightarrow> sched \<Rightarrow> process option \<times> sched" where
  "remove_process pid s =
     (if pid \<ge> length (s_tasks s) then (None, s)
      else if s_current s = pid then (None, s)
      else let current = s_current s;
               (t, ts) = swap_remove pid (s_tasks s);
               s1 = s\<lparr>s_tasks := ts\<rparr>;
               s2 = (if current = length ts then s1\<lparr>s_current := pid\<rparr>
                     else if pid < current then s1\<lparr>s_current := current - 1\<rparr> else s1)
           in (t_process t, s2))"

section \<open>Processes through the table\<close>

definition handle_fault :: "u64 \<Rightarrow> sched \<times> kern \<Rightarrow> (bool \<times> sched \<times> kern) exec" where
  "handle_fault cr2 = (\<lambda>(s, k). do {
     c \<leftarrow> current_process_cr3 s;
     case c of
       None \<Rightarrow> Some (False, s, k)
     | Some pml4 \<Rightarrow> do {
         (r, s', k') \<leftarrow> with_current_process_mut (try_grow_stack pml4 cr2) (s, k);
         Some (case r of None \<Rightarrow> False | Some b \<Rightarrow> b, s', k') } })"

record iframe =
  f_rip :: u64
  f_cs :: u64
  f_ss :: u64

definition redirect_to_exit :: "u64 \<Rightarrow> u64 \<Rightarrow> u64 \<Rightarrow> iframe \<Rightarrow> iframe" where
  "redirect_to_exit exit_self kernel_code kernel_data f = f\<lparr>f_rip := exit_self, f_cs := kernel_code, f_ss := kernel_data\<rparr>"

definition kill_current :: "u64 \<Rightarrow> u64 \<Rightarrow> u64 \<Rightarrow> u64 \<Rightarrow> sched \<times> iframe \<Rightarrow> (sched \<times> iframe) exec" where
  "kill_current exit_self kernel_code kernel_data cr2 = (\<lambda>(s, f). do {
     s' \<leftarrow> mark_current_exited (ExitPageFault cr2) s;
     Some (s', redirect_to_exit exit_self kernel_code kernel_data f) })"

definition kill_current_exception :: "u64 \<Rightarrow> u64 \<Rightarrow> u64 \<Rightarrow> u8 \<Rightarrow> sched \<times> iframe \<Rightarrow> (sched \<times> iframe) exec" where
  "kill_current_exception exit_self kernel_code kernel_data vector = (\<lambda>(s, f). do {
     s' \<leftarrow> mark_current_exited (ExitException vector) s;
     Some (s', redirect_to_exit exit_self kernel_code kernel_data f) })"

definition reap :: "usize \<Rightarrow> sched \<times> kern \<Rightarrow> (sched \<times> kern) exec" where
  "reap pid = (\<lambda>(s, k).
     let (r, s') = remove_process pid s
     in case r of None \<Rightarrow> Some (s', k) | Some p \<Rightarrow> do { k' \<leftarrow> free_process p k; Some (s', k') })"

definition translate :: "usize \<Rightarrow> u64 \<Rightarrow> u64 \<Rightarrow> sched \<Rightarrow> u64 option" where
  "translate pid v len s = do {
     e \<leftarrow> checked_add v len;
     ms \<leftarrow> process_mappings pid s;
     m \<leftarrow> find_mapping v e ms;
     Some (m_phys m + (v - m_vaddr m)) }"

definition read_result :: "usize \<Rightarrow> sched \<Rightarrow> kern \<Rightarrow> u64 option" where
  "read_result pid s k = do {
     phys \<leftarrow> translate pid PROC_RESULT_VIRT 8 s;
     Some (of_nat (le_nat (map (\<lambda>i. k_mem k (unat phys + i)) [0..<8]))) }"

definition resolve_syscall_ptr :: "usize \<Rightarrow> u64 \<Rightarrow> u64 \<Rightarrow> sched \<times> kern \<Rightarrow> (u64 option \<times> sched \<times> kern) exec" where
  "resolve_syscall_ptr pid v len = (\<lambda>(s, k).
     case translate pid v len s of
       Some phys \<Rightarrow> Some (Some phys, s, k)
     | None \<Rightarrow>
         if pid \<noteq> current_pid s then Some (None, s, k)
         else do {
           c \<leftarrow> current_process_cr3 s;
           case c of
             None \<Rightarrow> Some (None, s, k)
           | Some cr3 \<Rightarrow> do {
               (r, s', k') \<leftarrow> with_current_process_mut (try_grow_stack cr3 v) (s, k);
               Some (case r of Some True \<Rightarrow> translate pid v len s' | _ \<Rightarrow> None, s', k') } })"

definition send_from_kernel :: "usize \<Rightarrow> u8 list \<Rightarrow> sched \<Rightarrow> bool \<times> sched" where
  "send_from_kernel pid bytes s = deliver_message pid bytes s"

section \<open>Context switches\<close>

lemma save_regs_stk:
  "c_stk (save_regs c) = (c_stk c)(c_rsp c - 8 := c_rbx c, c_rsp c - 16 := c_rbp c, c_rsp c - 24 := c_r12 c,
     c_rsp c - 32 := c_r13 c, c_rsp c - 40 := c_r14 c, c_rsp c - 48 := c_r15 c)"
  "c_rsp (save_regs c) = c_rsp c - 48"
  by (simp_all add: save_regs_def cpu_push_def)

lemma load_regs_fields:
  "c_r15 (load_regs c) = c_stk c (c_rsp c)" "c_r14 (load_regs c) = c_stk c (c_rsp c + 8)"
  "c_r13 (load_regs c) = c_stk c (c_rsp c + 16)" "c_r12 (load_regs c) = c_stk c (c_rsp c + 24)"
  "c_rbp (load_regs c) = c_stk c (c_rsp c + 32)" "c_rbx (load_regs c) = c_stk c (c_rsp c + 40)"
  "c_rip (load_regs c) = c_stk c (c_rsp c + 48)" "c_rsp (load_regs c) = c_rsp c + 56" "c_stk (load_regs c) = c_stk c"
  by (simp_all add: load_regs_def cpu_pop_def Let_def add.assoc)

lemma saved_words:
  "c_stk (save_regs c) (c_rsp c - 48) = c_r15 c" "c_stk (save_regs c) (c_rsp c - 40) = c_r14 c"
  "c_stk (save_regs c) (c_rsp c - 32) = c_r13 c" "c_stk (save_regs c) (c_rsp c - 24) = c_r12 c"
  "c_stk (save_regs c) (c_rsp c - 16) = c_rbp c" "c_stk (save_regs c) (c_rsp c - 8) = c_rbx c"
  "c_stk (save_regs c) (c_rsp c) = c_stk c (c_rsp c)"
  unfolding save_regs_stk by simp_all

lemma save_regs_other:
  assumes "\<And>j. j < 6 \<Longrightarrow> c_rsp c - 8 * of_nat (Suc j) \<noteq> b"
  shows "c_stk (save_regs c) b = c_stk c b"
  using assms [of 0] assms [of 1] assms [of 2] assms [of 3] assms [of 4] assms [of 5]
  unfolding save_regs_stk(1) by auto

text \<open>The frame \<open>push_task\<close> builds, in its stack.\<close>

lemma fabricate_frame:
  assumes "unat base + 0x4000 < 2 ^ 64" "fabricate base tramp start c = (x, c')"
  shows "unat x mod 16 = 0" "unat base \<le> unat x" "unat x + 64 \<le> unat base + 0x4000" "unat (x + 64) = unat x + 64"
    "i < 6 \<Longrightarrow> c_stk c' (x + 8 * of_nat i) = 0" "c_stk c' (x + 48) = tramp" "c_stk c' (x + 56) = start"
proof -
  have top: "unat (base + STACK_SIZE) = unat base + 0x4000" using assms(1) by (simp add: STACK_SIZE_def unat_word_ariths)
  have x: "x = ((base + STACK_SIZE) AND NOT 0xF) - 64" using assms(2) by (auto simp: fabricate_def Let_def)
  have "unat ((base + STACK_SIZE) AND NOT (2 ^ 4 - 1)) = unat (base + STACK_SIZE) div 16 * 16" using unat_align [of _ 4] by simp
  then have a: "unat ((base + STACK_SIZE) AND NOT 0xF) = (unat base + 0x4000) div 16 * 16" by (simp add: top)
  have le: "64 \<le> (unat base + 0x4000) div 16 * 16" by simp
  have ux: "unat x = (unat base + 0x4000) div 16 * 16 - 64"
    unfolding x using a le by (simp add: unat_sub word_le_nat_alt)
  have "(unat base + 0x4000) div 16 * 16 + (unat base + 0x4000) mod 16 = unat base + 0x4000" "(unat base + 0x4000) mod 16 < 16" by simp_all
  then show b: "unat base \<le> unat x" "unat x + 64 \<le> unat base + 0x4000" using ux le by linarith+
  have "unat x = 16 * ((unat base + 0x4000) div 16 - 4)" using ux by simp
  then show "unat x mod 16 = 0" by simp
  show "unat (x + 64) = unat x + 64" using b(2) assms(1) by (simp add: unat_word_ariths)
  show "c_stk c' (x + 48) = tramp" "c_stk c' (x + 56) = start"
    using assms(2) by (auto simp: fabricate_def Let_def put_word_def)
  show "c_stk c' (x + 8 * of_nat i) = 0" if "i < 6"
  proof -
    have "i \<in> {0, 1, 2, 3, 4, 5}" using that by auto
    then show ?thesis using assms(2) by (elim insertE) (auto simp: fabricate_def Let_def put_word_def upt_rec)
  qed
qed

section \<open>The choice of the next task\<close>

text \<open>How many places after \<open>c\<close> task \<open>i\<close> is in the circle of \<open>n\<close> tasks.\<close>

definition ahead :: "nat \<Rightarrow> nat \<Rightarrow> nat \<Rightarrow> nat" where
  "ahead n c i = (i + n - c) mod n"

lemma ahead_lt: "c < n \<Longrightarrow> ahead n c i < n"
  by (simp add: ahead_def)

lemma ahead_step:
  assumes "c < n" "d < n"
  shows "ahead n c ((c + d) mod n) = d"
proof (cases "c + d < n")
  case True
  then show ?thesis using assms by (simp add: ahead_def)
next
  case False
  then have "(c + d) mod n = c + d - n" using assms by (simp add: mod_if)
  then show ?thesis using assms False by (simp add: ahead_def)
qed

lemma ahead_if: "c < n \<Longrightarrow> i < n \<Longrightarrow> ahead n c i = (if c \<le> i then i - c else i + n - c)"
  by (auto simp: ahead_def mod_if)

lemma ahead_inv: "c < n \<Longrightarrow> i < n \<Longrightarrow> (c + ahead n c i) mod n = i"
  by (simp add: ahead_if mod_if)

lemma ahead_0: "c < n \<Longrightarrow> i < n \<Longrightarrow> ahead n c i = 0 \<longleftrightarrow> i = c"
  by (auto simp: ahead_if)

lemma ahead_sub:
  assumes "c < n" "i < n" "j < n" "ahead n c j \<le> ahead n c i"
  shows "ahead n j i = ahead n c i - ahead n c j"
  using assms by (simp add: ahead_if split: if_splits)

lemma next_task_spec:
  assumes "c < length ts"
  shows "case next_task ts c of
      None \<Rightarrow> \<forall>i < length ts. i \<noteq> c \<longrightarrow> task_exited (ts ! i)
    | Some j \<Rightarrow> j < length ts \<and> j \<noteq> c \<and> \<not> task_exited (ts ! j)
        \<and> (\<forall>i < length ts. i \<noteq> c \<longrightarrow> \<not> task_exited (ts ! i) \<longrightarrow> ahead (length ts) c j \<le> ahead (length ts) c i)"
proof (cases "next_task ts c")
  case None
  have "task_exited (ts ! i)" if "i < length ts" "i \<noteq> c" for i
  proof -
    have "ahead (length ts) c i \<in> set [1..<length ts]" using ahead_lt [OF assms] ahead_0 [OF assms that(1)] that(2) by auto
    then show ?thesis using None ahead_inv [OF assms that(1)] unfolding next_task_def find_None_iff by force
  qed
  then show ?thesis by (simp add: None)
next
  case (Some j)
  let ?n = "length ts"
  let ?xs = "map (\<lambda>step. (c + step) mod ?n) [1..<?n]"
  from Some obtain k where k: "k < length ?xs" "\<not> task_exited (ts ! (?xs ! k))" "j = ?xs ! k"
      "\<forall>l < k. task_exited (ts ! (?xs ! l))"
    unfolding next_task_def find_Some_iff by auto
  have kn: "Suc k < ?n" using k(1) by simp
  have xs: "?xs ! l = (c + Suc l) mod ?n" if "Suc l < ?n" for l using that nth_upt [of 1 l ?n] by simp
  have aj: "ahead ?n c j = Suc k" using k(3) xs [OF kn] ahead_step [OF assms kn] by simp
  have "Suc k \<le> ahead ?n c i" if "i < ?n" "i \<noteq> c" "\<not> task_exited (ts ! i)" for i
  proof (rule ccontr)
    assume "\<not> Suc k \<le> ahead ?n c i"
    moreover have "ahead ?n c i \<noteq> 0" using ahead_0 [OF assms that(1)] that(2) by simp
    ultimately obtain l where l: "ahead ?n c i = Suc l" "l < k" by (cases "ahead ?n c i") auto
    then have "?xs ! l = i" using xs [of l] kn ahead_inv [OF assms that(1)] by simp
    then show False using k(4) l(2) that(3) by auto
  qed
  moreover have "j < ?n" unfolding k(3) xs [OF kn] by (rule mod_less_divisor) (use assms in auto)
  moreover have "j \<noteq> c" using aj ahead_0 [OF assms assms] by auto
  ultimately show ?thesis using k(2,3) Some aj by simp
qed

section \<open>A tick\<close>

lemma task_exited_rsp [simp]: "task_exited (t\<lparr>t_rsp := x\<rparr>) = task_exited t"
  by (simp add: task_exited_def)

lemma task_exited_fs [simp]: "task_exited (t\<lparr>t_process := map_option (set_fs_base v) (t_process t)\<rparr>) = task_exited t"
  by (cases "t_process t") (simp_all add: task_exited_def is_exited_def set_fs_base_def)

lemma set_task_sel [simp]:
  "s_tasks (set_task i t s) = (s_tasks s)[i := t]" "s_current (set_task i t s) = s_current s" "s_cpu (set_task i t s) = s_cpu s"
  "s_cr3 (set_task i t s) = s_cr3 s" "s_fs_base (set_task i t s) = s_fs_base s" "s_rsp0 (set_task i t s) = s_rsp0 s"
  by (simp_all add: set_task_def)

text \<open>A tick that switches, field by field.\<close>

lemma tick_switch:
  assumes q: "ticks mod QUANTUM_TICKS = 0" and c: "s_current s < length (s_tasks s)"
      and n: "next_task (s_tasks s) (s_current s) = Some j"
  defines "c' \<equiv> s_current s"
  defines "t \<equiv> s_tasks s ! j"
  shows "\<exists>s'. scheduler_tick ticks s = Some s' \<and> s_current s' = j
    \<and> s_tasks s' = (s_tasks s)[c' := (s_tasks s ! c')\<lparr>t_process := map_option (set_fs_base (s_fs_base s)) (t_process (s_tasks s ! c')),
                       t_rsp := fst (context_switch (t_rsp t) (s_cpu s))\<rparr>]
    \<and> s_cpu s' = snd (context_switch (t_rsp t) (s_cpu s)) \<and> s_cr3 s' = t_cr3 t
    \<and> s_rsp0 s' = t_kernel_stack_top t - RING3_PARK_RESERVE
    \<and> s_fs_base s' = (case t_process t of None \<Rightarrow> s_fs_base s | Some p \<Rightarrow> p_fs_base p)"
proof -
  have j: "j < length (s_tasks s)" "j \<noteq> c'" using next_task_spec [OF c] n by (simp_all add: c'_def)
  have len: "\<not> length (s_tasks s) < 2" using j c by (simp add: c'_def)
  obtain old cc where cs: "context_switch (t_rsp t) (s_cpu s) = (old, cc)" by fastforce
  show ?thesis using j c len n cs
    by (auto simp: scheduler_tick_def q index_def Let_def c'_def t_def split: option.split)
qed

lemma tick_total:
  assumes c: "s_current s < length (s_tasks s)"
  shows "\<exists>s'. scheduler_tick ticks s = Some s' \<and> length (s_tasks s') = length (s_tasks s) \<and> s_current s' < length (s_tasks s')
     \<and> (\<forall>i < length (s_tasks s). task_exited (s_tasks s' ! i) = task_exited (s_tasks s ! i))"
proof (cases "ticks mod QUANTUM_TICKS = 0 \<and> next_task (s_tasks s) (s_current s) \<noteq> None")
  case True
  then obtain j where n: "next_task (s_tasks s) (s_current s) = Some j" by blast
  have "j < length (s_tasks s)" using next_task_spec [OF c] n by simp
  then show ?thesis using tick_switch [OF _ c n, of ticks] True c by (auto simp: nth_list_update)
next
  case False
  then show ?thesis using c by (auto simp: scheduler_tick_def)
qed

section \<open>Removing a task\<close>

lemma swap_remove_spec:
  assumes "distinct xs" "i < length xs"
  shows "length (snd (swap_remove i xs)) = length xs - 1" "set (snd (swap_remove i xs)) = set xs - {xs ! i}"
    "j + 1 < length xs \<Longrightarrow> snd (swap_remove i xs) ! j = (if j = i then last xs else xs ! j)"
proof -
  obtain ys y where xs: "xs = ys @ [y]" using assms(2) by (cases xs rule: rev_cases) auto
  show "length (snd (swap_remove i xs)) = length xs - 1" by (simp add: swap_remove_def)
  show "set (snd (swap_remove i xs)) = set xs - {xs ! i}"
  proof (cases "i < length ys")
    case True
    then have "snd (swap_remove i xs) = ys[i := y]" by (simp add: swap_remove_def xs list_update_append butlast_append)
    then show ?thesis using True assms(1) by (auto simp: xs set_update_distinct nth_append dest: nth_mem)
  next
    case False
    then have "i = length ys" using assms(2) xs by simp
    then show ?thesis using assms(1) by (simp add: swap_remove_def xs)
  qed
  show "snd (swap_remove i xs) ! j = (if j = i then last xs else xs ! j)" if "j + 1 < length xs"
    using that assms(2) by (auto simp: swap_remove_def nth_butlast nth_list_update)
qed

section \<open>Waiting\<close>

text \<open>Between two ticks the running task and the interrupts may change the tasks in any way that keeps
  their number, the running task and that task \<open>i\<close> is runnable. \<open>waits i m s s'\<close>: from \<open>s\<close> to \<open>s'\<close> the
  quantum ran out \<open>m\<close> times and task \<open>i\<close> never became the running one.\<close>

definition meanwhile :: "nat \<Rightarrow> sched \<Rightarrow> sched \<Rightarrow> bool" where
  "meanwhile i s s' \<longleftrightarrow> s_current s' = s_current s \<and> length (s_tasks s') = length (s_tasks s) \<and> \<not> task_exited (s_tasks s' ! i)"

inductive waits :: "nat \<Rightarrow> nat \<Rightarrow> sched \<Rightarrow> sched \<Rightarrow> bool" for i where
  start: "waits i 0 s s"
| work: "waits i m s s1 \<Longrightarrow> meanwhile i s1 s2 \<Longrightarrow> waits i m s s2"
| tick: "waits i m s s1 \<Longrightarrow> ticks mod QUANTUM_TICKS = 0 \<Longrightarrow> scheduler_tick ticks s1 = Some s2 \<Longrightarrow> s_current s2 \<noteq> i
         \<Longrightarrow> waits i (Suc m) s s2"

lemma tick_closer:
  assumes c: "s_current s < length (s_tasks s)" and i: "i < length (s_tasks s)" "\<not> task_exited (s_tasks s ! i)" "s_current s \<noteq> i"
      and q: "ticks mod QUANTUM_TICKS = 0" and r: "scheduler_tick ticks s = Some s'"
  shows "ahead (length (s_tasks s)) (s_current s') i < ahead (length (s_tasks s)) (s_current s) i"
proof -
  note N = next_task_spec [OF c]
  obtain j where n: "next_task (s_tasks s) (s_current s) = Some j" using N i by (cases "next_task (s_tasks s) (s_current s)") auto
  then have j: "j < length (s_tasks s)" "j \<noteq> s_current s" "ahead (length (s_tasks s)) (s_current s) j \<le> ahead (length (s_tasks s)) (s_current s) i"
    using N i by auto
  have "s_current s' = j" using tick_switch [OF q c n] r by auto
  then show ?thesis using ahead_sub [OF c i(1) j(1,3)] j(3) ahead_0 [OF c j(1)] j(2) by simp
qed

lemma waits_bound:
  assumes "waits i m s s'" "s_current s < length (s_tasks s)" "i < length (s_tasks s)" "\<not> task_exited (s_tasks s ! i)" "s_current s \<noteq> i"
  shows "m + ahead (length (s_tasks s)) (s_current s') i \<le> ahead (length (s_tasks s)) (s_current s) i
     \<and> s_current s' \<noteq> i \<and> s_current s' < length (s_tasks s') \<and> length (s_tasks s') = length (s_tasks s) \<and> \<not> task_exited (s_tasks s' ! i)"
  using assms
proof (induction rule: waits.induct)
  case (work m s s1 s2)
  then show ?case by (simp add: meanwhile_def)
next
  case (tick m s s1 ticks s2)
  then have IH: "m + ahead (length (s_tasks s)) (s_current s1) i \<le> ahead (length (s_tasks s)) (s_current s) i"
      "s_current s1 \<noteq> i" "s_current s1 < length (s_tasks s1)" "length (s_tasks s1) = length (s_tasks s)" "\<not> task_exited (s_tasks s1 ! i)"
    by auto
  have "ahead (length (s_tasks s)) (s_current s2) i < ahead (length (s_tasks s)) (s_current s1) i"
    using tick_closer [OF IH(3) _ IH(5,2) tick.hyps(2,3)] IH(4) tick.prems(2) by simp
  moreover have "length (s_tasks s2) = length (s_tasks s1)" "s_current s2 < length (s_tasks s2)" "\<not> task_exited (s_tasks s2 ! i)"
    using tick_total [OF IH(3), of ticks] tick.hyps(3) IH(4,5) tick.prems(2) by auto
  ultimately show ?case using IH tick.hyps(4) by simp
qed simp

section \<open>Properties\<close>


text \<open>Three kernel tasks, the first one running.\<close>

definition demo_cpu :: cpu where
  "demo_cpu = \<lparr>c_rsp = 0x9000, c_rip = 0x100000, c_rdi = 0, c_rbx = 1, c_rbp = 2, c_r12 = 3, c_r13 = 4, c_r14 = 5, c_r15 = 6,
     c_if = True, c_stk = \<lambda>_. 0\<rparr>"

definition demo_sched :: sched where
  "demo_sched = task_init 0x1000 0x9000 0x101000 ((0x20000, 0x102000), (0x30000, 0x103000), (0x40000, 0x104000))
     \<lparr>s_tasks = [], s_current = 0, s_cpu = demo_cpu, s_cr3 = 0x1000, s_fs_base = 0, s_rsp0 = 0\<rparr>"

lemma demo_tasks: "length (s_tasks demo_sched) = 4" "s_current demo_sched = 0"
  "i < 4 \<Longrightarrow> t_process (s_tasks demo_sched ! i) = None" "\<And>i. i < 4 \<Longrightarrow> \<not> task_exited (s_tasks demo_sched ! i)"
proof -
  have ts: "map t_process (s_tasks demo_sched) = [None, None, None, None]"
    by (simp add: demo_sched_def task_init_def task_spawn_def push_task_def Let_def split: prod.split)
  then show l: "length (s_tasks demo_sched) = 4" using arg_cong [where f = length, OF ts] unfolding length_map by simp
  show "s_current demo_sched = 0"
    by (simp add: demo_sched_def task_init_def task_spawn_def push_task_def Let_def split: prod.split)
  show p: "t_process (s_tasks demo_sched ! i) = None" if "i < 4" for i
  proof -
    have "map t_process (s_tasks demo_sched) ! i = None"
      unfolding ts using that by (auto simp: less_Suc_eq numeral_eq_Suc)
    then show ?thesis using that l by simp
  qed
  then show "\<not> task_exited (s_tasks demo_sched ! i)" if "i < 4" for i using that by (simp add: task_exited_def)
qed


text \<open>C18: a task resumes where it was switched out. The registers, stack pointer and return address that
  \<open>context_switch\<close> saved come back when it switches to the saved stack pointer, whatever ran in between,
  as long as the seven words on the task's own stack are kept, also by the pushes of the switch back.\<close>
theorem context_switch_roundtrip:
  assumes "context_switch rsp1 c = (old, c1)"
      "\<And>i. i < 7 \<Longrightarrow> c_stk d (old + 8 * of_nat i) = c_stk c1 (old + 8 * of_nat i)"
      "\<And>i j. i < 7 \<Longrightarrow> j < 6 \<Longrightarrow> c_rsp d - 8 * of_nat (Suc j) \<noteq> old + 8 * of_nat i"
      "context_switch old d = (x, c2)"
  shows "c_rbx c2 = c_rbx c \<and> c_rbp c2 = c_rbp c \<and> c_r12 c2 = c_r12 c \<and> c_r13 c2 = c_r13 c \<and> c_r14 c2 = c_r14 c
     \<and> c_r15 c2 = c_r15 c \<and> c_rsp c2 = c_rsp c + 8 \<and> c_rip c2 = c_stk c (c_rsp c)"
proof -
  have old: "old = c_rsp c - 48" and c1: "c_stk c1 = c_stk (save_regs c)"
    using assms(1) by (auto simp: context_switch_def Let_def save_regs_stk load_regs_fields)
  have c2: "c2 = load_regs ((save_regs d)\<lparr>c_rsp := old\<rparr>)" using assms(4) by (simp add: context_switch_def Let_def)
  have keep: "c_stk (save_regs d) (old + 8 * of_nat i) = c_stk (save_regs c) (old + 8 * of_nat i)" if "i < 7" for i
    using assms(2) [OF that] assms(3) [OF that, of 0] assms(3) [OF that, of 1] assms(3) [OF that, of 2]
      assms(3) [OF that, of 3] assms(3) [OF that, of 4] assms(3) [OF that, of 5]
    unfolding c1 save_regs_stk(1) [of d] by auto
  have W: "c_stk (save_regs d) (old + w) = c_stk (save_regs c) (c_rsp c - (48 - w))" if "w = 8 * of_nat i" "i < 7" for w i
    using keep [OF that(2)] by (simp add: that(1) old algebra_simps)
  show ?thesis
    using W [of 0 0] W [of 8 1] W [of 16 2] W [of 24 3] W [of 32 4] W [of 40 5] W [of 48 6]
    by (simp add: c2 load_regs_fields saved_words) (simp add: old)
qed

theorem context_switch_roundtrip_witness:
  "let (old, c1) = context_switch 0x5000 demo_cpu;
       (x, c2) = context_switch old (c1\<lparr>c_rbx := 77, c_rsp := 0x5038\<rparr>)
   in c_rbx c2 = 1 \<and> c_r15 c2 = 6 \<and> c_rsp c2 = 0x9008"
proof -
  obtain old c1 where 1: "context_switch 0x5000 demo_cpu = (old, c1)" by fastforce
  obtain x c2 where 2: "context_switch old (c1\<lparr>c_rbx := 77, c_rsp := 0x5038\<rparr>) = (x, c2)" by fastforce
  have old: "old = 0x8FD0" using 1 by (simp add: context_switch_def Let_def save_regs_stk demo_cpu_def)
  have d: "c_rsp (c1\<lparr>c_rbx := 77, c_rsp := 0x5038\<rparr>) - 8 * of_nat (Suc j) \<noteq> old + 8 * of_nat i" if "i < 7" "j < 6" for i j
  proof -
    have "i \<in> {0, 1, 2, 3, 4, 5, 6}" "j \<in> {0, 1, 2, 3, 4, 5}" using that by auto
    then show ?thesis unfolding old by (elim insertE; simp)
  qed
  from context_switch_roundtrip [OF 1 _ d 2] show ?thesis using 1 2 by (simp add: demo_cpu_def)
qed

text \<open>a new task starts at its entry. On the frame \<open>push_task\<close> builds, the first switch to the task
  and the trampoline reach the entry with the callee-saved registers zero, interrupts on, the entry in
  \<open>rdi\<close>, and the stack pointer 8 below a multiple of 16, as the calling convention wants it; the frame
  lies in the task's own stack.\<close>
theorem fresh_task_starts:
  assumes "unat base + 0x4000 < 2 ^ 64" "push_task base tramp start name cr3 pr s = (pid, s1)"
      "c_stk d = c_stk (s_cpu s1)" "base + 0x4000 \<le> c_rsp d - 48 \<or> c_rsp d \<le> base" "48 \<le> c_rsp d"
      "context_switch (t_rsp (s_tasks s1 ! pid)) d = (x, c)"
  shows "c_rip c = tramp \<and> c_rip (task_trampoline hang c) = start \<and> c_rdi (task_trampoline hang c) = start
     \<and> c_if (task_trampoline hang c) \<and> unat (c_rsp (task_trampoline hang c)) mod 16 = 8
     \<and> c_rbx c = 0 \<and> c_rbp c = 0 \<and> c_r12 c = 0 \<and> c_r13 c = 0 \<and> c_r14 c = 0 \<and> c_r15 c = 0
     \<and> pid = length (s_tasks s) \<and> base \<le> t_rsp (s_tasks s1 ! pid) \<and> t_rsp (s_tasks s1 ! pid) + 64 \<le> base + 0x4000"
proof -
  define x0 where "x0 = t_rsp (s_tasks s1 ! pid)"
  obtain x1 c0 where fb': "fabricate base tramp start (s_cpu s) = (x1, c0)" by fastforce
  then have pid: "pid = length (s_tasks s)" and st: "c_stk (s_cpu s1) = c_stk c0" and "x1 = x0"
    using assms(2) by (auto simp: push_task_def Let_def x0_def)
  then have fb: "fabricate base tramp start (s_cpu s) = (x0, c0)" using fb' by simp
  note F = fabricate_frame [OF assms(1) fb]
  have far: "c_rsp d - 8 * of_nat (Suc j) \<noteq> x0 + 8 * of_nat i" if "j < 6" "i < 8" for i j
  proof -
    have "unat (8 * of_nat (Suc j) :: u64) = 8 * Suc j" using that by (simp add: unat_word_ariths unat_of_nat del: of_nat_Suc)
    moreover have "48 \<le> unat (c_rsp d)" using assms(5) by (simp add: word_le_nat_alt)
    ultimately have u: "unat (c_rsp d - 8 * of_nat (Suc j)) = unat (c_rsp d) - 8 * Suc j"
      using that by (subst unat_sub) (simp_all add: word_le_nat_alt)
    have v: "unat (x0 + 8 * of_nat i) = unat x0 + 8 * i"
      using that F(3) assms(1) by (simp add: unat_word_ariths unat_of_nat)
    have w: "unat (c_rsp d - 48) = unat (c_rsp d) - 48" "unat (base + 0x4000) = unat base + 0x4000"
      using assms(1,5) by (simp_all add: unat_sub unat_word_ariths)
    show ?thesis
    proof
      assume "c_rsp d - 8 * of_nat (Suc j) = x0 + 8 * of_nat i"
      then have "unat (c_rsp d) - 8 * Suc j = unat x0 + 8 * i" using u v by simp
      then show False using assms(4) F(2,3) that \<open>48 \<le> unat (c_rsp d)\<close> by (auto simp: word_le_nat_alt w)
    qed
  qed
  have W: "c_stk (save_regs d) (x0 + 8 * of_nat i) = c_stk c0 (x0 + 8 * of_nat i)" if "i < 8" for i
    using save_regs_other [of d "x0 + 8 * of_nat i"] far that assms(3) st by simp
  have c: "c = load_regs ((save_regs d)\<lparr>c_rsp := x0\<rparr>)" using assms(6) by (simp add: context_switch_def Let_def x0_def)
  have R: "c_rip c = tramp" "c_rbx c = 0" "c_rbp c = 0" "c_r12 c = 0" "c_r13 c = 0" "c_r14 c = 0" "c_r15 c = 0"
      "c_rsp c = x0 + 56" "c_stk c (x0 + 56) = start"
    using W [of 0] W [of 1] W [of 2] W [of 3] W [of 4] W [of 5] W [of 6] W [of 7] F(5) [of 0] F(5) [of 1] F(5) [of 2] F(5) [of 3]
      F(5) [of 4] F(5) [of 5] F(6,7) by (simp_all add: c load_regs_fields)
  have "unat (x0 + 56) = unat x0 + 56" using F(3) assms(1) by (simp add: unat_word_ariths)
  moreover obtain k where "unat x0 = 16 * k" using F(1) by auto
  ultimately have "unat (x0 + 56) mod 16 = 8" by simp
  moreover have "unat (x0 + 64) = unat x0 + 64" "unat (base + 0x4000) = unat base + 0x4000"
    using F(4) assms(1) by (simp_all add: unat_word_ariths)
  then have "base \<le> x0" "x0 + 64 \<le> base + 0x4000" using F(2,3) by (simp_all add: word_le_nat_alt)
  ultimately show ?thesis unfolding x0_def [symmetric]
    using R pid by (simp add: add.commute task_trampoline_def cpu_pop_def cpu_push_def Let_def)
qed

theorem fresh_task_starts_witness:
  "let (pid, s1) = push_task 0x50000 0x101000 0x105000 ''t'' 0x1000 None demo_sched;
       (x, c) = context_switch (t_rsp (s_tasks s1 ! pid)) (s_cpu s1)
   in c_rip c = 0x101000 \<and> c_rip (task_trampoline 0 c) = 0x105000"
proof -
  obtain pid s1 where 1: "push_task 0x50000 0x101000 0x105000 ''t'' 0x1000 None demo_sched = (pid, s1)" by fastforce
  obtain x c where 2: "context_switch (t_rsp (s_tasks s1 ! pid)) (s_cpu s1) = (x, c)" by fastforce
  have "c_rsp (s_cpu s1) = 0x9000"
    using 1 by (auto simp: push_task_def fabricate_def put_word_def Let_def demo_sched_def task_init_def task_spawn_def
        demo_cpu_def upt_rec split: prod.splits)
  then show ?thesis using fresh_task_starts [OF _ 1 refl _ _ 2, of 0] 1 2 by simp
qed

text \<open>\<open>remove_process\<close> loses track of the running task. The last task takes the free place and the
  others stay where they are, yet for a removed task in front of the running one \<open>CURRENT\<close> is moved down
  by one; so the table still has the running task at \<open>CURRENT\<close> exactly when the removed task was behind
  the running one or the running one was the last.\<close>
theorem remove_process_current:
  assumes "distinct (s_tasks s)" "s_current s < length (s_tasks s)" "pid < length (s_tasks s)" "pid \<noteq> s_current s"
      "remove_process pid s = (r, s')"
  shows "r = t_process (s_tasks s ! pid) \<and> set (s_tasks s') = set (s_tasks s) - {s_tasks s ! pid}
     \<and> (s_tasks s' ! s_current s' = s_tasks s ! s_current s \<longleftrightarrow> s_current s < pid \<or> s_current s + 1 = length (s_tasks s))"
proof -
  define xs c where "xs = s_tasks s" and "c = s_current s"
  have A: "distinct xs" "c < length xs" "pid < length xs" "pid \<noteq> c" using assms(1-4) by (simp_all add: xs_def c_def)
  note S = swap_remove_spec [OF A(1,3)]
  have r: "r = t_process (xs ! pid)" "s_tasks s' = snd (swap_remove pid xs)"
      "s_current s' = (if c = length xs - 1 then pid else if pid < c then c - 1 else c)"
    using assms(2-5) S(1) by (auto simp: remove_process_def Let_def xs_def c_def swap_remove_def split: if_splits)
  have ne: "last xs = xs ! c \<longleftrightarrow> c + 1 = length xs"
  proof -
    have "last xs = xs ! (length xs - 1)" using A(2) by (intro last_conv_nth) auto
    then show ?thesis using nth_eq_iff_index_eq [OF A(1), of "length xs - 1" c] A(2) by auto
  qed
  have "s_tasks s' ! s_current s' = xs ! c \<longleftrightarrow> c < pid \<or> c + 1 = length xs"
  proof (cases "c + 1 = length xs")
    case True
    then have "pid + 1 < length xs" "s_current s' = pid" using A r(3) by auto
    then show ?thesis using S(3) [of pid] ne True r(2) by simp
  next
    case last: False
    then have cur: "s_current s' = (if pid < c then c - 1 else c)" using A(2) r(3) by auto
    show ?thesis
    proof (cases "pid < c")
      case True
      then have "s_tasks s' ! s_current s' = (if c - 1 = pid then last xs else xs ! (c - 1))"
        using S(3) [of "c - 1"] A(2) cur r(2) by simp
      moreover have "xs ! (c - 1) \<noteq> xs ! c" using A True by (simp add: nth_eq_iff_index_eq)
      ultimately show ?thesis using ne last True by simp
    next
      case False
      then show ?thesis using S(3) [of c] A cur last r(2) by simp
    qed
  qed
  then show ?thesis using r S(2) by (simp flip: xs_def c_def)
qed

theorem remove_process_current_witness:
  "s_tasks (snd (remove_process 1 (demo_sched\<lparr>s_current := 2\<rparr>))) ! s_current (snd (remove_process 1 (demo_sched\<lparr>s_current := 2\<rparr>)))
     \<noteq> s_tasks demo_sched ! 2"
proof -
  have "map t_name (s_tasks demo_sched) = [''main'', ''bg-0'', ''bg-1'', ''bg-2'']"
    by (simp add: demo_sched_def task_init_def task_spawn_def push_task_def Let_def split: prod.split)
  then have "distinct (map t_name (s_tasks demo_sched))" by simp
  then have "distinct (s_tasks (demo_sched\<lparr>s_current := 2\<rparr>))" by (simp add: distinct_map)
  then show ?thesis using remove_process_current [of "demo_sched\<lparr>s_current := 2\<rparr>" 1] demo_tasks(1)
    by (cases "remove_process 1 (demo_sched\<lparr>s_current := 2\<rparr>)") auto
qed

end
