(* ===== verification/Decimal.thy ===== *)
theory Decimal
  imports Machine
begin

text \<open>
  Decimal text, as Rust's \<open>to_string\<close> and \<open>parse\<close> on integers produce and accept it: the library
  behaviour the calculator and the session store rely on. The round trip is proved once here.
\<close>

definition digit :: "nat \<Rightarrow> char" where
  "digit d = char_of (48 + d)"

definition is_digit :: "char \<Rightarrow> bool" where
  "is_digit c \<longleftrightarrow> 48 \<le> (of_char c :: nat) \<and> (of_char c :: nat) \<le> 57"

definition digit_val :: "char \<Rightarrow> nat" where
  "digit_val c = of_char c - 48"

fun nat_str :: "nat \<Rightarrow> string" where
  "nat_str n = (if n < 10 then [digit n] else nat_str (n div 10) @ [digit (n mod 10)])"

declare nat_str.simps [simp del]

definition int_str :: "int \<Rightarrow> string" where
  "int_str z = (if z < 0 then CHR ''-'' # nat_str (nat (- z)) else nat_str (nat z))"

definition dec_val :: "string \<Rightarrow> nat" where
  "dec_val s = foldl (\<lambda>v c. 10 * v + digit_val c) 0 s"

text \<open>\<open>FromStr\<close> for an unsigned type with \<open>lim\<close> values: digits with an optional plus sign, below the limit.\<close>

definition parse_digits :: "nat \<Rightarrow> string \<Rightarrow> nat option" where
  "parse_digits lim s = (if s \<noteq> [] \<and> list_all is_digit s \<and> dec_val s < lim then Some (dec_val s) else None)"

definition parse_unsigned :: "nat \<Rightarrow> string \<Rightarrow> nat option" where
  "parse_unsigned lim s =
     (case s of [] \<Rightarrow> None | c # cs \<Rightarrow> if c = CHR ''+'' then parse_digits lim cs else parse_digits lim s)"

text \<open>\<open>FromStr\<close> for a signed type with values from \<open>- lim\<close> to \<open>lim - 1\<close>.\<close>

definition parse_signed :: "nat \<Rightarrow> string \<Rightarrow> int option" where
  "parse_signed lim s =
     (case s of [] \<Rightarrow> None
      | c # cs \<Rightarrow> if c = CHR ''+'' then map_option int (parse_digits lim cs)
                  else if c = CHR ''-'' then map_option (\<lambda>n. - int n) (parse_digits (lim + 1) cs)
                  else map_option int (parse_digits lim s))"

definition parse_i64 :: "string \<Rightarrow> int option" where
  "parse_i64 s = parse_signed (2 ^ 63) s"

definition parse_i32 :: "string \<Rightarrow> int option" where
  "parse_i32 s = parse_signed (2 ^ 31) s"

lemma of_char_digit: "d < 10 \<Longrightarrow> (of_char (digit d) :: nat) = 48 + d"
  by (simp add: digit_def)

lemma digit_ok: "d < 10 \<Longrightarrow> is_digit (digit d) \<and> digit_val (digit d) = d"
  by (simp add: is_digit_def digit_val_def of_char_digit)

lemma is_digit_iff: "is_digit c \<longleftrightarrow> (\<exists>d < 10. c = digit d)"
proof
  assume c: "is_digit c"
  then have "c = digit (of_char c - 48)" by (simp add: digit_def is_digit_def)
  moreover have "of_char c - (48 :: nat) < 10" using c unfolding is_digit_def by linarith
  ultimately show "\<exists>d < 10. c = digit d" by blast
qed (auto simp: digit_ok)

lemma digit_not_sign: "is_digit c \<Longrightarrow> c \<noteq> CHR ''+'' \<and> c \<noteq> CHR ''-''"
  by (auto simp: is_digit_def)

lemma dec_val_snoc [simp]: "dec_val (s @ [c]) = 10 * dec_val s + digit_val c" "dec_val [] = 0"
  by (simp_all add: dec_val_def)

lemma nat_str_ok: "nat_str n \<noteq> [] \<and> list_all is_digit (nat_str n) \<and> dec_val (nat_str n) = n"
proof (induction n rule: nat_str.induct)
  case (1 n)
  show ?case
  proof (cases "n < 10")
    case True
    then show ?thesis by (simp add: nat_str.simps [of n] digit_ok dec_val_def)
  next
    case False
    with "1.IH" show ?thesis by (simp add: nat_str.simps [of n] digit_ok)
  qed
qed

lemma nat_str_hd: "\<exists>c cs. nat_str n = c # cs \<and> is_digit c"
  using nat_str_ok [of n] by (cases "nat_str n") auto

lemma parse_nat_str: "n < lim \<Longrightarrow> parse_digits lim (nat_str n) = Some n"
  by (simp add: parse_digits_def nat_str_ok)

lemma parse_unsigned_str: "n < lim \<Longrightarrow> parse_unsigned lim (nat_str n) = Some n"
  using nat_str_hd [of n] parse_nat_str [of n lim] by (auto simp: parse_unsigned_def dest: digit_not_sign)

lemma parse_signed_str:
  assumes "- int lim \<le> z" "z < int lim"
  shows "parse_signed lim (int_str z) = Some z"
proof (cases "z < 0")
  case True
  with assms have "parse_digits (lim + 1) (nat_str (nat (- z))) = Some (nat (- z))"
    by (intro parse_nat_str) simp
  with True show ?thesis by (simp add: int_str_def parse_signed_def)
next
  case False
  with assms have "parse_digits lim (nat_str (nat z)) = Some (nat z)" by (intro parse_nat_str) simp
  moreover obtain c cs where "nat_str (nat z) = c # cs" "is_digit c" using nat_str_hd by blast
  ultimately show ?thesis using False by (auto simp: int_str_def parse_signed_def dest: digit_not_sign)
qed

lemma parse_i64_str: "- (2 ^ 63) \<le> z \<Longrightarrow> z < 2 ^ 63 \<Longrightarrow> parse_i64 (int_str z) = Some z"
  using parse_signed_str [of "2 ^ 63" z] by (simp add: parse_i64_def)

lemma parse_signed_range: "0 < lim \<Longrightarrow> parse_signed lim s = Some z \<Longrightarrow> - int lim \<le> z \<and> z < int lim"
  by (auto simp: parse_signed_def parse_digits_def split: list.splits if_splits)

lemma parse_unsigned_range: "parse_unsigned lim s = Some n \<Longrightarrow> n < lim"
  by (auto simp: parse_unsigned_def parse_digits_def split: list.splits if_splits)

lemma parse_i64_digits:
  assumes "s \<noteq> []" "list_all is_digit s"
  shows "parse_i64 s = (if dec_val s < 2 ^ 63 then Some (int (dec_val s)) else None)"
  using assms by (cases s) (auto simp: parse_i64_def parse_signed_def parse_digits_def dest: digit_not_sign)

lemma dec_val_bound: "list_all is_digit s \<Longrightarrow> dec_val s < 10 ^ length s"
proof (induction s rule: rev_induct)
  case (snoc c s)
  then have "digit_val c < 10" by (auto simp: is_digit_iff digit_ok)
  with snoc show ?case by simp
qed simp

lemma nat_str_length: "n < 10 ^ k \<Longrightarrow> 0 < k \<Longrightarrow> length (nat_str n) \<le> k"
proof (induction n arbitrary: k rule: nat_str.induct)
  case (1 n)
  show ?case
  proof (cases "n < 10")
    case True
    with "1.prems" show ?thesis by (simp add: nat_str.simps [of n])
  next
    case False
    then have "k \<noteq> 0" "k \<noteq> 1" using "1.prems" by auto
    then obtain j where j: "k = Suc j" "0 < j" by (cases k) auto
    with "1.prems" have "n div 10 < 10 ^ j" by (simp add: div_less_iff_less_mult mult.commute)
    with "1.IH" [OF False, of j] j False show ?thesis by (simp add: nat_str.simps [of n])
  qed
qed

lemma nat_str_no_leading_zero: "0 < n \<Longrightarrow> hd (nat_str n) \<noteq> CHR ''0''"
proof (induction n rule: nat_str.induct)
  case (1 n)
  show ?case
  proof (cases "n < 10")
    case True
    have "digit n \<noteq> CHR ''0''" using of_char_digit [OF True] "1.prems" by auto
    with True show ?thesis by (simp add: nat_str.simps [of n])
  next
    case False
    with "1.IH" nat_str_ok [of "n div 10"] show ?thesis by (simp add: nat_str.simps [of n])
  qed
qed

end
