(* ===== verification/Loader.thy ===== *)
theory Loader
  imports Process_Memory Task Elf Allocator Decimal
begin

text \<open>
  \<open>src/src/process.rs\<close>, the loader: building the address space of a new process from the kernel's
  tables, loading the segments of an executable and of its interpreter, the native stack with the exit
  trampoline, the Linux stack with arguments, environment and auxiliary vector, and the two spawn
  functions that compose them and give everything back when a step fails.
\<close>

section \<open>Operations on a process under construction\<close>

type_synonym 'a lop = "(process \<times> kern, string, 'a) op"

text \<open>What the loader reads of the rest of the kernel: the heap, the kernel's tables, the clock, and the
  addresses of the new kernel stack and of the code a task starts with.\<close>

record loader_env =
  e_heap :: flist
  e_kernel_pml4 :: u64
  e_ticks :: u64
  e_stack :: u64
  e_tramp :: u64
  e_start :: u64

definition from_result :: "'a result \<Rightarrow> 'a lop" where
  "from_result r st = map_option (\<lambda>x. (x, st)) r"

definition on_proc :: "(process \<Rightarrow> process) \<Rightarrow> unit lop" where
  "on_proc f = (\<lambda>(p, k). Some (Inr (), f p, k))"

definition on_kern :: "(kern \<Rightarrow> kern) \<Rightarrow> unit lop" where
  "on_kern f = (\<lambda>(p, k). Some (Inr (), p, f k))"

definition or_fail :: "string \<Rightarrow> bool pop \<Rightarrow> unit lop" where
  "or_fail e m st = do { (b, st') \<leftarrow> m st; Some (if b then Inr () else Inl e, st') }"

definition pages_or_fail :: "usize \<Rightarrow> usize lop" where
  "pages_or_fail n st = do {
     (r, st') \<leftarrow> alloc_pages n st;
     Some (case r of None \<Rightarrow> Inl ''out of memory'' | Some phys \<Rightarrow> Inr phys, st') }"

section \<open>Position and validation\<close>

definition rebase :: "u64 \<Rightarrow> program \<Rightarrow> program" where
  "rebase b prog = prog\<lparr>entry := entry prog + b, segments := map (\<lambda>s. s\<lparr>vaddr := vaddr s + b\<rparr>) (segments prog)\<rparr>"

definition apply_pie_bias :: "program \<Rightarrow> program" where
  "apply_pie_bias prog = (if \<not> is_pie prog then prog else rebase PIE_LOAD_BASE prog)"

definition validate_segment :: "u64 \<Rightarrow> u64 \<Rightarrow> segment \<Rightarrow> unit result" where
  "validate_segment heap_start heap_end sg =
     (let start = vaddr sg
      in and_then (ok_or ''segment range overflow'' (checked_add start (memsz sg))) (\<lambda>e.
         if e \<le> start then Err ''empty segment''
         else if start < MIN_SEGMENT_VADDR then Err ''segment below 2 MiB''
         else if start < heap_end + 1024 * 1024
               \<and> e > (if heap_start < 1024 * 1024 then 0 else heap_start - 1024 * 1024)
           then Err ''segment overlaps kernel heap''
         else if e > IDENTITY_MAP_END then Err ''segment beyond 4 GiB''
         else if start < USER_EXIT_STUB_VIRT + PAGE_SIZE \<and> e > USER_STACK_LOW_LIMIT
           then Err ''segment overlaps the reserved process stack region''
         else Ok ()))"

definition validate_segments :: "flist \<Rightarrow> program \<Rightarrow> unit result" where
  "validate_segments hp prog =
     (let (heap_start, heap_end) = heap_range hp
      in loop_result (\<lambda>sg _. validate_segment (of_nat heap_start) (of_nat heap_end) sg) (segments prog) ())"

section \<open>The address space\<close>

text \<open>\<open>write_bytes\<close> on a whole frame, seen as bytes and as entries; \<open>copy_nonoverlapping\<close> of 512 entries;
  a store of an entry.\<close>

definition zero_frame :: "usize \<Rightarrow> kern \<Rightarrow> kern" where
  "zero_frame f k =
     (upd_mem (write_bytes f 0 FRAME_SIZE) k)\<lparr>k_pt := (\<lambda>a. if f \<le> a \<and> a < f + FRAME_SIZE then 0 else k_pt k a)\<rparr>"

definition copy_entries :: "usize \<Rightarrow> usize \<Rightarrow> kern \<Rightarrow> kern" where
  "copy_entries src dst k =
     k\<lparr>k_pt := (\<lambda>a. if dst \<le> a \<and> a < dst + 512 * 8 then k_pt k (src + (a - dst)) else k_pt k a)\<rparr>"

definition put_entry :: "usize \<Rightarrow> u64 \<Rightarrow> kern \<Rightarrow> kern" where
  "put_entry a v k = k\<lparr>k_pt := (k_pt k)(a := v)\<rparr>"

definition entry_ptr :: "u64 \<Rightarrow> usize" where
  "entry_ptr e = unat (e AND NOT 0xFFF)"

definition read_entry :: "usize \<Rightarrow> u64 lop" where
  "read_entry a = gets (\<lambda>(p, k). k_pt k a)"

definition alloc_frame :: "usize lop" where
  "alloc_frame = (\<lambda>(p, k). do {
     (r, q) \<leftarrow> frame_alloc (k_pmm k);
     case r of
       None \<Rightarrow> Some (Inl ''out of memory'', p, set_pmm q k)
     | Some f \<Rightarrow> Some (Inr f, p\<lparr>p_frames := p_frames p @ [f]\<rparr>, zero_frame f (set_pmm q k)) })"

definition copy_pde :: "usize \<Rightarrow> usize \<Rightarrow> nat \<Rightarrow> unit lop" where
  "copy_pde kernel_pd pd j =
     bnd (read_entry (ent kernel_pd j)) (\<lambda>pde.
       if pde AND PAGE_PRESENT = 0 then ret ()
       else if pde AND PS_BIT \<noteq> 0 then on_kern (put_entry (ent pd j) pde)
       else bnd alloc_frame (\<lambda>pt.
            bnd (on_kern (copy_entries (entry_ptr pde) pt)) (\<lambda>_.
            on_kern (put_entry (ent pd j) (of_nat pt OR (pde AND 0xFFF))))))"

definition copy_pdpte :: "usize \<Rightarrow> usize \<Rightarrow> nat \<Rightarrow> unit lop" where
  "copy_pdpte kernel_pdpt pdpt i =
     bnd (read_entry (ent kernel_pdpt i)) (\<lambda>e.
       if e AND PAGE_PRESENT = 0 then ret ()
       else if e AND PS_BIT \<noteq> 0 then fail ''unexpected 1 GiB page in boot map''
       else bnd alloc_frame (\<lambda>pd.
            bnd (loop_op (copy_pde (entry_ptr e) pd) [0..<512]) (\<lambda>_.
            on_kern (put_entry (ent pdpt i) (of_nat pd OR (e AND 0xFFF))))))"

definition build_address_space :: "u64 \<Rightarrow> u64 lop" where
  "build_address_space kpml4 =
     bnd alloc_frame (\<lambda>pml4.
     bnd alloc_frame (\<lambda>pdpt.
     bnd (on_kern (copy_entries (unat kpml4) pml4)) (\<lambda>_.
     bnd (on_kern (put_entry (ent pml4 0) (of_nat pdpt OR PAGE_PRESENT OR PAGE_WRITABLE))) (\<lambda>_.
     bnd (read_entry (ent (unat kpml4) 0)) (\<lambda>e.
     bnd (loop_op (copy_pdpte (entry_ptr e) pdpt) [0..<512]) (\<lambda>_.
     ret (of_nat pml4)))))))"

section \<open>Segments\<close>

definition seg_start :: "segment \<Rightarrow> u64" where
  "seg_start s = vaddr s AND NOT (PAGE_SIZE - 1)"

definition seg_end :: "segment \<Rightarrow> u64" where
  "seg_end s = align_up64 (vaddr s + memsz s) PAGE_SIZE"

definition on_page :: "u64 \<Rightarrow> segment \<Rightarrow> bool" where
  "on_page v s \<longleftrightarrow> vaddr s < v + PAGE_SIZE \<and> vaddr s + memsz s > v"

definition page_flags :: "segment list \<Rightarrow> u64 \<Rightarrow> u64" where
  "page_flags segs v = user_flags (list_ex (\<lambda>s. writable s \<and> on_page v s) segs) (list_ex (\<lambda>s. executable s \<and> on_page v s) segs)"

definition load_page :: "u64 \<Rightarrow> segment list \<Rightarrow> u64 \<Rightarrow> usize \<Rightarrow> nat \<Rightarrow> unit lop" where
  "load_page pml4 segs overall_start phys i =
     (let page_vaddr = overall_start + of_nat i * PAGE_SIZE;
          page_phys = of_nat (phys + i * FRAME_SIZE)
      in or_fail ''failed to map segment''
           (map_in pml4 page_vaddr page_phys PAGE_SIZE (page_flags segs page_vaddr)))"

text \<open>The copy reads through a pointer into the file: a range outside it has no value.\<close>

definition copy_segment :: "u8 list \<Rightarrow> u64 \<Rightarrow> usize \<Rightarrow> segment \<Rightarrow> unit lop" where
  "copy_segment data overall_start phys s =
     (if filesz s = 0 then ret ()
      else bnd (panics (\<lambda>_. slice data (unat (file_offset s)) (unat (filesz s)))) (\<lambda>src.
           on_kern (upd_mem (put_bytes (phys + unat (vaddr s - overall_start)) src))))"

definition load_segments :: "u64 \<Rightarrow> segment list \<Rightarrow> u8 list \<Rightarrow> unit lop" where
  "load_segments pml4 segs data =
     (case segs of
        [] \<Rightarrow> ret ()
      | s0 # rest \<Rightarrow>
          let overall_start = fold (\<lambda>s. min (seg_start s)) rest (seg_start s0);
              overall_end = fold (\<lambda>s. max (seg_end s)) rest (seg_end s0);
              len = overall_end - overall_start;
              pages = unat (len div PAGE_SIZE)
          in bnd (pages_or_fail pages) (\<lambda>phys.
             bnd (loop_op (load_page pml4 segs overall_start phys) [0..<pages]) (\<lambda>_.
             bnd (on_kern (upd_mem (write_bytes phys 0 (unat len)))) (\<lambda>_.
             bnd (loop_op (copy_segment data overall_start phys) segs) (\<lambda>_.
             on_proc (add_mapping \<lparr>m_vaddr = overall_start, m_phys = of_nat phys, m_len = len, m_shm_id = None\<rparr>))))))"

section \<open>The native stack\<close>

definition SYS_EXIT :: u64 where "SYS_EXIT = 1"

definition exit_stub :: "u8 list" where
  "exit_stub = [0xB8, ucast SYS_EXIT, 0, 0, 0, 0x0F, 0x05, 0xEB, 0xFE]"

text \<open>The page of the exit trampoline, and the return address at the top of the stack.\<close>

definition map_exit_stub :: "u64 \<Rightarrow> unit lop" where
  "map_exit_stub pml4 =
     bnd alloc_frame (\<lambda>stub_phys.
     bnd (on_kern (upd_mem (put_bytes stub_phys exit_stub))) (\<lambda>_.
     bnd (or_fail ''failed to map exit trampoline''
            (map_in pml4 USER_EXIT_STUB_VIRT (of_nat stub_phys) PAGE_SIZE (PAGE_PRESENT OR PAGE_USER))) (\<lambda>_.
     on_proc (add_mapping \<lparr>m_vaddr = USER_EXIT_STUB_VIRT, m_phys = of_nat stub_phys, m_len = PAGE_SIZE, m_shm_id = None\<rparr>))))"

definition push_return :: "u64 \<Rightarrow> unit lop" where
  "push_return stack_phys =
     (let initial_rsp = USER_STACK_TOP - 8;
          offset = initial_rsp - USER_STACK_BASE
      in bnd (on_kern (upd_mem (put_bytes (unat (stack_phys + offset)) (to_le 8 (unat USER_EXIT_STUB_VIRT))))) (\<lambda>_.
         on_proc (\<lambda>p. p\<lparr>p_user_rsp := initial_rsp\<rparr>)))"

definition setup_user_stack :: "u64 \<Rightarrow> unit lop" where
  "setup_user_stack pml4 =
     bnd init_stack_backing (\<lambda>_.
     bnd (gets (\<lambda>(p, k). stack_phys_for p USER_STACK_BASE)) (\<lambda>stack_phys.
     bnd (or_fail ''failed to map user stack''
            (map_in pml4 USER_STACK_BASE stack_phys (USER_STACK_PAGES * PAGE_SIZE) USER_RW)) (\<lambda>_.
     bnd (map_exit_stub pml4) (\<lambda>_.
     push_return stack_phys))))"

section \<open>The Linux stack\<close>

definition AT_NULL :: u64 where "AT_NULL = 0"
definition AT_PHDR :: u64 where "AT_PHDR = 3"
definition AT_PHENT :: u64 where "AT_PHENT = 4"
definition AT_PHNUM :: u64 where "AT_PHNUM = 5"
definition AT_PAGESZ :: u64 where "AT_PAGESZ = 6"
definition AT_BASE :: u64 where "AT_BASE = 7"
definition AT_FLAGS :: u64 where "AT_FLAGS = 8"
definition AT_ENTRY :: u64 where "AT_ENTRY = 9"
definition AT_UID :: u64 where "AT_UID = 11"
definition AT_EUID :: u64 where "AT_EUID = 12"
definition AT_GID :: u64 where "AT_GID = 13"
definition AT_EGID :: u64 where "AT_EGID = 14"
definition AT_HWCAP :: u64 where "AT_HWCAP = 16"
definition AT_CLKTCK :: u64 where "AT_CLKTCK = 17"
definition AT_SECURE :: u64 where "AT_SECURE = 23"
definition AT_RANDOM :: u64 where "AT_RANDOM = 25"
definition AT_HWCAP2 :: u64 where "AT_HWCAP2 = 26"
definition AT_EXECFN :: u64 where "AT_EXECFN = 31"

lemmas auxv_consts = AT_NULL_def AT_PHDR_def AT_PHENT_def AT_PHNUM_def AT_PAGESZ_def AT_BASE_def AT_FLAGS_def
  AT_ENTRY_def AT_UID_def AT_EUID_def AT_GID_def AT_EGID_def AT_HWCAP_def AT_CLKTCK_def AT_SECURE_def
  AT_RANDOM_def AT_HWCAP2_def AT_EXECFN_def

definition push_cstr :: "u8 list \<Rightarrow> u8 list \<Rightarrow> u64 \<times> u8 list" where
  "push_cstr s data = (of_nat (length data), data @ s @ [0])"

fun push_cstrs :: "u8 list list \<Rightarrow> u8 list \<Rightarrow> u64 list \<times> u8 list" where
  "push_cstrs [] data = ([], data)"
| "push_cstrs (s # ss) data =
     (let (off, data1) = push_cstr s data; (offs, data2) = push_cstrs ss data1 in (off # offs, data2))"

text \<open>\<open>elf_bytes.get(a..b)\<close>.\<close>

definition get_range :: "'a list \<Rightarrow> nat \<Rightarrow> nat \<Rightarrow> 'a list option" where
  "get_range xs a b = (if a \<le> b then slice xs a (b - a) else None)"

definition phdr_in_segment :: "program \<Rightarrow> u64 option" where
  "phdr_in_segment prog =
     (let phdr_len = ucast (phentsize prog) * ucast (phnum prog)
      in map_option (\<lambda>s. vaddr s + (phoff prog - file_offset s))
           (find (\<lambda>s. file_offset s \<le> phoff prog \<and> phoff prog + phdr_len \<le> file_offset s + filesz s) (segments prog)))"

definition phdr_blob :: "u8 list \<Rightarrow> program \<Rightarrow> u8 list \<Rightarrow> (u64 option \<times> u8 list) result" where
  "phdr_blob elf_bytes prog data =
     (let phdr_len = ucast (phentsize prog) * ucast (phnum prog)
      in case phdr_in_segment prog of
           Some _ \<Rightarrow> Ok (None, data)
         | None \<Rightarrow>
             and_then (ok_or ''program header table outside file''
                         (get_range elf_bytes (unat (phoff prog)) (unat (phoff prog + phdr_len)))) (\<lambda>bytes.
             Ok (Some (of_nat (length data)), data @ bytes)))"

definition random_bytes :: "u64 \<Rightarrow> u8 list" where
  "random_bytes seed = map (\<lambda>i. ucast (drop_bit 33 (seed * 0x9E3779B97F4A7C15 + of_nat i))) [0..<16]"

definition auxv_base :: "program \<Rightarrow> u64 \<Rightarrow> (u64 \<times> u64) list" where
  "auxv_base prog at_base =
     [(AT_PHENT, ucast (phentsize prog)), (AT_PHNUM, ucast (phnum prog)), (AT_PAGESZ, PAGE_SIZE), (AT_BASE, at_base),
      (AT_FLAGS, 0), (AT_ENTRY, entry prog), (AT_UID, 0), (AT_EUID, 0), (AT_GID, 0), (AT_EGID, 0), (AT_HWCAP, 0),
      (AT_HWCAP2, 0), (AT_CLKTCK, 100), (AT_SECURE, 0),
      (AT_PHDR, case phdr_in_segment prog of None \<Rightarrow> 0 | Some v \<Rightarrow> v), (AT_RANDOM, 0)]"

definition set_val :: "nat \<Rightarrow> u64 \<Rightarrow> (u64 \<times> u64) list \<Rightarrow> (u64 \<times> u64) list" where
  "set_val i v xs = xs[i := (fst (xs ! i), v)]"

text \<open>The vector before the addresses are known, and the slots filled in once they are.\<close>

definition auxv_pairs :: "program \<Rightarrow> u64 \<Rightarrow> u64 option \<Rightarrow> (u64 \<times> u64) list" where
  "auxv_pairs prog at_base execfn_off =
     (let aux = auxv_base prog at_base
      in (case execfn_off of None \<Rightarrow> aux | Some _ \<Rightarrow> aux @ [(AT_EXECFN, 0)]) @ [(AT_NULL, 0)])"

definition fill_auxv ::
  "nat \<Rightarrow> u64 \<Rightarrow> u64 option \<Rightarrow> u64 \<Rightarrow> u64 option \<Rightarrow> (u64 \<times> u64) list \<Rightarrow> (u64 \<times> u64) list" where
  "fill_auxv n data_vaddr phdr_blob_off random_off execfn_off aux =
     (let phdr_idx = n - 2;
          random_idx = n - 1;
          execfn_idx = map_option (\<lambda>_. n) execfn_off;
          aux1 = (case phdr_blob_off of None \<Rightarrow> aux | Some off \<Rightarrow> set_val phdr_idx (data_vaddr + off) aux);
          aux2 = set_val random_idx (data_vaddr + random_off) aux1
      in case (execfn_idx, execfn_off) of
           (Some idx, Some off) \<Rightarrow> set_val idx (data_vaddr + off) aux2
         | _ \<Rightarrow> aux2)"

record linux_image =
  li_rsp :: u64
  li_table :: "u8 list"
  li_vaddr :: u64
  li_data :: "u8 list"

text \<open>The two passes that lay the stack out: the data the pointers refer to, and the table of words at the
  stack pointer.\<close>

definition linux_layout :: "u8 list \<Rightarrow> program \<Rightarrow> u64 \<Rightarrow> u64 \<Rightarrow> u8 list list \<Rightarrow> u8 list list \<Rightarrow> linux_image result" where
  "linux_layout elf_bytes prog at_base ticks argv envp =
     (let (argv_offsets, data1) = push_cstrs argv [];
          (envp_offsets, data2) = push_cstrs envp data1;
          execfn_off = (case argv_offsets of [] \<Rightarrow> None | x # _ \<Rightarrow> Some x)
      in and_then (phdr_blob elf_bytes prog data2) (\<lambda>(phdr_blob_off, data3).
         let random_off = of_nat (length data3);
             data = data3 @ random_bytes (ticks XOR entry prog);
             aux = auxv_pairs prog at_base execfn_off;
             table_words = 1 + (length argv + 1) + (length envp + 1) + length aux * 2;
             table_len = of_nat table_words * 8;
             total_len = table_len + of_nat (length data)
         in if total_len > USER_STACK_TOP then Err ''linux stack layout too large''
            else
              let final_rsp = (USER_STACK_TOP - total_len) AND NOT 0xF;
                  data_vaddr = final_rsp + table_len;
                  aux' = fill_auxv (length (auxv_base prog at_base)) data_vaddr phdr_blob_off random_off execfn_off aux;
                  words = [of_nat (length argv)] @ map (\<lambda>off. data_vaddr + off) argv_offsets @ [0]
                            @ map (\<lambda>off. data_vaddr + off) envp_offsets @ [0] @ concat (map (\<lambda>(t, v). [t, v]) aux')
              in Ok \<lparr>li_rsp = final_rsp, li_table = concat (map (\<lambda>w. to_le 8 (unat w)) words),
                     li_vaddr = data_vaddr, li_data = data\<rparr>))"

definition setup_linux_stack ::
  "u64 \<Rightarrow> u8 list \<Rightarrow> program \<Rightarrow> u64 \<Rightarrow> u64 \<Rightarrow> u8 list list \<Rightarrow> u8 list list \<Rightarrow> u64 lop" where
  "setup_linux_stack pml4 elf_bytes prog at_base ticks argv envp =
     bnd (from_result (linux_layout elf_bytes prog at_base ticks argv envp)) (\<lambda>li.
     let region_start = li_rsp li AND NOT (PAGE_SIZE - 1)
     in if region_start < USER_STACK_LOW_LIMIT then fail ''linux stack layout too large''
        else
          let region_len = align_up64 (USER_STACK_TOP - region_start) PAGE_SIZE
          in bnd init_stack_backing (\<lambda>_.
             bnd (gets (\<lambda>(p, k). stack_phys_for p region_start)) (\<lambda>phys.
             bnd (on_kern (upd_mem (put_bytes (unat (phys + (li_rsp li - region_start))) (li_table li)))) (\<lambda>_.
             bnd (on_kern (upd_mem (put_bytes (unat (phys + (li_vaddr li - region_start))) (li_data li)))) (\<lambda>_.
             bnd (or_fail ''failed to map linux-style stack'' (map_in pml4 region_start phys region_len USER_RW)) (\<lambda>_.
             bnd (on_proc (\<lambda>p. p\<lparr>p_stack_low := region_start\<rparr>)) (\<lambda>_.
             ret (li_rsp li))))))))"

section \<open>Spawning\<close>

definition new_process :: "program \<Rightarrow> abi \<Rightarrow> u64 \<Rightarrow> process" where
  "new_process prog ab heap_start =
     \<lparr>p_entry = unat (entry prog), p_user_rsp = 0, p_frames = [], p_mappings = [], p_state = Running, p_exit_info = None,
      p_inbox = None, p_fds = map (\<lambda>_. None) [0..<FIRST_FILE_FD], p_stack_low = USER_STACK_BASE, p_stack_phys_base = 0,
      p_abi = ab, p_heap_start = heap_start, p_heap_end = heap_start, p_mmap_next = MMAP_BASE, p_fs_base = 0\<rparr>"

definition parse_valid :: "loader_env \<Rightarrow> u8 list \<Rightarrow> program result" where
  "parse_valid env elf_bytes =
     and_then (elf_parse elf_bytes) (\<lambda>prog0.
     let prog = apply_pie_bias prog0
     in and_then (validate_segments (e_heap env) prog) (\<lambda>_. Ok prog))"

text \<open>The end of both spawn functions: a failed construction gives the process's frames back, a successful
  one becomes a task.\<close>

definition finish_spawn :: "loader_env \<Rightarrow> string \<Rightarrow> u64 lop \<Rightarrow> process \<Rightarrow> (sched \<times> kern, string, usize) op" where
  "finish_spawn env name body p0 = (\<lambda>(s, k). do {
     (r, p, k1) \<leftarrow> body (p0, k);
     case r of
       Inl e \<Rightarrow> do { k2 \<leftarrow> free_process p k1; Some (Inl e, s, k2) }
     | Inr pml4 \<Rightarrow>
         let (pid, s') = spawn_process (e_stack env) (e_tramp env) (e_start env) name pml4 p s
         in Some (Inr pid, s', k1) })"

definition spawn_body :: "loader_env \<Rightarrow> program \<Rightarrow> u8 list \<Rightarrow> u64 lop" where
  "spawn_body env prog elf_bytes =
     bnd (build_address_space (e_kernel_pml4 env)) (\<lambda>pml4.
     bnd (load_segments pml4 (segments prog) elf_bytes) (\<lambda>_.
     bnd (setup_user_stack pml4) (\<lambda>_. ret pml4)))"

definition spawn :: "loader_env \<Rightarrow> u8 list \<Rightarrow> string \<Rightarrow> (sched \<times> kern, string, usize) op" where
  "spawn env elf_bytes name st =
     (case parse_valid env elf_bytes of
        None \<Rightarrow> None
      | Some (Inl e) \<Rightarrow> Some (Inl e, st)
      | Some (Inr prog) \<Rightarrow> finish_spawn env name (spawn_body env prog elf_bytes) (new_process prog AbiNative 0) st)"

definition read_interp :: "u8 list \<Rightarrow> u8 list lop" where
  "read_interp path = (\<lambda>(p, k). do {
     (r, v) \<leftarrow> read_file path (k_vol k);
     Some (case r of Inl _ \<Rightarrow> Inl ''interpreter not found'' | Inr bytes \<Rightarrow> Inr bytes, p, k\<lparr>k_vol := v\<rparr>) })"

definition load_interp :: "loader_env \<Rightarrow> u64 \<Rightarrow> program \<Rightarrow> (u64 \<times> u64) lop" where
  "load_interp env pml4 prog =
     (case interp prog of
        None \<Rightarrow> ret (entry prog, 0)
      | Some path \<Rightarrow>
          bnd (read_interp path) (\<lambda>bytes.
          bnd (from_result (elf_parse bytes)) (\<lambda>ip0.
          let base = (if is_pie ip0 then INTERP_LOAD_BASE else 0);
              ip = (if is_pie ip0 then rebase INTERP_LOAD_BASE ip0 else ip0)
          in bnd (from_result (validate_segments (e_heap env) ip)) (\<lambda>_.
             bnd (load_segments pml4 (segments ip) bytes) (\<lambda>_.
             ret (entry ip, base))))))"

definition linux_body :: "loader_env \<Rightarrow> program \<Rightarrow> u8 list \<Rightarrow> u8 list list \<Rightarrow> u8 list list \<Rightarrow> u64 lop" where
  "linux_body env prog elf_bytes argv envp =
     bnd (build_address_space (e_kernel_pml4 env)) (\<lambda>pml4.
     bnd (load_segments pml4 (segments prog) elf_bytes) (\<lambda>_.
     bnd (load_interp env pml4 prog) (\<lambda>(ent', interp_base).
     bnd (on_proc (\<lambda>p. p\<lparr>p_entry := unat ent'\<rparr>)) (\<lambda>_.
     bnd (setup_linux_stack pml4 elf_bytes prog interp_base (e_ticks env) argv envp) (\<lambda>rsp.
     bnd (on_proc (\<lambda>p. p\<lparr>p_user_rsp := rsp\<rparr>)) (\<lambda>_.
     ret pml4))))))"

definition first_brk :: "segment list \<Rightarrow> u64 option" where
  "first_brk segs =
     (case segs of
        [] \<Rightarrow> None
      | s0 # rest \<Rightarrow> Some (fold (\<lambda>s. max (seg_end s + PAGE_SIZE)) rest (seg_end s0 + PAGE_SIZE)))"

definition spawn_linux ::
  "loader_env \<Rightarrow> u8 list \<Rightarrow> string \<Rightarrow> u8 list list \<Rightarrow> u8 list list \<Rightarrow> (sched \<times> kern, string, usize) op" where
  "spawn_linux env elf_bytes name argv envp st =
     (case parse_valid env elf_bytes of
        None \<Rightarrow> None
      | Some (Inl e) \<Rightarrow> Some (Inl e, st)
      | Some (Inr prog) \<Rightarrow>
          (case first_brk (segments prog) of
             None \<Rightarrow> Some (Inl ''no loadable segments'', st)
           | Some heap_start \<Rightarrow>
               finish_spawn env name (linux_body env prog elf_bytes argv envp) (new_process prog AbiLinux heap_start) st))"

section \<open>Waiting for a process\<close>

text \<open>\<open>wait\<close> sees a state of the task table and the clock each time it wakes; \<open>obs i\<close> is what it sees after
  \<open>i\<close> halts.\<close>

partial_function (option) wait_loop ::
  "usize \<Rightarrow> u64 \<Rightarrow> (nat \<Rightarrow> sched \<times> u64) \<Rightarrow> nat \<Rightarrow> exit_info option option" where
  "wait_loop pid deadline obs i =
     (case process_exit_status pid (fst (obs i)) of
        None \<Rightarrow> None
      | Some (Some info) \<Rightarrow> Some (Some info)
      | Some None \<Rightarrow> if snd (obs i) \<ge> deadline then Some None else wait_loop pid deadline obs (i + 1))"

definition wait :: "usize \<Rightarrow> u64 \<Rightarrow> u64 \<Rightarrow> (nat \<Rightarrow> sched \<times> u64) \<Rightarrow> exit_info option option" where
  "wait pid ticks timeout_ticks obs = wait_loop pid (ticks + timeout_ticks) obs 0"

fun hex_str :: "nat \<Rightarrow> string" where
  "hex_str n = (let d = (\<lambda>m. if m < 10 then digit m else char_of (87 + m))
                in if n < 16 then [d n] else hex_str (n div 16) @ [d (n mod 16)])"

declare hex_str.simps [simp del]

fun describe_exit :: "exit_info \<Rightarrow> string" where
  "describe_exit ExitNormal = ''exited normally''"
| "describe_exit (ExitPageFault cr2) = ''killed by page fault at 0x'' @ hex_str (unat cr2)"
| "describe_exit (ExitException vector) = ''killed by exception vector '' @ nat_str (unat vector)"

end
