(* ===== verification/Loader_Memory.thy ===== *)
theory Loader_Memory
  imports Loader
begin

text \<open>
  The memory of a new process: every step of the loader returns, keeps account of the frames it took and
  leaves the rest of the machine alone; the address space it builds translates as the kernel's does, and
  the process it delivers satisfies the invariant of \<open>Process_Memory\<close>.
\<close>

section \<open>Outcomes of an operation\<close>

text \<open>The operation returns, and \<open>Q\<close> holds of the result and the state after it.\<close>

definition runs :: "('s, 'e, 'a) op \<Rightarrow> 's \<Rightarrow> ('e + 'a \<Rightarrow> 's \<Rightarrow> bool) \<Rightarrow> bool" where
  "runs m s Q \<longleftrightarrow> (\<exists>r s'. m s = Some (r, s') \<and> Q r s')"

text \<open>\<open>outcome E P\<close>: an error satisfies \<open>E\<close>, a value \<open>P\<close>.\<close>

definition outcome :: "('s \<Rightarrow> bool) \<Rightarrow> ('a \<Rightarrow> 's \<Rightarrow> bool) \<Rightarrow> 'e + 'a \<Rightarrow> 's \<Rightarrow> bool" where
  "outcome E P r s = (case r of Inl e \<Rightarrow> E s | Inr x \<Rightarrow> P x s)"

lemma outcome_simps [simp]: "outcome E P (Inl e) s = E s" "outcome E P (Inr x) s = P x s"
  by (simp_all add: outcome_def)

lemma runs_bnd:
  "runs m s (outcome E P) \<Longrightarrow> (\<And>x s'. P x s' \<Longrightarrow> runs (f x) s' (outcome E R)) \<Longrightarrow> runs (bnd m f) s (outcome E R)"
proof -
  assume a: "runs m s (outcome E P)" and b: "\<And>x s'. P x s' \<Longrightarrow> runs (f x) s' (outcome E R)"
  obtain r s' where r: "m s = Some (r, s')" "outcome E P r s'" using a unfolding runs_def by blast
  then show ?thesis using b by (cases r) (auto simp: runs_def bnd_def)
qed

lemma runs_ret [simp]: "runs (ret x) s Q \<longleftrightarrow> Q (Inr x) s"
  by (simp add: runs_def ret_def)

lemma runs_fail [simp]: "runs (fail e) s Q \<longleftrightarrow> Q (Inl e) s"
  by (simp add: runs_def fail_def)

lemma runs_gets [simp]: "runs (gets f) s Q \<longleftrightarrow> Q (Inr (f s)) s"
  by (simp add: runs_def gets_def)

lemma runs_on_kern [simp]: "runs (on_kern f) (p, k) Q \<longleftrightarrow> Q (Inr ()) (p, f k)"
  by (simp add: runs_def on_kern_def)

lemma runs_on_proc [simp]: "runs (on_proc f) (p, k) Q \<longleftrightarrow> Q (Inr ()) (f p, k)"
  by (simp add: runs_def on_proc_def)

lemma runs_mono:
  "runs m s (outcome E P) \<Longrightarrow> (\<And>s. E s \<Longrightarrow> E' s) \<Longrightarrow> (\<And>x s. P x s \<Longrightarrow> P' x s) \<Longrightarrow> runs m s (outcome E' P')"
  unfolding runs_def outcome_def by (force split: sum.splits)

lemma runs_loop:
  assumes "\<And>j s. a \<le> j \<Longrightarrow> j < b \<Longrightarrow> I j s \<Longrightarrow> runs (f j) s (outcome E (\<lambda>_. I (Suc j)))" "I a s" "a \<le> b"
  shows "runs (loop_op f [a..<b]) s (outcome E (\<lambda>_. I b))"
  using assms(3,2,1)
proof (induction arbitrary: s rule: inc_induct)
  case (step n)
  have "[n..<b] = n # [Suc n..<b]" using step.hyps by (simp add: upt_conv_Cons)
  then show ?case using step by (auto intro!: runs_bnd [OF step.prems(2)])
qed simp

section \<open>Account of frames\<close>

definition empty_handed :: "process \<Rightarrow> bool" where
  "empty_handed p \<longleftrightarrow> p_frames p = [] \<and> p_mappings p = [] \<and> (\<forall>e \<in> set (p_fds p). e = None)"

text \<open>Since \<open>k0\<close> the process took its frames from the allocator, and nothing else changed.\<close>

definition tracks :: "kern \<Rightarrow> process \<times> kern \<Rightarrow> bool" where
  "tracks k0 st \<longleftrightarrow> (case st of (p, k) \<Rightarrow>
     pmm_inv (k_pmm k) \<and> own p \<subseteq> avail (k_pmm k0) \<and> avail (k_pmm k) = avail (k_pmm k0) - own p
     \<and> (\<forall>a \<in> set (p_frames p). 4096 dvd a) \<and> (\<forall>e \<in> set (p_fds p). e = None)
     \<and> pmm_managed (k_pmm k) = pmm_managed (k_pmm k0)
     \<and> (\<forall>b. b div 4096 \<notin> avail (k_pmm k0) \<longrightarrow> k_pt k b = k_pt k0 b \<and> k_mem k b = k_mem k0 b)
     \<and> endpoints (k_sock k) = endpoints (k_sock k0) \<and> listeners (k_sock k) = listeners (k_sock k0)
     \<and> sh_table (k_shm k) = sh_table (k_shm k0) \<and> k_vol k = k_vol k0 \<and> k_now k = k_now k0)"

lemma tracksD:
  assumes "tracks k0 (p, k)"
  shows "pmm_inv (k_pmm k)" "own p \<subseteq> avail (k_pmm k0)" "avail (k_pmm k) = avail (k_pmm k0) - own p"
    "b div 4096 \<notin> avail (k_pmm k0) \<Longrightarrow> k_pt k b = k_pt k0 b" "b div 4096 \<notin> avail (k_pmm k0) \<Longrightarrow> k_mem k b = k_mem k0 b"
    "pmm_managed (k_pmm k) = pmm_managed (k_pmm k0)"
  using assms by (auto simp: tracks_def)

lemma frame_bytes: "f * 4096 \<le> b \<and> b < f * 4096 + 4096 \<longleftrightarrow> b div 4096 = f" for b f :: nat
  by auto

lemma frame_alloc_cases:
  assumes "pmm_inv q"
  obtains "frame_alloc q = Some (None, q)"
    | f q' where "frame_alloc q = Some (Some (f * 4096), q')" "f \<in> avail q" "pmm_inv q'" "avail q' = avail q - {f}"
        "pmm_managed q' = pmm_managed q"
  using frame_alloc_spec [OF assms] by (auto simp: FRAME_SIZE_def pmm_managed_def)

text \<open>A fresh frame: it comes zeroed, and it is the only change.\<close>

definition fresh_frame :: "process \<times> kern \<Rightarrow> nat \<Rightarrow> process \<times> kern \<Rightarrow> bool" where
  "fresh_frame st f st' \<longleftrightarrow> (case (st, st') of ((p, k), (p', k')) \<Rightarrow>
     f \<in> avail (k_pmm k) \<and> p' = p\<lparr>p_frames := p_frames p @ [f * 4096]\<rparr> \<and> own p' = insert f (own p)
     \<and> k_pt k' = (\<lambda>b. if b div 4096 = f then 0 else k_pt k b) \<and> k_mem k' = (\<lambda>b. if b div 4096 = f then 0 else k_mem k b)
     \<and> pmm_inv (k_pmm k') \<and> avail (k_pmm k') = avail (k_pmm k) - {f} \<and> pmm_managed (k_pmm k') = pmm_managed (k_pmm k)
     \<and> endpoints (k_sock k') = endpoints (k_sock k) \<and> listeners (k_sock k') = listeners (k_sock k)
     \<and> sh_table (k_shm k') = sh_table (k_shm k) \<and> k_vol k' = k_vol k \<and> k_now k' = k_now k)"

lemma alloc_frame_runs:
  assumes "pmm_inv (k_pmm k)"
  shows "runs alloc_frame (p, k) (outcome (\<lambda>st. st = (p, k)) (\<lambda>a st. \<exists>f. a = f * 4096 \<and> fresh_frame (p, k) f st))"
  using assms
proof (cases rule: frame_alloc_cases)
  case 1
  then show ?thesis by (simp add: runs_def alloc_frame_def kern_simps)
next
  case (2 f q)
  have "own (p\<lparr>p_frames := p_frames p @ [f * 4096]\<rparr>) = insert f (own p)" by (auto simp: own_def)
  with 2 show ?thesis
    by (simp add: runs_def alloc_frame_def fresh_frame_def zero_frame_def kern_simps write_bytes_def FRAME_SIZE_def
        frame_bytes cong: if_cong)
qed

lemma tracks_fresh: "tracks k0 st \<Longrightarrow> fresh_frame st f st' \<Longrightarrow> tracks k0 st'"
  unfolding tracks_def fresh_frame_def by (auto split: prod.splits)

section \<open>Copying the kernel's tables\<close>

text \<open>The tables the kernel boots with: they map the low 4 GiB, through entries without high attribute
  bits, and nothing for ring 3.\<close>

definition kernel_ok :: "usize \<Rightarrow> kern \<Rightarrow> bool" where
  "kernel_ok r k \<longleftrightarrow> pmm_inv (k_pmm k) \<and> pt_ok (k_pt k) (avail (k_pmm k)) r
     \<and> (\<forall>x. 4 \<le> x \<longrightarrow> x < 512 \<longrightarrow> \<not> pte_present (E3 (k_pt k) r x))
     \<and> entry_ptr (E4 (k_pt k) r) = table_base (E4 (k_pt k) r)
     \<and> (\<forall>i < 4. entry_ptr (E3 (k_pt k) r i) = table_base (E3 (k_pt k) r i))
     \<and> (\<forall>i j. tbl_live (k_pt k) r (TPt i j) \<longrightarrow> entry_ptr (E2 (k_pt k) r i j) = table_base (E2 (k_pt k) r i j))
     \<and> (\<forall>i < 4. \<forall>j < 512. \<forall>x < 512. \<forall>a fl. walk_at (k_pt k) r i j x = Some (a, fl) \<longrightarrow> \<not> pte_user fl)"

lemma kernel_okD:
  assumes "kernel_ok r k"
  shows "pmm_inv (k_pmm k)" "pt_ok (k_pt k) (avail (k_pmm k)) r"
    "4 \<le> x \<Longrightarrow> x < 512 \<Longrightarrow> \<not> pte_present (E3 (k_pt k) r x)" "entry_ptr (E4 (k_pt k) r) = table_base (E4 (k_pt k) r)"
    "i < 4 \<Longrightarrow> entry_ptr (E3 (k_pt k) r i) = table_base (E3 (k_pt k) r i)"
    "tbl_live (k_pt k) r (TPt i j) \<Longrightarrow> entry_ptr (E2 (k_pt k) r i j) = table_base (E2 (k_pt k) r i j)"
    "i < 4 \<Longrightarrow> j < 512 \<Longrightarrow> x < 512 \<Longrightarrow> walk_at (k_pt k) r i j x = Some (a, fl) \<Longrightarrow> \<not> pte_user fl"
  using assms unfolding kernel_ok_def by blast+

text \<open>The entry that links a copied table, and the entries of the copy when the copies are in the frames \<open>L\<close>.\<close>

definition link_to :: "nat \<Rightarrow> u64 \<Rightarrow> u64" where
  "link_to f e = of_nat (f * 4096) OR (e AND 0xFFF)"

fun slot_val :: "(usize \<Rightarrow> u64) \<Rightarrow> usize \<Rightarrow> (tbl \<Rightarrow> nat) \<Rightarrow> tbl \<Rightarrow> nat \<Rightarrow> u64" where
  "slot_val m r L TRoot x = (if x = 0 then of_nat (L TPdpt * 4096) OR PAGE_PRESENT OR PAGE_WRITABLE else m (ent r x))"
| "slot_val m r L TPdpt x = (if pte_present (E3 m r x) then link_to (L (TPd x)) (E3 m r x) else 0)"
| "slot_val m r L (TPd i) x = (if \<not> pte_present (E2 m r i x) then 0 else if pte_big (E2 m r i x) then E2 m r i x
     else link_to (L (TPt i x)) (E2 m r i x))"
| "slot_val m r L (TPt i j) x = E1 m r i j x"

fun child :: "tbl \<Rightarrow> nat \<Rightarrow> tbl option" where
  "child TRoot x = (if x = 0 then Some TPdpt else None)"
| "child TPdpt x = Some (TPd x)"
| "child (TPd i) x = Some (TPt i x)"
| "child (TPt i j) x = None"

lemma slot_val_upd: "child t x \<noteq> Some u \<Longrightarrow> slot_val m r (L(u := f)) t x = slot_val m r L t x"
  by (cases t) auto

lemma bit_PAGE_WRITABLE: "bit PAGE_WRITABLE n \<longleftrightarrow> n = 1"
  using bit_exp_iff [where 'a = "64 word", of 1 n] by (auto simp: PAGE_WRITABLE_def)

lemma link_bits:
  assumes "f < 65536"
  shows "table_base (link_to f e) = f * 4096" "pte_present (link_to f e) = pte_present e" "pte_big (link_to f e) = pte_big e"
    "table_base (of_nat (f * 4096) OR PAGE_PRESENT OR PAGE_WRITABLE) = f * 4096"
    "pte_present (of_nat (f * 4096) OR PAGE_PRESENT OR PAGE_WRITABLE)"
proof -
  have m: "(0xFFF :: u64) = mask 12" by (simp add: mask_eq_exp_minus_1)
  have lo: "(of_nat (f * 4096) :: u64) = push_bit 12 (of_nat f)" by (simp add: push_bit_eq_mult)
  have b: "bit (link_to f e) n = bit e n" if "n < 12" for n
    unfolding link_to_def lo m by (use that in \<open>simp add: bit_or_iff bit_and_iff bit_push_bit_iff bit_mask_iff\<close>)
  then show "pte_present (link_to f e) = pte_present e" "pte_big (link_to f e) = pte_big e"
    by (simp_all add: pte_present_def pte_big_def)
  show "table_base (link_to f e) = f * 4096"
    unfolding link_to_def by (rule table_base_page) (use assms in \<open>auto simp: m bit_and_iff bit_mask_iff\<close>)
  show "table_base (of_nat (f * 4096) OR PAGE_PRESENT OR PAGE_WRITABLE) = f * 4096"
    by (rule table_base_page) (use assms in \<open>auto simp: bit_or_iff bit_PAGE_WRITABLE\<close>)
  show "pte_present (of_nat (f * 4096) OR PAGE_PRESENT OR PAGE_WRITABLE)"
    by (simp add: pte_present_def bit_or_iff)
qed

text \<open>Tables \<open>D\<close> of the copy have their frames, and the entries \<open>Q\<close> of them are filled.\<close>

definition copying :: "usize \<Rightarrow> kern \<Rightarrow> process \<Rightarrow> (tbl \<Rightarrow> nat) \<Rightarrow> tbl set \<Rightarrow> (tbl \<times> nat) set \<Rightarrow> process \<times> kern \<Rightarrow> bool" where
  "copying r k0 p0 L D Q st \<longleftrightarrow> (case st of (p, k) \<Rightarrow>
     tracks k0 (p, k) \<and> (\<exists>fs. p = p0\<lparr>p_frames := fs\<rparr>) \<and> inj_on L D \<and> own p = L ` D
     \<and> (\<forall>t \<in> D. \<forall>x < 512. k_pt k (ent (L t * 4096) x) = (if (t, x) \<in> Q then slot_val (k_pt k0) r L t x else 0)))"

lemma copyingI:
  assumes "tracks k0 (p, k)" "\<exists>fs. p = p0\<lparr>p_frames := fs\<rparr>" "inj_on L D" "own p = L ` D"
      "\<And>t x. t \<in> D \<Longrightarrow> x < 512 \<Longrightarrow> k_pt k (ent (L t * 4096) x) = (if (t, x) \<in> Q then slot_val (k_pt k0) r L t x else 0)"
  shows "copying r k0 p0 L D Q (p, k)"
  using assms unfolding copying_def prod.case by blast

lemma ent_frame [simp]: "x < 512 \<Longrightarrow> ent (f * 4096) x div 4096 = f"
  by (auto simp: ent_def)

lemma ent_frame_inj: "x < 512 \<Longrightarrow> y < 512 \<Longrightarrow> ent (f * 4096) x = ent (f' * 4096) y \<longleftrightarrow> f = f' \<and> x = y"
  using ent_inject [of "f * 4096" "f' * 4096" x y] by simp

lemma copying_alloc:
  assumes c: "copying r k0 p0 L D Q st" and t: "t \<notin> D" "\<And>u x. (u, x) \<in> Q \<Longrightarrow> u \<noteq> t \<and> child u x \<noteq> Some t"
  shows "runs alloc_frame st (outcome (tracks k0)
     (\<lambda>a st'. \<exists>f. a = f * 4096 \<and> copying r k0 p0 (L(t := f)) (insert t D) Q st'))"
proof -
  obtain p k where st: "st = (p, k)" by (cases st)
  have T: "tracks k0 (p, k)" "inj_on L D" "own p = L ` D" "\<exists>fs. p = p0\<lparr>p_frames := fs\<rparr>"
      "\<And>u x. u \<in> D \<Longrightarrow> x < 512 \<Longrightarrow> k_pt k (ent (L u * 4096) x) = (if (u, x) \<in> Q then slot_val (k_pt k0) r L u x else 0)"
    using c unfolding copying_def st by auto
  have "copying r k0 p0 (L(t := f)) (insert t D) Q st'" if "fresh_frame (p, k) f st'" for f st'
  proof -
    obtain p' k' where st': "st' = (p', k')" by (cases st')
    have F: "f \<in> avail (k_pmm k)" "p' = p\<lparr>p_frames := p_frames p @ [f * 4096]\<rparr>" "own p' = insert f (own p)"
        "k_pt k' = (\<lambda>b. if b div 4096 = f then 0 else k_pt k b)"
      using that unfolding fresh_frame_def st' prod.case by blast+
    have f: "f \<notin> L ` D" using F(1) T(3) tracksD(3) [OF T(1)] by blast
    have c: "k_pt k' (ent ((L(t := f)) u * 4096) x) = (if (u, x) \<in> Q then slot_val (k_pt k0) r (L(t := f)) u x else 0)"
      if "u \<in> insert t D" "x < 512" for u x
    proof (cases "u = t")
      case True
      then show ?thesis using that t(2) by (auto simp: F(4))
    next
      case False
      then have "u \<in> D" "L u \<noteq> f" using that f by auto
      then show ?thesis using False that T(5) t(2) by (auto simp: F(4) slot_val_upd)
    qed
    have i: "inj_on (L(t := f)) (insert t D)"
      using T(2) f t(1) by (simp add: inj_on_def) blast
    have o: "own p' = (L(t := f)) ` insert t D" using F(3) T(3) t(1) by auto
    have p: "\<exists>fs. p' = p0\<lparr>p_frames := fs\<rparr>" using T(4) F(2) by auto
    show ?thesis unfolding st' by (rule copyingI [OF tracks_fresh [OF T(1) that, unfolded st'] p i o c])
  qed
  then show ?thesis unfolding st
    by (intro runs_mono [OF alloc_frame_runs [OF tracksD(1) [OF T(1)], of p]]) (use T(1) in blast)+
qed

lemma copying_fill:
  assumes c: "copying r k0 p0 L D Q (p, k)" and t: "t \<in> D"
      and m: "\<And>b. b div 4096 \<noteq> L t \<Longrightarrow> m b = k_pt k b"
      and x: "\<And>x. x < 512 \<Longrightarrow> m (ent (L t * 4096) x) = (if (t, x) \<in> Q' then slot_val (k_pt k0) r L t x else 0)"
      and Q: "\<And>u x. u \<in> D \<Longrightarrow> u \<noteq> t \<Longrightarrow> x < 512 \<Longrightarrow> (u, x) \<in> Q' \<longleftrightarrow> (u, x) \<in> Q"
  shows "copying r k0 p0 L D Q' (p, k\<lparr>k_pt := m\<rparr>)"
proof -
  have T: "tracks k0 (p, k)" "inj_on L D" "own p = L ` D"
    using c unfolding copying_def by auto
  have "L t \<in> avail (k_pmm k0)" using T(3) t tracksD(2) [OF T(1)] by blast
  then have "m b = k_pt k0 b" if "b div 4096 \<notin> avail (k_pmm k0)" for b using m [of b] tracksD(4) [OF T(1) that] that by metis
  then have "tracks k0 (p, k\<lparr>k_pt := m\<rparr>)" using T(1) unfolding tracks_def by simp
  moreover have "m (ent (L u * 4096) x) = (if (u, x) \<in> Q' then slot_val (k_pt k0) r L u x else 0)"
    if "u \<in> D" "x < 512" for u x
  proof (cases "u = t")
    case False
    then have "L u \<noteq> L t" using T(2) t that(1) by (auto dest: inj_onD)
    then show ?thesis using c that False Q m unfolding copying_def by auto
  qed (simp add: x that)
  ultimately show ?thesis using c unfolding copying_def by auto
qed

lemma copying_put:
  assumes "copying r k0 p0 L D Q (p, k)" "t \<in> D" "y < 512" "v = slot_val (k_pt k0) r L t y"
  shows "copying r k0 p0 L D (insert (t, y) Q) (p, put_entry (ent (L t * 4096) y) v k)"
  unfolding put_entry_def
  by (rule copying_fill [OF assms(1,2)]) (use assms in \<open>auto simp: copying_def ent_frame_inj\<close>)

lemma copy_entries_at: "x < 512 \<Longrightarrow> k_pt (copy_entries src dst k) (ent dst x) = k_pt k (ent src x)"
  by (simp add: copy_entries_def ent_def)

lemma copy_entries_frame: "b div 4096 \<noteq> f \<Longrightarrow> k_pt (copy_entries src (f * 4096) k) b = k_pt k b"
  using frame_bytes [of f b] by (auto simp: copy_entries_def)

lemma copying_copy:
  assumes "copying r k0 p0 L D Q (p, k)" "t \<in> D" "\<And>x. x < 512 \<Longrightarrow> k_pt k (ent src x) = slot_val (k_pt k0) r L t x"
  shows "copying r k0 p0 L D (Q \<union> {t} \<times> {..<512}) (p, copy_entries src (L t * 4096) k)"
proof -
  have "copying r k0 p0 L D (Q \<union> {t} \<times> {..<512}) (p, k\<lparr>k_pt := k_pt (copy_entries src (L t * 4096) k)\<rparr>)"
    by (rule copying_fill [OF assms(1,2)]) (use assms(3) in \<open>auto simp: copy_entries_at copy_entries_frame\<close>)
  then show ?thesis by (simp add: copy_entries_def)
qed

text \<open>How far the copy is: \<open>a\<close> directories have their frame, \<open>b\<close> of them are linked, and \<open>n\<close> entries of the
  directories are done.\<close>

definition got :: "usize \<Rightarrow> kern \<Rightarrow> nat \<Rightarrow> nat \<Rightarrow> tbl set" where
  "got r k0 a n = {t. tbl_live (k_pt k0) r t \<and> (case t of TPd i \<Rightarrow> i < a | TPt i j \<Rightarrow> 512 * i + j < n | _ \<Rightarrow> True)}"

definition filled :: "usize \<Rightarrow> kern \<Rightarrow> nat \<Rightarrow> nat \<Rightarrow> (tbl \<times> nat) set" where
  "filled r k0 b n = {(t, x). tbl_live (k_pt k0) r t \<and> x < 512 \<and>
     (case t of TRoot \<Rightarrow> True | TPdpt \<Rightarrow> x < b | TPd i \<Rightarrow> 512 * i + x < n | TPt i j \<Rightarrow> 512 * i + j < n)}"

lemma pair_less: "j < 512 \<Longrightarrow> j' < 512 \<Longrightarrow> 512 * i' + j' = 512 * i + j \<longleftrightarrow> i' = i \<and> j' = j" for i i' j j' :: nat
  by (metis add_left_imp_eq div_less div_mult_self4 add.commute add_0 zero_neq_numeral)

lemma got_step:
  assumes "i < 4" "j < 512"
  shows "got r k0 a (Suc (512 * i + j)) = (if tbl_live (k_pt k0) r (TPt i j) then insert (TPt i j) (got r k0 a (512 * i + j))
           else got r k0 a (512 * i + j))"
  using pair_less [OF assms(2), of _ _ i] assms
  by (auto simp: got_def less_Suc_eq split: tbl.splits)

lemma got_pd: "i < 4 \<Longrightarrow> got r k0 (Suc i) n = insert (TPd i) (got r k0 i n)"
  by (auto simp: got_def less_Suc_eq split: tbl.splits)

lemma filled_step:
  assumes "i < 4" "j < 512"
  shows "filled r k0 b (Suc (512 * i + j)) = insert (TPd i, j) (filled r k0 b (512 * i + j)
           \<union> (if tbl_live (k_pt k0) r (TPt i j) then {TPt i j} \<times> {..<512} else {}))"
  using pair_less [OF assms(2), of _ _ i] assms
  by (auto simp: filled_def less_Suc_eq split: tbl.splits)

lemma filled_link: "i < 4 \<Longrightarrow> filled r k0 (Suc i) n = insert (TPdpt, i) (filled r k0 i n)"
  by (auto simp: filled_def less_Suc_eq split: tbl.splits)

lemma kernel_entry:
  assumes "kernel_ok r k0" "tracks k0 (p, k)" "tbl_live (k_pt k0) r t" "x < 512"
  shows "k_pt k (ent (tbl_loc (k_pt k0) r t) x) = k_pt k0 (ent (tbl_loc (k_pt k0) r t) x)"
  using live_not_free [OF kernel_okD(2) [OF assms(1)] assms(3,4)] tracksD(4) [OF assms(2)] by blast

lemma runs_read [simp]: "runs (read_entry a) (p, k) Q \<longleftrightarrow> Q (Inr (k_pt k a)) (p, k)"
  by (simp add: read_entry_def)

lemma runs_then:
  "runs m s (outcome E (\<lambda>x s'. runs (f x) s' (outcome E R))) \<Longrightarrow> runs (bnd m f) s (outcome E R)"
  by (rule runs_bnd)

lemma link_to_fold: "of_nat (f * 4096) OR (e AND 0xFFF) = link_to f e"
  by (simp add: link_to_def)

lemma copy_pde_runs:
  assumes K: "kernel_ok r k0" and ij: "i < 4" "j < 512"
      and c: "copying r k0 p0 L (got r k0 (Suc i) (512 * i + j)) (filled r k0 i (512 * i + j)) st"
  shows "runs (copy_pde (tbl_loc (k_pt k0) r (TPd i)) (L (TPd i) * 4096) j) st (outcome (tracks k0)
     (\<lambda>_ st'. \<exists>L'. L' TRoot = L TRoot \<and> L' TPdpt = L TPdpt \<and> L' (TPd i) = L (TPd i)
        \<and> copying r k0 p0 L' (got r k0 (Suc i) (Suc (512 * i + j))) (filled r k0 i (Suc (512 * i + j))) st'))"
proof -
  let ?n = "512 * i + j" and ?t = "TPt i j" and ?u = "TPd i"
  obtain p k where st: "st = (p, k)" by (cases st)
  have T: "tracks k0 (p, k)" using c by (simp add: copying_def st)
  define e where "e = E2 (k_pt k0) r i j"
  have e: "k_pt k (ent (tbl_loc (k_pt k0) r ?u) j) = e"
    using kernel_entry [OF K T, of ?u j] ij by (simp add: e_def E2_def)
  have u: "?u \<in> got r k0 (Suc i) ?n" using ij by (simp add: got_def)
  note steps = got_step [OF ij, of r k0 "Suc i"] filled_step [OF ij, of r k0 i]
  show ?thesis
  proof (cases "tbl_live (k_pt k0) r ?t")
    case False
    have D: "got r k0 (Suc i) (Suc ?n) = got r k0 (Suc i) ?n" "filled r k0 i (Suc ?n) = insert (?u, j) (filled r k0 i ?n)"
      using False by (simp_all add: steps del: tbl_live.simps)
    have v: "slot_val (k_pt k0) r L ?u j = (if pte_present e then e else 0)" using False ij by (auto simp: e_def)
    have "copying r k0 p0 L (got r k0 (Suc i) ?n) (insert (?u, j) (filled r k0 i ?n)) (p, k)" if "\<not> pte_present e"
    proof -
      have "copying r k0 p0 L (got r k0 (Suc i) ?n) (insert (?u, j) (filled r k0 i ?n)) (p, k\<lparr>k_pt := k_pt k\<rparr>)"
        by (rule copying_fill [OF c [unfolded st] u]) (use c u v that in \<open>auto simp: copying_def st filled_def\<close>)
      then show ?thesis by simp
    qed
    moreover have "copying r k0 p0 L (got r k0 (Suc i) ?n) (insert (?u, j) (filled r k0 i ?n)) (p, put_entry (ent (L ?u * 4096) j) e k)"
      if "pte_present e" using copying_put [OF c [unfolded st] u ij(2)] v that by simp
    moreover have "pte_present e \<Longrightarrow> pte_big e" using False ij by (simp add: e_def)
    ultimately show ?thesis
      unfolding copy_pde_def st D
      by (auto intro!: runs_then exI [of _ L] simp: e and_present and_ps simp del: tbl_loc.simps)
  next
    case True
    then have pe: "pte_present e" "\<not> pte_big e" by (auto simp: e_def)
    have t: "?t \<notin> got r k0 (Suc i) ?n" by (simp add: got_def)
    have Q: "w \<noteq> ?t \<and> child w x \<noteq> Some ?t" if "(w, x) \<in> filled r k0 i ?n" for w x
      using that by (cases w) (auto simp: filled_def split: if_splits)
    have src: "entry_ptr e = tbl_loc (k_pt k0) r ?t" using kernel_okD(6) [OF K True] by (simp add: e_def)
    have D: "got r k0 (Suc i) (Suc ?n) = insert ?t (got r k0 (Suc i) ?n)"
        "filled r k0 i (Suc ?n) = insert (?u, j) (filled r k0 i ?n \<union> {?t} \<times> {..<512})"
      using True by (simp_all add: steps del: tbl_live.simps)
    have last: "copying r k0 p0 L' (got r k0 (Suc i) (Suc ?n)) (filled r k0 i (Suc ?n))
          (p', put_entry (ent (L ?u * 4096) j) (of_nat (f * 4096) OR (e AND 0xFFF)) (copy_entries (entry_ptr e) (f * 4096) k'))"
      if L': "L' = L(?t := f)" and c': "copying r k0 p0 L' (insert ?t (got r k0 (Suc i) ?n)) (filled r k0 i ?n) (p', k')" for f L' p' k'
    proof -
      have T': "tracks k0 (p', k')" using c' by (simp add: copying_def)
      have "k_pt k' (ent (entry_ptr e) x) = slot_val (k_pt k0) r L' ?t x" if "x < 512" for x
        using kernel_entry [OF K T' True that] by (simp add: src E1_def)
      then have c2: "copying r k0 p0 L' (insert ?t (got r k0 (Suc i) ?n)) (filled r k0 i ?n \<union> {?t} \<times> {..<512})
          (p', copy_entries (entry_ptr e) (f * 4096) k')"
        using copying_copy [OF c', of ?t] by (simp add: L')
      have "slot_val (k_pt k0) r L' ?u j = link_to f e" using pe by (simp add: L' e_def)
      then show ?thesis using copying_put [OF c2 _ ij(2), of ?u] u unfolding D by (simp add: L' link_to_fold del: of_nat_mult)
    qed
    have run: "runs (bnd alloc_frame (\<lambda>pt. bnd (on_kern (copy_entries (entry_ptr e) pt)) (\<lambda>_.
            on_kern (put_entry (ent (L ?u * 4096) j) (of_nat pt OR (e AND 0xFFF)))))) (p, k) (outcome (tracks k0)
     (\<lambda>_ st'. \<exists>L'. L' TRoot = L TRoot \<and> L' TPdpt = L TPdpt \<and> L' ?u = L ?u
        \<and> copying r k0 p0 L' (got r k0 (Suc i) (Suc ?n)) (filled r k0 i (Suc ?n)) st'))"
    proof (rule runs_bnd [OF copying_alloc [OF c [unfolded st] t Q]])
      fix a st' assume "\<exists>f. a = f * 4096 \<and> copying r k0 p0 (L(?t := f)) (insert ?t (got r k0 (Suc i) ?n)) (filled r k0 i ?n) st'"
      then obtain f p' k' where f: "a = f * 4096" "st' = (p', k')"
          "copying r k0 p0 (L(?t := f)) (insert ?t (got r k0 (Suc i) ?n)) (filled r k0 i ?n) (p', k')"
        by (cases st') auto
      show "runs (bnd (on_kern (copy_entries (entry_ptr e) a)) (\<lambda>_. on_kern (put_entry (ent (L ?u * 4096) j) (of_nat a OR (e AND 0xFFF))))) st'
          (outcome (tracks k0) (\<lambda>_ st'. \<exists>L'. L' TRoot = L TRoot \<and> L' TPdpt = L TPdpt \<and> L' ?u = L ?u
             \<and> copying r k0 p0 L' (got r k0 (Suc i) (Suc ?n)) (filled r k0 i (Suc ?n)) st'))"
        unfolding f(1,2) by (rule runs_then) (use last [OF refl f(3)] in \<open>auto intro!: exI [of _ "L(?t := f)"]\<close>)
    qed
    show ?thesis unfolding copy_pde_def st
      by (rule runs_then) (use run pe in \<open>simp add: e and_present and_ps del: tbl_loc.simps\<close>)
  qed
qed

lemma copy_pdpte_runs:
  assumes K: "kernel_ok r k0" and i: "i < 4"
      and c: "copying r k0 p0 L (got r k0 i (512 * i)) (filled r k0 i (512 * i)) st"
  shows "runs (copy_pdpte (tbl_loc (k_pt k0) r TPdpt) (L TPdpt * 4096) i) st (outcome (tracks k0)
     (\<lambda>_ st'. \<exists>L'. L' TRoot = L TRoot \<and> L' TPdpt = L TPdpt
        \<and> copying r k0 p0 L' (got r k0 (Suc i) (512 * Suc i)) (filled r k0 (Suc i) (512 * Suc i)) st'))"
    (is "runs _ _ (outcome _ (\<lambda>_. ?Post))")
proof -
  obtain p k where st: "st = (p, k)" by (cases st)
  have T: "tracks k0 (p, k)" using c by (simp add: copying_def st)
  define e where "e = E3 (k_pt k0) r i"
  have e: "k_pt k (ent (tbl_loc (k_pt k0) r TPdpt) i) = e"
    using kernel_entry [OF K T, of TPdpt i] i by (simp add: e_def E3_def)
  have pe: "pte_present e" "\<not> pte_big e" using live_simps(3,4) [OF kernel_okD(2) [OF K] i] by (simp_all add: e_def)
  have src: "entry_ptr e = tbl_loc (k_pt k0) r (TPd i)" using kernel_okD(5) [OF K i] by (simp add: e_def)
  have t: "TPd i \<notin> got r k0 i (512 * i)" by (simp add: got_def)
  have Q: "w \<noteq> TPd i \<and> child w x \<noteq> Some (TPd i)" if "(w, x) \<in> filled r k0 i (512 * i)" for w x
    using that by (cases w) (auto simp: filled_def split: if_splits)
  define J where "J f j st \<longleftrightarrow> (\<exists>L'. L' TRoot = L TRoot \<and> L' TPdpt = L TPdpt \<and> L' (TPd i) = f
      \<and> copying r k0 p0 L' (got r k0 (Suc i) (512 * i + j)) (filled r k0 i (512 * i + j)) st)" for f j st
  have step: "runs (copy_pde (entry_ptr e) (f * 4096) j) st' (outcome (tracks k0) (\<lambda>_. J f (Suc j)))"
    if j: "j < 512" and J: "J f j st'" for f j st'
  proof -
    obtain L' where L': "L' TRoot = L TRoot" "L' TPdpt = L TPdpt" "L' (TPd i) = f"
        "copying r k0 p0 L' (got r k0 (Suc i) (512 * i + j)) (filled r k0 i (512 * i + j)) st'"
      using J unfolding J_def by blast
    show ?thesis unfolding src L'(3) [symmetric]
      by (rule runs_mono [OF copy_pde_runs [OF K i j L'(4)]]) (auto simp: J_def L' simp del: tbl_loc.simps)
  qed
  have link: "?Post (p', put_entry (ent (L TPdpt * 4096) i) (of_nat (f * 4096) OR (e AND 0xFFF)) k')" if J: "J f 512 (p', k')" for f p' k'
  proof -
    obtain L' where L': "L' TRoot = L TRoot" "L' TPdpt = L TPdpt" "L' (TPd i) = f"
        "copying r k0 p0 L' (got r k0 (Suc i) (512 * Suc i)) (filled r k0 i (512 * Suc i)) (p', k')"
      using J unfolding J_def by (auto simp: add.commute)
    have "slot_val (k_pt k0) r L' TPdpt i = link_to f e" using pe L'(3) by (simp add: e_def)
    then show ?thesis
      using copying_put [OF L'(4), of TPdpt i] i L'(1,2) unfolding filled_link [OF i] link_to_fold
      by (auto simp: got_def intro!: exI [of _ L'])
  qed
  have body: "runs (bnd (loop_op (copy_pde (entry_ptr e) (f * 4096)) [0..<512])
        (\<lambda>_. on_kern (put_entry (ent (L TPdpt * 4096) i) (of_nat (f * 4096) OR (e AND 0xFFF))))) st' (outcome (tracks k0) (\<lambda>_. ?Post))"
    if c': "copying r k0 p0 (L(TPd i := f)) (insert (TPd i) (got r k0 i (512 * i))) (filled r k0 i (512 * i)) st'" for f st'
  proof (rule runs_bnd)
    have "J f 0 st'" using c' unfolding J_def by (auto intro!: exI [of _ "L(TPd i := f)"] simp: got_pd [OF i])
    then show "runs (loop_op (copy_pde (entry_ptr e) (f * 4096)) [0..<512]) st' (outcome (tracks k0) (\<lambda>_. J f 512))"
      by (intro runs_loop step) simp_all
    show "runs (on_kern (put_entry (ent (L TPdpt * 4096) i) (of_nat (f * 4096) OR (e AND 0xFFF)))) st'' (outcome (tracks k0) (\<lambda>_. ?Post))"
      if "J f 512 st''" for st'' using link [of f] that by (cases st'') simp
  qed
  have "runs (bnd alloc_frame (\<lambda>pd. bnd (loop_op (copy_pde (entry_ptr e) pd) [0..<512])
       (\<lambda>_. on_kern (put_entry (ent (L TPdpt * 4096) i) (of_nat pd OR (e AND 0xFFF)))))) (p, k) (outcome (tracks k0) (\<lambda>_. ?Post))"
    by (rule runs_bnd [OF copying_alloc [OF c [unfolded st] t Q]]) (use body in blast)+
  then show ?thesis unfolding copy_pdpte_def st
    by (intro runs_then) (use pe in \<open>simp add: e and_present and_ps del: tbl_loc.simps\<close>)
qed

text \<open>The copy is complete: its tables are in good order and translate as the kernel's do.\<close>

lemma copied_tables:
  assumes K: "kernel_ok r k0" and c: "copying r k0 p0 L {t. tbl_live (k_pt k0) r t} Q (p, k)"
      and Q: "\<And>t x. tbl_live (k_pt k0) r t \<Longrightarrow> x < 512 \<Longrightarrow> (t = TPdpt \<Longrightarrow> x < 4) \<Longrightarrow> (t, x) \<in> Q"
  defines "m \<equiv> k_pt k" and "root \<equiv> L TRoot * 4096" and "m0 \<equiv> k_pt k0"
  shows "pt_ok m (avail (k_pmm k)) root" "tbl_frames m root = own p"
    "i < 4 \<Longrightarrow> j < 512 \<Longrightarrow> x < 512 \<Longrightarrow> walk_at m root i j x = walk_at m0 r i j x"
proof -
  note KD = kernel_okD [OF K, folded m0_def]
  have T: "tracks k0 (p, k)" "inj_on L {t. tbl_live m0 r t}" "own p = L ` {t. tbl_live m0 r t}"
    using c unfolding copying_def m0_def by auto
  have small: "L t < 65536" if "tbl_live m0 r t" for t
    using managed_lt [OF KD(1)] T(3) that tracksD(2) [OF T(1)] by (auto simp: avail_def pmm_managed_def)
  have at: "m (ent (L t * 4096) x) = slot_val m0 r L t x" if "tbl_live m0 r t" "x < 512" "t = TPdpt \<Longrightarrow> x < 4" for t x
    using c Q that unfolding copying_def m_def m0_def by auto
  have e4: "E4 m root = of_nat (L TPdpt * 4096) OR PAGE_PRESENT OR PAGE_WRITABLE"
    using at [of TRoot 0] unfolding E4_def root_def by simp
  have b4: "table_base (E4 m root) = L TPdpt * 4096" "pte_present (E4 m root)"
    unfolding e4 using link_bits(4,5) [OF small [of TPdpt]] by simp_all
  have e3: "E3 m root i = link_to (L (TPd i)) (E3 m0 r i)" if "i < 4" for i
    using at [of TPdpt i] live_simps(3) [OF KD(2) that] that by (simp add: E3_def [of m] b4)
  have b3: "table_base (E3 m root i) = L (TPd i) * 4096" "pte_present (E3 m root i)" "\<not> pte_big (E3 m root i)" if "i < 4" for i
    unfolding e3 [OF that] using link_bits(1-3) [OF small [of "TPd i"]] live_simps(3,4) [OF KD(2) that] that by simp_all
  have e2: "E2 m root i j = slot_val m0 r L (TPd i) j" if "i < 4" "j < 512" for i j
    using at [of "TPd i" j] that by (simp add: E2_def [of m] b3)
  have b2: "pte_present (E2 m root i j) = pte_present (E2 m0 r i j)" "pte_present (E2 m0 r i j) \<Longrightarrow> pte_big (E2 m root i j) = pte_big (E2 m0 r i j)"
      "tbl_live m0 r (TPt i j) \<Longrightarrow> table_base (E2 m root i j) = L (TPt i j) * 4096"
      "pte_present (E2 m0 r i j) \<Longrightarrow> pte_big (E2 m0 r i j) \<Longrightarrow> E2 m root i j = E2 m0 r i j" if "i < 4" "j < 512" for i j
    unfolding e2 [OF that] using link_bits(1-3) [OF small [of "TPt i j"]] that by (auto simp: pte_present_def)
  have e1: "E1 m root i j x = E1 m0 r i j x" if "tbl_live m0 r (TPt i j)" "x < 512" for i j x
    using at [OF that] that(1) by (simp add: E1_def [of m] b2)
  have lv: "tbl_live m root t = tbl_live m0 r t" for t by (cases t) (auto simp: b2)
  have lc: "tbl_loc m root t = L t * 4096" if "tbl_live m0 r t" for t
    using that by (cases t) (auto simp: b2 b3 b4 simp flip: root_def)
  show wk: "walk_at m root i j x = walk_at m0 r i j x" if "i < 4" "j < 512" "x < 512" for i j x
    using that e1 [of i j x] b2 by (auto simp: walk_at_def)
  have inj: "inj_on (tbl_loc m root) {t. tbl_live m root t}"
    using T(2) lc lv unfolding inj_on_def by auto
  have fr: "tbl_loc m root t div 4096 \<notin> avail (k_pmm k)" if "tbl_live m root t" for t
    using that lc T(3) tracksD(3) [OF T(1)] unfolding lv by auto
  show "pt_ok m (avail (k_pmm k)) root"
    unfolding pt_ok_def using b4(2) b3(2,3) inj fr wk KD(7) by (auto simp: root_def)
  show "tbl_frames m root = own p" unfolding tbl_frames_def T(3) lv using lc by force
qed

lemma tracks_start: "pmm_inv (k_pmm k) \<Longrightarrow> empty_handed p \<Longrightarrow> tracks k (p, k)"
  by (auto simp: tracks_def empty_handed_def own_def)

lemma copying_root:
  assumes K: "kernel_ok r k0" and c: "copying r k0 p0 L (got r k0 0 0) {} (p, k)"
  shows "copying r k0 p0 L (got r k0 0 0) (filled r k0 0 0)
     (p, put_entry (ent (L TRoot * 4096) 0) (of_nat (L TPdpt * 4096) OR PAGE_PRESENT OR PAGE_WRITABLE) (copy_entries r (L TRoot * 4096) k))"
proof -
  let ?k = "copy_entries r (L TRoot * 4096) k" and ?v = "of_nat (L TPdpt * 4096) OR PAGE_PRESENT OR PAGE_WRITABLE :: u64"
  have T: "tracks k0 (p, k)" using c by (simp add: copying_def)
  have t: "TRoot \<in> got r k0 0 0" by (simp add: got_def)
  have "copying r k0 p0 L (got r k0 0 0) (filled r k0 0 0) (p, k\<lparr>k_pt := (k_pt ?k)(ent (L TRoot * 4096) 0 := ?v)\<rparr>)"
  proof (rule copying_fill [OF c t])
    fix b assume "b div 4096 \<noteq> L TRoot"
    then show "((k_pt ?k)(ent (L TRoot * 4096) 0 := ?v)) b = k_pt k b" by (auto simp: copy_entries_frame)
  next
    fix x :: nat assume x: "x < 512"
    have "k_pt k (ent r x) = k_pt k0 (ent r x)" using kernel_entry [OF K T, of TRoot x] x by simp
    then show "((k_pt ?k)(ent (L TRoot * 4096) 0 := ?v)) (ent (L TRoot * 4096) x)
        = (if (TRoot, x) \<in> filled r k0 0 0 then slot_val (k_pt k0) r L TRoot x else 0)"
      using x by (simp add: copy_entries_at ent_frame_inj filled_def)
  next
    fix u x assume "u \<in> got r k0 0 0" "u \<noteq> TRoot"
    then show "(u, x) \<in> filled r k0 0 0 \<longleftrightarrow> (u, x) \<in> {}" by (cases u) (auto simp: got_def filled_def)
  qed
  then show ?thesis by (simp add: put_entry_def copy_entries_def)
qed

lemma copy_pdptes_run:
  assumes K: "kernel_ok r k0" and c: "copying r k0 p0 L (got r k0 0 0) (filled r k0 0 0) st"
  shows "runs (loop_op (copy_pdpte (tbl_loc (k_pt k0) r TPdpt) (L TPdpt * 4096)) [0..<512]) st (outcome (tracks k0)
     (\<lambda>_ st'. \<exists>L' Q. L' TRoot = L TRoot \<and> copying r k0 p0 L' {t. tbl_live (k_pt k0) r t} Q st'
        \<and> (\<forall>t x. tbl_live (k_pt k0) r t \<longrightarrow> x < 512 \<longrightarrow> (t = TPdpt \<longrightarrow> x < 4) \<longrightarrow> (t, x) \<in> Q)))"
proof -
  define I where "I i st \<longleftrightarrow> (\<exists>L'. L' TRoot = L TRoot \<and> L' TPdpt = L TPdpt
      \<and> copying r k0 p0 L' (got r k0 (min i 4) (512 * min i 4)) (filled r k0 (min i 4) (512 * min i 4)) st)" for i st
  have step: "runs (copy_pdpte (tbl_loc (k_pt k0) r TPdpt) (L TPdpt * 4096) i) st (outcome (tracks k0) (\<lambda>_. I (Suc i)))"
    if i: "i < 512" and I: "I i st" for i st
  proof -
    obtain L' where L': "L' TRoot = L TRoot" "L' TPdpt = L TPdpt"
        "copying r k0 p0 L' (got r k0 (min i 4) (512 * min i 4)) (filled r k0 (min i 4) (512 * min i 4)) st"
      using I unfolding I_def by blast
    show ?thesis
    proof (cases "i < 4")
      case True
      then have "min i 4 = i" "min (Suc i) 4 = Suc i" by simp_all
      with True L'(1,3) show ?thesis unfolding I_def L'(2) [symmetric]
        by (intro runs_mono [OF copy_pdpte_runs [OF K True]]) (auto simp del: tbl_loc.simps)
    next
      case False
      obtain p k where st: "st = (p, k)" by (cases st)
      have "tracks k0 (p, k)" using L'(3) by (simp add: copying_def st)
      from kernel_entry [OF K this, of TPdpt i] have "\<not> pte_present (k_pt k (ent (tbl_loc (k_pt k0) r TPdpt) i))"
        using kernel_okD(3) [OF K, of i] False i by (simp add: E3_def)
      moreover have "I (Suc i) (p, k)" using I False by (simp add: I_def st)
      ultimately show ?thesis unfolding copy_pdpte_def st
        by (intro runs_then) (simp add: and_present del: tbl_loc.simps)
    qed
  qed
  have "I 0 st" using c by (auto simp: I_def)
  then have "runs (loop_op (copy_pdpte (tbl_loc (k_pt k0) r TPdpt) (L TPdpt * 4096)) [0..<512]) st (outcome (tracks k0) (\<lambda>_. I 512))"
    by (intro runs_loop step) simp_all
  moreover have "t \<in> got r k0 4 2048 \<longleftrightarrow> tbl_live (k_pt k0) r t" for t by (cases t) (auto simp: got_def)
  then have "got r k0 4 2048 = {t. tbl_live (k_pt k0) r t}" by blast
  moreover have "(t, x) \<in> filled r k0 4 2048" if "tbl_live (k_pt k0) r t" "x < 512" "t = TPdpt \<longrightarrow> x < 4" for t x
    using that by (cases t) (auto simp: filled_def)
  moreover have "\<exists>L' Q. L' TRoot = L TRoot \<and> copying r k0 p0 L' {t. tbl_live (k_pt k0) r t} Q st'
      \<and> (\<forall>t x. tbl_live (k_pt k0) r t \<longrightarrow> x < 512 \<longrightarrow> (t = TPdpt \<longrightarrow> x < 4) \<longrightarrow> (t, x) \<in> Q)" if "I 512 st'" for st'
    using that calculation(2,3) unfolding I_def by (auto intro!: exI [of _ "filled r k0 4 2048"])
  ultimately show ?thesis by (elim runs_mono) auto
qed

text \<open>\<open>build_address_space\<close>: a process that owns exactly its tables, which translate as the kernel's do.\<close>

definition built :: "u64 \<Rightarrow> kern \<Rightarrow> process \<Rightarrow> u64 \<Rightarrow> process \<times> kern \<Rightarrow> bool" where
  "built kr k0 p0 pml4 st \<longleftrightarrow> (case st of (p, k) \<Rightarrow> tracks k0 (p, k) \<and> (\<exists>fs. p = p0\<lparr>p_frames := fs\<rparr>) \<and> vm_ok pml4 p k
     \<and> (\<forall>w. unat w < 2 ^ 32 \<longrightarrow> hw_walk (k_pt k) (unat pml4) w = hw_walk (k_pt k0) (unat kr) w))"

lemma copied_built:
  assumes K: "kernel_ok (unat kr) k0" and e: "empty_handed p0"
      and c: "copying (unat kr) k0 p0 L {t. tbl_live (k_pt k0) (unat kr) t} Q st"
      and Q: "\<And>t x. tbl_live (k_pt k0) (unat kr) t \<Longrightarrow> x < 512 \<Longrightarrow> (t = TPdpt \<Longrightarrow> x < 4) \<Longrightarrow> (t, x) \<in> Q"
  shows "built kr k0 p0 (of_nat (L TRoot * 4096)) st"
proof -
  obtain p k where st: "st = (p, k)" by (cases st)
  have T: "tracks k0 (p, k)" "\<exists>fs. p = p0\<lparr>p_frames := fs\<rparr>" "own p = L ` {t. tbl_live (k_pt k0) (unat kr) t}"
    using c by (auto simp: copying_def st)
  have "L TRoot \<in> own p" using T(3) by (auto intro!: imageI)
  then have lt: "L TRoot < 65536" using tracksD(2) [OF T(1)] managed_lt [OF kernel_okD(1) [OF K]] by (auto simp: avail_def pmm_managed_def)
  have r: "unat (of_nat (L TRoot * 4096) :: u64) = L TRoot * 4096" using lt by (simp add: unat_of_nat del: of_nat_mult)
  note C = copied_tables [OF K c [unfolded st] Q]
  have hw: "hw_walk (k_pt k) (L TRoot * 4096) w = hw_walk (k_pt k0) (unat kr) w" if "unat w < 2 ^ 32" for w
    using hw_walk_W(1,3) [OF C(1) that] hw_walk_W(1) [OF kernel_okD(2) [OF K] that] C(3) pidx_lt by simp
  have "\<not> pte_user fl" if "unat w < 2 ^ 32" "hw_walk (k_pt k) (L TRoot * 4096) w = Some (a, fl)" for w a fl
    using that hw_walk_W(1,3) [OF kernel_okD(2) [OF K] that(1)] kernel_okD(7) [OF K] pidx_lt by (metis hw)
  then have "pages_ok (of_nat (L TRoot * 4096)) p k" by (intro pages_okI) (simp add: r del: of_nat_mult)
  moreover have "p_mappings p = []" using T(2) e by (auto simp: empty_handed_def)
  then have "maps_ok (of_nat (L TRoot * 4096)) p k" by (simp add: maps_ok_def)
  moreover have "frames_ok (of_nat (L TRoot * 4096)) p k"
    using T(1) C(1,2) tracksD(1-3,6) [OF T(1)] unfolding frames_ok_def r pt_state_def mmu_of_sel
    by (auto simp: tracks_def avail_def pmm_managed_def)
  ultimately show ?thesis using T(1,2) hw unfolding built_def st by (simp add: vm_ok_def r del: of_nat_mult)
qed

lemma build_address_space_runs:
  assumes K: "kernel_ok (unat kr) k0" and e: "empty_handed p0"
  shows "runs (build_address_space kr) (p0, k0) (outcome (tracks k0) (built kr k0 p0))"
proof -
  let ?r = "unat kr" and ?g = "got (unat kr) k0 0 0"
  have T: "tracks k0 (p0, k0)" by (rule tracks_start [OF kernel_okD(1) [OF K] e])
  have c0: "copying ?r k0 p0 (\<lambda>_. 0) {} {} (p0, k0)" using T e
    by (intro copyingI) (auto simp: own_def empty_handed_def intro!: exI [of _ "p_frames p0"])
  have "t \<in> ?g \<longleftrightarrow> t = TPdpt \<or> t = TRoot" for t by (cases t) (auto simp: got_def)
  then have g: "insert TPdpt (insert TRoot {}) = ?g" by blast
  have rest: "runs (bnd (on_kern (copy_entries ?r (L TRoot * 4096))) (\<lambda>_.
        bnd (on_kern (put_entry (ent (L TRoot * 4096) 0) (of_nat (L TPdpt * 4096) OR PAGE_PRESENT OR PAGE_WRITABLE))) (\<lambda>_.
        bnd (read_entry (ent ?r 0)) (\<lambda>e.
        bnd (loop_op (copy_pdpte (entry_ptr e) (L TPdpt * 4096)) [0..<512]) (\<lambda>_.
        ret (of_nat (L TRoot * 4096))))))) st (outcome (tracks k0) (built kr k0 p0))"
    if c: "copying ?r k0 p0 L ?g {} st" for L st
  proof -
    obtain p k where st: "st = (p, k)" by (cases st)
    let ?k = "put_entry (ent (L TRoot * 4096) 0) (of_nat (L TPdpt * 4096) OR PAGE_PRESENT OR PAGE_WRITABLE) (copy_entries ?r (L TRoot * 4096) k)"
    have c': "copying ?r k0 p0 L ?g (filled ?r k0 0 0) (p, ?k)" by (rule copying_root [OF K c [unfolded st]])
    then have "tracks k0 (p, ?k)" by (simp add: copying_def)
    from kernel_entry [OF K this, of TRoot 0] have "entry_ptr (k_pt ?k (ent ?r 0)) = tbl_loc (k_pt k0) ?r TPdpt"
      using kernel_okD(4) [OF K] by (simp add: E4_def)
    then show ?thesis unfolding st
      apply (intro runs_then)
      apply (simp del: tbl_loc.simps of_nat_mult)
      apply (intro runs_then)
      apply (simp del: tbl_loc.simps of_nat_mult)
      apply (intro runs_then)
      apply (simp del: tbl_loc.simps of_nat_mult)
      apply (rule runs_bnd [OF copy_pdptes_run [OF K c']])
      subgoal for x st'
        using copied_built [OF K e, of _ _ st'] by (elim exE conjE) (simp del: of_nat_mult, metis (no_types, lifting))
      done
  qed
  show ?thesis unfolding build_address_space_def
  proof (rule runs_bnd [OF copying_alloc [OF c0, of TRoot]])
    fix a st assume "\<exists>f. a = f * 4096 \<and> copying ?r k0 p0 ((\<lambda>_. 0)(TRoot := f)) {TRoot} {} st"
    then obtain f where f: "a = f * 4096" "copying ?r k0 p0 ((\<lambda>_. 0)(TRoot := f)) {TRoot} {} st" by blast
    show "runs (bnd alloc_frame (\<lambda>pdpt. bnd (on_kern (copy_entries ?r a)) (\<lambda>_.
        bnd (on_kern (put_entry (ent a 0) (of_nat pdpt OR PAGE_PRESENT OR PAGE_WRITABLE))) (\<lambda>_.
        bnd (read_entry (ent ?r 0)) (\<lambda>e. bnd (loop_op (copy_pdpte (entry_ptr e) pdpt) [0..<512]) (\<lambda>_.
        ret (of_nat a))))))) st (outcome (tracks k0) (built kr k0 p0))"
    proof (rule runs_bnd [OF copying_alloc [OF f(2), of TPdpt]])
      fix b st' assume "\<exists>g. b = g * 4096 \<and> copying ?r k0 p0 ((\<lambda>_. 0)(TRoot := f, TPdpt := g)) {TPdpt, TRoot} {} st'"
      then obtain h where h: "b = h * 4096" "copying ?r k0 p0 ((\<lambda>_. 0)(TRoot := f, TPdpt := h)) ?g {} st'"
        unfolding g by blast
      from rest [OF h(2)] show "runs (bnd (on_kern (copy_entries ?r a)) (\<lambda>_.
        bnd (on_kern (put_entry (ent a 0) (of_nat b OR PAGE_PRESENT OR PAGE_WRITABLE))) (\<lambda>_.
        bnd (read_entry (ent ?r 0)) (\<lambda>e. bnd (loop_op (copy_pdpte (entry_ptr e) b) [0..<512]) (\<lambda>_.
        ret (of_nat a)))))) st' (outcome (tracks k0) (built kr k0 p0))" by (simp add: f(1) h(1))
    qed auto
  qed auto
qed

section \<open>Steps of a process with tables\<close>

lemma tracks_evolves:
  assumes t: "tracks k0 (p, k)" and v: "vm_ok pml4 p' k'" and e: "evolves p k p' k'" and f: "p_fds p' = p_fds p"
  shows "tracks k0 (p', k')"
proof -
  note V = vm_frames [OF v] and T = tracksD [OF t]
  have "avail (k_pmm k') \<union> own p' = avail (k_pmm k0)" using e T(2,3) by (auto simp: evolves_def)
  then have "own p' \<subseteq> avail (k_pmm k0)" "avail (k_pmm k') = avail (k_pmm k0) - own p'" using V(4) by blast+
  moreover have "k_pt k' b = k_pt k0 b" "k_mem k' b = k_mem k0 b" if "b div 4096 \<notin> avail (k_pmm k0)" for b
    using e T(2-5) that by (auto simp: evolves_def)
  moreover have "\<forall>a \<in> set (p_frames p'). 4096 dvd a" using v by (simp add: vm_ok_def frames_ok_def)
  ultimately show ?thesis using t e f V(1) unfolding tracks_def evolves_def by simp
qed

text \<open>What a successful \<open>map_in\<close> does to the translation and to the bytes.\<close>

lemma map_in_mem: "map_in pml4 v ph len fl (p, k) = Some (b, p', k') \<Longrightarrow> k_mem k' = k_mem k"
  by (auto simp: map_in_def split: bind_splits)

lemma map_in_walk:
  assumes "vm_ok pml4 p k" "map_ok m" "unat (m_phys m) + unat (m_len m) \<le> 2 ^ 52" "\<not> bit flags 7"
      "map_in pml4 (m_vaddr m) (m_phys m) (m_len m) flags (p, k) = Some (True, p', k')" "unat w < 2 ^ 32"
  shows "hw_walk (k_pt k') (unat pml4) w = mapped (m_vaddr m) (m_phys m) (unat (m_len m) div 4096) flags (hw_walk (k_pt k) (unat pml4)) w"
proof -
  obtain n ts s where R: "map_range_in pml4 (m_vaddr m) (m_phys m) (m_len m) flags (p_frames p, mmu_of k) =
         Some (4096 * n = unat (m_len m), p_frames p @ map (\<lambda>f. f * FRAME_SIZE) ts, s)"
      "\<forall>w. unat w < 2 ^ 32 \<longrightarrow> hw_walk (pt_mem s) (unat pml4) w = mapped (m_vaddr m) (m_phys m) n flags (hw_walk (k_pt k) (unat pml4)) w"
    using map_range_in_spec [OF vm_frames(7) [OF assms(1)], of "m_vaddr m" "m_phys m" "m_len m" flags "p_frames p"] assms(2-4)
    by (elim meta_impE) (simp_all add: map_ok_def, metis mmu_of_sel(1))
  moreover have "unat (m_len m) = 4096 * n" using R(1) assms(5) by (auto simp: map_in_def)
  then have "unat (m_len m) div 4096 = n" by simp
  ultimately show ?thesis using assms(5,6) by (auto simp: map_in_def)
qed

text \<open>It takes at most one frame per page, and fails only when none is left.\<close>

lemma map_in_cost:
  assumes "vm_ok pml4 p k" "map_ok m" "unat (m_phys m) + unat (m_len m) \<le> 2 ^ 52" "\<not> bit flags 7"
      "map_in pml4 (m_vaddr m) (m_phys m) (m_len m) flags (p, k) = Some (b, p', k')"
  shows "\<exists>c. card (avail (k_pmm k)) \<le> card (avail (k_pmm k')) + c \<and> 4096 * c \<le> unat (m_len m)
     \<and> (\<not> b \<longrightarrow> avail (k_pmm k') = {} \<and> 4096 * c < unat (m_len m))"
proof -
  obtain n ts s where R: "map_range_in pml4 (m_vaddr m) (m_phys m) (m_len m) flags (p_frames p, mmu_of k) =
         Some (4096 * n = unat (m_len m), p_frames p @ map (\<lambda>f. f * FRAME_SIZE) ts, s)"
      "takes (unat pml4) (mmu_of k) ts s" "length ts \<le> n" "4096 * n \<le> unat (m_len m)" "4096 * n = unat (m_len m) \<or> avail (mm_pmm s) = {}"
    using map_range_in_spec [OF vm_frames(7) [OF assms(1)], of "m_vaddr m" "m_phys m" "m_len m" flags "p_frames p"] assms(2-4)
    by (elim meta_impE) (simp_all add: map_ok_def, elim exE conjE, rule that)
  have "card (set ts) \<le> n" using R(3) card_length [of ts] by simp
  moreover have "card (avail (k_pmm k)) \<le> card (avail (mm_pmm s)) + card (set ts)"
  proof -
    have "avail (k_pmm k) \<subseteq> avail (mm_pmm s) \<union> set ts" using R(2) by (auto simp: takes_def)
    then have "card (avail (k_pmm k)) \<le> card (avail (mm_pmm s) \<union> set ts)" by (rule card_mono [rotated]) simp
    then show ?thesis using card_Un_le [of "avail (mm_pmm s)" "set ts"] by linarith
  qed
  ultimately show ?thesis using R(1,4,5) assms(5) by (intro exI [of _ n]) (auto simp: map_in_def)
qed

text \<open>Entries outside the tables may change.\<close>

lemma vm_pt_change:
  assumes v: "vm_ok pml4 p k" and m: "\<And>b. b div 4096 \<in> tbl_frames (k_pt k) (unat pml4) \<Longrightarrow> m b = k_pt k b"
  shows "vm_ok pml4 p (k\<lparr>k_pt := m\<rparr>)" "tbl_frames m (unat pml4) = tbl_frames (k_pt k) (unat pml4)"
    and "\<And>w. unat w < 2 ^ 32 \<Longrightarrow> hw_walk m (unat pml4) w = hw_walk (k_pt k) (unat pml4) w"
proof -
  let ?k = "k\<lparr>k_pt := m\<rparr>"
  note F = vm_frames [OF v]
  have "avail (k_pmm k) \<inter> tbl_frames (k_pt k) (unat pml4) = {}" using F(4,5) by blast
  note T = tables_agree [where m' = m, OF F(2) m this]
  show t3: "tbl_frames m (unat pml4) = tbl_frames (k_pt k) (unat pml4)" by (rule T)
  show "\<And>w. unat w < 2 ^ 32 \<Longrightarrow> hw_walk m (unat pml4) w = hw_walk (k_pt k) (unat pml4) w" by (rule T)
  have sm: "small_at (unat pml4) (mmu_of ?k) = small_at (unat pml4) (mmu_of k)"
    by (rule ext) (simp add: small_at_def T(2) del: tbl_live.simps)
  have "frames_ok pml4 p ?k" using v T(1) t3 by (simp add: vm_ok_def frames_ok_def pt_state_def)
  moreover have "maps_ok pml4 p ?k" using v t3 sm by (simp add: vm_ok_def maps_ok_def)
  moreover have "pages_ok pml4 p ?k" using v T(4) t3 sm by (simp add: vm_ok_def pages_ok_def loose_def)
  ultimately show "vm_ok pml4 p ?k" by (simp add: vm_ok_def)
qed

lemma fresh_frame_keep:
  assumes v: "vm_ok pml4 p k" and f: "fresh_frame (p, k) f (p', k')"
  shows "vm_ok pml4 p' k'" "evolves p k p' k'" "f \<in> loose pml4 p' k'"
    "unat w < 2 ^ 32 \<Longrightarrow> hw_walk (k_pt k') (unat pml4) w = hw_walk (k_pt k) (unat pml4) w"
proof -
  note F = vm_frames [OF v]
  have P: "f \<in> avail (k_pmm k)" "p' = p\<lparr>p_frames := p_frames p @ [f * 4096]\<rparr>" "own p' = insert f (own p)"
      "k_pt k' = (\<lambda>b. if b div 4096 = f then 0 else k_pt k b)" "pmm_inv (k_pmm k')" "avail (k_pmm k') = avail (k_pmm k) - {f}"
      "pmm_managed (k_pmm k') = pmm_managed (k_pmm k)" "k_mem k' = (\<lambda>b. if b div 4096 = f then 0 else k_mem k b)"
    using f unfolding fresh_frame_def prod.case by blast+
  have nt: "f \<notin> tbl_frames (k_pt k) (unat pml4)" using F(4,5) P(1) by blast
  let ?k = "k'\<lparr>k_pt := k_pt k\<rparr>"
  have "\<forall>a \<in> set (p_frames p @ [f * 4096]). 4096 dvd a" using v by (auto simp: vm_ok_def frames_ok_def)
  from vm_grow [OF v _ _ _ _ _ _ this, of ?k "{f}"] have v1: "vm_ok pml4 p' ?k"
    using P by (auto simp: own_def image_Un)
  have "k_pt k' b = k_pt ?k b" if "b div 4096 \<in> tbl_frames (k_pt ?k) (unat pml4)" for b using that nt by (auto simp: P(4))
  note C = vm_pt_change [OF v1 this]
  show v2: "vm_ok pml4 p' k'" using C(1) by simp
  show "unat w < 2 ^ 32 \<Longrightarrow> hw_walk (k_pt k') (unat pml4) w = hw_walk (k_pt k) (unat pml4) w" using C(3) by simp
  have "f \<notin> mframes m" if "m \<in> set (p_mappings p)" for m using vm_map(2) [OF v that] F(4) P(1) by blast
  then show "f \<in> loose pml4 p' k'" using C(2) nt by (simp add: loose_def P(3)) (simp add: P(2))
  show "evolves p k p' k'" using f P(1,3,6) unfolding evolves_def fresh_frame_def by (auto simp: P(4,8))
qed

end
