(* ===== verification/Loader_Segments.thy ===== *)
theory Loader_Segments
  imports Loader_Memory
begin

text \<open>
  Loading the segments of an executable: validation, the block of frames that holds them, its pages and
  their permissions, and the bytes a process finds there.
\<close>

section \<open>Validated segments\<close>

text \<open>The range of a segment lies in the file, above 2 MiB, below 4 GiB and outside the stack region.\<close>

definition seg_fits :: "u8 list \<Rightarrow> segment \<Rightarrow> bool" where
  "seg_fits data s \<longleftrightarrow> segment_ok data s \<and> unat (vaddr s) + unat (memsz s) \<le> 2 ^ 32 \<and> 0x200000 \<le> unat (vaddr s)
     \<and> (unat (vaddr s) + unat (memsz s) \<le> 0xFF00000 \<or> 0x10001000 \<le> unat (vaddr s))"

lemma validate_segment_fits:
  assumes "validate_segment hs he s = Ok ()" "segment_ok data s"
  shows "seg_fits data s"
proof -
  from assms(1) obtain e where e: "checked_add (vaddr s) (memsz s) = Some e" "\<not> vaddr s < MIN_SEGMENT_VADDR"
      "\<not> e > IDENTITY_MAP_END" "\<not> (vaddr s < USER_EXIT_STUB_VIRT + PAGE_SIZE \<and> e > USER_STACK_LOW_LIMIT)"
    by (cases "checked_add (vaddr s) (memsz s)")
      (auto simp: validate_segment_def Let_def and_then_def ok_or_def Err_def Ok_def split: if_splits)
  then show ?thesis
    using unat_checked_add [OF e(1)] assms(2)
    by (auto simp: seg_fits_def word_less_nat_alt word_le_nat_alt process_consts identity_end)
qed

lemma loop_result_Ok: "loop_result (\<lambda>x _. g x) xs () = Ok () \<longleftrightarrow> (\<forall>x \<in> set xs. g x = Ok ())"
proof (induction xs)
  case (Cons x xs)
  show ?case
  proof (cases "g x = Ok ()")
    case False
    then have "and_then (g x) (loop_result (\<lambda>x _. g x) xs) \<noteq> Ok ()"
      by (auto simp: and_then_def Ok_def split: option.splits sum.splits)
    then show ?thesis using False by simp
  qed (use Cons in simp)
qed simp

lemma validate_segments_fit:
  assumes "validate_segments hp prog = Ok ()" "\<forall>s \<in> set (segments prog). segment_ok data s"
  shows "\<forall>s \<in> set (segments prog). seg_fits data s"
  using assms validate_segment_fits
  by (auto simp: validate_segments_def loop_result_Ok split: prod.splits)

lemma validate_holds: "holds (\<lambda>_. True) (validate_segments hp prog)"
proof -
  have "holds (\<lambda>_. True) (validate_segment hs he s)" for hs he s
    unfolding validate_segment_def Let_def by (rule holds_then_ok_or) simp
  then show ?thesis unfolding validate_segments_def by (auto split: prod.splits intro: holds_loop)
qed

section \<open>The span\<close>

lemma fold_min:
  fixes g :: "'a \<Rightarrow> 'b::linorder"
  shows "fold (\<lambda>s. min (g s)) xs a \<le> a \<and> (\<forall>s \<in> set xs. fold (\<lambda>s. min (g s)) xs a \<le> g s)
     \<and> fold (\<lambda>s. min (g s)) xs a \<in> insert a (g ` set xs)"
proof (induction xs arbitrary: a)
  case (Cons x xs)
  from Cons [of "min (g x) a"] show ?case by (auto simp: min_def split: if_splits)
qed simp

lemma fold_max:
  fixes g :: "'a \<Rightarrow> 'b::linorder"
  shows "a \<le> fold (\<lambda>s. max (g s)) xs a \<and> (\<forall>s \<in> set xs. g s \<le> fold (\<lambda>s. max (g s)) xs a)
     \<and> fold (\<lambda>s. max (g s)) xs a \<in> insert a (g ` set xs)"
proof (induction xs arbitrary: a)
  case (Cons x xs)
  from Cons [of "max (g x) a"] show ?case by (auto simp: max_def split: if_splits)
qed simp

lemma page_up_bounds:
  fixes x :: nat
  shows "x \<le> (x + 4095) div 4096 * 4096" "x \<le> 2 ^ 32 \<Longrightarrow> (x + 4095) div 4096 * 4096 \<le> 2 ^ 32"
proof -
  have "(x + 4095) div 4096 * 4096 + (x + 4095) mod 4096 = x + 4095" "(x + 4095) mod 4096 < 4096" by simp_all
  then show "x \<le> (x + 4095) div 4096 * 4096" by linarith
  show "(x + 4095) div 4096 * 4096 \<le> 2 ^ 32" if "x \<le> 2 ^ 32"
    using div_le_mono [of "x + 4095" "2 ^ 32 + 4095" 4096] that by simp
qed

lemma seg_start_nat: "unat (seg_start s) = unat (vaddr s) div 4096 * 4096"
  unfolding seg_start_def by (rule page_down)

lemma seg_end_nat:
  assumes "unat (vaddr s) + unat (memsz s) \<le> 2 ^ 32"
  shows "unat (seg_end s) = (unat (vaddr s) + unat (memsz s) + 4095) div 4096 * 4096"
proof -
  have "unat (vaddr s + memsz s) = unat (vaddr s) + unat (memsz s)" using assms by (simp add: unat_word_ariths)
  then have "unat (vaddr s + memsz s + PAGE_SIZE - 1) = unat (vaddr s) + unat (memsz s) + 4095"
    using assms unfolding PAGE_SIZE_def by (simp add: unat_word_ariths add.assoc [symmetric])
  then show ?thesis unfolding seg_end_def align_up64_def page_down by simp
qed

definition span :: "segment list \<Rightarrow> u64 \<times> u64" where
  "span segs = (fold (\<lambda>s. min (seg_start s)) (tl segs) (seg_start (hd segs)), fold (\<lambda>s. max (seg_end s)) (tl segs) (seg_end (hd segs)))"

lemma span_props:
  assumes ne: "segs \<noteq> []" and fit: "\<forall>s \<in> set segs. seg_fits data s" and sp: "span segs = (S, E)"
  shows "S mod PAGE_SIZE = 0" "E mod PAGE_SIZE = 0" "unat S < unat E" "unat E \<le> 2 ^ 32"
    "s \<in> set segs \<Longrightarrow> unat S \<le> unat (vaddr s)" "s \<in> set segs \<Longrightarrow> unat (vaddr s) + unat (memsz s) \<le> unat E"
    "S \<noteq> USER_STACK_LOW_LIMIT"
proof -
  have segs: "set segs = insert (hd segs) (set (tl segs))" using ne by (cases segs) auto
  have S: "S \<in> seg_start ` set segs" "\<And>s. s \<in> set segs \<Longrightarrow> S \<le> seg_start s"
    using fold_min [where g = seg_start and xs = "tl segs" and a = "seg_start (hd segs)"] sp unfolding segs by (auto simp: span_def)
  have E: "E \<in> seg_end ` set segs" "\<And>s. s \<in> set segs \<Longrightarrow> seg_end s \<le> E"
    using fold_max [where g = seg_end and xs = "tl segs" and a = "seg_end (hd segs)"] sp unfolding segs by (auto simp: span_def)
  show "S mod PAGE_SIZE = 0" "E mod PAGE_SIZE = 0" using S(1) E(1) by (auto simp: seg_start_def seg_end_def)
  have fit': "unat (vaddr s) + unat (memsz s) \<le> 2 ^ 32" "memsz s \<noteq> 0" if "s \<in> set segs" for s
    using fit that by (auto simp: seg_fits_def segment_ok_def)
  show a: "unat S \<le> unat (vaddr s)" if "s \<in> set segs" for s
    using S(2) [OF that] by (simp add: word_le_nat_alt seg_start_nat)
  show b: "unat (vaddr s) + unat (memsz s) \<le> unat E" if "s \<in> set segs" for s
    using E(2) [OF that] page_up_bounds(1) [of "unat (vaddr s) + unat (memsz s)"] fit' [OF that]
    by (simp add: word_le_nat_alt seg_end_nat)
  show "unat E \<le> 2 ^ 32" using E(1) fit' page_up_bounds(2) by (auto simp: seg_end_nat)
  have hd: "hd segs \<in> set segs" using ne by simp
  show "unat S < unat E" using a [OF hd] b [OF hd] fit'(2) [OF hd] by (simp add: word_neq_0_conv word_less_nat_alt)
  show "S \<noteq> USER_STACK_LOW_LIMIT"
  proof
    assume "S = USER_STACK_LOW_LIMIT"
    then obtain s where s: "s \<in> set segs" "unat (vaddr s) div 4096 * 4096 = 0xFF00000"
      using S(1) by (auto simp: stack_consts(1) simp flip: seg_start_nat)
    moreover have "unat (vaddr s) div 4096 * 4096 + unat (vaddr s) mod 4096 = unat (vaddr s)" "unat (vaddr s) mod 4096 < 4096" by simp_all
    ultimately have "0xFF00000 \<le> unat (vaddr s)" "unat (vaddr s) < 0xFF01000" by linarith+
    moreover have "unat (memsz s) \<noteq> 0" using fit'(2) [OF s(1)] by (simp add: unat_eq_zero)
    ultimately show False using fit s(1) by (auto simp: seg_fits_def)
  qed
qed

section \<open>The pages\<close>

text \<open>The page of \<open>w\<close> in a block of frames from \<open>f\<close> on that holds the range from \<open>S\<close> on.\<close>

definition block_page :: "segment list \<Rightarrow> u64 \<Rightarrow> nat \<Rightarrow> u64 \<Rightarrow> u64 \<times> u64" where
  "block_page segs S f w = (let j = (unat w - unat S) div 4096
     in (of_nat ((f + j) * 4096), (page_flags segs (S + of_nat j * PAGE_SIZE) AND PRESENT_MASK) OR PAGE_PRESENT))"

definition block_mapped :: "u64 \<Rightarrow> segment list \<Rightarrow> u64 \<Rightarrow> nat \<Rightarrow> nat \<Rightarrow> kern \<Rightarrow> kern \<Rightarrow> bool" where
  "block_mapped pml4 segs S f i k1 k \<longleftrightarrow> (\<forall>w. unat w < 2 ^ 32 \<longrightarrow> hw_walk (k_pt k) (unat pml4) w =
     (if unat S \<le> unat w \<and> unat w < unat S + 4096 * i then Some (block_page segs S f w) else hw_walk (k_pt k1) (unat pml4) w))"

lemma page_flags_bits: "pte_user (page_flags segs v)" "\<not> bit (page_flags segs v) 7"
  unfolding page_flags_def by (rule user_flags_bits)+

definition loading_page :: "u64 \<Rightarrow> segment list \<Rightarrow> u64 \<Rightarrow> nat \<Rightarrow> nat \<Rightarrow> process \<times> kern \<Rightarrow> nat \<Rightarrow> process \<times> kern \<Rightarrow> bool" where
  "loading_page pml4 segs S f n st1 i st \<longleftrightarrow> (case (st1, st) of ((p1, k1), (p, k)) \<Rightarrow>
     (\<exists>fs. p = p1\<lparr>p_frames := fs\<rparr>) \<and> vm_ok pml4 p k \<and> evolves p1 k1 p k \<and> {f..<f + n} \<subseteq> loose pml4 p k
     \<and> k_mem k = k_mem k1 \<and> block_mapped pml4 segs S f i k1 k \<and> card (avail (k_pmm k1)) \<le> card (avail (k_pmm k)) + i)"

lemma load_page_runs:
  assumes b: "unat S mod 4096 = 0" "unat S + 4096 * n \<le> 2 ^ 32" "f + n \<le> 65536" and i: "i < n"
      and I: "loading_page pml4 segs S f n (p1, k1) i st"
  shows "runs (load_page pml4 segs S (f * 4096) i) st
     (outcome (\<lambda>(p, k). vm_ok pml4 p k \<and> evolves p1 k1 p k \<and> (\<exists>fs. p = p1\<lparr>p_frames := fs\<rparr>) \<and> card (avail (k_pmm k1)) < n)
       (\<lambda>_. loading_page pml4 segs S f n (p1, k1) (Suc i)))"
proof -
  obtain p k where st: "st = (p, k)" by (cases st)
  note I = I [unfolded loading_page_def st prod.case]
  define v where "v = S + of_nat i * PAGE_SIZE"
  define m where "m = \<lparr>m_vaddr = v, m_phys = of_nat ((f + i) * 4096), m_len = PAGE_SIZE, m_shm_id = None\<rparr>"
  have "unat S + 4096 * i < 2 ^ 32" using b(2) i by simp
  then have v: "unat v = unat S + 4096 * i"
    unfolding v_def PAGE_SIZE_def by (simp add: unat_word_ariths unat_of_nat mult.commute)
  have ph: "unat (of_nat ((f + i) * 4096) :: u64) = (f + i) * 4096"
    using b(3) i by (simp add: unat_of_nat del: of_nat_mult of_nat_add)
  have ps: "unat PAGE_SIZE = 4096" by (simp add: PAGE_SIZE_def)
  have ok: "map_ok m" using b(1,2) i v ph by (simp add: map_ok_def m_def page_mod ps) (simp add: PAGE_SIZE_def)
  have mf: "mframes m = {f + i}" by (simp only: mframes_def m_def mapping.select_convs ph ps) auto
  have b52: "unat (m_phys m) + unat (m_len m) \<le> 2 ^ 52" using b(3) i ph by (simp add: m_def ps del: of_nat_mult of_nat_add)
  have lo: "mframes m \<subseteq> loose pml4 p k" using I i by (auto simp: mf)
  obtain c fs k' where R: "map_in pml4 v (of_nat ((f + i) * 4096)) PAGE_SIZE (page_flags segs v) (p, k) = Some (c, p\<lparr>p_frames := fs\<rparr>, k')"
      "vm_ok pml4 (p\<lparr>p_frames := fs\<rparr>) k'" "evolves p k (p\<lparr>p_frames := fs\<rparr>) k'" "loose pml4 p k \<subseteq> loose pml4 (p\<lparr>p_frames := fs\<rparr>) k'"
    using map_in_keep [OF _ page_flags_bits [of segs v] _ b52 disjI1 [OF lo]] I
    by (auto simp: m_def simp del: of_nat_mult of_nat_add)
  have ev: "evolves p1 k1 (p\<lparr>p_frames := fs\<rparr>) k'" using I R(3) evolves_trans by blast
  obtain x where "card (avail (k_pmm k)) \<le> card (avail (k_pmm k')) + x" "4096 * x \<le> 4096" "\<not> c \<longrightarrow> avail (k_pmm k') = {} \<and> 4096 * x < 4096"
    using map_in_cost [OF _ ok b52 page_flags_bits(2), of pml4 p k segs v c] I R(1) by (auto simp: m_def ps simp del: of_nat_mult of_nat_add)
  then have cost: "card (avail (k_pmm k1)) \<le> card (avail (k_pmm k')) + Suc i" "\<not> c \<longrightarrow> card (avail (k_pmm k1)) < n" using I i by auto
  have "block_mapped pml4 segs S f (Suc i) k1 k'" if c: c
    unfolding block_mapped_def
  proof (intro allI impI)
    fix w :: u64 assume w: "unat w < 2 ^ 32"
    have "hw_walk (k_pt k') (unat pml4) w = mapped v (of_nat ((f + i) * 4096)) 1 (page_flags segs v) (hw_walk (k_pt k) (unat pml4)) w"
      using map_in_walk [OF _ ok b52 page_flags_bits(2), of pml4 p k segs v _ _ w] I R(1) c w
      by (simp add: m_def ps del: of_nat_mult of_nat_add)
    moreover have "hw_walk (k_pt k) (unat pml4) w =
       (if unat S \<le> unat w \<and> unat w < unat S + 4096 * i then Some (block_page segs S f w) else hw_walk (k_pt k1) (unat pml4) w)"
      using I w by (simp add: block_mapped_def)
    moreover have "(unat w - unat S) div 4096 = i" "(unat w - unat v) div 4096 = 0" if "unat v \<le> unat w" "unat w < unat v + 4096"
      using that v by (auto simp: div_nat_eqI)
    ultimately show "hw_walk (k_pt k') (unat pml4) w =
       (if unat S \<le> unat w \<and> unat w < unat S + 4096 * Suc i then Some (block_page segs S f w) else hw_walk (k_pt k1) (unat pml4) w)"
      using v by (auto simp: mapped_def block_page_def Let_def v_def [symmetric] simp del: of_nat_mult of_nat_add)
  qed
  moreover have "k_mem k' = k_mem k1" using map_in_mem [OF R(1)] I by simp
  ultimately have "loading_page pml4 segs S f n (p1, k1) (Suc i) (p\<lparr>p_frames := fs\<rparr>, k')" if c
    using that R(2,4) ev I cost(1) unfolding loading_page_def prod.case by auto
  moreover have "of_nat (f * 4096 + i * FRAME_SIZE) = (of_nat ((f + i) * 4096) :: u64)" by (simp add: FRAME_SIZE_def algebra_simps)
  ultimately show ?thesis using R(1,2) ev I cost(2) unfolding load_page_def Let_def v_def [symmetric] st
    by (cases c) (auto simp: runs_def or_fail_def simp del: of_nat_mult of_nat_add)
qed

section \<open>The bytes\<close>

text \<open>Where a segment lies in the block.\<close>

definition seg_off :: "u64 \<Rightarrow> segment \<Rightarrow> nat" where
  "seg_off S s = unat (vaddr s) - unat S"

definition seg_write :: "u8 list \<Rightarrow> u64 \<Rightarrow> usize \<Rightarrow> segment \<Rightarrow> (usize \<Rightarrow> u8) \<Rightarrow> usize \<Rightarrow> u8" where
  "seg_write data S phys s = put_bytes (phys + unat (vaddr s - S)) (take (unat (filesz s)) (drop (unat (file_offset s)) data))"

lemma put_bytes_Nil: "put_bytes d [] m = m"
  by (rule ext) (auto simp: put_bytes_def)

lemma copy_segments_run:
  assumes "\<forall>s \<in> set segs. segment_ok data s"
  shows "loop_op (copy_segment data S phys) segs (p, k) = Some (Inr (), p, upd_mem (fold (seg_write data S phys) segs) k)"
  using assms
proof (induction segs arbitrary: k)
  case (Cons s segs)
  have "copy_segment data S phys s (p, k) = Some (Inr (), p, upd_mem (seg_write data S phys s) k)"
    using Cons.prems
    by (auto simp: copy_segment_def bnd_def panics_def slice_def segment_ok_def on_kern_def ret_def seg_write_def put_bytes_Nil kern_simps)
  then show ?case using Cons by (simp add: bnd_def upd_mem_comp comp_def)
qed (simp add: ret_def kern_simps)

lemma seg_write_at:
  assumes "segment_ok data s" "unat S \<le> unat (vaddr s)"
  shows "seg_write data S phys s m x = (if phys + seg_off S s \<le> x \<and> x < phys + seg_off S s + unat (filesz s)
     then data ! (unat (file_offset s) + (x - (phys + seg_off S s))) else m x)"
proof -
  have "unat (vaddr s - S) = seg_off S s" using assms(2) by (simp add: seg_off_def unat_sub word_le_nat_alt)
  then show ?thesis using assms(1) by (auto simp: seg_write_def put_bytes_def segment_ok_def)
qed

lemma seg_writes_outside:
  assumes "\<forall>s \<in> set segs. segment_ok data s \<and> unat S \<le> unat (vaddr s)
      \<and> \<not> (phys + seg_off S s \<le> x \<and> x < phys + seg_off S s + unat (filesz s))"
  shows "fold (seg_write data S phys) segs m x = m x"
  using assms
proof (induction segs arbitrary: m)
  case (Cons s segs)
  then have "seg_write data S phys s m x = m x" by (auto simp: seg_write_at)
  then show ?case using Cons.IH [of "seg_write data S phys s m"] Cons.prems by simp
qed simp

text \<open>Segments that do not overlap in memory: each finds its bytes.\<close>

definition apart :: "segment \<Rightarrow> segment \<Rightarrow> bool" where
  "apart s t \<longleftrightarrow> unat (vaddr s) + unat (memsz s) \<le> unat (vaddr t) \<or> unat (vaddr t) + unat (memsz t) \<le> unat (vaddr s)"

lemma seg_writes_at:
  assumes "\<forall>s \<in> set segs. segment_ok data s \<and> unat S \<le> unat (vaddr s)" "sorted_wrt apart segs" "s \<in> set segs" "i < unat (memsz s)"
  shows "fold (seg_write data S phys) segs m (phys + seg_off S s + i)
    = (if i < unat (filesz s) then data ! (unat (file_offset s) + i) else m (phys + seg_off S s + i))"
  using assms
proof (induction segs arbitrary: m)
  case (Cons t segs)
  let ?x = "phys + seg_off S s + i"
  have le: "unat (filesz u) \<le> unat (memsz u)" if "u \<in> set (t # segs)" for u
    using Cons.prems(1) that by (auto simp: segment_ok_def word_le_nat_alt)
  show ?case
  proof (cases "s \<in> set segs")
    case True
    then have "apart t s" using Cons.prems(2) by simp
    then have "seg_write data S phys t m ?x = m ?x"
      using Cons.prems(1,3,4) le [of t] by (auto simp: seg_write_at apart_def seg_off_def)
    then show ?thesis using Cons.IH [of "seg_write data S phys t m"] Cons.prems True by simp
  next
    case False
    then have s: "s = t" using Cons.prems(3) by simp
    have "fold (seg_write data S phys) segs (seg_write data S phys t m) ?x = seg_write data S phys t m ?x"
    proof (rule seg_writes_outside, rule ballI)
      fix u assume u: "u \<in> set segs"
      then have "apart s u" using Cons.prems(2) s by simp
      then show "segment_ok data u \<and> unat S \<le> unat (vaddr u) \<and>
          \<not> (phys + seg_off S u \<le> ?x \<and> ?x < phys + seg_off S u + unat (filesz u))"
        using Cons.prems(1,3,4) u le [of u] by (auto simp: apart_def seg_off_def)
    qed
    then show ?thesis using Cons.prems(1) s by (simp add: seg_write_at)
  qed
qed simp

section \<open>All segments\<close>

lemma fresh_loose:
  assumes "vm_ok pml4 p k" "own p1 = own p \<union> N" "N \<inter> own p = {}" "k_pt k1 = k_pt k" "p_mappings p1 = p_mappings p"
  shows "N \<subseteq> loose pml4 p1 k1"
proof -
  have "N \<inter> mframes m = {}" if "m \<in> set (p_mappings p)" for m using vm_map(2) [OF assms(1) that] assms(3) by blast
  then show ?thesis using vm_frames(5) [OF assms(1)] assms by (auto simp: loose_def)
qed

lemma runs_pages:
  assumes ok: "vm_ok pml4 p k"
  shows "runs (pages_or_fail n) (p, k) (outcome (\<lambda>st. st = (p, k) \<and> (n = 0 \<or> (\<forall>s. \<not> free_run (k_pmm k) s n))) (\<lambda>phys st. \<exists>f fs k1. phys = f * 4096 \<and> st = (p\<lparr>p_frames := fs\<rparr>, k1)
     \<and> vm_ok pml4 (p\<lparr>p_frames := fs\<rparr>) k1 \<and> evolves p k (p\<lparr>p_frames := fs\<rparr>) k1 \<and> 0 < n \<and> {f..<f + n} \<subseteq> avail (k_pmm k)
     \<and> own (p\<lparr>p_frames := fs\<rparr>) = own p \<union> {f..<f + n} \<and> k_pt k1 = k_pt k \<and> {f..<f + n} \<subseteq> loose pml4 (p\<lparr>p_frames := fs\<rparr>) k1 \<and> f + n \<le> 65536
     \<and> card (avail (k_pmm k)) = card (avail (k_pmm k1)) + n))"
proof -
  consider "alloc_pages n (p, k) = Some (None, p, k)"
    | f fs k1 where "alloc_pages n (p, k) = Some (Some (f * 4096), p\<lparr>p_frames := fs\<rparr>, k1)" "vm_ok pml4 (p\<lparr>p_frames := fs\<rparr>) k1"
        "evolves p k (p\<lparr>p_frames := fs\<rparr>) k1" "0 < n" "{f..<f + n} \<subseteq> avail (k_pmm k)"
        "own (p\<lparr>p_frames := fs\<rparr>) = own p \<union> {f..<f + n}" "k_pt k1 = k_pt k"
    using alloc_pages_keep [OF ok, of n] by blast
  then show ?thesis
  proof cases
    case 1
    then have "n = 0 \<or> (\<forall>s. \<not> free_run (k_pmm k) s n)"
      using alloc_contiguous_spec [OF vm_frames(1) [OF ok], of n] by (cases "n = 0") (auto simp: alloc_pages_def)
    with 1 show ?thesis by (simp add: runs_def pages_or_fail_def)
  next
    case 2
    have "avail (k_pmm k) = avail (k_pmm k1) \<union> {f..<f + n}" "avail (k_pmm k1) \<inter> {f..<f + n} = {}"
      using 2(3,5,6) vm_frames(4) [OF 2(2)] vm_frames(4) [OF ok] unfolding evolves_def by blast+
    then have card: "card (avail (k_pmm k)) = card (avail (k_pmm k1)) + n" by (simp add: card_Un_disjoint)
    have "{f..<f + n} \<inter> own p = {}" using 2(5) vm_frames(4) [OF ok] by blast
    from fresh_loose [OF ok 2(6) this 2(7)] have l: "{f..<f + n} \<subseteq> loose pml4 (p\<lparr>p_frames := fs\<rparr>) k1" by simp
    have "f + n - 1 \<in> own (p\<lparr>p_frames := fs\<rparr>)" using 2(4,6) by auto
    then have "f + n \<le> 65536" using vm_frames(6) [OF 2(2)] 2(4) by fastforce
    with 2 l card show ?thesis by (auto simp: runs_def pages_or_fail_def)
  qed
qed

text \<open>The block is mapped and recorded, and holds the segments over zeroes.\<close>

definition loaded :: "u64 \<Rightarrow> segment list \<Rightarrow> u8 list \<Rightarrow> u64 \<Rightarrow> u64 \<Rightarrow> process \<times> kern \<Rightarrow> process \<times> kern \<Rightarrow> bool" where
  "loaded pml4 segs data S E st st' \<longleftrightarrow> (case (st, st') of ((p, k), (p', k')) \<Rightarrow>
     (\<exists>f n fs. 0 < n \<and> unat E = unat S + 4096 * n \<and> f + n \<le> 65536 \<and> {f..<f + n} \<subseteq> avail (k_pmm k)
        \<and> p' = add_mapping \<lparr>m_vaddr = S, m_phys = of_nat (f * 4096), m_len = E - S, m_shm_id = None\<rparr> (p\<lparr>p_frames := fs\<rparr>)
        \<and> block_mapped pml4 segs S f n k k'
        \<and> (\<forall>b. b div 4096 \<in> {f..<f + n} \<longrightarrow> k_mem k' b = fold (seg_write data S (f * 4096)) segs (\<lambda>_. 0) b))
     \<and> vm_ok pml4 p' k' \<and> evolves p k p' k')"

lemma block_covers:
  assumes S: "unat S + 4096 * n \<le> 2 ^ 32" "f + n \<le> 65536" and w: "unat S \<le> unat w" "unat w < unat S + 4096 * n" and len: "unat len = 4096 * n"
  shows "covers \<lparr>m_vaddr = S, m_phys = of_nat (f * 4096), m_len = len, m_shm_id = None\<rparr> w (fst (block_page segs S f w))"
proof -
  have "fst (block_page segs S f w) = of_nat (f * 4096 + (unat w - unat S) div 4096 * 4096)"
    by (simp only: block_page_def Let_def fst_conv distrib_right)
  then show ?thesis using w len by (simp add: covers_def in_map_def)
qed

lemma fold_write_local:
  assumes "m b = m' b"
  shows "fold (seg_write data S phys) segs m b = fold (seg_write data S phys) segs m' b"
  using assms
proof (induction segs arbitrary: m m')
  case (Cons s segs)
  have "seg_write data S phys s m b = seg_write data S phys s m' b" using Cons.prems by (simp add: seg_write_def put_bytes_def)
  from Cons.IH [of "seg_write data S phys s m" "seg_write data S phys s m'", OF this] show ?case by (simp only: fold_Cons comp_apply)
qed simp

lemma load_rest:
  assumes ok: "vm_ok pml4 p k" and segs: "segs \<noteq> []" "\<forall>s \<in> set segs. seg_fits data s" "span segs = (S, E)"
      and n: "unat E = unat S + 4096 * n" "f + n \<le> 65536" "{f..<f + n} \<subseteq> avail (k_pmm k)"
      and p1: "p1 = p\<lparr>p_frames := fs1\<rparr>" "evolves p k p1 k1" "k_pt k1 = k_pt k"
      and I: "loading_page pml4 segs S f n (p1, k1) n (p2, k2)"
  defines "M \<equiv> \<lparr>m_vaddr = S, m_phys = of_nat (f * 4096), m_len = E - S, m_shm_id = None\<rparr>"
  shows "loaded pml4 segs data S E (p, k)
     (add_mapping M p2, upd_mem (\<lambda>m. fold (seg_write data S (f * 4096)) segs (write_bytes (f * 4096) 0 (unat (E - S)) m)) k2)"
proof -
  note sp = span_props [OF segs]
  note I = I [unfolded loading_page_def prod.case]
  let ?N = "{f..<f + n}"
  define g where "g = (\<lambda>m. fold (seg_write data S (f * 4096)) segs (write_bytes (f * 4096) 0 (unat (E - S)) m))"
  have len: "unat (E - S) = 4096 * n" using n(1) by (simp add: unat_sub word_le_nat_alt)
  have n0: "0 < n" using n(1) sp(3) by simp
  have sok: "\<forall>s \<in> set segs. segment_ok data s" using segs(2) by (simp add: seg_fits_def)
  have gout: "g m b = m b" if "b div 4096 \<notin> ?N" for m b
  proof -
    have "\<not> (f * 4096 + seg_off S s \<le> b \<and> b < f * 4096 + seg_off S s + unat (filesz s))" if s: "s \<in> set segs" for s
    proof -
      have "seg_off S s + unat (filesz s) \<le> 4096 * n"
        using sp(5,6) [OF s] sok s n(1) by (auto simp: seg_off_def segment_ok_def word_le_nat_alt)
      then show ?thesis using \<open>b div 4096 \<notin> ?N\<close> page_range [of f b n] by auto
    qed
    then have "g m b = write_bytes (f * 4096) 0 (unat (E - S)) m b"
      unfolding g_def using sok sp(5) by (intro seg_writes_outside) auto
    then show ?thesis using that page_range [of f b n] by (auto simp: write_bytes_def len)
  qed
  have gin: "g m b = fold (seg_write data S (f * 4096)) segs (\<lambda>_. 0) b" if "b div 4096 \<in> ?N" for m b
    unfolding g_def by (rule fold_write_local) (use that in \<open>auto simp: write_bytes_def len\<close>)
  have N: "?N \<subseteq> own p2" using I by (auto simp: loose_def)
  have "vm_ok pml4 p2 k2" "\<And>m b. b div 4096 \<notin> own p2 \<Longrightarrow> g m b = m b" using I gout N by blast+
  note v2 = fill_keep [where g = g, OF this]
  have mf: "mframes M = ?N" using n(2) by (simp add: mframes_def M_def len unat_of_nat del: of_nat_mult)
  have mok: "map_ok M" using sp(1-4) n n0 len
    by (simp add: map_ok_def M_def page_mod unat_of_nat del: of_nat_mult) (use sp(3) in auto)
  have wk: "block_mapped pml4 segs S f n k (upd_mem g k2)" using I by (simp add: block_mapped_def v2(3) p1(3))
  have lo: "mframes M \<subseteq> loose pml4 p2 (upd_mem g k2)" using I v2(3) by (simp add: mf loose_def)
  have page: "hw_walk (k_pt (upd_mem g k2)) (unat pml4) w = Some (block_page segs S f w)" "unat w < 2 ^ 32" if "in_map M w" for w
  proof -
    show "unat w < 2 ^ 32" using that mok by (auto simp: in_map_def map_ok_def)
    then show "hw_walk (k_pt (upd_mem g k2)) (unat pml4) w = Some (block_page segs S f w)"
      using wk that by (simp add: block_mapped_def in_map_def M_def len)
  qed
  have user: "pte_user (snd (block_page segs S f w))" for w
    by (simp add: block_page_def Let_def user_masked page_flags_bits)
  have sm: "small_at (unat pml4) (mmu_of (upd_mem g k2)) w" if "in_map M w" for w
    using pages_okD(1) [of pml4 p2 "upd_mem g k2" w "fst (block_page segs S f w)" "snd (block_page segs S f w)"] page [OF that] user v2(1)
    by (simp add: vm_ok_def)
  have "vm_ok pml4 (add_mapping M p2) (upd_mem g k2)"
  proof (rule add_mapping_keep [OF v2(1) mok lo sm])
    fix w a fl assume w: "unat w < 2 ^ 32" "hw_walk (k_pt (upd_mem g k2)) (unat pml4) w = Some (a, fl)" "pte_user fl" "unat a div 4096 \<in> mframes M"
    have "?N \<inter> own p = {}" using n(3) vm_frames(4) [OF ok] by blast
    then have "hw_walk (k_pt k) (unat pml4) w \<noteq> Some (a, fl)" using vm_reach [OF ok w(1) _ w(3)] w(4) mf by blast
    then have r: "unat S \<le> unat w" "unat w < unat S + 4096 * n" "a = fst (block_page segs S f w)"
      using wk w(1,2) by (auto simp: block_mapped_def split: if_splits)
    show "covers M w a" unfolding M_def r(3) by (rule block_covers [OF _ n(2) r(1,2) len]) (use sp(4) n(1) in simp)
  qed
  moreover have "evolves p k (add_mapping M p2) (upd_mem g k2)"
    using evolves_trans [OF p1(2) evolves_trans [OF _ v2(2)]] I by (simp add: evolves_fields)
  moreover have "k_mem (upd_mem g k2) b = fold (seg_write data S (f * 4096)) segs (\<lambda>_. 0) b" if "b div 4096 \<in> ?N" for b
    using gin [OF that] by (simp add: kern_simps)
  moreover obtain fs where "p2 = p\<lparr>p_frames := fs\<rparr>" using I p1(1) by auto
  ultimately show ?thesis using n n0 wk unfolding loaded_def M_def g_def prod.case
    by (intro conjI exI [of _ f] exI [of _ n] exI [of _ fs]) auto
qed

text \<open>No room for a block of \<open>len\<close> bytes and the tables that map it.\<close>

definition short_of :: "nat \<Rightarrow> kern \<Rightarrow> bool" where
  "short_of len k \<longleftrightarrow> (\<forall>s. \<not> free_run (k_pmm k) s (len div 4096)) \<or> card (avail (k_pmm k)) < 2 * (len div 4096)"

lemma load_segments_runs:
  assumes ok: "vm_ok pml4 p k" and segs: "segs \<noteq> []" "\<forall>s \<in> set segs. seg_fits data s" "span segs = (S, E)"
  shows "runs (load_segments pml4 segs data) (p, k)
     (outcome (\<lambda>(p', k'). vm_ok pml4 p' k' \<and> evolves p k p' k' \<and> (\<exists>fs. p' = p\<lparr>p_frames := fs\<rparr>) \<and> short_of (unat E - unat S) k)
       (\<lambda>_. loaded pml4 segs data S E (p, k)))"
    (is "runs _ _ (outcome ?E ?P)")
proof -
  note sp = span_props [OF segs]
  define n where "n = unat ((E - S) div PAGE_SIZE)"
  have le: "S \<le> E" using sp(3) by (simp add: word_le_nat_alt)
  have "(E - S) mod PAGE_SIZE = 0" by (rule mod_diff [OF sp(2,1) le])
  then have "unat (E - S) = 4096 * n" unfolding n_def by (rule page_count)
  then have n: "unat E = unat S + 4096 * n" using le by (simp add: unat_sub word_le_nat_alt)
  then have n0: "n \<noteq> 0" and short: "short_of (unat E - unat S) k \<longleftrightarrow> (\<forall>s. \<not> free_run (k_pmm k) s n) \<or> card (avail (k_pmm k)) < 2 * n"
    using sp(3) by (auto simp: short_of_def)
  have S: "unat S mod 4096 = 0" using sp(1) by (simp add: page_mod)
  have sok: "\<forall>s \<in> set segs. segment_ok data s" using segs(2) by (simp add: seg_fits_def)
  have run: "load_segments pml4 segs data = bnd (pages_or_fail n) (\<lambda>phys.
             bnd (loop_op (load_page pml4 segs S phys) [0..<n]) (\<lambda>_.
             bnd (on_kern (upd_mem (write_bytes phys 0 (unat (E - S))))) (\<lambda>_.
             bnd (loop_op (copy_segment data S phys) segs) (\<lambda>_.
             on_proc (add_mapping \<lparr>m_vaddr = S, m_phys = of_nat phys, m_len = E - S, m_shm_id = None\<rparr>)))))"
    using segs(1,3) by (cases segs) (auto simp: load_segments_def span_def n_def Let_def)
  show ?thesis unfolding run
  proof (rule runs_bnd [OF runs_mono [OF runs_pages [OF ok]]])
    fix phys st assume "\<exists>f fs k1. phys = f * 4096 \<and> st = (p\<lparr>p_frames := fs\<rparr>, k1)
     \<and> vm_ok pml4 (p\<lparr>p_frames := fs\<rparr>) k1 \<and> evolves p k (p\<lparr>p_frames := fs\<rparr>) k1 \<and> 0 < n \<and> {f..<f + n} \<subseteq> avail (k_pmm k)
     \<and> own (p\<lparr>p_frames := fs\<rparr>) = own p \<union> {f..<f + n} \<and> k_pt k1 = k_pt k \<and> {f..<f + n} \<subseteq> loose pml4 (p\<lparr>p_frames := fs\<rparr>) k1 \<and> f + n \<le> 65536
     \<and> card (avail (k_pmm k)) = card (avail (k_pmm k1)) + n"
    then obtain f fs k1 where A: "phys = f * 4096" "st = (p\<lparr>p_frames := fs\<rparr>, k1)"
      "vm_ok pml4 (p\<lparr>p_frames := fs\<rparr>) k1" "evolves p k (p\<lparr>p_frames := fs\<rparr>) k1" "{f..<f + n} \<subseteq> avail (k_pmm k)"
      "k_pt k1 = k_pt k" "{f..<f + n} \<subseteq> loose pml4 (p\<lparr>p_frames := fs\<rparr>) k1" "f + n \<le> 65536"
      "card (avail (k_pmm k)) = card (avail (k_pmm k1)) + n" by blast
    let ?p1 = "p\<lparr>p_frames := fs\<rparr>" and ?I = "loading_page pml4 segs S f n (p\<lparr>p_frames := fs\<rparr>, k1)"
    have b: "unat S + 4096 * n \<le> 2 ^ 32" using n sp(4) by simp
    have "?I 0 (?p1, k1)" using A(3,7) by (auto simp: loading_page_def block_mapped_def intro!: exI [of _ fs])
    then have loop: "runs (loop_op (load_page pml4 segs S (f * 4096)) [0..<n]) (?p1, k1)
        (outcome (\<lambda>(p', k'). vm_ok pml4 p' k' \<and> evolves ?p1 k1 p' k' \<and> (\<exists>fs. p' = ?p1\<lparr>p_frames := fs\<rparr>) \<and> card (avail (k_pmm k1)) < n) (\<lambda>_. ?I n))"
      by (intro runs_loop load_page_runs [OF S b A(8)]) auto
    have fin: "runs (bnd (on_kern (upd_mem (write_bytes phys 0 (unat (E - S))))) (\<lambda>_.
             bnd (loop_op (copy_segment data S phys) segs) (\<lambda>_.
             on_proc (add_mapping \<lparr>m_vaddr = S, m_phys = of_nat phys, m_len = E - S, m_shm_id = None\<rparr>)))) st' (outcome ?E ?P)"
      if st': "?I n st'" for st'
    proof -
      obtain p2 k2 where st2: "st' = (p2, k2)" by (cases st')
      note L = load_rest [OF ok segs n A(8,5) refl A(4,6) st' [unfolded st2]]
      have cs: "loop_op (copy_segment data S phys) segs (p2, upd_mem (write_bytes phys 0 (unat (E - S))) k2)
          = Some (Inr (), p2, upd_mem (\<lambda>m. fold (seg_write data S phys) segs (write_bytes phys 0 (unat (E - S)) m)) k2)"
        unfolding copy_segments_run [OF sok] upd_mem_comp ..
      show ?thesis unfolding st2
        by (rule runs_then, simp only: runs_on_kern outcome_simps, rule runs_then)
          (simp only: runs_def cs, use L in \<open>auto simp: A(1) on_proc_def\<close>)
    qed
    show "runs (bnd (loop_op (load_page pml4 segs S phys) [0..<n]) (\<lambda>_.
             bnd (on_kern (upd_mem (write_bytes phys 0 (unat (E - S))))) (\<lambda>_.
             bnd (loop_op (copy_segment data S phys) segs) (\<lambda>_.
             on_proc (add_mapping \<lparr>m_vaddr = S, m_phys = of_nat phys, m_len = E - S, m_shm_id = None\<rparr>))))) st (outcome ?E ?P)"
      unfolding A(1,2)
      by (rule runs_bnd [OF runs_mono [OF loop]]) (use A(4,9) evolves_trans fin A(1) in \<open>auto simp: short\<close>)
  qed (use ok n0 in \<open>auto simp: short intro!: exI [of _ "p_frames p"]\<close>)
qed

section \<open>What a process finds in its block\<close>

definition shares_page :: "segment \<Rightarrow> u64 \<Rightarrow> bool" where
  "shares_page s w \<longleftrightarrow> unat (vaddr s) < (unat w div 4096 + 1) * 4096 \<and> unat w div 4096 * 4096 < unat (vaddr s) + unat (memsz s)"

lemma page_split:
  fixes x y :: nat
  assumes "x mod 4096 = 0" "x \<le> y"
  shows "x + (y - x) div 4096 * 4096 = y div 4096 * 4096" "(y - x) div 4096 * 4096 + y mod 4096 = y - x"
proof -
  obtain c where c: "x = 4096 * c" using assms(1) by (auto simp: mod_eq_0_iff_dvd)
  obtain d where d: "y = x + d" using assms(2) le_Suc_ex by blast
  show "x + (y - x) div 4096 * 4096 = y div 4096 * 4096" "(y - x) div 4096 * 4096 + y mod 4096 = y - x"
    by (simp_all add: c d)
qed

lemma on_page_nat:
  assumes "unat v = unat w div 4096 * 4096" "unat w < 2 ^ 32" "unat (vaddr s) + unat (memsz s) \<le> 2 ^ 32"
  shows "on_page v s \<longleftrightarrow> shares_page s w"
proof -
  have "unat v + 4096 \<le> 2 ^ 32 + 4096" using assms(1,2) by simp
  then have "unat (v + PAGE_SIZE) = unat v + 4096" by (intro word_step) simp
  moreover have "unat (vaddr s + memsz s) = unat (vaddr s) + unat (memsz s)" using assms(3) by (simp add: unat_word_ariths)
  ultimately show ?thesis by (simp add: on_page_def shares_page_def word_less_nat_alt assms(1) add.commute)
qed

lemma user_flags_fields:
  "bit ((user_flags w x AND PRESENT_MASK) OR PAGE_PRESENT) 1 \<longleftrightarrow> w" "bit ((user_flags w x AND PRESENT_MASK) OR PAGE_PRESENT) 63 \<longleftrightarrow> \<not> x"
  by (auto simp: user_flags_def bit_or_iff bit_and_iff bit_PAGE_WRITABLE)

lemma block_page_at:
  assumes segs: "\<forall>s \<in> set segs. seg_fits data s" and S: "unat S mod 4096 = 0" "f + n \<le> 65536"
      and w: "unat S \<le> unat w" "unat w < unat S + 4096 * n" "unat w < 2 ^ 32"
  obtains a fl where "block_page segs S f w = (a, fl)" "unat a + unat w mod 4096 = f * 4096 + (unat w - unat S)" "pte_user fl"
    "bit fl 1 \<longleftrightarrow> (\<exists>s \<in> set segs. writable s \<and> shares_page s w)" "bit fl 63 \<longleftrightarrow> \<not> (\<exists>s \<in> set segs. executable s \<and> shares_page s w)"
proof -
  define j where "j = (unat w - unat S) div 4096"
  define v where "v = S + of_nat j * PAGE_SIZE"
  have j: "j < n" using w unfolding j_def by auto
  have v: "unat v = unat w div 4096 * 4096"
  proof -
    have e: "unat S + j * 4096 = unat w div 4096 * 4096" unfolding j_def by (rule page_split(1) [OF S(1) w(1)])
    then have "unat S + j * 4096 < 2 ^ 32" using w(3) by (metis div_times_less_eq_dividend le_less_trans)
    then show ?thesis using e unfolding v_def PAGE_SIZE_def by (simp add: unat_word_ariths unat_of_nat)
  qed
  have on: "on_page v s = shares_page s w" if "s \<in> set segs" for s
    using on_page_nat [OF v w(3)] segs that by (simp add: seg_fits_def)
  have "unat (of_nat ((f + j) * 4096) :: u64) = (f + j) * 4096" using S(2) j by (simp add: unat_of_nat del: of_nat_mult of_nat_add)
  moreover have "j * 4096 + unat w mod 4096 = unat w - unat S" unfolding j_def by (rule page_split(2) [OF S(1) w(1)])
  ultimately have "unat (of_nat ((f + j) * 4096) :: u64) + unat w mod 4096 = f * 4096 + (unat w - unat S)" by (simp only: distrib_right)
  moreover have "block_page segs S f w = (of_nat ((f + j) * 4096), (page_flags segs v AND PRESENT_MASK) OR PAGE_PRESENT)"
    by (simp only: block_page_def Let_def j_def [symmetric] v_def [symmetric])
  moreover have "pte_user ((page_flags segs v AND PRESENT_MASK) OR PAGE_PRESENT)" by (simp add: user_masked page_flags_bits)
  moreover have "bit ((page_flags segs v AND PRESENT_MASK) OR PAGE_PRESENT) 1 \<longleftrightarrow> (\<exists>s \<in> set segs. writable s \<and> shares_page s w)"
      "bit ((page_flags segs v AND PRESENT_MASK) OR PAGE_PRESENT) 63 \<longleftrightarrow> \<not> (\<exists>s \<in> set segs. executable s \<and> shares_page s w)"
    unfolding page_flags_def user_flags_fields list_ex_iff using on by blast+
  ultimately show ?thesis using that by blast
qed

section \<open>Properties\<close>


definition demo_seg :: segment where
  "demo_seg = \<lparr>vaddr = 0x300123, file_offset = 0, filesz = 2, memsz = 3, writable = False, executable = True\<rparr>"

lemma demo_run: "1 \<le> n \<Longrightarrow> n \<le> 65272 \<Longrightarrow> free_run (k_pmm demo_kern) 264 n" "card (avail (k_pmm demo_kern)) = 65272"
  by (auto simp: free_run_def demo_avail demo_kern_def)


text \<open>C16: validation looks at each segment, loading maps the whole span. When the kernel heap lies between two
  segments of a program, the program passes the validation although the check means to keep processes out
  of the heap, and with enough memory \<open>load_segments\<close> then succeeds and maps every address of the kernel
  heap to a frame of the process, for ring 3; the kernel runs on these tables while the process does.\<close>
theorem load_segments_covers_kernel_heap:
  assumes "vm_ok pml4 p k" "program_ok data prog" "validate_segments hp prog = Ok ()"
      "s \<in> set (segments prog)" "unat (vaddr s) \<le> base hp" "t \<in> set (segments prog)" "base hp + total hp \<le> unat (vaddr t)"
      "span (segments prog) = (S, E)" "\<not> short_of (unat E - unat S) k"
      "base hp \<le> unat w" "unat w < base hp + total hp"
  shows "\<exists>p' k' a fl. load_segments pml4 (segments prog) data (p, k) = Some (Inr (), p', k')
     \<and> hw_walk (k_pt k') (unat pml4) w = Some (a, fl) \<and> pte_user fl \<and> unat a div 4096 \<in> own p'"
proof -
  have ne: "segments prog \<noteq> []" and sok: "\<forall>s \<in> set (segments prog). segment_ok data s" using assms(2) by (auto simp: program_ok_def)
  note fits = validate_segments_fit [OF assms(3) sok]
  note sp = span_props [OF ne fits assms(8)]
  obtain r p' k' where run: "load_segments pml4 (segments prog) data (p, k) = Some (r, p', k')"
      and out: "outcome (\<lambda>(p', k'). vm_ok pml4 p' k' \<and> evolves p k p' k' \<and> (\<exists>fs. p' = p\<lparr>p_frames := fs\<rparr>) \<and> short_of (unat E - unat S) k)
       (\<lambda>_. loaded pml4 (segments prog) data S E (p, k)) r (p', k')"
    using load_segments_runs [OF assms(1) ne fits assms(8)] unfolding runs_def by (elim exE) auto
  have ok: "r = Inr ()" using out assms(9) by (cases r) auto
  obtain f n where L: "unat E = unat S + 4096 * n" "f + n \<le> 65536" "block_mapped pml4 (segments prog) S f n k k'" "vm_ok pml4 p' k'"
    using out unfolding ok loaded_def outcome_simps prod.case by blast
  have "unat S \<le> unat w" "unat w < unat S + 4096 * n" "unat w < 2 ^ 32"
    using sp(5) [OF assms(4)] sp(6) [OF assms(6)] sp(4) assms(5,7,10,11) L(1) by linarith+
  note r = this
  have "unat S mod 4096 = 0" using sp(1) by (simp add: page_mod)
  from block_page_at [OF fits this L(2) r] obtain a fl where "block_page (segments prog) S f w = (a, fl)" "pte_user fl" by metis
  moreover from this have "hw_walk (k_pt k') (unat pml4) w = Some (a, fl)" using L(3) r by (simp add: block_mapped_def)
  ultimately show ?thesis using run ok vm_reach [OF L(4) r(3)] by blast
qed

definition demo_heap :: flist where
  "demo_heap = (flist_new (\<lambda>_. \<lparr>blk_size = 0, blk_next = 0\<rparr>))\<lparr>base := 0x500000, total := 0x1000\<rparr>"

definition demo_gap :: program where
  "demo_gap = \<lparr>entry = 0x200000,
     segments = [\<lparr>vaddr = 0x200000, file_offset = 0, filesz = 0, memsz = 0x1000, writable = False, executable = True\<rparr>,
                 \<lparr>vaddr = 0x800000, file_offset = 0, filesz = 0, memsz = 0x1000, writable = True, executable = False\<rparr>],
     is_pie = False, phoff = 0, phentsize = 56, phnum = 0, interp = None\<rparr>"

theorem load_segments_covers_kernel_heap_witness:
  "validate_segments demo_heap demo_gap = Ok ()
   \<and> (\<exists>p' k' a fl. load_segments 4096 (segments demo_gap) [] (demo_proc, demo_kern) = Some (Inr (), p', k')
     \<and> hw_walk (k_pt k') 4096 0x500800 = Some (a, fl) \<and> pte_user fl \<and> unat a div 4096 \<in> own p')"
proof -
  have v: "validate_segments demo_heap demo_gap = Ok ()"
    by (simp add: validate_segments_def demo_heap_def flist_new_def demo_gap_def heap_range_def wadd_def validate_segment_def Let_def
        checked_add_def ok_or_def process_consts IDENTITY_MAP_END_def)
  have sp: "span (segments demo_gap) = (0x200000, 0x801000)"
    by (simp add: span_def demo_gap_def seg_start_def seg_end_def align_up64_def PAGE_SIZE_def)
  have ok: "program_ok [] demo_gap" by (simp add: program_ok_def demo_gap_def segment_ok_def PROGRAM_HEADER_SIZE_def)
  have short: "\<not> short_of (unat (0x801000 :: u64) - unat (0x200000 :: u64)) demo_kern"
    using demo_run by (auto simp: short_of_def intro!: exI [of _ 264])
  have "\<exists>p' k' a fl. load_segments 4096 (segments demo_gap) [] (demo_proc, demo_kern) = Some (Inr (), p', k')
     \<and> hw_walk (k_pt k') (unat (4096 :: u64)) 0x500800 = Some (a, fl) \<and> pte_user fl \<and> unat a div 4096 \<in> own p'"
    by (rule load_segments_covers_kernel_heap [OF demo_ok(1) ok v _ _ _ _ sp short,
          where s = "segments demo_gap ! 0" and t = "segments demo_gap ! 1"]) (simp_all add: demo_gap_def demo_heap_def flist_new_def)
  with v show ?thesis by simp
qed

end
