(* ===== verification/Loader_Spawn.thy ===== *)
theory Loader_Spawn
  imports Loader_Segments
begin

text \<open>
  The stacks of a new process, native and Linux, and the two spawn functions: a process that starts
  satisfies the invariant of \<open>Process_Memory\<close> next to all others, and one that cannot be built leaves no
  trace.
\<close>

section \<open>Steps that keep the account\<close>

text \<open>The process so far: its frames are accounted for since \<open>k0\<close>, and its memory is in order.\<close>

definition sound :: "kern \<Rightarrow> u64 \<Rightarrow> process \<times> kern \<Rightarrow> bool" where
  "sound k0 pml4 st \<longleftrightarrow> tracks k0 st \<and> vm_ok pml4 (fst st) (snd st)"

lemma soundI: "tracks k0 (p, k) \<Longrightarrow> vm_ok pml4 p' k' \<Longrightarrow> evolves p k p' k' \<Longrightarrow> p_fds p' = p_fds p \<Longrightarrow> sound k0 pml4 (p', k')"
  using tracks_evolves by (simp add: sound_def)

lemma soundD: "sound k0 pml4 (p, k) \<Longrightarrow> tracks k0 (p, k)" "sound k0 pml4 (p, k) \<Longrightarrow> vm_ok pml4 p k"
  by (simp_all add: sound_def)

lemma user_rsp_fields:
  "vm_ok pml4 (p\<lparr>p_user_rsp := h\<rparr>) k = vm_ok pml4 p k" "vm_ok pml4 (p\<lparr>p_entry := e\<rparr>) k = vm_ok pml4 p k"
  "own (p\<lparr>p_user_rsp := h\<rparr>) = own p" "own (p\<lparr>p_entry := e\<rparr>) = own p" "stack_ok (p\<lparr>p_user_rsp := h\<rparr>) = stack_ok p"
  "own (p\<lparr>p_stack_phys_base := x\<rparr>) = own p"
  "tracks k0 (p\<lparr>p_user_rsp := h\<rparr>, k) = tracks k0 (p, k)" "tracks k0 (p\<lparr>p_entry := e\<rparr>, k) = tracks k0 (p, k)"
  "tracks k0 (p\<lparr>p_stack_low := h\<rparr>, k) = tracks k0 (p, k)"
  by (simp_all add: vm_ok_def frames_ok_def maps_ok_def pages_ok_def loose_def own_def stack_map_def stack_ok_def tracks_def)

lemma fill_sound:
  assumes "sound k0 pml4 (p, k)" "\<And>m b. b div 4096 \<notin> own p \<Longrightarrow> g m b = m b"
  shows "sound k0 pml4 (p, upd_mem g k)"
  using fill_keep [of pml4 p k g] assms soundI by (auto simp: sound_def)

lemma runs_map:
  assumes s: "sound k0 pml4 (p, k)" and fl: "pte_user flags" "\<not> bit flags 7" and m: "m_shm_id m = None"
      "map_ok m \<Longrightarrow> unat (m_phys m) + unat (m_len m) \<le> 2 ^ 52"
      "map_ok m \<Longrightarrow> mframes m \<subseteq> loose pml4 p k \<or> (\<forall>w a. covers m w a \<longrightarrow> (\<exists>m' \<in> set (p_mappings p). covers m' w a))"
  shows "runs (or_fail e (map_in pml4 (m_vaddr m) (m_phys m) (m_len m) flags)) (p, k) (outcome (tracks k0)
     (\<lambda>_ (p', k'). sound k0 pml4 (p', k') \<and> (\<exists>fs. p' = p\<lparr>p_frames := fs\<rparr>) \<and> k_mem k' = k_mem k \<and> map_ok m
        \<and> (\<forall>w. in_map m w \<longrightarrow> small_at (unat pml4) (mmu_of k') w)
        \<and> (\<forall>w. unat w < 2 ^ 32 \<longrightarrow> hw_walk (k_pt k') (unat pml4) w =
              mapped (m_vaddr m) (m_phys m) (unat (m_len m) div 4096) flags (hw_walk (k_pt k) (unat pml4)) w)
        \<and> loose pml4 p k \<subseteq> loose pml4 p' k'))"
proof -
  note S = soundD [OF s]
  obtain b fs k1 where R: "map_in pml4 (m_vaddr m) (m_phys m) (m_len m) flags (p, k) = Some (b, p\<lparr>p_frames := fs\<rparr>, k1)"
     "vm_ok pml4 (p\<lparr>p_frames := fs\<rparr>) k1" "evolves p k (p\<lparr>p_frames := fs\<rparr>) k1"
     "b \<longrightarrow> map_ok m \<and> (\<forall>w. in_map m w \<longrightarrow> small_at (unat pml4) (mmu_of k1) w)" "loose pml4 p k \<subseteq> loose pml4 (p\<lparr>p_frames := fs\<rparr>) k1"
    using map_in_keep [OF S(2) fl m] by blast
  have sd: "sound k0 pml4 (p\<lparr>p_frames := fs\<rparr>, k1)" using soundI [OF S(1) R(2,3)] by simp
  show ?thesis
  proof (cases b)
    case True
    then have "map_ok m" using R(4) by blast
    note W = map_in_walk [OF S(2) this m(2) [OF this] fl(2) R(1) [unfolded True [THEN eqTrueI]]]
    show ?thesis using True R sd W map_in_mem [OF R(1)] by (auto simp: runs_def or_fail_def)
  next
    case False
    then show ?thesis using R(1) sd by (simp add: runs_def or_fail_def sound_def)
  qed
qed

section \<open>The backing of the stack\<close>

lemma stack_pages: "unat USER_STACK_MAX_PAGES = 256"
  by (simp add: USER_STACK_MAX_PAGES_def)

lemma init_stack_backing_bnd:
  "init_stack_backing st = bnd (pages_or_fail 256) (\<lambda>phys (p, k). Some (Inr (),
     add_mapping (stack_map (p\<lparr>p_stack_phys_base := of_nat phys\<rparr>)) (p\<lparr>p_stack_phys_base := of_nat phys\<rparr>),
     upd_mem (write_bytes phys 0 (256 * FRAME_SIZE)) k)) st"
  by (auto simp: init_stack_backing_def pages_or_fail_def bnd_def stack_pages stack_map_def split: bind_splits option.splits sum.splits)

lemma stack_map_ok:
  assumes "f + 256 \<le> 65536" "p_stack_phys_base p = of_nat (f * 4096)"
  shows "map_ok (stack_map p)" "mframes (stack_map p) = {f..<f + 256}"
proof -
  have "unat (of_nat (f * 4096) :: u64) = f * 4096" using assms(1) by (simp add: unat_of_nat del: of_nat_mult)
  then show "map_ok (stack_map p)" "mframes (stack_map p) = {f..<f + 256}"
    by (simp_all add: map_ok_def mframes_def stack_map_def assms(2) page_mod stack_consts del: of_nat_mult)
qed

text \<open>The recorded stack may stay unmapped; frames nobody reaches become its backing.\<close>

lemma record_stack_keep:
  assumes ok: "vm_ok pml4 p k" and new: "stack_map p \<notin> set (p_mappings p)"
      and f: "f + 256 \<le> 65536" "{f..<f + 256} \<subseteq> loose pml4 p k"
      and unreached: "\<And>w a fl. unat w < 2 ^ 32 \<Longrightarrow> hw_walk (k_pt k) (unat pml4) w = Some (a, fl) \<Longrightarrow> pte_user fl \<Longrightarrow> unat a div 4096 \<notin> {f..<f + 256}"
  defines "p1 \<equiv> p\<lparr>p_stack_phys_base := of_nat (f * 4096)\<rparr>"
  shows "vm_ok pml4 (add_mapping (stack_map p1) p1) k"
proof -
  let ?m = "stack_map p1" and ?p = "add_mapping (stack_map p1) p1"
  note M = stack_map_ok [OF f(1), of p1]
  have b: "p_stack_phys_base p1 = of_nat (f * 4096)" by (simp add: p1_def)
  have own: "own ?p = own p" by (simp add: own_def add_mapping_def p1_def)
  have ms: "p_mappings ?p = p_mappings p @ [?m]" "stack_map ?p = ?m" by (simp_all add: add_mapping_def p1_def stack_map_def)
  have "p_frames ?p = p_frames p" by (simp add: add_mapping_def p1_def)
  then have "frames_ok pml4 ?p k" using ok own by (simp add: vm_ok_def frames_ok_def)
  moreover have "maps_ok pml4 ?p k"
    using ok new f(2) M b unfolding vm_ok_def maps_ok_def ms own
    by (auto simp: sorted_wrt_append loose_def)
  moreover have "loose pml4 ?p k = loose pml4 p k - mframes ?m" by (auto simp: loose_def own ms)
  then have "pages_ok pml4 ?p k"
    using ok unreached M(2) [OF b] unfolding vm_ok_def by (intro pages_okI) (auto simp: ms dest: pages_okD)
  ultimately show ?thesis by (simp add: vm_ok_def)
qed

lemma stack_backing_runs:
  assumes s: "sound k0 pml4 (p, k)" and new: "stack_map p \<notin> set (p_mappings p)"
  shows "runs init_stack_backing (p, k) (outcome (tracks k0) (\<lambda>_ (p', k'). sound k0 pml4 (p', k') \<and> stack_map p' \<in> set (p_mappings p')
     \<and> p_stack_low p' = p_stack_low p
     \<and> (\<forall>w. hw_walk (k_pt k') (unat pml4) w = hw_walk (k_pt k) (unat pml4) w)))"
  unfolding init_stack_backing_bnd [abs_def] eta_contract_eq
proof (rule runs_bnd [OF runs_mono [OF runs_pages [OF soundD(2) [OF s]]]])
  fix phys st assume "\<exists>f fs k1. phys = f * 4096 \<and> st = (p\<lparr>p_frames := fs\<rparr>, k1)
     \<and> vm_ok pml4 (p\<lparr>p_frames := fs\<rparr>) k1 \<and> evolves p k (p\<lparr>p_frames := fs\<rparr>) k1 \<and> 0 < (256 :: nat) \<and> {f..<f + 256} \<subseteq> avail (k_pmm k)
     \<and> own (p\<lparr>p_frames := fs\<rparr>) = own p \<union> {f..<f + 256} \<and> k_pt k1 = k_pt k \<and> {f..<f + 256} \<subseteq> loose pml4 (p\<lparr>p_frames := fs\<rparr>) k1 \<and> f + 256 \<le> 65536
     \<and> card (avail (k_pmm k)) = card (avail (k_pmm k1)) + 256"
  then obtain f fs k1 where A: "phys = f * 4096" "st = (p\<lparr>p_frames := fs\<rparr>, k1)" "vm_ok pml4 (p\<lparr>p_frames := fs\<rparr>) k1"
     "evolves p k (p\<lparr>p_frames := fs\<rparr>) k1" "{f..<f + 256} \<subseteq> avail (k_pmm k)" "own (p\<lparr>p_frames := fs\<rparr>) = own p \<union> {f..<f + 256}"
     "k_pt k1 = k_pt k" "{f..<f + 256} \<subseteq> loose pml4 (p\<lparr>p_frames := fs\<rparr>) k1" "f + 256 \<le> 65536" by blast
  let ?p1 = "p\<lparr>p_frames := fs, p_stack_phys_base := of_nat (f * 4096)\<rparr>"
  let ?p2 = "add_mapping (stack_map ?p1) ?p1" and ?k2 = "upd_mem (write_bytes (f * 4096) 0 (256 * FRAME_SIZE)) k1"
  have "unat a div 4096 \<notin> {f..<f + 256}" if "unat w < 2 ^ 32" "hw_walk (k_pt k1) (unat pml4) w = Some (a, fl)" "pte_user fl" for w a fl
    using vm_reach [OF soundD(2) [OF s] that(1) _ that(3)] that(2) A(5,7) vm_frames(4) [OF soundD(2) [OF s]] by auto
  from record_stack_keep [OF A(3) _ A(9,8) this] new have v: "vm_ok pml4 ?p2 k1" by simp
  have "evolves p k ?p2 k1" using A(4) by (simp add: evolves_def add_mapping_def own_def)
  then have s2: "sound k0 pml4 (?p2, k1)" by (rule soundI [OF soundD(1) [OF s] v]) (simp add: add_mapping_def)
  have o: "own ?p2 = own p \<union> {f..<f + 256}" using A(6) by (simp add: own_def add_mapping_def)
  have "write_bytes (f * 4096) 0 (256 * FRAME_SIZE) m b = m b" if "b div 4096 \<notin> own ?p2" for m b
    using that page_range [of f b 256] unfolding o by (auto simp: write_bytes_def FRAME_SIZE_def)
  from fill_sound [where g = "write_bytes (f * 4096) 0 (256 * FRAME_SIZE)", OF s2 this] have s3: "sound k0 pml4 (?p2, ?k2)" .
  have "stack_map ?p2 \<in> set (p_mappings ?p2)" by (simp add: add_mapping_def stack_map_def)
  moreover have "k_pt ?k2 = k_pt k" by (simp add: kern_simps A(7))
  ultimately show "runs (\<lambda>(p, k). Some (Inr (), add_mapping (stack_map (p\<lparr>p_stack_phys_base := of_nat phys\<rparr>)) (p\<lparr>p_stack_phys_base := of_nat phys\<rparr>),
     upd_mem (write_bytes phys 0 (256 * FRAME_SIZE)) k)) st (outcome (tracks k0) (\<lambda>_ (p', k'). sound k0 pml4 (p', k')
     \<and> stack_map p' \<in> set (p_mappings p') \<and> p_stack_low p' = p_stack_low p \<and> (\<forall>w. hw_walk (k_pt k') (unat pml4) w = hw_walk (k_pt k) (unat pml4) w)))"
    using s3 by (simp add: runs_def A(1,2) add_mapping_def del: of_nat_mult)
qed (use s in \<open>simp add: sound_def\<close>)

lemma stack_phys_add: "stack_phys_for p v + (w - v) = stack_phys_for p w"
  by (simp add: stack_phys_for_def)

text \<open>Addresses of the stack region in its backing.\<close>

lemma stack_phys_nat:
  assumes "vm_ok pml4 p k" "stack_map p \<in> set (p_mappings p)" "0xFF00000 \<le> unat v" "unat v \<le> 0x10000000"
  shows "unat (stack_phys_for p v) = unat (p_stack_phys_base p) + (unat v - 0xFF00000)"
    "unat (p_stack_phys_base p) + 0x100000 \<le> 2 ^ 28" "unat (p_stack_phys_base p) mod 4096 = 0"
proof -
  have b: "unat (m_phys (stack_map p)) + unat (m_len (stack_map p)) \<le> 2 ^ 28" "map_ok (stack_map p)" using vm_map [OF assms(1,2)] by auto
  then show "unat (p_stack_phys_base p) + 0x100000 \<le> 2 ^ 28" "unat (p_stack_phys_base p) mod 4096 = 0"
    by (simp_all add: stack_map_def stack_consts map_ok_def page_mod)
  moreover have "unat (v - USER_STACK_LOW_LIMIT) = unat v - 0xFF00000" using assms(3) by (simp add: unat_sub word_le_nat_alt stack_consts)
  ultimately show "unat (stack_phys_for p v) = unat (p_stack_phys_base p) + (unat v - 0xFF00000)"
    using assms(4) by (simp add: stack_phys_for_def unat_word_ariths)
qed

lemma stack_write:
  assumes "vm_ok pml4 p k" "stack_map p \<in> set (p_mappings p)" "0xFF00000 \<le> unat v" "unat v + length bs \<le> 0x10000000"
      "b div 4096 \<notin> own p"
  shows "put_bytes (unat (stack_phys_for p v)) bs m b = m b"
proof -
  have v: "unat v \<le> 0x10000000" using assms(4) by simp
  note P = stack_phys_nat [OF assms(1-3) v]
  obtain c where c: "unat (p_stack_phys_base p) = 4096 * c" using P(3) by (auto simp: mod_eq_0_iff_dvd)
  have "mframes (stack_map p) = {c..<c + 256}" by (simp add: mframes_def stack_map_def stack_consts c)
  then have "b div 4096 \<notin> {c..<c + 256}" using vm_map(2) [OF assms(1,2)] assms(5) by blast
  then have "\<not> (4096 * c \<le> b \<and> b < 4096 * c + 0x100000)" using page_range [of c b 256] by (auto simp: mult.commute)
  then show ?thesis using P(1) c assms(3,4) by (auto simp: put_bytes_def)
qed

text \<open>Mapping a part of the stack region, and a whole fresh page.\<close>

lemma map_stack_runs:
  assumes s: "sound k0 pml4 (p, k)" "stack_map p \<in> set (p_mappings p)"
      and v: "unat v mod 4096 = 0" "0xFF00000 \<le> unat v" "unat v + unat len = 0x10000000"
  shows "runs (or_fail e (map_in pml4 v (stack_phys_for p v) len USER_RW)) (p, k) (outcome (tracks k0)
     (\<lambda>_ (p', k'). sound k0 pml4 (p', k') \<and> (\<exists>fs. p' = p\<lparr>p_frames := fs\<rparr>) \<and> k_mem k' = k_mem k
        \<and> (\<forall>w. unat w < 2 ^ 32 \<longrightarrow> hw_walk (k_pt k') (unat pml4) w =
              mapped v (stack_phys_for p v) (unat len div 4096) USER_RW (hw_walk (k_pt k) (unat pml4)) w)))"
proof -
  define m where "m = \<lparr>m_vaddr = v, m_phys = m_phys (stack_map p) + (v - m_vaddr (stack_map p)), m_len = len, m_shm_id = None\<rparr>"
  have ms: "m_vaddr m = v" "m_phys m = stack_phys_for p v" "m_len m = len" "m_shm_id m = None"
    by (simp_all add: m_def stack_map_def stack_phys_for_def)
  have "m_vaddr (stack_map p) \<le> v" "unat v + unat len \<le> unat (m_vaddr (stack_map p)) + unat (m_len (stack_map p))"
    using v by (auto simp: stack_map_def word_le_nat_alt stack_consts)
  note S = sub_map [OF soundD(2) [OF s(1)] s(2) _ this, folded m_def]
  have "v mod PAGE_SIZE = 0" using v(1) by (simp add: page_mod)
  note S = S [OF this]
  show ?thesis using runs_map [OF s(1) USER_RW_bits ms(4) S(1) disjI2 [OF S(2)], of e] unfolding ms
    by (elim runs_mono) auto
qed

lemma fresh_page_runs:
  fixes v :: u64
  assumes s: "sound k0 pml4 (p, k)" and fl: "pte_user flags" "\<not> bit flags 7"
      and f: "fresh_frame (p, k) f (p1, k1)" and bs: "length bs \<le> 4096"
  defines "m \<equiv> \<lparr>m_vaddr = v, m_phys = of_nat (f * 4096), m_len = PAGE_SIZE, m_shm_id = None\<rparr>"
  shows "runs (or_fail e (map_in pml4 v (of_nat (f * 4096)) PAGE_SIZE flags)) (p1, upd_mem (put_bytes (f * 4096) bs) k1) (outcome (tracks k0)
     (\<lambda>_ (p', k'). sound k0 pml4 (add_mapping m p', k') \<and> (\<exists>fs. p' = p\<lparr>p_frames := fs\<rparr>)))"
proof -
  note S = soundD [OF s] and F = fresh_frame_keep [OF soundD(2) [OF s] f]
  let ?k1 = "upd_mem (put_bytes (f * 4096) bs) k1"
  have p1: "p1 = p\<lparr>p_frames := p_frames p @ [f * 4096]\<rparr>" "own p1 = insert f (own p)" "f \<in> avail (k_pmm k)"
    using f unfolding fresh_frame_def prod.case by blast+
  have s1: "sound k0 pml4 (p1, k1)" using soundI [OF S(1) F(1,2)] by (simp add: p1(1))
  have "put_bytes (f * 4096) bs m' b = m' b" if "b div 4096 \<notin> own p1" for m' b
    using that bs frame_bytes [of f b] unfolding p1(2) by (auto simp: put_bytes_def)
  from fill_sound [where g = "put_bytes (f * 4096) bs", OF s1 this] have s2: "sound k0 pml4 (p1, ?k1)" .
  have pt: "k_pt ?k1 = k_pt k1" by (simp add: kern_simps)
  have lt: "f < 65536" using vm_frames(6) [OF F(1)] p1(2) by blast
  then have ph: "unat (of_nat (f * 4096) :: u64) = f * 4096" by (simp add: unat_of_nat del: of_nat_mult)
  have mf: "mframes m = {f}" by (simp only: mframes_def m_def mapping.select_convs ph) (auto simp: PAGE_SIZE_def)
  have b52: "unat (m_phys m) + unat (m_len m) \<le> 2 ^ 52" using lt by (simp add: m_def ph PAGE_SIZE_def del: of_nat_mult)
  have lo: "mframes m \<subseteq> loose pml4 p1 ?k1" using F(3) by (simp add: mf loose_def pt)
  have ms: "m_vaddr m = v" "m_phys m = of_nat (f * 4096)" "m_len m = PAGE_SIZE" "m_shm_id m = None" by (simp_all add: m_def)
  have nf: "f \<notin> own p" using p1(3) vm_frames(4) [OF S(2)] by blast
  have add: "sound k0 pml4 (add_mapping m p2, k2)"
    if R: "sound k0 pml4 (p2, k2)" "map_ok m" "\<forall>w. in_map m w \<longrightarrow> small_at (unat pml4) (mmu_of k2) w"
        "\<forall>w. unat w < 2 ^ 32 \<longrightarrow> hw_walk (k_pt k2) (unat pml4) w =
              mapped v (of_nat (f * 4096)) (unat PAGE_SIZE div 4096) flags (hw_walk (k_pt ?k1) (unat pml4)) w"
        "loose pml4 p1 ?k1 \<subseteq> loose pml4 p2 k2" for p2 k2
  proof -
    have "covers m w a" if w: "unat w < 2 ^ 32" "hw_walk (k_pt k2) (unat pml4) w = Some (a, u)" "pte_user u" "unat a div 4096 \<in> mframes m" for w a u
    proof -
      have "hw_walk (k_pt ?k1) (unat pml4) w \<noteq> Some (a, u)"
        using vm_reach [OF S(2) w(1) _ w(3), of a] F(4) [OF w(1)] w(4) nf by (auto simp: pt mf)
      then show ?thesis using R(4) w(1,2)
        by (auto simp: mapped_def covers_def in_map_def m_def PAGE_SIZE_def simp del: of_nat_mult split: if_splits)
    qed
    then have "vm_ok pml4 (add_mapping m p2) k2" using add_mapping_keep [OF soundD(2) [OF R(1)] R(2)] R(3,5) lo by blast
    then show ?thesis by (rule soundI [OF soundD(1) [OF R(1)]]) (simp add: evolves_fields, simp add: add_mapping_def)
  qed
  show ?thesis using runs_map [OF s2 fl ms(4) b52 disjI1 [OF lo], of e] unfolding ms
    by (elim runs_mono) (use add p1(1) in auto)
qed

section \<open>The native stack\<close>

definition ready :: "kern \<Rightarrow> u64 \<Rightarrow> process \<times> kern \<Rightarrow> bool" where
  "ready k0 pml4 st \<longleftrightarrow> sound k0 pml4 st \<and> stack_ok (fst st)"

lemma stub_flags: "pte_user (PAGE_PRESENT OR PAGE_USER)" "\<not> bit (PAGE_PRESENT OR PAGE_USER) 7"
  by (auto simp: pte_user_def bit_or_iff)

lemma base_nat: "unat USER_STACK_BASE = 0xFFF8000" "unat (USER_STACK_PAGES * PAGE_SIZE) = 0x8000" "unat (USER_STACK_TOP - 8) = 0xFFFFFF8"
  by (simp_all add: process_consts)

lemma map_exit_stub_runs:
  assumes s: "sound k0 pml4 (p, k)"
  shows "runs (map_exit_stub pml4) (p, k) (outcome (tracks k0)
     (\<lambda>_ (p', k'). sound k0 pml4 (p', k') \<and> (\<exists>fs m. p' = add_mapping m (p\<lparr>p_frames := fs\<rparr>))))"
  unfolding map_exit_stub_def
proof (rule runs_bnd [OF runs_mono [OF alloc_frame_runs]])
  show "pmm_inv (k_pmm k)" using tracksD(1) [OF soundD(1) [OF s]] .
  fix a st assume "\<exists>f. a = f * 4096 \<and> fresh_frame (p, k) f st"
  then obtain f p1 k1 where F: "a = f * 4096" "st = (p1, k1)" "fresh_frame (p, k) f (p1, k1)" by (cases st) auto
  have len: "length exit_stub \<le> 4096" by (simp add: exit_stub_def)
  show "runs (bnd (on_kern (upd_mem (put_bytes a exit_stub))) (\<lambda>_.
     bnd (or_fail ''failed to map exit trampoline''
            (map_in pml4 USER_EXIT_STUB_VIRT (of_nat a) PAGE_SIZE (PAGE_PRESENT OR PAGE_USER))) (\<lambda>_.
     on_proc (add_mapping \<lparr>m_vaddr = USER_EXIT_STUB_VIRT, m_phys = of_nat a, m_len = PAGE_SIZE, m_shm_id = None\<rparr>)))) st
     (outcome (tracks k0) (\<lambda>_ (p', k'). sound k0 pml4 (p', k') \<and> (\<exists>fs m. p' = add_mapping m (p\<lparr>p_frames := fs\<rparr>))))"
    unfolding F(1,2)
    apply (rule runs_then)
    apply (simp only: runs_on_kern outcome_simps)
    apply (rule runs_bnd [OF fresh_page_runs [where bs = exit_stub, OF s stub_flags F(3) len]])
    apply (clarsimp, blast)
    done
qed (use s in \<open>auto simp: sound_def\<close>)

lemma push_return_runs:
  assumes s: "sound k0 pml4 (p, k)" and st: "stack_map p \<in> set (p_mappings p)" "p_stack_low p = USER_STACK_BASE"
  shows "runs (push_return (stack_phys_for p USER_STACK_BASE)) (p, k) (outcome (tracks k0) (\<lambda>_. ready k0 pml4))"
proof -
  let ?addr = "unat (stack_phys_for p (USER_STACK_TOP - 8))" and ?w = "to_le 8 (unat USER_EXIT_STUB_VIRT)"
  have "put_bytes ?addr ?w m b = m b" if "b div 4096 \<notin> own p" for m b
    by (rule stack_write [OF soundD(2) [OF s] st(1) _ _ that]) (simp_all add: base_nat)
  from fill_sound [where g = "put_bytes ?addr ?w", OF s this] have "sound k0 pml4 (p, upd_mem (put_bytes ?addr ?w) k)" .
  moreover have "stack_ok p" using st by (auto simp: stack_ok_def process_consts)
  ultimately have "ready k0 pml4 (p\<lparr>p_user_rsp := USER_STACK_TOP - 8\<rparr>, upd_mem (put_bytes ?addr ?w) k)"
    by (simp add: ready_def sound_def user_rsp_fields)
  then show ?thesis unfolding push_return_def Let_def stack_phys_add
    by (intro runs_then) (simp only: runs_on_kern runs_on_proc outcome_simps)
qed

lemma setup_user_stack_runs:
  assumes s: "sound k0 pml4 (p, k)" and new: "stack_map p \<notin> set (p_mappings p)" and low: "p_stack_low p = USER_STACK_BASE"
  shows "runs (setup_user_stack pml4) (p, k) (outcome (tracks k0) (\<lambda>_. ready k0 pml4))"
  unfolding setup_user_stack_def
proof (rule runs_bnd [OF stack_backing_runs [OF s new]], clarify)
  fix p1 k1 assume s1: "sound k0 pml4 (p1, k1)" "stack_map p1 \<in> set (p_mappings p1)" and low1: "p_stack_low p1 = p_stack_low p"
  have v: "unat USER_STACK_BASE mod 4096 = 0" "0xFF00000 \<le> unat USER_STACK_BASE" "unat USER_STACK_BASE + unat (USER_STACK_PAGES * PAGE_SIZE) = 0x10000000"
    by (simp_all add: base_nat)
  have ends: "runs (bnd (map_exit_stub pml4) (\<lambda>_. push_return (stack_phys_for p1 USER_STACK_BASE))) (p1\<lparr>p_frames := fs\<rparr>, k2)
      (outcome (tracks k0) (\<lambda>_. ready k0 pml4))" if s2: "sound k0 pml4 (p1\<lparr>p_frames := fs\<rparr>, k2)" for fs k2
  proof (rule runs_bnd [OF map_exit_stub_runs [OF s2]], clarify)
    fix k3 fs' m
    let ?p = "add_mapping m (p1\<lparr>p_frames := fs, p_frames := fs'\<rparr>)"
    assume "sound k0 pml4 (?p, k3)"
    moreover have "stack_phys_for p1 = stack_phys_for ?p" "stack_map ?p \<in> set (p_mappings ?p)" "p_stack_low ?p = USER_STACK_BASE"
      using s1(2) low low1 by (auto simp: add_mapping_def stack_phys_for_def stack_map_def)
    ultimately show "runs (push_return (stack_phys_for p1 USER_STACK_BASE)) (?p, k3) (outcome (tracks k0) (\<lambda>_. ready k0 pml4))"
      using push_return_runs by simp
  qed
  show "runs (bnd (gets (\<lambda>(p, k). stack_phys_for p USER_STACK_BASE)) (\<lambda>stack_phys.
     bnd (or_fail ''failed to map user stack'' (map_in pml4 USER_STACK_BASE stack_phys (USER_STACK_PAGES * PAGE_SIZE) USER_RW)) (\<lambda>_.
     bnd (map_exit_stub pml4) (\<lambda>_. push_return stack_phys)))) (p1, k1) (outcome (tracks k0) (\<lambda>_. ready k0 pml4))"
    apply (rule runs_then)
    apply (simp only: runs_gets outcome_simps prod.case)
    apply (rule runs_bnd [OF map_stack_runs [OF s1 v]])
    apply (clarify, rule ends, assumption)
    done
qed

section \<open>The layout of the Linux stack\<close>

text \<open>\<open>xs\<close> lies in \<open>bs\<close> at offset \<open>off\<close>.\<close>

definition part_at :: "u8 list \<Rightarrow> u64 \<Rightarrow> u8 list \<Rightarrow> bool" where
  "part_at bs off xs \<longleftrightarrow> (\<exists>pre post. bs = pre @ xs @ post \<and> off = of_nat (length pre))"

lemma part_atI: "part_at (pre @ xs @ post) (of_nat (length pre)) xs"
  by (auto simp: part_at_def)

lemma part_at_append: "part_at bs off xs \<Longrightarrow> part_at (bs @ cs) off xs"
  unfolding part_at_def by (metis append.assoc)

definition cstrs :: "u8 list list \<Rightarrow> u8 list" where
  "cstrs ss = concat (map (\<lambda>s. s @ [0]) ss)"

lemma push_cstrs_spec:
  assumes "push_cstrs ss data = (offs, data')"
  shows "data' = data @ cstrs ss \<and> length offs = length ss \<and> (\<forall>i < length ss. part_at data' (offs ! i) (ss ! i @ [0]))"
  using assms
proof (induction ss arbitrary: data offs data')
  case Nil
  then show ?case by (simp add: cstrs_def)
next
  case (Cons s ss)
  obtain offs2 data2 where P: "push_cstrs ss (data @ s @ [0]) = (offs2, data2)" by (cases "push_cstrs ss (data @ s @ [0])")
  have e: "offs = of_nat (length data) # offs2" "data' = data2" using Cons.prems P by (auto simp: push_cstr_def)
  note IH = Cons.IH [OF P]
  have "data' = data @ (s @ [0]) @ cstrs ss" using IH e by simp
  then have "part_at data' (of_nat (length data)) (s @ [0])" by (simp only: part_atI)
  then have "part_at data' (offs ! i) ((s # ss) ! i @ [0])" if "i < length (s # ss)" for i
    using IH e that by (cases i) auto
  then show ?case using IH e by (simp add: cstrs_def)
qed

definition word_bytes :: "u64 \<Rightarrow> u8 list" where
  "word_bytes w = to_le 8 (unat w)"

definition words_bytes :: "u64 list \<Rightarrow> u8 list" where
  "words_bytes ws = concat (map word_bytes ws)"

lemma words_bytes_simps [simp]:
  "words_bytes [] = []" "words_bytes (w # ws) = word_bytes w @ words_bytes ws" "words_bytes (us @ vs) = words_bytes us @ words_bytes vs"
  "length (word_bytes w) = 8"
  by (simp_all add: words_bytes_def word_bytes_def)

lemma length_words [simp]: "length (words_bytes ws) = 8 * length ws"
  by (induction ws) auto

lemma words_part: "i < length ws \<Longrightarrow> part_at (words_bytes ws) (of_nat (8 * i)) (word_bytes (ws ! i))"
proof -
  assume "i < length ws"
  then have "ws = take i ws @ [ws ! i] @ drop (Suc i) ws" by (simp add: id_take_nth_drop)
  then have "words_bytes ws = words_bytes (take i ws) @ word_bytes (ws ! i) @ words_bytes (drop (Suc i) ws)"
    by (metis append_Nil2 words_bytes_simps(1-3))
  moreover have "length (words_bytes (take i ws)) = 8 * i" using \<open>i < length ws\<close> by simp
  ultimately show ?thesis unfolding part_at_def by metis
qed

text \<open>What the layout promises of the image at its address: the words of the table, and through them the
  strings, the random bytes and the program headers.\<close>

definition pairs_words :: "(u64 \<times> u64) list \<Rightarrow> u64 list" where
  "pairs_words aux = concat (map (\<lambda>(t, v). [t, v]) aux)"

definition layout_words :: "u64 \<Rightarrow> u64 list \<Rightarrow> u64 list \<Rightarrow> (u64 \<times> u64) list \<Rightarrow> u64 list" where
  "layout_words v aoffs eoffs aux = of_nat (length aoffs) # map ((+) v) aoffs @ [0] @ map ((+) v) eoffs @ [0] @ pairs_words aux"

definition aux_ok :: "u8 list \<Rightarrow> program \<Rightarrow> u64 \<Rightarrow> u64 \<Rightarrow> u8 list list \<Rightarrow> u64 \<Rightarrow> u8 list \<Rightarrow> (u64 \<times> u64) list \<Rightarrow> bool" where
  "aux_ok elf_bytes prog at_base ticks argv v data aux \<longleftrightarrow> aux \<noteq> [] \<and> last aux = (AT_NULL, 0)
     \<and> {(AT_PHENT, ucast (phentsize prog)), (AT_PHNUM, ucast (phnum prog)), (AT_PAGESZ, PAGE_SIZE), (AT_BASE, at_base),
        (AT_ENTRY, entry prog), (AT_UID, 0), (AT_EUID, 0), (AT_GID, 0), (AT_EGID, 0), (AT_SECURE, 0)} \<subseteq> set aux
     \<and> (\<exists>off. (AT_RANDOM, v + off) \<in> set aux \<and> part_at data off (random_bytes (ticks XOR entry prog)))
     \<and> (argv \<noteq> [] \<longrightarrow> (\<exists>off. (AT_EXECFN, v + off) \<in> set aux \<and> part_at data off (hd argv @ [0])))
     \<and> (case phdr_in_segment prog of
          Some a \<Rightarrow> (AT_PHDR, a) \<in> set aux
        | None \<Rightarrow> \<exists>off. (AT_PHDR, v + off) \<in> set aux \<and> part_at data off
            (take (unat (phnum prog) * 56) (drop (unat (phoff prog)) elf_bytes)))"

lemma phdr_len:
  assumes "program_ok data prog" "length data < 2 ^ 64"
  shows "unat (ucast (phentsize prog) * ucast (phnum prog) :: u64) = unat (phnum prog) * 56"
    "unat (phoff prog + ucast (phentsize prog) * ucast (phnum prog)) = unat (phoff prog) + unat (phnum prog) * 56"
proof -
  have n: "unat (phnum prog) < 65536" using unsigned_less [of "phnum prog", where ?'a = nat] by simp
  have "unat (ucast (phentsize prog) :: u64) = 56" "unat (ucast (phnum prog) :: u64) = unat (phnum prog)"
    using assms(1) by (simp_all add: program_ok_def PROGRAM_HEADER_SIZE_def unat_ucast_u16)
  then show l: "unat (ucast (phentsize prog) * ucast (phnum prog) :: u64) = unat (phnum prog) * 56"
    using n by (simp add: unat_word_ariths mult.commute)
  show "unat (phoff prog + ucast (phentsize prog) * ucast (phnum prog)) = unat (phoff prog) + unat (phnum prog) * 56"
    using l assms by (simp add: program_ok_def unat_word_ariths)
qed

lemma phdr_blob_spec:
  assumes "program_ok elf_bytes prog" "length elf_bytes < 2 ^ 64"
  shows "phdr_blob elf_bytes prog data = (case phdr_in_segment prog of
     Some _ \<Rightarrow> Ok (None, data)
   | None \<Rightarrow> Ok (Some (of_nat (length data)), data @ take (unat (phnum prog) * 56) (drop (unat (phoff prog)) elf_bytes)))"
proof (cases "phdr_in_segment prog")
  case None
  have "unat (phoff prog) + unat (phnum prog) * 56 \<le> length elf_bytes" using assms(1) by (simp add: program_ok_def)
  then show ?thesis using None phdr_len [OF assms] by (simp add: phdr_blob_def get_range_def slice_def ok_or_def Let_def)
qed (simp add: phdr_blob_def)

lemma length_fill: "length (fill_auxv n v phdr_off random_off execfn_off aux) = length aux"
  by (cases phdr_off; cases execfn_off) (simp_all add: fill_auxv_def set_val_def Let_def)

lemma fill_auxv_eq:
  "fill_auxv (length (auxv_base prog at_base)) v phdr_off random_off execfn_off (auxv_pairs prog at_base execfn_off)
    = take 14 (auxv_base prog at_base)
      @ [(AT_PHDR, case phdr_off of Some off \<Rightarrow> v + off | None \<Rightarrow> (case phdr_in_segment prog of None \<Rightarrow> 0 | Some a \<Rightarrow> a)),
         (AT_RANDOM, v + random_off)]
      @ (case execfn_off of None \<Rightarrow> [] | Some off \<Rightarrow> [(AT_EXECFN, v + off)]) @ [(AT_NULL, 0)]"
  by (cases phdr_off; cases execfn_off)
    (simp_all add: fill_auxv_def auxv_pairs_def auxv_base_def set_val_def Let_def)

lemma filled_aux_ok:
  assumes rnd: "part_at data random_off (random_bytes (ticks XOR entry prog))"
      and ex: "case execfn_off of None \<Rightarrow> argv = [] | Some off \<Rightarrow> argv \<noteq> [] \<and> part_at data off (hd argv @ [0])"
      and ph: "case phdr_off of None \<Rightarrow> phdr_in_segment prog \<noteq> None
             | Some off \<Rightarrow> phdr_in_segment prog = None \<and> part_at data off (take (unat (phnum prog) * 56) (drop (unat (phoff prog)) elf_bytes))"
  shows "aux_ok elf_bytes prog at_base ticks argv v data
     (fill_auxv (length (auxv_base prog at_base)) v phdr_off random_off execfn_off (auxv_pairs prog at_base execfn_off))"
  unfolding fill_auxv_eq aux_ok_def
proof (intro conjI)
  show "{(AT_PHENT, ucast (phentsize prog)), (AT_PHNUM, ucast (phnum prog)), (AT_PAGESZ, PAGE_SIZE), (AT_BASE, at_base),
        (AT_ENTRY, entry prog), (AT_UID, 0), (AT_EUID, 0), (AT_GID, 0), (AT_EGID, 0), (AT_SECURE, 0)}
      \<subseteq> set (take 14 (auxv_base prog at_base)
      @ [(AT_PHDR, case phdr_off of Some off \<Rightarrow> v + off | None \<Rightarrow> (case phdr_in_segment prog of None \<Rightarrow> 0 | Some a \<Rightarrow> a)),
         (AT_RANDOM, v + random_off)]
      @ (case execfn_off of None \<Rightarrow> [] | Some off \<Rightarrow> [(AT_EXECFN, v + off)]) @ [(AT_NULL, 0)])"
    by (simp add: auxv_base_def)
qed (use rnd ex ph in \<open>auto split: option.splits\<close>)

definition args_size :: "u8 list list \<Rightarrow> nat" where
  "args_size ss = sum_list (map (\<lambda>s. length s + 9) ss)"

lemma args_size_bound: "length (cstrs ss) + 8 * length ss = args_size ss"
  by (induction ss) (auto simp: cstrs_def args_size_def)

definition laid_out :: "u8 list \<Rightarrow> program \<Rightarrow> u64 \<Rightarrow> u64 \<Rightarrow> u8 list list \<Rightarrow> u8 list list \<Rightarrow> linux_image \<Rightarrow> bool" where
  "laid_out elf_bytes prog at_base ticks argv envp li \<longleftrightarrow> (\<exists>aoffs eoffs aux.
     li_table li = words_bytes (layout_words (li_vaddr li) aoffs eoffs aux)
     \<and> length aoffs = length argv \<and> (\<forall>i < length argv. part_at (li_data li) (aoffs ! i) (argv ! i @ [0]))
     \<and> length eoffs = length envp \<and> (\<forall>i < length envp. part_at (li_data li) (eoffs ! i) (envp ! i @ [0]))
     \<and> aux_ok elf_bytes prog at_base ticks argv (li_vaddr li) (li_data li) aux)
   \<and> li_vaddr li = li_rsp li + of_nat (length (li_table li))
   \<and> unat (li_rsp li) mod 16 = 0 \<and> unat (li_rsp li) + length (li_table li @ li_data li) \<le> 0x10000000"

lemma rsp_bounds:
  fixes t :: u64
  assumes "\<not> t > USER_STACK_TOP" "unat t = n"
  shows "unat ((USER_STACK_TOP - t) AND NOT 0xF) mod 16 = 0" "unat ((USER_STACK_TOP - t) AND NOT 0xF) + n \<le> 0x10000000"
proof -
  have le: "t \<le> USER_STACK_TOP" using assms(1) by simp
  then have "unat (USER_STACK_TOP - t) = 0x10000000 - n" "n \<le> 0x10000000"
    using assms(2) by (simp_all add: unat_sub word_le_nat_alt stack_consts)
  moreover have "unat ((USER_STACK_TOP - t) AND NOT (2 ^ 4 - 1)) = unat (USER_STACK_TOP - t) div 2 ^ 4 * 2 ^ 4" by (rule unat_align)
  ultimately have e: "unat ((USER_STACK_TOP - t) AND NOT 0xF) = (0x10000000 - n) div 16 * 16" "n \<le> 0x10000000" by simp_all
  then show "unat ((USER_STACK_TOP - t) AND NOT 0xF) mod 16 = 0" by simp
  have "(0x10000000 - n) div 16 * 16 \<le> 0x10000000 - n" by simp
  then show "unat ((USER_STACK_TOP - t) AND NOT 0xF) + n \<le> 0x10000000" using e by linarith
qed

lemma linux_layout_spec:
  assumes ok: "program_ok elf_bytes prog" "length elf_bytes < 2 ^ 64" and small: "args_size argv + args_size envp < 2 ^ 32"
  shows "linux_layout elf_bytes prog at_base ticks argv envp = Err ''linux stack layout too large''
     \<or> (\<exists>li. linux_layout elf_bytes prog at_base ticks argv envp = Ok li \<and> laid_out elf_bytes prog at_base ticks argv envp li)"
proof -
  obtain aoffs data1 where A: "push_cstrs argv [] = (aoffs, data1)" by (cases "push_cstrs argv []")
  obtain eoffs data2 where E: "push_cstrs envp data1 = (eoffs, data2)" by (cases "push_cstrs envp data1")
  note PA = push_cstrs_spec [OF A] and PE = push_cstrs_spec [OF E]
  define ex where "ex = (case aoffs of [] \<Rightarrow> None | x # _ \<Rightarrow> Some x)"
  define blob where "blob = take (unat (phnum prog) * 56) (drop (unat (phoff prog)) elf_bytes)"
  define ph where "ph = (case phdr_in_segment prog of Some _ \<Rightarrow> None | None \<Rightarrow> Some (of_nat (length data2) :: u64))"
  define data3 where "data3 = (case phdr_in_segment prog of Some _ \<Rightarrow> data2 | None \<Rightarrow> data2 @ blob)"
  have blob: "phdr_blob elf_bytes prog data2 = Ok (ph, data3)"
    unfolding phdr_blob_spec [OF ok] ph_def data3_def blob_def by (simp split: option.splits)
  define data where "data = data3 @ random_bytes (ticks XOR entry prog)"
  define aux where "aux = auxv_pairs prog at_base ex"
  define tl where "tl = (of_nat (1 + (length argv + 1) + (length envp + 1) + length aux * 2) * 8 :: u64)"
  define tot where "tot = tl + of_nat (length data)"
  define rsp where "rsp = (USER_STACK_TOP - tot) AND NOT 0xF"
  define aux' where "aux' = fill_auxv (length (auxv_base prog at_base)) (rsp + tl) ph (of_nat (length data3)) ex aux"
  define li where "li = \<lparr>li_rsp = rsp, li_table = words_bytes (layout_words (rsp + tl) aoffs eoffs aux'), li_vaddr = rsp + tl, li_data = data\<rparr>"
  have run: "linux_layout elf_bytes prog at_base ticks argv envp =
      (if tot > USER_STACK_TOP then Err ''linux stack layout too large'' else Ok li)"
    unfolding linux_layout_def A E Let_def prod.case ex_def [symmetric] blob and_then_Ok data_def [symmetric] aux_def [symmetric]
      tl_def [symmetric] tot_def [symmetric] rsp_def [symmetric] aux'_def [symmetric] li_def
    using PA by (simp add: words_bytes_def layout_words_def pairs_words_def word_bytes_def [abs_def])
  have sub: "part_at data off xs" if "part_at data2 off xs" for off xs
    using that by (auto simp: data_def data3_def part_at_append split: option.split)
  have sub1: "part_at data off xs" if "part_at data1 off xs" for off xs
    using sub [of off xs] part_at_append [OF that, of "cstrs envp"] PE by simp
  have exec: "case ex of None \<Rightarrow> argv = [] | Some off \<Rightarrow> argv \<noteq> [] \<and> part_at data off (hd argv @ [0])"
  proof (cases aoffs)
    case Nil
    then show ?thesis using PA by (simp add: ex_def)
  next
    case (Cons x xs)
    then have "argv \<noteq> []" using PA by auto
    moreover from this have "part_at data1 x (hd argv @ [0])" using PA Cons by (cases argv) force+
    ultimately show ?thesis using Cons sub1 by (simp add: ex_def)
  qed
  have phd: "case ph of None \<Rightarrow> phdr_in_segment prog \<noteq> None | Some off \<Rightarrow> phdr_in_segment prog = None \<and> part_at data off blob"
  proof (cases "phdr_in_segment prog")
    case None
    then show ?thesis using part_at_append [OF part_atI [of data2 blob "[]"]] by (simp add: ph_def data_def data3_def)
  qed (simp add: ph_def)
  have "part_at data (of_nat (length data3)) (random_bytes (ticks XOR entry prog))"
    using part_atI [of data3 _ "[]"] by (simp add: data_def)
  note aok = filled_aux_ok [OF this exec phd [unfolded blob_def], of at_base "rsp + tl", folded aux_def aux'_def]
  have pw: "length (pairs_words xs) = 2 * length xs" for xs by (induction xs) (auto simp: pairs_words_def)
  have la: "length aux' = length aux" unfolding aux'_def by (rule length_fill)
  have lt: "length (li_table li) = (1 + (length argv + 1) + (length envp + 1) + length aux * 2) * 8"
    using PA PE la by (simp add: li_def layout_words_def pw)
  then have tl: "tl = of_nat (length (li_table li))" by (simp add: tl_def)
  have "length aux \<le> 18" by (simp add: aux_def auxv_pairs_def auxv_base_def Let_def split: option.split)
  moreover have "length data3 \<le> length data2 + 65536 * 56"
    using unsigned_less [of "phnum prog", where ?'a = nat] by (auto simp: data3_def blob_def split: option.split)
  then have "length data \<le> length (cstrs argv) + length (cstrs envp) + 65536 * 56 + 16"
    using PA PE by (simp add: data_def random_bytes_def)
  ultimately have "length (li_table li) + length data < 2 ^ 64" using small lt args_size_bound [of argv] args_size_bound [of envp] by simp
  then have tot: "unat tot = length (li_table li) + length data" by (simp add: tot_def tl unat_of_nat flip: of_nat_add)
  have pa: "\<forall>i < length argv. part_at (li_data li) (aoffs ! i) (argv ! i @ [0])"
    using conjunct2 [OF conjunct2 [OF PA]] sub1 unfolding li_def by simp
  have pe: "\<forall>i < length envp. part_at (li_data li) (eoffs ! i) (envp ! i @ [0])"
    using conjunct2 [OF conjunct2 [OF PE]] sub unfolding li_def by simp
  have tab: "li_table li = words_bytes (layout_words (li_vaddr li) aoffs eoffs aux')"
    "aux_ok elf_bytes prog at_base ticks argv (li_vaddr li) (li_data li) aux'" using aok by (simp_all add: li_def aux'_def)
  have "laid_out elf_bytes prog at_base ticks argv envp li" if "\<not> tot > USER_STACK_TOP"
    unfolding laid_out_def
  proof (intro conjI)
    show "unat (li_rsp li) mod 16 = 0" "unat (li_rsp li) + length (li_table li @ li_data li) \<le> 0x10000000"
      using rsp_bounds [OF that tot] by (simp_all add: li_def rsp_def)
    show "li_vaddr li = li_rsp li + of_nat (length (li_table li))" unfolding tl [symmetric] by (simp add: li_def)
  qed (use PA PE pa pe tab in blast)
  then show ?thesis unfolding run by auto
qed

section \<open>The Linux stack in memory\<close>

text \<open>The byte ring 3 reads at an address.\<close>

definition peek :: "kern \<Rightarrow> u64 \<Rightarrow> u64 \<Rightarrow> u8 option" where
  "peek k pml4 w = (case hw_walk (k_pt k) (unat pml4) w of
     Some (a, fl) \<Rightarrow> if pte_user fl then Some (k_mem k (unat a + unat w mod 4096)) else None
   | None \<Rightarrow> None)"

definition holds_at :: "kern \<Rightarrow> u64 \<Rightarrow> u64 \<Rightarrow> u8 list \<Rightarrow> bool" where
  "holds_at k pml4 w bs \<longleftrightarrow> (\<forall>i < length bs. peek k pml4 (w + of_nat i) = Some (bs ! i))"

lemma holds_at_part:
  assumes "holds_at k pml4 w bs" "part_at bs off xs"
  shows "holds_at k pml4 (w + off) xs"
proof -
  obtain pre post where b: "bs = pre @ xs @ post" "off = of_nat (length pre)" using assms(2) by (auto simp: part_at_def)
  have "peek k pml4 (w + off + of_nat i) = Some (xs ! i)" if "i < length xs" for i
    using assms(1) [unfolded holds_at_def, rule_format, of "length pre + i"] that
    by (simp add: b nth_append add.assoc)
  then show ?thesis by (simp add: holds_at_def)
qed

lemma part_at_later: "part_at bs off xs \<Longrightarrow> part_at (as @ bs) (of_nat (length as) + off) xs"
  unfolding part_at_def by (metis append.assoc length_append of_nat_add)

lemma runs_from_result: "runs (from_result (Some x)) st Q \<longleftrightarrow> Q x st"
  by (simp add: runs_def from_result_def)

lemma region_args:
  assumes "0xFF00000 \<le> unat r" "unat r \<le> 0x10000000" "unat r mod 4096 = 0"
  shows "align_up64 (USER_STACK_TOP - r) PAGE_SIZE = USER_STACK_TOP - r" "unat (USER_STACK_TOP - r) = 0x10000000 - unat r"
proof -
  show u: "unat (USER_STACK_TOP - r) = 0x10000000 - unat r" using assms(2) by (simp add: unat_sub word_le_nat_alt stack_consts)
  have "(0x10000000 - unat r) mod 4096 = 0" using assms(2,3) by (simp add: mod_eq_0_iff_dvd dvd_diff_nat)
  then have d: "(0x10000000 - unat r + 4095) div 4096 * 4096 = 0x10000000 - unat r" by (auto simp: mod_eq_0_iff_dvd)
  have "unat (USER_STACK_TOP - r + PAGE_SIZE - 1) = 0x10000000 - unat r + 4095"
    using u assms(1,2) unfolding PAGE_SIZE_def by (simp add: unat_word_ariths add.assoc [symmetric])
  then have "unat (align_up64 (USER_STACK_TOP - r) PAGE_SIZE) = unat (USER_STACK_TOP - r)"
    unfolding align_up64_def page_down u by (simp add: d)
  then show "align_up64 (USER_STACK_TOP - r) PAGE_SIZE = USER_STACK_TOP - r" by (simp only: word_unat_eq_iff)
qed

lemma stack_block_at:
  assumes ok: "vm_ok pml4 p k" "stack_map p \<in> set (p_mappings p)"
      and r: "0xFF00000 \<le> unat r" "unat r mod 4096 = 0" "unat r \<le> unat w" "unat w < 0x10000000"
      and wk: "hw_walk (k_pt k) (unat pml4) w = mapped r (stack_phys_for p r) (unat (USER_STACK_TOP - r) div 4096) USER_RW old w"
  shows "peek k pml4 w = Some (k_mem k (unat (stack_phys_for p w)))"
proof -
  have le: "unat r \<le> 0x10000000" "0xFF00000 \<le> unat w" "unat w \<le> 0x10000000" using r by simp_all
  note P = stack_phys_nat [OF ok r(1) le(1)] and W = stack_phys_nat(1) [OF ok le(2,3)]
  let ?d = "(unat w - unat r) div 4096 * 4096"
  have d: "?d \<le> unat w - unat r" by simp
  have "4096 * (unat (USER_STACK_TOP - r) div 4096) = 0x10000000 - unat r"
    using r(2) le(1) by (simp add: region_args(2) [OF r(1) le(1) r(2)] mod_eq_0_iff_dvd dvd_diff_nat)
  then have "hw_walk (k_pt k) (unat pml4) w = Some (stack_phys_for p r + of_nat ?d, (USER_RW AND PRESENT_MASK) OR PAGE_PRESENT)"
    using wk r(3,4) by (simp add: mapped_def)
  moreover have "unat (stack_phys_for p r + of_nat ?d) = unat (stack_phys_for p r) + ?d"
    using d P(1,2) r le by (simp add: unat_word_ariths unat_of_nat del: of_nat_mult)
  moreover have "?d + unat w mod 4096 = unat w - unat r" by (rule page_split(2) [OF r(2,3)])
  then have "unat (stack_phys_for p r) + ?d + unat w mod 4096 = unat (stack_phys_for p w)"
    unfolding P(1) W using r(1,3) by linarith
  ultimately show ?thesis by (simp add: peek_def user_masked USER_RW_bits del: of_nat_mult)
qed

lemma put_two:
  assumes "length xs = n" "i < length (xs @ ys)"
  shows "put_bytes (a + n) ys (put_bytes a xs m) (a + i) = (xs @ ys) ! i"
  using assms by (auto simp: put_bytes_def nth_append)

definition linux_ready :: "kern \<Rightarrow> u64 \<Rightarrow> linux_image \<Rightarrow> u64 \<Rightarrow> process \<times> kern \<Rightarrow> bool" where
  "linux_ready k0 pml4 li rsp st \<longleftrightarrow> ready k0 pml4 st \<and> rsp = li_rsp li \<and> holds_at (snd st) pml4 rsp (li_table li @ li_data li)"

lemma setup_linux_stack_runs:
  assumes s: "sound k0 pml4 (p, k)" and new: "stack_map p \<notin> set (p_mappings p)"
      and ok: "program_ok elf_bytes prog" "length elf_bytes < 2 ^ 64" "args_size argv + args_size envp < 2 ^ 32"
  shows "runs (setup_linux_stack pml4 elf_bytes prog at_base ticks argv envp) (p, k) (outcome (tracks k0)
     (\<lambda>rsp st. \<exists>li. laid_out elf_bytes prog at_base ticks argv envp li \<and> linux_ready k0 pml4 li rsp st))"
  using linux_layout_spec [OF ok, of at_base ticks]
proof (elim disjE exE conjE)
  assume "linux_layout elf_bytes prog at_base ticks argv envp = Err ''linux stack layout too large''"
  then show ?thesis using s unfolding setup_linux_stack_def
    by (intro runs_then) (simp add: Err_def runs_from_result sound_def)
next
  fix li assume L: "linux_layout elf_bytes prog at_base ticks argv envp = Ok li" "laid_out elf_bytes prog at_base ticks argv envp li"
  define r where "r = li_rsp li AND NOT (PAGE_SIZE - 1)"
  have r: "unat r = unat (li_rsp li) div 4096 * 4096" unfolding r_def by (rule page_down)
  have lv: "li_vaddr li = li_rsp li + of_nat (length (li_table li))" "unat (li_rsp li) + length (li_table li) + length (li_data li) \<le> 0x10000000"
    using L(2) by (simp_all add: laid_out_def)
  then have v: "unat (li_vaddr li) = unat (li_rsp li) + length (li_table li)" by (simp add: unat_word_ariths unat_of_nat)
  have le: "unat r \<le> unat (li_rsp li)" "unat r mod 4096 = 0" using r by simp_all
  then have le: "unat r \<le> unat (li_rsp li)" "unat r mod 4096 = 0" "unat r \<le> 0x10000000" using lv(2) by simp_all
  have rest: "runs (bnd init_stack_backing (\<lambda>_.
             bnd (gets (\<lambda>(p, k). stack_phys_for p r)) (\<lambda>phys.
             bnd (on_kern (upd_mem (put_bytes (unat (phys + (li_rsp li - r))) (li_table li)))) (\<lambda>_.
             bnd (on_kern (upd_mem (put_bytes (unat (phys + (li_vaddr li - r))) (li_data li)))) (\<lambda>_.
             bnd (or_fail ''failed to map linux-style stack'' (map_in pml4 r phys (align_up64 (USER_STACK_TOP - r) PAGE_SIZE) USER_RW)) (\<lambda>_.
             bnd (on_proc (\<lambda>p. p\<lparr>p_stack_low := r\<rparr>)) (\<lambda>_.
             ret (li_rsp li)))))))) (p, k) (outcome (tracks k0) (linux_ready k0 pml4 li))" if low: "\<not> r < USER_STACK_LOW_LIMIT"
  proof (rule runs_bnd [OF stack_backing_runs [OF s new]], clarify)
    fix p1 k1 assume s1: "sound k0 pml4 (p1, k1)" "stack_map p1 \<in> set (p_mappings p1)"
    have lo: "0xFF00000 \<le> unat r" using low by (simp add: word_less_nat_alt stack_consts)
    define A where "A = unat (stack_phys_for p1 (li_rsp li))"
    have hi: "unat (li_rsp li) \<le> 0x10000000" "0xFF00000 \<le> unat (li_rsp li)" "unat (li_vaddr li) \<le> 0x10000000" "0xFF00000 \<le> unat (li_vaddr li)"
      using lv(2) le(1) lo v by linarith+
    note P = stack_phys_nat(1) [OF soundD(2) [OF s1(1)] s1(2)]
    have B: "unat (stack_phys_for p1 (li_vaddr li)) = A + length (li_table li)" using P [OF hi(4,3)] P [OF hi(2,1)] v hi(2) by (simp add: A_def)
    define g where "g = (\<lambda>m. put_bytes (A + length (li_table li)) (li_data li) (put_bytes A (li_table li) m))"
    have "g m b = m b" if "b div 4096 \<notin> own p1" for m b
      using stack_write [OF soundD(2) [OF s1(1)] s1(2) hi(2) _ that, of "li_table li"]
        stack_write [OF soundD(2) [OF s1(1)] s1(2) hi(4) _ that, of "li_data li"] lv(2) v by (simp add: g_def A_def [symmetric] B)
    from fill_sound [where g = g, OF s1(1) this] have s2: "sound k0 pml4 (p1, upd_mem g k1)" .
    have e: "unat r + unat (USER_STACK_TOP - r) = 0x10000000" using region_args(2) [OF lo le(3,2)] le(3) by simp
    have fin: "linux_ready k0 pml4 li (li_rsp li) (p1\<lparr>p_frames := fs, p_stack_low := r\<rparr>, k2)"
      if R: "sound k0 pml4 (p1\<lparr>p_frames := fs\<rparr>, k2)" "k_mem k2 = k_mem (upd_mem g k1)" "\<forall>w. unat w < 2 ^ 32 \<longrightarrow> hw_walk (k_pt k2) (unat pml4) w =
              mapped r (stack_phys_for p1 r) (unat (USER_STACK_TOP - r) div 4096) USER_RW (hw_walk (k_pt (upd_mem g k1)) (unat pml4)) w" for fs k2
    proof -
      let ?p = "p1\<lparr>p_frames := fs\<rparr>"
      have st: "stack_map ?p \<in> set (p_mappings ?p)" "stack_phys_for ?p = stack_phys_for p1" using s1(2) by (auto simp: stack_phys_for_def)
      have "peek k2 pml4 (li_rsp li + of_nat i) = Some ((li_table li @ li_data li) ! i)" if i: "i < length (li_table li @ li_data li)" for i
      proof -
        let ?w = "li_rsp li + of_nat i :: u64"
        have w: "unat ?w = unat (li_rsp li) + i" "unat ?w < 0x10000000" using i lv(2) by (simp_all add: unat_word_ariths unat_of_nat)
        have "peek k2 pml4 ?w = Some (k_mem k2 (unat (stack_phys_for ?p ?w)))"
          by (rule stack_block_at [OF soundD(2) [OF R(1)] st(1) lo le(2) _ w(2)]) (use R(3) w le(1) st(2) in auto)
        moreover have "unat (stack_phys_for ?p ?w) = A + i" using P [of ?w] P [OF hi(2,1)] w hi(2) unfolding st(2) A_def by simp
        moreover have "k_mem k2 (A + i) = g (k_mem k1) (A + i)" by (simp add: R(2) kern_simps)
        ultimately show ?thesis unfolding g_def by (simp add: put_two [OF refl i])
      qed
      moreover have "stack_ok (?p\<lparr>p_stack_low := r\<rparr>)"
        using st(1) lo le(2,3) by (auto simp: stack_ok_def stack_map_def page_mod word_le_nat_alt stack_consts)
      ultimately show ?thesis using R(1) by (simp add: linux_ready_def ready_def sound_def holds_at_def vm_fields user_rsp_fields)
    qed
    show "runs (bnd (gets (\<lambda>(p, k). stack_phys_for p r)) (\<lambda>phys.
             bnd (on_kern (upd_mem (put_bytes (unat (phys + (li_rsp li - r))) (li_table li)))) (\<lambda>_.
             bnd (on_kern (upd_mem (put_bytes (unat (phys + (li_vaddr li - r))) (li_data li)))) (\<lambda>_.
             bnd (or_fail ''failed to map linux-style stack'' (map_in pml4 r phys (align_up64 (USER_STACK_TOP - r) PAGE_SIZE) USER_RW)) (\<lambda>_.
             bnd (on_proc (\<lambda>p. p\<lparr>p_stack_low := r\<rparr>)) (\<lambda>_.
             ret (li_rsp li))))))) (p1, k1) (outcome (tracks k0) (linux_ready k0 pml4 li))"
      unfolding region_args(1) [OF lo le(3,2)]
      apply (rule runs_then, simp only: runs_gets outcome_simps prod.case stack_phys_add)
      apply (rule runs_then, simp only: runs_on_kern outcome_simps)
      apply (rule runs_then, simp only: runs_on_kern outcome_simps upd_mem_comp B)
      apply (fold A_def, fold g_def)
      apply (rule runs_bnd [OF map_stack_runs [OF s2 s1(2) le(2) lo e]])
      apply (clarify, rule runs_then, simp only: runs_on_proc runs_ret outcome_simps)
      apply (rule fin, assumption+)
      done
  qed
  show ?thesis unfolding setup_linux_stack_def Let_def
    apply (rule runs_then)
    apply (simp only: L(1) Ok_def runs_from_result outcome_simps r_def [symmetric])
    apply (split if_split, intro conjI impI)
    subgoal using s by (simp add: sound_def)
    subgoal by (rule runs_mono [OF rest]) (use L(2) in auto)
    done
qed

section \<open>Giving everything back\<close>

text \<open>The kernel as it was in \<open>k0\<close>, up to the contents of free frames.\<close>

definition restored :: "kern \<Rightarrow> kern \<Rightarrow> bool" where
  "restored k0 k \<longleftrightarrow> pmm_inv (k_pmm k) \<and> avail (k_pmm k) = avail (k_pmm k0) \<and> pmm_managed (k_pmm k) = pmm_managed (k_pmm k0)
     \<and> (\<forall>b. b div 4096 \<notin> avail (k_pmm k0) \<longrightarrow> k_pt k b = k_pt k0 b \<and> k_mem k b = k_mem k0 b)
     \<and> endpoints (k_sock k) = endpoints (k_sock k0) \<and> listeners (k_sock k) = listeners (k_sock k0)
     \<and> sh_table (k_shm k) = sh_table (k_shm k0) \<and> k_vol k = k_vol k0 \<and> k_now k = k_now k0"

lemma free_frames:
  assumes "pmm_inv q" "\<forall>a \<in> set fs. 4096 dvd a \<and> a div 4096 \<in> pmm_managed q"
  shows "\<exists>q'. for_each frame_free fs q = Some q' \<and> pmm_inv q' \<and> pmm_managed q' = pmm_managed q
     \<and> avail q' = avail q \<union> (\<lambda>a. a div 4096) ` set fs"
  using assms
proof (induction fs arbitrary: q)
  case (Cons a fs)
  define f where "f = a div 4096"
  have a: "a = f * FRAME_SIZE" "f \<le> last_usable_frame q" using Cons.prems(2) by (auto simp: f_def FRAME_SIZE_def pmm_managed_def)
  from frame_free_spec [OF Cons.prems(1) a(2)] obtain q1 where q1: "frame_free a q = Some q1" "pmm_inv q1"
      "pmm_managed q1 = pmm_managed q" "avail q1 = insert f (avail q)" by (auto simp: a(1) pmm_managed_def)
  from Cons.IH [OF q1(2)] Cons.prems(2) q1(3) show ?case unfolding for_each.simps q1(1) by (auto simp: q1(4) f_def)
qed simp

lemma drop_no_fds: "\<forall>e \<in> set fds. e = None \<Longrightarrow> drop_fds fds k = Some k"
proof -
  assume "\<forall>e \<in> set fds. e = None"
  then have "List.map_filter id fds = []" by (induction fds) (auto simp: List.map_filter_def)
  then show ?thesis by (simp add: drop_fds_def)
qed

lemma free_process_restores:
  assumes "pmm_inv (k_pmm k0)" "tracks k0 (p, k)"
  shows "\<exists>k'. free_process p k = Some k' \<and> restored k0 k'"
proof -
  note T = tracksD [OF assms(2)]
  have "\<forall>a \<in> set (p_frames p). 4096 dvd a \<and> a div 4096 \<in> pmm_managed (k_pmm k)"
    using assms(2) T(2,6) by (auto simp: tracks_def own_def avail_def pmm_managed_def)
  from free_frames [OF T(1) this] obtain q where q: "for_each frame_free (p_frames p) (k_pmm k) = Some q" "pmm_inv q"
      "pmm_managed q = pmm_managed (k_pmm k)" "avail q = avail (k_pmm k) \<union> own p" by (auto simp: own_def)
  have "drop_fds (p_fds p) (set_pmm q k) = Some (set_pmm q k)" using assms(2) by (intro drop_no_fds) (simp add: tracks_def)
  moreover have "avail q = avail (k_pmm k0)" using q(4) T(2,3) by blast
  ultimately show ?thesis using assms(2) q by (auto simp: free_process_def restored_def tracks_def kern_simps)
qed

section \<open>The system around a new process\<close>

definition procs :: "sched \<Rightarrow> (u64 \<times> process) list" where
  "procs s = List.map_filter (\<lambda>t. map_option (Pair (t_cr3 t)) (t_process t)) (s_tasks s)"

lemma tracks_evolve: "tracks k0 (p, k) \<Longrightarrow> own p0 = {} \<Longrightarrow> evolves p0 k0 p k"
  unfolding tracks_def evolves_def by auto

lemma restored_evolve: "restored k0 k \<Longrightarrow> own p0 = {} \<Longrightarrow> evolves p0 k0 p0 k"
  unfolding restored_def evolves_def by auto

lemma nobody: "\<exists>p0. own p0 = {}"
  by (rule exI [of _ "undefined\<lparr>p_frames := []\<rparr>"]) (simp add: own_def)

lemma sys_ok_restored:
  assumes "sys_ok (ps, k0)" "restored k0 k"
  shows "sys_ok (ps, k)"
proof -
  obtain p0 where o: "own p0 = {}" using nobody by blast
  then have "vm_ok pml4 p k" if "vm_ok pml4 p k0" for pml4 p
    using other_keep(1) [OF that _ restored_evolve [OF assms(2) o]] assms(2) by (simp add: restored_def)
  then show ?thesis using assms(1) unfolding sys_ok_def by simp
qed

lemma sys_ok_add:
  assumes sys: "sys_ok (ps, k0)" and r: "ready k0 pml4 (p, k)"
  shows "sys_ok (ps @ [(pml4, p)], k)"
proof -
  have s: "tracks k0 (p, k)" "vm_ok pml4 p k" "stack_ok p" using r by (simp_all add: ready_def sound_def)
  obtain p0 where o: "own p0 = {}" using nobody by blast
  note S = sys [unfolded sys_ok_def fst_conv snd_conv]
  have O: "vm_ok (fst (ps ! j)) (snd (ps ! j)) k \<and> own p \<inter> own (snd (ps ! j)) = {}" if "j < length ps" for j
    using other_keep [OF _ _ tracks_evolve [OF s(1) o] tracksD(1) [OF s(1)]] S that o by blast
  show ?thesis unfolding sys_ok_def fst_conv snd_conv
  proof (intro conjI allI impI)
    fix i assume i: "i < length (ps @ [(pml4, p)])"
    then show "vm_ok (fst ((ps @ [(pml4, p)]) ! i)) (snd ((ps @ [(pml4, p)]) ! i)) k" "stack_ok (snd ((ps @ [(pml4, p)]) ! i))"
      using s O [of i] S by (cases "i < length ps"; simp add: nth_append)+
    fix j assume "j < length (ps @ [(pml4, p)])" "i \<noteq> j"
    then show "own (snd ((ps @ [(pml4, p)]) ! i)) \<inter> own (snd ((ps @ [(pml4, p)]) ! j)) = {}"
      using i O [of i] O [of j] S by (cases "i < length ps"; cases "j < length ps") (simp_all add: nth_append Int_commute less_Suc_eq)
  qed
qed

text \<open>The kernel's own tables survive: they lie outside the free frames.\<close>

lemma kernel_ok_keep:
  assumes K: "kernel_ok r k0" and b: "\<And>b. b div 4096 \<notin> avail (k_pmm k0) \<Longrightarrow> k_pt k b = k_pt k0 b"
      and q: "pmm_inv (k_pmm k)" "avail (k_pmm k) \<subseteq> avail (k_pmm k0)"
  shows "kernel_ok r k"
proof -
  note D = kernel_okD [OF K]
  have nf: "tbl_frames (k_pt k0) r \<inter> avail (k_pmm k0) = {}" using D(2) by (auto simp: pt_ok_def tbl_frames_def)
  have ag: "k_pt k a = k_pt k0 a" if "a div 4096 \<in> tbl_frames (k_pt k0) r" for a using b nf that by blast
  have same: "k_pt k (ent (tbl_loc (k_pt k0) r t) n) = k_pt k0 (ent (tbl_loc (k_pt k0) r t) n)" if "tbl_live (k_pt k0) r t" "n < 512" for t n
    by (rule ag, rule live_frame [OF live_simps(1) [OF D(2)] that])
  have e4: "E4 (k_pt k) r = E4 (k_pt k0) r" using same [of TRoot 0] by (simp add: E4_def)
  have e3: "E3 (k_pt k) r i = E3 (k_pt k0) r i" if "i < 512" for i using same [of TPdpt i] that by (simp add: E3_def e4)
  have e2: "E2 (k_pt k) r i j = E2 (k_pt k0) r i j" if "i < 4" "j < 512" for i j
    using same [of "TPd i" j] that by (simp add: E2_def e3)
  have e1: "E1 (k_pt k) r i j x = E1 (k_pt k0) r i j x" if "tbl_live (k_pt k0) r (TPt i j)" "x < 512" for i j x
    using same [of "TPt i j" x] that by (simp add: E1_def e2)
  have wk: "walk_at (k_pt k) r i j x = walk_at (k_pt k0) r i j x" if "i < 4" "j < 512" "x < 512" for i j x
    using e1 [of i j x] e2 that by (simp add: walk_at_def)
  have "avail (k_pmm k) \<inter> tbl_frames (k_pt k0) r = {}" using nf q(2) by blast
  note T = tables_agree(1,2) [where m' = "k_pt k", OF D(2) ag this]
  have "entry_ptr (E2 (k_pt k) r i j) = table_base (E2 (k_pt k) r i j)" if "tbl_live (k_pt k) r (TPt i j)" for i j
    using that D(6) [of i j] e2 [of i j] unfolding T(2) by simp
  moreover have "\<not> pte_user fl" if "i < 4" "j < 512" "x < 512" "walk_at (k_pt k) r i j x = Some (a, fl)" for i j x a fl
    using D(7) that wk by metis
  ultimately show ?thesis using q(1) T(1) D(3-5) e4 e3 unfolding kernel_ok_def by simp
qed

section \<open>Loading a program\<close>

text \<open>A process under construction whose stack is still to come.\<close>

definition loading :: "kern \<Rightarrow> u64 \<Rightarrow> process \<times> kern \<Rightarrow> bool" where
  "loading k0 pml4 st \<longleftrightarrow> sound k0 pml4 st \<and> (\<forall>m \<in> set (p_mappings (fst st)). m_vaddr m \<noteq> USER_STACK_LOW_LIMIT)
     \<and> p_stack_low (fst st) = USER_STACK_BASE"

lemma loadingD:
  assumes "loading k0 pml4 (p, k)"
  shows "sound k0 pml4 (p, k)" "stack_map p \<notin> set (p_mappings p)" "p_stack_low p = USER_STACK_BASE"
  using assms by (auto simp: loading_def stack_map_def)

lemma load_step:
  assumes l: "loading k0 pml4 (p, k)" and segs: "segs \<noteq> []" "\<forall>s \<in> set segs. seg_fits data s"
  shows "runs (load_segments pml4 segs data) (p, k) (outcome (tracks k0) (\<lambda>_. loading k0 pml4))"
proof -
  note s = soundD [OF loadingD(1) [OF l]]
  obtain S E where sp: "span segs = (S, E)" by (cases "span segs")
  show ?thesis
  proof (rule runs_mono [OF load_segments_runs [OF s(2) segs sp]], goal_cases)
    case (1 st)
    then show ?case using tracks_evolves [OF s(1)] by (cases st) auto
  next
    case (2 _ st)
    obtain p' k' where st: "st = (p', k')" by (cases st)
    from 2 obtain m fs where L: "p' = add_mapping m (p\<lparr>p_frames := fs\<rparr>)" "m_vaddr m = S" "vm_ok pml4 p' k'" "evolves p k p' k'"
      by (auto simp: loaded_def st)
    have "sound k0 pml4 (p', k')" by (rule soundI [OF s(1) L(3,4)]) (simp add: L(1) add_mapping_def)
    then show ?case using l span_props(7) [OF segs sp] by (auto simp: loading_def st L(1,2) add_mapping_def)
  qed
qed

lemma built_loading:
  assumes "built kr k0 p0 pml4 (p, k)" "empty_handed p0" "p_stack_low p0 = USER_STACK_BASE"
  shows "loading k0 pml4 (p, k)"
  using assms by (auto simp: built_def loading_def sound_def empty_handed_def)

lemma rebase_ok: "program_ok data prog \<Longrightarrow> program_ok data (rebase b prog)"
  by (auto simp: program_ok_def rebase_def segment_ok_def)

lemma parse_valid_cases:
  assumes "length data < 2 ^ 64"
  shows "(\<exists>e. parse_valid env data = Err e)
     \<or> (\<exists>prog. parse_valid env data = Ok prog \<and> program_ok data prog \<and> (\<forall>s \<in> set (segments prog). seg_fits data s))"
proof -
  have "holds (\<lambda>prog. program_ok data prog \<and> (\<forall>s \<in> set (segments prog). seg_fits data s)) (parse_valid env data)"
    unfolding parse_valid_def Let_def
  proof (rule holds_and_then [OF elf_parse_holds [OF assms]])
    fix prog0 assume "program_ok data prog0"
    then have ok: "program_ok data (apply_pie_bias prog0)" using rebase_ok by (simp add: apply_pie_bias_def)
    show "holds (\<lambda>prog. program_ok data prog \<and> (\<forall>s \<in> set (segments prog). seg_fits data s))
        (and_then (validate_segments (e_heap env) (apply_pie_bias prog0)) (\<lambda>_. Ok (apply_pie_bias prog0)))"
      using validate_holds [of "e_heap env" "apply_pie_bias prog0"] validate_segments_fit [of "e_heap env" "apply_pie_bias prog0" data] ok
      by (auto simp: holds_def program_ok_def and_then_def Err_def Ok_def)
  qed
  then show ?thesis by (auto simp: holds_def)
qed

lemma new_process_empty: "empty_handed (new_process prog ab h)" "p_stack_low (new_process prog ab h) = USER_STACK_BASE"
  by (simp_all add: empty_handed_def new_process_def)

lemma spawn_body_runs:
  assumes K: "kernel_ok (unat (e_kernel_pml4 env)) k" and segs: "segments prog \<noteq> []" "\<forall>s \<in> set (segments prog). seg_fits data s"
      and p0: "empty_handed p0" "p_stack_low p0 = USER_STACK_BASE"
  shows "runs (spawn_body env prog data) (p0, k) (outcome (tracks k) (ready k))"
  unfolding spawn_body_def
proof (rule runs_bnd [OF build_address_space_runs [OF K p0(1)]])
  fix pml4 st assume "built (e_kernel_pml4 env) k p0 pml4 st"
  then obtain p1 k1 where st: "st = (p1, k1)" "loading k pml4 (p1, k1)" using built_loading [OF _ p0] by (cases st) auto
  have "runs (bnd (setup_user_stack pml4) (\<lambda>_. ret pml4)) st' (outcome (tracks k) (ready k))" if "loading k pml4 st'" for st'
    using that by (cases st') (auto intro!: runs_bnd [OF setup_user_stack_runs [OF loadingD]])
  then show "runs (bnd (load_segments pml4 (segments prog) data) (\<lambda>_. bnd (setup_user_stack pml4) (\<lambda>_. ret pml4))) st (outcome (tracks k) (ready k))"
    unfolding st(1) by (rule runs_bnd [OF load_step [OF st(2) segs]])
qed

text \<open>The volume can be read: the interpreter's file is found or not, and reading leaves the volume as it is.\<close>

definition readable :: "mounted \<Rightarrow> bool" where
  "readable v \<longleftrightarrow> (\<forall>path. \<exists>r. read_file path v = Some (r, v) \<and> (\<forall>bytes. r = Inr bytes \<longrightarrow> length bytes < 2 ^ 64))"

lemma loading_fields:
  "loading k0 pml4 (p\<lparr>p_entry := e\<rparr>, k) = loading k0 pml4 (p, k)"
  by (simp add: loading_def sound_def user_rsp_fields)

lemma load_interp_runs:
  assumes l: "loading k0 pml4 (p, k)" and v: "readable (k_vol k0)"
  shows "runs (load_interp env pml4 prog) (p, k) (outcome (tracks k0) (\<lambda>_. loading k0 pml4))"
proof (cases "interp prog")
  case None
  then show ?thesis using l by (simp add: load_interp_def)
next
  case (Some path)
  have t: "tracks k0 (p, k)" using l by (simp add: loading_def sound_def)
  have "k_vol k = k_vol k0" using t by (simp add: tracks_def)
  then obtain r where r: "read_file path (k_vol k) = Some (r, k_vol k)" "\<forall>bytes. r = Inr bytes \<longrightarrow> length bytes < 2 ^ 64"
    using v unfolding readable_def by metis
  have rd: "runs (read_interp path) (p, k) (outcome (tracks k0) (\<lambda>bytes st. st = (p, k) \<and> length bytes < 2 ^ 64))"
    using r t by (cases r) (simp_all add: runs_def read_interp_def)
  have rest: "runs (bnd (from_result (elf_parse bytes)) (\<lambda>ip0.
          let b = (if is_pie ip0 then INTERP_LOAD_BASE else 0); ip = (if is_pie ip0 then rebase INTERP_LOAD_BASE ip0 else ip0)
          in bnd (from_result (validate_segments (e_heap env) ip)) (\<lambda>_.
             bnd (load_segments pml4 (segments ip) bytes) (\<lambda>_. ret (entry ip, b))))) (p, k) (outcome (tracks k0) (\<lambda>_. loading k0 pml4))"
    if len: "length bytes < 2 ^ 64" for bytes
  proof (rule runs_bnd [where P = "\<lambda>ip st. st = (p, k) \<and> program_ok bytes ip"])
    show "runs (from_result (elf_parse bytes)) (p, k) (outcome (tracks k0) (\<lambda>ip st. st = (p, k) \<and> program_ok bytes ip))"
      using elf_parse_holds [OF len] t by (auto simp: holds_def Err_def Ok_def runs_from_result)
    fix ip0 st assume ip0: "st = (p, k) \<and> program_ok bytes ip0"
    define ip where "ip = (if is_pie ip0 then rebase INTERP_LOAD_BASE ip0 else ip0)"
    have ok: "program_ok bytes ip" using ip0 rebase_ok by (simp add: ip_def)
    show "runs (let b = (if is_pie ip0 then INTERP_LOAD_BASE else 0); ip = (if is_pie ip0 then rebase INTERP_LOAD_BASE ip0 else ip0)
          in bnd (from_result (validate_segments (e_heap env) ip)) (\<lambda>_.
             bnd (load_segments pml4 (segments ip) bytes) (\<lambda>_. ret (entry ip, b)))) st (outcome (tracks k0) (\<lambda>_. loading k0 pml4))"
      unfolding Let_def ip_def [symmetric]
    proof (rule runs_bnd [where P = "\<lambda>_ st. st = (p, k) \<and> (\<forall>s \<in> set (segments ip). seg_fits bytes s)"])
      show "runs (from_result (validate_segments (e_heap env) ip)) st
          (outcome (tracks k0) (\<lambda>_ st. st = (p, k) \<and> (\<forall>s \<in> set (segments ip). seg_fits bytes s)))"
        using validate_holds [of "e_heap env" ip] validate_segments_fit [of "e_heap env" ip bytes] ok ip0 t
        by (auto simp: holds_def Err_def Ok_def runs_from_result program_ok_def)
    qed (use load_step [OF l, of "segments ip" bytes] ok in \<open>auto intro!: runs_bnd simp: program_ok_def\<close>)
  qed
  show ?thesis unfolding load_interp_def Some option.case
    by (rule runs_bnd [OF rd]) (use rest in auto)
qed

lemma linux_body_runs:
  assumes K: "kernel_ok (unat (e_kernel_pml4 env)) k" and prog: "program_ok data prog" "\<forall>s \<in> set (segments prog). seg_fits data s"
      and p0: "empty_handed p0" "p_stack_low p0 = USER_STACK_BASE" and v: "readable (k_vol k)"
      and small: "length data < 2 ^ 64" "args_size argv + args_size envp < 2 ^ 32"
  shows "runs (linux_body env prog data argv envp) (p0, k) (outcome (tracks k) (ready k))"
  unfolding linux_body_def
proof (rule runs_bnd [OF build_address_space_runs [OF K p0(1)]])
  fix pml4 st assume "built (e_kernel_pml4 env) k p0 pml4 st"
  then obtain p1 k1 where st: "st = (p1, k1)" "loading k pml4 (p1, k1)" using built_loading [OF _ p0] by (cases st) auto
  have segs: "segments prog \<noteq> []" using prog(1) by (simp add: program_ok_def)
  have ends: "runs (bnd (setup_linux_stack pml4 data prog ib (e_ticks env) argv envp) (\<lambda>rsp. bnd (on_proc (\<lambda>p. p\<lparr>p_user_rsp := rsp\<rparr>)) (\<lambda>_. ret pml4)))
      st' (outcome (tracks k) (ready k))" if "loading k pml4 st'" for st' ib
  proof -
    obtain p2 k2 where s2: "st' = (p2, k2)" by (cases st')
    note L = loadingD [OF that [unfolded s2]]
    show ?thesis unfolding s2
    proof (rule runs_bnd [OF setup_linux_stack_runs [OF L(1,2) prog(1) small]], elim exE conjE)
      fix rsp st3 li assume "linux_ready k pml4 li rsp st3"
      then have "ready k pml4 st3" by (simp add: linux_ready_def)
      then show "runs (bnd (on_proc (\<lambda>p. p\<lparr>p_user_rsp := rsp\<rparr>)) (\<lambda>_. ret pml4)) st3 (outcome (tracks k) (ready k))"
        by (cases st3, intro runs_then) (auto simp: ready_def sound_def user_rsp_fields)
    qed
  qed
  have mid: "runs (bnd (load_interp env pml4 prog) (\<lambda>(ent', ib). bnd (on_proc (\<lambda>p. p\<lparr>p_entry := unat ent'\<rparr>)) (\<lambda>_.
      bnd (setup_linux_stack pml4 data prog ib (e_ticks env) argv envp) (\<lambda>rsp. bnd (on_proc (\<lambda>p. p\<lparr>p_user_rsp := rsp\<rparr>)) (\<lambda>_. ret pml4)))))
      st' (outcome (tracks k) (ready k))" if "loading k pml4 st'" for st'
  proof -
    obtain p2 k2 where s2: "st' = (p2, k2)" by (cases st')
    show ?thesis unfolding s2
    proof (rule runs_bnd [OF load_interp_runs [OF that [unfolded s2] v]])
      fix x st3 assume "loading k pml4 st3"
      then show "runs (case x of (ent', ib) \<Rightarrow> bnd (on_proc (\<lambda>p. p\<lparr>p_entry := unat ent'\<rparr>)) (\<lambda>_.
          bnd (setup_linux_stack pml4 data prog ib (e_ticks env) argv envp) (\<lambda>rsp. bnd (on_proc (\<lambda>p. p\<lparr>p_user_rsp := rsp\<rparr>)) (\<lambda>_. ret pml4))))
          st3 (outcome (tracks k) (ready k))"
        by (cases x; cases st3) (auto intro!: runs_then ends simp: loading_fields)
    qed
  qed
  show "runs (bnd (load_segments pml4 (segments prog) data) (\<lambda>_. bnd (load_interp env pml4 prog) (\<lambda>(ent', ib).
      bnd (on_proc (\<lambda>p. p\<lparr>p_entry := unat ent'\<rparr>)) (\<lambda>_.
      bnd (setup_linux_stack pml4 data prog ib (e_ticks env) argv envp) (\<lambda>rsp. bnd (on_proc (\<lambda>p. p\<lparr>p_user_rsp := rsp\<rparr>)) (\<lambda>_. ret pml4)))))) st
      (outcome (tracks k) (ready k))"
    unfolding st(1) by (rule runs_bnd [OF load_step [OF st(2) segs prog(2)]], rule mid)
qed

section \<open>The two spawn functions\<close>

text \<open>A call that failed, and a call that added a process.\<close>

definition spawn_failed :: "sched \<Rightarrow> kern \<Rightarrow> (string + usize) \<times> sched \<times> kern \<Rightarrow> bool" where
  "spawn_failed s k res \<longleftrightarrow> (case res of (r, s', k') \<Rightarrow> (\<exists>e. r = Inl e) \<and> s' = s \<and> restored k k')"

definition spawned :: "usize \<Rightarrow> sched \<Rightarrow> kern \<Rightarrow> (string + usize) \<times> sched \<times> kern \<Rightarrow> bool" where
  "spawned kr s k res \<longleftrightarrow> (case res of (r, s', k') \<Rightarrow> r = Inr (length (s_tasks s)) \<and> length (s_tasks s') = Suc (length (s_tasks s))
     \<and> take (length (s_tasks s)) (s_tasks s') = s_tasks s \<and> (\<exists>pml4 p. procs s' = procs s @ [(pml4, p)] \<and> own p \<subseteq> avail (k_pmm k)
     \<and> avail (k_pmm k') = avail (k_pmm k) - own p) \<and> kernel_ok kr k')"

lemma restored_refl: "pmm_inv (k_pmm k) \<Longrightarrow> restored k k"
  by (simp add: restored_def)

lemma finish_spawn_runs:
  assumes K: "kernel_ok kr k" and sys: "sys_ok (procs s, k)" and body: "runs body (p0, k) (outcome (tracks k) (ready k))"
  shows "\<exists>res. finish_spawn env name body p0 (s, k) = Some res \<and> (spawn_failed s k res \<or> spawned kr s k res)
     \<and> sys_ok (procs (fst (snd res)), snd (snd res))"
proof -
  obtain r p k1 where b: "body (p0, k) = Some (r, p, k1)" "outcome (tracks k) (ready k) r (p, k1)" using body by (auto simp: runs_def)
  show ?thesis
  proof (cases r)
    case (Inl e)
    then obtain k2 where "free_process p k1 = Some k2" "restored k k2"
      using free_process_restores [OF kernel_okD(1) [OF K]] b(2) by auto
    then show ?thesis using b(1) Inl sys_ok_restored [OF sys] by (auto simp: finish_spawn_def spawn_failed_def)
  next
    case (Inr pml4)
    then have rd: "ready k pml4 (p, k1)" using b(2) by simp
    then have t: "tracks k (p, k1)" by (simp add: ready_def sound_def)
    obtain pid s' where sp: "spawn_process (e_stack env) (e_tramp env) (e_start env) name pml4 p s = (pid, s')"
      by (cases "spawn_process (e_stack env) (e_tramp env) (e_start env) name pml4 p s")
    then obtain t' where S: "pid = length (s_tasks s)" "s_tasks s' = s_tasks s @ [t']" "t_cr3 t' = pml4" "t_process t' = Some p"
      by (auto simp: spawn_process_def push_task_def Let_def split: prod.splits)
    have pr: "procs s' = procs s @ [(pml4, p)]" by (simp add: procs_def S List.map_filter_def)
    have "kernel_ok kr k1" using kernel_ok_keep [OF K] tracksD [OF t] by auto
    then have "spawned kr s k (Inr pid, s', k1)" using S pr tracksD(2,3) [OF t] by (auto simp: spawned_def)
    moreover have "sys_ok (procs s', k1)" unfolding pr by (rule sys_ok_add [OF sys rd])
    ultimately show ?thesis using b(1) Inr sp by (simp add: finish_spawn_def)
  qed
qed

lemma spawn_runs:
  assumes K: "kernel_ok (unat (e_kernel_pml4 env)) k" and sys: "sys_ok (procs s, k)" and len: "length data < 2 ^ 64"
  shows "\<exists>res. spawn env data name (s, k) = Some res \<and> (spawn_failed s k res \<or> spawned (unat (e_kernel_pml4 env)) s k res)
     \<and> sys_ok (procs (fst (snd res)), snd (snd res))"
  using parse_valid_cases [OF len, of env]
proof (elim disjE exE conjE)
  fix e assume "parse_valid env data = Err e"
  then show ?thesis using sys restored_refl [OF kernel_okD(1) [OF K]] by (auto simp: spawn_def Err_def spawn_failed_def)
next
  fix prog assume P: "parse_valid env data = Ok prog" "program_ok data prog" "\<forall>s \<in> set (segments prog). seg_fits data s"
  then have ne: "segments prog \<noteq> []" by (simp add: program_ok_def)
  from finish_spawn_runs [OF K sys spawn_body_runs [OF K ne P(3) new_process_empty], of env name prog AbiNative 0] show ?thesis
    using P(1) by (simp add: spawn_def Ok_def)
qed

lemma spawn_linux_runs:
  assumes K: "kernel_ok (unat (e_kernel_pml4 env)) k" and sys: "sys_ok (procs s, k)" and len: "length data < 2 ^ 64"
      and v: "readable (k_vol k)" and small: "args_size argv + args_size envp < 2 ^ 32"
  shows "\<exists>res. spawn_linux env data name argv envp (s, k) = Some res \<and> (spawn_failed s k res \<or> spawned (unat (e_kernel_pml4 env)) s k res)
     \<and> sys_ok (procs (fst (snd res)), snd (snd res))"
  using parse_valid_cases [OF len, of env]
proof (elim disjE exE conjE)
  fix e assume "parse_valid env data = Err e"
  then show ?thesis using sys restored_refl [OF kernel_okD(1) [OF K]] by (auto simp: spawn_linux_def Err_def spawn_failed_def)
next
  fix prog assume P: "parse_valid env data = Ok prog" "program_ok data prog" "\<forall>s \<in> set (segments prog). seg_fits data s"
  then obtain h where h: "first_brk (segments prog) = Some h" by (cases "segments prog") (auto simp: program_ok_def first_brk_def)
  from finish_spawn_runs [OF K sys linux_body_runs [OF K P(2,3) new_process_empty v len small], of env name prog AbiLinux h] show ?thesis
    using P(1) h by (simp add: spawn_linux_def Ok_def)
qed

section \<open>The boot machine as an instance\<close>

lemma demo_kernel_ok: "kernel_ok 4096 demo_kern"
proof -
  have k: "k_pt demo_kern = id_map" "k_pmm demo_kern = demo_pmm" by (simp_all add: demo_kern_def)
  have "pt_ok (k_pt demo_kern) (avail (k_pmm demo_kern)) 4096"
    using vm_frames(2) [OF demo_ok(1)] by simp
  moreover have "\<not> pte_present (E3 id_map 4096 x)" if "4 \<le> x" "x < 512" for x
    using that by (simp add: E3_def id_E4 table_base_def ADDR_MASK_def ent_def id_map_def pte_present_def)
  moreover have "entry_ptr (E4 id_map 4096) = table_base (E4 id_map 4096)"
    by (simp add: id_E4 entry_ptr_def table_base_def ADDR_MASK_def)
  moreover have "entry_ptr (E3 id_map 4096 i) = table_base (E3 id_map 4096 i)" if "i < 4" for i
  proof -
    have "i = 0 \<or> i = 1 \<or> i = 2 \<or> i = 3" using that by linarith
    then show ?thesis unfolding id_E3 [OF that] id_E3_base [OF that] by (elim disjE) (simp_all add: entry_ptr_def)
  qed
  moreover have "\<not> tbl_live id_map 4096 (TPt i j)" for i j unfolding id_live by simp
  ultimately show ?thesis unfolding kernel_ok_def k using id_no_user demo_avail by blast
qed

definition demo_bare :: process where
  "demo_bare = demo_proc\<lparr>p_mappings := []\<rparr>"

lemma demo_bare_ok: "vm_ok 4096 demo_bare demo_kern"
proof -
  have r: "unat (4096 :: u64) = 4096" by simp
  have o: "own demo_bare = own demo_proc" "p_frames demo_bare = p_frames demo_proc" "p_mappings demo_bare = []" by (simp_all add: own_def demo_bare_def)
  have "frames_ok 4096 demo_bare demo_kern" using demo_ok(1) by (simp add: vm_ok_def frames_ok_def o)
  moreover have "\<not> pte_user fl" if "unat w < 2 ^ 32" "hw_walk (k_pt demo_kern) 4096 w = Some (a, fl)" for w a fl
    using that hw_walk_W(1,3) [OF kernel_okD(2) [OF demo_kernel_ok] that(1)] kernel_okD(7) [OF demo_kernel_ok] pidx_lt by metis
  then have "pages_ok 4096 demo_bare demo_kern" by (intro pages_okI) (simp add: r)
  ultimately show ?thesis by (simp add: vm_ok_def maps_ok_def o)
qed

section \<open>Properties\<close>

lemma vm_tracks:
  assumes v: "vm_ok pml4 p k" and fds: "\<forall>e \<in> set (p_fds p). e = None"
  shows "\<exists>k0. tracks k0 (p, k)"
proof -
  note F = vm_frames [OF v]
  have d: "\<forall>a \<in> set (p_frames p). 4096 dvd a \<and> a div 4096 \<in> pmm_managed (k_pmm k)"
    using v by (auto simp: vm_ok_def frames_ok_def own_def)
  from free_frames [OF F(1) d] obtain q where q: "pmm_managed q = pmm_managed (k_pmm k)" "avail q = avail (k_pmm k) \<union> own p"
    by (auto simp: own_def)
  have "tracks (set_pmm q k) (p, k)" using F(1,4) q d fds unfolding tracks_def by (auto simp: kern_simps)
  then show ?thesis by blast
qed

lemma holds_at_words:
  assumes "holds_at k pml4 rsp (words_bytes ws @ bs)" "i < length ws"
  shows "holds_at k pml4 (rsp + of_nat (8 * i)) (word_bytes (ws ! i))"
  by (rule holds_at_part [OF assms(1) part_at_append [OF words_part [OF assms(2)]]])

lemma holds_at_data:
  assumes "holds_at k pml4 rsp (t @ bs)" "part_at bs off xs"
  shows "holds_at k pml4 (rsp + of_nat (length t) + off) xs"
  using holds_at_part [OF assms(1) part_at_later [OF assms(2), of t]] by (simp add: add.assoc)

text \<open>What a program finds through its stack pointer.\<close>

definition linux_stack :: "u8 list \<Rightarrow> program \<Rightarrow> u64 \<Rightarrow> u64 \<Rightarrow> u8 list list \<Rightarrow> u8 list list \<Rightarrow> u64 \<Rightarrow> u64 \<Rightarrow> kern \<Rightarrow> bool" where
  "linux_stack elf_bytes prog at_base ticks argv envp pml4 rsp k \<longleftrightarrow>
     unat rsp mod 16 = 0
     \<and> holds_at k pml4 rsp (word_bytes (of_nat (length argv)))
     \<and> (\<forall>i < length argv. \<exists>a. holds_at k pml4 (rsp + of_nat (8 * (1 + i))) (word_bytes a) \<and> holds_at k pml4 a (argv ! i @ [0]))
     \<and> holds_at k pml4 (rsp + of_nat (8 * (1 + length argv))) (word_bytes 0)
     \<and> (\<forall>i < length envp. \<exists>a. holds_at k pml4 (rsp + of_nat (8 * (2 + length argv + i))) (word_bytes a) \<and> holds_at k pml4 a (envp ! i @ [0]))
     \<and> holds_at k pml4 (rsp + of_nat (8 * (2 + length argv + length envp))) (word_bytes 0)
     \<and> (\<exists>aux. holds_at k pml4 (rsp + of_nat (8 * (3 + length argv + length envp))) (words_bytes (pairs_words aux))
          \<and> aux \<noteq> [] \<and> last aux = (AT_NULL, 0)
          \<and> {(AT_PHENT, ucast (phentsize prog)), (AT_PHNUM, ucast (phnum prog)), (AT_PAGESZ, PAGE_SIZE), (AT_BASE, at_base),
             (AT_ENTRY, entry prog), (AT_UID, 0), (AT_EUID, 0), (AT_GID, 0), (AT_EGID, 0), (AT_SECURE, 0)} \<subseteq> set aux
          \<and> (\<exists>a. (AT_RANDOM, a) \<in> set aux \<and> holds_at k pml4 a (random_bytes (ticks XOR entry prog)))
          \<and> (argv \<noteq> [] \<longrightarrow> (\<exists>a. (AT_EXECFN, a) \<in> set aux \<and> holds_at k pml4 a (hd argv @ [0])))
          \<and> (case phdr_in_segment prog of
               Some a \<Rightarrow> (AT_PHDR, a) \<in> set aux
             | None \<Rightarrow> \<exists>a. (AT_PHDR, a) \<in> set aux \<and> holds_at k pml4 a (take (unat (phnum prog) * 56) (drop (unat (phoff prog)) elf_bytes))))"

lemma laid_out_stack:
  assumes L: "laid_out elf_bytes prog at_base ticks argv envp li" and h: "holds_at k pml4 (li_rsp li) (li_table li @ li_data li)"
  shows "linux_stack elf_bytes prog at_base ticks argv envp pml4 (li_rsp li) k"
proof -
  obtain aoffs eoffs aux where A: "li_table li = words_bytes (layout_words (li_vaddr li) aoffs eoffs aux)"
     "length aoffs = length argv" "\<forall>i < length argv. part_at (li_data li) (aoffs ! i) (argv ! i @ [0])"
     "length eoffs = length envp" "\<forall>i < length envp. part_at (li_data li) (eoffs ! i) (envp ! i @ [0])"
     "aux_ok elf_bytes prog at_base ticks argv (li_vaddr li) (li_data li) aux"
     and v: "li_vaddr li = li_rsp li + of_nat (length (li_table li))" and al: "unat (li_rsp li) mod 16 = 0"
    using L unfolding laid_out_def by (elim conjE exE) (rule that)
  define ws where "ws = layout_words (li_vaddr li) aoffs eoffs aux"
  note W = holds_at_words [OF h [unfolded A(1) ws_def [symmetric]]]
  have D: "holds_at k pml4 (li_vaddr li + off) xs" if "part_at (li_data li) off xs" for off xs
    unfolding v by (rule holds_at_data [OF h that])
  have len: "length ws = 3 + length argv + length envp + length (pairs_words aux)" by (simp add: ws_def layout_words_def A(2,4))
  have n: "ws ! 0 = of_nat (length argv)" "\<And>i. i < length argv \<Longrightarrow> ws ! (1 + i) = li_vaddr li + aoffs ! i"
      "ws ! (1 + length argv) = 0" "\<And>i. i < length envp \<Longrightarrow> ws ! (2 + length argv + i) = li_vaddr li + eoffs ! i"
      "ws ! (2 + length argv + length envp) = 0"
    by (simp_all add: ws_def layout_words_def A(2,4) nth_append)
  obtain us where us: "ws = us @ pairs_words aux" "length us = 3 + length argv + length envp"
    by (rule that [of "of_nat (length aoffs) # map ((+) (li_vaddr li)) aoffs @ [0] @ map ((+) (li_vaddr li)) eoffs @ [0]"])
      (simp_all add: ws_def layout_words_def A(2,4))
  have "part_at (words_bytes ws) (of_nat (length (words_bytes us))) (words_bytes (pairs_words aux))"
    using part_atI [of "words_bytes us" "words_bytes (pairs_words aux)" "[]"] by (simp add: us(1))
  then have "part_at (words_bytes ws) (of_nat (8 * (3 + length argv + length envp))) (words_bytes (pairs_words aux))"
    by (simp only: length_words us(2))
  then have X: "holds_at k pml4 (li_rsp li + of_nat (8 * (3 + length argv + length envp))) (words_bytes (pairs_words aux))"
    by (rule holds_at_part [OF h [unfolded A(1) ws_def [symmetric]] part_at_append])
  have a: "\<exists>a. holds_at k pml4 (li_rsp li + of_nat (8 * (1 + i))) (word_bytes a) \<and> holds_at k pml4 a (argv ! i @ [0])" if "i < length argv" for i
    using W [of "1 + i"] D [OF A(3) [rule_format, OF that]] n(2) [OF that] that len by auto
  have e: "\<exists>a. holds_at k pml4 (li_rsp li + of_nat (8 * (2 + length argv + i))) (word_bytes a) \<and> holds_at k pml4 a (envp ! i @ [0])" if "i < length envp" for i
    using W [of "2 + length argv + i"] D [OF A(5) [rule_format, OF that]] n(4) [OF that] that len by auto
  have z: "holds_at k pml4 (li_rsp li) (word_bytes (of_nat (length argv)))"
      "holds_at k pml4 (li_rsp li + of_nat (8 * (1 + length argv))) (word_bytes 0)"
      "holds_at k pml4 (li_rsp li + of_nat (8 * (2 + length argv + length envp))) (word_bytes 0)"
    using W [of 0] W [of "1 + length argv"] W [of "2 + length argv + length envp"] n(1,3,5) len by auto
  note O = A(6) [unfolded aux_ok_def]
  have rnd: "\<exists>a. (AT_RANDOM, a) \<in> set aux \<and> holds_at k pml4 a (random_bytes (ticks XOR entry prog))"
    using O D by blast
  have ex: "argv \<noteq> [] \<longrightarrow> (\<exists>a. (AT_EXECFN, a) \<in> set aux \<and> holds_at k pml4 a (hd argv @ [0]))"
    using O D by blast
  have ph: "case phdr_in_segment prog of Some a \<Rightarrow> (AT_PHDR, a) \<in> set aux
      | None \<Rightarrow> \<exists>a. (AT_PHDR, a) \<in> set aux \<and> holds_at k pml4 a (take (unat (phnum prog) * 56) (drop (unat (phoff prog)) elf_bytes))"
    using O D by (cases "phdr_in_segment prog") auto
  show ?thesis unfolding linux_stack_def
    apply (intro conjI allI impI)
    apply (fact al z)+
    apply (erule a)
    apply (fact al z)+
    apply (erule e)
    apply (fact al z)+
    apply (intro exI [of _ aux] conjI)
    apply (fact X)
    apply (use O in simp, use O in simp, use O in blast)
    apply (fact rnd ex ph)+
    done
qed



text \<open>C10: both spawn functions build a process or leave no trace. In a machine whose kernel tables and processes are in
  good order, with a volume that can be read and arguments below 4 GiB in all, \<open>spawn\<close> and \<open>spawn_linux\<close> return for
  every file. On an error the task table is unchanged and every frame taken on the way is free again; memory outside
  the free frames, sockets, shared objects and the volume are as before. On success the result is the index of one new
  task at the end of the table, whose frames were free before and are owned by it alone. In both cases all processes,
  the new one included, are in good order and apart from each other, and the kernel's tables are intact.\<close>
theorem spawn_correct:
  assumes "kernel_ok (unat (e_kernel_pml4 env)) k" "sys_ok (procs s, k)" "length elf_bytes < 2 ^ 64" "readable (k_vol k)"
      "args_size argv + args_size envp < 2 ^ 32" "oper \<in> {spawn env elf_bytes name, spawn_linux env elf_bytes name argv envp}"
  shows "\<exists>res. oper (s, k) = Some res \<and> (spawn_failed s k res \<or> spawned (unat (e_kernel_pml4 env)) s k res)
     \<and> sys_ok (procs (fst (snd res)), snd (snd res))"
  using spawn_runs [OF assms(1-3)] spawn_linux_runs [OF assms(1-5)] assms(6) by blast

definition demo_env :: loader_env where
  "demo_env = \<lparr>e_heap = demo_heap, e_kernel_pml4 = 4096, e_ticks = 7, e_stack = 0x600000, e_tramp = 0x1000, e_start = 0x2000\<rparr>"

definition demo_sched :: sched where
  "demo_sched = \<lparr>s_tasks = [], s_current = 0, s_cpu = \<lparr>c_rsp = 0, c_rip = 0, c_rdi = 0, c_rbx = 0, c_rbp = 0, c_r12 = 0, c_r13 = 0,
     c_r14 = 0, c_r15 = 0, c_if = True, c_stk = \<lambda>_. 0\<rparr>, s_cr3 = 4096, s_fs_base = 0, s_rsp0 = 0\<rparr>"

theorem spawn_correct_witness:
  "\<exists>res. spawn_linux demo_env (elf_image False 0x300123 [demo_seg] []) ''sh'' [[0x73, 0x68]] [] (demo_sched, demo_kern) = Some res
     \<and> (spawn_failed demo_sched demo_kern res \<or> spawned 4096 demo_sched demo_kern res) \<and> sys_ok (procs (fst (snd res)), snd (snd res))"
proof -
  have K: "kernel_ok (unat (e_kernel_pml4 demo_env)) demo_kern" using demo_kernel_ok by (simp add: demo_env_def)
  have sys: "sys_ok (procs demo_sched, demo_kern)" by (simp add: sys_ok_def procs_def demo_sched_def List.map_filter_def)
  have vol: "readable (k_vol demo_kern)" by (simp add: readable_def demo_kern_def read_file_def with_volume_def)
  have len: "length (elf_image False 0x300123 [demo_seg] []) < 2 ^ 64" by (simp add: elf_image_def)
  from spawn_correct [OF K sys len vol, of "[[0x73, 0x68]]" "[]" _ "''sh''"] show ?thesis
    by (simp add: args_size_def demo_env_def)
qed

section \<open>Waiting\<close>

lemma wait_returns:
  assumes "\<And>i. process_exit_status pid (fst (obs i)) \<noteq> None" "snd (obs n) \<ge> ticks + timeout_ticks"
  shows "\<exists>r. wait pid ticks timeout_ticks obs = Some r"
proof -
  have "\<exists>r. wait_loop pid (ticks + timeout_ticks) obs i = Some r" if "i \<le> n" for i
    using that
  proof (induction rule: inc_induct)
    case base
    then show ?case using assms by (subst wait_loop.simps) (auto split: option.splits)
  next
    case (step i)
    then show ?case using assms(1) [of i] by (subst wait_loop.simps) (auto split: option.splits)
  qed
  then show ?thesis by (simp add: wait_def)
qed

end
