(* ===== verification/Ring.thy ===== *)
theory Ring
  imports Machine
begin

text \<open>
  The event queues of \<open>src/src/keyboard.rs\<close> and \<open>src/src/mouse.rs\<close>: a ring buffer that holds one
  element less than its capacity and drops what does not fit. \<open>ring_push\<close> and \<open>ring_pop\<close> are the two
  methods, over the capacity constant of each driver; \<open>bounded_fifo\<close> is the contract of such a queue
  and the lemmas a client needs of any run of it.
\<close>

section \<open>The ring buffer\<close>

record 'a ring =
  buffer :: "'a list"
  rhead :: usize
  rtail :: usize

definition ring_new :: "nat \<Rightarrow> 'a \<Rightarrow> 'a ring" where
  "ring_new cap blank = \<lparr>buffer = replicate cap blank, rhead = 0, rtail = 0\<rparr>"

definition ring_push :: "nat \<Rightarrow> 'a \<Rightarrow> 'a ring \<Rightarrow> 'a ring exec" where
  "ring_push cap x q =
     (let nxt = (rhead q + 1) mod cap
      in if nxt \<noteq> rtail q then do {
           b \<leftarrow> store (buffer q) (rhead q) x;
           Some (q\<lparr>buffer := b, rhead := nxt\<rparr>) }
         else Some q)"

definition ring_pop :: "nat \<Rightarrow> 'a ring \<Rightarrow> ('a option \<times> 'a ring) exec" where
  "ring_pop cap q =
     (if rhead q = rtail q then Some (None, q)
      else do {
        x \<leftarrow> index (buffer q) (rtail q);
        Some (Some x, q\<lparr>rtail := (rtail q + 1) mod cap\<rparr>) })"

section \<open>The contract of a bounded queue\<close>

datatype 'a queue_op = Push 'a | Pop

locale bounded_fifo =
  fixes ok :: "'q \<Rightarrow> bool"
    and elems :: "'q \<Rightarrow> 'a list"
    and limit :: nat
    and push :: "'a \<Rightarrow> 'q \<Rightarrow> 'q exec"
    and pop :: "'q \<Rightarrow> ('a option \<times> 'q) exec"
  assumes elems_limit: "ok q \<Longrightarrow> length (elems q) \<le> limit"
    and push_law: "ok q \<Longrightarrow> \<exists>q'. push x q = Some q' \<and> ok q'
          \<and> elems q' = (if length (elems q) < limit then elems q @ [x] else elems q)"
    and pop_law: "ok q \<Longrightarrow> \<exists>q'. ok q' \<and>
          (case elems q of [] \<Rightarrow> pop q = Some (None, q') \<and> elems q' = []
           | x # xs \<Rightarrow> pop q = Some (Some x, q') \<and> elems q' = xs)"
begin

text \<open>A run of pushes and pops, with the list of popped elements.\<close>

fun run :: "'a queue_op list \<Rightarrow> 'q \<Rightarrow> ('a list \<times> 'q) exec" where
  "run [] q = Some ([], q)"
| "run (Push x # ops) q = do { q1 \<leftarrow> push x q; run ops q1 }"
| "run (Pop # ops) q = do {
     (r, q1) \<leftarrow> pop q;
     (out, q2) \<leftarrow> run ops q1;
     Some ((case r of None \<Rightarrow> [] | Some x \<Rightarrow> [x]) @ out, q2) }"

definition pushed :: "'a queue_op list \<Rightarrow> 'a list" where
  "pushed ops = concat (map (\<lambda>x. case x of Push y \<Rightarrow> [y] | Pop \<Rightarrow> []) ops)"

lemma run_fifo:
  assumes "ok q"
  shows "\<exists>out q' kept. run ops q = Some (out, q') \<and> ok q' \<and> out @ elems q' = elems q @ kept
     \<and> kept \<in> set (subseqs (pushed ops))
     \<and> (length (elems q) + length (pushed ops) \<le> limit \<longrightarrow> kept = pushed ops)"
  using assms
proof (induction ops arbitrary: q)
  case Nil
  then show ?case by (simp add: pushed_def)
next
  case (Cons x ops)
  show ?case
  proof (cases x)
    case (Push y)
    from push_law [OF Cons.prems, of y] obtain q1 where q1: "push y q = Some q1" "ok q1"
        "elems q1 = (if length (elems q) < limit then elems q @ [y] else elems q)"
      by blast
    from Cons.IH [OF q1(2)] obtain out q' kept where r: "run ops q1 = Some (out, q')" "ok q'"
        "out @ elems q' = elems q1 @ kept" "kept \<in> set (subseqs (pushed ops))"
        "length (elems q1) + length (pushed ops) \<le> limit \<longrightarrow> kept = pushed ops"
      by blast
    let ?kept = "(if length (elems q) < limit then [y] else []) @ kept"
    have "?kept \<in> set (subseqs (pushed (x # ops)))"
      using r(4) by (simp add: Push pushed_def Let_def)
    moreover have "length (elems q) + length (pushed (x # ops)) \<le> limit \<longrightarrow> ?kept = pushed (x # ops)"
      using r(5) q1(3) by (auto simp: Push pushed_def)
    ultimately show ?thesis
      using q1 r by (intro exI [of _ out] exI [of _ q'] exI [of _ ?kept]) (simp add: Push)
  next
    case Pop
    from pop_law [OF Cons.prems] obtain q1 where q1: "ok q1"
        "case elems q of [] \<Rightarrow> pop q = Some (None, q1) \<and> elems q1 = []
         | x # xs \<Rightarrow> pop q = Some (Some x, q1) \<and> elems q1 = xs"
      by blast
    from Cons.IH [OF q1(1)] obtain out q' kept where r: "run ops q1 = Some (out, q')" "ok q'"
        "out @ elems q' = elems q1 @ kept" "kept \<in> set (subseqs (pushed ops))"
        "length (elems q1) + length (pushed ops) \<le> limit \<longrightarrow> kept = pushed ops"
      by blast
    have "length (elems q1) \<le> length (elems q)" using q1(2) by (simp split: list.splits)
    with q1 r show ?thesis
      by (auto simp: Pop pushed_def split: list.splits)
  qed
qed

end

section \<open>The ring buffer is a bounded queue\<close>

definition ring_ok :: "nat \<Rightarrow> 'a ring \<Rightarrow> bool" where
  "ring_ok cap q \<longleftrightarrow> length (buffer q) = cap \<and> rhead q < cap \<and> rtail q < cap"

definition ring_count :: "nat \<Rightarrow> 'a ring \<Rightarrow> nat" where
  "ring_count cap q = (rhead q + cap - rtail q) mod cap"

definition ring_elems :: "nat \<Rightarrow> 'a ring \<Rightarrow> 'a list" where
  "ring_elems cap q = map (\<lambda>k. buffer q ! ((rtail q + k) mod cap)) [0..<ring_count cap q]"

lemma ring_count_cases:
  assumes "ring_ok cap q"
  shows "ring_count cap q = (if rtail q \<le> rhead q then rhead q - rtail q else rhead q + cap - rtail q)"
proof (cases "rtail q \<le> rhead q")
  case True
  then have "rhead q + cap - rtail q = (rhead q - rtail q) + cap" by simp
  then have "ring_count cap q = (rhead q - rtail q) mod cap" by (simp add: ring_count_def)
  moreover have "rhead q - rtail q < cap" using assms by (auto simp: ring_ok_def)
  ultimately show ?thesis using True by simp
next
  case False
  then have "rhead q + cap - rtail q < cap" using assms by (auto simp: ring_ok_def)
  with False show ?thesis by (simp add: ring_count_def)
qed

lemma ring_index:
  assumes "ring_ok cap q" "k < cap"
  shows "(rtail q + k) mod cap = rhead q \<longleftrightarrow> k = ring_count cap q"
proof -
  have "(rtail q + k) mod cap = (if rtail q + k < cap then rtail q + k else rtail q + k - cap)"
    using assms by (auto simp: ring_ok_def mod_if)
  with assms show ?thesis by (auto simp: ring_count_cases ring_ok_def)
qed

lemma ring_full:
  assumes "ring_ok cap q"
  shows "(rhead q + 1) mod cap = rtail q \<longleftrightarrow> ring_count cap q = cap - 1"
proof -
  have "(rhead q + 1) mod cap = (if rhead q + 1 < cap then rhead q + 1 else 0)"
    using assms by (auto simp: ring_ok_def mod_if)
  with assms show ?thesis by (auto simp: ring_count_cases ring_ok_def)
qed

lemma ring_count_less: "0 < cap \<Longrightarrow> ring_count cap q < cap"
  by (simp add: ring_count_def)

lemma ring_push_law:
  assumes ok: "ring_ok cap q"
  shows "\<exists>q'. ring_push cap x q = Some q' \<and> ring_ok cap q'
    \<and> ring_elems cap q' = (if length (ring_elems cap q) < cap - 1 then ring_elems cap q @ [x] else ring_elems cap q)"
proof (cases "ring_count cap q < cap - 1")
  case True
  let ?n = "ring_count cap q"
  have ne: "(rhead q + 1) mod cap \<noteq> rtail q" using True ring_full [OF ok] by simp
  let ?q = "q\<lparr>buffer := (buffer q)[rhead q := x], rhead := (rhead q + 1) mod cap\<rparr>"
  have ok': "ring_ok cap ?q" using ok by (simp add: ring_ok_def)
  have n': "ring_count cap ?q = Suc ?n"
    using ring_count_cases [OF ok] ring_count_cases [OF ok'] ok True ne
    by (auto simp: ring_ok_def mod_if split: if_splits)
  have "ring_elems cap ?q = ring_elems cap q @ [x]"
  proof -
    have "buffer ?q ! ((rtail q + k) mod cap) = buffer q ! ((rtail q + k) mod cap)" if "k < ?n" for k
    proof -
      have "k < cap" using that True by linarith
      then have "rhead q \<noteq> (rtail q + k) mod cap" using ring_index [OF ok, of k] that by auto
      then show ?thesis by simp
    qed
    moreover have "buffer ?q ! ((rtail q + ?n) mod cap) = x"
      using ring_index [OF ok, of ?n] True ok by (simp add: ring_ok_def)
    ultimately show ?thesis using n' by (simp add: ring_elems_def)
  qed
  with True ok' ok ne show ?thesis by (simp add: ring_push_def store_def ring_ok_def ring_elems_def)
next
  case False
  then have "ring_count cap q = cap - 1"
    using ring_count_less [of cap q] ok by (auto simp: ring_ok_def)
  with ring_full [OF ok] ok show ?thesis by (simp add: ring_push_def ring_elems_def)
qed

lemma ring_pop_law:
  assumes ok: "ring_ok cap q"
  shows "\<exists>q'. ring_ok cap q' \<and>
    (case ring_elems cap q of [] \<Rightarrow> ring_pop cap q = Some (None, q') \<and> ring_elems cap q' = []
     | x # xs \<Rightarrow> ring_pop cap q = Some (Some x, q') \<and> ring_elems cap q' = xs)"
proof (cases "ring_count cap q")
  case 0
  then have "rhead q = rtail q"
    using ring_index [OF ok, of 0] ok by (simp add: ring_ok_def)
  with 0 ok show ?thesis by (simp add: ring_pop_def ring_elems_def)
next
  case (Suc m)
  then have ne: "rhead q \<noteq> rtail q"
    using ring_index [OF ok, of 0] ok by (auto simp: ring_ok_def)
  let ?q = "q\<lparr>rtail := (rtail q + 1) mod cap\<rparr>"
  have ok': "ring_ok cap ?q" using ok by (auto simp: ring_ok_def)
  have n': "ring_count cap ?q = m"
    using ring_count_cases [OF ok] ring_count_cases [OF ok'] ok ne Suc
    by (auto simp: ring_ok_def mod_if split: if_splits)
  have "ring_elems cap q = buffer q ! rtail q # ring_elems cap ?q"
    using ok n' by (simp add: ring_elems_def Suc upt_conv_Cons map_Suc_upt [symmetric] mod_simps
        ring_ok_def comp_def del: upt_Suc)
  with ok' ok ne show ?thesis by (simp add: ring_pop_def index_def ring_ok_def)
qed

lemma ring_bounded_fifo:
  assumes "0 < cap"
  shows "bounded_fifo (ring_ok cap) (ring_elems cap) (cap - 1) (ring_push cap) (ring_pop cap)"
proof (rule bounded_fifo.intro)
  show "length (ring_elems cap q) \<le> cap - 1" for q :: "'a ring"
    using ring_count_less [OF assms, of q] by (simp add: ring_elems_def)
qed (erule ring_push_law ring_pop_law)+

lemma ring_ok_new: "0 < cap \<Longrightarrow> ring_ok cap (ring_new cap blank) \<and> ring_elems cap (ring_new cap blank) = []"
  by (simp add: ring_ok_def ring_new_def ring_elems_def ring_count_def)

end
