(* ===== verification/Keyboard.thy ===== *)
theory Keyboard
  imports Ring
begin

text \<open>
  \<open>src/src/keyboard.rs\<close>: decoding of scancode set 1 into key events, with the modifier flags, the
  \<open>0xE0\<close> prefix and the event queue. The atomics are fields of the driver state; the byte a port read
  returns is an argument of the interrupt handler.
\<close>

section \<open>Model\<close>

datatype event =
    EvChar char | EvCtrl char | EvBackspace | EvEnter | EvTab | EvUp | EvDown | EvLeft | EvRight | EvEscape | EvF2

definition KB_BUFFER_CAPACITY :: usize where
  "KB_BUFFER_CAPACITY = 256"

record kbd =
  kb_queue :: "event ring"
  shift_down :: bool
  caps_lock :: bool
  ctrl_down :: bool
  extended :: bool

definition kbd_boot :: kbd where
  "kbd_boot = \<lparr>kb_queue = ring_new KB_BUFFER_CAPACITY (EvChar (char_of (0 :: nat))),
     shift_down = False, caps_lock = False, ctrl_down = False, extended = False\<rparr>"

definition KEYMAP :: "u8 list" where
  "KEYMAP = [
    0, 0, 49, 50, 51, 52, 53, 54, 55, 56, 57, 48, 45, 61, 0, 0,
    113, 119, 101, 114, 116, 121, 117, 105, 111, 112, 91, 93, 0, 0, 97, 115,
    100, 102, 103, 104, 106, 107, 108, 59, 39, 96, 0, 92, 122, 120, 99, 118,
    98, 110, 109, 44, 46, 47, 0, 42, 0, 32, 0, 0, 0, 0, 0, 0,
    0, 0, 0, 0, 0, 0, 0, 0, 0, 0, 0, 0, 0, 0, 0, 0,
    0, 0, 0, 0, 0, 0, 0, 0, 0, 0, 0, 0, 0, 0, 0, 0,
    0, 0, 0, 0, 0, 0, 0, 0, 0, 0, 0, 0, 0, 0, 0, 0,
    0, 0, 0, 0, 0, 0, 0, 0, 0, 0, 0, 0, 0, 0, 0, 0]"

definition KEYMAP_SHIFT :: "u8 list" where
  "KEYMAP_SHIFT = [
    0, 0, 33, 64, 35, 36, 37, 94, 38, 42, 40, 41, 95, 43, 0, 0,
    81, 87, 69, 82, 84, 89, 85, 73, 79, 80, 123, 125, 0, 0, 65, 83,
    68, 70, 71, 72, 74, 75, 76, 58, 34, 126, 0, 124, 90, 88, 67, 86,
    66, 78, 77, 60, 62, 63, 0, 0, 0, 32, 0, 0, 0, 0, 0, 0,
    0, 0, 0, 0, 0, 0, 0, 0, 0, 0, 0, 0, 0, 0, 0, 0,
    0, 0, 0, 0, 0, 0, 0, 0, 0, 0, 0, 0, 0, 0, 0, 0,
    0, 0, 0, 0, 0, 0, 0, 0, 0, 0, 0, 0, 0, 0, 0, 0,
    0, 0, 0, 0, 0, 0, 0, 0, 0, 0, 0, 0, 0, 0, 0, 0]"

definition is_ascii_alphabetic :: "u8 \<Rightarrow> bool" where
  "is_ascii_alphabetic b \<longleftrightarrow> 65 \<le> b \<and> b \<le> 90 \<or> 97 \<le> b \<and> b \<le> 122"

definition to_ascii_uppercase :: "u8 \<Rightarrow> u8" where
  "to_ascii_uppercase b = (if 97 \<le> b \<and> b \<le> 122 then b - 32 else b)"

definition as_char :: "u8 \<Rightarrow> char" where
  "as_char b = char_of (unat b)"

definition kbd_decode :: "u8 \<Rightarrow> bool \<Rightarrow> kbd \<Rightarrow> (event option \<times> kbd) exec" where
  "kbd_decode sc ext k =
     (if ext then
        Some (if sc = 0x48 then Some EvUp else if sc = 0x50 then Some EvDown
              else if sc = 0x4B then Some EvLeft else if sc = 0x4D then Some EvRight else None, k)
      else if sc = 0x2A \<or> sc = 0x36 then Some (None, k\<lparr>shift_down := True\<rparr>)
      else if sc = 0xAA \<or> sc = 0xB6 then Some (None, k\<lparr>shift_down := False\<rparr>)
      else if sc = 0x1D then Some (None, k\<lparr>ctrl_down := True\<rparr>)
      else if sc = 0x9D then Some (None, k\<lparr>ctrl_down := False\<rparr>)
      else if sc = 0x3A then Some (None, k\<lparr>caps_lock := \<not> caps_lock k\<rparr>)
      else if sc = 0x0E then Some (Some EvBackspace, k)
      else if sc = 0x1C then Some (Some EvEnter, k)
      else if sc = 0x0F then Some (Some EvTab, k)
      else if sc = 0x39 then Some (Some (EvChar CHR '' ''), k)
      else if sc = 0x01 then Some (Some EvEscape, k)
      else if sc = 0x3C then Some (Some EvF2, k)
      else if sc \<ge> 0x80 then Some (None, k)
      else do {
        b \<leftarrow> index KEYMAP (unat sc);
        shifted_char \<leftarrow> index KEYMAP_SHIFT (unat sc);
        Some (if ctrl_down k \<and> b \<noteq> 0 then Some (EvCtrl (as_char b))
              else if shift_down k \<and> shifted_char \<noteq> 0 then Some (EvChar (as_char shifted_char))
              else if caps_lock k \<and> is_ascii_alphabetic b then Some (EvChar (as_char (to_ascii_uppercase b)))
              else if b \<noteq> 0 then Some (EvChar (as_char b))
              else None, k) })"

definition kbd_irq :: "u8 \<Rightarrow> kbd \<Rightarrow> kbd exec" where
  "kbd_irq sc k =
     (if sc = 0xE0 then Some (k\<lparr>extended := True\<rparr>)
      else do {
        (e, k1) \<leftarrow> kbd_decode sc (extended k) (k\<lparr>extended := False\<rparr>);
        case e of
          None \<Rightarrow> Some k1
        | Some ev \<Rightarrow> do { q \<leftarrow> ring_push KB_BUFFER_CAPACITY ev (kb_queue k1); Some (k1\<lparr>kb_queue := q\<rparr>) } })"

definition kbd_next_event :: "kbd \<Rightarrow> (event option \<times> kbd) exec" where
  "kbd_next_event k = do { (e, q) \<leftarrow> ring_pop KB_BUFFER_CAPACITY (kb_queue k); Some (e, k\<lparr>kb_queue := q\<rparr>) }"

section \<open>The event queue is a bounded queue\<close>

interpretation kb_fifo: bounded_fifo "ring_ok KB_BUFFER_CAPACITY" "ring_elems KB_BUFFER_CAPACITY"
    "KB_BUFFER_CAPACITY - 1" "ring_push KB_BUFFER_CAPACITY" "ring_pop KB_BUFFER_CAPACITY"
  by (rule ring_bounded_fifo) (simp add: KB_BUFFER_CAPACITY_def)

section \<open>Decoding as a pure stream transformer\<close>

text \<open>What one interrupt decodes to, given the flags, and the flags afterwards; the queue plays no part.\<close>

type_synonym flags = "bool \<times> bool \<times> bool \<times> bool"

definition flags_of :: "kbd \<Rightarrow> flags" where
  "flags_of k = (shift_down k, caps_lock k, ctrl_down k, extended k)"

definition with_flags :: "flags \<Rightarrow> kbd \<Rightarrow> kbd" where
  "with_flags f k = (case f of (s, ca, ct, ex) \<Rightarrow>
     k\<lparr>shift_down := s, caps_lock := ca, ctrl_down := ct, extended := ex\<rparr>)"

definition decode_step :: "u8 \<Rightarrow> flags \<Rightarrow> event list \<times> flags" where
  "decode_step sc f =
     (if sc = 0xE0 then ([], (case f of (s, ca, ct, ex) \<Rightarrow> (s, ca, ct, True)))
      else case kbd_decode sc (snd (snd (snd f))) (with_flags f kbd_boot\<lparr>extended := False\<rparr>) of
             None \<Rightarrow> ([], f)
           | Some (e, k) \<Rightarrow> ((case e of None \<Rightarrow> [] | Some ev \<Rightarrow> [ev]), flags_of k))"

datatype kbd_op = Irq u8 | NextEvent

fun decoded :: "kbd_op list \<Rightarrow> flags \<Rightarrow> event list" where
  "decoded [] f = []"
| "decoded (Irq sc # ops) f = (let (es, f') = decode_step sc f in es @ decoded ops f')"
| "decoded (NextEvent # ops) f = decoded ops f"

fun kbd_run :: "kbd_op list \<Rightarrow> kbd \<Rightarrow> (event list \<times> kbd) exec" where
  "kbd_run [] k = Some ([], k)"
| "kbd_run (Irq sc # ops) k = do { k1 \<leftarrow> kbd_irq sc k; kbd_run ops k1 }"
| "kbd_run (NextEvent # ops) k = do {
     (e, k1) \<leftarrow> kbd_next_event k;
     (out, k2) \<leftarrow> kbd_run ops k1;
     Some ((case e of None \<Rightarrow> [] | Some ev \<Rightarrow> [ev]) @ out, k2) }"

text \<open>The queue operations a run performs.\<close>

fun queue_ops :: "kbd_op list \<Rightarrow> flags \<Rightarrow> event queue_op list" where
  "queue_ops [] f = []"
| "queue_ops (Irq sc # ops) f = (let (es, f') = decode_step sc f in map Push es @ queue_ops ops f')"
| "queue_ops (NextEvent # ops) f = Pop # queue_ops ops f"

lemma length_keymaps: "length KEYMAP = 128" "length KEYMAP_SHIFT = 128"
  by (simp_all add: KEYMAP_def KEYMAP_SHIFT_def)

lemma kbd_decode_total: "\<exists>e k'. kbd_decode sc ext k = Some (e, k') \<and> kb_queue k' = kb_queue k"
proof (cases "sc \<ge> 0x80")
  case False
  then have "unat sc < 128" by (simp add: word_le_nat_alt)
  with False show ?thesis
    by (auto simp: kbd_decode_def index_def length_keymaps)
qed (auto simp: kbd_decode_def)

lemma kbd_decode_queue:
  "kbd_decode sc ext (k\<lparr>kb_queue := q\<rparr>) = map_option (\<lambda>(e, k'). (e, k'\<lparr>kb_queue := q\<rparr>)) (kbd_decode sc ext k)"
  by (cases "index KEYMAP (unat sc)"; cases "index KEYMAP_SHIFT (unat sc)") (simp_all add: kbd_decode_def)

lemma decode_step_eq:
  assumes "kbd_decode sc (extended k) (k\<lparr>extended := False\<rparr>) = Some (e, k')" "sc \<noteq> 0xE0"
  shows "decode_step sc (flags_of k) = ((case e of None \<Rightarrow> [] | Some ev \<Rightarrow> [ev]), flags_of k')"
proof -
  have "(with_flags (flags_of k) kbd_boot)\<lparr>extended := False\<rparr> = (k\<lparr>extended := False\<rparr>)\<lparr>kb_queue := kb_queue kbd_boot\<rparr>"
    by (simp add: with_flags_def flags_of_def kbd_boot_def)
  with kbd_decode_queue [where k = "k\<lparr>extended := False\<rparr>" and q = "kb_queue kbd_boot" and sc = sc and ext = "extended k"] assms
  show ?thesis by (simp add: decode_step_def flags_of_def)
qed

text \<open>An interrupt performs exactly the queue operation and flag change of \<open>decode_step\<close>.\<close>

lemma kbd_irq_step:
  assumes "ring_ok KB_BUFFER_CAPACITY (kb_queue k)"
  shows "\<exists>k'. kbd_irq sc k = Some k' \<and> flags_of k' = snd (decode_step sc (flags_of k))
    \<and> ring_ok KB_BUFFER_CAPACITY (kb_queue k')
    \<and> kb_fifo.run (map Push (fst (decode_step sc (flags_of k)))) (kb_queue k) = Some ([], kb_queue k')"
proof (cases "sc = 0xE0")
  case True
  then show ?thesis using assms by (simp add: kbd_irq_def decode_step_def flags_of_def)
next
  case False
  obtain e k1 where d: "kbd_decode sc (extended k) (k\<lparr>extended := False\<rparr>) = Some (e, k1)"
      "kb_queue k1 = kb_queue k"
    using kbd_decode_total [of sc "extended k" "k\<lparr>extended := False\<rparr>"] by auto
  note step = decode_step_eq [OF d(1) False]
  show ?thesis
  proof (cases e)
    case None
    then show ?thesis using assms False d step by (simp add: kbd_irq_def)
  next
    case (Some ev)
    from kb_fifo.push_law [OF assms, of ev] obtain q where
      "ring_push KB_BUFFER_CAPACITY ev (kb_queue k) = Some q" "ring_ok KB_BUFFER_CAPACITY q" by blast
    then show ?thesis using Some False d step by (simp add: kbd_irq_def flags_of_def)
  qed
qed

lemma kbd_next_event_step:
  assumes "ring_ok KB_BUFFER_CAPACITY (kb_queue k)"
  shows "\<exists>e q. ring_pop KB_BUFFER_CAPACITY (kb_queue k) = Some (e, q) \<and> ring_ok KB_BUFFER_CAPACITY q
    \<and> kbd_next_event k = Some (e, k\<lparr>kb_queue := q\<rparr>)"
  using kb_fifo.pop_law [OF assms]
  by (cases "ring_elems KB_BUFFER_CAPACITY (kb_queue k)") (auto simp: kbd_next_event_def)

lemma fifo_run_append:
  "kb_fifo.run (map Push xs @ ops) q = do { (out, q1) \<leftarrow> kb_fifo.run (map Push xs) q; kb_fifo.run ops q1 }"
  by (induction xs arbitrary: q) (auto split: bind_splits)

lemma kbd_run_queue:
  assumes "ring_ok KB_BUFFER_CAPACITY (kb_queue k)"
  shows "\<exists>out k'. kbd_run ops k = Some (out, k')
    \<and> kb_fifo.run (queue_ops ops (flags_of k)) (kb_queue k) = Some (out, kb_queue k')"
  using assms
proof (induction ops arbitrary: k)
  case (Cons x ops)
  show ?case
  proof (cases x)
    case (Irq sc)
    from kbd_irq_step [OF Cons.prems, of sc] obtain k1 where k1: "kbd_irq sc k = Some k1"
        "flags_of k1 = snd (decode_step sc (flags_of k))" "ring_ok KB_BUFFER_CAPACITY (kb_queue k1)"
        "kb_fifo.run (map Push (fst (decode_step sc (flags_of k)))) (kb_queue k) = Some ([], kb_queue k1)"
      by blast
    from Cons.IH [OF k1(3)] k1 Irq show ?thesis by (auto simp: fifo_run_append split: prod.splits)
  next
    case NextEvent
    from kbd_next_event_step [OF Cons.prems] obtain e q where e:
        "ring_pop KB_BUFFER_CAPACITY (kb_queue k) = Some (e, q)" "ring_ok KB_BUFFER_CAPACITY q"
        "kbd_next_event k = Some (e, k\<lparr>kb_queue := q\<rparr>)"
      by blast
    moreover have "flags_of (k\<lparr>kb_queue := q\<rparr>) = flags_of k" by (simp add: flags_of_def)
    ultimately show ?thesis using Cons.IH [of "k\<lparr>kb_queue := q\<rparr>"] NextEvent by auto
  qed
qed simp

lemma pushed_queue_ops: "kb_fifo.pushed (queue_ops ops f) = decoded ops f"
proof (induction ops f rule: decoded.induct)
  case (2 sc ops f)
  have "concat (map (\<lambda>x. case x of Push y \<Rightarrow> [y] | Pop \<Rightarrow> []) (map Push es)) = es" for es :: "event list"
    by (induction es) auto
  with 2 show ?case by (auto simp: kb_fifo.pushed_def split: prod.splits)
qed (simp_all add: kb_fifo.pushed_def)

section \<open>Properties\<close>

lemma char_of_a [simp]: "char_of (65 :: nat) = CHR ''A''" "char_of (97 :: nat) = CHR ''a''"
  by code_simp+

text \<open>C29: The keyboard never loses order and never panics. For any interleaving of scancode interrupts
  and reads, starting from a consistent queue, the run completes; the events read, followed by those
  still queued, are the events queued before followed by events decoded from the scancodes, in order.
  Events are only ever dropped whole, and none is dropped when at most 255 are pending in total.\<close>

theorem keyboard_stream:
  assumes "ring_ok KB_BUFFER_CAPACITY (kb_queue k)"
  shows "\<exists>out k' kept. kbd_run ops k = Some (out, k')
    \<and> out @ ring_elems KB_BUFFER_CAPACITY (kb_queue k') = ring_elems KB_BUFFER_CAPACITY (kb_queue k) @ kept
    \<and> kept \<in> set (subseqs (decoded ops (flags_of k)))
    \<and> (length (ring_elems KB_BUFFER_CAPACITY (kb_queue k)) + length (decoded ops (flags_of k)) \<le> 255
        \<longrightarrow> kept = decoded ops (flags_of k))"
proof -
  from kbd_run_queue [OF assms, of ops] obtain out k' where r: "kbd_run ops k = Some (out, k')"
      "kb_fifo.run (queue_ops ops (flags_of k)) (kb_queue k) = Some (out, kb_queue k')"
    by blast
  from kb_fifo.run_fifo [OF assms, of "queue_ops ops (flags_of k)"] r show ?thesis
    by (auto simp: pushed_queue_ops KB_BUFFER_CAPACITY_def)
qed

theorem keyboard_stream_witness:
  "\<exists>out k'. kbd_run [Irq 0x2A, Irq 0x1E, Irq 0xAA, Irq 0x1E, NextEvent, NextEvent] kbd_boot = Some (out, k')
     \<and> out @ ring_elems KB_BUFFER_CAPACITY (kb_queue k') = [EvChar CHR ''A'', EvChar CHR ''a'']"
proof -
  let ?ops = "[Irq 0x2A, Irq 0x1E, Irq 0xAA, Irq 0x1E, NextEvent, NextEvent]"
  have ok: "ring_ok KB_BUFFER_CAPACITY (kb_queue kbd_boot)" "ring_elems KB_BUFFER_CAPACITY (kb_queue kbd_boot) = []"
    using ring_ok_new [of KB_BUFFER_CAPACITY "EvChar (char_of (0 :: nat))"] by (simp_all add: kbd_boot_def KB_BUFFER_CAPACITY_def)
  have "decoded ?ops (flags_of kbd_boot) = [EvChar CHR ''A'', EvChar CHR ''a'']"
    by (simp add: decode_step_def kbd_decode_def with_flags_def flags_of_def kbd_boot_def index_def
        KEYMAP_def KEYMAP_SHIFT_def as_char_def)
  with keyboard_stream [OF ok(1), of ?ops] ok(2) show ?thesis by auto
qed

lemma letter_table:
  "\<forall>n \<in> set [0..<128]. is_ascii_alphabetic (KEYMAP ! n) \<longrightarrow>
     KEYMAP ! n \<noteq> 0 \<and> KEYMAP_SHIFT ! n = to_ascii_uppercase (KEYMAP ! n) \<and> KEYMAP_SHIFT ! n \<noteq> 0
     \<and> n \<notin> {0x2A, 0x36, 0x1D, 0x3A, 0x0E, 0x1C, 0x0F, 0x39, 0x01, 0x3C}"
  by code_simp

text \<open>Letters and modifiers agree. For every scancode that carries a letter, without Ctrl the key
  types the upper-case letter exactly when Shift or Caps Lock is on (the shifted key map and
  \<open>to_ascii_uppercase\<close> agree on all of them); with Ctrl it gives the lower-case letter whatever the
  other modifiers; and no flag changes.\<close>

theorem keyboard_letters:
  assumes "sc < 0x80" "is_ascii_alphabetic (KEYMAP ! unat sc)"
  shows "kbd_decode sc False k = Some (Some (
    if ctrl_down k then EvCtrl (as_char (KEYMAP ! unat sc))
    else if shift_down k \<or> caps_lock k then EvChar (as_char (to_ascii_uppercase (KEYMAP ! unat sc)))
    else EvChar (as_char (KEYMAP ! unat sc))), k)"
proof -
  let ?n = "unat sc"
  have n: "?n < 128" using assms(1) by (simp add: word_less_nat_alt)
  with letter_table assms(2) have t: "KEYMAP ! ?n \<noteq> 0" "KEYMAP_SHIFT ! ?n = to_ascii_uppercase (KEYMAP ! ?n)"
      "KEYMAP_SHIFT ! ?n \<noteq> 0" "?n \<notin> {0x2A, 0x36, 0x1D, 0x3A, 0x0E, 0x1C, 0x0F, 0x39, 0x01, 0x3C}"
    by auto
  from t(4) have "sc \<noteq> 0x2A \<and> sc \<noteq> 0x36 \<and> sc \<noteq> 0x1D \<and> sc \<noteq> 0x3A \<and> sc \<noteq> 0x0E \<and> sc \<noteq> 0x1C \<and> sc \<noteq> 0x0F
      \<and> sc \<noteq> 0x39 \<and> sc \<noteq> 0x01 \<and> sc \<noteq> 0x3C"
    by auto
  moreover have "sc \<noteq> 0xAA \<and> sc \<noteq> 0xB6 \<and> sc \<noteq> 0x9D \<and> \<not> sc \<ge> 0x80" using assms(1) by auto
  ultimately show ?thesis
    using t n assms(2) by (simp add: kbd_decode_def index_def length_keymaps)
qed

end
