(* ===== verification/Syscall.thy ===== *)
theory Syscall
  imports Loader_Spawn Keyboard
begin

text \<open>
  \<open>src/src/syscall.rs\<close>: the entry of system calls, the validation of the pointers a process passes, and
  the system calls of the native interface. An early return of a handler is the error of the operation.
\<close>

section \<open>The machine a system call sees\<close>

record os =
  os_sched :: sched
  os_kern :: kern
  os_kbd :: kbd
  os_ticks :: u64
  os_console :: "u8 list"
  os_write_count :: u64

type_synonym 'a sop = "(os, u64, 'a) op"

definition on_sk :: "(sched \<times> kern \<Rightarrow> ('a \<times> sched \<times> kern) exec) \<Rightarrow> 'a sop" where
  "on_sk f st = do { (x, s, k) \<leftarrow> f (os_sched st, os_kern st); Some (Inr x, st\<lparr>os_sched := s, os_kern := k\<rparr>) }"

definition on_kernel :: "(kern \<Rightarrow> ('a \<times> kern) exec) \<Rightarrow> 'a sop" where
  "on_kernel f = on_sk (\<lambda>(s, k). do { (x, k') \<leftarrow> f k; Some (x, s, k') })"

definition finish :: "u64 sop \<Rightarrow> os \<Rightarrow> (u64 \<times> os) exec" where
  "finish m st = do { (r, st') \<leftarrow> m st; Some (case r of Inl v \<Rightarrow> v | Inr v \<Rightarrow> v, st') }"

text \<open>Reads and writes through the physical address of a validated range, and the console.\<close>

definition peek_bytes :: "u64 \<Rightarrow> nat \<Rightarrow> u8 list sop" where
  "peek_bytes phys n = gets (\<lambda>st. map (\<lambda>i. k_mem (os_kern st) (unat phys + i)) [0..<n])"

definition poke_bytes :: "u64 \<Rightarrow> u8 list \<Rightarrow> unit sop" where
  "poke_bytes phys bs = on_kernel (\<lambda>k. Some ((), upd_mem (put_bytes (unat phys) bs) k))"

definition print :: "u8 list \<Rightarrow> unit sop" where
  "print bs st = Some (Inr (), st\<lparr>os_console := os_console st @ bs\<rparr>)"

section \<open>The native interface\<close>

definition SYS_WRITE :: u64 where "SYS_WRITE = 0"
definition SYS_READ :: u64 where "SYS_READ = 2"
definition SYS_CLOCK :: u64 where "SYS_CLOCK = 3"
definition SYS_SEND :: u64 where "SYS_SEND = 4"
definition SYS_RECV :: u64 where "SYS_RECV = 5"
definition SYSCALL_ERROR :: u64 where "SYSCALL_ERROR = - 1"
definition FD_STDIN :: u64 where "FD_STDIN = 0"
definition FD_STDOUT :: u64 where "FD_STDOUT = 1"
definition FD_STDERR :: u64 where "FD_STDERR = 2"

lemmas native_consts = SYS_WRITE_def SYS_EXIT_def SYS_READ_def SYS_CLOCK_def SYS_SEND_def SYS_RECV_def SYSCALL_ERROR_def
  FD_STDIN_def FD_STDOUT_def FD_STDERR_def

definition resolve_user_buffer :: "u64 \<Rightarrow> u64 \<Rightarrow> u64 option sop" where
  "resolve_user_buffer ptr len st =
     (if current_is_process (os_sched st) then on_sk (resolve_syscall_ptr (current_pid (os_sched st)) ptr len) st
      else Some (Inr (if is_identity_mapped ptr len then Some ptr else None), st))"

text \<open>\<open>let Some(phys) = resolve(..) else return e\<close>.\<close>

definition resolve_or :: "u64 \<Rightarrow> u64 \<Rightarrow> u64 \<Rightarrow> u64 sop" where
  "resolve_or e ptr len = bnd (resolve_user_buffer ptr len) (\<lambda>r. case r of None \<Rightarrow> fail e | Some phys \<Rightarrow> ret phys)"

definition sys_write :: "u64 \<Rightarrow> u64 \<Rightarrow> u64 \<Rightarrow> u64 sop" where
  "sys_write fd ptr len =
     (if fd \<noteq> FD_STDOUT \<and> fd \<noteq> FD_STDERR then fail SYSCALL_ERROR
      else bnd (resolve_or SYSCALL_ERROR ptr len) (\<lambda>phys.
           bnd (peek_bytes phys (unat len)) (\<lambda>bytes.
           bnd (print bytes) (\<lambda>_.
           bnd (\<lambda>st. Some (Inr (), st\<lparr>os_write_count := os_write_count st + of_nat (length bytes)\<rparr>)) (\<lambda>_.
           ret (of_nat (length bytes)))))))"

text \<open>The loop that drains queued characters into a buffer with room for \<open>n\<close> bytes: other keys are dropped.\<close>

partial_function (option) read_keys :: "nat \<Rightarrow> kbd \<Rightarrow> (u8 list \<times> kbd) option" where
  "read_keys n kb =
     (if n = 0 then Some ([], kb)
      else do {
        (e, kb') \<leftarrow> kbd_next_event kb;
        case e of
          None \<Rightarrow> Some ([], kb')
        | Some (EvChar c) \<Rightarrow> do { (bs, kb'') \<leftarrow> read_keys (n - 1) kb'; Some (of_char c # bs, kb'') }
        | Some _ \<Rightarrow> read_keys n kb' })"

definition drain_keys :: "nat \<Rightarrow> u8 list sop" where
  "drain_keys n st = do { (bs, kb) \<leftarrow> read_keys n (os_kbd st); Some (Inr bs, st\<lparr>os_kbd := kb\<rparr>) }"

definition sys_read :: "u64 \<Rightarrow> u64 \<Rightarrow> u64 \<Rightarrow> u64 sop" where
  "sys_read fd ptr len =
     (if fd \<noteq> FD_STDIN then fail SYSCALL_ERROR
      else bnd (resolve_or SYSCALL_ERROR ptr len) (\<lambda>phys.
           bnd (drain_keys (unat len)) (\<lambda>bs.
           bnd (poke_bytes phys bs) (\<lambda>_.
           ret (of_nat (length bs))))))"

definition sys_send :: "u64 \<Rightarrow> u64 \<Rightarrow> u64 \<Rightarrow> u64 sop" where
  "sys_send dest_pid ptr len =
     bnd (resolve_or SYSCALL_ERROR ptr len) (\<lambda>phys.
     bnd (peek_bytes phys (unat len)) (\<lambda>bytes.
     bnd (on_sk (\<lambda>(s, k). let (b, s') = deliver_message (unat dest_pid) bytes s in Some (b, s', k))) (\<lambda>b.
     ret (if b then 0 else SYSCALL_ERROR))))"

definition sys_recv :: "u64 \<Rightarrow> u64 \<Rightarrow> u64 sop" where
  "sys_recv ptr maxlen =
     bnd (resolve_or SYSCALL_ERROR ptr maxlen) (\<lambda>phys.
     bnd (on_sk (\<lambda>(s, k). do { (m, s') \<leftarrow> take_current_message s; Some (m, s', k) })) (\<lambda>m.
     case m of
       None \<Rightarrow> ret 0
     | Some message \<Rightarrow>
         let n = min (length message) (unat maxlen)
         in bnd (poke_bytes phys (take n message)) (\<lambda>_. ret (of_nat n))))"

definition native_dispatch :: "u64 \<Rightarrow> u64 \<Rightarrow> u64 \<Rightarrow> u64 \<Rightarrow> u64 sop" where
  "native_dispatch num arg1 arg2 arg3 =
     (if num = SYS_WRITE then sys_write arg1 arg2 arg3
      else if num = SYS_READ then sys_read arg1 arg2 arg3
      else if num = SYS_CLOCK then gets os_ticks
      else if num = SYS_SEND then sys_send arg1 arg2 arg3
      else if num = SYS_RECV then sys_recv arg1 arg2
      else ret SYSCALL_ERROR)"

definition LINUX_SYS_EXIT :: u64 where "LINUX_SYS_EXIT = 60"
definition LINUX_SYS_EXIT_GROUP :: u64 where "LINUX_SYS_EXIT_GROUP = 231"

definition is_exit_syscall :: "u64 \<Rightarrow> sched \<Rightarrow> u64 exec" where
  "is_exit_syscall num s = do {
     ab \<leftarrow> current_process_abi s;
     let ex = (if ab = Some AbiLinux then num = LINUX_SYS_EXIT \<or> num = LINUX_SYS_EXIT_GROUP else num = SYS_EXIT);
     Some (if ex then 1 else 0) }"

section \<open>The entry point\<close>

text \<open>The registers the entry touches, and its stack. \<open>syscall_entry\<close> runs from the instruction \<open>syscall\<close>,
  which has put the return address into \<open>rcx\<close> and the flags into \<open>r11\<close>, to \<open>sysretq\<close>. The two functions it
  calls may change every register the C convention does not save, and the stack below their frame; so they
  are given as functions on the registers.\<close>

record regs =
  r_rax :: u64
  r_rcx :: u64
  r_rdx :: u64
  r_rsi :: u64
  r_rdi :: u64
  r_r8 :: u64
  r_r9 :: u64
  r_r10 :: u64
  r_r11 :: u64
  r_rsp :: u64
  r_stk :: "u64 \<Rightarrow> u64"

definition r_push :: "u64 \<Rightarrow> regs \<Rightarrow> regs" where
  "r_push v r = r\<lparr>r_rsp := r_rsp r - 8, r_stk := (r_stk r)(r_rsp r - 8 := v)\<rparr>"

definition r_pop :: "regs \<Rightarrow> u64 \<times> regs" where
  "r_pop r = (r_stk r (r_rsp r), r\<lparr>r_rsp := r_rsp r + 8\<rparr>)"

text \<open>The seven values \<open>syscall_dispatch\<close> receives: six in registers, the last on the stack.\<close>

definition c_args :: "regs \<Rightarrow> u64 list" where
  "c_args r = [r_rdi r, r_rsi r, r_rdx r, r_rcx r, r_r8 r, r_r9 r, r_stk r (r_rsp r)]"

definition push_call_regs :: "regs \<Rightarrow> regs" where
  "push_call_regs r = r_push (r_r9 r) (r_push (r_r8 r) (r_push (r_r10 r) (r_push (r_rdx r) (r_push (r_rsi r) (r_push (r_rdi r) r)))))"

definition pop_call_regs :: "regs \<Rightarrow> regs" where
  "pop_call_regs r =
     (let (r9, r) = r_pop r; (r8, r) = r_pop r; (r10, r) = r_pop r; (rdx, r) = r_pop r; (rsi, r) = r_pop r; (rdi, r) = r_pop r
      in r\<lparr>r_r9 := r9, r_r8 := r8, r_r10 := r10, r_rdx := rdx, r_rsi := rsi, r_rdi := rdi\<rparr>)"

text \<open>Up to the call of \<open>is_exit_syscall\<close>, whose argument is in \<open>rdi\<close>; and from its return, with the result in
  \<open>rax\<close>, to the test.\<close>

definition entry_ask :: "u64 \<Rightarrow> regs \<Rightarrow> regs" where
  "entry_ask kernel_rsp r0 =
     (let r1 = r_push (r_r11 r0) (r_push (r_rcx r0) (r0\<lparr>r_rsp := kernel_rsp\<rparr>));
          r2 = push_call_regs (r_push (r_rax r1) r1)
      in r2\<lparr>r_rdi := r_rax r2\<rparr>)"

definition entry_answer :: "regs \<Rightarrow> regs" where
  "entry_answer r = (let r1 = pop_call_regs (r\<lparr>r_r11 := r_rax r\<rparr>); (rax, r2) = r_pop r1 in r2\<lparr>r_rax := rax\<rparr>)"

definition entry_shuffle :: "regs \<Rightarrow> regs" where
  "entry_shuffle r0 =
     (let r1 = push_call_regs r0;
          r2 = r_push (r_r9 r1) r1;
          r3 = r2\<lparr>r_r11 := r_rdx r2\<rparr>;
          r4 = r3\<lparr>r_rdx := r_rsi r3\<rparr>;
          r5 = r4\<lparr>r_rsi := r_rdi r4\<rparr>;
          r6 = r5\<lparr>r_rdi := r_rax r5\<rparr>;
          r7 = r6\<lparr>r_rcx := r_r11 r6\<rparr>;
          r8 = r7\<lparr>r_r11 := r_r8 r7\<rparr>;
          r9 = r8\<lparr>r_r8 := r_r10 r8\<rparr>
      in r9\<lparr>r_r9 := r_r11 r9\<rparr>)"

definition entry_leave :: "u64 \<Rightarrow> regs \<Rightarrow> regs" where
  "entry_leave user_rsp r0 =
     (let r1 = pop_call_regs (r0\<lparr>r_rsp := r_rsp r0 + 8\<rparr>);
          (r11, r2) = r_pop r1;
          (rcx, r3) = r_pop r2
      in r3\<lparr>r_r11 := r11, r_rcx := rcx, r_rsp := user_rsp\<rparr>)"

text \<open>The whole entry: \<open>Inl\<close> at \<open>.Lsyscall_exit\<close>, \<open>Inr\<close> at \<open>sysretq\<close>.\<close>

definition syscall_entry :: "u64 \<Rightarrow> (regs \<Rightarrow> regs) \<Rightarrow> (regs \<Rightarrow> regs) \<Rightarrow> regs \<Rightarrow> regs + regs" where
  "syscall_entry kernel_rsp ask dispatch r0 =
     (let saved_user_rsp = r_rsp r0;
          r1 = entry_answer (ask (entry_ask kernel_rsp r0))
      in if r_r11 r1 \<noteq> 0 then Inl r1 else Inr (entry_leave saved_user_rsp (dispatch (entry_shuffle r1))))"

text \<open>A C function with \<open>n\<close> arguments on the stack: the stack pointer comes back, and the stack behind the
  arguments is not written.\<close>

definition c_call :: "nat \<Rightarrow> (regs \<Rightarrow> regs) \<Rightarrow> bool" where
  "c_call n f \<longleftrightarrow> (\<forall>r. r_rsp (f r) = r_rsp r
     \<and> (\<forall>i. n \<le> i \<longrightarrow> i < 32 \<longrightarrow> r_stk (f r) (r_rsp r + 8 * of_nat i) = r_stk r (r_rsp r + 8 * of_nat i)))"

text \<open>\<open>enter_usermode\<close> with the value it hands to \<open>ring3_save_return_rsp\<close>, and \<open>.Lsyscall_exit\<close> from the value
  \<open>ring3_load_return_rsp\<close> gives back.\<close>

definition enter_usermode :: "u64 \<Rightarrow> u64 \<Rightarrow> cpu \<Rightarrow> u64 \<times> cpu" where
  "enter_usermode rdi rsi c =
     (let c1 = save_regs c;
          c2 = c1\<lparr>c_rbx := rdi, c_r12 := rsi\<rparr>;
          c3 = cpu_push rdi (cpu_push 0x3B (cpu_push 0x202 (cpu_push rsi (cpu_push 0x33 c2))))
      in (c_rsp c1, c3\<lparr>c_rip := rdi, c_rsp := rsi, c_if := True\<rparr>))"

definition syscall_exit :: "u64 \<Rightarrow> cpu \<Rightarrow> cpu" where
  "syscall_exit return_rsp c = load_regs (c\<lparr>c_if := True, c_rsp := return_rsp\<rparr>)"

section \<open>The entry keeps the registers of the process\<close>

lemma push_call_regs_sel:
  "r_rsp (push_call_regs r) = r_rsp r - 48" "r_rax (push_call_regs r) = r_rax r" "r_rdi (push_call_regs r) = r_rdi r"
  "r_rsi (push_call_regs r) = r_rsi r" "r_rdx (push_call_regs r) = r_rdx r" "r_r10 (push_call_regs r) = r_r10 r" "r_r8 (push_call_regs r) = r_r8 r"
  "r_r9 (push_call_regs r) = r_r9 r"
  "r_stk (push_call_regs r) = (r_stk r)(r_rsp r - 8 := r_rdi r, r_rsp r - 16 := r_rsi r, r_rsp r - 24 := r_rdx r,
     r_rsp r - 32 := r_r10 r, r_rsp r - 40 := r_r8 r, r_rsp r - 48 := r_r9 r)"
  by (simp_all add: push_call_regs_def r_push_def)

lemma pop_call_regs_eq:
  "pop_call_regs r = r\<lparr>r_r9 := r_stk r (r_rsp r), r_r8 := r_stk r (r_rsp r + 8), r_r10 := r_stk r (r_rsp r + 16), r_rdx := r_stk r (r_rsp r + 24),
     r_rsi := r_stk r (r_rsp r + 32), r_rdi := r_stk r (r_rsp r + 40), r_rsp := r_rsp r + 48\<rparr>"
  by (simp add: pop_call_regs_def r_pop_def Let_def add.assoc)

lemma entry_ask_sel:
  "r_rsp (entry_ask k r) = k - 72" "r_rdi (entry_ask k r) = r_rax r"
  "r_stk (entry_ask k r) = (r_stk r)(k - 8 := r_rcx r, k - 16 := r_r11 r, k - 24 := r_rax r, k - 32 := r_rdi r, k - 40 := r_rsi r, k - 48 := r_rdx r,
     k - 56 := r_r10 r, k - 64 := r_r8 r, k - 72 := r_r9 r)"
  by (simp_all add: entry_ask_def Let_def push_call_regs_sel r_push_def)

lemma c_callD:
  assumes "c_call n f" "r_rsp r = k - 72" "n \<le> i" "i < 10"
  shows "r_stk (f r) (k - 72 + 8 * of_nat i) = r_stk r (k - 72 + 8 * of_nat i)"
proof -
  have "i < 32" using assms(4) by simp
  then show ?thesis using assms(1,3) unfolding c_call_def assms(2) [symmetric] by blast
qed

lemma c_call_words:
  assumes "c_call n f" "r_rsp r = k - 72" "n \<le> 1"
  shows "r_rsp (f r) = k - 72" "r_stk (f r) (k - 64) = r_stk r (k - 64)" "r_stk (f r) (k - 56) = r_stk r (k - 56)" "r_stk (f r) (k - 48) = r_stk r (k - 48)"
    "r_stk (f r) (k - 40) = r_stk r (k - 40)" "r_stk (f r) (k - 32) = r_stk r (k - 32)" "r_stk (f r) (k - 24) = r_stk r (k - 24)"
    "r_stk (f r) (k - 16) = r_stk r (k - 16)" "r_stk (f r) (k - 8) = r_stk r (k - 8)" "n = 0 \<Longrightarrow> r_stk (f r) (k - 72) = r_stk r (k - 72)"
  using assms c_callD [OF assms(1,2), of 0] c_callD [OF assms(1,2), of 1] c_callD [OF assms(1,2), of 2] c_callD [OF assms(1,2), of 3]
    c_callD [OF assms(1,2), of 4] c_callD [OF assms(1,2), of 5] c_callD [OF assms(1,2), of 6] c_callD [OF assms(1,2), of 7]
    c_callD [OF assms(1,2), of 8]
  by (simp_all add: c_call_def)

lemma entry_answer_eq:
  fixes k :: u64 and r0 :: regs
  assumes "c_call 0 ask"
  defines "r1 \<equiv> ask (entry_ask k r0)" and "r2 \<equiv> entry_answer (ask (entry_ask k r0))"
  shows "r_rax r2 = r_rax r0" "r_rdi r2 = r_rdi r0" "r_rsi r2 = r_rsi r0" "r_rdx r2 = r_rdx r0" "r_r10 r2 = r_r10 r0" "r_r8 r2 = r_r8 r0" "r_r9 r2 = r_r9 r0"
    "r_r11 r2 = r_rax r1" "r_rsp r2 = k - 16" "r_stk r2 (k - 8) = r_rcx r0" "r_stk r2 (k - 16) = r_r11 r0"
  using c_call_words [OF assms(1), of "entry_ask k r0" k] unfolding r1_def r2_def entry_answer_def Let_def pop_call_regs_eq r_pop_def prod.case
  by (simp_all add: entry_ask_sel)

lemma entry_shuffle_sel:
  assumes "r_rsp r = k - 16"
  shows "r_rsp (entry_shuffle r) = k - 72" "c_args (entry_shuffle r) = [r_rax r, r_rdi r, r_rsi r, r_rdx r, r_r10 r, r_r8 r, r_r9 r]"
    "r_stk (entry_shuffle r) = (r_stk r)(k - 24 := r_rdi r, k - 32 := r_rsi r, k - 40 := r_rdx r, k - 48 := r_r10 r, k - 56 := r_r8 r, k - 64 := r_r9 r, k - 72 := r_r9 r)"
  using assms by (simp_all add: entry_shuffle_def Let_def push_call_regs_sel r_push_def c_args_def)

lemma entry_leave_eq:
  assumes "r_rsp r = k - 72"
  shows "entry_leave user_rsp r = r\<lparr>r_r9 := r_stk r (k - 64), r_r8 := r_stk r (k - 56), r_r10 := r_stk r (k - 48), r_rdx := r_stk r (k - 40),
     r_rsi := r_stk r (k - 32), r_rdi := r_stk r (k - 24), r_r11 := r_stk r (k - 16), r_rcx := r_stk r (k - 8), r_rsp := user_rsp\<rparr>"
  using assms by (simp add: entry_leave_def Let_def pop_call_regs_eq r_pop_def)

section \<open>Properties\<close>

text \<open>C13: the entry of system calls. \<open>is_exit_syscall\<close> is asked about the number in \<open>rax\<close>. When it says no,
  \<open>syscall_dispatch\<close> is called with the number and the six arguments in order, and the process continues with
  its result in \<open>rax\<close>, its own stack pointer, return address and flags, and every argument register as it was,
  whatever the two functions did with the registers and with the stack below them.\<close>
theorem syscall_entry_keeps_registers:
  assumes "c_call 0 ask" "c_call 1 dispatch"
  shows "r_rdi (entry_ask kernel_rsp r0) = r_rax r0
    \<and> (case syscall_entry kernel_rsp ask dispatch r0 of
         Inl r \<Rightarrow> r_rax (ask (entry_ask kernel_rsp r0)) \<noteq> 0 \<and> r_rsp r = kernel_rsp - 16
       | Inr r \<Rightarrow> r_rax (ask (entry_ask kernel_rsp r0)) = 0
           \<and> (\<exists>q. c_args q = [r_rax r0, r_rdi r0, r_rsi r0, r_rdx r0, r_r10 r0, r_r8 r0, r_r9 r0] \<and> r_rax r = r_rax (dispatch q))
           \<and> r = r0\<lparr>r_rax := r_rax r, r_stk := r_stk r\<rparr>)"
proof -
  note A = entry_answer_eq [OF assms(1), of kernel_rsp r0]
  note S = entry_shuffle_sel [OF A(9)]
  note D = c_call_words [OF assms(2) S(1)]
  define q where "q = entry_shuffle (entry_answer (ask (entry_ask kernel_rsp r0)))"
  have "r_rsp (dispatch q) = kernel_rsp - 72" unfolding q_def using D(1) by simp
  note L = entry_leave_eq [OF this, of "r_rsp r0"]
  have "entry_leave (r_rsp r0) (dispatch q) = r0\<lparr>r_rax := r_rax (dispatch q), r_stk := r_stk (dispatch q)\<rparr>"
    unfolding L using D(2-9) unfolding q_def by (simp add: S A)
  moreover have "c_args q = [r_rax r0, r_rdi r0, r_rsi r0, r_rdx r0, r_r10 r0, r_r8 r0, r_r9 r0]" by (simp add: q_def S A)
  ultimately show ?thesis by (auto simp: syscall_entry_def Let_def A entry_ask_sel q_def [symmetric])
qed

text \<open>An answer of no, and a dispatcher that uses the registers and the stack below.\<close>

definition demo_dispatch :: "regs \<Rightarrow> regs" where
  "demo_dispatch r = r\<lparr>r_rax := 7, r_rcx := 0, r_rdx := 0, r_rsi := 0, r_rdi := 0, r_r8 := 0, r_r9 := 0, r_r10 := 0, r_r11 := 0,
     r_stk := (r_stk r)(r_rsp r - 8 := 99)\<rparr>"

lemma demo_dispatch_c: "c_call n demo_dispatch" "c_call n (\<lambda>r. (demo_dispatch r)\<lparr>r_rax := 0\<rparr>)"
proof -
  have "(8 :: u64) * of_nat i \<noteq> - 8" if "i < 32" for i
  proof -
    have "unat ((8 :: u64) * of_nat i) = 8 * i" using that by (simp add: unat_word_ariths unat_of_nat)
    moreover have "unat (- 8 :: u64) = 2 ^ 64 - 8" by simp
    ultimately have "unat ((8 :: u64) * of_nat i) \<noteq> unat (- 8 :: u64)" using that by simp
    then show ?thesis by metis
  qed
  then have "r + 8 * of_nat i \<noteq> r - 8" if "i < 32" for r :: u64 and i using that
    by (simp only: diff_conv_add_uminus add_left_cancel not_False_eq_True)
  then show "c_call n demo_dispatch" "c_call n (\<lambda>r. (demo_dispatch r)\<lparr>r_rax := 0\<rparr>)" by (auto simp: c_call_def demo_dispatch_def)
qed

theorem syscall_entry_keeps_registers_witness:
  "\<exists>r. syscall_entry 0x8000 (\<lambda>r. (demo_dispatch r)\<lparr>r_rax := 0\<rparr>) demo_dispatch
     \<lparr>r_rax = 1, r_rcx = 2, r_rdx = 3, r_rsi = 4, r_rdi = 5, r_r8 = 6, r_r9 = 70, r_r10 = 8, r_r11 = 9, r_rsp = 0x4000, r_stk = \<lambda>_. 0\<rparr> = Inr r
   \<and> r_rax r = 7 \<and> r_rdi r = 5 \<and> r_r9 r = 70 \<and> r_rsp r = 0x4000"
proof -
  let ?r = "\<lparr>r_rax = 1, r_rcx = 2, r_rdx = 3, r_rsi = 4, r_rdi = 5, r_r8 = 6, r_r9 = 70, r_r10 = 8, r_r11 = 9, r_rsp = 0x4000, r_stk = \<lambda>_. 0\<rparr> :: regs"
  from syscall_entry_keeps_registers [OF demo_dispatch_c(2) demo_dispatch_c(1), of "0x8000" "?r"] show ?thesis
    by (auto simp: demo_dispatch_def split: sum.splits dest: arg_cong [where f = r_rdi] arg_cong [where f = r_r9] arg_cong [where f = r_rsp])
qed

end
