(* ===== verification/Linux_Abi.thy ===== *)
theory Linux_Abi
  imports Syscall
begin

text \<open>
  \<open>src/src/linux_abi.rs\<close>: the Linux system calls, over the processes, descriptors, files, shared memory
  objects and sockets of the kernel. A handler is an operation on the machine of \<open>Syscall\<close>; an early
  \<open>return\<close> is its error. Slices of process memory are read when the source takes them, and memory for
  kernel-side copies is taken to be available.
\<close>

section \<open>Numbers\<close>

definition EBADF :: int where "EBADF = 9"
definition EFAULT :: int where "EFAULT = 14"
definition EEXIST :: int where "EEXIST = 17"
definition ENOTDIR :: int where "ENOTDIR = 20"
definition EINVAL :: int where "EINVAL = 22"
definition ENOTTY :: int where "ENOTTY = 25"
definition ESPIPE :: int where "ESPIPE = 29"
definition ENOSYS :: int where "ENOSYS = 38"
definition ENOENT :: int where "ENOENT = 2"
definition EAGAIN :: int where "EAGAIN = 11"
definition EIO :: int where "EIO = 5"
definition ENOMEM :: int where "ENOMEM = 12"
definition EPIPE :: int where "EPIPE = 32"
definition EAFNOSUPPORT :: int where "EAFNOSUPPORT = 97"
definition ECONNREFUSED :: int where "ECONNREFUSED = 111"

lemmas errno_consts = EBADF_def EFAULT_def EEXIST_def ENOTDIR_def EINVAL_def ENOTTY_def ESPIPE_def ENOSYS_def
  ENOENT_def EAGAIN_def EIO_def ENOMEM_def EPIPE_def EAFNOSUPPORT_def ECONNREFUSED_def

definition err :: "int \<Rightarrow> u64" where
  "err errno = of_int (- errno)"

fun vfs_err :: "vfs_error \<Rightarrow> u64" where
  "vfs_err VNotFound = err ENOENT"
| "vfs_err VNotDir = err ENOTDIR"
| "vfs_err VIsDir = err ENOTDIR"
| "vfs_err VAlreadyExists = err EEXIST"
| "vfs_err _ = err EIO"

definition LINUX_SYS_READ :: u64 where "LINUX_SYS_READ = 0"
definition LINUX_SYS_WRITE :: u64 where "LINUX_SYS_WRITE = 1"
definition LINUX_SYS_CLOSE :: u64 where "LINUX_SYS_CLOSE = 3"
definition LINUX_SYS_FSTAT :: u64 where "LINUX_SYS_FSTAT = 5"
definition LINUX_SYS_LSEEK :: u64 where "LINUX_SYS_LSEEK = 8"
definition LINUX_SYS_ACCESS :: u64 where "LINUX_SYS_ACCESS = 21"
definition LINUX_SYS_PREAD64 :: u64 where "LINUX_SYS_PREAD64 = 17"
definition LINUX_SYS_MMAP :: u64 where "LINUX_SYS_MMAP = 9"
definition LINUX_SYS_MPROTECT :: u64 where "LINUX_SYS_MPROTECT = 10"
definition LINUX_SYS_MUNMAP :: u64 where "LINUX_SYS_MUNMAP = 11"
definition LINUX_SYS_BRK :: u64 where "LINUX_SYS_BRK = 12"
definition LINUX_SYS_RT_SIGACTION :: u64 where "LINUX_SYS_RT_SIGACTION = 13"
definition LINUX_SYS_RT_SIGPROCMASK :: u64 where "LINUX_SYS_RT_SIGPROCMASK = 14"
definition LINUX_SYS_IOCTL :: u64 where "LINUX_SYS_IOCTL = 16"
definition LINUX_SYS_WRITEV :: u64 where "LINUX_SYS_WRITEV = 20"
definition LINUX_SYS_SYSINFO :: u64 where "LINUX_SYS_SYSINFO = 99"
definition LINUX_SYS_GETPID :: u64 where "LINUX_SYS_GETPID = 39"
definition LINUX_SYS_UNAME :: u64 where "LINUX_SYS_UNAME = 63"
definition LINUX_SYS_SCHED_GETAFFINITY :: u64 where "LINUX_SYS_SCHED_GETAFFINITY = 204"
definition LINUX_SYS_FUTEX :: u64 where "LINUX_SYS_FUTEX = 202"
definition LINUX_SYS_ARCH_PRCTL :: u64 where "LINUX_SYS_ARCH_PRCTL = 158"
definition LINUX_SYS_SET_TID_ADDRESS :: u64 where "LINUX_SYS_SET_TID_ADDRESS = 218"
definition LINUX_SYS_CLOCK_GETTIME :: u64 where "LINUX_SYS_CLOCK_GETTIME = 228"
definition LINUX_SYS_OPENAT :: u64 where "LINUX_SYS_OPENAT = 257"
definition LINUX_SYS_NEWFSTATAT :: u64 where "LINUX_SYS_NEWFSTATAT = 262"
definition LINUX_SYS_SET_ROBUST_LIST :: u64 where "LINUX_SYS_SET_ROBUST_LIST = 273"
definition LINUX_SYS_PRLIMIT64 :: u64 where "LINUX_SYS_PRLIMIT64 = 302"
definition LINUX_SYS_GETRANDOM :: u64 where "LINUX_SYS_GETRANDOM = 318"
definition LINUX_SYS_RSEQ :: u64 where "LINUX_SYS_RSEQ = 334"
definition LINUX_SYS_SOCKET :: u64 where "LINUX_SYS_SOCKET = 41"
definition LINUX_SYS_CONNECT :: u64 where "LINUX_SYS_CONNECT = 42"
definition LINUX_SYS_SENDMSG :: u64 where "LINUX_SYS_SENDMSG = 46"
definition LINUX_SYS_RECVMSG :: u64 where "LINUX_SYS_RECVMSG = 47"
definition LINUX_SYS_FTRUNCATE :: u64 where "LINUX_SYS_FTRUNCATE = 77"
definition LINUX_SYS_MEMFD_CREATE :: u64 where "LINUX_SYS_MEMFD_CREATE = 319"

lemmas linux_nums = LINUX_SYS_READ_def LINUX_SYS_WRITE_def LINUX_SYS_CLOSE_def LINUX_SYS_FSTAT_def
  LINUX_SYS_LSEEK_def LINUX_SYS_ACCESS_def LINUX_SYS_PREAD64_def LINUX_SYS_MMAP_def LINUX_SYS_MPROTECT_def
  LINUX_SYS_MUNMAP_def LINUX_SYS_BRK_def LINUX_SYS_RT_SIGACTION_def LINUX_SYS_RT_SIGPROCMASK_def
  LINUX_SYS_IOCTL_def LINUX_SYS_WRITEV_def LINUX_SYS_SYSINFO_def LINUX_SYS_GETPID_def LINUX_SYS_EXIT_def
  LINUX_SYS_UNAME_def LINUX_SYS_SCHED_GETAFFINITY_def LINUX_SYS_FUTEX_def LINUX_SYS_ARCH_PRCTL_def
  LINUX_SYS_SET_TID_ADDRESS_def LINUX_SYS_CLOCK_GETTIME_def LINUX_SYS_EXIT_GROUP_def LINUX_SYS_OPENAT_def
  LINUX_SYS_NEWFSTATAT_def LINUX_SYS_SET_ROBUST_LIST_def LINUX_SYS_PRLIMIT64_def LINUX_SYS_GETRANDOM_def
  LINUX_SYS_RSEQ_def LINUX_SYS_SOCKET_def LINUX_SYS_CONNECT_def LINUX_SYS_SENDMSG_def LINUX_SYS_RECVMSG_def
  LINUX_SYS_FTRUNCATE_def LINUX_SYS_MEMFD_CREATE_def

section \<open>Helpers\<close>

definition with_process :: "'a pop \<Rightarrow> 'a option sop" where
  "with_process f = on_sk (with_current_process_mut f)"

text \<open>\<open>with_process(..).unwrap_or(e)\<close>, and with a \<open>flatten\<close> before it.\<close>

definition proc_or :: "'a \<Rightarrow> 'a pop \<Rightarrow> 'a sop" where
  "proc_or e f = bnd (with_process f) (\<lambda>r. ret (case r of None \<Rightarrow> e | Some v \<Rightarrow> v))"

definition proc_flat :: "'a option pop \<Rightarrow> 'a option sop" where
  "proc_flat f = proc_or None f"

definition proc_flat_or :: "'a \<Rightarrow> 'a option pop \<Rightarrow> 'a sop" where
  "proc_flat_or e f = bnd (proc_flat f) (\<lambda>r. ret (case r of None \<Rightarrow> e | Some v \<Rightarrow> v))"

definition peek_u64 :: "u64 \<Rightarrow> u64 sop" where
  "peek_u64 a = bnd (peek_bytes a 8) (\<lambda>bs. ret (of_nat (le_nat bs)))"

definition peek_u32 :: "u64 \<Rightarrow> u32 sop" where
  "peek_u32 a = bnd (peek_bytes a 4) (\<lambda>bs. ret (of_nat (le_nat bs)))"

definition poke_u64 :: "u64 \<Rightarrow> u64 \<Rightarrow> unit sop" where
  "poke_u64 a v = poke_bytes a (to_le 8 (unat v))"

definition poke_u32 :: "u64 \<Rightarrow> u32 \<Rightarrow> unit sop" where
  "poke_u32 a v = poke_bytes a (to_le 4 (unat v))"

text \<open>\<open>from_utf8(..).ok()\<close>.\<close>

definition utf8_str :: "u8 list \<Rightarrow> u8 list option" where
  "utf8_str bs = (if utf8_ok bs then Some bs else None)"

fun read_cstr :: "u64 \<Rightarrow> nat \<Rightarrow> u8 list \<Rightarrow> u8 list option sop" where
  "read_cstr ptr 0 bytes = ret None"
| "read_cstr ptr (Suc n) bytes =
     bnd (resolve_user_buffer ptr 1) (\<lambda>r.
     case r of
       None \<Rightarrow> ret None
     | Some phys \<Rightarrow>
         bnd (peek_bytes phys 1) (\<lambda>bs.
         let b = hd bs
         in if b = 0 then ret (utf8_str bytes) else read_cstr (ptr + 1) n (bytes @ [b])))"

definition normalize_path :: "u8 list \<Rightarrow> u8 list" where
  "normalize_path path = (if path \<noteq> [] \<and> hd path = 0x2F then path else 0x2F # path)"

definition translate_open_flags :: "u64 \<Rightarrow> u32" where
  "translate_open_flags linux_flags =
     (let f0 = (if linux_flags AND 3 = 1 then O_WRONLY else if linux_flags AND 3 = 2 then O_RDWR else 0);
          f1 = (if linux_flags AND 64 \<noteq> 0 then f0 OR O_CREAT else f0);
          f2 = (if linux_flags AND 512 \<noteq> 0 then f1 OR O_TRUNC else f1)
      in if linux_flags AND 1024 \<noteq> 0 then f2 OR O_APPEND else f2)"

text \<open>\<open>let Some(path) = read_cstr(pathname, 256) else return EFAULT\<close>, normalised.\<close>

definition read_path :: "u64 \<Rightarrow> u8 list sop" where
  "read_path pathname =
     bnd (read_cstr pathname 256 []) (\<lambda>r. case r of None \<Rightarrow> fail (err EFAULT) | Some path \<Rightarrow> ret (normalize_path path))"

section \<open>Files\<close>

definition shm_read :: "usize \<Rightarrow> usize \<Rightarrow> nat \<Rightarrow> kern \<Rightarrow> u8 list" where
  "shm_read oid cursor room k =
     (case (phys_of oid (k_shm k), size_of oid (k_shm k)) of
        (Some phys, Some sz) \<Rightarrow>
          let n = min (sat_sub sz cursor) room in map (\<lambda>i. k_mem k (phys + cursor + i)) [0..<n]
      | _ \<Rightarrow> [])"

definition shm_write :: "usize \<Rightarrow> usize \<Rightarrow> u8 list \<Rightarrow> kern \<Rightarrow> usize \<times> kern" where
  "shm_write oid cursor data k =
     (case (phys_of oid (k_shm k), size_of oid (k_shm k)) of
        (Some phys, Some sz) \<Rightarrow>
          let n = min (sat_sub sz cursor) (length data)
          in (n, if n > 0 then upd_mem (put_bytes (phys + cursor) (take n data)) k else k)
      | _ \<Rightarrow> (0, k))"

definition fd_write :: "usize \<Rightarrow> u8 list \<Rightarrow> u64 pop" where
  "fd_write fd bytes = (\<lambda>(p, k).
     case fd_get fd p of
       Some (FdFile h) \<Rightarrow> do {
         (r, h') \<leftarrow> vfs_write bytes h;
         Some (case r of Inr n \<Rightarrow> of_nat n | Inl e \<Rightarrow> vfs_err e, fd_set fd (FdFile h') p, k) }
     | Some (FdShm oid cursor) \<Rightarrow>
         let (n, k') = shm_write oid cursor bytes k in Some (of_nat n, fd_set fd (FdShm oid (cursor + n)) p, k')
     | Some (FdSocket eid) \<Rightarrow> do {
         (r, s) \<leftarrow> sock_send eid bytes [] (k_sock k);
         Some (case r of Some n \<Rightarrow> of_nat n | None \<Rightarrow> err EPIPE, p, k\<lparr>k_sock := s\<rparr>) }
     | None \<Rightarrow> Some (err EBADF, p, k))"

definition linux_write :: "u64 \<Rightarrow> u64 \<Rightarrow> u64 \<Rightarrow> u64 sop" where
  "linux_write fd buf count =
     bnd (resolve_or (err EFAULT) buf count) (\<lambda>phys.
     bnd (peek_bytes phys (unat count)) (\<lambda>bytes.
     if fd = 1 \<or> fd = 2 then bnd (print bytes) (\<lambda>_. ret (of_nat (length bytes)))
     else if fd < 3 then fail (err EBADF)
     else proc_or (err EBADF) (fd_write (unat fd) bytes)))"

definition close_all :: "usize list \<Rightarrow> kern \<Rightarrow> kern exec" where
  "close_all fids k = do { sh \<leftarrow> for_each shm_close fids (k_shm k); Some (set_shm sh k) }"

definition fd_read :: "usize \<Rightarrow> u64 \<Rightarrow> nat \<Rightarrow> u64 pop" where
  "fd_read fd phys count = (\<lambda>(p, k).
     case fd_get fd p of
       Some (FdFile h) \<Rightarrow> do {
         (bs, h') \<leftarrow> vfs_read count h;
         Some (of_nat (length bs), fd_set fd (FdFile h') p, upd_mem (put_bytes (unat phys) bs) k) }
     | Some (FdShm oid cursor) \<Rightarrow>
         let bs = shm_read oid cursor count k
         in Some (of_nat (length bs), fd_set fd (FdShm oid (cursor + length bs)) p, upd_mem (put_bytes (unat phys) bs) k)
     | Some (FdSocket eid) \<Rightarrow> do {
         let ((bs, fids), s) = sock_recv eid count (k_sock k);
         k' \<leftarrow> close_all fids (upd_mem (put_bytes (unat phys) bs) (k\<lparr>k_sock := s\<rparr>));
         Some (of_nat (length bs), p, k') }
     | None \<Rightarrow> Some (err EBADF, p, k))"

definition linux_read :: "u64 \<Rightarrow> u64 \<Rightarrow> u64 \<Rightarrow> u64 sop" where
  "linux_read fd buf count =
     bnd (resolve_or (err EFAULT) buf count) (\<lambda>phys.
     if fd = 0 then
       bnd (drain_keys (unat count)) (\<lambda>bs. bnd (poke_bytes phys bs) (\<lambda>_. ret (of_nat (length bs))))
     else if fd < 3 then fail (err EBADF)
     else proc_or (err EBADF) (fd_read (unat fd) phys (unat count)))"

definition open_file :: "u8 list \<Rightarrow> u32 \<Rightarrow> (vfs_error + file_handle) sop" where
  "open_file path flags = on_kernel (\<lambda>k. do { (r, v) \<leftarrow> vfs_open path flags (k_vol k); Some (r, k\<lparr>k_vol := v\<rparr>) })"

definition drop_file :: "file_handle \<Rightarrow> unit sop" where
  "drop_file h = on_kernel (\<lambda>k. do { v \<leftarrow> vfs_drop (k_now k) h (k_vol k); Some ((), k\<lparr>k_vol := v\<rparr>) })"

definition new_fd :: "fd_entry \<Rightarrow> usize pop" where
  "new_fd e = (\<lambda>(p, k). let (fd, p') = alloc_fd e p in Some (fd, p', k))"

definition fd_result :: "fd_entry \<Rightarrow> u64 sop" where
  "fd_result e = bnd (with_process (new_fd e)) (\<lambda>r. ret (case r of None \<Rightarrow> err EBADF | Some fd \<Rightarrow> of_nat fd))"

definition linux_openat :: "u64 \<Rightarrow> u64 \<Rightarrow> u64 sop" where
  "linux_openat pathname flags =
     bnd (read_path pathname) (\<lambda>path.
     bnd (open_file path (translate_open_flags flags)) (\<lambda>r.
     case r of
       Inr handle \<Rightarrow> fd_result (FdFile handle)
     | Inl e \<Rightarrow> ret (vfs_err e)))"

definition linux_access :: "u64 \<Rightarrow> u64 sop" where
  "linux_access pathname =
     bnd (read_path pathname) (\<lambda>path.
     bnd (open_file path 0) (\<lambda>r.
     case r of
       Inr handle \<Rightarrow> bnd (drop_file handle) (\<lambda>_. ret 0)
     | Inl e \<Rightarrow> ret (vfs_err e)))"

definition linux_close :: "u64 \<Rightarrow> u64 sop" where
  "linux_close fd =
     (if fd < 3 then ret 0
      else bnd (with_process (close_fd (unat fd))) (\<lambda>r. ret (case r of Some True \<Rightarrow> 0 | _ \<Rightarrow> err EBADF)))"

definition seek_cursor :: "usize \<Rightarrow> usize \<Rightarrow> seek_from \<Rightarrow> usize" where
  "seek_cursor cursor sz from =
     nat (max (case from of
                 SeekStart p \<Rightarrow> sint p
               | SeekCurrent p \<Rightarrow> sint (of_nat cursor + p)
               | SeekEnd p \<Rightarrow> sint (of_nat sz + p)) 0)"

definition fd_seek :: "usize \<Rightarrow> seek_from \<Rightarrow> u64 pop" where
  "fd_seek fd from = (\<lambda>(p, k).
     case fd_get fd p of
       Some (FdFile h) \<Rightarrow> let (v, h') = vfs_seek from h in Some (v, fd_set fd (FdFile h') p, k)
     | Some (FdShm oid cursor) \<Rightarrow>
         let sz = (case size_of oid (k_shm k) of None \<Rightarrow> 0 | Some n \<Rightarrow> n);
             c = seek_cursor cursor sz from
         in Some (of_nat c, fd_set fd (FdShm oid c) p, k)
     | Some (FdSocket _) \<Rightarrow> Some (err ESPIPE, p, k)
     | None \<Rightarrow> Some (err EBADF, p, k))"

definition linux_lseek :: "u64 \<Rightarrow> u64 \<Rightarrow> u64 \<Rightarrow> u64 sop" where
  "linux_lseek fd offset whence =
     (if fd < 3 then fail (err ESPIPE)
      else if whence = 0 then proc_or (err EBADF) (fd_seek (unat fd) (SeekStart offset))
      else if whence = 1 then proc_or (err EBADF) (fd_seek (unat fd) (SeekCurrent offset))
      else if whence = 2 then proc_or (err EBADF) (fd_seek (unat fd) (SeekEnd offset))
      else fail (err EINVAL))"

definition fd_pread :: "usize \<Rightarrow> u64 \<Rightarrow> nat \<Rightarrow> u64 \<Rightarrow> u64 pop" where
  "fd_pread fd phys count offset = (\<lambda>(p, k).
     case fd_get fd p of
       Some (FdFile h) \<Rightarrow> do {
         let (saved, h1) = vfs_seek (SeekCurrent 0) h;
         let (_, h2) = vfs_seek (SeekStart offset) h1;
         (bs, h3) \<leftarrow> vfs_read count h2;
         let (_, h4) = vfs_seek (SeekStart saved) h3;
         Some (of_nat (length bs), fd_set fd (FdFile h4) p, upd_mem (put_bytes (unat phys) bs) k) }
     | _ \<Rightarrow> Some (err EBADF, p, k))"

definition linux_pread64 :: "u64 \<Rightarrow> u64 \<Rightarrow> u64 \<Rightarrow> u64 \<Rightarrow> u64 sop" where
  "linux_pread64 fd buf count offset =
     (if fd < 3 then fail (err ESPIPE)
      else bnd (resolve_or (err EFAULT) buf count) (\<lambda>phys.
           proc_or (err EBADF) (fd_pread (unat fd) phys (unat count) offset)))"

definition S_IFREG :: u32 where "S_IFREG = 32768"
definition S_IFDIR :: u32 where "S_IFDIR = 16384"
definition S_IFCHR :: u32 where "S_IFCHR = 8192"
definition S_IFSOCK :: u32 where "S_IFSOCK = 49152"
definition STAT_SIZE :: u64 where "STAT_SIZE = 144"
definition ST_DEV :: u64 where "ST_DEV = 1"

definition write_stat :: "u64 \<Rightarrow> u32 \<Rightarrow> u64 \<Rightarrow> u64 \<Rightarrow> u64 sop" where
  "write_stat buf_ptr mode sz ino =
     bnd (resolve_or (err EFAULT) buf_ptr STAT_SIZE) (\<lambda>phys.
     bnd (poke_bytes phys (replicate (unat STAT_SIZE) 0)) (\<lambda>_.
     bnd (poke_u64 phys ST_DEV) (\<lambda>_.
     bnd (poke_u64 (phys + 8) ino) (\<lambda>_.
     bnd (poke_u64 (phys + 16) 1) (\<lambda>_.
     bnd (poke_u32 (phys + 24) mode) (\<lambda>_.
     bnd (poke_u64 (phys + 48) sz) (\<lambda>_.
     bnd (poke_u64 (phys + 56) 4096) (\<lambda>_.
     bnd (poke_u64 (phys + 64) (of_nat (div_ceil (unat sz) 512))) (\<lambda>_.
     ret 0)))))))))"

definition file_mode :: "stat \<Rightarrow> u32" where
  "file_mode st = (if st_is_dir st then S_IFDIR OR 493 else S_IFREG OR 420)"

definition fd_stat :: "usize \<Rightarrow> (u32 \<times> u64 \<times> u64) option pop" where
  "fd_stat fd = (\<lambda>(p, k). Some (
     case fd_get fd p of
       Some (FdFile h) \<Rightarrow> let st = vfs_stat h in Some (file_mode st, st_size st, st_ino st)
     | Some (FdShm oid _) \<Rightarrow>
         Some (S_IFREG OR 384, case size_of oid (k_shm k) of None \<Rightarrow> 0 | Some n \<Rightarrow> of_nat n, of_nat oid + 1)
     | Some (FdSocket eid) \<Rightarrow> Some (S_IFSOCK OR 511, 0, of_nat eid + 1)
     | None \<Rightarrow> None, p, k))"

definition linux_fstat :: "u64 \<Rightarrow> u64 \<Rightarrow> u64 sop" where
  "linux_fstat fd statbuf =
     (if fd < 3 then write_stat statbuf (S_IFCHR OR 438) 0 0
      else bnd (proc_flat (fd_stat (unat fd))) (\<lambda>r.
           case r of
             Some (mode, sz, ino) \<Rightarrow> write_stat statbuf mode sz ino
           | None \<Rightarrow> ret (err EBADF)))"

definition AT_EMPTY_PATH :: u64 where "AT_EMPTY_PATH = 0x1000"

definition linux_newfstatat :: "u64 \<Rightarrow> u64 \<Rightarrow> u64 \<Rightarrow> u64 \<Rightarrow> u64 sop" where
  "linux_newfstatat dirfd pathname statbuf flags =
     (if flags AND AT_EMPTY_PATH \<noteq> 0 then linux_fstat dirfd statbuf
      else bnd (read_path pathname) (\<lambda>path.
           bnd (open_file path 0) (\<lambda>r.
           case r of
             Inr h \<Rightarrow>
               let st = vfs_stat h
               in bnd (\<lambda>s. case write_stat statbuf (file_mode st) (st_size st) (st_ino st) s of
                             None \<Rightarrow> None
                           | Some (Inl e, s') \<Rightarrow> bnd (drop_file h) (\<lambda>_. fail e) s'
                           | Some (Inr v, s') \<Rightarrow> bnd (drop_file h) (\<lambda>_. ret v) s') ret
           | Inl e \<Rightarrow> ret (vfs_err e))))"

text \<open>\<open>sys_write\<close> called from another handler: its value, however it returned.\<close>

definition call :: "u64 sop \<Rightarrow> u64 sop" where
  "call m st = do { (v, st') \<leftarrow> finish m st; Some (Inr v, st') }"

fun writev_loop :: "u64 \<Rightarrow> u64 \<Rightarrow> nat \<Rightarrow> u64 \<Rightarrow> u64 sop" where
  "writev_loop fd iov 0 tot = ret tot"
| "writev_loop fd iov (Suc n) tot =
     bnd (resolve_or (err EFAULT) iov 16) (\<lambda>ent.
     bnd (peek_u64 ent) (\<lambda>bs.
     bnd (peek_u64 (ent + 8)) (\<lambda>len.
     if len = 0 then writev_loop fd (iov + 16) n tot
     else bnd (call (linux_write fd bs len)) (\<lambda>v.
          if sint v < 0 then fail v else writev_loop fd (iov + 16) n (tot + v)))))"

definition linux_writev :: "u64 \<Rightarrow> u64 \<Rightarrow> u64 \<Rightarrow> u64 sop" where
  "linux_writev fd iov iovcnt = writev_loop fd iov (unat iovcnt) 0"

section \<open>Memory\<close>

text \<open>\<open>let Some(pml4) = current_process_cr3() else return e\<close>.\<close>

definition cr3_or :: "u64 \<Rightarrow> u64 sop" where
  "cr3_or e st = do {
     c \<leftarrow> current_process_cr3 (os_sched st);
     Some (case c of None \<Rightarrow> Inl e | Some pml4 \<Rightarrow> Inr pml4, st) }"

definition linux_brk :: "u64 \<Rightarrow> u64 sop" where
  "linux_brk addr = bnd (cr3_or 0) (\<lambda>pml4. proc_or 0 (brk pml4 addr))"

definition MAP_SHARED :: u64 where "MAP_SHARED = 0x01"
definition MAP_FIXED :: u64 where "MAP_FIXED = 0x10"
definition MAP_ANONYMOUS :: u64 where "MAP_ANONYMOUS = 0x20"
definition PROT_WRITE :: u64 where "PROT_WRITE = 2"
definition PROT_EXEC :: u64 where "PROT_EXEC = 4"

datatype mmap_fd_kind = MmapFile | MmapShm usize

definition fd_kind :: "usize \<Rightarrow> mmap_fd_kind option pop" where
  "fd_kind fd = (\<lambda>(p, k). Some (
     case fd_get fd p of
       Some (FdFile _) \<Rightarrow> Some MmapFile
     | Some (FdShm oid _) \<Rightarrow> Some (MmapShm oid)
     | _ \<Rightarrow> None, p, k))"

text \<open>The bytes of a file from an offset on; a vector of more than \<open>isize::MAX\<close> bytes panics.\<close>

definition fd_content :: "usize \<Rightarrow> u64 \<Rightarrow> u64 \<Rightarrow> u8 list option pop" where
  "fd_content fd offset len = (\<lambda>(p, k).
     case fd_get fd p of
       Some (FdFile h) \<Rightarrow> do {
         let (_, h1) = vfs_seek (SeekStart offset) h;
         if unat len \<ge> 2 ^ 63 then None
         else do {
           (bs, h2) \<leftarrow> vfs_read (unat len) h1;
           Some (Some bs, fd_set fd (FdFile h2) p, k) } }
     | _ \<Rightarrow> Some (None, p, k))"

definition linux_mmap :: "u64 \<Rightarrow> u64 \<Rightarrow> u64 \<Rightarrow> u64 \<Rightarrow> u64 \<Rightarrow> u64 \<Rightarrow> u64 sop" where
  "linux_mmap addr len prot flags fd offset =
     (if len = 0 then fail (err EINVAL)
      else bnd (cr3_or (err ENOMEM)) (\<lambda>pml4.
        let at = (if flags AND MAP_FIXED \<noteq> 0 then Some addr else None);
            w = (prot AND PROT_WRITE \<noteq> 0);
            x = (prot AND PROT_EXEC \<noteq> 0)
        in if flags AND MAP_ANONYMOUS \<noteq> 0 \<or> sint fd < 0 then proc_flat_or (err ENOMEM) (mmap_anon pml4 at len w x)
           else bnd (proc_flat (fd_kind (unat fd))) (\<lambda>kind.
             case kind of
               Some (MmapShm oid) \<Rightarrow>
                 if flags AND MAP_SHARED \<noteq> 0 then proc_flat_or (err ENOMEM) (mmap_shared pml4 at oid w x)
                 else ret (err EINVAL)
             | Some MmapFile \<Rightarrow>
                 bnd (proc_flat (fd_content (unat fd) offset len)) (\<lambda>content.
                 case content of
                   Some bytes \<Rightarrow> proc_flat_or (err ENOMEM) (mmap_file pml4 at len w x bytes)
                 | None \<Rightarrow> ret (err EBADF))
             | None \<Rightarrow> ret (err EBADF))))"

definition linux_munmap :: "u64 \<Rightarrow> u64 \<Rightarrow> u64 sop" where
  "linux_munmap addr len =
     bnd (cr3_or (err EINVAL)) (\<lambda>pml4.
     bnd (proc_or False (munmap pml4 addr len)) (\<lambda>b. ret (if b then 0 else err EINVAL)))"

definition linux_mprotect :: "u64 \<Rightarrow> u64 \<Rightarrow> u64 \<Rightarrow> u64 sop" where
  "linux_mprotect addr len prot =
     bnd (cr3_or (err EINVAL)) (\<lambda>pml4.
     bnd (proc_or False (mprotect pml4 addr len (prot AND PROT_WRITE \<noteq> 0) (prot AND PROT_EXEC \<noteq> 0))) (\<lambda>b.
     ret (if b then 0 else err EINVAL)))"

section \<open>Shared memory\<close>

definition linux_memfd_create :: "u64 sop" where
  "linux_memfd_create =
     bnd (on_kernel (\<lambda>k. let (oid, sh) = shm_create (k_shm k) in Some (oid, set_shm sh k))) (\<lambda>oid. fd_result (FdShm oid 0))"

definition fd_shm :: "usize \<Rightarrow> usize option pop" where
  "fd_shm fd = (\<lambda>(p, k). Some (case fd_get fd p of Some (FdShm oid _) \<Rightarrow> Some oid | _ \<Rightarrow> None, p, k))"

definition linux_ftruncate :: "u64 \<Rightarrow> u64 \<Rightarrow> u64 sop" where
  "linux_ftruncate fd len =
     bnd (proc_flat (fd_shm (unat fd))) (\<lambda>r.
     case r of
       Some oid \<Rightarrow>
         bnd (on_kernel (\<lambda>k. do { (b, sh) \<leftarrow> shm_truncate oid (unat len) (k_shm k); Some (b, set_shm sh k) })) (\<lambda>b.
         ret (if b then 0 else err ENOMEM))
     | None \<Rightarrow> ret (err EBADF))"

section \<open>Sockets\<close>

definition AF_UNIX :: u64 where "AF_UNIX = 1"
definition SOCK_STREAM :: u64 where "SOCK_STREAM = 1"
definition SOL_SOCKET :: u32 where "SOL_SOCKET = 1"
definition SCM_RIGHTS :: u32 where "SCM_RIGHTS = 1"

definition on_sock :: "(sock \<Rightarrow> ('a \<times> sock) exec) \<Rightarrow> 'a sop" where
  "on_sock f = on_kernel (\<lambda>k. do { (x, s) \<leftarrow> f (k_sock k); Some (x, k\<lparr>k_sock := s\<rparr>) })"

definition linux_socket :: "u64 \<Rightarrow> u64 \<Rightarrow> u64 sop" where
  "linux_socket domain ty =
     (if domain \<noteq> AF_UNIX \<or> ty AND 0xF \<noteq> SOCK_STREAM then fail (err EAFNOSUPPORT)
      else bnd (on_sock (\<lambda>s. Some (sock_create s))) (\<lambda>eid. fd_result (FdSocket eid)))"

text \<open>Socket paths are the characters of the bytes.\<close>

definition sock_path :: "u8 list \<Rightarrow> string" where
  "sock_path bs = map as_char bs"

definition read_sockaddr_un :: "u64 \<Rightarrow> u64 \<Rightarrow> string option sop" where
  "read_sockaddr_un addr addrlen =
     (let len = unat (min addrlen (2 + 108))
      in if len < 2 then ret None
         else bnd (resolve_user_buffer addr (of_nat len)) (\<lambda>r.
              case r of
                None \<Rightarrow> ret None
              | Some phys \<Rightarrow>
                  bnd (peek_bytes phys len) (\<lambda>bytes.
                  if of_nat (le_nat (take 2 bytes)) \<noteq> AF_UNIX then ret None
                  else ret (map_option sock_path (utf8_str (takeWhile (\<lambda>b. b \<noteq> 0) (drop 2 bytes)))))))"

definition fd_socket :: "usize \<Rightarrow> usize option pop" where
  "fd_socket fd = (\<lambda>(p, k). Some (case fd_get fd p of Some (FdSocket eid) \<Rightarrow> Some eid | _ \<Rightarrow> None, p, k))"

definition socket_or :: "u64 \<Rightarrow> u64 \<Rightarrow> usize sop" where
  "socket_or e fd = bnd (proc_flat (fd_socket (unat fd))) (\<lambda>r. case r of None \<Rightarrow> fail e | Some eid \<Rightarrow> ret eid)"

definition linux_connect :: "u64 \<Rightarrow> u64 \<Rightarrow> u64 \<Rightarrow> u64 sop" where
  "linux_connect fd addr addrlen =
     bnd (read_sockaddr_un addr addrlen) (\<lambda>r.
     case r of
       None \<Rightarrow> fail (err EINVAL)
     | Some path \<Rightarrow>
         bnd (socket_or (err EBADF) fd) (\<lambda>eid.
         bnd (on_sock (\<lambda>s. Some (sock_connect eid path s))) (\<lambda>b.
         ret (if b then 0 else err ECONNREFUSED))))"

text \<open>The first buffer of a message, and the descriptors in its control data: \<open>cmsg_len\<close> is read from the
  process.\<close>

definition msg_bytes :: "u64 \<Rightarrow> u64 \<Rightarrow> u8 list sop" where
  "msg_bytes iov_ptr iov_count =
     (if iov_count = 0 then ret []
      else bnd (resolve_user_buffer iov_ptr 16) (\<lambda>r.
           case r of
             None \<Rightarrow> ret []
           | Some iov_phys \<Rightarrow>
               bnd (peek_u64 iov_phys) (\<lambda>bs.
               bnd (peek_u64 (iov_phys + 8)) (\<lambda>blen.
               if blen = 0 then ret []
               else bnd (resolve_user_buffer bs blen) (\<lambda>d.
                    case d of None \<Rightarrow> ret [] | Some data_phys \<Rightarrow> peek_bytes data_phys (unat blen))))))"

fun msg_fds :: "u64 \<Rightarrow> nat \<Rightarrow> usize list sop" where
  "msg_fds at 0 = ret []"
| "msg_fds at (Suc n) =
     bnd (peek_u32 at) (\<lambda>client_fd.
     bnd (proc_flat (fd_shm (unat client_fd))) (\<lambda>r.
     bnd (msg_fds (at + 4) n) (\<lambda>ids.
     ret (case r of None \<Rightarrow> ids | Some oid \<Rightarrow> oid # ids))))"

definition msg_rights :: "u64 \<Rightarrow> u64 \<Rightarrow> usize list sop" where
  "msg_rights control_ptr control_len =
     (if control_len < 16 then ret []
      else bnd (resolve_user_buffer control_ptr control_len) (\<lambda>r.
           case r of
             None \<Rightarrow> ret []
           | Some ctrl_phys \<Rightarrow>
               bnd (peek_u64 ctrl_phys) (\<lambda>cmsg_len.
               bnd (peek_u32 (ctrl_phys + 8)) (\<lambda>cmsg_level.
               bnd (peek_u32 (ctrl_phys + 12)) (\<lambda>cmsg_type.
               if cmsg_level = SOL_SOCKET \<and> cmsg_type = SCM_RIGHTS \<and> cmsg_len > 16
               then msg_fds (ctrl_phys + 16) ((unat cmsg_len - 16) div 4)
               else ret [])))))"

definition linux_sendmsg :: "u64 \<Rightarrow> u64 \<Rightarrow> u64 sop" where
  "linux_sendmsg fd msg =
     bnd (resolve_or (err EFAULT) msg 56) (\<lambda>msg_phys.
     bnd (socket_or (err EBADF) fd) (\<lambda>eid.
     bnd (peek_u64 (msg_phys + 16)) (\<lambda>iov_ptr.
     bnd (peek_u64 (msg_phys + 24)) (\<lambda>iov_count.
     bnd (peek_u64 (msg_phys + 32)) (\<lambda>control_ptr.
     bnd (peek_u64 (msg_phys + 40)) (\<lambda>control_len.
     bnd (msg_bytes iov_ptr iov_count) (\<lambda>bytes.
     bnd (msg_rights control_ptr control_len) (\<lambda>shm_ids.
     bnd (on_sock (sock_send eid bytes shm_ids)) (\<lambda>r.
     ret (case r of Some n \<Rightarrow> of_nat n | None \<Rightarrow> err EPIPE))))))))))"

definition msg_buffer :: "u64 \<Rightarrow> u64 \<Rightarrow> (u64 option \<times> u64) sop" where
  "msg_buffer iov_ptr iov_count =
     (if iov_count = 0 then ret (None, 0)
      else bnd (resolve_user_buffer iov_ptr 16) (\<lambda>r.
           case r of
             None \<Rightarrow> ret (None, 0)
           | Some iov_phys \<Rightarrow>
               bnd (peek_u64 iov_phys) (\<lambda>bs.
               bnd (peek_u64 (iov_phys + 8)) (\<lambda>blen.
               bnd (resolve_user_buffer bs blen) (\<lambda>d. ret (d, blen))))))"

fun install_fds :: "u64 \<Rightarrow> usize list \<Rightarrow> unit sop" where
  "install_fds at [] = ret ()"
| "install_fds at (oid # ids) =
     bnd (proc_or 0 (new_fd (FdShm oid 0))) (\<lambda>fd.
     bnd (poke_u32 at (of_nat fd)) (\<lambda>_.
     install_fds (at + 4) ids))"

definition close_objects :: "usize list \<Rightarrow> unit sop" where
  "close_objects ids = on_kernel (\<lambda>k. do { k' \<leftarrow> close_all ids k; Some ((), k') })"

definition deliver_rights :: "u64 \<Rightarrow> u64 \<Rightarrow> usize list \<Rightarrow> u64 sop" where
  "deliver_rights control_ptr control_cap recv_fds =
     bnd (resolve_user_buffer control_ptr control_cap) (\<lambda>r.
     case (if recv_fds \<noteq> [] \<and> control_cap \<ge> 16 then r else None) of
       Some ctrl_phys \<Rightarrow>
         let max_fds = min ((unat control_cap - 16) div 4) (length recv_fds);
             cmsg_len = 16 + of_nat max_fds * 4
         in bnd (poke_u64 ctrl_phys cmsg_len) (\<lambda>_.
            bnd (poke_u32 (ctrl_phys + 8) SOL_SOCKET) (\<lambda>_.
            bnd (poke_u32 (ctrl_phys + 12) SCM_RIGHTS) (\<lambda>_.
            bnd (install_fds (ctrl_phys + 16) (take max_fds recv_fds)) (\<lambda>_.
            bnd (close_objects (drop max_fds recv_fds)) (\<lambda>_.
            ret cmsg_len)))))
     | None \<Rightarrow> bnd (close_objects recv_fds) (\<lambda>_. ret 0))"

definition linux_recvmsg :: "u64 \<Rightarrow> u64 \<Rightarrow> u64 sop" where
  "linux_recvmsg fd msg =
     bnd (resolve_or (err EFAULT) msg 56) (\<lambda>msg_phys.
     bnd (socket_or (err EBADF) fd) (\<lambda>eid.
     bnd (gets (\<lambda>st. has_data eid (k_sock (os_kern st)))) (\<lambda>has.
     if \<not> has then fail (err EAGAIN)
     else
       bnd (peek_u64 (msg_phys + 16)) (\<lambda>iov_ptr.
       bnd (peek_u64 (msg_phys + 24)) (\<lambda>iov_count.
       bnd (peek_u64 (msg_phys + 32)) (\<lambda>control_ptr.
       bnd (peek_u64 (msg_phys + 40)) (\<lambda>control_cap.
       bnd (msg_buffer iov_ptr iov_count) (\<lambda>(buf, blen).
       bnd (on_sock (\<lambda>s. Some (sock_recv eid (case buf of None \<Rightarrow> 0 | Some _ \<Rightarrow> unat blen) s))) (\<lambda>(bs, recv_fds).
       bnd (case buf of None \<Rightarrow> ret () | Some bp \<Rightarrow> poke_bytes bp bs) (\<lambda>_.
       bnd (deliver_rights control_ptr control_cap recv_fds) (\<lambda>controllen_used.
       bnd (poke_u64 (msg_phys + 40) controllen_used) (\<lambda>_.
       ret (of_nat (length bs))))))))))))))"

section \<open>Startup and information\<close>

definition ARCH_SET_FS :: u64 where "ARCH_SET_FS = 0x1002"

definition linux_arch_prctl :: "u64 \<Rightarrow> u64 \<Rightarrow> u64 sop" where
  "linux_arch_prctl code addr =
     (if code = ARCH_SET_FS then
        bnd (on_sk (\<lambda>(s, k). Some ((), s\<lparr>s_fs_base := addr\<rparr>, k))) (\<lambda>_.
        bnd (with_process (\<lambda>(p, k). Some ((), set_fs_base addr p, k))) (\<lambda>_.
        ret 0))
      else ret (err EINVAL))"

definition ascii :: "string \<Rightarrow> u8 list" where
  "ascii s = map of_char s"

definition UNAME_FIELD :: nat where "UNAME_FIELD = 65"

definition write_field :: "u64 \<Rightarrow> nat \<Rightarrow> string \<Rightarrow> unit sop" where
  "write_field phys i s =
     bnd (poke_bytes (phys + of_nat (UNAME_FIELD * i)) (replicate UNAME_FIELD 0)) (\<lambda>_.
     poke_bytes (phys + of_nat (UNAME_FIELD * i)) (ascii s))"

definition linux_uname :: "u64 \<Rightarrow> u64 sop" where
  "linux_uname buf =
     bnd (resolve_or (err EFAULT) buf (of_nat (UNAME_FIELD * 6))) (\<lambda>phys.
     bnd (write_field phys 0 ''Linux'') (\<lambda>_.
     bnd (write_field phys 1 ''machaos'') (\<lambda>_.
     bnd (write_field phys 2 ''6.1.0-machaos'') (\<lambda>_.
     bnd (write_field phys 3 ''#1 SMP'') (\<lambda>_.
     bnd (write_field phys 4 ''x86_64'') (\<lambda>_.
     bnd (write_field phys 5 []) (\<lambda>_.
     ret 0)))))))"

fun random_from :: "u64 \<Rightarrow> nat \<Rightarrow> nat \<Rightarrow> u8 list" where
  "random_from seed i 0 = []"
| "random_from seed i (Suc n) =
     (let s = seed * 0x9E3779B97F4A7C15 + of_nat i in ucast (drop_bit 33 s) # random_from s (Suc i) n)"

definition linux_getrandom :: "u64 \<Rightarrow> u64 \<Rightarrow> u64 sop" where
  "linux_getrandom buf buflen =
     bnd (resolve_or (err EFAULT) buf buflen) (\<lambda>phys.
     bnd (gets os_ticks) (\<lambda>ticks.
     bnd (poke_bytes phys (random_from (ticks XOR buf) 0 (unat buflen))) (\<lambda>_.
     ret buflen)))"

definition linux_clock_gettime :: "u64 \<Rightarrow> u64 sop" where
  "linux_clock_gettime ts =
     bnd (resolve_or (err EFAULT) ts 16) (\<lambda>phys.
     bnd (gets os_ticks) (\<lambda>ticks.
     bnd (poke_u64 phys (ticks div 100)) (\<lambda>_.
     bnd (poke_u64 (phys + 8) (ticks mod 100 * 10000000)) (\<lambda>_.
     ret 0))))"

definition FUTEX_WAIT :: u64 where "FUTEX_WAIT = 0"
definition FUTEX_WAKE :: u64 where "FUTEX_WAKE = 1"
definition FUTEX_CMD_MASK :: u64 where "FUTEX_CMD_MASK = NOT 128"

definition linux_futex :: "u64 \<Rightarrow> u64 \<Rightarrow> u64 \<Rightarrow> u64 sop" where
  "linux_futex uaddr futex_op val =
     (if futex_op AND FUTEX_CMD_MASK = FUTEX_WAIT then
        bnd (resolve_or (err EFAULT) uaddr 4) (\<lambda>phys.
        bnd (peek_u32 phys) (\<lambda>current.
        ret (if (ucast current :: u64) = val AND 0xFFFFFFFF then 0 else err EAGAIN)))
      else if futex_op AND FUTEX_CMD_MASK = FUTEX_WAKE then ret 0
      else ret (err ENOSYS))"

definition linux_rseq :: "u64 sop" where
  "linux_rseq = ret (err EINVAL)"

definition RLIM_INFINITY :: u64 where "RLIM_INFINITY = - 1"

definition linux_prlimit64 :: "u64 \<Rightarrow> u64 sop" where
  "linux_prlimit64 old_limit =
     (if old_limit = 0 then ret 0
      else bnd (resolve_or (err EFAULT) old_limit 16) (\<lambda>phys.
           bnd (poke_u64 phys RLIM_INFINITY) (\<lambda>_.
           bnd (poke_u64 (phys + 8) RLIM_INFINITY) (\<lambda>_.
           ret 0))))"

definition linux_sched_getaffinity :: "u64 \<Rightarrow> u64 \<Rightarrow> u64 sop" where
  "linux_sched_getaffinity cpusetsize mask_ptr =
     bnd (resolve_or (err EFAULT) mask_ptr cpusetsize) (\<lambda>phys.
     bnd (poke_bytes phys (replicate (unat cpusetsize) 0)) (\<lambda>_.
     bnd (if cpusetsize \<ge> 1 then poke_bytes phys [1] else ret ()) (\<lambda>_.
     ret (min cpusetsize 8))))"

definition SYSINFO_SIZE :: u64 where "SYSINFO_SIZE = 112"

definition linux_sysinfo :: "u64 \<Rightarrow> u64 sop" where
  "linux_sysinfo info_ptr =
     bnd (resolve_or (err EFAULT) info_ptr SYSINFO_SIZE) (\<lambda>phys.
     bnd (poke_bytes phys (replicate (unat SYSINFO_SIZE) 0)) (\<lambda>_.
     bnd (gets os_ticks) (\<lambda>ticks.
     bnd (poke_u64 phys (ticks div 100)) (\<lambda>_.
     bnd (gets (\<lambda>st. total_frames (k_pmm (os_kern st)) * FRAME_SIZE)) (\<lambda>tot.
     bnd (panics (\<lambda>st. do { n \<leftarrow> free_frames (k_pmm (os_kern st)); Some (n * FRAME_SIZE) })) (\<lambda>fr.
     bnd (poke_u64 (phys + 32) (of_nat tot)) (\<lambda>_.
     bnd (poke_u64 (phys + 40) (of_nat fr)) (\<lambda>_.
     bnd (poke_u32 (phys + 104) 1) (\<lambda>_.
     ret 0)))))))))"

section \<open>Dispatch\<close>

definition getpid :: "u64 sop" where
  "getpid = gets (\<lambda>st. of_nat (current_pid (os_sched st)))"

definition unknown_syscall :: "u64 \<Rightarrow> u64 sop" where
  "unknown_syscall num = bnd (print (ascii (''[UNKSYSCALL] num='' @ nat_str (unat num)) @ [10])) (\<lambda>_. ret (err ENOSYS))"

definition linux_dispatch :: "u64 \<Rightarrow> u64 \<Rightarrow> u64 \<Rightarrow> u64 \<Rightarrow> u64 \<Rightarrow> u64 \<Rightarrow> u64 \<Rightarrow> u64 sop" where
  "linux_dispatch num arg1 arg2 arg3 arg4 arg5 arg6 =
     (if num = LINUX_SYS_READ then linux_read arg1 arg2 arg3
      else if num = LINUX_SYS_WRITE then linux_write arg1 arg2 arg3
      else if num = LINUX_SYS_CLOSE then linux_close arg1
      else if num = LINUX_SYS_FSTAT then linux_fstat arg1 arg2
      else if num = LINUX_SYS_LSEEK then linux_lseek arg1 arg2 arg3
      else if num = LINUX_SYS_ACCESS then linux_access arg1
      else if num = LINUX_SYS_PREAD64 then linux_pread64 arg1 arg2 arg3 arg4
      else if num = LINUX_SYS_MMAP then linux_mmap arg1 arg2 arg3 arg4 arg5 arg6
      else if num = LINUX_SYS_MPROTECT then linux_mprotect arg1 arg2 arg3
      else if num = LINUX_SYS_MUNMAP then linux_munmap arg1 arg2
      else if num = LINUX_SYS_BRK then linux_brk arg1
      else if num = LINUX_SYS_RT_SIGACTION then ret 0
      else if num = LINUX_SYS_RT_SIGPROCMASK then ret 0
      else if num = LINUX_SYS_IOCTL then ret (err ENOTTY)
      else if num = LINUX_SYS_WRITEV then linux_writev arg1 arg2 arg3
      else if num = LINUX_SYS_GETPID then getpid
      else if num = LINUX_SYS_UNAME then linux_uname arg1
      else if num = LINUX_SYS_ARCH_PRCTL then linux_arch_prctl arg1 arg2
      else if num = LINUX_SYS_SET_TID_ADDRESS then getpid
      else if num = LINUX_SYS_CLOCK_GETTIME then linux_clock_gettime arg2
      else if num = LINUX_SYS_OPENAT then linux_openat arg2 arg3
      else if num = LINUX_SYS_NEWFSTATAT then linux_newfstatat arg1 arg2 arg3 arg4
      else if num = LINUX_SYS_SET_ROBUST_LIST then ret 0
      else if num = LINUX_SYS_GETRANDOM then linux_getrandom arg1 arg2
      else if num = LINUX_SYS_FUTEX then linux_futex arg1 arg2 arg3
      else if num = LINUX_SYS_RSEQ then linux_rseq
      else if num = LINUX_SYS_PRLIMIT64 then linux_prlimit64 arg4
      else if num = LINUX_SYS_SCHED_GETAFFINITY then linux_sched_getaffinity arg2 arg3
      else if num = LINUX_SYS_SYSINFO then linux_sysinfo arg1
      else if num = LINUX_SYS_MEMFD_CREATE then linux_memfd_create
      else if num = LINUX_SYS_FTRUNCATE then linux_ftruncate arg1 arg2
      else if num = LINUX_SYS_SOCKET then linux_socket arg1 arg2
      else if num = LINUX_SYS_CONNECT then linux_connect arg1 arg2 arg3
      else if num = LINUX_SYS_SENDMSG then linux_sendmsg arg1 arg2
      else if num = LINUX_SYS_RECVMSG then linux_recvmsg arg1 arg2
      else unknown_syscall num)"

text \<open>\<open>syscall::syscall_dispatch\<close>: the table of the calling process.\<close>

definition syscall_dispatch :: "u64 \<Rightarrow> u64 \<Rightarrow> u64 \<Rightarrow> u64 \<Rightarrow> u64 \<Rightarrow> u64 \<Rightarrow> u64 \<Rightarrow> os \<Rightarrow> (u64 \<times> os) exec" where
  "syscall_dispatch num arg1 arg2 arg3 arg4 arg5 arg6 =
     finish (bnd (panics (\<lambda>st. current_process_abi (os_sched st))) (\<lambda>ab.
       if ab = Some AbiLinux then linux_dispatch num arg1 arg2 arg3 arg4 arg5 arg6
       else native_dispatch num arg1 arg2 arg3))"

end
