(* ===== verification/Syscall_Safety.thy ===== *)
theory Syscall_Safety
  imports Linux_Abi
begin

text \<open>
  System calls and the isolation of processes: whatever number and arguments a process passes, the kernel
  reads and writes on its behalf only memory of that process, of shared memory objects and free frames;
  every process stays in good order.
\<close>

section \<open>The pool of a process\<close>

text \<open>The frames a call of \<open>p\<close> may use: its own, those of shared objects, and free ones.\<close>

definition pool :: "process \<Rightarrow> kern \<Rightarrow> nat set" where
  "pool p k = avail (k_pmm k) \<union> owned (k_shm k) \<union> own p"

definition moves :: "process \<times> kern \<Rightarrow> process \<times> kern \<Rightarrow> bool" where
  "moves st st' \<longleftrightarrow> (case (st, st') of ((p, k), (p', k')) \<Rightarrow> pool p' k' = pool p k \<and> pmm_managed (k_pmm k') = pmm_managed (k_pmm k)
     \<and> (\<forall>b. b div 4096 \<notin> pool p k \<longrightarrow> k_pt k' b = k_pt k b \<and> k_mem k' b = k_mem k b))"

definition good :: "u64 \<Rightarrow> process \<times> kern \<Rightarrow> bool" where
  "good pml4 st \<longleftrightarrow> (case st of (p, k) \<Rightarrow> vm_ok pml4 p k \<and> stack_ok p \<and> shm_inv (k_shm k) \<and> owned (k_shm k) \<inter> own p = {})"

lemma moves_refl [simp]: "moves st st"
  by (simp add: moves_def split: prod.split)

lemma moves_trans: "moves a b \<Longrightarrow> moves b c \<Longrightarrow> moves a c"
  by (auto simp: moves_def split: prod.splits)

lemma goodD:
  assumes "good pml4 (p, k)"
  shows "vm_ok pml4 p k" "stack_ok p" "shm_inv (k_shm k)" "owned (k_shm k) \<inter> own p = {}"
  using assms by (simp_all add: good_def)

lemma owned_busy: "shm_inv s \<Longrightarrow> owned s \<inter> avail (sh_pmm s) = {} \<and> owned s \<subseteq> pmm_managed (sh_pmm s)"
  unfolding shm_inv_def owned_def obj_ok_def ran_def by blast

text \<open>Steps of the process on its private memory.\<close>

lemma evolve_good:
  assumes g: "good pml4 (p, k)" and v: "vm_ok pml4 p' k'" "stack_ok p'" and e: "evolves p k p' k'"
  shows "good pml4 (p', k')" "moves (p, k) (p', k')"
proof -
  note G = goodD [OF g]
  have E: "avail (k_pmm k') \<union> own p' = avail (k_pmm k) \<union> own p" "pmm_managed (k_pmm k') = pmm_managed (k_pmm k)"
      "sh_table (k_shm k') = sh_table (k_shm k)" using e by (simp_all add: evolves_def)
  have o: "owned (k_shm k') = owned (k_shm k)" using E(3) by (simp add: owned_def)
  have dis: "owned (k_shm k) \<inter> (avail (k_pmm k') \<union> own p') = {}" using G(4) owned_busy [OF G(3)] unfolding E(1) by blast
  have "obj_ok (k_pmm k') obj" if "slot (sh_table (k_shm k)) i = Some obj" for i obj
  proof -
    have "backing obj \<subseteq> owned (k_shm k)" using that by (auto simp: owned_def ran_def)
    then show ?thesis using shm_obj_ok [OF G(3) that] dis E(2) unfolding obj_ok_def by blast
  qed
  then have "shm_inv (k_shm k')" using G(3) E(3) vm_frames(1) [OF v(1)] unfolding shm_inv_def by simp
  then show "good pml4 (p', k')" using v dis o by (auto simp: good_def)
  show "moves (p, k) (p', k')" using e E(1) o unfolding moves_def evolves_def pool_def by auto
qed

lemma keeps_good:
  assumes "good pml4 (p, k)" "keeps pml4 (p, k) (f (p, k))" "f (p, k) = Some (x, p', k')"
  shows "good pml4 (p', k')" "moves (p, k) (p', k')"
  using evolve_good [OF assms(1)] assms(2,3) by (auto simp: keeps_def)

text \<open>Changes of fields that memory does not depend on.\<close>

lemma vm_ok_cong:
  assumes "vm_ok pml4 p k" "p_frames p' = p_frames p" "p_mappings p' = p_mappings p" "p_stack_phys_base p' = p_stack_phys_base p"
      "k_pt k' = k_pt k" "k_pmm k' = k_pmm k"
  shows "vm_ok pml4 p' k'"
proof -
  have o: "own p' = own p" "stack_map p' = stack_map p" "mmu_of k' = mmu_of k"
    using assms(2,4-6) by (simp_all add: own_def stack_map_def mmu_of_def)
  show ?thesis using assms(1) unfolding vm_ok_def frames_ok_def maps_ok_def pages_ok_def loose_def o assms(2-6) .
qed

definition same_mem :: "process \<times> kern \<Rightarrow> process \<times> kern \<Rightarrow> bool" where
  "same_mem st st' \<longleftrightarrow> (case (st, st') of ((p, k), (p', k')) \<Rightarrow>
     p_frames p' = p_frames p \<and> p_mappings p' = p_mappings p \<and> p_stack_phys_base p' = p_stack_phys_base p
     \<and> p_stack_low p' = p_stack_low p \<and> k_pt k' = k_pt k)"

lemma same_mem_good:
  assumes g: "good pml4 (p, k)" and s: "same_mem (p, k) (p', k')" and sh: "k_shm k' = k_shm k"
  shows "good pml4 (p', k')" "moves (p, k) (p', k')" "own p' = own p"
proof -
  have S: "p_frames p' = p_frames p" "p_mappings p' = p_mappings p" "p_stack_phys_base p' = p_stack_phys_base p"
      "p_stack_low p' = p_stack_low p" "k_pt k' = k_pt k" using s by (simp_all add: same_mem_def)
  show o: "own p' = own p" by (simp add: own_def S(1))
  have "vm_ok pml4 p' k'" by (rule vm_ok_cong [OF goodD(1) [OF g] S(1-3,5)]) (simp add: sh)
  moreover have "stack_ok p'" using goodD(2) [OF g] by (simp add: stack_ok_def stack_map_def S)
  ultimately show "good pml4 (p', k')" using goodD(3,4) [OF g] by (simp add: good_def sh o)
  show "moves (p, k) (p', k')" by (simp add: moves_def pool_def sh o S(5))
qed

text \<open>Changes of the shared memory objects: frames move between them and the free ones.\<close>

lemma vm_ok_avail:
  assumes v: "vm_ok pml4 p k" and q: "pmm_inv (k_pmm k')" "pmm_managed (k_pmm k') = pmm_managed (k_pmm k)"
      "avail (k_pmm k') \<inter> own p = {}" "k_pt k' = k_pt k"
  shows "vm_ok pml4 p k'"
proof -
  note F = vm_frames [OF v]
  have "avail (k_pmm k') \<inter> tbl_frames (k_pt k) (unat pml4) = {}" using q(3) F(5) by blast
  note T = tables_agree(1) [where m' = "k_pt k", OF F(2) refl this]
  have sm: "small_at (unat pml4) (mmu_of k') = small_at (unat pml4) (mmu_of k)" by (rule small_at_pt) (simp add: q(4))
  have "frames_ok pml4 p k'" using v T q unfolding vm_ok_def frames_ok_def pt_state_def mmu_of_sel by auto
  moreover have "maps_ok pml4 p k'" using v unfolding vm_ok_def maps_ok_def sm q(4) by blast
  moreover have "pages_ok pml4 p k'" using v unfolding vm_ok_def pages_ok_def loose_def sm q(4) by blast
  ultimately show ?thesis by (simp add: vm_ok_def)
qed

lemma shm_good:
  assumes g: "good pml4 (p, k)" and s: "shm_keeps (k_shm k) sh" "\<And>b. b div 4096 \<notin> avail (k_pmm k) \<union> owned (k_shm k) \<Longrightarrow> sh_mem sh b = k_mem k b"
  shows "good pml4 (p, set_shm sh k)" "moves (p, k) (p, set_shm sh k)"
proof -
  note G = goodD [OF g]
  have K: "shm_inv sh" "avail (sh_pmm sh) \<union> owned sh = avail (k_pmm k) \<union> owned (k_shm k)" "pmm_managed (sh_pmm sh) = pmm_managed (k_pmm k)"
    using s(1) by (simp_all add: shm_keeps_def)
  have "avail (k_pmm k) \<inter> own p = {}" using vm_frames(4) [OF G(1)] by blast
  then have d: "avail (sh_pmm sh) \<inter> own p = {}" "owned sh \<inter> own p = {}" using K(2) G(4) by blast+
  have "vm_ok pml4 p (set_shm sh k)"
    by (rule vm_ok_avail [OF G(1)]) (use K(1,3) d in \<open>auto simp: set_shm_def shm_inv_def\<close>)
  then show "good pml4 (p, set_shm sh k)" using G(2) K(1) d by (simp add: good_def set_shm_def)
  show "moves (p, k) (p, set_shm sh k)" using s(2) K(2,3) by (auto simp: moves_def pool_def set_shm_def)
qed

text \<open>Writes into the process's own memory.\<close>

definition region :: "nat set \<Rightarrow> u64 \<times> nat \<Rightarrow> bool" where
  "region F r \<longleftrightarrow> (case r of (a, n) \<Rightarrow> unat a + n \<le> 2 ^ 32 \<and> (\<forall>b. unat a \<le> b \<longrightarrow> b < unat a + n \<longrightarrow> b div 4096 \<in> F))"

lemma region_sub:
  assumes "region F (a, n)" "i + m \<le> n"
  shows "region F (a + of_nat i, m)"
proof -
  have "unat (a + of_nat i) = unat a + i" using assms by (simp add: region_def unat_word_ariths unat_of_nat)
  then show ?thesis using assms by (simp add: region_def)
qed

lemma region_mono: "region F r \<Longrightarrow> F \<subseteq> G \<Longrightarrow> region G r"
  by (auto simp: region_def)

lemma poke_good:
  assumes g: "good pml4 (p, k)" and r: "region (own p) (a, n)" "length bs \<le> n"
  shows "good pml4 (p, upd_mem (put_bytes (unat a) bs) k)" "moves (p, k) (p, upd_mem (put_bytes (unat a) bs) k)"
proof -
  have "put_bytes (unat a) bs m b = m b" if "b div 4096 \<notin> own p" for m b
    using that r by (auto simp: put_bytes_def region_def)
  note K = fill_keep [where g = "put_bytes (unat a) bs", OF goodD(1) [OF g] this]
  show "good pml4 (p, upd_mem (put_bytes (unat a) bs) k)" "moves (p, k) (p, upd_mem (put_bytes (unat a) bs) k)"
    using evolve_good [OF g K(1) goodD(2) [OF g] K(2)] by simp_all
qed

section \<open>Operations on shared objects\<close>

definition refs_small :: "shm \<Rightarrow> bool" where
  "refs_small s \<longleftrightarrow> (\<forall>i obj. slot (sh_table s) i = Some obj \<longrightarrow> sm_refcount obj < 2 ^ 63)"

definition shm_step :: "shm \<Rightarrow> shm \<Rightarrow> bool" where
  "shm_step s s' \<longleftrightarrow> shm_keeps s s' \<and> (refs_small s \<longrightarrow> refs_small s')
     \<and> (\<forall>b. b div 4096 \<notin> avail (sh_pmm s) \<union> owned s \<longrightarrow> sh_mem s' b = sh_mem s b)"

lemma shm_step_refl: "shm_inv s \<Longrightarrow> shm_step s s"
  by (simp add: shm_step_def shm_keeps_refl)

lemma shm_step_trans: "shm_step a b \<Longrightarrow> shm_step b c \<Longrightarrow> shm_step a c"
  unfolding shm_step_def shm_keeps_def by auto

lemma shm_create_step: "shm_inv s \<Longrightarrow> shm_create s = (i, s') \<Longrightarrow> shm_step s s'"
proof -
  assume a: "shm_inv s" "shm_create s = (i, s')"
  have "sh_mem s' = sh_mem s" using a(2) by (auto simp: shm_create_def split: prod.splits)
  moreover have "refs_small s \<longrightarrow> refs_small s'" using shm_create_keeps(3) [OF a] by (auto simp: refs_small_def)
  ultimately show ?thesis using shm_create_keeps(1) [OF a] by (simp add: shm_step_def)
qed

lemma shm_close_step:
  assumes inv: "shm_inv s" and c: "shm_close i s = Some s'"
  shows "shm_step s s'"
proof -
  have "sh_mem s' = sh_mem s" using c by (auto simp: shm_close_def Let_def split: option.splits if_splits bind_splits)
  moreover have "refs_small s'" if r: "refs_small s"
  proof (cases "slot (sh_table s) i")
    case None
    then show ?thesis using c r by (simp add: shm_close_def)
  next
    case (Some obj)
    have ok: "0 < sm_refcount obj" "sm_refcount obj < 2 ^ 63" using shm_obj_ok [OF inv Some] r Some by (auto simp: obj_ok_def refs_small_def)
    then have w: "wsub (sm_refcount obj) 1 < 2 ^ 63" by (simp add: wsub_small)
    have "slot (sh_table s') j = slot (sh_table s) j" if "j \<noteq> i" for j
      using c Some that by (auto simp: shm_close_def Let_def slot_def split: if_splits bind_splits)
    moreover have "slot (sh_table s') i = None \<or> slot (sh_table s') i = Some (obj\<lparr>sm_refcount := wsub (sm_refcount obj) 1\<rparr>)"
      using c Some by (auto simp: shm_close_def Let_def slot_def split: if_splits bind_splits)
    ultimately show ?thesis using r w unfolding refs_small_def by (metis option.distinct(1) option.inject shared_mem.select_convs(4) shared_mem.surjective shared_mem.update_convs(4))
  qed
  ultimately show ?thesis using shm_close_keeps [OF inv, of i] c by (simp add: shm_step_def)
qed

lemma close_list_step:
  assumes "shm_inv s" "for_each shm_close ids s = Some s'"
  shows "shm_step s s'"
  using assms
proof (induction ids arbitrary: s)
  case (Cons i ids)
  then obtain s1 where s1: "shm_close i s = Some s1" "for_each shm_close ids s1 = Some s'" by (auto split: bind_splits)
  have st: "shm_step s s1" by (rule shm_close_step [OF Cons.prems(1) s1(1)])
  then have "shm_inv s1" by (simp add: shm_step_def shm_keeps_def)
  then show ?case using Cons.IH [OF _ s1(2)] shm_step_trans [OF st] by blast
qed (simp add: shm_step_refl)

lemma shm_truncate_step:
  assumes inv: "shm_inv s" and t: "shm_truncate i n s = Some (b, s')"
  shows "shm_step s s'"
proof (cases "slot (sh_table s) i")
  case None
  then show ?thesis using inv t by (auto simp: shm_truncate_def shm_step_refl)
next
  case (Some obj)
  let ?n = "max (div_ceil n FRAME_SIZE) 1"
  have i: "i < length (sh_table s)" using Some by (rule slot_bound)
  have up: "slot ((sh_table s)[i := Some o']) = (slot (sh_table s))(i \<mapsto> o')" for o' using i by auto
  have k: "shm_keeps s s'" using shm_truncate_keeps [OF inv, of i n] t by simp
  have refs: "refs_small s \<longrightarrow> refs_small s'" if "slot (sh_table s') = (slot (sh_table s))(i \<mapsto> obj')" "sm_refcount obj' = sm_refcount obj" for obj'
    using that Some by (auto simp: refs_small_def)
  show ?thesis
  proof (cases "n \<le> sm_size obj \<or> ?n \<le> sm_pages obj")
    case True
    then have "s' = s\<lparr>sh_table := (sh_table s)[i := Some (obj\<lparr>sm_size := n\<rparr>)]\<rparr>" using t Some unfolding shm_truncate_def Let_def by (simp split: if_splits)
    then show ?thesis using k refs [of "obj\<lparr>sm_size := n\<rparr>"] by (simp add: shm_step_def up)
  next
    case False
    then have big: "sm_size obj < n" "sm_pages obj < ?n" by auto
    from shm_grow [OF inv Some big refl] show ?thesis
    proof (elim disjE conjE exE)
      assume "shm_truncate i n s = Some (False, s)"
      then show ?thesis using t inv by (simp add: shm_step_refl)
    next
      fix f p
      assume e: "shm_truncate i n s = Some (True, s\<lparr>sh_table := (sh_table s)[i := Some (obj\<lparr>sm_phys := f * FRAME_SIZE, sm_pages := ?n, sm_size := n\<rparr>)],
          sh_pmm := p, sh_mem := copy_nonoverlapping (sm_phys obj) (f * FRAME_SIZE) (sm_pages obj * FRAME_SIZE)
                                    (write_bytes (f * FRAME_SIZE) 0 (?n * FRAME_SIZE) (sh_mem s))\<rparr>)"
        and f: "{f..<f + ?n} \<subseteq> avail (sh_pmm s)"
      have "sh_mem s' x = sh_mem s x" if "x div 4096 \<notin> avail (sh_pmm s) \<union> owned s" for x
      proof -
        have "\<not> (f * FRAME_SIZE \<le> x \<and> x < f * FRAME_SIZE + ?n * FRAME_SIZE)"
          using run_byte [of f x ?n] f that by (auto simp: FRAME_SIZE_def)
        moreover have "sm_pages obj * FRAME_SIZE \<le> ?n * FRAME_SIZE" using big(2) by simp
        ultimately have o: "\<not> (f * FRAME_SIZE \<le> x \<and> x < f * FRAME_SIZE + ?n * FRAME_SIZE)"
            "\<not> (f * FRAME_SIZE \<le> x \<and> x < f * FRAME_SIZE + sm_pages obj * FRAME_SIZE)" by linarith+
        have "sh_mem s' = copy_nonoverlapping (sm_phys obj) (f * FRAME_SIZE) (sm_pages obj * FRAME_SIZE)
                                    (write_bytes (f * FRAME_SIZE) 0 (?n * FRAME_SIZE) (sh_mem s))" using e t by simp
        then show ?thesis using o by (simp only: copy_nonoverlapping_def write_bytes_def if_False)
      qed
      moreover have "refs_small s \<longrightarrow> refs_small s'"
        by (rule refs [of "obj\<lparr>sm_phys := f * FRAME_SIZE, sm_pages := ?n, sm_size := n\<rparr>"]) (use e t up in auto)
      ultimately show ?thesis using k by (simp add: shm_step_def)
    qed
  qed
qed

lemma dup_list_keeps:
  assumes "shm_inv s" "\<And>i obj. slot (sh_table s) i = Some obj \<Longrightarrow> sm_refcount obj + length ids < 2 ^ 64"
  shows "shm_keeps s (fold shm_dup ids s) \<and> sh_mem (fold shm_dup ids s) = sh_mem s"
  using assms
proof (induction ids arbitrary: s)
  case (Cons i ids)
  have d: "shm_keeps s (shm_dup i s)" by (rule shm_dup_keeps [OF Cons.prems(1)]) (use Cons.prems(2) in force)
  have m: "sh_mem (shm_dup i s) = sh_mem s" by (simp add: shm_dup_def split: option.split)
  have "sm_refcount obj + length ids < 2 ^ 64" if "slot (sh_table (shm_dup i s)) j = Some obj" for j obj
  proof (cases "slot (sh_table s) i")
    case None
    then show ?thesis using that Cons.prems(2) [of j obj] by (simp add: shm_dup_def)
  next
    case (Some o')
    have "sm_refcount o' + 1 < 2 ^ 64" using Cons.prems(2) [OF Some] by simp
    moreover have "slot ((sh_table s)[i := Some x]) = (slot (sh_table s))(i \<mapsto> x)" for x using slot_bound [OF Some] by auto
    ultimately show ?thesis using that Cons.prems(2) [of j obj] Cons.prems(2) [OF Some] Some
      by (auto simp: shm_dup_def wadd_small split: if_splits)
  qed
  moreover have "shm_inv (shm_dup i s)" using d by (simp add: shm_keeps_def)
  ultimately show ?case using Cons.IH [of "shm_dup i s"] shm_keeps_trans [OF d] m by simp
qed (simp add: shm_keeps_refl)

section \<open>The calling process in the machine\<close>

abbreviation tasks_of :: "os \<Rightarrow> task list" where "tasks_of st \<equiv> s_tasks (os_sched st)"
abbreviation cur_of :: "os \<Rightarrow> usize" where "cur_of st \<equiv> s_current (os_sched st)"

definition runs_as :: "os \<Rightarrow> u64 \<Rightarrow> process \<Rightarrow> bool" where
  "runs_as st pml4 p \<longleftrightarrow> cur_of st < length (tasks_of st) \<and> t_cr3 (tasks_of st ! cur_of st) = pml4
     \<and> t_process (tasks_of st ! cur_of st) = Some p"

text \<open>A task up to the message waiting for it.\<close>

definition quiet :: "task \<Rightarrow> task" where
  "quiet t = t\<lparr>t_process := map_option (\<lambda>p. p\<lparr>p_inbox := None\<rparr>) (t_process t)\<rparr>"

definition bystanders :: "os \<Rightarrow> os \<Rightarrow> bool" where
  "bystanders st0 st \<longleftrightarrow> cur_of st = cur_of st0 \<and> length (tasks_of st) = length (tasks_of st0)
     \<and> (\<forall>j < length (tasks_of st0). j \<noteq> cur_of st0 \<longrightarrow> quiet (tasks_of st ! j) = quiet (tasks_of st0 ! j))"

text \<open>The calling process is in good order, owns the regions \<open>A\<close>, and since \<open>st0\<close> only its pool changed.\<close>

definition intact :: "os \<Rightarrow> (u64 \<times> nat) set \<Rightarrow> os \<Rightarrow> bool" where
  "intact st0 A st \<longleftrightarrow> bystanders st0 st \<and> refs_small (k_shm (os_kern st))
     \<and> (\<exists>pml4 p0 p. runs_as st0 pml4 p0 \<and> runs_as st pml4 p \<and> good pml4 (p, os_kern st)
          \<and> moves (p0, os_kern st0) (p, os_kern st) \<and> (\<forall>r \<in> A. region (own p) r))"

definition fin :: "os \<Rightarrow> os \<Rightarrow> bool" where
  "fin st0 st \<longleftrightarrow> bystanders st0 st
     \<and> (\<exists>pml4 p0 p. runs_as st0 pml4 p0 \<and> runs_as st pml4 p \<and> good pml4 (p, os_kern st) \<and> moves (p0, os_kern st0) (p, os_kern st))"

lemma intact_fin: "intact st0 A st \<Longrightarrow> fin st0 st"
  by (auto simp: intact_def fin_def)

lemma intact_mono: "intact st0 A st \<Longrightarrow> B \<subseteq> A \<Longrightarrow> intact st0 B st"
  unfolding intact_def by (meson subsetD)

text \<open>The operation keeps the invariant; a value \<open>x\<close> comes with the regions \<open>B x\<close>.\<close>

definition kp :: "os \<Rightarrow> (u64 \<times> nat) set \<Rightarrow> 'a sop \<Rightarrow> ('a \<Rightarrow> (u64 \<times> nat) set) \<Rightarrow> bool" where
  "kp st0 A m B \<longleftrightarrow> (\<forall>st r st'. intact st0 A st \<longrightarrow> m st = Some (r, st') \<longrightarrow> outcome (intact st0 {}) (\<lambda>x. intact st0 (B x)) r st')"

lemma kpD: "kp st0 A m B \<Longrightarrow> intact st0 A st \<Longrightarrow> m st = Some (r, st') \<Longrightarrow> outcome (intact st0 {}) (\<lambda>x. intact st0 (B x)) r st'"
  by (auto simp: kp_def)

lemma kpI: "(\<And>st r st'. intact st0 A st \<Longrightarrow> m st = Some (r, st') \<Longrightarrow> outcome (intact st0 {}) (\<lambda>x. intact st0 (B x)) r st') \<Longrightarrow> kp st0 A m B"
  by (auto simp: kp_def)

named_theorems kp_rules

lemma kp_bnd [kp_rules]: "kp st0 A m B \<Longrightarrow> (\<And>x. kp st0 (B x) (f x) C) \<Longrightarrow> kp st0 A (bnd m f) C"
proof (rule kpI)
  fix st r st' assume a: "kp st0 A m B" "\<And>x. kp st0 (B x) (f x) C" "intact st0 A st" "bnd m f st = Some (r, st')"
  obtain r1 st1 where r1: "m st = Some (r1, st1)" using a(4) by (cases "m st") (auto simp: bnd_def)
  from kpD [OF a(1,3) r1] show "outcome (intact st0 {}) (\<lambda>x. intact st0 (C x)) r st'"
    using a(4) r1 kpD [OF a(2)] by (cases r1) (auto simp: bnd_def)
qed

lemma kp_ret: "B x \<subseteq> A \<Longrightarrow> kp st0 A (ret x) B"
  by (rule kpI) (auto simp: ret_def intro: intact_mono)

lemma kp_weaken: "kp st0 A m B \<Longrightarrow> A \<subseteq> A' \<Longrightarrow> (\<And>x. C x \<subseteq> B x) \<Longrightarrow> kp st0 A' m C"
proof (rule kpI)
  fix st r st' assume a: "kp st0 A m B" "A \<subseteq> A'" "\<And>x. C x \<subseteq> B x" "intact st0 A' st" "m st = Some (r, st')"
  from kpD [OF a(1) intact_mono [OF a(4,2)] a(5)] show "outcome (intact st0 {}) (\<lambda>x. intact st0 (C x)) r st'"
    using intact_mono [OF _ a(3)] by (cases r) auto
qed

lemma kp_fail [kp_rules]: "kp st0 A (fail e) B"
  by (rule kpI) (auto simp: fail_def intro: intact_mono)

lemma kp_pure [kp_rules]:
  "kp st0 A (gets f) (\<lambda>_. A)" "kp st0 A (panics g) (\<lambda>_. A)" "kp st0 A (peek_bytes a n) (\<lambda>_. A)" "kp st0 A (print bs) (\<lambda>_. A)"
  "kp st0 A (drain_keys n) (\<lambda>_. A)" "kp st0 A (cr3_or e) (\<lambda>_. A)"
  by (rule kpI, auto simp: gets_def panics_def peek_bytes_def print_def drain_keys_def cr3_or_def intact_def fin_def bystanders_def runs_as_def
      split: option.splits bind_splits)+

lemma kp_case [kp_rules]:
  "\<lbrakk>c \<Longrightarrow> kp st0 A m B; \<not> c \<Longrightarrow> kp st0 A m' B\<rbrakk> \<Longrightarrow> kp st0 A (if c then m else m') B"
  "\<lbrakk>kp st0 A n B; \<And>x. kp st0 A (g x) B\<rbrakk> \<Longrightarrow> kp st0 A (case_option n g r) B"
  "\<lbrakk>\<And>x. kp st0 A (g x) B; \<And>x. kp st0 A (h x) B\<rbrakk> \<Longrightarrow> kp st0 A (case_sum g h s) B"
  "\<lbrakk>\<And>x y. kp st0 A (k x y) B\<rbrakk> \<Longrightarrow> kp st0 A (case_prod k q) B"
  by (auto split: option.split sum.split prod.split)

text \<open>Operations of the calling process: on its memory, its descriptors and the kernel.\<close>

definition fit :: "u64 \<Rightarrow> (u64 \<times> nat) set \<Rightarrow> process \<times> kern \<Rightarrow> bool" where
  "fit pml4 A st \<longleftrightarrow> good pml4 st \<and> refs_small (k_shm (snd st)) \<and> (\<forall>r \<in> A. region (own (fst st)) r)"

abbreviation cr3_of :: "os \<Rightarrow> u64" where "cr3_of st \<equiv> t_cr3 (tasks_of st ! cur_of st)"

lemma fit_same:
  assumes "fit pml4 A (p, k)" "same_mem (p, k) (p', k')" "k_shm k' = k_shm k"
  shows "fit pml4 A (p', k') \<and> moves (p, k) (p', k')"
  using same_mem_good [of pml4 p k p' k'] assms by (simp add: fit_def)

lemma fit_shm:
  assumes "fit pml4 A (p, k)" "shm_step (k_shm k) sh"
  shows "fit pml4 A (p, set_shm sh k) \<and> moves (p, k) (p, set_shm sh k)"
  using shm_good [of pml4 p k sh] assms by (simp add: fit_def shm_step_def set_shm_def)

lemma fit_poke:
  assumes "fit pml4 A (p, k)" "(a, n) \<in> A" "length bs \<le> n"
  shows "fit pml4 A (p, upd_mem (put_bytes (unat a) bs) k) \<and> moves (p, k) (p, upd_mem (put_bytes (unat a) bs) k)"
  using poke_good [of pml4 p k a n bs] assms by (auto simp: fit_def refs_small_def upd_mem_def set_shm_def)

lemma fit_keeps:
  assumes "fit pml4 A (p, k)" "keeps pml4 (p, k) (f (p, k))" "f (p, k) = Some (x, p', k')"
  shows "fit pml4 {} (p', k') \<and> moves (p, k) (p', k')"
proof -
  have "sh_table (k_shm k') = sh_table (k_shm k)" using assms(2,3) by (auto simp: keeps_def evolves_def)
  then show ?thesis using keeps_good [of pml4 p k f x p' k'] assms by (simp add: fit_def refs_small_def)
qed

lemma fit_inv: "fit pml4 A (p, k) \<Longrightarrow> shm_inv (k_shm k)"
  by (simp add: fit_def good_def)

lemma quiet_update: "quiet (t\<lparr>t_process := Some p\<rparr>) = t\<lparr>t_process := Some (p\<lparr>p_inbox := None\<rparr>)\<rparr>"
  by (simp add: quiet_def)

lemma intact_update:
  assumes i: "intact st0 A st" and r: "runs_as st pml4 p"
      and s: "s' = set_task (cur_of st) ((tasks_of st ! cur_of st)\<lparr>t_process := Some p'\<rparr>) (os_sched st)"
      and g: "good pml4 (p', k')" "moves (p, os_kern st) (p', k')" "refs_small (k_shm k')" "\<And>x. x \<in> B \<Longrightarrow> region (own p') x"
  shows "intact st0 B (st\<lparr>os_sched := s', os_kern := k'\<rparr>)"
proof -
  obtain pml4' p0 q where I: "bystanders st0 st" "runs_as st0 pml4' p0" "runs_as st pml4' q" "moves (p0, os_kern st0) (q, os_kern st)"
    using i by (auto simp: intact_def)
  have e: "q = p" "pml4' = pml4" using I(3) r by (auto simp: runs_as_def)
  have "runs_as (st\<lparr>os_sched := s', os_kern := k'\<rparr>) pml4 p'" using r by (simp add: runs_as_def s set_task_def)
  moreover have "bystanders st0 (st\<lparr>os_sched := s', os_kern := k'\<rparr>)" using I(1) by (simp add: bystanders_def s set_task_def)
  moreover have "moves (p0, os_kern st0) (p', k')" using moves_trans [OF I(4) [unfolded e]] g(2) by simp
  ultimately show ?thesis using I(2) g(1,3,4) unfolding intact_def e by (intro conjI exI [of _ pml4] exI [of _ p0] exI [of _ p']) auto
qed

lemma intact_runs: "intact st0 A st \<Longrightarrow> \<exists>pml4 p. runs_as st pml4 p \<and> pml4 = cr3_of st0 \<and> good pml4 (p, os_kern st) \<and> (\<forall>r \<in> A. region (own p) r) \<and> refs_small (k_shm (os_kern st))"
  by (auto simp: intact_def runs_as_def)

lemma kp_process:
  assumes f: "\<And>p k x p' k'. fit (cr3_of st0) A (p, k) \<Longrightarrow> f (p, k) = Some (x, p', k') \<Longrightarrow>
     fit (cr3_of st0) B (p', k') \<and> moves (p, k) (p', k')"
  shows "kp st0 A (with_process f) (\<lambda>_. B)"
proof (rule kpI)
  fix st r st' assume i: "intact st0 A st" and w: "with_process f st = Some (r, st')"
  obtain pml4 p where p: "runs_as st pml4 p" "good pml4 (p, os_kern st)" "\<forall>r \<in> A. region (own p) r" "refs_small (k_shm (os_kern st))" "pml4 = cr3_of st0"
    using intact_runs [OF i] by blast
  have t: "index (tasks_of st) (cur_of st) = Some (tasks_of st ! cur_of st)" "t_process (tasks_of st ! cur_of st) = Some p"
    using p(1) by (simp_all add: runs_as_def index_def)
  then obtain x p' k' where x: "f (p, os_kern st) = Some (x, p', k')" "r = Inr (Some x)"
      "st' = st\<lparr>os_sched := set_task (cur_of st) ((tasks_of st ! cur_of st)\<lparr>t_process := Some p'\<rparr>) (os_sched st), os_kern := k'\<rparr>"
    using w by (auto simp: with_process_def on_sk_def with_current_process_mut_def split: bind_splits option.splits)
  have "intact st0 B st'" unfolding x(3) by (rule intact_update [OF i p(1) refl]) (use f [OF _ x(1)] p in \<open>auto simp: fit_def\<close>)
  then show "outcome (intact st0 {}) (\<lambda>_. intact st0 B) r st'" by (simp add: x(2))
qed

lemma kp_proc_or:
  assumes "kp st0 A (with_process f) (\<lambda>_. B)"
  shows "kp st0 A (proc_or e f) (\<lambda>_. B)" 
  unfolding proc_or_def by (rule kp_bnd [OF assms]) (rule kp_ret, simp)

lemma kp_kernel:
  assumes f: "\<And>p k x k'. fit (cr3_of st0) A (p, k) \<Longrightarrow> f k = Some (x, k') \<Longrightarrow>
     fit (cr3_of st0) A (p, k') \<and> moves (p, k) (p, k')"
  shows "kp st0 A (on_kernel f) (\<lambda>_. A)"
proof (rule kpI)
  fix st r st' assume i: "intact st0 A st" and w: "on_kernel f st = Some (r, st')"
  obtain pml4 p where p: "runs_as st pml4 p" "good pml4 (p, os_kern st)" "\<forall>r \<in> A. region (own p) r" "refs_small (k_shm (os_kern st))" "pml4 = cr3_of st0"
    using intact_runs [OF i] by blast
  obtain x k' where x: "f (os_kern st) = Some (x, k')" "r = Inr x" "st' = st\<lparr>os_sched := os_sched st, os_kern := k'\<rparr>"
    using w by (auto simp: on_kernel_def on_sk_def split: bind_splits)
  have same: "os_sched st = set_task (cur_of st) ((tasks_of st ! cur_of st)\<lparr>t_process := Some p\<rparr>) (os_sched st)"
  proof -
    have "(tasks_of st ! cur_of st)\<lparr>t_process := Some p\<rparr> = tasks_of st ! cur_of st" using p(1) by (simp add: runs_as_def)
    then show ?thesis by (simp add: set_task_def)
  qed
  have "intact st0 A st'" unfolding x(3) by (rule intact_update [OF i p(1) same]) (use f [OF _ x(1), of p] p in \<open>auto simp: fit_def\<close>)
  then show "outcome (intact st0 {}) (\<lambda>_. intact st0 A) r st'" by (simp add: x(2))
qed

section \<open>Stack growth keeps what the process owns\<close>

lemma pt_entry_frames: "pt_entry_ptr_in pml4 v fl tr (fr, s) = Some (r, fr', s') \<Longrightarrow> set fr \<subseteq> set fr'"
  by (auto simp: pt_entry_ptr_in_def Let_def split: if_splits bind_splits option.splits)

lemma map_loop_frames:
  assumes "map_loop pml4 v p e fl st = Some y"
  shows "set (fst st) \<subseteq> set (fst (snd y))"
proof (rule map_loop.raw_induct [where P = "\<lambda>pml4 v p e fl st y. set (fst st) \<subseteq> set (fst (snd y))", OF _ assms])
  fix f pml4 v p e fl y and st :: "usize list \<times> mmu"
  assume ih: "\<And>pml4 v p e fl st y. f pml4 v p e fl st = Some y \<Longrightarrow> set (fst st) \<subseteq> set (fst (snd y))"
    and run: "(if v < e then do {
        (r, fr, s) \<leftarrow> pt_entry_ptr_in pml4 v (fl AND PRESENT_MASK) True st;
        case r of None \<Rightarrow> Some (False, fr, s)
        | Some a \<Rightarrow> f pml4 (v + PAGE_SIZE) (p + PAGE_SIZE) e fl (fr, wr a (p OR (fl AND PRESENT_MASK) OR PAGE_PRESENT) s) }
      else Some (True, fst st, snd st)) = Some y"
  show "set (fst st) \<subseteq> set (fst (snd y))"
  proof (cases "v < e")
    case True
    obtain r fr s where r: "pt_entry_ptr_in pml4 v (fl AND PRESENT_MASK) True st = Some (r, fr, s)"
      using run True by (auto split: bind_splits)
    have "set (fst st) \<subseteq> set fr" using pt_entry_frames r by (cases st) auto
    moreover have "set fr \<subseteq> set (fst (snd y))" using run True r by (auto dest!: ih split: option.splits)
    ultimately show ?thesis by blast
  qed (use run in auto)
qed

lemma map_range_frames: "map_range_in pml4 v ph len fl (fr, s) = Some (b, fr', s') \<Longrightarrow> set fr \<subseteq> set fr'"
  using map_loop_frames [of pml4 v ph "v + len" fl "(fr, s)"] by (simp add: map_range_in_def split: if_splits)

lemma grow_own:
  assumes "try_grow_stack pml4 v (p, k) = Some (b, p', k')"
  shows "own p \<subseteq> own p'"
proof -
  have "set (p_frames p) \<subseteq> set (p_frames p')"
    using assms map_range_frames unfolding try_grow_stack_def map_in_def Let_def prod.case
    by (simp split: if_splits bind_splits prod.splits) fastforce+
  then show ?thesis by (auto simp: own_def)
qed

section \<open>Pointers of the process\<close>

lemma page_frame:
  fixes a b n :: nat
  assumes "a mod 4096 = 0" "a \<le> b" "b < a + 4096 * n"
  shows "b div 4096 \<in> {a div 4096..<a div 4096 + n}"
  using assms page_range [of "a div 4096" b n] by (auto simp: mod_eq_0_iff_dvd)

lemma mapping_region:
  assumes v: "vm_ok pml4 p k" and m: "m \<in> set (p_mappings p)" and r: "m_vaddr m \<le> v" "unat v + unat len \<le> unat (m_vaddr m + m_len m)"
  shows "region (own p) (m_phys m + (v - m_vaddr m), unat len)"
proof -
  note M = vm_map [OF v m]
  have ok: "unat (m_vaddr m) + unat (m_len m) \<le> 2 ^ 32" "unat (m_phys m) mod 4096 = 0" "unat (m_len m) mod 4096 = 0"
    using M(1) by (simp_all add: map_ok_def page_mod)
  have e: "unat (m_vaddr m + m_len m) = unat (m_vaddr m) + unat (m_len m)" using ok(1) by (simp add: unat_word_ariths)
  have d: "unat (v - m_vaddr m) = unat v - unat (m_vaddr m)" "unat (m_vaddr m) \<le> unat v" using r(1) by (simp_all add: unat_sub word_le_nat_alt)
  have b: "unat (m_phys m) + unat (m_len m) \<le> 2 ^ 28" using M by simp
  have ph: "unat (m_phys m + (v - m_vaddr m)) = unat (m_phys m) + (unat v - unat (m_vaddr m))"
    using d b r(2) e by (simp add: unat_word_ariths)
  have "c div 4096 \<in> own p" if "unat (m_phys m + (v - m_vaddr m)) \<le> c" "c < unat (m_phys m + (v - m_vaddr m)) + unat len" for c
  proof -
    have "unat (m_phys m) \<le> c" "c < unat (m_phys m) + unat (m_len m)" using that ph d r(2) e by linarith+
    then have "c div 4096 \<in> mframes m"
      using page_frame [of "unat (m_phys m)" c "unat (m_len m) div 4096"] ok(2,3) by (auto simp: mframes_def mod_eq_0_iff_dvd)
    then show ?thesis using M(2) by blast
  qed
  moreover have "unat (m_phys m + (v - m_vaddr m)) + unat len \<le> 2 ^ 32" using ph d r(2) e b by simp
  ultimately show ?thesis by (simp add: region_def)
qed

lemma translate_region:
  assumes v: "vm_ok pml4 p k" and t: "translate pid ptr len s = Some phys" and p: "process_of pid s = Some p"
  shows "region (own p) (phys, unat len)"
proof -
  obtain e m where e: "checked_add ptr len = Some e" "find_mapping ptr e (p_mappings p) = Some m" "phys = m_phys m + (ptr - m_vaddr m)"
    using t p by (auto simp: translate_def process_mappings_def split: bind_splits)
  have m: "m \<in> set (p_mappings p)" "m_vaddr m \<le> ptr" "e \<le> m_vaddr m + m_len m"
    using e(2) by (auto simp: find_mapping_def find_Some_iff)
  show ?thesis unfolding e(3) by (rule mapping_region [OF v m(1,2)]) (use m(3) unat_checked_add [OF e(1)] in \<open>simp add: word_le_nat_alt\<close>)
qed

lemma process_of_current: "runs_as st pml4 p \<Longrightarrow> process_of (cur_of st) (os_sched st) = Some p"
  by (simp add: runs_as_def process_of_def)

lemma kp_resolve:
  "kp st0 A (resolve_user_buffer ptr len) (\<lambda>r. case r of None \<Rightarrow> A | Some phys \<Rightarrow> insert (phys, unat len) A)"
proof (rule kpI)
  fix st r st' assume i: "intact st0 A st" and w: "resolve_user_buffer ptr len st = Some (r, st')"
  obtain pml4 p where p: "runs_as st pml4 p" "good pml4 (p, os_kern st)" "\<forall>r \<in> A. region (own p) r" "refs_small (k_shm (os_kern st))" "pml4 = cr3_of st0"
    using intact_runs [OF i] by blast
  have c: "current_is_process (os_sched st)" "current_pid (os_sched st) = cur_of st"
      "index (tasks_of st) (cur_of st) = Some (tasks_of st ! cur_of st)" "t_process (tasks_of st ! cur_of st) = Some p"
      "current_process_cr3 (os_sched st) = Some (Some pml4)"
    using p(1) by (auto simp: runs_as_def current_is_process_def current_pid_def index_def current_process_cr3_def)
  note po = process_of_current [OF p(1)] and G = goodD [OF p(2)]
  show "outcome (intact st0 {}) (\<lambda>r. intact st0 (case r of None \<Rightarrow> A | Some phys \<Rightarrow> insert (phys, unat len) A)) r st'"
  proof (cases "translate (cur_of st) ptr len (os_sched st)")
    case (Some phys)
    have "intact st0 (insert (phys, unat len) A) st"
      using i p translate_region [OF G(1) Some po] unfolding intact_def runs_as_def by fastforce
    then show ?thesis using w c Some by (auto simp: resolve_user_buffer_def on_sk_def resolve_syscall_ptr_def)
  next
    case None
    obtain b p' k' where x: "try_grow_stack pml4 ptr (p, os_kern st) = Some (b, p', k')" "vm_ok pml4 p' k'" "stack_ok p'" "evolves p (os_kern st) p' k'"
      using try_grow_stack_keeps [OF G(1,2), of ptr] by (auto simp: keeps_def)
    define s' where "s' = set_task (cur_of st) ((tasks_of st ! cur_of st)\<lparr>t_process := Some p'\<rparr>) (os_sched st)"
    define tr where "tr = (if b then translate (cur_of st) ptr len s' else None)"
    have st': "st' = st\<lparr>os_sched := s', os_kern := k'\<rparr>" "r = Inr tr"
      using w c None x(1) by (auto simp: resolve_user_buffer_def on_sk_def resolve_syscall_ptr_def with_current_process_mut_def s'_def tr_def)
    have ow: "own p \<subseteq> own p'" by (rule grow_own [OF x(1)])
    have po': "process_of (cur_of st) s' = Some p'" using p(1) by (simp add: s'_def process_of_def set_task_def runs_as_def)
    have t: "region (own p') (phys, unat len)" if "tr = Some phys" for phys
      using that translate_region [OF x(2) _ po'] by (auto simp: tr_def split: if_splits)
    note E = evolve_good [OF p(2) x(2-4)]
    have rs: "refs_small (k_shm k')" using p(4) x(4) by (simp add: refs_small_def evolves_def)
    have "intact st0 (case tr of None \<Rightarrow> A | Some phys \<Rightarrow> insert (phys, unat len) A) st'" unfolding st'(1)
      by (rule intact_update [OF i p(1) s'_def E rs]) (use t p(3) region_mono [OF _ ow] in \<open>auto split: option.splits\<close>)
    then show ?thesis by (simp add: st'(2))
  qed
qed

lemma kp_resolved:
  "\<lbrakk>kp st0 A m B; \<And>x. kp st0 (insert (x, n) A) (g x) B\<rbrakk> \<Longrightarrow>
     kp st0 (case r of None \<Rightarrow> A | Some phys \<Rightarrow> insert (phys, n) A) (case_option m g r) B"
  by (cases r) auto

lemma kp_resolve_or: "kp st0 A (resolve_or e ptr len) (\<lambda>phys. insert (phys, unat len) A)"
  unfolding resolve_or_def by (rule kp_bnd [OF kp_resolve kp_resolved]) (auto intro: kp_fail kp_ret)

lemma kp_poke:
  assumes "(a, n) \<in> A" "length bs \<le> n"
  shows "kp st0 A (poke_bytes a bs) (\<lambda>_. A)"
  unfolding poke_bytes_def by (rule kp_kernel) (use fit_poke [OF _ assms] in auto)

lemma fit_region: "fit pml4 A st \<Longrightarrow> (a, n) \<in> A \<Longrightarrow> unat d + m \<le> n \<Longrightarrow> fit pml4 (insert (a + d, m) A) st"
  using region_sub [of "own (fst st)" a n "unat d" m] by (auto simp: fit_def)

lemma kp_poke_at:
  assumes "(a, n) \<in> A" "unat d + length bs \<le> n"
  shows "kp st0 A (poke_bytes (a + d) bs) (\<lambda>_. A)"
proof -
  have "fit pml4 A (p, upd_mem (put_bytes (unat (a + d)) bs) k) \<and> moves (p, k) (p, upd_mem (put_bytes (unat (a + d)) bs) k)"
    if "fit pml4 A (p, k)" for pml4 p k
    using fit_poke [OF fit_region [OF that assms], of "a + d" "length bs" bs] by (auto simp: fit_def)
  then show ?thesis unfolding poke_bytes_def by (intro kp_kernel) auto
qed

lemma kp_bnd_fact:
  assumes m: "kp st0 A m B" "\<And>st x st'. m st = Some (Inr x, st') \<Longrightarrow> Q x" and f: "\<And>x. Q x \<Longrightarrow> kp st0 (B x) (f x) C"
  shows "kp st0 A (bnd m f) C"
proof (rule kpI)
  fix st r st' assume a: "intact st0 A st" "bnd m f st = Some (r, st')"
  obtain r1 st1 where r1: "m st = Some (r1, st1)" using a(2) by (cases "m st") (auto simp: bnd_def)
  from kpD [OF m(1) a(1) r1] show "outcome (intact st0 {}) (\<lambda>x. intact st0 (C x)) r st'"
    using a(2) r1 kpD [OF f [OF m(2)]] by (cases r1) (auto simp: bnd_def)
qed

lemma kp_cr3:
  assumes "kp st0 A (f (cr3_of st0)) C"
  shows "kp st0 A (bnd (cr3_or e) f) C"
proof (rule kpI)
  fix st r st' assume a: "intact st0 A st" "bnd (cr3_or e) f st = Some (r, st')"
  obtain p where p: "runs_as st (cr3_of st0) p" using intact_runs [OF a(1)] by blast
  then have "bnd (cr3_or e) f st = f (cr3_of st0) st"
    by (auto simp: bnd_def cr3_or_def current_process_cr3_def runs_as_def index_def)
  then show "outcome (intact st0 {}) (\<lambda>x. intact st0 (C x)) r st'" using kpD [OF assms a(1)] a(2) by simp
qed

text \<open>Handlers give a number: no region is left to track.\<close>

abbreviation kpu :: "os \<Rightarrow> (u64 \<times> nat) set \<Rightarrow> 'a sop \<Rightarrow> bool" where
  "kpu st0 A m \<equiv> kp st0 A m (\<lambda>_. {})"

lemma kpu_ret: "kpu st0 A (ret x)"
  by (rule kp_ret) simp

lemma kpu_weaken: "kp st0 A m B \<Longrightarrow> kpu st0 A m"
  by (rule kp_weaken) auto

lemma kp_drop: "kp st0 A m B \<Longrightarrow> kp st0 (insert r A) m B"
  by (rule kp_weaken) auto

lemma kpu_any: "kpu st0 {} m \<Longrightarrow> kpu st0 A m"
  by (rule kp_weaken) auto

lemma kp_peek: "kp st0 A (peek_u64 a) (\<lambda>_. A)" "kp st0 A (peek_u32 a) (\<lambda>_. A)"
  unfolding peek_u64_def peek_u32_def by (rule kp_bnd [OF kp_pure(3)], rule kp_ret, simp)+

lemma kp_count: "kp st0 A (\<lambda>st. Some (Inr (), st\<lparr>os_write_count := f st\<rparr>)) (\<lambda>_. A)"
  by (rule kpI) (auto simp: intact_def bystanders_def runs_as_def)

lemma kp_deliver: "kp st0 A (on_sk (\<lambda>(s, k). let (b, s') = deliver_message pid bytes s in Some (b, s', k))) (\<lambda>_. A)"
proof (rule kpI)
  fix st r st' assume i: "intact st0 A st"
    and w: "on_sk (\<lambda>(s, k). let (b, s') = deliver_message pid bytes s in Some (b, s', k)) st = Some (r, st')"
  obtain pml4 p where p: "runs_as st pml4 p" "good pml4 (p, os_kern st)" "\<forall>r \<in> A. region (own p) r" "refs_small (k_shm (os_kern st))"
    using intact_runs [OF i] by blast
  obtain b s' where s': "deliver_message pid bytes (os_sched st) = (b, s')" "st' = st\<lparr>os_sched := s', os_kern := os_kern st\<rparr>" "r = Inr b"
    using w by (auto simp: on_sk_def split: prod.splits)
  consider "s' = os_sched st" | q where "process_of pid (os_sched st) = Some q"
      "s' = set_task pid ((tasks_of st ! pid)\<lparr>t_process := Some (q\<lparr>p_inbox := Some bytes\<rparr>)\<rparr>) (os_sched st)"
    using s'(1) by (auto simp: deliver_message_def split: option.splits if_splits)
  then have "intact st0 A st'"
  proof cases
    case 1
    then show ?thesis using i s'(2) by simp
  next
    case (2 q)
    show ?thesis
    proof (cases "pid = cur_of st")
      case True
      then have q: "q = p" using 2(1) process_of_current [OF p(1)] by simp
      have "same_mem (p, os_kern st) (p\<lparr>p_inbox := Some bytes\<rparr>, os_kern st)" by (simp add: same_mem_def)
      note S = same_mem_good [OF p(2) this refl]
      show ?thesis unfolding s'(2) by (rule intact_update [OF i p(1) 2(2) [unfolded q True]]) (use S p in simp_all)
    next
      case False
      have b: "pid < length (tasks_of st)" "t_process (tasks_of st ! pid) = Some q" using 2(1) by (auto simp: process_of_def split: if_splits)
      have "quiet ((tasks_of st ! pid)\<lparr>t_process := Some (q\<lparr>p_inbox := Some bytes\<rparr>)\<rparr>) = quiet (tasks_of st ! pid)"
        using b(2) by (simp add: quiet_def)
      then have "bystanders st0 st'" using i b(1) unfolding s'(2) 2(2)
        by (auto simp: intact_def bystanders_def set_task_def nth_list_update)
      moreover have "runs_as st' pml4 x = runs_as st pml4 x" for pml4 x using False unfolding s'(2) 2(2) by (simp add: runs_as_def set_task_def)
      ultimately show ?thesis using i by (simp add: intact_def s'(2))
    qed
  qed
  then show "outcome (intact st0 {}) (\<lambda>_. intact st0 A) r st'" by (simp add: s'(3))
qed

lemma kp_take: "kp st0 A (on_sk (\<lambda>(s, k). do { (m, s') \<leftarrow> take_current_message s; Some (m, s', k) })) (\<lambda>_. A)"
proof (rule kpI)
  fix st r st' assume i: "intact st0 A st"
    and w: "on_sk (\<lambda>(s, k). do { (m, s') \<leftarrow> take_current_message s; Some (m, s', k) }) st = Some (r, st')"
  obtain pml4 p where p: "runs_as st pml4 p" "good pml4 (p, os_kern st)" "\<forall>r \<in> A. region (own p) r" "refs_small (k_shm (os_kern st))"
    using intact_runs [OF i] by blast
  have st': "r = Inr (p_inbox p)" "st' = st\<lparr>os_sched := set_task (cur_of st) ((tasks_of st ! cur_of st)\<lparr>t_process := Some (p\<lparr>p_inbox := None\<rparr>)\<rparr>) (os_sched st), os_kern := os_kern st\<rparr>"
    using w p(1) by (auto simp: on_sk_def take_current_message_def runs_as_def index_def)
  have "same_mem (p, os_kern st) (p\<lparr>p_inbox := None\<rparr>, os_kern st)" by (simp add: same_mem_def)
  note S = same_mem_good [OF p(2) this refl]
  have "intact st0 A st'" unfolding st'(2) by (rule intact_update [OF i p(1) refl]) (use S p in simp_all)
  then show "outcome (intact st0 {}) (\<lambda>_. intact st0 A) r st'" by (simp add: st'(1))
qed

lemma kp_fs_base: "kp st0 A (on_sk (\<lambda>(s, k). Some ((), s\<lparr>s_fs_base := addr\<rparr>, k))) (\<lambda>_. A)"
  by (rule kpI) (auto simp: on_sk_def intact_def bystanders_def runs_as_def)

lemma read_keys_length: "read_keys n kb = Some (bs, kb') \<Longrightarrow> length bs \<le> n"
proof -
  have "length (fst y) \<le> n" if "read_keys n kb = Some y" for y
  proof (rule read_keys.raw_induct [where P = "\<lambda>n kb y. length (fst y) \<le> n", OF _ that])
    fix f n kb y assume ih: "\<And>n kb y. f n kb = Some y \<Longrightarrow> length (fst y) \<le> n"
      and run: "(if n = 0 then Some ([], kb)
        else do {
          (e, kb') \<leftarrow> kbd_next_event kb;
          case e of
            None \<Rightarrow> Some ([], kb')
          | Some (EvChar c) \<Rightarrow> do { (bs, kb'') \<leftarrow> f (n - 1) kb'; Some (of_char c # bs, kb'') }
          | Some _ \<Rightarrow> f n kb' }) = Some y"
    have "length bs < n" if "f (n - 1) kb' = Some (bs, kb'')" "n \<noteq> 0" for kb' bs kb''
      using ih [OF that(1)] that(2) by simp
    then show "length (fst y) \<le> n" using run
      by (auto split: if_splits bind_splits option.splits event.splits simp: Suc_le_eq dest: ih)
  qed
  then show "read_keys n kb = Some (bs, kb') \<Longrightarrow> length bs \<le> n" by fastforce
qed

lemma drain_length: "drain_keys n st = Some (Inr bs, st') \<Longrightarrow> length bs \<le> n"
  by (auto simp: drain_keys_def dest: read_keys_length split: bind_splits)

lemma kp_input:
  assumes "(phys, n) \<in> A"
  shows "kpu st0 A (bnd (drain_keys n) (\<lambda>bs. bnd (poke_bytes phys bs) (\<lambda>_. ret (of_nat (length bs)))))"
  by (rule kp_bnd_fact [OF kp_pure(5), where Q = "\<lambda>bs. length bs \<le> n"], erule drain_length)
     (rule kp_bnd [OF kp_poke [OF assms]], assumption, rule kpu_ret)

section \<open>The native calls\<close>

lemma kpu_sys_write: "kpu st0 A (sys_write fd ptr len)"
  unfolding sys_write_def by (intro kp_case kp_fail kp_bnd [OF kp_resolve_or] kp_bnd [OF kp_pure(3)] kp_bnd [OF kp_pure(4)] kp_bnd [OF kp_count] kpu_ret)

lemma kpu_sys_read: "kpu st0 A (sys_read fd ptr len)"
  unfolding sys_read_def by (intro kp_case kp_fail kp_bnd [OF kp_resolve_or] kp_input) simp

lemma kpu_sys_send: "kpu st0 A (sys_send pid ptr len)"
  unfolding sys_send_def by (intro kp_bnd [OF kp_resolve_or] kp_bnd [OF kp_pure(3)] kp_bnd [OF kp_deliver] kpu_ret)

lemma kpu_sys_recv: "kpu st0 A (sys_recv ptr n)"
  unfolding sys_recv_def Let_def
  by (intro kp_bnd [OF kp_resolve_or] kp_bnd [OF kp_take] kp_case kp_bnd [OF kp_poke] kpu_ret) auto

lemma kpu_native: "kpu st0 A (native_dispatch num a b c)"
  unfolding native_dispatch_def by (intro kp_case kpu_sys_write kpu_sys_read kpu_sys_send kpu_sys_recv kpu_weaken [OF kp_pure(1)] kpu_ret)

section \<open>Files and descriptors\<close>

lemma kp_proc:
  assumes f: "\<And>p k x p' k'. fit (cr3_of st0) A (p, k) \<Longrightarrow> f (p, k) = Some (x, p', k') \<Longrightarrow>
     fit (cr3_of st0) B (p', k') \<and> moves (p, k) (p', k')"
  shows "kp st0 A (with_process f) (\<lambda>_. B)" "kp st0 A (proc_or e f) (\<lambda>_. B)"
  by (rule kp_process, erule (1) f) (rule kp_proc_or, rule kp_process, erule (1) f)

lemma kp_flat:
  assumes "kp st0 A (proc_or None f) (\<lambda>_. B)"
  shows "kp st0 A (proc_flat f) (\<lambda>_. B)" "kp st0 A (proc_flat_or e f) (\<lambda>_. B)"
  unfolding proc_flat_or_def proc_flat_def by (rule assms, rule kp_bnd [OF assms], rule kp_ret, simp)

lemma fit_shm_table:
  assumes "fit pml4 A (p, k)" "shm_step (k_shm k) sh" "k_pt k' = k_pt k" "k_shm k' = sh"
  shows "fit pml4 A (p, k') \<and> moves (p, k) (p, k')"
proof -
  have F: "fit pml4 A (p, set_shm sh k)" "moves (p, k) (p, set_shm sh k)" using fit_shm [OF assms(1,2)] by simp_all
  have "fit pml4 A (p, k') \<and> moves (p, set_shm sh k) (p, k')"
    by (rule fit_same [OF F(1)]) (simp_all add: same_mem_def set_shm_def assms(3,4))
  then show ?thesis using moves_trans [OF F(2)] by blast
qed

lemma fit_fds:
  assumes "fit pml4 A (p, k) \<and> moves st (p, k)" "same_mem (p, k) (p', k)"
  shows "fit pml4 A (p', k) \<and> moves st (p', k)"
  using assms fit_same [of pml4 A p k p' k] moves_trans by blast

lemma same_fds [simp]:
  "same_mem (p, k) (fd_set fd e p, k')  \<longleftrightarrow> k_pt k' = k_pt k" "same_mem (p, k) (p\<lparr>p_fds := fs\<rparr>, k') \<longleftrightarrow> k_pt k' = k_pt k"
  "same_mem (p, k) (snd (alloc_fd e p), k') \<longleftrightarrow> k_pt k' = k_pt k" "same_mem (p, k) (set_fs_base v p, k') \<longleftrightarrow> k_pt k' = k_pt k"
  "same_mem (p, k) (p, k') \<longleftrightarrow> k_pt k' = k_pt k"
  by (auto simp: same_mem_def fd_set_def alloc_fd_def set_fs_base_def split: option.split)

lemma shm_write_step:
  assumes inv: "shm_inv (k_shm k)" and w: "shm_write oid c data k = (n, k')"
  shows "\<exists>sh. k' = set_shm sh k \<and> shm_step (k_shm k) sh"
proof (cases "slot (sh_table (k_shm k)) oid")
  case None
  then have "k' = set_shm (k_shm k) k" using w by (auto simp: shm_write_def phys_of_def set_shm_def)
  then show ?thesis using shm_step_refl [OF inv] by blast
next
  case (Some obj)
  note O = shm_obj_ok [OF inv Some]
  define m where "m = min (sat_sub (sm_size obj) c) (length data)"
  define sh where "sh = (k_shm k)\<lparr>sh_mem := (if m > 0 then put_bytes (sm_phys obj + c) (take m data) (k_mem k) else k_mem k)\<rparr>"
  have "shm_write oid c data k = (m, if m > 0 then upd_mem (put_bytes (sm_phys obj + c) (take m data)) k else k)"
    unfolding shm_write_def phys_of_def size_of_def Let_def m_def Some by (simp only: option.map option.case prod.case)
  then have k': "k' = set_shm sh k" using w by (simp add: sh_def upd_mem_def set_shm_def)
  have "shm_inv sh" using inv by (simp add: shm_inv_def sh_def)
  then have "shm_keeps (k_shm k) sh" by (simp add: shm_keeps_def sh_def owned_def)
  moreover have "sh_mem sh b = k_mem k b" if "b div 4096 \<notin> avail (k_pmm k) \<union> owned (k_shm k)" for b
  proof (rule ccontr)
    assume "sh_mem sh b \<noteq> k_mem k b"
    then have b: "0 < m" "sm_phys obj + c \<le> b" "b < sm_phys obj + c + m" by (auto simp: sh_def put_bytes_def m_def split: if_splits)
    have "c + m \<le> sm_size obj" using b(1) by (auto simp: m_def sat_sub_def split: if_splits)
    then have "sm_phys obj \<le> b" "b < sm_phys obj + 4096 * sm_pages obj" using b O by (auto simp: obj_ok_def FRAME_SIZE_def)
    then have "b div 4096 \<in> backing obj" using page_frame [of "sm_phys obj" b "sm_pages obj"] O
      by (auto simp: obj_ok_def backing_def FRAME_SIZE_def mod_eq_0_iff_dvd)
    then show False using that Some by (auto simp: owned_def ran_def)
  qed
  ultimately have "shm_step (k_shm k) sh" by (auto simp: shm_step_def sh_def refs_small_def)
  then show ?thesis using k' by blast
qed

lemma sock_send_plain: "sock_send eid bytes [] s = Some (r, s') \<Longrightarrow> sk_shm s' = sk_shm s"
  by (auto simp: sock_send_def set_endpoint_def Let_def split: option.splits)

lemma sock_recv_plain: "sock_recv eid n s = ((bs, fids), s') \<Longrightarrow> sk_shm s' = sk_shm s \<and> length bs \<le> n"
  by (auto simp: sock_recv_def set_endpoint_def Let_def split: option.splits)

lemma fit_close_all:
  assumes f: "fit pml4 A (p, k)" and c: "close_all fids k = Some k'"
  shows "fit pml4 A (p, k') \<and> moves (p, k) (p, k')"
proof -
  obtain sh where sh: "for_each shm_close fids (k_shm k) = Some sh" "k' = set_shm sh k" using c by (auto simp: close_all_def split: bind_splits)
  show ?thesis unfolding sh(2) by (rule fit_shm [OF f close_list_step [OF fit_inv [OF f] sh(1)]])
qed

lemma fit_fd_drop:
  assumes f: "fit pml4 A (p, k)" and d: "fd_drop e k = Some k'"
  shows "fit pml4 A (p, k') \<and> moves (p, k) (p, k')"
proof (cases e)
  case (FdFile h)
  then show ?thesis using d by (intro fit_same [OF f]) (auto split: bind_splits)
next
  case (FdShm oid c)
  then obtain sh where "shm_close oid (k_shm k) = Some sh" "k' = set_shm sh k" using d by (auto split: bind_splits)
  then show ?thesis using fit_shm [OF f shm_close_step [OF fit_inv [OF f]]] by blast
next
  case (FdSocket eid)
  then obtain s where s: "sock_close eid (k_sock k) = Some s" "k' = k\<lparr>k_sock := s\<rparr>" using d by (auto split: bind_splits)
  have "shm_step (k_shm k) (sk_shm s)" using s(1) close_list_step [OF fit_inv [OF f]] shm_step_refl [OF fit_inv [OF f]]
    by (auto simp: sock_close_def split: bind_splits option.splits)
  then show ?thesis by (rule fit_shm_table [OF f]) (simp_all add: s(2))
qed

lemma vfs_read_length: "vfs_read n h = Some (bs, h') \<Longrightarrow> length bs \<le> n"
  by (auto simp: vfs_read_def Let_def split: if_splits)

lemma fit_fd_write:
  assumes f: "fit pml4 A (p, k)" and w: "fd_write fd bytes (p, k) = Some (x, p', k')"
  shows "fit pml4 A (p', k') \<and> moves (p, k) (p', k')"
proof (cases "fd_get fd p")
  case None
  then show ?thesis using f w by (simp add: fd_write_def)
next
  case (Some e)
  show ?thesis
  proof (cases e)
    case (FdFile h)
    then show ?thesis using w Some by (intro fit_same [OF f]) (auto simp: fd_write_def split: bind_splits)
  next
    case (FdShm oid c)
    obtain n where n: "shm_write oid c bytes k = (n, k')" "p' = fd_set fd (FdShm oid (c + n)) p"
      using w Some FdShm by (auto simp: fd_write_def split: prod.splits)
    obtain sh where "k' = set_shm sh k" "shm_step (k_shm k) sh" using shm_write_step [OF fit_inv [OF f] n(1)] by blast
    then show ?thesis using fit_fds [OF fit_shm [OF f]] n(2) by simp
  next
    case (FdSocket eid)
    then show ?thesis using w Some by (intro fit_same [OF f]) (auto simp: fd_write_def dest: sock_send_plain split: bind_splits)
  qed
qed

lemma fit_fd_read:
  assumes f: "fit pml4 A (p, k)" and a: "(phys, n) \<in> A" and w: "fd_read fd phys n (p, k) = Some (x, p', k')"
  shows "fit pml4 A (p', k') \<and> moves (p, k) (p', k')"
proof (cases "fd_get fd p")
  case None
  then show ?thesis using f w by (simp add: fd_read_def)
next
  case (Some e)
  show ?thesis
  proof (cases e)
    case (FdFile h)
    then obtain bs h' where "length bs \<le> n" "p' = fd_set fd (FdFile h') p" "k' = upd_mem (put_bytes (unat phys) bs) k"
      using w Some by (auto simp: fd_read_def dest: vfs_read_length split: bind_splits)
    then show ?thesis using fit_fds [OF fit_poke [OF f a]] by simp
  next
    case (FdShm oid c)
    define bs where "bs = shm_read oid c n k"
    have "length bs \<le> n" by (simp add: bs_def shm_read_def Let_def split: option.split)
    moreover have "p' = fd_set fd (FdShm oid (c + length bs)) p" "k' = upd_mem (put_bytes (unat phys) bs) k"
      using w Some FdShm by (simp_all add: fd_read_def Let_def bs_def)
    ultimately show ?thesis using fit_fds [OF fit_poke [OF f a]] by simp
  next
    case (FdSocket eid)
    obtain bs fids s where b: "sock_recv eid n (k_sock k) = ((bs, fids), s)" "p' = p"
        "close_all fids (upd_mem (put_bytes (unat phys) bs) (k\<lparr>k_sock := s\<rparr>)) = Some k'"
      using w Some FdSocket by (auto simp: fd_read_def split: bind_splits prod.splits)
    note R = sock_recv_plain [OF b(1)]
    have 1: "fit pml4 A (p, k\<lparr>k_sock := s\<rparr>) \<and> moves (p, k) (p, k\<lparr>k_sock := s\<rparr>)" by (rule fit_same [OF f]) (use R in simp_all)
    then have 2: "fit pml4 A (p, upd_mem (put_bytes (unat phys) bs) (k\<lparr>k_sock := s\<rparr>)) \<and> moves (p, k\<lparr>k_sock := s\<rparr>) (p, upd_mem (put_bytes (unat phys) bs) (k\<lparr>k_sock := s\<rparr>))"
      using fit_poke [OF _ a] R by blast
    then show ?thesis using 1 fit_close_all [OF _ b(3), of pml4 A p] moves_trans unfolding b(2) by blast
  qed
qed

lemma kpu_linux_write: "kpu st0 A (linux_write fd buf n)"
  unfolding linux_write_def
  by (intro kp_bnd [OF kp_resolve_or] kp_bnd [OF kp_pure(3)] kp_case kp_bnd [OF kp_pure(4)] kp_fail kpu_ret kpu_weaken [OF kp_proc(2)] fit_fd_write)

lemma kpu_linux_read: "kpu st0 A (linux_read fd buf n)"
  unfolding linux_read_def
  by (intro kp_bnd [OF kp_resolve_or] kp_case kp_input kp_fail kpu_weaken [OF kp_proc(2)] fit_fd_read; assumption?) simp_all

lemma kp_read_cstr: "kp st0 A (read_cstr ptr n bs) (\<lambda>_. A)"
proof (induction n arbitrary: ptr bs)
  case (Suc n)
  show ?case unfolding read_cstr.simps Let_def
    by (intro kp_bnd [OF kp_resolve] kp_resolved kp_ret kp_bnd [OF kp_pure(3)] kp_case kp_drop [OF Suc.IH]) auto
qed (simp add: kp_ret)

lemma kp_read_path: "kp st0 A (read_path ptr) (\<lambda>_. A)"
  unfolding read_path_def by (intro kp_bnd [OF kp_read_cstr] kp_case kp_fail kp_ret) simp_all

lemma kp_volume:
  assumes "\<And>k x k'. f k = Some (x, k') \<Longrightarrow> k_pt k' = k_pt k \<and> k_shm k' = k_shm k"
  shows "kp st0 A (on_kernel f) (\<lambda>_. A)"
  by (intro kp_kernel fit_same) (use assms in auto)

lemma kp_open_file: "kp st0 A (open_file path fl) (\<lambda>_. A)" "kp st0 A (drop_file h) (\<lambda>_. A)"
  unfolding open_file_def drop_file_def by (rule kp_volume, auto split: bind_splits)+

lemma kpu_fd_result: "kpu st0 A (fd_result e)"
  unfolding fd_result_def
proof (rule kp_bnd [OF kp_proc(1) [where B = A]])
  fix p k x p' k' assume f: "fit (cr3_of st0) A (p, k)" "new_fd e (p, k) = Some (x, p', k')"
  then have "p' = snd (alloc_fd e p)" "k' = k" by (auto simp: new_fd_def split: prod.splits)
  then show "fit (cr3_of st0) A (p', k') \<and> moves (p, k) (p', k')" using fit_same [OF f(1)] by simp
qed (rule kpu_ret)

lemma kpu_openat: "kpu st0 A (linux_openat ptr fl)"
  unfolding linux_openat_def by (intro kp_bnd [OF kp_read_path] kp_bnd [OF kp_open_file(1)] kp_case kpu_fd_result kpu_ret)

lemma kpu_access: "kpu st0 A (linux_access ptr)"
  unfolding linux_access_def by (intro kp_bnd [OF kp_read_path] kp_bnd [OF kp_open_file(1)] kp_bnd [OF kp_open_file(2)] kp_case kpu_ret)

lemma fit_close_fd:
  assumes f: "fit pml4 A (p, k)" and w: "close_fd fd (p, k) = Some (x, p', k')"
  shows "fit pml4 A (p', k') \<and> moves (p, k) (p', k')"
proof -
  consider "p' = p" "k' = k" | e where "fd_drop e k = Some k'" "p' = p\<lparr>p_fds := (p_fds p)[fd := None]\<rparr>"
    using w by (auto simp: close_fd_def split: if_splits option.splits bind_splits)
  then show ?thesis using f fit_fds [OF fit_fd_drop [OF f]] by cases simp_all
qed

lemma kpu_close: "kpu st0 A (linux_close fd)"
  unfolding linux_close_def by (intro kp_case kp_bnd [OF kp_proc(1)] kpu_ret fit_close_fd)

lemma fit_fd_seek: "fit pml4 A (p, k) \<Longrightarrow> fd_seek fd from (p, k) = Some (x, p', k') \<Longrightarrow> fit pml4 A (p', k') \<and> moves (p, k) (p', k')"
  by (rule fit_same) (auto simp: fd_seek_def Let_def split: option.splits fd_entry.splits prod.splits)

lemma kpu_lseek: "kpu st0 A (linux_lseek fd off wh)"
  unfolding linux_lseek_def by (intro kp_case kp_fail kpu_weaken [OF kp_proc(2)] fit_fd_seek)

lemma fit_fd_pread:
  assumes f: "fit pml4 A (p, k)" and a: "(phys, n) \<in> A" and w: "fd_pread fd phys n off (p, k) = Some (x, p', k')"
  shows "fit pml4 A (p', k') \<and> moves (p, k) (p', k')"
proof -
  consider "p' = p" "k' = k" | bs h' where "length bs \<le> n" "p' = fd_set fd (FdFile h') p" "k' = upd_mem (put_bytes (unat phys) bs) k"
    using w by (auto simp: fd_pread_def Let_def dest: vfs_read_length split: option.splits fd_entry.splits bind_splits prod.splits)
  then show ?thesis using f fit_fds [OF fit_poke [OF f a]] by cases simp_all
qed

lemma kpu_pread64: "kpu st0 A (linux_pread64 fd buf n off)"
  unfolding linux_pread64_def
  by (intro kp_case kp_fail kp_bnd [OF kp_resolve_or] kpu_weaken [OF kp_proc(2)] fit_fd_pread; assumption?) simp_all

text \<open>Fields written into one region.\<close>

lemma kp_fields:
  assumes "(a, n) \<in> A"
  shows "8 \<le> n \<Longrightarrow> kp st0 A (poke_u64 a v) (\<lambda>_. A)" "unat d + 8 \<le> n \<Longrightarrow> kp st0 A (poke_u64 (a + d) v) (\<lambda>_. A)"
    "unat d + 4 \<le> n \<Longrightarrow> kp st0 A (poke_u32 (a + d) w) (\<lambda>_. A)"
  unfolding poke_u64_def poke_u32_def by (auto intro: kp_poke [OF assms] kp_poke_at [OF assms])

lemma kpu_write_stat: "kpu st0 A (write_stat buf mode sz ino)"
  unfolding write_stat_def
  by (intro kp_bnd [OF kp_resolve_or] kp_bnd [OF kp_poke] kp_bnd [OF kp_fields(1)] kp_bnd [OF kp_fields(2)] kp_bnd [OF kp_fields(3)] kpu_ret)
     (auto simp: STAT_SIZE_def)

lemma fit_look: "fit pml4 A (p, k) \<Longrightarrow> f (p, k) = Some (x, p', k') \<Longrightarrow> (\<And>p k x p' k'. f (p, k) = Some (x, p', k') \<Longrightarrow> p' = p \<and> k' = k) \<Longrightarrow>
  fit pml4 A (p', k') \<and> moves (p, k) (p', k')"
  by (metis moves_refl)

lemma kp_looks:
  "kp st0 A (proc_flat (fd_stat fd)) (\<lambda>_. A)" "kp st0 A (proc_flat (fd_kind fd)) (\<lambda>_. A)"
  "kp st0 A (proc_flat (fd_shm fd)) (\<lambda>_. A)" "kp st0 A (proc_flat (fd_socket fd)) (\<lambda>_. A)"
  by (intro kp_flat(1) kp_proc(2), erule (1) fit_look, force simp: fd_stat_def fd_kind_def fd_shm_def fd_socket_def)+

lemma kpu_fstat: "kpu st0 A (linux_fstat fd buf)"
  unfolding linux_fstat_def by (intro kp_case kpu_write_stat kp_bnd [OF kp_looks(1)] kpu_ret)

lemma kpu_after:
  assumes "kpu st0 A m" "\<And>e. kpu st0 {} (g e)" "\<And>v. kpu st0 {} (h v)"
  shows "kpu st0 A (\<lambda>s. case m s of None \<Rightarrow> None | Some (Inl e, s') \<Rightarrow> g e s' | Some (Inr v, s') \<Rightarrow> h v s')"
proof (rule kpI)
  fix st r st' assume a: "intact st0 A st" "(case m st of None \<Rightarrow> None | Some (Inl e, s') \<Rightarrow> g e s' | Some (Inr v, s') \<Rightarrow> h v s') = Some (r, st')"
  obtain r1 st1 where r1: "m st = Some (r1, st1)" using a(2) by (cases "m st") auto
  from kpD [OF assms(1) a(1) r1] show "outcome (intact st0 {}) (\<lambda>x. intact st0 {}) r st'"
    using a(2) r1 kpD [OF assms(2)] kpD [OF assms(3)] by (cases r1) auto
qed

lemma kpu_newfstatat: "kpu st0 A (linux_newfstatat dir ptr buf fl)"
  unfolding linux_newfstatat_def Let_def
  by (intro kp_case kpu_fstat kp_bnd [OF kp_read_path] kp_bnd [OF kp_open_file(1)] kp_bnd [OF kpu_after] kp_bnd [OF kp_open_file(2)]
      kpu_write_stat kp_fail kpu_ret)

lemma kpu_call: "kpu st0 A m \<Longrightarrow> kpu st0 A (call m)"
proof (rule kpI)
  fix st r st' assume a: "kpu st0 A m" "intact st0 A st" "call m st = Some (r, st')"
  obtain r1 where r1: "m st = Some (r1, st')" "\<exists>v. r = Inr v" using a(3) by (auto simp: call_def finish_def split: bind_splits)
  from kpD [OF a(1,2) r1(1)] show "outcome (intact st0 {}) (\<lambda>x. intact st0 {}) r st'" using r1(2) by (cases r1) auto
qed

lemma kpu_writev_loop: "kpu st0 {} (writev_loop fd iov n tot)"
proof (induction n arbitrary: iov tot)
  case (Suc n)
  show ?case unfolding writev_loop.simps
    by (intro kp_bnd [OF kp_resolve_or] kp_bnd [OF kp_peek(1)] kp_case kp_bnd [OF kpu_call [OF kpu_linux_write]] kp_fail kpu_any [OF Suc.IH])
qed (simp add: kpu_ret)

lemma kpu_writev: "kpu st0 A (linux_writev fd iov n)"
  unfolding linux_writev_def by (rule kpu_any [OF kpu_writev_loop])

section \<open>Memory, shared memory and sockets\<close>

lemma fit_weaken: "fit pml4 A (p, k) \<Longrightarrow> fit pml4 {} (p, k)"
  by (simp add: fit_def)

lemma kp_vm:
  assumes "\<And>p k. vm_ok (cr3_of st0) p k \<Longrightarrow> stack_ok p \<Longrightarrow> keeps (cr3_of st0) (p, k) (f (p, k))"
  shows "kpu st0 A (proc_or e f)"
proof (rule kp_proc(2))
  fix p k x p' k' assume f: "fit (cr3_of st0) A (p, k)" "f (p, k) = Some (x, p', k')"
  have "good (cr3_of st0) (p, k)" using f(1) by (simp add: fit_def)
  from assms [OF goodD(1,2) [OF this]] show "fit (cr3_of st0) {} (p', k') \<and> moves (p, k) (p', k')"
    by (rule fit_keeps [where f = f, OF f(1) _ f(2)])
qed

lemma kpu_brk: "kpu st0 A (linux_brk addr)"
  unfolding linux_brk_def by (intro kp_cr3 kp_vm brk_keeps)

lemma kpu_munmap:
  assumes "\<And>p. \<not> munmap_hits addr len (stack_map p)"
  shows "kpu st0 A (linux_munmap addr len)"
  unfolding linux_munmap_def by (intro kp_cr3 kp_bnd [OF kp_vm] munmap_keeps kpu_ret assms)

lemma kpu_mprotect: "kpu st0 A (linux_mprotect addr len prot)"
  unfolding linux_mprotect_def by (intro kp_cr3 kp_bnd [OF kp_vm] mprotect_keeps kpu_ret)

lemma kp_content: "kp st0 A (proc_flat (fd_content fd off len)) (\<lambda>_. A)"
proof (intro kp_flat(1) kp_proc(2))
  fix p k x p' k' assume f: "fit (cr3_of st0) A (p, k)" "fd_content fd off len (p, k) = Some (x, p', k')"
  have "k' = k \<and> same_mem (p, k) (p', k)" using f(2)
    by (auto simp: fd_content_def Let_def split: option.splits fd_entry.splits if_splits bind_splits prod.splits)
  then show "fit (cr3_of st0) A (p', k') \<and> moves (p, k) (p', k')" using fit_same [OF f(1)] by simp
qed

lemma kpu_mmap:
  assumes "flags AND MAP_SHARED = 0"
  shows "kpu st0 A (linux_mmap addr len prot flags fd off)"
proof -
  have p: "kpu st0 A (proc_flat_or e (mmap_with_content (cr3_of st0) at len w x c))" for e at w x c
    by (rule kp_flat(2)) (intro kp_vm mmap_with_content_keeps)
  have k: "kpu st0 A (case kind of Some (MmapShm oid) \<Rightarrow> ret (err EINVAL) | Some MmapFile \<Rightarrow> g | None \<Rightarrow> ret (err EBADF))" if "kpu st0 A g" for kind g
    using that by (auto split: option.split mmap_fd_kind.split intro: kpu_ret)
  show ?thesis unfolding linux_mmap_def Let_def mmap_anon_def mmap_file_def assms
    by (simp only: simp_thms if_False) (intro kp_case kp_fail kp_cr3 p kp_bnd [OF kp_looks(2)] k kp_bnd [OF kp_content] kpu_ret)
qed

lemma kp_memfd: "kp st0 A (on_kernel (\<lambda>k. let (oid, sh) = shm_create (k_shm k) in Some (oid, set_shm sh k))) (\<lambda>_. A)"
  by (rule kp_kernel) (auto intro!: fit_shm shm_create_step fit_inv split: prod.splits)

lemma kp_truncate:
  "kp st0 A (on_kernel (\<lambda>k. do { (b, sh) \<leftarrow> shm_truncate oid n (k_shm k); Some (b, set_shm sh k) })) (\<lambda>_. A)"
proof (rule kp_kernel)
  fix p k x k' assume f: "fit (cr3_of st0) A (p, k)" "do { (b, sh) \<leftarrow> shm_truncate oid n (k_shm k); Some (b, set_shm sh k) } = Some (x, k')"
  then obtain b sh where "shm_truncate oid n (k_shm k) = Some (b, sh)" "k' = set_shm sh k" by (auto split: bind_splits)
  then show "fit (cr3_of st0) A (p, k') \<and> moves (p, k) (p, k')" using fit_shm [OF f(1) shm_truncate_step [OF fit_inv [OF f(1)]]] by blast
qed

lemma kpu_memfd: "kpu st0 A linux_memfd_create"
  unfolding linux_memfd_create_def by (rule kp_bnd [OF kp_memfd kpu_fd_result])

lemma kpu_ftruncate: "kpu st0 A (linux_ftruncate fd len)"
  unfolding linux_ftruncate_def by (intro kp_bnd [OF kp_looks(3)] kp_case kp_bnd [OF kp_truncate] kpu_ret)

lemma kp_sock:
  assumes "\<And>s x s'. f s = Some (x, s') \<Longrightarrow> sk_shm s' = sk_shm s"
  shows "kp st0 A (on_sock f) (\<lambda>_. A)"
  unfolding on_sock_def by (rule kp_volume) (use assms in \<open>auto split: bind_splits\<close>)

lemma kpu_socket: "kpu st0 A (linux_socket d ty)"
  unfolding linux_socket_def
  by (intro kp_case kp_fail kp_bnd [OF kp_sock] kpu_fd_result) (auto simp: sock_create_def alloc_endpoint_def Let_def split: prod.splits)

lemma kp_sockaddr: "kp st0 A (read_sockaddr_un addr n) (\<lambda>_. A)"
  unfolding read_sockaddr_un_def Let_def
  by (intro kp_case kp_bnd [OF kp_resolve] kp_resolved kp_bnd [OF kp_pure(3)] kp_ret) auto

lemma kp_socket_or: "kp st0 A (socket_or e fd) (\<lambda>_. A)"
  unfolding socket_or_def by (intro kp_bnd [OF kp_looks(4)] kp_case kp_fail kp_ret) simp

lemma connect_shm: "sk_shm (snd (sock_connect eid path s)) = sk_shm s"
  by (auto simp: sock_connect_def alloc_endpoint_def set_endpoint_def Let_def split: option.split prod.split)

lemma kpu_connect: "kpu st0 A (linux_connect fd addr n)"
  unfolding linux_connect_def
  by (intro kp_bnd [OF kp_sockaddr] kp_case kp_fail kp_bnd [OF kp_socket_or] kp_bnd [OF kp_sock] kpu_ret)
     (use connect_shm in \<open>metis option.inject snd_conv\<close>)

lemma kp_close_objects: "kp st0 A (close_objects ids) (\<lambda>_. A)"
  unfolding close_objects_def
proof (rule kp_kernel)
  fix p k x k' assume f: "fit (cr3_of st0) A (p, k)" "do { k' \<leftarrow> close_all ids k; Some ((), k') } = Some (x, k')"
  then show "fit (cr3_of st0) A (p, k') \<and> moves (p, k) (p, k')" by (intro fit_close_all [OF f(1)]) (auto split: bind_splits)
qed

lemma kp_sub:
  assumes r: "(a, n) \<in> A" "unat d + m \<le> n" and k: "kp st0 (insert (a + d, m) A) f B"
  shows "kp st0 A f B"
proof (rule kpI)
  fix st q st' assume i: "intact st0 A st" and w: "f st = Some (q, st')"
  have "region F (a + d, m)" if "region F (a, n)" for F using region_sub [OF that, of "unat d" m] r(2) by simp
  then have "intact st0 (insert (a + d, m) A) st" using i r(1) unfolding intact_def by blast
  then show "outcome (intact st0 {}) (\<lambda>x. intact st0 (B x)) q st'" by (rule kpD [OF k _ w])
qed

lemma kp_install: "(at, 4 * length ids) \<in> A \<Longrightarrow> kp st0 A (install_fds at ids) (\<lambda>_. A)"
proof (induction ids arbitrary: at A)
  case (Cons i ids)
  have n: "kp st0 A (proc_or 0 (new_fd e)) (\<lambda>_. A)" for A e
  proof (rule kp_proc(2))
    fix p k x p' k' assume f: "fit (cr3_of st0) A (p, k)" "new_fd e (p, k) = Some (x, p', k')"
    then have "p' = snd (alloc_fd e p)" "k' = k" by (auto simp: new_fd_def split: prod.splits)
    then show "fit (cr3_of st0) A (p', k') \<and> moves (p, k) (p', k')" using fit_same [OF f(1)] by simp
  qed
  have "kp st0 (insert (at + 4, 4 * length ids) A) (install_fds (at + 4) ids) (\<lambda>_. insert (at + 4, 4 * length ids) A)"
    by (rule Cons.IH) simp
  then have "kp st0 (insert (at + 4, 4 * length ids) A) (install_fds (at + 4) ids) (\<lambda>_. A)" by (rule kp_weaken) auto
  from kp_sub [OF Cons.prems _ this] have r: "kp st0 A (install_fds (at + 4) ids) (\<lambda>_. A)" by simp
  have "kp st0 A (poke_u32 at w) (\<lambda>_. A)" for w unfolding poke_u32_def by (rule kp_poke [OF Cons.prems]) simp
  then show ?case unfolding install_fds.simps by (intro kp_bnd [OF n] kp_bnd [OF _ r])
qed (simp add: kp_ret)

lemma kpu_deliver: "kp st0 A (deliver_rights ptr cap ids) (\<lambda>_. A)"
proof -
  let ?m = "min ((unat cap - 16) div 4) (length ids)"
  have i: "kp st0 (insert (a, unat cap) A) (install_fds (a + 16) (take ?m ids)) (\<lambda>_. insert (a, unat cap) A)" if c: "16 \<le> cap" for a
  proof (rule kp_sub [where a = a and n = "unat cap"])
    have "16 \<le> unat cap" using c by (simp add: word_le_nat_alt)
    then show "unat (16 :: u64) + 4 * length (take ?m ids) \<le> unat cap" by simp
    show "kp st0 (insert (a + 16, 4 * length (take ?m ids)) (insert (a, unat cap) A)) (install_fds (a + 16) (take ?m ids)) (\<lambda>_. insert (a, unat cap) A)"
      by (rule kp_weaken [OF kp_install [where A = "insert (a + 16, 4 * length (take ?m ids)) (insert (a, unat cap) A)"]]) auto
  qed simp
  have w: "kp st0 (insert (a, unat cap) A) (bnd (poke_u64 a v) (\<lambda>_. bnd (poke_u32 (a + 8) SOL_SOCKET) (\<lambda>_. bnd (poke_u32 (a + 12) SCM_RIGHTS) (\<lambda>_.
      bnd (install_fds (a + 16) (take ?m ids)) (\<lambda>_. bnd (close_objects (drop ?m ids)) (\<lambda>_. ret v)))))) (\<lambda>_. A)" if c: "16 \<le> cap" for a v
    using c by (intro kp_bnd [OF kp_fields(1) [where n = "unat cap"]] kp_bnd [OF kp_fields(3) [where n = "unat cap"]] kp_bnd [OF i] kp_bnd [OF kp_close_objects] kp_ret)
      (auto simp: word_le_nat_alt)
  have n: "kp st0 A (bnd (close_objects ids) (\<lambda>_. ret 0)) (\<lambda>_. A)" by (intro kp_bnd [OF kp_close_objects] kp_ret) simp
  show ?thesis unfolding deliver_rights_def Let_def
  proof (rule kp_bnd [OF kp_resolve])
    fix r show "kp st0 (case r of None \<Rightarrow> A | Some phys \<Rightarrow> insert (phys, unat cap) A)
      (case if ids \<noteq> [] \<and> 16 \<le> cap then r else None of None \<Rightarrow> bnd (close_objects ids) (\<lambda>_. ret 0)
       | Some a \<Rightarrow> bnd (poke_u64 a (16 + of_nat ?m * 4)) (\<lambda>_. bnd (poke_u32 (a + 8) SOL_SOCKET) (\<lambda>_. bnd (poke_u32 (a + 12) SCM_RIGHTS) (\<lambda>_.
          bnd (install_fds (a + 16) (take ?m ids)) (\<lambda>_. bnd (close_objects (drop ?m ids)) (\<lambda>_. ret (16 + of_nat ?m * 4 :: u64))))))) (\<lambda>_. A)"
      using w n kp_drop [OF n] by (cases r) auto
  qed
qed

lemma kp_msg_buffer: "kp st0 A (msg_buffer iov n) (\<lambda>(buf, blen). case buf of None \<Rightarrow> A | Some bp \<Rightarrow> insert (bp, unat blen) A)"
proof -
  have d: "kp st0 (insert x A) (bnd (resolve_user_buffer b l) (\<lambda>d. ret (d, l))) (\<lambda>(buf, blen). case buf of None \<Rightarrow> A | Some bp \<Rightarrow> insert (bp, unat blen) A)" for b l x
  proof (rule kp_bnd [OF kp_resolve])
    fix d show "kp st0 (case d of None \<Rightarrow> insert x A | Some phys \<Rightarrow> insert (phys, unat l) (insert x A)) (ret (d, l))
      (\<lambda>(buf, blen). case buf of None \<Rightarrow> A | Some bp \<Rightarrow> insert (bp, unat blen) A)"
      by (rule kp_ret) (auto split: option.split)
  qed
  show ?thesis unfolding msg_buffer_def by (intro kp_case kp_bnd [OF kp_resolve] kp_resolved kp_bnd [OF kp_peek(1)] d kp_ret) auto
qed

lemma kp_sock_recv: "kp st0 A (on_sock (\<lambda>s. Some (sock_recv eid n s))) (\<lambda>_. A)"
  by (rule kp_sock) (use sock_recv_plain in fastforce)

lemma sock_recv_length: "on_sock (\<lambda>s. Some (sock_recv eid n s)) st = Some (Inr x, st') \<Longrightarrow> length (fst x) \<le> n"
  by (cases x) (auto simp: on_sock_def on_kernel_def on_sk_def dest: sock_recv_plain split: bind_splits prod.splits)

lemma kpu_recvmsg: "kpu st0 A (linux_recvmsg fd msg)"
proof -
  have t: "kpu st0 B (bnd (deliver_rights c l ids) (\<lambda>v. bnd (poke_u64 (m + 40) v) (\<lambda>_. ret w)))" if "(m, 56) \<in> B" for m B c l ids w
    by (intro kp_bnd [OF kpu_deliver] kp_bnd [OF kp_fields(2) [OF that]] kpu_ret) simp
  have b: "kpu st0 (case q of (buf, blen) \<Rightarrow> case buf of None \<Rightarrow> B | Some bp \<Rightarrow> insert (bp, unat blen) B)
     (case q of (buf, blen) \<Rightarrow>
       bnd (on_sock (\<lambda>s. Some (sock_recv eid (case buf of None \<Rightarrow> 0 | Some _ \<Rightarrow> unat blen) s))) (\<lambda>(bs, ids).
       bnd (case buf of None \<Rightarrow> ret () | Some bp \<Rightarrow> poke_bytes bp bs) (\<lambda>_.
       bnd (deliver_rights c l ids) (\<lambda>v. bnd (poke_u64 (m + 40) v) (\<lambda>_. ret (of_nat (length bs)))))))"
    if B: "(m, 56) \<in> B" for q B c l m eid
  proof (cases q)
    case (Pair buf blen)
    show ?thesis unfolding Pair prod.case
    proof (cases buf)
      case None
      show "kpu st0 (case buf of None \<Rightarrow> B | Some bp \<Rightarrow> insert (bp, unat blen) B)
       (bnd (on_sock (\<lambda>s. Some (sock_recv eid (case buf of None \<Rightarrow> 0 | Some _ \<Rightarrow> unat blen) s))) (\<lambda>(bs, ids).
       bnd (case buf of None \<Rightarrow> ret () | Some bp \<Rightarrow> poke_bytes bp bs) (\<lambda>_.
       bnd (deliver_rights c l ids) (\<lambda>v. bnd (poke_u64 (m + 40) v) (\<lambda>_. ret (of_nat (length bs)))))))"
        unfolding None option.case
        by (intro kp_bnd [OF kp_sock_recv] kp_case kp_bnd [OF kp_ret [where B = "\<lambda>_. B"]] t B) simp
    next
      case (Some bp)
      show "kpu st0 (case buf of None \<Rightarrow> B | Some bp \<Rightarrow> insert (bp, unat blen) B)
       (bnd (on_sock (\<lambda>s. Some (sock_recv eid (case buf of None \<Rightarrow> 0 | Some _ \<Rightarrow> unat blen) s))) (\<lambda>(bs, ids).
       bnd (case buf of None \<Rightarrow> ret () | Some bp \<Rightarrow> poke_bytes bp bs) (\<lambda>_.
       bnd (deliver_rights c l ids) (\<lambda>v. bnd (poke_u64 (m + 40) v) (\<lambda>_. ret (of_nat (length bs)))))))"
        unfolding Some option.case
      proof (rule kp_bnd_fact [OF kp_sock_recv, where Q = "\<lambda>x. length (fst x) \<le> unat blen"], erule sock_recv_length)
        fix x :: "u8 list \<times> usize list" assume l: "length (fst x) \<le> unat blen"
        show "kpu st0 (insert (bp, unat blen) B) (case x of (bs, ids) \<Rightarrow> bnd (poke_bytes bp bs) (\<lambda>_.
            bnd (deliver_rights c l ids) (\<lambda>v. bnd (poke_u64 (m + 40) v) (\<lambda>_. ret (of_nat (length bs))))))"
          using l B by (cases x) (auto intro!: kp_bnd [OF kp_poke [where n = "unat blen"]] t)
      qed
    qed
  qed
  show ?thesis unfolding linux_recvmsg_def
    by (intro kp_bnd [OF kp_resolve_or] kp_bnd [OF kp_socket_or] kp_bnd [OF kp_pure(1)] kp_case(1) kp_fail kp_bnd [OF kp_peek(1)]
        kp_bnd [OF kp_msg_buffer] b) simp
qed

text \<open>The last operation of a call may leave the bound on the reference counts behind.\<close>

definition kf :: "os \<Rightarrow> (u64 \<times> nat) set \<Rightarrow> 'a sop \<Rightarrow> bool" where
  "kf st0 A m \<longleftrightarrow> (\<forall>st r st'. intact st0 A st \<longrightarrow> m st = Some (r, st') \<longrightarrow> fin st0 st')"

lemma kf_kp: "kp st0 A m B \<Longrightarrow> kf st0 A m"
proof -
  assume "kp st0 A m B"
  moreover have "outcome (intact st0 {}) (\<lambda>x. intact st0 (B x)) r st' \<Longrightarrow> fin st0 st'" for r st'
    by (cases r) (auto intro: intact_fin)
  ultimately show ?thesis unfolding kf_def by (meson kpD)
qed

lemma kf_bnd:
  assumes m: "kp st0 A m B" "\<And>st x st'. m st = Some (Inr x, st') \<Longrightarrow> Q x" and f: "\<And>x. Q x \<Longrightarrow> kf st0 (B x) (f x)"
  shows "kf st0 A (bnd m f)"
  unfolding kf_def
proof (intro allI impI)
  fix st r st' assume a: "intact st0 A st" "bnd m f st = Some (r, st')"
  obtain r1 st1 where r1: "m st = Some (r1, st1)" using a(2) by (cases "m st") (auto simp: bnd_def)
  show "fin st0 st'"
  proof (cases r1)
    case (Inl e)
    then show ?thesis using kpD [OF m(1) a(1) r1] a(2) r1 by (auto simp: bnd_def intro: intact_fin)
  next
    case (Inr x)
    then show ?thesis using kpD [OF m(1) a(1) r1] a(2) r1 f [OF m(2)] by (auto simp: bnd_def kf_def)
  qed
qed

lemma msg_fds_length: "msg_fds at n st = Some (Inr ids, st') \<Longrightarrow> length ids \<le> n"
proof (induction n arbitrary: at ids st st')
  case (Suc n)
  then obtain st1 ids' where "msg_fds (at + 4) n st1 = Some (Inr ids', st')" "length ids \<le> Suc (length ids')"
    by (auto simp: bnd_def ret_def split: bind_splits sum.splits prod.splits option.splits)
  then show ?case using Suc.IH [of "at + 4" st1 ids' st'] by simp
qed (simp add: ret_def)

lemma msg_rights_length: "msg_rights ptr n st = Some (Inr ids, st') \<Longrightarrow> length ids \<le> 2 ^ 62"
proof -
  assume a: "msg_rights ptr n st = Some (Inr ids, st')"
  have c: "ids = [] \<or> (\<exists>at l st1. msg_fds at ((unat (l :: u64) - 16) div 4) st1 = Some (Inr ids, st'))"
    using a unfolding msg_rights_def
    by (auto simp: bnd_def ret_def split: if_splits bind_splits sum.splits prod.splits option.splits)
  have b: "(unat l - 16) div 4 \<le> 2 ^ 62" for l :: u64
    using unsigned_less [of l, where ?'a = nat] by simp
  from c show "length ids \<le> 2 ^ 62"
  proof (elim disjE exE)
    fix at l st1 assume "msg_fds at ((unat (l :: u64) - 16) div 4) st1 = Some (Inr ids, st')"
    then show ?thesis by (rule order_trans [OF msg_fds_length b])
  qed simp
qed

lemma kp_msg_fds: "kp st0 A (msg_fds at n) (\<lambda>_. A)"
proof (induction n arbitrary: at)
  case (Suc n)
  show ?case unfolding msg_fds.simps by (intro kp_bnd [OF kp_peek(2)] kp_bnd [OF kp_looks(3)] kp_bnd [OF Suc.IH] kp_ret) simp
qed (simp add: kp_ret)

lemma kp_msg_rights: "kp st0 A (msg_rights ptr n) (\<lambda>_. A)"
  unfolding msg_rights_def
  by (intro kp_case kp_bnd [OF kp_resolve] kp_resolved kp_bnd [OF kp_peek(1)] kp_bnd [OF kp_peek(2)] kp_drop [OF kp_msg_fds] kp_ret) auto

lemma kp_msg_bytes: "kp st0 A (msg_bytes iov n) (\<lambda>_. A)"
  unfolding msg_bytes_def
  by (intro kp_case kp_bnd [OF kp_resolve] kp_resolved kp_bnd [OF kp_peek(1)] kp_ret kp_weaken [OF kp_pure(3)]) auto

lemma sock_send_shm:
  assumes inv: "shm_inv (sk_shm s)" "refs_small (sk_shm s)" and l: "length ids \<le> 2 ^ 62" and w: "sock_send eid bytes ids s = Some (r, s')"
  shows "shm_keeps (sk_shm s) (sk_shm s')" "b div 4096 \<notin> avail (sh_pmm (sk_shm s)) \<union> owned (sk_shm s) \<Longrightarrow> sh_mem (sk_shm s') b = sh_mem (sk_shm s) b"
proof -
  let ?d = "fold shm_dup ids (sk_shm s)"
  have "sm_refcount obj < 2 ^ 63" if "slot (sh_table (sk_shm s)) i = Some obj" for i obj using inv(2) that by (auto simp: refs_small_def)
  then have "sm_refcount obj + length ids < 2 ^ 64" if "slot (sh_table (sk_shm s)) i = Some obj" for i obj using that l by fastforce
  then have D: "shm_keeps (sk_shm s) ?d \<and> sh_mem ?d = sh_mem (sk_shm s)" by (rule dup_list_keeps [OF inv(1)])
  have di: "shm_inv ?d" using D by (simp add: shm_keeps_def)
  consider "s' = s" | "sk_shm s' = ?d" | "for_each shm_close ids ?d = Some (sk_shm s')"
    using w by (auto simp: sock_send_def Let_def set_endpoint_def split: option.splits bind_splits)
  then have "shm_keeps (sk_shm s) (sk_shm s') \<and> (\<forall>b. b div 4096 \<notin> avail (sh_pmm (sk_shm s)) \<union> owned (sk_shm s) \<longrightarrow> sh_mem (sk_shm s') b = sh_mem (sk_shm s) b)"
  proof cases
    case 3
    have c: "shm_step ?d (sk_shm s')" by (rule close_list_step [OF di 3])
    have e: "avail (sh_pmm ?d) \<union> owned ?d = avail (sh_pmm (sk_shm s)) \<union> owned (sk_shm s)" "sh_mem ?d = sh_mem (sk_shm s)" using D by (simp_all add: shm_keeps_def)
    have "shm_keeps ?d (sk_shm s')" "\<And>b. b div 4096 \<notin> avail (sh_pmm ?d) \<union> owned ?d \<Longrightarrow> sh_mem (sk_shm s') b = sh_mem ?d b"
      using c by (simp_all add: shm_step_def)
    then show ?thesis unfolding e using D shm_keeps_trans by blast
  qed (use D inv(1) shm_keeps_refl in auto)
  then show "shm_keeps (sk_shm s) (sk_shm s')" "b div 4096 \<notin> avail (sh_pmm (sk_shm s)) \<union> owned (sk_shm s) \<Longrightarrow> sh_mem (sk_shm s') b = sh_mem (sk_shm s) b" by blast+
qed

lemma kf_send:
  assumes "length ids \<le> 2 ^ 62"
  shows "kf st0 A (bnd (on_sock (sock_send eid bytes ids)) (\<lambda>r. ret (g r)))"
  unfolding kf_def
proof (intro allI impI)
  fix st r st' assume i: "intact st0 A st" and w: "bnd (on_sock (sock_send eid bytes ids)) (\<lambda>r. ret (g r)) st = Some (r, st')"
  obtain x s where s: "sock_send eid bytes ids (k_sock (os_kern st)) = Some (x, s)" "st' = st\<lparr>os_kern := (os_kern st)\<lparr>k_sock := s\<rparr>\<rparr>"
    using w by (auto simp: bnd_def ret_def on_sock_def on_kernel_def on_sk_def split: bind_splits)
  obtain pml4 p0 p where I: "bystanders st0 st" "runs_as st0 pml4 p0" "runs_as st pml4 p" "good pml4 (p, os_kern st)"
      "moves (p0, os_kern st0) (p, os_kern st)" "refs_small (k_shm (os_kern st))"
    using i by (auto simp: intact_def)
  note S = sock_send_shm [OF goodD(3) [OF I(4)] I(6) assms s(1)]
  have g1: "good pml4 (p, set_shm (sk_shm s) (os_kern st))" "moves (p, os_kern st) (p, set_shm (sk_shm s) (os_kern st))"
    using shm_good [OF I(4) S] by blast+
  have "same_mem (p, set_shm (sk_shm s) (os_kern st)) (p, (os_kern st)\<lparr>k_sock := s\<rparr>)" by (simp add: same_mem_def set_shm_def)
  note g2 = same_mem_good [OF g1(1) this, simplified set_shm_def, simplified]
  have "moves (p0, os_kern st0) (p, (os_kern st)\<lparr>k_sock := s\<rparr>)"
    using I(5) g1(2) g2(2) moves_trans unfolding set_shm_def by blast
  then show "fin st0 st'" using I g2(1) unfolding fin_def s(2)
    by (intro conjI exI [of _ pml4] exI [of _ p0] exI [of _ p]) (simp_all add: bystanders_def runs_as_def)
qed

lemma kf_sendmsg: "kf st0 A (linux_sendmsg fd msg)"
  unfolding linux_sendmsg_def
  by (rule kf_bnd [OF kp_resolve_or, where Q = "\<lambda>_. True"], simp, rule kf_bnd [OF kp_socket_or, where Q = "\<lambda>_. True"], simp,
      (rule kf_bnd [OF kp_peek(1), where Q = "\<lambda>_. True"], simp)+, rule kf_bnd [OF kp_msg_bytes, where Q = "\<lambda>_. True"], simp,
      rule kf_bnd [OF kp_msg_rights, where Q = "\<lambda>ids. length ids \<le> 2 ^ 62"], erule msg_rights_length, rule kf_send)

section \<open>The remaining calls\<close>

lemma kpu_arch_prctl: "kpu st0 A (linux_arch_prctl code addr)"
  unfolding linux_arch_prctl_def
proof (intro kp_case kp_bnd [OF kp_fs_base] kp_bnd [OF kp_proc(1) [where B = A]] kpu_ret)
  fix p k x p' k' assume f: "fit (cr3_of st0) A (p, k)" "(case (p, k) of (p, k) \<Rightarrow> Some ((), set_fs_base addr p, k)) = Some (x, p', k')"
  then show "fit (cr3_of st0) A (p', k') \<and> moves (p, k) (p', k')" using fit_same [OF f(1)] by auto
qed

lemma kp_write_field:
  assumes "(phys, 390) \<in> A" "i < 6" "length s \<le> 65"
  shows "kp st0 A (write_field phys i s) (\<lambda>_. A)"
proof -
  have "unat (of_nat (65 * i) :: u64) = 65 * i" using assms(2) by (simp add: unat_of_nat del: of_nat_mult)
  then show ?thesis unfolding write_field_def UNAME_FIELD_def
    using assms by (intro kp_bnd [OF kp_poke_at [OF assms(1)]] kp_poke_at [OF assms(1)]) (auto simp: ascii_def)
qed

lemma kpu_uname: "kpu st0 A (linux_uname buf)"
  unfolding linux_uname_def
  by (intro kp_bnd [OF kp_resolve_or] kp_bnd [OF kp_write_field] kpu_ret) (simp_all add: UNAME_FIELD_def)

lemma random_length: "length (random_from seed i n) = n"
  by (induction n arbitrary: seed i) (simp_all add: Let_def)

lemma kpu_getrandom: "kpu st0 A (linux_getrandom buf n)"
  unfolding linux_getrandom_def
  by (intro kp_bnd [OF kp_resolve_or] kp_bnd [OF kp_pure(1)] kp_bnd [OF kp_poke] kpu_ret) (auto simp: random_length)

lemma kpu_clock: "kpu st0 A (linux_clock_gettime ts)"
  unfolding linux_clock_gettime_def
  by (intro kp_bnd [OF kp_resolve_or] kp_bnd [OF kp_pure(1)] kp_bnd [OF kp_fields(1)] kp_bnd [OF kp_fields(2)] kpu_ret) auto

lemma kpu_futex: "kpu st0 A (linux_futex u f v)"
  unfolding linux_futex_def by (intro kp_case kp_bnd [OF kp_resolve_or] kp_bnd [OF kp_peek(2)] kpu_ret)

lemma kpu_prlimit64: "kpu st0 A (linux_prlimit64 old)"
  unfolding linux_prlimit64_def
  by (intro kp_case kp_bnd [OF kp_resolve_or] kp_bnd [OF kp_fields(1)] kp_bnd [OF kp_fields(2)] kpu_ret) auto

lemma kpu_getaffinity: "kpu st0 A (linux_sched_getaffinity n ptr)"
proof -
  have b: "kp st0 (insert (a, unat n) A) (if 1 \<le> n then poke_bytes a [1] else ret ()) (\<lambda>_. insert (a, unat n) A)" for a
    by (intro kp_case kp_poke [where n = "unat n"] kp_ret) (auto simp: word_le_nat_alt)
  show ?thesis unfolding linux_sched_getaffinity_def
    by (intro kp_bnd [OF kp_resolve_or] kp_bnd [OF kp_poke] kp_bnd [OF b] kpu_ret) auto
qed

lemma kpu_sysinfo: "kpu st0 A (linux_sysinfo info)"
  unfolding linux_sysinfo_def
  by (intro kp_bnd [OF kp_resolve_or] kp_bnd [OF kp_poke] kp_bnd [OF kp_pure(1)] kp_bnd [OF kp_pure(2)] kp_bnd [OF kp_fields(1)]
      kp_bnd [OF kp_fields(2)] kp_bnd [OF kp_fields(3)] kpu_ret) (auto simp: SYSINFO_SIZE_def)

lemma kpu_getpid: "kpu st0 A getpid"
  unfolding getpid_def by (rule kpu_weaken [OF kp_pure(1)])

lemma kpu_unknown: "kpu st0 A (unknown_syscall num)"
  unfolding unknown_syscall_def by (intro kp_bnd [OF kp_pure(4)] kpu_ret)

lemmas kpu_handlers = kpu_linux_read kpu_linux_write kpu_close kpu_fstat kpu_lseek kpu_access kpu_pread64 kpu_mmap kpu_mprotect kpu_munmap
  kpu_brk kpu_writev kpu_getpid kpu_uname kpu_arch_prctl kpu_clock kpu_openat kpu_newfstatat kpu_getrandom kpu_futex kpu_prlimit64
  kpu_getaffinity kpu_sysinfo kpu_memfd kpu_ftruncate kpu_socket kpu_connect kpu_recvmsg kpu_unknown kpu_ret

section \<open>Every call\<close>

text \<open>The calls the isolation rests on: no shared mapping is made, and the stack is not unmapped.\<close>

definition gentle :: "u64 \<Rightarrow> u64 \<Rightarrow> u64 \<Rightarrow> u64 \<Rightarrow> bool" where
  "gentle num arg1 arg2 arg4 \<longleftrightarrow> (num = LINUX_SYS_MMAP \<longrightarrow> arg4 AND MAP_SHARED = 0)
     \<and> (num = LINUX_SYS_MUNMAP \<longrightarrow> (\<forall>p. \<not> munmap_hits arg1 arg2 (stack_map p)))"

lemma kf_if: "\<lbrakk>c \<Longrightarrow> kf st0 A m; \<not> c \<Longrightarrow> kf st0 A m'\<rbrakk> \<Longrightarrow> kf st0 A (if c then m else m')"
  by simp

lemma kf_linux:
  assumes "gentle num a1 a2 a4"
  shows "kf st0 A (linux_dispatch num a1 a2 a3 a4 a5 a6)"
  unfolding linux_dispatch_def linux_rseq_def
  by (intro kf_if kf_sendmsg kf_kp [OF kpu_ret] kpu_handlers [THEN kf_kp]) (use assms in \<open>simp_all add: gentle_def\<close>)

lemma dispatch_fin:
  assumes i: "intact st {} st" and g: "gentle num a1 a2 a4" and d: "syscall_dispatch num a1 a2 a3 a4 a5 a6 st = Some (v, st')"
  shows "fin st st'"
proof -
  have "kf st {} (bnd (panics (\<lambda>st. current_process_abi (os_sched st))) (\<lambda>ab.
       if ab = Some AbiLinux then linux_dispatch num a1 a2 a3 a4 a5 a6 else native_dispatch num a1 a2 a3))"
    by (rule kf_bnd [OF kp_pure(2), where Q = "\<lambda>_. True"], simp) (intro kf_if kf_linux [OF g] kf_kp [OF kpu_native])
  then show ?thesis using i d unfolding kf_def syscall_dispatch_def finish_def by (auto split: bind_splits)
qed

section \<open>All processes\<close>

text \<open>The running task is a process; the memory of every process is in good order, and no two processes, no
  process and the shared objects have frames in common.\<close>

definition proc_at :: "os \<Rightarrow> nat \<Rightarrow> process option" where
  "proc_at st i = (if i < length (tasks_of st) then t_process (tasks_of st ! i) else None)"

definition os_ok :: "os \<Rightarrow> bool" where
  "os_ok st \<longleftrightarrow> proc_at st (cur_of st) \<noteq> None \<and> shm_inv (k_shm (os_kern st))
     \<and> (\<forall>i q. proc_at st i = Some q \<longrightarrow> vm_ok (t_cr3 (tasks_of st ! i)) q (os_kern st) \<and> stack_ok q \<and> owned (k_shm (os_kern st)) \<inter> own q = {})
     \<and> (\<forall>i j q q'. i \<noteq> j \<longrightarrow> proc_at st i = Some q \<longrightarrow> proc_at st j = Some q' \<longrightarrow> own q \<inter> own q' = {})"

lemma os_okD:
  assumes "os_ok st"
  shows "shm_inv (k_shm (os_kern st))" "proc_at st i = Some q \<Longrightarrow> vm_ok (t_cr3 (tasks_of st ! i)) q (os_kern st)" "proc_at st i = Some q \<Longrightarrow> stack_ok q"
    "proc_at st i = Some q \<Longrightarrow> owned (k_shm (os_kern st)) \<inter> own q = {}"
    "i \<noteq> j \<Longrightarrow> proc_at st i = Some q \<Longrightarrow> proc_at st j = Some q' \<Longrightarrow> own q \<inter> own q' = {}"
  using assms unfolding os_ok_def by blast+

lemma runs_proc: "runs_as st pml4 p \<longleftrightarrow> proc_at st (cur_of st) = Some p \<and> pml4 = cr3_of st"
  by (auto simp: runs_as_def proc_at_def split: if_splits)

lemma os_ok_good: "os_ok st \<Longrightarrow> \<exists>p. runs_as st (cr3_of st) p \<and> good (cr3_of st) (p, os_kern st)"
  unfolding os_ok_def good_def runs_proc by auto

lemma other_still:
  assumes ok: "vm_ok pml4 q k" and dis: "own q \<inter> pool p k = {}" and mv: "moves (p, k) (p', k')" and inv: "pmm_inv (k_pmm k')"
  shows "vm_ok pml4 q k'"
proof -
  note F = vm_frames [OF ok]
  have M: "pool p' k' = pool p k" "pmm_managed (k_pmm k') = pmm_managed (k_pmm k)" "\<And>b. b div 4096 \<notin> pool p k \<Longrightarrow> k_pt k' b = k_pt k b"
    using mv by (simp_all add: moves_def)
  have av: "avail (k_pmm k') \<inter> own q = {}" using dis M(1) unfolding pool_def by blast
  have ag: "k_pt k' b = k_pt k b" if "b div 4096 \<in> tbl_frames (k_pt k) (unat pml4)" for b using M(3) that F(5) dis by blast
  have "avail (k_pmm k') \<inter> tbl_frames (k_pt k) (unat pml4) = {}" using av F(5) by blast
  note T = tables_agree [where m' = "k_pt k'", OF F(2) ag this]
  have sm: "small_at (unat pml4) (mmu_of k') = small_at (unat pml4) (mmu_of k)" by (rule ext) (simp only: small_at_def mmu_of_sel T(2))
  have "frames_ok pml4 q k'" using ok T(1,3) av inv M(2) unfolding vm_ok_def frames_ok_def pt_state_def mmu_of_sel by auto
  moreover have T3: "tbl_frames (k_pt k') (unat pml4) = tbl_frames (k_pt k) (unat pml4)" by (rule T)
  have "maps_ok pml4 q k'" using ok unfolding vm_ok_def maps_ok_def T3 sm by blast
  moreover have "pages_ok pml4 q k'" using ok T(4) unfolding vm_ok_def pages_ok_def loose_def T3 sm by simp
  ultimately show ?thesis by (simp add: vm_ok_def)
qed

lemma quiet_proc:
  assumes "quiet t = quiet t0" "t_process t = Some q"
  shows "t_cr3 t = t_cr3 t0" "\<exists>q0. t_process t0 = Some q0 \<and> q\<lparr>p_inbox := None\<rparr> = q0\<lparr>p_inbox := None\<rparr>"
proof -
  have "t_cr3 (quiet t) = t_cr3 (quiet t0)" "t_process (quiet t) = t_process (quiet t0)" using assms(1) by simp_all
  then have e: "t_cr3 t = t_cr3 t0" "Some (q\<lparr>p_inbox := None\<rparr>) = map_option (p_inbox_update (\<lambda>_. None)) (t_process t0)"
    using assms(2) by (simp_all add: quiet_def)
  then show "t_cr3 t = t_cr3 t0" "\<exists>q0. t_process t0 = Some q0 \<and> q\<lparr>p_inbox := None\<rparr> = q0\<lparr>p_inbox := None\<rparr>"
    by (simp, cases "t_process t0") simp_all
qed

lemma inbox_same:
  assumes "q\<lparr>p_inbox := None\<rparr> = q0\<lparr>p_inbox := None\<rparr>"
  shows "own q = own q0" "stack_ok q = stack_ok q0" "vm_ok pml4 q0 k \<Longrightarrow> vm_ok pml4 q k"
proof -
  have s: "p_frames q = p_frames q0" "p_mappings q = p_mappings q0" "p_stack_phys_base q = p_stack_phys_base q0" "p_stack_low q = p_stack_low q0"
    using arg_cong [OF assms, of p_frames] arg_cong [OF assms, of p_mappings] arg_cong [OF assms, of p_stack_phys_base]
      arg_cong [OF assms, of p_stack_low] by simp_all
  show "own q = own q0" by (simp add: own_def s)
  show "stack_ok q = stack_ok q0" by (simp add: stack_ok_def stack_map_def s)
  show "vm_ok pml4 q0 k \<Longrightarrow> vm_ok pml4 q k" by (erule vm_ok_cong) (simp_all add: s)
qed

lemma fin_ok:
  assumes ok: "os_ok st" and f: "fin st st'"
  shows "os_ok st'"
proof -
  obtain p p' where P: "runs_as st (cr3_of st) p" "runs_as st' (cr3_of st) p'" "good (cr3_of st) (p', os_kern st')" "moves (p, os_kern st) (p', os_kern st')"
    and B: "bystanders st st'" using f by (auto simp: fin_def runs_as_def)
  have at: "proc_at st (cur_of st) = Some p" "proc_at st' (cur_of st') = Some p'" "cr3_of st = cr3_of st'" and cur: "cur_of st' = cur_of st"
    using P(1,2) B by (simp_all add: runs_proc bystanders_def)
  note G = goodD [OF P(3)]
  have pl: "pool p' (os_kern st') = pool p (os_kern st)" using P(4) by (simp add: moves_def)
  have other: "vm_ok (t_cr3 (tasks_of st' ! i)) q (os_kern st') \<and> stack_ok q \<and> own q \<inter> pool p' (os_kern st') = {} \<and> (\<exists>q0. proc_at st i = Some q0 \<and> own q = own q0)"
    if i: "i \<noteq> cur_of st" and q: "proc_at st' i = Some q" for i q
  proof -
    have l: "i < length (tasks_of st)" "length (tasks_of st') = length (tasks_of st)" "t_process (tasks_of st' ! i) = Some q" "quiet (tasks_of st' ! i) = quiet (tasks_of st ! i)"
      using q i B by (auto simp: proc_at_def bystanders_def split: if_splits)
    obtain q0 where q0: "t_cr3 (tasks_of st' ! i) = t_cr3 (tasks_of st ! i)" "t_process (tasks_of st ! i) = Some q0" "q\<lparr>p_inbox := None\<rparr> = q0\<lparr>p_inbox := None\<rparr>"
      using quiet_proc [OF l(4,3)] by blast
    have a0: "proc_at st i = Some q0" using l(1) q0(2) by (simp add: proc_at_def)
    note S = inbox_same [OF q0(3)]
    have "own q0 \<inter> own p = {}" by (rule os_okD(5) [OF ok i a0 at(1)])
    moreover have "own q0 \<inter> avail (k_pmm (os_kern st)) = {}" using vm_frames(4) [OF os_okD(2) [OF ok a0]] .
    ultimately have d: "own q0 \<inter> pool p (os_kern st) = {}" using os_okD(4) [OF ok a0] unfolding pool_def by blast
    have "vm_ok (t_cr3 (tasks_of st ! i)) q0 (os_kern st')"
      by (rule other_still [OF os_okD(2) [OF ok a0] d P(4) vm_frames(1) [OF G(1)]])
    then show ?thesis using S d pl os_okD(3) [OF ok a0] a0 by (simp add: q0(1))
  qed
  have mine: "q = p'" if "proc_at st' (cur_of st) = Some q" for q using that at(2) cur by simp
  have each: "vm_ok (t_cr3 (tasks_of st' ! i)) q (os_kern st') \<and> stack_ok q \<and> owned (k_shm (os_kern st')) \<inter> own q = {}" if q: "proc_at st' i = Some q" for i q
  proof (cases "i = cur_of st")
    case True
    then show ?thesis using G mine q at(3) cur by simp
  next
    case False
    then show ?thesis using other [OF False q] by (auto simp: pool_def)
  qed
  have pair: "own q \<inter> own q' = {}" if ij: "i \<noteq> j" and q: "proc_at st' i = Some q" and q': "proc_at st' j = Some q'" for i j q q'
  proof -
    consider (i) "i = cur_of st" "j \<noteq> cur_of st" | (j) "j = cur_of st" "i \<noteq> cur_of st" | (n) "i \<noteq> cur_of st" "j \<noteq> cur_of st" using ij by blast
    then show ?thesis
    proof cases
      case i
      then show ?thesis using other [OF i(2) q'] mine q by (auto simp: pool_def)
    next
      case j
      then show ?thesis using other [OF j(2) q] mine q' by (auto simp: pool_def)
    next
      case n
      obtain r where r: "proc_at st i = Some r" "own q = own r" using other [OF n(1) q] by blast
      obtain r' where r': "proc_at st j = Some r'" "own q' = own r'" using other [OF n(2) q'] by blast
      show ?thesis unfolding r(2) r'(2) by (rule os_okD(5) [OF ok ij r(1) r'(1)])
    qed
  qed
  have "proc_at st' (cur_of st') \<noteq> None" using at(2) by simp
  then show ?thesis using G(3) each pair unfolding os_ok_def by blast
qed

text \<open>What a call of the running process may touch: free frames, those of shared objects and its own.\<close>

definition may_touch :: "os \<Rightarrow> nat set" where
  "may_touch st = (case proc_at st (cur_of st) of None \<Rightarrow> {} | Some p \<Rightarrow> pool p (os_kern st))"


definition demo_task :: "u64 \<Rightarrow> process option \<Rightarrow> task" where
  "demo_task cr3 p = \<lparr>t_rsp = 0, t_stack = None, t_name = ''task'', t_cr3 = cr3, t_kernel_stack_top = 0, t_ring3_kernel_rsp = 0, t_process = p\<rparr>"

definition demo_os :: os where
  "demo_os = \<lparr>os_sched = \<lparr>s_tasks = [demo_task 4096 None, demo_task 4096 (Some demo_proc)], s_current = 1, s_cpu = demo_cpu,
       s_cr3 = 4096, s_fs_base = 0, s_rsp0 = 0\<rparr>,
     os_kern = demo_kern, os_kbd = kbd_boot, os_ticks = 250, os_console = [], os_write_count = 0\<rparr>"

lemma demo_at: "proc_at demo_os i = (if i = Suc 0 then Some demo_proc else None)" "tasks_of demo_os ! Suc 0 = demo_task 4096 (Some demo_proc)"
    "cur_of demo_os = Suc 0" "os_kern demo_os = demo_kern"
  by (auto simp: proc_at_def demo_os_def demo_task_def less_Suc_eq)

lemma demo_os_ok: "os_ok demo_os" "refs_small (k_shm (os_kern demo_os))"
proof -
  have t: "sh_table (k_shm demo_kern) = []" "sh_pmm (k_shm demo_kern) = demo_pmm" by (simp_all add: demo_kern_def)
  have "owned (k_shm demo_kern) = {}" "shm_inv (k_shm demo_kern)" by (auto simp: owned_def ran_def slot_def shm_inv_def t demo_avail)
  then show "os_ok demo_os" using demo_ok by (auto simp: os_ok_def demo_at demo_task_def split: if_splits)
  show "refs_small (k_shm (os_kern demo_os))" by (simp add: refs_small_def slot_def demo_at t)
qed

lemma demo_clock: "\<exists>st'. syscall_dispatch LINUX_SYS_CLOCK_GETTIME 1 0xFF00100 0 0 0 0 demo_os = Some (0, st')"
proof -
  have s: "current_process_abi (os_sched demo_os) = Some (Some AbiLinux)" "current_is_process (os_sched demo_os)" "current_pid (os_sched demo_os) = Suc 0"
    "translate (Suc 0) 0xFF00100 16 (os_sched demo_os) = Some 0x8100"
    by (simp_all add: demo_os_def demo_task_def demo_proc_def current_process_abi_def current_is_process_def current_pid_def index_def
        translate_def process_mappings_def process_of_def find_mapping_def checked_add_def process_consts unat_word_ariths)
  show ?thesis
    by (simp add: syscall_dispatch_def finish_def bnd_def panics_def ret_def gets_def linux_dispatch_def linux_nums linux_clock_gettime_def resolve_or_def
        resolve_user_buffer_def on_sk_def resolve_syscall_ptr_def poke_u64_def poke_bytes_def on_kernel_def s)
qed


end
