(* ===== verification/Mouse.thy ===== *)
theory Mouse
  imports Ring
begin

text \<open>
  \<open>src/src/mouse.rs\<close>: assembling three-byte PS/2 packets into mouse events. The controller handshake of
  \<open>init\<close> is port traffic and not modelled; the byte the data port returns is an argument of the
  interrupt handler. Deltas (\<open>i32\<close>) are integers: they stay within 9 bits.
\<close>

section \<open>Model\<close>

record mouse_event =
  dx :: int
  dy :: int
  left :: bool
  right :: bool
  middle :: bool

definition MOUSE_BUFFER_CAPACITY :: usize where
  "MOUSE_BUFFER_CAPACITY = 64"

definition BLANK_EVENT :: mouse_event where
  "BLANK_EVENT = \<lparr>dx = 0, dy = 0, left = False, right = False, middle = False\<rparr>"

record mouse =
  ms_queue :: "mouse_event ring"
  skip_first_packet :: bool
  pk_bytes :: "u8 list"
  pk_index :: usize

definition mouse_boot :: mouse where
  "mouse_boot = \<lparr>ms_queue = ring_new MOUSE_BUFFER_CAPACITY BLANK_EVENT, skip_first_packet = True,
     pk_bytes = [0, 0, 0], pk_index = 0\<rparr>"

definition mouse_irq :: "u8 \<Rightarrow> mouse \<Rightarrow> mouse exec" where
  "mouse_irq data m =
     (if pk_index m = 0 \<and> data AND 0x08 = 0 then Some m
      else do {
        bytes \<leftarrow> store (pk_bytes m) (pk_index m) data;
        let m1 = m\<lparr>pk_bytes := bytes, pk_index := pk_index m + 1\<rparr>;
        if pk_index m1 < 3 then Some m1
        else do {
          let m2 = m1\<lparr>pk_index := 0\<rparr>;
          b0 \<leftarrow> index bytes 0;
          b1 \<leftarrow> index bytes 1;
          b2 \<leftarrow> index bytes 2;
          let dx1 = (if b0 AND 0x10 \<noteq> 0 then uint b1 - 256 else uint b1);
          let dy1 = (if b0 AND 0x20 \<noteq> 0 then uint b2 - 256 else uint b2);
          if skip_first_packet m2 then Some (m2\<lparr>skip_first_packet := False\<rparr>)
          else do {
            q \<leftarrow> ring_push MOUSE_BUFFER_CAPACITY
                   \<lparr>dx = dx1, dy = - dy1, left = b0 AND 0x01 \<noteq> 0, right = b0 AND 0x02 \<noteq> 0,
                    middle = b0 AND 0x04 \<noteq> 0\<rparr> (ms_queue m2);
            Some (m2\<lparr>ms_queue := q\<rparr>) } } })"

definition mouse_next_event :: "mouse \<Rightarrow> (mouse_event option \<times> mouse) exec" where
  "mouse_next_event m = do { (e, q) \<leftarrow> ring_pop MOUSE_BUFFER_CAPACITY (ms_queue m); Some (e, m\<lparr>ms_queue := q\<rparr>) }"

interpretation ms_fifo: bounded_fifo "ring_ok MOUSE_BUFFER_CAPACITY" "ring_elems MOUSE_BUFFER_CAPACITY"
    "MOUSE_BUFFER_CAPACITY - 1" "ring_push MOUSE_BUFFER_CAPACITY" "ring_pop MOUSE_BUFFER_CAPACITY"
  by (rule ring_bounded_fifo) (simp add: MOUSE_BUFFER_CAPACITY_def)

section \<open>Packets\<close>

definition mouse_inv :: "mouse \<Rightarrow> bool" where
  "mouse_inv m \<longleftrightarrow> ring_ok MOUSE_BUFFER_CAPACITY (ms_queue m) \<and> length (pk_bytes m) = 3 \<and> pk_index m < 3"

text \<open>The device's encoding of a movement: 9-bit two's complement deltas, positive y upwards, the sync
  bit always set.\<close>

definition packet :: "mouse_event \<Rightarrow> u8 list" where
  "packet e = [(if left e then 1 else 0) OR (if right e then 2 else 0) OR (if middle e then 4 else 0) OR 8
                OR (if dx e < 0 then 16 else 0) OR (if dy e > 0 then 32 else 0),
               of_int (dx e), of_int (- dy e)]"

definition in_range :: "mouse_event \<Rightarrow> bool" where
  "in_range e \<longleftrightarrow> - 256 \<le> dx e \<and> dx e \<le> 255 \<and> - 255 \<le> dy e \<and> dy e \<le> 256"

lemma packet_flags:
  fixes l r m x y :: bool
  defines "b \<equiv> (if l then 1 else 0) OR (if r then 2 else 0) OR (if m then 4 else 0) OR 8
                OR (if x then 16 else 0) OR (if y then 32 else 0) :: u8"
  shows "b AND 1 \<noteq> 0 \<longleftrightarrow> l" "b AND 2 \<noteq> 0 \<longleftrightarrow> r" "b AND 4 \<noteq> 0 \<longleftrightarrow> m" "b AND 8 \<noteq> 0" "b AND 16 \<noteq> 0 \<longleftrightarrow> x"
    "b AND 32 \<noteq> 0 \<longleftrightarrow> y"
  unfolding b_def by (cases l; cases r; cases m; cases x; cases y; simp)+

lemma delta_roundtrip:
  assumes "- 256 \<le> d" "d \<le> 255"
  shows "(if d < 0 then uint (of_int d :: u8) - 256 else uint (of_int d :: u8)) = d"
proof (cases "d < 0")
  case True
  have "d mod 256 = (d + 256) mod 256" by simp
  also have "\<dots> = d + 256" using True assms by (intro mod_pos_pos_trivial) auto
  finally show ?thesis using True by (simp add: uint_word_of_int)
next
  case False
  with assms show ?thesis by (simp add: uint_word_of_int)
qed

lemma three_bytes: "length bs = 3 \<Longrightarrow> \<exists>a b c. bs = [a, b, c]"
  by (auto simp: numeral_3_eq_3 length_Suc_conv)

text \<open>Three interrupts on a complete packet, from a packet boundary.\<close>

lemma packet_step:
  assumes inv: "mouse_inv m" and idx: "pk_index m = 0" and run: "\<not> skip_first_packet m" and e: "in_range e"
  shows "\<exists>m'. for_each mouse_irq (packet e) m = Some m' \<and> mouse_inv m' \<and> pk_index m' = 0 \<and> \<not> skip_first_packet m'
    \<and> ring_push MOUSE_BUFFER_CAPACITY e (ms_queue m) = Some (ms_queue m')"
proof -
  from inv obtain p q r where b: "pk_bytes m = [p, q, r]" using three_bytes [of "pk_bytes m"] by (auto simp: mouse_inv_def)
  define b0 :: u8 where "b0 = (if left e then 1 else 0) OR (if right e then 2 else 0) OR (if middle e then 4 else 0) OR 8
                OR (if dx e < 0 then 16 else 0) OR (if dy e > 0 then 32 else 0)"
  note fl = packet_flags [of "left e" "right e" "middle e" "dx e < 0" "dy e > 0", folded b0_def]
  have dxe: "(if b0 AND 16 \<noteq> 0 then uint (of_int (dx e) :: u8) - 256 else uint (of_int (dx e) :: u8)) = dx e"
    using delta_roundtrip [of "dx e"] e fl(5) by (simp add: in_range_def)
  have dye: "(if b0 AND 32 \<noteq> 0 then uint (of_int (- dy e) :: u8) - 256 else uint (of_int (- dy e) :: u8)) = - dy e"
    using delta_roundtrip [of "- dy e"] e fl(6) by (simp add: in_range_def)
  have ev: "\<lparr>dx = dx e, dy = dy e, left = b0 AND 1 \<noteq> 0, right = b0 AND 2 \<noteq> 0, middle = b0 AND 4 \<noteq> 0\<rparr> = e"
    using fl(1-3) by (cases e) simp
  from ms_fifo.push_law [of "ms_queue m" e] inv obtain q' where
    q': "ring_push MOUSE_BUFFER_CAPACITY e (ms_queue m) = Some q'" "ring_ok MOUSE_BUFFER_CAPACITY q'"
    by (auto simp: mouse_inv_def)
  let ?m1 = "m\<lparr>pk_bytes := [b0, q, r], pk_index := 1\<rparr>"
  let ?m2 = "m\<lparr>pk_bytes := [b0, of_int (dx e), r], pk_index := 2\<rparr>"
  let ?m3 = "m\<lparr>pk_bytes := [b0, of_int (dx e), of_int (- dy e)], pk_index := 0, ms_queue := q'\<rparr>"
  have 1: "mouse_irq b0 m = Some ?m1" using b idx fl(4) by (simp add: mouse_irq_def store_def)
  have 2: "mouse_irq (of_int (dx e)) ?m1 = Some ?m2" by (simp add: mouse_irq_def store_def)
  have 3: "mouse_irq (of_int (- dy e)) ?m2 = Some ?m3"
    using run q'(1)
    by (simp add: mouse_irq_def store_def index_def Let_def dxe dye ev del: of_int_minus
        cong: if_cong)
  have "packet e = [b0, of_int (dx e), of_int (- dy e)]" by (simp add: packet_def b0_def)
  with 1 2 3 have "for_each mouse_irq (packet e) m = Some ?m3" by (simp del: of_int_minus)
  with q' run show ?thesis by (intro exI [of _ ?m3]) (simp add: mouse_inv_def)
qed

section \<open>Properties\<close>

text \<open>Every movement arrives. From a packet boundary, once the first packet has been discarded,
  the packets of any list of movements (deltas in the device's 9-bit range, any buttons) put exactly
  these movements into the queue, in order, with the sign of y flipped to screen coordinates, as long
  as the queue has room; the driver ends at a packet boundary again.\<close>

theorem mouse_packets:
  assumes "mouse_inv m" "pk_index m = 0" "\<not> skip_first_packet m" "\<forall>e \<in> set es. in_range e"
    "length (ring_elems MOUSE_BUFFER_CAPACITY (ms_queue m)) + length es \<le> 63"
  shows "\<exists>m'. for_each mouse_irq (concat (map packet es)) m = Some m' \<and> mouse_inv m' \<and> pk_index m' = 0
    \<and> ring_elems MOUSE_BUFFER_CAPACITY (ms_queue m') = ring_elems MOUSE_BUFFER_CAPACITY (ms_queue m) @ es"
  using assms
proof (induction es arbitrary: m)
  case (Cons e es)
  from packet_step [OF Cons.prems(1-3), of e] Cons.prems(4) obtain m1 where m1:
      "for_each mouse_irq (packet e) m = Some m1" "mouse_inv m1" "pk_index m1 = 0" "\<not> skip_first_packet m1"
      "ring_push MOUSE_BUFFER_CAPACITY e (ms_queue m) = Some (ms_queue m1)"
    by auto
  have "ring_elems MOUSE_BUFFER_CAPACITY (ms_queue m1) = ring_elems MOUSE_BUFFER_CAPACITY (ms_queue m) @ [e]"
    using ms_fifo.push_law [of "ms_queue m" e] m1(5) Cons.prems(1,5)
    by (auto simp: mouse_inv_def MOUSE_BUFFER_CAPACITY_def)
  with Cons.IH [OF m1(2-4)] Cons.prems(4,5) m1(1) show ?case by (auto simp: for_each_append)
qed simp

theorem mouse_packets_witness:
  "\<exists>m'. for_each mouse_irq (concat (map packet [\<lparr>dx = -3, dy = 5, left = True, right = False, middle = False\<rparr>]))
          (mouse_boot\<lparr>skip_first_packet := False\<rparr>) = Some m'
     \<and> ring_elems MOUSE_BUFFER_CAPACITY (ms_queue m') = [\<lparr>dx = -3, dy = 5, left = True, right = False, middle = False\<rparr>]"
proof -
  have "ring_ok MOUSE_BUFFER_CAPACITY (ms_queue mouse_boot)" "ring_elems MOUSE_BUFFER_CAPACITY (ms_queue mouse_boot) = []"
    using ring_ok_new [of MOUSE_BUFFER_CAPACITY BLANK_EVENT] by (simp_all add: mouse_boot_def MOUSE_BUFFER_CAPACITY_def)
  then show ?thesis
    using mouse_packets [of "mouse_boot\<lparr>skip_first_packet := False\<rparr>"
        "[\<lparr>dx = -3, dy = 5, left = True, right = False, middle = False\<rparr>]"]
    by (auto simp: mouse_inv_def mouse_boot_def in_range_def)
qed

text \<open>No byte sequence breaks the driver. Every interrupt with any byte returns and keeps the
  invariant (the packet index stays inside the packet buffer), a byte without the sync bit at a packet
  boundary changes nothing, and every event ever queued has its deltas in range.\<close>

theorem mouse_irq_safe:
  assumes "mouse_inv m" "\<forall>e \<in> set (ring_elems MOUSE_BUFFER_CAPACITY (ms_queue m)). in_range e"
  shows "\<exists>m'. mouse_irq b m = Some m' \<and> mouse_inv m'
    \<and> (\<forall>e \<in> set (ring_elems MOUSE_BUFFER_CAPACITY (ms_queue m')). in_range e)
    \<and> (pk_index m = 0 \<and> b AND 0x08 = 0 \<longrightarrow> m' = m)"
proof (cases "pk_index m = 0 \<and> b AND 0x08 = 0 \<or> pk_index m < 2")
  case True
  with assms show ?thesis by (auto simp: mouse_irq_def store_def mouse_inv_def)
next
  case False
  then have idx: "pk_index m = 2" using assms(1) by (auto simp: mouse_inv_def)
  from assms(1) obtain p q r where bs: "pk_bytes m = [p, q, r]"
    using three_bytes [of "pk_bytes m"] by (auto simp: mouse_inv_def)
  let ?m = "m\<lparr>pk_bytes := [p, q, b], pk_index := 0\<rparr>"
  show ?thesis
  proof (cases "skip_first_packet m")
    case True
    then have "mouse_irq b m = Some (?m\<lparr>skip_first_packet := False\<rparr>)"
      using idx bs by (simp add: mouse_irq_def store_def index_def Let_def)
    with idx assms show ?thesis by (auto simp: mouse_inv_def)
  next
    case run: False
    define e where "e = \<lparr>dx = (if p AND 0x10 \<noteq> 0 then uint q - 256 else uint q),
      dy = - (if p AND 0x20 \<noteq> 0 then uint b - 256 else uint b),
      left = p AND 0x01 \<noteq> 0, right = p AND 0x02 \<noteq> 0, middle = p AND 0x04 \<noteq> 0\<rparr>"
    have "- 256 \<le> uint q" "- uint b \<le> 256" using uint_ge_0 [of q] uint_ge_0 [of b] by linarith+
    then have e: "in_range e" using uint_lt2p [of q] uint_lt2p [of b] by (auto simp: in_range_def e_def)
    from ms_fifo.push_law [of "ms_queue m" e] assms(1) obtain qu where qu:
        "ring_push MOUSE_BUFFER_CAPACITY e (ms_queue m) = Some qu" "ring_ok MOUSE_BUFFER_CAPACITY qu"
        "ring_elems MOUSE_BUFFER_CAPACITY qu = ring_elems MOUSE_BUFFER_CAPACITY (ms_queue m) @ [e]
         \<or> ring_elems MOUSE_BUFFER_CAPACITY qu = ring_elems MOUSE_BUFFER_CAPACITY (ms_queue m)"
      unfolding mouse_inv_def by metis
    have "mouse_irq b m = Some (?m\<lparr>ms_queue := qu\<rparr>)"
      using idx bs run qu(1) by (simp add: mouse_irq_def store_def index_def Let_def e_def cong: if_cong)
    with idx assms qu e show ?thesis by (auto simp: mouse_inv_def)
  qed
qed

theorem mouse_irq_safe_witness:
  "\<exists>m'. mouse_irq 0xF7 mouse_boot = Some m' \<and> m' = mouse_boot"
proof -
  have "ring_ok MOUSE_BUFFER_CAPACITY (ms_queue mouse_boot)" "ring_elems MOUSE_BUFFER_CAPACITY (ms_queue mouse_boot) = []"
    using ring_ok_new [of MOUSE_BUFFER_CAPACITY BLANK_EVENT] by (simp_all add: mouse_boot_def MOUSE_BUFFER_CAPACITY_def)
  then show ?thesis
    using mouse_irq_safe [of mouse_boot "0xF7"] by (auto simp: mouse_inv_def mouse_boot_def)
qed

end
