(* ===== verification/Calculator.thy ===== *)
theory Calculator
  imports Decimal "HOL-Library.Signed_Division"
begin

text \<open>
  \<open>src/src/calculator.rs\<close>: the four-function calculator. The pixel buffer is left out (it is repainted
  from the fields after every click and never read back); the arithmetic is the \<open>i64\<close> arithmetic of the
  source, wrapping for \<open>+\<close>, \<open>-\<close>, \<open>*\<close> and panicking on the one division that overflows.
\<close>

section \<open>Model\<close>

definition BUTTON_SIZE :: nat where "BUTTON_SIZE = 60"
definition GRID_COLS :: nat where "GRID_COLS = 4"
definition GRID_ROWS :: nat where "GRID_ROWS = 4"
definition DISPLAY_HEIGHT :: nat where "DISPLAY_HEIGHT = 60"
definition MAX_DIGITS :: usize where "MAX_DIGITS = 18"

definition BUTTONS :: "(string \<times> nat \<times> nat) list" where
  "BUTTONS = [
    (''7'', 0, 0), (''8'', 1, 0), (''9'', 2, 0), (''/'', 3, 0),
    (''4'', 0, 1), (''5'', 1, 1), (''6'', 2, 1), (''*'', 3, 1),
    (''1'', 0, 2), (''2'', 1, 2), (''3'', 2, 2), (''-'', 3, 2),
    (''0'', 0, 3), (''C'', 1, 3), (''='', 2, 3), (''+'', 3, 3)]"

record calc =
  display :: string
  accumulator :: int
  pending_op :: "char option"
  fresh_entry :: bool
  error :: bool

definition calc_new :: calc where
  "calc_new = \<lparr>display = ''0'', accumulator = 0, pending_op = None, fresh_entry = False, error = False\<rparr>"

definition wrap_i64 :: "int \<Rightarrow> int" where
  "wrap_i64 z = (z + 2 ^ 63) mod 2 ^ 64 - 2 ^ 63"

text \<open>Rust's \<open>/\<close> on \<open>i64\<close> truncates and panics on a zero divisor and on \<open>i64::MIN / -1\<close>.\<close>

definition div_i64 :: "int \<Rightarrow> int \<Rightarrow> int exec" where
  "div_i64 a b = (if b = 0 \<or> (a = - (2 ^ 63) \<and> b = - 1) then None else Some (a sdiv b))"

definition apply_pending :: "calc \<Rightarrow> calc exec" where
  "apply_pending c =
     (let operand = (case parse_i64 (display c) of None \<Rightarrow> 0 | Some v \<Rightarrow> v);
          finish = (\<lambda>a. Some (c\<lparr>accumulator := a, display := int_str a\<rparr>))
      in case pending_op c of
           None \<Rightarrow> finish operand
         | Some op \<Rightarrow>
             if op = CHR ''+'' then finish (wrap_i64 (accumulator c + operand))
             else if op = CHR ''-'' then finish (wrap_i64 (accumulator c - operand))
             else if op = CHR ''*'' then finish (wrap_i64 (accumulator c * operand))
             else if op = CHR ''/'' then
               (if operand = 0 then Some (c\<lparr>error := True, display := ''Error''\<rparr>)
                else do { q \<leftarrow> div_i64 (accumulator c) operand; finish q })
             else finish (accumulator c))"

definition digit_label :: "string \<Rightarrow> bool" where
  "digit_label l \<longleftrightarrow> l \<in> {''0'', ''1'', ''2'', ''3'', ''4'', ''5'', ''6'', ''7'', ''8'', ''9''}"

definition op_label :: "string \<Rightarrow> bool" where
  "op_label l \<longleftrightarrow> l \<in> {''+'', ''-'', ''*'', ''/''}"

definition press :: "string \<Rightarrow> calc \<Rightarrow> calc exec" where
  "press label c =
     (if digit_label label then
        let c1 = (if error c \<or> fresh_entry c \<or> display c = ''0''
                  then c\<lparr>display := [], fresh_entry := False, error := False\<rparr> else c)
        in Some (if length (display c1) < MAX_DIGITS then c1\<lparr>display := display c1 @ label\<rparr> else c1)
      else if label = ''C'' then Some calc_new
      else if op_label label then
        (if \<not> error c then do {
           c1 \<leftarrow> apply_pending c;
           op \<leftarrow> index label 0;
           Some (c1\<lparr>pending_op := Some op, fresh_entry := True\<rparr>) }
         else Some c)
      else if label = ''='' then
        (if \<not> error c then do {
           c1 \<leftarrow> apply_pending c;
           Some (c1\<lparr>pending_op := None, fresh_entry := True\<rparr>) }
         else Some c)
      else Some c)"

definition handle_click :: "int \<times> int \<Rightarrow> calc \<Rightarrow> calc exec" where
  "handle_click p c =
     (let (x, y) = p
      in if x < 0 \<or> y < 0 \<or> y < int DISPLAY_HEIGHT then Some c
         else let col = nat x div BUTTON_SIZE; row = (nat y - DISPLAY_HEIGHT) div BUTTON_SIZE
              in case find (\<lambda>(_, bc, br). bc = col \<and> br = row) BUTTONS of
                   None \<Rightarrow> Some c
                 | Some (label, _) \<Rightarrow> press label c)"

section \<open>Invariant\<close>

definition i64_ok :: "int \<Rightarrow> bool" where
  "i64_ok z \<longleftrightarrow> - (2 ^ 63) \<le> z \<and> z < 2 ^ 63"

definition entry_ok :: "string \<Rightarrow> bool" where
  "entry_ok s \<longleftrightarrow> s \<noteq> [] \<and> list_all is_digit s \<and> length s \<le> MAX_DIGITS"

text \<open>The display shows the accumulator (and the next digit replaces it) or a number being typed.\<close>

definition calc_inv :: "calc \<Rightarrow> bool" where
  "calc_inv c \<longleftrightarrow> i64_ok (accumulator c)
     \<and> (error c \<or> entry_ok (display c) \<or> (fresh_entry c \<and> display c = int_str (accumulator c)))"

lemma wrap_i64_ok: "i64_ok (wrap_i64 z)"
proof -
  have "0 \<le> (z + 2 ^ 63) mod 2 ^ 64" "(z + 2 ^ 63) mod 2 ^ 64 < (2 ^ 64 :: int)" by simp_all
  then show ?thesis unfolding i64_ok_def wrap_i64_def by simp
qed

lemma wrap_i64_id: "i64_ok z \<Longrightarrow> wrap_i64 z = z"
  by (simp add: i64_ok_def wrap_i64_def)

lemma entry_value:
  assumes "entry_ok s"
  shows "\<exists>n < 2 ^ 63. parse_i64 s = Some (int n) \<and> n = dec_val s"
proof -
  have "dec_val s < 10 ^ length s" using assms dec_val_bound by (simp add: entry_ok_def)
  also have "(10 :: nat) ^ length s \<le> 10 ^ 18" using assms by (intro power_increasing) (auto simp: entry_ok_def MAX_DIGITS_def)
  finally have "dec_val s < 2 ^ 63" by simp
  then show ?thesis using parse_i64_digits [of s] assms by (simp add: entry_ok_def)
qed

text \<open>What the display parses to: a non-negative entry, or the accumulator itself.\<close>

lemma operand_cases:
  assumes "calc_inv c" "\<not> error c"
  shows "\<exists>v. parse_i64 (display c) = Some v \<and> i64_ok v \<and> (0 \<le> v \<or> v = accumulator c)"
proof (cases "entry_ok (display c)")
  case True
  from entry_value [OF this] show ?thesis by (force simp: i64_ok_def)
next
  case False
  with assms have "display c = int_str (accumulator c)" "i64_ok (accumulator c)" by (auto simp: calc_inv_def)
  then show ?thesis using parse_i64_str by (auto simp: i64_ok_def)
qed

lemma sdiv_i64_ok:
  assumes "i64_ok a" "b \<noteq> 0" "\<not> (a = - (2 ^ 63) \<and> b = - 1)"
  shows "i64_ok (a sdiv b)"
proof (cases "\<bar>b\<bar> = 1")
  case True
  then consider "b = 1" | "b = - 1" by linarith
  then show ?thesis using assms by cases (auto simp: i64_ok_def signed_divide_int_def sgn_mult_abs sgn_if)
next
  case False
  with assms(2) have "2 \<le> \<bar>b\<bar>" by linarith
  then have "\<bar>a\<bar> div \<bar>b\<bar> \<le> \<bar>a\<bar> div 2" by (intro zdiv_mono2) auto
  moreover have "\<bar>a\<bar> div 2 \<le> 2 ^ 63 div 2"
    using assms(1) by (intro zdiv_mono1) (auto simp: i64_ok_def abs_le_iff)
  ultimately have "\<bar>a\<bar> div \<bar>b\<bar> \<le> 2 ^ 62" by simp
  moreover have "\<bar>a sdiv b\<bar> \<le> \<bar>a\<bar> div \<bar>b\<bar>"
    by (simp add: signed_divide_int_def abs_mult abs_sgn_eq pos_imp_zdiv_nonneg_iff)
  ultimately have "\<bar>a sdiv b\<bar> \<le> 2 ^ 62" by linarith
  then show ?thesis by (simp add: i64_ok_def abs_le_iff)
qed

lemma apply_pending_total:
  assumes "calc_inv c" "\<not> error c"
  shows "\<exists>c'. apply_pending c = Some c' \<and> i64_ok (accumulator c') \<and> (error c' \<or> display c' = int_str (accumulator c'))"
proof -
  from operand_cases [OF assms] obtain v where v: "parse_i64 (display c) = Some v" "i64_ok v"
      "0 \<le> v \<or> v = accumulator c" by blast
  have a: "i64_ok (accumulator c)" using assms(1) by (simp add: calc_inv_def)
  have "v \<noteq> 0 \<Longrightarrow> div_i64 (accumulator c) v = Some (accumulator c sdiv v) \<and> i64_ok (accumulator c sdiv v)"
    using v(3) sdiv_i64_ok [OF a, of v] by (auto simp: div_i64_def)
  note div = this
  show ?thesis
  proof (cases "pending_op c")
    case None
    with v show ?thesis by (simp add: apply_pending_def)
  next
    case (Some op)
    consider "op = CHR ''+''" | "op = CHR ''-''" | "op = CHR ''*''" | "op = CHR ''/''"
      | "op \<notin> {CHR ''+'', CHR ''-'', CHR ''*'', CHR ''/''}" by blast
    then show ?thesis
      using v(1) a Some div wrap_i64_ok by cases (simp_all add: apply_pending_def Let_def)
  qed
qed

lemma digit_chars: "\<forall>d \<in> set [0..<10]. [digit d] = ''0123456789'' ! d # []"
  by code_simp

lemma digit_label_iff: "digit_label l \<longleftrightarrow> (\<exists>ch. l = [ch] \<and> is_digit ch)"
proof
  show "digit_label l \<Longrightarrow> \<exists>ch. l = [ch] \<and> is_digit ch"
    unfolding digit_label_def by (elim insertE emptyE) (simp_all add: is_digit_def)
next
  assume "\<exists>ch. l = [ch] \<and> is_digit ch"
  then obtain d where d: "d < 10" "l = [digit d]" by (auto simp: is_digit_iff)
  then have "d \<in> {0, 1, 2, 3, 4, 5, 6, 7, 8, 9}" by auto
  moreover have "l = [''0123456789'' ! d]" using digit_chars d by simp
  ultimately show "digit_label l" unfolding digit_label_def by (elim insertE emptyE) simp_all
qed

lemma calc_new_inv: "calc_inv calc_new"
  by (simp add: calc_inv_def calc_new_def i64_ok_def entry_ok_def MAX_DIGITS_def is_digit_def)

lemma press_digit:
  assumes "calc_inv c" "is_digit ch"
  shows "\<exists>c'. press [ch] c = Some c' \<and> calc_inv c'"
proof -
  have d: "digit_label [ch]" using assms(2) by (simp add: digit_label_iff)
  show ?thesis
  proof (cases "error c \<or> fresh_entry c \<or> display c = ''0''")
    case True
    with d assms show ?thesis by (simp add: press_def calc_inv_def entry_ok_def MAX_DIGITS_def)
  next
    case False
    with d assms show ?thesis by (auto simp: press_def calc_inv_def entry_ok_def MAX_DIGITS_def)
  qed
qed

lemma press_total:
  assumes "calc_inv c"
  shows "\<exists>c'. press label c = Some c' \<and> calc_inv c'"
proof (cases "digit_label label")
  case True
  with press_digit [OF assms] show ?thesis by (auto simp: digit_label_iff)
next
  case False
  have "\<exists>c'. apply_pending c = Some c' \<and> (\<forall>p. calc_inv (c'\<lparr>pending_op := p, fresh_entry := True\<rparr>))"
    if "\<not> error c"
    using apply_pending_total [OF assms that] by (auto simp: calc_inv_def)
  moreover have "op_label label \<Longrightarrow> label \<noteq> []" by (auto simp: op_label_def)
  ultimately show ?thesis using False assms calc_new_inv by (auto simp: press_def index_def)
qed

section \<open>Typing numbers\<close>

definition labels :: "nat \<Rightarrow> string list" where
  "labels n = map (\<lambda>ch. [ch]) (nat_str n)"

lemma type_more:
  assumes "list_all is_digit cs" "length (display c) + length cs \<le> MAX_DIGITS" "\<not> error c" "\<not> fresh_entry c"
    "display c \<noteq> ''0''" "display c \<noteq> []"
  shows "for_each press (map (\<lambda>ch. [ch]) cs) c = Some (c\<lparr>display := display c @ cs\<rparr>)"
  using assms
proof (induction cs arbitrary: c)
  case (Cons ch cs)
  have "press [ch] c = Some (c\<lparr>display := display c @ [ch]\<rparr>)"
    using Cons.prems digit_label_iff [of "[ch]"] by (simp add: press_def Let_def)
  moreover have "display c @ [ch] \<noteq> ''0''" using Cons.prems(6) by (cases "display c") auto
  ultimately show ?case using Cons.prems Cons.IH [of "c\<lparr>display := display c @ [ch]\<rparr>"] by simp
qed simp

lemma type_number:
  assumes "n < 10 ^ 18" "error c \<or> fresh_entry c \<or> display c = ''0''"
  shows "for_each press (labels n) c = Some (c\<lparr>display := nat_str n, fresh_entry := False, error := False\<rparr>)"
proof -
  obtain ch cs where s: "nat_str n = ch # cs" "is_digit ch" using nat_str_hd by blast
  have d: "list_all is_digit cs" using nat_str_ok [of n] s by simp
  have len: "length (nat_str n) \<le> 18" using assms(1) by (intro nat_str_length) simp_all
  let ?c = "c\<lparr>display := [ch], fresh_entry := False, error := False\<rparr>"
  have first: "press [ch] c = Some ?c"
    using assms(2) digit_label_iff [of "[ch]"] s(2) by (auto simp: press_def Let_def MAX_DIGITS_def)
  show ?thesis
  proof (cases "n = 0")
    case True
    then have "cs = []" using s(1) by (simp add: nat_str.simps)
    with first s show ?thesis by (simp add: labels_def)
  next
    case False
    then have "ch \<noteq> CHR ''0''" using nat_str_no_leading_zero [of n] s(1) by simp
    then have "for_each press (map (\<lambda>ch. [ch]) cs) ?c = Some (?c\<lparr>display := [ch] @ cs\<rparr>)"
      using d len s(1) type_more [of cs ?c] by (simp add: MAX_DIGITS_def)
    with first s show ?thesis by (simp add: labels_def)
  qed
qed

section \<open>Chains of operations\<close>

definition eval_op :: "char \<Rightarrow> int \<Rightarrow> int \<Rightarrow> int" where
  "eval_op op a b =
     (if op = CHR ''+'' then wrap_i64 (a + b) else if op = CHR ''-'' then wrap_i64 (a - b)
      else if op = CHR ''*'' then wrap_i64 (a * b) else a sdiv b)"

definition combine :: "char option \<Rightarrow> int \<Rightarrow> int \<Rightarrow> int" where
  "combine p a b = (case p of None \<Rightarrow> b | Some op \<Rightarrow> eval_op op a b)"

definition is_op :: "char \<Rightarrow> bool" where
  "is_op op \<longleftrightarrow> op \<in> {CHR ''+'', CHR ''-'', CHR ''*'', CHR ''/''}"

lemma apply_pending_entry:
  assumes "display c = nat_str n" "n < 10 ^ 18" "\<And>op. pending_op c = Some op \<Longrightarrow> is_op op \<and> (op = CHR ''/'' \<longrightarrow> n \<noteq> 0)"
  shows "apply_pending c = Some (c\<lparr>accumulator := combine (pending_op c) (accumulator c) (int n),
                                  display := int_str (combine (pending_op c) (accumulator c) (int n))\<rparr>)"
proof -
  have p: "parse_i64 (display c) = Some (int n)"
    using assms(1,2) parse_i64_str [of "int n"] by (simp add: int_str_def)
  show ?thesis
  proof (cases "pending_op c")
    case None
    with p show ?thesis by (simp add: apply_pending_def combine_def Let_def)
  next
    case (Some op)
    with assms(3) consider "op = CHR ''+''" | "op = CHR ''-''" | "op = CHR ''*''" | "op = CHR ''/''" "n \<noteq> 0"
      by (auto simp: is_op_def)
    then show ?thesis
      using p Some by cases (simp_all add: apply_pending_def combine_def eval_op_def div_i64_def Let_def)
  qed
qed

lemma press_op_entry:
  assumes "display c = nat_str n" "n < 10 ^ 18" "\<And>op. pending_op c = Some op \<Longrightarrow> is_op op \<and> (op = CHR ''/'' \<longrightarrow> n \<noteq> 0)"
    "\<not> error c" "is_op op"
  shows "press [op] c = Some (c\<lparr>accumulator := combine (pending_op c) (accumulator c) (int n),
            display := int_str (combine (pending_op c) (accumulator c) (int n)), pending_op := Some op, fresh_entry := True\<rparr>)"
proof -
  have "\<not> digit_label [op]" "[op] \<noteq> ''C''" "op_label [op]"
    using assms(5) by (auto simp: is_op_def op_label_def digit_label_iff is_digit_def)
  with apply_pending_entry [OF assms(1-3)] assms(4) show ?thesis by (simp add: press_def index_def)
qed

lemma press_equals_entry:
  assumes "display c = nat_str n" "n < 10 ^ 18" "\<And>op. pending_op c = Some op \<Longrightarrow> is_op op \<and> (op = CHR ''/'' \<longrightarrow> n \<noteq> 0)"
    "\<not> error c"
  shows "press ''='' c = Some (c\<lparr>accumulator := combine (pending_op c) (accumulator c) (int n),
            display := int_str (combine (pending_op c) (accumulator c) (int n)), pending_op := None, fresh_entry := True\<rparr>)"
proof -
  have "\<not> digit_label ''=''" "\<not> op_label ''=''" by (auto simp: op_label_def digit_label_iff is_digit_def)
  with apply_pending_entry [OF assms(1-3)] assms(4) show ?thesis by (simp add: press_def)
qed

definition chain_keys :: "(char \<times> nat) list \<Rightarrow> string list" where
  "chain_keys ops = concat (map (\<lambda>(op, n). [op] # labels n) ops) @ [''='']"

lemma chain_result:
  assumes "display c = nat_str n" "n < 10 ^ 18" "\<not> error c"
    "\<And>op. pending_op c = Some op \<Longrightarrow> is_op op \<and> (op = CHR ''/'' \<longrightarrow> n \<noteq> 0)"
    "\<forall>(op, m) \<in> set ops. is_op op \<and> m < 10 ^ 18 \<and> (op = CHR ''/'' \<longrightarrow> m \<noteq> 0)"
  shows "\<exists>c'. for_each press (chain_keys ops) c = Some c' \<and> \<not> error c'
    \<and> accumulator c' = foldl (\<lambda>a (op, m). eval_op op a (int m)) (combine (pending_op c) (accumulator c) (int n)) ops
    \<and> display c' = int_str (accumulator c')"
  using assms
proof (induction ops arbitrary: c n)
  case Nil
  from press_equals_entry [OF Nil.prems(1,2,4,3)] Nil.prems(3) show ?case by (simp add: chain_keys_def)
next
  case (Cons x ops)
  obtain op m where x: "x = (op, m)" by (cases x)
  with Cons.prems(5) have om: "is_op op" "m < 10 ^ 18" "op = CHR ''/'' \<longrightarrow> m \<noteq> 0" by auto
  let ?a = "combine (pending_op c) (accumulator c) (int n)"
  let ?c1 = "c\<lparr>accumulator := ?a, display := int_str ?a, pending_op := Some op, fresh_entry := True\<rparr>"
  let ?c2 = "?c1\<lparr>display := nat_str m, fresh_entry := False, error := False\<rparr>"
  have 1: "press [op] c = Some ?c1" by (rule press_op_entry [OF Cons.prems(1,2,4,3) om(1)])
  have 2: "for_each press (labels m) ?c1 = Some ?c2" by (rule type_number [OF om(2)]) simp
  have "for_each press (chain_keys (x # ops)) c = for_each press (chain_keys ops) ?c2"
    using 1 2 by (simp add: chain_keys_def x for_each_append)
  with Cons.IH [of ?c2 m] Cons.prems(5) om show ?case by (auto simp: x combine_def)
qed

section \<open>Properties\<close>

text \<open>No sequence of clicks, at any coordinates, makes the calculator panic: the only overflowing
  division, \<open>i64::MIN / -1\<close>, is unreachable because an operand is either a typed non-negative number
  or the accumulator itself. The accumulator stays a 64-bit value.\<close>

theorem calculator_never_panics:
  "\<exists>c. for_each handle_click clicks calc_new = Some c \<and> i64_ok (accumulator c)"
proof -
  have "\<exists>c'. for_each handle_click clicks c = Some c' \<and> calc_inv c'" if "calc_inv c" for c
    using that
  proof (induction clicks arbitrary: c)
    case (Cons p clicks)
    have "\<exists>c'. handle_click p c = Some c' \<and> calc_inv c'"
      using Cons.prems press_total [OF Cons.prems]
      by (cases p) (auto simp: handle_click_def Let_def split: option.splits)
    with Cons.IH show ?case by auto
  qed simp
  from this [OF calc_new_inv] show ?thesis by (auto simp: calc_inv_def)
qed

text \<open>C31: The calculator computes. Typing a number of at most 18 digits, any chain of operators and
  further numbers (no division by zero), and \<open>=\<close>, leaves on the display the decimal text of the
  left-to-right evaluation, with 64-bit wrap-around for addition, subtraction and multiplication and
  truncating division.\<close>

theorem calculator_computes:
  assumes "n < 10 ^ 18" "\<forall>(op, m) \<in> set ops. is_op op \<and> m < 10 ^ 18 \<and> (op = CHR ''/'' \<longrightarrow> m \<noteq> 0)"
  shows "\<exists>c. for_each press (labels n @ chain_keys ops) calc_new = Some c \<and> \<not> error c
    \<and> display c = int_str (foldl (\<lambda>a (op, m). eval_op op a (int m)) (int n) ops)"
proof -
  let ?c = "calc_new\<lparr>display := nat_str n, fresh_entry := False, error := False\<rparr>"
  have "for_each press (labels n) calc_new = Some ?c"
    using assms(1) by (intro type_number) (simp_all add: calc_new_def)
  with chain_result [of ?c n ops] assms show ?thesis
    by (auto simp: for_each_append calc_new_def combine_def)
qed

theorem calculator_computes_witness:
  "\<exists>c. for_each press (labels 7 @ chain_keys [(CHR ''-'', 12), (CHR ''*'', 5), (CHR ''/'', 2)]) calc_new = Some c
     \<and> display c = ''-12''"
proof -
  have "int_str (- 12) = ''-12''" by code_simp
  then show ?thesis
    using calculator_computes [of 7 "[(CHR ''-'', 12), (CHR ''*'', 5), (CHR ''/'', 2)]"]
    by (auto simp: is_op_def eval_op_def wrap_i64_def signed_divide_int_def)
qed

end
