(* ===== verification/Session.thy ===== *)
theory Session
  imports Decimal
begin

text \<open>
  \<open>src/src/session.rs\<close> and \<open>src/src/users.rs\<close>: the text format in which the desktop session is stored.
  Text is ASCII (app names, decimal numbers), so white space is the ASCII white space; \<open>lines\<close>, \<open>trim\<close>
  and \<open>split_whitespace\<close> are the methods of \<open>str\<close> the parser uses. Reading and writing the file is the
  file system's part.
\<close>

section \<open>String methods\<close>

definition is_ws :: "char \<Rightarrow> bool" where
  "is_ws c \<longleftrightarrow> (of_char c :: nat) = 32 \<or> (9 \<le> (of_char c :: nat) \<and> (of_char c :: nat) \<le> 13)"

definition newline :: char where
  "newline = char_of (10 :: nat)"

definition strip_cr :: "string \<Rightarrow> string" where
  "strip_cr l = (if l \<noteq> [] \<and> last l = char_of (13 :: nat) then butlast l else l)"

function str_lines :: "string \<Rightarrow> string list" where
  "str_lines s =
     (if s = [] then []
      else strip_cr (takeWhile (\<lambda>c. c \<noteq> newline) s) # str_lines (drop 1 (dropWhile (\<lambda>c. c \<noteq> newline) s)))"
  by pat_completeness auto
termination
proof (relation "measure length", simp)
  fix s :: string
  assume "s \<noteq> []"
  moreover have "length (dropWhile (\<lambda>c. c \<noteq> newline) s) \<le> length s" by (rule length_dropWhile_le)
  ultimately show "(drop 1 (dropWhile (\<lambda>c. c \<noteq> newline) s), s) \<in> measure length"
    by (cases s) auto
qed

declare str_lines.simps [simp del]

definition str_trim :: "string \<Rightarrow> string" where
  "str_trim s = rev (dropWhile is_ws (rev (dropWhile is_ws s)))"

function split_ws :: "string \<Rightarrow> string list" where
  "split_ws s =
     (let t = dropWhile is_ws s
      in if t = [] then [] else takeWhile (\<lambda>c. \<not> is_ws c) t # split_ws (dropWhile (\<lambda>c. \<not> is_ws c) t))"
  by pat_completeness auto
termination
proof (relation "measure length", simp)
  fix s t :: string
  assume t: "t = dropWhile is_ws s" "t \<noteq> []"
  then have "\<not> is_ws (hd t)" by (simp add: hd_dropWhile)
  then have "length (dropWhile (\<lambda>c. \<not> is_ws c) t) < length t"
    using t(2) length_dropWhile_le [of "\<lambda>c. \<not> is_ws c" "tl t"] by (cases t) auto
  moreover have "length t \<le> length s" unfolding t(1) by (rule length_dropWhile_le)
  ultimately show "(dropWhile (\<lambda>c. \<not> is_ws c) t, s) \<in> measure length" by simp
qed

declare split_ws.simps [simp del]

section \<open>Sessions\<close>

record session_window =
  app :: string
  win_x :: int
  win_y :: int
  cols :: usize
  rows :: usize
  minimized :: bool
  maximized :: bool

record session_data =
  windows :: "session_window list"
  remembered :: "session_window list"

definition bool_str :: "bool \<Rightarrow> string" where
  "bool_str b = (if b then ''1'' else ''0'')"

definition space :: string where
  "space = '' ''"

definition window_line :: "session_window \<Rightarrow> string" where
  "window_line w = ''window '' @ app w @ space @ int_str (win_x w) @ space @ int_str (win_y w) @ space
     @ nat_str (cols w) @ space @ nat_str (rows w) @ space @ bool_str (minimized w) @ space
     @ bool_str (maximized w) @ [newline]"

definition remembered_line :: "session_window \<Rightarrow> string" where
  "remembered_line w = ''remembered '' @ app w @ space @ int_str (win_x w) @ space @ int_str (win_y w) @ space
     @ nat_str (cols w) @ space @ nat_str (rows w) @ space @ bool_str (maximized w) @ [newline]"

definition serialize :: "session_data \<Rightarrow> string" where
  "serialize d = ''# MachaOS desktop session'' @ [newline] @ concat (map window_line (windows d))
     @ concat (map remembered_line (remembered d))"

definition parse_bool :: "string \<Rightarrow> bool" where
  "parse_bool s \<longleftrightarrow> s = ''1'' \<or> s = ''true''"

text \<open>\<open>parts.next()?\<close> on the words that are left.\<close>

definition next_part :: "string list \<Rightarrow> (string \<times> string list) option" where
  "next_part ws = (case ws of [] \<Rightarrow> None | w # r \<Rightarrow> Some (w, r))"

definition parse_entry :: "string list \<Rightarrow> bool \<Rightarrow> session_window option" where
  "parse_entry p0 window = do {
     (app', p1) \<leftarrow> next_part p0;
     (xs, p2) \<leftarrow> next_part p1; x \<leftarrow> parse_i32 xs;
     (ys, p3) \<leftarrow> next_part p2; y \<leftarrow> parse_i32 ys;
     (cs, p4) \<leftarrow> next_part p3; c \<leftarrow> parse_unsigned (2 ^ 64) cs;
     (rs, p5) \<leftarrow> next_part p4; r \<leftarrow> parse_unsigned (2 ^ 64) rs;
     (if window then do {
        (mi, p6) \<leftarrow> next_part p5;
        (ma, p7) \<leftarrow> next_part p6;
        Some \<lparr>app = app', win_x = x, win_y = y, cols = c, rows = r,
              minimized = parse_bool mi, maximized = parse_bool ma\<rparr> }
      else do {
        (ma, p6) \<leftarrow> next_part p5;
        Some \<lparr>app = app', win_x = x, win_y = y, cols = c, rows = r,
              minimized = False, maximized = parse_bool ma\<rparr> }) }"

definition parse_line :: "string \<Rightarrow> session_data \<Rightarrow> session_data" where
  "parse_line l d =
     (let line = str_trim l
      in if line = [] \<or> hd line = CHR ''#'' then d
         else case split_ws line of
           [] \<Rightarrow> d
         | kind # parts \<Rightarrow>
             if kind = ''window'' then
               (case parse_entry parts True of None \<Rightarrow> d | Some e \<Rightarrow> d\<lparr>windows := windows d @ [e]\<rparr>)
             else if kind = ''remembered'' then
               (case parse_entry parts False of None \<Rightarrow> d | Some e \<Rightarrow> d\<lparr>remembered := remembered d @ [e]\<rparr>)
             else d)"

definition session_parse :: "string \<Rightarrow> session_data" where
  "session_parse text = fold parse_line (str_lines text) \<lparr>windows = [], remembered = []\<rparr>"

section \<open>The user's directories\<close>

definition USER :: string where "USER = ''macha''"
definition USERS_DIR :: string where "USERS_DIR = ''/users''"

definition home_of :: "string \<Rightarrow> string" where
  "home_of user = USERS_DIR @ ''/'' @ user"

definition home :: string where
  "home = home_of USER"

definition desktop :: string where
  "desktop = home @ ''/Desktop''"

definition documents :: string where
  "documents = home @ ''/Documents''"

section \<open>Words and lines\<close>

definition is_word :: "string \<Rightarrow> bool" where
  "is_word w \<longleftrightarrow> w \<noteq> [] \<and> (\<forall>c \<in> set w. \<not> is_ws c)"

fun unwords :: "string list \<Rightarrow> string" where
  "unwords [] = []"
| "unwords [w] = w"
| "unwords (w # v # ws) = w @ space @ unwords (v # ws)"

lemma ws_space [simp]: "is_ws CHR '' ''" by (simp add: is_ws_def)

lemma ws_newline [simp]: "is_ws newline" by (simp add: is_ws_def newline_def)

lemma split_ws_word:
  assumes "is_word w" "rest = [] \<or> is_ws (hd rest)"
  shows "split_ws (w @ rest) = w # split_ws rest"
proof -
  have "dropWhile is_ws (w @ rest) = w @ rest" using assms(1) by (cases w) (auto simp: is_word_def)
  moreover have "takeWhile (\<lambda>c. \<not> is_ws c) (w @ rest) = w" "dropWhile (\<lambda>c. \<not> is_ws c) (w @ rest) = rest"
    using assms by (cases rest; auto simp: is_word_def takeWhile_append dropWhile_append split: if_splits)+
  ultimately show ?thesis using assms(1) by (subst split_ws.simps) (simp add: is_word_def)
qed

lemma split_ws_space: "split_ws (space @ s) = split_ws s"
proof -
  have "dropWhile is_ws (space @ s) = dropWhile is_ws s" by (simp add: space_def)
  then show ?thesis by (simp only: split_ws.simps [of "space @ s"] split_ws.simps [of s])
qed

lemma split_unwords: "\<forall>w \<in> set ws. is_word w \<Longrightarrow> split_ws (unwords ws) = ws"
proof (induction ws rule: unwords.induct)
  case 1
  then show ?case by (subst split_ws.simps) simp
next
  case (2 w)
  then show ?case using split_ws_word [of w "[]"] by (simp add: split_ws.simps [of "[]"])
next
  case (3 w v ws)
  then show ?case using split_ws_word [of w "space @ unwords (v # ws)"]
    by (simp add: split_ws_space space_def [symmetric]) (simp add: space_def)
qed

lemma unwords_chars: "\<forall>w \<in> set ws. is_word w \<Longrightarrow> c \<in> set (unwords ws) \<Longrightarrow> is_ws c \<Longrightarrow> c = CHR '' ''"
  by (induction ws rule: unwords.induct) (auto simp: is_word_def space_def)

lemma unwords_ends:
  "ws \<noteq> [] \<Longrightarrow> \<forall>w \<in> set ws. is_word w \<Longrightarrow>
     unwords ws \<noteq> [] \<and> \<not> is_ws (hd (unwords ws)) \<and> \<not> is_ws (last (unwords ws)) \<and> hd (unwords ws) = hd (hd ws)"
proof (induction ws rule: unwords.induct)
  case (3 w v ws)
  then show ?case by (auto simp: is_word_def)
qed (auto simp: is_word_def)

lemma trim_unwords: "ws \<noteq> [] \<Longrightarrow> \<forall>w \<in> set ws. is_word w \<Longrightarrow> str_trim (unwords ws) = unwords ws"
proof -
  assume "ws \<noteq> []" "\<forall>w \<in> set ws. is_word w"
  note e = unwords_ends [OF this]
  then have "dropWhile is_ws (unwords ws) = unwords ws" by (cases "unwords ws") auto
  moreover have "dropWhile is_ws (rev (unwords ws)) = rev (unwords ws)"
    using e by (cases "unwords ws" rule: rev_cases) auto
  ultimately show ?thesis by (simp add: str_trim_def)
qed

lemma lines_line:
  assumes "newline \<notin> set b" "char_of (13 :: nat) \<notin> set b"
  shows "str_lines (b @ newline # rest) = b # str_lines rest"
proof -
  have "takeWhile (\<lambda>c. c \<noteq> newline) (b @ newline # rest) = b"
    "dropWhile (\<lambda>c. c \<noteq> newline) (b @ newline # rest) = newline # rest"
    using assms(1) by (induction b) auto
  moreover have "strip_cr b = b" using assms(2) by (metis last_in_set strip_cr_def)
  ultimately show ?thesis by (subst str_lines.simps) simp
qed

lemma newline_not_space: "newline \<noteq> CHR '' ''"
  by code_simp

lemma lines_unwords:
  assumes "\<forall>w \<in> set ws. is_word w"
  shows "str_lines (unwords ws @ newline # rest) = unwords ws # str_lines rest"
proof (rule lines_line)
  show "newline \<notin> set (unwords ws)"
    using unwords_chars [OF assms, of newline] newline_not_space by auto
  have "is_ws (char_of (13 :: nat))" "char_of (13 :: nat) \<noteq> CHR '' ''" by code_simp+
  then show "char_of (13 :: nat) \<notin> set (unwords ws)" using unwords_chars [OF assms] by blast
qed

section \<open>Parsing a serialized session\<close>

definition entry_words :: "session_window \<Rightarrow> string list" where
  "entry_words w = [app w, int_str (win_x w), int_str (win_y w), nat_str (cols w), nat_str (rows w)]"

definition window_ok :: "session_window \<Rightarrow> bool" where
  "window_ok w \<longleftrightarrow> is_word (app w) \<and> - (2 ^ 31) \<le> win_x w \<and> win_x w < 2 ^ 31 \<and> - (2 ^ 31) \<le> win_y w \<and> win_y w < 2 ^ 31
     \<and> cols w < 2 ^ 64 \<and> rows w < 2 ^ 64"

definition session_ok :: "session_data \<Rightarrow> bool" where
  "session_ok d \<longleftrightarrow> (\<forall>w \<in> set (windows d). window_ok w) \<and> (\<forall>w \<in> set (remembered d). window_ok w \<and> \<not> minimized w)"

lemma is_word_nat_str: "is_word (nat_str n)"
proof -
  have "is_digit c \<Longrightarrow> \<not> is_ws c" for c by (auto simp: is_digit_def is_ws_def)
  then show ?thesis using nat_str_ok [of n] by (auto simp: is_word_def list_all_iff)
qed

lemma is_word_int_str: "is_word (int_str z)"
  using is_word_nat_str by (auto simp: int_str_def is_word_def is_ws_def)

lemma is_word_bool_str: "is_word (bool_str b)"
  by (auto simp: bool_str_def is_word_def is_ws_def)

lemma entry_words_ok: "window_ok w \<Longrightarrow> \<forall>v \<in> set (entry_words w). is_word v"
  by (simp add: entry_words_def window_ok_def is_word_nat_str is_word_int_str)

lemma window_line_words:
  "window_line w = unwords (''window'' # entry_words w @ [bool_str (minimized w), bool_str (maximized w)]) @ [newline]"
  by (simp add: window_line_def entry_words_def space_def)

lemma remembered_line_words:
  "remembered_line w = unwords (''remembered'' # entry_words w @ [bool_str (maximized w)]) @ [newline]"
  by (simp add: remembered_line_def entry_words_def space_def)

lemma parse_bool_str [simp]: "parse_bool (bool_str b) = b"
  by (simp add: parse_bool_def bool_str_def)

lemma parse_entry_words:
  assumes "window_ok w"
  shows "parse_entry (entry_words w @ [bool_str (minimized w), bool_str (maximized w)]) True = Some w"
    "\<not> minimized w \<Longrightarrow> parse_entry (entry_words w @ [bool_str (maximized w)]) False = Some w"
proof -
  have p: "parse_i32 (int_str (win_x w)) = Some (win_x w)" "parse_i32 (int_str (win_y w)) = Some (win_y w)"
    "parse_unsigned (2 ^ 64) (nat_str (cols w)) = Some (cols w)" "parse_unsigned (2 ^ 64) (nat_str (rows w)) = Some (rows w)"
    using assms parse_signed_str [of "2 ^ 31"] by (simp_all add: window_ok_def parse_i32_def parse_unsigned_str)
  show "parse_entry (entry_words w @ [bool_str (minimized w), bool_str (maximized w)]) True = Some w"
    using p by (simp add: parse_entry_def next_part_def entry_words_def)
  show "\<not> minimized w \<Longrightarrow> parse_entry (entry_words w @ [bool_str (maximized w)]) False = Some w"
    using p by (simp add: parse_entry_def next_part_def entry_words_def)
qed

lemma header_words: "''# MachaOS desktop session'' = unwords [''#'', ''MachaOS'', ''desktop'', ''session'']"
  by (simp add: space_def)

lemma literal_words: "is_word ''window''" "is_word ''remembered''" "\<forall>w \<in> set [''#'', ''MachaOS'', ''desktop'', ''session'']. is_word w"
  by (simp_all add: is_word_def is_ws_def)

lemma window_words_ok:
  assumes "window_ok w"
  shows "\<forall>v \<in> set (''window'' # entry_words w @ [bool_str (minimized w), bool_str (maximized w)]). is_word v"
    "\<forall>v \<in> set (''remembered'' # entry_words w @ [bool_str (maximized w)]). is_word v"
  using entry_words_ok [OF assms] literal_words is_word_bool_str by auto

lemma parse_line_words:
  assumes "\<forall>v \<in> set (k # ws). is_word v" "hd k \<noteq> CHR ''#''"
  shows "parse_line (unwords (k # ws)) d =
    (if k = ''window'' then (case parse_entry ws True of None \<Rightarrow> d | Some e \<Rightarrow> d\<lparr>windows := windows d @ [e]\<rparr>)
     else if k = ''remembered'' then
       (case parse_entry ws False of None \<Rightarrow> d | Some e \<Rightarrow> d\<lparr>remembered := remembered d @ [e]\<rparr>)
     else d)"
  using unwords_ends [OF _ assms(1)] trim_unwords [OF _ assms(1)] split_unwords [OF assms(1)] assms(2)
  by (simp add: parse_line_def Let_def)

lemma parse_windows:
  assumes "\<forall>w \<in> set ws. window_ok w"
  shows "fold parse_line (str_lines (concat (map window_line ws) @ rest)) d
    = fold parse_line (str_lines rest) (d\<lparr>windows := windows d @ ws\<rparr>)"
  using assms
proof (induction ws arbitrary: d)
  case (Cons w ws)
  then have w: "window_ok w" by simp
  have "str_lines (concat (map window_line (w # ws)) @ rest)
      = unwords (''window'' # entry_words w @ [bool_str (minimized w), bool_str (maximized w)])
        # str_lines (concat (map window_line ws) @ rest)"
    using lines_unwords [OF window_words_ok(1) [OF w]] by (simp add: window_line_words)
  with Cons parse_line_words [OF window_words_ok(1) [OF w]] parse_entry_words(1) [OF w] show ?case by simp
qed simp

lemma parse_remembered:
  assumes "\<forall>w \<in> set ws. window_ok w \<and> \<not> minimized w"
  shows "fold parse_line (str_lines (concat (map remembered_line ws))) d = d\<lparr>remembered := remembered d @ ws\<rparr>"
  using assms
proof (induction ws arbitrary: d)
  case (Cons w ws)
  then have w: "window_ok w" "\<not> minimized w" by simp_all
  have "str_lines (concat (map remembered_line (w # ws)))
      = unwords (''remembered'' # entry_words w @ [bool_str (maximized w)]) # str_lines (concat (map remembered_line ws))"
    using lines_unwords [OF window_words_ok(2) [OF w(1)]] by (simp add: remembered_line_words)
  with Cons parse_line_words [OF window_words_ok(2) [OF w(1)]] parse_entry_words(2) [OF w] show ?case by simp
qed (simp add: str_lines.simps)

lemma session_parse_serialize:
  assumes "session_ok d"
  shows "session_parse (serialize d) = d"
proof -
  let ?head = "[''#'', ''MachaOS'', ''desktop'', ''session'']"
  let ?rest = "concat (map window_line (windows d)) @ concat (map remembered_line (remembered d))"
  have "str_lines (serialize d) = unwords ?head # str_lines ?rest"
    using lines_unwords [OF literal_words(3)] by (simp add: serialize_def header_words)
  moreover have "parse_line (unwords ?head) e = e" for e
    using unwords_ends [OF _ literal_words(3)] trim_unwords [OF _ literal_words(3)] by (simp add: parse_line_def Let_def)
  ultimately show ?thesis
    using assms parse_windows [of "windows d"] parse_remembered [of "remembered d"]
    by (simp add: session_parse_def session_ok_def)
qed

section \<open>Whatever is parsed is well formed\<close>

lemma split_ws_words: "w \<in> set (split_ws s) \<Longrightarrow> is_word w"
proof (induction s rule: split_ws.induct)
  case (1 s)
  let ?t = "dropWhile is_ws s"
  from "1.prems" have t: "?t \<noteq> []" by (subst (asm) split_ws.simps) (auto simp: Let_def split: if_splits)
  then have "\<not> is_ws (hd ?t)" by (simp add: hd_dropWhile)
  then have "is_word (takeWhile (\<lambda>c. \<not> is_ws c) ?t)"
    using t by (cases ?t) (auto simp: is_word_def dest: set_takeWhileD)
  with "1.prems" "1.IH" [OF refl t] t show ?case
    by (subst (asm) split_ws.simps) (auto simp: Let_def split: if_splits)
qed

lemma parse_entry_ok:
  assumes "parse_entry ws b = Some e" "\<forall>w \<in> set ws. is_word w"
  shows "window_ok e \<and> (\<not> b \<longrightarrow> \<not> minimized e)"
  using assms
  by (auto simp: parse_entry_def next_part_def window_ok_def parse_i32_def
      dest!: parse_signed_range [rotated] parse_unsigned_range split: bind_splits list.splits if_splits)

lemma parse_line_ok:
  assumes "session_ok d"
  shows "session_ok (parse_line l d)"
proof (cases "split_ws (str_trim l)")
  case Nil
  with assms show ?thesis by (simp add: parse_line_def Let_def)
next
  case (Cons k parts)
  then have "\<forall>w \<in> set parts. is_word w" using split_ws_words [of _ "str_trim l"] by simp
  with parse_entry_ok [of parts] have
    "\<And>e. parse_entry parts True = Some e \<Longrightarrow> window_ok e"
    "\<And>e. parse_entry parts False = Some e \<Longrightarrow> window_ok e \<and> \<not> minimized e"
    by blast+
  with Cons assms show ?thesis
    by (auto simp: parse_line_def Let_def session_ok_def split: option.splits)
qed

lemma session_parse_ok: "session_ok (session_parse t)"
proof -
  have "session_ok (fold parse_line ls d)" if "session_ok d" for ls d
    using that by (induction ls arbitrary: d) (auto intro: parse_line_ok)
  moreover have "session_ok \<lparr>windows = [], remembered = []\<rparr>" by (simp add: session_ok_def)
  ultimately show ?thesis unfolding session_parse_def by blast
qed

section \<open>Properties\<close>

text \<open>C32: A saved session is restored exactly. Parsing the text written for a session gives back the same
  windows and remembered entries, in order, whenever the app names are words, coordinates fit \<open>i32\<close>,
  cell counts fit \<open>usize\<close>, and remembered entries are not minimized (the format has no such field).\<close>

theorem session_roundtrip:
  assumes "session_ok d"
  shows "session_parse (serialize d) = d"
  by (rule session_parse_serialize [OF assms])

definition demo_session :: session_data where
  "demo_session = \<lparr>windows = [\<lparr>app = ''terminal'', win_x = -100, win_y = 80, cols = 80, rows = 24,
       minimized = True, maximized = False\<rparr>],
     remembered = [\<lparr>app = ''calculator'', win_x = 140, win_y = 100, cols = 0, rows = 0,
       minimized = False, maximized = True\<rparr>]\<rparr>"

theorem session_roundtrip_witness: "session_parse (serialize demo_session) = demo_session"
  using session_roundtrip [of demo_session]
  by (simp add: session_ok_def demo_session_def window_ok_def is_word_def is_ws_def)

text \<open>Parsing is total and lenient, and its result is stable. Whatever text is found in the file,
  parsing gives a well-formed session, and writing that session and parsing it again changes nothing:
  one save and restore cycle normalises any file.\<close>

theorem session_parse_stable: "session_ok (session_parse t) \<and> session_parse (serialize (session_parse t)) = session_parse t"
  using session_parse_serialize [OF session_parse_ok] session_parse_ok by blast

end
