(* ===== verification/Gfx.thy ===== *)
theory Gfx
  imports Font "HOL-Library.Signed_Division"
begin

text \<open>
  \<open>src/src/gfx.rs\<close>: drawing on anything that can plot pixels. The trait \<open>Surface\<close> is a record of the methods
  of an implementation (its dispatch table); the drawing functions take the table and the surface. Pixel
  coordinates and colours are \<open>u32\<close>, whose sums wrap. The font scale is an argument.
\<close>

section \<open>Surfaces\<close>

record 's surface =
  sf_width :: "'s \<Rightarrow> u32"
  sf_height :: "'s \<Rightarrow> u32"
  sf_put :: "u32 \<Rightarrow> u32 \<Rightarrow> u32 \<Rightarrow> 's \<Rightarrow> 's exec"
  sf_get :: "u32 \<Rightarrow> u32 \<Rightarrow> 's \<Rightarrow> u32 option exec"
  sf_blit_span :: "u32 \<Rightarrow> u32 \<Rightarrow> u32 list \<Rightarrow> usize \<Rightarrow> u32 \<Rightarrow> 's \<Rightarrow> 's exec"
  sf_fill_span :: "u32 \<Rightarrow> u32 \<Rightarrow> u32 \<Rightarrow> u32 \<Rightarrow> 's \<Rightarrow> 's exec"
  sf_blend_span :: "u32 \<Rightarrow> u32 \<Rightarrow> u32 \<Rightarrow> u32 \<Rightarrow> u32 \<Rightarrow> 's \<Rightarrow> 's exec"

text \<open>\<open>for i in a..b\<close> on \<open>u32\<close>, and a loop with \<open>if c { break }\<close> at its head.\<close>

definition word_range :: "u32 \<Rightarrow> u32 \<Rightarrow> u32 list" where
  "word_range a b = map (\<lambda>i. a + of_nat i) [0..<unat b - unat a]"

fun for_until :: "('a \<Rightarrow> 's \<Rightarrow> bool) \<Rightarrow> ('a \<Rightarrow> 's \<Rightarrow> 's exec) \<Rightarrow> 'a list \<Rightarrow> 's \<Rightarrow> 's exec" where
  "for_until c f [] s = Some s"
| "for_until c f (x # xs) s = (if c x s then Some s else do { s' \<leftarrow> f x s; for_until c f xs s' })"

text \<open>\<open>saturating_sub\<close> on \<open>u32\<close>.\<close>

definition sat32 :: "u32 \<Rightarrow> u32 \<Rightarrow> u32" where
  "sat32 a b = (if b \<le> a then a - b else 0)"

text \<open>The channels of a colour, and a colour put together from a value for each channel.\<close>

definition channel :: "u32 \<Rightarrow> nat \<Rightarrow> u32" where
  "channel c shift = drop_bit shift c AND 0xFF"

definition per_channel :: "(nat \<Rightarrow> u32) \<Rightarrow> u32" where
  "per_channel f = fold (\<lambda>shift out. out OR push_bit shift (f shift AND 0xFF)) [16, 8, 0] 0"

definition blend :: "u32 \<Rightarrow> u32 \<Rightarrow> u32 \<Rightarrow> u32" where
  "blend fg bg alpha =
     (if alpha \<ge> 255 then fg
      else if alpha = 0 then bg
      else let inv = 255 - alpha in per_channel (\<lambda>shift. (channel fg shift * alpha + channel bg shift * inv) div 255))"

text \<open>The methods the trait gives an implementation that does not override them.\<close>

definition default_get :: "u32 \<Rightarrow> u32 \<Rightarrow> 's \<Rightarrow> u32 option exec" where
  "default_get x y s = Some None"

definition default_blit_span :: "(u32 \<Rightarrow> u32 \<Rightarrow> u32 \<Rightarrow> 's \<Rightarrow> 's exec) \<Rightarrow> u32 \<Rightarrow> u32 \<Rightarrow> u32 list \<Rightarrow> usize \<Rightarrow> u32 \<Rightarrow> 's \<Rightarrow> 's exec" where
  "default_blit_span put x y src offset len =
     for_each (\<lambda>i s. do { c \<leftarrow> index src (offset + unat i); put (x + i) y c s }) (word_range 0 len)"

definition default_fill_span :: "(u32 \<Rightarrow> u32 \<Rightarrow> u32 \<Rightarrow> 's \<Rightarrow> 's exec) \<Rightarrow> u32 \<Rightarrow> u32 \<Rightarrow> u32 \<Rightarrow> u32 \<Rightarrow> 's \<Rightarrow> 's exec" where
  "default_fill_span put x y len color = for_each (\<lambda>i. put (x + i) y color) (word_range 0 len)"

definition default_blend_span ::
  "(u32 \<Rightarrow> u32 \<Rightarrow> u32 \<Rightarrow> 's \<Rightarrow> 's exec) \<Rightarrow> (u32 \<Rightarrow> u32 \<Rightarrow> 's \<Rightarrow> u32 option exec) \<Rightarrow> (u32 \<Rightarrow> u32 \<Rightarrow> u32 \<Rightarrow> u32 \<Rightarrow> 's \<Rightarrow> 's exec)
     \<Rightarrow> u32 \<Rightarrow> u32 \<Rightarrow> u32 \<Rightarrow> u32 \<Rightarrow> u32 \<Rightarrow> 's \<Rightarrow> 's exec" where
  "default_blend_span put get fill x y len color alpha s =
     (if alpha \<ge> 255 then fill x y len color s
      else if alpha = 0 then Some s
      else for_each (\<lambda>i s. do {
             g \<leftarrow> get (x + i) y s;
             case g of
               Some b \<Rightarrow> put (x + i) y (blend color b alpha) s
             | None \<Rightarrow> put (x + i) y color s }) (word_range 0 len) s)"

section \<open>Rectangles\<close>

definition fill_rect :: "'s surface \<Rightarrow> u32 \<Rightarrow> u32 \<Rightarrow> u32 \<Rightarrow> u32 \<Rightarrow> u32 \<Rightarrow> 's \<Rightarrow> 's exec" where
  "fill_rect S x y w h color s =
     (let x_end = min (x + w) (sf_width S s);
          y_end = min (y + h) (sf_height S s)
      in if x_end \<le> x \<or> y_end \<le> y then Some s
         else for_each (\<lambda>yy. sf_fill_span S x yy (x_end - x) color) (word_range y y_end) s)"

definition fill_span_clipped :: "'s surface \<Rightarrow> u32 \<Rightarrow> u32 \<Rightarrow> u32 \<Rightarrow> u32 \<Rightarrow> 's \<Rightarrow> 's exec" where
  "fill_span_clipped S x y w color s =
     (let x_end = min (x + w) (sf_width S s)
      in if y \<ge> sf_height S s \<or> x_end \<le> x then Some s else sf_fill_span S x y (x_end - x) color s)"

text \<open>One scanline of a gradient: \<open>i32\<close> arithmetic on the bits of \<open>u32\<close>, with Rust's truncating division.\<close>

definition gradient_color :: "u32 \<Rightarrow> u32 \<Rightarrow> u32 \<Rightarrow> u32 \<Rightarrow> u32" where
  "gradient_color upper lower h row =
     (let denom = max (h - 1) 1
      in per_channel (\<lambda>shift.
           let a = channel upper shift; b = channel lower shift
           in a + of_int (sint ((b - a) * row) sdiv sint denom)))"

definition fill_rect_gradient_v :: "'s surface \<Rightarrow> u32 \<Rightarrow> u32 \<Rightarrow> u32 \<Rightarrow> u32 \<Rightarrow> u32 \<Rightarrow> u32 \<Rightarrow> 's \<Rightarrow> 's exec" where
  "fill_rect_gradient_v S x y w h upper lower =
     for_each (\<lambda>row. fill_span_clipped S x (y + row) w (gradient_color upper lower h row)) (word_range 0 h)"

definition rounded_inset :: "u32 \<Rightarrow> u32 \<Rightarrow> u32 \<Rightarrow> u32" where
  "rounded_inset row h r =
     (if r = 0 then 0
      else if row < r then r - 1 - row
      else if row \<ge> h - r then row - (h - r)
      else 0)"

definition fill_rounded_rect :: "'s surface \<Rightarrow> u32 \<Rightarrow> u32 \<Rightarrow> u32 \<Rightarrow> u32 \<Rightarrow> u32 \<Rightarrow> u32 \<Rightarrow> 's \<Rightarrow> 's exec" where
  "fill_rounded_rect S x y w h r color =
     for_each (\<lambda>row s.
       let inset = rounded_inset row h r;
           inner = sat32 w (2 * inset)
       in if inner \<ge> 2 then fill_span_clipped S (x + inset) (y + row) inner color s else Some s) (word_range 0 h)"

definition fill_rounded_rect_gradient_v :: "'s surface \<Rightarrow> u32 \<Rightarrow> u32 \<Rightarrow> u32 \<Rightarrow> u32 \<Rightarrow> u32 \<Rightarrow> u32 \<Rightarrow> u32 \<Rightarrow> 's \<Rightarrow> 's exec" where
  "fill_rounded_rect_gradient_v S x y w h r upper lower =
     for_each (\<lambda>row s.
       let color = gradient_color upper lower h row;
           inset = rounded_inset row h r;
           inner = sat32 w (2 * inset)
       in if inner \<ge> 2 then fill_span_clipped S (x + inset) (y + row) inner color s else Some s) (word_range 0 h)"

definition blend_span_clipped :: "'s surface \<Rightarrow> u32 \<Rightarrow> u32 \<Rightarrow> u32 \<Rightarrow> u32 \<Rightarrow> u32 \<Rightarrow> 's \<Rightarrow> 's exec" where
  "blend_span_clipped S x y w color alpha s =
     (let x_end = min (x + w) (sf_width S s)
      in if y \<ge> sf_height S s \<or> x_end \<le> x then Some s else sf_blend_span S x y (x_end - x) color alpha s)"

definition fill_rect_blend :: "'s surface \<Rightarrow> u32 \<Rightarrow> u32 \<Rightarrow> u32 \<Rightarrow> u32 \<Rightarrow> u32 \<Rightarrow> u32 \<Rightarrow> 's \<Rightarrow> 's exec" where
  "fill_rect_blend S x y w h color alpha s =
     (if alpha \<ge> 255 then fill_rect S x y w h color s
      else if alpha = 0 then Some s
      else let y_end = min (y + h) (sf_height S s)
           in if y_end \<le> y then Some s
              else for_each (\<lambda>yy. blend_span_clipped S x yy w color alpha) (word_range y y_end) s)"

definition fill_rounded_rect_blend :: "'s surface \<Rightarrow> u32 \<Rightarrow> u32 \<Rightarrow> u32 \<Rightarrow> u32 \<Rightarrow> u32 \<Rightarrow> u32 \<Rightarrow> u32 \<Rightarrow> 's \<Rightarrow> 's exec" where
  "fill_rounded_rect_blend S x y w h r color alpha =
     for_each (\<lambda>row s.
       let inset = rounded_inset row h r;
           inner = sat32 w (2 * inset)
       in if inner \<ge> 2 then blend_span_clipped S (x + inset) (y + row) inner color alpha s else Some s) (word_range 0 h)"

section \<open>The window shadow\<close>

definition rounded_row_range :: "u32 \<Rightarrow> u32 \<Rightarrow> u32 \<Rightarrow> u32 \<Rightarrow> u32 \<Rightarrow> u32 \<Rightarrow> u32 \<times> u32" where
  "rounded_row_range py rx ry w h r =
     (if py < ry \<or> py \<ge> ry + h then (0, 0)
      else let inset = rounded_inset (py - ry) h r;
               inner = sat32 w (2 * inset)
           in if inner < 2 then (0, 0) else (rx + inset, rx + inset + inner))"

text \<open>The scale of a pixel under the layers that cover it, and the darkened pixel.\<close>

definition shadow_scale :: "(u32 \<times> u32) list \<Rightarrow> u32 list \<Rightarrow> u32 \<Rightarrow> u32" where
  "shadow_scale ranges alphas px =
     fold (\<lambda>((ls, le), alpha) scale. if px \<ge> ls \<and> px < le then scale * (255 - alpha) div 255 else scale) (zip ranges alphas) 255"

definition darken :: "u32 \<Rightarrow> u32 \<Rightarrow> u32" where
  "darken b scale = per_channel (\<lambda>shift. (channel b shift * scale + 127) div 255)"

definition shadow_layers :: "u32 \<Rightarrow> (u32 \<times> u32 \<times> u32) list" where
  "shadow_layers r = [(7, r + 2, 70), (5, r + 1, 50), (3, r, 30)]"

definition shadow_pixel :: "'s surface \<Rightarrow> u32 \<times> u32 \<Rightarrow> (u32 \<times> u32) list \<Rightarrow> u32 list \<Rightarrow> u32 \<Rightarrow> u32 \<Rightarrow> 's \<Rightarrow> 's exec" where
  "shadow_pixel S b_range ranges alphas py px s =
     (if px \<ge> fst b_range \<and> px < snd b_range then Some s
      else let scale = shadow_scale ranges alphas px
           in if scale = 255 then Some s
              else do {
                g \<leftarrow> sf_get S px py s;
                case g of None \<Rightarrow> Some s | Some b \<Rightarrow> sf_put S px py (darken b scale) s })"

definition shadow_row :: "'s surface \<Rightarrow> u32 \<Rightarrow> u32 \<Rightarrow> u32 \<Rightarrow> u32 \<Rightarrow> u32 \<Rightarrow> u32 \<Rightarrow> 's \<Rightarrow> 's exec" where
  "shadow_row S x y w h r py s =
     (let b_range = rounded_row_range py (sat32 x 1) (sat32 y 1) (w + 2) (h + 2) (r + 1);
          ranges = map (\<lambda>(offset, radius, _). rounded_row_range py (x + offset) (y + offset) (w + 2) (h + 2) radius) (shadow_layers r);
          alphas = map (\<lambda>(_, _, alpha). alpha) (shadow_layers r)
      in for_until (\<lambda>px s. px \<ge> sf_width S s) (shadow_pixel S b_range ranges alphas py) (word_range (x + 3) (x + w + 9)) s)"

definition draw_window_shadow :: "'s surface \<Rightarrow> u32 \<Rightarrow> u32 \<Rightarrow> u32 \<Rightarrow> u32 \<Rightarrow> u32 \<Rightarrow> 's \<Rightarrow> 's exec" where
  "draw_window_shadow S x y w h r s =
     (let x0 = x + 3; y0 = y + 3; x1 = x + w + 9; y1 = y + h + 9
      in if x1 \<le> x0 \<or> y1 \<le> y0 then Some s
         else for_until (\<lambda>py s. py \<ge> sf_height S s) (shadow_row S x y w h r) (word_range y0 y1) s)"

section \<open>Text\<close>

text \<open>One pixel of a glyph at scale 1, or its block at a larger scale.\<close>

definition glyph_dot :: "'s surface \<Rightarrow> u8 \<Rightarrow> u32 \<Rightarrow> u32 \<Rightarrow> nat \<Rightarrow> nat \<Rightarrow> u32 \<Rightarrow> 's \<Rightarrow> 's exec" where
  "glyph_dot S fs x y row col color =
     (let s = ucast fs :: u32
      in if s = 1 then sf_put S (x + of_nat col) (y + of_nat row) color
         else fill_rect S (x + of_nat col * s) (y + of_nat row * s) s s color)"

definition draw_char :: "'s surface \<Rightarrow> u8 \<Rightarrow> u32 \<Rightarrow> u32 \<Rightarrow> u8 \<Rightarrow> u32 \<Rightarrow> u32 option \<Rightarrow> 's \<Rightarrow> 's exec" where
  "draw_char S fs x y ch fg bg =
     for_each (\<lambda>row.
       let bits = glyph ch ! row
       in for_each (\<lambda>col s.
            if bits AND push_bit col 1 \<noteq> 0 then glyph_dot S fs x y row col fg s
            else (case bg of Some b \<Rightarrow> glyph_dot S fs x y row col b s | None \<Rightarrow> Some s)) [0..<GLYPH_WIDTH]) [0..<length (glyph ch)]"

fun draw_string :: "'s surface \<Rightarrow> u8 \<Rightarrow> u32 \<Rightarrow> u32 \<Rightarrow> u8 list \<Rightarrow> u32 \<Rightarrow> u32 option \<Rightarrow> 's \<Rightarrow> 's exec" where
  "draw_string S fs x y [] fg bg s = Some s"
| "draw_string S fs x y (b # bs) fg bg s =
     do { s' \<leftarrow> draw_char S fs x y b fg bg s; draw_string S fs (x + of_nat (glyph_w fs)) y bs fg bg s' }"

section \<open>Copying\<close>

definition blit :: "'s surface \<Rightarrow> u32 \<Rightarrow> u32 \<Rightarrow> u32 list \<Rightarrow> u32 \<Rightarrow> u32 \<Rightarrow> 's \<Rightarrow> 's exec" where
  "blit S dst_x dst_y src src_w src_h s =
     (let x_end = min (dst_x + src_w) (sf_width S s);
          y_end = min (dst_y + src_h) (sf_height S s)
      in if x_end \<le> dst_x \<or> y_end \<le> dst_y then Some s
         else for_each (\<lambda>y. sf_blit_span S dst_x (dst_y + y) src (unat (y * src_w)) (x_end - dst_x)) (word_range 0 (y_end - dst_y)) s)"

definition blit_rounded :: "'s surface \<Rightarrow> u32 \<Rightarrow> u32 \<Rightarrow> u32 list \<Rightarrow> u32 \<Rightarrow> u32 \<Rightarrow> u32 \<Rightarrow> 's \<Rightarrow> 's exec" where
  "blit_rounded S dst_x dst_y src src_w src_h r =
     for_each (\<lambda>row s.
       let inset = rounded_inset row src_h r;
           inner = sat32 src_w (2 * inset)
       in if inner = 0 then Some s
          else sf_blit_span S (dst_x + inset) (dst_y + row) src (unat row * unat src_w + unat inset) inner s) (word_range 0 src_h)"

section \<open>What a drawing operation paints\<close>

text \<open>An operation paints a map of the pixels: from every well-formed surface it returns a well-formed surface
  in which each pixel is the map of the old one, and everything but the pixels is as before.\<close>

definition paints ::
  "'s surface \<Rightarrow> ('s \<Rightarrow> bool) \<Rightarrow> ('s \<Rightarrow> nat \<Rightarrow> nat \<Rightarrow> u32) \<Rightarrow> ('s \<Rightarrow> 'r) \<Rightarrow> 'r \<Rightarrow> ('s \<Rightarrow> 's exec) \<Rightarrow> (nat \<Rightarrow> nat \<Rightarrow> u32 \<Rightarrow> u32) \<Rightarrow> bool" where
  "paints S ok px rest r op g \<longleftrightarrow>
     (\<forall>s. ok s \<longrightarrow> rest s = r \<longrightarrow>
        (\<exists>s'. op s = Some s' \<and> ok s' \<and> rest s' = r \<and>
              (\<forall>i j. i < unat (sf_width S s) \<longrightarrow> j < unat (sf_height S s) \<longrightarrow> px s' i j = g i j (px s i j))))"

text \<open>The pixels of a span and of a rectangle.\<close>

definition on_span :: "u32 \<Rightarrow> u32 \<Rightarrow> u32 \<Rightarrow> nat \<Rightarrow> nat \<Rightarrow> bool" where
  "on_span x y len i j \<longleftrightarrow> j = unat y \<and> unat x \<le> i \<and> i < unat x + unat len"

definition on_rect :: "u32 \<Rightarrow> u32 \<Rightarrow> u32 \<Rightarrow> u32 \<Rightarrow> nat \<Rightarrow> nat \<Rightarrow> bool" where
  "on_rect x y x_end y_end i j \<longleftrightarrow> unat x \<le> i \<and> i < unat x_end \<and> unat y \<le> j \<and> j < unat y_end"

lemma unat_add_small: "unat a + unat b < 2 ^ LENGTH('a) \<Longrightarrow> unat (a + b) = unat a + unat b" for a b :: "'a::len word"
  by (simp add: unat_word_ariths)

lemma unat_sub_le: "b \<le> a \<Longrightarrow> unat (a - b) = unat a - unat b" for a b :: "'a::len word"
  by (rule unat_sub)

lemma unat_min: "unat (min a b) = min (unat a) (unat b)" for a b :: "'a::len word"
  by (simp add: min_def word_le_nat_alt)

lemma word_range_at: "i < unat b - unat a \<Longrightarrow> unat (a + of_nat i) = unat a + i" for a b :: u32
proof -
  assume i: "i < unat b - unat a"
  have "unat b < 2 ^ 32" using unsigned_less [of b, where ?'a = nat] by simp
  then have "i < 2 ^ 32" "unat a + i < 2 ^ 32" using i by simp_all
  then show ?thesis by (simp add: unat_word_ariths take_bit_nat_eq_self unsigned_of_nat)
qed

lemma set_word_range: "set (word_range a b) = {i. a \<le> i \<and> i < b}"
proof -
  have "k \<in> set (word_range a b)" if k: "a \<le> k" "k < b" for k
  proof -
    have n: "unat k - unat a < unat b - unat a" using k by (simp add: word_le_nat_alt word_less_nat_alt)
    then have "unat (a + of_nat (unat k - unat a)) = unat k" using word_range_at [OF n] k by (simp add: word_le_nat_alt)
    then have "a + of_nat (unat k - unat a) = k" by (rule word_unat_eq_iff [THEN iffD2])
    then show ?thesis using n unfolding word_range_def by (metis (no_types, lifting) atLeastLessThan_iff image_eqI le0 list.set_map set_upt)
  qed
  then show ?thesis
    by (auto simp: word_range_def word_le_nat_alt word_less_nat_alt word_range_at)
qed

lemma distinct_word_range: "distinct (word_range a b)"
proof -
  have "inj_on (\<lambda>i. a + of_nat i) {0..<unat b - unat a}"
  proof (rule inj_onI)
    fix i k assume "i \<in> {0..<unat b - unat a}" "k \<in> {0..<unat b - unat a}" and e: "a + of_nat i = (a + of_nat k :: u32)"
    then have "unat (a + of_nat i) = unat a + i" "unat (a + of_nat k) = unat a + k"
      by (metis atLeastLessThan_iff word_range_at)+
    then have "unat a + i = unat a + k" using e by metis
    then show "i = k" by simp
  qed
  then show ?thesis by (simp add: word_range_def distinct_map)
qed

text \<open>A loop that touches a pixel in at most one of its rounds.\<close>

lemma fold_none: "(\<And>x. x \<in> set xs \<Longrightarrow> \<not> P x) \<Longrightarrow> fold (\<lambda>x b. if P x then f x b else b) xs v = v"
  by (induction xs) auto

lemma fold_skip [simp]: "fold (\<lambda>_ b. b) xs v = v"
  by (induction xs) auto

lemma fold_once:
  "x \<in> set xs \<Longrightarrow> distinct xs \<Longrightarrow> P x \<Longrightarrow> (\<And>z. z \<in> set xs \<Longrightarrow> P z \<Longrightarrow> z = x) \<Longrightarrow>
     fold (\<lambda>x b. if P x then f x b else b) xs v = f x v"
proof (induction xs arbitrary: v)
  case (Cons a xs)
  show ?case
  proof (cases "a = x")
    case True
    then have "\<not> P z" if "z \<in> set xs" for z
      using that Cons.prems(2) Cons.prems(4) [of z] by (metis distinct.simps(2) list.set_intros(2))
    then have "fold (\<lambda>x b. if P x then f x b else b) xs (f x v) = f x v" by (rule fold_none)
    then show ?thesis using True Cons.prems(3) by simp
  next
    case False
    then have "\<not> P a" "x \<in> set xs" using Cons.prems(1) Cons.prems(4) [of a] by auto
    moreover have "fold (\<lambda>x b. if P x then f x b else b) xs v = f x v"
      by (rule Cons.IH) (use Cons.prems calculation in \<open>auto dest: Cons.prems(4)\<close>)
    ultimately show ?thesis by simp
  qed
qed simp

lemma unat_of_nat_less: "j < unat b \<Longrightarrow> unat (of_nat j :: u32) = j" for b :: u32
  using unsigned_less [of b, where ?'a = nat] by (simp add: unsigned_of_nat take_bit_nat_eq_self)

lemma fold_rows:
  "fold (\<lambda>row b. if j = unat row then f row b else b) (word_range y0 y1) v
     = (if unat y0 \<le> j \<and> j < unat y1 then f (of_nat j) v else v)"
proof (cases "unat y0 \<le> j \<and> j < unat y1")
  case True
  then have u: "unat (of_nat j :: u32) = j" by (auto intro: unat_of_nat_less)
  show ?thesis
    using True u by (subst fold_once [of "of_nat j"]) (auto simp: set_word_range distinct_word_range word_le_nat_alt word_less_nat_alt)
next
  case False
  then show ?thesis by (subst fold_none) (auto simp: set_word_range word_le_nat_alt word_less_nat_alt)
qed

lemma fold_rows_from:
  "unat y + unat h \<le> 2 ^ 32 \<Longrightarrow> fold (\<lambda>row b. if j = unat (y + row) then f row b else b) (word_range 0 h) v
     = (if unat y \<le> j \<and> j < unat y + unat h then f (of_nat (j - unat y)) v else v)"
proof -
  assume yh: "unat y + unat h \<le> 2 ^ 32"
  have row: "unat (y + r) = unat y + unat r" if "r < h" for r
    using that yh by (intro unat_add_small) (simp add: word_less_nat_alt)
  show ?thesis
  proof (cases "unat y \<le> j \<and> j < unat y + unat h")
    case True
    let ?r = "of_nat (j - unat y) :: u32"
    have u: "unat ?r = j - unat y" using True by (intro unat_of_nat_less [of _ h]) auto
    then have "?r < h" using True unfolding word_less_nat_alt by linarith
    then show ?thesis
      using True u row row [of ?r] by (subst fold_once [of ?r]) (auto simp: set_word_range distinct_word_range word_unat_eq_iff simp del: of_nat_diff)
  next
    case False
    then show ?thesis using row by (subst fold_none) (auto simp: set_word_range word_less_nat_alt)
  qed
qed

lemma fold_index:
  "fold (\<lambda>k b. if Q \<and> d = k then f k b else b) [0..<n] v = (if Q \<and> d < n then f d v else v)"
proof (cases "Q \<and> d < n")
  case True
  then show ?thesis by (subst fold_once [of d]) auto
next
  case False
  then show ?thesis by (subst fold_none) auto
qed

section \<open>The contract of a surface\<close>

locale raster =
  fixes S :: "'s surface" and ok :: "'s \<Rightarrow> bool" and px :: "'s \<Rightarrow> nat \<Rightarrow> nat \<Rightarrow> u32" and rest :: "'s \<Rightarrow> 'r"
  assumes dims: "rest s = rest s' \<Longrightarrow> sf_width S s = sf_width S s' \<and> sf_height S s = sf_height S s'"
    and put_paints: "paints S ok px rest r (sf_put S x y c) (\<lambda>i j b. if i = unat x \<and> j = unat y then c else b)"
    and fill_paints: "paints S ok px rest r (sf_fill_span S x y len c) (\<lambda>i j b. if on_span x y len i j then c else b)"
    and blit_paints: "offset + unat len \<le> length src \<Longrightarrow>
      paints S ok px rest r (sf_blit_span S x y src offset len)
        (\<lambda>i j b. if on_span x y len i j then src ! (offset + (i - unat x)) else b)"
begin

lemma paints_skip: "paints S ok px rest r Some (\<lambda>i j b. b)"
  by (simp add: paints_def)

lemma paints_seq:
  assumes "paints S ok px rest r f g" "paints S ok px rest r f' g'"
  shows "paints S ok px rest r (\<lambda>s. do { s' \<leftarrow> f s; f' s' }) (\<lambda>i j b. g' i j (g i j b))"
  unfolding paints_def
proof (intro allI impI)
  fix s assume s: "ok s" "rest s = r"
  obtain s1 where 1: "f s = Some s1" "ok s1" "rest s1 = r"
    "\<And>i j. i < unat (sf_width S s) \<Longrightarrow> j < unat (sf_height S s) \<Longrightarrow> px s1 i j = g i j (px s i j)"
    using assms(1) s unfolding paints_def by blast
  obtain s2 where 2: "f' s1 = Some s2" "ok s2" "rest s2 = r"
    "\<And>i j. i < unat (sf_width S s1) \<Longrightarrow> j < unat (sf_height S s1) \<Longrightarrow> px s2 i j = g' i j (px s1 i j)"
    using assms(2) 1(2,3) unfolding paints_def by blast
  have "sf_width S s1 = sf_width S s" "sf_height S s1 = sf_height S s" using dims [of s1 s] 1(3) s(2) by auto
  then show "\<exists>s'. f s \<bind> f' = Some s' \<and> ok s' \<and> rest s' = r \<and>
      (\<forall>i j. i < unat (sf_width S s) \<longrightarrow> j < unat (sf_height S s) \<longrightarrow> px s' i j = g' i j (g i j (px s i j)))"
    using 1 2 by simp
qed

lemma paints_loop:
  assumes "\<And>x. x \<in> set xs \<Longrightarrow> paints S ok px rest r (f x) (g x)"
  shows "paints S ok px rest r (for_each f xs) (\<lambda>i j b. fold (\<lambda>x. g x i j) xs b)"
  using assms
proof (induction xs)
  case Nil
  show ?case using paints_skip by (simp add: paints_def)
next
  case (Cons x xs)
  have "paints S ok px rest r (\<lambda>s. do { s' \<leftarrow> f x s; for_each f xs s' }) (\<lambda>i j b. fold (\<lambda>x. g x i j) xs (g x i j b))"
    using Cons by (intro paints_seq) auto
  moreover have "for_each f (x # xs) = (\<lambda>s. do { s' \<leftarrow> f x s; for_each f xs s' })" by auto
  ultimately show ?case by simp
qed

text \<open>An operation that looks at the surface first, and acts on a surface as one that does not look.\<close>

lemma paints_at:
  assumes "\<And>s. ok s \<Longrightarrow> rest s = r \<Longrightarrow> \<exists>f' g'. f s = f' s \<and> paints S ok px rest r f' g' \<and>
      (\<forall>i j. i < unat (sf_width S s) \<longrightarrow> j < unat (sf_height S s) \<longrightarrow> g' i j (px s i j) = g i j (px s i j))"
  shows "paints S ok px rest r f g"
  unfolding paints_def
proof (intro allI impI)
  fix s assume s: "ok s" "rest s = r"
  obtain f' g' where f: "f s = f' s" and p: "paints S ok px rest r f' g'"
    and g: "\<And>i j. i < unat (sf_width S s) \<Longrightarrow> j < unat (sf_height S s) \<Longrightarrow> g' i j (px s i j) = g i j (px s i j)"
    using assms [OF s] by blast
  from p s obtain s' where "f' s = Some s'" "ok s'" "rest s' = r"
    "\<And>i j. i < unat (sf_width S s) \<Longrightarrow> j < unat (sf_height S s) \<Longrightarrow> px s' i j = g' i j (px s i j)"
    unfolding paints_def by blast
  then show "\<exists>s'. f s = Some s' \<and> ok s' \<and> rest s' = r \<and>
      (\<forall>i j. i < unat (sf_width S s) \<longrightarrow> j < unat (sf_height S s) \<longrightarrow> px s' i j = g i j (px s i j))"
    using f g by auto
qed

lemma paints_eq: "paints S ok px rest r f g \<Longrightarrow> (\<And>i j b. g i j b = g' i j b) \<Longrightarrow> paints S ok px rest r f g'"
  by (rule paints_at) blast

lemma paints_rows:
  assumes "\<And>row. row \<in> set (word_range y0 y1) \<Longrightarrow>
      paints S ok px rest r (f row) (\<lambda>i j b. if j = unat row then g row i b else b)"
  shows "paints S ok px rest r (for_each f (word_range y0 y1))
      (\<lambda>i j b. if unat y0 \<le> j \<and> j < unat y1 then g (of_nat j) i b else b)"
  by (rule paints_eq [OF paints_loop [OF assms]]) (simp_all add: fold_rows)

lemma fill_rect_paints: "paints S ok px rest r (fill_rect S x y w h c) (\<lambda>i j b. if on_rect x y (x + w) (y + h) i j then c else b)"
proof (rule paints_at)
  fix s assume "ok s" "rest s = r"
  let ?xe = "min (x + w) (sf_width S s)" and ?ye = "min (y + h) (sf_height S s)"
  show "\<exists>f' g'. fill_rect S x y w h c s = f' s \<and> paints S ok px rest r f' g' \<and>
      (\<forall>i j. i < unat (sf_width S s) \<longrightarrow> j < unat (sf_height S s) \<longrightarrow>
         g' i j (px s i j) = (if on_rect x y (x + w) (y + h) i j then c else px s i j))"
  proof (cases "?xe \<le> x \<or> ?ye \<le> y")
    case True
    then have "\<not> on_rect x y (x + w) (y + h) i j" if "i < unat (sf_width S s)" "j < unat (sf_height S s)" for i j
      using that by (auto simp: on_rect_def word_le_nat_alt unat_min)
    moreover have "fill_rect S x y w h c s = Some s" using True by (simp add: fill_rect_def Let_def)
    ultimately show ?thesis using paints_skip by (metis (no_types, lifting))
  next
    case False
    then have f: "fill_rect S x y w h c s = for_each (\<lambda>yy. sf_fill_span S x yy (?xe - x) c) (word_range y ?ye) s"
      by (simp add: fill_rect_def Let_def)
    have p: "paints S ok px rest r (for_each (\<lambda>yy. sf_fill_span S x yy (?xe - x) c) (word_range y ?ye))
        (\<lambda>i j b. if unat y \<le> j \<and> j < unat ?ye then if unat x \<le> i \<and> i < unat x + unat (?xe - x) then c else b else b)"
      by (rule paints_rows, rule paints_eq [OF fill_paints]) (auto simp: on_span_def)
    have "unat (?xe - x) = unat ?xe - unat x" using False by (intro unat_sub_le) (simp add: not_le order_less_imp_le)
    then have "(if unat y \<le> j \<and> j < unat ?ye then if unat x \<le> i \<and> i < unat x + unat (?xe - x) then c else b else b)
        = (if on_rect x y (x + w) (y + h) i j then c else b)" if "i < unat (sf_width S s)" "j < unat (sf_height S s)" for i j b
      using that by (auto simp: on_rect_def unat_min)
    then show ?thesis using f p by blast
  qed
qed

lemma fill_span_clipped_paints:
  "paints S ok px rest r (fill_span_clipped S x y w c) (\<lambda>i j b. if j = unat y \<and> unat x \<le> i \<and> i < unat (x + w) then c else b)"
proof (rule paints_at)
  fix s assume "ok s" "rest s = r"
  let ?xe = "min (x + w) (sf_width S s)"
  show "\<exists>f' g'. fill_span_clipped S x y w c s = f' s \<and> paints S ok px rest r f' g' \<and>
      (\<forall>i j. i < unat (sf_width S s) \<longrightarrow> j < unat (sf_height S s) \<longrightarrow>
         g' i j (px s i j) = (if j = unat y \<and> unat x \<le> i \<and> i < unat (x + w) then c else px s i j))"
  proof (cases "y \<ge> sf_height S s \<or> ?xe \<le> x")
    case True
    then have "\<not> (j = unat y \<and> unat x \<le> i \<and> i < unat (x + w))" if "i < unat (sf_width S s)" "j < unat (sf_height S s)" for i j
      using that by (auto simp: word_le_nat_alt unat_min)
    moreover have "fill_span_clipped S x y w c s = Some s" using True by (simp add: fill_span_clipped_def Let_def)
    ultimately show ?thesis using paints_skip by (metis (no_types, lifting))
  next
    case False
    then have f: "fill_span_clipped S x y w c s = sf_fill_span S x y (?xe - x) c s"
      by (simp add: fill_span_clipped_def Let_def)
    have "unat (?xe - x) = unat ?xe - unat x" using False by (intro unat_sub_le) (simp add: not_le order_less_imp_le)
    then have "(if on_span x y (?xe - x) i j then c else b) = (if j = unat y \<and> unat x \<le> i \<and> i < unat (x + w) then c else b)"
      if "i < unat (sf_width S s)" for i j b
      using that by (auto simp: on_span_def unat_min)
    then show ?thesis using f fill_paints [of r x y "?xe - x" c] by blast
  qed
qed

end

text \<open>The pixels of a row of a rounded rectangle, and the colour of a pixel of a character cell.\<close>

definition rounded_span :: "u32 \<Rightarrow> u32 \<Rightarrow> u32 \<Rightarrow> u32 \<Rightarrow> u32 \<Rightarrow> nat \<Rightarrow> bool" where
  "rounded_span x w h r row i =
     (let inset = rounded_inset row h r; inner = sat32 w (2 * inset)
      in 2 \<le> inner \<and> unat (x + inset) \<le> i \<and> i < unat (x + inset + inner))"

definition cell_color :: "u8 \<Rightarrow> u8 \<Rightarrow> nat \<Rightarrow> nat \<Rightarrow> u32 \<Rightarrow> u32 option \<Rightarrow> u32 \<Rightarrow> u32" where
  "cell_color fs ch di dj fg bg b =
     (if bit (glyph ch ! (dj div unat fs)) (di div unat fs) then fg else case bg of Some c \<Rightarrow> c | None \<Rightarrow> b)"

lemma unat_u8_u32: "unat (ucast b :: u32) = unat b" for b :: u8
  using unsigned_less [of b, where ?'a = nat] by (simp add: unsigned_ucast_eq take_bit_nat_eq_self)

lemma block_iff:
  fixes x :: u32
  assumes "unat x + n * unat fs < 2 ^ 32" "0 < unat fs" "k < n"
  shows "unat (x + of_nat k * ucast (fs :: u8)) \<le> i \<and> i < unat (x + of_nat k * ucast fs + ucast fs)
      \<longleftrightarrow> unat x \<le> i \<and> (i - unat x) div unat fs = k"
proof -
  let ?s = "unat fs"
  have kn: "Suc k * ?s \<le> n * ?s" using assms(3) by (intro mult_le_mono1) simp
  then have b: "unat x + k * ?s < 2 ^ 32" "unat x + k * ?s + ?s < 2 ^ 32" using assms(1) by simp_all
  have "k < 2 ^ 32" using kn assms(1,2) by (cases ?s) auto
  then have k: "unat (of_nat k :: u32) = k" by (simp add: unsigned_of_nat take_bit_nat_eq_self)
  have s: "unat (ucast fs :: u32) = ?s" by (simp add: unat_u8_u32)
  have m: "unat (of_nat k * ucast fs :: u32) = k * ?s" using b(1) k s by (simp add: unat_word_ariths del: unsigned_ucast_eq)
  have "unat (x + of_nat k * ucast fs) = unat x + k * ?s" using b(1) m by (intro trans [OF unat_add_small]) simp_all
  moreover have "unat (x + of_nat k * ucast fs + ucast fs) = unat x + k * ?s + ?s"
    using b calculation s by (intro trans [OF unat_add_small]) (simp_all del: unsigned_ucast_eq)
  moreover have "k * ?s \<le> d \<and> d < k * ?s + ?s \<longleftrightarrow> d div ?s = k" for d
    using div_times_less_eq_dividend [of d ?s] dividend_less_div_times [OF assms(2), of d]
    by (auto simp: algebra_simps intro!: div_nat_eqI)
  moreover have "unat x + k * ?s \<le> i \<and> i < unat x + k * ?s + ?s
      \<longleftrightarrow> unat x \<le> i \<and> k * ?s \<le> i - unat x \<and> i - unat x < k * ?s + ?s" by linarith
  ultimately show ?thesis by metis
qed

context raster
begin

lemma paints_rows_from:
  assumes "unat y + unat h \<le> 2 ^ 32"
    and "\<And>row. row < h \<Longrightarrow> paints S ok px rest r (f row) (\<lambda>i j b. if j = unat (y + row) then g row i b else b)"
  shows "paints S ok px rest r (for_each f (word_range 0 h))
      (\<lambda>i j b. if unat y \<le> j \<and> j < unat y + unat h then g (of_nat (j - unat y)) i b else b)"
proof (rule paints_eq [OF paints_loop])
  show "paints S ok px rest r (f row) (\<lambda>i j b. if j = unat (y + row) then g row i b else b)" if "row \<in> set (word_range 0 h)" for row
    using that assms(2) by (simp add: set_word_range)
  show "fold (\<lambda>row b. if j = unat (y + row) then g row i b else b) (word_range 0 h) b
      = (if unat y \<le> j \<and> j < unat y + unat h then g (of_nat (j - unat y)) i b else b)" for i j b
    by (rule fold_rows_from [OF assms(1)])
qed

lemma fill_rect_gradient_v_paints:
  assumes "unat y + unat h \<le> 2 ^ 32"
  shows "paints S ok px rest r (fill_rect_gradient_v S x y w h upper lower)
      (\<lambda>i j b. if unat y \<le> j \<and> j < unat y + unat h
               then if unat x \<le> i \<and> i < unat (x + w) then gradient_color upper lower h (of_nat (j - unat y)) else b else b)"
  unfolding fill_rect_gradient_v_def
  by (rule paints_rows_from [OF assms], rule paints_eq [OF fill_span_clipped_paints]) auto

lemma rounded_row_paints:
  "paints S ok px rest r
     (\<lambda>s. let inset = rounded_inset row h rd; inner = sat32 w (2 * inset)
          in if inner \<ge> 2 then fill_span_clipped S (x + inset) y inner c s else Some s)
     (\<lambda>i j b. if j = unat y then if rounded_span x w h rd row i then c else b else b)"
proof (cases "2 \<le> sat32 w (2 * rounded_inset row h rd)")
  case True
  then show ?thesis
    unfolding Let_def if_P [OF True] by (intro paints_eq [OF fill_span_clipped_paints]) (auto simp: rounded_span_def Let_def)
next
  case False
  then show ?thesis unfolding Let_def if_not_P [OF False]
    by (intro paints_eq [OF paints_skip]) (simp add: rounded_span_def Let_def)
qed

lemma fill_rounded_rect_paints:
  assumes "unat y + unat h \<le> 2 ^ 32"
  shows "paints S ok px rest r (fill_rounded_rect S x y w h rd c)
      (\<lambda>i j b. if unat y \<le> j \<and> j < unat y + unat h then if rounded_span x w h rd (of_nat (j - unat y)) i then c else b else b)"
  unfolding fill_rounded_rect_def by (rule paints_rows_from [OF assms rounded_row_paints])

lemma fill_rounded_rect_gradient_v_paints:
  assumes "unat y + unat h \<le> 2 ^ 32"
  shows "paints S ok px rest r (fill_rounded_rect_gradient_v S x y w h rd upper lower)
      (\<lambda>i j b. if unat y \<le> j \<and> j < unat y + unat h
               then if rounded_span x w h rd (of_nat (j - unat y)) i then gradient_color upper lower h (of_nat (j - unat y)) else b else b)"
  unfolding fill_rounded_rect_gradient_v_def Let_def
  by (rule paints_rows_from [OF assms rounded_row_paints [unfolded Let_def]])

lemma blit_paints_rect:
  assumes "unat src_w * unat src_h \<le> length src" "unat src_w * unat src_h < 2 ^ 32"
    and "unat x + unat src_w < 2 ^ 32" "unat y + unat src_h < 2 ^ 32"
  shows "paints S ok px rest r (blit S x y src src_w src_h)
      (\<lambda>i j b. if on_rect x y (x + src_w) (y + src_h) i j then src ! ((j - unat y) * unat src_w + (i - unat x)) else b)"
proof (rule paints_at)
  fix s assume "ok s" "rest s = r"
  let ?xe = "min (x + src_w) (sf_width S s)" and ?ye = "min (y + src_h) (sf_height S s)"
  let ?g = "\<lambda>i j b. if on_rect x y (x + src_w) (y + src_h) i j then src ! ((j - unat y) * unat src_w + (i - unat x)) else b"
  show "\<exists>f' g'. blit S x y src src_w src_h s = f' s \<and> paints S ok px rest r f' g' \<and>
      (\<forall>i j. i < unat (sf_width S s) \<longrightarrow> j < unat (sf_height S s) \<longrightarrow> g' i j (px s i j) = ?g i j (px s i j))"
  proof (cases "?xe \<le> x \<or> ?ye \<le> y")
    case True
    then have "\<not> on_rect x y (x + src_w) (y + src_h) i j" if "i < unat (sf_width S s)" "j < unat (sf_height S s)" for i j
      using that by (auto simp: on_rect_def word_le_nat_alt unat_min)
    moreover have "blit S x y src src_w src_h s = Some s" using True by (simp add: blit_def Let_def)
    ultimately show ?thesis using paints_skip by (metis (no_types, lifting))
  next
    case False
    let ?f = "\<lambda>row. sf_blit_span S x (y + row) src (unat (row * src_w)) (?xe - x)"
    let ?k = "\<lambda>i row b. if unat x \<le> i \<and> i < unat x + unat (?xe - x) then src ! (unat (row * src_w) + (i - unat x)) else b"
    have f: "blit S x y src src_w src_h s = for_each ?f (word_range 0 (?ye - y)) s"
      using False by (simp add: blit_def Let_def)
    have e: "unat (x + src_w) = unat x + unat src_w" "unat (y + src_h) = unat y + unat src_h"
      using assms(3,4) by (simp_all add: unat_add_small)
    have d: "unat (?xe - x) = unat ?xe - unat x" "unat (?ye - y) = unat ?ye - unat y"
      using False by (metis linorder_le_cases unat_sub_le)+
    have m: "unat (row * src_w) = unat row * unat src_w" "unat (row * src_w) + unat (?xe - x) \<le> length src" if "row < ?ye - y" for row
    proof -
      have "unat row < unat src_h" "unat (?xe - x) \<le> unat src_w"
        using that d e by (auto simp: word_less_nat_alt word_le_nat_alt min_def split: if_splits)
      then have "Suc (unat row) * unat src_w \<le> unat src_h * unat src_w" by (intro mult_le_mono1) simp
      then have *: "unat row * unat src_w + unat src_w \<le> unat src_w * unat src_h" by (simp add: algebra_simps)
      then show u: "unat (row * src_w) = unat row * unat src_w" using assms(2) by (simp add: unat_word_ariths)
      show "unat (row * src_w) + unat (?xe - x) \<le> length src" unfolding u using * assms(1) \<open>unat (?xe - x) \<le> unat src_w\<close> by linarith
    qed
    have p: "paints S ok px rest r (for_each ?f (word_range 0 (?ye - y)))
        (\<lambda>i j b. if unat y \<le> j \<and> j < unat y + unat (?ye - y) then ?k i (of_nat (j - unat y)) b else b)"
    proof (rule paints_rows_from)
      show "unat y + unat (?ye - y) \<le> 2 ^ 32"
        unfolding d using e assms(4) by (simp add: unat_min)
      fix row assume "row < ?ye - y"
      then show "paints S ok px rest r (?f row) (\<lambda>i j b. if j = unat (y + row) then ?k i row b else b)"
        by (intro paints_eq [OF blit_paints [OF m(2)]]) (auto simp: on_span_def)
    qed
    have "(if unat y \<le> j \<and> j < unat y + unat (?ye - y) then ?k i (of_nat (j - unat y)) b else b) = ?g i j b"
      if "i < unat (sf_width S s)" "j < unat (sf_height S s)" for i j b
    proof -
      have "unat (of_nat (j - unat y) * src_w) = (j - unat y) * unat src_w" if j: "unat y \<le> j" "j < unat y + unat (?ye - y)"
      proof -
        have u: "unat (of_nat (j - unat y) :: u32) = j - unat y" using j by (intro unat_of_nat_less [of _ "?ye - y"]) linarith
        then have "(of_nat (j - unat y) :: u32) < ?ye - y" using j unfolding word_less_nat_alt by linarith
        from m(1) [OF this] show ?thesis unfolding u .
      qed
      then show ?thesis using that d e by (auto simp: on_rect_def unat_min simp del: of_nat_diff)
    qed
    then show ?thesis using f p by blast
  qed
qed

end

lemma bit_test: "(b AND push_bit k 1 \<noteq> 0) = bit b k" for b :: u8
proof -
  have "push_bit k 1 = (2 ^ k :: u8)" by (simp add: push_bit_eq_mult)
  then show ?thesis by (simp add: and_exp_eq_0_iff_not_bit)
qed

context raster
begin

lemma glyph_dot_paints:
  assumes "unat x + 8 * unat fs < 2 ^ 32" "unat y + 8 * unat fs < 2 ^ 32" "0 < unat fs" "row < 8" "col < 8"
  shows "paints S ok px rest r (glyph_dot S fs x y row col c)
      (\<lambda>i j b. if (unat y \<le> j \<and> (j - unat y) div unat fs = row) \<and> unat x \<le> i \<and> (i - unat x) div unat fs = col then c else b)"
proof -
  have B: "unat (x + of_nat col * ucast fs) \<le> i \<and> i < unat (x + of_nat col * ucast fs + ucast fs)
      \<longleftrightarrow> unat x \<le> i \<and> (i - unat x) div unat fs = col" for i
    by (rule block_iff [OF assms(1,3,5)])
  have C: "unat (y + of_nat row * ucast fs) \<le> j \<and> j < unat (y + of_nat row * ucast fs + ucast fs)
      \<longleftrightarrow> unat y \<le> j \<and> (j - unat y) div unat fs = row" for j
    by (rule block_iff [OF assms(2,3,4)])
  show ?thesis
  proof (cases "(ucast fs :: u32) = 1")
    case True
    then have "unat fs = 1" by (metis unat_u8_u32 unsigned_1)
    moreover have "unat (x + of_nat col) = unat x + col" "unat (y + of_nat row) = unat y + row"
      using assms(1,2,4,5) calculation by (simp_all add: unat_word_ariths unsigned_of_nat take_bit_nat_eq_self)
    ultimately show ?thesis unfolding glyph_dot_def Let_def if_P [OF True]
      by (intro paints_eq [OF put_paints]) auto
  next
    case False
    show ?thesis unfolding glyph_dot_def Let_def if_not_P [OF False]
      by (rule paints_eq [OF fill_rect_paints]) (use B C in \<open>simp only: on_rect_def conj_assoc; metis\<close>)
  qed
qed

lemma draw_char_paints:
  assumes "unat x + 8 * unat fs < 2 ^ 32" "unat y + 8 * unat fs < 2 ^ 32" "0 < unat fs"
  shows "paints S ok px rest r (draw_char S fs x y ch fg bg)
      (\<lambda>i j b. if unat x \<le> i \<and> i < unat x + glyph_w fs \<and> unat y \<le> j \<and> j < unat y + glyph_h fs
               then cell_color fs ch (i - unat x) (j - unat y) fg bg b else b)"
proof -
  let ?s = "unat fs"
  let ?f = "\<lambda>row col b. if bit (glyph ch ! row) col then fg else case bg of Some c \<Rightarrow> c | None \<Rightarrow> b"
  have dot: "paints S ok px rest r
      (\<lambda>s. if glyph ch ! row AND push_bit col 1 \<noteq> 0 then glyph_dot S fs x y row col fg s
           else (case bg of Some b \<Rightarrow> glyph_dot S fs x y row col b s | None \<Rightarrow> Some s))
      (\<lambda>i j b. if ((unat y \<le> j \<and> (j - unat y) div ?s = row) \<and> unat x \<le> i) \<and> (i - unat x) div ?s = col then ?f row col b else b)"
    if "row < 8" "col < 8" for row col
    unfolding bit_test
    by (cases "bit (glyph ch ! row) col"; cases bg)
       (simp_all, (intro paints_eq [OF glyph_dot_paints [OF assms that]] paints_eq [OF paints_skip]; simp)+)
  have line: "paints S ok px rest r (for_each (\<lambda>col s. if glyph ch ! row AND push_bit col 1 \<noteq> 0 then glyph_dot S fs x y row col fg s
           else (case bg of Some b \<Rightarrow> glyph_dot S fs x y row col b s | None \<Rightarrow> Some s)) [0..<GLYPH_WIDTH])
      (\<lambda>i j b. if (unat y \<le> j \<and> unat x \<le> i \<and> (i - unat x) div ?s < 8) \<and> (j - unat y) div ?s = row then ?f row ((i - unat x) div ?s) b else b)"
    if "row < 8" for row
    by (rule paints_eq [OF paints_loop [OF dot [OF that]]]) (simp add: GLYPH_WIDTH_def, simp only: GLYPH_WIDTH_def fold_index, auto)
  have whole: "paints S ok px rest r (draw_char S fs x y ch fg bg)
      (\<lambda>i j b. if (unat y \<le> j \<and> unat x \<le> i \<and> (i - unat x) div ?s < 8) \<and> (j - unat y) div ?s < 8
               then ?f ((j - unat y) div ?s) ((i - unat x) div ?s) b else b)"
    unfolding draw_char_def Let_def
    by (rule paints_eq [OF paints_loop [OF line]]) (simp_all only: length_glyph set_upt atLeastLessThan_iff fold_index)
  have "d div ?s < 8 \<longleftrightarrow> d < 8 * ?s" for d using assms(3) by (simp add: div_less_iff_less_mult)
  then have "(unat y \<le> j \<and> unat x \<le> i \<and> (i - unat x) div ?s < 8) \<and> (j - unat y) div ?s < 8
      \<longleftrightarrow> unat x \<le> i \<and> i < unat x + glyph_w fs \<and> unat y \<le> j \<and> j < unat y + glyph_h fs" for i j
    unfolding glyph_w_def glyph_h_def GLYPH_WIDTH_def GLYPH_HEIGHT_def by (simp only:) linarith
  then show ?thesis by (intro paints_eq [OF whole]) (simp only: cell_color_def)
qed

end

context raster
begin

lemma draw_string_paints:
  assumes "unat x + glyph_w fs * length bs < 2 ^ 32" "unat y + glyph_h fs < 2 ^ 32" "0 < unat fs"
  shows "paints S ok px rest r (draw_string S fs x y bs fg bg)
      (\<lambda>i j b. if unat x \<le> i \<and> i < unat x + glyph_w fs * length bs \<and> unat y \<le> j \<and> j < unat y + glyph_h fs
               then cell_color fs (bs ! ((i - unat x) div glyph_w fs)) ((i - unat x) mod glyph_w fs) (j - unat y) fg bg b else b)"
  using assms(1)
proof (induction bs arbitrary: x)
  case Nil
  have e: "draw_string S fs x y [] fg bg = Some" by auto
  show ?case unfolding e by (rule paints_eq [OF paints_skip]) auto
next
  case (Cons c bs)
  let ?w = "glyph_w fs" and ?x = "x + of_nat (glyph_w fs)"
  have w: "0 < ?w" "?w = 8 * unat fs" "glyph_h fs = 8 * unat fs"
    using assms(3) by (simp_all add: glyph_w_def glyph_h_def GLYPH_WIDTH_def GLYPH_HEIGHT_def)
  have xw: "unat x + (?w + ?w * length bs) < 2 ^ 32" using Cons.prems by simp
  then have "unat (of_nat ?w :: u32) = ?w" by (simp add: unsigned_of_nat take_bit_nat_eq_self)
  then have x': "unat ?x = unat x + ?w" using xw by (simp add: unat_word_ariths)
  have 1: "paints S ok px rest r (draw_char S fs x y c fg bg)
      (\<lambda>i j b. if unat x \<le> i \<and> i < unat x + ?w \<and> unat y \<le> j \<and> j < unat y + glyph_h fs
               then cell_color fs c (i - unat x) (j - unat y) fg bg b else b)"
    using xw assms(2,3) w by (intro draw_char_paints) simp_all
  have 2: "paints S ok px rest r (draw_string S fs ?x y bs fg bg)
      (\<lambda>i j b. if unat ?x \<le> i \<and> i < unat ?x + ?w * length bs \<and> unat y \<le> j \<and> j < unat y + glyph_h fs
               then cell_color fs (bs ! ((i - unat ?x) div ?w)) ((i - unat ?x) mod ?w) (j - unat y) fg bg b else b)"
    using xw x' by (intro Cons.IH) simp
  have e: "draw_string S fs x y (c # bs) fg bg = (\<lambda>s. do { s' \<leftarrow> draw_char S fs x y c fg bg s; draw_string S fs ?x y bs fg bg s' })"
    by auto
  have at: "(i - unat x) div ?w = Suc ((i - unat ?x) div ?w)" "(i - unat x) mod ?w = (i - unat ?x) mod ?w" if "unat ?x \<le> i" for i
  proof -
    have "i - unat x = (i - unat ?x) + ?w" using that x' by simp
    then show "(i - unat x) div ?w = Suc ((i - unat ?x) div ?w)" "(i - unat x) mod ?w = (i - unat ?x) mod ?w" using w(1) by (simp_all add: div_add_self2)
  qed
  have low: "(i - unat x) div ?w = 0" "(i - unat x) mod ?w = i - unat x" if "unat x \<le> i" "i < unat x + ?w" for i
    using that by simp_all
  show ?case unfolding e
  proof (rule paints_eq [OF paints_seq [OF 1 2]])
    fix i j b
    show "(if unat ?x \<le> i \<and> i < unat ?x + ?w * length bs \<and> unat y \<le> j \<and> j < unat y + glyph_h fs
           then cell_color fs (bs ! ((i - unat ?x) div ?w)) ((i - unat ?x) mod ?w) (j - unat y) fg bg
             (if unat x \<le> i \<and> i < unat x + ?w \<and> unat y \<le> j \<and> j < unat y + glyph_h fs
              then cell_color fs c (i - unat x) (j - unat y) fg bg b else b)
           else (if unat x \<le> i \<and> i < unat x + ?w \<and> unat y \<le> j \<and> j < unat y + glyph_h fs
              then cell_color fs c (i - unat x) (j - unat y) fg bg b else b))
        = (if unat x \<le> i \<and> i < unat x + ?w * length (c # bs) \<and> unat y \<le> j \<and> j < unat y + glyph_h fs
           then cell_color fs ((c # bs) ! ((i - unat x) div ?w)) ((i - unat x) mod ?w) (j - unat y) fg bg b else b)"
    proof (cases "unat ?x \<le> i")
      case True
      then show ?thesis using at [OF True] x' by simp
    next
      case False
      then show ?thesis using low [of i] x' by auto
    qed
  qed
qed

end

section \<open>Drawing text never fails\<close>

text \<open>Whatever the position, the scale and the text: the drawing returns, and leaves the rows above it alone.\<close>

definition paints_below :: "'s surface \<Rightarrow> ('s \<Rightarrow> bool) \<Rightarrow> ('s \<Rightarrow> nat \<Rightarrow> nat \<Rightarrow> u32) \<Rightarrow> ('s \<Rightarrow> 'r) \<Rightarrow> 'r \<Rightarrow> nat \<Rightarrow> ('s \<Rightarrow> 's exec) \<Rightarrow> bool" where
  "paints_below S ok px rest r y f \<longleftrightarrow> (\<exists>g. paints S ok px rest r f g \<and> (\<forall>i j b. j < y \<longrightarrow> g i j b = b))"

context raster
begin

lemma belowI: "paints S ok px rest r f g \<Longrightarrow> (\<And>i j b. j < y \<Longrightarrow> g i j b = b) \<Longrightarrow> paints_below S ok px rest r y f"
  unfolding paints_below_def by blast

lemma below_seq:
  assumes "paints_below S ok px rest r y f" "paints_below S ok px rest r y f'"
  shows "paints_below S ok px rest r y (\<lambda>s. do { s' \<leftarrow> f s; f' s' })"
proof -
  obtain g g' where g: "paints S ok px rest r f g" "paints S ok px rest r f' g'"
    "\<And>i j b. j < y \<Longrightarrow> g i j b = b" "\<And>i j b. j < y \<Longrightarrow> g' i j b = b" using assms unfolding paints_below_def by blast
  show ?thesis unfolding paints_below_def
    by (rule exI [of _ "\<lambda>i j b. g' i j (g i j b)"]) (simp add: paints_seq [OF g(1,2)] g(3,4))
qed

lemma below_skip: "paints_below S ok px rest r y Some"
  unfolding paints_below_def by (rule exI [of _ "\<lambda>i j b. b"]) (simp add: paints_skip)

lemma below_loop:
  "(\<And>x. x \<in> set xs \<Longrightarrow> paints_below S ok px rest r y (f x)) \<Longrightarrow> paints_below S ok px rest r y (for_each f xs)"
proof (induction xs)
  case Nil
  have "for_each f [] = Some" by auto
  then show ?case by (simp add: below_skip)
next
  case (Cons x xs)
  have "for_each f (x # xs) = (\<lambda>s. do { s' \<leftarrow> f x s; for_each f xs s' })" by auto
  moreover have "paints_below S ok px rest r y (\<lambda>s. do { s' \<leftarrow> f x s; for_each f xs s' })" using Cons by (intro below_seq) auto
  ultimately show ?case by simp
qed

lemma glyph_dot_below:
  assumes "unat y + 8 * unat fs < 2 ^ 32" "row < 8"
  shows "paints_below S ok px rest r (unat y) (glyph_dot S fs x y row col c)"
proof (cases "(ucast fs :: u32) = 1")
  case True
  then have "unat fs = 1" by (metis unat_u8_u32 unsigned_1)
  then have "unat (y + of_nat row) = unat y + row"
    using assms by (simp add: unat_word_ariths unsigned_of_nat take_bit_nat_eq_self)
  then show ?thesis unfolding glyph_dot_def Let_def if_P [OF True] by (intro belowI [OF put_paints]) auto
next
  case False
  have "row * unat fs \<le> 8 * unat fs" using assms(2) by (intro mult_le_mono1) simp
  then have "unat y + row * unat fs < 2 ^ 32" using assms(1) by linarith
  moreover have "unat (of_nat row * ucast fs :: u32) = row * unat fs"
    using assms calculation by (simp add: unat_word_ariths unsigned_of_nat take_bit_nat_eq_self unat_u8_u32 del: unsigned_ucast_eq)
  ultimately have "unat (y + of_nat row * ucast fs) = unat y + row * unat fs" by (intro trans [OF unat_add_small]) simp_all
  then show ?thesis unfolding glyph_dot_def Let_def if_not_P [OF False]
    by (intro belowI [OF fill_rect_paints]) (auto simp: on_rect_def)
qed

lemma draw_char_below:
  assumes "unat y + 8 * unat fs < 2 ^ 32"
  shows "paints_below S ok px rest r (unat y) (draw_char S fs x y ch fg bg)"
  unfolding draw_char_def Let_def
proof (intro below_loop)
  fix row col assume "row \<in> set [0..<length (glyph ch)]"
  then have row: "row < 8" by simp
  show "paints_below S ok px rest r (unat y) (\<lambda>s. if glyph ch ! row AND push_bit col 1 \<noteq> 0 then glyph_dot S fs x y row col fg s
            else (case bg of Some b \<Rightarrow> glyph_dot S fs x y row col b s | None \<Rightarrow> Some s))"
    by (cases "glyph ch ! row AND push_bit col 1 \<noteq> 0"; cases bg) (simp_all add: glyph_dot_below [OF assms row] below_skip)
qed

lemma draw_string_below:
  assumes "unat y + 8 * unat fs < 2 ^ 32"
  shows "paints_below S ok px rest r (unat y) (draw_string S fs x y bs fg bg)"
proof (induction bs arbitrary: x)
  case Nil
  have "draw_string S fs x y [] fg bg = Some" by auto
  then show ?case by (simp add: below_skip)
next
  case (Cons c bs)
  have "draw_string S fs x y (c # bs) fg bg = (\<lambda>s. do { s' \<leftarrow> draw_char S fs x y c fg bg s; draw_string S fs (x + of_nat (glyph_w fs)) y bs fg bg s' })"
    by auto
  then show ?case using below_seq [OF draw_char_below [OF assms] Cons.IH] by simp
qed

end

section \<open>Surfaces that can be read back\<close>

locale readable = raster +
  assumes get_reads: "ok s \<Longrightarrow> sf_get S x y s =
      Some (if x < sf_width S s \<and> y < sf_height S s then Some (px s (unat x) (unat y)) else None)"
    and blend_paints: "unat x + unat len \<le> 2 ^ 32 \<Longrightarrow>
      paints S ok px rest r (sf_blend_span S x y len c a) (\<lambda>i j b. if on_span x y len i j then blend c b a else b)"
begin

lemma blend_span_clipped_paints:
  "paints S ok px rest r (blend_span_clipped S x y w c a)
     (\<lambda>i j b. if j = unat y \<and> unat x \<le> i \<and> i < unat (x + w) then blend c b a else b)"
proof (rule paints_at)
  fix s assume "ok s" "rest s = r"
  let ?xe = "min (x + w) (sf_width S s)"
  show "\<exists>f' g'. blend_span_clipped S x y w c a s = f' s \<and> paints S ok px rest r f' g' \<and>
      (\<forall>i j. i < unat (sf_width S s) \<longrightarrow> j < unat (sf_height S s) \<longrightarrow>
         g' i j (px s i j) = (if j = unat y \<and> unat x \<le> i \<and> i < unat (x + w) then blend c (px s i j) a else px s i j))"
  proof (cases "y \<ge> sf_height S s \<or> ?xe \<le> x")
    case True
    then have "\<not> (j = unat y \<and> unat x \<le> i \<and> i < unat (x + w))" if "i < unat (sf_width S s)" "j < unat (sf_height S s)" for i j
      using that by (auto simp: word_le_nat_alt unat_min)
    moreover have "blend_span_clipped S x y w c a s = Some s" using True by (simp add: blend_span_clipped_def Let_def)
    ultimately show ?thesis using paints_skip by (metis (no_types, lifting))
  next
    case False
    then have f: "blend_span_clipped S x y w c a s = sf_blend_span S x y (?xe - x) c a s"
      by (simp add: blend_span_clipped_def Let_def)
    have d: "unat (?xe - x) = unat ?xe - unat x" "unat x \<le> unat ?xe"
      using False by (metis linorder_le_cases unat_sub_le, metis linorder_le_cases word_le_nat_alt)
    have "unat ?xe < 2 ^ 32" using unsigned_less [of ?xe, where ?'a = nat] by simp
    then have "unat x + unat (?xe - x) \<le> 2 ^ 32" using d by simp
    from blend_paints [OF this] have "paints S ok px rest r (sf_blend_span S x y (?xe - x) c a)
        (\<lambda>i j b. if on_span x y (?xe - x) i j then blend c b a else b)" .
    moreover have "(if on_span x y (?xe - x) i j then blend c b a else b) = (if j = unat y \<and> unat x \<le> i \<and> i < unat (x + w) then blend c b a else b)"
      if "i < unat (sf_width S s)" for i j b
      using that d by (auto simp: on_span_def unat_min)
    ultimately show ?thesis using f by blast
  qed
qed

lemma fill_rounded_rect_blend_paints:
  assumes "unat y + unat h \<le> 2 ^ 32"
  shows "paints S ok px rest r (fill_rounded_rect_blend S x y w h rd c a)
      (\<lambda>i j b. if unat y \<le> j \<and> j < unat y + unat h then if rounded_span x w h rd (of_nat (j - unat y)) i then blend c b a else b else b)"
  unfolding fill_rounded_rect_blend_def
proof (rule paints_rows_from [OF assms])
  fix row
  show "paints S ok px rest r
     (\<lambda>s. let inset = rounded_inset row h rd; inner = sat32 w (2 * inset)
          in if inner \<ge> 2 then blend_span_clipped S (x + inset) (y + row) inner c a s else Some s)
     (\<lambda>i j b. if j = unat (y + row) then if rounded_span x w h rd row i then blend c b a else b else b)"
  proof (cases "2 \<le> sat32 w (2 * rounded_inset row h rd)")
    case True
    then show ?thesis
      unfolding Let_def if_P [OF True] by (intro paints_eq [OF blend_span_clipped_paints]) (auto simp: rounded_span_def Let_def)
  next
    case False
    then show ?thesis unfolding Let_def if_not_P [OF False]
      by (intro paints_eq [OF paints_skip]) (simp add: rounded_span_def Let_def)
  qed
qed

end

lemma nth_splice:
  "a + length ys \<le> length xs \<Longrightarrow> i < length xs \<Longrightarrow>
     (take a xs @ ys @ drop (a + length ys) xs) ! i = (if a \<le> i \<and> i < a + length ys then ys ! (i - a) else xs ! i)"
  by (auto simp: nth_append min_def not_less)

section \<open>Channels\<close>

lemma channel_per_channel: "shift \<in> {16, 8, 0} \<Longrightarrow> channel (per_channel f) shift = f shift AND 0xFF"
proof -
  have e: "(0xFF :: u32) = mask 8" by (simp add: mask_eq_exp_minus_1)
  assume "shift \<in> {16, 8, 0}"
  then consider "shift = 16" | "shift = 8" | "shift = 0" by auto
  then show ?thesis unfolding channel_def per_channel_def e
    by cases (auto intro!: bit_word_eqI simp: bit_simps simp del: mask_numeral)
qed

lemma channel_less: "unat (channel c shift) < 256"
proof -
  have "unat (channel c shift) \<le> unat (0xFF :: u32)"
    unfolding channel_def word_le_nat_alt [symmetric] by (rule word_and_le1)
  then show ?thesis by simp
qed

lemma and_255: "unat v < 256 \<Longrightarrow> v AND 0xFF = v" for v :: u32
proof -
  assume v: "unat v < 256"
  have "(0xFF :: u32) = mask 8" by (simp add: mask_eq_exp_minus_1)
  then have "unat (v AND 0xFF) = unat v mod 256" by (simp only: take_bit_eq_mask [symmetric] unsigned_take_bit_eq) (simp add: take_bit_eq_mod)
  then show ?thesis using v by (simp add: word_unat_eq_iff)
qed

end
