(* ===== verification/Gfx_Shadow.thy ===== *)
theory Gfx_Shadow
  imports Gfx
begin

text \<open>
  The drop shadow of a window (\<open>draw_window_shadow\<close> of \<open>src/src/gfx.rs\<close>): the one darkening pass against the
  three nested translucent rectangles it replaces.
\<close>

section \<open>The shadow as three nested blends\<close>

text \<open>The three translucent black rectangles that the one pass stands for.\<close>

definition nested_shadow :: "'s surface \<Rightarrow> u32 \<Rightarrow> u32 \<Rightarrow> u32 \<Rightarrow> u32 \<Rightarrow> u32 \<Rightarrow> 's \<Rightarrow> 's exec" where
  "nested_shadow S x y w h r =
     for_each (\<lambda>(offset, radius, alpha). fill_rounded_rect_blend S (x + offset) (y + offset) (w + 2) (h + 2) radius 0 alpha) (shadow_layers r)"

text \<open>A row range holds a pixel.\<close>

definition in_range :: "u32 \<times> u32 \<Rightarrow> nat \<Rightarrow> bool" where
  "in_range rg i \<longleftrightarrow> unat (fst rg) \<le> i \<and> i < unat (snd rg)"

definition shadow_ranges :: "u32 \<Rightarrow> u32 \<Rightarrow> u32 \<Rightarrow> u32 \<Rightarrow> u32 \<Rightarrow> u32 \<Rightarrow> (u32 \<times> u32) list" where
  "shadow_ranges x y w h r py =
     map (\<lambda>(offset, radius, _). rounded_row_range py (x + offset) (y + offset) (w + 2) (h + 2) radius) (shadow_layers r)"

definition border_range :: "u32 \<Rightarrow> u32 \<Rightarrow> u32 \<Rightarrow> u32 \<Rightarrow> u32 \<Rightarrow> u32 \<Rightarrow> u32 \<times> u32" where
  "border_range x y w h r py = rounded_row_range py (sat32 x 1) (sat32 y 1) (w + 2) (h + 2) (r + 1)"

definition shadow_map :: "(u32 \<times> u32) \<Rightarrow> (u32 \<times> u32) list \<Rightarrow> u32 list \<Rightarrow> u32 \<Rightarrow> u32 \<Rightarrow> u32" where
  "shadow_map border ranges alphas q b =
     (if q \<ge> fst border \<and> q < snd border then b
      else let scale = shadow_scale ranges alphas q in if scale = 255 then b else darken b scale)"

lemma sorted_word_range: "sorted (word_range a b)"
proof -
  have "a + of_nat i \<le> (a + of_nat k :: u32)" if "i \<le> k" "k < unat b - unat a" for i k
    using that word_range_at [of i b a] word_range_at [of k b a] by (simp add: word_le_nat_alt)
  then show ?thesis by (auto simp: word_range_def sorted_iff_nth_mono)
qed

context raster
begin

lemma paints_until:
  assumes "\<And>z. z \<in> set xs \<Longrightarrow> paints S ok px rest r (f z) (\<lambda>i j b. if P i j z then g i j z b else b)" "sorted xs"
    and "\<And>s z. ok s \<Longrightarrow> rest s = r \<Longrightarrow> c z s \<longleftrightarrow> W \<le> z"
    and "\<And>s i j z. ok s \<Longrightarrow> rest s = r \<Longrightarrow> i < unat (sf_width S s) \<Longrightarrow> j < unat (sf_height S s) \<Longrightarrow> P i j z \<Longrightarrow> z < W"
  shows "paints S ok px rest r (for_until c f xs) (\<lambda>i j b. fold (\<lambda>z b. if P i j z then g i j z b else b) xs b)"
  using assms(1,2)
proof (induction xs)
  case Nil
  have e: "for_until c f [] = Some" by auto
  show ?case unfolding e by (rule paints_eq [OF paints_skip]) simp
next
  case (Cons z xs)
  show ?case
  proof (rule paints_at)
    fix s assume s: "ok s" "rest s = r"
    show "\<exists>f' g'. for_until c f (z # xs) s = f' s \<and> paints S ok px rest r f' g' \<and>
      (\<forall>i j. i < unat (sf_width S s) \<longrightarrow> j < unat (sf_height S s) \<longrightarrow>
         g' i j (px s i j) = fold (\<lambda>z b. if P i j z then g i j z b else b) (z # xs) (px s i j))"
    proof (cases "c z s")
      case True
      then have "W \<le> z'" if "z' \<in> set (z # xs)" for z' using that Cons.prems(2) assms(3) [OF s] by auto
      then have "\<not> P i j z'" if "i < unat (sf_width S s)" "j < unat (sf_height S s)" "z' \<in> set (z # xs)" for i j z'
        using that assms(4) [OF s] by (meson leD)
      then have "fold (\<lambda>z b. if P i j z then g i j z b else b) (z # xs) b = b"
        if "i < unat (sf_width S s)" "j < unat (sf_height S s)" for i j b
        using that by (intro fold_none) blast
      then show ?thesis using True paints_skip
        by (intro exI [of _ Some] exI [of _ "\<lambda>i j b. b"]) simp
    next
      case False
      have "paints S ok px rest r (\<lambda>s. do { s' \<leftarrow> f z s; for_until c f xs s' })
          (\<lambda>i j b. fold (\<lambda>z b. if P i j z then g i j z b else b) xs (if P i j z then g i j z b else b))"
        using Cons by (intro paints_seq) auto
      then show ?thesis using False
        by (intro exI [of _ "\<lambda>s. do { s' \<leftarrow> f z s; for_until c f xs s' }"] exI conjI) auto
    qed
  qed
qed

end

context readable
begin

lemma shadow_pixel_paints:
  "paints S ok px rest rt (shadow_pixel S border ranges alphas py q)
     (\<lambda>i j b. if i = unat q \<and> j = unat py then shadow_map border ranges alphas q b else b)"
proof (rule paints_at)
  fix s assume s: "ok s" "rest s = rt"
  let ?new = "shadow_map border ranges alphas q (px s (unat q) (unat py))"
  let ?on = "q < sf_width S s \<and> py < sf_height S s"
  let ?keep = "(q \<ge> fst border \<and> q < snd border) \<or> shadow_scale ranges alphas q = 255"
  have f: "shadow_pixel S border ranges alphas py q s = (if ?keep \<or> \<not> ?on then Some s else sf_put S q py ?new s)"
    using get_reads [OF s(1), of q py] by (auto simp: shadow_pixel_def shadow_map_def Let_def)
  show "\<exists>f' g'. shadow_pixel S border ranges alphas py q s = f' s \<and> paints S ok px rest rt f' g' \<and>
      (\<forall>i j. i < unat (sf_width S s) \<longrightarrow> j < unat (sf_height S s) \<longrightarrow>
         g' i j (px s i j) = (if i = unat q \<and> j = unat py then shadow_map border ranges alphas q (px s i j) else px s i j))"
  proof (cases "?keep \<or> \<not> ?on")
    case True
    then show ?thesis unfolding f using paints_skip
      by (intro exI [of _ Some] exI [of _ "\<lambda>i j b. b"]) (auto simp: shadow_map_def word_less_nat_alt)
  next
    case False
    then show ?thesis unfolding f if_not_P [OF False] using put_paints [of rt q py ?new]
      by (intro exI [of _ "sf_put S q py ?new"] exI conjI) auto
  qed
qed

lemma draw_window_shadow_paints:
  "paints S ok px rest rt (draw_window_shadow S x y w h rd)
     (\<lambda>i j b. if on_rect (x + 3) (y + 3) (x + w + 9) (y + h + 9) i j
              then shadow_map (border_range x y w h rd (of_nat j)) (shadow_ranges x y w h rd (of_nat j)) [70, 50, 30] (of_nat i) b
              else b)"
proof (rule paints_at)
  fix s assume s: "ok s" "rest s = rt"
  let ?m = "\<lambda>py. shadow_map (border_range x y w h rd py) (shadow_ranges x y w h rd py) [70, 50, 30]"
  let ?g = "\<lambda>i j b. if on_rect (x + 3) (y + 3) (x + w + 9) (y + h + 9) i j then ?m (of_nat j) (of_nat i) b else b"
  have al: "map (\<lambda>(_, _, alpha). alpha) (shadow_layers rd) = [70, 50, 30]" by (simp add: shadow_layers_def)
  have W: "sf_width S t = sf_width S s" "sf_height S t = sf_height S s" if "rest t = rt" for t
    using dims [of t s] s that by auto
  have line: "paints S ok px rest rt (shadow_row S x y w h rd py)
      (\<lambda>i j b. if j = unat py then if unat (x + 3) \<le> i \<and> i < unat (x + w + 9) then ?m py (of_nat i) b else b else b)" for py
  proof -
    have "paints S ok px rest rt (for_until (\<lambda>q t. q \<ge> sf_width S t) (shadow_pixel S (border_range x y w h rd py) (shadow_ranges x y w h rd py) [70, 50, 30] py)
        (word_range (x + 3) (x + w + 9))) (\<lambda>i j b. fold (\<lambda>q b. if i = unat q \<and> j = unat py then ?m py q b else b) (word_range (x + 3) (x + w + 9)) b)"
      by (rule paints_until [OF shadow_pixel_paints sorted_word_range, where W = "sf_width S s"]) (auto simp: W word_less_nat_alt)
    moreover have "fold (\<lambda>q b. if i = unat q \<and> j = unat py then ?m py q b else b) (word_range (x + 3) (x + w + 9)) b
        = (if j = unat py then if unat (x + 3) \<le> i \<and> i < unat (x + w + 9) then ?m py (of_nat i) b else b else b)" for i j b
      by (cases "j = unat py") (simp_all add: fold_rows fold_skip)
    ultimately show ?thesis unfolding shadow_row_def Let_def al border_range_def [symmetric] shadow_ranges_def [symmetric] by simp
  qed
  have rows: "paints S ok px rest rt (for_until (\<lambda>py t. py \<ge> sf_height S t) (shadow_row S x y w h rd) (word_range (y + 3) (y + h + 9)))
      (\<lambda>i j b. fold (\<lambda>py b. if j = unat py then (if unat (x + 3) \<le> i \<and> i < unat (x + w + 9) then ?m py (of_nat i) b else b) else b)
         (word_range (y + 3) (y + h + 9)) b)"
    by (rule paints_until [where P = "\<lambda>i j z. j = unat z" and g = "\<lambda>i j z b. if unat (x + 3) \<le> i \<and> i < unat (x + w + 9) then ?m z (of_nat i) b else b",
          OF line sorted_word_range, where W = "sf_height S s"]) (auto simp: W word_less_nat_alt)
  show "\<exists>f' g'. draw_window_shadow S x y w h rd s = f' s \<and> paints S ok px rest rt f' g' \<and>
      (\<forall>i j. i < unat (sf_width S s) \<longrightarrow> j < unat (sf_height S s) \<longrightarrow> g' i j (px s i j) = ?g i j (px s i j))"
  proof (cases "x + w + 9 \<le> x + 3 \<or> y + h + 9 \<le> y + 3")
    case True
    then have "\<not> on_rect (x + 3) (y + 3) (x + w + 9) (y + h + 9) i j" for i j by (auto simp: on_rect_def word_le_nat_alt)
    then show ?thesis using True paints_skip by (intro exI [of _ Some] exI [of _ "\<lambda>i j b. b"]) (simp add: draw_window_shadow_def Let_def)
  next
    case False
    then have f: "draw_window_shadow S x y w h rd s =
        for_until (\<lambda>py t. py \<ge> sf_height S t) (shadow_row S x y w h rd) (word_range (y + 3) (y + h + 9)) s"
      by (simp add: draw_window_shadow_def Let_def)
    have "fold (\<lambda>py b. if j = unat py then (if unat (x + 3) \<le> i \<and> i < unat (x + w + 9) then ?m py (of_nat i) b else b) else b)
         (word_range (y + 3) (y + h + 9)) b = ?g i j b" for i j b
      unfolding fold_rows on_rect_def by (cases "unat (x + 3) \<le> i \<and> i < unat (x + w + 9)"; cases "unat (y + 3) \<le> j \<and> j < unat (y + h + 9)") auto
    from paints_eq [OF rows this] show ?thesis unfolding f by blast
  qed
qed

end

lemma channel_blend_black:
  assumes "shift \<in> {16, 8, 0}" "0 < unat a" "unat a < 255"
  shows "unat (channel (blend 0 b a) shift) = unat (channel b shift) * (255 - unat a) div 255"
proof -
  let ?v = "channel b shift * (255 - a) div 255"
  have a: "unat (255 - a) = 255 - unat a" using assms(3) by (subst unat_sub_le) (simp_all add: word_le_nat_alt)
  have le: "unat (channel b shift) * (255 - unat a) \<le> 255 * 255"
    using channel_less [of b shift] by (intro mult_le_mono) auto
  then have "unat (channel b shift * (255 - a)) = unat (channel b shift) * (255 - unat a)"
    using a by (simp add: unat_word_ariths)
  then have v: "unat ?v = unat (channel b shift) * (255 - unat a) div 255" by (simp add: unat_div)
  moreover have "\<dots> \<le> 255 * 255 div 255" by (rule div_le_mono [OF le])
  ultimately have "unat ?v < 256" by simp
  moreover have "channel (blend 0 b a) shift = ?v AND 0xFF"
  proof -
    have "\<not> 255 \<le> a" "a \<noteq> 0" using assms(2,3) by (auto simp: word_le_nat_alt)
    then show ?thesis using channel_per_channel [OF assms(1)] by (simp add: blend_def Let_def) (simp add: channel_def)
  qed
  ultimately show ?thesis using v by (simp add: and_255)
qed

lemma channel_darken:
  assumes "shift \<in> {16, 8, 0}" "unat k \<le> 255"
  shows "unat (channel (darken b k) shift) = (unat (channel b shift) * unat k + 127) div 255"
proof -
  let ?v = "(channel b shift * k + 127) div 255"
  have le: "unat (channel b shift) * unat k \<le> 255 * 255"
    using channel_less [of b shift] assms(2) by (intro mult_le_mono) auto
  then have "unat (channel b shift * k + 127) = unat (channel b shift) * unat k + 127" by (simp add: unat_word_ariths)
  then have v: "unat ?v = (unat (channel b shift) * unat k + 127) div 255" by (simp add: unat_div)
  moreover have "\<dots> \<le> (255 * 255 + 127) div 255" using le by (intro div_le_mono) simp
  ultimately have "unat ?v < 256" by simp
  moreover have "channel (darken b k) shift = ?v AND 0xFF" using channel_per_channel [OF assms(1)] by (simp add: darken_def)
  ultimately show ?thesis using v by (simp add: and_255)
qed

text \<open>The darkened channel against the blended one, for the layers that cover a pixel.\<close>

definition dim :: "nat list \<Rightarrow> nat \<Rightarrow> nat" where
  "dim ks c = fold (\<lambda>k c. c * k div 255) ks c"

lemma dim3:
  assumes "c < 256"
  shows "(c * 130 + 127) div 255 \<le> c * 185 div 255 * 205 div 255 * 225 div 255 + (2::nat)"
proof -
  have "\<forall>c \<in> set [0..255].  (c * 130 + 127) div 255 \<le> c * 185 div 255 * 205 div 255 * 225 div 255 + (2::int)"
    by code_simp
  then have "(int c * 130 + 127) div 255 \<le> int c * 185 div 255 * 205 div 255 * 225 div 255 + (2::int)" using assms by simp
  then have "int ((c * 130 + 127) div 255) \<le> int (c * 185 div 255 * 205 div 255 * 225 div 255 + 2)"
    by (simp add: of_nat_div)
  then show ?thesis by (simp only: of_nat_le_iff)
qed

lemma dims_close:
  assumes "c < 256" "ks \<in> set (subseqs [185, 205, 225])"
  shows "(c * dim ks 255 + 127) div 255 \<le> dim ks c + 2 \<and> dim ks c \<le> (c * dim ks 255 + 127) div 255 + 2"
proof -
  consider "ks = []" | "ks = [185]" | "ks = [205]" | "ks = [225]" | "ks = [185, 205]" | "ks = [185, 225]" | "ks = [205, 225]" | "ks = [185, 205, 225]"
    using assms(2) by auto
  then show ?thesis using assms(1) dim3 [OF assms(1)] 
    by cases (simp_all add: dim_def, linarith+)
qed

lemma layers_close:
  fixes b :: u32 and C1 C2 C3 :: bool
  assumes "shift \<in> {16, 8, 0}"
  defines "k \<equiv> fold (\<lambda>(c, k) v. if c then v * k div 255 else v) [(C1, 185), (C2, 205), (C3, 225)] (255 :: u32)"
    and "ref \<equiv> fold (\<lambda>(c, a) v. if c then blend 0 v a else v) [(C1, 70), (C2, 50), (C3, 30)] b"
  shows "\<bar>int (unat (channel (if k = 255 then b else darken b k) shift)) - int (unat (channel ref shift))\<bar> \<le> 2"
proof -
  define ks where "ks = map snd (filter fst [(C1, 185), (C2, 205), (C3, 225 :: nat)])"
  let ?c = "unat (channel b shift)"
  note bl = channel_blend_black [OF assms(1)]
  have k: "unat k = dim ks 255" "unat k \<le> 255"
    unfolding k_def ks_def dim_def by (cases C1; cases C2; cases C3; simp)+
  have n: "unat (channel (if k = 255 then b else darken b k) shift) = (?c * dim ks 255 + 127) div 255"
  proof (cases "k = 255")
    case True
    then have "dim ks 255 = 255" using k(1) by simp
    then show ?thesis using True by simp
  next
    case False
    then show ?thesis using channel_darken [OF assms(1) k(2), of b] k(1) by simp
  qed
  have r: "unat (channel ref shift) = dim ks ?c"
    unfolding ref_def ks_def dim_def by (cases C1; cases C2; cases C3; simp add: bl)
  have "ks \<in> set (subseqs [185, 205, 225])" unfolding ks_def by (cases C1; cases C2; cases C3; simp)
  from dims_close [OF channel_less [of b shift] this] show ?thesis unfolding n r by linarith
qed

text \<open>The pixels a layer covers in a row, as the shadow and as the rectangle tell them.\<close>

lemma layer_range:
  assumes "unat y + unat h < 2 ^ 32" "j < 2 ^ 32" "i < 2 ^ 32"
  shows "(of_nat i \<ge> fst (rounded_row_range (of_nat j) x y w h rd) \<and> of_nat i < snd (rounded_row_range (of_nat j) x y w h rd))
      \<longleftrightarrow> (unat y \<le> j \<and> j < unat y + unat h) \<and> rounded_span x w h rd (of_nat (j - unat y)) i"
proof -
  have u: "unat (of_nat j :: u32) = j" "unat (of_nat i :: u32) = i" using assms(2,3) by (simp_all add: unsigned_of_nat take_bit_nat_eq_self)
  have yh: "unat (y + h) = unat y + unat h" using assms(1) by (simp add: unat_add_small)
  show ?thesis
  proof (cases "unat y \<le> j \<and> j < unat y + unat h")
    case True
    then have "of_nat (j - unat y) = (of_nat j - y :: u32)" by (simp add: of_nat_diff)
    moreover have "\<not> (of_nat j < y \<or> y + h \<le> of_nat j)" using True u yh by (simp add: word_le_nat_alt word_less_nat_alt)
    ultimately show ?thesis using True u
      by (auto simp: rounded_row_range_def rounded_span_def Let_def word_le_nat_alt word_less_nat_alt)
  next
    case False
    then have "of_nat j < y \<or> y + h \<le> of_nat j" using u yh by (auto simp: word_le_nat_alt word_less_nat_alt)
    then show ?thesis using False by (auto simp: rounded_row_range_def)
  qed
qed

lemma rounded_inset_le:
  assumes "row < h" "rd \<le> h"
  shows "unat (rounded_inset row h rd) \<le> unat rd"
proof -
  have hr: "unat (h - rd) = unat h - unat rd" using assms(2) by (rule unat_sub_le)
  consider "rd = 0" | "rd \<noteq> 0" "row < rd" | "rd \<noteq> 0" "\<not> row < rd" "row \<ge> h - rd" | "rd \<noteq> 0" "\<not> row < rd" "\<not> row \<ge> h - rd" by blast
  then show ?thesis
  proof cases
    case 2
    then have "1 + row \<le> rd" by (metis add.commute inc_le)
    then have "unat (rd - (1 + row)) = unat rd - unat (1 + row)" by (rule unat_sub_le)
    moreover have "rd - 1 - row = rd - (1 + row)" by simp
    ultimately have "unat (rd - 1 - row) \<le> unat rd" by (metis diff_le_self)
    then show ?thesis using 2 by (simp add: rounded_inset_def)
  next
    case 3
    then have "unat (row - (h - rd)) = unat row - (unat h - unat rd)" by (subst unat_sub_le) (simp_all add: hr)
    then show ?thesis using 3 assms by (simp add: rounded_inset_def word_less_nat_alt)
  qed (simp_all add: rounded_inset_def)
qed

lemma rounded_span_inside:
  assumes "unat x + unat w < 2 ^ 32" "row < h" "rd \<le> h" "2 * unat rd < 2 ^ 32" "rounded_span x w h rd row i"
  shows "unat x \<le> i \<and> i < unat x + unat w"
proof -
  let ?n = "rounded_inset row h rd"
  have n: "unat ?n \<le> unat rd" by (rule rounded_inset_le [OF assms(2,3)])
  then have m: "unat (2 * ?n) = 2 * unat ?n" using assms(4) by (simp add: unat_word_ariths)
  have sp: "2 \<le> sat32 w (2 * ?n)" "unat (x + ?n) \<le> i" "i < unat (x + ?n + sat32 w (2 * ?n))"
    using assms(5) by (simp_all add: rounded_span_def Let_def)
  then have le: "2 * ?n \<le> w" by (auto simp: sat32_def split: if_splits)
  then have nw: "2 * unat ?n \<le> unat w" "unat (w - 2 * ?n) = unat w - 2 * unat ?n" using m by (simp_all add: word_le_nat_alt unat_sub_le)
  have 1: "unat (x + ?n) = unat x + unat ?n" using assms(1) nw(1) by (intro unat_add_small) simp
  have "unat (x + ?n + sat32 w (2 * ?n)) = unat x + unat ?n + (unat w - 2 * unat ?n)"
  proof -
    have "sat32 w (2 * ?n) = w - 2 * ?n" using le by (simp add: sat32_def)
    moreover have "unat (x + ?n + (w - 2 * ?n)) = unat (x + ?n) + unat (w - 2 * ?n)"
      unfolding 1 nw(2) using assms(1) nw 1 by (intro trans [OF unat_add_small]) simp_all
    ultimately show ?thesis using 1 nw(2) by (simp only:)
  qed
  then show ?thesis using sp(2,3) 1 nw(1) by simp
qed

lemma layer_inside:
  fixes x y w h rd :: u32
  assumes "unat x + unat w + 16 < 2 ^ 32" "unat y + unat h + 16 < 2 ^ 32" "unat rd \<le> unat h" "2 * unat rd + 4 < 2 ^ 32"
    and "(d, e, a) \<in> set (shadow_layers rd)"
  shows "unat (x + d) = unat x + unat d \<and> unat (y + d) = unat y + unat d \<and> unat (w + 2) = unat w + 2 \<and> unat (h + 2) = unat h + 2 \<and>
    3 \<le> unat d \<and> unat d \<le> 7 \<and> e \<le> h + 2 \<and> 2 * unat e < 2 ^ 32"
proof -
  have v: "unat (w + 2) = unat w + 2" "unat (h + 2) = unat h + 2" using assms(1,2) by (simp_all add: unat_word_ariths)
  have u: "unat (x + d) = unat x + unat d" "unat (y + d) = unat y + unat d"
    if "unat d \<le> 7" for d using assms(1,2) that by (simp_all add: unat_word_ariths)
  have "unat (rd + 1) = unat rd + 1" "unat (rd + 2) = unat rd + 2" using assms(4) by (simp_all add: unat_add_small)
  then show ?thesis using assms(3,4,5) u v by (auto simp: shadow_layers_def word_le_nat_alt)
qed

context readable
begin

lemma nested_shadow_paints:
  assumes "unat x + unat w + 16 < 2 ^ 32" "unat y + unat h + 16 < 2 ^ 32" "unat rd \<le> unat h" "2 * unat rd + 4 < 2 ^ 32"
  shows "paints S ok px rest rt (nested_shadow S x y w h rd)
     (\<lambda>i j b. fold (\<lambda>(d, e, a) b. if (unat (y + d) \<le> j \<and> j < unat (y + d) + unat (h + 2)) \<and>
                                 rounded_span (x + d) (w + 2) (h + 2) e (of_nat (j - unat (y + d))) i
                              then blend 0 b a else b) (shadow_layers rd) b)"
  unfolding nested_shadow_def
proof (rule paints_eq [OF paints_loop])
  fix l assume "l \<in> set (shadow_layers rd)"
  then obtain d e a where l: "l = (d, e, a)" and L: "(d, e, a) \<in> set (shadow_layers rd)" by (metis prod_cases3)
  have "unat (y + d) + unat (h + 2) \<le> 2 ^ 32" using layer_inside [OF assms L] assms(2) by simp
  from fill_rounded_rect_blend_paints [OF this]
  show "paints S ok px rest rt (case l of (d, e, a) \<Rightarrow> fill_rounded_rect_blend S (x + d) (y + d) (w + 2) (h + 2) e 0 a)
      (case l of (d, e, a) \<Rightarrow> \<lambda>i j b. if unat (y + d) \<le> j \<and> j < unat (y + d) + unat (h + 2)
           then if rounded_span (x + d) (w + 2) (h + 2) e (of_nat (j - unat (y + d))) i then blend 0 b a else b else b)"
    unfolding l prod.case .
next
  fix i j b
  have "(\<lambda>l. (case l of (d, e, a) \<Rightarrow> \<lambda>i j b. if unat (y + d) \<le> j \<and> j < unat (y + d) + unat (h + 2)
           then if rounded_span (x + d) (w + 2) (h + 2) e (of_nat (j - unat (y + d))) i then blend 0 b a else b else b) i j)
      = (\<lambda>(d, e, a) b. if (unat (y + d) \<le> j \<and> j < unat (y + d) + unat (h + 2)) \<and>
            rounded_span (x + d) (w + 2) (h + 2) e (of_nat (j - unat (y + d))) i then blend 0 b a else b)"
    by (auto simp: fun_eq_iff)
  then show "fold (\<lambda>l. (case l of (d, e, a) \<Rightarrow> \<lambda>i j b. if unat (y + d) \<le> j \<and> j < unat (y + d) + unat (h + 2)
           then if rounded_span (x + d) (w + 2) (h + 2) e (of_nat (j - unat (y + d))) i then blend 0 b a else b else b) i j) (shadow_layers rd) b
      = fold (\<lambda>(d, e, a) b. if (unat (y + d) \<le> j \<and> j < unat (y + d) + unat (h + 2)) \<and>
            rounded_span (x + d) (w + 2) (h + 2) e (of_nat (j - unat (y + d))) i then blend 0 b a else b) (shadow_layers rd) b"
    by simp
qed

lemma shadow_maps_close:
  fixes b :: u32
  assumes "unat x + unat w + 16 < 2 ^ 32" "unat y + unat h + 16 < 2 ^ 32" "unat rd \<le> unat h" "2 * unat rd + 4 < 2 ^ 32"
    and "i < 2 ^ 32" "j < 2 ^ 32" "shift \<in> {16, 8, 0}" "\<not> in_range (border_range x y w h rd (of_nat j)) i"
  defines "new \<equiv> if on_rect (x + 3) (y + 3) (x + w + 9) (y + h + 9) i j
              then shadow_map (border_range x y w h rd (of_nat j)) (shadow_ranges x y w h rd (of_nat j)) [70, 50, 30] (of_nat i) b else b"
    and "ref \<equiv> fold (\<lambda>(d, e, a) b. if (unat (y + d) \<le> j \<and> j < unat (y + d) + unat (h + 2)) \<and>
                                 rounded_span (x + d) (w + 2) (h + 2) e (of_nat (j - unat (y + d))) i
                              then blend 0 b a else b) (shadow_layers rd) b"
  shows "\<bar>int (unat (channel new shift)) - int (unat (channel ref shift))\<bar> \<le> 2"
proof -
  define C where "C d e \<longleftrightarrow> (unat (y + d) \<le> j \<and> j < unat (y + d) + unat (h + 2)) \<and>
      rounded_span (x + d) (w + 2) (h + 2) e (of_nat (j - unat (y + d))) i" for d e
  note L = layer_inside [OF assms(1-4)]
  have ref: "ref = fold (\<lambda>(c, a) v. if c then blend 0 v a else v) [(C 7 (rd + 2), 70), (C 5 (rd + 1), 50), (C 3 rd, 30)] b"
    unfolding ref_def C_def [symmetric] by (simp add: shadow_layers_def)
  have rg: "(of_nat i \<ge> fst (rounded_row_range (of_nat j) (x + d) (y + d) (w + 2) (h + 2) e) \<and>
      of_nat i < snd (rounded_row_range (of_nat j) (x + d) (y + d) (w + 2) (h + 2) e)) \<longleftrightarrow> C d e"
    if "(d, e, a) \<in> set (shadow_layers rd)" for d e a
    unfolding C_def using L [OF that] assms(2) by (intro layer_range [OF _ assms(6,5)]) simp
  have sc: "shadow_scale (shadow_ranges x y w h rd (of_nat j)) [70, 50, 30] (of_nat i)
      = fold (\<lambda>(c, k) v. if c then v * k div 255 else v) [(C 7 (rd + 2), 185), (C 5 (rd + 1), 205), (C 3 rd, 225)] (255 :: u32)"
    using rg [of 7 "rd + 2" 70] rg [of 5 "rd + 1" 50] rg [of 3 rd 30]
    by (simp add: shadow_scale_def shadow_ranges_def shadow_layers_def split_beta)
  have "unat (of_nat i :: u32) = i" using assms(5) by (simp add: unsigned_of_nat take_bit_nat_eq_self)
  then have border: "\<not> (of_nat i \<ge> fst (border_range x y w h rd (of_nat j)) \<and> of_nat i < snd (border_range x y w h rd (of_nat j)))"
    using assms(8) by (simp add: in_range_def word_le_nat_alt word_less_nat_alt)
  have out: "\<not> C d e" if "(d, e, a) \<in> set (shadow_layers rd)" "\<not> on_rect (x + 3) (y + 3) (x + w + 9) (y + h + 9) i j" for d e a
  proof
    assume c: "C d e"
    have b: "unat (x + 3) = unat x + 3" "unat (y + 3) = unat y + 3" "unat (x + w + 9) = unat x + unat w + 9" "unat (y + h + 9) = unat y + unat h + 9"
      using assms(1,2) by (simp_all add: unat_add_small)
    note l = L [OF that(1)]
    have yj: "unat y + unat d \<le> j" "j < unat y + unat d + (unat h + 2)" using c l by (simp_all add: C_def)
    then have "j - (unat y + unat d) < unat (h + 2)" using l by linarith
    then have "of_nat (j - unat (y + d)) < h + 2" using l by (subst word_less_nat_alt, subst unat_of_nat_less [of _ "h + 2"]) auto
    then have "unat x + unat d \<le> i \<and> i < unat x + unat d + (unat w + 2)"
      using rounded_span_inside [of "x + d" "w + 2" "of_nat (j - unat (y + d))" "h + 2" e i] c l assms(1) by (simp add: C_def del: of_nat_diff)
    then show False using that(2) yj l b by (auto simp: on_rect_def)
  qed
  show ?thesis
  proof (cases "on_rect (x + 3) (y + 3) (x + w + 9) (y + h + 9) i j")
    case True
    then have "new = (let k = fold (\<lambda>(c, k) v. if c then v * k div 255 else v) [(C 7 (rd + 2), 185), (C 5 (rd + 1), 205), (C 3 rd, 225)] (255 :: u32)
        in if k = 255 then b else darken b k)"
      unfolding new_def shadow_map_def sc if_not_P [OF border] by simp
    then show ?thesis unfolding ref using layers_close [OF assms(7)] by (simp only: Let_def)
  next
    case False
    then have "\<not> C 7 (rd + 2)" "\<not> C 5 (rd + 1)" "\<not> C 3 rd" using out by (auto simp: shadow_layers_def)
    then have "ref = b" unfolding ref by simp
    then show ?thesis using False by (simp add: new_def)
  qed
qed

end

end
