(* ===== verification/Gfx_Scale.thy ===== *)
theory Gfx_Scale
  imports Gfx
begin

text \<open>
  The bilinear scaler of \<open>src/src/gfx.rs\<close> in 16.16 fixed point, with its cache of two interpolated source rows,
  against the interpolation of every pixel on its own.
\<close>

section \<open>Scaling\<close>

text \<open>The position in the source of a destination pixel, in 16.16 fixed point: the division panics for a
  destination of one pixel.\<close>

definition fix_map :: "u32 \<Rightarrow> u32 \<Rightarrow> u32 \<Rightarrow> u64 exec" where
  "fix_map src_n dst_n d =
     (let denom = ucast dst_n - 1 :: u64
      in if denom = 0 then None else Some (push_bit 16 (ucast d) * (ucast src_n - 1) div denom))"

text \<open>\<open>i32\<close> values here stay below \<open>2 ^ 24\<close> in size; the shift to the right rounds down.\<close>

definition lerp :: "u32 \<Rightarrow> u32 \<Rightarrow> u32 \<Rightarrow> u32" where
  "lerp a b f = per_channel (\<lambda>shift.
     let av = uint (channel a shift); bv = uint (channel b shift);
         v = av + (bv - av) * uint f div 65536
     in of_int (min (max v 0) 255))"

text \<open>The two source indices and the fraction for a position.\<close>

definition fix_split :: "u32 \<Rightarrow> u64 \<Rightarrow> u32 \<times> u32 \<times> u32" where
  "fix_split src_n p =
     (let i0 = drop_bit 16 p
      in (ucast i0, ucast (min (i0 + 1) (ucast src_n - 1)), ucast (p AND 0xFFFF)))"

definition scale_column :: "(u32 \<Rightarrow> u32 \<Rightarrow> u32 exec) \<Rightarrow> u32 \<Rightarrow> u32 \<Rightarrow> u32 \<Rightarrow> u32 \<Rightarrow> nat \<Rightarrow> u32 list \<times> u32 list \<Rightarrow> (u32 list \<times> u32 list) exec" where
  "scale_column get src_w dst_w y0 y1 dx = (\<lambda>(top_row, bot_row). do {
     sx \<leftarrow> fix_map src_w dst_w (of_nat dx);
     let (x0, x1, fx) = fix_split src_w sx;
     p00 \<leftarrow> get x0 y0;
     p10 \<leftarrow> get x1 y0;
     p01 \<leftarrow> get x0 y1;
     p11 \<leftarrow> get x1 y1;
     t \<leftarrow> store top_row dx (lerp p00 p10 fx);
     b \<leftarrow> store bot_row dx (lerp p01 p11 fx);
     Some (t, b) })"

record scaler =
  sc_dst :: "u32 list"
  sc_top :: "u32 list"
  sc_bot :: "u32 list"
  sc_prev :: "(u32 \<times> u32) option"

definition scale_row :: "(u32 \<Rightarrow> u32 \<Rightarrow> u32 exec) \<Rightarrow> u32 \<Rightarrow> u32 \<Rightarrow> u32 \<Rightarrow> u32 \<Rightarrow> nat \<Rightarrow> scaler \<Rightarrow> scaler exec" where
  "scale_row get src_w src_h dst_w dst_h dy st = do {
     sy \<leftarrow> fix_map src_h dst_h (of_nat dy);
     let (y0, y1, fy) = fix_split src_h sy;
     st1 \<leftarrow> (if sc_prev st \<noteq> Some (y0, y1) then do {
               (t, b) \<leftarrow> for_each (scale_column get src_w dst_w y0 y1) [0..<unat dst_w] (sc_top st, sc_bot st);
               Some (st\<lparr>sc_top := t, sc_bot := b, sc_prev := Some (y0, y1)\<rparr>) }
             else Some st);
     let n = unat dst_w;
     if (dy + 1) * n \<le> length (sc_dst st1) \<and> n \<le> length (sc_top st1) \<and> n \<le> length (sc_bot st1)
     then Some (st1\<lparr>sc_dst := take (dy * n) (sc_dst st1)
            @ map (\<lambda>dx. lerp (sc_top st1 ! dx) (sc_bot st1 ! dx) fy) [0..<n] @ drop ((dy + 1) * n) (sc_dst st1)\<rparr>)
     else None }"

text \<open>\<open>scale_pixels\<close> with its two scratch rows.\<close>

definition scale_pixels :: "(u32 \<Rightarrow> u32 \<Rightarrow> u32 exec) \<Rightarrow> u32 \<Rightarrow> u32 \<Rightarrow> u32 list \<Rightarrow> u32 \<Rightarrow> u32 \<Rightarrow> u32 list \<times> u32 list \<Rightarrow> (u32 list \<times> u32 list \<times> u32 list) exec" where
  "scale_pixels get src_w src_h dst dst_w dst_h = (\<lambda>(upper, lower).
     if src_w = 0 \<or> src_h = 0 \<or> dst_w = 0 \<or> dst_h = 0 then Some (dst, upper, lower)
     else if length upper < unat dst_w \<or> length lower < unat dst_w then None
     else do {
       st \<leftarrow> for_each (scale_row get src_w src_h dst_w dst_h) [0..<unat dst_h] \<lparr>sc_dst = dst, sc_top = upper, sc_bot = lower, sc_prev = None\<rparr>;
       Some (sc_dst st, sc_top st, sc_bot st) })"

definition scale_into :: "u32 list \<Rightarrow> u32 \<Rightarrow> u32 \<Rightarrow> u32 list \<Rightarrow> u32 \<Rightarrow> u32 \<Rightarrow> u32 list exec" where
  "scale_into src src_w src_h dst dst_w dst_h = do {
     (d, _) \<leftarrow> scale_pixels (\<lambda>x y. index src (unat (y * src_w + x))) src_w src_h dst dst_w dst_h
                 (replicate (unat dst_w) 0, replicate (unat dst_w) 0);
     Some d }"

definition scale_image :: "u32 list \<Rightarrow> u32 \<Rightarrow> u32 \<Rightarrow> u32 \<Rightarrow> u32 \<Rightarrow> u32 list exec" where
  "scale_image src src_w src_h dst_w dst_h = scale_into src src_w src_h (replicate (unat (dst_w * dst_h)) 0) dst_w dst_h"

definition scale_into_scratch :: "u32 list \<Rightarrow> u32 \<Rightarrow> u32 \<Rightarrow> u32 list \<Rightarrow> u32 \<Rightarrow> u32 \<Rightarrow> u32 list \<Rightarrow> (u32 list \<times> u32 list) exec" where
  "scale_into_scratch src src_w src_h dst dst_w dst_h scratch =
     (if length scratch < unat dst_w then None
      else do {
        (d, upper, lower) \<leftarrow> scale_pixels (\<lambda>x y. index src (unat (y * src_w + x))) src_w src_h dst dst_w dst_h
                             (take (unat dst_w) scratch, drop (unat dst_w) scratch);
        Some (d, upper @ lower) })"

definition scale_bytes :: "u8 list \<Rightarrow> u32 \<Rightarrow> u32 \<Rightarrow> u32 \<Rightarrow> u32 \<Rightarrow> u32 list exec" where
  "scale_bytes bytes src_w src_h dst_w dst_h = do {
     (d, _) \<leftarrow> scale_pixels (\<lambda>x y. do {
                   bs \<leftarrow> slice bytes (unat (y * src_w + x) * 4) 4;
                   Some (of_nat (le_nat bs)) }) src_w src_h (replicate (unat (dst_w * dst_h)) 0) dst_w dst_h
                 (replicate (unat dst_w) 0, replicate (unat dst_w) 0);
     Some d }"

section \<open>The reference\<close>

text \<open>The position of a destination pixel in the source, in units of 1/65536 pixel, and the interpolation of the four
  source pixels around it, for every pixel on its own.\<close>

definition sample_pos :: "nat \<Rightarrow> nat \<Rightarrow> nat \<Rightarrow> nat" where
  "sample_pos src dst d = d * 65536 * (src - 1) div (dst - 1)"

definition bilinear :: "(nat \<Rightarrow> nat \<Rightarrow> u32) \<Rightarrow> nat \<Rightarrow> nat \<Rightarrow> nat \<Rightarrow> nat \<Rightarrow> nat \<Rightarrow> nat \<Rightarrow> u32" where
  "bilinear P sw sh dw dh dx dy =
     (let p = sample_pos sw dw dx; x0 = p div 65536; x1 = min (x0 + 1) (sw - 1); fx = of_nat (p mod 65536);
          q = sample_pos sh dh dy; y0 = q div 65536; y1 = min (y0 + 1) (sh - 1); fy = of_nat (q mod 65536)
      in lerp (lerp (P x0 y0) (P x1 y0) fx) (lerp (P x0 y1) (P x1 y1) fx) fy)"

section \<open>Positions\<close>

lemma unat_u32_u64: "unat (ucast w :: u64) = unat w" for w :: u32
proof -
  have "unat w < 2 ^ 64" using unsigned_less [of w, where ?'a = nat] by simp
  then show ?thesis by (simp only: unsigned_ucast_eq) (simp add: take_bit_nat_eq_self)
qed

lemma sample_pos_le: "d < dst \<Longrightarrow> 2 \<le> dst \<Longrightarrow> sample_pos src dst d \<le> 65536 * (src - 1)"
proof -
  assume d: "d < dst" "2 \<le> dst"
  have "d \<le> dst - 1" using d by simp
  then have "d * (65536 * (src - 1)) \<le> (dst - 1) * (65536 * (src - 1))" by (rule mult_le_mono1)
  then have "d * 65536 * (src - 1) \<le> (dst - 1) * (65536 * (src - 1))" by (simp only: mult.assoc)
  then have "sample_pos src dst d \<le> (dst - 1) * (65536 * (src - 1)) div (dst - 1)"
    unfolding sample_pos_def by (rule div_le_mono)
  then show ?thesis using d by simp
qed

lemma fix_map_pos:
  assumes "2 \<le> unat dst" "1 \<le> unat src" "unat dst \<le> 2 ^ 24" "unat src \<le> 2 ^ 24" "d < unat dst"
  obtains p where "fix_map src dst (of_nat d) = Some p" "unat p = sample_pos (unat src) (unat dst) d"
proof
  let ?p = "push_bit 16 (ucast (of_nat d :: u32)) * (ucast src - 1) div (ucast dst - 1) :: u64"
  have s1: "unat (ucast src - 1 :: u64) = unat src - 1"
    using assms(2) by (subst unat_sub_le) (simp_all add: word_le_nat_alt unat_u32_u64)
  have d1: "unat (ucast dst - 1 :: u64) = unat dst - 1"
    using assms(1) by (subst unat_sub_le) (simp_all add: word_le_nat_alt unat_u32_u64)
  have d: "unat (ucast (of_nat d :: u32) :: u64) = d"
    unfolding unat_u32_u64 using assms(5) by (rule unat_of_nat_less)
  have "d * 65536 < 2 ^ 40 + 1" using assms(3,5) by simp
  then have m: "unat (push_bit 16 (ucast (of_nat d :: u32)) :: u64) = d * 65536"
    using d by (simp add: push_bit_eq_mult unat_word_ariths)
  have "d * 65536 * (unat src - 1) \<le> 2 ^ 40 * (2 ^ 24 - 1)" using assms(3,4,5) by (intro mult_le_mono) simp_all
  then have "unat (push_bit 16 (ucast (of_nat d :: u32)) * (ucast src - 1) :: u64) = d * 65536 * (unat src - 1)"
    unfolding unat_word_ariths m s1 by simp
  then show "unat ?p = sample_pos (unat src) (unat dst) d" unfolding unat_div d1 sample_pos_def by simp
  have "ucast dst - 1 \<noteq> (0 :: u64)" using d1 assms(1) by (metis One_nat_def diff_is_0_eq not_less_eq_eq numeral_2_eq_2 unsigned_0)
  then show "fix_map src dst (of_nat d) = Some ?p" by (simp add: fix_map_def Let_def)
qed

lemma fix_split_pos:
  assumes "1 \<le> unat src" "unat p \<le> 65536 * (unat src - 1)"
  obtains x0 x1 where "fix_split src p = (x0, x1, of_nat (unat p mod 65536))"
    "unat x0 = unat p div 65536" "unat x1 = min (unat p div 65536 + 1) (unat src - 1)" "x0 < src" "x1 < src"
proof -
  have s: "unat src < 2 ^ 32" using unsigned_less [of src, where ?'a = nat] by simp
  have le: "unat p div 65536 \<le> unat src - 1" using div_le_mono [OF assms(2), of 65536] by simp
  have i0: "unat (drop_bit 16 p) = unat p div 65536" by (simp add: drop_bit_eq_div unat_div)
  then have i1: "unat (drop_bit 16 p + 1) = unat p div 65536 + 1" using le s by (subst unat_add_small) simp_all
  have s1: "unat (ucast src - 1 :: u64) = unat src - 1"
    using assms(1) by (subst unat_sub_le) (simp_all add: word_le_nat_alt unat_u32_u64)
  have small: "unat (ucast v :: u32) = unat v" if "unat v < 2 ^ 32" for v :: u64
    using that by (simp only: unsigned_ucast_eq) (simp add: take_bit_nat_eq_self)
  have x0: "unat (ucast (drop_bit 16 p) :: u32) = unat p div 65536" using i0 le s by (subst small) simp_all
  have x1: "unat (ucast (min (drop_bit 16 p + 1) (ucast src - 1)) :: u32) = min (unat p div 65536 + 1) (unat src - 1)"
    using i1 s1 s by (subst small) (simp_all add: unat_min)
  have "(0xFFFF :: u64) = mask 16" by (simp add: mask_eq_exp_minus_1)
  then have "unat (p AND 0xFFFF) = unat p mod 65536"
    by (simp only: take_bit_eq_mask [symmetric] unsigned_take_bit_eq) (simp add: take_bit_eq_mod)
  then have f: "ucast (p AND 0xFFFF) = (of_nat (unat p mod 65536) :: u32)" by (metis of_nat_unat)
  show thesis
  proof (rule that)
    show "fix_split src p = (ucast (drop_bit 16 p), ucast (min (drop_bit 16 p + 1) (ucast src - 1)), of_nat (unat p mod 65536))"
      using f by (simp add: fix_split_def Let_def)
    show "ucast (drop_bit 16 p) < src" using x0 le assms(1) by (simp add: word_less_nat_alt)
    show "ucast (min (drop_bit 16 p + 1) (ucast src - 1)) < src" unfolding word_less_nat_alt x1 using assms(1) by simp
  qed (rule x0 x1)+
qed

section \<open>The row cache\<close>

text \<open>A source of pixels, the horizontal interpolation of a source row, and the rows a scaler holds.\<close>

definition reads :: "(u32 \<Rightarrow> u32 \<Rightarrow> u32 exec) \<Rightarrow> (nat \<Rightarrow> nat \<Rightarrow> u32) \<Rightarrow> u32 \<Rightarrow> u32 \<Rightarrow> bool" where
  "reads get P sw sh \<longleftrightarrow> (\<forall>x y. x < sw \<longrightarrow> y < sh \<longrightarrow> get x y = Some (P (unat x) (unat y)))"

definition sizes_ok :: "u32 \<Rightarrow> u32 \<Rightarrow> u32 \<Rightarrow> u32 \<Rightarrow> bool" where
  "sizes_ok sw sh dw dh \<longleftrightarrow> 1 \<le> unat sw \<and> 1 \<le> unat sh \<and> 2 \<le> unat dw \<and> 2 \<le> unat dh \<and>
     unat sw \<le> 2 ^ 24 \<and> unat sh \<le> 2 ^ 24 \<and> unat dw \<le> 2 ^ 24 \<and> unat dh \<le> 2 ^ 24"

definition row_lerp :: "(nat \<Rightarrow> nat \<Rightarrow> u32) \<Rightarrow> nat \<Rightarrow> nat \<Rightarrow> nat \<Rightarrow> nat \<Rightarrow> u32" where
  "row_lerp P sw dw y dx =
     (let p = sample_pos sw dw dx; x0 = p div 65536
      in lerp (P x0 y) (P (min (x0 + 1) (sw - 1)) y) (of_nat (p mod 65536)))"

definition holds_row :: "(nat \<Rightarrow> nat \<Rightarrow> u32) \<Rightarrow> nat \<Rightarrow> nat \<Rightarrow> nat \<Rightarrow> u32 list \<Rightarrow> bool" where
  "holds_row P sw dw y row \<longleftrightarrow> dw \<le> length row \<and> (\<forall>dx < dw. row ! dx = row_lerp P sw dw y dx)"

lemma scale_column_spec:
  assumes "reads get P sw sh" "sizes_ok sw sh dw dh" "y0 < sh" "y1 < sh" "dx < unat dw" "dx < length t" "dx < length b"
  shows "scale_column get sw dw y0 y1 dx (t, b)
      = Some (t[dx := row_lerp P (unat sw) (unat dw) (unat y0) dx], b[dx := row_lerp P (unat sw) (unat dw) (unat y1) dx])"
proof -
  have z: "2 \<le> unat dw" "1 \<le> unat sw" "unat dw \<le> 2 ^ 24" "unat sw \<le> 2 ^ 24" using assms(2) by (simp_all add: sizes_ok_def)
  from fix_map_pos [OF z assms(5)] obtain p
    where p: "fix_map sw dw (of_nat dx) = Some p" "unat p = sample_pos (unat sw) (unat dw) dx" .
  have "unat p \<le> 65536 * (unat sw - 1)" unfolding p(2) by (rule sample_pos_le [OF assms(5) z(1)])
  from fix_split_pos [OF z(2) this] obtain x0 x1 where x: "fix_split sw p = (x0, x1, of_nat (unat p mod 65536))"
    "unat x0 = unat p div 65536" "unat x1 = min (unat p div 65536 + 1) (unat sw - 1)" "x0 < sw" "x1 < sw" .
  have g: "get x0 y0 = Some (P (unat x0) (unat y0))" "get x1 y0 = Some (P (unat x1) (unat y0))"
    "get x0 y1 = Some (P (unat x0) (unat y1))" "get x1 y1 = Some (P (unat x1) (unat y1))"
    using assms(1,3,4) x(4,5) by (simp_all add: reads_def)
  show ?thesis
    using p x(1-3) g assms(6,7) by (simp add: scale_column_def store_def row_lerp_def Let_def)
qed

lemma scale_columns_spec:
  assumes "reads get P sw sh" "sizes_ok sw sh dw dh" "y0 < sh" "y1 < sh" "n \<le> unat dw" "unat dw \<le> length t" "unat dw \<le> length b"
  shows "\<exists>t' b'. for_each (scale_column get sw dw y0 y1) [0..<n] (t, b) = Some (t', b') \<and> length t' = length t \<and> length b' = length b \<and>
     (\<forall>dx < n. t' ! dx = row_lerp P (unat sw) (unat dw) (unat y0) dx \<and> b' ! dx = row_lerp P (unat sw) (unat dw) (unat y1) dx)"
  using assms(5)
proof (induction n)
  case (Suc n)
  then obtain t' b' where I: "for_each (scale_column get sw dw y0 y1) [0..<n] (t, b) = Some (t', b')"
    "length t' = length t" "length b' = length b"
    "\<And>dx. dx < n \<Longrightarrow> t' ! dx = row_lerp P (unat sw) (unat dw) (unat y0) dx \<and> b' ! dx = row_lerp P (unat sw) (unat dw) (unat y1) dx"
    by auto
  have "scale_column get sw dw y0 y1 n (t', b')
      = Some (t'[n := row_lerp P (unat sw) (unat dw) (unat y0) n], b'[n := row_lerp P (unat sw) (unat dw) (unat y1) n])"
    using Suc.prems assms I(2,3) by (intro scale_column_spec [OF assms(1-4)]) simp_all
  then show ?case
    using I Suc.prems assms(6,7) by (simp add: for_each_append nth_list_update less_Suc_eq)
qed simp

text \<open>Rows are filled from the first one on, and the cache holds the rows it says it holds.\<close>

definition scaled_to :: "(nat \<Rightarrow> nat \<Rightarrow> u32) \<Rightarrow> u32 \<Rightarrow> u32 \<Rightarrow> u32 \<Rightarrow> u32 \<Rightarrow> u32 list \<Rightarrow> nat \<Rightarrow> scaler \<Rightarrow> bool" where
  "scaled_to P sw sh dw dh dst k st \<longleftrightarrow>
     length (sc_dst st) = length dst \<and> unat dw \<le> length (sc_top st) \<and> unat dw \<le> length (sc_bot st) \<and>
     (\<forall>y0 y1. sc_prev st = Some (y0, y1) \<longrightarrow>
        holds_row P (unat sw) (unat dw) (unat y0) (sc_top st) \<and> holds_row P (unat sw) (unat dw) (unat y1) (sc_bot st)) \<and>
     (\<forall>dy < k. \<forall>dx < unat dw. sc_dst st ! (dy * unat dw + dx) = bilinear P (unat sw) (unat sh) (unat dw) (unat dh) dx dy) \<and>
     (\<forall>i. k * unat dw \<le> i \<longrightarrow> i < length dst \<longrightarrow> sc_dst st ! i = dst ! i)"

lemma refresh_rows:
  assumes "reads get P sw sh" "sizes_ok sw sh dw dh" "y0 < sh" "y1 < sh" "scaled_to P sw sh dw dh dst k st"
  shows "\<exists>t b. (if sc_prev st \<noteq> Some (y0, y1) then do {
               (t, b) \<leftarrow> for_each (scale_column get sw dw y0 y1) [0..<unat dw] (sc_top st, sc_bot st);
               Some (st\<lparr>sc_top := t, sc_bot := b, sc_prev := Some (y0, y1)\<rparr>) }
             else Some st) = Some (st\<lparr>sc_top := t, sc_bot := b, sc_prev := Some (y0, y1)\<rparr>) \<and>
     holds_row P (unat sw) (unat dw) (unat y0) t \<and> holds_row P (unat sw) (unat dw) (unat y1) b"
proof (cases "sc_prev st = Some (y0, y1)")
  case True
  then have "st = st\<lparr>sc_top := sc_top st, sc_bot := sc_bot st, sc_prev := Some (y0, y1)\<rparr>" by simp
  then show ?thesis using True assms(5) by (intro exI [of _ "sc_top st"] exI [of _ "sc_bot st"]) (simp add: scaled_to_def)
next
  case False
  have "unat dw \<le> length (sc_top st)" "unat dw \<le> length (sc_bot st)" using assms(5) by (simp_all add: scaled_to_def)
  from scale_columns_spec [OF assms(1-4) order_refl this] False show ?thesis
    by (fastforce simp: holds_row_def \<open>unat dw \<le> length (sc_top st)\<close> \<open>unat dw \<le> length (sc_bot st)\<close>)
qed

lemma scale_row_spec:
  assumes "reads get P sw sh" "sizes_ok sw sh dw dh" "scaled_to P sw sh dw dh dst k st" "k < unat dh"
    and "unat dh * unat dw \<le> length dst"
  shows "\<exists>st'. scale_row get sw sh dw dh k st = Some st' \<and> scaled_to P sw sh dw dh dst (Suc k) st'"
proof -
  let ?n = "unat dw"
  have z: "2 \<le> unat dh" "1 \<le> unat sh" "unat dh \<le> 2 ^ 24" "unat sh \<le> 2 ^ 24" using assms(2) by (simp_all add: sizes_ok_def)
  from fix_map_pos [OF z assms(4)] obtain q
    where q: "fix_map sh dh (of_nat k) = Some q" "unat q = sample_pos (unat sh) (unat dh) k" .
  have "unat q \<le> 65536 * (unat sh - 1)" unfolding q(2) by (rule sample_pos_le [OF assms(4) z(1)])
  from fix_split_pos [OF z(2) this] obtain y0 y1 where y: "fix_split sh q = (y0, y1, of_nat (unat q mod 65536))"
    "unat y0 = unat q div 65536" "unat y1 = min (unat q div 65536 + 1) (unat sh - 1)" "y0 < sh" "y1 < sh" .
  obtain t b where R: "(if sc_prev st \<noteq> Some (y0, y1) then do {
               (t, b) \<leftarrow> for_each (scale_column get sw dw y0 y1) [0..<unat dw] (sc_top st, sc_bot st);
               Some (st\<lparr>sc_top := t, sc_bot := b, sc_prev := Some (y0, y1)\<rparr>) }
             else Some st) = Some (st\<lparr>sc_top := t, sc_bot := b, sc_prev := Some (y0, y1)\<rparr>)"
    and h: "holds_row P (unat sw) ?n (unat y0) t" "holds_row P (unat sw) ?n (unat y1) b"
    using refresh_rows [OF assms(1,2) y(4,5) assms(3)] by blast
  let ?new = "map (\<lambda>dx. lerp (t ! dx) (b ! dx) (of_nat (unat q mod 65536))) [0..<?n]"
  let ?d = "take (k * ?n) (sc_dst st) @ ?new @ drop (k * ?n + length ?new) (sc_dst st)"
  let ?st = "st\<lparr>sc_dst := ?d, sc_top := t, sc_bot := b, sc_prev := Some (y0, y1)\<rparr>"
  have "Suc k * ?n \<le> unat dh * ?n" using assms(4) by (intro mult_le_mono1) simp
  then have room: "k * ?n + ?n \<le> length dst" using assms(5) by simp
  have len: "length (sc_dst st) = length dst" using assms(3) by (simp add: scaled_to_def)
  have at: "?d ! i = (if k * ?n \<le> i \<and> i < k * ?n + ?n then ?new ! (i - k * ?n) else sc_dst st ! i)" if "i < length dst" for i
    using nth_splice [of "k * ?n" ?new "sc_dst st" i] room len that by simp
  have new: "?new ! dx = bilinear P (unat sw) (unat sh) ?n (unat dh) dx k" if "dx < ?n" for dx
    using that h y(2,3) q(2) by (simp add: bilinear_def holds_row_def row_lerp_def Let_def)
  have run: "scale_row get sw sh dw dh k st = Some ?st"
    using q(1) y(1) R h room len by (simp add: scale_row_def Let_def holds_row_def add.commute)
  have "scaled_to P sw sh dw dh dst (Suc k) ?st"
  proof -
    have rows: "?d ! (dy * ?n + dx) = bilinear P (unat sw) (unat sh) ?n (unat dh) dx dy" if "dy < Suc k" "dx < ?n" for dy dx
    proof (cases "dy = k")
      case True
      then show ?thesis using at [of "k * ?n + dx"] new [of dx] that(2) room by simp
    next
      case False
      then have "Suc dy * ?n \<le> k * ?n" using that(1) by (intro mult_le_mono1) simp
      then have "dy * ?n + dx < k * ?n" using that(2) by simp
      then show ?thesis using at [of "dy * ?n + dx"] assms(3) that False room by (simp add: scaled_to_def)
    qed
    have "length ?d = length dst" using room len by simp
    then show ?thesis unfolding scaled_to_def using h rows assms(3) at
      by (auto simp: holds_row_def scaled_to_def simp del: length_append)
  qed
  then show ?thesis using run by blast
qed

lemma scale_pixels_spec:
  assumes "reads get P sw sh" "sizes_ok sw sh dw dh" "unat dh * unat dw \<le> length dst" "unat dw \<le> length t" "unat dw \<le> length b"
  shows "\<exists>d t' b'. scale_pixels get sw sh dst dw dh (t, b) = Some (d, t', b') \<and> length d = length dst \<and>
     (\<forall>dy < unat dh. \<forall>dx < unat dw. d ! (dy * unat dw + dx) = bilinear P (unat sw) (unat sh) (unat dw) (unat dh) dx dy)"
proof -
  let ?st = "\<lparr>sc_dst = dst, sc_top = t, sc_bot = b, sc_prev = None\<rparr>"
  have "\<exists>st. for_each (scale_row get sw sh dw dh) [0..<k] ?st = Some st \<and> scaled_to P sw sh dw dh dst k st" if "k \<le> unat dh" for k
    using that
  proof (induction k)
    case 0
    show ?case using assms(4,5) by (simp add: scaled_to_def)
  next
    case (Suc k)
    then obtain st where "for_each (scale_row get sw sh dw dh) [0..<k] ?st = Some st" "scaled_to P sw sh dw dh dst k st" by auto
    moreover obtain st' where "scale_row get sw sh dw dh k st = Some st'" "scaled_to P sw sh dw dh dst (Suc k) st'"
      using scale_row_spec [OF assms(1,2) calculation(2) _ assms(3)] Suc.prems by auto
    ultimately show ?case by (simp add: for_each_append)
  qed
  then obtain st where st: "for_each (scale_row get sw sh dw dh) [0..<unat dh] ?st = Some st" "scaled_to P sw sh dw dh dst (unat dh) st" by blast
  have "sw \<noteq> 0" "sh \<noteq> 0" "dw \<noteq> 0" "dh \<noteq> 0" using assms(2) by (auto simp: sizes_ok_def)
  then have "scale_pixels get sw sh dst dw dh (t, b) = Some (sc_dst st, sc_top st, sc_bot st)"
    using st(1) assms(4,5) by (simp add: scale_pixels_def)
  then show ?thesis using st(2) by (simp add: scaled_to_def)
qed

section \<open>The scaler\<close>

lemma reads_pixels:
  assumes "unat sw * unat sh \<le> length src" "unat sw * unat sh < 2 ^ 32"
  shows "reads (\<lambda>x y. index src (unat (y * sw + x))) (\<lambda>x y. src ! (y * unat sw + x)) sw sh"
  unfolding reads_def
proof (intro allI impI)
  fix x y assume xy: "x < sw" "y < sh"
  then have "Suc (unat y) * unat sw \<le> unat sh * unat sw" by (intro mult_le_mono1) (simp add: word_less_nat_alt)
  then have le: "unat y * unat sw + unat x < unat sw * unat sh" using xy(1) by (simp add: word_less_nat_alt algebra_simps)
  then have "unat (y * sw + x) = unat y * unat sw + unat x" using assms(2) by (simp add: unat_word_ariths)
  then show "index src (unat (y * sw + x)) = Some (src ! (unat y * unat sw + unat x))"
    using le assms(1) by (simp add: index_def)
qed

lemma lerp_between:
  assumes "shift \<in> {16, 8, 0}" "unat f < 65536"
    and "lo \<le> unat (channel a shift)" "unat (channel a shift) \<le> hi" "lo \<le> unat (channel b shift)" "unat (channel b shift) \<le> hi"
  shows "lo \<le> unat (channel (lerp a b f) shift) \<and> unat (channel (lerp a b f) shift) \<le> hi"
proof -
  let ?a = "uint (channel a shift)" and ?b = "uint (channel b shift)" and ?f = "uint f"
  define v where "v = ?a + (?b - ?a) * ?f div 65536"
  have "?f = int (unat f)" by simp
  then have f: "0 \<le> ?f" "?f < 65536" using assms(2) by linarith+
  have ab: "?a = int (unat (channel a shift))" "?b = int (unat (channel b shift))" by simp_all
  have "min ?a ?b \<le> v \<and> v \<le> max ?a ?b"
  proof (cases "?a \<le> ?b")
    case True
    have "0 \<le> (?b - ?a) * ?f" using True f by simp
    moreover have "(?b - ?a) * ?f \<le> (?b - ?a) * 65536" using True f by (intro mult_left_mono) simp_all
    ultimately have "0 \<le> (?b - ?a) * ?f div 65536 \<and> (?b - ?a) * ?f div 65536 \<le> ?b - ?a"
      using zdiv_mono1 [of "(?b - ?a) * ?f" "(?b - ?a) * 65536" 65536] by (simp add: pos_imp_zdiv_nonneg_iff)
    then show ?thesis using True by (simp add: v_def)
  next
    case False
    have "(?b - ?a) * ?f \<le> 0" using False f by (simp add: mult_le_0_iff)
    moreover have "(?b - ?a) * 65536 \<le> (?b - ?a) * ?f" using False f by (intro mult_left_mono_neg) simp_all
    ultimately have "?b - ?a \<le> (?b - ?a) * ?f div 65536 \<and> (?b - ?a) * ?f div 65536 \<le> 0"
      using zdiv_mono1 [of "(?b - ?a) * 65536" "(?b - ?a) * ?f" 65536] zdiv_mono1 [of "(?b - ?a) * ?f" 0 65536] by simp
    then show ?thesis using False by (simp add: v_def)
  qed
  then have v: "int lo \<le> v" "v \<le> int hi" "0 \<le> v" "v \<le> 255"
    using assms(3-6) ab channel_less [of a shift] channel_less [of b shift] by linarith+
  have "channel (lerp a b f) shift = (of_int (min (max v 0) 255) :: u32) AND 0xFF"
    using channel_per_channel [OF assms(1)] by (simp add: lerp_def v_def Let_def)
  also have "min (max v 0) 255 = v" using v by simp
  finally have c: "channel (lerp a b f) shift = (of_int v :: u32) AND 0xFF" .
  have "(of_int v :: u32) = of_nat (nat v)" using v(3) by simp
  moreover have "nat v < 256" using v(4) by simp
  then have "unat (of_nat (nat v) :: u32) = nat v" by (simp add: unsigned_of_nat take_bit_nat_eq_self)
  ultimately have u: "unat (of_int v :: u32) = nat v" by metis
  then have "(of_int v :: u32) AND 0xFF = of_int v" using \<open>nat v < 256\<close> by (intro and_255) simp
  then have "unat (channel (lerp a b f) shift) = nat v" using c u by simp
  then show ?thesis using v by linarith
qed

lemma bilinear_between:
  assumes "shift \<in> {16, 8, 0}" "dx < dw" "dy < dh" "2 \<le> dw" "2 \<le> dh" "1 \<le> sw" "1 \<le> sh"
    and "\<And>x y. x < sw \<Longrightarrow> y < sh \<Longrightarrow> lo \<le> unat (channel (P x y) shift) \<and> unat (channel (P x y) shift) \<le> hi"
  shows "lo \<le> unat (channel (bilinear P sw sh dw dh dx dy) shift) \<and> unat (channel (bilinear P sw sh dw dh dx dy) shift) \<le> hi"
proof -
  have "sample_pos sw dw dx div 65536 < sw" "sample_pos sh dh dy div 65536 < sh"
    using div_le_mono [OF sample_pos_le [OF assms(2,4), of sw], of 65536] div_le_mono [OF sample_pos_le [OF assms(3,5), of sh], of 65536] assms(6,7)
    by simp_all
  moreover have "min (k + 1) (n - 1) < n" if "1 \<le> n" for k n :: nat using that by simp
  moreover have "unat (of_nat (p mod 65536) :: u32) < 65536" for p
  proof -
    have "p mod 65536 < 65536" by simp
    then show ?thesis by (simp add: unsigned_of_nat take_bit_nat_eq_self)
  qed
  moreover have "lo \<le> unat (channel (lerp (lerp (P x0 y0) (P x1 y0) f) (lerp (P x0 y1) (P x1 y1) f) g) shift) \<and>
      unat (channel (lerp (lerp (P x0 y0) (P x1 y0) f) (lerp (P x0 y1) (P x1 y1) f) g) shift) \<le> hi"
    if "x0 < sw" "x1 < sw" "y0 < sh" "y1 < sh" "unat f < 65536" "unat g < 65536" for x0 x1 y0 y1 f g
  proof -
    have "lo \<le> unat (channel (lerp (P x0 y) (P x1 y) f) shift) \<and> unat (channel (lerp (P x0 y) (P x1 y) f) shift) \<le> hi" if "y < sh" for y
      using assms(8) [OF \<open>x0 < sw\<close> that] assms(8) [OF \<open>x1 < sw\<close> that] by (intro lerp_between [OF assms(1) \<open>unat f < 65536\<close>]) simp_all
    from this [OF \<open>y0 < sh\<close>] this [OF \<open>y1 < sh\<close>] show ?thesis by (intro lerp_between [OF assms(1) \<open>unat g < 65536\<close>]) simp_all
  qed
  ultimately show ?thesis unfolding bilinear_def Let_def using assms(6,7) by simp
qed

text \<open>C34: The scaler with its cached rows writes, for every source of at least one pixel and destination of at
  least two by two, at every destination pixel the bilinear interpolation of the four source pixels around its
  position; it never indexes outside the source, the destination or its rows.\<close>

theorem scale_into_bilinear:
  assumes "sizes_ok sw sh dw dh" "unat sw * unat sh \<le> length src" "unat sw * unat sh < 2 ^ 32" "length dst = unat dh * unat dw"
  shows "\<exists>d. scale_into src sw sh dst dw dh = Some d \<and> length d = length dst \<and>
     (\<forall>dy < unat dh. \<forall>dx < unat dw.
        d ! (dy * unat dw + dx) = bilinear (\<lambda>x y. src ! (y * unat sw + x)) (unat sw) (unat sh) (unat dw) (unat dh) dx dy)"
proof -
  let ?row = "replicate (unat dw) (0 :: u32)"
  have "unat dh * unat dw \<le> length dst" "unat dw \<le> length ?row" using assms(4) by simp_all
  from scale_pixels_spec [OF reads_pixels [OF assms(2,3)] assms(1) this this(2)] show ?thesis
    by (auto simp: scale_into_def)
qed

theorem scale_into_bilinear_witness:
  "\<exists>d. scale_into [0x000000, 0x0000FF, 0x00FF00, 0xFF0000] 2 2 (replicate 9 0) 3 3 = Some d \<and> d ! 4 = 0x3F3F3F"
proof -
  have "\<exists>d. scale_into [0x000000, 0x0000FF, 0x00FF00, 0xFF0000] 2 2 (replicate 9 0) 3 3 = Some d \<and> length d = length (replicate 9 (0 :: u32)) \<and>
     (\<forall>dy < unat (3 :: u32). \<forall>dx < unat (3 :: u32). d ! (dy * unat (3 :: u32) + dx) =
        bilinear (\<lambda>x y. [0x000000, 0x0000FF, 0x00FF00, 0xFF0000] ! (y * unat (2 :: u32) + x)) (unat (2 :: u32)) (unat (2 :: u32)) (unat (3 :: u32)) (unat (3 :: u32)) dx dy)"
    by (rule scale_into_bilinear) (simp_all add: sizes_ok_def)
  then obtain d where d: "scale_into [0x000000, 0x0000FF, 0x00FF00, 0xFF0000] 2 2 (replicate 9 0) 3 3 = Some d"
    "\<forall>dy < 3. \<forall>dx < 3. d ! (dy * 3 + dx) = bilinear (\<lambda>x y. [0x000000, 0x0000FF, 0x00FF00, 0xFF0000] ! (y * 2 + x)) 2 2 3 3 dx dy"
    by auto
  have "d ! (1 * 3 + 1) = bilinear (\<lambda>x y. [0x000000, 0x0000FF, 0x00FF00, 0xFF0000] ! (y * 2 + x)) 2 2 3 3 1 1"
    using d(2) by (metis one_less_numeral_iff semiring_norm(77))
  also have "\<dots> = 0x3F3F3F" by (simp add: bilinear_def sample_pos_def Let_def) code_simp
  finally show ?thesis using d(1) by simp
qed

text \<open>Scaling invents no colour: where every pixel of the source has a channel between two bounds, so has every
  pixel of the scaled image.\<close>

theorem scale_image_bounds:
  assumes "sizes_ok sw sh dw dh" "length src = unat sw * unat sh" "unat sw * unat sh < 2 ^ 32" "unat dw * unat dh < 2 ^ 32"
    and "shift \<in> {16, 8, 0}" "\<forall>c \<in> set src. lo \<le> unat (channel c shift) \<and> unat (channel c shift) \<le> hi"
  shows "\<exists>d. scale_image src sw sh dw dh = Some d \<and> length d = unat dw * unat dh \<and>
     (\<forall>c \<in> set d. lo \<le> unat (channel c shift) \<and> unat (channel c shift) \<le> hi)"
proof -
  let ?P = "\<lambda>x y. src ! (y * unat sw + x)"
  have z: "1 \<le> unat sw" "1 \<le> unat sh" "2 \<le> unat dw" "2 \<le> unat dh" using assms(1) by (simp_all add: sizes_ok_def)
  have n: "unat (dw * dh) = unat dw * unat dh" using assms(4) by (simp add: unat_word_ariths)
  have "length (replicate (unat (dw * dh)) (0 :: u32)) = unat dh * unat dw" using n by (simp add: mult.commute)
  from scale_pixels_spec [OF reads_pixels [of sw sh src] assms(1), of "replicate (unat (dw * dh)) 0" "replicate (unat dw) 0" "replicate (unat dw) 0"]
  obtain d where d: "scale_image src sw sh dw dh = Some d" "length d = unat dw * unat dh"
    "\<And>dx dy. dy < unat dh \<Longrightarrow> dx < unat dw \<Longrightarrow> d ! (dy * unat dw + dx) = bilinear ?P (unat sw) (unat sh) (unat dw) (unat dh) dx dy"
    using assms(2,3) n by (auto simp: scale_image_def scale_into_def mult.commute)
  have P: "lo \<le> unat (channel (?P x y) shift) \<and> unat (channel (?P x y) shift) \<le> hi" if "x < unat sw" "y < unat sh" for x y
  proof -
    have "Suc y * unat sw \<le> unat sh * unat sw" using that(2) by (intro mult_le_mono1) simp
    then have "y * unat sw + x < length src" using that(1) assms(2) by (simp add: mult.commute)
    then show ?thesis using assms(6) by simp
  qed
  have "lo \<le> unat (channel (d ! i) shift) \<and> unat (channel (d ! i) shift) \<le> hi" if "i < length d" for i
  proof -
    have q: "i mod unat dw < unat dw" "i div unat dw < unat dh"
      using that d(2) z by (simp_all add: less_mult_imp_div_less mult.commute)
    have "d ! i = d ! (i div unat dw * unat dw + i mod unat dw)" by simp
    also have "\<dots> = bilinear ?P (unat sw) (unat sh) (unat dw) (unat dh) (i mod unat dw) (i div unat dw)" by (rule d(3) [OF q(2,1)])
    finally show ?thesis using bilinear_between [OF assms(5) q z(3,4,1,2), of lo ?P hi] P by simp
  qed
  then show ?thesis using d(1,2) by (auto simp: in_set_conv_nth)
qed

theorem scale_image_bounds_witness:
  "\<exists>d. scale_image [0x102030, 0x506070] 2 1 4 3 = Some d \<and> (\<forall>c \<in> set d. 0x10 \<le> unat (channel c 16) \<and> unat (channel c 16) \<le> 0x50)"
proof -
  have c: "channel 0x102030 16 = 0x10" "channel 0x506070 16 = 0x50" by (simp_all add: channel_def drop_bit_eq_div)
  have "\<exists>d. scale_image [0x102030, 0x506070] 2 1 4 3 = Some d \<and> length d = unat (4 :: u32) * unat (3 :: u32) \<and>
     (\<forall>c \<in> set d. 0x10 \<le> unat (channel c 16) \<and> unat (channel c 16) \<le> 0x50)"
    by (rule scale_image_bounds) (simp_all add: sizes_ok_def c)
  then show ?thesis by blast
qed

end
