(* ===== verification/Gfx_Buffer.thy ===== *)
theory Gfx_Buffer
  imports Gfx
begin

text \<open>
  Surfaces that are a row-major buffer of pixels: the framebuffer's virtual back buffer and the private buffers of
  the applications implement \<open>Surface\<close> with the same row-wise code, each over its own fields. They all keep the contract
  of a surface.
\<close>

section \<open>Operations on a row-major buffer\<close>

text \<open>\<open>xs[a..a + n].copy_from_slice(ys)\<close>.\<close>

definition write_slice :: "'a list \<Rightarrow> nat \<Rightarrow> 'a list \<Rightarrow> 'a list exec" where
  "write_slice xs a ys = (if a + length ys \<le> length xs then Some (take a xs @ ys @ drop (a + length ys) xs) else None)"

definition raster_put :: "u32 \<Rightarrow> u32 \<Rightarrow> u32 \<Rightarrow> u32 \<Rightarrow> u32 \<Rightarrow> u32 list \<Rightarrow> u32 list exec" where
  "raster_put w h x y color buf = (if x < w \<and> y < h then store buf (unat (y * w + x)) color else Some buf)"

definition raster_get :: "u32 \<Rightarrow> u32 \<Rightarrow> u32 \<Rightarrow> u32 \<Rightarrow> u32 list \<Rightarrow> u32 option exec" where
  "raster_get w h x y buf =
     (if x < w \<and> y < h then do { c \<leftarrow> index buf (unat (y * w + x)); Some (Some c) } else Some None)"

definition raster_fill :: "u32 \<Rightarrow> u32 \<Rightarrow> u32 \<Rightarrow> u32 \<Rightarrow> u32 \<Rightarrow> u32 \<Rightarrow> u32 list \<Rightarrow> u32 list exec" where
  "raster_fill w h x y len color buf =
     (if y \<ge> h \<or> x \<ge> w \<or> len = 0 then Some buf
      else let n = unat (min len (w - x)); row_start = unat (y * w + x)
           in write_slice buf row_start (replicate n color))"

definition raster_blit :: "u32 \<Rightarrow> u32 \<Rightarrow> u32 \<Rightarrow> u32 \<Rightarrow> u32 list \<Rightarrow> usize \<Rightarrow> u32 \<Rightarrow> u32 list \<Rightarrow> u32 list exec" where
  "raster_blit w h x y src offset len buf =
     (if y \<ge> h \<or> x \<ge> w \<or> len = 0 then Some buf
      else let n = unat (min len (w - x)); row_start = unat (y * w + x)
           in do { ys \<leftarrow> slice src offset n; write_slice buf row_start ys })"

definition raster_blend :: "u32 \<Rightarrow> u32 \<Rightarrow> u32 \<Rightarrow> u32 \<Rightarrow> u32 \<Rightarrow> u32 \<Rightarrow> u32 \<Rightarrow> u32 list \<Rightarrow> u32 list exec" where
  "raster_blend w h x y len color alpha buf =
     (if y \<ge> h \<or> x \<ge> w \<or> len = 0 then Some buf
      else if alpha \<ge> 255 then raster_fill w h x y len color buf
      else if alpha = 0 then Some buf
      else let n = unat (min len (w - x)); row_start = unat (y * w + x); inv = 255 - alpha
           in do {
             row \<leftarrow> slice buf row_start n;
             write_slice buf row_start
               (map (\<lambda>p. per_channel (\<lambda>shift. (channel color shift * alpha + channel p shift * inv) div 255)) row) })"

section \<open>Rows of a buffer\<close>

text \<open>The rows fit the buffer, and their indices fit 32 bits.\<close>

definition buffer_fits :: "u32 \<Rightarrow> u32 \<Rightarrow> u32 list \<Rightarrow> bool" where
  "buffer_fits w h buf \<longleftrightarrow> length buf = unat w * unat h \<and> unat w * unat h < 2 ^ 32"

lemma row_index:
  assumes "buffer_fits w h buf" "x < w" "y < h"
  shows "unat (y * w + x) = unat y * unat w + unat x" "unat y * unat w + unat w \<le> length buf"
proof -
  have "Suc (unat y) * unat w \<le> unat h * unat w" using assms(3) by (intro mult_le_mono1) (simp add: word_less_nat_alt)
  then show le: "unat y * unat w + unat w \<le> length buf" using assms(1) by (simp add: buffer_fits_def algebra_simps)
  then show "unat (y * w + x) = unat y * unat w + unat x"
    using assms(1,2) by (simp add: buffer_fits_def word_less_nat_alt unat_word_ariths)
qed

lemma cell_eq: "i < w \<Longrightarrow> k < w \<Longrightarrow> j * w + i = l * w + k \<longleftrightarrow> j = l \<and> i = k" for w :: nat
proof
  assume "i < w" "k < w" "j * w + i = l * w + k"
  then have "(j * w + i) div w = (l * w + k) div w" "(j * w + i) mod w = (l * w + k) mod w" by simp_all
  then show "j = l \<and> i = k" using \<open>i < w\<close> \<open>k < w\<close> by simp
qed simp

lemma cell_less: "i < w \<Longrightarrow> j < h \<Longrightarrow> j * w + i < w * h" for w h :: nat
proof -
  assume "i < w" "j < h"
  then have "Suc j * w \<le> h * w" by (intro mult_le_mono1) simp
  then show ?thesis using \<open>i < w\<close> by (simp add: algebra_simps)
qed

text \<open>A pixel after a row is written.\<close>

lemma write_row:
  assumes "buffer_fits w h buf" "x < w" "y < h" "length ys = unat (min len (w - x))"
  shows "\<exists>buf'. write_slice buf (unat (y * w + x)) ys = Some buf' \<and> length buf' = length buf \<and>
     (\<forall>i < unat w. \<forall>j < unat h. buf' ! (j * unat w + i) =
        (if on_span x y len i j then ys ! (i - unat x) else buf ! (j * unat w + i)))"
proof -
  let ?a = "unat y * unat w + unat x"
  note ri = row_index [OF assms(1-3)]
  have wx: "unat (w - x) = unat w - unat x" using assms(2) by (intro unat_sub_le) simp
  have "unat x < unat w" using assms(2) by (simp add: word_less_nat_alt)
  have n: "length ys = min (unat len) (unat w - unat x)" using assms(4) wx by (simp add: unat_min)
  have room: "?a + length ys \<le> length buf" using n \<open>unat x < unat w\<close> ri(2) by simp
  let ?b = "take ?a buf @ ys @ drop (?a + length ys) buf"
  have "?b ! (j * unat w + i) = (if on_span x y len i j then ys ! (i - unat x) else buf ! (j * unat w + i))"
    if ij: "i < unat w" "j < unat h" for i j
  proof -
    have lt: "j * unat w + i < length buf" using cell_less [OF ij] assms(1) by (simp add: buffer_fits_def)
    have "?a \<le> j * unat w + i \<and> j * unat w + i < ?a + length ys \<longleftrightarrow> on_span x y len i j"
    proof
      assume r: "?a \<le> j * unat w + i \<and> j * unat w + i < ?a + length ys"
      then obtain k where k: "j * unat w + i = unat y * unat w + (unat x + k)" "k < length ys" by (metis add.assoc add_less_cancel_left le_Suc_ex)
      moreover have "unat x + k < unat w" using k(2) n by linarith
      ultimately have "j = unat y" "i = unat x + k" using cell_eq [OF ij(1)] by blast+
      then show "on_span x y len i j" using k(2) n by (simp add: on_span_def)
    next
      assume "on_span x y len i j"
      then show "?a \<le> j * unat w + i \<and> j * unat w + i < ?a + length ys" using n ij by (auto simp: on_span_def)
    qed
    moreover have "j * unat w + i - ?a = i - unat x" if "on_span x y len i j" using that by (auto simp: on_span_def)
    ultimately show ?thesis using nth_splice [OF room lt] by auto
  qed
  moreover have "write_slice buf (unat (y * w + x)) ys = Some ?b" using ri(1) room by (simp add: write_slice_def)
  ultimately show ?thesis using room by (intro exI [of _ ?b]) simp
qed

section \<open>Surfaces over a buffer\<close>

definition buffer_ok :: "'s surface \<Rightarrow> ('s \<Rightarrow> u32 list) \<Rightarrow> 's \<Rightarrow> bool" where
  "buffer_ok S buf s \<longleftrightarrow> buffer_fits (sf_width S s) (sf_height S s) (buf s)"

definition buffer_px :: "'s surface \<Rightarrow> ('s \<Rightarrow> u32 list) \<Rightarrow> 's \<Rightarrow> nat \<Rightarrow> nat \<Rightarrow> u32" where
  "buffer_px S buf s i j = buf s ! (j * unat (sf_width S s) + i)"

definition on_buffer :: "('s \<Rightarrow> u32 list) \<Rightarrow> (u32 list \<Rightarrow> 's \<Rightarrow> 's) \<Rightarrow> (u32 list \<Rightarrow> u32 list exec) \<Rightarrow> 's \<Rightarrow> 's exec" where
  "on_buffer buf set_buf f s = do { b \<leftarrow> f (buf s); Some (set_buf b s) }"

locale pixel_buffer =
  fixes S :: "'s surface" and buf :: "'s \<Rightarrow> u32 list" and set_buf :: "u32 list \<Rightarrow> 's \<Rightarrow> 's"
  assumes buf_set: "buf (set_buf b s) = b" and set_set: "set_buf b (set_buf b' s) = set_buf b s" and set_buf_buf: "set_buf (buf s) s = s"
    and width_set: "sf_width S (set_buf b s) = sf_width S s" and height_set: "sf_height S (set_buf b s) = sf_height S s"
    and put_is: "buffer_ok S buf s \<Longrightarrow> sf_put S x y c s = on_buffer buf set_buf (raster_put (sf_width S s) (sf_height S s) x y c) s"
    and fill_is: "buffer_ok S buf s \<Longrightarrow> sf_fill_span S x y len c s = on_buffer buf set_buf (raster_fill (sf_width S s) (sf_height S s) x y len c) s"
    and blit_is: "buffer_ok S buf s \<Longrightarrow> sf_blit_span S x y src offset len s =
          on_buffer buf set_buf (raster_blit (sf_width S s) (sf_height S s) x y src offset len) s"
begin

lemma buffer_paints:
  assumes "\<And>s. buffer_ok S buf s \<Longrightarrow> f s = on_buffer buf set_buf (F (sf_width S s) (sf_height S s)) s"
    and "\<And>w h b. buffer_fits w h b \<Longrightarrow> \<exists>b'. F w h b = Some b' \<and> length b' = length b \<and>
        (\<forall>i < unat w. \<forall>j < unat h. b' ! (j * unat w + i) = g i j (b ! (j * unat w + i)))"
  shows "paints S (buffer_ok S buf) (buffer_px S buf) (set_buf []) r f g"
  unfolding paints_def
proof (intro allI impI)
  fix s assume s: "buffer_ok S buf s" "set_buf [] s = r"
  let ?w = "sf_width S s" and ?h = "sf_height S s"
  from assms(2) [of ?w ?h "buf s"] s(1) obtain b' where b: "F ?w ?h (buf s) = Some b'" "length b' = length (buf s)"
    "\<And>i j. i < unat ?w \<Longrightarrow> j < unat ?h \<Longrightarrow> b' ! (j * unat ?w + i) = g i j (buf s ! (j * unat ?w + i))"
    by (auto simp: buffer_ok_def)
  have "f s = Some (set_buf b' s)" using assms(1) [OF s(1)] b(1) by (simp add: on_buffer_def)
  then show "\<exists>s'. f s = Some s' \<and> buffer_ok S buf s' \<and> set_buf [] s' = r \<and>
      (\<forall>i j. i < unat ?w \<longrightarrow> j < unat ?h \<longrightarrow> buffer_px S buf s' i j = g i j (buffer_px S buf s i j))"
    using b(2,3) s by (simp add: buffer_ok_def buffer_px_def buffer_fits_def buf_set set_set width_set height_set)
qed

text \<open>Two surfaces that agree on their pixels and on the rest are the same.\<close>

lemma buffer_ext:
  assumes "buffer_ok S buf s" "buffer_ok S buf s'" "set_buf [] s' = set_buf [] s"
    and "\<And>i j. i < unat (sf_width S s) \<Longrightarrow> j < unat (sf_height S s) \<Longrightarrow> buffer_px S buf s' i j = buffer_px S buf s i j"
  shows "s' = s"
proof -
  have d: "sf_width S s' = sf_width S s" "sf_height S s' = sf_height S s" using assms(3) width_set height_set by metis+
  let ?w = "unat (sf_width S s)" and ?h = "unat (sf_height S s)"
  have l: "length (buf s') = ?w * ?h" "length (buf s) = ?w * ?h" using assms(1,2) d by (simp_all add: buffer_ok_def buffer_fits_def)
  have "buf s' = buf s"
  proof (rule nth_equalityI)
    show "length (buf s') = length (buf s)" using l by simp
    fix k assume "k < length (buf s')"
    then have k: "k < ?w * ?h" using l by simp
    then have "0 < ?w" by (cases ?w) auto
    then have "k mod ?w < ?w" "k div ?w < ?h" using k by (simp_all add: less_mult_imp_div_less mult.commute)
    then show "buf s' ! k = buf s ! k" using assms(4) [of "k mod ?w" "k div ?w"] d by (simp add: buffer_px_def)
  qed
  moreover have "set_buf (buf s') s' = set_buf (buf s') s" using assms(3) set_set by metis
  ultimately show ?thesis using set_buf_buf by metis
qed

lemma raster_put_cells:
  assumes "buffer_fits w h b"
  shows "\<exists>b'. raster_put w h x y c b = Some b' \<and> length b' = length b \<and>
     (\<forall>i < unat w. \<forall>j < unat h. b' ! (j * unat w + i) = (if i = unat x \<and> j = unat y then c else b ! (j * unat w + i)))"
proof (cases "x < w \<and> y < h")
  case True
  note ri = row_index [OF assms, of x y]
  have "unat x < unat w" using True by (simp add: word_less_nat_alt)
  then have "unat y * unat w + unat x < length b" using True ri by simp
  moreover have "unat y * unat w + unat x = j * unat w + i \<longleftrightarrow> i = unat x \<and> j = unat y" if "i < unat w" for i j
    using cell_eq [OF \<open>unat x < unat w\<close> that] by auto
  ultimately show ?thesis using True ri by (simp add: raster_put_def store_def nth_list_update)
next
  case False
  then show ?thesis by (auto simp: raster_put_def word_less_nat_alt)
qed

lemma raster_fill_cells:
  assumes "buffer_fits w h b"
  shows "\<exists>b'. raster_fill w h x y len c b = Some b' \<and> length b' = length b \<and>
     (\<forall>i < unat w. \<forall>j < unat h. b' ! (j * unat w + i) = (if on_span x y len i j then c else b ! (j * unat w + i)))"
proof (cases "y \<ge> h \<or> x \<ge> w \<or> len = 0")
  case True
  then have "\<not> on_span x y len i j" if "i < unat w" "j < unat h" for i j using that by (auto simp: on_span_def word_le_nat_alt)
  then show ?thesis using True by (simp add: raster_fill_def)
next
  case False
  let ?ys = "replicate (unat (min len (w - x))) c"
  from write_row [OF assms, of x y ?ys len] False obtain b' where b:
    "write_slice b (unat (y * w + x)) ?ys = Some b'" "length b' = length b"
    "\<And>i j. i < unat w \<Longrightarrow> j < unat h \<Longrightarrow> b' ! (j * unat w + i) = (if on_span x y len i j then ?ys ! (i - unat x) else b ! (j * unat w + i))"
    by (auto simp: not_le)
  have "unat (w - x) = unat w - unat x" using False by (intro unat_sub_le) auto
  then have "?ys ! (i - unat x) = c" if "i < unat w" "on_span x y len i j" for i j
    using that by (intro nth_replicate) (auto simp: on_span_def unat_min)
  then show ?thesis using False b by (auto simp: raster_fill_def Let_def)
qed

lemma raster_blit_cells:
  assumes "buffer_fits w h b" "offset + unat len \<le> length src"
  shows "\<exists>b'. raster_blit w h x y src offset len b = Some b' \<and> length b' = length b \<and>
     (\<forall>i < unat w. \<forall>j < unat h. b' ! (j * unat w + i) = (if on_span x y len i j then src ! (offset + (i - unat x)) else b ! (j * unat w + i)))"
proof (cases "y \<ge> h \<or> x \<ge> w \<or> len = 0")
  case True
  then have "\<not> on_span x y len i j" if "i < unat w" "j < unat h" for i j using that by (auto simp: on_span_def word_le_nat_alt)
  then show ?thesis using True by (simp add: raster_blit_def)
next
  case False
  let ?n = "unat (min len (w - x))"
  let ?ys = "take ?n (drop offset src)"
  have n: "offset + ?n \<le> length src" using assms(2) by (simp add: unat_min)
  then have "length ?ys = ?n" by simp
  from write_row [OF assms(1), of x y ?ys len] False this obtain b' where b:
    "write_slice b (unat (y * w + x)) ?ys = Some b'" "length b' = length b"
    "\<And>i j. i < unat w \<Longrightarrow> j < unat h \<Longrightarrow> b' ! (j * unat w + i) = (if on_span x y len i j then ?ys ! (i - unat x) else b ! (j * unat w + i))"
    by (auto simp: not_le)
  have "unat (w - x) = unat w - unat x" using False by (intro unat_sub_le) auto
  then have "i - unat x < ?n" if "i < unat w" "on_span x y len i j" for i j
    using that by (auto simp: on_span_def unat_min)
  then have "?ys ! (i - unat x) = src ! (offset + (i - unat x))" if "i < unat w" "on_span x y len i j" for i j
    using that n by (simp only: nth_take) (intro nth_drop, simp)
  moreover have "slice src offset ?n = Some ?ys" using n by (simp add: slice_def)
  ultimately show ?thesis using False b by (auto simp: raster_blit_def Let_def)
qed

end

sublocale pixel_buffer \<subseteq> raster S "buffer_ok S buf" "buffer_px S buf" "set_buf []"
proof
  show "sf_width S s = sf_width S s' \<and> sf_height S s = sf_height S s'" if "set_buf [] s = set_buf [] s'" for s s'
    using that width_set height_set by metis
  show "paints S (buffer_ok S buf) (buffer_px S buf) (set_buf []) r (sf_put S x y c) (\<lambda>i j b. if i = unat x \<and> j = unat y then c else b)" for r x y c
    by (rule buffer_paints, erule put_is, erule raster_put_cells)
  show "paints S (buffer_ok S buf) (buffer_px S buf) (set_buf []) r (sf_fill_span S x y len c) (\<lambda>i j b. if on_span x y len i j then c else b)" for r x y len c
    by (rule buffer_paints, erule fill_is, erule raster_fill_cells)
  show "paints S (buffer_ok S buf) (buffer_px S buf) (set_buf []) r (sf_blit_span S x y src offset len)
      (\<lambda>i j b. if on_span x y len i j then src ! (offset + (i - unat x)) else b)" if "offset + unat len \<le> length src" for offset len src r x y
    by (rule buffer_paints, erule blit_is, erule raster_blit_cells [OF _ that])
qed

context pixel_buffer
begin

lemma paints_same:
  assumes "paints S (buffer_ok S buf) (buffer_px S buf) (set_buf []) (set_buf [] s) f g"
    "paints S (buffer_ok S buf) (buffer_px S buf) (set_buf []) (set_buf [] s) f' g" "buffer_ok S buf s"
  shows "f s = f' s"
proof -
  obtain t where t: "f s = Some t" "buffer_ok S buf t" "set_buf [] t = set_buf [] s"
    "\<And>i j. i < unat (sf_width S s) \<Longrightarrow> j < unat (sf_height S s) \<Longrightarrow> buffer_px S buf t i j = g i j (buffer_px S buf s i j)"
    using assms(1,3) unfolding paints_def by blast
  obtain t' where t': "f' s = Some t'" "buffer_ok S buf t'" "set_buf [] t' = set_buf [] s"
    "\<And>i j. i < unat (sf_width S s) \<Longrightarrow> j < unat (sf_height S s) \<Longrightarrow> buffer_px S buf t' i j = g i j (buffer_px S buf s i j)"
    using assms(2,3) unfolding paints_def by blast
  have d: "sf_width S t = sf_width S s" "sf_height S t = sf_height S s" using t(3) width_set height_set by metis+
  have "t' = t"
  proof (rule buffer_ext [OF t(2) t'(2)])
    show "set_buf [] t' = set_buf [] t" using t(3) t'(3) by metis
    show "buffer_px S buf t' i j = buffer_px S buf t i j" if "i < unat (sf_width S t)" "j < unat (sf_height S t)" for i j
      using that t(4) t'(4) unfolding d by metis
  qed
  then show ?thesis using t(1) t'(1) by simp
qed

end

section \<open>The spans of the trait\<close>

context raster
begin

lemma paints_columns:
  assumes "unat x + unat len \<le> 2 ^ 32"
    and "\<And>k. k < len \<Longrightarrow> paints S ok px rest r (f k) (\<lambda>i j b. if i = unat (x + k) \<and> j = unat y then g k b else b)"
  shows "paints S ok px rest r (for_each f (word_range 0 len)) (\<lambda>i j b. if on_span x y len i j then g (of_nat (i - unat x)) b else b)"
proof (rule paints_eq [OF paints_loop])
  show "paints S ok px rest r (f k) (\<lambda>i j b. if i = unat (x + k) \<and> j = unat y then g k b else b)" if "k \<in> set (word_range 0 len)" for k
    using that assms(2) by (simp add: set_word_range)
  show "fold (\<lambda>k b. if i = unat (x + k) \<and> j = unat y then g k b else b) (word_range 0 len) b
      = (if on_span x y len i j then g (of_nat (i - unat x)) b else b)" for i j b
    using fold_rows_from [OF assms(1), of i g b] by (cases "j = unat y") (simp_all add: on_span_def)
qed

lemma default_fill_span_paints:
  assumes "unat x + unat len \<le> 2 ^ 32"
  shows "paints S ok px rest r (default_fill_span (sf_put S) x y len c) (\<lambda>i j b. if on_span x y len i j then c else b)"
  unfolding default_fill_span_def by (rule paints_columns [OF assms put_paints])

lemma default_blit_span_paints:
  assumes "unat x + unat len \<le> 2 ^ 32" "offset + unat len \<le> length src"
  shows "paints S ok px rest r (default_blit_span (sf_put S) x y src offset len)
      (\<lambda>i j b. if on_span x y len i j then src ! (offset + (i - unat x)) else b)"
proof -
  have "paints S ok px rest r (default_blit_span (sf_put S) x y src offset len)
      (\<lambda>i j b. if on_span x y len i j then src ! (offset + unat (of_nat (i - unat x) :: u32)) else b)"
    unfolding default_blit_span_def
  proof (rule paints_columns [OF assms(1)])
    fix k assume "k < len"
    then have "index src (offset + unat k) = Some (src ! (offset + unat k))" using assms(2) by (simp add: index_def word_less_nat_alt)
    then show "paints S ok px rest r (\<lambda>s. do { c \<leftarrow> index src (offset + unat k); sf_put S (x + k) y c s })
        (\<lambda>i j b. if i = unat (x + k) \<and> j = unat y then src ! (offset + unat k) else b)"
      using put_paints by simp
  qed
  then show ?thesis
  proof (rule paints_eq)
    fix i j b
    show "(if on_span x y len i j then src ! (offset + unat (of_nat (i - unat x) :: u32)) else b)
        = (if on_span x y len i j then src ! (offset + (i - unat x)) else b)"
      using unat_of_nat_less [of "i - unat x" len] by (auto simp: on_span_def)
  qed
qed

end

context readable
begin

lemma default_blend_span_paints:
  assumes "unat x + unat len \<le> 2 ^ 32"
  shows "paints S ok px rest r (default_blend_span (sf_put S) (sf_get S) (sf_fill_span S) x y len c a)
      (\<lambda>i j b. if on_span x y len i j then blend c b a else b)"
proof -
  consider "a \<ge> 255" | "\<not> a \<ge> 255" "a = 0" | "\<not> a \<ge> 255" "a \<noteq> 0" by blast
  then show ?thesis
  proof cases
    case 1
    then have e: "default_blend_span (sf_put S) (sf_get S) (sf_fill_span S) x y len c a = sf_fill_span S x y len c"
      by (auto simp: default_blend_span_def)
    show ?thesis unfolding e by (rule paints_eq [OF fill_paints]) (use 1 in \<open>simp add: blend_def\<close>)
  next
    case 2
    then have e: "default_blend_span (sf_put S) (sf_get S) (sf_fill_span S) x y len c a = Some"
      by (auto simp: default_blend_span_def)
    show ?thesis unfolding e by (rule paints_eq [OF paints_skip]) (use 2 in \<open>simp add: blend_def\<close>)
  next
    case 3
    let ?f = "\<lambda>k s. do { g \<leftarrow> sf_get S (x + k) y s;
             case g of Some b \<Rightarrow> sf_put S (x + k) y (blend c b a) s | None \<Rightarrow> sf_put S (x + k) y c s }"
    have "default_blend_span (sf_put S) (sf_get S) (sf_fill_span S) x y len c a = for_each ?f (word_range 0 len)"
      using 3 by (auto simp: default_blend_span_def)
    moreover have "paints S ok px rest r (?f k) (\<lambda>i j b. if i = unat (x + k) \<and> j = unat y then blend c b a else b)" for k
    proof (rule paints_at)
      fix s assume s: "ok s" "rest s = r"
      let ?on = "x + k < sf_width S s \<and> y < sf_height S s"
      let ?v = "if ?on then blend c (px s (unat (x + k)) (unat y)) a else c"
      have "?f k s = sf_put S (x + k) y ?v s" using get_reads [OF s(1), of "x + k" y] by simp
      then show "\<exists>f' g'. ?f k s = f' s \<and> paints S ok px rest r f' g' \<and>
          (\<forall>i j. i < unat (sf_width S s) \<longrightarrow> j < unat (sf_height S s) \<longrightarrow>
             g' i j (px s i j) = (if i = unat (x + k) \<and> j = unat y then blend c (px s i j) a else px s i j))"
        using put_paints [of r "x + k" y ?v]
        by (intro exI [of _ "sf_put S (x + k) y ?v"] exI conjI) (auto simp: word_less_nat_alt)
    qed
    ultimately show ?thesis using paints_columns [OF assms, of r ?f y "\<lambda>_ b. blend c b a"] by simp
  qed
qed

end

section \<open>Buffers that can be read back\<close>

locale readable_buffer = pixel_buffer +
  assumes get_is: "sf_get S x y s = raster_get (sf_width S s) (sf_height S s) x y (buf s)"
    and blend_is: "sf_blend_span S x y len c a s = on_buffer buf set_buf (raster_blend (sf_width S s) (sf_height S s) x y len c a) s"
begin

lemma raster_blend_cells:
  assumes "buffer_fits w h b"
  shows "\<exists>b'. raster_blend w h x y len c a b = Some b' \<and> length b' = length b \<and>
     (\<forall>i < unat w. \<forall>j < unat h. b' ! (j * unat w + i) = (if on_span x y len i j then blend c (b ! (j * unat w + i)) a else b ! (j * unat w + i)))"
proof (cases "y \<ge> h \<or> x \<ge> w \<or> len = 0 \<or> a = 0 \<or> a \<ge> 255")
  case True
  then consider "y \<ge> h \<or> x \<ge> w \<or> len = 0" | "\<not> (y \<ge> h \<or> x \<ge> w \<or> len = 0)" "a \<ge> 255" | "\<not> (y \<ge> h \<or> x \<ge> w \<or> len = 0)" "\<not> a \<ge> 255" "a = 0" by blast
  then show ?thesis
  proof cases
    case 1
    then have "\<not> on_span x y len i j" if "i < unat w" "j < unat h" for i j using that by (auto simp: on_span_def word_le_nat_alt)
    then show ?thesis using 1 by (simp add: raster_blend_def)
  next
    case 2
    then have "raster_blend w h x y len c a b = raster_fill w h x y len c b" "blend c p a = c" for p
      by (simp_all add: raster_blend_def blend_def)
    then show ?thesis using raster_fill_cells [OF assms] by (simp only:)
  next
    case 3
    then show ?thesis by (simp add: raster_blend_def blend_def)
  qed
next
  case False
  let ?n = "unat (min len (w - x))" and ?a = "unat y * unat w + unat x"
  let ?ys = "map (\<lambda>p. blend c p a) (take ?n (drop ?a b))"
  have wx: "unat (w - x) = unat w - unat x" using False by (intro unat_sub_le) auto
  have xy: "x < w" "y < h" "unat x < unat w" using False by (auto simp: word_less_nat_alt word_le_nat_alt)
  note ri = row_index [OF assms xy(1,2)]
  have "?n \<le> unat w - unat x" using wx by (simp add: unat_min)
  then have room: "?a + ?n \<le> length b" using ri(2) xy(3) by linarith
  then have "length ?ys = ?n" by simp
  from write_row [OF assms xy(1,2) this] obtain b' where b:
    "write_slice b (unat (y * w + x)) ?ys = Some b'" "length b' = length b"
    "\<And>i j. i < unat w \<Longrightarrow> j < unat h \<Longrightarrow> b' ! (j * unat w + i) = (if on_span x y len i j then ?ys ! (i - unat x) else b ! (j * unat w + i))"
    by blast
  have "?ys ! (i - unat x) = blend c (b ! (j * unat w + i)) a" if "i < unat w" "on_span x y len i j" for i j
  proof -
    have "i - unat x < ?n" "j = unat y" "unat x \<le> i" using that wx by (auto simp: on_span_def unat_min)
    then show ?thesis using room by (simp add: add.assoc)
  qed
  moreover have "(\<lambda>p. per_channel (\<lambda>shift. (channel c shift * a + channel p shift * (255 - a)) div 255)) = (\<lambda>p. blend c p a)"
    using False by (auto simp: blend_def Let_def)
  moreover have "slice b (unat (y * w + x)) ?n = Some (take ?n (drop ?a b))" using room ri(1) by (simp add: slice_def)
  ultimately show ?thesis using False b by (auto simp: raster_blend_def Let_def)
qed

end

sublocale readable_buffer \<subseteq> readable S "buffer_ok S buf" "buffer_px S buf" "set_buf []"
proof
  show "sf_get S x y s = Some (if x < sf_width S s \<and> y < sf_height S s then Some (buffer_px S buf s (unat x) (unat y)) else None)"
    if "buffer_ok S buf s" for s x y
  proof (cases "x < sf_width S s \<and> y < sf_height S s")
    case True
    have "buffer_fits (sf_width S s) (sf_height S s) (buf s)" using that by (simp add: buffer_ok_def)
    note ri = row_index [OF this, of x y]
    have "unat x < unat (sf_width S s)" using True by (simp add: word_less_nat_alt)
    then have "unat y * unat (sf_width S s) + unat x < length (buf s)" using ri(2) True by simp
    then show ?thesis using True ri(1) by (simp add: get_is raster_get_def index_def buffer_px_def)
  next
    case False
    then show ?thesis by (auto simp: get_is raster_get_def)
  qed
  show "paints S (buffer_ok S buf) (buffer_px S buf) (set_buf []) r (sf_blend_span S x y len c a)
      (\<lambda>i j b. if on_span x y len i j then blend c b a else b)" if "unat x + unat len \<le> 2 ^ 32" for x len r y c a
    by (rule buffer_paints [OF blend_is]) (rule raster_blend_cells)
qed

end
