(* ===== verification/Fb.thy ===== *)
theory Fb
  imports Process Multiboot Gfx_Buffer Gfx_Scale Gfx_Shadow
begin

text \<open>
  \<open>src/src/fb.rs\<close>: the framebuffer. The compositor draws at a virtual resolution into a back buffer;
  \<open>present\<close> scales it to the physical mode and copies it to the memory of the display. The display's memory is part of
  the physical memory \<open>d_video\<close>; the lock around the state and the atomic copies for the panic path are fields.
\<close>

section \<open>State\<close>

definition SUPPORTED_RESOLUTIONS :: "(u32 \<times> u32) list" where
  "SUPPORTED_RESOLUTIONS = [(1920, 1080), (1600, 900), (1366, 768), (1280, 720), (1024, 576), (800, 600)]"

record fb_state =
  f_addr :: u64
  f_pitch :: u32
  f_width :: u32
  f_height :: u32
  f_vwidth :: u32
  f_vheight :: u32
  f_vback :: "u32 list"
  f_back :: "u32 list"
  f_scratch :: "u32 list"

definition fb_surface :: "fb_state surface" where
  "fb_surface = \<lparr>
     sf_width = f_vwidth,
     sf_height = f_vheight,
     sf_put = (\<lambda>x y color s. on_buffer f_vback (\<lambda>b s. s\<lparr>f_vback := b\<rparr>) (raster_put (f_vwidth s) (f_vheight s) x y color) s),
     sf_get = (\<lambda>x y s. raster_get (f_vwidth s) (f_vheight s) x y (f_vback s)),
     sf_blit_span = (\<lambda>x y src offset len s.
       on_buffer f_vback (\<lambda>b s. s\<lparr>f_vback := b\<rparr>) (raster_blit (f_vwidth s) (f_vheight s) x y src offset len) s),
     sf_fill_span = (\<lambda>x y len color s.
       on_buffer f_vback (\<lambda>b s. s\<lparr>f_vback := b\<rparr>) (raster_fill (f_vwidth s) (f_vheight s) x y len color) s),
     sf_blend_span = (\<lambda>x y len color alpha s.
       on_buffer f_vback (\<lambda>b s. s\<lparr>f_vback := b\<rparr>) (raster_blend (f_vwidth s) (f_vheight s) x y len color alpha) s)\<rparr>"

record display =
  d_state :: "fb_state option"
  d_graphics :: bool
  d_fb_addr :: u64
  d_fb_pitch :: u32
  d_fb_width :: u32
  d_fb_height :: u32
  d_video :: phys_mem

definition fb_init :: "phys_mem \<Rightarrow> usize \<Rightarrow> display \<Rightarrow> bool \<times> display" where
  "fb_init mem info d =
     (case framebuffer mem info of
        None \<Rightarrow> (False, d)
      | Some fb \<Rightarrow>
          if fb_bpp fb \<noteq> 32 then (False, d)
          else if \<not> is_identity_mapped (fb_addr fb) (ucast (fb_pitch fb) * ucast (fb_height fb)) then (False, d)
          else (True, d\<lparr>
            d_state := Some \<lparr>f_addr = fb_addr fb, f_pitch = fb_pitch fb, f_width = fb_width fb, f_height = fb_height fb,
                f_vwidth = fb_width fb, f_vheight = fb_height fb,
                f_vback = replicate (unat (fb_width fb * fb_height fb)) 0,
                f_back = replicate (unat (fb_width fb * fb_height fb)) 0,
                f_scratch = replicate (unat (fb_width fb) * 2) 0\<rparr>,
            d_fb_addr := fb_addr fb, d_fb_pitch := fb_pitch fb, d_fb_width := fb_width fb, d_fb_height := fb_height fb,
            d_graphics := True\<rparr>))"

definition is_graphics_mode :: "display \<Rightarrow> bool" where
  "is_graphics_mode d = d_graphics d"

definition dimensions :: "display \<Rightarrow> u32 \<times> u32" where
  "dimensions d = (d_fb_width d, d_fb_height d)"

definition virtual_dimensions :: "display \<Rightarrow> u32 \<times> u32" where
  "virtual_dimensions d = (case d_state d of Some s \<Rightarrow> (f_vwidth s, f_vheight s) | None \<Rightarrow> dimensions d)"

definition set_virtual_resolution :: "u32 \<Rightarrow> u32 \<Rightarrow> display \<Rightarrow> bool \<times> display" where
  "set_virtual_resolution w h d =
     (case d_state d of
        None \<Rightarrow> (False, d)
      | Some s \<Rightarrow>
          if w = 0 \<or> h = 0 \<or> w > f_width s \<or> h > f_height s then (False, d)
          else (True, d\<lparr>d_state := Some (s\<lparr>f_vwidth := w, f_vheight := h, f_vback := replicate (unat (w * h)) 0\<rparr>)\<rparr>))"

definition with_surface :: "(fb_state \<Rightarrow> fb_state exec) \<Rightarrow> display \<Rightarrow> display exec" where
  "with_surface f d =
     (case d_state d of None \<Rightarrow> Some d | Some s \<Rightarrow> do { s' \<leftarrow> f s; Some (d\<lparr>d_state := Some s'\<rparr>) })"

definition fb_get_pixel :: "u32 \<Rightarrow> u32 \<Rightarrow> display \<Rightarrow> u32 option exec" where
  "fb_get_pixel x y d =
     (case d_state d of
        None \<Rightarrow> Some None
      | Some s \<Rightarrow>
          if x \<ge> f_width s \<or> y \<ge> f_height s then Some None
          else do { c \<leftarrow> index (f_back s) (unat (y * f_width s + x)); Some (Some c) })"

section \<open>Saving and restoring a region\<close>

text \<open>\<open>&xs[a..b]\<close>, and \<open>xs[a..a + n].copy_from_slice(ys)\<close>, which panics when the lengths differ.\<close>

definition slice_range :: "'a list \<Rightarrow> nat \<Rightarrow> nat \<Rightarrow> 'a list exec" where
  "slice_range xs a b = (if a \<le> b \<and> b \<le> length xs then Some (take (b - a) (drop a xs)) else None)"

definition copy_slice :: "'a list \<Rightarrow> nat \<Rightarrow> nat \<Rightarrow> 'a list \<Rightarrow> 'a list exec" where
  "copy_slice xs a n ys = (if length ys = n then write_slice xs a ys else None)"

definition snapshot_row :: "fb_state \<Rightarrow> u32 \<Rightarrow> u32 \<Rightarrow> u32 \<Rightarrow> u32 \<Rightarrow> u32 \<Rightarrow> u32 list \<Rightarrow> u32 list exec" where
  "snapshot_row s x y w x_end yy out =
     (let sy = y + yy; n = unat (x_end - x)
      in do {
        src \<leftarrow> slice_range (f_vback s) (unat (sy * f_vwidth s + x)) (unat (sy * f_vwidth s + x_end));
        copy_slice out (unat yy * unat w) n src })"

definition snapshot_region :: "u32 \<Rightarrow> u32 \<Rightarrow> u32 \<Rightarrow> u32 \<Rightarrow> display \<Rightarrow> u32 list exec" where
  "snapshot_region x y w h d =
     (let out = replicate (unat (w * h)) 0
      in case d_state d of
           None \<Rightarrow> Some out
         | Some s \<Rightarrow>
             if w = 0 \<or> h = 0 then Some out
             else let x = min x (f_vwidth s); y = min y (f_vheight s); x_end = min (x + w) (f_vwidth s)
                  in for_until (\<lambda>yy _. y + yy \<ge> f_vheight s) (snapshot_row s x y w x_end) (word_range 0 h) out)"

definition restore_row :: "u32 \<Rightarrow> u32 \<Rightarrow> u32 \<Rightarrow> u32 \<Rightarrow> u32 list \<Rightarrow> u32 \<Rightarrow> fb_state \<Rightarrow> fb_state exec" where
  "restore_row x y w x_end pixels yy s =
     (let sy = y + yy; n = unat (x_end - x);
          a = unat (sy * f_vwidth s + x); b = unat (sy * f_vwidth s + x_end)
      in do {
        src \<leftarrow> slice pixels (unat yy * unat w) n;
        vback \<leftarrow> (if a \<le> b then copy_slice (f_vback s) a (b - a) src else None);
        Some (s\<lparr>f_vback := vback\<rparr>) })"

definition restore_region :: "u32 \<Rightarrow> u32 \<Rightarrow> u32 \<Rightarrow> u32 \<Rightarrow> u32 list \<Rightarrow> display \<Rightarrow> display exec" where
  "restore_region x y w h pixels = with_surface (\<lambda>s.
     if w = 0 \<or> h = 0 then Some s
     else let x = min x (f_vwidth s); y = min y (f_vheight s); x_end = min (x + w) (f_vwidth s)
          in for_until (\<lambda>yy _. y + yy \<ge> f_vheight s) (restore_row x y w x_end pixels) (word_range 0 h) s)"

section \<open>Presenting\<close>

text \<open>Pixels as the bytes the display reads.\<close>

definition pixel_bytes :: "u32 list \<Rightarrow> u8 list" where
  "pixel_bytes ps = concat (map (\<lambda>p. to_le 4 (unat p)) ps)"

definition video_row :: "fb_state \<Rightarrow> usize \<Rightarrow> usize \<Rightarrow> usize \<Rightarrow> phys_mem \<Rightarrow> phys_mem exec" where
  "video_row s x n y video = do {
     src_row \<leftarrow> slice (f_back s) (y * unat (f_width s) + x) n;
     Some (put_bytes (unat (f_addr s) + y * unat (f_pitch s) + 4 * x) (pixel_bytes src_row) video) }"

definition present :: "display \<Rightarrow> display exec" where
  "present d =
     (case d_state d of
        None \<Rightarrow> Some d
      | Some s \<Rightarrow> do {
          s1 \<leftarrow> (if f_vwidth s \<noteq> f_width s \<or> f_vheight s \<noteq> f_height s then do {
                  let scratch = (if length (f_scratch s) < unat (f_width s) * 2 then replicate (unat (f_width s) * 2) 0 else f_scratch s);
                  (back, scratch') \<leftarrow> scale_into_scratch (f_vback s) (f_vwidth s) (f_vheight s) (f_back s) (f_width s) (f_height s) scratch;
                  Some (s\<lparr>f_back := back, f_scratch := scratch'\<rparr>) }
                else if length (f_back s) = length (f_vback s) then Some (s\<lparr>f_back := f_vback s\<rparr>) else None);
          video \<leftarrow> for_each (video_row s1 0 (unat (f_width s1))) [0..<unat (f_height s1)] (d_video d);
          Some (d\<lparr>d_state := Some s1, d_video := video\<rparr>) })"

definition mirror_row :: "u32 \<Rightarrow> u32 \<Rightarrow> u32 \<Rightarrow> fb_state \<Rightarrow> fb_state exec" where
  "mirror_row x x_end yy s = do {
     src \<leftarrow> slice_range (f_vback s) (unat (yy * f_vwidth s + x)) (unat (yy * f_vwidth s + x_end));
     let a = unat (yy * f_width s + x);
     let b = unat (yy * f_width s + x_end);
     back \<leftarrow> (if a \<le> b then copy_slice (f_back s) a (b - a) src else None);
     Some (s\<lparr>f_back := back\<rparr>) }"

definition present_region :: "u32 \<Rightarrow> u32 \<Rightarrow> u32 \<Rightarrow> u32 \<Rightarrow> display \<Rightarrow> display exec" where
  "present_region x y w h d =
     (case d_state d of
        None \<Rightarrow> Some d
      | Some s \<Rightarrow>
          if f_vwidth s \<noteq> f_width s \<or> f_vheight s \<noteq> f_height s then present d
          else if w = 0 \<or> h = 0 then Some d
          else let x = min x (f_width s); y = min y (f_height s);
                   x_end = min (x + w) (f_width s); y_end = min (y + h) (f_height s)
               in if x_end \<le> x \<or> y_end \<le> y then Some d
                  else do {
                    s1 \<leftarrow> for_each (mirror_row x x_end) (word_range y y_end) s;
                    video \<leftarrow> for_each (video_row s1 (unat x) (unat (x_end - x)) \<circ> unat) (word_range y y_end) (d_video d);
                    Some (d\<lparr>d_state := Some s1, d_video := video\<rparr>) })"

section \<open>The panic path\<close>

definition emergency_put_pixel :: "u32 \<Rightarrow> u32 \<Rightarrow> u32 \<Rightarrow> display \<Rightarrow> display" where
  "emergency_put_pixel x y color d =
     (if d_fb_addr d = 0 then d
      else if x \<ge> d_fb_width d \<or> y \<ge> d_fb_height d then d
      else d\<lparr>d_video := put_bytes (unat (d_fb_addr d) + unat y * unat (d_fb_pitch d) + 4 * unat x) (to_le 4 (unat color)) (d_video d)\<rparr>)"

definition emergency_fill :: "u32 \<Rightarrow> display \<Rightarrow> display" where
  "emergency_fill color d =
     fold (\<lambda>y. fold (\<lambda>x. emergency_put_pixel x y color) (word_range 0 (d_fb_width d))) (word_range 0 (d_fb_height d)) d"

definition emergency_draw_char :: "u32 \<Rightarrow> u32 \<Rightarrow> u8 \<Rightarrow> u32 \<Rightarrow> display \<Rightarrow> display" where
  "emergency_draw_char cursor_x y byte fg =
     fold (\<lambda>(row, bits). fold (\<lambda>col d.
         if bits AND push_bit col 1 \<noteq> 0 then emergency_put_pixel (cursor_x + of_nat col) (y + of_nat row) fg d else d) [0..<GLYPH_WIDTH])
       (enumerate 0 (glyph byte))"

fun emergency_draw_string :: "u32 \<Rightarrow> u32 \<Rightarrow> u8 list \<Rightarrow> u32 \<Rightarrow> display \<Rightarrow> display" where
  "emergency_draw_string x y [] fg d = d"
| "emergency_draw_string x y (b # bs) fg d =
     emergency_draw_string (x + of_nat GLYPH_WIDTH) y bs fg (emergency_draw_char x y b fg d)"

section \<open>The back buffer is a surface\<close>

interpretation fb: readable_buffer fb_surface f_vback "\<lambda>b s. s\<lparr>f_vback := b\<rparr>"
  by unfold_locales (simp_all add: fb_surface_def)

definition fb_ok :: "fb_state \<Rightarrow> bool" where
  "fb_ok s \<longleftrightarrow> buffer_fits (f_vwidth s) (f_vheight s) (f_vback s) \<and> buffer_fits (f_width s) (f_height s) (f_back s)"

definition fb_px :: "fb_state \<Rightarrow> nat \<Rightarrow> nat \<Rightarrow> u32" where
  "fb_px s i j = f_vback s ! (j * unat (f_vwidth s) + i)"

lemma fb_buffer: "fb_ok s \<Longrightarrow> buffer_ok fb_surface f_vback s" "buffer_px fb_surface f_vback = fb_px"
  "sf_width fb_surface = f_vwidth" "sf_height fb_surface = f_vheight"
  by (auto simp: fb_ok_def buffer_ok_def fb_surface_def buffer_px_def fb_px_def fun_eq_iff)

text \<open>C35: The row-wise fast paths of the back buffer (fill, copy and blend of a span) do what the trait's default
  methods do pixel by pixel, also where the span leaves the screen.\<close>

theorem fb_spans_match_defaults:
  assumes "fb_ok s" "unat x + unat len \<le> 2 ^ 32" "offset + unat len \<le> length src"
  shows "sf_fill_span fb_surface x y len c s = default_fill_span (sf_put fb_surface) x y len c s \<and>
    sf_blit_span fb_surface x y src offset len s = default_blit_span (sf_put fb_surface) x y src offset len s \<and>
    sf_blend_span fb_surface x y len c a s
      = default_blend_span (sf_put fb_surface) (sf_get fb_surface) (sf_fill_span fb_surface) x y len c a s"
  using fb.paints_same [OF fb.fill_paints fb.default_fill_span_paints [OF assms(2)] fb_buffer(1) [OF assms(1)]]
    fb.paints_same [OF fb.blit_paints [OF assms(3)] fb.default_blit_span_paints [OF assms(2,3)] fb_buffer(1) [OF assms(1)]]
    fb.paints_same [OF fb.blend_paints [OF assms(2)] fb.default_blend_span_paints [OF assms(2)] fb_buffer(1) [OF assms(1)]]
  by simp

definition demo_fb :: fb_state where
  "demo_fb = \<lparr>f_addr = 0xFD000000, f_pitch = 16, f_width = 4, f_height = 3, f_vwidth = 4, f_vheight = 3,
     f_vback = map (\<lambda>i. of_nat i) [0..<12], f_back = replicate 12 0, f_scratch = replicate 8 0\<rparr>"

lemma demo_fb_ok: "fb_ok demo_fb"
  by (simp add: fb_ok_def buffer_fits_def demo_fb_def)

theorem fb_spans_match_defaults_witness:
  "sf_blit_span fb_surface 2 1 [7, 8, 9, 10, 11] 1 4 demo_fb = default_blit_span (sf_put fb_surface) 2 1 [7, 8, 9, 10, 11] 1 4 demo_fb"
  using fb_spans_match_defaults [of demo_fb 2 4 1 "[7, 8, 9, 10, 11]" 1] demo_fb_ok by simp

text \<open>C36: The one-pass window shadow against the three nested translucent rectangles it replaces: both always return;
  outside the window's border every colour channel of every pixel differs by at most 2; under the border the pass
  leaves the pixels as they are.\<close>

theorem shadow_like_nested:
  assumes "fb_ok s" "unat x + unat w + 16 < 2 ^ 32" "unat y + unat h + 16 < 2 ^ 32" "unat r \<le> unat h" "2 * unat r + 4 < 2 ^ 32"
  shows "\<exists>s1 s2. draw_window_shadow fb_surface x y w h r s = Some s1 \<and> nested_shadow fb_surface x y w h r s = Some s2 \<and>
    (\<forall>i < unat (f_vwidth s). \<forall>j < unat (f_vheight s).
       if in_range (border_range x y w h r (of_nat j)) i then fb_px s1 i j = fb_px s i j
       else \<forall>shift \<in> {16, 8, 0}. \<bar>int (unat (channel (fb_px s1 i j) shift)) - int (unat (channel (fb_px s2 i j) shift))\<bar> \<le> 2)"
proof -
  let ?g1 = "\<lambda>i j b. if on_rect (x + 3) (y + 3) (x + w + 9) (y + h + 9) i j
      then shadow_map (border_range x y w h r (of_nat j)) (shadow_ranges x y w h r (of_nat j)) [70, 50, 30] (of_nat i) b else b"
  obtain s1 where 1: "draw_window_shadow fb_surface x y w h r s = Some s1"
    "\<And>i j. i < unat (f_vwidth s) \<Longrightarrow> j < unat (f_vheight s) \<Longrightarrow> fb_px s1 i j = ?g1 i j (fb_px s i j)"
    using fb.draw_window_shadow_paints [of "s\<lparr>f_vback := []\<rparr>" x y w h r] fb_buffer(1) [OF assms(1)]
    unfolding paints_def fb_buffer(2-4) by blast
  obtain s2 where 2: "nested_shadow fb_surface x y w h r s = Some s2"
    "\<And>i j. i < unat (f_vwidth s) \<Longrightarrow> j < unat (f_vheight s) \<Longrightarrow> fb_px s2 i j =
       fold (\<lambda>(d, e, a) b. if (unat (y + d) \<le> j \<and> j < unat (y + d) + unat (h + 2)) \<and>
            rounded_span (x + d) (w + 2) (h + 2) e (of_nat (j - unat (y + d))) i then blend 0 b a else b) (shadow_layers r) (fb_px s i j)"
    using fb.nested_shadow_paints [OF assms(2-5), of "s\<lparr>f_vback := []\<rparr>"] fb_buffer(1) [OF assms(1)]
    unfolding paints_def fb_buffer(2-4) by blast
  have small: "i < 2 ^ 32" if "i < unat v" for i and v :: u32 using that unsigned_less [of v, where ?'a = nat] by simp
  have u: "unat (of_nat i :: u32) = i" if "i < 2 ^ 32" for i using that by (simp add: unsigned_of_nat take_bit_nat_eq_self)
  have "if in_range (border_range x y w h r (of_nat j)) i then fb_px s1 i j = fb_px s i j
       else \<forall>shift \<in> {16, 8, 0}. \<bar>int (unat (channel (fb_px s1 i j) shift)) - int (unat (channel (fb_px s2 i j) shift))\<bar> \<le> 2"
    if ij: "i < unat (f_vwidth s)" "j < unat (f_vheight s)" for i j
  proof (cases "in_range (border_range x y w h r (of_nat j)) i")
    case True
    then show ?thesis using 1(2) [OF ij] u [OF small [OF ij(1)]]
      by (simp add: shadow_map_def in_range_def word_le_nat_alt word_less_nat_alt)
  next
    case False
    show ?thesis unfolding if_not_P [OF False] 1(2) [OF ij] 2(2) [OF ij]
      by (intro ballI, rule fb.shadow_maps_close [OF assms(2-5) small [OF ij(1)] small [OF ij(2)] _ False])
  qed
  then show ?thesis using 1(1) 2(1) by blast
qed

theorem shadow_like_nested_witness:
  "\<exists>s1 s2. draw_window_shadow fb_surface 0 0 1 1 1 demo_fb = Some s1 \<and> nested_shadow fb_surface 0 0 1 1 1 demo_fb = Some s2"
  using shadow_like_nested [OF demo_fb_ok, of 0 1 0 1 1] by auto

section \<open>A saved region comes back\<close>

lemma for_until_while: "(\<And>x s. c x s = C x) \<Longrightarrow> for_until c f xs s = for_each f (takeWhile (\<lambda>x. \<not> C x) xs) s"
proof (induction xs arbitrary: s)
  case (Cons x xs)
  then show ?case by (cases "f x s") auto
qed simp

lemma word_range_0: "word_range 0 h = map of_nat [0..<unat h]"
  by (simp add: word_range_def)

lemma for_each_map: "for_each f (map g xs) s = for_each (\<lambda>x. f (g x)) xs s"
proof (induction xs arbitrary: s)
  case (Cons x xs)
  then show ?case by (cases "f (g x) s") auto
qed simp

lemma takeWhile_upt: "takeWhile (\<lambda>k. k < K) [0..<n] = [0..<min n K]"
proof (induction n)
  case (Suc n)
  show ?case
  proof (cases "n < K")
    case True
    then have "takeWhile (\<lambda>k. k < K) [0..<n] = [0..<n]" by (subst takeWhile_eq_all_conv) auto
    then show ?thesis using True by (simp add: takeWhile_append2 min_def)
  next
    case False
    then have "\<exists>k \<in> set [0..<Suc n]. \<not> k < K" by auto
    show ?thesis
    proof (cases "K = n")
      case True
      then have "takeWhile (\<lambda>k. k < K) ([0..<n] @ [n]) = [0..<n] @ takeWhile (\<lambda>k. k < K) [n]" by (intro takeWhile_append2) auto
      then show ?thesis using True by simp
    next
      case False
      then have "K < n" using \<open>\<not> n < K\<close> by simp
      then have "takeWhile (\<lambda>k. k < K) ([0..<n] @ [n]) = takeWhile (\<lambda>k. k < K) [0..<n]" by (intro takeWhile_append1 [of K]) auto
      then show ?thesis using Suc.IH \<open>K < n\<close> by (simp add: min_def)
    qed
  qed
qed simp

text \<open>The rows of a region that are on the screen.\<close>

lemma region_rows:
  assumes "unat y + unat h < 2 ^ 32" "\<And>yy s. c yy s \<longleftrightarrow> y + yy \<ge> vh"
  shows "for_until c f (word_range 0 h) s = for_each (\<lambda>k. f (of_nat k)) [0..<min (unat h) (unat vh - unat y)] s"
proof -
  have "takeWhile (\<lambda>yy. \<not> y + yy \<ge> vh) (map of_nat [0..<unat h]) = map of_nat (takeWhile (\<lambda>k. \<not> y + of_nat k \<ge> vh) [0..<unat h])"
    by (simp add: takeWhile_map comp_def)
  moreover have "takeWhile (\<lambda>k. \<not> y + of_nat k \<ge> vh) [0..<unat h] = takeWhile (\<lambda>k. k < unat vh - unat y) [0..<unat h]"
  proof (rule takeWhile_cong [OF refl])
    fix k assume "k \<in> set [0..<unat h]"
    then have "k < unat h" by simp
    then have "unat (of_nat k :: u32) = k" by (rule unat_of_nat_less)
    then have "unat (y + of_nat k) = unat y + k" using assms(1) \<open>k < unat h\<close> by (simp add: unat_word_ariths)
    then show "(\<not> y + of_nat k \<ge> vh) = (k < unat vh - unat y)" by (auto simp: word_le_nat_alt)
  qed
  ultimately show ?thesis
    using for_until_while [of c "\<lambda>yy. y + yy \<ge> vh" f "word_range 0 h" s] assms(2)
    by (simp add: word_range_0 takeWhile_upt for_each_map)
qed

text \<open>One row of a region: its place in the back buffer.\<close>

lemma region_row:
  assumes "buffer_fits vw vh vb" "unat x \<le> unat xe" "unat xe \<le> unat vw" "unat y + k < unat vh"
  shows "unat ((y + of_nat k) * vw + x) = (unat y + k) * unat vw + unat x"
    "unat ((y + of_nat k) * vw + xe) = (unat y + k) * unat vw + unat xe"
    "(unat y + k) * unat vw + unat vw \<le> length vb"
proof -
  have "unat vh < 2 ^ 32" using unsigned_less [of vh, where ?'a = nat] by simp
  then have k: "unat (y + of_nat k) = unat y + k" using assms(4) by (simp add: unat_word_ariths unsigned_of_nat take_bit_nat_eq_self)
  have "Suc (unat y + k) * unat vw \<le> unat vh * unat vw" using assms(4) by (intro mult_le_mono1) simp
  then show le: "(unat y + k) * unat vw + unat vw \<le> length vb" using assms(1) by (simp add: buffer_fits_def algebra_simps)
  then have lt: "(unat y + k) * unat vw + unat vw < 2 ^ 32" using assms(1) by (simp add: buffer_fits_def)
  then have m: "unat ((y + of_nat k) * vw) = (unat y + k) * unat vw" using k by (simp add: unat_word_ariths)
  have "unat ((y + of_nat k) * vw + z) = (unat y + k) * unat vw + unat z" if "unat z \<le> unat vw" for z
    using lt that m by (intro trans [OF unat_add_small]) simp_all
  then show "unat ((y + of_nat k) * vw + x) = (unat y + k) * unat vw + unat x"
    "unat ((y + of_nat k) * vw + xe) = (unat y + k) * unat vw + unat xe" using assms(2,3) by simp_all
qed

text \<open>Writing a part of a row changes the pixels of that part.\<close>

lemma write_cells:
  assumes n: "length ys = n" and "x + n \<le> w" "y * w + w \<le> length vb"
  shows "\<exists>b. write_slice vb (y * w + x) ys = Some b \<and> length b = length vb \<and>
     (\<forall>i < w. \<forall>j. j * w + i < length vb \<longrightarrow>
        b ! (j * w + i) = (if j = y \<and> x \<le> i \<and> i < x + n then ys ! (i - x) else vb ! (j * w + i)))"
proof -
  let ?b = "take (y * w + x) vb @ ys @ drop (y * w + x + length ys) vb"
  have room: "y * w + x + length ys \<le> length vb" using assms by simp
  have xw: "x + length ys \<le> w" using assms(1,2) by simp
  have "?b ! (j * w + i) = (if j = y \<and> x \<le> i \<and> i < x + length ys then ys ! (i - x) else vb ! (j * w + i))"
    if ij: "i < w" "j * w + i < length vb" for i j
  proof -
    have "y * w + x \<le> j * w + i \<and> j * w + i < y * w + x + length ys \<longleftrightarrow> j = y \<and> x \<le> i \<and> i < x + length ys"
    proof
      assume r: "y * w + x \<le> j * w + i \<and> j * w + i < y * w + x + length ys"
      then obtain t where t: "j * w + i = y * w + (x + t)" "t < length ys" by (metis add.assoc add_less_cancel_left le_Suc_ex)
      moreover have "x + t < w" using t(2) xw by linarith
      ultimately have "j = y" "i = x + t" using cell_eq [OF ij(1)] by blast+
      then show "j = y \<and> x \<le> i \<and> i < x + length ys" using t(2) by simp
    qed auto
    moreover have "j * w + i - (y * w + x) = i - x" if "j = y" using that by simp
    ultimately show ?thesis using nth_splice [OF room ij(2)] by auto
  qed
  then show ?thesis using room n by (intro exI [of _ ?b]) (simp add: write_slice_def)
qed

lemma snapshot_rows:
  fixes h :: u32
  assumes "buffer_fits (f_vwidth s) (f_vheight s) (f_vback s)" "unat x \<le> unat xe" "unat xe \<le> unat (f_vwidth s)"
    "unat xe \<le> unat x + unat w" "m \<le> unat h" "unat y + m \<le> unat (f_vheight s)" "length out = unat w * unat h"
  shows "\<exists>out'. for_each (\<lambda>k. snapshot_row s x y w xe (of_nat k)) [0..<m] out = Some out' \<and> length out' = length out \<and>
     (\<forall>k < m. \<forall>t < unat xe - unat x. out' ! (k * unat w + t) = fb_px s (unat x + t) (unat y + k))"
  using assms(5,6)
proof (induction m)
  case (Suc m)
  let ?vw = "unat (f_vwidth s)" and ?n = "unat xe - unat x"
  from Suc obtain o1 where 1: "for_each (\<lambda>k. snapshot_row s x y w xe (of_nat k)) [0..<m] out = Some o1" "length o1 = length out"
    "\<And>k t. k < m \<Longrightarrow> t < ?n \<Longrightarrow> o1 ! (k * unat w + t) = fb_px s (unat x + t) (unat y + k)" by auto
  have "unat y + m < unat (f_vheight s)" using Suc.prems by simp
  note rr = region_row [OF assms(1,2,3) this]
  let ?a = "(unat y + m) * ?vw + unat x"
  let ?src = "take ?n (drop ?a (f_vback s))"
  have src: "slice_range (f_vback s) (unat ((y + of_nat m) * f_vwidth s + x)) (unat ((y + of_nat m) * f_vwidth s + xe)) = Some ?src"
    unfolding rr(1,2) using rr(3) assms(2,3) by (simp add: slice_range_def)
  have len: "length ?src = ?n" using rr(3) assms(2,3) by simp
  have "unat h < 2 ^ 32" using unsigned_less [of h, where ?'a = nat] by simp
  then have um: "unat (of_nat m :: u32) = m" using Suc.prems by (simp add: unsigned_of_nat take_bit_nat_eq_self)
  have "unat (xe - x) = ?n" using assms(2) by (intro unat_sub_le) (simp add: word_le_nat_alt)
  have "Suc m * unat w \<le> unat h * unat w" using Suc.prems by (intro mult_le_mono1) simp
  then have "m * unat w + unat w \<le> length o1" using 1(2) assms(7) by (simp add: algebra_simps)
  moreover have "0 + ?n \<le> unat w" using assms(4) by simp
  ultimately obtain o2 where 2: "write_slice o1 (m * unat w) ?src = Some o2" "length o2 = length o1"
    "\<And>i j. i < unat w \<Longrightarrow> j * unat w + i < length o1 \<Longrightarrow> o2 ! (j * unat w + i) = (if j = m \<and> i < ?n then ?src ! i else o1 ! (j * unat w + i))"
    using write_cells [OF len, of 0 "unat w" m o1] unfolding add_0 add_0_right diff_zero by auto
  have "snapshot_row s x y w xe (of_nat m) o1 = Some o2"
    using src 2(1) len um \<open>unat (xe - x) = ?n\<close> by (simp add: snapshot_row_def copy_slice_def Let_def)
  moreover have "o2 ! (k * unat w + t) = fb_px s (unat x + t) (unat y + k)" if "k < Suc m" "t < ?n" for k t
  proof -
    have tw: "t < unat w" using that(2) assms(4) by linarith
    have "k * unat w \<le> m * unat w" using that(1) by (intro mult_le_mono1) simp
    then have "k * unat w + t < length o1" using tw \<open>m * unat w + unat w \<le> length o1\<close> by linarith
    from 2(3) [OF tw this] show ?thesis
    proof (cases "k = m")
      case True
      then have "?src ! t = fb_px s (unat x + t) (unat y + m)" using that(2) rr(3) assms(2,3) by (simp add: fb_px_def add.assoc)
      then show ?thesis using \<open>o2 ! (k * unat w + t) = _\<close> True that by simp
    next
      case False
      then show ?thesis using \<open>o2 ! (k * unat w + t) = _\<close> 1(3) [of k t] that by simp
    qed
  qed
  ultimately show ?case using 1 2(2) by (simp add: for_each_append)
qed simp

lemma restore_rows:
  fixes h :: u32
  assumes "buffer_fits (f_vwidth s) (f_vheight s) (f_vback s)" "unat x \<le> unat xe" "unat xe \<le> unat (f_vwidth s)"
    "unat xe \<le> unat x + unat w" "m \<le> unat h" "unat y + m \<le> unat (f_vheight s)" "unat w * unat h \<le> length pixels"
  shows "\<exists>b. for_each (\<lambda>k. restore_row x y w xe pixels (of_nat k)) [0..<m] s = Some (s\<lparr>f_vback := b\<rparr>) \<and> length b = length (f_vback s) \<and>
     (\<forall>i < unat (f_vwidth s). \<forall>j < unat (f_vheight s). b ! (j * unat (f_vwidth s) + i) =
        (if unat y \<le> j \<and> j < unat y + m \<and> unat x \<le> i \<and> i < unat xe then pixels ! ((j - unat y) * unat w + (i - unat x)) else fb_px s i j))"
  using assms(5,6)
proof (induction m)
  case 0
  show ?case by (intro exI [of _ "f_vback s"]) (auto simp: fb_px_def)
next
  case (Suc m)
  let ?vw = "unat (f_vwidth s)" and ?vh = "unat (f_vheight s)" and ?n = "unat xe - unat x"
  from Suc obtain b where 1: "for_each (\<lambda>k. restore_row x y w xe pixels (of_nat k)) [0..<m] s = Some (s\<lparr>f_vback := b\<rparr>)"
    "length b = length (f_vback s)"
    "\<And>i j. i < ?vw \<Longrightarrow> j < ?vh \<Longrightarrow> b ! (j * ?vw + i) =
        (if unat y \<le> j \<and> j < unat y + m \<and> unat x \<le> i \<and> i < unat xe then pixels ! ((j - unat y) * unat w + (i - unat x)) else fb_px s i j)"
    by auto
  have "unat y + m < ?vh" using Suc.prems by simp
  note rr = region_row [OF assms(1,2,3) this]
  let ?src = "take ?n (drop (m * unat w) pixels)"
  have "Suc m * unat w \<le> unat h * unat w" using Suc.prems by (intro mult_le_mono1) simp
  then have room: "m * unat w + unat w \<le> length pixels" using assms(7) by (simp add: algebra_simps)
  have len: "length ?src = ?n" using room assms(4) by simp
  have "unat h < 2 ^ 32" using unsigned_less [of h, where ?'a = nat] by simp
  then have um: "unat (of_nat m :: u32) = m" using Suc.prems by (simp add: unsigned_of_nat take_bit_nat_eq_self)
  have n: "unat (xe - x) = ?n" using assms(2) by (intro unat_sub_le) (simp add: word_le_nat_alt)
  have "(unat y + m) * ?vw + ?vw \<le> length b" using rr(3) 1(2) by simp
  moreover have "unat x + ?n \<le> ?vw" using assms(2,3) by simp
  ultimately obtain b' where 2:
    "write_slice b ((unat y + m) * ?vw + unat x) ?src = Some b'" "length b' = length b"
    "\<And>i j. i < ?vw \<Longrightarrow> j * ?vw + i < length b \<Longrightarrow>
       b' ! (j * ?vw + i) = (if j = unat y + m \<and> unat x \<le> i \<and> i < unat x + ?n then ?src ! (i - unat x) else b ! (j * ?vw + i))"
    using write_cells [OF len, of "unat x" ?vw "unat y + m" b] by blast
  have "slice pixels (m * unat w) ?n = Some ?src" using room assms(4) by (simp add: slice_def)
  then have run: "restore_row x y w xe pixels (of_nat m) (s\<lparr>f_vback := b\<rparr>) = Some (s\<lparr>f_vback := b'\<rparr>)"
    using 2(1) len um n assms(2) rr(1,2) by (simp add: restore_row_def copy_slice_def Let_def)
  have at: "b' ! (j * ?vw + i) = (if unat y \<le> j \<and> j < unat y + Suc m \<and> unat x \<le> i \<and> i < unat xe
      then pixels ! ((j - unat y) * unat w + (i - unat x)) else fb_px s i j)" if ij: "i < ?vw" "j < ?vh" for i j
  proof -
    have lt: "j * ?vw + i < length b" using cell_less [OF ij] assms(1) 1(2) by (simp add: buffer_fits_def)
    show ?thesis
    proof (cases "j = unat y + m")
      case True
      have "?src ! (i - unat x) = pixels ! (m * unat w + (i - unat x))" if "unat x \<le> i" "i < unat xe"
        using that room assms(4) by simp
      then show ?thesis using 2(3) [OF ij(1) lt] 1(3) [OF ij] True assms(2) by auto
    next
      case False
      then have "j < unat y + Suc m \<longleftrightarrow> j < unat y + m" by auto
      then show ?thesis using 2(3) [OF ij(1) lt] 1(3) [OF ij] False by auto
    qed
  qed
  show ?case using 1(1,2) 2(2) run at by (intro exI [of _ b']) (simp add: for_each_append)
qed

text \<open>C37: What \<open>snapshot_region\<close> saved, \<open>restore_region\<close> puts back: whatever was drawn inside the rectangle since, the
  display is the one it was, for a rectangle anywhere on or partly off the screen.\<close>

theorem snapshot_restore:
  assumes "d_state d = Some s" "fb_ok s" "unat x + unat w < 2 ^ 32" "unat y + unat h < 2 ^ 32" "unat w * unat h < 2 ^ 32"
    and "fb_ok s'" "s'\<lparr>f_vback := []\<rparr> = s\<lparr>f_vback := []\<rparr>"
    and "\<forall>i < unat (f_vwidth s). \<forall>j < unat (f_vheight s). on_rect x y (x + w) (y + h) i j \<or> fb_px s' i j = fb_px s i j"
  shows "\<exists>pixels. snapshot_region x y w h d = Some pixels \<and> restore_region x y w h pixels (d\<lparr>d_state := Some s'\<rparr>) = Some d"
proof -
  let ?vw = "unat (f_vwidth s)" and ?vh = "unat (f_vheight s)"
  have s': "f_vwidth s' = f_vwidth s" "f_vheight s' = f_vheight s" using arg_cong [OF assms(7), of f_vwidth] arg_cong [OF assms(7), of f_vheight] by simp_all
  have f: "buffer_fits (f_vwidth s) (f_vheight s) (f_vback s)" "buffer_fits (f_vwidth s') (f_vheight s') (f_vback s')"
    using assms(2,6) by (simp_all add: fb_ok_def)
  have wh: "unat (w * h) = unat w * unat h" using assms(5) by (simp add: unat_word_ariths)
  show ?thesis
  proof (cases "w = 0 \<or> h = 0")
    case True
    then have "x + w = x \<or> y + h = y" by auto
    then have "\<not> on_rect x y (x + w) (y + h) i j" for i j by (auto simp: on_rect_def)
    then have "s' = s" using assms(8) fb.buffer_ext [OF fb_buffer(1) [OF assms(2)] fb_buffer(1) [OF assms(6)] assms(7)]
      unfolding fb_buffer(2-4) by blast
    then show ?thesis using True assms(1) by (auto simp: snapshot_region_def restore_region_def with_surface_def Let_def)
  next
    case False
    define x1 y1 xe where "x1 = min x (f_vwidth s)" and "y1 = min y (f_vheight s)" and "xe = min (x1 + w) (f_vwidth s)"
    let ?m = "min (unat h) (?vh - unat y1)"
    have x1: "unat x1 = min (unat x) ?vw" and y1: "unat y1 = min (unat y) ?vh" by (simp_all add: x1_def y1_def unat_min)
    have "unat (x1 + w) = unat x1 + unat w" using assms(3) x1 by (intro unat_add_small) simp
    then have xe: "unat xe = min (unat x1 + unat w) ?vw" by (simp add: xe_def unat_min)
    have b: "unat x1 \<le> unat xe" "unat xe \<le> ?vw" "unat xe \<le> unat x1 + unat w" "?m \<le> unat h" "unat y1 + ?m \<le> ?vh" "unat y1 + unat h < 2 ^ 32"
      using x1 y1 xe assms(4) by auto
    obtain p where p: "for_each (\<lambda>k. snapshot_row s x1 y1 w xe (of_nat k)) [0..<?m] (replicate (unat (w * h)) 0) = Some p"
      "length p = unat w * unat h" "\<And>k t. k < ?m \<Longrightarrow> t < unat xe - unat x1 \<Longrightarrow> p ! (k * unat w + t) = fb_px s (unat x1 + t) (unat y1 + k)"
      using snapshot_rows [OF f(1) b(1-5), of "replicate (unat (w * h)) 0"] wh by auto
    have snap: "snapshot_region x y w h d = Some p"
      using False p(1) assms(1)
      by (simp add: region_rows [OF b(6), of "\<lambda>yy _. y1 + yy \<ge> f_vheight s" "f_vheight s"]
           snapshot_region_def Let_def x1_def [symmetric] y1_def [symmetric] xe_def [symmetric])
    obtain vb where v: "for_each (\<lambda>k. restore_row x1 y1 w xe p (of_nat k)) [0..<?m] s' = Some (s'\<lparr>f_vback := vb\<rparr>)"
      "length vb = length (f_vback s')" "\<And>i j. i < ?vw \<Longrightarrow> j < ?vh \<Longrightarrow> vb ! (j * ?vw + i) =
        (if unat y1 \<le> j \<and> j < unat y1 + ?m \<and> unat x1 \<le> i \<and> i < unat xe then p ! ((j - unat y1) * unat w + (i - unat x1)) else fb_px s' i j)"
      using restore_rows [OF f(2), of x1 xe w ?m h y1 p] b p(2) s' by auto
    have "restore_region x y w h p (d\<lparr>d_state := Some s'\<rparr>) = Some (d\<lparr>d_state := Some (s'\<lparr>f_vback := vb\<rparr>)\<rparr>)"
      using False v(1) s'
      by (simp add: region_rows [OF b(6), of "\<lambda>yy _. y1 + yy \<ge> f_vheight s" "f_vheight s"]
           restore_region_def with_surface_def Let_def x1_def [symmetric] y1_def [symmetric] xe_def [symmetric])
    moreover have "s'\<lparr>f_vback := vb\<rparr> = s"
    proof (rule fb.buffer_ext [OF fb_buffer(1) [OF assms(2)]])
      show "buffer_ok fb_surface f_vback (s'\<lparr>f_vback := vb\<rparr>)" using f(2) v(2) by (simp add: buffer_ok_def fb_buffer(3,4) buffer_fits_def)
      show "s'\<lparr>f_vback := vb\<rparr>\<lparr>f_vback := []\<rparr> = s\<lparr>f_vback := []\<rparr>" using assms(7) by simp
      fix i j assume "i < unat (sf_width fb_surface s)" "j < unat (sf_height fb_surface s)"
      then have ij: "i < ?vw" "j < ?vh" by (simp_all add: fb_buffer(3,4))
      have e: "unat (x + w) = unat x + unat w" "unat (y + h) = unat y + unat h" using assms(3,4) by (simp_all add: unat_add_small)
      have "on_rect x y (x + w) (y + h) i j \<longleftrightarrow> unat y1 \<le> j \<and> j < unat y1 + ?m \<and> unat x1 \<le> i \<and> i < unat xe"
        using ij x1 y1 xe by (auto simp: on_rect_def e)
      moreover have "p ! ((j - unat y1) * unat w + (i - unat x1)) = fb_px s i j"
        if "unat y1 \<le> j \<and> j < unat y1 + ?m \<and> unat x1 \<le> i \<and> i < unat xe"
      proof -
        have "j - unat y1 < ?m" "i - unat x1 < unat xe - unat x1" using that by linarith+
        from p(3) [OF this] show ?thesis using that by simp
      qed
      ultimately have "vb ! (j * ?vw + i) = fb_px s i j" using v(3) [OF ij] assms(8) ij by (metis (no_types, lifting))
      then show "buffer_px fb_surface f_vback (s'\<lparr>f_vback := vb\<rparr>) i j = buffer_px fb_surface f_vback s i j"
        using s' unfolding fb_buffer(2) by (simp add: fb_px_def)
    qed
    ultimately show ?thesis using snap assms(1) by (intro exI [of _ p]) simp
  qed
qed

theorem snapshot_restore_witness:
  "\<exists>pixels. snapshot_region 2 1 4 3 \<lparr>d_state = Some demo_fb, d_graphics = True, d_fb_addr = 0, d_fb_pitch = 0, d_fb_width = 4, d_fb_height = 3, d_video = (\<lambda>_. 0)\<rparr> = Some pixels \<and>
     restore_region 2 1 4 3 pixels
       \<lparr>d_state = Some (demo_fb\<lparr>f_vback := (f_vback demo_fb)[7 := 99]\<rparr>), d_graphics = True, d_fb_addr = 0, d_fb_pitch = 0, d_fb_width = 4, d_fb_height = 3, d_video = (\<lambda>_. 0)\<rparr>
     = Some \<lparr>d_state = Some demo_fb, d_graphics = True, d_fb_addr = 0, d_fb_pitch = 0, d_fb_width = 4, d_fb_height = 3, d_video = (\<lambda>_. 0)\<rparr>"
proof -
  let ?d = "\<lparr>d_state = Some demo_fb, d_graphics = True, d_fb_addr = 0, d_fb_pitch = 0, d_fb_width = 4, d_fb_height = 3, d_video = (\<lambda>_. 0)\<rparr>"
  let ?s = "demo_fb\<lparr>f_vback := (f_vback demo_fb)[7 := 99]\<rparr>"
  have ok: "fb_ok ?s" using demo_fb_ok by (simp add: fb_ok_def buffer_fits_def)
  have "on_rect 2 1 (2 + 4) (1 + 3) i j \<or> fb_px ?s i j = fb_px demo_fb i j" if "i < unat (f_vwidth demo_fb)" "j < unat (f_vheight demo_fb)" for i j
  proof (cases "j * 4 + i = 7")
    case True
    then have "i = 3" "j = 1" using cell_eq [of i 4 3 j 1] that(1) by (simp_all add: demo_fb_def)
    then show ?thesis by (simp add: on_rect_def)
  next
    case False
    then show ?thesis by (simp add: fb_px_def demo_fb_def)
  qed
  then have "\<exists>pixels. snapshot_region 2 1 4 3 ?d = Some pixels \<and> restore_region 2 1 4 3 pixels (?d\<lparr>d_state := Some ?s\<rparr>) = Some ?d"
    by (intro snapshot_restore [OF _ demo_fb_ok _ _ _ ok]) simp_all
  then show ?thesis by simp
qed

section \<open>What the display shows\<close>

lemma holds_put: "holds_at (put_bytes a bs m) a bs"
  by (auto simp: holds_at_def read_bytes_def put_bytes_def intro!: nth_equalityI)

lemma holds_other: "holds_at m a bs \<Longrightarrow> a + length bs \<le> b \<or> b + length cs \<le> a \<Longrightarrow> holds_at (put_bytes b cs m) a bs"
proof -
  assume h: "holds_at m a bs" and d: "a + length bs \<le> b \<or> b + length cs \<le> a"
  have "map (put_bytes b cs m) [a..<a + length bs] = map m [a..<a + length bs]"
    using d by (intro map_cong [OF refl]) (auto simp: put_bytes_def)
  then show ?thesis using h unfolding holds_at_def read_bytes_def by (rule trans)
qed

lemma length_pixel_bytes [simp]: "length (pixel_bytes ps) = 4 * length ps"
  by (induction ps) (simp_all add: pixel_bytes_def)

lemma pixel_at: "holds_at m a (pixel_bytes ps) \<Longrightarrow> i < length ps \<Longrightarrow> read_u32 m a (4 * i) = ps ! i"
proof (induction ps arbitrary: a i)
  case (Cons p ps)
  have h: "holds_at m a (to_le 4 (unat p))" "holds_at m (a + 4) (pixel_bytes ps)"
    using Cons.prems(1) by (simp_all add: pixel_bytes_def holds_at_append)
  show ?case
  proof (cases i)
    case 0
    then show ?thesis using read_u32_holds [of m a 0, OF _ unat_u32_bound] h(1) by (simp add: word_unat_eq_iff)
  next
    case (Suc k)
    then have "read_u32 m (a + 4) (4 * k) = ps ! k" using Cons.IH [OF h(2)] Cons.prems(2) by simp
    then show ?thesis using Suc by (simp add: read_u32_def add.assoc)
  qed
qed simp

lemma video_rows:
  assumes "length (f_back s) = unat (f_width s) * unat (f_height s)" "4 * unat (f_width s) \<le> unat (f_pitch s)" "m \<le> unat (f_height s)"
  shows "\<exists>v'. for_each (video_row s 0 (unat (f_width s))) [0..<m] v = Some v' \<and>
    (\<forall>j < m. holds_at v' (unat (f_addr s) + j * unat (f_pitch s)) (pixel_bytes (take (unat (f_width s)) (drop (j * unat (f_width s)) (f_back s))))) \<and>
    (\<forall>a. (a < unat (f_addr s) \<or> unat (f_addr s) + m * unat (f_pitch s) \<le> a) \<longrightarrow> v' a = v a)"
  using assms(3)
proof (induction m)
  case (Suc m)
  let ?w = "unat (f_width s)" and ?p = "unat (f_pitch s)" and ?a = "unat (f_addr s)"
  from Suc obtain v1 where 1: "for_each (video_row s 0 ?w) [0..<m] v = Some v1"
    "\<And>j. j < m \<Longrightarrow> holds_at v1 (?a + j * ?p) (pixel_bytes (take ?w (drop (j * ?w) (f_back s))))"
    "\<And>a. a < ?a \<or> ?a + m * ?p \<le> a \<Longrightarrow> v1 a = v a" by auto
  let ?row = "\<lambda>j. take ?w (drop (j * ?w) (f_back s))"
  let ?v = "put_bytes (?a + m * ?p) (pixel_bytes (?row m)) v1"
  have fit: "j * ?w + ?w \<le> length (f_back s)" if "j < Suc m" for j
  proof -
    have "Suc j * ?w \<le> unat (f_height s) * ?w" using that Suc.prems by (intro mult_le_mono1) simp
    then show ?thesis using assms(1) by (simp add: algebra_simps)
  qed
  have len: "length (?row j) = ?w" if "j < Suc m" for j using fit [OF that] by simp
  have "video_row s 0 ?w m v1 = Some ?v" using fit [of m] by (simp add: video_row_def slice_def)
  moreover have "holds_at ?v (?a + j * ?p) (pixel_bytes (?row j))" if "j < Suc m" for j
  proof (cases "j = m")
    case True
    then show ?thesis using holds_put by simp
  next
    case False
    then have "Suc j * ?p \<le> m * ?p" using that by (intro mult_le_mono1) simp
    then have "?a + j * ?p + length (pixel_bytes (?row j)) \<le> ?a + m * ?p" unfolding length_pixel_bytes len [OF that] using assms(2) by simp
    then show ?thesis using 1(2) [of j] that False by (intro holds_other) simp_all
  qed
  moreover have "?v a = v a" if "a < ?a \<or> ?a + Suc m * ?p \<le> a" for a
  proof -
    have "a < ?a + m * ?p \<or> ?a + m * ?p + 4 * ?w \<le> a" using that assms(2) by auto
    then have "?v a = v1 a" unfolding put_bytes_def length_pixel_bytes len [of m, simplified] by auto
    also have "\<dots> = v a" using that by (intro 1(3)) auto
    finally show ?thesis .
  qed
  ultimately show ?case using 1(1) by (simp add: for_each_append)
qed simp

text \<open>The image the display is to show: the back buffer itself at the native resolution, its bilinear scaling otherwise.\<close>

definition shown :: "fb_state \<Rightarrow> nat \<Rightarrow> nat \<Rightarrow> u32" where
  "shown s i j =
     (if f_vwidth s = f_width s \<and> f_vheight s = f_height s then fb_px s i j
      else bilinear (fb_px s) (unat (f_vwidth s)) (unat (f_vheight s)) (unat (f_width s)) (unat (f_height s)) i j)"

lemma present_scales:
  assumes "fb_ok s" "sizes_ok (f_vwidth s) (f_vheight s) (f_width s) (f_height s)" "2 * unat (f_width s) \<le> length scratch"
  shows "\<exists>back scratch'. scale_into_scratch (f_vback s) (f_vwidth s) (f_vheight s) (f_back s) (f_width s) (f_height s) scratch = Some (back, scratch') \<and>
    length back = length (f_back s) \<and>
    (\<forall>j < unat (f_height s). \<forall>i < unat (f_width s). back ! (j * unat (f_width s) + i) =
       bilinear (fb_px s) (unat (f_vwidth s)) (unat (f_vheight s)) (unat (f_width s)) (unat (f_height s)) i j)"
proof -
  let ?n = "unat (f_width s)"
  have v: "unat (f_vwidth s) * unat (f_vheight s) \<le> length (f_vback s)" "unat (f_vwidth s) * unat (f_vheight s) < 2 ^ 32"
    "unat (f_height s) * ?n \<le> length (f_back s)"
    using assms(1) by (simp_all add: fb_ok_def buffer_fits_def mult.commute)
  have P: "(\<lambda>x y. f_vback s ! (y * unat (f_vwidth s) + x)) = fb_px s" by (simp add: fb_px_def fun_eq_iff)
  have "?n \<le> length (take ?n scratch)" "?n \<le> length (drop ?n scratch)" using assms(3) by simp_all
  from scale_pixels_spec [OF reads_pixels [OF v(1,2)] assms(2) v(3) this] show ?thesis
    unfolding P using assms(3) by (auto simp: scale_into_scratch_def)
qed

text \<open>C33: \<open>present\<close> makes the display show the desktop: every pixel of the mode reads back from the display's memory as
  the pixel of the back buffer, or of its bilinear scaling when the virtual resolution differs, and no byte
  outside the display's memory changes.\<close>

theorem present_shows:
  assumes "d_state d = Some s" "fb_ok s" "4 * unat (f_width s) \<le> unat (f_pitch s)" "sizes_ok (f_vwidth s) (f_vheight s) (f_width s) (f_height s)"
  shows "\<exists>d'. present d = Some d' \<and>
    (\<forall>j < unat (f_height s). \<forall>i < unat (f_width s). read_u32 (d_video d') (unat (f_addr s) + j * unat (f_pitch s)) (4 * i) = shown s i j) \<and>
    (\<forall>a. (a < unat (f_addr s) \<or> unat (f_addr s) + unat (f_height s) * unat (f_pitch s) \<le> a) \<longrightarrow> d_video d' a = d_video d a)"
proof -
  let ?w = "unat (f_width s)" and ?h = "unat (f_height s)"
  let ?scaled = "f_vwidth s \<noteq> f_width s \<or> f_vheight s \<noteq> f_height s"
  let ?scratch = "if length (f_scratch s) < ?w * 2 then replicate (?w * 2) 0 else f_scratch s"
  have "\<exists>s1. (if ?scaled then do {
             (back, scratch') \<leftarrow> scale_into_scratch (f_vback s) (f_vwidth s) (f_vheight s) (f_back s) (f_width s) (f_height s) ?scratch;
             Some (s\<lparr>f_back := back, f_scratch := scratch'\<rparr>) }
           else if length (f_back s) = length (f_vback s) then Some (s\<lparr>f_back := f_vback s\<rparr>) else None) = Some s1 \<and>
     f_addr s1 = f_addr s \<and> f_pitch s1 = f_pitch s \<and> f_width s1 = f_width s \<and> f_height s1 = f_height s \<and>
     length (f_back s1) = ?w * ?h \<and> (\<forall>j < ?h. \<forall>i < ?w. f_back s1 ! (j * ?w + i) = shown s i j)"
  proof (cases ?scaled)
    case True
    have "2 * ?w \<le> length ?scratch" by simp
    from present_scales [OF assms(2,4) this] True assms(2) show ?thesis by (fastforce simp: shown_def fb_ok_def buffer_fits_def)
  next
    case False
    then show ?thesis using assms(2) by (auto simp: shown_def fb_ok_def buffer_fits_def fb_px_def)
  qed
  then obtain s1 where 1: "(if ?scaled then do {
             (back, scratch') \<leftarrow> scale_into_scratch (f_vback s) (f_vwidth s) (f_vheight s) (f_back s) (f_width s) (f_height s) ?scratch;
             Some (s\<lparr>f_back := back, f_scratch := scratch'\<rparr>) }
           else if length (f_back s) = length (f_vback s) then Some (s\<lparr>f_back := f_vback s\<rparr>) else None) = Some s1"
    and k: "f_addr s1 = f_addr s" "f_pitch s1 = f_pitch s" "f_width s1 = f_width s" "f_height s1 = f_height s" "length (f_back s1) = ?w * ?h"
    and at: "\<And>i j. j < ?h \<Longrightarrow> i < ?w \<Longrightarrow> f_back s1 ! (j * ?w + i) = shown s i j" by blast
  obtain v where v: "for_each (video_row s1 0 ?w) [0..<?h] (d_video d) = Some v"
    "\<And>j. j < ?h \<Longrightarrow> holds_at v (unat (f_addr s) + j * unat (f_pitch s)) (pixel_bytes (take ?w (drop (j * ?w) (f_back s1))))"
    "\<And>a. a < unat (f_addr s) \<or> unat (f_addr s) + ?h * unat (f_pitch s) \<le> a \<Longrightarrow> v a = d_video d a"
    using video_rows [of s1 ?h "d_video d"] k assms(3) by auto
  have "read_u32 v (unat (f_addr s) + j * unat (f_pitch s)) (4 * i) = shown s i j" if "j < ?h" "i < ?w" for i j
  proof -
    have "Suc j * ?w \<le> ?h * ?w" using that(1) by (intro mult_le_mono1) simp
    then have "j * ?w + ?w \<le> length (f_back s1)" using k(5) by (simp add: algebra_simps)
    then show ?thesis using pixel_at [OF v(2) [OF that(1)], of i] that at [OF that] by simp
  qed
  moreover have "present d = Some (d\<lparr>d_state := Some s1, d_video := v\<rparr>)"
    unfolding present_def assms(1) option.case Let_def 1 using v(1) k by simp
  ultimately show ?thesis using v(3) by (intro exI [of _ "d\<lparr>d_state := Some s1, d_video := v\<rparr>"]) simp
qed

theorem present_shows_witness:
  "\<exists>d'. present \<lparr>d_state = Some demo_fb, d_graphics = True, d_fb_addr = 0xFD000000, d_fb_pitch = 16, d_fb_width = 4, d_fb_height = 3, d_video = (\<lambda>_. 0)\<rparr> = Some d' \<and>
     read_u32 (d_video d') (0xFD000000 + 1 * 16) (4 * 2) = 6"
proof -
  let ?d = "\<lparr>d_state = Some demo_fb, d_graphics = True, d_fb_addr = 0xFD000000, d_fb_pitch = 16, d_fb_width = 4, d_fb_height = 3, d_video = (\<lambda>_. 0)\<rparr>"
  have "\<exists>d'. present ?d = Some d' \<and>
    (\<forall>j < unat (f_height demo_fb). \<forall>i < unat (f_width demo_fb).
       read_u32 (d_video d') (unat (f_addr demo_fb) + j * unat (f_pitch demo_fb)) (4 * i) = shown demo_fb i j) \<and>
    (\<forall>a. (a < unat (f_addr demo_fb) \<or> unat (f_addr demo_fb) + unat (f_height demo_fb) * unat (f_pitch demo_fb) \<le> a) \<longrightarrow> d_video d' a = d_video ?d a)"
    by (rule present_shows [OF _ demo_fb_ok]) (simp_all add: demo_fb_def sizes_ok_def)
  then obtain d' where d: "present ?d = Some d'" "\<forall>j < 3. \<forall>i < 4. read_u32 (d_video d') (0xFD000000 + j * 16) (4 * i) = shown demo_fb i j"
    by (auto simp: demo_fb_def)
  have "read_u32 (d_video d') (0xFD000000 + 1 * 16) (4 * 2) = shown demo_fb 2 1"
    using d(2) [rule_format, of 1 2] by (simp del: One_nat_def)
  then show ?thesis using d(1) by (simp add: shown_def fb_px_def demo_fb_def)
qed

end
