(* ===== verification/Console.thy ===== *)
theory Console
  imports Gfx_Buffer
begin

text \<open>
  \<open>src/src/console.rs\<close>: a console that draws text cells into its own pixel buffer. The abstract specification
  is a grid of characters with a cursor; the pixel buffer is at all times the drawing of that grid. The font scale
  is an argument of the operations.
\<close>

section \<open>The console\<close>

record console =
  c_cols :: usize
  c_rows :: usize
  c_row :: usize
  c_col :: usize
  c_fg :: u32
  c_bg :: u32
  c_buffer :: "u32 list"

definition console_new :: "u8 \<Rightarrow> usize \<Rightarrow> usize \<Rightarrow> u32 \<Rightarrow> u32 \<Rightarrow> console" where
  "console_new fs cols rows fg bg =
     \<lparr>c_cols = cols, c_rows = rows, c_row = 0, c_col = 0, c_fg = fg, c_bg = bg,
      c_buffer = replicate ((cols * glyph_w fs) * (rows * glyph_h fs)) bg\<rparr>"

definition width_px :: "u8 \<Rightarrow> console \<Rightarrow> u32" where
  "width_px fs c = of_nat (c_cols c * glyph_w fs)"

definition height_px :: "u8 \<Rightarrow> console \<Rightarrow> u32" where
  "height_px fs c = of_nat (c_rows c * glyph_h fs)"

definition console_clear :: "console \<Rightarrow> console" where
  "console_clear c = c\<lparr>c_buffer := replicate (length (c_buffer c)) (c_bg c), c_row := 0, c_col := 0\<rparr>"

definition console_resize :: "u8 \<Rightarrow> usize \<Rightarrow> usize \<Rightarrow> console \<Rightarrow> console" where
  "console_resize fs cols rows c =
     c\<lparr>c_cols := cols, c_rows := rows, c_row := 0, c_col := 0,
       c_buffer := replicate ((cols * glyph_w fs) * (rows * glyph_h fs)) (c_bg c)\<rparr>"

definition console_put :: "u8 \<Rightarrow> u32 \<Rightarrow> u32 \<Rightarrow> u32 \<Rightarrow> console \<Rightarrow> console exec" where
  "console_put fs x y color c =
     (if x < width_px fs c \<and> y < height_px fs c
      then do { b \<leftarrow> store (c_buffer c) (unat y * unat (width_px fs c) + unat x) color; Some (c\<lparr>c_buffer := b\<rparr>) }
      else Some c)"

definition console_blit_span :: "u8 \<Rightarrow> u32 \<Rightarrow> u32 \<Rightarrow> u32 list \<Rightarrow> usize \<Rightarrow> u32 \<Rightarrow> console \<Rightarrow> console exec" where
  "console_blit_span fs x y src offset len c =
     (let w = unat (width_px fs c)
      in if unat y \<ge> length (c_buffer c) div max w 1 \<or> unat x \<ge> w \<or> len = 0 then Some c
         else let n = min (unat len) (w - unat x); row_start = unat y * w + unat x
              in do { ys \<leftarrow> slice src offset n; b \<leftarrow> write_slice (c_buffer c) row_start ys; Some (c\<lparr>c_buffer := b\<rparr>) })"

definition console_fill_span :: "u8 \<Rightarrow> u32 \<Rightarrow> u32 \<Rightarrow> u32 \<Rightarrow> u32 \<Rightarrow> console \<Rightarrow> console exec" where
  "console_fill_span fs x y len color c =
     (let w = unat (width_px fs c)
      in if unat y \<ge> length (c_buffer c) div max w 1 \<or> unat x \<ge> w \<or> len = 0 then Some c
         else let n = min (unat len) (w - unat x); row_start = unat y * w + unat x
              in do { b \<leftarrow> write_slice (c_buffer c) row_start (replicate n color); Some (c\<lparr>c_buffer := b\<rparr>) })"

definition console_surface :: "u8 \<Rightarrow> console surface" where
  "console_surface fs = \<lparr>
     sf_width = width_px fs,
     sf_height = height_px fs,
     sf_put = console_put fs,
     sf_get = default_get,
     sf_blit_span = console_blit_span fs,
     sf_fill_span = console_fill_span fs,
     sf_blend_span = default_blend_span (console_put fs) default_get (console_fill_span fs)\<rparr>"

definition draw_cell :: "u8 \<Rightarrow> usize \<Rightarrow> usize \<Rightarrow> u8 \<Rightarrow> console \<Rightarrow> console exec" where
  "draw_cell fs col row byte c =
     draw_char (console_surface fs) fs (of_nat (col * glyph_w fs)) (of_nat (row * glyph_h fs)) byte (c_fg c) (Some (c_bg c)) c"

text \<open>\<open>scroll\<close>: \<open>copy_within\<close> of all but the first line of cells to the front, then the last line is cleared. With no
  rows the subtractions wrap and the slices panic.\<close>

definition scroll :: "u8 \<Rightarrow> console \<Rightarrow> console exec" where
  "scroll fs c =
     (let width = unat (width_px fs c);
          row_height = glyph_h fs;
          total_rows_px = c_rows c * row_height;
          a = width * row_height;
          b = width * total_rows_px;
          last_row_start = width * (total_rows_px - row_height)
      in if total_rows_px < row_height \<or> c_rows c = 0 \<or> b < a \<or> length (c_buffer c) < b then None
         else let moved = take (b - a) (drop a (c_buffer c)) @ drop (b - a) (c_buffer c)
              in Some (c\<lparr>c_buffer := take last_row_start moved @ replicate (length moved - last_row_start) (c_bg c),
                          c_row := c_rows c - 1, c_col := 0\<rparr>))"

definition next_line :: "u8 \<Rightarrow> console \<Rightarrow> console exec" where
  "next_line fs c =
     (let c' = c\<lparr>c_row := c_row c + 1, c_col := 0\<rparr>
      in if c_row c' \<ge> c_rows c' then scroll fs c' else Some c')"

definition write_cell :: "u8 \<Rightarrow> u8 \<Rightarrow> console \<Rightarrow> console exec" where
  "write_cell fs byte c = do {
     c1 \<leftarrow> (if c_col c \<ge> c_cols c then next_line fs c else Some c);
     c2 \<leftarrow> draw_cell fs (c_col c1) (c_row c1) byte c1;
     Some (c2\<lparr>c_col := c_col c2 + 1\<rparr>) }"

definition write_byte :: "u8 \<Rightarrow> u8 \<Rightarrow> console \<Rightarrow> console exec" where
  "write_byte fs byte c =
     (if byte = 10 then next_line fs c
      else if byte = 13 then Some (c\<lparr>c_col := 0\<rparr>)
      else if byte = 8 then
        (if c_col c > 0 then let c' = c\<lparr>c_col := c_col c - 1\<rparr> in draw_cell fs (c_col c') (c_row c') 32 c'
         else if c_row c > 0 then
           (if c_cols c = 0 then None
            else let c' = c\<lparr>c_row := c_row c - 1, c_col := c_cols c - 1\<rparr> in draw_cell fs (c_col c') (c_row c') 32 c')
         else Some c)
      else if byte = 9 then for_each (\<lambda>_. write_cell fs 32) [0..<4 - c_col c mod 4] c
      else write_cell fs byte c)"

definition write_str :: "u8 \<Rightarrow> u8 list \<Rightarrow> console \<Rightarrow> console exec" where
  "write_str fs s = for_each (write_byte fs) s"

section \<open>The console is a surface\<close>

interpretation con: pixel_buffer "console_surface fs" c_buffer "\<lambda>b c. c\<lparr>c_buffer := b\<rparr>" for fs
proof unfold_locales
  fix s x y c len src offset
  assume ok: "buffer_ok (console_surface fs) c_buffer s"
  let ?w = "width_px fs s" and ?h = "height_px fs s"
  have fit: "buffer_fits ?w ?h (c_buffer s)" using ok by (simp add: buffer_ok_def console_surface_def)
  have div: "length (c_buffer s) div max (unat ?w) 1 = unat ?h" if "0 < unat ?w"
    using fit that by (simp add: buffer_fits_def max_def)
  have guard: "(unat y \<ge> length (c_buffer s) div max (unat ?w) 1 \<or> unat x \<ge> unat ?w \<or> len = 0) \<longleftrightarrow> (y \<ge> ?h \<or> x \<ge> ?w \<or> len = 0)" for x y len :: u32
    using div by (cases "0 < unat ?w") (auto simp: word_le_nat_alt)
  have n: "min (unat len) (unat ?w - unat x) = unat (min len (?w - x))" "unat y * unat ?w + unat x = unat (y * ?w + x)"
    if "\<not> (y \<ge> ?h \<or> x \<ge> ?w \<or> len = 0)" for x y len :: u32
  proof -
    have "unat (?w - x) = unat ?w - unat x" using that by (intro unat_sub_le) auto
    then show "min (unat len) (unat ?w - unat x) = unat (min len (?w - x))" by (simp add: unat_min)
    show "unat y * unat ?w + unat x = unat (y * ?w + x)" using row_index(1) [OF fit, of x y] that by auto
  qed
  show "sf_put (console_surface fs) x y c s =
      on_buffer c_buffer (\<lambda>b c. c\<lparr>c_buffer := b\<rparr>) (raster_put (sf_width (console_surface fs) s) (sf_height (console_surface fs) s) x y c) s"
    using row_index(1) [OF fit, of x y] by (auto simp: console_surface_def console_put_def on_buffer_def raster_put_def)
  show "sf_fill_span (console_surface fs) x y len c s =
      on_buffer c_buffer (\<lambda>b c. c\<lparr>c_buffer := b\<rparr>) (raster_fill (sf_width (console_surface fs) s) (sf_height (console_surface fs) s) x y len c) s"
    unfolding console_surface_def surface.simps console_fill_span_def on_buffer_def raster_fill_def Let_def guard
    using n [of y x len] by (cases "y \<ge> ?h \<or> x \<ge> ?w \<or> len = 0") simp_all
  show "sf_blit_span (console_surface fs) x y src offset len s =
      on_buffer c_buffer (\<lambda>b c. c\<lparr>c_buffer := b\<rparr>) (raster_blit (sf_width (console_surface fs) s) (sf_height (console_surface fs) s) x y src offset len) s"
    unfolding console_surface_def surface.simps console_blit_span_def on_buffer_def raster_blit_def Let_def guard
    using n [of y x len] by (cases "y \<ge> ?h \<or> x \<ge> ?w \<or> len = 0") simp_all
qed (simp_all add: console_surface_def width_px_def height_px_def)

section \<open>A grid of characters\<close>

text \<open>The abstract console: lines of characters of one length and a cursor. What does not fit the last line scrolls
  the lines up.\<close>

record grid =
  g_row :: nat
  g_col :: nat
  g_cells :: "u8 list list"

definition grid_new :: "nat \<Rightarrow> nat \<Rightarrow> grid" where
  "grid_new cols rows = \<lparr>g_row = 0, g_col = 0, g_cells = replicate rows (replicate cols 32)\<rparr>"

definition grid_cell :: "nat \<Rightarrow> nat \<Rightarrow> u8 \<Rightarrow> grid \<Rightarrow> grid" where
  "grid_cell col row b g = g\<lparr>g_cells := (g_cells g)[row := (g_cells g ! row)[col := b]]\<rparr>"

definition grid_next :: "nat \<Rightarrow> nat \<Rightarrow> grid \<Rightarrow> grid" where
  "grid_next cols rows g =
     (if g_row g + 1 < rows then g\<lparr>g_row := g_row g + 1, g_col := 0\<rparr>
      else g\<lparr>g_col := 0, g_cells := tl (g_cells g) @ [replicate cols 32]\<rparr>)"

definition grid_put :: "nat \<Rightarrow> nat \<Rightarrow> u8 \<Rightarrow> grid \<Rightarrow> grid" where
  "grid_put cols rows b g =
     (let g1 = (if g_col g < cols then g else grid_next cols rows g)
      in grid_cell (g_col g1) (g_row g1) b (g1\<lparr>g_col := g_col g1 + 1\<rparr>))"

definition grid_back :: "nat \<Rightarrow> grid \<Rightarrow> grid" where
  "grid_back cols g =
     (if 0 < g_col g then grid_cell (g_col g - 1) (g_row g) 32 (g\<lparr>g_col := g_col g - 1\<rparr>)
      else if 0 < g_row g then grid_cell (cols - 1) (g_row g - 1) 32 (g\<lparr>g_row := g_row g - 1, g_col := cols - 1\<rparr>)
      else g)"

definition grid_write :: "nat \<Rightarrow> nat \<Rightarrow> u8 \<Rightarrow> grid \<Rightarrow> grid" where
  "grid_write cols rows b g =
     (if b = 10 then grid_next cols rows g
      else if b = 13 then g\<lparr>g_col := 0\<rparr>
      else if b = 8 then grid_back cols g
      else if b = 9 then ((grid_put cols rows 32) ^^ (4 - g_col g mod 4)) g
      else grid_put cols rows b g)"

text \<open>The console draws the grid: same cursor, and every pixel is the pixel of the glyph of the character in its cell.\<close>

definition draws_grid :: "u8 \<Rightarrow> console \<Rightarrow> grid \<Rightarrow> bool" where
  "draws_grid fs c g \<longleftrightarrow>
     c_row c = g_row g \<and> c_col c = g_col g \<and> g_row g < c_rows c \<and> g_col g \<le> c_cols c \<and>
     length (g_cells g) = c_rows c \<and> (\<forall>line \<in> set (g_cells g). length line = c_cols c) \<and>
     length (c_buffer c) = c_cols c * glyph_w fs * (c_rows c * glyph_h fs) \<and>
     (\<forall>i < c_cols c * glyph_w fs. \<forall>j < c_rows c * glyph_h fs.
        c_buffer c ! (j * (c_cols c * glyph_w fs) + i)
          = cell_color fs (g_cells g ! (j div glyph_h fs) ! (i div glyph_w fs)) (i mod glyph_w fs) (j mod glyph_h fs) (c_fg c) (Some (c_bg c)) 0)"

definition fits_screen :: "u8 \<Rightarrow> console \<Rightarrow> bool" where
  "fits_screen fs c \<longleftrightarrow> 0 < unat fs \<and> 0 < c_cols c \<and> 0 < c_rows c \<and> c_cols c * glyph_w fs * (c_rows c * glyph_h fs) < 2 ^ 32"

lemma fits_dims:
  assumes "fits_screen fs c"
  shows "0 < glyph_w fs" "0 < glyph_h fs" "glyph_w fs = 8 * unat fs" "glyph_h fs = 8 * unat fs"
    "c_cols c * glyph_w fs < 2 ^ 32" "c_rows c * glyph_h fs < 2 ^ 32"
    "unat (width_px fs c) = c_cols c * glyph_w fs" "unat (height_px fs c) = c_rows c * glyph_h fs"
proof -
  show g: "0 < glyph_w fs" "0 < glyph_h fs" "glyph_w fs = 8 * unat fs" "glyph_h fs = 8 * unat fs"
    using assms by (simp_all add: fits_screen_def glyph_w_def glyph_h_def GLYPH_WIDTH_def GLYPH_HEIGHT_def)
  have "0 < c_cols c * glyph_w fs" "0 < c_rows c * glyph_h fs" using assms g by (simp_all add: fits_screen_def)
  moreover have "a < 2 ^ 32" "b < 2 ^ 32" if "a * b < 2 ^ 32" "0 < a" "0 < b" for a b :: nat
  proof -
    have "a \<le> a * b" "b \<le> a * b" using that(2,3) by simp_all
    then show "a < 2 ^ 32" "b < 2 ^ 32" using that(1) by linarith+
  qed
  moreover have "c_cols c * glyph_w fs * (c_rows c * glyph_h fs) < 2 ^ 32" using assms by (simp add: fits_screen_def)
  ultimately show "c_cols c * glyph_w fs < 2 ^ 32" "c_rows c * glyph_h fs < 2 ^ 32" by blast+
  then show "unat (width_px fs c) = c_cols c * glyph_w fs" "unat (height_px fs c) = c_rows c * glyph_h fs"
    by (simp_all only: width_px_def height_px_def unsigned_of_nat) (simp_all add: take_bit_nat_eq_self)
qed

lemma blank_cell:
  assumes "j < glyph_h fs" "0 < unat fs"
  shows "cell_color fs 32 i j fg (Some bg) b = bg"
proof -
  have "glyph 32 = [0, 0, 0, 0, 0, 0, 0, 0]" by (simp add: glyph_def FONT8X8_BASIC_def)
  then have "\<forall>x \<in> set (glyph 32). x = 0" by simp
  moreover have "j div unat fs < 8" using assms by (simp add: glyph_h_def GLYPH_HEIGHT_def div_less_iff_less_mult)
  then have "glyph 32 ! (j div unat fs) \<in> set (glyph 32)" by (intro nth_mem) simp
  ultimately have "glyph 32 ! (j div unat fs) = 0" by blast
  then show ?thesis by (simp add: cell_color_def)
qed

section \<open>The console draws the grid\<close>

lemma in_cell: "0 < g \<Longrightarrow> k * g \<le> i \<and> i < k * g + g \<longleftrightarrow> i div g = k" for i k g :: nat
  using div_times_less_eq_dividend [of i g] dividend_less_div_times [of g i] by (auto intro!: div_nat_eqI simp: algebra_simps)

lemma cells_nth: "draws_grid fs c g \<Longrightarrow> r < c_rows c \<Longrightarrow> length (g_cells g ! r) = c_cols c"
  by (simp add: draws_grid_def)

lemma draw_cell_draws:
  assumes "fits_screen fs c" "draws_grid fs c g" "col < c_cols c" "row < c_rows c"
  shows "\<exists>c'. draw_cell fs col row b c = Some c' \<and> c'\<lparr>c_buffer := []\<rparr> = c\<lparr>c_buffer := []\<rparr> \<and> draws_grid fs c' (grid_cell col row b g)"
proof -
  note fd = fits_dims [OF assms(1)]
  let ?w = "glyph_w fs" and ?h = "glyph_h fs" and ?W = "c_cols c * glyph_w fs" and ?H = "c_rows c * glyph_h fs"
  let ?x = "of_nat (col * ?w) :: u32" and ?y = "of_nat (row * ?h) :: u32"
  have "Suc col * ?w \<le> ?W" "Suc row * ?h \<le> ?H" using assms(3,4) by (intro mult_le_mono1; simp)+
  then have xb: "col * ?w + ?w < 2 ^ 32" and yb: "row * ?h + ?h < 2 ^ 32" using fd(5,6) by simp_all
  then have x: "unat ?x = col * ?w" and y: "unat ?y = row * ?h"
    by (simp_all only: unsigned_of_nat) (simp_all add: take_bit_nat_eq_self)
  have ok: "buffer_ok (console_surface fs) c_buffer c"
    using assms(1,2) fd(7,8) by (simp add: buffer_ok_def console_surface_def buffer_fits_def draws_grid_def fits_screen_def)
  have dims: "sf_width (console_surface fs) = width_px fs" "sf_height (console_surface fs) = height_px fs" by (simp_all add: console_surface_def)
  have "unat ?x + 8 * unat fs < 2 ^ 32" "unat ?y + 8 * unat fs < 2 ^ 32" "0 < unat fs"
    using xb yb x y fd(3,4) assms(1) by (simp_all add: fits_screen_def)
  note dc = con.draw_char_paints [OF this, where fsa = fs and r = "c\<lparr>c_buffer := []\<rparr>" and ch = b and fg = "c_fg c" and bg = "Some (c_bg c)"]
  have "\<exists>c'. draw_cell fs col row b c = Some c' \<and> buffer_ok (console_surface fs) c_buffer c' \<and> c'\<lparr>c_buffer := []\<rparr> = c\<lparr>c_buffer := []\<rparr> \<and>
      (\<forall>i j. i < unat (sf_width (console_surface fs) c) \<longrightarrow> j < unat (sf_height (console_surface fs) c) \<longrightarrow>
        buffer_px (console_surface fs) c_buffer c' i j =
        (if col * ?w \<le> i \<and> i < col * ?w + ?w \<and> row * ?h \<le> j \<and> j < row * ?h + ?h
         then cell_color fs b (i - col * ?w) (j - row * ?h) (c_fg c) (Some (c_bg c)) (buffer_px (console_surface fs) c_buffer c i j)
         else buffer_px (console_surface fs) c_buffer c i j))"
    using dc ok unfolding paints_def draw_cell_def x y by blast
  then obtain c' where d: "draw_cell fs col row b c = Some c'" and ok': "buffer_ok (console_surface fs) c_buffer c'"
    and same: "c'\<lparr>c_buffer := []\<rparr> = c\<lparr>c_buffer := []\<rparr>"
    and px: "\<And>i j. i < ?W \<Longrightarrow> j < ?H \<Longrightarrow> buffer_px (console_surface fs) c_buffer c' i j =
      (if col * ?w \<le> i \<and> i < col * ?w + ?w \<and> row * ?h \<le> j \<and> j < row * ?h + ?h
       then cell_color fs b (i - col * ?w) (j - row * ?h) (c_fg c) (Some (c_bg c)) (buffer_px (console_surface fs) c_buffer c i j)
       else buffer_px (console_surface fs) c_buffer c i j)"
    unfolding dims fd(7,8) by blast
  have f: "c_cols c' = c_cols c" "c_rows c' = c_rows c" "c_row c' = c_row c" "c_col c' = c_col c" "c_fg c' = c_fg c" "c_bg c' = c_bg c"
    using arg_cong [OF same, of c_cols] arg_cong [OF same, of c_rows] arg_cong [OF same, of c_row] arg_cong [OF same, of c_col]
      arg_cong [OF same, of c_fg] arg_cong [OF same, of c_bg] by simp_all
  have w': "unat (width_px fs c') = ?W" using fd(7) f by (simp add: width_px_def)
  have h': "unat (height_px fs c') = ?H" using fd(8) f by (simp add: height_px_def)
  have len: "length (c_buffer c') = ?W * ?H" using ok' w' h' by (simp add: buffer_ok_def dims buffer_fits_def)
  have at: "c_buffer c' ! (j * ?W + i) = cell_color fs (g_cells (grid_cell col row b g) ! (j div ?h) ! (i div ?w)) (i mod ?w) (j mod ?h) (c_fg c) (Some (c_bg c)) 0"
    if ij: "i < ?W" "j < ?H" for i j
  proof -
    have p: "c_buffer c' ! (j * ?W + i) = (if i div ?w = col \<and> j div ?h = row
        then cell_color fs b (i - col * ?w) (j - row * ?h) (c_fg c) (Some (c_bg c)) 0 else c_buffer c ! (j * ?W + i))"
      using px [OF ij] in_cell [OF fd(1), of col i] in_cell [OF fd(2), of row j]
      by (auto simp: buffer_px_def dims w' fd(7) cell_color_def)
    have q: "i div ?w < c_cols c" "j div ?h < c_rows c" using ij by (simp_all add: less_mult_imp_div_less)
    have old: "c_buffer c ! (j * ?W + i) = cell_color fs (g_cells g ! (j div ?h) ! (i div ?w)) (i mod ?w) (j mod ?h) (c_fg c) (Some (c_bg c)) 0"
      using assms(2) ij by (simp add: draws_grid_def)
    have r: "row < length (g_cells g)" "col < length (g_cells g ! row)" using assms(2-4) cells_nth [OF assms(2,4)] by (simp_all add: draws_grid_def)
    have m: "i - i div ?w * ?w = i mod ?w" "j - j div ?h * ?h = j mod ?h" by (simp_all add: minus_div_mult_eq_mod)
    show ?thesis using p old r m by (auto simp: grid_cell_def nth_list_update)
  qed
  have "draws_grid fs c' (grid_cell col row b g)"
    using assms(2) at len f cells_nth [OF assms(2,4)] unfolding draws_grid_def
    by (auto simp: grid_cell_def dest: set_update_subset_insert [THEN subsetD])
  then show ?thesis using d same by blast
qed

lemma scroll_draws:
  assumes "fits_screen fs c" "draws_grid fs c g"
  shows "\<exists>c'. scroll fs c = Some c' \<and> c'\<lparr>c_buffer := [], c_row := 0, c_col := 0\<rparr> = c\<lparr>c_buffer := [], c_row := 0, c_col := 0\<rparr> \<and>
    draws_grid fs c' (g\<lparr>g_row := c_rows c - 1, g_col := 0, g_cells := tl (g_cells g) @ [replicate (c_cols c) 32]\<rparr>)"
proof -
  note fd = fits_dims [OF assms(1)]
  let ?w = "glyph_w fs" and ?h = "glyph_h fs" and ?W = "c_cols c * glyph_w fs" and ?H = "c_rows c * glyph_h fs"
  have rows: "0 < c_rows c" using assms(1) by (simp add: fits_screen_def)
  then have hH: "?h \<le> ?H" by simp
  have len: "length (c_buffer c) = ?W * ?H" using assms(2) by (simp add: draws_grid_def)
  let ?n = "?W * (?H - ?h)"
  let ?buf = "take ?n (drop (?W * ?h) (c_buffer c)) @ replicate (?W * ?h) (c_bg c)"
  let ?c = "c\<lparr>c_buffer := ?buf, c_row := c_rows c - 1, c_col := 0\<rparr>"
  have n: "?W * ?H - ?W * ?h = ?n" "?n + ?W * ?h = ?W * ?H" "?W * ?h \<le> ?W * ?H"
    using hH by (simp_all add: diff_mult_distrib2 mult_le_mono)
  have tk: "length (take ?n (drop (?W * ?h) (c_buffer c))) = ?n" using len n by simp
  have run: "scroll fs c = Some ?c"
    unfolding scroll_def Let_def fd(7) using rows hH n len tk by (simp add: min_def)
  let ?g = "g\<lparr>g_row := c_rows c - 1, g_col := 0, g_cells := tl (g_cells g) @ [replicate (c_cols c) 32]\<rparr>"
  have gl: "length (g_cells g) = c_rows c" using assms(2) by (simp add: draws_grid_def)
  have at: "?buf ! (j * ?W + i) = cell_color fs (g_cells ?g ! (j div ?h) ! (i div ?w)) (i mod ?w) (j mod ?h) (c_fg c) (Some (c_bg c)) 0"
    if ij: "i < ?W" "j < ?H" for i j
  proof (cases "j < ?H - ?h")
    case True
    have lt: "j * ?W + i < ?n" using cell_less [OF ij(1) True] .
    have e: "?W * ?h + (j * ?W + i) = (j + ?h) * ?W + i" by (simp add: algebra_simps)
    have "?buf ! (j * ?W + i) = take ?n (drop (?W * ?h) (c_buffer c)) ! (j * ?W + i)"
      unfolding nth_append tk using lt by (simp only: if_True)
    also have "\<dots> = drop (?W * ?h) (c_buffer c) ! (j * ?W + i)" using lt by (rule nth_take)
    also have "\<dots> = c_buffer c ! (?W * ?h + (j * ?W + i))" using len n by (intro nth_drop) linarith
    finally have "?buf ! (j * ?W + i) = c_buffer c ! ((j + ?h) * ?W + i)" unfolding e .
    moreover have "j + ?h < ?H" using True by simp
    ultimately have "?buf ! (j * ?W + i) = cell_color fs (g_cells g ! ((j + ?h) div ?h) ! (i div ?w)) (i mod ?w) ((j + ?h) mod ?h) (c_fg c) (Some (c_bg c)) 0"
      using assms(2) ij(1) by (simp add: draws_grid_def)
    moreover have "(j + ?h) div ?h = Suc (j div ?h)" using fd(2) by (simp add: div_add_self2)
    moreover have "Suc (j div ?h) < c_rows c" using \<open>j + ?h < ?H\<close> calculation(2) by (metis less_mult_imp_div_less)
    moreover have "g_cells ?g ! (j div ?h) = g_cells g ! Suc (j div ?h)"
    proof -
      have "j div ?h < length (tl (g_cells g))" using gl calculation(3) unfolding length_tl by linarith
      then show ?thesis by (simp add: nth_append nth_tl)
    qed
    ultimately show ?thesis by (simp only: mod_add_self2)
  next
    case False
    have "?n \<le> j * ?W + i" using False by (simp add: mult.commute mult_le_mono trans_le_add1)
    moreover have "j * ?W + i < ?W * ?H" by (rule cell_less [OF ij])
    moreover from calculation have "j * ?W + i - ?n < ?W * ?h" using n(2) by linarith
    ultimately have "?buf ! (j * ?W + i) = c_bg c" unfolding nth_append tk by simp
    moreover have "j div ?h = c_rows c - 1"
    proof -
      have "(c_rows c - 1) * ?h \<le> j" using False by (simp add: diff_mult_distrib)
      moreover have "j < (c_rows c - 1) * ?h + ?h" using ij(2) rows by (cases "c_rows c") simp_all
      ultimately show ?thesis using in_cell [OF fd(2)] by blast
    qed
    moreover have "i div ?w < c_cols c" using ij(1) by (simp add: less_mult_imp_div_less)
    moreover have "j mod ?h < ?h" "0 < unat fs" using fd(2) assms(1) by (simp_all add: fits_screen_def)
    ultimately show ?thesis using gl rows blank_cell by (simp add: nth_append)
  qed
  have "draws_grid fs ?c ?g"
    using assms(2) at tk n rows gl unfolding draws_grid_def by (auto dest: list.set_sel(2) [rotated])
  then show ?thesis using run by simp
qed

text \<open>An operation of the console that follows one of the grid.\<close>

definition follows :: "u8 \<Rightarrow> (console \<Rightarrow> console exec) \<Rightarrow> (nat \<Rightarrow> nat \<Rightarrow> grid \<Rightarrow> grid) \<Rightarrow> bool" where
  "follows fs f h \<longleftrightarrow> (\<forall>c g. fits_screen fs c \<longrightarrow> draws_grid fs c g \<longrightarrow>
     (\<exists>c'. f c = Some c' \<and> c'\<lparr>c_buffer := [], c_row := 0, c_col := 0\<rparr> = c\<lparr>c_buffer := [], c_row := 0, c_col := 0\<rparr> \<and>
           draws_grid fs c' (h (c_cols c) (c_rows c) g)))"

lemma same_shape_console:
  assumes "c'\<lparr>c_buffer := [], c_row := 0, c_col := 0\<rparr> = c\<lparr>c_buffer := [], c_row := 0, c_col := 0\<rparr>"
  shows "c_cols c' = c_cols c" "c_rows c' = c_rows c" "fits_screen fs c' = fits_screen fs c"
  using arg_cong [OF assms, of c_cols] arg_cong [OF assms, of c_rows] by (simp_all add: fits_screen_def)

lemma followsD:
  assumes "follows fs f h" "fits_screen fs c" "draws_grid fs c g"
  obtains c' where "f c = Some c'" "c'\<lparr>c_buffer := [], c_row := 0, c_col := 0\<rparr> = c\<lparr>c_buffer := [], c_row := 0, c_col := 0\<rparr>"
    "draws_grid fs c' (h (c_cols c) (c_rows c) g)" "fits_screen fs c'" "c_cols c' = c_cols c" "c_rows c' = c_rows c"
  using assms same_shape_console unfolding follows_def by (metis (no_types, lifting))

lemma follows_seq:
  assumes "follows fs f h" "follows fs f' h'"
  shows "follows fs (\<lambda>c. do { c' \<leftarrow> f c; f' c' }) (\<lambda>cols rows g. h' cols rows (h cols rows g))"
  unfolding follows_def
proof (intro allI impI)
  fix c g assume cg: "fits_screen fs c" "draws_grid fs c g"
  from followsD [OF assms(1) cg] obtain c1 where 1: "f c = Some c1"
    "c1\<lparr>c_buffer := [], c_row := 0, c_col := 0\<rparr> = c\<lparr>c_buffer := [], c_row := 0, c_col := 0\<rparr>"
    "draws_grid fs c1 (h (c_cols c) (c_rows c) g)" "fits_screen fs c1" "c_cols c1 = c_cols c" "c_rows c1 = c_rows c" .
  from followsD [OF assms(2) 1(4,3)] obtain c2 where "f' c1 = Some c2"
    "c2\<lparr>c_buffer := [], c_row := 0, c_col := 0\<rparr> = c1\<lparr>c_buffer := [], c_row := 0, c_col := 0\<rparr>"
    "draws_grid fs c2 (h' (c_cols c1) (c_rows c1) (h (c_cols c) (c_rows c) g))" .
  then show "\<exists>c'. f c \<bind> f' = Some c' \<and> c'\<lparr>c_buffer := [], c_row := 0, c_col := 0\<rparr> = c\<lparr>c_buffer := [], c_row := 0, c_col := 0\<rparr> \<and>
      draws_grid fs c' (h' (c_cols c) (c_rows c) (h (c_cols c) (c_rows c) g))" using 1 by simp
qed

lemma next_line_follows: "follows fs (next_line fs) grid_next"
  unfolding follows_def
proof (intro allI impI)
  fix c g assume cg: "fits_screen fs c" "draws_grid fs c g"
  let ?c = "c\<lparr>c_row := c_row c + 1, c_col := 0\<rparr>"
  have row: "c_row c = g_row g" "g_row g < c_rows c" using cg(2) by (simp_all add: draws_grid_def)
  show "\<exists>c'. next_line fs c = Some c' \<and> c'\<lparr>c_buffer := [], c_row := 0, c_col := 0\<rparr> = c\<lparr>c_buffer := [], c_row := 0, c_col := 0\<rparr> \<and>
      draws_grid fs c' (grid_next (c_cols c) (c_rows c) g)"
  proof (cases "g_row g + 1 < c_rows c")
    case True
    then show ?thesis using cg row by (intro exI [of _ ?c]) (simp add: next_line_def Let_def grid_next_def draws_grid_def)
  next
    case False
    then have l: "g_row g = c_rows c - 1" using row by simp
    let ?c0 = "c\<lparr>c_row := g_row g, c_col := 0\<rparr>"
    have "fits_screen fs ?c0" "draws_grid fs ?c0 (g\<lparr>g_col := 0\<rparr>)" using cg by (simp_all add: fits_screen_def draws_grid_def)
    from scroll_draws [OF this] obtain c' where c': "scroll fs ?c0 = Some c'"
      "c'\<lparr>c_buffer := [], c_row := 0, c_col := 0\<rparr> = c\<lparr>c_buffer := [], c_row := 0, c_col := 0\<rparr>"
      "draws_grid fs c' (g\<lparr>g_row := c_rows c - 1, g_col := 0, g_cells := tl (g_cells g) @ [replicate (c_cols c) 32]\<rparr>)" by auto
    have "next_line fs c = scroll fs ?c0" using False row by (simp add: next_line_def scroll_def Let_def width_px_def)
    moreover have "grid_next (c_cols c) (c_rows c) g = g\<lparr>g_row := c_rows c - 1, g_col := 0, g_cells := tl (g_cells g) @ [replicate (c_cols c) 32]\<rparr>"
      using False l by (simp add: grid_next_def)
    ultimately show ?thesis using c' by simp
  qed
qed

lemma write_cell_follows: "follows fs (write_cell fs b) (\<lambda>cols rows. grid_put cols rows b)"
  unfolding follows_def
proof (intro allI impI)
  fix c g assume cg: "fits_screen fs c" "draws_grid fs c g"
  let ?g = "if g_col g < c_cols c then g else grid_next (c_cols c) (c_rows c) g"
  have col: "c_col c = g_col g" using cg(2) by (simp add: draws_grid_def)
  obtain c1 where 1: "(if c_col c \<ge> c_cols c then next_line fs c else Some c) = Some c1"
    "c1\<lparr>c_buffer := [], c_row := 0, c_col := 0\<rparr> = c\<lparr>c_buffer := [], c_row := 0, c_col := 0\<rparr>"
    "draws_grid fs c1 ?g" "fits_screen fs c1" "c_cols c1 = c_cols c" "c_rows c1 = c_rows c" "g_col ?g < c_cols c"
  proof (cases "g_col g < c_cols c")
    case True
    then show thesis using that [of c] cg col by simp
  next
    case False
    from followsD [OF next_line_follows cg] obtain c' where "next_line fs c = Some c'"
      "c'\<lparr>c_buffer := [], c_row := 0, c_col := 0\<rparr> = c\<lparr>c_buffer := [], c_row := 0, c_col := 0\<rparr>"
      "draws_grid fs c' (grid_next (c_cols c) (c_rows c) g)" "fits_screen fs c'" "c_cols c' = c_cols c" "c_rows c' = c_rows c" .
    then show thesis using that [of c'] False col cg(1) by (simp add: grid_next_def fits_screen_def)
  qed
  have rc: "c_col c1 = g_col ?g" "c_row c1 = g_row ?g" "g_row ?g < c_rows c1" using 1(3) by (simp_all add: draws_grid_def)
  have "c_col c1 < c_cols c1" "c_row c1 < c_rows c1" using rc 1(5,7) by simp_all
  from draw_cell_draws [OF 1(4,3) this, of b] obtain c2 where 2: "draw_cell fs (c_col c1) (c_row c1) b c1 = Some c2"
    "c2\<lparr>c_buffer := []\<rparr> = c1\<lparr>c_buffer := []\<rparr>" "draws_grid fs c2 (grid_cell (c_col c1) (c_row c1) b ?g)" by blast
  have f: "c_col c2 = c_col c1" "c_cols c2 = c_cols c1" using arg_cong [OF 2(2), of c_col] arg_cong [OF 2(2), of c_cols] by simp_all
  have s2: "c2\<lparr>c_buffer := [], c_row := 0, c_col := 0\<rparr> = c1\<lparr>c_buffer := [], c_row := 0, c_col := 0\<rparr>"
    using arg_cong [OF 2(2), of "\<lambda>c. c\<lparr>c_row := 0, c_col := 0\<rparr>"] by simp
  have "draws_grid fs (c2\<lparr>c_col := c_col c2 + 1\<rparr>) (grid_put (c_cols c) (c_rows c) b g)"
    using 2(3) f rc 1(5,7) unfolding grid_put_def Let_def draws_grid_def grid_cell_def by simp
  then show "\<exists>c'. write_cell fs b c = Some c' \<and> c'\<lparr>c_buffer := [], c_row := 0, c_col := 0\<rparr> = c\<lparr>c_buffer := [], c_row := 0, c_col := 0\<rparr> \<and>
      draws_grid fs c' (grid_put (c_cols c) (c_rows c) b g)"
    using 1(1,2) 2(1) s2 by (intro exI [of _ "c2\<lparr>c_col := c_col c2 + 1\<rparr>"]) (simp add: write_cell_def)
qed

lemma backspace_follows:
  assumes "fits_screen fs c" "draws_grid fs c g" "col < c_cols c" "row < c_rows c"
  shows "\<exists>c'. draw_cell fs col row 32 (c\<lparr>c_row := row, c_col := col\<rparr>) = Some c' \<and>
      c'\<lparr>c_buffer := [], c_row := 0, c_col := 0\<rparr> = c\<lparr>c_buffer := [], c_row := 0, c_col := 0\<rparr> \<and>
      draws_grid fs c' (grid_cell col row 32 (g\<lparr>g_row := row, g_col := col\<rparr>))"
proof -
  let ?c = "c\<lparr>c_row := row, c_col := col\<rparr>"
  have f: "fits_screen fs ?c" using assms(1) by (simp add: fits_screen_def)
  have d: "draws_grid fs ?c (g\<lparr>g_row := row, g_col := col\<rparr>)" using assms(2-4) by (simp add: draws_grid_def)
  have cr: "col < c_cols ?c" "row < c_rows ?c" using assms(3,4) by simp_all
  from draw_cell_draws [OF f d cr, of 32] obtain c' where c': "draw_cell fs col row 32 ?c = Some c'"
    "c'\<lparr>c_buffer := []\<rparr> = ?c\<lparr>c_buffer := []\<rparr>" "draws_grid fs c' (grid_cell col row 32 (g\<lparr>g_row := row, g_col := col\<rparr>))" by blast
  then show ?thesis using arg_cong [OF c'(2), of "\<lambda>c. c\<lparr>c_row := 0, c_col := 0\<rparr>"] by simp
qed

lemma follows_repeat:
  assumes "follows fs f h"
  shows "follows fs (for_each (\<lambda>_. f) xs) (\<lambda>cols rows. (h cols rows) ^^ length xs)"
proof (induction xs)
  case Nil
  show ?case by (simp add: follows_def)
next
  case (Cons x xs)
  from follows_seq [OF assms Cons.IH] show ?case by (simp add: follows_def funpow_swap1)
qed

lemma write_byte_follows: "follows fs (write_byte fs b) (\<lambda>cols rows. grid_write cols rows b)"
  unfolding follows_def
proof (intro allI impI)
  fix c g assume cg: "fits_screen fs c" "draws_grid fs c g"
  let ?goal = "\<lambda>f g'. \<exists>c'. f = Some c' \<and> c'\<lparr>c_buffer := [], c_row := 0, c_col := 0\<rparr> = c\<lparr>c_buffer := [], c_row := 0, c_col := 0\<rparr> \<and> draws_grid fs c' g'"
  have rc: "c_row c = g_row g" "c_col c = g_col g" "g_row g < c_rows c" "g_col g \<le> c_cols c" using cg(2) by (simp_all add: draws_grid_def)
  consider "b = 10" | "b = 13" | "b = 8" | "b = 9" | "b \<noteq> 10" "b \<noteq> 13" "b \<noteq> 8" "b \<noteq> 9" by blast
  then show "?goal (write_byte fs b c) (grid_write (c_cols c) (c_rows c) b g)"
  proof cases
    case 1
    then show ?thesis using next_line_follows cg by (simp add: write_byte_def grid_write_def follows_def)
  next
    case 2
    then show ?thesis using cg by (simp add: write_byte_def grid_write_def draws_grid_def)
  next
    case 3
    consider "0 < g_col g" | "g_col g = 0" "0 < g_row g" | "g_col g = 0" "g_row g = 0" by auto
    then show ?thesis
    proof cases
      case 1
      then have lt: "g_col g - 1 < c_cols c" using rc by linarith
      have e: "c\<lparr>c_row := g_row g, c_col := g_col g - 1\<rparr> = c\<lparr>c_col := g_col g - 1\<rparr>" using rc(1) by (cases c) simp
      have "write_byte fs b c = draw_cell fs (g_col g - 1) (g_row g) 32 (c\<lparr>c_col := g_col g - 1\<rparr>)"
        using 1 3 rc by (simp add: write_byte_def Let_def)
      then have w: "write_byte fs b c = draw_cell fs (g_col g - 1) (g_row g) 32 (c\<lparr>c_row := g_row g, c_col := g_col g - 1\<rparr>)"
        unfolding e .
      have gw: "grid_write (c_cols c) (c_rows c) b g = grid_cell (g_col g - 1) (g_row g) 32 (g\<lparr>g_row := g_row g, g_col := g_col g - 1\<rparr>)"
        using 1 3 by (simp add: grid_write_def grid_back_def)
      show ?thesis unfolding w gw by (rule backspace_follows [OF cg lt rc(3)])
    next
      case 2
      then have "c_cols c - 1 < c_cols c" "g_row g - 1 < c_rows c" using rc(3) cg(1) by (auto simp: fits_screen_def)
      from backspace_follows [OF cg this] show ?thesis
        using 2 3 rc cg(1) by (simp add: write_byte_def grid_write_def grid_back_def Let_def fits_screen_def)
    next
      case 3
      then show ?thesis using \<open>b = 8\<close> rc cg by (simp add: write_byte_def grid_write_def grid_back_def)
    qed
  next
    case 4
    have "?goal (for_each (\<lambda>_. write_cell fs 32) [0..<4 - g_col g mod 4] c) (((grid_put (c_cols c) (c_rows c) 32) ^^ length [0..<4 - g_col g mod 4]) g)"
      using follows_repeat [OF write_cell_follows [of fs 32], of "[0..<4 - g_col g mod 4]"] cg unfolding follows_def by blast
    then show ?thesis using 4 rc by (simp add: write_byte_def grid_write_def)
  next
    case 5
    then show ?thesis using write_cell_follows cg by (simp add: write_byte_def grid_write_def follows_def)
  qed
qed

lemma write_str_follows: "follows fs (write_str fs s) (\<lambda>cols rows. fold (grid_write cols rows) s)"
proof (induction s)
  case Nil
  show ?case by (simp add: follows_def write_str_def)
next
  case (Cons b s)
  from follows_seq [OF write_byte_follows Cons.IH] show ?case by (simp add: follows_def write_str_def)
qed

lemma blank_draws:
  assumes "fits_screen fs c" "length (c_buffer c) = c_cols c * glyph_w fs * (c_rows c * glyph_h fs)" "\<forall>p \<in> set (c_buffer c). p = c_bg c"
    and "c_row c = 0" "c_col c = 0"
  shows "draws_grid fs c (grid_new (c_cols c) (c_rows c))"
proof -
  note fd = fits_dims [OF assms(1)]
  have "c_buffer c ! (j * (c_cols c * glyph_w fs) + i)
      = cell_color fs (replicate (c_rows c) (replicate (c_cols c) 32) ! (j div glyph_h fs) ! (i div glyph_w fs)) (i mod glyph_w fs) (j mod glyph_h fs) (c_fg c) (Some (c_bg c)) 0"
    if ij: "i < c_cols c * glyph_w fs" "j < c_rows c * glyph_h fs" for i j
  proof -
    have "c_buffer c ! (j * (c_cols c * glyph_w fs) + i) \<in> set (c_buffer c)" using cell_less [OF ij] assms(2) by (intro nth_mem) simp
    moreover have "i div glyph_w fs < c_cols c" "j div glyph_h fs < c_rows c" using ij by (simp_all add: less_mult_imp_div_less)
    moreover have "j mod glyph_h fs < glyph_h fs" "0 < unat fs" using fd(2) assms(1) by (simp_all add: fits_screen_def)
    ultimately show ?thesis using assms(3) blank_cell by simp
  qed
  then show ?thesis using assms by (simp add: draws_grid_def grid_new_def fits_screen_def)
qed

lemma console_new_draws:
  assumes "0 < unat fs" "0 < cols" "0 < rows" "cols * glyph_w fs * (rows * glyph_h fs) < 2 ^ 32"
  shows "fits_screen fs (console_new fs cols rows fg bg) \<and> draws_grid fs (console_new fs cols rows fg bg) (grid_new cols rows)"
proof -
  let ?c = "console_new fs cols rows fg bg"
  have f: "fits_screen fs ?c" using assms by (simp add: fits_screen_def console_new_def)
  then show ?thesis using blank_draws [OF f] by (simp add: console_new_def)
qed

text \<open>C38: The console is a teletype over a grid of characters: from a console that draws a grid, writing any text
  returns, and the console then draws the grid the same text gives (line feed, carriage return, backspace across lines,
  tabs, wrapping and scrolling included); clearing it draws the empty grid.\<close>

theorem console_refines_grid:
  assumes "fits_screen fs c" "draws_grid fs c g"
  shows "\<exists>c'. write_str fs s c = Some c' \<and> fits_screen fs c' \<and> draws_grid fs c' (fold (grid_write (c_cols c) (c_rows c)) s g) \<and>
    draws_grid fs (console_clear c') (grid_new (c_cols c) (c_rows c))"
proof -
  from followsD [OF write_str_follows assms, of s] obtain c' where c': "write_str fs s c = Some c'"
    "draws_grid fs c' (fold (grid_write (c_cols c) (c_rows c)) s g)" "fits_screen fs c'" "c_cols c' = c_cols c" "c_rows c' = c_rows c" .
  have "fits_screen fs (console_clear c')" using c'(3) by (simp add: console_clear_def fits_screen_def)
  from blank_draws [OF this] have "draws_grid fs (console_clear c') (grid_new (c_cols c) (c_rows c))"
    using c'(2,4,5) by (simp add: console_clear_def draws_grid_def)
  then show ?thesis using c' by blast
qed

theorem console_refines_grid_witness:
  "\<exists>c'. write_str 1 [65, 10, 66, 67, 68] (console_new 1 2 2 0xFFFFFF 0) = Some c' \<and>
     draws_grid 1 c' \<lparr>g_row = 1, g_col = 1, g_cells = [[66, 67], [68, 32]]\<rparr>"
proof -
  have "fits_screen 1 (console_new 1 2 2 0xFFFFFF 0)" "draws_grid 1 (console_new 1 2 2 0xFFFFFF 0) (grid_new 2 2)"
    using console_new_draws [of 1 2 2] by (simp_all add: glyph_w_def glyph_h_def GLYPH_WIDTH_def GLYPH_HEIGHT_def)
  from console_refines_grid [OF this, of "[65, 10, 66, 67, 68]"]
  have "\<exists>c'. write_str 1 [65, 10, 66, 67, 68] (console_new 1 2 2 0xFFFFFF 0) = Some c' \<and>
      draws_grid 1 c' (fold (grid_write 2 2) [65, 10, 66, 67, 68] (grid_new 2 2))" by (auto simp: console_new_def)
  moreover have "fold (grid_write 2 2) [65, 10, 66, 67, 68] (grid_new 2 2) = \<lparr>g_row = 1, g_col = 1, g_cells = [[66, 67], [68, 32]]\<rparr>"
    by code_simp
  ultimately show ?thesis by simp
qed

end
