(* ===== verification/Paint.thy ===== *)
theory Paint
  imports Fat Keyboard Decimal Gfx_Buffer
begin

text \<open>
  \<open>src/src/paint.rs\<close>: the paint application. The canvas is a 320 by 240 image; the window below the toolbar
  shows it. Coordinates of the mouse are \<open>i32\<close> in the source and integers here: those a line is drawn with lie on the
  canvas, so no sum overflows. The font scale is an argument; the volume the image is saved to is that of \<open>Fat\<close>.
\<close>

section \<open>State\<close>

definition CANVAS_WIDTH :: u32 where "CANVAS_WIDTH = 320"
definition CANVAS_HEIGHT :: u32 where "CANVAS_HEIGHT = 240"
definition TOOLBAR_HEIGHT :: u32 where "TOOLBAR_HEIGHT = 40"
definition PAINT_WIDTH :: u32 where "PAINT_WIDTH = CANVAS_WIDTH"
definition PAINT_HEIGHT :: u32 where "PAINT_HEIGHT = CANVAS_HEIGHT + TOOLBAR_HEIGHT"
definition PAINT_BG :: u32 where "PAINT_BG = 0x202020"
definition TOOLBAR_BG :: u32 where "TOOLBAR_BG = 0x2A2A2A"
definition CANVAS_BG :: u32 where "CANVAS_BG = 0xFFFFFF"
definition PAINT_TEXT :: u32 where "PAINT_TEXT = 0xFFFFFF"
definition PAINT_TEXT_DIM :: u32 where "PAINT_TEXT_DIM = 0x9A9A9A"

definition COLORS :: "u32 list" where
  "COLORS = [0x000000, 0xFFFFFF, 0xFF0000, 0x00FF00, 0x0000FF, 0xFFFF00, 0x00FFFF, 0xFF00FF]"

datatype tool = Pen | Eraser

record paint_app =
  pa_buffer :: "u32 list"
  pa_canvas :: "u32 list"
  pa_color :: u32
  pa_tool :: tool
  pa_drawing :: bool
  pa_last_x :: int
  pa_last_y :: int
  pa_status :: string
  pa_path :: string

datatype paint_action = Load

definition paint_surface :: "paint_app surface" where
  "paint_surface =
     (let put = (\<lambda>x y color. on_buffer pa_buffer (\<lambda>b s. s\<lparr>pa_buffer := b\<rparr>) (raster_put PAINT_WIDTH PAINT_HEIGHT x y color));
          fill = (\<lambda>x y len color. on_buffer pa_buffer (\<lambda>b s. s\<lparr>pa_buffer := b\<rparr>) (raster_fill PAINT_WIDTH PAINT_HEIGHT x y len color))
      in \<lparr>sf_width = (\<lambda>_. PAINT_WIDTH), sf_height = (\<lambda>_. PAINT_HEIGHT), sf_put = put, sf_get = default_get,
          sf_blit_span = (\<lambda>x y src offset len. on_buffer pa_buffer (\<lambda>b s. s\<lparr>pa_buffer := b\<rparr>) (raster_blit PAINT_WIDTH PAINT_HEIGHT x y src offset len)),
          sf_fill_span = fill,
          sf_blend_span = default_blend_span put default_get fill\<rparr>)"

section \<open>Drawing the window\<close>

text \<open>A rectangle, and what follows it.\<close>

definition rect :: "u32 \<Rightarrow> u32 \<Rightarrow> u32 \<Rightarrow> u32 \<Rightarrow> u32 \<Rightarrow> paint_app \<Rightarrow> paint_app exec" where
  "rect x y w h color = fill_rect paint_surface x y w h color"

definition render_tools :: "paint_app \<Rightarrow> paint_app exec" where
  "render_tools s = do {
     s \<leftarrow> rect 5 5 30 30 (if pa_tool s = Pen then 0x444444 else 0x333333) s;
     s \<leftarrow> rect 15 10 2 15 PAINT_TEXT s;
     s \<leftarrow> rect 13 23 6 2 PAINT_TEXT s;
     s \<leftarrow> rect 40 5 30 30 (if pa_tool s = Eraser then 0x444444 else 0x333333) s;
     rect 48 15 14 10 PAINT_TEXT s }"

definition color_x :: "nat \<Rightarrow> u32" where
  "color_x i = 100 + of_nat i * (20 + 5)"

definition render_color :: "nat \<times> u32 \<Rightarrow> paint_app \<Rightarrow> paint_app exec" where
  "render_color = (\<lambda>(i, color) s. do {
     s \<leftarrow> rect (color_x i) 10 20 20 color s;
     if color = pa_color s then do {
       s \<leftarrow> rect (color_x i - 1) 9 22 1 PAINT_TEXT s;
       s \<leftarrow> rect (color_x i - 1) 30 22 1 PAINT_TEXT s;
       s \<leftarrow> rect (color_x i - 1) 10 1 20 PAINT_TEXT s;
       rect (color_x i + 20) 10 1 20 PAINT_TEXT s }
     else Some s })"

definition render_canvas_pixel :: "u32 \<Rightarrow> u32 \<Rightarrow> paint_app \<Rightarrow> paint_app exec" where
  "render_canvas_pixel y x s = do {
     c \<leftarrow> index (pa_canvas s) (unat (y * CANVAS_WIDTH + x));
     b \<leftarrow> store (pa_buffer s) (unat ((y + TOOLBAR_HEIGHT) * PAINT_WIDTH + x)) c;
     Some (s\<lparr>pa_buffer := b\<rparr>) }"

definition render_canvas :: "paint_app \<Rightarrow> paint_app exec" where
  "render_canvas = for_each (\<lambda>y. for_each (render_canvas_pixel y) (word_range 0 CANVAS_WIDTH)) (word_range 0 CANVAS_HEIGHT)"

definition render_status :: "u8 \<Rightarrow> paint_app \<Rightarrow> paint_app exec" where
  "render_status fs s =
     (if pa_status s = [] then Some s
      else draw_string paint_surface fs 5 (PAINT_HEIGHT - 12) (map of_char (pa_status s)) PAINT_TEXT_DIM None s)"

definition paint_render :: "u8 \<Rightarrow> paint_app \<Rightarrow> paint_app exec" where
  "paint_render fs s = do {
     let s0 = s\<lparr>pa_buffer := replicate (length (pa_buffer s)) PAINT_BG\<rparr>;
     s1 \<leftarrow> rect 0 0 PAINT_WIDTH TOOLBAR_HEIGHT TOOLBAR_BG s0;
     s2 \<leftarrow> render_tools s1;
     s3 \<leftarrow> for_each render_color (enumerate 0 COLORS) s2;
     s4 \<leftarrow> render_canvas s3;
     render_status fs s4 }"

definition paint_new :: "u8 \<Rightarrow> paint_app exec" where
  "paint_new fs = paint_render fs
     \<lparr>pa_buffer = replicate (unat (PAINT_WIDTH * PAINT_HEIGHT)) PAINT_BG,
      pa_canvas = replicate (unat (CANVAS_WIDTH * CANVAS_HEIGHT)) CANVAS_BG,
      pa_color = COLORS ! 0, pa_tool = Pen, pa_drawing = False, pa_last_x = - 1, pa_last_y = - 1, pa_status = [], pa_path = []\<rparr>"

section \<open>Drawing on the canvas\<close>

definition brush :: "paint_app \<Rightarrow> u32" where
  "brush s = (case pa_tool s of Pen \<Rightarrow> pa_color s | Eraser \<Rightarrow> CANVAS_BG)"

definition draw_pixel :: "u8 \<Rightarrow> u32 \<Rightarrow> u32 \<Rightarrow> paint_app \<Rightarrow> paint_app exec" where
  "draw_pixel fs x y s =
     (if x \<ge> CANVAS_WIDTH \<or> y \<ge> CANVAS_HEIGHT then Some s
      else do {
        canvas \<leftarrow> store (pa_canvas s) (unat (y * CANVAS_WIDTH + x)) (brush s);
        paint_render fs (s\<lparr>pa_canvas := canvas\<rparr>) })"

text \<open>The loop of Bresenham's algorithm; \<open>None\<close> is a panic or a loop without end.\<close>

partial_function (option) line_loop :: "u8 \<Rightarrow> int \<Rightarrow> int \<Rightarrow> int \<Rightarrow> int \<Rightarrow> int \<Rightarrow> int \<Rightarrow> int \<Rightarrow> int \<Rightarrow> int \<Rightarrow> paint_app \<Rightarrow> paint_app option" where
  "line_loop fs x1 y1 dx dy sx sy x y err s =
     Option.bind (if x \<ge> 0 \<and> y \<ge> 0 \<and> x < uint CANVAS_WIDTH \<and> y < uint CANVAS_HEIGHT then draw_pixel fs (of_int x) (of_int y) s else Some s)
       (\<lambda>s. if x = x1 \<and> y = y1 then Some s
            else let e2 = 2 * err
                 in if e2 \<ge> dy \<and> x = x1 then Some s
                    else let err1 = (if e2 \<ge> dy then err + dy else err); x' = (if e2 \<ge> dy then x + sx else x)
                         in if e2 \<le> dx \<and> y = y1 then Some s
                            else let err2 = (if e2 \<le> dx then err1 + dx else err1); y' = (if e2 \<le> dx then y + sy else y)
                                 in line_loop fs x1 y1 dx dy sx sy x' y' err2 s)"

definition draw_line :: "u8 \<Rightarrow> int \<Rightarrow> int \<Rightarrow> int \<Rightarrow> int \<Rightarrow> paint_app \<Rightarrow> paint_app exec" where
  "draw_line fs x0 y0 x1 y1 s =
     (let dx = \<bar>x1 - x0\<bar>; dy = - \<bar>y1 - y0\<bar>; sx = (if x0 < x1 then 1 else - 1); sy = (if y0 < y1 then 1 else - 1)
      in line_loop fs x1 y1 dx dy sx sy x0 y0 (dx + dy) s)"

section \<open>Events\<close>

definition toolbar_tool :: "u32 \<Rightarrow> u32 \<Rightarrow> (tool \<times> string) option" where
  "toolbar_tool x y =
     (if y \<ge> 5 \<and> y < 5 + 30 then
        if x \<ge> 5 \<and> x < 5 + 30 then Some (Pen, ''Tool: Pen'')
        else if x \<ge> 40 \<and> x < 40 + 30 then Some (Eraser, ''Tool: Eraser'')
        else None
      else None)"

definition toolbar_color :: "u32 \<Rightarrow> u32 \<Rightarrow> (nat \<times> u32) option" where
  "toolbar_color x y =
     (if y \<ge> 10 \<and> y < 10 + 20 then find (\<lambda>(i, _). x \<ge> color_x i \<and> x < color_x i + 20) (enumerate 0 COLORS) else None)"

definition handle_toolbar_click :: "u8 \<Rightarrow> u32 \<Rightarrow> u32 \<Rightarrow> paint_app \<Rightarrow> paint_app exec" where
  "handle_toolbar_click fs x y s =
     (case toolbar_tool x y of
        Some (t, st) \<Rightarrow> paint_render fs (s\<lparr>pa_tool := t, pa_status := st\<rparr>)
      | None \<Rightarrow>
          (case toolbar_color x y of
             Some (i, color) \<Rightarrow> paint_render fs (s\<lparr>pa_color := color, pa_status := ''Color: '' @ nat_str (i + 1)\<rparr>)
           | None \<Rightarrow> Some s))"

definition paint_click :: "u8 \<Rightarrow> int \<Rightarrow> int \<Rightarrow> paint_app \<Rightarrow> paint_app exec" where
  "paint_click fs x y s =
     (if x < 0 \<or> y < 0 then Some s
      else let x = of_int x :: u32; y = of_int y :: u32
           in if y < TOOLBAR_HEIGHT then handle_toolbar_click fs x y s
              else let canvas_y = y - TOOLBAR_HEIGHT
                   in if x < CANVAS_WIDTH \<and> canvas_y < CANVAS_HEIGHT
                      then draw_pixel fs x canvas_y (s\<lparr>pa_drawing := True, pa_last_x := sint x, pa_last_y := sint canvas_y\<rparr>)
                      else Some s)"

definition paint_release :: "paint_app \<Rightarrow> paint_app" where
  "paint_release s = s\<lparr>pa_drawing := False, pa_last_x := - 1, pa_last_y := - 1\<rparr>"

definition paint_mouse_move :: "u8 \<Rightarrow> int \<Rightarrow> int \<Rightarrow> bool \<Rightarrow> paint_app \<Rightarrow> paint_app exec" where
  "paint_mouse_move fs x y pressed s =
     (if \<not> pressed \<or> x < 0 \<or> y < 0 then Some s
      else let x = of_int x :: u32; y = of_int y :: u32
           in if y \<ge> TOOLBAR_HEIGHT \<and> x < CANVAS_WIDTH
              then let canvas_y = y - TOOLBAR_HEIGHT
                   in if canvas_y < CANVAS_HEIGHT
                      then do {
                        s1 \<leftarrow> (if pa_drawing s then draw_line fs (pa_last_x s) (pa_last_y s) (sint x) (sint canvas_y) s else Some s);
                        Some (s1\<lparr>pa_last_x := sint x, pa_last_y := sint canvas_y\<rparr>) }
                      else Some s
              else Some s)"

text \<open>The bytes of the canvas, and saving them; the clock stamps the file.\<close>

definition canvas_bytes :: "paint_app \<Rightarrow> u8 list" where
  "canvas_bytes s = concat (map (\<lambda>p. to_le 4 (unat p)) (pa_canvas s))"

definition save_image :: "date_time \<Rightarrow> string \<Rightarrow> paint_app \<Rightarrow> mounted \<Rightarrow> ((string + unit) \<times> mounted) exec" where
  "save_image now path s m = do {
     (r, m') \<leftarrow> write_file now (map of_char path) (canvas_bytes s) m;
     Some (case r of Inl _ \<Rightarrow> Inl ''write failed'' | Inr _ \<Rightarrow> Inr (), m') }"

definition load_image :: "u8 \<Rightarrow> string \<Rightarrow> u8 list \<Rightarrow> paint_app \<Rightarrow> paint_app exec" where
  "load_image fs path data s =
     (let expected_len = unat (CANVAS_WIDTH * CANVAS_HEIGHT * 4)
      in if length data \<noteq> expected_len
         then paint_render fs (s\<lparr>pa_status := ''Invalid image size (expected '' @ nat_str expected_len @ '' bytes)''\<rparr>)
         else do {
           s1 \<leftarrow> for_each (\<lambda>i s. do {
                   bs \<leftarrow> slice data (i * 4) 4;
                   canvas \<leftarrow> store (pa_canvas s) i (of_nat (le_nat bs));
                   Some (s\<lparr>pa_canvas := canvas\<rparr>) }) [0..<unat (CANVAS_WIDTH * CANVAS_HEIGHT)] s;
           paint_render fs (s1\<lparr>pa_path := path, pa_status := ''Loaded '' @ path\<rparr>) })"

definition paint_key :: "u8 \<Rightarrow> date_time \<Rightarrow> event \<Rightarrow> paint_app \<Rightarrow> mounted \<Rightarrow> (paint_action option \<times> paint_app \<times> mounted) exec" where
  "paint_key fs now ev s m =
     (case ev of
        EvCtrl c \<Rightarrow>
          if c = CHR ''s'' then do {
            let path = (if pa_path s = [] then ''/users/macha/Pictures/painting.raw'' else pa_path s);
            (r, m') \<leftarrow> save_image now path s m;
            let s1 = (case r of
                        Inr _ \<Rightarrow> s\<lparr>pa_status := ''Saved to '' @ path, pa_path := path\<rparr>
                      | Inl e \<Rightarrow> s\<lparr>pa_status := ''Save failed: '' @ e\<rparr>);
            s2 \<leftarrow> paint_render fs s1;
            Some (None, s2, m') }
          else if c = CHR ''o'' then Some (Some Load, s, m)
          else Some (None, s, m)
      | EvChar c \<Rightarrow>
          if c = CHR ''1'' then do { s1 \<leftarrow> paint_render fs (s\<lparr>pa_tool := Pen\<rparr>); Some (None, s1, m) }
          else if c = CHR ''2'' then do { s1 \<leftarrow> paint_render fs (s\<lparr>pa_tool := Eraser\<rparr>); Some (None, s1, m) }
          else Some (None, s, m)
      | _ \<Rightarrow> Some (None, s, m))"

section \<open>The window is a surface\<close>

interpretation pa: pixel_buffer paint_surface pa_buffer "\<lambda>b s. s\<lparr>pa_buffer := b\<rparr>"
  by unfold_locales (simp_all add: paint_surface_def Let_def)

definition paint_ok :: "paint_app \<Rightarrow> bool" where
  "paint_ok s \<longleftrightarrow> length (pa_buffer s) = 320 * 280 \<and> length (pa_canvas s) = 320 * 240"

text \<open>The window shows the canvas, down to the line of the status text.\<close>

definition shows_canvas :: "paint_app \<Rightarrow> bool" where
  "shows_canvas s \<longleftrightarrow> (\<forall>x < 320. \<forall>y < 228. pa_buffer s ! ((y + 40) * 320 + x) = pa_canvas s ! (y * 320 + x))"

definition keeps_canvas :: "(paint_app \<Rightarrow> paint_app exec) \<Rightarrow> bool" where
  "keeps_canvas f \<longleftrightarrow> (\<forall>s. paint_ok s \<longrightarrow> (\<exists>s'. f s = Some s' \<and> paint_ok s' \<and> s'\<lparr>pa_buffer := []\<rparr> = s\<lparr>pa_buffer := []\<rparr>))"

lemmas paint_dims = PAINT_WIDTH_def PAINT_HEIGHT_def CANVAS_WIDTH_def CANVAS_HEIGHT_def TOOLBAR_HEIGHT_def

lemma paint_surface_dims: "sf_width paint_surface = (\<lambda>_. 320)" "sf_height paint_surface = (\<lambda>_. 280)"
  by (simp_all add: paint_surface_def Let_def paint_dims)

lemma paint_buffer_ok: "paint_ok s \<Longrightarrow> buffer_ok paint_surface pa_buffer s"
  by (simp add: buffer_ok_def paint_surface_dims buffer_fits_def paint_ok_def)

lemma paint_rest:
  assumes "s'\<lparr>pa_buffer := []\<rparr> = s\<lparr>pa_buffer := []\<rparr>"
  shows "pa_canvas s' = pa_canvas s" "pa_color s' = pa_color s" "pa_tool s' = pa_tool s" "pa_status s' = pa_status s"
  using arg_cong [OF assms, of pa_canvas] arg_cong [OF assms, of pa_color] arg_cong [OF assms, of pa_tool] arg_cong [OF assms, of pa_status] by simp_all

lemma painted:
  assumes "paints paint_surface (buffer_ok paint_surface pa_buffer) (buffer_px paint_surface pa_buffer) (\<lambda>s. s\<lparr>pa_buffer := []\<rparr>) (s\<lparr>pa_buffer := []\<rparr>) f g"
    and "paint_ok s"
  shows "\<exists>s'. f s = Some s' \<and> paint_ok s' \<and> s'\<lparr>pa_buffer := []\<rparr> = s\<lparr>pa_buffer := []\<rparr> \<and>
    (\<forall>i < 320. \<forall>j < 280. pa_buffer s' ! (j * 320 + i) = g i j (pa_buffer s ! (j * 320 + i)))"
proof -
  obtain s' where s': "f s = Some s'" "buffer_ok paint_surface pa_buffer s'" "s'\<lparr>pa_buffer := []\<rparr> = s\<lparr>pa_buffer := []\<rparr>"
    "\<forall>i j. i < unat (sf_width paint_surface s) \<longrightarrow> j < unat (sf_height paint_surface s) \<longrightarrow>
       buffer_px paint_surface pa_buffer s' i j = g i j (buffer_px paint_surface pa_buffer s i j)"
    using assms(1) paint_buffer_ok [OF assms(2)] unfolding paints_def by blast
  have "paint_ok s'" using s'(2) paint_rest(1) [OF s'(3)] assms(2) by (simp add: buffer_ok_def paint_surface_dims buffer_fits_def paint_ok_def)
  then show ?thesis using s' by (simp add: buffer_px_def paint_surface_dims)
qed

lemma keeps_rect: "keeps_canvas (rect x y w h c)"
  unfolding keeps_canvas_def rect_def using painted [OF pa.fill_rect_paints] by blast

lemma keeps_seq: "keeps_canvas f \<Longrightarrow> keeps_canvas f' \<Longrightarrow> keeps_canvas (\<lambda>s. do { s' \<leftarrow> f s; f' s' })"
  unfolding keeps_canvas_def by (metis (no_types, lifting) bind.bind_lunit)

lemma keeps_look: "(\<And>v. keeps_canvas (f v)) \<Longrightarrow> keeps_canvas (\<lambda>s. f (h s) s)"
  unfolding keeps_canvas_def by blast

lemma keeps_loop: "(\<And>x. keeps_canvas (f x)) \<Longrightarrow> keeps_canvas (for_each f xs)"
proof (induction xs)
  case Nil
  show ?case by (simp add: keeps_canvas_def)
next
  case (Cons x xs)
  have "for_each f (x # xs) = (\<lambda>s. do { s' \<leftarrow> f x s; for_each f xs s' })" by auto
  then show ?case using keeps_seq [OF Cons.prems Cons.IH [OF Cons.prems], of x] by simp
qed

lemma keeps_render_tools: "keeps_canvas render_tools"
proof -
  have "keeps_canvas (\<lambda>s. rect 5 5 30 30 (if pa_tool s = Pen then 0x444444 else 0x333333) s)"
    "keeps_canvas (\<lambda>s. rect 40 5 30 30 (if pa_tool s = Eraser then 0x444444 else 0x333333) s)"
    by (rule keeps_look, rule keeps_rect)+
  then show ?thesis unfolding render_tools_def by (intro keeps_seq keeps_rect)
qed

lemma keeps_render_color: "keeps_canvas (render_color p)"
proof -
  obtain i color where p: "p = (i, color)" by (cases p)
  have "keeps_canvas (\<lambda>s. if color = pa_color s then do {
       s \<leftarrow> rect (color_x i - 1) 9 22 1 PAINT_TEXT s;
       s \<leftarrow> rect (color_x i - 1) 30 22 1 PAINT_TEXT s;
       s \<leftarrow> rect (color_x i - 1) 10 1 20 PAINT_TEXT s;
       rect (color_x i + 20) 10 1 20 PAINT_TEXT s } else Some s)"
  proof (rule keeps_look [where h = "\<lambda>s. color = pa_color s" and f = "\<lambda>v s. if v then _ s else Some s"])
    fix v
    have "keeps_canvas (\<lambda>s. do {
       s \<leftarrow> rect (color_x i - 1) 9 22 1 PAINT_TEXT s;
       s \<leftarrow> rect (color_x i - 1) 30 22 1 PAINT_TEXT s;
       s \<leftarrow> rect (color_x i - 1) 10 1 20 PAINT_TEXT s;
       rect (color_x i + 20) 10 1 20 PAINT_TEXT s })" by (intro keeps_seq keeps_rect)
    then show "keeps_canvas (\<lambda>s. if v then do {
       s \<leftarrow> rect (color_x i - 1) 9 22 1 PAINT_TEXT s;
       s \<leftarrow> rect (color_x i - 1) 30 22 1 PAINT_TEXT s;
       s \<leftarrow> rect (color_x i - 1) 10 1 20 PAINT_TEXT s;
       rect (color_x i + 20) 10 1 20 PAINT_TEXT s } else Some s)" by (cases v) (simp_all add: keeps_canvas_def)
  qed
  then show ?thesis unfolding p render_color_def prod.case by (intro keeps_seq keeps_rect)
qed

lemma render_canvas_paints:
  assumes "length (pa_canvas r) = 320 * 240"
  shows "paints paint_surface (buffer_ok paint_surface pa_buffer) (buffer_px paint_surface pa_buffer) (\<lambda>s. s\<lparr>pa_buffer := []\<rparr>) r render_canvas
     (\<lambda>i j b. if 40 \<le> j \<and> j < 280 \<and> i < 320 then pa_canvas r ! ((j - 40) * 320 + i) else b)"
proof -
  let ?p = "paints paint_surface (buffer_ok paint_surface pa_buffer) (buffer_px paint_surface pa_buffer) (\<lambda>s. s\<lparr>pa_buffer := []\<rparr>) r"
  have dot: "?p (render_canvas_pixel y x) (\<lambda>i j b. if i = unat x \<and> j = unat (y + 40) then pa_canvas r ! (unat y * 320 + unat x) else b)"
    if x: "x < 320" and y: "y < 240" for x y
  proof (rule pa.paints_at)
    fix s assume s: "buffer_ok paint_surface pa_buffer s" "s\<lparr>pa_buffer := []\<rparr> = r"
    have c: "pa_canvas s = pa_canvas r" using s(2) by auto
    have i: "unat (y * 320 + x) = unat y * 320 + unat x" "unat y * 320 + unat x < 320 * 240"
      using x y by (simp_all add: unat_word_ariths word_less_nat_alt)
    have "y + 40 < 280" using y by (simp add: word_less_nat_alt unat_word_ariths)
    then have "render_canvas_pixel y x s = sf_put paint_surface x (y + 40) (pa_canvas r ! (unat y * 320 + unat x)) s"
      using i assms c x by (simp add: render_canvas_pixel_def paint_surface_def Let_def on_buffer_def raster_put_def paint_dims index_def)
    then show "\<exists>f' g'. render_canvas_pixel y x s = f' s \<and> ?p f' g' \<and>
        (\<forall>i j. i < unat (sf_width paint_surface s) \<longrightarrow> j < unat (sf_height paint_surface s) \<longrightarrow>
          g' i j (buffer_px paint_surface pa_buffer s i j) = (if i = unat x \<and> j = unat (y + 40) then pa_canvas r ! (unat y * 320 + unat x) else buffer_px paint_surface pa_buffer s i j))"
      using pa.put_paints [of r x "y + 40" "pa_canvas r ! (unat y * 320 + unat x)"] by blast
  qed
  have line: "?p (for_each (render_canvas_pixel y) (word_range 0 320))
      (\<lambda>i j b. if j = unat (y + 40) then if i < 320 then pa_canvas r ! (unat y * 320 + unat (of_nat i :: u32)) else b else b)" if y: "y < 240" for y
  proof (rule pa.paints_eq [OF pa.paints_loop])
    show "?p (render_canvas_pixel y x) (\<lambda>i j b. if i = unat x \<and> j = unat (y + 40) then pa_canvas r ! (unat y * 320 + unat x) else b)"
      if "x \<in> set (word_range 0 320)" for x using that y by (intro dot) (simp_all add: set_word_range)
    show "fold (\<lambda>x b. if i = unat x \<and> j = unat (y + 40) then pa_canvas r ! (unat y * 320 + unat x) else b) (word_range 0 320) b
        = (if j = unat (y + 40) then if i < 320 then pa_canvas r ! (unat y * 320 + unat (of_nat i :: u32)) else b else b)" for i j b
      using fold_rows [of i "\<lambda>x b. pa_canvas r ! (unat y * 320 + unat x)" 0 320 b] by (cases "j = unat (y + 40)") simp_all
  qed
  have "?p render_canvas (\<lambda>i j b. if unat (40 :: u32) \<le> j \<and> j < unat (40 :: u32) + unat (240 :: u32)
      then if i < 320 then pa_canvas r ! (unat (of_nat (j - unat (40 :: u32)) :: u32) * 320 + unat (of_nat i :: u32)) else b else b)"
    unfolding render_canvas_def CANVAS_WIDTH_def CANVAS_HEIGHT_def
    by (rule pa.paints_rows_from [where y = 40]) (simp, use line in \<open>simp add: add.commute\<close>)
  then show ?thesis
    by (rule pa.paints_eq) (auto simp: unat_of_nat_less [of _ 320] unat_of_nat_less [of _ 240] simp del: of_nat_diff)
qed

lemma paint_render_shows:
  assumes "paint_ok s"
  shows "\<exists>s'. paint_render fs s = Some s' \<and> paint_ok s' \<and> s'\<lparr>pa_buffer := []\<rparr> = s\<lparr>pa_buffer := []\<rparr> \<and> shows_canvas s'"
proof -
  let ?s0 = "s\<lparr>pa_buffer := replicate (length (pa_buffer s)) PAINT_BG\<rparr>"
  have s0: "paint_ok ?s0" using assms by (simp add: paint_ok_def)
  have "keeps_canvas (\<lambda>s. do { s1 \<leftarrow> rect 0 0 PAINT_WIDTH TOOLBAR_HEIGHT TOOLBAR_BG s; s2 \<leftarrow> render_tools s1; for_each render_color (enumerate 0 COLORS) s2 })"
    by (intro keeps_seq keeps_rect keeps_render_tools keeps_loop keeps_render_color)
  then obtain s3 where 3: "do { s1 \<leftarrow> rect 0 0 PAINT_WIDTH TOOLBAR_HEIGHT TOOLBAR_BG ?s0; s2 \<leftarrow> render_tools s1; for_each render_color (enumerate 0 COLORS) s2 } = Some s3"
    "paint_ok s3" "s3\<lparr>pa_buffer := []\<rparr> = s\<lparr>pa_buffer := []\<rparr>" using s0 unfolding keeps_canvas_def by fastforce
  have "length (pa_canvas (s3\<lparr>pa_buffer := []\<rparr>)) = 320 * 240" using 3(2) by (simp add: paint_ok_def)
  from painted [OF render_canvas_paints [OF this] 3(2)] obtain s4 where 4: "render_canvas s3 = Some s4" "paint_ok s4"
    "s4\<lparr>pa_buffer := []\<rparr> = s3\<lparr>pa_buffer := []\<rparr>"
    "\<And>i j. i < 320 \<Longrightarrow> j < 280 \<Longrightarrow> 40 \<le> j \<Longrightarrow> pa_buffer s4 ! (j * 320 + i) = pa_canvas s3 ! ((j - 40) * 320 + i)" by auto
  have "unat (268 :: u32) + 8 * unat fs < 2 ^ 32" using unsigned_less [of fs, where ?'a = nat] by simp
  then have "paints_below paint_surface (buffer_ok paint_surface pa_buffer) (buffer_px paint_surface pa_buffer) (\<lambda>s. s\<lparr>pa_buffer := []\<rparr>)
      (s4\<lparr>pa_buffer := []\<rparr>) (unat (268 :: u32)) (draw_string paint_surface fs 5 268 (map of_char (pa_status s4)) PAINT_TEXT_DIM None)"
    by (rule pa.draw_string_below)
  then obtain g where
    g: "paints paint_surface (buffer_ok paint_surface pa_buffer) (buffer_px paint_surface pa_buffer) (\<lambda>s. s\<lparr>pa_buffer := []\<rparr>) (s4\<lparr>pa_buffer := []\<rparr>)
      (draw_string paint_surface fs 5 268 (map of_char (pa_status s4)) PAINT_TEXT_DIM None) g" "\<And>i j b. j < 268 \<Longrightarrow> g i j b = b"
    unfolding paints_below_def by auto
  obtain s5 where 5: "render_status fs s4 = Some s5" "paint_ok s5" "s5\<lparr>pa_buffer := []\<rparr> = s4\<lparr>pa_buffer := []\<rparr>"
    "\<And>i j. i < 320 \<Longrightarrow> j < 268 \<Longrightarrow> pa_buffer s5 ! (j * 320 + i) = pa_buffer s4 ! (j * 320 + i)"
  proof (cases "pa_status s4 = []")
    case True
    then show thesis using that [of s4] 4(2) by (simp add: render_status_def)
  next
    case False
    then have "render_status fs s4 = draw_string paint_surface fs 5 268 (map of_char (pa_status s4)) PAINT_TEXT_DIM None s4"
      by (simp add: render_status_def paint_dims)
    with painted [OF g(1) 4(2)] g(2) show thesis using that by auto
  qed
  have "paint_render fs s = Some s5" using 3(1) 4(1) 5(1) by (simp add: paint_render_def Let_def bind_eq_Some_conv) metis
  moreover have "shows_canvas s5" unfolding shows_canvas_def
  proof (intro allI impI)
    fix x y :: nat assume xy: "x < 320" "y < 228"
    then have "pa_buffer s5 ! ((y + 40) * 320 + x) = pa_canvas s3 ! (y * 320 + x)" using 5(4) [of x "y + 40"] 4(4) [of x "y + 40"] by simp
    then show "pa_buffer s5 ! ((y + 40) * 320 + x) = pa_canvas s5 ! (y * 320 + x)" using paint_rest(1) [OF 4(3)] paint_rest(1) [OF 5(3)] by simp
  qed
  ultimately show ?thesis using 5 4(3) 3(3) by (intro exI [of _ s5]) simp
qed

lemma draw_pixel_spec:
  assumes "paint_ok s" "0 \<le> x" "x < 320" "0 \<le> y" "y < 240"
  shows "\<exists>s'. draw_pixel fs (of_int x) (of_int y) s = Some s' \<and> paint_ok s' \<and> shows_canvas s' \<and>
    s'\<lparr>pa_buffer := [], pa_canvas := []\<rparr> = s\<lparr>pa_buffer := [], pa_canvas := []\<rparr> \<and>
    pa_canvas s' = (pa_canvas s)[nat y * 320 + nat x := brush s]"
proof -
  have u: "unat (of_int v :: u32) = nat v" if "0 \<le> v" "v < 320" for v
  proof -
    have "(of_int v :: u32) = of_nat (nat v)" using that(1) by simp
    moreover have "nat v < 2 ^ 32" using that(2) by simp
    then have "unat (of_nat (nat v) :: u32) = nat v" by (simp add: unsigned_of_nat take_bit_nat_eq_self)
    ultimately show ?thesis by metis
  qed
  have xy: "unat (of_int x :: u32) = nat x" "unat (of_int y :: u32) = nat y" "nat x < 320" "nat y < 240" using assms u by auto
  have on: "\<not> ((of_int x :: u32) \<ge> CANVAS_WIDTH \<or> (of_int y :: u32) \<ge> CANVAS_HEIGHT)"
    using xy by (simp add: word_le_nat_alt paint_dims)
  have i: "unat ((of_int y :: u32) * CANVAS_WIDTH + of_int x) = nat y * 320 + nat x"
    using xy by (simp add: unat_word_ariths paint_dims)
  have lt: "nat y * 320 + nat x < length (pa_canvas s)" using xy assms(1) by (simp add: paint_ok_def)
  let ?s = "s\<lparr>pa_canvas := (pa_canvas s)[nat y * 320 + nat x := brush s]\<rparr>"
  have "paint_ok ?s" using assms(1) by (simp add: paint_ok_def)
  from paint_render_shows [OF this] obtain s' where s': "paint_render fs ?s = Some s'" "paint_ok s'"
    "s'\<lparr>pa_buffer := []\<rparr> = ?s\<lparr>pa_buffer := []\<rparr>" "shows_canvas s'" by blast
  have "s'\<lparr>pa_buffer := [], pa_canvas := []\<rparr> = s\<lparr>pa_buffer := [], pa_canvas := []\<rparr>"
    using arg_cong [OF s'(3), of "\<lambda>s. s\<lparr>pa_canvas := []\<rparr>"] by simp
  moreover have "pa_canvas s' = (pa_canvas s)[nat y * 320 + nat x := brush s]" using paint_rest(1) [OF s'(3)] by simp
  moreover have "draw_pixel fs (of_int x) (of_int y) s = Some s'"
    unfolding draw_pixel_def if_not_P [OF on] i using s'(1) lt by (simp add: store_def)
  ultimately show ?thesis using s' by blast
qed

section \<open>Lines\<close>

text \<open>Painting a list of pixels, and the two properties of a line: neighbouring pixels, each at most half a pixel off
  the straight line between the ends.\<close>

definition stroke :: "u32 \<Rightarrow> (int \<times> int) list \<Rightarrow> u32 list \<Rightarrow> u32 list" where
  "stroke color pts canvas = fold (\<lambda>(x, y) c. c[nat y * 320 + nat x := color]) pts canvas"

definition neighbours :: "int \<times> int \<Rightarrow> int \<times> int \<Rightarrow> bool" where
  "neighbours p q \<longleftrightarrow> p \<noteq> q \<and> \<bar>fst q - fst p\<bar> \<le> 1 \<and> \<bar>snd q - snd p\<bar> \<le> 1"

definition near_line :: "int \<Rightarrow> int \<Rightarrow> int \<Rightarrow> int \<Rightarrow> int \<times> int \<Rightarrow> bool" where
  "near_line x0 y0 x1 y1 p \<longleftrightarrow>
     2 * \<bar>(x1 - x0) * (snd p - y0) - (y1 - y0) * (fst p - x0)\<bar> \<le> max \<bar>x1 - x0\<bar> \<bar>y1 - y0\<bar>"

text \<open>After \<open>i\<close> steps along one axis and \<open>j\<close> along the other, on the way of \<open>a\<close> and \<open>b\<close> steps.\<close>

definition on_way :: "int \<Rightarrow> int \<Rightarrow> int \<Rightarrow> int \<Rightarrow> bool" where
  "on_way a b i j \<longleftrightarrow> 0 \<le> i \<and> i \<le> a \<and> 0 \<le> j \<and> j \<le> b \<and> \<bar>2 * (a * j - b * i)\<bar> \<le> max a b"

lemma way_step:
  assumes "on_way a b i j" "\<not> (i = a \<and> j = b)"
  defines "e2 \<equiv> 2 * (a * (1 + j) - b * (1 + i))"
  defines "i' \<equiv> if e2 \<ge> - b then i + 1 else i" and "j' \<equiv> if e2 \<le> a then j + 1 else j"
  shows "\<not> (e2 \<ge> - b \<and> i = a)" "\<not> (e2 \<le> a \<and> j = b)" "on_way a b i' j'" "(i', j') \<noteq> (i, j)" "i \<le> i'" "j \<le> j'" "i' \<le> i + 1" "j' \<le> j + 1"
proof -
  define D where "D = a * j - b * i"
  have e: "e2 = 2 * D + 2 * a - 2 * b" by (simp add: e2_def D_def algebra_simps)
  have w: "0 \<le> i" "i \<le> a" "0 \<le> j" "j \<le> b" "\<bar>2 * D\<bar> \<le> max a b" using assms(1) by (simp_all add: on_way_def D_def)
  show A: "\<not> (e2 \<ge> - b \<and> i = a)"
  proof
    assume h: "e2 \<ge> - b \<and> i = a"
    then have "j < b" using assms(2) w by auto
    have "D = - (a * (b - j))" using h by (simp add: D_def algebra_simps)
    then have "2 * (a * (b - j)) \<le> 2 * a - b" using h e by linarith
    moreover have "a * 1 \<le> a * (b - j)" using w \<open>j < b\<close> by (intro mult_left_mono) simp_all
    ultimately show False using w \<open>j < b\<close> by linarith
  qed
  show B: "\<not> (e2 \<le> a \<and> j = b)"
  proof
    assume h: "e2 \<le> a \<and> j = b"
    then have "i < a" using assms(2) w by auto
    have "D = b * (a - i)" using h by (simp add: D_def algebra_simps)
    then have "2 * (b * (a - i)) \<le> 2 * b - a" using h e by linarith
    moreover have "b * 1 \<le> b * (a - i)" using w \<open>i < a\<close> by (intro mult_left_mono) simp_all
    ultimately show False using w \<open>i < a\<close> by linarith
  qed
  have D': "a * j' - b * i' = D + (if e2 \<le> a then a else 0) - (if e2 \<ge> - b then b else 0)"
    by (simp add: D_def i'_def j'_def algebra_simps)
  have "\<bar>2 * (a * j' - b * i')\<bar> \<le> max a b" unfolding D' using w e by (auto simp: max_def abs_if split: if_splits)
  then show "on_way a b i' j'" using w A B by (auto simp: on_way_def i'_def j'_def)
  show "(i', j') \<noteq> (i, j)" using w by (auto simp: i'_def j'_def)
qed (simp_all add: i'_def j'_def)

lemma way_shorter:
  "i \<le> i' \<Longrightarrow> j \<le> j' \<Longrightarrow> i' \<le> a \<Longrightarrow> j' \<le> b \<Longrightarrow> (i', j') \<noteq> (i, j) \<Longrightarrow> nat (a - i') + nat (b - j') < nat (a - i) + nat (b - j)"
  for a b i j :: int
  by auto

lemma way_neighbours:
  "sx = 1 \<or> sx = - 1 \<Longrightarrow> sy = 1 \<or> sy = - 1 \<Longrightarrow> (i', j') \<noteq> (i, j) \<Longrightarrow> i \<le> i' \<Longrightarrow> j \<le> j' \<Longrightarrow> i' \<le> i + 1 \<Longrightarrow> j' \<le> j + 1 \<Longrightarrow>
     neighbours (x0 + sx * i, y0 + sy * j) (x0 + sx * i', y0 + sy * j')"
  by (auto simp: neighbours_def)

lemma line_loop_spec:
  assumes "on_way a b i j" "sx = 1 \<or> sx = - 1" "sy = 1 \<or> sy = - 1" "paint_ok s"
    and "\<And>i. 0 \<le> i \<Longrightarrow> i \<le> a \<Longrightarrow> 0 \<le> x0 + sx * i \<and> x0 + sx * i < 320" "\<And>j. 0 \<le> j \<Longrightarrow> j \<le> b \<Longrightarrow> 0 \<le> y0 + sy * j \<and> y0 + sy * j < 240"
  shows "\<exists>s' pts. line_loop fs (x0 + sx * a) (y0 + sy * b) a (- b) sx sy (x0 + sx * i) (y0 + sy * j) (a * (1 + j) - b * (1 + i)) s = Some s' \<and>
    paint_ok s' \<and> shows_canvas s' \<and> s'\<lparr>pa_buffer := [], pa_canvas := []\<rparr> = s\<lparr>pa_buffer := [], pa_canvas := []\<rparr> \<and>
    pa_canvas s' = stroke (brush s) pts (pa_canvas s) \<and> pts \<noteq> [] \<and> hd pts = (x0 + sx * i, y0 + sy * j) \<and> last pts = (x0 + sx * a, y0 + sy * b) \<and>
    successively neighbours pts \<and> (\<forall>p \<in> set pts. \<exists>i j. p = (x0 + sx * i, y0 + sy * j) \<and> on_way a b i j)"
  using assms(1,4)
proof (induction "nat (a - i) + nat (b - j)" arbitrary: i j s rule: less_induct)
  case less
  let ?x = "x0 + sx * i" and ?y = "y0 + sy * j" and ?e2 = "2 * (a * (1 + j) - b * (1 + i))"
  have w: "0 \<le> i" "i \<le> a" "0 \<le> j" "j \<le> b" using less.prems(1) by (simp_all add: on_way_def)
  have on: "0 \<le> ?x" "?x < 320" "0 \<le> ?y" "?y < 240" using assms(5) [of i] assms(6) [of j] w by auto
  have at: "?x = x0 + sx * a \<longleftrightarrow> i = a" "?y = y0 + sy * b \<longleftrightarrow> j = b" using assms(2,3) by auto
  from draw_pixel_spec [OF less.prems(2) on] obtain s1 where 1: "draw_pixel fs (of_int ?x) (of_int ?y) s = Some s1" "paint_ok s1" "shows_canvas s1"
    "s1\<lparr>pa_buffer := [], pa_canvas := []\<rparr> = s\<lparr>pa_buffer := [], pa_canvas := []\<rparr>" "pa_canvas s1 = (pa_canvas s)[nat ?y * 320 + nat ?x := brush s]" by blast
  have br: "brush s1 = brush s" using arg_cong [OF 1(4), of pa_tool] arg_cong [OF 1(4), of pa_color] by (simp add: brush_def split: tool.split)
  have guard: "?x \<ge> 0 \<and> ?y \<ge> 0 \<and> ?x < uint CANVAS_WIDTH \<and> ?y < uint CANVAS_HEIGHT" using on by (simp add: paint_dims)
  show ?case
  proof (cases "i = a \<and> j = b")
    case True
    have "line_loop fs (x0 + sx * a) (y0 + sy * b) a (- b) sx sy ?x ?y (a * (1 + j) - b * (1 + i)) s = Some s1"
      by (subst line_loop.simps) (use guard 1(1) True in simp)
    then show ?thesis using 1 True less.prems(1) by (intro exI [of _ s1] exI [of _ "[(?x, ?y)]"]) (auto simp: stroke_def)
  next
    case False
    let ?i = "if ?e2 \<ge> - b then i + 1 else i" and ?j = "if ?e2 \<le> a then j + 1 else j"
    note ws = way_step [OF less.prems(1) False]
    have w': "?i \<le> a" "?j \<le> b" using ws(3) by (simp_all add: on_way_def)
    have "nat (a - ?i) + nat (b - ?j) < nat (a - i) + nat (b - j)" by (rule way_shorter [OF ws(5,6) w' ws(4)])
    from less.hyps [OF this ws(3) 1(2)] obtain s' pts where IH:
      "line_loop fs (x0 + sx * a) (y0 + sy * b) a (- b) sx sy (x0 + sx * ?i) (y0 + sy * ?j) (a * (1 + ?j) - b * (1 + ?i)) s1 = Some s'"
      "paint_ok s'" "shows_canvas s'" "s'\<lparr>pa_buffer := [], pa_canvas := []\<rparr> = s1\<lparr>pa_buffer := [], pa_canvas := []\<rparr>"
      "pa_canvas s' = stroke (brush s1) pts (pa_canvas s1)" "pts \<noteq> []" "hd pts = (x0 + sx * ?i, y0 + sy * ?j)" "last pts = (x0 + sx * a, y0 + sy * b)"
      "successively neighbours pts" "\<forall>p \<in> set pts. \<exists>i j. p = (x0 + sx * i, y0 + sy * j) \<and> on_way a b i j" by blast
    have "line_loop fs (x0 + sx * a) (y0 + sy * b) a (- b) sx sy ?x ?y (a * (1 + j) - b * (1 + i)) s
        = line_loop fs (x0 + sx * a) (y0 + sy * b) a (- b) sx sy (x0 + sx * ?i) (y0 + sy * ?j) (a * (1 + ?j) - b * (1 + ?i)) s1"
    proof -
      have k: "\<not> (?x = x0 + sx * a \<and> ?y = y0 + sy * b)" "\<not> (?e2 \<ge> - b \<and> ?x = x0 + sx * a)" "\<not> (?e2 \<le> a \<and> ?y = y0 + sy * b)"
        using False ws(1,2) unfolding at by blast+
      have args: "(if ?e2 \<ge> - b then ?x + sx else ?x) = x0 + sx * ?i" "(if ?e2 \<le> a then ?y + sy else ?y) = y0 + sy * ?j"
        "(if ?e2 \<le> a then (if ?e2 \<ge> - b then a * (1 + j) - b * (1 + i) + - b else a * (1 + j) - b * (1 + i)) + a
          else (if ?e2 \<ge> - b then a * (1 + j) - b * (1 + i) + - b else a * (1 + j) - b * (1 + i))) = a * (1 + ?j) - b * (1 + ?i)"
        by (simp_all add: algebra_simps)
      show ?thesis
        unfolding line_loop.simps [of fs "x0 + sx * a" "y0 + sy * b" a "- b" sx sy ?x ?y "a * (1 + j) - b * (1 + i)" s]
        unfolding if_P [OF guard] 1(1) Option.bind.bind_lunit Let_def if_not_P [OF k(1)] if_not_P [OF k(2)] if_not_P [OF k(3)] args ..
    qed
    then have run: "line_loop fs (x0 + sx * a) (y0 + sy * b) a (- b) sx sy ?x ?y (a * (1 + j) - b * (1 + i)) s = Some s'" using IH(1) by simp
    have "neighbours (?x, ?y) (hd pts)" unfolding IH(7) by (rule way_neighbours [OF assms(2,3) ws(4-8)])
    then have "successively neighbours ((?x, ?y) # pts)" using IH(6,9) by (cases pts) simp_all
    moreover have "pa_canvas s' = stroke (brush s) ((?x, ?y) # pts) (pa_canvas s)" using IH(5) br 1(5) by (simp add: stroke_def)
    ultimately show ?thesis using run IH 1(4) less.prems(1) by (intro exI [of _ s'] exI [of _ "(?x, ?y) # pts"]) auto
  qed
qed

text \<open>C39: A line between two pixels of the canvas: the loop ends, and it has painted, in the colour of the tool, a chain of
  neighbouring pixels from the first end to the last, all on the canvas and none more than half a pixel off the straight
  line, and nothing else; the window shows the new canvas.\<close>

theorem draw_line_correct:
  assumes "paint_ok s" "0 \<le> x0" "x0 < 320" "0 \<le> y0" "y0 < 240" "0 \<le> x1" "x1 < 320" "0 \<le> y1" "y1 < 240"
  shows "\<exists>s' pts. draw_line fs x0 y0 x1 y1 s = Some s' \<and> pa_canvas s' = stroke (brush s) pts (pa_canvas s) \<and>
    pts \<noteq> [] \<and> hd pts = (x0, y0) \<and> last pts = (x1, y1) \<and> successively neighbours pts \<and>
    (\<forall>(x, y) \<in> set pts. 0 \<le> x \<and> x < 320 \<and> 0 \<le> y \<and> y < 240 \<and> near_line x0 y0 x1 y1 (x, y)) \<and> paint_ok s' \<and> shows_canvas s'"
proof -
  let ?a = "\<bar>x1 - x0\<bar>" and ?b = "\<bar>y1 - y0\<bar>"
  define sx sy :: int where "sx = (if x0 < x1 then 1 else - 1)" and "sy = (if y0 < y1 then 1 else - 1)"
  have e: "x0 + sx * ?a = x1" "y0 + sy * ?b = y1" by (auto simp: sx_def sy_def)
  have x: "0 \<le> x0 + sx * i \<and> x0 + sx * i < 320" if "0 \<le> i" "i \<le> ?a" for i using that assms by (auto simp: sx_def)
  have y: "0 \<le> y0 + sy * j \<and> y0 + sy * j < 240" if "0 \<le> j" "j \<le> ?b" for j using that assms by (auto simp: sy_def)
  have "on_way ?a ?b 0 0" "sx = 1 \<or> sx = - 1" "sy = 1 \<or> sy = - 1" by (simp_all add: on_way_def sx_def sy_def)
  from line_loop_spec [OF this assms(1) x y, of fs] obtain s' pts where L:
    "line_loop fs x1 y1 ?a (- ?b) sx sy x0 y0 (?a - ?b) s = Some s'" "paint_ok s'" "shows_canvas s'"
    "pa_canvas s' = stroke (brush s) pts (pa_canvas s)" "pts \<noteq> []" "hd pts = (x0, y0)" "last pts = (x1, y1)"
    "successively neighbours pts" "\<forall>p \<in> set pts. \<exists>i j. p = (x0 + sx * i, y0 + sy * j) \<and> on_way ?a ?b i j"
    unfolding e by auto
  have "0 \<le> px \<and> px < 320 \<and> 0 \<le> py \<and> py < 240 \<and> near_line x0 y0 x1 y1 (px, py)" if p: "(px, py) \<in> set pts" for px py
  proof -
    from L(9) p obtain i j where ij: "px = x0 + sx * i" "py = y0 + sy * j" "on_way ?a ?b i j" by fastforce
    have "(x1 - x0) * (sy * j) - (y1 - y0) * (sx * i) = sx * sy * (?a * j - ?b * i)" by (auto simp: sx_def sy_def algebra_simps)
    then have "\<bar>(x1 - x0) * (py - y0) - (y1 - y0) * (px - x0)\<bar> = \<bar>?a * j - ?b * i\<bar>" using ij(1,2) by (simp add: abs_mult sx_def sy_def)
    moreover have "2 * \<bar>?a * j - ?b * i\<bar> = \<bar>2 * (?a * j - ?b * i)\<bar>" by (simp only: abs_mult abs_numeral)
    ultimately have "near_line x0 y0 x1 y1 (px, py)" using ij(3) by (simp only: near_line_def on_way_def fst_conv snd_conv)
    then show ?thesis using x y ij by (auto simp: on_way_def)
  qed
  moreover have "draw_line fs x0 y0 x1 y1 s = Some s'" using L(1) by (simp add: draw_line_def Let_def sx_def sy_def)
  ultimately show ?thesis using L by (intro exI [of _ s'] exI [of _ pts]) blast
qed

definition demo_paint :: paint_app where
  "demo_paint = \<lparr>pa_buffer = replicate 89600 PAINT_BG, pa_canvas = replicate 76800 CANVAS_BG, pa_color = 0xFF0000, pa_tool = Pen,
     pa_drawing = True, pa_last_x = 10, pa_last_y = 10, pa_status = [], pa_path = []\<rparr>"

theorem draw_line_correct_witness:
  "\<exists>s' pts. draw_line 1 10 10 300 20 demo_paint = Some s' \<and> pa_canvas s' = stroke 0xFF0000 pts (pa_canvas demo_paint) \<and> last pts = (300, 20)"
proof -
  have "\<exists>s' pts. draw_line 1 10 10 300 20 demo_paint = Some s' \<and> pa_canvas s' = stroke (brush demo_paint) pts (pa_canvas demo_paint) \<and>
    pts \<noteq> [] \<and> hd pts = (10, 10) \<and> last pts = (300, 20) \<and> successively neighbours pts \<and>
    (\<forall>(x, y) \<in> set pts. 0 \<le> x \<and> x < 320 \<and> 0 \<le> y \<and> y < 240 \<and> near_line 10 10 300 20 (x, y)) \<and> paint_ok s' \<and> shows_canvas s'"
    by (rule draw_line_correct) (simp_all add: paint_ok_def demo_paint_def)
  moreover have "brush demo_paint = 0xFF0000" by (simp add: brush_def demo_paint_def)
  ultimately show ?thesis by auto
qed

section \<open>Images on disk\<close>

lemma take_chunk:
  assumes "\<And>x. length (f x) = k"
  shows "i < length xs \<Longrightarrow> take k (drop (i * k) (concat (map f xs))) = f (xs ! i)"
proof (induction xs arbitrary: i)
  case (Cons x xs)
  show ?case
  proof (cases i)
    case 0
    then show ?thesis using assms by simp
  next
    case (Suc n)
    then have "drop (i * k) (concat (map f (x # xs))) = drop (n * k) (concat (map f xs))" using assms [of x] by simp
    then show ?thesis using Cons Suc by simp
  qed
qed simp

lemma length_chunks: "(\<And>x. length (f x) = k) \<Longrightarrow> length (concat (map f xs)) = length xs * k"
  by (induction xs) auto

lemma load_pixels:
  assumes "length (pa_canvas s) = length ps" "n \<le> length ps"
  shows "for_each (\<lambda>i s. do { bs \<leftarrow> slice (concat (map (\<lambda>p. to_le 4 (unat p)) ps)) (i * 4) 4;
       canvas \<leftarrow> store (pa_canvas s) i (of_nat (le_nat bs)); Some (s\<lparr>pa_canvas := canvas\<rparr>) }) [0..<n] s
     = Some (s\<lparr>pa_canvas := take n ps @ drop n (pa_canvas s)\<rparr>)"
  using assms(2)
proof (induction n)
  case (Suc n)
  let ?data = "concat (map (\<lambda>p. to_le 4 (unat p)) ps)"
  have "n * 4 + 4 \<le> length ?data" using Suc.prems by (subst length_chunks [of _ 4]) simp_all
  then have "slice ?data (n * 4) 4 = Some (to_le 4 (unat (ps ! n)))"
    using take_chunk [of "\<lambda>p. to_le 4 (unat p)" 4 n ps] Suc.prems by (simp add: slice_def)
  moreover have "(of_nat (le_nat (to_le 4 (unat (ps ! n)))) :: u32) = ps ! n"
    using unsigned_less [of "ps ! n", where ?'a = nat] by (simp add: le_nat_to_le)
  moreover have "(take n ps @ drop n (pa_canvas s))[n := ps ! n] = take (Suc n) ps @ drop (Suc n) (pa_canvas s)"
    using Suc.prems assms(1) Cons_nth_drop_Suc [of n "pa_canvas s", symmetric] by (simp add: list_update_append take_Suc_conv_app_nth)
  ultimately show ?case using Suc assms(1) by (simp add: for_each_append store_def)
qed simp

text \<open>C40: The bytes that saving writes for a canvas, loaded into any paint window, give that canvas back, and the window
  shows it; bytes of any other length leave the canvas as it is.\<close>

theorem load_saved_image:
  assumes "paint_ok s" "paint_ok s'"
  shows "(\<exists>s2. load_image fs path (canvas_bytes s) s' = Some s2 \<and> pa_canvas s2 = pa_canvas s \<and> pa_path s2 = path \<and> shows_canvas s2) \<and>
    (length data \<noteq> 307200 \<longrightarrow> (\<exists>s2. load_image fs path data s' = Some s2 \<and> pa_canvas s2 = pa_canvas s' \<and> pa_path s2 = pa_path s'))"
proof
  have n: "length (pa_canvas s) = 76800" "length (pa_canvas s') = 76800" using assms by (simp_all add: paint_ok_def)
  have len: "length (canvas_bytes s) = 307200" unfolding canvas_bytes_def using n by (subst length_chunks [of _ 4]) simp_all
  let ?s1 = "s'\<lparr>pa_canvas := pa_canvas s, pa_path := path, pa_status := ''Loaded '' @ path\<rparr>"
  have "paint_ok ?s1" using assms by (simp add: paint_ok_def)
  from paint_render_shows [OF this] obtain s2 where s2: "paint_render fs ?s1 = Some s2" "shows_canvas s2"
    "s2\<lparr>pa_buffer := []\<rparr> = ?s1\<lparr>pa_buffer := []\<rparr>" by blast
  have "pa_canvas s2 = pa_canvas s" "pa_path s2 = path"
    using arg_cong [OF s2(3), of pa_canvas] arg_cong [OF s2(3), of pa_path] by simp_all
  moreover have "load_image fs path (canvas_bytes s) s' = Some s2"
    using load_pixels [of s' "pa_canvas s" 76800] n len s2(1)
    by (simp add: load_image_def Let_def paint_dims canvas_bytes_def)
  ultimately show "\<exists>s2. load_image fs path (canvas_bytes s) s' = Some s2 \<and> pa_canvas s2 = pa_canvas s \<and> pa_path s2 = path \<and> shows_canvas s2"
    using s2(2) by blast
  show "length data \<noteq> 307200 \<longrightarrow> (\<exists>s2. load_image fs path data s' = Some s2 \<and> pa_canvas s2 = pa_canvas s' \<and> pa_path s2 = pa_path s')"
  proof
    assume d: "length data \<noteq> 307200"
    let ?e = "s'\<lparr>pa_status := ''Invalid image size (expected '' @ nat_str 307200 @ '' bytes)''\<rparr>"
    have "paint_ok ?e" using assms(2) by (simp add: paint_ok_def)
    from paint_render_shows [OF this, of fs] obtain s3 where s3: "paint_render fs ?e = Some s3" "s3\<lparr>pa_buffer := []\<rparr> = ?e\<lparr>pa_buffer := []\<rparr>" by blast
    have "pa_canvas s3 = pa_canvas s'" "pa_path s3 = pa_path s'" using arg_cong [OF s3(2), of pa_canvas] arg_cong [OF s3(2), of pa_path] by simp_all
    moreover have "unat (CANVAS_WIDTH * CANVAS_HEIGHT * 4) = 307200" by (simp add: paint_dims)
    ultimately show "\<exists>s2. load_image fs path data s' = Some s2 \<and> pa_canvas s2 = pa_canvas s' \<and> pa_path s2 = pa_path s'"
      using d s3(1) unfolding load_image_def Let_def by (simp only: if_True simp_thms) blast
  qed
qed

theorem load_saved_image_witness:
  "\<exists>s2. load_image 1 ''p.raw'' (canvas_bytes demo_paint) demo_paint = Some s2 \<and> pa_canvas s2 = replicate 76800 CANVAS_BG"
proof -
  have "paint_ok demo_paint" by (simp add: paint_ok_def demo_paint_def)
  from load_saved_image [OF this this, of 1 "''p.raw''" "[]"] show ?thesis by (auto simp: demo_paint_def)
qed

end
