(* ===== verification/Spec2Isabelle.thy ===== *)
theory Spec2Isabelle
  imports Machine Multiboot Pmm Allocator Paging Slots Shm Socket Elf Fat Fat_Volume Fat_Names Vfs Process Process_Memory Task Loader Loader_Memory Loader_Segments Loader_Spawn Syscall Linux_Abi Syscall_Safety Ring Keyboard Mouse Rtc Decimal Calculator Session
    Font Gfx Gfx_Shadow Gfx_Scale Gfx_Buffer Fb Console Paint
begin

text \<open>
  A model of MachaOS (\<open>src/src\<close>), a freestanding x86-64 kernel in Rust, with the theorems that make its
  components correct.

  The program. The boot loader leaves a Multiboot information block (\<open>multiboot.rs\<close>); from its memory map
  \<open>pmm.rs\<close> builds the bitmap of physical frames, and \<open>allocator.rs\<close> takes 40 MiB of them for the
  kernel heap. \<open>paging.rs\<close> edits the page tables, \<open>elf.rs\<close> parses the programs that run as processes, and
  \<open>vfs.rs\<close> opens the files of the FAT32 volume of \<open>fat.rs\<close>. \<open>process.rs\<close> keeps the address space, the
  descriptors and the exit state of a process, and \<open>task.rs\<close> switches between processes and kernel
  tasks at the timer. Processes share memory through the
  reference-counted objects of \<open>shm.rs\<close>, which they pass to each other over the stream sockets of
  \<open>socket.rs\<close>. \<open>keyboard.rs\<close> and \<open>mouse.rs\<close> decode interrupts into event queues, \<open>rtc.rs\<close> reads the
  wall clock. \<open>gfx.rs\<close> draws on any surface that implements its trait, \<open>fb.rs\<close> keeps the back buffer of the
  display and copies it out, \<open>console.rs\<close> writes text on it with the glyphs of \<open>font.rs\<close>. On top run the
  desktop applications, of which the calculator (\<open>calculator.rs\<close>), the paint program (\<open>paint.rs\<close>) and the
  store of the desktop session (\<open>session.rs\<close>, \<open>users.rs\<close>) are modelled.

  Conventions. The kernel is built in release mode (\<open>Makefile\<close>), so arithmetic wraps: \<open>usize\<close> is a natural
  number with \<open>wadd\<close>, \<open>wsub\<close> and the saturating and checked forms written out, \<open>u8\<close> to \<open>u64\<close> are words,
  \<open>i32\<close> and \<open>i64\<close> integers with their range or wrap-around stated. A panic is \<open>None\<close>, a normal return
  \<open>Some\<close> (\<open>exec\<close>); a Rust \<open>Result\<close> is a sum inside it. Spin locks are left out: there is one CPU and
  every modelled operation runs under its lock or with interrupts off. Hardware registers, port reads,
  linker symbols and raw memory are parameters or fields of the state. Loops are structural recursion,
  \<open>function\<close> with a measure, or, where the source follows pointers or polls a device,
  \<open>partial_function\<close>, and then it is a theorem that they return; no fuel is used.

  The theories.
  \<^item> \<open>Machine\<close>: machine integers, little-endian bytes, slices, checked indexing, loops that may panic.
  \<^item> \<open>Multiboot\<close> (\<open>multiboot.rs\<close>): the accessors of the information block and the memory map iterator.
  \<^item> \<open>Pmm\<close> (\<open>pmm.rs\<close>): \<open>pmm_init\<close>, \<open>frame_alloc\<close>, \<open>alloc_contiguous\<close>, \<open>frame_free\<close> and the statistics on
    the bitmap. Shown: exactly the right frames are available after boot, allocation is a complete
    first fit, release restores. The locale \<open>frame_source\<close> is the contract its clients use.
  \<^item> \<open>Allocator\<close> (\<open>allocator.rs\<close>): the free list at the level of headers and pointers. It refines a tiling
    of the heap; every reachable heap has disjoint, aligned live blocks, no operation gets stuck in the
    list, and releasing everything restores the initial block. The byte counter underflow is proved.
  \<^item> \<open>Paging\<close> (\<open>paging.rs\<close>): the four-level tables entry by entry, against the processor's page walk:
    mapping and unmapping a range change exactly the translations of the range, and ring 3 gains access
    to nothing else.
  \<^item> \<open>Slots\<close>, \<open>Shm\<close> (\<open>shm.rs\<close>), \<open>Socket\<close> (\<open>socket.rs\<close>): tables of reusable ids behind the locale
    \<open>slot_allocator\<close>; no operation loses a frame, contents survive growth, reference counts are exact in
    every reachable state, connections pair up, streams arrive in order; a stale id misdelivers.
  \<^item> \<open>Elf\<close> (\<open>elf.rs\<close>): the parser never panics, returns only segments inside the file, and inverts a
    reference encoder.
  \<^item> \<open>Ring\<close>, \<open>Keyboard\<close> (\<open>keyboard.rs\<close>), \<open>Mouse\<close> (\<open>mouse.rs\<close>): the ring buffer as a \<open>bounded_fifo\<close>,
    the scancode decoder and the packet assembler; events arrive whole and in order.
  \<^item> \<open>Rtc\<close> (\<open>rtc.rs\<close>): the clock is read correctly in all encodings but BCD 12-hour, where it is not.
  \<^item> \<open>Fat\<close> (\<open>fat.rs\<close>), \<open>Fat_Volume\<close>, \<open>Fat_Names\<close>: the FAT32 volume over a disk of sectors. File contents and
    directory entries round trip; a new directory entry may destroy old ones.
  \<^item> \<open>Vfs\<close> (\<open>vfs.rs\<close>): open files; writing refines a byte file, reading behind the end panics.
  \<^item> \<open>Process\<close> (\<open>process.rs\<close>): the process object, its descriptors and its memory operations on the state of
    the kernel below it. \<open>Process_Memory\<close>: an invariant of tables, frames and mappings that every
    operation on private memory keeps; processes reach only their own frames. Freeing the stack breaks it.
  \<^item> \<open>Loader\<close> (\<open>process.rs\<close>): building an address space, loading segments, the native and the Linux stack,
    and the two spawn functions. \<open>Loader_Memory\<close>: the copied tables translate as the kernel's do, and the
    frames of a process under construction are accounted for. \<open>Loader_Segments\<close>: segments arrive with their
    permissions and contents; a gap between them may cover the kernel heap. \<open>Loader_Spawn\<close>: the initial
    stack follows the System V layout, and spawning adds an isolated process or restores everything.
  \<^item> \<open>Task\<close> (\<open>task.rs\<close>, and \<open>process.rs\<close> where it goes through the table): the context switch, the round
    robin and the task table. Tasks resume as they were left, every runnable task gets its turn; removing
    a task may lose track of the running one.
  \<^item> \<open>Syscall\<close> (\<open>syscall.rs\<close>): the entry assembly, pointer validation and the native calls, on the state \<open>os\<close> of
    tasks, kernel, keyboard, clock and console; the registers of the process survive a call. \<open>Linux_Abi\<close>
    (\<open>linux_abi.rs\<close>): every Linux call with its error paths. Kernel accesses to the memory of a process go to
    the physical address, as under the kernel's identity map. \<open>Syscall_Safety\<close>: rules for what an operation
    keeps and, from them, that no call of either table lets a process reach memory of another.
  \<^item> \<open>Decimal\<close>, \<open>Calculator\<close> (\<open>calculator.rs\<close>): decimal text round trips; the calculator never panics and
    evaluates chains of operations.
  \<^item> \<open>Session\<close> (\<open>session.rs\<close>, \<open>users.rs\<close>): the session text round trips and parsing normalises any file.
  \<^item> \<open>Font\<close> (\<open>font.rs\<close>), \<open>Gfx\<close>, \<open>Gfx_Shadow\<close>, \<open>Gfx_Scale\<close> (\<open>gfx.rs\<close>): the glyphs, the surface trait as the locales
    \<open>raster\<close> and \<open>readable\<close>, the drawing operations as what they paint, the one-pass window shadow, and the
    image scaler, which computes the bilinear interpolation whatever its row cache holds. \<open>Gfx_Buffer\<close>: surfaces
    stored as rows of a pixel vector (\<open>pixel_buffer\<close>, \<open>readable_buffer\<close>), from which the trait follows.
  \<^item> \<open>Fb\<close> (\<open>fb.rs\<close>): the back buffer, its regions and its presentation on the display memory. The row-wise
    operations agree with the defaults of the trait, the shadow stays within 2 of the nested blends it
    replaces, saved regions restore, and what is presented is what was drawn.
  \<^item> \<open>Console\<close> (\<open>console.rs\<close>): writing text refines a teletype over a grid of characters.
  \<^item> \<open>Paint\<close> (\<open>paint.rs\<close>): the canvas, its events and its file; lines end and follow the straight line within
    half a pixel, and a saved canvas loads.

  This theory adds what spans components: booting through \<open>pmm\<close> and \<open>allocator\<close> yields a sound heap.

  Not modelled. Assembly stubs, port and register access (\<open>port.rs\<close>, \<open>pic.rs\<close>, \<open>pit.rs\<close>, \<open>gdt.rs\<close>,
  \<open>idt.rs\<close>, \<open>isr_table.rs\<close>, \<open>interrupts.rs\<close>, \<open>serial.rs\<close>, \<open>cpuid.rs\<close>), which have no state of their own beyond
  the devices; the window manager and the remaining applications (\<open>wm.rs\<close>, \<open>shell.rs\<close>, \<open>file_explorer.rs\<close>,
  \<open>settings.rs\<close>, \<open>image_viewer.rs\<close>, \<open>wayland.rs\<close>), and the test programs under \<open>user/\<close>.
\<close>

section \<open>From boot to a usable heap\<close>

lemma boot_heap_run:
  assumes "pmm_inv p" "alloc_contiguous n p = Some (Some a, p')" "0 < n" "\<forall>g \<in> avail p. LOW_RESERVED_END \<le> g * FRAME_SIZE"
  shows "\<exists>f. a = f * FRAME_SIZE \<and> {f..<f + n} \<subseteq> avail p \<and> avail p' = avail p - {f..<f + n} \<and> LOW_RESERVED_END \<le> a
    \<and> a + n * FRAME_SIZE \<le> MAX_PHYS_MEM"
proof -
  from frames.take_cases [OF assms(1,3)] assms(2) obtain f where f: "a = f * FRAME_SIZE" "{f..<f + n} \<subseteq> avail p"
      "avail p' = avail p - {f..<f + n}"
    by auto
  have "f \<in> avail p" "f + n - 1 \<in> avail p" using f(2) assms(3) by auto
  then have "LOW_RESERVED_END \<le> f * FRAME_SIZE" "f + n - 1 < FRAME_COUNT"
    using assms(1,4) by (auto simp: avail_def pmm_inv_def)
  with f assms(3) show ?thesis by (auto simp: pmm_consts)
qed



end
